(* ===== verification/Prelude.thy ===== *)
theory Prelude
  imports Main "HOL-Library.Word" "HOL-Library.AList"
begin

text \<open>
  Shared vocabulary of the development: Python exceptions as values, the error-passing
  sequencing used by every fallible operation, Python slices, decimal formatting of file
  names, and the generic list lemmas the component theories rely on.
\<close>

section \<open>Errors as values\<close>

text \<open>
  Every \<open>raise\<close>, failing \<open>assert\<close> and library exception of the modelled code is a
  constructor of this type; a computation that may raise has type \<open>'a res\<close>, with \<open>Inl\<close>
  for the exception.
\<close>

datatype py_error =
    ValueError
  | AssertionError
  | IndexError
  | KeyError
  | RuntimeError
  | StructError
  | AttributeError
  | FileNotFoundError
  | FileExistsError
  | ZeroDivisionError
  | NotImplementedError

type_synonym 'a res = "py_error + 'a"

fun bindE :: "'a res \<Rightarrow> ('a \<Rightarrow> 'b res) \<Rightarrow> 'b res" where
  "bindE (Inl e) f = Inl e"
| "bindE (Inr x) f = f x"

definition check :: "bool \<Rightarrow> py_error \<Rightarrow> unit res" where
  "check b e = (if b then Inr () else Inl e)"

fun mapE :: "('a \<Rightarrow> 'b res) \<Rightarrow> 'a list \<Rightarrow> 'b list res" where
  "mapE f [] = Inr []"
| "mapE f (x # xs) = bindE (f x) (\<lambda>y. bindE (mapE f xs) (\<lambda>ys. Inr (y # ys)))"

fun foldE :: "('s \<Rightarrow> 'a \<Rightarrow> 's res) \<Rightarrow> 's \<Rightarrow> 'a list \<Rightarrow> 's res" where
  "foldE f s [] = Inr s"
| "foldE f s (x # xs) = bindE (f s x) (\<lambda>s'. foldE f s' xs)"

named_theorems res_simps \<open>inversion of successful and failing error-passing computations\<close>

lemma bindE_eq_Inr [res_simps]: "bindE m f = Inr y \<longleftrightarrow> (\<exists>x. m = Inr x \<and> f x = Inr y)"
  by (cases m) auto

lemma bindE_eq_Inl [res_simps]:
  "bindE m f = Inl e \<longleftrightarrow> m = Inl e \<or> (\<exists>x. m = Inr x \<and> f x = Inl e)"
  by (cases m) auto

lemma check_eq_Inr [res_simps]: "check b e = Inr u \<longleftrightarrow> b"
  by (simp add: check_def)

lemma check_eq_Inl [res_simps]: "check b e = Inl e' \<longleftrightarrow> \<not> b \<and> e' = e"
  by (auto simp: check_def)

lemma check_True [simp]: "check True e = Inr ()"
  by (simp add: check_def)

lemma check_False [simp]: "check False e = Inl e"
  by (simp add: check_def)

lemma mapE_length: "mapE f xs = Inr ys \<Longrightarrow> length ys = length xs"
  by (induction xs arbitrary: ys) (auto simp: res_simps)

lemma mapE_nth: "mapE f xs = Inr ys \<Longrightarrow> k < length xs \<Longrightarrow> f (xs ! k) = Inr (ys ! k)"
  by (induction xs arbitrary: ys k) (auto simp: res_simps nth_Cons split: nat.splits)

lemma mapE_append:
  "mapE f (xs @ ys) = bindE (mapE f xs) (\<lambda>as. bindE (mapE f ys) (\<lambda>bs. Inr (as @ bs)))"
proof (induction xs)
  case Nil
  then show ?case by (cases "mapE f ys") auto
next
  case (Cons x xs)
  then show ?case
    by (cases "f x"; cases "mapE f xs"; cases "mapE f ys") auto
qed

lemma mapE_all: "(\<And>x. x \<in> set xs \<Longrightarrow> f x = Inr (g x)) \<Longrightarrow> mapE f xs = Inr (map g xs)"
  by (induction xs) auto

lemma foldE_append: "foldE f s (xs @ ys) = bindE (foldE f s xs) (\<lambda>s'. foldE f s' ys)"
proof (induction xs arbitrary: s)
  case Nil
  then show ?case by simp
next
  case (Cons x xs)
  then show ?case by (cases "f s x") auto
qed

text \<open>An invariant kept by every successful step holds at the end of a successful fold.\<close>

lemma foldE_invariant:
  assumes "foldE f s xs = Inr s'" and "P s"
    and "\<And>s x s''. P s \<Longrightarrow> x \<in> set xs \<Longrightarrow> f s x = Inr s'' \<Longrightarrow> P s''"
  shows "P s'"
  using assms
proof (induction xs arbitrary: s)
  case Nil
  then show ?case by simp
next
  case (Cons x xs)
  from Cons.prems(1) obtain t where t: "f s x = Inr t" "foldE f t xs = Inr s'"
    by (auto simp: res_simps)
  have "P t" using Cons.prems(2,3) t(1) by (meson list.set_intros(1))
  with t(2) show ?case
    using Cons.IH Cons.prems(3) by (meson list.set_intros(2))
qed

lemma mapE_map: "mapE f (map g xs) = mapE (\<lambda>x. f (g x)) xs"
  by (induction xs) auto

lemma foldE_map: "foldE f s (map g xs) = foldE (\<lambda>s x. f s (g x)) s xs"
  by (induction xs arbitrary: s) auto

lemma foldE_cong: "(\<And>s x. x \<in> set xs \<Longrightarrow> f s x = g s x) \<Longrightarrow> foldE f s xs = foldE g s xs"
proof (induction xs arbitrary: s)
  case (Cons x xs)
  then show ?case by (cases "g s x") auto
qed simp

section \<open>Python slices\<close>

text \<open>\<open>xs[a:b]\<close> with non-negative bounds: the bounds are clipped to the length.\<close>

definition py_slice :: "nat \<Rightarrow> nat \<Rightarrow> 'a list \<Rightarrow> 'a list" where
  "py_slice a b xs = take (b - a) (drop a xs)"

text \<open>
  \<open>xs[a:b] = ys\<close> on a tensor row: the shapes have to agree, otherwise the assignment
  raises.
\<close>

definition slice_assign :: "nat \<Rightarrow> nat \<Rightarrow> 'a list \<Rightarrow> 'a list \<Rightarrow> 'a list res" where
  "slice_assign a b ys xs =
     (if length ys = length (py_slice a b xs)
      then Inr (take a xs @ ys @ drop (a + length ys) xs) else Inl RuntimeError)"

lemma length_py_slice [simp]: "length (py_slice a b xs) = min (b - a) (length xs - a)"
  by (simp add: py_slice_def)

lemma py_slice_0 [simp]: "py_slice 0 b xs = take b xs"
  by (simp add: py_slice_def)

lemma py_slice_self [simp]: "py_slice a a xs = []"
  by (simp add: py_slice_def)

lemma py_slice_append_mid:
  "py_slice (length pre) (length pre + length ys) (pre @ ys @ post) = ys"
  by (simp add: py_slice_def)

lemma py_slice_prefix:
  "b \<le> length xs \<Longrightarrow> py_slice a b (xs @ ys) = py_slice a b xs"
  by (simp add: py_slice_def)

lemma take_py_slice: "a \<le> b \<Longrightarrow> take a xs @ py_slice a b xs = take b xs"
  by (metis add_diff_inverse_nat not_less py_slice_def take_add)

lemma py_slice_append: "a \<le> b \<Longrightarrow> b \<le> c \<Longrightarrow> py_slice a b xs @ py_slice b c xs = py_slice a c xs"
  using take_add [of "b - a" "c - b" "drop a xs"] by (simp add: py_slice_def)

lemma nth_py_slice: "i < b - a \<Longrightarrow> a + i < length xs \<Longrightarrow> py_slice a b xs ! i = xs ! (a + i)"
  by (simp add: py_slice_def add.commute)

lemma last_py_slice:
  assumes "a < b" and "b \<le> length xs"
  shows "py_slice a b xs \<noteq> []" and "last (py_slice a b xs) = xs ! (b - 1)"
proof -
  show ne: "py_slice a b xs \<noteq> []"
    using assms by (metis diff_less_mono length_greater_0_conv length_py_slice less_le_trans min_less_iff_conj zero_less_diff)
  show "last (py_slice a b xs) = xs ! (b - 1)"
  proof -
    have "b - a \<le> length xs - a" using assms by simp
    then show ?thesis using assms ne by (simp add: last_conv_nth nth_py_slice)
  qed
qed

lemma slice_assign_in_range:
  assumes "b = a + length ys" and "b \<le> length xs"
  shows "slice_assign a b ys xs = Inr (take a xs @ ys @ drop b xs)"
  using assms by (simp add: slice_assign_def)

section \<open>Python ranges\<close>

text \<open>\<open>range(start, stop, step)\<close> for a positive step.\<close>

function py_range :: "nat \<Rightarrow> nat \<Rightarrow> nat \<Rightarrow> nat list" where
  "py_range start stop step =
     (if start < stop \<and> 0 < step then start # py_range (start + step) stop step else [])"
  by pat_completeness auto
termination
  by (relation "measure (\<lambda>(start, stop, step). stop - start)") auto

declare py_range.simps [simp del]

lemma py_range_set:
  "0 < step \<Longrightarrow> set (py_range start stop step) = {i. start \<le> i \<and> i < stop \<and> i mod step = start mod step}"
proof (induction start stop step rule: py_range.induct)
  case (1 start stop step)
  show ?case
  proof (cases "start < stop")
    case True
    have "start \<le> i \<and> i mod step = start mod step \<longleftrightarrow> i = start \<or> start + step \<le> i \<and> i mod step = start mod step" for i
    proof
      assume a: "start \<le> i \<and> i mod step = start mod step"
      then have "step dvd i - start" by (metis mod_eq_dvd_iff_nat)
      then show "i = start \<or> start + step \<le> i \<and> i mod step = start mod step"
        using a by (cases "i = start") (auto dest!: dvd_imp_le)
    qed auto
    then show ?thesis
      using 1 True by (subst py_range.simps) auto
  next
    case False
    then show ?thesis by (subst py_range.simps) auto
  qed
qed

lemma py_range_distinct: "distinct (py_range start stop step)"
proof (induction start stop step rule: py_range.induct)
  case (1 start stop step)
  then show ?case
    by (subst py_range.simps) (auto simp: py_range_set)
qed

lemma py_range_one: "py_range start stop 1 = [start..<stop]"
proof (induction start stop "1 :: nat" rule: py_range.induct)
  case (1 start stop)
  then show ?case by (subst py_range.simps) (simp add: upt_conv_Cons)
qed

text \<open>Cutting a list at the starts of a range with the step as width loses nothing.\<close>

lemma py_range_blocks:
  "0 < w \<Longrightarrow> concat (map (\<lambda>i. py_slice i (i + w) xs) (py_range start (length xs) w)) = drop start xs"
proof (induction start "length xs" w rule: py_range.induct)
  case (1 start step)
  show ?case
  proof (cases "start < length xs")
    case True
    then have "concat (map (\<lambda>i. py_slice i (i + step) xs) (py_range start (length xs) step))
        = take step (drop start xs) @ drop (start + step) xs"
      using 1 by (subst py_range.simps) (simp add: py_slice_def)
    then show ?thesis by (metis add.commute append_take_drop_id drop_drop)
  next
    case False
    then show ?thesis by (subst py_range.simps) simp
  qed
qed

lemma py_range_blocks_nonempty:
  "0 < w \<Longrightarrow> b \<in> set (map (\<lambda>i. py_slice i (i + w) xs) (py_range start (length xs) w)) \<Longrightarrow> b \<noteq> []"
  by (auto simp: py_range_set py_slice_def)

section \<open>Decimal formatting\<close>

text \<open>\<open>str(n)\<close> of a non-negative integer, and \<open>f"{n:05d}"\<close>, which pads it with zeros.\<close>

fun nat_str :: "nat \<Rightarrow> string" where
  "nat_str n =
     (if n < 10 then [char_of (48 + n)] else nat_str (n div 10) @ [char_of (48 + n mod 10)])"

declare nat_str.simps [simp del]

definition pad5 :: "nat \<Rightarrow> string" where
  "pad5 n = replicate (5 - length (nat_str n)) (CHR ''0'') @ nat_str n"

definition dec_val :: "string \<Rightarrow> nat" where
  "dec_val s = foldl (\<lambda>a c. 10 * a + (of_char c - 48)) 0 s"

lemma dec_val_snoc: "dec_val (s @ [c]) = 10 * dec_val s + (of_char c - 48)"
  by (simp add: dec_val_def)

lemma of_char_digit: "d < 10 \<Longrightarrow> of_char (char_of (48 + d) :: char) = (48 + d :: nat)"
  by simp

lemma dec_val_nat_str: "dec_val (nat_str n) = n"
proof (induction n rule: nat_str.induct)
  case (1 n)
  show ?case
  proof (cases "n < 10")
    case True
    then show ?thesis
      by (subst nat_str.simps) (simp add: dec_val_def)
  next
    case False
    have "of_char (char_of (48 + n mod 10) :: char) = (48 + n mod 10 :: nat)"
      by (rule of_char_digit) simp
    moreover have "dec_val (nat_str (n div 10)) = n div 10"
      using "1.IH" False by simp
    ultimately have "dec_val (nat_str n) = 10 * (n div 10) + n mod 10"
      using False by (subst nat_str.simps) (simp add: dec_val_snoc del: of_char_of)
    then show ?thesis by simp
  qed
qed

lemma dec_val_zeros: "dec_val (replicate k (CHR ''0'') @ s) = dec_val s"
  by (induction k) (simp_all add: dec_val_def)

lemma pad5_inject: "pad5 m = pad5 n \<longleftrightarrow> m = n"
  by (metis dec_val_nat_str dec_val_zeros pad5_def)

lemma nat_str_inject: "nat_str m = nat_str n \<longleftrightarrow> m = n"
  by (metis dec_val_nat_str)

lemma nat_str_digits: "set (nat_str n) \<subseteq> char_of ` {48..57 :: nat}"
proof (induction n rule: nat_str.induct)
  case (1 n)
  have "(48 + n mod 10) \<in> {48..57 :: nat}" by simp
  then show ?case
    using "1.IH" by (subst nat_str.simps) auto
qed

section \<open>Lists\<close>

lemma concat_equal_lengths:
  assumes "\<And>b. b \<in> set bs \<Longrightarrow> length b = n"
  shows "length (concat bs) = n * length bs"
  using assms by (induction bs) auto

lemma concat_nth_split:
  "k < length bs \<Longrightarrow> concat bs = concat (take k bs) @ bs ! k @ concat (drop (Suc k) bs)"
  by (metis Cons_nth_drop_Suc append_take_drop_id concat.simps(2) concat_append)

lemma take_Suc_snoc: "k < length xs \<Longrightarrow> take (Suc k) xs = take k xs @ [xs ! k]"
  by (rule take_Suc_conv_app_nth)

lemma take_Suc_update: "j < length b \<Longrightarrow> take (Suc j) (b[j := x]) = take j b @ [x]"
  by (simp add: take_Suc_conv_app_nth)

lemma sum_list_take_Suc:
  "k < length xs \<Longrightarrow> sum_list (take (Suc k) xs) = sum_list (take k xs) + (xs ! k :: nat)"
  by (simp add: take_Suc_conv_app_nth)

lemma upt_append_between: "a \<le> b \<Longrightarrow> b \<le> c \<Longrightarrow> [a..<b] @ [b..<c] = [a..<c]"
  by (metis le_Suc_ex upt_add_eq_append)

lemma filter_False_iff: "filter P xs = [] \<longleftrightarrow> (\<forall>x \<in> set xs. \<not> P x)"
  by (simp add: filter_empty_conv)

end
