(* ===== verification/Index_Codec.thy ===== *)
theory Index_Codec
  imports Prelude
begin

text \<open>
  The binary index record of the target cache
  (\<^verbatim>\<open>DeepSpec/deepspec/data/target_cache_dataset.py\<close>): \<open>struct\<close> packing in
  little-endian byte order with the range errors of \<open>struct.pack\<close>, the two record
  functions, and the interface \<open>record_codec\<close> that the writers, the index merger and the
  dataset reader rely on.
\<close>

type_synonym byte = "8 word"

section \<open>Little-endian fields\<close>

fun le_bytes :: "nat \<Rightarrow> nat \<Rightarrow> byte list" where
  "le_bytes 0 v = []"
| "le_bytes (Suc n) v = word_of_nat v # le_bytes n (v div 256)"

fun le_val :: "byte list \<Rightarrow> nat" where
  "le_val [] = 0"
| "le_val (b # bs) = unat b + 256 * le_val bs"

lemma length_le_bytes [simp]: "length (le_bytes n v) = n"
  by (induction n arbitrary: v) auto

lemma unat_byte: "unat (word_of_nat v :: byte) = v mod 256"
  by (simp add: unat_of_nat)

lemma unat_less_byte: "unat (b :: byte) < 2 ^ 8"
  by (rule order_less_le_trans [OF unsigned_less]) simp

lemma le_val_le_bytes: "v < 256 ^ n \<Longrightarrow> le_val (le_bytes n v) = v"
proof (induction n arbitrary: v)
  case (Suc n)
  then have "v div 256 < 256 ^ n" by (simp add: less_mult_imp_div_less mult.commute)
  with Suc.IH have "le_val (le_bytes n (v div 256)) = v div 256" .
  then show ?case by (simp add: unat_byte)
qed simp

lemma le_val_bound: "le_val bs < 256 ^ length bs"
proof (induction bs)
  case (Cons b bs)
  have "unat b < 256" using unat_less_byte [of b] by simp
  with Cons show ?case by simp
qed simp

lemma le_bytes_le_val: "le_bytes (length bs) (le_val bs) = bs"
proof (induction bs)
  case (Cons b bs)
  have b: "unat b < 256" using unat_less_byte [of b] by simp
  have "word_of_nat (unat b + 256 * le_val bs) = b"
    by (rule word_unat_eq_iff [THEN iffD2]) (use b in \<open>simp add: unat_byte del: of_nat_add of_nat_mult\<close>)
  moreover have "(unat b + 256 * le_val bs) div 256 = le_val bs" using b by simp
  ultimately show ?case using Cons by (simp del: of_nat_add of_nat_mult)
qed simp

section \<open>The \<open>struct\<close> module on unsigned formats\<close>

definition pack_field :: "nat \<times> int \<Rightarrow> byte list res" where
  "pack_field f = (case f of (n, v) \<Rightarrow>
     if 0 \<le> v \<and> v < 256 ^ n then Inr (le_bytes n (nat v)) else Inl StructError)"

definition struct_pack :: "nat list \<Rightarrow> int list \<Rightarrow> byte list res" where
  "struct_pack sizes vals =
     (if length vals \<noteq> length sizes then Inl StructError
      else bindE (mapE pack_field (zip sizes vals)) (\<lambda>fields. Inr (concat fields)))"

fun unpack_fields :: "nat list \<Rightarrow> byte list \<Rightarrow> int list" where
  "unpack_fields [] bs = []"
| "unpack_fields (n # ns) bs = int (le_val (take n bs)) # unpack_fields ns (drop n bs)"

definition struct_unpack_from :: "nat list \<Rightarrow> byte list \<Rightarrow> nat \<Rightarrow> int list res" where
  "struct_unpack_from sizes buffer offset =
     (if offset + sum_list sizes \<le> length buffer
      then Inr (unpack_fields sizes (drop offset buffer)) else Inl StructError)"

definition field_ok :: "nat \<Rightarrow> int \<Rightarrow> bool" where
  "field_ok n v \<longleftrightarrow> 0 \<le> v \<and> v < 256 ^ n"

lemma struct_pack_eq:
  assumes "length vals = length sizes" and "\<forall>(n, v) \<in> set (zip sizes vals). field_ok n v"
  shows "struct_pack sizes vals = Inr (concat (map (\<lambda>(n, v). le_bytes n (nat v)) (zip sizes vals)))"
proof -
  have "mapE pack_field (zip sizes vals)
      = Inr (map (\<lambda>(n, v). le_bytes n (nat v)) (zip sizes vals))"
    by (rule mapE_all) (use assms(2) in \<open>auto simp: field_ok_def pack_field_def\<close>)
  with assms(1) show ?thesis by (simp add: struct_pack_def)
qed

lemma unpack_fields_pack:
  assumes "length vals = length sizes" and "\<forall>(n, v) \<in> set (zip sizes vals). field_ok n v"
  shows "unpack_fields sizes (concat (map (\<lambda>(n, v). le_bytes n (nat v)) (zip sizes vals)) @ post) = vals"
  using assms
proof (induction sizes arbitrary: vals)
  case (Cons n ns)
  then obtain v vs where vals: "vals = v # vs" by (cases vals) auto
  have v: "0 \<le> v" "v < 256 ^ n" using Cons.prems vals by (auto simp: field_ok_def)
  then have "nat v < 256 ^ n" by (simp add: nat_less_iff)
  then have "int (le_val (le_bytes n (nat v))) = v" using v(1) by (simp add: le_val_le_bytes)
  with Cons vals show ?case by simp
qed simp

lemma struct_pack_length:
  assumes "struct_pack sizes vals = Inr bs"
  shows "length bs = sum_list sizes"
proof -
  have "length (concat fs) = sum_list ss"
    if "mapE pack_field (zip ss vs) = Inr fs" "length vs = length ss" for ss vs fs
    using that
  proof (induction ss arbitrary: vs fs)
    case (Cons n ns)
    then obtain v vs' where "vs = v # vs'" by (cases vs) auto
    with Cons show ?case by (auto simp: res_simps pack_field_def split: if_splits)
  qed simp
  with assms show ?thesis by (auto simp: struct_pack_def res_simps split: if_splits)
qed

lemma struct_pack_ok:
  assumes "struct_pack sizes vals = Inr bs"
  shows "length vals = length sizes \<and> (\<forall>(n, v) \<in> set (zip sizes vals). field_ok n v)"
proof -
  have field: "field_ok (fst x) (snd x)" if "mapE pack_field xs = Inr fs" "x \<in> set xs" for xs fs x
    using that by (induction xs arbitrary: fs) (auto simp: res_simps field_ok_def pack_field_def split: if_splits prod.splits)
  have "length vals = length sizes" "\<exists>fs. mapE pack_field (zip sizes vals) = Inr fs"
    using assms by (auto simp: struct_pack_def res_simps split: if_splits)
  with field show ?thesis by fastforce
qed

section \<open>The index record\<close>

record index_record =
  sample_id :: int
  shard_id :: int
  seq_len :: int
  input_ids_offset :: int
  attention_mask_offset :: int
  loss_mask_offset :: int
  target_hidden_states_offset :: int
  target_last_hidden_states_offset :: int

text \<open>\<open>INDEX_RECORD_STRUCT = struct.Struct("<QIIQQQQQ")\<close>: field widths in bytes.\<close>

definition INDEX_RECORD_STRUCT :: "nat list" where
  "INDEX_RECORD_STRUCT = [8, 4, 4, 8, 8, 8, 8, 8]"

definition INDEX_RECORD_SIZE :: nat where
  "INDEX_RECORD_SIZE = sum_list INDEX_RECORD_STRUCT"

definition record_values :: "index_record \<Rightarrow> int list" where
  "record_values r = [sample_id r, shard_id r, seq_len r, input_ids_offset r, attention_mask_offset r,
     loss_mask_offset r, target_hidden_states_offset r, target_last_hidden_states_offset r]"

definition pack_index_record :: "index_record \<Rightarrow> byte list res" where
  "pack_index_record r = struct_pack INDEX_RECORD_STRUCT (record_values r)"

definition unpack_index_record :: "byte list \<Rightarrow> nat \<Rightarrow> index_record res" where
  "unpack_index_record buffer offset =
     bindE (struct_unpack_from INDEX_RECORD_STRUCT buffer offset) (\<lambda>vs.
       case vs of [a, b, c, d, e, f, g, h] \<Rightarrow>
         Inr \<lparr> sample_id = a, shard_id = b, seq_len = c, input_ids_offset = d, attention_mask_offset = e,
               loss_mask_offset = f, target_hidden_states_offset = g, target_last_hidden_states_offset = h \<rparr>
       | _ \<Rightarrow> Inl ValueError)"

definition index_record_valid :: "index_record \<Rightarrow> bool" where
  "index_record_valid r \<longleftrightarrow> list_all2 field_ok INDEX_RECORD_STRUCT (record_values r)"

lemma INDEX_RECORD_SIZE_val [simp]: "INDEX_RECORD_SIZE = 56"
  by (simp add: INDEX_RECORD_SIZE_def INDEX_RECORD_STRUCT_def)

section \<open>The interface of a fixed-size record codec\<close>

locale record_codec =
  fixes pack :: "'r \<Rightarrow> byte list res" and unpack :: "byte list \<Rightarrow> nat \<Rightarrow> 'r res"
    and size :: nat and valid :: "'r \<Rightarrow> bool"
  assumes size_pos: "0 < size"
    and pack_valid: "valid r \<Longrightarrow> \<exists>bs. pack r = Inr bs"
    and pack_size: "pack r = Inr bs \<Longrightarrow> length bs = size"
    and pack_invalid: "\<not> valid r \<Longrightarrow> \<exists>e. pack r = Inl e"
    and unpack_pack: "pack r = Inr bs \<Longrightarrow> unpack (pre @ bs @ post) (length pre) = Inr r"
    and unpack_short: "length buf < off + size \<Longrightarrow> \<exists>e. unpack buf off = Inl e"
begin

text \<open>An index file is the concatenation of packed records.\<close>

definition is_index :: "'r list \<Rightarrow> byte list \<Rightarrow> bool" where
  "is_index rs file \<longleftrightarrow> (\<exists>bss. mapE pack rs = Inr bss \<and> file = concat bss)"

lemma is_index_Nil [simp]: "is_index [] file \<longleftrightarrow> file = []"
  by (simp add: is_index_def)

lemma is_index_append:
  assumes "is_index rs f" and "is_index qs g"
  shows "is_index (rs @ qs) (f @ g)"
proof -
  obtain as bs where "mapE pack rs = Inr as" "f = concat as" "mapE pack qs = Inr bs" "g = concat bs"
    using assms by (auto simp: is_index_def)
  then show ?thesis by (simp add: is_index_def mapE_append)
qed

lemma is_index_single: "pack r = Inr bs \<Longrightarrow> is_index [r] bs"
  by (simp add: is_index_def)

lemma is_index_snoc: "is_index rs f \<Longrightarrow> pack r = Inr bs \<Longrightarrow> is_index (rs @ [r]) (f @ bs)"
  by (simp add: is_index_append is_index_single)

lemma is_index_valid:
  assumes "is_index rs f" and "r \<in> set rs"
  shows "valid r"
proof (rule ccontr)
  assume "\<not> valid r"
  then obtain e where "pack r = Inl e" using pack_invalid by blast
  moreover obtain bss where "mapE pack rs = Inr bss" using assms(1) by (auto simp: is_index_def)
  ultimately show False using assms(2) mapE_nth [of pack rs bss] by (auto simp: in_set_conv_nth)
qed

lemma chunk_sizes: "mapE pack rs = Inr bss \<Longrightarrow> b \<in> set bss \<Longrightarrow> length b = size"
  by (induction rs arbitrary: bss) (auto simp: res_simps dest: pack_size)

lemma index_length:
  assumes "is_index rs file"
  shows "length file = size * length rs"
proof -
  obtain bss where b: "mapE pack rs = Inr bss" "file = concat bss" using assms by (auto simp: is_index_def)
  have "length (concat bss) = size * length bss"
    by (rule concat_equal_lengths) (use chunk_sizes b(1) in blast)
  then show ?thesis using b mapE_length by fastforce
qed

text \<open>Random access: record \<open>k\<close> is found at offset \<open>k * size\<close>.\<close>

lemma index_lookup:
  assumes "is_index rs file" and k: "k < length rs"
  shows "unpack file (k * size) = Inr (rs ! k)"
proof -
  obtain bss where b: "mapE pack rs = Inr bss" "file = concat bss" using assms(1) by (auto simp: is_index_def)
  have lb: "length bss = length rs" using b(1) by (rule mapE_length)
  have "length (concat (take k bss)) = size * length (take k bss)"
    by (rule concat_equal_lengths) (use chunk_sizes b(1) in \<open>blast dest: in_set_takeD\<close>)
  then have off: "length (concat (take k bss)) = k * size" using k lb by simp
  have "pack (rs ! k) = Inr (bss ! k)" using mapE_nth [OF b(1) k] .
  from unpack_pack [OF this, of "concat (take k bss)" "concat (drop (Suc k) bss)"] show ?thesis
    using b(2) off concat_nth_split [of k bss] k lb by simp
qed

lemma index_lookup_past_end:
  assumes "is_index rs file" and "length rs \<le> k"
  shows "\<exists>e. unpack file (k * size) = Inl e"
proof -
  have "size * length rs \<le> k * size" using assms(2) by (simp only: mult.commute [of k] mult_le_mono2)
  then show ?thesis using index_length [OF assms(1)] size_pos by (intro unpack_short) (simp only: less_add_same_cancel1 le_less_trans)
qed

text \<open>A scan with stride \<open>size\<close> reads the whole file back.\<close>

lemma index_scan:
  assumes "is_index rs file"
  shows "mapE (\<lambda>k. unpack file (k * size)) [0..<length rs] = Inr rs"
proof -
  have "mapE (\<lambda>k. unpack file (k * size)) [0..<length rs] = Inr (map ((!) rs) [0..<length rs])"
    by (rule mapE_all) (use index_lookup [OF assms] in auto)
  then show ?thesis by (simp add: map_nth)
qed

lemma index_determines_records:
  "is_index rs file \<Longrightarrow> is_index qs file \<Longrightarrow> rs = qs"
  using index_scan [of rs "file"] index_scan [of qs "file"] index_length [of rs "file"] index_length [of qs "file"]
    size_pos by simp

end

lemma record_values_length [simp]: "length (record_values r) = length INDEX_RECORD_STRUCT"
  by (simp add: record_values_def INDEX_RECORD_STRUCT_def)

lemma index_record_valid_iff:
  "index_record_valid r \<longleftrightarrow> (\<forall>(n, v) \<in> set (zip INDEX_RECORD_STRUCT (record_values r)). field_ok n v)"
  by (auto simp: index_record_valid_def list_all2_iff)

lemma pack_index_record_valid: "(\<exists>bs. pack_index_record r = Inr bs) \<longleftrightarrow> index_record_valid r"
  using struct_pack_ok [of INDEX_RECORD_STRUCT "record_values r"]
    struct_pack_eq [of "record_values r" INDEX_RECORD_STRUCT]
  unfolding pack_index_record_def index_record_valid_iff by auto

lemma unpack_pack_index_record:
  assumes "pack_index_record r = Inr bs"
  shows "unpack_index_record (pre @ bs @ post) (length pre) = Inr r"
proof -
  have ok: "\<forall>(n, v) \<in> set (zip INDEX_RECORD_STRUCT (record_values r)). field_ok n v"
    using struct_pack_ok assms unfolding pack_index_record_def by blast
  have bs: "bs = concat (map (\<lambda>(n, v). le_bytes n (nat v)) (zip INDEX_RECORD_STRUCT (record_values r)))"
    using assms struct_pack_eq [OF record_values_length ok] by (simp add: pack_index_record_def)
  have "length bs = sum_list INDEX_RECORD_STRUCT"
    using assms struct_pack_length unfolding pack_index_record_def by blast
  then have "struct_unpack_from INDEX_RECORD_STRUCT (pre @ bs @ post) (length pre) = Inr (record_values r)"
    using unpack_fields_pack [OF record_values_length ok, of post] bs
    by (simp add: struct_unpack_from_def)
  then show ?thesis by (simp add: unpack_index_record_def record_values_def)
qed

interpretation idx: record_codec pack_index_record unpack_index_record INDEX_RECORD_SIZE index_record_valid
proof
  show "0 < INDEX_RECORD_SIZE" by simp
  show "\<exists>bs. pack_index_record r = Inr bs" if "index_record_valid r" for r
    using that by (simp add: pack_index_record_valid)
  show "length bs = INDEX_RECORD_SIZE" if "pack_index_record r = Inr bs" for r bs
    using that struct_pack_length unfolding pack_index_record_def INDEX_RECORD_SIZE_def by blast
  show "\<exists>e. pack_index_record r = Inl e" if "\<not> index_record_valid r" for r
    using that pack_index_record_valid [of r] by (cases "pack_index_record r") auto
  show "unpack_index_record (pre @ bs @ post) (length pre) = Inr r" if "pack_index_record r = Inr bs" for r bs pre post
    using that by (rule unpack_pack_index_record)
  show "\<exists>e. unpack_index_record buf off = Inl e" if "length buf < off + INDEX_RECORD_SIZE" for buf off
    using that unfolding INDEX_RECORD_SIZE_def by (simp add: unpack_index_record_def struct_unpack_from_def)
qed

text \<open>
  The index codec round trips. A record packs exactly when every field fits its
  unsigned width (otherwise \<open>struct.error\<close>); the packed form has 56 bytes, and unpacking it
  at its offset inside any file returns the record.
\<close>

theorem index_record_roundtrip:
  "(\<exists>bs. pack_index_record r = Inr bs) = index_record_valid r
   \<and> (case pack_index_record r of Inl e \<Rightarrow> e = StructError
      | Inr bs \<Rightarrow> length bs = 56
          \<and> unpack_index_record (pre @ bs @ post) (length pre) = Inr r)"
proof (cases "pack_index_record r")
  case (Inl e)
  have "mapE pack_field xs = Inl e \<Longrightarrow> e = StructError" for xs
    by (induction xs) (auto simp: res_simps pack_field_def split: if_splits prod.splits)
  then have "e = StructError"
    using Inl by (auto simp: pack_index_record_def struct_pack_def res_simps split: if_splits)
  with Inl show ?thesis using pack_index_record_valid [of r] by simp
next
  case (Inr bs)
  then show ?thesis
    using pack_index_record_valid [of r] idx.pack_size [OF Inr] idx.unpack_pack [OF Inr] by simp
qed

end
