(* ===== verification/Cache_Writer.thy ===== *)
theory Cache_Writer
  imports Index_Codec
begin

text \<open>
  The storage side of the target cache
  (\<^verbatim>\<open>DeepSpec/deepspec/data/target_cache_dataset.py\<close>): the file store, the
  JSON documents with their fields, tensors as bytes, and \<open>LocalTargetCacheWriter\<close>, which
  appends samples to size-bounded shard files and records their offsets in a local index.

  The file store is an association list from paths (lists of components) to contents.
  JSON documents are kept as typed records, an absent key being \<open>None\<close>. Writes go
  straight to the store: flushing and \<open>fsync\<close> have no effect here. Hidden states are
  given as bfloat16 bit patterns.
\<close>

section \<open>Documents and the file store\<close>

record shard_entry =
  se_shard_id :: int
  se_file_name :: string

record extra_fields =
  ef_target_model_name_or_path :: string
  ef_source_jsonl_paths :: "string list"
  ef_chat_template :: string
  ef_max_length :: int
  ef_min_loss_tokens :: int
  ef_project_name :: "string option"
  ef_exp_name :: "string option"
  ef_git_sha :: string

record manifest =
  mf_version :: "int option"
  mf_num_samples :: "int option"
  mf_num_shards :: "int option"
  mf_target_layer_ids :: "int list option"
  mf_hidden_dtype :: "string option"
  mf_token_dtype :: "string option"
  mf_mask_dtype :: "string option"
  mf_index_record_size :: "int option"
  mf_hidden_size :: "int option"
  mf_shards :: "shard_entry list option"
  mf_extra :: "extra_fields option"

record local_cache_write_summary =
  global_rank :: nat
  source_sample_start :: nat
  source_sample_end :: nat
  sum_num_local_samples :: nat
  num_local_shards :: nat
  sum_local_shard_files :: "string list"

datatype file_content = Bytes "byte list" | ManifestDoc manifest | SummaryDoc local_cache_write_summary

type_synonym path = "string list"

record fs =
  files :: "(path \<times> file_content) list"
  dirs :: "path list"

definition fs_put :: "path \<Rightarrow> file_content \<Rightarrow> fs \<Rightarrow> fs" where
  "fs_put p c s = s\<lparr> files := AList.update p c (files s) \<rparr>"

definition fs_get :: "fs \<Rightarrow> path \<Rightarrow> file_content option" where
  "fs_get s p = map_of (files s) p"

definition fs_bytes :: "fs \<Rightarrow> path \<Rightarrow> byte list res" where
  "fs_bytes s p = (case fs_get s p of Some (Bytes b) \<Rightarrow> Inr b | _ \<Rightarrow> Inl FileNotFoundError)"

text \<open>\<open>handle.write\<close> on a file opened for writing, and \<open>os.replace\<close>.\<close>

definition fs_append :: "path \<Rightarrow> byte list \<Rightarrow> fs \<Rightarrow> fs res" where
  "fs_append p b s = bindE (fs_bytes s p) (\<lambda>old. Inr (fs_put p (Bytes (old @ b)) s))"

definition fs_replace :: "path \<Rightarrow> path \<Rightarrow> fs \<Rightarrow> fs res" where
  "fs_replace src dst s =
     (case fs_get s src of None \<Rightarrow> Inl FileNotFoundError
      | Some c \<Rightarrow> Inr (fs_put dst c (s\<lparr> files := AList.delete src (files s) \<rparr>)))"

text \<open>\<open>atomic_json_dump\<close>: write next to the target, then rename over it.\<close>

definition atomic_json_dump :: "file_content \<Rightarrow> path \<Rightarrow> fs \<Rightarrow> fs res" where
  "atomic_json_dump doc p s =
     (let tmp_path = butlast p @ [last p @ ''.tmp''] in fs_replace tmp_path p (fs_put tmp_path doc s))"

definition below :: "path \<Rightarrow> path \<Rightarrow> bool" where
  "below d p \<longleftrightarrow> length d < length p \<and> take (length d) p = d"

lemma fs_get_put [simp]: "fs_get (fs_put p c s) q = (if q = p then Some c else fs_get s q)"
  by (simp add: fs_get_def fs_put_def update_conv')

lemma fs_bytes_put [simp]:
  "fs_bytes (fs_put p (Bytes b) s) q = (if q = p then Inr b else fs_bytes s q)"
  by (simp add: fs_bytes_def)

lemma fs_bytes_eq: "fs_bytes s p = Inr b \<longleftrightarrow> fs_get s p = Some (Bytes b)"
  by (auto simp: fs_bytes_def split: option.splits file_content.splits)

lemma fs_append_get:
  assumes "fs_append p b s = Inr s'"
  shows "\<exists>old. fs_bytes s p = Inr old \<and> fs_get s' q = (if q = p then Some (Bytes (old @ b)) else fs_get s q)"
  using assms by (auto simp: fs_append_def res_simps)

lemma fs_append_ok: "fs_bytes s p = Inr old \<Longrightarrow> fs_append p b s = Inr (fs_put p (Bytes (old @ b)) s)"
  by (simp add: fs_append_def)

lemma fs_replace_get:
  assumes "fs_replace src dst s = Inr s'" and "src \<noteq> dst"
  shows "\<exists>c. fs_get s src = Some c
           \<and> fs_get s' q = (if q = dst then Some c else if q = src then None else fs_get s q)"
  using assms by (auto simp: fs_replace_def fs_get_def fs_put_def update_conv' delete_conv' split: option.splits)

section \<open>Sizes\<close>

record tensor_sizes =
  ts_input_ids :: nat
  ts_attention_mask :: nat
  ts_loss_mask :: nat
  ts_target_hidden_states :: nat
  ts_target_last_hidden_states :: nat

definition expected_target_cache_tensor_numel :: "nat \<Rightarrow> nat \<Rightarrow> nat \<Rightarrow> tensor_sizes" where
  "expected_target_cache_tensor_numel sl hidden_size num_target_layers =
     \<lparr> ts_input_ids = sl, ts_attention_mask = sl, ts_loss_mask = sl,
       ts_target_hidden_states = sl * num_target_layers * hidden_size,
       ts_target_last_hidden_states = sl * hidden_size \<rparr>"

definition expected_target_cache_tensor_nbytes :: "nat \<Rightarrow> nat \<Rightarrow> nat \<Rightarrow> tensor_sizes" where
  "expected_target_cache_tensor_nbytes sl hidden_size num_target_layers =
     (let numel = expected_target_cache_tensor_numel sl hidden_size num_target_layers in
      \<lparr> ts_input_ids = ts_input_ids numel * 4, ts_attention_mask = ts_attention_mask numel,
        ts_loss_mask = ts_loss_mask numel,
        ts_target_hidden_states = ts_target_hidden_states numel * 2,
        ts_target_last_hidden_states = ts_target_last_hidden_states numel * 2 \<rparr>)"

section \<open>Tensors as bytes\<close>

text \<open>\<open>_tensor_to_bytes\<close> for \<open>int32\<close> and \<open>uint8\<close>, and \<open>_tensor_to_bfloat16_bytes\<close>.\<close>

definition int32_bytes :: "int list \<Rightarrow> byte list" where
  "int32_bytes xs = concat (map (\<lambda>v. le_bytes 4 (unat (word_of_int v :: 32 word))) xs)"

definition uint8_bytes :: "int list \<Rightarrow> byte list" where
  "uint8_bytes xs = map word_of_int xs"

definition bfloat16_bytes :: "16 word list list \<Rightarrow> byte list" where
  "bfloat16_bytes rows = concat (map (\<lambda>w. le_bytes 2 (unat w)) (concat rows))"

record cache_sample =
  cs_input_ids :: "int list"
  cs_attention_mask :: "int list"
  cs_loss_mask :: "int list"
  cs_target_hidden_states :: "16 word list list"
  cs_target_last_hidden_states :: "16 word list list"

record sample_bytes =
  sb_sample_id :: nat
  sb_seq_len :: nat
  sb_input_ids :: "byte list"
  sb_attention_mask :: "byte list"
  sb_loss_mask :: "byte list"
  sb_target_hidden_states :: "byte list"
  sb_target_last_hidden_states :: "byte list"

definition build_target_cache_sample_bytes :: "nat \<Rightarrow> cache_sample \<Rightarrow> sample_bytes" where
  "build_target_cache_sample_bytes sid s =
     \<lparr> sb_sample_id = sid, sb_seq_len = length (cs_input_ids s),
       sb_input_ids = int32_bytes (cs_input_ids s),
       sb_attention_mask = uint8_bytes (cs_attention_mask s),
       sb_loss_mask = uint8_bytes (cs_loss_mask s),
       sb_target_hidden_states = bfloat16_bytes (cs_target_hidden_states s),
       sb_target_last_hidden_states = bfloat16_bytes (cs_target_last_hidden_states s) \<rparr>"

section \<open>The local writer\<close>

record local_writer =
  rank_dir :: path
  max_shard_bytes :: int
  local_index_path :: path
  index_handle :: "path option"
  current_shard_id :: int
  current_shard_handle :: "path option"
  current_shard_size :: nat
  local_shard_files :: "string list"
  num_local_samples :: nat

definition writer_init :: "path \<Rightarrow> int \<Rightarrow> fs \<Rightarrow> local_writer \<times> fs" where
  "writer_init dir max_bytes s =
     (let ip = dir @ [''samples.local.idx''] in
      (\<lparr> rank_dir = dir, max_shard_bytes = max_bytes, local_index_path = ip, index_handle = Some ip,
         current_shard_id = -1, current_shard_handle = None, current_shard_size = 0,
         local_shard_files = [], num_local_samples = 0 \<rparr>,
       fs_put ip (Bytes []) s))"

definition writer_close :: "local_writer \<Rightarrow> local_writer" where
  "writer_close w =
     (let w1 = (if current_shard_handle w \<noteq> None then w\<lparr> current_shard_handle := None \<rparr> else w)
      in if index_handle w1 \<noteq> None then w1\<lparr> index_handle := None \<rparr> else w1)"

definition local_shard_name :: "nat \<Rightarrow> string" where
  "local_shard_name i = ''shard-local-'' @ pad5 i @ ''.bin''"

definition open_new_shard :: "local_writer \<Rightarrow> fs \<Rightarrow> local_writer \<times> fs" where
  "open_new_shard w s =
     (let new_id = current_shard_id w + 1;
          file_name = local_shard_name (nat new_id);
          shard_path = rank_dir w @ [file_name] in
      (w\<lparr> current_shard_id := new_id, current_shard_handle := Some shard_path, current_shard_size := 0,
          local_shard_files := local_shard_files w @ [file_name] \<rparr>,
       fs_put shard_path (Bytes []) s))"

definition ensure_shard :: "nat \<Rightarrow> local_writer \<Rightarrow> fs \<Rightarrow> local_writer \<times> fs" where
  "ensure_shard sample_nbytes w s =
     (if current_shard_handle w = None then open_new_shard w s
      else if current_shard_size w > 0 \<and> int (current_shard_size w) + int sample_nbytes > max_shard_bytes w
      then open_new_shard w s else (w, s))"

text \<open>\<open>handle.write(b)\<close> followed by the size update; a missing handle raises.\<close>

definition write_field :: "byte list \<Rightarrow> local_writer \<Rightarrow> fs \<Rightarrow> (local_writer \<times> fs) res" where
  "write_field b w s =
     (case current_shard_handle w of None \<Rightarrow> Inl AttributeError
      | Some p \<Rightarrow> bindE (fs_append p b s) (\<lambda>s'.
          Inr (w\<lparr> current_shard_size := current_shard_size w + length b \<rparr>, s')))"

definition sample_nbytes :: "sample_bytes \<Rightarrow> nat" where
  "sample_nbytes x = length (sb_input_ids x) + length (sb_attention_mask x) + length (sb_loss_mask x)
     + length (sb_target_hidden_states x) + length (sb_target_last_hidden_states x)"

definition write_sample_bytes :: "sample_bytes \<Rightarrow> local_writer \<Rightarrow> fs \<Rightarrow> (local_writer \<times> fs) res" where
  "write_sample_bytes x w s =
     (let (w0, s0) = ensure_shard (sample_nbytes x) w s in
      bindE (write_field (sb_input_ids x) w0 s0) (\<lambda>(w1, s1).
      bindE (write_field (sb_attention_mask x) w1 s1) (\<lambda>(w2, s2).
      bindE (write_field (sb_loss_mask x) w2 s2) (\<lambda>(w3, s3).
      bindE (write_field (sb_target_hidden_states x) w3 s3) (\<lambda>(w4, s4).
      bindE (write_field (sb_target_last_hidden_states x) w4 s4) (\<lambda>(w5, s5).
      case index_handle w5 of None \<Rightarrow> Inl AttributeError
      | Some ip \<Rightarrow>
          bindE (pack_index_record
               \<lparr> sample_id = int (sb_sample_id x), shard_id = current_shard_id w5, seq_len = int (sb_seq_len x),
                 input_ids_offset = int (current_shard_size w0),
                 attention_mask_offset = int (current_shard_size w1),
                 loss_mask_offset = int (current_shard_size w2),
                 target_hidden_states_offset = int (current_shard_size w3),
                 target_last_hidden_states_offset = int (current_shard_size w4) \<rparr>) (\<lambda>packed.
          bindE (fs_append ip packed s5) (\<lambda>s6.
          Inr (w5\<lparr> num_local_samples := num_local_samples w5 + 1 \<rparr>, s6)))))))))"

definition write_sample :: "nat \<Rightarrow> cache_sample \<Rightarrow> local_writer \<Rightarrow> fs \<Rightarrow> (local_writer \<times> fs) res" where
  "write_sample sid x w s = write_sample_bytes (build_target_cache_sample_bytes sid x) w s"

section \<open>What one write does\<close>

definition payload :: "sample_bytes \<Rightarrow> byte list" where
  "payload x = sb_input_ids x @ sb_attention_mask x @ sb_loss_mask x @ sb_target_hidden_states x
     @ sb_target_last_hidden_states x"

definition record_at :: "sample_bytes \<Rightarrow> int \<Rightarrow> nat \<Rightarrow> index_record" where
  "record_at x sid off =
     (let a = off + length (sb_input_ids x); b = a + length (sb_attention_mask x);
          c = b + length (sb_loss_mask x); d = c + length (sb_target_hidden_states x) in
      \<lparr> sample_id = int (sb_sample_id x), shard_id = sid, seq_len = int (sb_seq_len x),
        input_ids_offset = int off, attention_mask_offset = int a, loss_mask_offset = int b,
        target_hidden_states_offset = int c, target_last_hidden_states_offset = int d \<rparr>)"

lemma length_payload: "length (payload x) = sample_nbytes x"
  by (simp add: payload_def sample_nbytes_def)

lemma update_update: "AList.update k v (AList.update k u al) = AList.update k v al"
  by (induction al) auto

lemma fs_put_put [simp]: "fs_put p c (fs_put p d s) = fs_put p c s"
  by (simp add: fs_put_def update_update)

lemma write_field_ok:
  "current_shard_handle w = Some p \<Longrightarrow> fs_bytes s p = Inr old \<Longrightarrow>
   write_field b w s = Inr (w\<lparr> current_shard_size := current_shard_size w + length b \<rparr>, fs_put p (Bytes (old @ b)) s)"
  by (simp add: write_field_def fs_append_ok)

lemma write_sample_bytes_eval:
  assumes "ensure_shard (sample_nbytes x) w s = (w0, s0)"
    and "current_shard_handle w0 = Some p" and "fs_bytes s0 p = Inr old"
    and "index_handle w0 = Some ip" and "ip \<noteq> p" and "fs_bytes s0 ip = Inr idx"
    and "pack_index_record (record_at x (current_shard_id w0) (current_shard_size w0)) = Inr packed"
  shows "write_sample_bytes x w s =
    Inr (w0\<lparr> current_shard_size := current_shard_size w0 + sample_nbytes x,
             num_local_samples := num_local_samples w0 + 1 \<rparr>,
         fs_put ip (Bytes (idx @ packed)) (fs_put p (Bytes (old @ payload x)) s0))"
  using assms
  by (simp add: write_sample_bytes_def write_field_ok fs_append_ok record_at_def Let_def
      payload_def sample_nbytes_def add.assoc)

text \<open>A field of the record finds its bytes in the shard.\<close>

definition field_at :: "byte list \<Rightarrow> int \<Rightarrow> byte list \<Rightarrow> bool" where
  "field_at content off b \<longleftrightarrow> 0 \<le> off \<and> nat off + length b \<le> length content
     \<and> take (length b) (drop (nat off) content) = b"

definition stores :: "byte list \<Rightarrow> index_record \<Rightarrow> sample_bytes \<Rightarrow> bool" where
  "stores content r x \<longleftrightarrow>
     seq_len r = int (sb_seq_len x)
   \<and> field_at content (input_ids_offset r) (sb_input_ids x)
   \<and> field_at content (attention_mask_offset r) (sb_attention_mask x)
   \<and> field_at content (loss_mask_offset r) (sb_loss_mask x)
   \<and> field_at content (target_hidden_states_offset r) (sb_target_hidden_states x)
   \<and> field_at content (target_last_hidden_states_offset r) (sb_target_last_hidden_states x)"

lemma field_at_append: "field_at c off b \<Longrightarrow> field_at (c @ d) off b"
  by (auto simp: field_at_def)

lemma stores_append: "stores c r x \<Longrightarrow> stores (c @ d) r x"
  by (auto simp: stores_def field_at_append)

lemma field_at_mid: "off = int (length pre) \<Longrightarrow> field_at (pre @ b @ post) off b"
  by (simp add: field_at_def)

lemma stores_record_at: "stores (old @ payload x) (record_at x sid (length old)) x"
proof -
  let ?b1 = "sb_input_ids x" and ?b2 = "sb_attention_mask x" and ?b3 = "sb_loss_mask x"
    and ?b4 = "sb_target_hidden_states x" and ?b5 = "sb_target_last_hidden_states x"
  show ?thesis
    unfolding stores_def
    using field_at_mid [of _ old ?b1 "?b2 @ ?b3 @ ?b4 @ ?b5"]
      field_at_mid [of _ "old @ ?b1" ?b2 "?b3 @ ?b4 @ ?b5"]
      field_at_mid [of _ "old @ ?b1 @ ?b2" ?b3 "?b4 @ ?b5"]
      field_at_mid [of _ "old @ ?b1 @ ?b2 @ ?b3" ?b4 ?b5]
      field_at_mid [of _ "old @ ?b1 @ ?b2 @ ?b3 @ ?b4" ?b5 "[]"]
    by (simp add: record_at_def Let_def payload_def add.assoc)
qed

section \<open>The writer invariant\<close>

definition located :: "byte list list \<Rightarrow> index_record \<Rightarrow> sample_bytes \<Rightarrow> bool" where
  "located contents r x \<longleftrightarrow> sample_id r = int (sb_sample_id x) \<and> 0 \<le> shard_id r
     \<and> nat (shard_id r) < length contents \<and> stores (contents ! nat (shard_id r)) r x"

text \<open>
  What is on disk below a rank directory: shard \<open>i\<close> holds \<open>contents ! i\<close>, the local index
  file is the packed records, and every record locates its sample.
\<close>

definition rank_files ::
  "path \<Rightarrow> fs \<Rightarrow> byte list list \<Rightarrow> index_record list \<Rightarrow> sample_bytes list \<Rightarrow> bool" where
  "rank_files dir s contents recs xs \<longleftrightarrow>
     (\<forall>i < length contents. fs_get s (dir @ [local_shard_name i]) = Some (Bytes (contents ! i)))
   \<and> (\<exists>f. fs_get s (dir @ [''samples.local.idx'']) = Some (Bytes f) \<and> idx.is_index recs f)
   \<and> list_all2 (located contents) recs xs"

definition writer_core ::
  "local_writer \<Rightarrow> fs \<Rightarrow> byte list list \<Rightarrow> index_record list \<Rightarrow> sample_bytes list \<Rightarrow> bool" where
  "writer_core w s contents recs xs \<longleftrightarrow>
     rank_files (rank_dir w) s contents recs xs
   \<and> local_index_path w = rank_dir w @ [''samples.local.idx'']
   \<and> index_handle w = Some (local_index_path w)
   \<and> current_shard_id w = int (length contents) - 1
   \<and> local_shard_files w = map local_shard_name [0..<length contents]
   \<and> num_local_samples w = length xs
   \<and> (if contents = [] then current_shard_handle w = None
      else current_shard_handle w = Some (rank_dir w @ [local_shard_name (length contents - 1)])
         \<and> current_shard_size w = length (last contents))
   \<and> sum_list (map length contents) = sum_list (map sample_nbytes xs)"

text \<open>A shard is larger than \<open>max_shard_bytes\<close> only when it holds a single oversized sample.\<close>

definition shard_bounded :: "int \<Rightarrow> sample_bytes list \<Rightarrow> byte list \<Rightarrow> bool" where
  "shard_bounded mx xs c \<longleftrightarrow> int (length c) \<le> mx \<or> (\<exists>x \<in> set xs. length c = sample_nbytes x)"

definition writer_inv ::
  "local_writer \<Rightarrow> fs \<Rightarrow> byte list list \<Rightarrow> index_record list \<Rightarrow> sample_bytes list \<Rightarrow> bool" where
  "writer_inv w s contents recs xs \<longleftrightarrow> writer_core w s contents recs xs
     \<and> length contents \<le> length xs \<and> (\<forall>c \<in> set contents. shard_bounded (max_shard_bytes w) xs c)"

lemma local_shard_name_inject [simp]: "local_shard_name i = local_shard_name j \<longleftrightarrow> i = j"
  by (simp add: local_shard_name_def pad5_inject)

lemma local_shard_name_not_index [simp]:
  "local_shard_name i \<noteq> ''samples.local.idx''" "''samples.local.idx'' \<noteq> local_shard_name i"
  by (simp_all add: local_shard_name_def)

lemma writer_init_inv:
  "case writer_init dir mx s of (w, s') \<Rightarrow> writer_inv w s' [] [] [] \<and> rank_dir w = dir \<and> max_shard_bytes w = mx"
  by (simp add: writer_init_def Let_def writer_inv_def writer_core_def rank_files_def)

lemma located_mono:
  assumes "located contents r x" and "length contents \<le> length contents'"
    and "\<And>i. i < length contents \<Longrightarrow> \<exists>d. contents' ! i = contents ! i @ d"
  shows "located contents' r x"
  using assms by (auto simp: located_def) (metis stores_append)

lemma located_snoc: "located contents r x \<Longrightarrow> located (contents @ [c]) r x"
  by (rule located_mono) (auto simp: nth_append)

lemma located_extend_last: "located (cs @ [c]) r x \<Longrightarrow> located (cs @ [c @ d]) r x"
  by (rule located_mono) (auto simp: nth_append)

definition same_outside :: "path \<Rightarrow> fs \<Rightarrow> fs \<Rightarrow> bool" where
  "same_outside dir s s' \<longleftrightarrow> (\<forall>q. (\<forall>n. q \<noteq> dir @ [n]) \<longrightarrow> fs_get s' q = fs_get s q)"

lemma same_outside_refl [simp]: "same_outside dir s s"
  by (simp add: same_outside_def)

lemma same_outside_trans: "same_outside d s s' \<Longrightarrow> same_outside d s' s'' \<Longrightarrow> same_outside d s s''"
  by (simp add: same_outside_def)

lemma same_outside_put [simp]: "same_outside d s (fs_put (d @ [n]) c s') \<longleftrightarrow> same_outside d s s'"
  by (auto simp: same_outside_def)

lemma open_new_shard_core:
  assumes "writer_core w s contents recs xs"
  shows "case open_new_shard w s of (w', s') \<Rightarrow> writer_core w' s' (contents @ [[]]) recs xs
      \<and> rank_dir w' = rank_dir w \<and> max_shard_bytes w' = max_shard_bytes w \<and> same_outside (rank_dir w) s s'"
proof -
  have "list_all2 (located (contents @ [[]])) recs xs"
    using assms by (auto simp: writer_core_def rank_files_def intro: list_all2_mono located_snoc)
  with assms show ?thesis
    by (auto simp: open_new_shard_def writer_core_def rank_files_def Let_def nth_append less_Suc_eq)
qed

text \<open>After \<open>ensure_shard\<close> there is a current shard with room for the sample, or an empty one.\<close>

lemma ensure_shard_core:
  assumes core: "writer_core w s contents recs xs" and n: "length contents \<le> length xs"
    and bnd: "\<forall>c \<in> set contents. shard_bounded (max_shard_bytes w) xs c"
  obtains w' s' cs c where "ensure_shard nb w s = (w', s')" "writer_core w' s' (cs @ [c]) recs xs"
    "rank_dir w' = rank_dir w" "max_shard_bytes w' = max_shard_bytes w" "same_outside (rank_dir w) s s'"
    "length cs \<le> length xs" "\<forall>d \<in> set cs. shard_bounded (max_shard_bytes w) xs d"
    "c = [] \<or> int (length c) + int nb \<le> max_shard_bytes w"
proof (cases "contents = [] \<or> (current_shard_size w > 0 \<and> int (current_shard_size w) + int nb > max_shard_bytes w)")
  case True
  obtain w' s' where o: "open_new_shard w s = (w', s')" by fastforce
  then have "ensure_shard nb w s = (w', s')"
    using True core by (auto simp: ensure_shard_def writer_core_def split: if_splits)
  then show ?thesis using that [of w' s' contents "[]"] open_new_shard_core [OF core] o n bnd by simp
next
  case False
  then have "ensure_shard nb w s = (w, s)"
    using core by (auto simp: ensure_shard_def writer_core_def)
  moreover have "contents = butlast contents @ [last contents]" using False by simp
  moreover have "current_shard_size w = length (last contents)" using False core by (simp add: writer_core_def)
  moreover have "\<forall>d \<in> set (butlast contents). shard_bounded (max_shard_bytes w) xs d"
    using bnd by (auto dest: in_set_butlastD)
  ultimately show ?thesis
    using that [of w s "butlast contents" "last contents"] core n False by auto
qed

lemma write_payload_core:
  assumes core: "writer_core w s (cs @ [c]) recs xs"
    and packed: "pack_index_record (record_at x (current_shard_id w) (current_shard_size w)) = Inr packed"
    and f: "fs_get s (rank_dir w @ [''samples.local.idx'']) = Some (Bytes f)"
  defines "w' \<equiv> w\<lparr> current_shard_size := current_shard_size w + sample_nbytes x,
                    num_local_samples := num_local_samples w + 1 \<rparr>"
    and "s' \<equiv> fs_put (rank_dir w @ [''samples.local.idx'']) (Bytes (f @ packed))
               (fs_put (rank_dir w @ [local_shard_name (length cs)]) (Bytes (c @ payload x)) s)"
  shows "writer_core w' s' (cs @ [c @ payload x])
           (recs @ [record_at x (current_shard_id w) (current_shard_size w)]) (xs @ [x])"
proof -
  let ?r = "record_at x (current_shard_id w) (current_shard_size w)"
  have C: "current_shard_id w = int (length cs)" "current_shard_size w = length c"
    "list_all2 (located (cs @ [c])) recs xs" "idx.is_index recs f"
    using core f by (auto simp: writer_core_def rank_files_def)
  have "list_all2 (located (cs @ [c @ payload x])) recs xs"
    using C(3) by (auto intro: list_all2_mono located_extend_last)
  moreover have "located (cs @ [c @ payload x]) ?r x"
    using stores_record_at [of c x "int (length cs)"] C(1,2)
    by (simp add: located_def) (simp add: record_at_def Let_def)
  ultimately have loc: "list_all2 (located (cs @ [c @ payload x])) (recs @ [?r]) (xs @ [x])"
    by (intro list_all2_appendI) simp_all
  have idx: "idx.is_index (recs @ [?r]) (f @ packed)"
    using C(4) packed by (rule idx.is_index_snoc)
  have shards: "fs_get s (rank_dir w @ [local_shard_name i]) = Some (Bytes ((cs @ [c]) ! i))" if "i < Suc (length cs)" for i
    using core that by (simp add: writer_core_def rank_files_def)
  have "rank_files (rank_dir w) s' (cs @ [c @ payload x]) (recs @ [?r]) (xs @ [x])"
    unfolding rank_files_def s'_def using loc idx shards
    by (auto simp: nth_append less_Suc_eq split: if_splits)
  with core show ?thesis
    by (simp add: writer_core_def w'_def length_payload C(2))
qed

text \<open>The writes that do not overflow a field of the index record.\<close>

definition fits_index :: "sample_bytes list \<Rightarrow> sample_bytes \<Rightarrow> bool" where
  "fits_index xs x \<longleftrightarrow> sb_sample_id x < 2 ^ 64 \<and> sb_seq_len x < 2 ^ 32 \<and> length xs < 2 ^ 32
     \<and> sum_list (map sample_nbytes xs) + sample_nbytes x < 2 ^ 64"

lemma record_at_valid:
  assumes "sb_sample_id x < 2 ^ 64" "sb_seq_len x < 2 ^ 32" "n < 2 ^ 32" "off + sample_nbytes x < 2 ^ 64"
  shows "index_record_valid (record_at x (int n) off)"
  using assms
  by (simp add: index_record_valid_def INDEX_RECORD_STRUCT_def record_values_def record_at_def Let_def
      field_ok_def sample_nbytes_def)

lemma write_sample_bytes_inv:
  assumes inv: "writer_inv w s contents recs xs"
  obtains (ok) w' s' contents' r where "write_sample_bytes x w s = Inr (w', s')"
    "writer_inv w' s' contents' (recs @ [r]) (xs @ [x])"
    "rank_dir w' = rank_dir w" "max_shard_bytes w' = max_shard_bytes w" "same_outside (rank_dir w) s s'"
  | (overflow) e where "write_sample_bytes x w s = Inl e" "\<not> fits_index xs x"
proof -
  have core: "writer_core w s contents recs xs" and n: "length contents \<le> length xs"
    and bnd: "\<forall>c \<in> set contents. shard_bounded (max_shard_bytes w) xs c"
    using inv by (auto simp: writer_inv_def)
  obtain w0 s0 cs c where e: "ensure_shard (sample_nbytes x) w s = (w0, s0)"
    "writer_core w0 s0 (cs @ [c]) recs xs"
    "rank_dir w0 = rank_dir w" "max_shard_bytes w0 = max_shard_bytes w" "same_outside (rank_dir w) s s0"
    "length cs \<le> length xs" "\<forall>d \<in> set cs. shard_bounded (max_shard_bytes w) xs d"
    "c = [] \<or> int (length c) + int (sample_nbytes x) \<le> max_shard_bytes w"
    by (rule ensure_shard_core [OF core n bnd])
  have W: "current_shard_id w0 = int (length cs)" "current_shard_size w0 = length c"
    "current_shard_handle w0 = Some (rank_dir w @ [local_shard_name (length cs)])"
    "index_handle w0 = Some (rank_dir w @ [''samples.local.idx''])"
    "fs_bytes s0 (rank_dir w @ [local_shard_name (length cs)]) = Inr c"
    using e(2,3) by (auto simp: writer_core_def rank_files_def fs_bytes_eq nth_append)
  obtain f where f: "fs_get s0 (rank_dir w @ [''samples.local.idx'']) = Some (Bytes f)"
    using e(2,3) by (auto simp: writer_core_def rank_files_def)
  have "length c \<le> sum_list (map sample_nbytes xs)"
    using e(2) by (auto simp: writer_core_def intro: member_le_sum_list)
  then have valid: "index_record_valid (record_at x (current_shard_id w0) (current_shard_size w0))" if "fits_index xs x"
    unfolding W(1,2) using that e(6) by (intro record_at_valid) (auto simp: fits_index_def)
  have fb: "fs_bytes s0 (rank_dir w @ [''samples.local.idx'']) = Inr f" using f by (simp add: fs_bytes_eq)
  show ?thesis
  proof (cases "pack_index_record (record_at x (current_shard_id w0) (current_shard_size w0))")
    case (Inl er)
    then have "write_sample_bytes x w s = Inl er"
      using e(1) W fb
      by (simp add: write_sample_bytes_def write_field_ok record_at_def Let_def add.assoc sample_nbytes_def)
    moreover have "\<not> fits_index xs x" using valid Inl idx.pack_valid by fastforce
    ultimately show ?thesis by (rule overflow)
  next
    case (Inr packed)
    note step = write_sample_bytes_eval [OF e(1) W(3,5,4) _ fb Inr]
    note core' = write_payload_core [OF e(2) Inr, unfolded e(3), OF f]
    have "\<forall>d \<in> set cs. shard_bounded (max_shard_bytes w) (xs @ [x]) d"
      using e(7) by (auto simp: shard_bounded_def)
    moreover have "shard_bounded (max_shard_bytes w) (xs @ [x]) (c @ payload x)"
      using e(8) by (auto simp: shard_bounded_def length_payload)
    ultimately have "writer_inv
        (w0\<lparr> current_shard_size := current_shard_size w0 + sample_nbytes x, num_local_samples := num_local_samples w0 + 1 \<rparr>)
        (fs_put (rank_dir w @ [''samples.local.idx'']) (Bytes (f @ packed))
          (fs_put (rank_dir w @ [local_shard_name (length cs)]) (Bytes (c @ payload x)) s0))
        (cs @ [c @ payload x]) (recs @ [record_at x (current_shard_id w0) (current_shard_size w0)]) (xs @ [x])"
      using core' e(3,4,6) by (simp add: writer_inv_def)
    then show ?thesis by (rule ok [OF step, rotated]) (use e(3,4,5) in simp_all)
  qed
qed

end
