(* ===== verification/Async_Writer.thy ===== *)
theory Async_Writer
  imports Cache_Writer
begin

text \<open>
  \<open>AsyncTargetCacheWriter\<close>: the main thread puts samples on a bounded queue, a worker
  thread takes them off and hands them to the local writer, \<open>close\<close> puts a sentinel and
  joins the worker. The two threads are modelled as a step relation over their shared
  state: every interleaving of their atomic actions is a path of the relation. An item
  taken by \<open>queue.get\<close> and not yet written is \<open>in_flight\<close>.
\<close>

section \<open>State and steps\<close>

datatype queue_item = Item sample_bytes | Sentinel

record async_writer =
  aw_writer :: local_writer
  aw_fs :: fs
  aw_queue :: "queue_item list"
  aw_maxsize :: nat
  aw_num_local_samples :: nat
  aw_closed :: bool
  aw_exception :: "py_error option"
  aw_in_flight :: "queue_item option"
  aw_alive :: bool
  aw_joining :: bool

definition async_init :: "path \<Rightarrow> int \<Rightarrow> nat \<Rightarrow> fs \<Rightarrow> async_writer" where
  "async_init dir mx maxsize s =
     (let (w, s') = writer_init dir mx s in
      \<lparr> aw_writer = w, aw_fs = s', aw_queue = [], aw_maxsize = maxsize, aw_num_local_samples = 0,
        aw_closed = False, aw_exception = None, aw_in_flight = None, aw_alive = True, aw_joining = False \<rparr>)"

text \<open>\<open>queue.Queue.put\<close> blocks while the queue is full; a maximum size of 0 means no bound.\<close>

definition queue_room :: "async_writer \<Rightarrow> bool" where
  "queue_room a \<longleftrightarrow> aw_maxsize a = 0 \<or> length (aw_queue a) < aw_maxsize a"

definition enqueue :: "queue_item \<Rightarrow> async_writer \<Rightarrow> async_writer" where
  "enqueue i a = a\<lparr> aw_queue := aw_queue a @ [i] \<rparr>"

text \<open>The worker's actions: \<open>queue.get\<close>, and processing what it got.\<close>

definition worker_get :: "async_writer \<Rightarrow> async_writer option" where
  "worker_get a =
     (if aw_alive a \<and> aw_in_flight a = None then
        (case aw_queue a of [] \<Rightarrow> None
         | i # q \<Rightarrow> Some (a\<lparr> aw_queue := q, aw_in_flight := Some i \<rparr>))
      else None)"

definition worker_exit :: "py_error option \<Rightarrow> async_writer \<Rightarrow> async_writer" where
  "worker_exit e a = a\<lparr> aw_exception := e, aw_in_flight := None, aw_alive := False,
                        aw_writer := writer_close (aw_writer a) \<rparr>"

definition worker_process :: "async_writer \<Rightarrow> async_writer option" where
  "worker_process a =
     (case aw_in_flight a of None \<Rightarrow> None
      | Some Sentinel \<Rightarrow> Some (worker_exit None a)
      | Some (Item x) \<Rightarrow>
          (case write_sample_bytes x (aw_writer a) (aw_fs a) of
             Inl e \<Rightarrow> Some (worker_exit (Some e) a)
           | Inr (w, s) \<Rightarrow> Some (a\<lparr> aw_writer := w, aw_fs := s, aw_in_flight := None \<rparr>)))"

text \<open>What \<open>close\<close> does once the worker has ended.\<close>

definition close_result :: "async_writer \<Rightarrow> unit res" where
  "close_result a =
     (if aw_exception a \<noteq> None then Inl RuntimeError
      else check (num_local_samples (aw_writer a) = aw_num_local_samples a) AssertionError)"

datatype event = Write cache_sample | WriteRaises | CloseBegins | CloseRaises | CloseEnds "unit res" | Worker

inductive async_step :: "async_writer \<Rightarrow> event \<Rightarrow> async_writer \<Rightarrow> bool" where
  put_sample: "\<not> aw_joining a \<Longrightarrow> aw_exception a = None \<Longrightarrow> queue_room a \<Longrightarrow>
    a' = (enqueue (Item (build_target_cache_sample_bytes (aw_num_local_samples a) x)) a)
           \<lparr> aw_num_local_samples := aw_num_local_samples a + 1 \<rparr> \<Longrightarrow>
    async_step a (Write x) a'"
| put_raises: "\<not> aw_joining a \<Longrightarrow> aw_exception a \<noteq> None \<Longrightarrow> async_step a WriteRaises a"
| close_put: "\<not> aw_joining a \<Longrightarrow> \<not> aw_closed a \<Longrightarrow> aw_exception a = None \<Longrightarrow> queue_room a \<Longrightarrow>
    async_step a CloseBegins ((enqueue Sentinel a)\<lparr> aw_joining := True \<rparr>)"
| close_failed: "\<not> aw_joining a \<Longrightarrow> \<not> aw_closed a \<Longrightarrow> aw_exception a \<noteq> None \<Longrightarrow>
    async_step a CloseBegins (a\<lparr> aw_joining := True \<rparr>)"
| close_raises: "\<not> aw_joining a \<Longrightarrow> aw_exception a \<noteq> None \<Longrightarrow> async_step a CloseRaises a"
| close_joined: "aw_joining a \<Longrightarrow> \<not> aw_alive a \<Longrightarrow>
    async_step a (CloseEnds (close_result a)) (a\<lparr> aw_joining := False, aw_closed := True \<rparr>)"
| close_again: "\<not> aw_joining a \<Longrightarrow> aw_closed a \<Longrightarrow>
    async_step a (CloseEnds (check (aw_exception a = None) RuntimeError)) a"
| w_get: "worker_get a = Some a' \<Longrightarrow> async_step a Worker a'"
| w_process: "aw_alive a \<Longrightarrow> worker_process a = Some a' \<Longrightarrow> async_step a Worker a'"

inductive async_run :: "async_writer \<Rightarrow> event list \<Rightarrow> async_writer \<Rightarrow> bool" where
  run_refl: "async_run a [] a"
| run_step: "async_run a evs b \<Longrightarrow> async_step b e c \<Longrightarrow> async_run a (evs @ [e]) c"

inductive_cases async_stepE: "async_step a e b"
inductive_cases async_run_snocE: "async_run a (evs @ [e]) c"

text \<open>The samples the main thread has handed over, with the ids they were given.\<close>

fun written :: "event list \<Rightarrow> cache_sample list" where
  "written [] = []"
| "written (Write x # evs) = x # written evs"
| "written (_ # evs) = written evs"

definition numbered :: "cache_sample list \<Rightarrow> sample_bytes list" where
  "numbered xs = map (\<lambda>(i, x). build_target_cache_sample_bytes i x) (List.enumerate 0 xs)"

lemma written_append [simp]: "written (evs @ fvs) = written evs @ written fvs"
  by (induction evs rule: written.induct) auto

lemma numbered_snoc [simp]: "numbered (xs @ [x]) = numbered xs @ [build_target_cache_sample_bytes (length xs) x]"
  by (simp add: numbered_def enumerate_append_eq)

lemma length_numbered [simp]: "length (numbered xs) = length xs"
  by (simp add: numbered_def)

section \<open>The invariant\<close>

fun items :: "queue_item list \<Rightarrow> sample_bytes list" where
  "items [] = []"
| "items (Item x # q) = x # items q"
| "items (Sentinel # q) = items q"

definition pending :: "async_writer \<Rightarrow> queue_item list" where
  "pending a = (case aw_in_flight a of None \<Rightarrow> [] | Some i \<Rightarrow> [i]) @ aw_queue a"

text \<open>What the disk holds below the rank directory, whether or not the writer is closed.\<close>

definition stored :: "local_writer \<Rightarrow> fs \<Rightarrow> sample_bytes list \<Rightarrow> bool" where
  "stored w s xs \<longleftrightarrow> (\<exists>contents recs. rank_files (rank_dir w) s contents recs xs
     \<and> local_shard_files w = map local_shard_name [0..<length contents]
     \<and> num_local_samples w = length xs \<and> length contents \<le> length xs
     \<and> (\<forall>c \<in> set contents. shard_bounded (max_shard_bytes w) xs c))"

lemma items_append [simp]: "items (p @ q) = items p @ items q"
  by (induction p rule: items.induct) auto

lemma writer_inv_stored: "writer_inv w s contents recs xs \<Longrightarrow> stored w s xs"
  by (auto simp: writer_inv_def writer_core_def stored_def)

lemma stored_close [simp]: "stored (writer_close w) s xs = stored w s xs"
  by (simp add: stored_def writer_close_def Let_def)

lemma rank_dir_close [simp]: "rank_dir (writer_close w) = rank_dir w" "max_shard_bytes (writer_close w) = max_shard_bytes w"
  by (simp_all add: writer_close_def Let_def)

text \<open>
  Without a failure, what is stored followed by what is pending is what was handed over, in
  order. While the worker runs the writer is open; the sentinel is pending exactly while
  \<open>close\<close> waits for a running worker, and it is the last item.
\<close>

definition async_inv :: "path \<Rightarrow> int \<Rightarrow> cache_sample list \<Rightarrow> async_writer \<Rightarrow> bool" where
  "async_inv dir mx xs a \<longleftrightarrow>
     aw_num_local_samples a = length xs
   \<and> rank_dir (aw_writer a) = dir \<and> max_shard_bytes (aw_writer a) = mx
   \<and> (aw_alive a \<longrightarrow> aw_exception a = None \<and> \<not> aw_closed a)
   \<and> (\<not> aw_alive a \<longrightarrow> aw_in_flight a = None)
   \<and> (\<not> aw_alive a \<and> aw_exception a = None \<longrightarrow> aw_joining a \<or> aw_closed a)
   \<and> (aw_exception a = None \<longrightarrow>
       (\<exists>done. numbered xs = done @ items (pending a)
          \<and> (if aw_alive a then \<exists>contents recs. writer_inv (aw_writer a) (aw_fs a) contents recs done
             else stored (aw_writer a) (aw_fs a) done)))
   \<and> (aw_exception a = None \<longrightarrow>
       (if aw_alive a \<and> aw_joining a then \<exists>q. pending a = q @ [Sentinel] \<and> Sentinel \<notin> set q
        else Sentinel \<notin> set (pending a)))
   \<and> (aw_exception a = None \<and> \<not> aw_alive a \<and> aw_joining a \<longrightarrow> pending a = [])"

lemma async_init_inv: "async_inv dir mx [] (async_init dir mx maxsize s)"
proof -
  obtain w s' where w: "writer_init dir mx s = (w, s')" by fastforce
  then have "writer_inv w s' [] [] []" "rank_dir w = dir" "max_shard_bytes w = mx"
    using writer_init_inv [of dir mx s] by auto
  with w show ?thesis
    by (auto simp: async_inv_def async_init_def pending_def numbered_def)
qed

text \<open>Preservation, one lemma per kind of step.\<close>

lemma pending_enqueue [simp]: "pending (enqueue i a) = pending a @ [i]"
  by (simp add: pending_def enqueue_def)

lemma put_sample_inv:
  assumes inv: "async_inv dir mx xs a" and "\<not> aw_joining a" "aw_exception a = None"
  shows "async_inv dir mx (xs @ [x])
    ((enqueue (Item (build_target_cache_sample_bytes (aw_num_local_samples a) x)) a)
       \<lparr> aw_num_local_samples := aw_num_local_samples a + 1 \<rparr>)"
proof -
  let ?b = "(enqueue (Item (build_target_cache_sample_bytes (aw_num_local_samples a) x)) a)
       \<lparr> aw_num_local_samples := aw_num_local_samples a + 1 \<rparr>"
  have "pending ?b = pending a @ [Item (build_target_cache_sample_bytes (aw_num_local_samples a) x)]"
    by (simp add: pending_def enqueue_def)
  moreover have "aw_num_local_samples a = length xs" using inv by (simp add: async_inv_def)
  ultimately show ?thesis
    using assms by (auto simp: async_inv_def) (auto simp: enqueue_def)
qed

lemma close_put_inv:
  assumes inv: "async_inv dir mx xs a"
    and "\<not> aw_joining a" "\<not> aw_closed a" "aw_exception a = None"
  shows "async_inv dir mx xs ((enqueue Sentinel a)\<lparr> aw_joining := True \<rparr>)"
proof -
  have "aw_alive a" using assms by (auto simp: async_inv_def)
  moreover have "pending ((enqueue Sentinel a)\<lparr> aw_joining := True \<rparr>) = pending a @ [Sentinel]"
    by (simp add: pending_def enqueue_def)
  ultimately show ?thesis
    using assms by (auto simp: async_inv_def) (auto simp: enqueue_def)
qed

lemma worker_get_pending:
  "worker_get a = Some b \<Longrightarrow> pending b = pending a"
  by (auto simp: worker_get_def pending_def split: if_splits list.splits)

lemma worker_get_inv:
  assumes inv: "async_inv dir mx xs a" and g: "worker_get a = Some b"
  shows "async_inv dir mx xs b"
proof -
  obtain i q where b: "aw_alive a" "b = a\<lparr> aw_queue := q, aw_in_flight := Some i \<rparr>"
    using g by (auto simp: worker_get_def split: if_splits list.splits)
  show ?thesis using inv worker_get_pending [OF g] b by (auto simp: async_inv_def)
qed

lemma worker_process_defined: "aw_in_flight a = Some i \<Longrightarrow> \<exists>b. worker_process a = Some b"
  by (cases "worker_process a") (auto simp: worker_process_def split: queue_item.splits sum.splits)

lemma worker_process_inv:
  assumes inv: "async_inv dir mx xs a" and alive: "aw_alive a" and p: "worker_process a = Some b"
  shows "async_inv dir mx xs b"
proof -
  obtain i where i: "aw_in_flight a = Some i" using p by (auto simp: worker_process_def split: option.splits)
  have pend: "pending a = i # aw_queue a" using i by (simp add: pending_def)
  obtain don contents recs where d: "numbered xs = don @ items (pending a)"
    "writer_inv (aw_writer a) (aw_fs a) contents recs don"
    using inv alive by (auto simp: async_inv_def)
  have A: "aw_exception a = None" "\<not> aw_closed a" using inv alive by (auto simp: async_inv_def)
  show ?thesis
  proof (cases i)
    case Sentinel
    have "aw_joining a \<and> aw_queue a = []"
      using inv alive A(1) pend Sentinel by (auto simp: async_inv_def Cons_eq_append_conv split: if_splits)
    moreover have "b = worker_exit None a" using p i Sentinel by (simp add: worker_process_def)
    moreover have "stored (aw_writer a) (aw_fs a) (numbered xs)"
      using d writer_inv_stored pend Sentinel calculation(1) by auto
    ultimately show ?thesis
      using inv alive by (auto simp: async_inv_def worker_exit_def pending_def)
  next
    case (Item x)
    show ?thesis
    proof (cases rule: write_sample_bytes_inv [OF d(2), of x])
      case (1 w' s' contents' r)
      then have b: "b = a\<lparr> aw_writer := w', aw_fs := s', aw_in_flight := None \<rparr>"
        using p i Item by (simp add: worker_process_def)
      have pb: "pending b = aw_queue a" using b by (simp add: pending_def)
      have "numbered xs = (don @ [x]) @ items (aw_queue a)" using d(1) pend Item by simp
      moreover have "if aw_joining a then \<exists>q. aw_queue a = q @ [Sentinel] \<and> Sentinel \<notin> set q
                     else Sentinel \<notin> set (aw_queue a)"
        using inv alive A(1) pend Item by (auto simp: async_inv_def Cons_eq_append_conv split: if_splits)
      ultimately show ?thesis
        using inv alive A 1 pb by (auto simp: async_inv_def b)
    next
      case (2 e)
      then have "b = worker_exit (Some e) a" using p i Item by (simp add: worker_process_def)
      then show ?thesis using inv by (auto simp: async_inv_def worker_exit_def)
    qed
  qed
qed

lemma async_step_inv:
  assumes "async_step a e b" and inv: "async_inv dir mx xs a"
  shows "async_inv dir mx (xs @ written [e]) b"
  using assms(1)
proof cases
  case (put_sample x)
  then show ?thesis using put_sample_inv [OF inv] by simp
next
  case put_raises
  then show ?thesis using inv by simp
next
  case close_put
  then show ?thesis using close_put_inv [OF inv] by simp
next
  case close_failed
  then show ?thesis using inv by (auto simp: async_inv_def pending_def)
next
  case close_raises
  then show ?thesis using inv by simp
next
  case close_joined
  then show ?thesis using inv by (auto simp: async_inv_def pending_def)
next
  case close_again
  then show ?thesis using inv by simp
next
  case w_get
  then show ?thesis using worker_get_inv [OF inv] by simp
next
  case w_process
  then show ?thesis using worker_process_inv [OF inv] by simp
qed

lemma async_run_inv:
  "async_run a evs b \<Longrightarrow> async_inv dir mx [] a \<Longrightarrow> async_inv dir mx (written evs) b"
proof (induction rule: async_run.induct)
  case (run_step a evs b e c)
  then show ?case using async_step_inv [of b e c dir mx "written evs"] by simp
qed simp

lemma async_close_stored:
  assumes run: "async_run (async_init dir mx maxsize s) evs b"
    and joined: "aw_joining b" "\<not> aw_alive b"
  shows "close_result b \<noteq> Inl AssertionError
    \<and> (close_result b = Inr () \<longrightarrow> rank_dir (aw_writer b) = dir
        \<and> max_shard_bytes (aw_writer b) = mx \<and> stored (aw_writer b) (aw_fs b) (numbered (written evs)))"
proof -
  have inv: "async_inv dir mx (written evs) b"
    using async_run_inv [OF run async_init_inv] .
  show ?thesis
  proof (cases "aw_exception b")
    case None
    then have "stored (aw_writer b) (aw_fs b) (numbered (written evs))"
      using inv joined by (auto simp: async_inv_def)
    moreover from this have "num_local_samples (aw_writer b) = aw_num_local_samples b"
      using inv by (auto simp: async_inv_def stored_def)
    ultimately show ?thesis
      using inv None by (simp add: close_result_def async_inv_def)
  next
    case (Some e)
    then show ?thesis by (simp add: close_result_def)
  qed
qed

text \<open>
  (C26) The asynchronous writer loses nothing. In every interleaving of the main thread and
  the worker, \<open>close\<close> never fails its lost-samples assertion; when it returns without an
  error, the local index and the shards below the rank directory hold exactly the samples
  handed over before, in order and numbered from 0, and every shard is within
  \<open>max_shard_bytes\<close> unless it is one oversized sample.
\<close>

theorem async_writer_loses_nothing:
  assumes run: "async_run (async_init dir mx maxsize s) evs b"
    and joined: "aw_joining b" "\<not> aw_alive b"
  shows "close_result b \<noteq> Inl AssertionError
    \<and> (close_result b = Inr () \<longrightarrow> rank_dir (aw_writer b) = dir
        \<and> max_shard_bytes (aw_writer b) = mx \<and> stored (aw_writer b) (aw_fs b) (numbered (written evs)))"
  by (rule async_close_stored [OF assms])


section \<open>A concrete run\<close>

text \<open>One sample written, then \<open>close\<close>; the worker takes the sample and the sentinel.\<close>

definition demo_sample :: cache_sample where
  "demo_sample = \<lparr> cs_input_ids = [7], cs_attention_mask = [1], cs_loss_mask = [0],
     cs_target_hidden_states = [[5]], cs_target_last_hidden_states = [[9]] \<rparr>"

definition demo_start :: async_writer where
  "demo_start = async_init [''c'', ''_tmp'', ''rank_0''] 100 2 \<lparr> files = [], dirs = [] \<rparr>"

definition demo_put :: async_writer where
  "demo_put = (enqueue (Item (build_target_cache_sample_bytes 0 demo_sample)) demo_start)
     \<lparr> aw_num_local_samples := 1 \<rparr>"

definition demo_closing :: async_writer where
  "demo_closing = (enqueue Sentinel demo_put)\<lparr> aw_joining := True \<rparr>"

definition demo_end :: async_writer where
  "demo_end = the (worker_process (the (worker_get (the (worker_process (the (worker_get demo_closing)))))))"

lemma async_run_step:
  "async_run a evs b \<Longrightarrow> async_step b e c \<Longrightarrow> fvs = evs @ [e] \<Longrightarrow> async_run a fvs c"
  by (simp add: run_step)

lemma worker_get_some: "worker_get a \<noteq> None \<Longrightarrow> async_step a Worker (the (worker_get a))"
  by (auto intro: w_get)

lemma worker_process_some: "worker_process a \<noteq> None \<Longrightarrow> aw_alive a \<Longrightarrow> async_step a Worker (the (worker_process a))"
  by (auto intro: w_process)

lemma demo_run_closing: "async_run demo_start [Write demo_sample, CloseBegins] demo_closing"
proof -
  have "async_step demo_start (Write demo_sample) demo_put"
    by (rule put_sample) (simp_all add: demo_start_def demo_put_def async_init_def writer_init_def Let_def queue_room_def)
  then have r1: "async_run demo_start [Write demo_sample] demo_put"
    by (rule async_run_step [OF run_refl]) simp
  have "async_step demo_put CloseBegins demo_closing"
    unfolding demo_closing_def
    by (rule close_put) (simp_all add: demo_start_def demo_put_def async_init_def writer_init_def Let_def queue_room_def enqueue_def)
  then show ?thesis by (rule async_run_step [OF r1]) simp
qed

lemma demo_run: "async_run demo_start [Write demo_sample, CloseBegins, Worker, Worker, Worker, Worker] demo_end"
proof -
  note r2 = demo_run_closing
  have "worker_get demo_closing \<noteq> None" by code_simp
  then have r3: "async_run demo_start [Write demo_sample, CloseBegins, Worker] (the (worker_get demo_closing))"
    by (intro async_run_step [OF r2 worker_get_some]) simp_all
  have "worker_process (the (worker_get demo_closing)) \<noteq> None" "aw_alive (the (worker_get demo_closing))"
    by code_simp+
  then have r4: "async_run demo_start [Write demo_sample, CloseBegins, Worker, Worker]
      (the (worker_process (the (worker_get demo_closing))))"
    by (intro async_run_step [OF r3 worker_process_some]) simp_all
  have "worker_get (the (worker_process (the (worker_get demo_closing)))) \<noteq> None" by code_simp
  then have r5: "async_run demo_start [Write demo_sample, CloseBegins, Worker, Worker, Worker]
      (the (worker_get (the (worker_process (the (worker_get demo_closing))))))"
    by (intro async_run_step [OF r4 worker_get_some]) simp_all
  have "worker_process (the (worker_get (the (worker_process (the (worker_get demo_closing)))))) \<noteq> None"
    "aw_alive (the (worker_get (the (worker_process (the (worker_get demo_closing))))))"
    by code_simp+
  then show ?thesis unfolding demo_end_def by (intro async_run_step [OF r5 worker_process_some]) simp_all
qed

lemma demo_closed: "aw_joining demo_end" "\<not> aw_alive demo_end" "close_result demo_end = Inr ()"
  by code_simp+

theorem async_writer_loses_nothing_witness:
  "stored (aw_writer demo_end) (aw_fs demo_end) [build_target_cache_sample_bytes 0 demo_sample]"
  using async_writer_loses_nothing [OF demo_run [unfolded demo_start_def]] demo_closed
  by (simp add: numbered_def)


end
