(* ===== verification/Cache_Finalize.thy ===== *)
theory Cache_Finalize
  imports Async_Writer
begin

text \<open>
  From the per-rank output to one cache: the sample ranges of the ranks, the global shard
  numbering, the renaming of shard files, the merge of the local indices into
  \<^verbatim>\<open>samples.idx\<close>, the manifest with its validation, and the directory set-up and
  clean-up (\<^verbatim>\<open>DeepSpec/deepspec/data/target_cache_dataset.py\<close>).
\<close>

section \<open>Sample ranges and directories\<close>

definition compute_local_sample_range :: "nat \<Rightarrow> nat \<Rightarrow> nat \<Rightarrow> (nat \<times> nat) res" where
  "compute_local_sample_range num_samples rank world_size =
     (if world_size = 0 then Inl ZeroDivisionError
      else let base = num_samples div world_size;
               remainder = num_samples mod world_size;
               start = rank * base + min rank remainder;
               local_count = base + (if rank < remainder then 1 else 0)
           in Inr (start, start + local_count))"

definition fs_makedirs :: "path \<Rightarrow> fs \<Rightarrow> fs" where
  "fs_makedirs d s = (if d \<in> set (dirs s) then s else s\<lparr> dirs := d # dirs s \<rparr>)"

definition prepare_target_cache_output_dir :: "path \<Rightarrow> fs \<Rightarrow> fs res" where
  "prepare_target_cache_output_dir output_dir s =
     (if (\<exists>p \<in> set (map fst (files s)) \<union> set (dirs s). below output_dir p) then Inl FileExistsError
      else Inr (fs_makedirs (output_dir @ [''_tmp'']) (fs_makedirs output_dir s)))"

definition cleanup_target_cache_tmp_dir :: "path \<Rightarrow> fs \<Rightarrow> fs" where
  "cleanup_target_cache_tmp_dir output_dir s =
     (let tmp = output_dir @ [''_tmp''] in
      s\<lparr> files := filter (\<lambda>(p, c). \<not> below tmp p) (files s),
         dirs := filter (\<lambda>d. d \<noteq> tmp \<and> \<not> below tmp d) (dirs s) \<rparr>)"

definition rank_path :: "path \<Rightarrow> nat \<Rightarrow> path" where
  "rank_path output_dir r = output_dir @ [''_tmp'', ''rank_'' @ nat_str r]"

definition load_local_cache_write_summary :: "path \<Rightarrow> fs \<Rightarrow> local_cache_write_summary res" where
  "load_local_cache_write_summary dir s =
     (case fs_get s (dir @ [''summary.json'']) of Some (SummaryDoc d) \<Rightarrow> Inr d | _ \<Rightarrow> Inl FileNotFoundError)"

section \<open>The global shard map\<close>

definition global_shard_name :: "nat \<Rightarrow> string" where
  "global_shard_name i = ''shard-'' @ pad5 i @ ''.bin''"

type_synonym shard_map = "(nat \<times> nat list) list"

text \<open>The inner loop over the files of one rank, and the loop over the ranks.\<close>

definition assign_shard :: "nat list \<times> shard_entry list \<times> nat \<Rightarrow> string \<Rightarrow> nat list \<times> shard_entry list \<times> nat" where
  "assign_shard = (\<lambda>(local_map, shards, next_shard_id) _.
     (local_map @ [next_shard_id],
      shards @ [\<lparr> se_shard_id = int next_shard_id, se_file_name = global_shard_name next_shard_id \<rparr>],
      next_shard_id + 1))"

definition assign_rank ::
  "shard_map \<times> shard_entry list \<times> nat \<Rightarrow> local_cache_write_summary \<Rightarrow> shard_map \<times> shard_entry list \<times> nat" where
  "assign_rank = (\<lambda>(smap, shards, next_shard_id) summary.
     let (local_map, shards', next') = foldl assign_shard ([], shards, next_shard_id) (sum_local_shard_files summary)
     in (AList.update (global_rank summary) local_map smap, shards', next'))"

definition build_global_target_cache_shard_map ::
  "local_cache_write_summary list \<Rightarrow> shard_map \<times> shard_entry list" where
  "build_global_target_cache_shard_map summaries =
     (let (smap, shards, _) = foldl assign_rank ([], [], 0) (sort_key source_sample_start summaries)
      in (smap, shards))"

definition lookup_map :: "shard_map \<Rightarrow> nat \<Rightarrow> nat list res" where
  "lookup_map smap r = (case map_of smap r of None \<Rightarrow> Inl KeyError | Some l \<Rightarrow> Inr l)"

definition list_get :: "'a list \<Rightarrow> nat \<Rightarrow> 'a res" where
  "list_get xs i = (if i < length xs then Inr (xs ! i) else Inl IndexError)"

definition rename_local_target_cache_shards ::
  "path \<Rightarrow> path \<Rightarrow> local_cache_write_summary \<Rightarrow> shard_map \<Rightarrow> fs \<Rightarrow> fs res" where
  "rename_local_target_cache_shards output_dir dir summary smap s =
     bindE (lookup_map smap (global_rank summary)) (\<lambda>local_map.
     foldE (\<lambda>s (local_shard_id, file_name).
              bindE (list_get local_map local_shard_id) (\<lambda>g.
              fs_replace (dir @ [file_name]) (output_dir @ [global_shard_name g]) s))
       s (List.enumerate 0 (sum_local_shard_files summary)))"

section \<open>Merging the indices\<close>

text \<open>One record of a local index: check its id, relabel it and append its packed form.\<close>

definition merge_record ::
  "byte list \<Rightarrow> nat list \<Rightarrow> nat \<times> nat \<times> byte list \<Rightarrow> nat \<Rightarrow> (nat \<times> nat \<times> byte list) res" where
  "merge_record local_bytes local_map = (\<lambda>(next_local, next_expected, out) offset.
     bindE (unpack_index_record local_bytes offset) (\<lambda>r.
     bindE (check (sample_id r = int next_local) AssertionError) (\<lambda>_.
     bindE (list_get local_map (nat (shard_id r))) (\<lambda>g.
     bindE (pack_index_record (r\<lparr> sample_id := int next_expected, shard_id := int g \<rparr>)) (\<lambda>packed.
     Inr (next_local + 1, next_expected + 1, out @ packed))))))"

definition merge_rank ::
  "path \<Rightarrow> shard_map \<Rightarrow> fs \<Rightarrow> nat \<times> byte list \<Rightarrow> local_cache_write_summary \<Rightarrow> (nat \<times> byte list) res" where
  "merge_rank output_dir smap s = (\<lambda>(next_expected, out) summary.
     bindE (fs_bytes s (rank_path output_dir (global_rank summary) @ [''samples.local.idx''])) (\<lambda>local_bytes.
     bindE (check (length local_bytes mod INDEX_RECORD_SIZE = 0) AssertionError) (\<lambda>_.
     if local_bytes = [] then Inr (next_expected, out)
     else
       bindE (lookup_map smap (global_rank summary)) (\<lambda>local_map.
       bindE (foldE (merge_record local_bytes local_map) (0, next_expected, out)
                (map (\<lambda>k. k * INDEX_RECORD_SIZE) [0..<length local_bytes div INDEX_RECORD_SIZE]))
         (\<lambda>(_, next', out'). Inr (next', out'))))))"

definition finalize_target_cache_index ::
  "path \<Rightarrow> local_cache_write_summary list \<Rightarrow> shard_map \<Rightarrow> fs \<Rightarrow> (nat \<times> fs) res" where
  "finalize_target_cache_index output_dir summaries smap s =
     (let tmp = output_dir @ [''samples.idx.tmp''] in
      bindE (foldE (merge_rank output_dir smap (fs_put tmp (Bytes []) s)) (0, []) (sort_key source_sample_start summaries))
        (\<lambda>(next_expected, out).
      bindE (fs_replace tmp (output_dir @ [''samples.idx'']) (fs_put tmp (Bytes out) s)) (\<lambda>s'.
      Inr (next_expected, s'))))"

section \<open>The manifest\<close>

definition TARGET_CACHE_VERSION :: int where "TARGET_CACHE_VERSION = 2"

definition TARGET_CACHE_HIDDEN_DTYPE :: string where "TARGET_CACHE_HIDDEN_DTYPE = ''bfloat16''"

definition TARGET_CACHE_TOKEN_DTYPE :: string where "TARGET_CACHE_TOKEN_DTYPE = ''int32''"

definition TARGET_CACHE_MASK_DTYPE :: string where "TARGET_CACHE_MASK_DTYPE = ''uint8''"

definition build_target_cache_manifest ::
  "nat \<Rightarrow> shard_entry list \<Rightarrow> int list \<Rightarrow> nat \<Rightarrow> extra_fields option \<Rightarrow> manifest" where
  "build_target_cache_manifest num_samples shards target_layer_ids hidden_size extra =
     \<lparr> mf_version = Some TARGET_CACHE_VERSION, mf_num_samples = Some (int num_samples),
       mf_num_shards = Some (int (length shards)), mf_target_layer_ids = Some target_layer_ids,
       mf_hidden_dtype = Some TARGET_CACHE_HIDDEN_DTYPE, mf_token_dtype = Some TARGET_CACHE_TOKEN_DTYPE,
       mf_mask_dtype = Some TARGET_CACHE_MASK_DTYPE, mf_index_record_size = Some (int INDEX_RECORD_SIZE),
       mf_hidden_size = Some (int hidden_size), mf_shards = Some shards, mf_extra = extra \<rparr>"

definition write_target_cache_manifest :: "path \<Rightarrow> manifest \<Rightarrow> fs \<Rightarrow> fs res" where
  "write_target_cache_manifest output_dir m s =
     atomic_json_dump (ManifestDoc m) (output_dir @ [''manifest.json'']) s"

text \<open>A missing key fails the first assertion of the validation.\<close>

definition required :: "'a option \<Rightarrow> 'a res" where
  "required v = (case v of None \<Rightarrow> Inl AssertionError | Some x \<Rightarrow> Inr x)"

fun validate_shards :: "path \<Rightarrow> fs \<Rightarrow> int \<Rightarrow> shard_entry list \<Rightarrow> unit res" where
  "validate_shards cache_dir s k [] = Inr ()"
| "validate_shards cache_dir s k (e # es) =
     bindE (check (se_shard_id e = k) AssertionError) (\<lambda>_.
     bindE (check (fs_get s (cache_dir @ [se_file_name e]) \<noteq> None) AssertionError) (\<lambda>_.
     validate_shards cache_dir s (k + 1) es))"

definition validate_target_cache_manifest :: "path \<Rightarrow> manifest \<Rightarrow> fs \<Rightarrow> unit res" where
  "validate_target_cache_manifest cache_dir m s =
     bindE (required (mf_version m)) (\<lambda>version.
     bindE (required (mf_num_samples m)) (\<lambda>num_samples.
     bindE (required (mf_num_shards m)) (\<lambda>num_shards.
     bindE (required (mf_target_layer_ids m)) (\<lambda>layer_ids.
     bindE (required (mf_hidden_dtype m)) (\<lambda>hidden_dtype.
     bindE (required (mf_token_dtype m)) (\<lambda>token_dtype.
     bindE (required (mf_mask_dtype m)) (\<lambda>mask_dtype.
     bindE (required (mf_index_record_size m)) (\<lambda>record_size.
     bindE (required (mf_hidden_size m)) (\<lambda>hidden_size.
     bindE (required (mf_shards m)) (\<lambda>shards.
     bindE (check (version = TARGET_CACHE_VERSION) AssertionError) (\<lambda>_.
     bindE (check (hidden_dtype = TARGET_CACHE_HIDDEN_DTYPE) AssertionError) (\<lambda>_.
     bindE (check (token_dtype = TARGET_CACHE_TOKEN_DTYPE) AssertionError) (\<lambda>_.
     bindE (check (mask_dtype = TARGET_CACHE_MASK_DTYPE) AssertionError) (\<lambda>_.
     bindE (check (record_size = int INDEX_RECORD_SIZE) AssertionError) (\<lambda>_.
     bindE (check (hidden_size > 0) AssertionError) (\<lambda>_.
     bindE (check (layer_ids \<noteq> []) AssertionError) (\<lambda>_.
     bindE (check (layer_ids = sort layer_ids) AssertionError) (\<lambda>_.
     bindE (check (num_shards = int (length shards)) AssertionError) (\<lambda>_.
     bindE (validate_shards cache_dir s 0 shards) (\<lambda>_.
     bindE (check (fs_get s (cache_dir @ [''samples.idx'']) \<noteq> None) AssertionError) (\<lambda>_.
     bindE (fs_bytes s (cache_dir @ [''samples.idx''])) (\<lambda>index_file.
     bindE (check (length index_file mod INDEX_RECORD_SIZE = 0) AssertionError) (\<lambda>_.
     check (int (length index_file) = num_samples * int INDEX_RECORD_SIZE) AssertionError)))))))))))))))))))))))"

definition load_target_cache_manifest :: "path \<Rightarrow> fs \<Rightarrow> manifest res" where
  "load_target_cache_manifest cache_dir s =
     (case fs_get s (cache_dir @ [''manifest.json'']) of
        Some (ManifestDoc m) \<Rightarrow> bindE (validate_target_cache_manifest cache_dir m s) (\<lambda>_. Inr m)
      | _ \<Rightarrow> Inl AssertionError)"

definition validate_train_cache :: "manifest \<Rightarrow> int list \<Rightarrow> int \<Rightarrow> string \<Rightarrow> unit res" where
  "validate_train_cache m draft_layer_ids draft_hidden_size target_name =
     bindE (case mf_target_layer_ids m of None \<Rightarrow> Inl KeyError | Some l \<Rightarrow> Inr l) (\<lambda>layer_ids.
     bindE (check (layer_ids = draft_layer_ids) AssertionError) (\<lambda>_.
     bindE (case mf_hidden_size m of None \<Rightarrow> Inl KeyError | Some h \<Rightarrow> Inr h) (\<lambda>hs.
     bindE (check (hs = draft_hidden_size) AssertionError) (\<lambda>_.
     bindE (case mf_extra m of None \<Rightarrow> Inl KeyError | Some e \<Rightarrow> Inr (ef_target_model_name_or_path e)) (\<lambda>name.
     check (name = target_name) AssertionError)))))"

section \<open>The ranges tile the dataset\<close>

definition range_start :: "nat \<Rightarrow> nat \<Rightarrow> nat \<Rightarrow> nat" where
  "range_start n w r = r * (n div w) + min r (n mod w)"

lemma compute_range_eq:
  "w > 0 \<Longrightarrow> compute_local_sample_range n r w = Inr (range_start n w r, range_start n w (Suc r))"
  by (auto simp: compute_local_sample_range_def range_start_def Let_def min_def)

lemma range_start_mono: "r \<le> r' \<Longrightarrow> range_start n w r \<le> range_start n w r'"
  unfolding range_start_def by (intro add_mono mult_le_mono1) auto

text \<open>The source range of a rank as a list of sample positions.\<close>

definition local_samples :: "nat \<Rightarrow> nat \<Rightarrow> nat \<Rightarrow> nat list" where
  "local_samples n r w = (case compute_local_sample_range n r w of Inl _ \<Rightarrow> [] | Inr (a, b) \<Rightarrow> [a..<b])"

text \<open>
  The ranks' sample ranges tile the dataset: in rank order they concatenate to
  \<open>0, ..., num_samples - 1\<close>, so no sample is skipped or processed twice, and their sizes
  differ by at most one.
\<close>

theorem sample_ranges_partition:
  assumes w: "w > 0"
  shows "concat (map (\<lambda>r. local_samples n r w) [0..<w]) = [0..<n]
    \<and> (\<forall>r < w. length (local_samples n r w) = n div w \<or> length (local_samples n r w) = n div w + 1)"
proof
  have ls: "local_samples n r w = [range_start n w r..<range_start n w (Suc r)]" for r
    by (simp add: local_samples_def compute_range_eq [OF w])
  have "concat (map (\<lambda>r. local_samples n r w) [0..<k]) = [0..<range_start n w k]" for k
  proof (induction k)
    case (Suc k)
    then show ?case
      using upt_append_between [of 0 "range_start n w k"] range_start_mono [of k "Suc k" n w] by (simp add: ls)
  qed (simp add: range_start_def)
  moreover have "range_start n w w = n"
    using w by (simp add: range_start_def min_absorb2 less_imp_le)
  ultimately show "concat (map (\<lambda>r. local_samples n r w) [0..<w]) = [0..<n]" by metis
  show "\<forall>r < w. length (local_samples n r w) = n div w \<or> length (local_samples n r w) = n div w + 1"
    by (auto simp: ls range_start_def min_def)
qed

theorem sample_ranges_partition_witness:
  "concat (map (\<lambda>r. local_samples 10 r 4) [0..<4]) = [0..<10]"
  using sample_ranges_partition [of 4 10] by simp

section \<open>The shard map\<close>

definition shard_count :: "local_cache_write_summary \<Rightarrow> nat" where
  "shard_count x = length (sum_local_shard_files x)"

definition shard_offset :: "local_cache_write_summary list \<Rightarrow> nat \<Rightarrow> nat" where
  "shard_offset ss j = sum_list (map shard_count (take j ss))"

definition global_entry :: "nat \<Rightarrow> shard_entry" where
  "global_entry i = \<lparr> se_shard_id = int i, se_file_name = global_shard_name i \<rparr>"

lemma fold_assign_shard:
  "foldl assign_shard (lm, sh, n) fs =
     (lm @ [n..<n + length fs], sh @ map global_entry [n..<n + length fs], n + length fs)"
proof (induction fs arbitrary: lm sh n)
  case (Cons f fs)
  have "[n..<n + length (f # fs)] = n # [Suc n..<Suc n + length fs]"
    by (subst upt_conv_Cons) simp_all
  with Cons show ?case by (simp add: assign_shard_def global_entry_def)
qed simp

lemma assign_rank_eq:
  "assign_rank (smap, sh, n) x = (AList.update (global_rank x) [n..<n + shard_count x] smap,
     sh @ map global_entry [n..<n + shard_count x], n + shard_count x)"
  by (simp add: assign_rank_def fold_assign_shard shard_count_def)

lemma fold_assign_rank:
  assumes "distinct (map global_rank ss)"
  shows "\<exists>smap. foldl assign_rank ([], [], 0) ss
            = (smap, map global_entry [0..<shard_offset ss (length ss)], shard_offset ss (length ss))
         \<and> (\<forall>j < length ss. map_of smap (global_rank (ss ! j))
              = Some [shard_offset ss j..<shard_offset ss j + shard_count (ss ! j)])"
  using assms
proof (induction ss rule: rev_induct)
  case (snoc x ss)
  let ?n = "shard_offset ss (length ss)"
  obtain smap where IH: "foldl assign_rank ([], [], 0) ss = (smap, map global_entry [0..<?n], ?n)"
    "\<forall>j < length ss. map_of smap (global_rank (ss ! j)) = Some [shard_offset ss j..<shard_offset ss j + shard_count (ss ! j)]"
    using snoc by auto
  have tot: "shard_offset (ss @ [x]) (length (ss @ [x])) = ?n + shard_count x"
    and pre: "\<And>j. j \<le> length ss \<Longrightarrow> shard_offset (ss @ [x]) j = shard_offset ss j"
    by (simp_all add: shard_offset_def)
  have ne: "j < length ss \<Longrightarrow> global_rank (ss ! j) \<noteq> global_rank x" for j
  proof
    assume "j < length ss" "global_rank (ss ! j) = global_rank x"
    then have "global_rank x \<in> global_rank ` set ss" by (metis imageI nth_mem)
    then show False using snoc.prems by simp
  qed
  have "foldl assign_rank ([], [], 0) (ss @ [x]) =
      (AList.update (global_rank x) [?n..<?n + shard_count x] smap,
       map global_entry [0..<?n + shard_count x], ?n + shard_count x)"
    using upt_add_eq_append [of 0 ?n "shard_count x"]
    by (simp add: IH(1) assign_rank_eq)
  moreover have "\<forall>j < length (ss @ [x]). map_of (AList.update (global_rank x) [?n..<?n + shard_count x] smap)
      (global_rank ((ss @ [x]) ! j))
        = Some [shard_offset (ss @ [x]) j..<shard_offset (ss @ [x]) j + shard_count ((ss @ [x]) ! j)]"
    using IH(2) ne by (auto simp: less_Suc_eq nth_append update_conv' pre)
  ultimately show ?case using tot by auto
qed (simp add: shard_offset_def)

lemma build_shard_map:
  assumes "distinct (map global_rank summaries)"
  defines "ss \<equiv> sort_key source_sample_start summaries"
  obtains smap where "build_global_target_cache_shard_map summaries
      = (smap, map global_entry [0..<shard_offset ss (length ss)])"
    "\<And>j. j < length ss \<Longrightarrow> map_of smap (global_rank (ss ! j))
        = Some [shard_offset ss j..<shard_offset ss j + shard_count (ss ! j)]"
proof -
  have "distinct (map global_rank ss)"
    using assms by (metis distinct_map distinct_sort set_sort)
  from fold_assign_rank [OF this] show ?thesis
    using that by (auto simp: build_global_target_cache_shard_map_def ss_def Let_def)
qed

end
