(* ===== verification/Cache_Merge.thy ===== *)
theory Cache_Merge
  imports Cache_Finalize
begin

text \<open>
  Correctness of the merge: from rank directories that each hold a complete local cache,
  renaming the shards and merging the indices gives one cache whose index locates every
  sample of every rank, in rank order and densely numbered.
\<close>

section \<open>Ranks and the global view\<close>

record rank_data =
  rd_summary :: local_cache_write_summary
  rd_contents :: "byte list list"
  rd_recs :: "index_record list"
  rd_samples :: "cache_sample list"

definition rd_dir :: "path \<Rightarrow> rank_data \<Rightarrow> path" where
  "rd_dir out d = rank_path out (global_rank (rd_summary d))"

definition rank_ready :: "path \<Rightarrow> fs \<Rightarrow> rank_data \<Rightarrow> bool" where
  "rank_ready out s d \<longleftrightarrow>
     rank_files (rd_dir out d) s (rd_contents d) (rd_recs d) (numbered (rd_samples d))
   \<and> sum_local_shard_files (rd_summary d) = map local_shard_name [0..<length (rd_contents d)]"

text \<open>The part of it that the merge of the indices reads.\<close>

definition rank_indexed :: "path \<Rightarrow> fs \<Rightarrow> rank_data \<Rightarrow> bool" where
  "rank_indexed out s d \<longleftrightarrow>
     (\<exists>f. fs_get s (rd_dir out d @ [''samples.local.idx'']) = Some (Bytes f) \<and> idx.is_index (rd_recs d) f)
   \<and> list_all2 (located (rd_contents d)) (rd_recs d) (numbered (rd_samples d))"

lemma rank_ready_indexed: "rank_ready out s d \<Longrightarrow> rank_indexed out s d"
  by (simp add: rank_ready_def rank_indexed_def rank_files_def)

definition numbered_from :: "nat \<Rightarrow> cache_sample list \<Rightarrow> sample_bytes list" where
  "numbered_from n xs = map (\<lambda>(i, x). build_target_cache_sample_bytes i x) (List.enumerate n xs)"

definition relabel :: "nat \<Rightarrow> nat list \<Rightarrow> index_record \<Rightarrow> index_record" where
  "relabel n lmap r = r\<lparr> sample_id := int n, shard_id := int (lmap ! nat (shard_id r)) \<rparr>"

definition relabel_all :: "nat \<Rightarrow> nat list \<Rightarrow> index_record list \<Rightarrow> index_record list" where
  "relabel_all base lmap recs = map (\<lambda>(i, r). relabel i lmap r) (List.enumerate base recs)"

fun merged_recs :: "nat \<Rightarrow> nat \<Rightarrow> rank_data list \<Rightarrow> index_record list" where
  "merged_recs base off [] = []"
| "merged_recs base off (d # ds) =
     relabel_all base [off..<off + length (rd_contents d)] (rd_recs d)
     @ merged_recs (base + length (rd_recs d)) (off + length (rd_contents d)) ds"

fun map_ok :: "shard_map \<Rightarrow> nat \<Rightarrow> rank_data list \<Rightarrow> bool" where
  "map_ok smap off [] = True"
| "map_ok smap off (d # ds) =
     (map_of smap (global_rank (rd_summary d)) = Some [off..<off + length (rd_contents d)]
      \<and> map_ok smap (off + length (rd_contents d)) ds)"

lemma numbered_from_0: "numbered_from 0 xs = numbered xs"
  by (simp add: numbered_from_def numbered_def)

lemma numbered_from_append:
  "numbered_from n (xs @ ys) = numbered_from n xs @ numbered_from (n + length xs) ys"
  by (simp add: numbered_from_def enumerate_append_eq)

lemma length_numbered_from [simp]: "length (numbered_from n xs) = length xs"
  by (simp add: numbered_from_def)

lemma nth_numbered_from: "k < length xs \<Longrightarrow> numbered_from n xs ! k = build_target_cache_sample_bytes (n + k) (xs ! k)"
  by (simp add: numbered_from_def nth_enumerate_eq)

lemma length_relabel_all [simp]: "length (relabel_all base lmap recs) = length recs"
  by (simp add: relabel_all_def)

lemma nth_relabel_all: "k < length recs \<Longrightarrow> relabel_all base lmap recs ! k = relabel (base + k) lmap (recs ! k)"
  by (simp add: relabel_all_def nth_enumerate_eq)

lemma map_ok_nth:
  assumes "\<And>j. j < length ds \<Longrightarrow> map_of smap (global_rank (rd_summary (ds ! j)))
      = Some [off + sum_list (map (\<lambda>d. length (rd_contents d)) (take j ds))..<
              off + sum_list (map (\<lambda>d. length (rd_contents d)) (take j ds)) + length (rd_contents (ds ! j))]"
  shows "map_ok smap off ds"
  using assms
proof (induction ds arbitrary: off)
  case (Cons d ds)
  have "map_ok smap (off + length (rd_contents d)) ds"
  proof (rule Cons.IH)
    fix j assume "j < length ds"
    then show "map_of smap (global_rank (rd_summary (ds ! j)))
      = Some [off + length (rd_contents d) + sum_list (map (\<lambda>d. length (rd_contents d)) (take j ds))..<
          off + length (rd_contents d) + sum_list (map (\<lambda>d. length (rd_contents d)) (take j ds)) + length (rd_contents (ds ! j))]"
      using Cons.prems [of "Suc j"] by (simp add: add.assoc)
  qed
  then show ?case using Cons.prems [of 0] by simp
qed simp

section \<open>Every merged record locates its sample\<close>

lemma stores_relabel [simp]: "stores c (relabel n lmap r) x = stores c r x"
  by (simp add: stores_def relabel_def)

lemma stores_renumber: "stores c r (build_target_cache_sample_bytes m x) = stores c r (build_target_cache_sample_bytes n x)"
  by (simp add: stores_def build_target_cache_sample_bytes_def)

lemma relabel_located:
  assumes loc: "located contents r (build_target_cache_sample_bytes k x)"
  shows "located (pre @ contents @ post) (relabel n [length pre..<length pre + length contents] r)
           (build_target_cache_sample_bytes n x)"
proof -
  define g where "g = nat (shard_id r)"
  let ?r = "relabel n [length pre..<length pre + length contents] r"
  have g: "g < length contents" using loc by (simp add: located_def g_def)
  then have sid: "shard_id ?r = int (length pre + g)" by (simp add: relabel_def g_def)
  have "stores (contents ! g) r (build_target_cache_sample_bytes n x)"
    using loc stores_renumber [of _ r k x n] by (simp add: located_def g_def)
  moreover have "(pre @ contents @ post) ! (length pre + g) = contents ! g" using g by (simp add: nth_append)
  moreover have "sample_id ?r = int (sb_sample_id (build_target_cache_sample_bytes n x))"
    by (simp add: relabel_def build_target_cache_sample_bytes_def)
  ultimately show ?thesis using g unfolding located_def sid nat_int by simp
qed

lemma relabel_all_located:
  assumes "list_all2 (located contents) recs (numbered xs)"
  shows "list_all2 (located (pre @ contents @ post))
           (relabel_all base [length pre..<length pre + length contents] recs) (numbered_from base xs)"
proof -
  have "length recs = length xs" using assms by (auto dest: list_all2_lengthD)
  moreover have "located contents (recs ! k) (build_target_cache_sample_bytes k (xs ! k))" if "k < length xs" for k
    using assms that by (auto simp: list_all2_conv_all_nth numbered_from_0 [symmetric] nth_numbered_from)
  ultimately show ?thesis
    by (auto simp: list_all2_conv_all_nth nth_relabel_all nth_numbered_from intro: relabel_located)
qed

lemma merged_located:
  assumes "\<forall>d \<in> set ds. list_all2 (located (rd_contents d)) (rd_recs d) (numbered (rd_samples d))"
  shows "list_all2 (located (pre @ concat (map rd_contents ds)))
           (merged_recs base (length pre) ds) (numbered_from base (concat (map rd_samples ds)))"
  using assms
proof (induction ds arbitrary: pre base)
  case (Cons d ds)
  have len: "length (rd_recs d) = length (rd_samples d)"
    using Cons.prems by (auto dest: list_all2_lengthD)
  have "list_all2 (located (pre @ rd_contents d @ concat (map rd_contents ds)))
      (relabel_all base [length pre..<length pre + length (rd_contents d)] (rd_recs d))
      (numbered_from base (rd_samples d))"
    using Cons.prems by (intro relabel_all_located) simp
  moreover have "list_all2 (located ((pre @ rd_contents d) @ concat (map rd_contents ds)))
      (merged_recs (base + length (rd_recs d)) (length (pre @ rd_contents d)) ds)
      (numbered_from (base + length (rd_recs d)) (concat (map rd_samples ds)))"
    using Cons.prems by (intro Cons.IH) simp
  ultimately show ?case
    by (simp add: numbered_from_append len list_all2_appendI)
qed (simp add: numbered_from_def)

section \<open>Merging the index files\<close>

definition recs_ok :: "nat \<Rightarrow> index_record list \<Rightarrow> bool" where
  "recs_ok n recs \<longleftrightarrow> (\<forall>k < length recs. sample_id (recs ! k) = int k \<and> nat (shard_id (recs ! k)) < n)"

lemma merge_record_step:
  assumes "idx.is_index recs f" and "recs_ok (length lmap) recs" and k: "k < length recs"
    and "index_record_valid (relabel (base + k) lmap (recs ! k))"
  obtains packed where "merge_record f lmap (k, base + k, out) (k * INDEX_RECORD_SIZE)
      = Inr (Suc k, base + Suc k, out @ packed)"
    "pack_index_record (relabel (base + k) lmap (recs ! k)) = Inr packed"
proof -
  obtain packed where p: "pack_index_record (relabel (base + k) lmap (recs ! k)) = Inr packed"
    using idx.pack_valid [OF assms(4)] by auto
  have "unpack_index_record f (k * INDEX_RECORD_SIZE) = Inr (recs ! k)"
    using idx.index_lookup [OF assms(1) k] .
  with p assms(2) k have "merge_record f lmap (k, base + k, out) (k * INDEX_RECORD_SIZE)
      = Inr (Suc k, base + Suc k, out @ packed)"
    by (simp add: merge_record_def recs_ok_def list_get_def relabel_def)
  from that [OF this p] show ?thesis .
qed

lemma merge_records:
  assumes ix: "idx.is_index recs f" and ok: "recs_ok (length lmap) recs"
    and valid: "\<forall>r \<in> set (relabel_all base lmap recs). index_record_valid r" and m: "m \<le> length recs"
    and out: "idx.is_index pre out"
  shows "\<exists>out'. foldE (merge_record f lmap) (0, base, out) (map (\<lambda>k. k * INDEX_RECORD_SIZE) [0..<m])
            = Inr (m, base + m, out') \<and> idx.is_index (pre @ take m (relabel_all base lmap recs)) out'"
  using m
proof (induction m)
  case (Suc m)
  then obtain out' where IH: "foldE (merge_record f lmap) (0, base, out) (map (\<lambda>k. k * INDEX_RECORD_SIZE) [0..<m])
            = Inr (m, base + m, out')" "idx.is_index (pre @ take m (relabel_all base lmap recs)) out'"
    by auto
  have m: "m < length recs" using Suc.prems by simp
  then have v: "index_record_valid (relabel (base + m) lmap (recs ! m))"
    using valid by (metis length_relabel_all nth_mem nth_relabel_all)
  obtain packed where st: "merge_record f lmap (m, base + m, out') (m * INDEX_RECORD_SIZE)
      = Inr (Suc m, base + Suc m, out' @ packed)"
    "pack_index_record (relabel (base + m) lmap (recs ! m)) = Inr packed"
    by (rule merge_record_step [OF ix ok m v])
  have "idx.is_index ((pre @ take m (relabel_all base lmap recs)) @ [relabel (base + m) lmap (recs ! m)]) (out' @ packed)"
    using IH(2) st(2) by (rule idx.is_index_snoc)
  then have "idx.is_index (pre @ take (Suc m) (relabel_all base lmap recs)) (out' @ packed)"
    using m by (simp add: take_Suc_conv_app_nth nth_relabel_all)
  moreover have "foldE (merge_record f lmap) (0, base, out) (map (\<lambda>k. k * INDEX_RECORD_SIZE) [0..<Suc m])
      = Inr (Suc m, base + Suc m, out' @ packed)"
    using IH(1) st(1) by (simp add: foldE_append del: INDEX_RECORD_SIZE_val)
  ultimately show ?case by blast
qed (use out in simp)

lemma recs_ok_located:
  assumes "list_all2 (located contents) recs (numbered xs)"
  shows "recs_ok (length contents) recs"
  using assms
  by (auto simp: recs_ok_def list_all2_conv_all_nth located_def numbered_from_0 [symmetric] nth_numbered_from
      build_target_cache_sample_bytes_def)

lemma merge_rank_ok:
  assumes ready: "rank_indexed out s d"
    and lm: "map_of smap (global_rank (rd_summary d)) = Some [off..<off + length (rd_contents d)]"
    and valid: "\<forall>r \<in> set (relabel_all base [off..<off + length (rd_contents d)] (rd_recs d)). index_record_valid r"
    and pre: "idx.is_index pre bs"
  shows "\<exists>bs'. merge_rank out smap s (base, bs) (rd_summary d) = Inr (base + length (rd_recs d), bs')
    \<and> idx.is_index (pre @ relabel_all base [off..<off + length (rd_contents d)] (rd_recs d)) bs'"
proof -
  obtain f where f: "fs_bytes s (rd_dir out d @ [''samples.local.idx'']) = Inr f" "idx.is_index (rd_recs d) f"
    using ready by (auto simp: rank_indexed_def fs_bytes_eq)
  have loc: "list_all2 (located (rd_contents d)) (rd_recs d) (numbered (rd_samples d))"
    using ready by (simp add: rank_indexed_def)
  have len: "length f = 56 * length (rd_recs d)" using idx.index_length [OF f(2)] by simp
  show ?thesis
  proof (cases "rd_recs d = []")
    case True
    then have "f = []" using len by simp
    with f(1) True pre show ?thesis by (simp add: merge_rank_def rd_dir_def relabel_all_def)
  next
    case False
    then have "f \<noteq> []" using len by auto
    have ok: "recs_ok (length [off..<off + length (rd_contents d)]) (rd_recs d)"
      using recs_ok_located [OF loc] by simp
    have "take (length (rd_recs d)) (relabel_all base [off..<off + length (rd_contents d)] (rd_recs d))
        = relabel_all base [off..<off + length (rd_contents d)] (rd_recs d)" by simp
    with merge_records [OF f(2) ok valid order_refl pre]
    obtain bs' where "foldE (merge_record f [off..<off + length (rd_contents d)]) (0, base, bs)
        (map (\<lambda>k. k * INDEX_RECORD_SIZE) [0..<length (rd_recs d)]) = Inr (length (rd_recs d), base + length (rd_recs d), bs')"
      "idx.is_index (pre @ relabel_all base [off..<off + length (rd_contents d)] (rd_recs d)) bs'"
      by metis
    then show ?thesis
      using f(1) lm \<open>f \<noteq> []\<close> len by (simp add: merge_rank_def rd_dir_def [symmetric] lookup_map_def)
  qed
qed

lemma merge_ranks_ok:
  assumes "\<forall>d \<in> set ds. rank_indexed out s d" and "map_ok smap off ds"
    and "\<forall>r \<in> set (merged_recs base off ds). index_record_valid r" and "idx.is_index pre bs"
  shows "\<exists>bs'. foldE (merge_rank out smap s) (base, bs) (map rd_summary ds)
            = Inr (base + length (merged_recs base off ds), bs') \<and> idx.is_index (pre @ merged_recs base off ds) bs'"
  using assms
proof (induction ds arbitrary: base off pre bs)
  case (Cons d ds)
  let ?R = "relabel_all base [off..<off + length (rd_contents d)] (rd_recs d)"
  have d: "rank_indexed out s d" "map_of smap (global_rank (rd_summary d)) = Some [off..<off + length (rd_contents d)]"
    "\<forall>r \<in> set ?R. index_record_valid r"
    using Cons.prems by auto
  obtain bs1 where st: "merge_rank out smap s (base, bs) (rd_summary d) = Inr (base + length (rd_recs d), bs1)"
    "idx.is_index (pre @ ?R) bs1"
    using merge_rank_ok [OF d Cons.prems(4)] by auto
  have "\<exists>bs'. foldE (merge_rank out smap s) (base + length (rd_recs d), bs1) (map rd_summary ds)
      = Inr (base + length (rd_recs d)
             + length (merged_recs (base + length (rd_recs d)) (off + length (rd_contents d)) ds), bs')
      \<and> idx.is_index ((pre @ ?R) @ merged_recs (base + length (rd_recs d)) (off + length (rd_contents d)) ds) bs'"
    by (rule Cons.IH) (use Cons.prems st in auto)
  with st(1) show ?case by (auto simp: add.assoc)
qed simp

section \<open>No field overflows\<close>

lemma relabel_valid:
  assumes "index_record_valid r" and "n < 2 ^ 64" and "lmap ! nat (shard_id r) < 2 ^ 32"
  shows "index_record_valid (relabel n lmap r)"
  using assms
  by (auto simp: index_record_valid_def INDEX_RECORD_STRUCT_def record_values_def relabel_def field_ok_def)

lemma merged_recs_valid:
  assumes "\<forall>d \<in> set ds. rank_indexed out s d"
    and "base + length (concat (map rd_samples ds)) < 2 ^ 64"
    and "off + length (concat (map rd_contents ds)) \<le> 2 ^ 32"
  shows "\<forall>r \<in> set (merged_recs base off ds). index_record_valid r"
  using assms
proof (induction ds arbitrary: base off)
  case (Cons d ds)
  let ?L = "[off..<off + length (rd_contents d)]"
  have loc: "list_all2 (located (rd_contents d)) (rd_recs d) (numbered (rd_samples d))"
    and ix: "\<exists>f. idx.is_index (rd_recs d) f"
    using Cons.prems by (auto simp: rank_indexed_def)
  have len: "length (rd_recs d) = length (rd_samples d)" using loc by (auto dest: list_all2_lengthD)
  have "index_record_valid (relabel (base + k) ?L (rd_recs d ! k))" if k: "k < length (rd_recs d)" for k
  proof (rule relabel_valid)
    show "index_record_valid (rd_recs d ! k)" using ix k idx.is_index_valid nth_mem by blast
    show "base + k < 2 ^ 64" using k Cons.prems(2) len by simp
    have "nat (shard_id (rd_recs d ! k)) < length (rd_contents d)"
      using recs_ok_located [OF loc] k by (simp add: recs_ok_def)
    then show "?L ! nat (shard_id (rd_recs d ! k)) < 2 ^ 32" using Cons.prems(3) by simp
  qed
  then have "\<forall>r \<in> set (relabel_all base ?L (rd_recs d)). index_record_valid r"
    by (auto simp: in_set_conv_nth nth_relabel_all)
  moreover have "\<forall>r \<in> set (merged_recs (base + length (rd_recs d)) (off + length (rd_contents d)) ds). index_record_valid r"
    by (rule Cons.IH) (use Cons.prems len in auto)
  ultimately show ?case by auto
qed simp

section \<open>Renaming the shards\<close>

definition move_all :: "(path \<times> path) list \<Rightarrow> fs \<Rightarrow> fs res" where
  "move_all ms s = foldE (\<lambda>s (a, b). fs_replace a b s) s ms"

lemma move_all_ok:
  assumes "distinct (map fst ms)" "distinct (map snd ms)" "set (map fst ms) \<inter> set (map snd ms) = {}"
    and "\<forall>m \<in> set ms. fs_get s (fst m) \<noteq> None"
  shows "\<exists>s'. move_all ms s = Inr s' \<and> (\<forall>m \<in> set ms. fs_get s' (snd m) = fs_get s (fst m))
     \<and> (\<forall>q. q \<notin> set (map fst ms) \<union> set (map snd ms) \<longrightarrow> fs_get s' q = fs_get s q)"
  using assms
proof (induction ms arbitrary: s)
  case (Cons m ms)
  obtain a b where m: "m = (a, b)" by fastforce
  have ab: "a \<noteq> b" using Cons.prems m by auto
  obtain s1 where s1: "fs_replace a b s = Inr s1"
    using Cons.prems(4) m by (auto simp: fs_replace_def split: option.splits)
  have g: "fs_get s1 q = (if q = b then fs_get s a else if q = a then None else fs_get s q)" for q
    using fs_replace_get [OF s1 ab, of q] by auto
  have fresh: "fst m' \<noteq> a \<and> fst m' \<noteq> b \<and> snd m' \<noteq> a \<and> snd m' \<noteq> b" if "m' \<in> set ms" for m'
    using Cons.prems(1-3) m that by auto
  have "\<exists>s'. move_all ms s1 = Inr s' \<and> (\<forall>m \<in> set ms. fs_get s' (snd m) = fs_get s1 (fst m))
     \<and> (\<forall>q. q \<notin> set (map fst ms) \<union> set (map snd ms) \<longrightarrow> fs_get s' q = fs_get s1 q)"
    by (rule Cons.IH) (use Cons.prems g fresh in auto)
  then obtain s' where s': "move_all ms s1 = Inr s'" "\<And>m. m \<in> set ms \<Longrightarrow> fs_get s' (snd m) = fs_get s1 (fst m)"
    "\<And>q. q \<notin> set (map fst ms) \<union> set (map snd ms) \<Longrightarrow> fs_get s' q = fs_get s1 q"
    by blast
  have "b \<notin> set (map fst ms) \<union> set (map snd ms)" using Cons.prems(2,3) m by auto
  then have "fs_get s' b = fs_get s a" using s'(3) [of b] g by simp
  moreover have "fs_get s' (snd m') = fs_get s (fst m')" if "m' \<in> set ms" for m'
    using s'(2) [OF that] g fresh [OF that] by simp
  ultimately show ?case
    using s1 s'(1,3) g m by (intro exI [of _ s']) (auto simp: move_all_def)
qed (simp add: move_all_def)

definition rank_moves :: "path \<Rightarrow> nat \<Rightarrow> rank_data \<Rightarrow> (path \<times> path) list" where
  "rank_moves out off d =
     map (\<lambda>i. (rd_dir out d @ [local_shard_name i], out @ [global_shard_name (off + i)])) [0..<length (rd_contents d)]"

fun all_moves :: "path \<Rightarrow> nat \<Rightarrow> rank_data list \<Rightarrow> (path \<times> path) list" where
  "all_moves out off [] = []"
| "all_moves out off (d # ds) = rank_moves out off d @ all_moves out (off + length (rd_contents d)) ds"

lemma enumerate_map_upt: "List.enumerate 0 (map f [0..<n]) = map (\<lambda>i. (i, f i)) [0..<n]"
  by (rule nth_equalityI) (auto simp: nth_enumerate_eq)

lemma rename_rank:
  assumes "map_of smap (global_rank (rd_summary d)) = Some [off..<off + length (rd_contents d)]"
    and "sum_local_shard_files (rd_summary d) = map local_shard_name [0..<length (rd_contents d)]"
  shows "rename_local_target_cache_shards out (rd_dir out d) (rd_summary d) smap s = move_all (rank_moves out off d) s"
proof -
  have "rename_local_target_cache_shards out (rd_dir out d) (rd_summary d) smap s =
      foldE (\<lambda>s i. bindE (list_get [off..<off + length (rd_contents d)] i) (\<lambda>g.
              fs_replace (rd_dir out d @ [local_shard_name i]) (out @ [global_shard_name g]) s))
        s [0..<length (rd_contents d)]"
    by (simp add: rename_local_target_cache_shards_def lookup_map_def assms enumerate_map_upt foldE_map)
  also have "\<dots> = move_all (rank_moves out off d) s"
    unfolding move_all_def rank_moves_def foldE_map
    by (rule foldE_cong) (simp add: list_get_def)
  finally show ?thesis .
qed

text \<open>Every rank renames its own shards.\<close>

definition rename_all :: "path \<Rightarrow> shard_map \<Rightarrow> local_cache_write_summary list \<Rightarrow> fs \<Rightarrow> fs res" where
  "rename_all out smap summaries s =
     foldE (\<lambda>s x. rename_local_target_cache_shards out (rank_path out (global_rank x)) x smap s) s summaries"

lemma rename_all_moves:
  assumes "map_ok smap off ds"
    and "\<forall>d \<in> set ds. sum_local_shard_files (rd_summary d) = map local_shard_name [0..<length (rd_contents d)]"
  shows "rename_all out smap (map rd_summary ds) s = move_all (all_moves out off ds) s"
  using assms
proof (induction ds arbitrary: off s)
  case (Cons d ds)
  have "rename_local_target_cache_shards out (rank_path out (global_rank (rd_summary d))) (rd_summary d) smap s
      = move_all (rank_moves out off d) s"
    using Cons.prems rename_rank [of smap d off out s] by (simp add: rd_dir_def)
  then have "rename_all out smap (map rd_summary (d # ds)) s
      = bindE (move_all (rank_moves out off d) s) (rename_all out smap (map rd_summary ds))"
    by (simp add: rename_all_def [abs_def])
  also have "\<dots> = bindE (move_all (rank_moves out off d) s) (move_all (all_moves out (off + length (rd_contents d)) ds))"
    using Cons by (cases "move_all (rank_moves out off d) s") simp_all
  finally show ?case by (simp add: move_all_def [abs_def] foldE_append)
qed (simp add: rename_all_def move_all_def)

lemma global_shard_name_inject [simp]: "global_shard_name i = global_shard_name j \<longleftrightarrow> i = j"
  by (simp add: global_shard_name_def pad5_inject)

lemma global_shard_name_other [simp]:
  "global_shard_name i \<noteq> ''samples.idx''" "global_shard_name i \<noteq> ''samples.idx.tmp''"
  "global_shard_name i \<noteq> ''manifest.json''" "global_shard_name i \<noteq> ''manifest.json.tmp''"
  "''samples.idx'' \<noteq> global_shard_name i" "''samples.idx.tmp'' \<noteq> global_shard_name i"
  by (simp_all add: global_shard_name_def)

lemma rank_path_inject [simp]: "rank_path out r = rank_path out q \<longleftrightarrow> r = q"
  by (simp add: rank_path_def nat_str_inject)

lemma rank_path_neq [simp]: "rank_path out r \<noteq> out" "out \<noteq> rank_path out r"
  by (simp_all add: rank_path_def)

lemma rank_path_file_neq [simp]: "rank_path out r @ [n] \<noteq> out @ [k]" "out @ [k] \<noteq> rank_path out r @ [n]"
  by (simp_all add: rank_path_def)

lemma all_moves_snd:
  "map snd (all_moves out off ds) = map (\<lambda>i. out @ [global_shard_name i]) [off..<off + length (concat (map rd_contents ds))]"
proof (induction ds arbitrary: off)
  case (Cons d ds)
  let ?g = "\<lambda>i. out @ [global_shard_name i]" and ?n = "length (rd_contents d)"
  have "map snd (rank_moves out off d) = map ?g [off..<off + ?n]"
    by (rule nth_equalityI) (auto simp: rank_moves_def)
  moreover have "[off..<off + length (concat (map rd_contents (d # ds)))]
      = [off..<off + ?n] @ [off + ?n..<off + ?n + length (concat (map rd_contents ds))]"
    by (simp add: upt_append_between add.assoc)
  ultimately show ?case using Cons.IH [of "off + ?n"] by (simp only: map_append all_moves.simps)
qed simp

lemma all_moves_fst:
  "set (map fst (all_moves out off ds)) =
     {rd_dir out d @ [local_shard_name i] | d i. d \<in> set ds \<and> i < length (rd_contents d)}"
  by (induction ds arbitrary: off) (auto simp: rank_moves_def)

lemma all_moves_fst_distinct:
  "distinct (map (global_rank \<circ> rd_summary) ds) \<Longrightarrow> distinct (map fst (all_moves out off ds))"
proof (induction ds arbitrary: off)
  case (Cons d ds)
  have "distinct (map fst (rank_moves out off d))"
    by (simp add: rank_moves_def distinct_map inj_on_def)
  moreover have "set (map fst (rank_moves out off d)) \<inter> set (map fst (all_moves out (off + length (rd_contents d)) ds)) = {}"
    using Cons.prems unfolding all_moves_fst by (auto simp: rank_moves_def rd_dir_def)
  ultimately show ?case using Cons by simp
qed simp

lemma all_moves_contents:
  assumes "\<forall>d \<in> set ds. rank_ready out s d"
  shows "map (\<lambda>m. fs_get s (fst m)) (all_moves out off ds) = map (\<lambda>c. Some (Bytes c)) (concat (map rd_contents ds))"
  using assms
proof (induction ds arbitrary: off)
  case (Cons d ds)
  have "map (\<lambda>m. fs_get s (fst m)) (rank_moves out off d) = map (\<lambda>c. Some (Bytes c)) (rd_contents d)"
    using Cons.prems by (intro nth_equalityI) (auto simp: rank_moves_def rank_ready_def rank_files_def)
  with Cons show ?case by simp
qed simp

text \<open>What a finished cache directory holds.\<close>

definition cache_files ::
  "path \<Rightarrow> fs \<Rightarrow> byte list list \<Rightarrow> index_record list \<Rightarrow> sample_bytes list \<Rightarrow> bool" where
  "cache_files out s contents recs xs \<longleftrightarrow>
     (\<forall>i < length contents. fs_get s (out @ [global_shard_name i]) = Some (Bytes (contents ! i)))
   \<and> (\<exists>f. fs_get s (out @ [''samples.idx'']) = Some (Bytes f) \<and> idx.is_index recs f)
   \<and> list_all2 (located contents) recs xs"

lemma rename_all_ok:
  assumes ready: "\<forall>d \<in> set ds. rank_ready out s d" and m: "map_ok smap 0 ds"
    and dist: "distinct (map (global_rank \<circ> rd_summary) ds)"
  obtains s' where "rename_all out smap (map rd_summary ds) s = Inr s'"
    "\<And>i. i < length (concat (map rd_contents ds)) \<Longrightarrow>
       fs_get s' (out @ [global_shard_name i]) = Some (Bytes (concat (map rd_contents ds) ! i))"
    "\<forall>d \<in> set ds. rank_indexed out s' d"
proof -
  let ?ms = "all_moves out 0 ds" and ?C = "concat (map rd_contents ds)"
  have snds: "map snd ?ms = map (\<lambda>i. out @ [global_shard_name i]) [0..<length ?C]"
    using all_moves_snd [of out 0 ds] by simp
  have cont: "map (\<lambda>m. fs_get s (fst m)) ?ms = map (\<lambda>c. Some (Bytes c)) ?C"
    by (rule all_moves_contents [OF ready])
  have len: "length ?ms = length ?C" using arg_cong [OF cont, of length] by simp
  have d2: "distinct (map snd ?ms)" unfolding snds by (simp add: distinct_map inj_on_def)
  have disj: "set (map fst ?ms) \<inter> set (map snd ?ms) = {}"
    unfolding all_moves_fst snds by (auto simp: rd_dir_def)
  have at: "fs_get s (fst (?ms ! i)) = Some (Bytes (?C ! i))" if "i < length ?C" for i
    using arg_cong [OF cont, of "\<lambda>l. l ! i"] that len by simp
  then have src: "\<forall>m \<in> set ?ms. fs_get s (fst m) \<noteq> None"
    using len by (metis in_set_conv_nth option.distinct(1))
  obtain s' where s': "move_all ?ms s = Inr s'" "\<forall>m \<in> set ?ms. fs_get s' (snd m) = fs_get s (fst m)"
    "\<And>q. q \<notin> set (map fst ?ms) \<union> set (map snd ?ms) \<Longrightarrow> fs_get s' q = fs_get s q"
    using move_all_ok [OF all_moves_fst_distinct [OF dist] d2 disj src] by auto
  have "rename_all out smap (map rd_summary ds) s = Inr s'"
    using rename_all_moves [OF m] ready s'(1) by (simp add: rank_ready_def)
  moreover have "fs_get s' (out @ [global_shard_name i]) = Some (Bytes (?C ! i))" if i: "i < length ?C" for i
  proof -
    have "snd (?ms ! i) = out @ [global_shard_name i]"
      using arg_cong [OF snds, of "\<lambda>l. l ! i"] i len by simp
    then show ?thesis using s'(2) at [OF i] i len by (metis nth_mem)
  qed
  moreover have "rank_indexed out s' d" if "d \<in> set ds" for d
  proof -
    have "rd_dir out d @ [''samples.local.idx''] \<notin> set (map fst ?ms) \<union> set (map snd ?ms)"
      unfolding all_moves_fst snds by (auto simp: rd_dir_def)
    then show ?thesis using rank_ready_indexed [of out s d] ready that s'(3) by (simp add: rank_indexed_def)
  qed
  ultimately show ?thesis by (intro that) auto
qed

section \<open>The merge as a whole\<close>

text \<open>The hypotheses on the ranks: complete local caches, distinct ranks, in source order, in range.\<close>

definition ranks_ok :: "path \<Rightarrow> fs \<Rightarrow> rank_data list \<Rightarrow> bool" where
  "ranks_ok out s ds \<longleftrightarrow>
     (\<forall>d \<in> set ds. rank_ready out s d)
   \<and> distinct (map (global_rank \<circ> rd_summary) ds)
   \<and> sorted (map (source_sample_start \<circ> rd_summary) ds)
   \<and> length (concat (map rd_samples ds)) < 2 ^ 64
   \<and> length (concat (map rd_contents ds)) \<le> 2 ^ 32"

lemma sort_key_sorted: "sorted (map f xs) \<Longrightarrow> sort_key f xs = xs"
  by (induction xs) (auto simp: insort_is_Cons)

lemma shard_map_ok:
  assumes ok: "ranks_ok out s ds"
  obtains smap where "build_global_target_cache_shard_map (map rd_summary ds)
      = (smap, map global_entry [0..<length (concat (map rd_contents ds))])" "map_ok smap 0 ds"
proof -
  let ?ss = "map rd_summary ds"
  have srt: "sort_key source_sample_start ?ss = ?ss"
    using ok by (intro sort_key_sorted) (simp add: ranks_ok_def comp_def)
  have dist: "distinct (map global_rank ?ss)" using ok by (simp add: ranks_ok_def comp_def)
  have cnt: "shard_count (rd_summary d) = length (rd_contents d)" if "d \<in> set ds" for d
    using ok that by (simp add: ranks_ok_def rank_ready_def shard_count_def)
  have off: "shard_offset ?ss j = sum_list (map (\<lambda>d. length (rd_contents d)) (take j ds))" for j
    unfolding shard_offset_def take_map map_map
    by (rule arg_cong [of _ _ sum_list]) (use cnt in \<open>auto simp: dest: in_set_takeD\<close>)
  obtain smap where m: "build_global_target_cache_shard_map ?ss
      = (smap, map global_entry [0..<shard_offset ?ss (length ?ss)])"
    "\<And>j. j < length ?ss \<Longrightarrow> map_of smap (global_rank (?ss ! j))
        = Some [shard_offset ?ss j..<shard_offset ?ss j + shard_count (?ss ! j)]"
    using build_shard_map [OF dist] unfolding srt by blast
  have "map_ok smap 0 ds"
    by (rule map_ok_nth) (use m(2) off cnt in simp)
  moreover have "shard_offset ?ss (length ?ss) = length (concat (map rd_contents ds))"
    by (simp add: off length_concat comp_def)
  ultimately show ?thesis using that m(1) by simp
qed

lemma finalize_ok:
  assumes indexed: "\<forall>d \<in> set ds. rank_indexed out s d" and m: "map_ok smap 0 ds"
    and srt: "sort_key source_sample_start (map rd_summary ds) = map rd_summary ds"
    and valid: "\<forall>r \<in> set (merged_recs 0 0 ds). index_record_valid r"
  obtains s' f where "finalize_target_cache_index out (map rd_summary ds) smap s
      = Inr (length (merged_recs 0 0 ds), s')"
    "fs_get s' (out @ [''samples.idx'']) = Some (Bytes f)" "idx.is_index (merged_recs 0 0 ds) f"
    "\<And>q. q \<noteq> out @ [''samples.idx''] \<Longrightarrow> q \<noteq> out @ [''samples.idx.tmp''] \<Longrightarrow> fs_get s' q = fs_get s q"
proof -
  let ?tmp = "out @ [''samples.idx.tmp'']" and ?idx = "out @ [''samples.idx'']"
  have "\<forall>d \<in> set ds. rank_indexed out (fs_put ?tmp (Bytes []) s) d"
    using indexed by (simp add: rank_indexed_def rd_dir_def)
  then obtain f where f: "foldE (merge_rank out smap (fs_put ?tmp (Bytes []) s)) (0, []) (map rd_summary ds)
      = Inr (0 + length (merged_recs 0 0 ds), f)" "idx.is_index ([] @ merged_recs 0 0 ds) f"
    using merge_ranks_ok [OF _ m valid, of out _ "[]" "[]"] by auto
  obtain s' where s': "fs_replace ?tmp ?idx (fs_put ?tmp (Bytes f) s) = Inr s'"
    by (auto simp: fs_replace_def)
  have get: "fs_get s' q = (if q = ?idx then Some (Bytes f) else if q = ?tmp then None else fs_get s q)" for q
    using fs_replace_get [OF s', of q] by auto
  show ?thesis
    by (rule that [of s' f]) (use f s' srt get in \<open>simp_all add: finalize_target_cache_index_def Let_def\<close>)
qed

lemma merge_all_ok:
  assumes ok: "ranks_ok out s ds"
  obtains smap s1 s2 where
    "build_global_target_cache_shard_map (map rd_summary ds)
       = (smap, map global_entry [0..<length (concat (map rd_contents ds))])"
    "rename_all out smap (map rd_summary ds) s = Inr s1"
    "finalize_target_cache_index out (map rd_summary ds) smap s1 = Inr (length (concat (map rd_samples ds)), s2)"
    "cache_files out s2 (concat (map rd_contents ds)) (merged_recs 0 0 ds) (numbered (concat (map rd_samples ds)))"
proof -
  have ready: "\<forall>d \<in> set ds. rank_ready out s d" and dist: "distinct (map (global_rank \<circ> rd_summary) ds)"
    and srt: "sort_key source_sample_start (map rd_summary ds) = map rd_summary ds"
    using ok by (auto simp: ranks_ok_def comp_def intro!: sort_key_sorted)
  obtain smap where m: "build_global_target_cache_shard_map (map rd_summary ds)
       = (smap, map global_entry [0..<length (concat (map rd_contents ds))])" "map_ok smap 0 ds"
    by (rule shard_map_ok [OF ok])
  obtain s1 where s1: "rename_all out smap (map rd_summary ds) s = Inr s1"
    "\<And>i. i < length (concat (map rd_contents ds)) \<Longrightarrow>
       fs_get s1 (out @ [global_shard_name i]) = Some (Bytes (concat (map rd_contents ds) ! i))"
    "\<forall>d \<in> set ds. rank_indexed out s1 d"
    using rename_all_ok [OF ready m(2) dist] by blast
  have valid: "\<forall>r \<in> set (merged_recs 0 0 ds). index_record_valid r"
    by (rule merged_recs_valid [OF s1(3)]) (use ok in \<open>simp_all add: ranks_ok_def\<close>)
  obtain s2 f where s2: "finalize_target_cache_index out (map rd_summary ds) smap s1
      = Inr (length (merged_recs 0 0 ds), s2)"
    "fs_get s2 (out @ [''samples.idx'']) = Some (Bytes f)" "idx.is_index (merged_recs 0 0 ds) f"
    "\<And>q. q \<noteq> out @ [''samples.idx''] \<Longrightarrow> q \<noteq> out @ [''samples.idx.tmp''] \<Longrightarrow> fs_get s2 q = fs_get s1 q"
    using finalize_ok [OF s1(3) m(2) srt valid] by blast
  have loc: "list_all2 (located (concat (map rd_contents ds))) (merged_recs 0 0 ds) (numbered (concat (map rd_samples ds)))"
    using merged_located [of ds "[]" 0] ready
    by (simp add: rank_ready_def rank_files_def numbered_from_0)
  then have len: "length (merged_recs 0 0 ds) = length (concat (map rd_samples ds))"
    by (auto dest: list_all2_lengthD)
  have "cache_files out s2 (concat (map rd_contents ds)) (merged_recs 0 0 ds) (numbered (concat (map rd_samples ds)))"
    unfolding cache_files_def using loc s2 s1(2) by simp
  then show ?thesis using that m(1) s1(1) s2(1) len by simp
qed

end
