(* ===== verification/Cache_Dataset.thy ===== *)
theory Cache_Dataset
  imports Cache_Merge
begin

text \<open>
  The reading side of the target cache: \<open>CacheDataset\<close> with its lazily mapped index, its
  bounded set of open shards in least-recently-used order, and the tensors decoded from the
  mapped bytes (\<^verbatim>\<open>DeepSpec/deepspec/data/target_cache_dataset.py\<close>). A memory
  map is the content of the file at the time it was mapped; mapping an empty file raises.
\<close>

section \<open>State\<close>

record cache_dataset =
  cd_cache_dir :: path
  cd_num_samples :: int
  cd_hidden_size :: nat
  cd_num_target_layers :: nat
  cd_index_mmap :: "byte list option"
  cd_max_open_shards :: nat
  cd_shard_handles :: "int list"
  cd_shard_mmaps :: "(int \<times> byte list) list"
  cd_shard_paths :: "(int \<times> path) list"

definition dataset_init :: "path \<Rightarrow> nat \<Rightarrow> fs \<Rightarrow> cache_dataset res" where
  "dataset_init cache_dir max_open s =
     bindE (load_target_cache_manifest cache_dir s) (\<lambda>m.
     bindE (required (mf_num_samples m)) (\<lambda>n.
     bindE (required (mf_hidden_size m)) (\<lambda>h.
     bindE (required (mf_target_layer_ids m)) (\<lambda>layers.
     bindE (required (mf_shards m)) (\<lambda>shards.
     Inr \<lparr> cd_cache_dir = cache_dir, cd_num_samples = n, cd_hidden_size = nat h,
           cd_num_target_layers = length layers, cd_index_mmap = None, cd_max_open_shards = max_open,
           cd_shard_handles = [], cd_shard_mmaps = [],
           cd_shard_paths = foldl (\<lambda>al e. AList.update (se_shard_id e) (cache_dir @ [se_file_name e]) al) [] shards \<rparr>)))))"

definition dataset_close :: "cache_dataset \<Rightarrow> cache_dataset" where
  "dataset_close d = d\<lparr> cd_shard_mmaps := [], cd_shard_handles := [], cd_index_mmap := None \<rparr>"

text \<open>Pickling for a data-loader worker drops the open maps.\<close>

definition dataset_getstate :: "cache_dataset \<Rightarrow> cache_dataset" where
  "dataset_getstate d = d\<lparr> cd_index_mmap := None, cd_shard_handles := [], cd_shard_mmaps := [] \<rparr>"

definition mmap_file :: "fs \<Rightarrow> path \<Rightarrow> byte list res" where
  "mmap_file s p = bindE (fs_bytes s p) (\<lambda>b. if b = [] then Inl ValueError else Inr b)"

definition ensure_index_mmap :: "fs \<Rightarrow> cache_dataset \<Rightarrow> (byte list \<times> cache_dataset) res" where
  "ensure_index_mmap s d =
     (case cd_index_mmap d of Some m \<Rightarrow> Inr (m, d)
      | None \<Rightarrow> bindE (mmap_file s (cd_cache_dir d @ [''samples.idx''])) (\<lambda>m.
                  Inr (m, d\<lparr> cd_index_mmap := Some m \<rparr>)))"

section \<open>The open shards\<close>

text \<open>\<open>OrderedDict\<close> operations on an association list in insertion order.\<close>

definition od_move_to_end :: "int \<Rightarrow> (int \<times> 'a) list \<Rightarrow> (int \<times> 'a) list" where
  "od_move_to_end k al = filter (\<lambda>e. fst e \<noteq> k) al @ filter (\<lambda>e. fst e = k) al"

text \<open>The eviction loop drops the oldest map and closes its handle.\<close>

fun evict_shards :: "nat \<Rightarrow> (int \<times> byte list) list \<Rightarrow> int list \<Rightarrow> ((int \<times> byte list) list \<times> int list) res" where
  "evict_shards max_open [] handles = Inr ([], handles)"
| "evict_shards max_open ((k, m) # mmaps) handles =
     (if Suc (length mmaps) > max_open then
        bindE (check (k \<in> set handles) KeyError) (\<lambda>_. evict_shards max_open mmaps (remove1 k handles))
      else Inr ((k, m) # mmaps, handles))"

definition get_shard_mmap :: "fs \<Rightarrow> int \<Rightarrow> cache_dataset \<Rightarrow> (byte list \<times> cache_dataset) res" where
  "get_shard_mmap s shard d =
     (case map_of (cd_shard_mmaps d) shard of
        Some m \<Rightarrow>
          bindE (check (shard \<in> set (cd_shard_handles d)) KeyError) (\<lambda>_.
          Inr (m, d\<lparr> cd_shard_mmaps := od_move_to_end shard (cd_shard_mmaps d),
                     cd_shard_handles := filter (\<lambda>h. h \<noteq> shard) (cd_shard_handles d) @ [shard] \<rparr>))
      | None \<Rightarrow>
          bindE (case map_of (cd_shard_paths d) shard of None \<Rightarrow> Inl KeyError | Some p \<Rightarrow> Inr p) (\<lambda>p.
          bindE (mmap_file s p) (\<lambda>m.
          bindE (evict_shards (cd_max_open_shards d) (cd_shard_mmaps d @ [(shard, m)])
                   (cd_shard_handles d @ [shard])) (\<lambda>(mmaps, handles).
          bindE (case map_of mmaps shard of None \<Rightarrow> Inl KeyError | Some m' \<Rightarrow> Inr m') (\<lambda>m'.
          Inr (m', d\<lparr> cd_shard_mmaps := mmaps, cd_shard_handles := handles \<rparr>))))))"

section \<open>Reading one sample\<close>

definition read_record :: "fs \<Rightarrow> int \<Rightarrow> cache_dataset \<Rightarrow> (index_record \<times> cache_dataset) res" where
  "read_record s i d =
     bindE (ensure_index_mmap s d) (\<lambda>(m, d').
     bindE (unpack_index_record m (nat i * INDEX_RECORD_SIZE)) (\<lambda>r.
     bindE (check (sample_id r = i) AssertionError) (\<lambda>_. Inr (r, d'))))"

text \<open>\<open>np.frombuffer\<close>: \<open>count\<close> items of \<open>width\<close> bytes from \<open>off\<close>.\<close>

definition frombuffer :: "nat \<Rightarrow> nat \<Rightarrow> nat \<Rightarrow> byte list \<Rightarrow> nat list res" where
  "frombuffer width count off buf =
     (if off + count * width \<le> length buf
      then Inr (map (\<lambda>i. le_val (take width (drop (off + i * width) buf))) [0..<count])
      else Inl ValueError)"

definition view_rows :: "nat \<Rightarrow> nat \<Rightarrow> 'a list \<Rightarrow> 'a list list" where
  "view_rows rows width xs = map (\<lambda>r. take width (drop (r * width) xs)) [0..<rows]"

definition read_int32_tensor :: "byte list \<Rightarrow> nat \<Rightarrow> nat \<Rightarrow> nat \<Rightarrow> int list res" where
  "read_int32_tensor buf off count nbytes =
     bindE (check (off + nbytes \<le> length buf) AssertionError) (\<lambda>_.
     bindE (frombuffer 4 count off buf) (\<lambda>xs. Inr (map (\<lambda>v. sint (word_of_nat v :: 32 word)) xs)))"

definition read_uint8_tensor :: "byte list \<Rightarrow> nat \<Rightarrow> nat \<Rightarrow> nat \<Rightarrow> int list res" where
  "read_uint8_tensor buf off count nbytes =
     bindE (check (off + nbytes \<le> length buf) AssertionError) (\<lambda>_.
     bindE (frombuffer 1 count off buf) (\<lambda>xs. Inr (map int xs)))"

definition read_bfloat16_tensor_from_shard :: "byte list \<Rightarrow> nat \<Rightarrow> nat \<Rightarrow> nat \<Rightarrow> nat \<Rightarrow> 16 word list list res" where
  "read_bfloat16_tensor_from_shard buf off rows width nbytes =
     bindE (check (off + nbytes \<le> length buf) AssertionError) (\<lambda>_.
     bindE (frombuffer 2 (rows * width) off buf) (\<lambda>xs.
     Inr (view_rows rows width (map word_of_nat xs))))"

record cache_item =
  ci_input_ids :: "int list"
  ci_loss_mask :: "int list"
  ci_target_hidden_states :: "16 word list list"
  ci_target_last_hidden_states :: "16 word list list"

definition dataset_getitem :: "fs \<Rightarrow> int \<Rightarrow> cache_dataset \<Rightarrow> (cache_item \<times> cache_dataset) res" where
  "dataset_getitem s i d =
     bindE (check (0 \<le> i \<and> i < cd_num_samples d) IndexError) (\<lambda>_.
     bindE (read_record s i d) (\<lambda>(r, d1).
     let sl = nat (seq_len r) in
     bindE (check (sl > 0) AssertionError) (\<lambda>_.
     bindE (get_shard_mmap s (shard_id r) d1) (\<lambda>(m, d2).
     let nb = expected_target_cache_tensor_nbytes sl (cd_hidden_size d) (cd_num_target_layers d) in
     bindE (read_int32_tensor m (nat (input_ids_offset r)) sl (ts_input_ids nb)) (\<lambda>ids.
     bindE (read_uint8_tensor m (nat (loss_mask_offset r)) sl (ts_loss_mask nb)) (\<lambda>mask1.
     bindE (read_bfloat16_tensor_from_shard m (nat (target_hidden_states_offset r)) sl
              (cd_num_target_layers d * cd_hidden_size d) (ts_target_hidden_states nb)) (\<lambda>hid.
     bindE (read_bfloat16_tensor_from_shard m (nat (target_last_hidden_states_offset r)) sl
              (cd_hidden_size d) (ts_target_last_hidden_states nb)) (\<lambda>last_hid.
     Inr (\<lparr> ci_input_ids = ids, ci_loss_mask = mask1, ci_target_hidden_states = hid,
            ci_target_last_hidden_states = last_hid \<rparr>, d2)))))))))"

section \<open>Decoding what was encoded\<close>

lemma chunk_of_concat:
  assumes "i < length bs" and "\<And>b. b \<in> set bs \<Longrightarrow> length b = n"
  shows "take n (drop (i * n) (concat bs)) = bs ! i"
proof -
  have "length (concat (take i bs)) = n * length (take i bs)"
    by (rule concat_equal_lengths) (use assms(2) in \<open>auto dest: in_set_takeD\<close>)
  then have "length (concat (take i bs)) = i * n" using assms(1) by simp
  moreover have "length (bs ! i) = n" using assms by simp
  ultimately show ?thesis
    by (subst concat_nth_split [OF assms(1)]) simp
qed

text \<open>Items of fixed width written at an offset are read back from any content that has them there.\<close>

lemma frombuffer_field:
  assumes at: "field_at content off (concat (map enc xs))"
    and width: "\<And>x. length (enc x) = n"
  shows "frombuffer n (length xs) (nat off) content = Inr (map (\<lambda>x. le_val (enc x)) xs)"
proof -
  let ?bs = "map enc xs"
  have len: "length (concat ?bs) = n * length xs"
    using concat_equal_lengths [of ?bs n] width by auto
  have fits: "nat off + length xs * n \<le> length content"
    using at len by (simp add: field_at_def mult.commute)
  have "take n (drop (nat off + i * n) content) = enc (xs ! i)" if i: "i < length xs" for i
  proof -
    have in_range: "n + i * n \<le> length (concat ?bs)"
    proof -
      have "Suc i * n \<le> length xs * n" using i by (intro mult_le_mono1) simp
      then show ?thesis by (simp only: len mult.commute [of n] mult_Suc)
    qed
    have "take n (drop (i * n) (take (length (concat ?bs)) (drop (nat off) content))) = ?bs ! i"
      using at chunk_of_concat [of i ?bs n] width i by (auto simp: field_at_def)
    moreover have "take n (drop (i * n) (take (length (concat ?bs)) (drop (nat off) content)))
        = take n (drop (i * n + nat off) content)"
      using in_range by (simp add: drop_take min_absorb1)
    ultimately show ?thesis using i by (simp add: add.commute)
  qed
  then have "map (\<lambda>i. le_val (take n (drop (nat off + i * n) content))) [0..<length xs] = map (\<lambda>x. le_val (enc x)) xs"
    by (intro nth_equalityI) simp_all
  with fits show ?thesis by (simp add: frombuffer_def)
qed

lemma view_rows_concat:
  assumes "length rows = n" and "\<And>r. r \<in> set rows \<Longrightarrow> length r = w"
  shows "view_rows n w (concat rows) = rows"
  using assms by (intro nth_equalityI) (auto simp: view_rows_def chunk_of_concat)

text \<open>The samples the training pipeline writes: shapes agree and values fit the stored types.\<close>

definition sample_ok :: "nat \<Rightarrow> nat \<Rightarrow> cache_sample \<Rightarrow> bool" where
  "sample_ok hidden layers x \<longleftrightarrow>
     (let n = length (cs_input_ids x) in
      n > 0 \<and> length (cs_loss_mask x) = n \<and> length (cs_attention_mask x) = n
    \<and> (\<forall>v \<in> set (cs_input_ids x). - (2 ^ 31) \<le> v \<and> v < 2 ^ 31)
    \<and> (\<forall>v \<in> set (cs_loss_mask x). 0 \<le> v \<and> v < 256)
    \<and> length (cs_target_hidden_states x) = n
    \<and> (\<forall>r \<in> set (cs_target_hidden_states x). length r = layers * hidden)
    \<and> length (cs_target_last_hidden_states x) = n
    \<and> (\<forall>r \<in> set (cs_target_last_hidden_states x). length r = hidden))"

definition item_of :: "cache_sample \<Rightarrow> cache_item" where
  "item_of x = \<lparr> ci_input_ids = cs_input_ids x, ci_loss_mask = cs_loss_mask x,
     ci_target_hidden_states = cs_target_hidden_states x,
     ci_target_last_hidden_states = cs_target_last_hidden_states x \<rparr>"

lemma uint8_bytes_concat: "uint8_bytes xs = concat (map (\<lambda>v. [word_of_int v]) xs)"
  by (induction xs) (simp_all add: uint8_bytes_def)

lemma field_at_fits: "field_at c off b \<Longrightarrow> nat off + length b \<le> length c"
  by (simp add: field_at_def)

lemma length_int32_bytes [simp]: "length (int32_bytes xs) = length xs * 4"
  by (induction xs) (simp_all add: int32_bytes_def)

lemma length_uint8_bytes [simp]: "length (uint8_bytes xs) = length xs"
  by (simp add: uint8_bytes_def)

lemma length_bfloat16_bytes [simp]: "length (bfloat16_bytes rows) = length (concat rows) * 2"
proof -
  have "length (concat (map (\<lambda>w. le_bytes 2 (unat w)) ws)) = length ws * 2" for ws :: "16 word list"
    by (induction ws) simp_all
  then show ?thesis by (simp add: bfloat16_bytes_def del: concat_map_singleton)
qed

lemma read_int32_field:
  assumes at: "field_at m off (int32_bytes xs)" and rng: "\<forall>v \<in> set xs. - (2 ^ 31) \<le> v \<and> v < 2 ^ 31"
  shows "read_int32_tensor m (nat off) (length xs) (length xs * 4) = Inr xs"
proof -
  let ?enc = "\<lambda>v. le_bytes 4 (unat (word_of_int v :: 32 word))"
  have "frombuffer 4 (length xs) (nat off) m = Inr (map (\<lambda>v. le_val (?enc v)) xs)"
    using at unfolding int32_bytes_def by (rule frombuffer_field) simp
  moreover have "le_val (?enc v) = unat (word_of_int v :: 32 word)" for v
    by (rule le_val_le_bytes) (rule order_less_le_trans [OF unsigned_less], simp)
  moreover have "sint (word_of_int v :: 32 word) = v" if "v \<in> set xs" for v
    using rng that by (simp add: signed_of_int signed_take_bit_int_eq_self)
  ultimately show ?thesis
    using field_at_fits [OF at] by (simp add: read_int32_tensor_def map_idI)
qed

lemma read_uint8_field:
  assumes at: "field_at m off (uint8_bytes xs)" and rng: "\<forall>v \<in> set xs. 0 \<le> v \<and> v < 256"
  shows "read_uint8_tensor m (nat off) (length xs) (length xs) = Inr xs"
proof -
  have "frombuffer 1 (length xs) (nat off) m = Inr (map (\<lambda>v. le_val [word_of_int v :: byte]) xs)"
    using at unfolding uint8_bytes_concat by (rule frombuffer_field) simp
  moreover have "int (unat (word_of_int v :: byte)) = v" if "v \<in> set xs" for v
    using rng that by (auto simp: unsigned_of_int take_bit_eq_mod)
  ultimately show ?thesis
    using field_at_fits [OF at] by (simp add: read_uint8_tensor_def map_idI)
qed

lemma read_bfloat16_field:
  assumes at: "field_at m off (bfloat16_bytes rows)"
    and "length rows = n" and "\<And>r. r \<in> set rows \<Longrightarrow> length r = w"
  shows "read_bfloat16_tensor_from_shard m (nat off) n w (n * w * 2) = Inr rows"
proof -
  let ?enc = "\<lambda>v :: 16 word. le_bytes 2 (unat v)"
  have len: "length (concat rows) = n * w"
    using concat_equal_lengths [of rows w] assms(2,3) by (simp add: mult.commute)
  have "frombuffer 2 (length (concat rows)) (nat off) m = Inr (map (\<lambda>v. le_val (?enc v)) (concat rows))"
    using at unfolding bfloat16_bytes_def by (rule frombuffer_field) simp
  moreover have "le_val (?enc v) = unat v" for v
    by (rule le_val_le_bytes) (rule order_less_le_trans [OF unsigned_less], simp)
  ultimately have "frombuffer 2 (n * w) (nat off) m = Inr (map unat (concat rows))"
    by (simp only: len)
  then show ?thesis
    using field_at_fits [OF at] view_rows_concat [OF assms(2,3)] len
    by (simp add: read_bfloat16_tensor_from_shard_def comp_def)
qed

section \<open>The open shards stay bounded and correct\<close>

text \<open>
  Handles and maps have the same keys in the same order, at most \<open>max_open_shards\<close> of them,
  and each map is the content of the shard file its id names.
\<close>

definition lru_ok :: "fs \<Rightarrow> cache_dataset \<Rightarrow> bool" where
  "lru_ok s d \<longleftrightarrow> distinct (map fst (cd_shard_mmaps d))
     \<and> cd_shard_handles d = map fst (cd_shard_mmaps d)
     \<and> length (cd_shard_mmaps d) \<le> cd_max_open_shards d \<and> 0 < cd_max_open_shards d
     \<and> (\<forall>(k, m) \<in> set (cd_shard_mmaps d). \<exists>p. map_of (cd_shard_paths d) k = Some p \<and> mmap_file s p = Inr m)
     \<and> (\<forall>m. cd_index_mmap d = Some m \<longrightarrow> mmap_file s (cd_cache_dir d @ [''samples.idx'']) = Inr m)"

lemma evict_shards_drop:
  assumes "distinct (map fst mmaps)" and "handles = map fst mmaps"
  shows "evict_shards mx mmaps handles
       = Inr (drop (length mmaps - mx) mmaps, drop (length mmaps - mx) handles)"
  using assms
proof (induction mx mmaps handles rule: evict_shards.induct)
  case (2 mx k m mmaps handles)
  then show ?case by (cases "Suc (length mmaps) > mx") (auto simp: Suc_diff_le)
qed simp

lemma map_fst_filter: "map fst (filter (\<lambda>e. P (fst e)) al) = filter P (map fst al)"
  by (induction al) auto

lemma filter_key:
  "distinct (map fst al) \<Longrightarrow> map_of al k = Some v \<Longrightarrow> filter (\<lambda>e. fst e = k) al = [(k, v)]"
proof (induction al)
  case (Cons e al)
  then show ?case by (cases e) (force simp: filter_empty_conv split: if_splits)
qed simp

text \<open>Same dataset except for what is open.\<close>

definition same_static :: "cache_dataset \<Rightarrow> cache_dataset \<Rightarrow> bool" where
  "same_static d d' \<longleftrightarrow> cd_cache_dir d' = cd_cache_dir d \<and> cd_num_samples d' = cd_num_samples d
     \<and> cd_hidden_size d' = cd_hidden_size d \<and> cd_num_target_layers d' = cd_num_target_layers d
     \<and> cd_max_open_shards d' = cd_max_open_shards d \<and> cd_shard_paths d' = cd_shard_paths d"

lemma get_shard_mmap_ok:
  assumes ok: "lru_ok s d" and p: "map_of (cd_shard_paths d) shard = Some p" and m: "mmap_file s p = Inr m"
  obtains d' where "get_shard_mmap s shard d = Inr (m, d')" "lru_ok s d'" "same_static d d'"
    "map fst (cd_shard_mmaps d') \<noteq> []" "last (map fst (cd_shard_mmaps d')) = shard"
proof (cases "map_of (cd_shard_mmaps d) shard")
  case (Some m')
  let ?al = "cd_shard_mmaps d"
  have m': "m' = m" using ok Some p m by (fastforce simp: lru_ok_def dest: map_of_SomeD)
  have mem: "(shard, m') \<in> set ?al" using Some by (rule map_of_SomeD)
  have mv: "od_move_to_end shard ?al = filter (\<lambda>e. fst e \<noteq> shard) ?al @ [(shard, m')]"
    using ok Some by (simp add: od_move_to_end_def filter_key lru_ok_def)
  have len: "Suc (length (filter (\<lambda>e. fst e \<noteq> shard) ?al)) = length ?al"
    using sum_length_filter_compl [of "\<lambda>e. fst e = shard" ?al] filter_key [OF _ Some] ok
    by (simp add: lru_ok_def)
  let ?d = "d\<lparr> cd_shard_mmaps := od_move_to_end shard ?al,
               cd_shard_handles := filter (\<lambda>h. h \<noteq> shard) (cd_shard_handles d) @ [shard] \<rparr>"
  have "get_shard_mmap s shard d = Inr (m, ?d)"
    using Some ok m' imageI [OF mem, of fst] by (simp add: get_shard_mmap_def lru_ok_def)
  moreover have "lru_ok s ?d"
    using ok len mem map_fst_filter [of "\<lambda>k. k \<noteq> shard" ?al]
    by (auto simp: lru_ok_def mv distinct_map_filter)
  ultimately show ?thesis using that by (simp add: same_static_def mv)
next
  case None
  let ?al = "cd_shard_mmaps d @ [(shard, m)]" and ?k = "Suc (length (cd_shard_mmaps d)) - cd_max_open_shards d"
  have L: "distinct (map fst (cd_shard_mmaps d))" "cd_shard_handles d = map fst (cd_shard_mmaps d)"
    "0 < cd_max_open_shards d" "length (cd_shard_mmaps d) \<le> cd_max_open_shards d"
    using ok by (auto simp: lru_ok_def)
  have one: "Suc 0 - cd_max_open_shards d = 0" using L(3) by simp
  have fresh: "shard \<notin> fst ` set (cd_shard_mmaps d)" using None by (simp add: map_of_eq_None_iff)
  then have dist: "distinct (map fst ?al)" using L(1) by simp
  have ev: "evict_shards (cd_max_open_shards d) ?al (cd_shard_handles d @ [shard])
      = Inr (drop ?k ?al, drop ?k (map fst ?al))"
    using evict_shards_drop [OF dist refl] L(2) by simp
  have k: "?k \<le> length (cd_shard_mmaps d)" using L(3,4) by simp
  then have tail: "drop ?k ?al = drop ?k (cd_shard_mmaps d) @ [(shard, m)]" by simp
  have nin: "map_of (drop ?k (cd_shard_mmaps d)) shard = None"
    using fresh by (auto simp: map_of_eq_None_iff dest: in_set_dropD)
  let ?d = "d\<lparr> cd_shard_mmaps := drop ?k ?al, cd_shard_handles := drop ?k (map fst ?al) \<rparr>"
  have "get_shard_mmap s shard d = Inr (m, ?d)"
    using None p m ev nin one by (simp add: get_shard_mmap_def map_add_def)
  moreover have "lru_ok s ?d"
  proof -
    have "distinct (map fst (drop ?k ?al))" using dist by (simp only: drop_map [symmetric] distinct_drop)
    moreover have "\<forall>(q, b) \<in> set ?al. \<exists>p. map_of (cd_shard_paths d) q = Some p \<and> mmap_file s p = Inr b"
      using ok p m by (auto simp: lru_ok_def)
    ultimately show ?thesis
      using ok L(3,4) by (auto simp: lru_ok_def drop_map dest!: in_set_dropD)
  qed
  ultimately show ?thesis using that one by (simp add: same_static_def)
qed

section \<open>Reading back every sample\<close>

definition dataset_over ::
  "path \<Rightarrow> fs \<Rightarrow> byte list list \<Rightarrow> index_record list \<Rightarrow> cache_sample list \<Rightarrow> cache_dataset \<Rightarrow> bool" where
  "dataset_over out s contents recs xs d \<longleftrightarrow>
     cache_files out s contents recs (numbered xs) \<and> cd_cache_dir d = out
   \<and> cd_num_samples d = int (length xs)
   \<and> (\<forall>i < length contents. map_of (cd_shard_paths d) (int i) = Some (out @ [global_shard_name i]))
   \<and> (\<forall>x \<in> set xs. sample_ok (cd_hidden_size d) (cd_num_target_layers d) x)"

lemma dataset_over_static: "dataset_over out s contents recs xs d \<Longrightarrow> same_static d d' \<Longrightarrow> dataset_over out s contents recs xs d'"
  by (simp add: dataset_over_def same_static_def)

lemma read_record_ok:
  assumes over: "dataset_over out s contents recs xs d" and ok: "lru_ok s d" and k: "k < length xs"
  obtains d' where "read_record s (int k) d = Inr (recs ! k, d')" "lru_ok s d'" "same_static d d'"
proof -
  obtain f where f: "fs_get s (out @ [''samples.idx'']) = Some (Bytes f)" "idx.is_index recs f"
    and loc: "list_all2 (located contents) recs (numbered xs)"
    using over by (auto simp: dataset_over_def cache_files_def)
  have len: "length recs = length xs" using loc by (auto dest: list_all2_lengthD)
  have "f \<noteq> []" using idx.index_length [OF f(2)] len k by auto
  then have mm: "mmap_file s (cd_cache_dir d @ [''samples.idx'']) = Inr f"
    using f(1) over by (simp add: mmap_file_def fs_bytes_def dataset_over_def)
  obtain d' where d': "ensure_index_mmap s d = Inr (f, d')" "lru_ok s d'" "same_static d d'"
  proof (cases "cd_index_mmap d")
    case None
    then show ?thesis
      using that [of "d\<lparr> cd_index_mmap := Some f \<rparr>"] mm ok
      by (simp add: ensure_index_mmap_def lru_ok_def same_static_def)
  next
    case (Some g)
    then have "g = f" using ok mm by (simp add: lru_ok_def)
    then show ?thesis using that [of d] Some ok by (simp add: ensure_index_mmap_def same_static_def)
  qed
  have "sample_id (recs ! k) = int k"
    using recs_ok_located [OF loc] k len by (simp add: recs_ok_def)
  moreover have "unpack_index_record f (k * INDEX_RECORD_SIZE) = Inr (recs ! k)"
    using idx.index_lookup [OF f(2)] k len by simp
  ultimately show ?thesis using that d' by (simp add: read_record_def)
qed

lemma dataset_getitem_ok:
  assumes over: "dataset_over out s contents recs xs d" and ok: "lru_ok s d" and k: "k < length xs"
  obtains d' where "dataset_getitem s (int k) d = Inr (item_of (xs ! k), d')" "lru_ok s d'" "same_static d d'"
proof -
  let ?x = "xs ! k" and ?r = "recs ! k"
  obtain d1 where d1: "read_record s (int k) d = Inr (?r, d1)" "lru_ok s d1" "same_static d d1"
    by (rule read_record_ok [OF over ok k])
  have cf: "cache_files out s contents recs (numbered xs)" using over by (simp add: dataset_over_def)
  then have loc: "located contents ?r (build_target_cache_sample_bytes k ?x)"
    using k by (auto simp: cache_files_def list_all2_conv_all_nth numbered_from_0 [symmetric] nth_numbered_from)
  define g where "g = nat (shard_id ?r)"
  have g: "shard_id ?r = int g" "g < length contents"
    and st: "stores (contents ! g) ?r (build_target_cache_sample_bytes k ?x)"
    using loc by (auto simp: located_def g_def)
  let ?m = "contents ! g"
  have S: "seq_len ?r = int (length (cs_input_ids ?x))"
    "field_at ?m (input_ids_offset ?r) (int32_bytes (cs_input_ids ?x))"
    "field_at ?m (loss_mask_offset ?r) (uint8_bytes (cs_loss_mask ?x))"
    "field_at ?m (target_hidden_states_offset ?r) (bfloat16_bytes (cs_target_hidden_states ?x))"
    "field_at ?m (target_last_hidden_states_offset ?r) (bfloat16_bytes (cs_target_last_hidden_states ?x))"
    using st by (auto simp: stores_def build_target_cache_sample_bytes_def)
  have X: "sample_ok (cd_hidden_size d) (cd_num_target_layers d) ?x"
    using over k by (simp add: dataset_over_def)
  then have n: "0 < length (cs_input_ids ?x)" by (simp add: sample_ok_def Let_def)
  have "?m \<noteq> []" using field_at_fits [OF S(2)] n by auto
  then have mm: "mmap_file s (out @ [global_shard_name g]) = Inr ?m"
    using cf g(2) by (simp add: mmap_file_def fs_bytes_def cache_files_def)
  have path: "map_of (cd_shard_paths d1) (shard_id ?r) = Some (out @ [global_shard_name g])"
    using over d1(3) g by (simp add: dataset_over_def same_static_def)
  obtain d2 where d2: "get_shard_mmap s (shard_id ?r) d1 = Inr (?m, d2)" "lru_ok s d2" "same_static d1 d2"
    using get_shard_mmap_ok [OF d1(2) path mm] by blast
  let ?sl = "length (cs_input_ids ?x)" and ?H = "cd_hidden_size d" and ?L = "cd_num_target_layers d"
  have R: "read_int32_tensor ?m (nat (input_ids_offset ?r)) ?sl (?sl * 4) = Inr (cs_input_ids ?x)"
    "read_uint8_tensor ?m (nat (loss_mask_offset ?r)) ?sl ?sl = Inr (cs_loss_mask ?x)"
    using read_int32_field [OF S(2)] read_uint8_field [OF S(3)] X by (simp_all add: sample_ok_def Let_def)
  have B1: "read_bfloat16_tensor_from_shard ?m (nat (target_hidden_states_offset ?r)) ?sl (?L * ?H) (?sl * (?L * ?H) * 2)
      = Inr (cs_target_hidden_states ?x)"
    by (rule read_bfloat16_field [OF S(4)]) (use X in \<open>simp_all add: sample_ok_def Let_def\<close>)
  have B2: "read_bfloat16_tensor_from_shard ?m (nat (target_last_hidden_states_offset ?r)) ?sl ?H (?sl * ?H * 2)
      = Inr (cs_target_last_hidden_states ?x)"
    by (rule read_bfloat16_field [OF S(5)]) (use X in \<open>simp_all add: sample_ok_def Let_def\<close>)
  have num: "cd_num_samples d = int (length xs)" using over by (simp add: dataset_over_def)
  have "dataset_getitem s (int k) d = Inr (item_of ?x, d2)"
    using d1(1) d2(1) n k num S(1) R B1 B2
    by (simp add: dataset_getitem_def expected_target_cache_tensor_nbytes_def expected_target_cache_tensor_numel_def
        item_of_def mult.assoc Let_def)
  moreover have "same_static d d2" using d1(3) d2(3) by (simp add: same_static_def)
  ultimately show ?thesis using that d2(2) by blast
qed

text \<open>A sequence of accesses, threading the open shards.\<close>

fun getitems :: "fs \<Rightarrow> int list \<Rightarrow> cache_dataset \<Rightarrow> (cache_item list \<times> cache_dataset) res" where
  "getitems s [] d = Inr ([], d)"
| "getitems s (i # is) d =
     bindE (dataset_getitem s i d) (\<lambda>(x, d').
     bindE (getitems s is d') (\<lambda>(xs, d''). Inr (x # xs, d'')))"

lemma getitems_ok:
  assumes "dataset_over out s contents recs xs d" and "lru_ok s d" and "\<forall>k \<in> set ks. k < length xs"
  shows "\<exists>d'. getitems s (map int ks) d = Inr (map (\<lambda>k. item_of (xs ! k)) ks, d')
           \<and> lru_ok s d' \<and> same_static d d'"
  using assms
proof (induction ks arbitrary: d)
  case Nil
  then show ?case by (simp add: same_static_def)
next
  case (Cons k ks)
  obtain d1 where d1: "dataset_getitem s (int k) d = Inr (item_of (xs ! k), d1)" "lru_ok s d1" "same_static d d1"
    using dataset_getitem_ok [OF Cons.prems(1,2)] Cons.prems(3) by (metis list.set_intros(1))
  obtain d2 where d2: "getitems s (map int ks) d1 = Inr (map (\<lambda>k. item_of (xs ! k)) ks, d2)" "lru_ok s d2" "same_static d1 d2"
    using Cons.IH [OF dataset_over_static [OF Cons.prems(1) d1(3)] d1(2)] Cons.prems(3) by auto
  have "same_static d d2" using d1(3) d2(3) by (simp add: same_static_def)
  with d1(1) d2(1,2) show ?case by simp
qed

section \<open>Opening a finished cache\<close>

lemma validate_shards_ok:
  assumes "\<forall>i \<in> {k..<n}. fs_get s (dir @ [global_shard_name i]) \<noteq> None"
  shows "validate_shards dir s (int k) (map global_entry [k..<n]) = Inr ()"
proof (cases "k \<le> n")
  case True
  then show ?thesis
    using assms
  proof (induction "n - k" arbitrary: k)
    case (Suc m)
    then have "[k..<n] = k # [Suc k..<n]" by (simp add: upt_conv_Cons)
    moreover have "validate_shards dir s (int (Suc k)) (map global_entry [Suc k..<n]) = Inr ()"
      by (rule Suc.hyps(1)) (use Suc in auto)
    moreover have "fs_get s (dir @ [global_shard_name k]) \<noteq> None"
      using Suc by auto
    ultimately show ?case by (simp add: global_entry_def add.commute)
  qed simp
qed simp

lemma shard_paths_lookup:
  "i < n \<Longrightarrow> map_of (foldl (\<lambda>al e. AList.update (se_shard_id e) (dir @ [se_file_name e]) al) [] (map global_entry [0..<n])) (int i)
     = Some (dir @ [global_shard_name i])"
proof (induction n)
  case (Suc n)
  then show ?case by (auto simp: update_conv' global_entry_def less_Suc_eq)
qed simp

lemma dataset_init_ok:
  assumes cf: "cache_files out s contents recs (numbered xs)"
    and m: "fs_get s (out @ [''manifest.json'']) = Some (ManifestDoc
              (build_target_cache_manifest (length xs) (map global_entry [0..<length contents]) layers hidden extra))"
    and "hidden > 0" and "layers \<noteq> []" and "sorted layers" and mx: "max_open > 0"
    and xs: "\<forall>x \<in> set xs. sample_ok hidden (length layers) x"
  obtains d where "dataset_init out max_open s = Inr d" "lru_ok s d" "dataset_over out s contents recs xs d"
    "cd_max_open_shards d = max_open"
proof -
  let ?m = "build_target_cache_manifest (length xs) (map global_entry [0..<length contents]) layers hidden extra"
  obtain f where f: "fs_get s (out @ [''samples.idx'']) = Some (Bytes f)" "idx.is_index recs f"
    and loc: "list_all2 (located contents) recs (numbered xs)"
    using cf by (auto simp: cache_files_def)
  have "length recs = length xs" using loc by (auto dest: list_all2_lengthD)
  then have len: "length f = length xs * 56" using idx.index_length [OF f(2)] by simp
  have "validate_shards out s (int 0) (map global_entry [0..<length contents]) = Inr ()"
    by (rule validate_shards_ok) (use cf in \<open>auto simp: cache_files_def\<close>)
  then have sh: "validate_shards out s 0 (map global_entry [0..<length contents]) = Inr ()" by simp
  have srt: "sort layers = layers" using assms(5) by (rule sorted_sort_id)
  have fb: "fs_bytes s (out @ [''samples.idx'']) = Inr f" using f(1) by (simp add: fs_bytes_def)
  have "validate_target_cache_manifest out ?m s = Inr ()"
    using assms(3,4) sh srt f(1) fb len
    by (simp add: validate_target_cache_manifest_def build_target_cache_manifest_def required_def)
  then have ld: "load_target_cache_manifest out s = Inr ?m" using m by (simp add: load_target_cache_manifest_def)
  let ?d = "\<lparr> cd_cache_dir = out, cd_num_samples = int (length xs), cd_hidden_size = hidden,
           cd_num_target_layers = length layers, cd_index_mmap = None, cd_max_open_shards = max_open,
           cd_shard_handles = [], cd_shard_mmaps = [],
           cd_shard_paths = foldl (\<lambda>al e. AList.update (se_shard_id e) (out @ [se_file_name e]) al) []
             (map global_entry [0..<length contents]) \<rparr>"
  show ?thesis
  proof (rule that [of ?d])
    show "dataset_init out max_open s = Inr ?d"
      using ld by (simp add: dataset_init_def build_target_cache_manifest_def required_def)
  qed (use mx cf xs shard_paths_lookup in \<open>simp_all add: lru_ok_def dataset_over_def\<close>)
qed

end
