(* ===== verification/Chat_Supervision.thy ===== *)
theory Chat_Supervision
  imports Cache_Dataset
begin

text \<open>
  From conversations to supervised token sequences (\<^verbatim>\<open>DeepSpec/deepspec/data/parser.py\<close> and the
  collators of \<^verbatim>\<open>deepspec/data/target_cache_dataset.py\<close>): messages are assembled and rendered by the
  tokenizer's chat template, the assistant's replies are found in the text by a regular
  expression, and the tokens of the replies are marked in the loss mask.

  Texts are lists of characters of any type. The chat template, the tokenizer and the JSON
  parser are parameters; \<open>truncation=True\<close> keeps the first \<open>max_length\<close> tokens.
\<close>

section \<open>Templates\<close>

record 'c chat_template =
  assistant_header :: "'c list option"
  user_header :: "'c list option"
  system_prompt :: "'c list option"
  end_of_turn_token :: "'c list option"
  assistant_loss_prefix :: "'c list option"

type_synonym 'c registry = "string \<rightharpoonup> 'c chat_template"

definition register_template :: "'c registry \<Rightarrow> string \<Rightarrow> 'c chat_template \<Rightarrow> 'c registry res" where
  "register_template reg name template =
     bindE (check (reg name = None) AssertionError) (\<lambda>_. Inr (reg(name \<mapsto> template)))"

definition get_template :: "'c registry \<Rightarrow> string \<Rightarrow> 'c chat_template res" where
  "get_template reg name = (case reg name of None \<Rightarrow> Inl KeyError | Some t \<Rightarrow> Inr t)"

definition newline :: string where
  "newline = [CHR 0x0A]"

definition qwen_template :: "char chat_template" where
  "qwen_template = \<lparr> assistant_header = Some (''<|im_start|>assistant'' @ newline),
     user_header = Some (''<|im_start|>user'' @ newline), system_prompt = Some ''You are a helpful assistant.'',
     end_of_turn_token = Some (''<|im_end|>'' @ newline), assistant_loss_prefix = None \<rparr>"

definition gemma4_template :: "char chat_template" where
  "gemma4_template = \<lparr> assistant_header = Some (''<|turn>model'' @ newline),
     user_header = Some (''<|turn>user'' @ newline), system_prompt = None,
     end_of_turn_token = Some (''<turn|>'' @ newline),
     assistant_loss_prefix = Some (''<|channel>thought'' @ newline @ ''<channel|>'') \<rparr>"

definition template_registry :: "char registry res" where
  "template_registry =
     bindE (register_template Map.empty ''qwen'' qwen_template) (\<lambda>reg. register_template reg ''gemma4'' gemma4_template)"

section \<open>The regular expression\<close>

text \<open>
  \<open>re.finditer\<close> of the header followed by a shortest run of characters up to the end-of-turn token or
  \<open>$\<close>, which holds at the end of the text and before a newline that ends it (\<open>nl\<close>). Every header
  starts a match, since \<open>$\<close> holds at the end. Headers are not empty, as in every registered
  template.
\<close>

definition starts_at :: "'c list \<Rightarrow> 'c list \<Rightarrow> nat \<Rightarrow> bool" where
  "starts_at txt sub i \<longleftrightarrow> take (length sub) (drop i txt) = sub"

definition find_from :: "'c list \<Rightarrow> 'c list \<Rightarrow> nat \<Rightarrow> nat option" where
  "find_from txt sub pos =
     (case filter (starts_at txt sub) [pos..<Suc (length txt) - length sub] of [] \<Rightarrow> None | i # _ \<Rightarrow> Some i)"

definition dollar :: "'c \<Rightarrow> 'c list \<Rightarrow> nat \<Rightarrow> bool" where
  "dollar nl txt i \<longleftrightarrow> i = length txt \<or> (Suc i = length txt \<and> txt ! i = nl)"

definition content_end :: "'c \<Rightarrow> 'c list \<Rightarrow> 'c list \<Rightarrow> nat \<Rightarrow> nat" where
  "content_end nl txt eot pos =
     (case filter (\<lambda>i. starts_at txt eot i \<or> dollar nl txt i) [pos..<Suc (length txt)] of
        [] \<Rightarrow> length txt
      | i # _ \<Rightarrow> if starts_at txt eot i then i + length eot else i)"

lemma find_from_bounds: "find_from txt sub pos = Some i \<Longrightarrow> pos \<le> i \<and> i + length sub \<le> length txt \<and> starts_at txt sub i"
proof -
  assume "find_from txt sub pos = Some i"
  then obtain xs where "filter (starts_at txt sub) [pos..<Suc (length txt) - length sub] = i # xs"
    by (auto simp: find_from_def split: list.splits)
  then have "i \<in> set (filter (starts_at txt sub) [pos..<Suc (length txt) - length sub])" by (metis list.set_intros(1))
  then show ?thesis by auto
qed

lemma content_end_ge: "pos \<le> length txt \<Longrightarrow> pos \<le> content_end nl txt eot pos"
proof -
  assume pos: "pos \<le> length txt"
  show ?thesis
  proof (cases "filter (\<lambda>i. starts_at txt eot i \<or> dollar nl txt i) [pos..<Suc (length txt)]")
    case (Cons i xs)
    then have "i \<in> set (filter (\<lambda>i. starts_at txt eot i \<or> dollar nl txt i) [pos..<Suc (length txt)])" by (metis list.set_intros(1))
    then show ?thesis using Cons by (auto simp: content_end_def)
  qed (use pos in \<open>simp add: content_end_def\<close>)
qed

function assistant_matches :: "'c \<Rightarrow> 'c list \<Rightarrow> 'c list \<Rightarrow> 'c list \<Rightarrow> nat \<Rightarrow> (nat \<times> nat) list" where
  "assistant_matches nl txt header eot pos =
     (if header = [] then []
      else case find_from txt header pos of
          None \<Rightarrow> []
        | Some i \<Rightarrow>
            let s = i + length header; e = content_end nl txt eot s
            in (s, e) # assistant_matches nl txt header eot e)"
  by pat_completeness auto
termination
proof (relation "measure (\<lambda>(nl, txt, header, eot, pos). Suc (length txt) - pos)", goal_cases)
  case (2 nl tx header eot pos i s e)
  have "pos \<le> i" "s \<le> length tx" using find_from_bounds [OF 2(2)] 2(3) by simp_all
  moreover have "s \<le> e" using content_end_ge [of s tx nl eot] calculation(2) 2(4) by simp
  moreover have "i < s" using 2(1,3) by simp
  ultimately show ?case by simp
qed simp

declare assistant_matches.simps [simp del]

section \<open>Messages\<close>

datatype 'c content = TextContent "'c list" | OtherContent

datatype 'j tool_calls = RawJson string | Parsed 'j

text \<open>A message is a dictionary; a missing key is \<open>None\<close>.\<close>

record ('c, 'j) message =
  msg_role :: "string option"
  msg_content :: "'c content option"
  msg_tool_calls :: "'j tool_calls option"

record ('c, 'j) general_parser =
  gp_template :: "'c chat_template"
  gp_apply_chat_template :: "('c, 'j) message list \<Rightarrow> 'c list"
  gp_encode :: "'c list \<Rightarrow> nat list"
  gp_json_loads :: "string \<Rightarrow> 'j option"
  gp_newline :: 'c

definition or_empty :: "'c list option \<Rightarrow> 'c list" where
  "or_empty x = (case x of None \<Rightarrow> [] | Some s \<Rightarrow> s)"

definition get_key :: "'a option \<Rightarrow> 'a res" where
  "get_key x = (case x of None \<Rightarrow> Inl KeyError | Some v \<Rightarrow> Inr v)"

definition system_message :: "'c content \<Rightarrow> ('c, 'j) message" where
  "system_message c = \<lparr> msg_role = Some ''system'', msg_content = Some c, msg_tool_calls = None \<rparr>"

definition load_tool_calls :: "(string \<Rightarrow> 'j option) \<Rightarrow> ('c, 'j) message \<Rightarrow> ('c, 'j) message res" where
  "load_tool_calls json_loads m =
     (case msg_tool_calls m of
        Some (RawJson s) \<Rightarrow>
          (case json_loads s of None \<Rightarrow> Inl AssertionError | Some j \<Rightarrow> Inr (m\<lparr> msg_tool_calls := Some (Parsed j) \<rparr>))
      | _ \<Rightarrow> Inr m)"

definition collect_messages :: "('c, 'j) general_parser \<Rightarrow> ('c, 'j) message list \<Rightarrow> ('c, 'j) message list res" where
  "collect_messages p conversation =
     (case conversation of
        [] \<Rightarrow> Inl IndexError
      | first # rest \<Rightarrow>
          bindE (get_key (msg_role first)) (\<lambda>role.
          bindE (if role = ''system'' then bindE (get_key (msg_content first)) (\<lambda>c. Inr ([system_message c], rest))
                 else Inr (if or_empty (system_prompt (gp_template p)) \<noteq> []
                           then [system_message (TextContent (or_empty (system_prompt (gp_template p))))] else [], conversation)) (\<lambda>(messages, conv).
          bindE (mapE (\<lambda>(idx, sentence).
                   bindE (get_key (msg_role sentence)) (\<lambda>role.
                   bindE (check (idx \<noteq> 0 \<or> role = ''user'') AssertionError) (\<lambda>_.
                   load_tool_calls (gp_json_loads p) sentence))) (zip [0..<length conv] conv)) (\<lambda>ms.
          Inr (messages @ ms)))))"

definition prepare_render_messages :: "('c, 'j) general_parser \<Rightarrow> ('c, 'j) message list \<Rightarrow> ('c, 'j) message list res" where
  "prepare_render_messages p messages =
     (let loss_prefix = or_empty (assistant_loss_prefix (gp_template p)) in
      if loss_prefix = [] then Inr messages
      else mapE (\<lambda>m.
             bindE (get_key (msg_role m)) (\<lambda>role.
             if role \<noteq> ''assistant'' then Inr m
             else bindE (get_key (msg_content m)) (\<lambda>c.
                  case c of
                    OtherContent \<Rightarrow> Inl AssertionError
                  | TextContent s \<Rightarrow>
                      Inr (if starts_at s loss_prefix 0 then m else m\<lparr> msg_content := Some (TextContent (loss_prefix @ s)) \<rparr>)))) messages)"

section \<open>The loss mask\<close>

text \<open>\<open>loss_mask[start:end] = 1\<close> for a non-empty range.\<close>

definition fill_range :: "nat \<Rightarrow> nat \<Rightarrow> nat list \<Rightarrow> nat list" where
  "fill_range s e m = (if s < e then take s m @ replicate (length (py_slice s e m)) 1 @ drop e m else m)"

definition mark_match :: "('c list \<Rightarrow> nat list) \<Rightarrow> nat \<Rightarrow> 'c list \<Rightarrow> 'c list \<Rightarrow> nat \<Rightarrow> nat list \<Rightarrow> nat \<times> nat \<Rightarrow> nat list" where
  "mark_match encode max_length txt loss_prefix num_ids loss_mask span =
     (let content_start = fst span + (if loss_prefix \<noteq> [] \<and> starts_at txt loss_prefix (fst span) then length loss_prefix else 0);
          prefix_ids = take max_length (encode (take content_start txt));
          full_ids = take max_length (encode (take (snd span) txt));
          start_token_idx = min (length prefix_ids) num_ids;
          end_token_idx = min (length full_ids) num_ids
      in fill_range start_token_idx end_token_idx loss_mask)"

record features =
  ft_input_ids :: "nat list"
  ft_attention_mask :: "nat list"
  ft_loss_mask :: "nat list"

definition parse_conversation :: "('c, 'j) general_parser \<Rightarrow> ('c, 'j) message list \<Rightarrow> nat \<Rightarrow> features res" where
  "parse_conversation p conversation max_length =
     bindE (collect_messages p conversation) (\<lambda>messages.
     bindE (prepare_render_messages p messages) (\<lambda>render_messages.
     let txt = gp_apply_chat_template p render_messages;
         ids = take max_length (gp_encode p txt);
         spans = assistant_matches (gp_newline p) txt (or_empty (assistant_header (gp_template p)))
                   (or_empty (end_of_turn_token (gp_template p))) 0
     in Inr \<lparr> ft_input_ids = ids, ft_attention_mask = replicate (length ids) 1,
              ft_loss_mask = foldl (mark_match (gp_encode p) max_length txt (or_empty (assistant_loss_prefix (gp_template p))) (length ids))
                            (replicate (length ids) 0) spans \<rparr>))"

text \<open>A record is the list of its messages, or lacks the field \<open>conversations\<close>.\<close>

definition preprocess_record ::
  "('c, 'j) message list option \<Rightarrow> ('c chat_template \<Rightarrow> ('c, 'j) general_parser) \<Rightarrow> 'c registry \<Rightarrow> string \<Rightarrow> nat \<Rightarrow> features res" where
  "preprocess_record r parser reg chat_template max_length =
     (case get_template reg chat_template of
        Inl _ \<Rightarrow> Inl AssertionError
      | Inr template \<Rightarrow>
          (case r of None \<Rightarrow> Inl AssertionError | Some conversation \<Rightarrow> parse_conversation (parser template) conversation max_length))"

section \<open>Collators\<close>

definition max_len :: "'a list list \<Rightarrow> nat" where
  "max_len rows = foldr (\<lambda>r n. max (length r) n) rows 0"

definition pad_1d_batch :: "'a::zero list list \<Rightarrow> 'a list list res" where
  "pad_1d_batch rows =
     bindE (check (rows \<noteq> []) ValueError) (\<lambda>_.
     Inr (map (\<lambda>r. r @ replicate (max_len rows - length r) 0) rows))"

text \<open>The hidden size is the width of the first item; a row of another width does not fit.\<close>

definition pad_hidden_batch :: "'a::zero list list list \<Rightarrow> 'a list list list res" where
  "pad_hidden_batch elems =
     bindE (check (elems \<noteq> []) ValueError) (\<lambda>_.
     let hidden_dim = (case hd elems of [] \<Rightarrow> 0 | row # _ \<Rightarrow> length row) in
     bindE (check (\<forall>it \<in> set elems. \<forall>row \<in> set it. length row = hidden_dim) RuntimeError) (\<lambda>_.
     Inr (map (\<lambda>it. it @ replicate (max_len elems - length it) (replicate hidden_dim 0)) elems)))"

definition process_feature :: "nat \<Rightarrow> features \<Rightarrow> features option" where
  "process_feature min_loss_tokens processed =
     (if sum_list (ft_loss_mask processed) < min_loss_tokens then None else Some processed)"

record feature_batch =
  fb_input_ids :: "nat list list"
  fb_attention_mask :: "nat list list"
  fb_loss_mask :: "nat list list"

text \<open>\<open>preprocess\<close> is \<open>preprocess_record\<close> with the collator's tokenizer, template and length.\<close>

definition conversation_collator :: "('r \<Rightarrow> features res) \<Rightarrow> nat \<Rightarrow> 'r list \<Rightarrow> feature_batch option res" where
  "conversation_collator preprocess min_loss_tokens elems =
     bindE (mapE (\<lambda>it. bindE (preprocess it) (\<lambda>f. Inr (process_feature min_loss_tokens f))) elems) (\<lambda>fs.
     let features = List.map_filter id fs in
     if features = [] then Inr None
     else bindE (pad_1d_batch (map ft_input_ids features)) (\<lambda>ids.
          bindE (pad_1d_batch (map ft_attention_mask features)) (\<lambda>am.
          bindE (pad_1d_batch (map ft_loss_mask features)) (\<lambda>lm.
          Inr (Some \<lparr> fb_input_ids = ids, fb_attention_mask = am, fb_loss_mask = lm \<rparr>)))))"

record cache_batch =
  cb_input_ids :: "int list list"
  cb_loss_mask :: "int list list"
  cb_attention_mask :: "nat list list"
  cb_target_hidden_states :: "16 word list list list"
  cb_target_last_hidden_states :: "16 word list list list"

definition cache_collator :: "cache_item list \<Rightarrow> cache_batch res" where
  "cache_collator features =
     bindE (pad_1d_batch (map ci_input_ids features)) (\<lambda>ids.
     bindE (pad_1d_batch (map ci_loss_mask features)) (\<lambda>lm.
     let am = map (\<lambda>(row, it). replicate (length (ci_input_ids it)) 1
                                 @ replicate (length row - length (ci_input_ids it)) 0) (zip ids features) in
     bindE (pad_hidden_batch (map ci_target_hidden_states features)) (\<lambda>hid.
     bindE (pad_hidden_batch (map ci_target_last_hidden_states features)) (\<lambda>last_hid.
     Inr \<lparr> cb_input_ids = ids, cb_loss_mask = lm, cb_attention_mask = am,
           cb_target_hidden_states = hid, cb_target_last_hidden_states = last_hid \<rparr>))))"

section \<open>What the expression finds\<close>

text \<open>
  A rendered conversation is a sequence of turns: text that is not supervised, and replies, each
  the assistant's header, the loss prefix, the content and the end-of-turn token.
\<close>

datatype 'c turn = Plain "'c list" | Reply "'c list"

fun pieces :: "'c list \<Rightarrow> 'c list \<Rightarrow> 'c list \<Rightarrow> 'c turn list \<Rightarrow> ('c list \<times> nat) list" where
  "pieces H P E [] = []"
| "pieces H P E (Plain s # ts) = (s, 0) # pieces H P E ts"
| "pieces H P E (Reply c # ts) = (H @ P, 0) # (c @ E, 1) # pieces H P E ts"

abbreviation rendered :: "'c list \<Rightarrow> 'c list \<Rightarrow> 'c list \<Rightarrow> 'c turn list \<Rightarrow> 'c list" where
  "rendered H P E ts \<equiv> concat (map fst (pieces H P E ts))"

text \<open>
  The markers are not forged: no unsupervised text contains the start of a header, and no reply
  holds the end-of-turn token before its end. A reply may contain headers.
\<close>

fun unforged :: "'c list \<Rightarrow> 'c list \<Rightarrow> 'c list \<Rightarrow> 'c turn list \<Rightarrow> bool" where
  "unforged H P E [] \<longleftrightarrow> True"
| "unforged H P E (Plain s # ts) \<longleftrightarrow>
     (\<forall>i < length s. \<not> starts_at (s @ rendered H P E ts) H i) \<and> unforged H P E ts"
| "unforged H P E (Reply c # ts) \<longleftrightarrow>
     (\<forall>i < length (P @ c). \<not> starts_at (P @ c @ E) E i) \<and> unforged H P E ts"

fun reply_spans :: "'c list \<Rightarrow> 'c list \<Rightarrow> 'c list \<Rightarrow> nat \<Rightarrow> 'c turn list \<Rightarrow> (nat \<times> nat) list" where
  "reply_spans H P E n [] = []"
| "reply_spans H P E n (Plain s # ts) = reply_spans H P E (n + length s) ts"
| "reply_spans H P E n (Reply c # ts) =
     (let e = n + length H + length P + length c + length E
      in (n + length H, e) # reply_spans H P E e ts)"

lemma starts_at_append [simp]: "starts_at (pre @ xs) sub (length pre + i) = starts_at xs sub i"
  by (simp add: starts_at_def)

lemma starts_at_append_0 [simp]: "starts_at (pre @ xs) sub (length pre) = starts_at xs sub 0"
  using starts_at_append [of pre xs sub 0] by simp

lemma starts_at_self [simp]: "starts_at (sub @ xs) sub 0"
  by (simp add: starts_at_def)

lemma starts_at_inside: "i + length sub \<le> length xs \<Longrightarrow> starts_at (xs @ ys) sub i = starts_at xs sub i"
  by (simp add: starts_at_def)

text \<open>The first hit of a search over a range.\<close>

lemma filter_upt_first:
  assumes "a \<le> p" "p < b" "P p" "\<And>i. a \<le> i \<Longrightarrow> i < p \<Longrightarrow> \<not> P i"
  obtains xs where "filter P [a..<b] = p # xs"
proof -
  have "[a..<b] = [a..<p] @ p # [Suc p..<b]"
    using assms(1,2) upt_add_eq_append [of a p "b - p"] by (simp add: upt_conv_Cons)
  moreover have "filter P [a..<p] = []" using assms(4) by (auto simp: filter_empty_conv)
  ultimately show ?thesis using assms(3) that by simp
qed

lemma find_from_here: "i + length sub \<le> length txt \<Longrightarrow> starts_at txt sub i \<Longrightarrow> find_from txt sub i = Some i"
  by (rule filter_upt_first [of i i "Suc (length txt) - length sub" "starts_at txt sub"]) (auto simp: find_from_def)

lemma find_from_skip:
  assumes "pos \<le> q" "\<And>i. pos \<le> i \<Longrightarrow> i < q \<Longrightarrow> \<not> starts_at txt sub i"
  shows "find_from txt sub pos = find_from txt sub q"
proof -
  let ?m = "Suc (length txt) - length sub"
  have "filter (starts_at txt sub) [pos..<?m] = filter (starts_at txt sub) [q..<?m]"
  proof (cases "q \<le> ?m")
    case True
    then have "[pos..<?m] = [pos..<q] @ [q..<?m]" using assms(1) by (metis le_Suc_ex upt_add_eq_append)
    moreover have "filter (starts_at txt sub) [pos..<q] = []" using assms(2) by (auto simp: filter_empty_conv)
    ultimately show ?thesis by simp
  next
    case False
    then have "filter (starts_at txt sub) [pos..<?m] = []" using assms(2) by (auto simp: filter_empty_conv)
    then show ?thesis using False by simp
  qed
  then show ?thesis by (simp add: find_from_def)
qed

lemma find_from_end: "sub \<noteq> [] \<Longrightarrow> find_from txt sub (length txt) = None"
  by (cases sub) (simp_all add: find_from_def)

lemma content_end_reply:
  assumes "E \<noteq> []" "\<And>i. i < length body \<Longrightarrow> \<not> starts_at (body @ E) E i"
  shows "content_end nl (pre @ body @ E @ rest) E (length pre) = length pre + length body + length E"
proof -
  let ?t = "pre @ body @ E @ rest" and ?p = "length pre + length body"
  have hit: "starts_at ?t E ?p" by simp
  have miss: "\<not> (starts_at ?t E i \<or> dollar nl ?t i)" if i: "length pre \<le> i" "i < ?p" for i
  proof -
    obtain j where j: "i = length pre + j" "j < length body" using i by (metis le_Suc_ex nat_add_left_cancel_less)
    have "starts_at ?t E i = starts_at ((body @ E) @ rest) E j" using j(1) by (simp del: append_assoc add: append_assoc [of body E rest])
    then have "\<not> starts_at ?t E i" using assms(2) [OF j(2)] j(2) starts_at_inside [of j E "body @ E" rest] by simp
    moreover have "\<not> dollar nl ?t i" using i(2) assms(1) by (cases E) (simp_all add: dollar_def)
    ultimately show ?thesis by blast
  qed
  obtain xs where "filter (\<lambda>i. starts_at ?t E i \<or> dollar nl ?t i) [length pre..<Suc (length ?t)] = ?p # xs"
    using filter_upt_first [of "length pre" ?p "Suc (length ?t)" "\<lambda>i. starts_at ?t E i \<or> dollar nl ?t i"] hit miss by auto
  then show ?thesis using hit by (simp add: content_end_def)
qed

lemma assistant_matches_skip:
  "find_from txt H p = find_from txt H q \<Longrightarrow> assistant_matches nl txt H E p = assistant_matches nl txt H E q"
  by (subst (1 2) assistant_matches.simps) simp

lemma assistant_matches_replies:
  assumes "H \<noteq> []" "E \<noteq> []" "unforged H P E ts"
  shows "assistant_matches nl (pre @ rendered H P E ts) H E (length pre) = reply_spans H P E (length pre) ts"
  using assms(3)
proof (induction ts arbitrary: pre)
  case Nil
  then show ?case using assms(1) find_from_end [of H pre] by (simp add: assistant_matches.simps)
next
  case (Cons t ts)
  show ?case
  proof (cases t)
    case (Plain s)
    have "\<not> starts_at (pre @ rendered H P E (t # ts)) H i" if i: "length pre \<le> i" "i < length (pre @ s)" for i
    proof -
      obtain j where "i = length pre + j" "j < length s" using i by (metis le_Suc_ex length_append nat_add_left_cancel_less)
      then show ?thesis using Cons.prems Plain by simp
    qed
    then have "assistant_matches nl (pre @ rendered H P E (t # ts)) H E (length pre)
             = assistant_matches nl (pre @ rendered H P E (t # ts)) H E (length (pre @ s))"
      by (intro assistant_matches_skip find_from_skip) auto
    then show ?thesis using Cons.IH [of "pre @ s"] Cons.prems Plain by simp
  next
    case (Reply c)
    let ?t = "pre @ rendered H P E (t # ts)" and ?s = "pre @ H" and ?e = "pre @ H @ P @ c @ E"
    have t: "?t = pre @ H @ P @ c @ E @ rendered H P E ts" using Reply by simp
    have "find_from ?t H (length pre) = Some (length pre)" by (rule find_from_here) (simp_all add: t)
    moreover have "content_end nl ?t E (length ?s) = length ?e"
      using content_end_reply [OF assms(2), of "P @ c" nl ?s "rendered H P E ts"] Cons.prems Reply t by simp
    ultimately have "assistant_matches nl ?t H E (length pre) = (length ?s, length ?e) # assistant_matches nl ?t H E (length ?e)"
      using assms(1) by (subst assistant_matches.simps) (simp add: Let_def)
    also have "assistant_matches nl ?t H E (length ?e) = reply_spans H P E (length ?e) ts"
      using Cons.IH [of ?e] Cons.prems Reply by simp
    finally show ?thesis using Reply by (simp add: Let_def add.assoc)
  qed
qed

section \<open>What the mask marks\<close>

lemma length_fill_range [simp]: "length (fill_range s e m) = length m"
  by (auto simp: fill_range_def py_slice_def min_def)

lemma fill_range_take:
  assumes "s \<le> e" "e \<le> length m"
  shows "fill_range (min L s) (min L e) (take L m) = take L (take s m @ replicate (e - s) 1 @ drop e m)"
proof (rule nth_equalityI)
  fix i assume "i < length (fill_range (min L s) (min L e) (take L m))"
  then have i: "i < L" "i < length m" by simp_all
  show "fill_range (min L s) (min L e) (take L m) ! i = take L (take s m @ replicate (e - s) 1 @ drop e m) ! i"
    using i assms by (auto simp: fill_range_def py_slice_def nth_append min_def)
qed (use assms in simp)

lemma fill_range_middle:
  "fill_range (min L (length a)) (min L (length a + length b)) (take L (a @ b @ c))
     = take L (a @ replicate (length b) 1 @ c)"
  using fill_range_take [of "length a" "length a + length b" "a @ b @ c" L] by simp

text \<open>The mask a conversation should have: the tokens of every reply after its header and loss prefix.\<close>

definition marks :: "('c list \<Rightarrow> nat list) \<Rightarrow> ('c list \<times> nat) list \<Rightarrow> nat list" where
  "marks encode ps = concat (map (\<lambda>(s, b). replicate (length (encode s)) b) ps)"

definition zeros :: "('c list \<Rightarrow> nat list) \<Rightarrow> ('c list \<times> nat) list \<Rightarrow> nat list" where
  "zeros encode ps = replicate (length (concat (map (encode \<circ> fst) ps))) 0"

lemma marks_simps [simp]:
  "marks encode [] = []" "marks encode ((s, b) # ps) = replicate (length (encode s)) b @ marks encode ps"
  "marks encode (ps @ qs) = marks encode ps @ marks encode qs"
  by (simp_all add: marks_def)

lemma zeros_simps [simp]:
  "zeros encode [] = []" "zeros encode (p # ps) = replicate (length (encode (fst p))) 0 @ zeros encode ps"
  by (simp_all add: zeros_def replicate_add)

lemma length_marks: "length (marks encode ps) = length (concat (map (encode \<circ> fst) ps))"
  by (induction ps) (auto simp: marks_def)

lemma length_zeros: "length (zeros encode ps) = length (concat (map (encode \<circ> fst) ps))"
  by (simp add: zeros_def)

text \<open>
  The tokenizer splits the text at the borders of the pieces: the tokens of any number of leading
  pieces are the tokens of the pieces one after the other.
\<close>

definition splits :: "('c list \<Rightarrow> nat list) \<Rightarrow> ('c list \<times> nat) list \<Rightarrow> bool" where
  "splits encode ps \<longleftrightarrow>
     (\<forall>k \<le> length ps. encode (concat (map fst (take k ps))) = concat (map (encode \<circ> fst) (take k ps)))"

lemma splits_append:
  "splits encode (ps @ qs) \<Longrightarrow> encode (concat (map fst ps)) = concat (map (encode \<circ> fst) ps)"
  unfolding splits_def by (drule spec [of _ "length ps"]) simp

lemma splits_length:
  "splits encode (ps @ qs) \<Longrightarrow> length (encode (concat (map fst ps))) = length (marks encode ps)"
  by (simp add: splits_append length_marks)

lemma mark_reply:
  assumes sp: "splits encode (ps @ (H @ P, 0) # (c @ E, 1) # qs)"
    and tx: "txt = concat (map fst (ps @ (H @ P, 0) # (c @ E, 1) # qs))"
    and n: "n = length (take L (encode txt))"
    and s: "s = length (concat (map fst ps)) + length H"
    and e: "e = s + length P + length c + length E"
  shows "mark_match encode L txt P n (take L (marks encode ps @ zeros encode ((H @ P, 0) # (c @ E, 1) # qs))) (s, e)
       = take L (marks encode (ps @ [(H @ P, 0), (c @ E, 1)]) @ zeros encode qs)"
proof -
  let ?h = "[(H @ P, 0)]" and ?b = "[(c @ E, 1)]"
  have "starts_at ((concat (map fst ps) @ H) @ P @ c @ E @ concat (map fst qs)) P (length (concat (map fst ps) @ H))"
    by (simp only: starts_at_append_0 starts_at_self)
  then have at: "starts_at txt P s" unfolding tx s by simp
  have cs: "s + (if P \<noteq> [] \<and> starts_at txt P s then length P else 0) = s + length P" using at by simp
  have t1: "take (s + length P) txt = concat (map fst (ps @ ?h))" and t2: "take e txt = concat (map fst (ps @ ?h @ ?b))"
    unfolding tx s e by simp_all
  have l1: "length (encode (concat (map fst (ps @ ?h)))) = length (marks encode (ps @ ?h))"
    using splits_length [of encode "ps @ ?h" "?b @ qs"] sp by simp
  have l2: "length (encode (concat (map fst (ps @ ?h @ ?b)))) = length (marks encode (ps @ ?h @ ?b))"
    using splits_length [of encode "ps @ ?h @ ?b" qs] sp by simp
  have "length (encode txt) = length (marks encode (ps @ ?h @ ?b @ qs))"
    unfolding tx using splits_length [of encode "ps @ ?h @ ?b @ qs" "[]"] sp by simp
  then have m: "min (min (length (marks encode (ps @ ?h))) L) n = min L (length (marks encode (ps @ ?h)))"
    "min (min (length (marks encode (ps @ ?h @ ?b))) L) n = min L (length (marks encode (ps @ ?h @ ?b)))"
    unfolding n by (simp_all add: min_def)
  have "mark_match encode L txt P n (take L (marks encode ps @ zeros encode (?h @ ?b @ qs))) (s, e)
      = fill_range (min L (length (marks encode (ps @ ?h)))) (min L (length (marks encode (ps @ ?h @ ?b))))
          (take L (marks encode (ps @ ?h) @ replicate (length (encode (c @ E))) 0 @ zeros encode qs))"
    unfolding mark_match_def Let_def fst_conv snd_conv cs t1 t2 length_take l1 l2 m by simp
  also have "\<dots> = take L (marks encode (ps @ ?h) @ replicate (length (encode (c @ E))) 1 @ zeros encode qs)"
    using fill_range_middle [of L "marks encode (ps @ ?h)" "replicate (length (encode (c @ E))) 0" "zeros encode qs"]
    by (simp add: length_marks add.assoc)
  finally show ?thesis by simp
qed

lemma fold_marks:
  assumes "splits encode (ps @ pieces H P E ts)" "txt = concat (map fst ps) @ rendered H P E ts"
    "n = length (take L (encode txt))"
  shows "foldl (mark_match encode L txt P n) (take L (marks encode ps @ zeros encode (pieces H P E ts)))
           (reply_spans H P E (length (concat (map fst ps))) ts)
       = take L (marks encode (ps @ pieces H P E ts))"
  using assms(1,2)
proof (induction ts arbitrary: ps)
  case (Cons t ts)
  show ?case
  proof (cases t)
    case (Plain s)
    then show ?thesis using Cons.IH [of "ps @ [(s, 0)]"] Cons.prems by simp
  next
    case (Reply c)
    let ?s = "length (concat (map fst ps)) + length H"
    let ?e = "?s + length P + length c + length E" and ?qs = "ps @ [(H @ P, 0), (c @ E, 1)]"
    have e: "length (concat (map fst ?qs)) = ?e" by simp
    have "mark_match encode L txt P n (take L (marks encode ps @ zeros encode (pieces H P E (t # ts)))) (?s, ?e)
        = take L (marks encode ?qs @ zeros encode (pieces H P E ts))"
      using Cons.prems Reply by (simp only: pieces.simps) (rule mark_reply; simp add: assms(3))
    then show ?thesis
      using Cons.IH [of ?qs, unfolded e] Cons.prems Reply by (simp add: Let_def)
  qed
qed simp

definition render_messages :: "('c, 'j) general_parser \<Rightarrow> ('c, 'j) message list \<Rightarrow> ('c, 'j) message list res" where
  "render_messages p conversation = bindE (collect_messages p conversation) (prepare_render_messages p)"

lemma parse_conversation_rendered:
  assumes "render_messages p conversation = Inr ms"
  defines "tx \<equiv> gp_apply_chat_template p ms" and "E \<equiv> or_empty (end_of_turn_token (gp_template p))"
    and "H \<equiv> or_empty (assistant_header (gp_template p))" and "P \<equiv> or_empty (assistant_loss_prefix (gp_template p))"
  shows "parse_conversation p conversation L =
    Inr \<lparr> ft_input_ids = take L (gp_encode p tx), ft_attention_mask = replicate (length (take L (gp_encode p tx))) 1,
          ft_loss_mask = foldl (mark_match (gp_encode p) L tx P (length (take L (gp_encode p tx))))
            (replicate (length (take L (gp_encode p tx))) 0) (assistant_matches (gp_newline p) tx H E 0) \<rparr>"
  using assms(1) by (auto simp: render_messages_def parse_conversation_def res_simps Let_def tx_def E_def H_def P_def)


definition example_turn :: "(char, unit) message \<Rightarrow> string" where
  "example_turn m = ''<|turn>'' @ (case msg_role m of Some r \<Rightarrow> if r = ''assistant'' then ''model'' else r | None \<Rightarrow> []) @ newline
     @ (case msg_content m of Some (TextContent s) \<Rightarrow> s | _ \<Rightarrow> []) @ ''<turn|>'' @ newline"

definition example_parser :: "(char, unit) general_parser" where
  "example_parser = \<lparr> gp_template = gemma4_template, gp_apply_chat_template = (\<lambda>ms. concat (map example_turn ms)),
     gp_encode = map of_char, gp_json_loads = (\<lambda>_. None), gp_newline = CHR 0x0A \<rparr>"

definition example_conversation :: "(char, unit) message list" where
  "example_conversation =
     [\<lparr> msg_role = Some ''user'', msg_content = Some (TextContent ''hi''), msg_tool_calls = None \<rparr>,
      \<lparr> msg_role = Some ''assistant'', msg_content = Some (TextContent ''yo''), msg_tool_calls = None \<rparr>]"

definition example_turns :: "char turn list" where
  "example_turns = [Plain (''<|turn>user'' @ newline @ ''hi<turn|>'' @ newline), Reply ''yo'']"

lemma splits_map: "splits (map f) ps"
  by (simp add: splits_def map_concat comp_def)


section \<open>Collated batches\<close>

lemma max_len_ge: "r \<in> set rows \<Longrightarrow> length r \<le> max_len rows"
  by (induction rows) (auto simp: max_len_def)

text \<open>Every row of a padded batch starts with its item and has the length of the longest.\<close>

lemma pad_1d_batch_row:
  assumes "pad_1d_batch rows = Inr out" "i < length rows"
  shows "take (length (rows ! i)) (out ! i) = rows ! i" and "length (out ! i) = max_len rows"
  using assms max_len_ge [of "rows ! i" rows] by (auto simp: pad_1d_batch_def res_simps)

text \<open>The attention mask of a collated batch counts the tokens of every item.\<close>

lemma cache_collator_row:
  assumes "cache_collator features = Inr b" "i < length features"
  shows "take (sum_list (cb_attention_mask b ! i)) (cb_input_ids b ! i) = ci_input_ids (features ! i)"
  using assms pad_1d_batch_row(1) [of "map ci_input_ids features" _ i]
  by (auto simp: cache_collator_def res_simps Let_def pad_1d_batch_def sum_list_replicate)

text \<open>A kept record has at least the required number of supervised tokens.\<close>

lemma process_feature_kept: "process_feature n f = Some g \<longleftrightarrow> g = f \<and> n \<le> sum_list (ft_loss_mask f)"
  by (auto simp: process_feature_def)

end
