(* ===== verification/Target_Cache.thy ===== *)
theory Target_Cache
  imports Cache_Dataset
begin

text \<open>
  The end-to-end pipeline of \<^verbatim>\<open>DeepSpec/scripts/data/prepare_target_cache.py\<close>: each
  rank writes its samples and a summary, then the ranks rename their shards and rank 0
  merges the indices, writes the manifest and removes the temporary directory. The final
  theorem is the round trip through the cache: what \<open>CacheDataset\<close> reads back is what the
  ranks were given.
\<close>

section \<open>The pipeline\<close>

text \<open>The summary a rank writes after closing its writer.\<close>

definition local_summary :: "nat \<Rightarrow> nat \<Rightarrow> nat \<Rightarrow> local_writer \<Rightarrow> local_cache_write_summary" where
  "local_summary r local_start local_end w =
     \<lparr> global_rank = r, source_sample_start = local_start, source_sample_end = local_end,
       sum_num_local_samples = num_local_samples w,
       num_local_shards = length (local_shard_files w), sum_local_shard_files = local_shard_files w \<rparr>"

definition write_summary :: "path \<Rightarrow> nat \<Rightarrow> nat \<Rightarrow> nat \<Rightarrow> local_writer \<Rightarrow> fs \<Rightarrow> fs res" where
  "write_summary out num_samples world_size r w s =
     bindE (compute_local_sample_range num_samples r world_size) (\<lambda>(a, b).
     atomic_json_dump (SummaryDoc (local_summary r a b w)) (rank_path out r @ [''summary.json'']) s)"

definition write_manifest :: "path \<Rightarrow> nat \<Rightarrow> int list \<Rightarrow> nat \<Rightarrow> shard_entry list \<Rightarrow> extra_fields \<Rightarrow> fs \<Rightarrow> fs res" where
  "write_manifest out world_size target_layer_ids hidden_size shards extra s =
     bindE (mapE (\<lambda>r. bindE (load_local_cache_write_summary (rank_path out r) s)
                        (\<lambda>x. Inr (sum_num_local_samples x))) [0..<world_size]) (\<lambda>counts.
     write_target_cache_manifest out
       (build_target_cache_manifest (sum_list counts) shards target_layer_ids hidden_size (Some extra)) s)"

definition rename_stage :: "path \<Rightarrow> nat \<Rightarrow> shard_map \<Rightarrow> fs \<Rightarrow> fs res" where
  "rename_stage out world_size smap s =
     foldE (\<lambda>s r. bindE (load_local_cache_write_summary (rank_path out r) s) (\<lambda>x.
                    rename_local_target_cache_shards out (rank_path out r) x smap s)) s [0..<world_size]"

definition prepare_finish ::
  "path \<Rightarrow> nat \<Rightarrow> int list \<Rightarrow> nat \<Rightarrow> extra_fields \<Rightarrow> fs \<Rightarrow> (nat \<times> fs) res" where
  "prepare_finish out world_size target_layer_ids hidden_size extra s =
     bindE (mapE (\<lambda>r. load_local_cache_write_summary (rank_path out r) s) [0..<world_size]) (\<lambda>summaries.
     let (smap, shards) = build_global_target_cache_shard_map summaries in
     bindE (rename_stage out world_size smap s) (\<lambda>s1.
     bindE (finalize_target_cache_index out summaries smap s1) (\<lambda>(num_valid_samples, s2).
     bindE (write_manifest out world_size target_layer_ids hidden_size shards extra s2) (\<lambda>s3.
     Inr (num_valid_samples, cleanup_target_cache_tmp_dir out s3)))))"

section \<open>What a rank leaves on disk\<close>

definition rank_output :: "path \<Rightarrow> fs \<Rightarrow> nat \<Rightarrow> nat \<Rightarrow> nat \<Rightarrow> cache_sample list \<Rightarrow> bool" where
  "rank_output out s num_samples world_size r xs \<longleftrightarrow>
     (\<exists>w. stored w s (numbered xs) \<and> rank_dir w = rank_path out r
        \<and> (case compute_local_sample_range num_samples r world_size of Inl _ \<Rightarrow> False
           | Inr (a, b) \<Rightarrow> fs_get s (rank_path out r @ [''summary.json'']) = Some (SummaryDoc (local_summary r a b w))))"

lemma rank_output_data:
  assumes "rank_output out s n world r xs" and w: "world > 0"
  obtains d where "rank_ready out s d" "global_rank (rd_summary d) = r" "rd_samples d = xs"
    "source_sample_start (rd_summary d) = range_start n world r"
    "sum_num_local_samples (rd_summary d) = length xs" "length (rd_contents d) \<le> length xs"
    "fs_get s (rank_path out r @ [''summary.json'']) = Some (SummaryDoc (rd_summary d))"
proof -
  obtain wr where wr: "stored wr s (numbered xs)" "rank_dir wr = rank_path out r"
    "fs_get s (rank_path out r @ [''summary.json''])
       = Some (SummaryDoc (local_summary r (range_start n world r) (range_start n world (Suc r)) wr))"
    using assms by (auto simp: rank_output_def compute_range_eq)
  obtain contents recs where c: "rank_files (rank_path out r) s contents recs (numbered xs)"
    "local_shard_files wr = map local_shard_name [0..<length contents]" "num_local_samples wr = length xs"
    "length contents \<le> length xs"
    using wr(1,2) by (auto simp: stored_def)
  let ?d = "\<lparr> rd_summary = local_summary r (range_start n world r) (range_start n world (Suc r)) wr,
              rd_contents = contents, rd_recs = recs, rd_samples = xs \<rparr>"
  show ?thesis
    by (rule that [of ?d]) (use c wr in \<open>simp_all add: rank_ready_def rd_dir_def local_summary_def\<close>)
qed

lemma ranks_data:
  assumes "\<And>r. r < length xss \<Longrightarrow> rank_output out s n (length xss) r (xss ! r)"
    and tot: "length (concat xss) < 2 ^ 32"
  obtains ds where "ranks_ok out s ds" "map rd_samples ds = xss" "map (global_rank \<circ> rd_summary) ds = [0..<length xss]"
    "\<forall>d \<in> set ds. sum_num_local_samples (rd_summary d) = length (rd_samples d)"
    "\<forall>d \<in> set ds. fs_get s (rd_dir out d @ [''summary.json'']) = Some (SummaryDoc (rd_summary d))"
proof -
  let ?W = "length xss"
  have "\<exists>d. rank_ready out s d \<and> global_rank (rd_summary d) = r \<and> rd_samples d = xss ! r
      \<and> source_sample_start (rd_summary d) = range_start n ?W r
      \<and> sum_num_local_samples (rd_summary d) = length (xss ! r) \<and> length (rd_contents d) \<le> length (xss ! r)
      \<and> fs_get s (rank_path out r @ [''summary.json'']) = Some (SummaryDoc (rd_summary d))" if "r < ?W" for r
    using rank_output_data [OF assms(1) [OF that]] that by (metis less_zeroE neq0_conv)
  then obtain D where D: "\<And>r. r < ?W \<Longrightarrow> rank_ready out s (D r) \<and> global_rank (rd_summary (D r)) = r
      \<and> rd_samples (D r) = xss ! r \<and> source_sample_start (rd_summary (D r)) = range_start n ?W r
      \<and> sum_num_local_samples (rd_summary (D r)) = length (xss ! r) \<and> length (rd_contents (D r)) \<le> length (xss ! r)
      \<and> fs_get s (rank_path out r @ [''summary.json'']) = Some (SummaryDoc (rd_summary (D r)))"
    by metis
  let ?ds = "map D [0..<?W]"
  have samples: "map rd_samples ?ds = xss" by (rule nth_equalityI) (use D in auto)
  have ranks: "map (global_rank \<circ> rd_summary) ?ds = [0..<?W]" by (rule nth_equalityI) (use D in auto)
  have "map (source_sample_start \<circ> rd_summary) ?ds = map (range_start n ?W) [0..<?W]" by (rule nth_equalityI) (use D in auto)
  then have srt: "sorted (map (source_sample_start \<circ> rd_summary) ?ds)"
    by (auto simp: sorted_iff_nth_mono intro: range_start_mono)
  have "length (concat (map rd_contents ?ds)) \<le> length (concat xss)"
  proof -
    have "sum_list (map (\<lambda>r. length (rd_contents (D r))) [0..<?W]) \<le> sum_list (map (\<lambda>r. length (xss ! r)) [0..<?W])"
      using D by (intro sum_list_mono) auto
    also have "map (\<lambda>r. length (xss ! r)) [0..<?W] = map length xss" by (rule nth_equalityI) auto
    finally show ?thesis by (simp add: length_concat comp_def)
  qed
  with tot have "ranks_ok out s ?ds"
    using D ranks srt samples by (auto simp: ranks_ok_def simp del: map_map)
  then show ?thesis
    by (rule that) (use samples ranks D in \<open>auto simp: rd_dir_def\<close>)
qed

text \<open>Writing the summary after a successful close makes the rank's output complete.\<close>

lemma stored_frame:
  assumes "stored w s xs"
    and "\<And>q. q \<noteq> rank_dir w @ [''summary.json''] \<Longrightarrow> q \<noteq> rank_dir w @ [''summary.json'' @ ''.tmp''] \<Longrightarrow> fs_get s' q = fs_get s q"
  shows "stored w s' xs"
proof -
  have "rank_files (rank_dir w) s' c r xs = rank_files (rank_dir w) s c r xs" for c r
    by (simp add: rank_files_def assms(2) local_shard_name_def)
  with assms(1) show ?thesis by (simp add: stored_def)
qed

lemma atomic_json_dump_ok:
  assumes "p = dir @ [n]"
  obtains s' where "atomic_json_dump doc p s = Inr s'"
    "\<And>q. fs_get s' q = (if q = p then Some doc else if q = dir @ [n @ ''.tmp''] then None else fs_get s q)"
proof -
  obtain s' where s': "atomic_json_dump doc p s = Inr s'"
    by (auto simp: atomic_json_dump_def fs_replace_def Let_def)
  have "dir @ [n @ ''.tmp''] \<noteq> p" using assms by simp
  then have "fs_get s' q = (if q = p then Some doc else if q = dir @ [n @ ''.tmp''] then None else fs_get s q)" for q
    using s' fs_replace_get [of "dir @ [n @ ''.tmp'']" p "fs_put (dir @ [n @ ''.tmp'']) doc s" s' q] assms
    by (auto simp: atomic_json_dump_def Let_def)
  with s' show ?thesis by (rule that)
qed

lemma write_summary_rank_output:
  assumes st: "stored w s (numbered xs)" and dir: "rank_dir w = rank_path out r" and world: "world > 0"
  obtains s' where "write_summary out n world r w s = Inr s'" "rank_output out s' n world r xs"
proof -
  let ?x = "local_summary r (range_start n world r) (range_start n world (Suc r)) w"
  obtain s' where s': "atomic_json_dump (SummaryDoc ?x) (rank_path out r @ [''summary.json'']) s = Inr s'"
    "\<And>q. fs_get s' q = (if q = rank_path out r @ [''summary.json''] then Some (SummaryDoc ?x)
       else if q = rank_path out r @ [''summary.json'' @ ''.tmp''] then None else fs_get s q)"
    by (rule atomic_json_dump_ok [OF refl]) blast
  have "stored w s' (numbered xs)"
    using st by (rule stored_frame) (simp add: s'(2) dir)
  then have "rank_output out s' n world r xs"
    unfolding rank_output_def using dir s'(2) by (auto simp: compute_range_eq [OF world] intro!: exI [of _ w])
  with s'(1) show ?thesis using that by (simp add: write_summary_def compute_range_eq [OF world])
qed

section \<open>Stages\<close>

lemma load_summary_ok:
  "fs_get s (dir @ [''summary.json'']) = Some (SummaryDoc x) \<Longrightarrow> load_local_cache_write_summary dir s = Inr x"
  by (simp add: load_local_cache_write_summary_def)

lemma move_all_frame:
  "move_all ms s = Inr s' \<Longrightarrow> q \<notin> set (map fst ms) \<union> set (map snd ms) \<Longrightarrow> fs_get s' q = fs_get s q"
proof (induction ms arbitrary: s)
  case (Cons m ms)
  then obtain s1 where s1: "fs_replace (fst m) (snd m) s = Inr s1" "move_all ms s1 = Inr s'"
    by (auto simp: move_all_def res_simps split: prod.splits)
  have "fs_get s1 q = fs_get s q"
    using s1(1) Cons.prems(2)
    by (auto simp: fs_replace_def fs_get_def fs_put_def update_conv' delete_conv' split: option.splits)
  with Cons s1(2) show ?case by simp
qed (simp add: move_all_def)

lemma summary_not_moved:
  "rd_dir out e @ [''summary.json''] \<notin> set (map fst (rank_moves out off d)) \<union> set (map snd (rank_moves out off d))"
  by (auto simp: rank_moves_def rd_dir_def local_shard_name_def)

lemma rename_stage_all:
  assumes "map_ok smap off ds"
    and "\<forall>d \<in> set ds. sum_local_shard_files (rd_summary d) = map local_shard_name [0..<length (rd_contents d)]"
    and "\<forall>d \<in> set ds. fs_get s (rd_dir out d @ [''summary.json'']) = Some (SummaryDoc (rd_summary d))"
  shows "foldE (\<lambda>s d. bindE (load_local_cache_write_summary (rd_dir out d) s) (\<lambda>x.
            rename_local_target_cache_shards out (rd_dir out d) x smap s)) s ds
       = rename_all out smap (map rd_summary ds) s"
  using assms
proof (induction ds arbitrary: off s)
  case (Cons d ds)
  have mv: "rename_local_target_cache_shards out (rd_dir out d) (rd_summary d) smap s = move_all (rank_moves out off d) s"
    using Cons.prems by (intro rename_rank) auto
  have ld: "load_local_cache_write_summary (rd_dir out d) s = Inr (rd_summary d)"
    using Cons.prems(3) by (intro load_summary_ok) simp
  show ?case
  proof (cases "move_all (rank_moves out off d) s")
    case (Inl e)
    then show ?thesis using mv ld by (simp add: rename_all_def rd_dir_def)
  next
    case (Inr s1)
    have "\<forall>e \<in> set ds. fs_get s1 (rd_dir out e @ [''summary.json'']) = Some (SummaryDoc (rd_summary e))"
      using move_all_frame [OF Inr summary_not_moved] Cons.prems(3) by simp
    then have "foldE (\<lambda>s d. bindE (load_local_cache_write_summary (rd_dir out d) s) (\<lambda>x.
            rename_local_target_cache_shards out (rd_dir out d) x smap s)) s1 ds
       = rename_all out smap (map rd_summary ds) s1"
      using Cons by auto
    then show ?thesis using Inr mv ld by (simp add: rename_all_def rd_dir_def)
  qed
qed (simp add: rename_all_def)

lemma map_of_filter_key: "map_of (filter (\<lambda>(p, c). P p) al) q = (if P q then map_of al q else None)"
  by (induction al) auto

lemma cleanup_get: "fs_get (cleanup_target_cache_tmp_dir out s) (out @ [n]) = fs_get s (out @ [n])"
proof -
  have "\<not> below (out @ [''_tmp'']) (out @ [n])" by (simp add: below_def)
  then show ?thesis
    by (simp add: cleanup_target_cache_tmp_dir_def fs_get_def map_of_filter_key [of "\<lambda>p. \<not> below (out @ [''_tmp'']) p"] Let_def)
qed

lemma finalize_keeps:
  assumes "finalize_target_cache_index out xs smap s = Inr (n, s')"
    and "q \<noteq> out @ [''samples.idx'']" "q \<noteq> out @ [''samples.idx.tmp'']"
  shows "fs_get s' q = fs_get s q"
  using assms
  by (auto simp: finalize_target_cache_index_def Let_def res_simps fs_replace_def fs_get_def fs_put_def
      update_conv' delete_conv' split: option.splits)

lemma rename_all_keeps_summaries:
  assumes "rename_all out smap (map rd_summary ds) s = Inr s'" and "map_ok smap off ds"
    and "\<forall>d \<in> set ds. sum_local_shard_files (rd_summary d) = map local_shard_name [0..<length (rd_contents d)]"
  shows "fs_get s' (rd_dir out e @ [''summary.json'']) = fs_get s (rd_dir out e @ [''summary.json''])"
proof -
  have "move_all (all_moves out off ds) s = Inr s'"
    using assms rename_all_moves [OF assms(2,3)] by simp
  moreover have "rd_dir out e @ [''summary.json''] \<notin> set (map fst (all_moves out off ds)) \<union> set (map snd (all_moves out off ds))"
    unfolding all_moves_fst all_moves_snd by (auto simp: rd_dir_def local_shard_name_def)
  ultimately show ?thesis by (rule move_all_frame)
qed

lemma mapE_ranks:
  assumes "map (global_rank \<circ> rd_summary) ds = [0..<w]"
    and "\<And>d. d \<in> set ds \<Longrightarrow> f (global_rank (rd_summary d)) = Inr (g d)"
  shows "mapE f [0..<w] = Inr (map g ds)"
proof -
  have "mapE (\<lambda>d. f (global_rank (rd_summary d))) ds = Inr (map g ds)"
    by (rule mapE_all) (rule assms(2))
  then show ?thesis unfolding assms(1) [symmetric] mapE_map by simp
qed

text \<open>The whole finish stage on ranks that left complete output.\<close>

lemma prepare_finish_ok:
  assumes out: "\<And>r. r < length xss \<Longrightarrow> rank_output out s n (length xss) r (xss ! r)"
    and tot: "length (concat xss) < 2 ^ 32"
  obtains s' contents recs where
    "prepare_finish out (length xss) layers hidden extra s = Inr (length (concat xss), s')"
    "cache_files out s' contents recs (numbered (concat xss))"
    "fs_get s' (out @ [''manifest.json'']) = Some (ManifestDoc (build_target_cache_manifest (length (concat xss))
        (map global_entry [0..<length contents]) layers hidden (Some extra)))"
proof -
  let ?W = "length xss"
  obtain ds where ds: "ranks_ok out s ds" "map rd_samples ds = xss" "map (global_rank \<circ> rd_summary) ds = [0..<?W]"
    "\<forall>d \<in> set ds. sum_num_local_samples (rd_summary d) = length (rd_samples d)"
    "\<forall>d \<in> set ds. fs_get s (rd_dir out d @ [''summary.json'']) = Some (SummaryDoc (rd_summary d))"
    by (rule ranks_data [OF out tot])
  let ?C = "concat (map rd_contents ds)"
  have files: "\<forall>d \<in> set ds. sum_local_shard_files (rd_summary d) = map local_shard_name [0..<length (rd_contents d)]"
    using ds(1) by (simp add: ranks_ok_def rank_ready_def)
  obtain smap where m: "build_global_target_cache_shard_map (map rd_summary ds) = (smap, map global_entry [0..<length ?C])"
    "map_ok smap 0 ds"
    by (rule shard_map_ok [OF ds(1)])
  obtain smap' s1 s2 where mm: "build_global_target_cache_shard_map (map rd_summary ds) = (smap', map global_entry [0..<length ?C])"
    "rename_all out smap' (map rd_summary ds) s = Inr s1"
    "finalize_target_cache_index out (map rd_summary ds) smap' s1 = Inr (length (concat (map rd_samples ds)), s2)"
    "cache_files out s2 ?C (merged_recs 0 0 ds) (numbered (concat (map rd_samples ds)))"
    by (rule merge_all_ok [OF ds(1)])
  have sm: "smap' = smap" using m(1) mm(1) by simp
  have ld: "mapE (\<lambda>r. load_local_cache_write_summary (rank_path out r) s) [0..<?W] = Inr (map rd_summary ds)"
    by (rule mapE_ranks [OF ds(3)]) (use ds(5) in \<open>auto simp: rd_dir_def intro!: load_summary_ok\<close>)
  have "rename_stage out ?W smap s = foldE (\<lambda>s d. bindE (load_local_cache_write_summary (rd_dir out d) s) (\<lambda>x.
            rename_local_target_cache_shards out (rd_dir out d) x smap s)) s ds"
    unfolding rename_stage_def ds(3) [symmetric] foldE_map rd_dir_def by simp
  then have rn: "rename_stage out ?W smap s = Inr s1"
    using rename_stage_all [OF m(2) files ds(5)] mm(2) sm by simp
  have "fs_get s2 (rd_dir out d @ [''summary.json'']) = Some (SummaryDoc (rd_summary d))" if "d \<in> set ds" for d
    using finalize_keeps [OF mm(3), of "rd_dir out d @ [''summary.json'']"]
      rename_all_keeps_summaries [OF mm(2) [unfolded sm] m(2) files, of d] ds(5) that
    by (simp add: rd_dir_def)
  then have cnt: "mapE (\<lambda>r. bindE (load_local_cache_write_summary (rank_path out r) s2)
                        (\<lambda>x. Inr (sum_num_local_samples x))) [0..<?W] = Inr (map (\<lambda>d. length (rd_samples d)) ds)"
    by (intro mapE_ranks [OF ds(3)]) (use ds(4) in \<open>simp add: rd_dir_def load_summary_ok\<close>)
  have sum: "sum_list (map (\<lambda>d. length (rd_samples d)) ds) = length (concat xss)"
    using ds(2) by (metis (no_types, lifting) comp_apply length_concat list.map_cong0 list.map_comp)
  define M where "M = build_target_cache_manifest (length (concat xss)) (map global_entry [0..<length ?C]) layers hidden (Some extra)"
  obtain s3 where s3: "atomic_json_dump (ManifestDoc M) (out @ [''manifest.json'']) s2 = Inr s3"
    "\<And>q. fs_get s3 q = (if q = out @ [''manifest.json''] then Some (ManifestDoc M)
                        else if q = out @ [''manifest.json'' @ ''.tmp''] then None else fs_get s2 q)"
    by (rule atomic_json_dump_ok [OF refl]) blast
  have wm: "write_manifest out ?W layers hidden (map global_entry [0..<length ?C]) extra s2 = Inr s3"
    unfolding write_manifest_def cnt using s3(1) sum by (simp add: write_target_cache_manifest_def M_def)
  let ?s' = "cleanup_target_cache_tmp_dir out s3"
  have "prepare_finish out ?W layers hidden extra s = Inr (length (concat xss), ?s')"
    unfolding prepare_finish_def ld using m(1) rn mm(3) sm wm ds(2) by simp
  moreover have "cache_files out ?s' ?C (merged_recs 0 0 ds) (numbered (concat xss))"
    using mm(4) ds(2) by (simp add: cache_files_def cleanup_get s3(2))
  moreover have "fs_get ?s' (out @ [''manifest.json'']) = Some (ManifestDoc M)"
    by (simp add: cleanup_get s3(2))
  ultimately show ?thesis using that unfolding M_def by blast
qed

text \<open>
  (C12) Round trip through the target cache. If every rank left the samples it was given and
  its summary (what closing its asynchronous writer guarantees), then the finish stage
  succeeds and reports the total number of samples, the cache opens and validates, and any
  sequence of reads, in any order and with any positive number of open shards, returns at
  position \<open>k\<close> exactly the \<open>k\<close>-th sample in rank order; never more than
  \<open>max_open_shards\<close> shards stay open.
\<close>

theorem target_cache_roundtrip:
  assumes "\<And>r. r < length xss \<Longrightarrow> rank_output out s n (length xss) r (xss ! r)"
    and "length (concat xss) < 2 ^ 32"
    and "hidden > 0" and "layers \<noteq> []" and "sorted layers" and "max_open > 0"
    and "\<forall>x \<in> set (concat xss). sample_ok hidden (length layers) x"
    and "\<forall>k \<in> set ks. k < length (concat xss)"
  shows "\<exists>s' d d'. prepare_finish out (length xss) layers hidden extra s = Inr (length (concat xss), s')
    \<and> dataset_init out max_open s' = Inr d
    \<and> getitems s' (map int ks) d = Inr (map (\<lambda>k. item_of (concat xss ! k)) ks, d')
    \<and> length (cd_shard_mmaps d') \<le> max_open"
proof -
  obtain s' contents recs where f: "prepare_finish out (length xss) layers hidden extra s = Inr (length (concat xss), s')"
    "cache_files out s' contents recs (numbered (concat xss))"
    "fs_get s' (out @ [''manifest.json'']) = Some (ManifestDoc (build_target_cache_manifest (length (concat xss))
        (map global_entry [0..<length contents]) layers hidden (Some extra)))"
    by (rule prepare_finish_ok [OF assms(1,2)])
  obtain d where d: "dataset_init out max_open s' = Inr d" "lru_ok s' d" "dataset_over out s' contents recs (concat xss) d"
    "cd_max_open_shards d = max_open"
    by (rule dataset_init_ok [OF f(2,3) assms(3-7)])
  obtain d' where "getitems s' (map int ks) d = Inr (map (\<lambda>k. item_of (concat xss ! k)) ks, d')"
    "lru_ok s' d'" "same_static d d'"
    using getitems_ok [OF d(3,2) assms(8)] by blast
  with f(1) d(1,4) show ?thesis by (auto simp: lru_ok_def same_static_def)
qed

section \<open>A concrete cache\<close>

lemma nat_str_0: "nat_str 0 = ''0''"
  by code_simp

definition demo_extra :: extra_fields where
  "demo_extra = \<lparr> ef_target_model_name_or_path = ''m'', ef_source_jsonl_paths = [], ef_chat_template = ''t'',
     ef_max_length = 8, ef_min_loss_tokens = 1, ef_project_name = None, ef_exp_name = None, ef_git_sha = ''0'' \<rparr>"

lemma demo_rank_output:
  obtains s where "rank_output [''c''] s 1 1 0 [demo_sample]"
proof -
  have st: "stored (aw_writer demo_end) (aw_fs demo_end) (numbered [demo_sample])"
    and dir: "rank_dir (aw_writer demo_end) = rank_path [''c''] 0"
    using async_close_stored [OF demo_run [unfolded demo_start_def] demo_closed(1,2)] demo_closed(3)
    by (simp_all add: rank_path_def nat_str_0)
  show ?thesis
    by (rule write_summary_rank_output [OF st dir, of 1 1]) (use that in simp_all)
qed

theorem target_cache_roundtrip_witness:
  "\<exists>s s' d d'. rank_output [''c''] s 1 1 0 [demo_sample]
    \<and> prepare_finish [''c''] 1 [0] 1 demo_extra s = Inr (1, s')
    \<and> dataset_init [''c''] 4 s' = Inr d
    \<and> getitems s' [0, 0] d = Inr ([item_of demo_sample, item_of demo_sample], d')"
proof -
  obtain s where s: "rank_output [''c''] s 1 1 0 [demo_sample]" by (rule demo_rank_output)
  have ok: "sample_ok 1 1 demo_sample" by (simp add: sample_ok_def demo_sample_def Let_def)
  have "\<exists>s' d d'. prepare_finish [''c''] (length [[demo_sample]]) [0] 1 demo_extra s
         = Inr (length (concat [[demo_sample]]), s')
    \<and> dataset_init [''c''] 4 s' = Inr d
    \<and> getitems s' (map int [0, 0]) d = Inr (map (\<lambda>k. item_of (concat [[demo_sample]] ! k)) [0, 0], d')
    \<and> length (cd_shard_mmaps d') \<le> 4"
    by (rule target_cache_roundtrip [where n = 1]) (use s ok in simp_all)
  with s show ?thesis by auto
qed

end
