(* ===== verification/Sampling.thy ===== *)
theory Sampling
  imports Prelude Complex_Main
begin

text \<open>
  The sampling primitives of \<^verbatim>\<open>DeepSpec/deepspec/utils/sampling.py\<close>.
  Probabilities and logits are exact rationals (rounding of the float types is not
  modelled). A tensor of shape \<open>(1, S, V)\<close> is the list of its \<open>S\<close> rows. The
  softmax, the multinomial sampler and the uniform generator are external and appear as
  arguments; the generator state is threaded explicitly.
\<close>

type_synonym token = nat

section \<open>Tensor primitives\<close>

text \<open>\<open>torch.argmax\<close>: the first index of a maximal entry.\<close>

definition argmax :: "'a::linorder list \<Rightarrow> nat" where
  "argmax xs = length (takeWhile (\<lambda>x. x \<noteq> Max (set xs)) xs)"

text \<open>\<open>nonzero(as_tuple=True)[0]\<close> of a boolean vector: the positions that hold.\<close>

definition nonzero :: "bool list \<Rightarrow> nat list" where
  "nonzero bs = filter (\<lambda>i. bs ! i) [0..<length bs]"

text \<open>\<open>torch.isin\<close> of a row against a list of ids.\<close>

definition isin :: "token list \<Rightarrow> token list \<Rightarrow> bool list" where
  "isin xs stops = map (\<lambda>t. t \<in> set stops) xs"

text \<open>\<open>cumprod\<close> of an integer mask.\<close>

fun cumprod :: "nat list \<Rightarrow> nat list" where
  "cumprod [] = []"
| "cumprod (x # xs) = x # map (\<lambda>y. x * y) (cumprod xs)"

section \<open>The module's functions\<close>

definition logits_to_probs :: "(rat list \<Rightarrow> rat list) \<Rightarrow> rat list \<Rightarrow> rat \<Rightarrow> rat list" where
  "logits_to_probs softmax logits temperature =
     (if temperature < 1 / 100000
      then (replicate (length logits) 0)[argmax logits := 1]
      else softmax (map (\<lambda>x. x / temperature) logits))"

fun sample_from_probs ::
  "(rat list \<Rightarrow> 'r \<Rightarrow> nat \<times> 'r) \<Rightarrow> rat list list \<Rightarrow> 'r \<Rightarrow> token list \<times> 'r" where
  "sample_from_probs multinomial [] r = ([], r)"
| "sample_from_probs multinomial (p # ps) r =
     (let (t, r1) = multinomial p r; (ts, r2) = sample_from_probs multinomial ps r1
      in (t # ts, r2))"

definition sample_tokens ::
  "(rat list \<Rightarrow> rat list) \<Rightarrow> (rat list \<Rightarrow> 'r \<Rightarrow> nat \<times> 'r) \<Rightarrow> rat list list \<Rightarrow> rat \<Rightarrow> 'r
   \<Rightarrow> token list \<times> 'r" where
  "sample_tokens softmax multinomial logits temperature r =
     (if temperature < 1 / 100000 then (map argmax logits, r)
      else sample_from_probs multinomial
             (map (\<lambda>row. softmax (map (\<lambda>x. x / temperature) row)) logits) r)"

definition gather_token_probs :: "rat list list \<Rightarrow> token list \<Rightarrow> rat list res" where
  "gather_token_probs probs token_ids =
     (if length token_ids > length probs then Inl RuntimeError
      else mapE (\<lambda>(row, t). if t < length row then Inr (row ! t) else Inl RuntimeError)
             (zip probs token_ids))"

definition residual_probs :: "rat list \<Rightarrow> rat list \<Rightarrow> rat list" where
  "residual_probs target_probs draft_probs =
     (let residual = map2 (\<lambda>p q. max (p - q) 0) target_probs draft_probs;
          residual_mass = sum_list residual;
          residual' = (if residual_mass \<le> 1 / 100000000 then target_probs else residual);
          residual_mass' = sum_list residual'
      in map (\<lambda>x. x / max residual_mass' (1 / 100000000)) residual')"

definition sample_residual ::
  "(rat list \<Rightarrow> 'r \<Rightarrow> nat \<times> 'r) \<Rightarrow> rat list \<Rightarrow> rat list \<Rightarrow> 'r \<Rightarrow> token \<times> 'r" where
  "sample_residual multinomial target_probs draft_probs r =
     (let (ts, r') = sample_from_probs multinomial [residual_probs target_probs draft_probs] r
      in (hd ts, r'))"

section \<open>Documented behaviour of the external samplers\<close>

text \<open>
  \<open>torch.multinomial\<close> returns an index of positive weight whenever the weights are
  non-negative and not all zero; \<open>torch.rand_like\<close> draws from the half-open unit
  interval; a softmax keeps the length and returns a probability vector.
\<close>

definition draws_support :: "(rat list \<Rightarrow> 'r \<Rightarrow> nat \<times> 'r) \<Rightarrow> bool" where
  "draws_support multinomial \<longleftrightarrow>
     (\<forall>w r. (\<forall>x \<in> set w. 0 \<le> x) \<and> (\<exists>x \<in> set w. 0 < x) \<longrightarrow>
        fst (multinomial w r) < length w \<and> 0 < w ! fst (multinomial w r))"

definition draws_unit :: "(nat \<Rightarrow> 'r \<Rightarrow> rat list \<times> 'r) \<Rightarrow> bool" where
  "draws_unit rand_like \<longleftrightarrow>
     (\<forall>n r. length (fst (rand_like n r)) = n
        \<and> (\<forall>u \<in> set (fst (rand_like n r)). 0 \<le> u \<and> u < 1))"

definition prob_vector :: "rat list \<Rightarrow> bool" where
  "prob_vector p \<longleftrightarrow> (\<forall>x \<in> set p. 0 \<le> x) \<and> sum_list p = 1"

section \<open>Lemmas on the primitives\<close>

lemma Max_set_attained: "xs \<noteq> [] \<Longrightarrow> \<exists>x \<in> set xs. x = Max (set xs)"
  by (metis List.finite_set Max_in set_empty)

lemma argmax_less: "xs \<noteq> [] \<Longrightarrow> argmax xs < length xs"
  using Max_set_attained [of xs] unfolding argmax_def
  by (metis (mono_tags, lifting) length_takeWhile_le nat_less_le takeWhile_eq_all_conv takeWhile_eq_take take_all_iff)

lemma argmax_max: "xs \<noteq> [] \<Longrightarrow> xs ! argmax xs = Max (set xs)"
  by (metis (mono_tags, lifting) argmax_def argmax_less nth_length_takeWhile)

lemma argmax_ge:
  assumes "i < length xs"
  shows "xs ! i \<le> xs ! argmax xs"
proof -
  have "xs \<noteq> []" using assms by auto
  then show ?thesis using assms by (simp add: argmax_max)
qed

lemma nonzero_Nil_iff: "nonzero bs = [] \<longleftrightarrow> True \<notin> set bs"
  by (auto simp: nonzero_def filter_empty_conv in_set_conv_nth)

lemma nonzero_Cons_iff:
  "nonzero bs = i # is \<Longrightarrow> i = length (takeWhile Not bs) \<and> i < length bs \<and> bs ! i"
proof -
  assume a: "nonzero bs = i # is"
  then have "i \<in> set (filter (\<lambda>i. bs ! i) [0..<length bs])"
    by (simp add: nonzero_def)
  then have i: "i < length bs" "bs ! i"
    by auto
  obtain us vs where uv: "[0..<length bs] = us @ i # vs" "\<forall>u \<in> set us. \<not> bs ! u"
    using a unfolding nonzero_def by (metis filter_eq_Cons_iff)
  have us: "us = [0..<i]"
  proof -
    have "length us < length bs" using arg_cong [OF uv(1), of length] by simp
    then have "length us = i"
      using uv(1) by (metis add.left_neutral length_upt minus_nat.diff_0 nth_append_length nth_upt)
    then show ?thesis
      using uv(1) i(1) by (metis append_eq_conv_conj diff_zero length_upt take_upt add_0 less_imp_le)
  qed
  have "takeWhile Not bs = take i bs"
    by (rule takeWhile_eq_take_P_nth) (use uv(2) us i in auto)
  with i show ?thesis by simp
qed

lemma cumprod_length [simp]: "length (cumprod xs) = length xs"
  by (induction xs) auto

lemma mult_one_map [simp]: "map ((*) (Suc 0)) xs = xs"
  by (simp add: map_idI)

lemma sum_list_cumprod:
  "set xs \<subseteq> {0, 1} \<Longrightarrow> sum_list (cumprod xs) = length (takeWhile (\<lambda>x. x = 1) xs)"
proof (induction xs)
  case Nil
  then show ?case by simp
next
  case (Cons x xs)
  then show ?case
    by (cases "x = 1") (auto simp: sum_list_mult_const comp_def)
qed

lemma gather_ok:
  assumes "length ids \<le> length probs"
    and "\<And>i. i < length ids \<Longrightarrow> ids ! i < length (probs ! i)"
  shows "gather_token_probs probs ids = Inr (map (\<lambda>i. probs ! i ! (ids ! i)) [0..<length ids])"
proof -
  let ?f = "\<lambda>(row, t). if t < length row then Inr (row ! t) else Inl RuntimeError :: rat res"
  have "mapE ?f (zip probs ids) = Inr (map (\<lambda>(row, t). row ! t) (zip probs ids))"
    by (rule mapE_all) (use assms in \<open>auto simp: set_zip\<close>)
  moreover have "map (\<lambda>(row, t). row ! t) (zip probs ids) = map (\<lambda>i. probs ! i ! (ids ! i)) [0..<length ids]"
    using assms(1) by (auto intro!: nth_equalityI)
  ultimately show ?thesis
    using assms(1) by (simp add: gather_token_probs_def)
qed

end
