(* ===== verification/Markov_Head.thy ===== *)
theory Markov_Head
  imports Sampling
begin

text \<open>
  The Markov heads of the block drafter
  (\<^verbatim>\<open>DeepSpec/deepspec/modeling/dspark/markov_head.py\<close> and its copy for MySpec):
  a bias on the draft logits computed from the previous token, optionally gated by the
  backbone's hidden state, or carried by a recurrent state across the block. The head is
  used twice: \<open>sample_block_tokens\<close> draws a block token by token at inference, and
  \<open>apply_block_logits\<close> computes the logits of a given block during training.

  Weights, hidden states and logits are exact rationals; batch and block dimensions, on
  which every operation acts pointwise, are left out. The activation functions are a
  parameter. A shape mismatch raises \<open>RuntimeError\<close>.
\<close>

section \<open>Vectors\<close>

type_synonym vec = "rat list"

definition dot :: "vec \<Rightarrow> vec \<Rightarrow> rat" where
  "dot xs ys = sum_list (map2 (*) xs ys)"

text \<open>\<open>nn.Linear\<close> without and with bias.\<close>

definition linear :: "vec list \<Rightarrow> vec \<Rightarrow> vec res" where
  "linear W x = (if \<forall>row \<in> set W. length row = length x then Inr (map (\<lambda>row. dot row x) W) else Inl RuntimeError)"

definition vec_zip :: "(rat \<Rightarrow> rat \<Rightarrow> rat) \<Rightarrow> vec \<Rightarrow> vec \<Rightarrow> vec res" where
  "vec_zip f xs ys = (if length xs = length ys then Inr (map2 f xs ys) else Inl RuntimeError)"

definition linear_bias :: "vec list \<Rightarrow> vec \<Rightarrow> vec \<Rightarrow> vec res" where
  "linear_bias W b x = bindE (linear W x) (\<lambda>y. vec_zip (+) y b)"

lemma vec_zip_length: "vec_zip f xs ys = Inr zs \<Longrightarrow> length zs = length xs"
  by (auto simp: vec_zip_def split: if_splits)

section \<open>The heads\<close>

record activations =
  act_sigmoid :: "rat \<Rightarrow> rat"
  act_tanh :: "rat \<Rightarrow> rat"

datatype head_kind =
    Vanilla
  | Gated "vec list" vec       \<comment> \<open>gate projection: weight and bias\<close>
  | RNN "vec list" vec         \<comment> \<open>joint projection: weight and bias\<close>

record markov_head =
  markov_w1 :: "vec list"      \<comment> \<open>embedding table, one row per token\<close>
  markov_w2 :: "vec list"      \<comment> \<open>projection to the vocabulary\<close>
  markov_rank :: nat
  kind :: head_kind

definition get_prev_embeddings :: "markov_head \<Rightarrow> token \<Rightarrow> vec res" where
  "get_prev_embeddings h t = (if t < length (markov_w1 h) then Inr (markov_w1 h ! t) else Inl IndexError)"

definition project_bias :: "markov_head \<Rightarrow> vec \<Rightarrow> vec res" where
  "project_bias h latent = linear (markov_w2 h) latent"

definition compute_gate :: "activations \<Rightarrow> vec list \<Rightarrow> vec \<Rightarrow> markov_head \<Rightarrow> token \<Rightarrow> vec option \<Rightarrow> vec res" where
  "compute_gate act gw gb h t hidden =
     (case hidden of None \<Rightarrow> Inl AssertionError
      | Some hs \<Rightarrow> bindE (get_prev_embeddings h t) (\<lambda>e.
          bindE (linear_bias gw gb (hs @ e)) (\<lambda>g. Inr (map (act_sigmoid act) g))))"

text \<open>One recurrent step; \<open>chunk(3)\<close> splits the joint projection in three.\<close>

definition rnn_step ::
  "activations \<Rightarrow> vec list \<Rightarrow> vec \<Rightarrow> markov_head \<Rightarrow> vec \<Rightarrow> vec \<Rightarrow> vec \<Rightarrow> (vec \<times> vec) res" where
  "rnn_step act jw jb h state prev_embeddings hidden =
     bindE (linear_bias jw jb (state @ prev_embeddings @ hidden)) (\<lambda>proj.
     let n = (length proj + 2) div 3;
         gate = map (act_sigmoid act) (take n proj);
         candidate = map (act_tanh act) (take n (drop n proj));
         output_raw = drop (2 * n) proj
     in
     bindE (vec_zip (*) gate state) (\<lambda>kept.
     bindE (vec_zip (*) (map (\<lambda>g. 1 - g) gate) candidate) (\<lambda>fresh.
     bindE (vec_zip (+) kept fresh) (\<lambda>new_state.
     bindE (project_bias h (map (act_tanh act) output_raw)) (\<lambda>bias.
     Inr (new_state, bias))))))"

definition compute_step_bias :: "activations \<Rightarrow> markov_head \<Rightarrow> token \<Rightarrow> vec option \<Rightarrow> vec res" where
  "compute_step_bias act h t hidden =
     (case kind h of
        Vanilla \<Rightarrow> bindE (get_prev_embeddings h t) (project_bias h)
      | Gated gw gb \<Rightarrow>
          bindE (get_prev_embeddings h t) (\<lambda>e.
          bindE (compute_gate act gw gb h t hidden) (\<lambda>g.
          bindE (vec_zip (*) g e) (project_bias h)))
      | RNN jw jb \<Rightarrow>
          (case hidden of None \<Rightarrow> Inl AssertionError
           | Some hs \<Rightarrow> bindE (get_prev_embeddings h t) (\<lambda>e.
               bindE (rnn_step act jw jb h (replicate (length e) 0) e hs) (\<lambda>(_, bias). Inr bias))))"

definition apply_step_logits :: "activations \<Rightarrow> markov_head \<Rightarrow> vec \<Rightarrow> token \<Rightarrow> vec option \<Rightarrow> vec res" where
  "apply_step_logits act h logits t hidden = bindE (compute_step_bias act h t hidden) (vec_zip (+) logits)"

text \<open>\<open>hidden_states[:, step_idx]\<close>, with \<open>None\<close> passed through.\<close>

definition hidden_at :: "vec list option \<Rightarrow> nat \<Rightarrow> vec option res" where
  "hidden_at hidden k =
     (case hidden of None \<Rightarrow> Inr None
      | Some hs \<Rightarrow> if k < length hs then Inr (Some (hs ! k)) else Inl IndexError)"

section \<open>Teacher-forced logits\<close>

text \<open>
  The memoryless heads compute every position independently, in one batched operation (the
  broadcasting of singleton dimensions is not modelled); the recurrent head unrolls its
  state over the block.
\<close>

definition apply_block_memoryless ::
  "activations \<Rightarrow> markov_head \<Rightarrow> vec list \<Rightarrow> token list \<Rightarrow> vec list option \<Rightarrow> vec list res" where
  "apply_block_memoryless act h base token_ids hidden =
     mapE (\<lambda>(k, b, t). bindE (hidden_at hidden k) (apply_step_logits act h b t))
       (zip [0..<length base] (zip base token_ids))"

fun apply_block_rnn ::
  "activations \<Rightarrow> vec list \<Rightarrow> vec \<Rightarrow> markov_head \<Rightarrow> vec list option \<Rightarrow> vec \<Rightarrow> nat \<Rightarrow> vec list \<Rightarrow> token list
   \<Rightarrow> vec list res" where
  "apply_block_rnn act jw jb h hidden state k (b # bs) (t # ts) =
     bindE (get_prev_embeddings h t) (\<lambda>e.
     bindE (hidden_at hidden k) (\<lambda>hk.
     case hk of None \<Rightarrow> Inl AssertionError
     | Some hv \<Rightarrow>
         bindE (rnn_step act jw jb h state e hv) (\<lambda>(state', bias).
         bindE (vec_zip (+) b bias) (\<lambda>lg.
         bindE (apply_block_rnn act jw jb h hidden state' (k + 1) bs ts) (\<lambda>lgs. Inr (lg # lgs))))))"
| "apply_block_rnn act jw jb h hidden state k (b # bs) [] = Inl IndexError"
| "apply_block_rnn act jw jb h hidden state k [] ts = Inr []"

definition apply_block_logits ::
  "activations \<Rightarrow> markov_head \<Rightarrow> vec list \<Rightarrow> token list \<Rightarrow> vec list option \<Rightarrow> vec list res" where
  "apply_block_logits act h base token_ids hidden =
     (case kind h of
        RNN jw jb \<Rightarrow>
          bindE (check (hidden \<noteq> None) AssertionError) (\<lambda>_.
          if base = [] then Inr base
          else apply_block_rnn act jw jb h hidden (replicate (markov_rank h) 0) 0 base token_ids)
      | _ \<Rightarrow>
          if base = [] then Inr base
          else bindE (check (length token_ids = length base
                       \<and> (case hidden of None \<Rightarrow> True | Some hs \<Rightarrow> length hs = length base)) RuntimeError) (\<lambda>_.
               apply_block_memoryless act h base token_ids hidden))"

section \<open>Autoregressive sampling of a block\<close>

text \<open>One draw from the corrected logits of a position.\<close>

definition draw_token ::
  "(vec \<Rightarrow> vec) \<Rightarrow> (vec \<Rightarrow> 'r \<Rightarrow> nat \<times> 'r) \<Rightarrow> rat \<Rightarrow> vec \<Rightarrow> 'r \<Rightarrow> token \<times> 'r" where
  "draw_token softmax multinomial temperature logits r =
     (let (ts, r') = sample_tokens softmax multinomial [logits] temperature r in (hd ts, r'))"

fun sample_block_memoryless ::
  "activations \<Rightarrow> (vec \<Rightarrow> vec) \<Rightarrow> (vec \<Rightarrow> 'r \<Rightarrow> nat \<times> 'r) \<Rightarrow> rat \<Rightarrow> markov_head \<Rightarrow> vec list option
   \<Rightarrow> token \<Rightarrow> nat \<Rightarrow> vec list \<Rightarrow> 'r \<Rightarrow> (token list \<times> vec list \<times> 'r) res" where
  "sample_block_memoryless act sm mu T h hidden prev k [] r = Inr ([], [], r)"
| "sample_block_memoryless act sm mu T h hidden prev k (b # bs) r =
     bindE (hidden_at hidden k) (\<lambda>hk.
     bindE (apply_step_logits act h b prev hk) (\<lambda>lg.
     let (t, r1) = draw_token sm mu T lg r in
     bindE (sample_block_memoryless act sm mu T h hidden t (k + 1) bs r1) (\<lambda>(ts, lgs, r2).
     Inr (t # ts, lg # lgs, r2))))"

fun sample_block_rnn ::
  "activations \<Rightarrow> (vec \<Rightarrow> vec) \<Rightarrow> (vec \<Rightarrow> 'r \<Rightarrow> nat \<times> 'r) \<Rightarrow> rat \<Rightarrow> vec list \<Rightarrow> vec \<Rightarrow> markov_head \<Rightarrow> vec list option
   \<Rightarrow> vec \<Rightarrow> token \<Rightarrow> nat \<Rightarrow> vec list \<Rightarrow> 'r \<Rightarrow> (token list \<times> vec list \<times> 'r) res" where
  "sample_block_rnn act sm mu T jw jb h hidden state prev k [] r = Inr ([], [], r)"
| "sample_block_rnn act sm mu T jw jb h hidden state prev k (b # bs) r =
     bindE (get_prev_embeddings h prev) (\<lambda>e.
     bindE (hidden_at hidden k) (\<lambda>hk.
     case hk of None \<Rightarrow> Inl AssertionError
     | Some hv \<Rightarrow>
         bindE (rnn_step act jw jb h state e hv) (\<lambda>(state', bias).
         bindE (vec_zip (+) b bias) (\<lambda>lg.
         let (t, r1) = draw_token sm mu T lg r in
         bindE (sample_block_rnn act sm mu T jw jb h hidden state' t (k + 1) bs r1) (\<lambda>(ts, lgs, r2).
         Inr (t # ts, lg # lgs, r2))))))"

definition sample_block_tokens ::
  "activations \<Rightarrow> (vec \<Rightarrow> vec) \<Rightarrow> (vec \<Rightarrow> 'r \<Rightarrow> nat \<times> 'r) \<Rightarrow> markov_head \<Rightarrow> vec list \<Rightarrow> token \<Rightarrow> vec list option
   \<Rightarrow> rat \<Rightarrow> 'r \<Rightarrow> (token list \<times> vec list \<times> 'r) res" where
  "sample_block_tokens act sm mu h base first_prev hidden T r =
     (case kind h of
        RNN jw jb \<Rightarrow>
          bindE (check (hidden \<noteq> None) AssertionError) (\<lambda>_.
          if base = [] then Inr ([], base, r)
          else sample_block_rnn act sm mu T jw jb h hidden (replicate (markov_rank h) 0) first_prev 0 base r)
      | _ \<Rightarrow>
          if base = [] then Inr ([], base, r)
          else sample_block_memoryless act sm mu T h hidden first_prev 0 base r)"

section \<open>Training and inference agree\<close>

lemma draw_token_eq:
  "draw_token sm mu T lg r = (if T < 1 / 100000 then (argmax lg, r) else mu (sm (map (\<lambda>x. x / T) lg)) r)"
  by (simp add: draw_token_def sample_tokens_def split: prod.splits)

lemma sample_memoryless_forced:
  assumes "sample_block_memoryless act sm mu T h hidden prev k bs r = Inr (ts, lgs, r')"
  shows "length ts = length bs \<and> length lgs = length bs
    \<and> mapE (\<lambda>(k, b, t). bindE (hidden_at hidden k) (apply_step_logits act h b t))
        (zip [k..<k + length bs] (zip bs (prev # ts))) = Inr lgs"
  using assms
proof (induction bs arbitrary: prev k r ts lgs)
  case Nil
  then show ?case by simp
next
  case (Cons b bs)
  obtain hk lg where s1: "hidden_at hidden k = Inr hk" "apply_step_logits act h b prev hk = Inr lg"
    using Cons.prems by (auto simp: res_simps)
  obtain t r1 where dr: "draw_token sm mu T lg r = (t, r1)" by fastforce
  obtain ts' lgs' where s:
    "sample_block_memoryless act sm mu T h hidden t (k + 1) bs r1 = Inr (ts', lgs', r')"
    "ts = t # ts'" "lgs = lg # lgs'"
    using Cons.prems s1 dr by (auto simp: res_simps)
  have "[k..<k + length (b # bs)] = k # [k + 1..<k + 1 + length bs]"
    by (subst upt_conv_Cons) simp_all
  with Cons.IH [OF s(1)] s s1 show ?case by simp
qed

lemma sample_rnn_forced:
  assumes "sample_block_rnn act sm mu T jw jb h hidden state prev k bs r = Inr (ts, lgs, r')"
  shows "length ts = length bs \<and> length lgs = length bs
    \<and> apply_block_rnn act jw jb h hidden state k bs (take (length bs) (prev # ts)) = Inr lgs"
  using assms
proof (induction bs arbitrary: state prev k r ts lgs)
  case Nil
  then show ?case by simp
next
  case (Cons b bs)
  obtain e hv state' bias lg where s1: "get_prev_embeddings h prev = Inr e"
    "hidden_at hidden k = Inr (Some hv)" "rnn_step act jw jb h state e hv = Inr (state', bias)"
    "vec_zip (+) b bias = Inr lg"
    using Cons.prems by (auto simp: res_simps split: option.splits)
  obtain t r1 where dr: "draw_token sm mu T lg r = (t, r1)" by fastforce
  obtain ts' lgs' where s:
    "sample_block_rnn act sm mu T jw jb h hidden state' t (k + 1) bs r1 = Inr (ts', lgs', r')"
    "ts = t # ts'" "lgs = lg # lgs'"
    using Cons.prems s1 dr by (auto simp: res_simps)
  with Cons.IH [OF s(1)] s1 show ?case by simp
qed

lemma zip_take_right: "zip xs (take (length xs) ys) = zip xs ys"
  by (rule nth_equalityI) simp_all

lemma prev_butlast: "length ts = n \<Longrightarrow> 0 < n \<Longrightarrow> prev # butlast ts = take n (prev # ts)"
  by (cases n) (auto simp: butlast_conv_take)

text \<open>
  (C37) Training and inference use the same logits. For each of the three head types, the
  corrected logits that sampling a block returns are exactly the teacher-forced logits
  that training computes for the block shifted right by one (the anchor token followed by
  all sampled tokens but the last); one token and one row per position.
\<close>

theorem block_logits_teacher_forced:
  assumes sampled: "sample_block_tokens act sm mu h base first_prev hidden T r = Inr (ts, lgs, r')"
    and shape: "case hidden of None \<Rightarrow> True | Some hs \<Rightarrow> length hs = length base"
  shows "length ts = length base \<and> length lgs = length base
    \<and> (base \<noteq> [] \<longrightarrow> apply_block_logits act h base (first_prev # butlast ts) hidden = Inr lgs)"
proof (cases "base = []")
  case True
  with sampled show ?thesis by (auto simp: sample_block_tokens_def res_simps split: head_kind.splits)
next
  case False
  show ?thesis
  proof (cases "\<exists>jw jb. kind h = RNN jw jb")
    case True
    then obtain jw jb where k: "kind h = RNN jw jb" by auto
    then have h: "hidden \<noteq> None" and "sample_block_rnn act sm mu T jw jb h hidden (replicate (markov_rank h) 0) first_prev 0 base r = Inr (ts, lgs, r')"
      using sampled False by (auto simp: sample_block_tokens_def res_simps)
    note f = sample_rnn_forced [OF this(2)]
    with prev_butlast [of ts "length base" first_prev] False have "length (first_prev # butlast ts) = length base" by simp
    with f k h shape False prev_butlast [of ts "length base" first_prev] show ?thesis
      by (simp add: apply_block_logits_def)
  next
    case memoryless: False
    then have "sample_block_memoryless act sm mu T h hidden first_prev 0 base r = Inr (ts, lgs, r')"
      using sampled False by (auto simp: sample_block_tokens_def split: head_kind.splits)
    note f = sample_memoryless_forced [OF this]
    have pb: "first_prev # butlast ts = take (length base) (first_prev # ts)"
      using f False by (intro prev_butlast) auto
    have "apply_block_memoryless act h base (first_prev # butlast ts) hidden = Inr lgs"
      using f by (simp only: apply_block_memoryless_def pb zip_take_right) simp
    moreover have "length (first_prev # butlast ts) = length base" using f False by simp
    ultimately show ?thesis
      using f memoryless shape False by (cases "kind h") (auto simp: apply_block_logits_def)
  qed
qed

theorem block_logits_teacher_forced_witness:
  "apply_block_logits \<lparr> act_sigmoid = (\<lambda>x. x), act_tanh = (\<lambda>x. x) \<rparr>
     \<lparr> markov_w1 = [[1], [2]], markov_w2 = [[0], [1]], markov_rank = 1, kind = RNN [[1, 0, 0], [0, 1, 0], [0, 1, 1]] [0, 0, 0] \<rparr>
     [[0, 1], [1, 0], [5, 0]] [0, 1, 1] (Some [[1], [1], [1]]) = Inr [[0, 3], [1, 3], [5, 3]]"
proof -
  let ?act = "\<lparr> act_sigmoid = (\<lambda>x. x), act_tanh = (\<lambda>x. x) \<rparr>"
  let ?h = "\<lparr> markov_w1 = [[1], [2]], markov_w2 = [[0], [1]], markov_rank = 1, kind = RNN [[1, 0, 0], [0, 1, 0], [0, 1, 1]] [0, 0, 0] \<rparr>"
  have "sample_block_tokens ?act (\<lambda>xs. xs) (\<lambda>w r. (argmax w, r)) ?h [[0, 1], [1, 0], [5, 0]] 0 (Some [[1], [1], [1]]) 0 ()
      = Inr ([1, 1, 0], [[0, 3], [1, 3], [5, 3]], ())"
    by code_simp
  from block_logits_teacher_forced [OF this] show ?thesis by simp
qed

end
