(* ===== verification/Speculative_Decoding.thy ===== *)
theory Speculative_Decoding
  imports Sampling
begin

text \<open>
  The speculative-decoding engine of \<^verbatim>\<open>DeepSpec/deepspec/eval/base_evaluator.py\<close>:
  \<open>verify_draft_tokens\<close> checks a block of draft tokens against the target model by
  rejection sampling, and \<open>generate_decoding_sample\<close> runs the propose/verify/commit loop
  over a preallocated output buffer and the target model's key/value cache.

  External code is collected in two records of functions. \<open>runtime\<close> holds the target
  model with its cache, and torch's softmax, generators and uninitialised allocation;
  \<open>drafter\<close> holds the callbacks the loop receives. Both are arguments of the model.
\<close>

section \<open>Data\<close>

record 'h model_output =
  logits :: "rat list list"
  hidden_states :: 'h

record ('c, 'h, 'r) runtime =
  target_model :: "'c \<Rightarrow> token list \<Rightarrow> nat list \<Rightarrow> nat \<Rightarrow> 'h model_output \<times> 'c"
    \<comment> \<open>cache, input ids, position ids, \<open>logits_to_keep\<close> (0 keeps all rows)\<close>
  cache_crop :: "'c \<Rightarrow> nat \<Rightarrow> 'c"
  new_cache :: 'c
  rt_softmax :: "rat list \<Rightarrow> rat list"
  rt_rand_like :: "nat \<Rightarrow> 'r \<Rightarrow> rat list \<times> 'r"
  rt_multinomial :: "rat list \<Rightarrow> 'r \<Rightarrow> nat \<times> 'r"
  torch_empty :: "nat \<Rightarrow> token list"

record draft_proposal =
  draft_token_count :: nat
  verify_input_ids :: "token list"
  draft_probs :: "rat list list option"

record 'h verification_result =
  target_output :: "'h model_output"
  target_probs :: "rat list list"
  accept_prefix_mask :: "nat list option"
  accepted_draft_tokens :: nat
  next_token :: token
  effective_proposal_length :: nat
  terminated_by_stop_token :: bool
  committed_tokens :: "token list option"

record ('h, 'x, 'r, 'p) drafter =
  init_context :: "'h model_output \<Rightarrow> token list \<Rightarrow> nat list \<Rightarrow> nat \<Rightarrow> 'x res"
  propose :: "'x \<Rightarrow> token list \<Rightarrow> nat list \<Rightarrow> nat \<Rightarrow> token list option \<Rightarrow> 'r
              \<Rightarrow> ('p draft_proposal_scheme \<times> 'x \<times> 'r) res"
  update_context :: "'x \<Rightarrow> 'h verification_result \<Rightarrow> 'x res"
  post_verify :: "('p draft_proposal_scheme \<Rightarrow> 'h verification_result \<Rightarrow> 'x \<Rightarrow> 'x res) option"

section \<open>Stop tokens\<close>

definition trim_output_ids :: "token list \<Rightarrow> nat \<Rightarrow> token list option \<Rightarrow> token list" where
  "trim_output_ids output_ids num_input_tokens stop_token_ids =
     (case stop_token_ids of None \<Rightarrow> output_ids
      | Some stops \<Rightarrow>
          (case nonzero (isin (drop num_input_tokens output_ids) stops) of
             [] \<Rightarrow> output_ids
           | i # _ \<Rightarrow> take (num_input_tokens + i + 1) output_ids))"

definition has_stop_token :: "token list \<Rightarrow> token list option \<Rightarrow> bool" where
  "has_stop_token token_ids stop_token_ids =
     (case stop_token_ids of None \<Rightarrow> False | Some stops \<Rightarrow> True \<in> set (isin token_ids stops))"

text \<open>
  \<open>eos_token_id\<close> of a generation config or tokenizer: absent, one id, or a sequence of
  ids. The sequence is deduplicated, keeping first occurrences.
\<close>

datatype eos_id = EosInt token | EosList "token list"

fun dedup_ids :: "token list \<Rightarrow> token list \<Rightarrow> token list" where
  "dedup_ids acc [] = acc"
| "dedup_ids acc (t # ts) = dedup_ids (if t \<in> set acc then acc else acc @ [t]) ts"

definition resolve_stop_token_ids :: "eos_id option \<Rightarrow> eos_id option \<Rightarrow> token list option" where
  "resolve_stop_token_ids generation_config_eos tokenizer_eos =
     (let eos = (case generation_config_eos of None \<Rightarrow> tokenizer_eos | Some e \<Rightarrow> Some e)
      in case eos of None \<Rightarrow> None
         | Some (EosInt t) \<Rightarrow> Some [t]
         | Some (EosList ts) \<Rightarrow> Some (dedup_ids [] ts))"

section \<open>Verification of one draft block\<close>

definition nthE :: "'a list \<Rightarrow> nat \<Rightarrow> 'a res" where
  "nthE xs i = (if i < length xs then Inr (xs ! i) else Inl IndexError)"

text \<open>The rejection test: acceptance probabilities and the cumulative accept mask.\<close>

definition accept_probs :: "rat list \<Rightarrow> rat list \<Rightarrow> rat list" where
  "accept_probs selected_target selected_draft =
     map2 (\<lambda>p q. min (p / max q (1 / 100000000)) 1) selected_target selected_draft"

definition accept_prefix :: "rat list \<Rightarrow> rat list \<Rightarrow> nat list" where
  "accept_prefix us ps = cumprod (map2 (\<lambda>u a. if u < a then 1 else 0) us ps)"

text \<open>
  The part of \<open>verify_draft_tokens\<close> that runs the rejection sampler (empty proposals
  have no mask and accept nothing).
\<close>

definition rejection_sample ::
  "('c, 'h, 'r) runtime \<Rightarrow> 'p draft_proposal_scheme \<Rightarrow> rat list list \<Rightarrow> 'r
   \<Rightarrow> (nat list option \<times> nat \<times> 'r) res" where
  "rejection_sample rt proposal t_probs r =
     (if draft_token_count proposal > 0 then
        (case draft_probs proposal of None \<Rightarrow> Inl AssertionError
         | Some d_probs \<Rightarrow>
             let proposed_tokens = drop 1 (verify_input_ids proposal) in
             bindE (gather_token_probs (butlast t_probs) proposed_tokens) (\<lambda>sel_t.
             bindE (gather_token_probs d_probs proposed_tokens) (\<lambda>sel_d.
             let accept_prob = accept_probs sel_t sel_d;
                 (us, r') = rt_rand_like rt (length accept_prob) r;
                 mask = accept_prefix us accept_prob
             in Inr (Some mask, sum_list mask, r'))))
      else Inr (None, 0, r))"

text \<open>
  Truncation at the first accepted stop token: accepted count, effective proposal length
  and the termination flag.
\<close>

definition truncate_at_stop ::
  "token list option \<Rightarrow> token list \<Rightarrow> nat \<Rightarrow> nat \<Rightarrow> nat \<times> nat \<times> bool" where
  "truncate_at_stop stop_token_ids ids draft_count accepted =
     (case stop_token_ids of None \<Rightarrow> (accepted, draft_count, False)
      | Some stops \<Rightarrow>
          if stops \<noteq> [] \<and> accepted > 0 then
            (case nonzero (isin (py_slice 1 (accepted + 1) ids) stops) of
               [] \<Rightarrow> (accepted, draft_count, False)
             | eos_pos # _ \<Rightarrow> (eos_pos + 1, eos_pos + 1, True))
          else (accepted, draft_count, False))"

definition sample_next_token ::
  "('c, 'h, 'r) runtime \<Rightarrow> 'p draft_proposal_scheme \<Rightarrow> rat list list \<Rightarrow> nat \<Rightarrow> 'r
   \<Rightarrow> (token \<times> 'r) res" where
  "sample_next_token rt proposal t_probs accepted r =
     (if 0 < draft_token_count proposal \<and> accepted < draft_token_count proposal then
        (case draft_probs proposal of None \<Rightarrow> Inl AssertionError
         | Some d_probs \<Rightarrow>
             bindE (nthE t_probs accepted) (\<lambda>tp.
             bindE (nthE d_probs accepted) (\<lambda>dp.
               Inr (sample_residual (rt_multinomial rt) tp dp r))))
      else (case rev t_probs of [] \<Rightarrow> Inl IndexError
            | p # _ \<Rightarrow> Inr (let (ts, r') = sample_from_probs (rt_multinomial rt) [p] r
                            in (hd ts, r'))))"

text \<open>The vocabulary-size test between the draft rows and the target rows.\<close>

definition vocab_mismatch :: "'p draft_proposal_scheme \<Rightarrow> rat list list \<Rightarrow> bool" where
  "vocab_mismatch proposal t_probs \<longleftrightarrow>
     draft_token_count proposal > 0 \<and>
     (case draft_probs proposal of
        Some (dp # _) \<Rightarrow> (case t_probs of tp # _ \<Rightarrow> length dp \<noteq> length tp | [] \<Rightarrow> False)
      | _ \<Rightarrow> False)"

definition verify_draft_tokens ::
  "('c, 'h, 'r) runtime \<Rightarrow> 'p draft_proposal_scheme \<Rightarrow> nat list \<Rightarrow> nat \<Rightarrow> 'c \<Rightarrow> rat \<Rightarrow> nat
   \<Rightarrow> token list option \<Rightarrow> token list option \<Rightarrow> 'r
   \<Rightarrow> ('h verification_result \<times> 'c \<times> 'r) res" where
  "verify_draft_tokens rt proposal position_ids start cache temperature max_proposal_tokens
     current_token_ids stop_token_ids r =
     bindE (check (draft_token_count proposal \<le> max_proposal_tokens) ValueError) (\<lambda>_.
     bindE (check (case current_token_ids of None \<Rightarrow> True
                   | Some cur \<Rightarrow> take 1 (verify_input_ids proposal) = cur) ValueError) (\<lambda>_.
     let draft_count = draft_token_count proposal;
         verify_length = draft_count + 1;
         verify_position_ids = py_slice start (start + verify_length) position_ids;
         (output, cache') = target_model rt cache (verify_input_ids proposal) verify_position_ids 0;
         t_probs = map (\<lambda>row. logits_to_probs (rt_softmax rt) row temperature) (logits output)
     in
     bindE (check (\<not> vocab_mismatch proposal t_probs) ValueError) (\<lambda>_.
     bindE (rejection_sample rt proposal t_probs r) (\<lambda>(mask, accepted0, r1).
     let (accepted, effective, terminated) =
           truncate_at_stop stop_token_ids (verify_input_ids proposal) draft_count accepted0
     in
     bindE (sample_next_token rt proposal t_probs accepted r1) (\<lambda>(nxt, r2).
     Inr (\<lparr> target_output = output, target_probs = t_probs, accept_prefix_mask = mask,
            accepted_draft_tokens = accepted, next_token = nxt,
            effective_proposal_length = effective, terminated_by_stop_token = terminated,
            committed_tokens = Some (py_slice 1 (accepted + 1) (verify_input_ids proposal) @ [nxt]) \<rparr>,
          cache', r2))))))"

section \<open>The decoding loop\<close>

record ('c, 'x, 'r) decode_state =
  ds_start :: nat
  ds_output_ids :: "token list"
  ds_acceptance_lengths :: "nat list"
  ds_proposal_lengths :: "nat list"
  ds_accepted_draft_lengths :: "nat list"
  ds_cache :: 'c
  ds_context :: 'x
  ds_rng :: 'r

record decode_params =
  max_length :: nat
  max_proposal :: nat
  temp :: rat
  stop_ids :: "token list option"
  pos_ids :: "nat list"

record decode_result =
  res_output_ids :: "token list"
  res_num_input_tokens :: nat
  res_num_output_tokens :: nat
  res_acceptance_lengths :: "nat list"
  res_proposal_lengths :: "nat list"
  res_accepted_draft_lengths :: "nat list"
  res_verify_count :: nat

text \<open>One iteration of the \<open>while\<close> body; the flag says whether it executed \<open>break\<close>.\<close>

definition decode_step ::
  "('c, 'h, 'r) runtime \<Rightarrow> ('h, 'x, 'r, 'p) drafter \<Rightarrow> decode_params
   \<Rightarrow> ('c, 'x, 'r) decode_state \<Rightarrow> (bool \<times> ('c, 'x, 'r) decode_state) res" where
  "decode_step rt dr pr s =
     (let start = ds_start s; out = ds_output_ids s in
      bindE (propose dr (ds_context s) out (pos_ids pr) start (stop_ids pr) (ds_rng s)) (\<lambda>(proposal, x1, r1).
      bindE (verify_draft_tokens rt proposal (pos_ids pr) start (ds_cache s) (temp pr)
               (max_proposal pr) (Some (py_slice start (start + 1) out)) (stop_ids pr) r1) (\<lambda>(v, c1, r2).
      bindE (case post_verify dr of None \<Rightarrow> Inr x1 | Some f \<Rightarrow> f proposal v x1) (\<lambda>x2.
      let acc = accepted_draft_tokens v in
      bindE (slice_assign start (start + acc + 1) (take (acc + 1) (verify_input_ids proposal)) out) (\<lambda>out1.
      let s1 = s\<lparr> ds_proposal_lengths := ds_proposal_lengths s @ [effective_proposal_length v],
                  ds_accepted_draft_lengths := ds_accepted_draft_lengths s @ [acc],
                  ds_rng := r2 \<rparr>
      in
      if terminated_by_stop_token v then
        Inr (True, s1\<lparr> ds_output_ids := out1,
                       ds_acceptance_lengths := ds_acceptance_lengths s @ [acc],
                       ds_start := start + acc,
                       ds_cache := cache_crop rt c1 (start + acc),
                       ds_context := x2 \<rparr>)
      else
        bindE (check (start + acc + 1 < length out1) IndexError) (\<lambda>_.
        let out2 = out1[start + acc + 1 := next_token v];
            new_token_ids = py_slice (start + 1) (start + acc + 2) out2
        in bindE (update_context dr x2 v) (\<lambda>x3.
           Inr (has_stop_token new_token_ids (stop_ids pr),
                s1\<lparr> ds_output_ids := out2,
                     ds_acceptance_lengths := ds_acceptance_lengths s @ [acc + 1],
                     ds_start := start + acc + 1,
                     ds_cache := cache_crop rt c1 (start + acc + 1),
                     ds_context := x3 \<rparr>))))))))"

text \<open>Every iteration that does not break advances \<open>start\<close>, so the loop ends.\<close>

lemma decode_step_advances:
  "decode_step rt dr pr s = Inr (False, s') \<Longrightarrow> ds_start s < ds_start s'"
  by (auto simp: decode_step_def Let_def res_simps split: prod.splits if_splits)

function (sequential) decode_loop ::
  "('c, 'h, 'r) runtime \<Rightarrow> ('h, 'x, 'r, 'p) drafter \<Rightarrow> decode_params
   \<Rightarrow> ('c, 'x, 'r) decode_state \<Rightarrow> (('c, 'x, 'r) decode_state) res" where
  "decode_loop rt dr pr s =
     (if ds_start s < max_length pr then
        (case decode_step rt dr pr s of
           Inl e \<Rightarrow> Inl e
         | Inr (brk, s') \<Rightarrow> if brk then Inr s' else decode_loop rt dr pr s')
      else Inr s)"
  by pat_completeness auto
termination
  by (relation "measure (\<lambda>(rt, dr, pr, s). max_length pr - ds_start s)")
     (auto dest!: decode_step_advances)

declare decode_loop.simps [simp del]

definition pack_result :: "nat list \<Rightarrow> nat list \<Rightarrow> nat list \<Rightarrow> token list \<Rightarrow> nat \<Rightarrow> decode_result" where
  "pack_result acceptance_lengths proposal_lengths accepted_draft_lengths out num_input_tokens =
     \<lparr> res_output_ids = out, res_num_input_tokens = num_input_tokens,
       res_num_output_tokens = length out - num_input_tokens,
       res_acceptance_lengths = acceptance_lengths,
       res_proposal_lengths = proposal_lengths,
       res_accepted_draft_lengths = accepted_draft_lengths,
       res_verify_count = length proposal_lengths \<rparr>"

abbreviation pack_state :: "('c, 'x, 'r) decode_state \<Rightarrow> token list \<Rightarrow> nat \<Rightarrow> decode_result" where
  "pack_state s \<equiv> pack_result (ds_acceptance_lengths s) (ds_proposal_lengths s) (ds_accepted_draft_lengths s)"

definition generate_decoding_sample ::
  "('c, 'h, 'r) runtime \<Rightarrow> ('h, 'x, 'r, 'p) drafter \<Rightarrow> token list \<Rightarrow> nat \<Rightarrow> nat \<Rightarrow> rat
   \<Rightarrow> token list option \<Rightarrow> 'r \<Rightarrow> decode_result res" where
  "generate_decoding_sample rt dr input_ids max_new_tokens max_proposal_tokens temperature
     stop_token_ids r =
     bindE (check (max_proposal_tokens \<ge> 1) AssertionError) (\<lambda>_.
     let num_input_tokens = length input_ids;
         max_len = num_input_tokens + max_new_tokens;
         out0 = torch_empty rt (max_len + max_proposal_tokens + 1);
         position_ids = [0..<length out0];
         (output, cache) = target_model rt (new_cache rt) input_ids
                             (py_slice 0 num_input_tokens position_ids) 1;
         (first, r1) = sample_from_probs (rt_multinomial rt)
                         (map (\<lambda>row. logits_to_probs (rt_softmax rt) row temperature) (logits output)) r
     in
     bindE (slice_assign 0 num_input_tokens input_ids out0) (\<lambda>out1.
     bindE (slice_assign num_input_tokens (num_input_tokens + 1) first out1) (\<lambda>out2.
     if has_stop_token (py_slice num_input_tokens (num_input_tokens + 1) out2) stop_token_ids then
       Inr (pack_result [] [] []
              (trim_output_ids (take (num_input_tokens + 1) out2) num_input_tokens stop_token_ids)
              num_input_tokens)
     else
       bindE (init_context dr output out2 position_ids num_input_tokens) (\<lambda>context.
       bindE (decode_loop rt dr
                \<lparr> max_length = max_len, max_proposal = max_proposal_tokens, temp = temperature,
                  stop_ids = stop_token_ids, pos_ids = position_ids \<rparr>
                \<lparr> ds_start = num_input_tokens, ds_output_ids = out2, ds_acceptance_lengths = [],
                  ds_proposal_lengths = [], ds_accepted_draft_lengths = [], ds_cache = cache,
                  ds_context = context, ds_rng = r1 \<rparr>) (\<lambda>s.
       Inr (pack_state s
              (trim_output_ids (take (min (ds_start s + 1) max_len) (ds_output_ids s))
                 num_input_tokens stop_token_ids)
              num_input_tokens))))))"

section \<open>Evaluating one iteration\<close>

text \<open>The buffer after the accepted block has been copied at \<open>k\<close>.\<close>

definition commit_block :: "token list \<Rightarrow> nat \<Rightarrow> nat \<Rightarrow> token list \<Rightarrow> token list" where
  "commit_block out k acc ids = take k out @ take (acc + 1) ids @ drop (k + acc + 1) out"

lemma length_commit_block:
  "acc < length ids \<Longrightarrow> k + acc < length out \<Longrightarrow> length (commit_block out k acc ids) = length out"
  by (simp add: commit_block_def)

lemma take_commit_block:
  "acc < length ids \<Longrightarrow> k + acc < length out \<Longrightarrow>
   take (k + acc + 1) (commit_block out k acc ids) = take k out @ take (acc + 1) ids"
  by (simp add: commit_block_def)

lemma take_commit_block_next:
  "acc < length ids \<Longrightarrow> k + acc + 1 < length out \<Longrightarrow>
   take (k + acc + 2) ((commit_block out k acc ids)[k + acc + 1 := x]) = take k out @ take (acc + 1) ids @ [x]"
  using take_commit_block [of acc ids k out] length_commit_block [of acc ids k out]
    take_Suc_update [of "k + acc + 1" "commit_block out k acc ids" x]
  by simp

lemma new_tokens_commit_block:
  assumes "acc < length ids" and "k + acc + 1 < length out"
  shows "py_slice (k + 1) (k + acc + 2) ((commit_block out k acc ids)[k + acc + 1 := x])
           = py_slice 1 (acc + 1) ids @ [x]"
proof -
  let ?b = "(commit_block out k acc ids)[k + acc + 1 := x]"
  have "py_slice (k + 1) (k + acc + 2) ?b = drop (k + 1) (take (k + acc + 2) ?b)"
    by (simp add: py_slice_def drop_take)
  also have "\<dots> = drop (k + 1) (take k out @ take (acc + 1) ids @ [x])"
    by (simp only: take_commit_block_next [OF assms])
  finally show ?thesis using assms by (simp add: py_slice_def drop_take)
qed

lemma decode_step_eval:
  assumes "propose dr (ds_context s) (ds_output_ids s) (pos_ids pr) (ds_start s) (stop_ids pr) (ds_rng s)
             = Inr (p, x1, r1)"
    and "verify_draft_tokens rt p (pos_ids pr) (ds_start s) (ds_cache s) (temp pr) (max_proposal pr)
           (Some (py_slice (ds_start s) (ds_start s + 1) (ds_output_ids s))) (stop_ids pr) r1
             = Inr (v, c', r2)"
    and "(case post_verify dr of None \<Rightarrow> Inr x1 | Some g \<Rightarrow> g p v x1) = Inr x2"
    and "terminated_by_stop_token v \<or> update_context dr x2 v = Inr x3"
    and acc: "accepted_draft_tokens v < length (verify_input_ids p)"
    and room: "ds_start s + accepted_draft_tokens v + 1 < length (ds_output_ids s)"
  defines "k \<equiv> ds_start s" and "a \<equiv> accepted_draft_tokens v"
  defines "blk \<equiv> commit_block (ds_output_ids s) k a (verify_input_ids p)"
  shows "decode_step rt dr pr s =
    Inr (if terminated_by_stop_token v then
       (True, s\<lparr> ds_start := k + a, ds_output_ids := blk,
          ds_acceptance_lengths := ds_acceptance_lengths s @ [a],
          ds_proposal_lengths := ds_proposal_lengths s @ [effective_proposal_length v],
          ds_accepted_draft_lengths := ds_accepted_draft_lengths s @ [a],
          ds_cache := cache_crop rt c' (k + a), ds_context := x2, ds_rng := r2 \<rparr>)
     else
       (has_stop_token (py_slice 1 (a + 1) (verify_input_ids p) @ [next_token v]) (stop_ids pr),
        s\<lparr> ds_start := k + a + 1, ds_output_ids := blk[k + a + 1 := next_token v],
          ds_acceptance_lengths := ds_acceptance_lengths s @ [a + 1],
          ds_proposal_lengths := ds_proposal_lengths s @ [effective_proposal_length v],
          ds_accepted_draft_lengths := ds_accepted_draft_lengths s @ [a],
          ds_cache := cache_crop rt c' (k + a + 1), ds_context := x3, ds_rng := r2 \<rparr>))"
proof -
  have sl: "slice_assign k (k + a + 1) (take (a + 1) (verify_input_ids p)) (ds_output_ids s) = Inr blk"
    using acc room by (simp add: slice_assign_in_range blk_def commit_block_def k_def a_def)
  have lb: "length blk = length (ds_output_ids s)"
    using acc room by (simp add: blk_def length_commit_block k_def a_def)
  have new: "py_slice (k + 1) (k + a + 2) (blk[k + a + 1 := next_token v])
               = py_slice 1 (a + 1) (verify_input_ids p) @ [next_token v]"
    unfolding blk_def by (rule new_tokens_commit_block) (use acc room in \<open>simp_all add: k_def a_def\<close>)
  show ?thesis
    using assms(1-4) sl lb new room
    by (auto simp add: decode_step_def Let_def k_def [symmetric] a_def [symmetric])
qed

text \<open>
  The entry of \<open>generate_decoding_sample\<close>: prefill, first token, and the two exits.
\<close>

lemma generate_decoding_sample_eval:
  assumes "mp \<ge> 1"
    and "target_model rt (new_cache rt) prompt [0..<length prompt] 1 = (o1, c)"
    and "py_slice 0 (length prompt) [0..<L] = [0..<length prompt]"
    and "sample_from_probs (rt_multinomial rt)
           (map (\<lambda>row. logits_to_probs (rt_softmax rt) row T) (logits o1)) r = ([t], r1)"
    and L: "length (torch_empty rt (length prompt + N + mp + 1)) = L" "L = length prompt + N + mp + 1"
    and "init_context dr o1 (prompt @ t # drop (Suc (length prompt)) (torch_empty rt L)) [0..<L] (length prompt) = Inr x"
  shows "generate_decoding_sample rt dr prompt N mp T stops r =
    (let out = prompt @ t # drop (Suc (length prompt)) (torch_empty rt L);
         s0 = \<lparr> ds_start = length prompt, ds_output_ids = out, ds_acceptance_lengths = [],
                ds_proposal_lengths = [], ds_accepted_draft_lengths = [], ds_cache = c,
                ds_context = x, ds_rng = r1 \<rparr>
     in if has_stop_token [t] stops
        then Inr (pack_result [] [] [] (trim_output_ids (prompt @ [t]) (length prompt) stops) (length prompt))
        else bindE (decode_loop rt dr \<lparr> max_length = length prompt + N, max_proposal = mp, temp = T,
                                        stop_ids = stops, pos_ids = [0..<L] \<rparr> s0)
               (\<lambda>s. Inr (pack_state s (trim_output_ids (take (min (ds_start s + 1) (length prompt + N))
                      (ds_output_ids s)) (length prompt) stops) (length prompt))))"
proof -
  let ?n = "length prompt" and ?out0 = "torch_empty rt (length prompt + N + mp + 1)"
  have s1: "slice_assign 0 ?n prompt ?out0 = Inr (prompt @ drop ?n ?out0)"
    using L by (simp add: slice_assign_def)
  have s2: "slice_assign ?n (?n + 1) [t] (prompt @ drop ?n ?out0) = Inr (prompt @ t # drop (Suc ?n) ?out0)"
    using L by (simp add: slice_assign_def)
  show ?thesis
    using assms s1 s2 by (simp add: generate_decoding_sample_def Let_def py_slice_def)
qed

end
