(* ===== verification/Verification_Step.thy ===== *)
theory Verification_Step
  imports Speculative_Decoding
begin

text \<open>
  Facts about one call of \<open>verify_draft_tokens\<close> on a well-formed proposal: it does not
  raise, its counters are in range, and in greedy mode it accepts exactly the longest
  prefix on which the draft agrees with the target's argmax.
\<close>

section \<open>Well-formed proposals\<close>

definition proposal_ok :: "nat \<Rightarrow> nat \<Rightarrow> token \<Rightarrow> 'p draft_proposal_scheme \<Rightarrow> bool" where
  "proposal_ok V mp cur p \<longleftrightarrow>
     draft_token_count p \<le> mp
   \<and> length (verify_input_ids p) = draft_token_count p + 1
   \<and> take 1 (verify_input_ids p) = [cur]
   \<and> (\<forall>t \<in> set (drop 1 (verify_input_ids p)). t < V)
   \<and> (draft_token_count p > 0 \<longrightarrow>
        (case draft_probs p of None \<Rightarrow> False
         | Some d \<Rightarrow> length d = draft_token_count p
             \<and> (\<forall>row \<in> set d. length row = V \<and> (\<forall>x \<in> set row. 0 \<le> x \<and> x \<le> 1))))"

definition rows_ok :: "nat \<Rightarrow> nat \<Rightarrow> rat list list \<Rightarrow> bool" where
  "rows_ok V n rows \<longleftrightarrow> length rows = n \<and> (\<forall>row \<in> set rows. length row = V)"

lemma rows_okD: "rows_ok V n rows \<Longrightarrow> i < n \<Longrightarrow> length (rows ! i) = V"
  by (simp add: rows_ok_def)

lemma logits_to_probs_length:
  "(\<And>xs. length (softmax xs) = length xs) \<Longrightarrow> length (logits_to_probs softmax xs T) = length xs"
  by (simp add: logits_to_probs_def)

lemma rows_ok_probs:
  assumes "\<And>xs. length (softmax xs) = length xs" and "rows_ok V n rows"
  shows "rows_ok V n (map (\<lambda>row. logits_to_probs softmax row T) rows)"
  using assms by (auto simp: rows_ok_def logits_to_probs_length)

section \<open>Truncation at a stop token\<close>

text \<open>The stop ids as a list: none for \<open>None\<close>.\<close>

fun stop_list :: "token list option \<Rightarrow> token list" where
  "stop_list None = []"
| "stop_list (Some s) = s"

lemma has_stop_token_iff: "has_stop_token xs stops \<longleftrightarrow> set xs \<inter> set (stop_list stops) \<noteq> {}"
  by (cases stops) (auto simp: has_stop_token_def isin_def)

text \<open>What the truncation promises, whatever the stop tokens are.\<close>

lemma truncate_at_stop_bounds:
  assumes "truncate_at_stop stops ids count acc0 = (acc, eff, stopped)" and "acc0 \<le> count"
  shows "acc \<le> acc0 \<and> acc \<le> eff \<and> eff \<le> count \<and> (\<not> stopped \<longrightarrow> acc = acc0 \<and> eff = count)
         \<and> (stopped \<longrightarrow> eff = acc \<and> 0 < acc)"
  using assms
  by (auto simp: truncate_at_stop_def isin_def split: option.splits if_splits list.splits
           dest!: nonzero_Cons_iff)

lemma truncate_no_stop:
  assumes "truncate_at_stop stops ids count acc0 = (acc, eff, False)"
  shows "set (py_slice 1 (acc0 + 1) ids) \<inter> set (stop_list stops) = {}"
  using assms
  by (cases stops)
     (auto simp: truncate_at_stop_def isin_def nonzero_Nil_iff split: if_splits list.splits)

lemma truncate_stop:
  assumes "truncate_at_stop stops ids count acc0 = (acc, eff, True)" and "acc0 < length ids"
  shows "\<exists>s. stops = Some s \<and> 0 < acc \<and> acc \<le> acc0 \<and> ids ! acc \<in> set s
           \<and> (\<forall>i. 0 < i \<and> i < acc \<longrightarrow> ids ! i \<notin> set s)"
proof -
  obtain s where s: "stops = Some s" "s \<noteq> []" "acc0 > 0"
    using assms(1) by (auto simp: truncate_at_stop_def split: option.splits if_splits)
  let ?b = "isin (py_slice 1 (acc0 + 1) ids) s"
  obtain e es where e: "nonzero ?b = e # es" "acc = e + 1"
    using assms(1) s by (auto simp: truncate_at_stop_def split: list.splits)
  have lb: "length ?b = acc0" using assms(2) by (simp add: isin_def)
  have nth: "?b ! i = (ids ! Suc i \<in> set s)" if "i < acc0" for i
    using that assms(2) by (simp add: isin_def nth_py_slice)
  from nonzero_Cons_iff [OF e(1)]
  have w: "e = length (takeWhile Not ?b)" "e < acc0" "?b ! e" using lb by auto
  have "\<not> ?b ! i" if "i < e" for i
    using that w(1) by (metis nth_mem set_takeWhileD takeWhile_nth)
  then have "ids ! i \<notin> set s" if "0 < i" "i < acc" for i
    using that e(2) nth [of "i - 1"] w(2) by (cases i) auto
  moreover have "ids ! acc \<in> set s" using w nth [of e] e(2) by simp
  ultimately show ?thesis using s e(2) w(2) by auto
qed

section \<open>The call does not raise\<close>

lemma accept_prefix_sum:
  assumes "length us = length ps"
  shows "sum_list (accept_prefix us ps) =
         length (takeWhile (\<lambda>i. us ! i < ps ! i) [0..<length ps])"
proof -
  let ?m = "map2 (\<lambda>u a. if u < a then 1 else 0 :: nat) us ps"
  have m: "?m = map (\<lambda>i. if us ! i < ps ! i then 1 else 0) [0..<length ps]"
    using assms by (auto intro!: nth_equalityI)
  have "sum_list (cumprod ?m) = length (takeWhile (\<lambda>x. x = 1) ?m)"
    by (rule sum_list_cumprod) (auto simp: m)
  also have "\<dots> = length (takeWhile (\<lambda>i. us ! i < ps ! i) [0..<length ps])"
    unfolding m takeWhile_map by (simp add: comp_def)
  finally show ?thesis by (simp add: accept_prefix_def)
qed

lemma rejection_sample_ok:
  assumes ok: "proposal_ok V mp cur p" and rows: "rows_ok V (draft_token_count p + 1) tp"
    and unit: "draws_unit (rt_rand_like rt)" and pos: "draft_token_count p > 0"
    and d: "draft_probs p = Some d"
  defines "n \<equiv> draft_token_count p" and "ids \<equiv> verify_input_ids p"
  defines "ap \<equiv> map (\<lambda>i. min (tp ! i ! (ids ! Suc i) / max (d ! i ! (ids ! Suc i)) (1 / 100000000)) 1) [0..<n]"
  shows "rejection_sample rt p tp r =
          (let (us, r') = rt_rand_like rt n r
           in Inr (Some (accept_prefix us ap), sum_list (accept_prefix us ap), r'))"
proof -
  have len: "length (drop 1 ids) = n" "length ids = n + 1" "length d = n"
    and tok: "\<And>i. i < n \<Longrightarrow> ids ! Suc i < V" and drow: "\<And>i. i < n \<Longrightarrow> length (d ! i) = V"
    using ok pos d by (auto simp: proposal_ok_def n_def ids_def all_set_conv_all_nth)
  have trow: "\<And>i. i \<le> n \<Longrightarrow> length (tp ! i) = V" and lt: "length tp = n + 1"
    using rows by (auto simp: rows_ok_def n_def)
  have g1: "gather_token_probs (butlast tp) (drop 1 ids) = Inr (map (\<lambda>i. tp ! i ! (ids ! Suc i)) [0..<n])"
    using gather_ok [of "drop 1 ids" "butlast tp"] len lt tok trow
    by (simp add: nth_butlast)
  have g2: "gather_token_probs d (drop 1 ids) = Inr (map (\<lambda>i. d ! i ! (ids ! Suc i)) [0..<n])"
    using gather_ok [of "drop 1 ids" d] len tok drow by simp
  have ap: "accept_probs (map (\<lambda>i. tp ! i ! (ids ! Suc i)) [0..<n])
              (map (\<lambda>i. d ! i ! (ids ! Suc i)) [0..<n]) = ap"
    by (auto simp: accept_probs_def ap_def intro!: nth_equalityI)
  show ?thesis
    using pos d g1 g2 ap
    by (simp add: rejection_sample_def Let_def n_def [symmetric] ids_def [symmetric] ap_def
        split: prod.splits)
qed

lemma rejection_sample_bound:
  assumes ok: "proposal_ok V mp cur p" and rows: "rows_ok V (draft_token_count p + 1) tp"
    and unit: "draws_unit (rt_rand_like rt)"
  obtains msk acc0 r' where "rejection_sample rt p tp r = Inr (msk, acc0, r')"
    and "acc0 \<le> draft_token_count p"
proof (cases "draft_token_count p > 0")
  case False
  then show ?thesis using that by (simp add: rejection_sample_def)
next
  case True
  then obtain d where d: "draft_probs p = Some d"
    using ok by (auto simp: proposal_ok_def split: option.splits)
  obtain us r' where u: "rt_rand_like rt (draft_token_count p) r = (us, r')" by fastforce
  have lu: "length us = draft_token_count p" using unit u by (metis draws_unit_def fst_conv)
  show ?thesis
    using that rejection_sample_ok [OF ok rows unit True d, of r] u lu
    by (simp add: accept_prefix_sum)
       (metis (no_types, lifting) diff_zero length_takeWhile_le length_upt)
qed

lemma sample_next_token_ok:
  assumes ok: "proposal_ok V mp cur p" and rows: "rows_ok V (draft_token_count p + 1) tp"
    and acc: "acc \<le> draft_token_count p"
  shows "sample_next_token rt p tp acc r =
    Inr (if acc < draft_token_count p
         then sample_residual (rt_multinomial rt) (tp ! acc) (the (draft_probs p) ! acc) r
         else rt_multinomial rt (tp ! acc) r)"
proof (cases "acc < draft_token_count p")
  case True
  then obtain d where "draft_probs p = Some d" "length d = draft_token_count p"
    using ok by (auto simp: proposal_ok_def split: option.splits)
  with True rows show ?thesis
    by (auto simp: sample_next_token_def nthE_def rows_ok_def)
next
  case False
  have l: "length tp = draft_token_count p + 1" using rows by (simp add: rows_ok_def)
  then obtain qs q where q: "tp = qs @ [q]" by (metis add_is_0 list.size(3) one_neq_zero rev_exhaust)
  have "tp ! acc = q" using l acc False q by (simp add: nth_append)
  then show ?thesis
    using False q by (cases "rt_multinomial rt (tp ! acc) r") (simp add: sample_next_token_def)
qed

text \<open>
  One verification of a well-formed proposal: it returns, with the counters of the result
  determined by the rejection sampler and the stop-token truncation.
\<close>

lemma verify_draft_tokens_ok:
  fixes T :: rat
  assumes ok: "proposal_ok V mp cur p"
    and model: "target_model rt c (verify_input_ids p)
                  (py_slice start (start + (draft_token_count p + 1)) pos) 0 = (out, c')"
    and rows: "rows_ok V (draft_token_count p + 1) (logits out)"
    and soft: "\<And>xs. length (rt_softmax rt xs) = length xs"
    and unit: "draws_unit (rt_rand_like rt)"
  defines "tp \<equiv> map (\<lambda>row. logits_to_probs (rt_softmax rt) row T) (logits out)"
  obtains msk acc0 r1 acc eff stopped nxt r2 where
    "rejection_sample rt p tp r = Inr (msk, acc0, r1)"
    "acc0 \<le> draft_token_count p"
    "truncate_at_stop stops (verify_input_ids p) (draft_token_count p) acc0 = (acc, eff, stopped)"
    "acc \<le> acc0"
    "sample_next_token rt p tp acc r1 = Inr (nxt, r2)"
    "verify_draft_tokens rt p pos start c T mp (Some [cur]) stops r =
       Inr (\<lparr> target_output = out, target_probs = tp, accept_prefix_mask = msk,
              accepted_draft_tokens = acc, next_token = nxt, effective_proposal_length = eff,
              terminated_by_stop_token = stopped,
              committed_tokens = Some (py_slice 1 (acc + 1) (verify_input_ids p) @ [nxt]) \<rparr>, c', r2)"
proof -
  have tp: "rows_ok V (draft_token_count p + 1) tp"
    unfolding tp_def by (rule rows_ok_probs [OF soft rows])
  obtain msk acc0 r1 where rs: "rejection_sample rt p tp r = Inr (msk, acc0, r1)"
    "acc0 \<le> draft_token_count p"
    by (rule rejection_sample_bound [OF ok tp unit])
  obtain acc eff stopped where tr:
    "truncate_at_stop stops (verify_input_ids p) (draft_token_count p) acc0 = (acc, eff, stopped)"
    by (metis prod_cases3)
  have acc: "acc \<le> acc0" using truncate_at_stop_bounds [OF tr rs(2)] by simp
  obtain nxt r2 where nx: "sample_next_token rt p tp acc r1 = Inr (nxt, r2)"
    using sample_next_token_ok [OF ok tp] acc rs(2) by (metis (no_types, lifting) le_trans surj_pair)
  have dims: "\<not> vocab_mismatch p tp"
    using ok tp by (auto simp: vocab_mismatch_def proposal_ok_def rows_ok_def split: option.splits list.splits)
  have "verify_draft_tokens rt p pos start c T mp (Some [cur]) stops r =
       Inr (\<lparr> target_output = out, target_probs = tp, accept_prefix_mask = msk,
              accepted_draft_tokens = acc, next_token = nxt, effective_proposal_length = eff,
              terminated_by_stop_token = stopped,
              committed_tokens = Some (py_slice 1 (acc + 1) (verify_input_ids p) @ [nxt]) \<rparr>, c', r2)"
    using ok model rs(1) tr nx dims
    by (simp add: verify_draft_tokens_def proposal_ok_def Let_def tp_def [symmetric])
  then show ?thesis using that rs tr acc nx by blast
qed

text \<open>
  What a verification result promises to the drafter's callbacks; \<open>H n h\<close> says that the
  hidden states \<open>h\<close> cover \<open>n\<close> input positions.
\<close>

definition verified ::
  "(nat \<Rightarrow> 'h \<Rightarrow> bool) \<Rightarrow> 'p draft_proposal_scheme \<Rightarrow> 'h verification_result \<Rightarrow> bool" where
  "verified H p v \<longleftrightarrow> effective_proposal_length v \<le> draft_token_count p
     \<and> accepted_draft_tokens v \<le> effective_proposal_length v
     \<and> committed_tokens v = Some (py_slice 1 (accepted_draft_tokens v + 1) (verify_input_ids p) @ [next_token v])
     \<and> length (verify_input_ids p) = draft_token_count p + 1
     \<and> H (draft_token_count p + 1) (hidden_states (target_output v))
     \<and> (draft_token_count p > 0 \<longrightarrow>
          (\<exists>msk. accept_prefix_mask v = Some msk \<and> length msk = draft_token_count p \<and> set msk \<subseteq> {0, 1}))"

lemma cumprod_01: "set xs \<subseteq> {0, 1} \<Longrightarrow> set (cumprod xs) \<subseteq> {0, 1}"
  by (induction xs) auto

lemma accept_prefix_01: "set (accept_prefix us ps) \<subseteq> {0, 1}"
  unfolding accept_prefix_def by (rule cumprod_01) (auto split: if_splits)

lemma verify_verified:
  fixes T :: rat
  assumes ok: "proposal_ok V mp cur p"
    and model: "target_model rt c (verify_input_ids p)
                  (py_slice start (start + (draft_token_count p + 1)) pos) 0 = (out, c')"
    and rows: "rows_ok V (draft_token_count p + 1) (logits out)"
    and soft: "\<And>xs. length (rt_softmax rt xs) = length xs"
    and unit: "draws_unit (rt_rand_like rt)"
    and hid: "H (draft_token_count p + 1) (hidden_states out)"
    and v: "verify_draft_tokens rt p pos start c T mp (Some [cur]) stops r = Inr (v, c'', r2)"
  shows "verified H p v"
proof -
  define tp where "tp = map (\<lambda>row. logits_to_probs (rt_softmax rt) row T) (logits out)"
  have tp: "rows_ok V (draft_token_count p + 1) tp"
    unfolding tp_def by (rule rows_ok_probs [OF soft rows])
  obtain msk acc0 r1 acc eff stopped nxt r3 where
    rs: "rejection_sample rt p tp r = Inr (msk, acc0, r1)" "acc0 \<le> draft_token_count p"
    and tr: "truncate_at_stop stops (verify_input_ids p) (draft_token_count p) acc0 = (acc, eff, stopped)"
    and "acc \<le> acc0" "sample_next_token rt p tp acc r1 = Inr (nxt, r3)"
    and eqn: "verify_draft_tokens rt p pos start c T mp (Some [cur]) stops r =
       Inr (\<lparr> target_output = out, target_probs = tp, accept_prefix_mask = msk,
              accepted_draft_tokens = acc, next_token = nxt, effective_proposal_length = eff,
              terminated_by_stop_token = stopped,
              committed_tokens = Some (py_slice 1 (acc + 1) (verify_input_ids p) @ [nxt]) \<rparr>, c', r3)"
    unfolding tp_def by (rule verify_draft_tokens_ok [OF ok model rows soft unit, of T r stops])
  have fields: "accept_prefix_mask v = msk" "effective_proposal_length v = eff"
    "accepted_draft_tokens v = acc" "target_output v = out" "next_token v = nxt"
    "committed_tokens v = Some (py_slice 1 (acc + 1) (verify_input_ids p) @ [nxt])"
    using eqn v by auto
  have lids: "length (verify_input_ids p) = draft_token_count p + 1"
    using ok by (simp add: proposal_ok_def)
  have "\<exists>m. msk = Some m \<and> length m = draft_token_count p \<and> set m \<subseteq> {0, 1}" if pos: "draft_token_count p > 0"
  proof -
    obtain d where d: "draft_probs p = Some d"
      using ok pos by (auto simp: proposal_ok_def split: option.splits)
    obtain us r' where u: "rt_rand_like rt (draft_token_count p) r = (us, r')" by fastforce
    have lu: "length us = draft_token_count p" using unit u by (metis draws_unit_def fst_conv)
    show ?thesis
      using rejection_sample_ok [OF ok tp unit pos d, of r] u lu rs(1) accept_prefix_01
      by (auto simp: accept_prefix_def)
  qed
  then show ?thesis
    using truncate_at_stop_bounds [OF tr rs(2)] fields hid lids by (auto simp: verified_def)
qed

section \<open>Greedy mode\<close>

definition one_hot :: "nat \<Rightarrow> nat \<Rightarrow> rat list" where
  "one_hot V a = (replicate V 0)[a := 1]"

lemma greedy_probs: "T < 1 / 100000 \<Longrightarrow> logits_to_probs sm xs T = one_hot (length xs) (argmax xs)"
  by (simp add: logits_to_probs_def one_hot_def)

lemma one_hot_nth: "j < V \<Longrightarrow> one_hot V a ! j = (if j = a then 1 else 0)"
  by (simp add: one_hot_def nth_list_update)

lemma length_one_hot [simp]: "length (one_hot V a) = V"
  by (simp add: one_hot_def)

lemma sum_list_single:
  "a < V \<Longrightarrow> sum_list ((replicate V 0)[a := x]) = (x :: rat)"
proof (induction V arbitrary: a)
  case (Suc V)
  then show ?case by (cases a) (simp_all add: sum_list_replicate)
qed simp

text \<open>The residual of a one-hot target row is that row again, whatever the draft row is.\<close>

lemma residual_one_hot:
  assumes "a < V" and "length q = V" and "\<forall>x \<in> set q. 0 \<le> x \<and> x \<le> 1"
  shows "residual_probs (one_hot V a) q = one_hot V a"
proof -
  have res: "map2 (\<lambda>p q. max (p - q) 0) (one_hot V a) q = (replicate V 0)[a := 1 - q ! a]"
    using assms by (auto intro!: nth_equalityI simp: one_hot_nth nth_list_update)
  have one: "sum_list (one_hot V a) = 1"
    using assms(1) by (simp add: one_hot_def sum_list_single)
  show ?thesis
  proof (cases "1 - q ! a \<le> 1 / 100000000")
    case True
    then show ?thesis
      using assms(1) one by (simp add: residual_probs_def res sum_list_single)
  next
    case False
    then have "map (\<lambda>x. x / (1 - q ! a)) ((replicate V 0)[a := 1 - q ! a]) = one_hot V a"
      using assms(1) by (auto intro!: nth_equalityI simp: one_hot_nth nth_list_update)
    moreover have "max (1 - q ! a) (1 / 100000000) = 1 - q ! a" using False by simp
    ultimately show ?thesis
      unfolding residual_probs_def Let_def res
      by (simp only: sum_list_single [OF assms(1)] if_not_P [OF False])
  qed
qed

lemma draw_one_hot:
  assumes "draws_support m" and "a < V"
  shows "fst (m (one_hot V a) r) = a"
proof -
  have nn: "\<forall>x \<in> set (one_hot V a). 0 \<le> x"
    by (auto simp: in_set_conv_nth one_hot_nth)
  have "one_hot V a ! a \<in> set (one_hot V a)" using assms(2) by simp
  then have pos: "\<exists>x \<in> set (one_hot V a). 0 < x"
    using assms(2) by (metis one_hot_nth zero_less_one)
  have "fst (m (one_hot V a) r) < V \<and> 0 < one_hot V a ! fst (m (one_hot V a) r)"
    using assms(1) nn pos unfolding draws_support_def by (metis length_one_hot)
  then show ?thesis by (metis less_irrefl one_hot_nth)
qed

text \<open>
  In greedy mode the rejection sampler is deterministic: it accepts the longest prefix of
  the draft that repeats the target's argmax.
\<close>

lemma rejection_sample_greedy:
  assumes ok: "proposal_ok V mp cur p" and rows: "rows_ok V (draft_token_count p + 1) rows"
    and V: "V > 0" and T: "T < 1 / 100000" and unit: "draws_unit (rt_rand_like rt)"
    and rs: "rejection_sample rt p (map (\<lambda>row. logits_to_probs sm row T) rows) r = Inr (msk, acc0, r1)"
  shows "acc0 = length (takeWhile (\<lambda>i. verify_input_ids p ! Suc i = argmax (rows ! i))
                           [0..<draft_token_count p])"
proof (cases "draft_token_count p > 0")
  case False
  then show ?thesis using rs by (simp add: rejection_sample_def)
next
  case True
  define n where "n = draft_token_count p"
  define ids where "ids = verify_input_ids p"
  define tp where "tp = map (\<lambda>row. logits_to_probs sm row T) rows"
  obtain d where d: "draft_probs p = Some d" "length d = n"
    and dr: "\<forall>row \<in> set d. length row = V \<and> (\<forall>x \<in> set row. 0 \<le> x \<and> x \<le> 1)"
    using ok True by (auto simp: proposal_ok_def n_def split: option.splits)
  have lrow: "length (rows ! i) = V" if "i < n" for i using rows that by (simp add: rows_ok_def n_def)
  have tpn: "tp ! i = one_hot V (argmax (rows ! i))" if "i < n" for i
    using rows that T lrow [OF that] by (simp add: tp_def rows_ok_def n_def greedy_probs)
  have tp: "rows_ok V (draft_token_count p + 1) tp"
    using rows T by (auto simp: tp_def rows_ok_def greedy_probs)
  have tok: "ids ! Suc i < V" if "i < n" for i
    using ok that by (auto simp: proposal_ok_def n_def ids_def all_set_conv_all_nth)
  define ap where "ap = map (\<lambda>i. min (tp ! i ! (ids ! Suc i) / max (d ! i ! (ids ! Suc i)) (1 / 100000000)) 1) [0..<n]"
  have ap01: "ap ! i = (if ids ! Suc i = argmax (rows ! i) then 1 else 0)" if "i < n" for i
  proof -
    have "d ! i \<in> set d" using that d(2) by simp
    then have "d ! i ! (ids ! Suc i) \<le> 1" using dr tok [OF that] by simp
    then have "1 / max (d ! i ! (ids ! Suc i)) (1 / 100000000) \<ge> 1"
      by (simp add: le_divide_eq less_max_iff_disj)
    then have "min (1 / max (d ! i ! (ids ! Suc i)) (1 / 100000000)) 1 = 1"
      by (rule min.absorb2)
    moreover have "tp ! i ! (ids ! Suc i) = (if ids ! Suc i = argmax (rows ! i) then 1 else 0)"
      using that tok [OF that] by (simp add: tpn one_hot_nth)
    ultimately show ?thesis
      using that by (cases "ids ! Suc i = argmax (rows ! i)") (auto simp: ap_def)
  qed
  obtain us r' where u: "rt_rand_like rt n r = (us, r')" by fastforce
  have us: "length us = n" "\<forall>x \<in> set us. 0 \<le> x \<and> x < 1"
    using unit u by (metis draws_unit_def fst_conv)+
  have "acc0 = sum_list (accept_prefix us ap)"
    using rejection_sample_ok [OF ok tp unit True d(1), of r] rs u
    by (simp add: n_def ids_def ap_def tp_def)
  also have "\<dots> = length (takeWhile (\<lambda>i. us ! i < ap ! i) [0..<n])"
    using us(1) by (simp add: accept_prefix_sum ap_def)
  also have "takeWhile (\<lambda>i. us ! i < ap ! i) [0..<n]
           = takeWhile (\<lambda>i. ids ! Suc i = argmax (rows ! i)) [0..<n]"
    by (rule takeWhile_cong) (use us ap01 in \<open>force simp: not_less\<close>)+
  finally show ?thesis by (simp add: n_def ids_def)
qed

lemma sample_next_token_greedy:
  assumes ok: "proposal_ok V mp cur p" and rows: "rows_ok V (draft_token_count p + 1) rows"
    and V: "V > 0" and T: "T < 1 / 100000" and sup: "draws_support (rt_multinomial rt)"
    and acc: "acc \<le> draft_token_count p"
    and nx: "sample_next_token rt p (map (\<lambda>row. logits_to_probs sm row T) rows) acc r = Inr (nxt, r2)"
  shows "nxt = argmax (rows ! acc)"
proof -
  define tp where "tp = map (\<lambda>row. logits_to_probs sm row T) rows"
  have row: "length (rows ! acc) = V" "acc < length rows"
    using rows acc by (simp_all add: rows_ok_def)
  have a: "argmax (rows ! acc) < V"
    using row V by (metis argmax_less length_greater_0_conv)
  have tpa: "tp ! acc = one_hot V (argmax (rows ! acc))"
    using row T by (simp add: tp_def greedy_probs)
  have tp: "rows_ok V (draft_token_count p + 1) tp"
    using rows T by (auto simp: tp_def rows_ok_def greedy_probs)
  note eq = sample_next_token_ok [OF ok tp acc, of rt r]
  show ?thesis
  proof (cases "acc < draft_token_count p")
    case True
    then obtain d where d: "draft_probs p = Some d" "length d = draft_token_count p"
      and dr: "\<forall>row \<in> set d. length row = V \<and> (\<forall>x \<in> set row. 0 \<le> x \<and> x \<le> 1)"
      using ok by (auto simp: proposal_ok_def split: option.splits)
    have "d ! acc \<in> set d" using True d(2) by simp
    then have "residual_probs (tp ! acc) (d ! acc) = one_hot V (argmax (rows ! acc))"
      using dr a tpa by (simp add: residual_one_hot)
    then show ?thesis
      using eq nx True d(1) draw_one_hot [OF sup a, of r]
      by (cases "rt_multinomial rt (one_hot V (argmax (rows ! acc))) r")
         (auto simp: sample_residual_def tp_def)
  next
    case False
    then have "rt_multinomial rt (one_hot V (argmax (rows ! acc))) r = (nxt, r2)"
      using eq nx tpa by (simp add: tp_def)
    then show ?thesis using draw_one_hot [OF sup a, of r] by simp
  qed
qed

end
