(* ===== verification/Confidence_Metrics.thy ===== *)
theory Confidence_Metrics
  imports Verification_Step
begin

text \<open>
  Calibration statistics of the confidence head
  (\<^verbatim>\<open>DeepSpec/deepspec/eval/dspark/confidence_head.py\<close>, identical for MySpec): per draft
  position, histograms of the predicted prefix-acceptance probability against the observed
  acceptance, from which \<open>compute\<close> derives ECE, AUROC and Brier score. The histograms are
  flat lists, as the code addresses them through \<open>view(-1)\<close>; a NaN is \<open>None\<close>. The
  arithmetic is exact.
\<close>

section \<open>State\<close>

record block_draft_proposal = draft_proposal +
  confidence_logits :: "rat list option"

record confidence_metrics =
  block_size :: nat
  num_coarse_bins :: nat
  num_fine_bins :: nat
  coarse_count :: "rat list"
  coarse_pred :: "rat list"
  coarse_target :: "rat list"
  fine_pos :: "rat list"
  fine_neg :: "rat list"
  brier_num :: "rat list"

definition init_metrics :: "nat \<Rightarrow> nat \<Rightarrow> nat \<Rightarrow> confidence_metrics" where
  "init_metrics bs nc nf =
     \<lparr> block_size = bs, num_coarse_bins = nc, num_fine_bins = nf,
       coarse_count = replicate (bs * nc) 0, coarse_pred = replicate (bs * nc) 0,
       coarse_target = replicate (bs * nc) 0,
       fine_pos = replicate (bs * nf) 0, fine_neg = replicate (bs * nf) 0,
       brier_num = replicate bs 0 \<rparr>"

section \<open>Updating the histograms\<close>

text \<open>\<open>scatter_add_\<close> on a flat view; an index out of range raises.\<close>

fun scatter_add :: "rat list \<Rightarrow> nat list \<Rightarrow> rat list \<Rightarrow> rat list res" where
  "scatter_add xs (i # is) (w # ws) =
     (if i < length xs then scatter_add (xs[i := xs ! i + w]) is ws else Inl RuntimeError)"
| "scatter_add xs is ws = Inr xs"

definition clamp_prob :: "rat \<Rightarrow> rat" where
  "clamp_prob x = min (max x (1 / 100000000)) (1 - 1 / 100000000)"

text \<open>\<open>(p * n).long().clamp_(0, n - 1)\<close>.\<close>

definition bin_index :: "nat \<Rightarrow> rat \<Rightarrow> nat" where
  "bin_index n p = min (nat \<lfloor>p * of_nat n\<rfloor>) (n - 1)"

definition flat_index :: "nat \<Rightarrow> rat list \<Rightarrow> nat list" where
  "flat_index n ps = map2 (\<lambda>i p. i * n + bin_index n p) [0..<length ps] ps"

definition add_prefix :: "rat list \<Rightarrow> rat list \<Rightarrow> rat list" where
  "add_prefix ws xs = map2 (+) ws xs @ drop (length ws) xs"

definition update :: "confidence_metrics \<Rightarrow> rat list \<Rightarrow> rat list \<Rightarrow> confidence_metrics res" where
  "update m probs0 targets =
     (let probs = map clamp_prob probs0 in
      bindE (check (length probs = length targets) AssertionError) (\<lambda>_.
      bindE (check (length probs \<le> block_size m) AssertionError) (\<lambda>_.
      let weights = replicate (length probs) 1;
          flat_coarse = flat_index (num_coarse_bins m) probs;
          flat_fine = flat_index (num_fine_bins m) probs
      in
      bindE (scatter_add (coarse_count m) flat_coarse weights) (\<lambda>cc.
      bindE (scatter_add (coarse_pred m) flat_coarse (map2 (*) probs weights)) (\<lambda>cp.
      bindE (scatter_add (coarse_target m) flat_coarse (map2 (*) targets weights)) (\<lambda>ct.
      bindE (scatter_add (fine_pos m) flat_fine (map2 (*) weights targets)) (\<lambda>fp.
      bindE (scatter_add (fine_neg m) flat_fine (map2 (\<lambda>w t. w * (1 - t)) weights targets)) (\<lambda>fn.
      Inr (m\<lparr> coarse_count := cc, coarse_pred := cp, coarse_target := ct, fine_pos := fp, fine_neg := fn,
              brier_num := add_prefix (map2 (\<lambda>w d. w * (d ^ 2)) weights (map2 (-) probs targets))
                             (brier_num m) \<rparr>)))))))))"

text \<open>\<open>dist.all_reduce(SUM)\<close> over the ranks' histograms.\<close>

definition add_metrics :: "confidence_metrics \<Rightarrow> confidence_metrics \<Rightarrow> confidence_metrics" where
  "add_metrics a b =
     a\<lparr> coarse_count := map2 (+) (coarse_count a) (coarse_count b),
        coarse_pred := map2 (+) (coarse_pred a) (coarse_pred b),
        coarse_target := map2 (+) (coarse_target a) (coarse_target b),
        fine_pos := map2 (+) (fine_pos a) (fine_pos b),
        fine_neg := map2 (+) (fine_neg a) (fine_neg b),
        brier_num := map2 (+) (brier_num a) (brier_num b) \<rparr>"

fun all_reduce :: "confidence_metrics list \<Rightarrow> confidence_metrics" where
  "all_reduce [] = init_metrics 0 0 0"
| "all_reduce [m] = m"
| "all_reduce (m # ms) = add_metrics m (all_reduce ms)"

section \<open>The report\<close>

definition hist_row :: "nat \<Rightarrow> rat list \<Rightarrow> nat \<Rightarrow> rat list" where
  "hist_row n xs pos = py_slice (pos * n) (pos * n + n) xs"

fun cumsum :: "rat list \<Rightarrow> rat list" where
  "cumsum [] = []"
| "cumsum (x # xs) = x # map (\<lambda>y. x + y) (cumsum xs)"

definition auroc_from_hist :: "rat list \<Rightarrow> rat list \<Rightarrow> rat option" where
  "auroc_from_hist pos_hist neg_hist =
     (let total_pos = sum_list pos_hist; total_neg = sum_list neg_hist in
      if total_pos \<le> 0 \<or> total_neg \<le> 0 then None
      else let cum_neg_before = map2 (-) (cumsum neg_hist) neg_hist;
               pair = sum_list (map2 (*) pos_hist cum_neg_before)
                      + 1 / 2 * sum_list (map2 (*) pos_hist neg_hist)
           in Some (pair / (total_pos * total_neg)))"

record reliability_bin =
  rb_bin :: nat
  rb_range :: "rat \<times> rat"
  rb_avg_pred :: rat
  rb_avg_target :: rat
  rb_weight :: rat

record position_entry =
  position :: nat
  total_weight :: rat
  ece :: "rat option"
  auc :: "rat option"
  brier :: "rat option"
  pred_mean :: "rat option"
  target_mean :: "rat option"
  reliability :: "reliability_bin list"

definition compute_position :: "confidence_metrics \<Rightarrow> nat \<Rightarrow> position_entry" where
  "compute_position m pos =
     (let nc = num_coarse_bins m; nf = num_fine_bins m;
          weights = hist_row nc (coarse_count m) pos;
          preds = hist_row nc (coarse_pred m) pos;
          targets = hist_row nc (coarse_target m) pos;
          total = sum_list weights
      in if total \<le> 1 / 1000000000000 then
           \<lparr> position = pos, total_weight = 0, ece = None, auc = None, brier = None,
             pred_mean = None, target_mean = None, reliability = [] \<rparr>
         else
           let denom = map (\<lambda>w. max w (1 / 1000000000000)) weights;
               avg_pred = map2 (/) preds denom;
               avg_target = map2 (/) targets denom;
               bin_err = map abs (map2 (-) avg_pred avg_target)
           in \<lparr> position = pos, total_weight = total,
                ece = Some (sum_list (map2 (*) bin_err weights) / total),
                auc = auroc_from_hist (hist_row nf (fine_pos m) pos) (hist_row nf (fine_neg m) pos),
                brier = Some (brier_num m ! pos / total),
                pred_mean = Some (sum_list preds / total),
                target_mean = Some (sum_list targets / total),
                reliability =
                  map (\<lambda>b. \<lparr> rb_bin = b, rb_range = (of_nat b / of_nat nc, of_nat (b + 1) / of_nat nc),
                              rb_avg_pred = avg_pred ! b, rb_avg_target = avg_target ! b,
                              rb_weight = weights ! b \<rparr>)
                    (filter (\<lambda>b. weights ! b > 0) [0..<nc]) \<rparr>)"

definition compute :: "confidence_metrics \<Rightarrow> position_entry list" where
  "compute m = map (compute_position m) [0..<block_size m]"

section \<open>The recorder\<close>

record dataset_row =
  dr_dataset :: string
  dr_sample_count :: nat
  dr_proposal_count :: nat
  dr_draft_name_or_path :: string
  dr_draft_name :: string
  per_position :: "position_entry list"

record recorder =
  max_proposal_tokens :: nat
  num_bins :: nat
  num_fine :: nat
  draft_path :: string
  dataset_metrics :: "confidence_metrics option"
  recorder_rows :: "dataset_row list"

definition model_display_name :: "string \<Rightarrow> string" where
  "model_display_name path =
     (let normalized = rev (dropWhile (\<lambda>c. c = CHR ''/'') (rev path));
          base = rev (takeWhile (\<lambda>c. c \<noteq> CHR ''/'') (rev normalized))
      in if base \<noteq> [] then base else normalized)"

definition recorder_start :: "recorder \<Rightarrow> recorder" where
  "recorder_start rc = rc\<lparr> dataset_metrics := Some (init_metrics (max_proposal_tokens rc) (num_bins rc) (num_fine rc)) \<rparr>"

fun cumprod_rat :: "rat list \<Rightarrow> rat list" where
  "cumprod_rat [] = []"
| "cumprod_rat (x # xs) = x # map (\<lambda>y. x * y) (cumprod_rat xs)"

definition observe ::
  "(rat \<Rightarrow> rat) \<Rightarrow> recorder \<Rightarrow> block_draft_proposal \<Rightarrow> 'h verification_result \<Rightarrow> recorder res" where
  "observe sigmoid rc proposal v =
     (case dataset_metrics rc of None \<Rightarrow> Inl AssertionError
      | Some m \<Rightarrow>
          if draft_token_count proposal \<le> 0 then Inr rc
          else
            let eff = effective_proposal_length v in
            if eff \<le> 0 then Inr rc
            else
              (case confidence_logits proposal of None \<Rightarrow> Inl AssertionError
               | Some lg \<Rightarrow>
                   (case accept_prefix_mask v of None \<Rightarrow> Inl AssertionError
                    | Some msk \<Rightarrow>
                        bindE (update m (cumprod_rat (map sigmoid (take eff lg)))
                                        (map of_nat (take eff msk))) (\<lambda>m'.
                        Inr (rc\<lparr> dataset_metrics := Some m' \<rparr>)))))"

text \<open>
  \<open>finish\<close> on one rank: \<open>reduced\<close> is the result of the all-reduce, in which this rank's
  histograms take part; only rank 0 appends a row, and only if there were samples.
\<close>

definition build_dataset_row :: "recorder \<Rightarrow> string \<Rightarrow> nat \<Rightarrow> nat \<Rightarrow> confidence_metrics \<Rightarrow> dataset_row" where
  "build_dataset_row rc dataset_name sample_count proposal_count m =
     \<lparr> dr_dataset = dataset_name, dr_sample_count = sample_count, dr_proposal_count = proposal_count,
       dr_draft_name_or_path = draft_path rc, dr_draft_name = model_display_name (draft_path rc),
       per_position = compute m \<rparr>"

definition finish ::
  "nat \<Rightarrow> (confidence_metrics \<Rightarrow> confidence_metrics) \<Rightarrow> string \<Rightarrow> nat \<Rightarrow> nat \<Rightarrow> recorder
   \<Rightarrow> (dataset_row option \<times> recorder) res" where
  "finish rank reduced dataset_name sample_count proposal_count rc =
     (case dataset_metrics rc of None \<Rightarrow> Inl AssertionError
      | Some m \<Rightarrow>
          let rc' = rc\<lparr> dataset_metrics := None \<rparr> in
          if rank \<noteq> 0 \<or> sample_count = 0 then Inr (None, rc')
          else let row = build_dataset_row rc' dataset_name sample_count proposal_count (reduced m)
               in Inr (Some row, rc'\<lparr> recorder_rows := recorder_rows rc' @ [row] \<rparr>))"

section \<open>The summary of a row\<close>

record summary_acc =
  total_w :: rat
  weighted_ece :: rat
  weighted_brier :: rat
  weighted_pred :: rat
  weighted_target :: rat
  auc_w :: rat
  weighted_auc :: rat

text \<open>A NaN in a weighted entry makes the accumulated value NaN; entries of positive weight have none.\<close>

definition nan0 :: "rat option \<Rightarrow> rat" where
  "nan0 x = (case x of None \<Rightarrow> 0 | Some y \<Rightarrow> y)"

definition summary_step :: "summary_acc \<Rightarrow> position_entry \<Rightarrow> summary_acc" where
  "summary_step a e =
     (let w = total_weight e in
      if w \<le> 0 then a
      else
        let a1 = a\<lparr> total_w := total_w a + w,
                    weighted_ece := weighted_ece a + nan0 (ece e) * w,
                    weighted_brier := weighted_brier a + nan0 (brier e) * w,
                    weighted_pred := weighted_pred a + nan0 (pred_mean e) * w,
                    weighted_target := weighted_target a + nan0 (target_mean e) * w \<rparr>
        in (case auc e of None \<Rightarrow> a1
            | Some x \<Rightarrow> a1\<lparr> auc_w := auc_w a1 + w, weighted_auc := weighted_auc a1 + x * w \<rparr>))"

definition summarize_confidence_row ::
  "position_entry list \<Rightarrow> rat option \<times> rat option \<times> rat option \<times> rat option \<times> rat option" where
  "summarize_confidence_row entries =
     (let a = foldl summary_step \<lparr> total_w = 0, weighted_ece = 0, weighted_brier = 0, weighted_pred = 0,
                weighted_target = 0, auc_w = 0, weighted_auc = 0 \<rparr> entries
      in if total_w a \<le> 0 then (None, None, None, None, None)
         else (Some (weighted_ece a / total_w a),
               (if auc_w a > 0 then Some (weighted_auc a / auc_w a) else None),
               Some (weighted_brier a / total_w a),
               Some (weighted_pred a / total_w a),
               Some (weighted_target a / total_w a)))"


section \<open>The histograms as a function of the observations\<close>

text \<open>
  The abstract state is the list of observations, each a list of (clamped) predictions and
  targets by position. \<open>hcount n f hist p b\<close> adds \<open>f\<close> over the observations whose prediction
  at position \<open>p\<close> falls in bin \<open>b\<close> of \<open>n\<close>; \<open>hsum\<close> adds it over all of them.
\<close>

type_synonym observation = "rat list \<times> rat list"

definition hcount :: "nat \<Rightarrow> (rat \<Rightarrow> rat \<Rightarrow> rat) \<Rightarrow> observation list \<Rightarrow> nat \<Rightarrow> nat \<Rightarrow> rat" where
  "hcount n f hist p b =
     sum_list (map (\<lambda>(ps, ts). if p < length ps \<and> bin_index n (ps ! p) = b then f (ps ! p) (ts ! p) else 0) hist)"

definition hsum :: "(rat \<Rightarrow> rat \<Rightarrow> rat) \<Rightarrow> observation list \<Rightarrow> nat \<Rightarrow> rat" where
  "hsum f hist p = sum_list (map (\<lambda>(ps, ts). if p < length ps then f (ps ! p) (ts ! p) else 0) hist)"

definition is_hist :: "nat \<Rightarrow> nat \<Rightarrow> (rat \<Rightarrow> rat \<Rightarrow> rat) \<Rightarrow> observation list \<Rightarrow> rat list \<Rightarrow> bool" where
  "is_hist bs n f hist xs \<longleftrightarrow>
     length xs = bs * n \<and> (\<forall>p < bs. \<forall>b < n. xs ! (p * n + b) = hcount n f hist p b)"

definition tracks :: "confidence_metrics \<Rightarrow> nat \<Rightarrow> nat \<Rightarrow> nat \<Rightarrow> observation list \<Rightarrow> bool" where
  "tracks m bs nc nf hist \<longleftrightarrow>
     block_size m = bs \<and> num_coarse_bins m = nc \<and> num_fine_bins m = nf
   \<and> is_hist bs nc (\<lambda>_ _. 1) hist (coarse_count m)
   \<and> is_hist bs nc (\<lambda>p _. p) hist (coarse_pred m)
   \<and> is_hist bs nc (\<lambda>_ t. t) hist (coarse_target m)
   \<and> is_hist bs nf (\<lambda>_ t. t) hist (fine_pos m)
   \<and> is_hist bs nf (\<lambda>_ t. 1 - t) hist (fine_neg m)
   \<and> length (brier_num m) = bs \<and> (\<forall>p < bs. brier_num m ! p = hsum (\<lambda>p t. (p - t) ^ 2) hist p)"

lemma flat_less: "p < bs \<Longrightarrow> b < n \<Longrightarrow> p * n + b < bs * (n :: nat)"
  by (metis add.commute add_less_cancel_right less_le_trans mult.commute mult_Suc mult_le_mono1 Suc_leI add_less_mono1)

lemma flat_inject: "b < n \<Longrightarrow> b' < n \<Longrightarrow> p * n + b = q * n + b' \<longleftrightarrow> p = q \<and> b = (b' :: nat)"
  by (metis div_mult_self3 div_less add.commute add_cancel_right_left less_nat_zero_code mod_less mod_mult_self3 bot_nat_0.not_eq_extremum)

lemma is_hist_unique:
  assumes "is_hist bs n f hist xs" and "is_hist bs n f hist ys"
  shows "xs = ys"
proof (rule nth_equalityI)
  fix k
  assume k: "k < length xs"
  then have "0 < n" using assms(1) by (cases n) (auto simp: is_hist_def)
  have "k div n < bs" "k mod n < n"
    using k \<open>0 < n\<close> assms(1) by (simp_all add: is_hist_def less_mult_imp_div_less)
  moreover have "k = k div n * n + k mod n" by simp
  ultimately show "xs ! k = ys ! k"
    using assms unfolding is_hist_def by metis
qed (use assms in \<open>simp add: is_hist_def\<close>)

lemma hcount_append: "hcount n f (h1 @ h2) p b = hcount n f h1 p b + hcount n f h2 p b"
  by (simp add: hcount_def)

lemma hsum_append: "hsum f (h1 @ h2) p = hsum f h1 p + hsum f h2 p"
  by (simp add: hsum_def)

lemma is_hist_add:
  "is_hist bs n f h1 xs \<Longrightarrow> is_hist bs n f h2 ys \<Longrightarrow> is_hist bs n f (h1 @ h2) (map2 (+) xs ys)"
  by (auto simp: is_hist_def hcount_append flat_less)

text \<open>A scatter-add puts the weight of position \<open>p\<close> into the bin of its prediction.\<close>

lemma scatter_add_ok:
  assumes "length is = length ws" and "\<forall>i \<in> set is. i < length xs"
  obtains ys where "scatter_add xs is ws = Inr ys" and "length ys = length xs"
    and "\<And>k. k < length xs \<Longrightarrow> ys ! k = xs ! k + sum_list (map2 (\<lambda>i w. if i = k then w else 0) is ws)"
  using assms
proof (induction "is" ws arbitrary: xs thesis rule: list_induct2')
  case (4 i "is" w ws)
  have ok: "length is = length ws" "\<forall>j \<in> set is. j < length (xs[i := xs ! i + w])" "i < length xs"
    using "4.prems"(2,3) by auto
  obtain ys where ys: "scatter_add (xs[i := xs ! i + w]) is ws = Inr ys" "length ys = length xs"
    and nth: "\<And>k. k < length xs \<Longrightarrow>
       ys ! k = xs[i := xs ! i + w] ! k + sum_list (map2 (\<lambda>i w. if i = k then w else 0) is ws)"
    using "4.IH" [of "xs[i := xs ! i + w]", OF _ ok(1,2)] by auto
  show ?case
    by (rule "4.prems"(1) [of ys]) (use ys nth ok(3) in \<open>auto simp: nth_list_update\<close>)
qed auto

lemma sum_list_upt_delta:
  "sum_list (map (\<lambda>i. if i = p then g i else 0) [0..<n]) = (if p < n then g p else (0 :: rat))"
  by (induction n) auto

lemma flat_contribution:
  fixes ws :: "rat list"
  assumes b: "b < n" and len: "length ws = length ps"
  shows "sum_list (map2 (\<lambda>i w. if i = p * n + b then w else 0) (flat_index n ps) ws)
    = (if p < length ps \<and> bin_index n (ps ! p) = b then ws ! p else 0)"
proof -
  have bin: "bin_index n x < n" for x using b by (auto simp: bin_index_def)
  have "map2 (\<lambda>i w. if i = p * n + b then w else 0) (flat_index n ps) ws
      = map (\<lambda>i. if i = p then (if bin_index n (ps ! i) = b then ws ! i else 0) else 0) [0..<length ps]"
    using len bin b by (auto intro!: nth_equalityI simp: flat_index_def flat_inject)
  then show ?thesis
    using sum_list_upt_delta [of p "\<lambda>i. if bin_index n (ps ! i) = b then ws ! i else 0" "length ps"] by auto
qed

lemma flat_index_range:
  assumes "length ps \<le> bs" and "0 < n"
  shows "\<forall>i \<in> set (flat_index n ps). i < bs * n"
proof -
  have bin: "bin_index n x < n" for x using assms(2) by (auto simp: bin_index_def)
  show ?thesis
    using assms(1) bin by (fastforce simp: flat_index_def set_zip intro: flat_less)
qed

lemma scatter_is_hist:
  assumes h: "is_hist bs n f hist xs" and n: "0 < n" and len: "length ps \<le> bs" "length ts = length ps"
    and ws: "length ws = length ps" "\<And>p. p < length ps \<Longrightarrow> ws ! p = f (ps ! p) (ts ! p)"
  obtains ys where "scatter_add xs (flat_index n ps) ws = Inr ys" and "is_hist bs n f (hist @ [(ps, ts)]) ys"
proof -
  have l: "length xs = bs * n" using h by (simp add: is_hist_def)
  obtain ys where ys: "scatter_add xs (flat_index n ps) ws = Inr ys" "length ys = length xs"
    and nth: "\<And>k. k < length xs \<Longrightarrow> ys ! k = xs ! k + sum_list (map2 (\<lambda>i w. if i = k then w else 0) (flat_index n ps) ws)"
    using scatter_add_ok [of "flat_index n ps" ws xs] flat_index_range [OF len(1) n] ws(1) l
    by (auto simp: flat_index_def)
  have "is_hist bs n f (hist @ [(ps, ts)]) ys"
    using h ys(2) l nth flat_contribution [OF _ ws(1)] ws(2)
    by (auto simp: is_hist_def hcount_append flat_less hcount_def [of n f "[(ps, ts)]"])
  with ys(1) show ?thesis by (rule that)
qed

lemma add_prefix_hsum:
  assumes "length xs = bs" and "length ws = length ps" and "length ps \<le> bs" and "p < bs"
    and "\<And>p. p < length ps \<Longrightarrow> ws ! p = f (ps ! p) (ts ! p)" and "xs ! p = hsum f hist p"
  shows "add_prefix ws xs ! p = hsum f (hist @ [(ps, ts)]) p"
  using assms by (auto simp: add_prefix_def nth_append hsum_append hsum_def [of f "[(ps, ts)]"])


lemma tracks_init: "tracks (init_metrics bs nc nf) bs nc nf []"
  by (simp add: tracks_def init_metrics_def is_hist_def hcount_def hsum_def flat_less)

lemma update_tracks:
  assumes tr: "tracks m bs nc nf hist" and bins: "0 < nc" "0 < nf"
    and len: "length ts = length ps" "length ps \<le> bs"
  obtains m' where "update m ps ts = Inr m'" and "tracks m' bs nc nf (hist @ [(map clamp_prob ps, ts)])"
proof -
  let ?ps = "map clamp_prob ps" and ?ws = "replicate (length ps) (1 :: rat)"
  have l: "length ?ps \<le> bs" "length ts = length ?ps" using len by simp_all
  note T = tr [unfolded tracks_def]
  obtain cc where cc: "scatter_add (coarse_count m) (flat_index nc ?ps) ?ws = Inr cc"
    "is_hist bs nc (\<lambda>_ _. 1) (hist @ [(?ps, ts)]) cc"
    using T by (elim conjE) (erule scatter_is_hist [OF _ bins(1) l, of _ _ _ ?ws], auto)
  obtain cp where cp: "scatter_add (coarse_pred m) (flat_index nc ?ps) (map2 (*) ?ps ?ws) = Inr cp"
    "is_hist bs nc (\<lambda>p _. p) (hist @ [(?ps, ts)]) cp"
    by (rule scatter_is_hist [OF _ bins(1) l, of "\<lambda>p _. p" hist "coarse_pred m" "map2 (*) ?ps ?ws"]) (use T in auto)
  obtain ct where ct: "scatter_add (coarse_target m) (flat_index nc ?ps) (map2 (*) ts ?ws) = Inr ct"
    "is_hist bs nc (\<lambda>_ t. t) (hist @ [(?ps, ts)]) ct"
    by (rule scatter_is_hist [OF _ bins(1) l, of "\<lambda>_ t. t" hist "coarse_target m" "map2 (*) ts ?ws"]) (use T len in auto)
  obtain fp where fp: "scatter_add (fine_pos m) (flat_index nf ?ps) (map2 (*) ?ws ts) = Inr fp"
    "is_hist bs nf (\<lambda>_ t. t) (hist @ [(?ps, ts)]) fp"
    by (rule scatter_is_hist [OF _ bins(2) l, of "\<lambda>_ t. t" hist "fine_pos m" "map2 (*) ?ws ts"]) (use T len in auto)
  obtain fn where fn: "scatter_add (fine_neg m) (flat_index nf ?ps) (map2 (\<lambda>w t. w * (1 - t)) ?ws ts) = Inr fn"
    "is_hist bs nf (\<lambda>_ t. 1 - t) (hist @ [(?ps, ts)]) fn"
    by (rule scatter_is_hist [OF _ bins(2) l, of "\<lambda>_ t. 1 - t" hist "fine_neg m" "map2 (\<lambda>w t. w * (1 - t)) ?ws ts"])
       (use T len in auto)
  define bn where "bn = add_prefix (map2 (\<lambda>w d. w * (d ^ 2)) ?ws (map2 (-) ?ps ts)) (brier_num m)"
  have bn: "length bn = bs" "\<forall>p < bs. bn ! p = hsum (\<lambda>p t. (p - t) ^ 2) (hist @ [(?ps, ts)]) p"
  proof -
    show "length bn = bs" using T len by (simp add: bn_def add_prefix_def)
    show "\<forall>p < bs. bn ! p = hsum (\<lambda>p t. (p - t) ^ 2) (hist @ [(?ps, ts)]) p"
      unfolding bn_def using T len by (intro allI impI add_prefix_hsum [where bs = bs]) auto
  qed
  have "update m ps ts = Inr (m\<lparr> coarse_count := cc, coarse_pred := cp, coarse_target := ct,
      fine_pos := fp, fine_neg := fn, brier_num := bn \<rparr>)"
    using T len cc(1) cp(1) ct(1) fp(1) fn(1) by (simp add: update_def Let_def bn_def)
  then show ?thesis
    by (rule that) (use T cc(2) cp(2) ct(2) fp(2) fn(2) bn in \<open>simp add: tracks_def\<close>)
qed

lemma add_metrics_tracks:
  "tracks a bs nc nf h1 \<Longrightarrow> tracks b bs nc nf h2 \<Longrightarrow> tracks (add_metrics a b) bs nc nf (h1 @ h2)"
  by (simp add: tracks_def add_metrics_def is_hist_add hsum_append)

lemma all_reduce_tracks:
  "ms \<noteq> [] \<Longrightarrow> list_all2 (\<lambda>m h. tracks m bs nc nf h) ms hs \<Longrightarrow> tracks (all_reduce ms) bs nc nf (concat hs)"
proof (induction ms arbitrary: hs rule: all_reduce.induct)
  case (3 m m' ms)
  then obtain h hs' where hs: "hs = h # hs'" "tracks m bs nc nf h"
    "list_all2 (\<lambda>m h. tracks m bs nc nf h) (m' # ms) hs'"
    by (cases hs) auto
  with "3.IH" [of hs'] show ?case by (simp add: add_metrics_tracks)
qed (auto simp: list_all2_Cons1)

lemma tracks_unique:
  assumes "tracks a bs nc nf h" and "tracks b bs nc nf h"
  shows "a = b"
proof -
  have "coarse_count a = coarse_count b" "coarse_pred a = coarse_pred b" "coarse_target a = coarse_target b"
    "fine_pos a = fine_pos b" "fine_neg a = fine_neg b"
    using assms unfolding tracks_def by (blast intro: is_hist_unique)+
  moreover have "brier_num a = brier_num b"
    using assms by (auto simp: tracks_def intro!: nth_equalityI)
  ultimately show ?thesis using assms by (simp add: tracks_def)
qed

text \<open>Processing a list of observations, as a sequence of \<open>update\<close> calls.\<close>

definition observe_all :: "nat \<Rightarrow> nat \<Rightarrow> nat \<Rightarrow> observation list \<Rightarrow> confidence_metrics res" where
  "observe_all bs nc nf os = foldE (\<lambda>m (ps, ts). update m ps ts) (init_metrics bs nc nf) os"

definition observations_ok :: "nat \<Rightarrow> observation list \<Rightarrow> bool" where
  "observations_ok bs os \<longleftrightarrow> (\<forall>(ps, ts) \<in> set os. length ts = length ps \<and> length ps \<le> bs \<and> set ts \<subseteq> {0, 1})"

definition clamped :: "observation list \<Rightarrow> observation list" where
  "clamped os = map (\<lambda>(ps, ts). (map clamp_prob ps, ts)) os"

lemma foldE_update_tracks:
  assumes "tracks m bs nc nf hist" and "0 < nc" "0 < nf" and "observations_ok bs os"
  shows "\<exists>m'. foldE (\<lambda>m (ps, ts). update m ps ts) m os = Inr m' \<and> tracks m' bs nc nf (hist @ clamped os)"
  using assms
proof (induction os arbitrary: m hist)
  case Nil
  then show ?case by (simp add: clamped_def)
next
  case (Cons obs os)
  obtain ps ts where o: "obs = (ps, ts)" by fastforce
  have "length ts = length ps" "length ps \<le> bs" using Cons.prems(4) o by (auto simp: observations_ok_def)
  then obtain m1 where m1: "update m ps ts = Inr m1" "tracks m1 bs nc nf (hist @ [(map clamp_prob ps, ts)])"
    by (rule update_tracks [OF Cons.prems(1-3)])
  have "observations_ok bs os" using Cons.prems(4) by (simp add: observations_ok_def)
  from Cons.IH [OF m1(2) Cons.prems(2,3) this] m1(1) o show ?case by (auto simp: clamped_def)
qed

lemma observe_all_tracks:
  assumes "0 < nc" "0 < nf" and "observations_ok bs os"
  shows "\<exists>m. observe_all bs nc nf os = Inr m \<and> tracks m bs nc nf (clamped os)"
  using foldE_update_tracks [OF tracks_init assms] by (simp add: observe_all_def)


text \<open>
  Distributed calibration is exact. When every rank processes its own observations and
  the histograms are summed by the all-reduce, the result is the state a single process
  reaches on all observations, rank after rank; no rank raises.
\<close>

theorem all_reduce_is_union:
  assumes "0 < nc" "0 < nf" and "oss \<noteq> []" and "\<forall>os \<in> set oss. observations_ok bs os"
  shows "\<exists>ms. mapE (observe_all bs nc nf) oss = Inr ms \<and> observe_all bs nc nf (concat oss) = Inr (all_reduce ms)"
proof -
  have "\<exists>ms. mapE (observe_all bs nc nf) oss = Inr ms \<and> list_all2 (\<lambda>m os. tracks m bs nc nf (clamped os)) ms oss"
    using assms(4)
  proof (induction oss)
    case (Cons os oss)
    then show ?case using observe_all_tracks [OF assms(1,2), of bs os] by fastforce
  qed simp
  then obtain ms where ms: "mapE (observe_all bs nc nf) oss = Inr ms"
    "list_all2 (\<lambda>m os. tracks m bs nc nf (clamped os)) ms oss" by auto
  then have "list_all2 (\<lambda>m h. tracks m bs nc nf h) ms (map clamped oss)" "ms \<noteq> []"
    using assms(3) by (auto simp: list_all2_map2)
  then have "tracks (all_reduce ms) bs nc nf (concat (map clamped oss))" by (intro all_reduce_tracks)
  moreover have "concat (map clamped oss) = clamped (concat oss)"
    by (induction oss) (simp_all add: clamped_def)
  moreover have "observations_ok bs (concat oss)"
    using assms(4) by (fastforce simp: observations_ok_def)
  then obtain m where m: "observe_all bs nc nf (concat oss) = Inr m" "tracks m bs nc nf (clamped (concat oss))"
    using observe_all_tracks [OF assms(1,2)] by blast
  ultimately have "all_reduce ms = m" by (metis tracks_unique)
  with ms(1) m(1) show ?thesis by simp
qed

theorem all_reduce_is_union_witness:
  "\<exists>ms. mapE (observe_all 2 4 8) [[([1/2, 1/4], [1, 0])], [([9/10], [1])]] = Inr ms
     \<and> observe_all 2 4 8 [([1/2, 1/4], [1, 0]), ([9/10], [1])] = Inr (all_reduce ms)"
  using all_reduce_is_union [of 4 8 "[[([1/2, 1/4], [1, 0])], [([9/10], [1])]]" 2]
  by (simp add: observations_ok_def)

section \<open>The scores\<close>

lemma hist_row_eq:
  "is_hist bs n f hist xs \<Longrightarrow> p < bs \<Longrightarrow> hist_row n xs p = map (hcount n f hist p) [0..<n]"
proof (rule nth_equalityI)
  assume h: "is_hist bs n f hist xs" and p: "p < bs"
  have "p * n + n \<le> bs * n" using p by (metis Suc_leI add.commute mult_Suc mult_le_mono1)
  then show len: "length (hist_row n xs p) = length (map (hcount n f hist p) [0..<n])"
    using h by (simp add: hist_row_def is_hist_def)
  fix i
  assume "i < length (hist_row n xs p)"
  then show "hist_row n xs p ! i = map (hcount n f hist p) [0..<n] ! i"
    using h p len flat_less [OF p, of i n] by (simp add: hist_row_def is_hist_def nth_py_slice)
qed

lemma bin_index_less: "0 < n \<Longrightarrow> bin_index n x < n"
  by (auto simp: bin_index_def)

lemma sum_hcount:
  assumes "0 < n"
  shows "sum_list (map (hcount n f hist p) [0..<n]) = hsum f hist p"
proof (induction hist)
  case Nil
  then show ?case by (simp add: hcount_def hsum_def map_replicate_const sum_list_replicate)
next
  case (Cons obs hist)
  obtain ps ts where o: "obs = (ps, ts)" by fastforce
  have flip: "(\<lambda>b. if bin_index n (ps ! p) = b then f (ps ! p) (ts ! p) else 0)
      = (\<lambda>b. if b = bin_index n (ps ! p) then f (ps ! p) (ts ! p) else 0)" by auto
  have one: "sum_list (map (\<lambda>b. if bin_index n (ps ! p) = b then f (ps ! p) (ts ! p) else 0) [0..<n]) = f (ps ! p) (ts ! p)"
    unfolding flip sum_list_upt_delta using bin_index_less [OF assms] by simp
  have feq: "hcount n f (obs # hist) p = (\<lambda>b. (if p < length ps \<and> bin_index n (ps ! p) = b then f (ps ! p) (ts ! p) else 0)
      + hcount n f hist p b)"
    by (rule ext) (simp add: hcount_def o)
  have "sum_list (map (hcount n f (obs # hist) p) [0..<n]) =
     sum_list (map (\<lambda>b. if p < length ps \<and> bin_index n (ps ! p) = b then f (ps ! p) (ts ! p) else 0) [0..<n])
     + hsum f hist p"
    unfolding feq sum_list_addf Cons by simp
  then show ?case using one by (simp add: hsum_def o sum_list_0)
qed

definition hist_ok :: "observation list \<Rightarrow> bool" where
  "hist_ok hist \<longleftrightarrow> (\<forall>(ps, ts) \<in> set hist. length ts = length ps
     \<and> (\<forall>p \<in> set ps. 0 \<le> p \<and> p \<le> 1) \<and> (\<forall>t \<in> set ts. 0 \<le> t \<and> t \<le> 1))"

lemma hist_ok_clamped: "observations_ok bs os \<Longrightarrow> hist_ok (clamped os)"
  by (fastforce simp: observations_ok_def hist_ok_def clamped_def clamp_prob_def)

lemma hcount_bounds:
  assumes "hist_ok hist" and "\<And>p t. 0 \<le> p \<Longrightarrow> p \<le> 1 \<Longrightarrow> 0 \<le> t \<Longrightarrow> t \<le> 1 \<Longrightarrow> 0 \<le> f p t \<and> f p t \<le> 1"
  shows "0 \<le> hcount n f hist p b \<and> hcount n f hist p b \<le> hcount n (\<lambda>_ _. 1) hist p b"
  using assms(1)
proof (induction hist)
  case (Cons obs hist)
  obtain ps ts where o: "obs = (ps, ts)" by fastforce
  have "0 \<le> f (ps ! p) (ts ! p) \<and> f (ps ! p) (ts ! p) \<le> 1" if "p < length ps"
    using Cons.prems that o by (intro assms(2)) (auto simp: hist_ok_def)
  with Cons show ?case by (auto simp: hcount_def o hist_ok_def)
qed (simp add: hcount_def)

lemma hsum_bounds:
  assumes "hist_ok hist" and "\<And>p t. 0 \<le> p \<Longrightarrow> p \<le> 1 \<Longrightarrow> 0 \<le> t \<Longrightarrow> t \<le> 1 \<Longrightarrow> 0 \<le> f p t \<and> f p t \<le> 1"
  shows "0 \<le> hsum f hist p \<and> hsum f hist p \<le> hsum (\<lambda>_ _. 1) hist p"
  using assms(1)
proof (induction hist)
  case (Cons obs hist)
  obtain ps ts where o: "obs = (ps, ts)" by fastforce
  have "0 \<le> f (ps ! p) (ts ! p) \<and> f (ps ! p) (ts ! p) \<le> 1" if "p < length ps"
    using Cons.prems that o by (intro assms(2)) (auto simp: hist_ok_def)
  with Cons show ?case by (auto simp: hsum_def o hist_ok_def)
qed (simp add: hsum_def)

text \<open>The number of observations that reach a position.\<close>

definition reaching :: "observation list \<Rightarrow> nat \<Rightarrow> nat" where
  "reaching os p = length (filter (\<lambda>(ps, ts). p < length ps) os)"

lemma hsum_one: "hsum (\<lambda>_ _. 1) (clamped os) p = of_nat (reaching os p)"
  by (induction os) (auto simp: hsum_def clamped_def reaching_def)

lemma hcount_one: "\<exists>k. hcount n (\<lambda>_ _. 1) hist p b = of_nat k"
proof (induction hist)
  case Nil
  then show ?case by (auto simp: hcount_def intro: exI [of _ 0])
next
  case (Cons obs hist)
  then obtain k where k: "hcount n (\<lambda>_ _. 1) hist p b = of_nat k" by auto
  obtain ps ts where o: "obs = (ps, ts)" by fastforce
  have "hcount n (\<lambda>_ _. 1) (obs # hist) p b =
     of_nat ((if p < length ps \<and> bin_index n (ps ! p) = b then 1 else 0) + k)"
    using k by (auto simp: hcount_def o)
  then show ?case by blast
qed


subsection \<open>AUROC\<close>

lemma cumsum_length [simp]: "length (cumsum xs) = length xs"
  by (induction xs) auto

lemma cumsum_nth: "i < length xs \<Longrightarrow> cumsum xs ! i = sum_list (take (Suc i) xs)"
  by (induction xs arbitrary: i) (auto simp: nth_Cons split: nat.splits)

lemma cumsum_before:
  "map2 (-) (cumsum xs) xs = map (\<lambda>i. sum_list (take i xs)) [0..<length xs]"
  by (rule nth_equalityI) (auto simp: cumsum_nth take_Suc_conv_app_nth)

lemma sum_list_map2_nth:
  "length xs = length ys \<Longrightarrow> sum_list (map2 f xs ys) = (\<Sum>i < length xs. (f (xs ! i) (ys ! i) :: rat))"
proof -
  assume "length xs = length ys"
  then have "map2 f xs ys = map (\<lambda>i. f (xs ! i) (ys ! i)) [0..<length xs]" by (auto intro!: nth_equalityI)
  then show ?thesis by (simp add: interv_sum_list_conv_sum_set_nat atLeast0LessThan)
qed

lemma sum_list_take_sum: "i \<le> length xs \<Longrightarrow> sum_list (take i xs) = (\<Sum>j < i. (xs ! j :: rat))"
  by (induction i) (auto simp: take_Suc_conv_app_nth)

lemma auroc_pairs:
  assumes len: "length pos_hist = length neg_hist" and nonneg: "\<forall>x \<in> set pos_hist \<union> set neg_hist. 0 \<le> x"
  defines "P \<equiv> sum_list pos_hist" and "N \<equiv> sum_list neg_hist" and "n \<equiv> length pos_hist"
  shows "auroc_from_hist pos_hist neg_hist =
      (if P = 0 \<or> N = 0 then None
       else Some ((\<Sum>i < n. \<Sum>j < n. pos_hist ! i * neg_hist ! j * (if j < i then 1 else if j = i then 1 / 2 else 0)) / (P * N)))
    \<and> (\<forall>a. auroc_from_hist pos_hist neg_hist = Some a \<longrightarrow> 0 \<le> a \<and> a \<le> 1)"
    (is "_ = (if _ then None else Some (?pairs / _)) \<and> _")
proof -
  have pos: "0 \<le> P" "0 \<le> N" using nonneg by (auto simp: P_def N_def intro: sum_list_nonneg)
  have nth: "0 \<le> pos_hist ! i" "0 \<le> neg_hist ! i" if "i < n" for i
    using nonneg that len by (simp_all add: n_def)
  have N: "N = (\<Sum>j < n. neg_hist ! j)"
    using sum_list_take_sum [of n neg_hist] len by (simp add: N_def n_def)
  have P: "P = (\<Sum>j < n. pos_hist ! j)"
    using sum_list_take_sum [of n pos_hist] by (simp add: P_def n_def)
  let ?inner = "\<lambda>i. \<Sum>j < n. neg_hist ! j * (if j < i then 1 else if j = i then 1 / 2 else 0)"
  have inner: "sum_list (take i neg_hist) + 1 / 2 * neg_hist ! i = ?inner i" if i: "i < n" for i
  proof -
    have eq: "neg_hist ! j * (if j < i then 1 else if j = i then 1 / 2 else 0)
        = (if j < i then neg_hist ! j else 0) + (if j = i then 1 / 2 * neg_hist ! j else 0)" for j
      by simp
    have "{..<n} \<inter> {j. j < i} = {..<i}" using i by auto
    then show ?thesis
      unfolding eq sum.distrib using i sum_list_take_sum [of i neg_hist] len
      by (simp add: sum.inter_restrict [symmetric] n_def sum.If_cases)
  qed
  have pairs: "sum_list (map2 (*) pos_hist (map2 (-) (cumsum neg_hist) neg_hist))
      + 1 / 2 * sum_list (map2 (*) pos_hist neg_hist) = ?pairs"
  proof -
    have "sum_list (map2 (*) pos_hist (map2 (-) (cumsum neg_hist) neg_hist))
      = (\<Sum>i < n. pos_hist ! i * sum_list (take i neg_hist))"
      unfolding cumsum_before using len by (subst sum_list_map2_nth) (auto simp: n_def)
    moreover have "sum_list (map2 (*) pos_hist neg_hist) = (\<Sum>i < n. pos_hist ! i * neg_hist ! i)"
      using len by (subst sum_list_map2_nth) (auto simp: n_def)
    ultimately have "sum_list (map2 (*) pos_hist (map2 (-) (cumsum neg_hist) neg_hist))
      + 1 / 2 * sum_list (map2 (*) pos_hist neg_hist)
      = (\<Sum>i < n. pos_hist ! i * (sum_list (take i neg_hist) + 1 / 2 * neg_hist ! i))"
      by (simp add: sum_distrib_left sum.distrib [symmetric] algebra_simps)
    also have "\<dots> = (\<Sum>i < n. pos_hist ! i * ?inner i)" by (rule sum.cong) (simp_all add: inner [simplified])
    also have "\<dots> = ?pairs" by (simp add: sum_distrib_left mult.assoc)
    finally show ?thesis .
  qed
  have main: "auroc_from_hist pos_hist neg_hist = (if P = 0 \<or> N = 0 then None else Some (?pairs / (P * N)))"
    using pos unfolding auroc_from_hist_def Let_def pairs P_def N_def by auto
  have "0 \<le> ?pairs" by (intro sum_nonneg mult_nonneg_nonneg) (use nth in auto)
  moreover have "?pairs \<le> P * N"
  proof -
    have "?pairs \<le> (\<Sum>i < n. \<Sum>j < n. pos_hist ! i * neg_hist ! j)"
      by (intro sum_mono mult_left_le) (use nth in \<open>auto intro: mult_nonneg_nonneg\<close>)
    then show ?thesis by (simp add: P N sum_product)
  qed
  ultimately have "\<forall>a. auroc_from_hist pos_hist neg_hist = Some a \<longrightarrow> 0 \<le> a \<and> a \<le> 1"
    using pos unfolding main by (auto simp: divide_le_eq_1 split: if_splits)
  with main show ?thesis by blast
qed

lemma auroc_bounds:
  "length pos_hist = length neg_hist \<Longrightarrow> \<forall>x \<in> set pos_hist \<union> set neg_hist. 0 \<le> x \<Longrightarrow>
   auroc_from_hist pos_hist neg_hist = Some a \<Longrightarrow> 0 \<le> a \<and> a \<le> 1"
  using auroc_pairs by blast

text \<open>
  The histogram AUROC is the pairwise statistic: over all pairs of a positive and a
  negative observation, the fraction in which the positive one lies in a higher bin, a tie
  counting one half. It is undefined (NaN) exactly when one of the classes is empty, and
  otherwise lies between 0 and 1.
\<close>

theorem auroc_pairwise:
  assumes len: "length pos_hist = length neg_hist" and nonneg: "\<forall>x \<in> set pos_hist \<union> set neg_hist. 0 \<le> x"
  defines "P \<equiv> sum_list pos_hist" and "N \<equiv> sum_list neg_hist" and "n \<equiv> length pos_hist"
  shows "auroc_from_hist pos_hist neg_hist =
      (if P = 0 \<or> N = 0 then None
       else Some ((\<Sum>i < n. \<Sum>j < n. pos_hist ! i * neg_hist ! j * (if j < i then 1 else if j = i then 1 / 2 else 0)) / (P * N)))
    \<and> (\<forall>a. auroc_from_hist pos_hist neg_hist = Some a \<longrightarrow> 0 \<le> a \<and> a \<le> 1)"
  unfolding P_def N_def n_def by (rule auroc_pairs [OF len nonneg])

theorem auroc_pairwise_witness:
  "auroc_from_hist [0, 2, 1] [3, 1, 0] = Some (11 / 12) \<and> (11 / 12 :: rat) \<le> 1"
proof -
  have val: "auroc_from_hist [0, 2, 1] [3, 1, 0] = Some (11 / 12)" by code_simp
  have "\<forall>x \<in> set [0, 2, 1] \<union> set [3, 1, 0]. 0 \<le> (x :: rat)" by simp
  note auroc_pairwise [OF _ this, THEN conjunct2, THEN spec, THEN mp, OF _ val]
  with val show ?thesis by simp
qed


subsection \<open>The whole report\<close>

lemma tracks_rows:
  assumes tr: "tracks m bs nc nf hist" and p: "p < bs"
  shows "hist_row nc (coarse_count m) p = map (hcount nc (\<lambda>_ _. 1) hist p) [0..<nc]"
    "hist_row nc (coarse_pred m) p = map (hcount nc (\<lambda>p _. p) hist p) [0..<nc]"
    "hist_row nc (coarse_target m) p = map (hcount nc (\<lambda>_ t. t) hist p) [0..<nc]"
    "hist_row nf (fine_pos m) p = map (hcount nf (\<lambda>_ t. t) hist p) [0..<nf]"
    "hist_row nf (fine_neg m) p = map (hcount nf (\<lambda>_ t. 1 - t) hist p) [0..<nf]"
  using tr p unfolding tracks_def by (blast intro: hist_row_eq)+

lemma ece_bounds:
  assumes w: "\<And>b. b < n \<Longrightarrow> w b = 0 \<or> 1 \<le> w b" and x: "\<And>b. b < n \<Longrightarrow> 0 \<le> x b \<and> x b \<le> w b"
    and y: "\<And>b. b < n \<Longrightarrow> 0 \<le> y b \<and> y b \<le> (w b :: rat)"
  defines "d \<equiv> map (\<lambda>v. max v (1 / 1000000000000)) (map w [0..<n])"
  defines "e \<equiv> sum_list (map2 (*) (map abs (map2 (-) (map2 (/) (map x [0..<n]) d) (map2 (/) (map y [0..<n]) d)))
                        (map w [0..<n]))"
  shows "0 \<le> e \<and> e \<le> sum_list (map w [0..<n])"
proof -
  have eq: "map2 (*) (map abs (map2 (-) (map2 (/) (map x [0..<n]) d) (map2 (/) (map y [0..<n]) d))) (map w [0..<n])
      = map (\<lambda>b. \<bar>x b - y b\<bar>) [0..<n]" (is "?l = ?r")
  proof (rule nth_equalityI)
    show "length ?l = length ?r" by (simp add: d_def)
    fix b
    assume "b < length ?l"
    then have b: "b < n" by (simp add: d_def)
    have "\<bar>x b / max (w b) (1 / 1000000000000) - y b / max (w b) (1 / 1000000000000)\<bar> * w b = \<bar>x b - y b\<bar>"
    proof (cases "w b = 0")
      case True
      then show ?thesis using x [OF b] y [OF b] by simp
    next
      case False
      then have "1 \<le> w b" using w [OF b] by simp
      then have "max (w b) (1 / 1000000000000) = w b" by simp
      then show ?thesis using \<open>1 \<le> w b\<close> by (simp add: diff_divide_distrib [symmetric] abs_div)
    qed
    then show "?l ! b = ?r ! b" using b by (simp add: d_def)
  qed
  have "\<bar>x b - y b\<bar> \<le> w b" if "b < n" for b using x [OF that] y [OF that] by linarith
  then have "e \<le> sum_list (map w [0..<n])"
    unfolding e_def eq by (intro sum_list_mono) auto
  moreover have "0 \<le> e" unfolding e_def eq by (intro sum_list_nonneg) auto
  ultimately show ?thesis by simp
qed

lemma square_unit: "0 \<le> p \<Longrightarrow> p \<le> 1 \<Longrightarrow> 0 \<le> t \<Longrightarrow> t \<le> 1 \<Longrightarrow> 0 \<le> (p - t) ^ 2 \<and> (p - t) ^ 2 \<le> (1 :: rat)"
  by (simp add: abs_square_le_1 abs_le_iff)

definition in_unit :: "rat option \<Rightarrow> bool" where
  "in_unit x \<longleftrightarrow> (case x of None \<Rightarrow> False | Some y \<Rightarrow> 0 \<le> y \<and> y \<le> 1)"

lemma compute_position_scores:
  assumes tr: "tracks m bs nc nf hist" and p: "p < bs" and bins: "0 < nc" "0 < nf" and ok: "hist_ok hist"
    and total: "hsum (\<lambda>_ _. 1) hist p = of_nat k" and k: "0 < k"
  defines "e \<equiv> compute_position m p"
  shows "position e = p" "total_weight e = of_nat k" "in_unit (ece e)" "auc e = None \<or> in_unit (auc e)"
    "brier e = Some (hsum (\<lambda>p t. (p - t) ^ 2) hist p / of_nat k)"
    "pred_mean e = Some (hsum (\<lambda>p _. p) hist p / of_nat k)"
    "target_mean e = Some (hsum (\<lambda>_ t. t) hist p / of_nat k)"
    "in_unit (brier e)" "in_unit (pred_mean e)" "in_unit (target_mean e)"
proof -
  note R = tracks_rows [OF tr p]
  have T: "num_coarse_bins m = nc" "num_fine_bins m = nf" "brier_num m ! p = hsum (\<lambda>p t. (p - t) ^ 2) hist p"
    using tr p by (simp_all add: tracks_def)
  have big: "\<not> (of_nat k :: rat) \<le> 1 / 1000000000000" using k by (simp add: not_le less_le_trans [of _ 1])
  define w x y where "w = hcount nc (\<lambda>_ _. 1) hist p" and "x = hcount nc (\<lambda>p _. p) hist p"
    and "y = hcount nc (\<lambda>_ t. t) hist p"
  define a where "a = auroc_from_hist (map (hcount nf (\<lambda>_ t. t) hist p) [0..<nf]) (map (hcount nf (\<lambda>_ t. 1 - t) hist p) [0..<nf])"
  define d where "d = map (\<lambda>v. max v (1 / 1000000000000)) (map w [0..<nc])"
  define c where "c = sum_list (map2 (*) (map abs (map2 (-) (map2 (/) (map x [0..<nc]) d) (map2 (/) (map y [0..<nc]) d)))
                        (map w [0..<nc]))"
  have tot: "sum_list (map w [0..<nc]) = of_nat k" using total by (simp add: w_def sum_hcount [OF bins(1)])
  have bound: "0 \<le> c \<and> c \<le> of_nat k"
    unfolding tot [symmetric] c_def d_def
  proof (rule ece_bounds)
    fix b
    obtain j where "w b = of_nat j" using hcount_one unfolding w_def by metis
    then show "w b = 0 \<or> 1 \<le> w b" by (cases j) auto
    show "0 \<le> x b \<and> x b \<le> w b" unfolding x_def w_def by (rule hcount_bounds [OF ok]) auto
    show "0 \<le> y b \<and> y b \<le> w b" unfolding y_def w_def by (rule hcount_bounds [OF ok]) auto
  qed
  have fields: "position e = p" "total_weight e = of_nat k" "ece e = Some (c / of_nat k)" "auc e = a"
    "brier e = Some (hsum (\<lambda>p t. (p - t) ^ 2) hist p / of_nat k)"
    "pred_mean e = Some (hsum (\<lambda>p _. p) hist p / of_nat k)"
    "target_mean e = Some (hsum (\<lambda>_ t. t) hist p / of_nat k)"
    unfolding e_def compute_position_def Let_def T R a_def c_def d_def
      w_def [symmetric] x_def [symmetric] y_def [symmetric] tot
    using big by (simp_all add: x_def y_def sum_hcount [OF bins(1)])
  show "position e = p" "total_weight e = of_nat k"
    "brier e = Some (hsum (\<lambda>p t. (p - t) ^ 2) hist p / of_nat k)"
    "pred_mean e = Some (hsum (\<lambda>p _. p) hist p / of_nat k)"
    "target_mean e = Some (hsum (\<lambda>_ t. t) hist p / of_nat k)"
    by (fact fields)+
  show "in_unit (ece e)" using bound k by (simp add: fields in_unit_def divide_le_eq_1)
  have unit: "in_unit (Some (hsum f hist p / of_nat k))"
    if f: "\<And>p t. 0 \<le> p \<Longrightarrow> p \<le> 1 \<Longrightarrow> 0 \<le> t \<Longrightarrow> t \<le> 1 \<Longrightarrow> 0 \<le> f p t \<and> f p t \<le> 1" for f
    using hsum_bounds [of hist f p, OF ok f] total k by (simp add: in_unit_def divide_le_eq_1)
  show "in_unit (brier e)" unfolding fields by (rule unit) (rule square_unit)
  show "in_unit (pred_mean e)" "in_unit (target_mean e)" unfolding fields by (rule unit; simp)+
  have nn: "\<forall>v \<in> set (map (hcount nf (\<lambda>_ t. t) hist p) [0..<nf]) \<union> set (map (hcount nf (\<lambda>_ t. 1 - t) hist p) [0..<nf]). 0 \<le> v"
    using hcount_bounds [OF ok, of "\<lambda>_ t. t"] hcount_bounds [OF ok, of "\<lambda>_ t. 1 - t"] by auto
  show "auc e = None \<or> in_unit (auc e)"
    unfolding fields a_def in_unit_def using auroc_bounds [OF _ nn] by (auto split: option.splits)
qed


text \<open>
  The calibration report. Processing any well-shaped observations raises nothing, and
  the report has one entry per draft position: its weight is the number of observations
  that reach the position, a position none reaches has only NaN scores, and otherwise the
  Brier score, the mean prediction and the mean target are the averages of the squared
  error, the clamped prediction and the target over those observations, and all scores lie
  between 0 and 1.
\<close>

theorem calibration_report:
  assumes bins: "0 < nc" "0 < nf" and ok: "observations_ok bs os"
  shows "\<exists>m. observe_all bs nc nf os = Inr m \<and> length (compute m) = bs \<and>
    (\<forall>p < bs. let e = compute m ! p; k = reaching os p; h = clamped os in
       position e = p \<and> total_weight e = of_nat k
     \<and> (if k = 0 then ece e = None \<and> auc e = None \<and> brier e = None \<and> pred_mean e = None \<and> target_mean e = None
        else brier e = Some (hsum (\<lambda>p t. (p - t) ^ 2) h p / of_nat k)
           \<and> pred_mean e = Some (hsum (\<lambda>p _. p) h p / of_nat k)
           \<and> target_mean e = Some (hsum (\<lambda>_ t. t) h p / of_nat k)
           \<and> in_unit (ece e) \<and> in_unit (brier e) \<and> in_unit (pred_mean e) \<and> in_unit (target_mean e)
           \<and> (auc e = None \<or> in_unit (auc e))))"
proof -
  obtain m where m: "observe_all bs nc nf os = Inr m" "tracks m bs nc nf (clamped os)"
    using observe_all_tracks [OF bins ok] by blast
  have bs: "block_size m = bs" "num_coarse_bins m = nc" using m(2) by (simp_all add: tracks_def)
  have zero: "position (compute_position m p) = p \<and> total_weight (compute_position m p) = 0 \<and> ece (compute_position m p) = None
      \<and> auc (compute_position m p) = None \<and> brier (compute_position m p) = None
      \<and> pred_mean (compute_position m p) = None \<and> target_mean (compute_position m p) = None"
    if p: "p < bs" and k: "reaching os p = 0" for p
  proof -
    have "sum_list (hist_row nc (coarse_count m) p) = 0"
      unfolding tracks_rows [OF m(2) p] sum_hcount [OF bins(1)] hsum_one k by simp
    then show ?thesis by (simp add: compute_position_def bs)
  qed
  have pos: "compute m ! p = compute_position m p" if "p < bs" for p using that by (simp add: compute_def bs)
  show ?thesis
  proof (intro exI conjI allI impI)
    show "observe_all bs nc nf os = Inr m" by (fact m(1))
    show "length (compute m) = bs" by (simp add: compute_def bs)
  next
    fix p
    assume p: "p < bs"
    show "let e = compute m ! p; k = reaching os p; h = clamped os in
       position e = p \<and> total_weight e = of_nat k
     \<and> (if k = 0 then ece e = None \<and> auc e = None \<and> brier e = None \<and> pred_mean e = None \<and> target_mean e = None
        else brier e = Some (hsum (\<lambda>p t. (p - t) ^ 2) h p / of_nat k)
           \<and> pred_mean e = Some (hsum (\<lambda>p _. p) h p / of_nat k)
           \<and> target_mean e = Some (hsum (\<lambda>_ t. t) h p / of_nat k)
           \<and> in_unit (ece e) \<and> in_unit (brier e) \<and> in_unit (pred_mean e) \<and> in_unit (target_mean e)
           \<and> (auc e = None \<or> in_unit (auc e)))"
    proof (cases "reaching os p = 0")
      case True
      with zero [OF p] show ?thesis by (simp add: Let_def pos [OF p])
    next
      case False
      then have k: "0 < reaching os p" by simp
      note S = compute_position_scores [OF m(2) p bins hist_ok_clamped [OF ok] hsum_one k]
      show ?thesis
        unfolding Let_def pos [OF p] if_not_P [OF False] by (intro conjI S)
    qed
  qed
qed

theorem calibration_report_witness:
  "\<exists>m. observe_all 2 4 8 [([1/2, 1/4], [1, 0]), ([9/10], [1])] = Inr m
     \<and> brier (compute m ! 0) = Some (13 / 100)"
proof -
  have ok: "observations_ok 2 [([1/2, 1/4], [1, 0]), ([9/10], [1])]" by (simp add: observations_ok_def)
  have "reaching [([1/2, 1/4], [1, 0]), ([9/10], [1])] 0 = 2"
    and "hsum (\<lambda>p t. (p - t) ^ 2) (clamped [([1/2, 1/4], [1, 0]), ([9/10], [1])]) 0 = 26 / 100"
    by code_simp+
  with calibration_report [OF _ _ ok, of 4 8] show ?thesis by (fastforce simp: Let_def)
qed

text \<open>The recorder: an observation of a verified proposal that carries its confidences does not raise.\<close>

lemma cumprod_rat_length [simp]: "length (cumprod_rat xs) = length xs"
  by (induction xs) auto

definition recorder_ok :: "recorder \<Rightarrow> bool" where
  "recorder_ok rc \<longleftrightarrow> 0 < num_bins rc \<and> 0 < num_fine rc \<and>
     (\<exists>m hist. dataset_metrics rc = Some m \<and> tracks m (max_proposal_tokens rc) (num_bins rc) (num_fine rc) hist)"

lemma recorder_start_ok: "0 < num_bins rc \<Longrightarrow> 0 < num_fine rc \<Longrightarrow> recorder_ok (recorder_start rc)"
  using tracks_init by (auto simp: recorder_ok_def recorder_start_def)

lemma observe_ok:
  assumes rc: "recorder_ok rc" and len: "draft_token_count p \<le> max_proposal_tokens rc"
    and conf: "draft_token_count p = 0 \<or> (\<exists>lg. confidence_logits p = Some lg \<and> length lg = draft_token_count p)"
    and v: "verified H p v"
  obtains rc' where "observe sg rc p v = Inr rc'" and "recorder_ok rc'"
    and "max_proposal_tokens rc' = max_proposal_tokens rc"
proof -
  obtain m hist where m: "dataset_metrics rc = Some m"
    "tracks m (max_proposal_tokens rc) (num_bins rc) (num_fine rc) hist" and bins: "0 < num_bins rc" "0 < num_fine rc"
    using rc by (auto simp: recorder_ok_def)
  define eff where "eff = effective_proposal_length v"
  show ?thesis
  proof (cases "draft_token_count p = 0 \<or> eff = 0")
    case True
    with m(1) have "observe sg rc p v = Inr rc" by (auto simp: observe_def eff_def Let_def)
    then show ?thesis using rc by (rule that) simp
  next
    case False
    then obtain lg msk where lg: "confidence_logits p = Some lg" "length lg = draft_token_count p"
      and msk: "accept_prefix_mask v = Some msk" "length msk = draft_token_count p"
      using conf v by (auto simp: verified_def)
    have eff: "eff \<le> draft_token_count p" using v by (simp add: verified_def eff_def)
    obtain m' where m': "update m (cumprod_rat (map sg (take eff lg))) (map of_nat (take eff msk)) = Inr m'"
      "tracks m' (max_proposal_tokens rc) (num_bins rc) (num_fine rc)
         (hist @ [(map clamp_prob (cumprod_rat (map sg (take eff lg))), map of_nat (take eff msk))])"
      by (rule update_tracks [OF m(2) bins, of "map of_nat (take eff msk)" "cumprod_rat (map sg (take eff lg))"])
         (use lg(2) msk(2) eff len in auto)
    show ?thesis
      by (rule that [of "rc\<lparr> dataset_metrics := Some m' \<rparr>"])
         (use m(1) m' lg(1) msk(1) False bins in \<open>auto simp: observe_def Let_def eff_def recorder_ok_def\<close>)
  qed
qed

end
