(* ===== verification/Lossless_Decoding.thy ===== *)
theory Lossless_Decoding
  imports Verification_Step
begin

text \<open>
  Greedy speculative decoding is lossless: for any draft model whose proposals are
  well formed, the tokens emitted by the decoding loop are those of plain greedy
  autoregressive decoding of the target model, cut after the first stop token. The proof
  carries an invariant that ties the output buffer, the read position and the target
  model's cache together.
\<close>

section \<open>The reference: autoregressive greedy decoding\<close>

fun greedy_decode :: "(token list \<Rightarrow> rat list) \<Rightarrow> token list \<Rightarrow> nat \<Rightarrow> token list" where
  "greedy_decode f ctx 0 = []"
| "greedy_decode f ctx (Suc n) = (let t = argmax (f ctx) in t # greedy_decode f (ctx @ [t]) n)"

text \<open>The tokens up to and including the first stop token.\<close>

fun upto_stop :: "token list \<Rightarrow> token list \<Rightarrow> token list" where
  "upto_stop stops [] = []"
| "upto_stop stops (t # ts) = (if t \<in> set stops then [t] else t # upto_stop stops ts)"

lemma greedy_decode_length [simp]: "length (greedy_decode f ctx n) = n"
  by (induction n arbitrary: ctx) (auto simp: Let_def)

lemma greedy_decode_Suc_snoc:
  "greedy_decode f ctx (Suc n) =
     greedy_decode f ctx n @ [argmax (f (ctx @ greedy_decode f ctx n))]"
proof (induction n arbitrary: ctx)
  case 0
  then show ?case by (simp add: Let_def)
next
  case (Suc n)
  have "greedy_decode f ctx (Suc (Suc n)) =
          argmax (f ctx) # greedy_decode f (ctx @ [argmax (f ctx)]) (Suc n)"
    by (simp add: Let_def)
  also have "\<dots> = argmax (f ctx) # greedy_decode f (ctx @ [argmax (f ctx)]) n
      @ [argmax (f ((ctx @ [argmax (f ctx)]) @ greedy_decode f (ctx @ [argmax (f ctx)]) n))]"
    by (simp only: Suc.IH)
  finally show ?case by (simp add: Let_def)
qed

lemma greedy_decode_take: "m \<le> n \<Longrightarrow> take m (greedy_decode f ctx n) = greedy_decode f ctx m"
proof (induction n)
  case (Suc n)
  then show ?case
    by (cases "m = Suc n") (simp_all add: greedy_decode_Suc_snoc del: greedy_decode.simps)
qed simp

lemma upto_stop_none: "set xs \<inter> set stops = {} \<Longrightarrow> upto_stop stops xs = xs"
  by (induction xs) auto

lemma upto_stop_first:
  "set xs \<inter> set stops = {} \<Longrightarrow> t \<in> set stops \<Longrightarrow> upto_stop stops (xs @ t # ys) = xs @ [t]"
  by (induction xs) auto

lemma upto_stop_append:
  "upto_stop stops (xs @ ys) =
     (if set xs \<inter> set stops = {} then xs @ upto_stop stops ys else upto_stop stops xs)"
  by (induction xs) auto

lemma upto_stop_Nil_stops [simp]: "upto_stop [] xs = xs"
  by (induction xs) auto

lemma isin_Cons: "isin (x # xs) stops = (x \<in> set stops) # isin xs stops"
  by (simp add: isin_def)

lemma upto_stop_take:
  "upto_stop stops xs =
     (case nonzero (isin xs stops) of [] \<Rightarrow> xs | i # _ \<Rightarrow> take (Suc i) xs)"
proof (cases "nonzero (isin xs stops)")
  case Nil
  then have "set xs \<inter> set stops = {}" by (auto simp: nonzero_Nil_iff isin_def)
  with Nil show ?thesis by (simp add: upto_stop_none)
next
  case (Cons i js)
  from nonzero_Cons_iff [OF Cons]
  have i: "i = length (takeWhile (\<lambda>t. t \<notin> set stops) xs)" "i < length xs" "xs ! i \<in> set stops"
    by (auto simp: isin_def takeWhile_map comp_def)
  have "set (take i xs) \<inter> set stops = {}"
    using i(1) by (metis (no_types, lifting) disjoint_iff set_takeWhileD takeWhile_eq_take)
  then have "upto_stop stops (take i xs @ xs ! i # drop (Suc i) xs) = take i xs @ [xs ! i]"
    using i(3) by (rule upto_stop_first)
  with Cons i(2) show ?thesis
    by (simp add: id_take_nth_drop [symmetric] take_Suc_conv_app_nth)
qed

text \<open>The code's trimming is the reference cut on the generated part.\<close>

lemma trim_output_ids_upto_stop:
  "trim_output_ids (pre @ xs) (length pre) stops = pre @ upto_stop (stop_list stops) xs"
proof (cases stops)
  case None
  then show ?thesis by (simp add: trim_output_ids_def)
next
  case (Some s)
  then show ?thesis by (auto simp: trim_output_ids_def upto_stop_take split: list.splits)
qed

section \<open>Documented behaviour of the target model\<close>

text \<open>
  A causal language model with a key/value cache: the cache stands for the tokens fed so
  far; a call with the matching position ids returns, for every fed token, the logits of
  the next token given the whole prefix, and appends the tokens to the cache; cropping
  keeps a prefix. \<open>next_logits\<close> is the model as a function of the context.
\<close>

definition causal_lm ::
  "('c, 'h, 'r) runtime \<Rightarrow> ('c \<Rightarrow> token list) \<Rightarrow> (token list \<Rightarrow> rat list) \<Rightarrow> nat \<Rightarrow> bool" where
  "causal_lm rt tokens_of next_logits V \<longleftrightarrow>
     V > 0 \<and> (\<forall>ctx. length (next_logits ctx) = V)
   \<and> tokens_of (new_cache rt) = []
   \<and> (\<forall>c n. tokens_of (cache_crop rt c n) = take n (tokens_of c))
   \<and> (\<forall>c ids keep.
        let n = length (tokens_of c);
            out = target_model rt c ids [n..<n + length ids] keep;
            rows = map (\<lambda>i. next_logits (tokens_of c @ take (Suc i) ids)) [0..<length ids]
        in tokens_of (snd out) = tokens_of c @ ids
         \<and> logits (fst out) = (if keep = 0 then rows else drop (length rows - keep) rows))"

text \<open>
  What the decoding loop needs of a drafter, whose context satisfies \<open>I pos x start\<close> before a
  proposal from position \<open>start\<close> and \<open>K pos p x start\<close> after it, \<open>pos\<close> being the position ids
  of the run: on tokens of the vocabulary the initial context is good, proposals are well
  formed, the hook does not raise, and \<open>update\<close> brings the context to the next position.
\<close>

definition drafter_ok ::
  "nat \<Rightarrow> nat \<Rightarrow> (nat \<Rightarrow> 'h \<Rightarrow> bool) \<Rightarrow> (nat list \<Rightarrow> 'x \<Rightarrow> nat \<Rightarrow> bool)
   \<Rightarrow> (nat list \<Rightarrow> 'p draft_proposal_scheme \<Rightarrow> 'x \<Rightarrow> nat \<Rightarrow> bool) \<Rightarrow> ('h, 'x, 'r, 'p) drafter \<Rightarrow> bool" where
  "drafter_ok V mp H I K dr \<longleftrightarrow>
     (\<forall>o1 out pos n. H n (hidden_states o1) \<and> 0 < n \<and> n < length out \<and> set (take (Suc n) out) \<subseteq> {..<V}
        \<and> n + mp + 1 < length pos \<longrightarrow> (\<exists>x. init_context dr o1 out pos n = Inr x \<and> I pos x n))
   \<and> (\<forall>x out pos start stops r.
        start < length out \<and> out ! start < V \<and> start + mp + 1 < length pos \<and> I pos x start \<longrightarrow>
        (case propose dr x out pos start stops r of Inl _ \<Rightarrow> False
         | Inr (p, x', _) \<Rightarrow> proposal_ok V mp (out ! start) p \<and> K pos p x' start))
   \<and> (case post_verify dr of None \<Rightarrow> True
      | Some f \<Rightarrow> (\<forall>pos p v x start cur. K pos p x start \<and> proposal_ok V mp cur p \<and> verified H p v \<longrightarrow>
                    (\<exists>x'. f p v x = Inr x' \<and> K pos p x' start)))
   \<and> (\<forall>pos p v x start cur. K pos p x start \<and> proposal_ok V mp cur p \<and> verified H p v \<and> next_token v < V \<longrightarrow>
        (\<exists>x'. update_context dr x v = Inr x' \<and> I pos x' (start + accepted_draft_tokens v + 1)))"

definition covers_inputs :: "('c, 'h, 'r) runtime \<Rightarrow> (nat \<Rightarrow> 'h \<Rightarrow> bool) \<Rightarrow> bool" where
  "covers_inputs rt H \<longleftrightarrow>
     (\<forall>c ids pos keep. H (length ids) (hidden_states (fst (target_model rt c ids pos keep))))"

section \<open>The invariant of the loop\<close>

definition greedy_setup ::
  "('c, 'h, 'r) runtime \<Rightarrow> ('h, 'x, 'r, 'p) drafter \<Rightarrow> (nat \<Rightarrow> 'h \<Rightarrow> bool) \<Rightarrow> (nat list \<Rightarrow> 'x \<Rightarrow> nat \<Rightarrow> bool)
   \<Rightarrow> (nat list \<Rightarrow> 'p draft_proposal_scheme \<Rightarrow> 'x \<Rightarrow> nat \<Rightarrow> bool) \<Rightarrow> ('c \<Rightarrow> token list)
   \<Rightarrow> (token list \<Rightarrow> rat list) \<Rightarrow> nat \<Rightarrow> rat \<Rightarrow> nat \<Rightarrow> bool" where
  "greedy_setup rt dr H I K tokens_of next_logits V T mp \<longleftrightarrow>
     causal_lm rt tokens_of next_logits V
   \<and> (\<forall>xs. length (rt_softmax rt xs) = length xs)
   \<and> draws_unit (rt_rand_like rt) \<and> draws_support (rt_multinomial rt)
   \<and> T < 1 / 100000 \<and> drafter_ok V mp H I K dr \<and> covers_inputs rt H"

lemma greedy_setupD:
  assumes "greedy_setup rt dr H I K tokens_of f V T mp"
  shows "causal_lm rt tokens_of f V" "\<And>xs. length (rt_softmax rt xs) = length xs"
    "draws_unit (rt_rand_like rt)" "draws_support (rt_multinomial rt)" "T < 1 / 100000"
    "drafter_ok V mp H I K dr" "covers_inputs rt H"
  using assms by (auto simp: greedy_setup_def)

lemma causal_lmD:
  assumes "causal_lm rt tokens_of f V"
  shows "V > 0" "length (f ctx) = V" "tokens_of (new_cache rt) = []"
    "tokens_of (cache_crop rt c n) = take n (tokens_of c)"
    "tokens_of (snd (target_model rt c ids [length (tokens_of c)..<length (tokens_of c) + length ids] keep))
       = tokens_of c @ ids"
    "logits (fst (target_model rt c ids [length (tokens_of c)..<length (tokens_of c) + length ids] keep)) =
       (let rows = map (\<lambda>i. f (tokens_of c @ take (Suc i) ids)) [0..<length ids]
        in if keep = 0 then rows else drop (length rows - keep) rows)"
  using assms by (simp_all add: causal_lm_def Let_def)

text \<open>
  Buffer, position and cache agree: the first \<open>start + 1\<close> buffer cells are the prompt and
  the greedy continuation, the cache holds the first \<open>start\<close> of them, no generated
  token is a stop token yet, and the drafter's context is good at \<open>start\<close>.
\<close>

definition decode_inv ::
  "('x \<Rightarrow> nat \<Rightarrow> bool) \<Rightarrow> ('c \<Rightarrow> token list) \<Rightarrow> (token list \<Rightarrow> rat list) \<Rightarrow> token list
   \<Rightarrow> decode_params \<Rightarrow> ('c, 'x, 'r) decode_state \<Rightarrow> bool" where
  "decode_inv I tokens_of f prompt pr s \<longleftrightarrow>
     (let n0 = length prompt; k = ds_start s; out = ds_output_ids s;
          gen = greedy_decode f prompt (Suc k - n0) in
      n0 \<le> k \<and> k \<le> max_length pr + max_proposal pr
    \<and> length out = max_length pr + max_proposal pr + 1
    \<and> take (Suc k) out = prompt @ gen
    \<and> tokens_of (ds_cache s) = take k out
    \<and> set gen \<inter> set (stop_list (stop_ids pr)) = {}
    \<and> I (ds_context s) k)"

definition decode_post ::
  "(token list \<Rightarrow> rat list) \<Rightarrow> token list \<Rightarrow> decode_params \<Rightarrow> ('c, 'x, 'r) decode_state \<Rightarrow> bool" where
  "decode_post f prompt pr s \<longleftrightarrow>
     (let n0 = length prompt; k = ds_start s; gen = greedy_decode f prompt (Suc k - n0) in
      n0 \<le> k \<and> take (Suc k) (ds_output_ids s) = prompt @ gen
    \<and> (max_length pr \<le> k \<or> set gen \<inter> set (stop_list (stop_ids pr)) \<noteq> {}))"

text \<open>A draft that follows the argmax extends the greedy continuation token by token.\<close>

lemma greedy_block:
  assumes start: "ctx @ take 1 v = prompt @ greedy_decode f prompt m"
    and follow: "\<And>i. i < a \<Longrightarrow> v ! Suc i = argmax (f (ctx @ take (Suc i) v))"
    and len: "a < length v" and j: "j \<le> a"
  shows "ctx @ take (Suc j) v = prompt @ greedy_decode f prompt (m + j)"
  using j
proof (induction j)
  case 0
  then show ?case using start by simp
next
  case (Suc j)
  have IH: "ctx @ take (Suc j) v = prompt @ greedy_decode f prompt (m + j)"
    using Suc by simp
  have "ctx @ take (Suc (Suc j)) v = (ctx @ take (Suc j) v) @ [v ! Suc j]"
    using Suc.prems len by (simp add: take_Suc_conv_app_nth)
  also have "v ! Suc j = argmax (f (ctx @ take (Suc j) v))"
    using follow [of j] Suc.prems by simp
  finally show ?case
    by (simp add: IH greedy_decode_Suc_snoc del: greedy_decode.simps)
qed

lemma takeWhile_upt_prefix:
  assumes "a \<le> length (takeWhile P [0..<n])" and "i < a"
  shows "P i"
proof -
  have "i < length (takeWhile P [0..<n])" using assms by simp
  then have "takeWhile P [0..<n] ! i \<in> set (takeWhile P [0..<n])" by simp
  moreover have "takeWhile P [0..<n] ! i = i"
    using assms by (metis add_0 diff_zero length_takeWhile_le length_upt nth_upt order_less_le_trans takeWhile_nth)
  ultimately show ?thesis by (metis set_takeWhileD)
qed

text \<open>One verification in greedy mode, from a state that satisfies the invariant.\<close>

lemma verify_greedy:
  assumes su: "greedy_setup rt dr H I K tokens_of f V T mp"
    and ok: "proposal_ok V mp cur p" and cache: "length (tokens_of c) = start"
    and pos: "start + (draft_token_count p + 1) \<le> L"
    and ctx: "tokens_of c @ [cur] = prompt @ greedy_decode f prompt m"
  obtains v c' r' where
    "verify_draft_tokens rt p [0..<L] start c T mp (Some [cur]) stops r = Inr (v, c', r')"
    "tokens_of c' = tokens_of c @ verify_input_ids p"
    "accepted_draft_tokens v \<le> draft_token_count p"
    "\<And>j. j \<le> accepted_draft_tokens v \<Longrightarrow>
        tokens_of c @ take (Suc j) (verify_input_ids p) = prompt @ greedy_decode f prompt (m + j)"
    "next_token v = argmax (f (tokens_of c @ take (Suc (accepted_draft_tokens v)) (verify_input_ids p)))"
    "terminated_by_stop_token v \<Longrightarrow> \<exists>s. stops = Some s \<and> 0 < accepted_draft_tokens v
        \<and> verify_input_ids p ! accepted_draft_tokens v \<in> set s"
    "\<not> terminated_by_stop_token v \<Longrightarrow>
        set (py_slice 1 (accepted_draft_tokens v + 1) (verify_input_ids p)) \<inter> set (stop_list stops) = {}"
    "verified H p v"
proof -
  note D = greedy_setupD [OF su]
  note lm = causal_lmD [OF greedy_setupD(1) [OF su]]
  define ids where "ids = verify_input_ids p"
  define n where "n = draft_token_count p"
  have lids: "length ids = n + 1" "take 1 ids = [cur]" using ok by (auto simp: proposal_ok_def ids_def n_def)
  have slice: "py_slice start (start + (n + 1)) [0..<L] = [start..<start + length ids]"
    using pos lids by (simp add: py_slice_def drop_upt take_upt n_def)
  obtain out c' where model: "target_model rt c ids [start..<start + length ids] 0 = (out, c')" by fastforce
  define rows where "rows = map (\<lambda>i. f (tokens_of c @ take (Suc i) ids)) [0..<length ids]"
  have out: "logits out = rows" "tokens_of c' = tokens_of c @ ids"
    using lm(5,6) [of c ids 0] model cache by (simp_all add: rows_def Let_def)
  have rows: "rows_ok V (n + 1) rows"
    using lm(2) lids by (auto simp: rows_ok_def rows_def)
  have rown: "rows ! i = f (tokens_of c @ take (Suc i) ids)" if "i \<le> n" for i
    using that lids by (simp add: rows_def del: upt_Suc)
  define tp where "tp = map (\<lambda>row. logits_to_probs (rt_softmax rt) row T) rows"
  obtain msk acc0 r1 acc eff stopped nxt r2 where v:
    "rejection_sample rt p tp r = Inr (msk, acc0, r1)" "acc0 \<le> n"
    "truncate_at_stop stops ids n acc0 = (acc, eff, stopped)" "acc \<le> acc0"
    "sample_next_token rt p tp acc r1 = Inr (nxt, r2)"
    "verify_draft_tokens rt p [0..<L] start c T mp (Some [cur]) stops r =
       Inr (\<lparr> target_output = out, target_probs = tp, accept_prefix_mask = msk,
              accepted_draft_tokens = acc, next_token = nxt, effective_proposal_length = eff,
              terminated_by_stop_token = stopped,
              committed_tokens = Some (py_slice 1 (acc + 1) ids @ [nxt]) \<rparr>, c', r2)"
    using verify_draft_tokens_ok [OF ok, of rt c start "[0..<L]" out c' T r stops]
      D(2,3) model rows slice out(1) unfolding tp_def ids_def n_def by metis
  have acc0: "acc0 = length (takeWhile (\<lambda>i. ids ! Suc i = argmax (rows ! i)) [0..<n])"
    using rejection_sample_greedy [OF ok _ lm(1) D(5) D(3)] rows v(1)
    unfolding tp_def ids_def n_def by metis
  have follow: "ids ! Suc i = argmax (f (tokens_of c @ take (Suc i) ids))" if "i < acc" for i
    using takeWhile_upt_prefix [of acc "\<lambda>i. ids ! Suc i = argmax (rows ! i)" n i] that acc0 v(2,4) rown [of i]
    by simp
  have block: "tokens_of c @ take (Suc j) ids = prompt @ greedy_decode f prompt (m + j)" if "j \<le> acc" for j
    using greedy_block [of "tokens_of c" ids prompt f m acc j] ctx lids follow that v(2,4) by simp
  have nxt: "nxt = argmax (f (tokens_of c @ take (Suc acc) ids))"
    using sample_next_token_greedy [OF ok _ lm(1) D(5) D(4), of rows acc _ r1 nxt r2] rows v rown [of acc]
    by (simp add: tp_def n_def)
  have st: "\<exists>s. stops = Some s \<and> 0 < acc \<and> ids ! acc \<in> set s" if stopped
    using truncate_stop [of stops ids n acc0 acc eff] v(2,3) that lids by auto
  have nost: "set (py_slice 1 (acc + 1) ids) \<inter> set (stop_list stops) = {}" if "\<not> stopped"
    using truncate_no_stop [of stops ids n acc0 acc eff] truncate_at_stop_bounds [OF v(3,2)] v(3) that by auto
  have "H (length ids) (hidden_states out)"
    using D(7) model unfolding covers_inputs_def by (metis fst_conv)
  then have ver: "verified H p w" if w: "verify_draft_tokens rt p [0..<L] start c T mp (Some [cur]) stops r = Inr (w, c', r2)" for w
    by (intro verify_verified [OF ok _ _ D(2) D(3) _ w, of out c'])
       (use model slice rows out(1) lids in \<open>simp_all add: ids_def n_def\<close>)
  show ?thesis
    by (rule that [OF v(6)]) (use out v(2,4) block nxt st nost ver [OF v(6)] in \<open>simp_all add: ids_def n_def\<close>)
qed

lemma set_slice_greedy:
  assumes "ctx @ take (Suc a) v = prompt @ greedy_decode f prompt (m + a)"
    and "ctx @ take 1 v = prompt @ greedy_decode f prompt m" and "a < length v"
  shows "greedy_decode f prompt (m + a) = greedy_decode f prompt m @ py_slice 1 (a + 1) v"
proof -
  have "take (Suc a) v = take 1 v @ py_slice 1 (a + 1) v"
    using take_py_slice [of 1 "a + 1" v] by simp
  then have "prompt @ greedy_decode f prompt (m + a) = (prompt @ greedy_decode f prompt m) @ py_slice 1 (a + 1) v"
    using assms(1,2) by (metis append_assoc)
  then show ?thesis by simp
qed

text \<open>
  The list part of the step: after copying the accepted block (and, when decoding goes on,
  the next token) the buffer again starts with the greedy continuation.
\<close>

lemma commit_greedy:
  assumes "take k out @ take (Suc a) ids = prompt @ greedy_decode f prompt (m + a)"
    and "a < length ids" and "k + a + 1 < length out"
  shows "take (Suc (k + a)) (commit_block out k a ids) = prompt @ greedy_decode f prompt (m + a)"
    and "take (Suc (k + a + 1)) ((commit_block out k a ids)
           [k + a + 1 := argmax (f (take k out @ take (Suc a) ids))])
         = prompt @ greedy_decode f prompt (m + a + 1)"
  using assms take_commit_block [of a ids k out] take_commit_block_next [of a ids k out]
  by (simp_all add: greedy_decode_Suc_snoc del: greedy_decode.simps)

lemma drafter_okD:
  assumes ok: "drafter_ok V mp H I K dr"
    and pre: "start < length out" "out ! start < V" "I pos x start" "start + mp + 1 < length pos"
  obtains p x' r' where "propose dr x out pos start stops r = Inr (p, x', r')"
    and "proposal_ok V mp (out ! start) p" and "K pos p x' start"
proof -
  have "case propose dr x out pos start stops r of Inl _ \<Rightarrow> False
        | Inr (p, x', _) \<Rightarrow> proposal_ok V mp (out ! start) p \<and> K pos p x' start"
    using ok pre unfolding drafter_ok_def by blast
  then show ?thesis using that by (auto split: sum.splits prod.splits)
qed

lemma drafter_ok_hook:
  assumes ok: "drafter_ok V mp H I K dr" and pre: "K pos p x start" "proposal_ok V mp cur p" "verified H p v" "next_token v < V"
  obtains x' x'' where "(case post_verify dr of None \<Rightarrow> Inr x | Some g \<Rightarrow> g p v x) = Inr x'"
    and "update_context dr x' v = Inr x''" and "I pos x'' (start + accepted_draft_tokens v + 1)"
proof -
  have upd: "\<exists>x''. update_context dr x' v = Inr x'' \<and> I pos x'' (start + accepted_draft_tokens v + 1)"
    if "K pos p x' start" for x'
    using ok pre(2-4) that unfolding drafter_ok_def by blast
  show ?thesis
  proof (cases "post_verify dr")
    case None
    then show ?thesis using that upd [OF pre(1)] by auto
  next
    case (Some g)
    have "case post_verify dr of None \<Rightarrow> True
      | Some f \<Rightarrow> (\<forall>pos p v x start cur. K pos p x start \<and> proposal_ok V mp cur p \<and> verified H p v \<longrightarrow>
                    (\<exists>x'. f p v x = Inr x' \<and> K pos p x' start))"
      using ok unfolding drafter_ok_def by blast
    then obtain x' where "g p v x = Inr x'" "K pos p x' start" using pre unfolding Some option.case by blast
    then show ?thesis using that upd [of x'] Some by auto
  qed
qed

lemma drafter_ok_init:
  "drafter_ok V mp H I K dr \<Longrightarrow> H n (hidden_states o1) \<Longrightarrow> 0 < n \<Longrightarrow> n < length out \<Longrightarrow>
   set (take (Suc n) out) \<subseteq> {..<V} \<Longrightarrow> n + mp + 1 < length pos \<Longrightarrow>
   \<exists>x. init_context dr o1 out pos n = Inr x \<and> I pos x n"
  by (simp add: drafter_ok_def)

lemma greedy_decode_less:
  assumes "V > 0" and "\<And>ctx. length (f ctx) = V"
  shows "set (greedy_decode f ctx n) \<subseteq> {..<V}"
proof (induction n arbitrary: ctx)
  case (Suc n)
  have "f ctx \<noteq> []" using assms by (metis length_0_conv less_irrefl)
  then have "argmax (f ctx) < V" using argmax_less assms(2) by metis
  with Suc show ?case by (simp add: Let_def)
qed simp

lemma py_slice_one: "k < length xs \<Longrightarrow> py_slice k (k + 1) xs = [xs ! k]"
  by (simp add: py_slice_def take_Suc hd_drop_conv_nth)

lemma decode_step_greedy:
  assumes su: "greedy_setup rt dr H J K tokens_of f V (temp pr) (max_proposal pr)"
    and inv: "decode_inv (J (pos_ids pr)) tokens_of f prompt pr s" and guard: "ds_start s < max_length pr"
    and positions: "pos_ids pr = [0..<max_length pr + max_proposal pr + 1]"
  shows "\<exists>brk s'. decode_step rt dr pr s = Inr (brk, s')
           \<and> (if brk then decode_post f prompt pr s' else decode_inv (J (pos_ids pr)) tokens_of f prompt pr s')"
proof -
  note D = greedy_setupD [OF su]
  note lm = causal_lmD [OF greedy_setupD(1) [OF su]]
  define k out m L stops where "k = ds_start s" and "out = ds_output_ids s"
    and "m = Suc k - length prompt" and "L = max_length pr + max_proposal pr + 1" and "stops = stop_ids pr"
  have I: "length prompt \<le> k" "length out = L" "take (Suc k) out = prompt @ greedy_decode f prompt m"
    "tokens_of (ds_cache s) = take k out" "set (greedy_decode f prompt m) \<inter> set (stop_list stops) = {}"
    "J (pos_ids pr) (ds_context s) k"
    using inv by (auto simp: decode_inv_def Let_def k_def out_def m_def L_def stops_def)
  have k: "k < max_length pr" "k < length out" using guard I(2) by (auto simp: k_def L_def)
  have "m \<noteq> 0" using I(1) by (simp add: m_def)
  moreover have "last (take (Suc k) out) = out ! k" using k(2) by (simp add: take_Suc_conv_app_nth)
  ultimately have "out ! k \<in> set (greedy_decode f prompt m)"
    unfolding I(3) by (metis greedy_decode_length last_appendR last_in_set length_0_conv)
  then have cur: "out ! k < V" using greedy_decode_less [of V f prompt m, OF lm(1) lm(2)] by blast
  obtain p x1 r1 where pp: "propose dr (ds_context s) out (pos_ids pr) k stops (ds_rng s) = Inr (p, x1, r1)"
    and ok: "proposal_ok V (max_proposal pr) (out ! k) p" and kp: "K (pos_ids pr) p x1 k"
    by (rule drafter_okD [OF D(6) k(2) cur I(6)]) (use k(1) in \<open>simp add: positions\<close>)
  have ctx: "tokens_of (ds_cache s) @ [out ! k] = prompt @ greedy_decode f prompt m"
    using I(3,4) k(2) by (simp add: take_Suc_conv_app_nth)
  obtain v c' r2 where v:
    "verify_draft_tokens rt p [0..<L] k (ds_cache s) (temp pr) (max_proposal pr) (Some [out ! k]) stops r1
       = Inr (v, c', r2)"
    "tokens_of c' = take k out @ verify_input_ids p"
    "accepted_draft_tokens v \<le> draft_token_count p"
    "\<And>j. j \<le> accepted_draft_tokens v \<Longrightarrow>
        take k out @ take (Suc j) (verify_input_ids p) = prompt @ greedy_decode f prompt (m + j)"
    "next_token v = argmax (f (take k out @ take (Suc (accepted_draft_tokens v)) (verify_input_ids p)))"
    "terminated_by_stop_token v \<Longrightarrow> \<exists>st. stops = Some st \<and> 0 < accepted_draft_tokens v
        \<and> verify_input_ids p ! accepted_draft_tokens v \<in> set st"
    "\<not> terminated_by_stop_token v \<Longrightarrow>
        set (py_slice 1 (accepted_draft_tokens v + 1) (verify_input_ids p)) \<inter> set (stop_list stops) = {}"
    "verified H p v"
    unfolding I(4) [symmetric]
    by (rule verify_greedy [OF su ok _ _ ctx, of k L stops r1])
       (use I(4) k ok in \<open>auto simp: L_def proposal_ok_def\<close>)
  have nV: "next_token v < V" unfolding v(5) using lm(1) lm(2) argmax_less by (metis length_greater_0_conv)
  define a ids where "a = accepted_draft_tokens v" and "ids = verify_input_ids p"
  have a: "a < length ids" "k + a + 1 < length out" "a \<le> max_proposal pr"
    using v(3) ok k(1) I(2) by (auto simp: a_def ids_def proposal_ok_def L_def)
  obtain x2 x3 where x2: "(case post_verify dr of None \<Rightarrow> Inr x1 | Some g \<Rightarrow> g p v x1) = Inr x2"
    and x3: "update_context dr x2 v = Inr x3" and J2: "J (pos_ids pr) x3 (k + a + 1)"
    unfolding a_def by (rule drafter_ok_hook [OF D(6) kp ok v(8) nV])
  note blk = commit_greedy [OF v(4) [of a, unfolded a_def, OF order_refl, folded a_def ids_def] a(1,2)]
  have gsl: "greedy_decode f prompt (m + a) = greedy_decode f prompt m @ py_slice 1 (a + 1) ids"
    by (rule set_slice_greedy [of "take k out", OF _ _ a(1)])
       (use v(4) [of a] v(4) [of 0] in \<open>simp_all add: a_def ids_def\<close>)
  have mk: "Suc (k + a) - length prompt = m + a" "Suc (k + a + 1) - length prompt = m + a + 1"
    "Suc (Suc (k + a)) - length prompt = Suc (m + a)"
    using I(1) by (simp_all add: m_def)
  note step = decode_step_eval [of dr s pr p x1 r1 rt v c' r2 x2 x3, folded k_def out_def a_def ids_def stops_def,
      unfolded positions, folded L_def, unfolded py_slice_one [OF k(2)], OF _ v(1) x2 disjI2 [OF x3] a(1,2), unfolded positions [folded L_def, symmetric], OF pp]
  show ?thesis
  proof (cases "terminated_by_stop_token v")
    case True
    then obtain st where st: "stops = Some st" "0 < a" "ids ! a \<in> set st"
      using v(6) by (auto simp: a_def ids_def)
    have "ids ! a = last (greedy_decode f prompt (m + a))"
      using gsl st(2) a(1) last_py_slice [of 1 "a + 1" ids] by simp
    then have "set (greedy_decode f prompt (m + a)) \<inter> set (stop_list stops) \<noteq> {}"
      using st by (metis add_gr_0 disjoint_iff greedy_decode_length last_in_set length_greater_0_conv stop_list.simps(2))
    with True show ?thesis
      using step blk(1) mk(1) I(1) by (auto simp: decode_post_def Let_def stops_def)
  next
    case False
    define new where "new = py_slice 1 (a + 1) ids @ [next_token v]"
    have gnew: "greedy_decode f prompt (m + a + 1) = greedy_decode f prompt m @ new"
      using gsl v(4) [of a] v(5)
      by (simp add: new_def a_def ids_def greedy_decode_Suc_snoc del: greedy_decode.simps)
    have buf: "take (Suc (k + a + 1)) ((commit_block out k a ids)[k + a + 1 := next_token v])
                 = prompt @ greedy_decode f prompt (m + a + 1)"
      using blk(2) v(5) by (simp add: a_def ids_def)
    have cache: "tokens_of (cache_crop rt c' (k + a + 1)) =
        take (k + a + 1) ((commit_block out k a ids)[k + a + 1 := next_token v])"
      using v(2) k(2) a(1,2) take_commit_block [OF a(1), of k out] by (simp add: lm(4) ids_def)
    note st = step [folded new_def, unfolded if_not_P [OF False]]
    have lb: "length ((commit_block out k a ids)[k + a + 1 := next_token v]) = L"
      using a I(2) by (simp add: length_commit_block)
    have "set (greedy_decode f prompt (m + a + 1)) \<inter> set (stop_list stops) = {} \<longleftrightarrow> \<not> has_stop_token new stops"
      using I(5) gnew by (auto simp: has_stop_token_iff)
    then show ?thesis
      using st buf cache lb I(1) a(2,3) k(1) J2
      by (auto simp: decode_post_def decode_inv_def Let_def stops_def [symmetric] L_def mk
          simp del: greedy_decode.simps)
  qed
qed

section \<open>The whole loop\<close>

lemma decode_loop_greedy:
  assumes "greedy_setup rt dr H J K tokens_of f V (temp pr) (max_proposal pr)"
    and "decode_inv (J (pos_ids pr)) tokens_of f prompt pr s"
    and "pos_ids pr = [0..<max_length pr + max_proposal pr + 1]"
  shows "\<exists>s'. decode_loop rt dr pr s = Inr s' \<and> decode_post f prompt pr s'"
  using assms
proof (induction rt dr pr s rule: decode_loop.induct)
  case (1 rt dr pr s)
  show ?case
  proof (cases "ds_start s < max_length pr")
    case False
    with "1.prems"(2) show ?thesis
      by (subst decode_loop.simps) (simp add: decode_inv_def decode_post_def Let_def)
  next
    case True
    obtain brk s' where st: "decode_step rt dr pr s = Inr (brk, s')"
      "if brk then decode_post f prompt pr s' else decode_inv (J (pos_ids pr)) tokens_of f prompt pr s'"
      using decode_step_greedy [OF "1.prems"(1,2) True "1.prems"(3)] by auto
    show ?thesis
    proof (cases brk)
      case b: True
      with st True show ?thesis by (subst decode_loop.simps) simp
    next
      case False
      with st(2) have "decode_inv (J (pos_ids pr)) tokens_of f prompt pr s'" by simp
      with "1.IH" [OF True st(1) refl False] "1.prems"(1,3)
      have "\<exists>t. decode_loop rt dr pr s' = Inr t \<and> decode_post f prompt pr t" by simp
      with st(1) True False show ?thesis by (subst decode_loop.simps) simp
    qed
  qed
qed

text \<open>The final cut of the buffer gives the reference output.\<close>

lemma decode_post_output:
  assumes post: "decode_post f prompt pr s" and len: "max_length pr = length prompt + N"
  shows "trim_output_ids (take (min (ds_start s + 1) (max_length pr)) (ds_output_ids s)) (length prompt) (stop_ids pr)
           = prompt @ upto_stop (stop_list (stop_ids pr)) (greedy_decode f prompt N)"
proof -
  define k gen stops where "k = ds_start s" and "gen = greedy_decode f prompt" and "stops = stop_list (stop_ids pr)"
  have P: "length prompt \<le> k" "take (Suc k) (ds_output_ids s) = prompt @ gen (Suc k - length prompt)"
    "max_length pr \<le> k \<or> set (gen (Suc k - length prompt)) \<inter> set stops \<noteq> {}"
    using post by (auto simp: decode_post_def Let_def k_def gen_def stops_def)
  define j where "j = min (Suc k - length prompt) N"
  have "take (min (Suc k) (max_length pr)) (ds_output_ids s) = take (length prompt + N) (take (Suc k) (ds_output_ids s))"
    by (simp add: len min.commute)
  also have "\<dots> = prompt @ gen j"
    using P(1) unfolding P(2) by (cases "N \<le> Suc k - length prompt") (simp_all add: gen_def j_def greedy_decode_take)
  finally have out: "take (min (ds_start s + 1) (max_length pr)) (ds_output_ids s) = prompt @ gen j"
    by (simp add: k_def)
  have "upto_stop stops (gen j) = upto_stop stops (gen N)"
  proof (cases "N \<le> Suc k - length prompt")
    case False
    then have "set (gen j) \<inter> set stops \<noteq> {}" using P(3) len by (auto simp: j_def)
    moreover have "gen N = gen j @ drop j (gen N)"
      using greedy_decode_take [of j N f prompt] by (metis append_take_drop_id gen_def j_def min.cobounded2)
    ultimately show ?thesis by (metis upto_stop_append)
  qed (simp add: j_def)
  then show ?thesis
    by (simp only: out trim_output_ids_upto_stop stops_def gen_def)
qed

lemma decode_inv_initial:
  assumes lm: "causal_lm rt tokens_of f V" and "prompt \<noteq> []"
    and "length out0 = length prompt + N + mp + 1" and "mp \<ge> 1"
    and cache: "tokens_of c = prompt" and first: "t = argmax (f prompt)"
    and nostop: "\<not> has_stop_token [t] stops" and ctx: "J x (length prompt)"
  shows "decode_inv J tokens_of f prompt
     \<lparr> max_length = length prompt + N, max_proposal = mp, temp = T, stop_ids = stops, pos_ids = ps \<rparr>
     \<lparr> ds_start = length prompt, ds_output_ids = prompt @ t # drop (Suc (length prompt)) out0,
       ds_acceptance_lengths = [], ds_proposal_lengths = [], ds_accepted_draft_lengths = [],
       ds_cache = c, ds_context = x, ds_rng = r \<rparr>"
  using assms by (auto simp: decode_inv_def Let_def has_stop_token_iff)

lemma greedy_decoding:
  assumes su: "greedy_setup rt dr H J K tokens_of f V T mp"
    and "prompt \<noteq> []" and "N \<ge> 1" and mp: "mp \<ge> 1" and toks: "set prompt \<subseteq> {..<V}"
    and alloc: "\<And>n. length (torch_empty rt n) = n"
  shows "\<exists>res. generate_decoding_sample rt dr prompt N mp T stops r = Inr res
           \<and> res_output_ids res = prompt @ upto_stop (stop_list stops) (greedy_decode f prompt N)"
proof -
  note D = greedy_setupD [OF su]
  note lm = causal_lmD [OF greedy_setupD(1) [OF su]]
  define n0 L where "n0 = length prompt" and "L = n0 + N + mp + 1"
  define out0 where "out0 = torch_empty rt L"
  have len: "length out0 = L" using alloc by (simp add: out0_def)
  obtain o1 c where model: "target_model rt (new_cache rt) prompt [0..<n0] 1 = (o1, c)" by fastforce
  have pos: "py_slice 0 n0 [0..<L] = [0..<n0]" by (simp add: L_def take_upt)
  have single: "[length prompt - Suc 0..<length prompt] = [length prompt - 1]"
    using \<open>prompt \<noteq> []\<close> by (cases prompt rule: rev_cases) auto
  have rows: "logits o1 = [f prompt]" and cache: "tokens_of c = prompt"
    using lm(5,6) [of "new_cache rt" prompt 1] model lm(3) \<open>prompt \<noteq> []\<close>
    by (simp_all add: Let_def n0_def drop_map single)
  define t where "t = argmax (f prompt)"
  have "f prompt \<noteq> []" using lm(1) lm(2) [of prompt] by auto
  then have tV: "t < V" using argmax_less lm(2) t_def by metis
  obtain r1 where draw: "rt_multinomial rt (one_hot V t) r = (t, r1)"
    using draw_one_hot [OF D(4) tV, of r] by (metis prod.collapse)
  have fst: "sample_from_probs (rt_multinomial rt) (map (\<lambda>row. logits_to_probs (rt_softmax rt) row T) (logits o1)) r = ([t], r1)"
    using draw D(5) lm(2) [of prompt] by (simp add: rows greedy_probs t_def)
  have "H n0 (hidden_states o1)"
    using D(7) model unfolding covers_inputs_def n0_def by (metis fst_conv)
  then obtain x where x: "init_context dr o1 (prompt @ t # drop (Suc n0) out0) [0..<L] n0 = Inr x" "J [0..<L] x n0"
    using drafter_ok_init [OF D(6), of n0 o1 "prompt @ t # drop (Suc n0) out0" "[0..<L]"] toks tV \<open>prompt \<noteq> []\<close> \<open>N \<ge> 1\<close>
    by (auto simp: n0_def L_def)
  define s0 where "s0 = \<lparr> ds_start = n0, ds_output_ids = prompt @ t # drop (Suc n0) out0,
    ds_acceptance_lengths = [], ds_proposal_lengths = [], ds_accepted_draft_lengths = [], ds_cache = c,
    ds_context = x, ds_rng = r1 \<rparr>"
  define pr where "pr = \<lparr> max_length = n0 + N, max_proposal = mp, temp = T, stop_ids = stops, pos_ids = [0..<L] \<rparr>"
  have gen: "generate_decoding_sample rt dr prompt N mp T stops r =
     (if has_stop_token [t] stops then Inr (pack_result [] [] [] (trim_output_ids (prompt @ [t]) n0 stops) n0)
      else bindE (decode_loop rt dr pr s0) (\<lambda>s. Inr (pack_state s
             (trim_output_ids (take (min (ds_start s + 1) (n0 + N)) (ds_output_ids s)) n0 stops) n0)))"
    using generate_decoding_sample_eval [OF mp model [unfolded n0_def] pos [unfolded n0_def] fst, of N dr x stops] len x(1)
    by (simp add: n0_def L_def out0_def s0_def pr_def Let_def)
  show ?thesis
  proof (cases "has_stop_token [t] stops")
    case True
    then have "upto_stop (stop_list stops) (greedy_decode f prompt N) = [t]"
      using \<open>N \<ge> 1\<close> by (cases N) (auto simp: Let_def t_def has_stop_token_iff)
    moreover have "upto_stop (stop_list stops) [t] = [t]" by simp
    ultimately show ?thesis
      using True gen by (simp add: trim_output_ids_upto_stop n0_def pack_result_def del: upto_stop.simps)
  next
    case False
    have "decode_inv (J [0..<L]) tokens_of f prompt pr s0"
      unfolding pr_def s0_def n0_def
      by (rule decode_inv_initial [OF D(1)])
         (use \<open>prompt \<noteq> []\<close> len mp cache False x(2) in \<open>simp_all add: L_def n0_def t_def\<close>)
    then obtain s where s: "decode_loop rt dr pr s0 = Inr s" "decode_post f prompt pr s"
      using decode_loop_greedy [of rt dr H J K tokens_of f V pr prompt s0] su by (auto simp: pr_def L_def)
    show ?thesis
      using gen False s(1) decode_post_output [OF s(2), of N] by (simp add: pr_def n0_def pack_result_def)
  qed
qed

text \<open>
  (C1) Losslessness. With a causal target model, a documented sampler and any well-formed
  drafter, greedy speculative decoding (temperature below \<open>1e-5\<close>) raises no exception and
  returns the prompt followed by the target model's own greedy continuation of
  \<open>max_new_tokens\<close> tokens, cut after the first stop token.
\<close>

theorem greedy_decoding_lossless:
  assumes su: "greedy_setup rt dr H J K tokens_of f V T mp"
    and ne: "prompt \<noteq> []" and N: "N \<ge> 1" and mp: "mp \<ge> 1" and toks: "set prompt \<subseteq> {..<V}"
    and alloc: "\<And>n. length (torch_empty rt n) = n"
  shows "\<exists>res. generate_decoding_sample rt dr prompt N mp T stops r = Inr res
           \<and> res_output_ids res = prompt @ upto_stop (stop_list stops) (greedy_decode f prompt N)"
  by (rule greedy_decoding [OF su ne N mp toks alloc])

text \<open>A three-token target model and a one-token drafter on which the setup holds.\<close>

definition toy_logits :: "token list \<Rightarrow> rat list" where
  "toy_logits ctx = (if length ctx mod 3 = 0 then [3, 1, 2] else if length ctx mod 3 = 1 then [0, 5, 1] else [0, 1, 4])"

definition toy_runtime :: "(token list, unit, unit) runtime" where
  "toy_runtime = \<lparr>
     target_model = (\<lambda>c ids pos keep.
       let rows = map (\<lambda>i. toy_logits (c @ take (Suc i) ids)) [0..<length ids]
       in (\<lparr> logits = (if keep = 0 then rows else drop (length rows - keep) rows), hidden_states = () \<rparr>, c @ ids)),
     cache_crop = (\<lambda>c n. take n c), new_cache = [], rt_softmax = (\<lambda>xs. xs),
     rt_rand_like = (\<lambda>n r. (replicate n 0, r)), rt_multinomial = (\<lambda>w r. (argmax w, r)),
     torch_empty = (\<lambda>n. replicate n 0) \<rparr>"

definition toy_drafter :: "(unit, unit, unit, unit) drafter" where
  "toy_drafter = \<lparr>
     init_context = (\<lambda>_ _ _ _. Inr ()),
     propose = (\<lambda>x out pos start stops r.
       Inr (\<lparr> draft_token_count = 1, verify_input_ids = [out ! start, 2],
              draft_probs = Some [[0, 1/2, 1/2]] \<rparr>, x, r)),
     update_context = (\<lambda>x _. Inr x), post_verify = None \<rparr>"

lemma argmax_draws_support: "draws_support (\<lambda>w (r :: 'r). (argmax w, r))"
proof -
  have "argmax w < length w \<and> 0 < w ! argmax w" if "x \<in> set w" "0 < x" for w and x :: rat
    using that argmax_ge [of _ w] argmax_less [of w] by (cases "w = []") (auto simp: in_set_conv_nth intro: less_le_trans)
  then show ?thesis by (auto simp: draws_support_def)
qed

lemma toy_setup:
  "greedy_setup toy_runtime toy_drafter (\<lambda>_ _. True) (\<lambda>_ _ _. True) (\<lambda>_ _ _ _. True) (\<lambda>c. c) toy_logits 3 0 2"
  using argmax_draws_support
  by (simp add: greedy_setup_def causal_lm_def toy_runtime_def toy_drafter_def drafter_ok_def
      covers_inputs_def proposal_ok_def toy_logits_def draws_unit_def Let_def)

theorem greedy_decoding_lossless_witness:
  "\<exists>res. generate_decoding_sample toy_runtime toy_drafter [1] 4 2 0 (Some [7]) () = Inr res
           \<and> res_output_ids res = [1, 1, 2, 0, 1]"
proof -
  have "upto_stop [7] (greedy_decode toy_logits [1] 4) = [1, 2, 0, 1]" by code_simp
  then show ?thesis
  using greedy_decoding_lossless [OF toy_setup, of "[1]" 4 "Some [7]" "()"]
  by (simp add: toy_runtime_def)
qed

end
