(* ===== verification/Decoding_Accounting.thy ===== *)
theory Decoding_Accounting
  imports Lossless_Decoding
begin

text \<open>
  The statistics the decoding loop returns, at every temperature: no exception is raised,
  the per-iteration lists have one entry per verification call, the accepted lengths lie
  within the proposed ones, and the number of generated tokens is determined by the
  acceptance lengths. The drafter and the target model are only assumed to return
  tensors of the documented shapes.
\<close>

section \<open>Hypotheses on the external code\<close>

definition model_shapes :: "('c, 'h, 'r) runtime \<Rightarrow> nat \<Rightarrow> bool" where
  "model_shapes rt V \<longleftrightarrow>
     (\<forall>c ids pos keep. ids \<noteq> [] \<longrightarrow>
        rows_ok V (if keep = 0 then length ids else min keep (length ids))
          (logits (fst (target_model rt c ids pos keep))))"

definition draws_in_range :: "(rat list \<Rightarrow> 'r \<Rightarrow> nat \<times> 'r) \<Rightarrow> bool" where
  "draws_in_range multinomial \<longleftrightarrow> (\<forall>w r. w \<noteq> [] \<longrightarrow> fst (multinomial w r) < length w)"

definition decoding_setup ::
  "('c, 'h, 'r) runtime \<Rightarrow> ('h, 'x, 'r, 'p) drafter \<Rightarrow> (nat \<Rightarrow> 'h \<Rightarrow> bool) \<Rightarrow> (nat list \<Rightarrow> 'x \<Rightarrow> nat \<Rightarrow> bool)
   \<Rightarrow> (nat list \<Rightarrow> 'p draft_proposal_scheme \<Rightarrow> 'x \<Rightarrow> nat \<Rightarrow> bool) \<Rightarrow> nat \<Rightarrow> nat \<Rightarrow> bool" where
  "decoding_setup rt dr H J K V mp \<longleftrightarrow>
     V > 0 \<and> model_shapes rt V \<and> (\<forall>xs. length (rt_softmax rt xs) = length xs)
   \<and> draws_unit (rt_rand_like rt) \<and> draws_in_range (rt_multinomial rt)
   \<and> drafter_ok V mp H J K dr \<and> covers_inputs rt H
   \<and> (\<forall>n. length (torch_empty rt n) = n)"

lemma decoding_setupD:
  assumes "decoding_setup rt dr H J K V mp"
  shows "V > 0" "model_shapes rt V" "\<And>xs. length (rt_softmax rt xs) = length xs"
    "draws_unit (rt_rand_like rt)" "draws_in_range (rt_multinomial rt)"
    "drafter_ok V mp H J K dr" "covers_inputs rt H" "\<And>n. length (torch_empty rt n) = n"
  using assms by (auto simp: decoding_setup_def)

lemma draws_in_rangeD: "draws_in_range m \<Longrightarrow> 0 < length w \<Longrightarrow> m w r = (t, r') \<Longrightarrow> t < length w"
  unfolding draws_in_range_def by (metis fst_conv length_greater_0_conv)

text \<open>The next token, resampled or drawn from the last row, is in the vocabulary.\<close>

lemma residual_probs_length:
  "length p = length q \<Longrightarrow> length (residual_probs p q) = length p"
  by (simp add: residual_probs_def Let_def)

lemma sample_next_token_less:
  assumes ok: "proposal_ok V mp cur p" and rows: "rows_ok V (draft_token_count p + 1) tp"
    and acc: "acc \<le> draft_token_count p" and V: "V > 0" and rng: "draws_in_range (rt_multinomial rt)"
    and nx: "sample_next_token rt p tp acc r = Inr (nxt, r2)"
  shows "nxt < V"
proof -
  have len: "length (tp ! acc) = V" using rows acc by (simp add: rows_ok_def)
  show ?thesis
  proof (cases "acc < draft_token_count p")
    case True
    then obtain d where d: "draft_probs p = Some d" "length d = draft_token_count p" "\<forall>row \<in> set d. length row = V"
      using ok by (auto simp: proposal_ok_def split: option.splits)
    then have "length (residual_probs (tp ! acc) (d ! acc)) = V"
      using True len by (simp add: residual_probs_length)
    then show ?thesis
      using draws_in_rangeD [OF rng, of "residual_probs (tp ! acc) (d ! acc)" r nxt r2] V nx True d(1)
        sample_next_token_ok [OF ok rows acc, of rt r]
      by (auto simp: sample_residual_def split: prod.splits)
  next
    case False
    then show ?thesis
      using draws_in_rangeD [OF rng, of "tp ! acc" r nxt r2] V nx len sample_next_token_ok [OF ok rows acc, of rt r]
      by simp
  qed
qed

lemma model_shapesD:
  assumes "model_shapes rt V" and "ids \<noteq> []"
  shows "rows_ok V (length ids) (logits (fst (target_model rt c ids pos 0)))"
    and "rows_ok V 1 (logits (fst (target_model rt c ids pos 1)))"
proof -
  have rows: "rows_ok V (if keep = 0 then length ids else min keep (length ids))
          (logits (fst (target_model rt c ids pos keep)))" for keep
    using assms unfolding model_shapes_def by blast
  show "rows_ok V (length ids) (logits (fst (target_model rt c ids pos 0)))"
    using rows [of 0] by simp
  have "min 1 (length ids) = 1" using assms(2) by (cases ids) auto
  then show "rows_ok V 1 (logits (fst (target_model rt c ids pos 1)))"
    using rows [of 1] by simp
qed

section \<open>The tallies\<close>

text \<open>Acceptance length \<open>a\<close>, proposal length \<open>p\<close> and accepted draft tokens \<open>d\<close> of one iteration.\<close>

definition tally_ok :: "nat \<Rightarrow> nat list \<Rightarrow> nat list \<Rightarrow> nat list \<Rightarrow> bool" where
  "tally_ok mp al pl dl \<longleftrightarrow>
     length al = length pl \<and> length dl = length pl
   \<and> (\<forall>(a, p, d) \<in> set (zip al (zip pl dl)). d \<le> p \<and> p \<le> mp \<and> 1 \<le> a \<and> d \<le> a \<and> a \<le> d + 1)"

lemma tally_ok_Nil [simp]: "tally_ok mp [] [] []"
  by (simp add: tally_ok_def)

lemma tally_ok_snoc:
  "tally_ok mp al pl dl \<Longrightarrow> d \<le> p \<Longrightarrow> p \<le> mp \<Longrightarrow> 1 \<le> a \<Longrightarrow> d \<le> a \<Longrightarrow> a \<le> d + 1 \<Longrightarrow>
   tally_ok mp (al @ [a]) (pl @ [p]) (dl @ [d])"
  by (simp add: tally_ok_def)

lemma tally_ok_count:
  assumes "tally_ok mp al pl dl"
  shows "length pl \<le> sum_list al"
proof -
  have ge: "1 \<le> a" if a: "a \<in> set al" for a
  proof -
    obtain i where i: "i < length al" "al ! i = a" using a by (auto simp: in_set_conv_nth)
    then have "(al ! i, pl ! i, dl ! i) \<in> set (zip al (zip pl dl))"
      using assms by (auto simp: tally_ok_def in_set_zip)
    then show ?thesis using assms i by (auto simp: tally_ok_def)
  qed
  have "length xs \<le> sum_list xs" if "\<forall>x \<in> set xs. 1 \<le> x" for xs :: "nat list"
    using that by (induction xs) auto
  with ge show ?thesis using assms by (metis tally_ok_def)
qed

definition account ::
  "token list \<Rightarrow> decode_params \<Rightarrow> ('c, 'x, 'r) decode_state \<Rightarrow> token list \<Rightarrow> bool" where
  "account prompt pr s gen \<longleftrightarrow>
     take (Suc (ds_start s)) (ds_output_ids s) = prompt @ gen
   \<and> length gen = Suc (ds_start s - length prompt)
   \<and> length prompt \<le> ds_start s \<and> ds_start s \<le> max_length pr + max_proposal pr
   \<and> length (ds_output_ids s) = max_length pr + max_proposal pr + 1
   \<and> tally_ok (max_proposal pr) (ds_acceptance_lengths s) (ds_proposal_lengths s) (ds_accepted_draft_lengths s)
   \<and> sum_list (ds_acceptance_lengths s) = ds_start s - length prompt
   \<and> length (ds_proposal_lengths s) \<le> max_length pr - length prompt"

definition clean :: "decode_params \<Rightarrow> token list \<Rightarrow> bool" where
  "clean pr ts \<longleftrightarrow> set ts \<inter> set (stop_list (stop_ids pr)) = {}"

definition finished :: "decode_params \<Rightarrow> ('c, 'x, 'r) decode_state \<Rightarrow> token list \<Rightarrow> bool" where
  "finished pr s gen \<longleftrightarrow> clean pr (butlast gen)
     \<and> (max_length pr \<le> ds_start s \<or> last gen \<in> set (stop_list (stop_ids pr)))"

text \<open>The token to be decoded next is in the vocabulary and the drafter's context is good.\<close>

definition ready :: "nat \<Rightarrow> ('x \<Rightarrow> nat \<Rightarrow> bool) \<Rightarrow> ('c, 'x, 'r) decode_state \<Rightarrow> bool" where
  "ready V J s \<longleftrightarrow> ds_output_ids s ! ds_start s < V \<and> J (ds_context s) (ds_start s)"

section \<open>One iteration\<close>

text \<open>
  A call of \<open>verify_draft_tokens\<close> on shapes alone: counters in range, stop flag exact.
\<close>

lemma verify_account:
  fixes rt :: "('c, 'h, 'r) runtime" and dr :: "('h, 'x, 'r, 'p) drafter"
  assumes su: "decoding_setup rt dr H J K V mp" and ok: "proposal_ok V mp cur p"
  obtains v c' r2 where
    "verify_draft_tokens rt p pos start c T mp (Some [cur]) stops r = Inr (v, c', r2)"
    "accepted_draft_tokens v < length (verify_input_ids p)"
    "accepted_draft_tokens v \<le> effective_proposal_length v" "effective_proposal_length v \<le> mp"
    "terminated_by_stop_token v \<longrightarrow> 0 < accepted_draft_tokens v
       \<and> verify_input_ids p ! accepted_draft_tokens v \<in> set (stop_list stops)
       \<and> set (py_slice 1 (accepted_draft_tokens v) (verify_input_ids p)) \<inter> set (stop_list stops) = {}"
    "\<not> terminated_by_stop_token v \<longrightarrow>
       set (py_slice 1 (accepted_draft_tokens v + 1) (verify_input_ids p)) \<inter> set (stop_list stops) = {}"
    "next_token v < V" "verified H p v"
proof -
  note D = decoding_setupD [OF su]
  have ids: "length (verify_input_ids p) = draft_token_count p + 1" and n: "draft_token_count p \<le> mp"
    using ok by (auto simp: proposal_ok_def)
  obtain out c' where model: "target_model rt c (verify_input_ids p)
      (py_slice start (start + (draft_token_count p + 1)) pos) 0 = (out, c')" by fastforce
  have "verify_input_ids p \<noteq> []" using ids by auto
  have rows: "rows_ok V (draft_token_count p + 1) (logits out)"
    using model_shapesD(1) [OF D(2) \<open>verify_input_ids p \<noteq> []\<close>, of c
        "py_slice start (start + (draft_token_count p + 1)) pos"] model ids
    by simp
  note soft = D(3) and unit = D(4)
  obtain msk acc0 r1 acc eff stopped nxt r2 where
    "rejection_sample rt p (map (\<lambda>row. logits_to_probs (rt_softmax rt) row T) (logits out)) r = Inr (msk, acc0, r1)"
    and "acc0 \<le> draft_token_count p"
    and tr: "truncate_at_stop stops (verify_input_ids p) (draft_token_count p) acc0 = (acc, eff, stopped)"
    and "acc \<le> acc0"
    and nx: "sample_next_token rt p (map (\<lambda>row. logits_to_probs (rt_softmax rt) row T) (logits out)) acc r1 = Inr (nxt, r2)"
    and v: "verify_draft_tokens rt p pos start c T mp (Some [cur]) stops r =
       Inr (\<lparr> target_output = out, target_probs = map (\<lambda>row. logits_to_probs (rt_softmax rt) row T) (logits out),
              accept_prefix_mask = msk, accepted_draft_tokens = acc, next_token = nxt,
              effective_proposal_length = eff, terminated_by_stop_token = stopped,
              committed_tokens = Some (py_slice 1 (acc + 1) (verify_input_ids p) @ [nxt]) \<rparr>, c', r2)"
    by (rule verify_draft_tokens_ok [OF ok model rows soft unit, of T r stops])
  note B = truncate_at_stop_bounds [OF tr \<open>acc0 \<le> draft_token_count p\<close>]
  have l0: "acc0 < length (verify_input_ids p)" using ids \<open>acc0 \<le> _\<close> by simp
  have stop: "0 < acc \<and> verify_input_ids p ! acc \<in> set (stop_list stops)
       \<and> set (py_slice 1 acc (verify_input_ids p)) \<inter> set (stop_list stops) = {}" if stopped
  proof -
    have tr': "truncate_at_stop stops (verify_input_ids p) (draft_token_count p) acc0 = (acc, eff, True)"
      using tr that by simp
    obtain s where s: "stops = Some s" "0 < acc" "verify_input_ids p ! acc \<in> set s"
      "\<And>i. 0 < i \<Longrightarrow> i < acc \<Longrightarrow> verify_input_ids p ! i \<notin> set s"
      using truncate_stop [OF tr' l0] by blast
    have "t \<notin> set s" if mem: "t \<in> set (py_slice 1 acc (verify_input_ids p))" for t
    proof -
      obtain i where "i < length (py_slice 1 acc (verify_input_ids p))" "py_slice 1 acc (verify_input_ids p) ! i = t"
        using mem by (meson in_set_conv_nth)
      then show ?thesis using s(4) [of "1 + i"] nth_py_slice [of i acc 1 "verify_input_ids p"] by auto
    qed
    with s show ?thesis by auto
  qed
  have nostop: "set (py_slice 1 (acc + 1) (verify_input_ids p)) \<inter> set (stop_list stops) = {}" if "\<not> stopped"
  proof -
    have tr': "truncate_at_stop stops (verify_input_ids p) (draft_token_count p) acc0 = (acc, eff, False)"
      using tr that by simp
    moreover have "acc = acc0" using B that by simp
    ultimately show ?thesis using truncate_no_stop by blast
  qed
  have "H (draft_token_count p + 1) (hidden_states out)"
    using D(7) model ids unfolding covers_inputs_def by (metis fst_conv)
  note ver = verify_verified [where H = H, OF ok model rows soft unit this v]
  have "nxt < V"
    by (rule sample_next_token_less [OF ok rows_ok_probs [OF soft rows] _ D(1,5) nx])
       (use B \<open>acc0 \<le> _\<close> in simp)
  then show ?thesis by (intro that [OF v _ _ _ _ _ _ ver]) (use B ids n \<open>acc0 \<le> _\<close> stop nostop in auto)
qed

lemma Cons_py_slice: "take 1 ids = [t] \<Longrightarrow> take (Suc a) ids = t # py_slice 1 (Suc a) ids"
  by (cases ids) (simp_all add: py_slice_def)

lemma decode_step_account:
  assumes su: "decoding_setup rt dr H J K V (max_proposal pr)"
    and acct: "account prompt pr s gen" and cl: "clean pr gen" and guard: "ds_start s < max_length pr"
    and live: "ready V (J (pos_ids pr)) s" and positions: "length (pos_ids pr) = max_length pr + max_proposal pr + 1"
  shows "\<exists>brk s' gen'. decode_step rt dr pr s = Inr (brk, s') \<and> account prompt pr s' gen'
           \<and> (if brk then finished pr s' gen' else clean pr gen' \<and> ready V (J (pos_ids pr)) s')"
proof -
  define k out where "k = ds_start s" and "out = ds_output_ids s"
  have A: "take (Suc k) out = prompt @ gen" "length gen = Suc (k - length prompt)" "length prompt \<le> k"
    "length out = max_length pr + max_proposal pr + 1"
    "tally_ok (max_proposal pr) (ds_acceptance_lengths s) (ds_proposal_lengths s) (ds_accepted_draft_lengths s)"
    "sum_list (ds_acceptance_lengths s) = k - length prompt"
    using acct by (simp_all add: account_def k_def out_def)
  have k: "k < max_length pr" "k < length out" using guard A(4) by (auto simp: k_def)
  have cnt: "length (ds_proposal_lengths s) < max_length pr - length prompt"
    using tally_ok_count [OF A(5)] A(3,6) k(1) by simp
  note D = decoding_setupD [OF su]
  have live': "out ! k < V" "J (pos_ids pr) (ds_context s) k" using live by (simp_all add: ready_def k_def out_def)
  obtain p x1 r1 where pp: "propose dr (ds_context s) out (pos_ids pr) k (stop_ids pr) (ds_rng s) = Inr (p, x1, r1)"
    and ok: "proposal_ok V (max_proposal pr) (out ! k) p" and kp: "K (pos_ids pr) p x1 k"
    by (rule drafter_okD [OF D(6) k(2) live']) (use k(1) in \<open>simp add: positions\<close>)
  obtain v c' r2 where v: "verify_draft_tokens rt p (pos_ids pr) k (ds_cache s) (temp pr) (max_proposal pr)
      (Some [out ! k]) (stop_ids pr) r1 = Inr (v, c', r2)"
    and a0: "accepted_draft_tokens v < length (verify_input_ids p)"
    "accepted_draft_tokens v \<le> effective_proposal_length v" "effective_proposal_length v \<le> max_proposal pr"
    and stop: "terminated_by_stop_token v \<longrightarrow> 0 < accepted_draft_tokens v
       \<and> verify_input_ids p ! accepted_draft_tokens v \<in> set (stop_list (stop_ids pr))
       \<and> set (py_slice 1 (accepted_draft_tokens v) (verify_input_ids p)) \<inter> set (stop_list (stop_ids pr)) = {}"
    and nostop: "\<not> terminated_by_stop_token v \<longrightarrow>
       set (py_slice 1 (accepted_draft_tokens v + 1) (verify_input_ids p)) \<inter> set (stop_list (stop_ids pr)) = {}"
    and nV: "next_token v < V" and ver: "verified H p v"
    by (rule verify_account [OF su ok, of "pos_ids pr" k "ds_cache s" "temp pr" "stop_ids pr" r1])
  define a ids where "a = accepted_draft_tokens v" and "ids = verify_input_ids p"
  have a: "a < length ids" "k + a + 1 < length out" using a0 k A(4) by (auto simp: a_def ids_def)
  have aeff: "a \<le> max_proposal pr" using a0(2,3) by (simp add: a_def)
  obtain x2 x3 where x2: "(case post_verify dr of None \<Rightarrow> Inr x1 | Some g \<Rightarrow> g p v x1) = Inr x2"
    and x3: "update_context dr x2 v = Inr x3" and J2: "J (pos_ids pr) x3 (k + a + 1)"
    unfolding a_def by (rule drafter_ok_hook [OF D(6) kp ok ver nV])
  note step = decode_step_eval [of dr s pr p x1 r1 rt v c' r2 x2 x3, folded k_def out_def a_def ids_def,
      unfolded py_slice_one [OF k(2)], OF pp v x2 disjI2 [OF x3] a]
  have "take 1 ids = [out ! k]" using ok by (simp add: proposal_ok_def ids_def)
  then have blk: "take k out @ take (Suc a) ids = prompt @ gen @ py_slice 1 (Suc a) ids"
    using A(1) k(2) Cons_py_slice [of ids "out ! k" a] by (simp add: take_Suc_conv_app_nth)
  have tally: "tally_ok (max_proposal pr) (ds_acceptance_lengths s @ [b])
      (ds_proposal_lengths s @ [effective_proposal_length v]) (ds_accepted_draft_lengths s @ [a])"
    if "1 \<le> b" "a \<le> b" "b \<le> a + 1" for b
    using tally_ok_snoc [OF A(5)] a0 that by (simp add: a_def)
  show ?thesis
  proof (cases "terminated_by_stop_token v")
    case True
    define gen' where "gen' = gen @ py_slice 1 (Suc a) ids"
    obtain s' where s': "decode_step rt dr pr s = Inr (True, s')" "ds_start s' = k + a"
      "ds_output_ids s' = commit_block out k a ids"
      "ds_acceptance_lengths s' = ds_acceptance_lengths s @ [a]"
      "ds_proposal_lengths s' = ds_proposal_lengths s @ [effective_proposal_length v]"
      "ds_accepted_draft_lengths s' = ds_accepted_draft_lengths s @ [a]"
      using True by (simp add: step)
    have st: "0 < a" "ids ! a \<in> set (stop_list (stop_ids pr))"
      "set (py_slice 1 a ids) \<inter> set (stop_list (stop_ids pr)) = {}"
      using stop True by (auto simp: a_def ids_def)
    have sl: "py_slice 1 (Suc a) ids = py_slice 1 a ids @ [ids ! a]"
      using st(1) a(1) by (cases a) (simp_all add: py_slice_def take_Suc_conv_app_nth)
    have "finished pr s' gen'"
      using cl st unfolding gen'_def sl by (auto simp: finished_def clean_def butlast_append)
    moreover have "take (Suc (k + a)) (commit_block out k a ids) = prompt @ gen'"
      using take_commit_block [OF a(1), of k out] a(2) blk by (simp add: gen'_def)
    then have "account prompt pr s' gen'"
      using A(2,3,4,6) a cnt tally [of a] st(1) a0(3) k(1) aeff length_commit_block [OF a(1), of k out]
      by (simp add: account_def s' gen'_def)
    ultimately show ?thesis using s'(1) by auto
  next
    case False
    define gen' where "gen' = gen @ py_slice 1 (Suc a) ids @ [next_token v]"
    define brk where "brk = has_stop_token (py_slice 1 (a + 1) ids @ [next_token v]) (stop_ids pr)"
    obtain s' where s': "decode_step rt dr pr s = Inr (brk, s')" "ds_start s' = k + a + 1"
      "ds_output_ids s' = (commit_block out k a ids)[k + a + 1 := next_token v]"
      "ds_acceptance_lengths s' = ds_acceptance_lengths s @ [a + 1]"
      "ds_proposal_lengths s' = ds_proposal_lengths s @ [effective_proposal_length v]"
      "ds_accepted_draft_lengths s' = ds_accepted_draft_lengths s @ [a]"
      "ds_context s' = x3"
      using False by (simp add: step brk_def)
    have live2: "ready V (J (pos_ids pr)) s'"
      using nV J2 a length_commit_block [OF a(1), of k out] by (simp add: ready_def s')
    have new: "clean pr (butlast gen')" "last gen' = next_token v"
      using cl nostop False by (auto simp: clean_def gen'_def butlast_append a_def ids_def)
    have "if brk then finished pr s' gen' else clean pr gen' \<and> ready V (J (pos_ids pr)) s'"
      using cl nostop False new live2
      by (auto simp: brk_def has_stop_token_iff gen'_def clean_def finished_def a_def ids_def)
    moreover have "take (Suc (Suc (k + a))) ((commit_block out k a ids)[Suc (k + a) := next_token v]) = prompt @ gen'"
      using take_commit_block_next [OF a, of "next_token v"] blk by (simp add: gen'_def)
    then have "account prompt pr s' gen'"
      using A(2,3,4,6) a cnt tally [of "a + 1"] a0(3) k(1) aeff length_commit_block [OF a(1), of k out]
      by (simp add: account_def s' gen'_def)
    ultimately show ?thesis using s'(1) by auto
  qed
qed

section \<open>The whole call\<close>

lemma decode_loop_account:
  assumes "decoding_setup rt dr H J K V (max_proposal pr)"
    and "account prompt pr s gen" and "clean pr gen" and "ready V (J (pos_ids pr)) s"
    and "length (pos_ids pr) = max_length pr + max_proposal pr + 1"
  shows "\<exists>s' gen'. decode_loop rt dr pr s = Inr s' \<and> account prompt pr s' gen' \<and> finished pr s' gen'"
  using assms
proof (induction rt dr pr s arbitrary: gen rule: decode_loop.induct)
  case (1 rt dr pr s)
  show ?case
  proof (cases "ds_start s < max_length pr")
    case False
    then have "finished pr s gen"
      using "1.prems"(3) by (auto simp: finished_def clean_def dest: in_set_butlastD)
    with False "1.prems"(2) show ?thesis by (subst decode_loop.simps) auto
  next
    case True
    obtain brk s' gen' where st: "decode_step rt dr pr s = Inr (brk, s')" "account prompt pr s' gen'"
      "if brk then finished pr s' gen' else clean pr gen' \<and> ready V (J (pos_ids pr)) s'"
      using decode_step_account [OF "1.prems"(1-3) True "1.prems"(4,5)] by blast
    show ?thesis
    proof (cases brk)
      case b: True
      with st True show ?thesis by (subst decode_loop.simps) auto
    next
      case False
      with st(3) have "clean pr gen'" "ready V (J (pos_ids pr)) s'" by simp_all
      with "1.IH" [OF True st(1) refl False "1.prems"(1) st(2)] "1.prems"(5) st(1) True False
      show ?thesis by (subst decode_loop.simps) simp
    qed
  qed
qed

lemma upto_stop_butlast_clean:
  "set (butlast xs) \<inter> set stops = {} \<Longrightarrow> upto_stop stops xs = xs"
  by (induction xs) (auto split: if_splits)

lemma finished_output:
  assumes acct: "account prompt pr s gen" and fin: "finished pr s gen"
    and N: "max_length pr = length prompt + N"
  shows "trim_output_ids (take (min (ds_start s + 1) (max_length pr)) (ds_output_ids s)) (length prompt) (stop_ids pr)
           = prompt @ take N gen"
    and "length (take N gen) < N \<longrightarrow> last (take N gen) \<in> set (stop_list (stop_ids pr))"
    and "set (butlast (take N gen)) \<inter> set (stop_list (stop_ids pr)) = {}"
proof -
  have "take (min (ds_start s + 1) (max_length pr)) (ds_output_ids s)
          = take (max_length pr) (take (Suc (ds_start s)) (ds_output_ids s))"
    by (simp add: min.commute)
  also have "\<dots> = prompt @ take N gen"
    using acct by (simp add: account_def N)
  finally have raw: "take (min (ds_start s + 1) (max_length pr)) (ds_output_ids s) = prompt @ take N gen" .
  have "set (butlast (take N gen)) \<subseteq> set (butlast gen)"
    by (cases "N < length gen") (auto simp: butlast_take dest: in_set_takeD in_set_butlastD
        simp: butlast_conv_take intro: set_take_subset_set_take [THEN subsetD, rotated])
  then show cl: "set (butlast (take N gen)) \<inter> set (stop_list (stop_ids pr)) = {}"
    using fin by (auto simp: finished_def clean_def)
  show "trim_output_ids (take (min (ds_start s + 1) (max_length pr)) (ds_output_ids s)) (length prompt) (stop_ids pr)
          = prompt @ take N gen"
    by (simp only: raw trim_output_ids_upto_stop upto_stop_butlast_clean [OF cl])
  show "length (take N gen) < N \<longrightarrow> last (take N gen) \<in> set (stop_list (stop_ids pr))"
    using acct fin N by (auto simp: account_def finished_def)
qed

lemma decoding_account:
  assumes su: "decoding_setup rt dr H J K V mp"
    and prompt: "prompt \<noteq> []" and N: "N \<ge> 1" and mp: "mp \<ge> 1" and toks: "set prompt \<subseteq> {..<V}"
  shows "\<exists>res gen. generate_decoding_sample rt dr prompt N mp T stops r = Inr res
    \<and> res_output_ids res = prompt @ gen
    \<and> set (butlast gen) \<inter> set (stop_list stops) = {}
    \<and> (length gen < N \<longrightarrow> last gen \<in> set (stop_list stops))
    \<and> res_num_output_tokens res = length gen
    \<and> length gen = min N (1 + sum_list (res_acceptance_lengths res))
    \<and> res_verify_count res = length (res_proposal_lengths res) \<and> res_verify_count res \<le> N
    \<and> tally_ok mp (res_acceptance_lengths res) (res_proposal_lengths res) (res_accepted_draft_lengths res)"
proof -
  define n0 L where "n0 = length prompt" and "L = length prompt + N + mp + 1"
  note D = decoding_setupD [OF su] and shapes = decoding_setupD(2) [OF su] and alloc = decoding_setupD(8) [OF su]
  obtain o1 c where model: "target_model rt (new_cache rt) prompt [0..<length prompt] 1 = (o1, c)" by fastforce
  have "rows_ok V 1 (logits o1)"
    using model_shapesD(2) [OF shapes prompt, of "new_cache rt" "[0..<length prompt]"] model by simp
  then obtain row where row: "logits o1 = [row]" "length row = V" by (auto simp: rows_ok_def length_Suc_conv)
  obtain t r1 where draw: "rt_multinomial rt (logits_to_probs (rt_softmax rt) row T) r = (t, r1)" by fastforce
  then have first: "sample_from_probs (rt_multinomial rt)
      (map (\<lambda>row. logits_to_probs (rt_softmax rt) row T) (logits o1)) r = ([t], r1)"
    by (simp add: row)
  have tV: "t < V"
    using draws_in_rangeD [OF D(5) _ draw] D(1) row(2) by (simp add: logits_to_probs_length [OF D(3)])
  have hid: "H (length prompt) (hidden_states o1)"
    using D(7) model unfolding covers_inputs_def by (metis fst_conv)
  have pos: "py_slice 0 (length prompt) [0..<L] = [0..<length prompt]" by (simp add: L_def take_upt)
  define out where "out = prompt @ t # drop (Suc (length prompt)) (torch_empty rt L)"
  obtain x where x: "init_context dr o1 out [0..<L] (length prompt) = Inr x" "J [0..<L] x (length prompt)"
    using drafter_ok_init [OF D(6) hid, of out "[0..<L]"] toks tV prompt N by (auto simp: out_def L_def)
  define s0 where "s0 = \<lparr> ds_start = length prompt, ds_output_ids = out, ds_acceptance_lengths = [],
     ds_proposal_lengths = [], ds_accepted_draft_lengths = [], ds_cache = c,
     ds_context = x, ds_rng = r1 \<rparr>"
  define pr where "pr = \<lparr> max_length = length prompt + N, max_proposal = mp, temp = T,
     stop_ids = stops, pos_ids = [0..<L] \<rparr>"
  note gen = generate_decoding_sample_eval [OF mp model pos first, of N dr x stops,
      folded L_def, OF alloc refl x(1) [unfolded out_def], unfolded Let_def, folded out_def, folded s0_def pr_def]
  show ?thesis
  proof (cases "has_stop_token [t] stops")
    case True
    then show ?thesis
      using N by (intro exI [of _ "pack_result [] [] [] (prompt @ [t]) (length prompt)"] exI [of _ "[t]"])
        (simp add: gen trim_output_ids_upto_stop pack_result_def s0_def has_stop_token_iff)
  next
    case False
    have "account prompt pr s0 [t]"
      by (simp add: account_def s0_def pr_def out_def alloc L_def)
    moreover have "clean pr [t]"
      using False by (simp add: clean_def pr_def has_stop_token_iff)
    moreover have "ready V (J [0..<L]) s0"
      using x(2) tV by (simp add: ready_def s0_def out_def)
    ultimately obtain s gn where s: "decode_loop rt dr pr s0 = Inr s" "account prompt pr s gn" "finished pr s gn"
      using decode_loop_account [of rt dr H J K V pr prompt s0 "[t]"] su by (auto simp: pr_def L_def)
    have ml: "max_length pr = length prompt + N" by (simp add: pr_def)
    note F = finished_output [OF s(2,3) ml]
    have gs: "generate_decoding_sample rt dr prompt N mp T stops r = Inr (pack_state s (prompt @ take N gn) (length prompt))"
      using gen False s(1) F(1) by (simp add: pr_def)
    show ?thesis
      using s(2) F(2,3)
      by (intro exI [of _ "pack_state s (prompt @ take N gn) (length prompt)"] exI [of _ "take N gn"])
        (simp add: gs pack_result_def account_def pr_def min.commute)
  qed
qed


lemma toy_model_shapes: "model_shapes toy_runtime 3"
proof -
  have row: "length (toy_logits ctx) = 3" for ctx by (simp add: toy_logits_def)
  show ?thesis
    by (auto simp: model_shapes_def toy_runtime_def rows_ok_def row Let_def drop_map)
qed

lemma argmax_draws_in_range: "draws_in_range (\<lambda>w r. (argmax w, r))"
  by (simp add: draws_in_range_def argmax_less)

lemma toy_decoding_setup:
  "decoding_setup toy_runtime toy_drafter (\<lambda>_ _. True) (\<lambda>_ _ _. True) (\<lambda>_ _ _ _. True) 3 2"
  using toy_setup toy_model_shapes argmax_draws_in_range
  unfolding decoding_setup_def greedy_setup_def by (simp add: toy_runtime_def)


end
