(* ===== verification/Block_Drafter.thy ===== *)
theory Block_Drafter
  imports Markov_Head Confidence_Metrics Decoding_Accounting
begin

text \<open>
  The block drafters DSpark and MySpec: the draft model's heads
  (\<^verbatim>\<open>modeling/myspec/qwen3/modeling.py\<close>, \<^verbatim>\<open>modeling/myspec/common.py\<close>), the construction of a
  proposal (\<^verbatim>\<open>eval/myspec/draft_ops.py\<close>) and the callbacks the evaluators pass to the decoding
  loop (\<^verbatim>\<open>eval/myspec/evaluator.py\<close>, \<^verbatim>\<open>eval/dspark/evaluator.py\<close>). The transformer backbone
  with its key/value cache is a parameter; MySpec feeds it latent tokens besides the masked
  block. The drafters are shown to satisfy the contract of the decoding loop, so that
  decoding with them is lossless.
\<close>

section \<open>The draft model\<close>

record 'k draft_model =
  draft_block_size :: nat
  mask_token_id :: token
  num_latent_tokens :: nat
  latent_token_id :: token
  target_layer_ids :: "int list"
  lm_head :: "vec list"
  final_logit_softcapping :: "rat option"
  draft_markov_head :: "markov_head option"
  confidence_head :: "(vec \<times> rat) option"
  confidence_head_with_markov :: bool
  forward_backbone :: "'k \<Rightarrow> vec list \<Rightarrow> (token list \<times> nat list) option \<Rightarrow> token list \<Rightarrow> nat list
                       \<Rightarrow> (vec list \<times> 'k) res"
    \<comment> \<open>cache, target hidden states, latent ids and positions, block ids and positions\<close>
  draft_cache_len :: "'k \<Rightarrow> nat"
  draft_cache_crop :: "'k \<Rightarrow> nat \<Rightarrow> 'k"
  new_draft_cache :: 'k

record 'r draft_env =
  env_act :: activations
  env_softmax :: "vec \<Rightarrow> vec"
  env_multinomial :: "vec \<Rightarrow> 'r \<Rightarrow> nat \<times> 'r"
  env_temperature :: rat
  env_threshold :: rat

text \<open>The loop body of \<open>validate_target_layer_ids\<close>; the state is \<open>previous\<close>.\<close>

definition validate_layer_id :: "nat \<Rightarrow> int option \<Rightarrow> int \<Rightarrow> int option res" where
  "validate_layer_id num_target_layers previous layer_id =
     bindE (check (layer_id = -1 \<or> 0 \<le> layer_id \<and> layer_id \<le> int num_target_layers - 1) AssertionError) (\<lambda>_.
     bindE (check (case previous of None \<Rightarrow> True | Some q \<Rightarrow> layer_id > q) AssertionError) (\<lambda>_.
     Inr (Some layer_id)))"

definition validate_target_layer_ids :: "int list \<Rightarrow> nat \<Rightarrow> int list res" where
  "validate_target_layer_ids layer_ids num_target_layers =
     bindE (check (layer_ids \<noteq> []) AssertionError) (\<lambda>_.
     bindE (foldE (validate_layer_id num_target_layers) None layer_ids) (\<lambda>_.
     Inr layer_ids))"

text \<open>
  \<open>hidden_states[0 if layer_id == -1 else layer_id + 1]\<close>: a Python index, negative ones
  counting from the end.
\<close>

definition layer_at :: "vec list list \<Rightarrow> int \<Rightarrow> vec list res" where
  "layer_at hidden layer_id =
     (let i = (if layer_id = -1 then 0 else layer_id + 1);
          j = (if i < 0 then i + int (length hidden) else i)
      in if 0 \<le> j \<and> j < int (length hidden) then Inr (hidden ! nat j) else Inl IndexError)"

text \<open>\<open>torch.cat(..., dim=-1)\<close> of per-position features.\<close>

definition cat_features :: "vec list list \<Rightarrow> vec list res" where
  "cat_features layers =
     (case layers of [] \<Rightarrow> Inl RuntimeError
      | l # ls \<Rightarrow> foldE (\<lambda>acc x. if length acc = length x then Inr (map2 (@) acc x) else Inl RuntimeError) l ls)"

definition extract_context_feature :: "vec list list \<Rightarrow> int list \<Rightarrow> vec list res" where
  "extract_context_feature hidden layer_ids = bindE (mapE (layer_at hidden) layer_ids) cat_features"

section \<open>The heads\<close>

definition compute_logits :: "activations \<Rightarrow> 'k draft_model \<Rightarrow> vec list \<Rightarrow> vec list res" where
  "compute_logits act m hidden =
     bindE (mapE (linear (lm_head m)) hidden) (\<lambda>lgs.
     case final_logit_softcapping m of None \<Rightarrow> Inr lgs
     | Some cap \<Rightarrow> bindE (check (cap > 0) AssertionError) (\<lambda>_.
         Inr (map (map (\<lambda>x. act_tanh act (x / cap) * cap)) lgs)))"

text \<open>\<open>AcceptRatePredictor.forward\<close>.\<close>

definition accept_rate :: "vec \<times> rat \<Rightarrow> vec \<Rightarrow> rat res" where
  "accept_rate wb features = (if length (fst wb) = length features then Inr (dot (fst wb) features + snd wb) else Inl RuntimeError)"

definition predict_confidence_step ::
  "'k draft_model \<Rightarrow> vec list \<Rightarrow> token list option \<Rightarrow> vec option res" where
  "predict_confidence_step m hidden prev_token_ids =
     (case confidence_head m of None \<Rightarrow> Inr None
      | Some wb \<Rightarrow>
          if confidence_head_with_markov m then
            (case draft_markov_head m of None \<Rightarrow> Inl AssertionError
             | Some h \<Rightarrow>
                 (case prev_token_ids of None \<Rightarrow> Inl AssertionError
                  | Some prev \<Rightarrow>
                      bindE (mapE (get_prev_embeddings h) prev) (\<lambda>es.
                      bindE (check (length es = length hidden) RuntimeError) (\<lambda>_.
                      bindE (mapE (accept_rate wb) (map2 (@) hidden es)) (\<lambda>cs. Inr (Some cs))))))
          else bindE (mapE (accept_rate wb) hidden) (\<lambda>cs. Inr (Some cs)))"

definition sample_draft_tokens ::
  "'r draft_env \<Rightarrow> 'k draft_model \<Rightarrow> vec list \<Rightarrow> token \<Rightarrow> vec list option \<Rightarrow> 'r
   \<Rightarrow> (token list \<times> vec list \<times> 'r) res" where
  "sample_draft_tokens env m base first_prev hidden r =
     (if base = [] then Inr ([], base, r)
      else (case draft_markov_head m of
              None \<Rightarrow> (let (ts, r') = sample_tokens (env_softmax env) (env_multinomial env) base (env_temperature env) r
                       in Inr (ts, base, r'))
            | Some h \<Rightarrow> sample_block_tokens (env_act env) (env_softmax env) (env_multinomial env) h base first_prev
                          hidden (env_temperature env) r))"

definition sample_draft_token_step ::
  "'r draft_env \<Rightarrow> 'k draft_model \<Rightarrow> vec \<Rightarrow> token \<Rightarrow> vec option \<Rightarrow> 'r \<Rightarrow> (token \<times> vec \<times> 'r) res" where
  "sample_draft_token_step env m base prev hidden r =
     bindE (case draft_markov_head m of None \<Rightarrow> Inr base
            | Some h \<Rightarrow> apply_step_logits (env_act env) h base prev hidden) (\<lambda>step_logits.
     let (t, r') = draw_token (env_softmax env) (env_multinomial env) (env_temperature env) step_logits r
     in Inr (t, step_logits, r'))"

section \<open>Building a proposal\<close>

definition empty_myspec_proposal :: "token list \<Rightarrow> block_draft_proposal" where
  "empty_myspec_proposal draft_input_ids =
     \<lparr> draft_token_count = 0, verify_input_ids = take 1 draft_input_ids, draft_probs = None,
       confidence_logits = None \<rparr>"

text \<open>\<open>pred.reshape(1, block_size, -1)[:, :, 0]\<close>.\<close>

definition reshape_first_column :: "nat \<Rightarrow> vec \<Rightarrow> vec res" where
  "reshape_first_column bs xs =
     (if bs = 0 \<or> length xs mod bs \<noteq> 0 \<or> xs = [] then Inl RuntimeError
      else Inr (map (\<lambda>i. xs ! (i * (length xs div bs))) [0..<bs]))"

definition predict_confidence_logits ::
  "'k draft_model \<Rightarrow> vec list \<Rightarrow> token list \<Rightarrow> token list \<Rightarrow> nat \<Rightarrow> vec option res" where
  "predict_confidence_logits m hidden draft_input_ids sampled_tokens bs =
     bindE (predict_confidence_step m hidden (Some (take 1 draft_input_ids @ butlast sampled_tokens))) (\<lambda>pred.
     case pred of None \<Rightarrow> Inr None
     | Some xs \<Rightarrow> bindE (reshape_first_column bs xs) (\<lambda>ys. Inr (Some ys)))"

definition confident_prefix_length :: "activations \<Rightarrow> vec \<Rightarrow> nat \<Rightarrow> rat \<Rightarrow> nat" where
  "confident_prefix_length act conf bs threshold =
     (if threshold \<le> 0 then bs
      else (case nonzero (map (\<lambda>x. act_sigmoid act x < threshold) conf) of [] \<Rightarrow> bs | i # _ \<Rightarrow> i))"

definition build_myspec_proposal ::
  "'r draft_env \<Rightarrow> 'k draft_model \<Rightarrow> token list \<Rightarrow> vec list \<Rightarrow> nat \<Rightarrow> 'r \<Rightarrow> (block_draft_proposal \<times> 'r) res" where
  "build_myspec_proposal env m draft_input_ids block_hidden bs r =
     (let hidden = take bs block_hidden in
      bindE (compute_logits (env_act env) m hidden) (\<lambda>base.
      bindE (nthE draft_input_ids 0) (\<lambda>first.
      bindE (sample_draft_tokens env m base first (Some hidden) r) (\<lambda>(sampled, draft_logits, r').
      bindE (case confidence_head m of None \<Rightarrow> Inr (Some (bs, None))
             | Some _ \<Rightarrow>
                 bindE (predict_confidence_logits m hidden draft_input_ids sampled bs) (\<lambda>pred.
                 Inr (case pred of None \<Rightarrow> None
                      | Some conf \<Rightarrow> Some (confident_prefix_length (env_act env) conf bs (env_threshold env), Some conf)))) (\<lambda>sel.
      case sel of None \<Rightarrow> Inr (empty_myspec_proposal draft_input_ids, r')
      | Some (n, conf) \<Rightarrow>
          if n = 0 then Inr (empty_myspec_proposal draft_input_ids, r')
          else Inr (\<lparr> draft_token_count = n,
                      verify_input_ids = take 1 draft_input_ids @ take n sampled,
                      draft_probs = Some (map (\<lambda>row. logits_to_probs (env_softmax env) row (env_temperature env))
                                            (take n draft_logits)),
                      confidence_logits = map_option (take n) conf \<rparr>, r'))))))"

section \<open>The forward pass of a block\<close>

definition forward_myspec_draft_block ::
  "'k draft_model \<Rightarrow> token list \<Rightarrow> token list \<Rightarrow> nat list \<Rightarrow> 'k \<Rightarrow> vec list \<Rightarrow> nat \<Rightarrow> nat \<Rightarrow> (vec list \<times> 'k) res" where
  "forward_myspec_draft_block m latent_ids input_ids position_ids cache target_hidden start bs =
     bindE (check (draft_cache_len m cache \<le> start) AssertionError) (\<lambda>_.
     let cache_position_ids = py_slice (draft_cache_len m cache) start position_ids;
         latent_position_ids = py_slice start (start + num_latent_tokens m) position_ids;
         mask_position_ids = py_slice start (start + bs) position_ids
     in
     bindE (forward_backbone m cache target_hidden
              (Some (latent_ids, cache_position_ids @ latent_position_ids))
              input_ids (cache_position_ids @ latent_position_ids @ mask_position_ids)) (\<lambda>(hidden, cache').
     Inr (hidden, draft_cache_crop m cache' start)))"

definition forward_dspark_draft_block ::
  "'k draft_model \<Rightarrow> token list \<Rightarrow> nat list \<Rightarrow> 'k \<Rightarrow> vec list \<Rightarrow> nat \<Rightarrow> nat \<Rightarrow> (vec list \<times> 'k) res" where
  "forward_dspark_draft_block m input_ids position_ids cache target_hidden start bs =
     bindE (forward_backbone m cache target_hidden None input_ids
              (py_slice (draft_cache_len m cache) (start + bs) position_ids)) (\<lambda>(hidden, cache').
     Inr (hidden, draft_cache_crop m cache' start))"

section \<open>The evaluators' callbacks\<close>

record 'k block_context =
  past_key_values_draft :: 'k
  target_hidden_states :: "vec list"
  ctx_recorder :: "recorder option"

definition block_init_context ::
  "'k draft_model \<Rightarrow> recorder option \<Rightarrow> vec list list model_output \<Rightarrow> 'k block_context res" where
  "block_init_context m rec initial_output =
     bindE (extract_context_feature (hidden_states initial_output) (target_layer_ids m)) (\<lambda>f.
     Inr \<lparr> past_key_values_draft = new_draft_cache m, target_hidden_states = f, ctx_recorder = rec \<rparr>)"

text \<open>\<open>torch.full((1, n), fill)\<close> followed by \<open>[:, 0] = t\<close>.\<close>

definition filled_block :: "nat \<Rightarrow> token \<Rightarrow> token \<Rightarrow> token list res" where
  "filled_block n fill t = (if 0 < n then Inr ((replicate n fill)[0 := t]) else Inl IndexError)"

definition myspec_propose ::
  "'r draft_env \<Rightarrow> 'k draft_model \<Rightarrow> 'k block_context \<Rightarrow> token list \<Rightarrow> nat list \<Rightarrow> nat \<Rightarrow> 'r
   \<Rightarrow> (block_draft_proposal \<times> 'k block_context \<times> 'r) res" where
  "myspec_propose env m x output_ids position_ids start r =
     bindE (nthE output_ids start) (\<lambda>t.
     bindE (filled_block (num_latent_tokens m) (latent_token_id m) t) (\<lambda>latent_ids.
     bindE (filled_block (draft_block_size m) (mask_token_id m) t) (\<lambda>input_ids.
     bindE (forward_myspec_draft_block m latent_ids input_ids position_ids (past_key_values_draft x)
              (target_hidden_states x) start (draft_block_size m)) (\<lambda>(hidden, cache).
     bindE (build_myspec_proposal env m input_ids hidden (draft_block_size m) r) (\<lambda>(p, r').
     Inr (p, x\<lparr> past_key_values_draft := cache \<rparr>, r'))))))"

definition dspark_propose ::
  "'r draft_env \<Rightarrow> 'k draft_model \<Rightarrow> 'k block_context \<Rightarrow> token list \<Rightarrow> nat list \<Rightarrow> nat \<Rightarrow> 'r
   \<Rightarrow> (block_draft_proposal \<times> 'k block_context \<times> 'r) res" where
  "dspark_propose env m x output_ids position_ids start r =
     bindE (nthE output_ids start) (\<lambda>t.
     bindE (filled_block (draft_block_size m) (mask_token_id m) t) (\<lambda>input_ids.
     bindE (forward_dspark_draft_block m input_ids position_ids (past_key_values_draft x)
              (target_hidden_states x) start (draft_block_size m)) (\<lambda>(hidden, cache).
     bindE (build_myspec_proposal env m input_ids hidden (draft_block_size m) r) (\<lambda>(p, r').
     Inr (p, x\<lparr> past_key_values_draft := cache \<rparr>, r')))))"

definition block_update ::
  "'k draft_model \<Rightarrow> 'k block_context \<Rightarrow> vec list list verification_result \<Rightarrow> 'k block_context res" where
  "block_update m x v =
     bindE (extract_context_feature (hidden_states (target_output v)) (target_layer_ids m)) (\<lambda>f.
     Inr (x\<lparr> target_hidden_states := take (accepted_draft_tokens v + 1) f \<rparr>))"

definition block_post_verify ::
  "'r draft_env \<Rightarrow> block_draft_proposal \<Rightarrow> vec list list verification_result \<Rightarrow> 'k block_context \<Rightarrow> 'k block_context res" where
  "block_post_verify env p v x =
     (case ctx_recorder x of None \<Rightarrow> Inr x
      | Some rc \<Rightarrow> bindE (observe (act_sigmoid (env_act env)) rc p v) (\<lambda>rc'. Inr (x\<lparr> ctx_recorder := Some rc' \<rparr>)))"

text \<open>The recorder is only built when there is a confidence head and no truncation threshold.\<close>

definition build_confidence_head_recorder :: "'r draft_env \<Rightarrow> 'k draft_model \<Rightarrow> string \<Rightarrow> recorder option" where
  "build_confidence_head_recorder env m path =
     (case confidence_head m of None \<Rightarrow> None
      | Some _ \<Rightarrow>
          if env_threshold env \<noteq> 0 then None
          else Some \<lparr> max_proposal_tokens = draft_block_size m, num_bins = 20, num_fine = 1000,
                      draft_path = path, dataset_metrics = None, recorder_rows = [] \<rparr>)"

definition myspec_drafter ::
  "'r draft_env \<Rightarrow> 'k draft_model \<Rightarrow> recorder option \<Rightarrow> (vec list list, 'k block_context, 'r, \<lparr>confidence_logits :: vec option\<rparr>) drafter" where
  "myspec_drafter env m rec =
     \<lparr> init_context = (\<lambda>o1 _ _ _. block_init_context m rec o1),
       propose = (\<lambda>x out pos start _ r. myspec_propose env m x out pos start r),
       update_context = block_update m,
       post_verify = Some (block_post_verify env) \<rparr>"

definition dspark_drafter ::
  "'r draft_env \<Rightarrow> 'k draft_model \<Rightarrow> recorder option \<Rightarrow> (vec list list, 'k block_context, 'r, \<lparr>confidence_logits :: vec option\<rparr>) drafter" where
  "dspark_drafter env m rec =
     \<lparr> init_context = (\<lambda>o1 _ _ _. block_init_context m rec o1),
       propose = (\<lambda>x out pos start _ r. dspark_propose env m x out pos start r),
       update_context = block_update m,
       post_verify = Some (block_post_verify env) \<rparr>"


section \<open>Well-shaped models\<close>

definition matrix :: "nat \<Rightarrow> nat \<Rightarrow> vec list \<Rightarrow> bool" where
  "matrix rows_n cols W \<longleftrightarrow> length W = rows_n \<and> (\<forall>row \<in> set W. length row = cols)"

definition head_ok :: "nat \<Rightarrow> nat \<Rightarrow> markov_head \<Rightarrow> bool" where
  "head_ok V D h \<longleftrightarrow>
     (let R = markov_rank h in
      matrix V R (markov_w1 h) \<and> matrix V R (markov_w2 h)
    \<and> (case kind h of Vanilla \<Rightarrow> True
       | Gated gw gb \<Rightarrow> matrix R (D + R) gw \<and> length gb = R
       | RNN jw jb \<Rightarrow> matrix (3 * R) (R + (R + D)) jw \<and> length jb = 3 * R))"

text \<open>Documented behaviour of softmax and multinomial sampling on the drafter's side.\<close>

definition env_ok :: "'r draft_env \<Rightarrow> bool" where
  "env_ok env \<longleftrightarrow>
     (\<forall>xs. length (env_softmax env xs) = length xs \<and> (\<forall>p \<in> set (env_softmax env xs). 0 \<le> p \<and> p \<le> 1))
   \<and> draws_in_range (env_multinomial env)"

text \<open>
  The backbone: given features of the configured width and as many position ids as the
  layers consume, it returns one row per block token and appends at least the new context
  to its cache; cropping a cache cuts its length.
\<close>

definition backbone_ok :: "'k draft_model \<Rightarrow> nat \<Rightarrow> nat \<Rightarrow> bool" where
  "backbone_ok m W D \<longleftrightarrow>
     draft_cache_len m (new_draft_cache m) = 0
   \<and> (\<forall>k n. draft_cache_len m (draft_cache_crop m k n) = min n (draft_cache_len m k))
   \<and> (\<forall>k th lat ids pos.
        (\<forall>row \<in> set th. length row = W)
      \<and> (case lat of None \<Rightarrow> length pos = length th + length ids
         | Some (lids, lpos) \<Rightarrow> length lpos = length th + length lids
                               \<and> length pos = length th + length lids + length ids) \<longrightarrow>
        (\<exists>hs k'. forward_backbone m k th lat ids pos = Inr (hs, k') \<and> matrix (length ids) D hs
               \<and> draft_cache_len m k + length th \<le> draft_cache_len m k'))"

definition draft_model_ok :: "'k draft_model \<Rightarrow> nat \<Rightarrow> nat \<Rightarrow> nat \<Rightarrow> nat \<Rightarrow> bool" where
  "draft_model_ok m V L D0 D \<longleftrightarrow>
     0 < V \<and> 0 < draft_block_size m
   \<and> validate_target_layer_ids (target_layer_ids m) L = Inr (target_layer_ids m)
   \<and> matrix V D (lm_head m)
   \<and> (case final_logit_softcapping m of None \<Rightarrow> True | Some c \<Rightarrow> 0 < c)
   \<and> (case draft_markov_head m of None \<Rightarrow> \<not> confidence_head_with_markov m | Some h \<Rightarrow> head_ok V D h)
   \<and> (case confidence_head m of None \<Rightarrow> True
      | Some (w, b) \<Rightarrow> length w = D + (if confidence_head_with_markov m
                                      then markov_rank (the (draft_markov_head m)) else 0))
   \<and> backbone_ok m (length (target_layer_ids m) * D0) D"

lemma linear_ok: "matrix n c W \<Longrightarrow> length x = c \<Longrightarrow> \<exists>y. linear W x = Inr y \<and> length y = n"
  by (simp add: matrix_def linear_def)

lemma linear_bias_ok:
  "matrix n c W \<Longrightarrow> length b = n \<Longrightarrow> length x = c \<Longrightarrow> \<exists>y. linear_bias W b x = Inr y \<and> length y = n"
  using linear_ok [of n c W x] by (auto simp: linear_bias_def vec_zip_def)

lemma vec_zip_ok: "length xs = n \<Longrightarrow> length ys = n \<Longrightarrow> \<exists>zs. vec_zip f xs ys = Inr zs \<and> length zs = n"
  by (simp add: vec_zip_def)

lemma prev_embeddings_ok:
  "head_ok V D h \<Longrightarrow> t < V \<Longrightarrow> \<exists>e. get_prev_embeddings h t = Inr e \<and> length e = markov_rank h"
  by (simp add: head_ok_def Let_def get_prev_embeddings_def matrix_def)

lemma project_bias_ok:
  "head_ok V D h \<Longrightarrow> length x = markov_rank h \<Longrightarrow> \<exists>b. project_bias h x = Inr b \<and> length b = V"
  using linear_ok [of V "markov_rank h" "markov_w2 h" x] by (simp add: head_ok_def Let_def project_bias_def)

lemma rnn_step_ok:
  assumes h: "head_ok V D h" "kind h = RNN jw jb"
    and len: "length state = markov_rank h" "length e = markov_rank h" "length hid = D"
  shows "\<exists>s' b. rnn_step act jw jb h state e hid = Inr (s', b) \<and> length s' = markov_rank h \<and> length b = V"
proof -
  define R where "R = markov_rank h"
  have M: "matrix (3 * R) (R + (R + D)) jw" "length jb = 3 * R" using h by (simp_all add: head_ok_def Let_def R_def)
  then obtain proj where proj: "linear_bias jw jb (state @ e @ hid) = Inr proj" "length proj = 3 * R"
    using linear_bias_ok [OF M(1,2), of "state @ e @ hid"] len by (auto simp: R_def)
  have n: "(length proj + 2) div 3 = R" using proj(2) by simp
  obtain kept where kept: "vec_zip (*) (map (act_sigmoid act) (take R proj)) state = Inr kept" "length kept = R"
    using vec_zip_ok [of "map (act_sigmoid act) (take R proj)" R state "(*)"] proj(2) len(1) by (auto simp: R_def)
  obtain fresh where fresh: "vec_zip (*) (map (\<lambda>g. 1 - g) (map (act_sigmoid act) (take R proj)))
      (map (act_tanh act) (take R (drop R proj))) = Inr fresh" "length fresh = R"
    using vec_zip_ok [of "map (\<lambda>g. 1 - g) (map (act_sigmoid act) (take R proj))" R "map (act_tanh act) (take R (drop R proj))" "(*)"]
      proj(2) by auto
  obtain s' where s': "vec_zip (+) kept fresh = Inr s'" "length s' = R"
    using vec_zip_ok [OF kept(2) fresh(2), of "(+)"] by auto
  obtain b where b: "project_bias h (map (act_tanh act) (drop (2 * R) proj)) = Inr b" "length b = V"
    using project_bias_ok [OF h(1), of "map (act_tanh act) (drop (2 * R) proj)"] proj(2) by (auto simp: R_def)
  have "rnn_step act jw jb h state e hid = Inr (s', b)"
    unfolding rnn_step_def proj(1) bindE.simps Let_def n kept(1) fresh(1) s'(1) b(1) ..
  then show ?thesis using s'(2) b(2) by (simp add: R_def)
qed

lemma apply_step_logits_ok:
  assumes h: "head_ok V D h" and lg: "length lg = V" and t: "t < V" and hid: "length hv = D"
  shows "\<exists>out. apply_step_logits act h lg t (Some hv) = Inr out \<and> length out = V"
proof -
  obtain e where e: "get_prev_embeddings h t = Inr e" "length e = markov_rank h"
    using prev_embeddings_ok [OF h t] by blast
  have "\<exists>b. compute_step_bias act h t (Some hv) = Inr b \<and> length b = V"
  proof (cases "kind h")
    case Vanilla
    then show ?thesis using e project_bias_ok [OF h e(2)] by (simp add: compute_step_bias_def)
  next
    case (Gated gw gb)
    then have "matrix (markov_rank h) (D + markov_rank h) gw" "length gb = markov_rank h"
      using h by (simp_all add: head_ok_def Let_def)
    then obtain g where g: "linear_bias gw gb (hv @ e) = Inr g" "length g = markov_rank h"
      using linear_bias_ok [of _ _ gw gb "hv @ e"] e(2) hid by auto
    then obtain l where l: "vec_zip (*) (map (act_sigmoid act) g) e = Inr l" "length l = markov_rank h"
      using vec_zip_ok [of "map (act_sigmoid act) g" "markov_rank h" e "(*)"] e(2) by auto
    then show ?thesis
      using e g project_bias_ok [OF h l(2)] by (simp add: compute_step_bias_def Gated compute_gate_def)
  next
    case (RNN jw jb)
    obtain s' b where "rnn_step act jw jb h (replicate (length e) 0) e hv = Inr (s', b)" "length b = V"
      using rnn_step_ok [OF h RNN, of "replicate (length e) 0" e hv act] e(2) hid by auto
    then show ?thesis using e by (simp add: compute_step_bias_def RNN)
  qed
  then show ?thesis using lg by (auto simp: apply_step_logits_def vec_zip_def)
qed

lemma draw_token_less:
  assumes "env_ok env" and "length lg = V" and "0 < V"
  shows "\<exists>t r'. draw_token (env_softmax env) (env_multinomial env) T lg r = (t, r') \<and> t < V"
proof -
  have "argmax lg < V" using argmax_less [of lg] assms(2,3) by auto
  moreover have "fst (env_multinomial env (env_softmax env (map (\<lambda>x. x / T) lg)) r) < V"
    using assms draws_in_rangeD [of "env_multinomial env" "env_softmax env (map (\<lambda>x. x / T) lg)" r] unfolding env_ok_def
    by (metis length_map prod.collapse)
  ultimately show ?thesis by (auto simp: draw_token_eq) (metis prod.collapse)
qed


section \<open>Sampling a block does not raise\<close>

definition block_sampled :: "nat \<Rightarrow> nat \<Rightarrow> token list \<times> vec list \<times> 'r \<Rightarrow> bool" where
  "block_sampled V n res \<longleftrightarrow>
     (case res of (ts, lgs, _) \<Rightarrow> length ts = n \<and> (\<forall>t \<in> set ts. t < V) \<and> matrix n V lgs)"

lemma hidden_at_ok: "matrix n D hs \<Longrightarrow> k < n \<Longrightarrow> \<exists>hv. hidden_at (Some hs) k = Inr (Some hv) \<and> length hv = D"
  by (simp add: matrix_def hidden_at_def)

lemma block_sampled_Cons:
  "block_sampled V n (ts, lgs, r) \<Longrightarrow> t < V \<Longrightarrow> length lg = V \<Longrightarrow> block_sampled V (Suc n) (t # ts, lg # lgs, r')"
  by (simp add: block_sampled_def matrix_def)

lemma sample_memoryless_ok:
  assumes "env_ok env" "head_ok V D h" "0 < V" "matrix n D hs"
    and "\<forall>b \<in> set bs. length b = V" and "prev < V" and "k + length bs \<le> n"
  shows "\<exists>res. sample_block_memoryless act (env_softmax env) (env_multinomial env) T h (Some hs) prev k bs r = Inr res
           \<and> block_sampled V (length bs) res"
  using assms(5-7)
proof (induction bs arbitrary: prev k r)
  case Nil
  then show ?case by (simp add: block_sampled_def matrix_def)
next
  case (Cons b bs)
  obtain hv where hv: "hidden_at (Some hs) k = Inr (Some hv)" "length hv = D"
    using hidden_at_ok [OF assms(4), of k] Cons.prems(3) by auto
  obtain lg where lg: "apply_step_logits act h b prev (Some hv) = Inr lg" "length lg = V"
    using apply_step_logits_ok [OF assms(2) _ Cons.prems(2) hv(2), of b act] Cons.prems(1) by auto
  obtain t r1 where t: "draw_token (env_softmax env) (env_multinomial env) T lg r = (t, r1)" "t < V"
    using draw_token_less [OF assms(1) lg(2) assms(3)] by blast
  obtain ts lgs r2 where rest: "sample_block_memoryless act (env_softmax env) (env_multinomial env) T h (Some hs) t (k + 1) bs r1
      = Inr (ts, lgs, r2)" "block_sampled V (length bs) (ts, lgs, r2)"
    using Cons.IH [of t "k + 1" r1] Cons.prems t(2) by auto
  then show ?case
    using hv(1) lg(1) t(1) block_sampled_Cons [OF rest(2) t(2) lg(2)] by simp
qed

lemma sample_rnn_ok:
  assumes "env_ok env" "head_ok V D h" "kind h = RNN jw jb" "0 < V" "matrix n D hs"
    and "\<forall>b \<in> set bs. length b = V" and "prev < V" and "k + length bs \<le> n" and "length state = markov_rank h"
  shows "\<exists>res. sample_block_rnn act (env_softmax env) (env_multinomial env) T jw jb h (Some hs) state prev k bs r = Inr res
           \<and> block_sampled V (length bs) res"
  using assms(6-9)
proof (induction bs arbitrary: prev k r state)
  case Nil
  then show ?case by (simp add: block_sampled_def matrix_def)
next
  case (Cons b bs)
  obtain hv where hv: "hidden_at (Some hs) k = Inr (Some hv)" "length hv = D"
    using hidden_at_ok [OF assms(5), of k] Cons.prems(3) by auto
  obtain e where e: "get_prev_embeddings h prev = Inr e" "length e = markov_rank h"
    using prev_embeddings_ok [OF assms(2) Cons.prems(2)] by blast
  obtain s' bias where st: "rnn_step act jw jb h state e hv = Inr (s', bias)" "length s' = markov_rank h" "length bias = V"
    using rnn_step_ok [OF assms(2,3) Cons.prems(4) e(2) hv(2)] by blast
  obtain lg where lg: "vec_zip (+) b bias = Inr lg" "length lg = V"
    using vec_zip_ok [of b V bias "(+)"] st(3) Cons.prems(1) by auto
  obtain t r1 where t: "draw_token (env_softmax env) (env_multinomial env) T lg r = (t, r1)" "t < V"
    using draw_token_less [OF assms(1) lg(2) assms(4)] by blast
  obtain ts lgs r2 where rest: "sample_block_rnn act (env_softmax env) (env_multinomial env) T jw jb h (Some hs) s' t (k + 1) bs r1
      = Inr (ts, lgs, r2)" "block_sampled V (length bs) (ts, lgs, r2)"
    using Cons.IH [of t "k + 1" s' r1] Cons.prems t(2) st(2) by auto
  then show ?case
    using hv(1) e(1) st(1) lg(1) t(1) block_sampled_Cons [OF rest(2) t(2) lg(2)] by simp
qed

lemma sample_from_probs_ok:
  assumes "draws_in_range mu" "0 < V" "\<forall>p \<in> set ps. length p = V"
  shows "\<exists>ts r'. sample_from_probs mu ps r = (ts, r') \<and> length ts = length ps \<and> (\<forall>t \<in> set ts. t < V)"
  using assms(3)
proof (induction ps arbitrary: r)
  case (Cons p ps)
  obtain t r1 where t: "mu p r = (t, r1)" by fastforce
  have "t < V" using draws_in_rangeD [OF assms(1) _ t] Cons.prems assms(2) by simp
  moreover obtain ts r' where "sample_from_probs mu ps r1 = (ts, r')" "length ts = length ps" "\<forall>t \<in> set ts. t < V"
    using Cons by fastforce
  ultimately show ?case using t by simp
qed simp

lemma sample_tokens_ok:
  assumes "env_ok env" "0 < V" "matrix n V base"
  shows "\<exists>ts r'. sample_tokens (env_softmax env) (env_multinomial env) base T r = (ts, r') \<and> length ts = n \<and> (\<forall>t \<in> set ts. t < V)"
proof (cases "T < 1 / 100000")
  case True
  have "\<forall>row \<in> set base. argmax row < V" using assms(2,3) argmax_less by (metis length_0_conv less_irrefl matrix_def)
  then show ?thesis using True assms(3) by (simp add: sample_tokens_def matrix_def)
next
  case False
  then show ?thesis
    using sample_from_probs_ok [of "env_multinomial env" V "map (\<lambda>row. env_softmax env (map (\<lambda>x. x / T) row)) base" r] assms
    by (auto simp: sample_tokens_def matrix_def env_ok_def)
qed

lemma sample_draft_tokens_ok:
  assumes env: "env_ok env" and V: "0 < V" and base: "matrix n V base" and hs: "matrix n D hs" and prev: "prev < V"
    and head: "case draft_markov_head m of None \<Rightarrow> True | Some h \<Rightarrow> head_ok V D h"
  shows "\<exists>res. sample_draft_tokens env m base prev (Some hs) r = Inr res \<and> block_sampled V n res"
proof (cases "base = []")
  case True
  then show ?thesis using base by (simp add: sample_draft_tokens_def block_sampled_def matrix_def)
next
  case ne: False
  have b: "\<forall>row \<in> set base. length row = V" "length base = n" using base by (simp_all add: matrix_def)
  show ?thesis
  proof (cases "draft_markov_head m")
    case None
    then show ?thesis
      using sample_tokens_ok [OF env V base, of "env_temperature env" r] ne base
      by (auto simp: sample_draft_tokens_def block_sampled_def)
  next
    case (Some h)
    with head have h: "head_ok V D h" by simp
    show ?thesis
    proof (cases "kind h")
      case (RNN jw jb)
      then show ?thesis
        using sample_rnn_ok [OF env h RNN V hs b(1) prev, of 0 "replicate (markov_rank h) 0" "env_act env" "env_temperature env" r] ne b(2)
        by (simp add: sample_draft_tokens_def Some sample_block_tokens_def)
    qed (use sample_memoryless_ok [OF env h V hs b(1) prev, of 0 "env_act env" "env_temperature env" r] ne b(2) Some in
         \<open>simp_all add: sample_draft_tokens_def sample_block_tokens_def\<close>)
  qed
qed

section \<open>Building a proposal does not raise\<close>

lemma mapE_ok:
  assumes "\<And>x. x \<in> set xs \<Longrightarrow> \<exists>y. f x = Inr y \<and> P y"
  shows "\<exists>ys. mapE f xs = Inr ys \<and> length ys = length xs \<and> (\<forall>y \<in> set ys. P y)"
  using assms
proof (induction xs)
  case (Cons x xs)
  obtain y where "f x = Inr y" "P y" using Cons.prems by auto
  moreover obtain ys where "mapE f xs = Inr ys" "length ys = length xs" "\<forall>y \<in> set ys. P y" using Cons by auto
  ultimately show ?case by simp
qed simp

lemma compute_logits_ok:
  assumes "draft_model_ok m V L D0 D" and "matrix n D hs"
  shows "\<exists>base. compute_logits act m hs = Inr base \<and> matrix n V base"
proof -
  have W: "matrix V D (lm_head m)" using assms(1) by (simp add: draft_model_ok_def)
  obtain base where "mapE (linear (lm_head m)) hs = Inr base" "length base = length hs" "\<forall>y \<in> set base. length y = V"
    using mapE_ok [of hs "linear (lm_head m)" "\<lambda>y. length y = V"] linear_ok [OF W] assms(2) unfolding matrix_def by blast
  then show ?thesis
    using assms by (auto simp: compute_logits_def draft_model_ok_def matrix_def split: option.splits)
qed

lemma reshape_first_column_id: "0 < bs \<Longrightarrow> length xs = bs \<Longrightarrow> reshape_first_column bs xs = Inr xs"
  using map_nth [of xs] by (auto simp: reshape_first_column_def)

lemma predict_confidence_ok:
  assumes m: "draft_model_ok m V L D0 D" and hs: "matrix n D hs" and n: "0 < n"
    and ids: "take 1 ids = [t]" "t < V" and sampled: "length sampled = n" "\<forall>t \<in> set sampled. t < V"
    and c: "confidence_head m = Some wb"
  shows "\<exists>conf. predict_confidence_logits m hs ids sampled n = Inr (Some conf) \<and> length conf = n"
proof -
  let ?prev = "t # butlast sampled"
  have "\<exists>xs. predict_confidence_step m hs (Some ?prev) = Inr (Some xs) \<and> length xs = n"
  proof (cases "confidence_head_with_markov m")
    case False
    then have w: "length (fst wb) = D" using m c by (auto simp: draft_model_ok_def split: prod.splits)
    have "\<exists>cs. mapE (accept_rate wb) hs = Inr cs \<and> length cs = length hs \<and> (\<forall>y \<in> set cs. True)"
      by (rule mapE_ok) (use w hs in \<open>auto simp: accept_rate_def matrix_def\<close>)
    then show ?thesis using c False hs by (auto simp: predict_confidence_step_def matrix_def)
  next
    case True
    then obtain h where h: "draft_markov_head m = Some h" "head_ok V D h"
      using m by (auto simp: draft_model_ok_def split: option.splits)
    have w: "length (fst wb) = D + markov_rank h" using m c True h by (auto simp: draft_model_ok_def split: prod.splits)
    have prev: "x < V" if "x \<in> set ?prev" for x using that ids(2) sampled(2) by (auto dest: in_set_butlastD)
    obtain es where es: "mapE (get_prev_embeddings h) ?prev = Inr es" "length es = length ?prev"
      "\<forall>e \<in> set es. length e = markov_rank h"
      using mapE_ok [of ?prev "get_prev_embeddings h" "\<lambda>e. length e = markov_rank h"] prev_embeddings_ok [OF h(2)] prev by blast
    have len: "length es = length hs" using es(2) sampled(1) n hs by (cases sampled) (auto simp: matrix_def)
    have "\<exists>cs. mapE (accept_rate wb) (map2 (@) hs es) = Inr cs \<and> length cs = length (map2 (@) hs es) \<and> (\<forall>y \<in> set cs. True)"
      by (rule mapE_ok) (use w hs es(3) in \<open>auto simp: accept_rate_def matrix_def set_zip\<close>)
    then show ?thesis using c True h(1) es(1) len hs by (auto simp: predict_confidence_step_def matrix_def)
  qed
  then show ?thesis
    using ids(1) reshape_first_column_id [OF n] by (auto simp: predict_confidence_logits_def)
qed

lemma confident_prefix_length_le: "length conf = bs \<Longrightarrow> confident_prefix_length act conf bs th \<le> bs"
  by (auto simp: confident_prefix_length_def split: list.splits dest!: nonzero_Cons_iff)

definition confidences_ok :: "'k draft_model \<Rightarrow> block_draft_proposal \<Rightarrow> bool" where
  "confidences_ok m p \<longleftrightarrow> draft_token_count p = 0 \<or> confidence_head m = None
     \<or> (\<exists>lg. confidence_logits p = Some lg \<and> length lg = draft_token_count p)"

lemma probs_row_unit:
  assumes "env_ok env" and "length row = V"
  shows "length (logits_to_probs (env_softmax env) row T) = V
       \<and> (\<forall>x \<in> set (logits_to_probs (env_softmax env) row T). 0 \<le> x \<and> x \<le> 1)"
proof (cases "T < 1 / 100000")
  case True
  then have "logits_to_probs (env_softmax env) row T = one_hot V (argmax row)" using assms(2) by (simp add: greedy_probs)
  then show ?thesis by (auto simp: in_set_conv_nth one_hot_nth)
next
  case False
  with assms show ?thesis by (simp add: logits_to_probs_def env_ok_def)
qed

lemma empty_proposal_ok:
  "take 1 ids = [t] \<Longrightarrow> proposal_ok V mp t (empty_myspec_proposal ids) \<and> confidences_ok m (empty_myspec_proposal ids)"
  by (cases ids) (auto simp: proposal_ok_def empty_myspec_proposal_def confidences_ok_def)

lemma build_myspec_proposal_ok:
  assumes env: "env_ok env" and m: "draft_model_ok m V L D0 D" and hs: "matrix (draft_block_size m) D hs"
    and ids: "take 1 ids = [t]" "t < V"
  shows "\<exists>p r'. build_myspec_proposal env m ids hs (draft_block_size m) r = Inr (p, r')
           \<and> proposal_ok V (draft_block_size m) t p \<and> confidences_ok m p"
proof -
  define bs where "bs = draft_block_size m"
  have V: "0 < V" and bs: "0 < bs" using m by (simp_all add: draft_model_ok_def bs_def)
  have tk: "take bs hs = hs" using hs by (simp add: matrix_def bs_def)
  obtain base where base: "compute_logits (env_act env) m hs = Inr base" "matrix bs V base"
    using compute_logits_ok [OF m hs] by (auto simp: bs_def)
  have first: "nthE ids 0 = Inr t" using ids(1) by (cases ids) (auto simp: nthE_def)
  have head: "case draft_markov_head m of None \<Rightarrow> True | Some h \<Rightarrow> head_ok V D h"
    using m by (auto simp: draft_model_ok_def split: option.splits)
  obtain sampled lgs r' where s: "sample_draft_tokens env m base t (Some hs) r = Inr (sampled, lgs, r')"
    "length sampled = bs" "\<forall>t \<in> set sampled. t < V" "matrix bs V lgs"
    using sample_draft_tokens_ok [OF env V base(2) hs [folded bs_def] ids(2) head, of r] by (auto simp: block_sampled_def)
  have full: "proposal_ok V bs t p \<and> confidences_ok m p"
    if p: "p = \<lparr> draft_token_count = n, verify_input_ids = take 1 ids @ take n sampled,
        draft_probs = Some (map (\<lambda>row. logits_to_probs (env_softmax env) row (env_temperature env)) (take n lgs)),
        confidence_logits = map_option (take n) conf \<rparr>" "n \<le> bs"
      and c: "confidence_head m = None \<or> (\<exists>cl. conf = Some cl \<and> length cl = bs)" for p n conf
  proof
    have rows: "\<forall>row \<in> set (take n lgs). length row = V" using s(4) by (auto simp: matrix_def dest: in_set_takeD)
    show "proposal_ok V bs t p"
      using p s ids rows probs_row_unit [OF env] by (auto simp: proposal_ok_def matrix_def dest: in_set_takeD)
    show "confidences_ok m p" using p c by (auto simp: confidences_ok_def)
  qed
  show ?thesis
  proof (cases "confidence_head m")
    case None
    then show ?thesis
      using base(1) first s(1) bs tk full [OF refl, of bs None]
      by (simp add: build_myspec_proposal_def bs_def [symmetric])
  next
    case (Some wb)
    obtain conf where conf: "predict_confidence_logits m hs ids sampled bs = Inr (Some conf)" "length conf = bs"
      using predict_confidence_ok [OF m hs [folded bs_def] bs ids s(2,3) Some] by blast
    define n where "n = confident_prefix_length (env_act env) conf bs (env_threshold env)"
    have n: "n \<le> bs" using confident_prefix_length_le [OF conf(2)] by (simp add: n_def)
    show ?thesis
      using base(1) first s(1) bs tk conf full [OF refl n, of "Some conf"] empty_proposal_ok [OF ids(1), of V bs m] Some
      by (cases "n = 0") (simp_all add: build_myspec_proposal_def bs_def [symmetric] n_def [symmetric])
  qed
qed


section \<open>The target model's features\<close>

definition hidden_cover :: "nat \<Rightarrow> nat \<Rightarrow> nat \<Rightarrow> vec list list \<Rightarrow> bool" where
  "hidden_cover L D0 n hidden \<longleftrightarrow> length hidden = L + 1 \<and> (\<forall>layer \<in> set hidden. matrix n D0 layer)"

lemma validate_fold_range:
  "foldE (validate_layer_id L) prev ids = Inr z \<Longrightarrow> i \<in> set ids \<Longrightarrow> i = -1 \<or> 0 \<le> i \<and> i \<le> int L - 1"
proof (induction ids arbitrary: prev)
  case (Cons j ids)
  obtain p where p: "validate_layer_id L prev j = Inr p" "foldE (validate_layer_id L) p ids = Inr z"
    using Cons.prems(1) by (auto simp: bindE_eq_Inr)
  then have "j = -1 \<or> 0 \<le> j \<and> j \<le> int L - 1" unfolding validate_layer_id_def bindE_eq_Inr check_eq_Inr by blast
  with Cons.IH [OF p(2)] Cons.prems(2) show ?case by auto
qed simp

lemma validate_target_layer_ids_range:
  assumes "validate_target_layer_ids ids L = Inr ids'"
  shows "ids' = ids \<and> ids \<noteq> [] \<and> (\<forall>i \<in> set ids. i = -1 \<or> 0 \<le> i \<and> i < int L)"
proof -
  obtain z where "foldE (validate_layer_id L) None ids = Inr z" and eq: "ids' = ids" "ids \<noteq> []"
    using assms by (cases "ids = []"; cases "foldE (validate_layer_id L) None ids")
      (simp_all add: validate_target_layer_ids_def)
  note range = validate_fold_range [OF this(1)]
  have "i = -1 \<or> 0 \<le> i \<and> i < int L" if "i \<in> set ids" for i
    using range [OF that] by linarith
  with eq show ?thesis by blast
qed

lemma layer_at_ok:
  assumes "hidden_cover L D0 n hidden" and "i = -1 \<or> 0 \<le> i \<and> i < int L"
  shows "\<exists>l. layer_at hidden i = Inr l \<and> matrix n D0 l"
  using assms by (auto simp: layer_at_def hidden_cover_def Let_def)

lemma cat_fold_ok:
  assumes "matrix n c acc" and "\<forall>l \<in> set ls. matrix n D0 l"
  shows "\<exists>f. foldE (\<lambda>acc x. if length acc = length x then Inr (map2 (@) acc x) else Inl RuntimeError) acc ls = Inr f
           \<and> matrix n (c + length ls * D0) f"
  using assms
proof (induction ls arbitrary: acc c)
  case (Cons l ls)
  have l: "matrix n D0 l" using Cons.prems(2) by simp
  have "matrix n (c + D0) (map2 (@) acc l)"
    using Cons.prems(1) l by (auto simp: matrix_def set_zip)
  moreover have "\<forall>l \<in> set ls. matrix n D0 l" using Cons.prems(2) by simp
  ultimately obtain f where "foldE (\<lambda>acc x. if length acc = length x then Inr (map2 (@) acc x) else Inl RuntimeError)
      (map2 (@) acc l) ls = Inr f" "matrix n (c + D0 + length ls * D0) f"
    using Cons.IH by blast
  moreover have "length acc = length l" using Cons.prems(1) l by (simp add: matrix_def)
  ultimately show ?case by (simp add: add.assoc)
qed simp

lemma extract_context_feature_ok:
  assumes "hidden_cover L D0 n hidden" and "validate_target_layer_ids ids L = Inr ids"
  shows "\<exists>f. extract_context_feature hidden ids = Inr f \<and> matrix n (length ids * D0) f"
proof -
  have ids: "ids \<noteq> []" "\<forall>i \<in> set ids. i = -1 \<or> 0 \<le> i \<and> i < int L"
    using validate_target_layer_ids_range [OF assms(2)] by auto
  obtain ls where ls: "mapE (layer_at hidden) ids = Inr ls" "length ls = length ids" "\<forall>l \<in> set ls. matrix n D0 l"
    using mapE_ok [of ids "layer_at hidden" "matrix n D0"] layer_at_ok [OF assms(1)] ids(2) by blast
  then obtain l ls' where c: "ls = l # ls'" using ids(1) by (cases ls) auto
  have d: "matrix n D0 l" "\<forall>l \<in> set ls'. matrix n D0 l" using ls(3) c by simp_all
  have w: "length ids * D0 = D0 + length ls' * D0" using ls(2) c by (metis length_Cons mult_Suc)
  show ?thesis
    using cat_fold_ok [OF d] ls(1) c by (simp add: extract_context_feature_def cat_features_def w)
qed

section \<open>The drafters satisfy the contract of the decoding loop\<close>

text \<open>
  Before a proposal at \<open>start\<close>, the draft cache and the pending target features together
  cover exactly the first \<open>start\<close> positions; after it, the cache alone does.
\<close>

definition recording_ok :: "'k draft_model \<Rightarrow> recorder option \<Rightarrow> bool" where
  "recording_ok m rec \<longleftrightarrow> (case rec of None \<Rightarrow> True
     | Some rc \<Rightarrow> recorder_ok rc \<and> max_proposal_tokens rc = draft_block_size m \<and> confidence_head m \<noteq> None)"

definition block_inv :: "'k draft_model \<Rightarrow> nat \<Rightarrow> 'k block_context \<Rightarrow> nat \<Rightarrow> bool" where
  "block_inv m W x start \<longleftrightarrow>
     draft_cache_len m (past_key_values_draft x) + length (target_hidden_states x) = start
   \<and> (\<forall>row \<in> set (target_hidden_states x). length row = W) \<and> recording_ok m (ctx_recorder x)"

definition block_proposed :: "'k draft_model \<Rightarrow> block_draft_proposal \<Rightarrow> 'k block_context \<Rightarrow> nat \<Rightarrow> bool" where
  "block_proposed m p x start \<longleftrightarrow>
     draft_cache_len m (past_key_values_draft x) = start
   \<and> confidences_ok m p \<and> recording_ok m (ctx_recorder x)"

lemma backbone_forward:
  assumes "backbone_ok m W D" and "block_inv m W x start"
    and "case lat of None \<Rightarrow> length pos = length (target_hidden_states x) + length ids
         | Some (lids, lpos) \<Rightarrow> length lpos = length (target_hidden_states x) + length lids
             \<and> length pos = length (target_hidden_states x) + length lids + length ids"
  obtains hs k' where "forward_backbone m (past_key_values_draft x) (target_hidden_states x) lat ids pos = Inr (hs, k')"
    and "matrix (length ids) D hs" and "draft_cache_len m (draft_cache_crop m k' start) = start"
proof -
  obtain hs k' where "forward_backbone m (past_key_values_draft x) (target_hidden_states x) lat ids pos = Inr (hs, k')"
    "matrix (length ids) D hs"
    "draft_cache_len m (past_key_values_draft x) + length (target_hidden_states x) \<le> draft_cache_len m k'"
    using assms unfolding backbone_ok_def block_inv_def by blast
  moreover have "draft_cache_len m (draft_cache_crop m k' start) = min start (draft_cache_len m k')"
    using assms(1) by (simp add: backbone_ok_def)
  ultimately show ?thesis using that assms(2) by (simp add: block_inv_def min_absorb1)
qed

lemma filled_block_ok: "0 < n \<Longrightarrow> \<exists>ids. filled_block n fill t = Inr ids \<and> length ids = n \<and> take 1 ids = [t]"
  by (cases n) (auto simp: filled_block_def)

lemma forward_myspec_ok:
  assumes m: "backbone_ok m W D" and inv: "block_inv m W x start" and lat: "length lids = num_latent_tokens m"
    and pos: "start + length ids \<le> length pos" "start + num_latent_tokens m \<le> length pos"
  shows "\<exists>hs c. forward_myspec_draft_block m lids ids pos (past_key_values_draft x) (target_hidden_states x) start (length ids)
             = Inr (hs, c) \<and> matrix (length ids) D hs \<and> draft_cache_len m c = start"
proof -
  have cl: "draft_cache_len m (past_key_values_draft x) + length (target_hidden_states x) = start"
    using inv by (simp add: block_inv_def)
  let ?cp = "py_slice (draft_cache_len m (past_key_values_draft x)) start pos"
  let ?lp = "py_slice start (start + num_latent_tokens m) pos" and ?mp = "py_slice start (start + length ids) pos"
  have len: "length ?cp = length (target_hidden_states x)" "length ?lp = length lids" "length ?mp = length ids"
    using cl pos lat by auto
  obtain hs k' where "forward_backbone m (past_key_values_draft x) (target_hidden_states x) (Some (lids, ?cp @ ?lp)) ids (?cp @ ?lp @ ?mp)
      = Inr (hs, k')" "matrix (length ids) D hs" "draft_cache_len m (draft_cache_crop m k' start) = start"
    by (rule backbone_forward [OF m inv, where lat = "Some (lids, ?cp @ ?lp)" and pos = "?cp @ ?lp @ ?mp" and ids = ids])
       (use len in auto)
  then show ?thesis using cl by (simp add: forward_myspec_draft_block_def Let_def)
qed

lemma forward_dspark_ok:
  assumes m: "backbone_ok m W D" and inv: "block_inv m W x start" and pos: "start + length ids \<le> length pos"
  shows "\<exists>hs c. forward_dspark_draft_block m ids pos (past_key_values_draft x) (target_hidden_states x) start (length ids)
             = Inr (hs, c) \<and> matrix (length ids) D hs \<and> draft_cache_len m c = start"
proof -
  let ?p = "py_slice (draft_cache_len m (past_key_values_draft x)) (start + length ids) pos"
  have "length ?p = length (target_hidden_states x) + length ids" using inv pos by (auto simp: block_inv_def)
  then obtain hs k' where "forward_backbone m (past_key_values_draft x) (target_hidden_states x) None ids ?p
      = Inr (hs, k')" "matrix (length ids) D hs" "draft_cache_len m (draft_cache_crop m k' start) = start"
    using backbone_forward [OF m inv, where lat = None and pos = ?p and ids = ids] by auto
  then show ?thesis by (simp add: forward_dspark_draft_block_def)
qed

lemma block_init_ok:
  assumes "draft_model_ok m V L D0 D" and "recording_ok m rec" and "hidden_cover L D0 n (hidden_states o1)"
  shows "\<exists>x. block_init_context m rec o1 = Inr x \<and> block_inv m (length (target_layer_ids m) * D0) x n"
proof -
  obtain f where "extract_context_feature (hidden_states o1) (target_layer_ids m) = Inr f"
    "matrix n (length (target_layer_ids m) * D0) f"
    using extract_context_feature_ok [OF assms(3), of "target_layer_ids m"] assms(1) by (auto simp: draft_model_ok_def)
  then show ?thesis
    using assms(1,2) by (simp add: block_init_context_def block_inv_def matrix_def draft_model_ok_def backbone_ok_def)
qed

lemma block_update_ok:
  assumes "draft_model_ok m V L D0 D" and "block_proposed m p x start" and "verified (hidden_cover L D0) p v"
  shows "\<exists>x'. block_update m x v = Inr x'
           \<and> block_inv m (length (target_layer_ids m) * D0) x' (start + accepted_draft_tokens v + 1)"
proof -
  obtain f where f: "extract_context_feature (hidden_states (target_output v)) (target_layer_ids m) = Inr f"
    "matrix (draft_token_count p + 1) (length (target_layer_ids m) * D0) f"
    using extract_context_feature_ok [of L D0 "draft_token_count p + 1" _ "target_layer_ids m"] assms(1,3)
    by (auto simp: draft_model_ok_def verified_def)
  then show ?thesis
    using assms(2,3) by (auto simp: block_update_def block_inv_def block_proposed_def matrix_def verified_def dest: in_set_takeD)
qed

lemma block_post_verify_ok:
  assumes "block_proposed m p x start" and "verified H p v" and "draft_token_count p \<le> draft_block_size m"
  shows "\<exists>x'. block_post_verify env p v x = Inr x' \<and> block_proposed m p x' start"
proof (cases "ctx_recorder x")
  case None
  then show ?thesis using assms(1) by (simp add: block_post_verify_def)
next
  case (Some rc)
  then have rc: "recorder_ok rc" "max_proposal_tokens rc = draft_block_size m" "confidence_head m \<noteq> None"
    using assms(1) by (auto simp: block_proposed_def recording_ok_def)
  obtain rc' where "observe (act_sigmoid (env_act env)) rc p v = Inr rc'" "recorder_ok rc'"
    "max_proposal_tokens rc' = max_proposal_tokens rc"
    by (rule observe_ok [OF rc(1) _ _ assms(2), where sg = "act_sigmoid (env_act env)"])
       (use rc assms(1,3) in \<open>auto simp: block_proposed_def confidences_ok_def\<close>)
  then show ?thesis
    using Some rc assms(1) by (simp add: block_post_verify_def block_proposed_def recording_ok_def)
qed


lemma block_proposal_ok:
  assumes env: "env_ok env" and m: "draft_model_ok m V L D0 D" and inv: "block_inv m (length (target_layer_ids m) * D0) x start"
    and tok: "start < length out" "out ! start < V" and room: "start + draft_block_size m + 1 < length pos"
  shows "0 < num_latent_tokens m \<Longrightarrow> num_latent_tokens m \<le> draft_block_size m \<Longrightarrow>
    \<exists>p x' r'. myspec_propose env m x out pos start r = Inr (p, x', r')
      \<and> proposal_ok V (draft_block_size m) (out ! start) p \<and> block_proposed m p x' start"
    and "\<exists>p x' r'. dspark_propose env m x out pos start r = Inr (p, x', r')
      \<and> proposal_ok V (draft_block_size m) (out ! start) p \<and> block_proposed m p x' start"
proof -
  define bs where "bs = draft_block_size m"
  have bb: "backbone_ok m (length (target_layer_ids m) * D0) D" and bs: "0 < bs"
    using m by (simp_all add: draft_model_ok_def bs_def)
  obtain ids where ids: "filled_block bs (mask_token_id m) (out ! start) = Inr ids" "length ids = bs" "take 1 ids = [out ! start]"
    using filled_block_ok [OF bs] by blast
  have cur: "nthE out start = Inr (out ! start)" using tok(1) by (simp add: nthE_def)
  have rc: "recording_ok m (ctx_recorder x)" using inv by (simp add: block_inv_def)
  have build: "\<exists>p r'. build_myspec_proposal env m ids hs bs r = Inr (p, r')
      \<and> proposal_ok V bs (out ! start) p \<and> confidences_ok m p" if hs: "matrix bs D hs" for hs
    using build_myspec_proposal_ok [OF env m _ ids(3) tok(2), of hs r] hs by (simp add: bs_def)
  show "\<exists>p x' r'. myspec_propose env m x out pos start r = Inr (p, x', r')
      \<and> proposal_ok V (draft_block_size m) (out ! start) p \<and> block_proposed m p x' start"
    if lat: "0 < num_latent_tokens m" "num_latent_tokens m \<le> draft_block_size m"
  proof -
    obtain lids where lids: "filled_block (num_latent_tokens m) (latent_token_id m) (out ! start) = Inr lids"
      "length lids = num_latent_tokens m"
      using filled_block_ok [OF lat(1)] by blast
    have r1: "start + length ids \<le> length pos" and r2: "start + num_latent_tokens m \<le> length pos"
      using room lat(2) by (simp_all add: ids(2) bs_def)
    obtain hs c where fw: "forward_myspec_draft_block m lids ids pos (past_key_values_draft x) (target_hidden_states x) start bs
        = Inr (hs, c)" "matrix bs D hs" "draft_cache_len m c = start"
      using forward_myspec_ok [OF bb inv lids(2) r1 r2] ids(2) by auto
    then show ?thesis
      using build [OF fw(2)] cur lids(1) ids(1) rc
      by (auto simp: myspec_propose_def bs_def [symmetric] block_proposed_def)
  qed
  have r1: "start + length ids \<le> length pos" using room by (simp add: ids(2) bs_def)
  obtain hs c where fw: "forward_dspark_draft_block m ids pos (past_key_values_draft x) (target_hidden_states x) start bs
      = Inr (hs, c)" "matrix bs D hs" "draft_cache_len m c = start"
    using forward_dspark_ok [OF bb inv r1] ids(2) by auto
  then show "\<exists>p x' r'. dspark_propose env m x out pos start r = Inr (p, x', r')
      \<and> proposal_ok V (draft_block_size m) (out ! start) p \<and> block_proposed m p x' start"
    using build [OF fw(2)] cur ids(1) rc
    by (auto simp: dspark_propose_def bs_def [symmetric] block_proposed_def)
qed

lemma block_drafter_ok:
  assumes env: "env_ok env" and m: "draft_model_ok m V L D0 D" and rec: "recording_ok m rec"
    and dr: "dr = dspark_drafter env m rec
       \<or> dr = myspec_drafter env m rec \<and> 0 < num_latent_tokens m \<and> num_latent_tokens m \<le> draft_block_size m"
  shows "drafter_ok V (draft_block_size m) (hidden_cover L D0)
           (\<lambda>_. block_inv m (length (target_layer_ids m) * D0)) (\<lambda>_. block_proposed m) dr"
proof -
  have common: "init_context dr = (\<lambda>o1 _ _ _. block_init_context m rec o1)" "update_context dr = block_update m"
    "post_verify dr = Some (block_post_verify env)"
    using dr by (auto simp: myspec_drafter_def dspark_drafter_def)
  have proposes: "case propose dr x out pos start stops r of Inl _ \<Rightarrow> False
      | Inr (p, x', _) \<Rightarrow> proposal_ok V (draft_block_size m) (out ! start) p \<and> block_proposed m p x' start"
    if "start < length out" "out ! start < V" "start + draft_block_size m + 1 < length pos"
       "block_inv m (length (target_layer_ids m) * D0) x start" for x out pos start stops r
    using dr block_proposal_ok [OF env m that(4,1,2,3), of r]
    by (elim disjE conjE) (auto simp: myspec_drafter_def dspark_drafter_def)
  show ?thesis
    unfolding drafter_ok_def common option.case
  proof (intro conjI allI impI)
    fix pos p v x start cur
    assume a: "block_proposed m p x start \<and> proposal_ok V (draft_block_size m) cur p \<and> verified (hidden_cover L D0) p v"
    then have "draft_token_count p \<le> draft_block_size m" unfolding proposal_ok_def by blast
    with a show "\<exists>x'. block_post_verify env p v x = Inr x' \<and> block_proposed m p x' start"
      using block_post_verify_ok by blast
  qed (use block_init_ok [OF m rec] block_update_ok [OF m] proposes in blast)+
qed

text \<open>
  (C27) Decoding with the DSpark or the MySpec drafter is lossless. For every well-shaped
  draft model (any Markov head, with or without a confidence head and its recorder, any
  confidence threshold), greedy decoding raises no exception and returns exactly the target
  model's own greedy continuation. For MySpec the number of latent tokens must be between
  one and the block size, so that their position ids stay inside the buffer.
\<close>

theorem block_decoding_lossless:
  assumes target: "causal_lm rt tokens_of f V" "\<forall>xs. length (rt_softmax rt xs) = length xs"
      "draws_unit (rt_rand_like rt)" "draws_support (rt_multinomial rt)" "covers_inputs rt (hidden_cover L D0)"
    and draft: "env_ok env" "draft_model_ok m V L D0 D" "recording_ok m rec"
    and kind: "dr = dspark_drafter env m rec
       \<or> dr = myspec_drafter env m rec \<and> 0 < num_latent_tokens m \<and> num_latent_tokens m \<le> draft_block_size m"
    and T: "T < 1 / 100000" and ne: "prompt \<noteq> []" "set prompt \<subseteq> {..<V}" and N: "N \<ge> 1" and alloc: "\<And>n. length (torch_empty rt n) = n"
  shows "\<exists>res. generate_decoding_sample rt dr prompt N (draft_block_size m) T stops r = Inr res
           \<and> res_output_ids res = prompt @ upto_stop (stop_list stops) (greedy_decode f prompt N)"
proof -
  have "greedy_setup rt dr (hidden_cover L D0) (\<lambda>_. block_inv m (length (target_layer_ids m) * D0)) (\<lambda>_. block_proposed m)
          tokens_of f V T (draft_block_size m)"
    using target T block_drafter_ok [OF draft kind] by (simp add: greedy_setup_def)
  moreover have "draft_block_size m \<ge> 1" using draft(2) by (simp add: draft_model_ok_def)
  ultimately show ?thesis by (intro greedy_decoding [OF _ ne(1) N _ ne(2) alloc])
qed


text \<open>
  An instance: three tokens, one target layer of width one, a gated Markov head of rank one,
  a confidence head, and a backbone that returns constant rows and counts its cache.
\<close>

definition tiny_act :: activations where
  "tiny_act = \<lparr> act_sigmoid = (\<lambda>x. if x < 0 then 1 / 4 else 3 / 4), act_tanh = (\<lambda>x. x) \<rparr>"

definition tiny_head :: markov_head where
  "tiny_head = \<lparr> markov_w1 = [[1], [2], [3]], markov_w2 = [[0], [1], [-1]], markov_rank = 1, kind = Gated [[1, 1]] [0] \<rparr>"

definition tiny_model :: "nat draft_model" where
  "tiny_model = \<lparr> draft_block_size = 2, mask_token_id = 0, num_latent_tokens = 1, latent_token_id = 0,
     target_layer_ids = [-1, 0], lm_head = [[1], [2], [0]], final_logit_softcapping = None,
     draft_markov_head = Some tiny_head, confidence_head = Some ([1, 0], 0), confidence_head_with_markov = True,
     forward_backbone = (\<lambda>k th lat ids pos. Inr (replicate (length ids) [1], k + length th)),
     draft_cache_len = (\<lambda>k. k), draft_cache_crop = (\<lambda>k n. min n k), new_draft_cache = 0 \<rparr>"

definition tiny_env :: "unit draft_env" where
  "tiny_env = \<lparr> env_act = tiny_act, env_softmax = (\<lambda>xs. replicate (length xs) 0), env_multinomial = (\<lambda>w r. (argmax w, r)),
     env_temperature = 0, env_threshold = 0 \<rparr>"

definition tiny_runtime :: "(token list, vec list list, unit) runtime" where
  "tiny_runtime = \<lparr>
     target_model = (\<lambda>c ids pos keep.
       let lgs = map (\<lambda>i. toy_logits (c @ take (Suc i) ids)) [0..<length ids]
       in (\<lparr> logits = (if keep = 0 then lgs else drop (length lgs - keep) lgs),
            hidden_states = replicate 2 (replicate (length ids) [1]) \<rparr>, c @ ids)),
     cache_crop = (\<lambda>c n. take n c), new_cache = [], rt_softmax = (\<lambda>xs. xs),
     rt_rand_like = (\<lambda>n r. (replicate n 0, r)), rt_multinomial = (\<lambda>w r. (argmax w, r)),
     torch_empty = (\<lambda>n. replicate n 0) \<rparr>"

definition tiny_recorder :: "recorder option" where
  "tiny_recorder = map_option recorder_start (build_confidence_head_recorder tiny_env tiny_model [])"

lemma tiny_model_ok: "draft_model_ok tiny_model 3 1 1 1"
proof -
  have "validate_target_layer_ids [-1, 0] 1 = Inr [-1, 0]" by code_simp
  then show ?thesis
    by (auto simp: draft_model_ok_def tiny_model_def tiny_head_def matrix_def head_ok_def backbone_ok_def)
qed

lemma tiny_recorder_ok: "recording_ok tiny_model tiny_recorder"
  by (simp add: tiny_recorder_def build_confidence_head_recorder_def recording_ok_def tiny_model_def tiny_env_def
      recorder_start_ok) (simp add: recorder_start_def)

lemma tiny_target:
  "causal_lm tiny_runtime (\<lambda>c. c) toy_logits 3" "draws_unit (rt_rand_like tiny_runtime)"
  "draws_support (rt_multinomial tiny_runtime)" "covers_inputs tiny_runtime (hidden_cover 1 1)"
  using argmax_draws_support
  by (simp_all add: causal_lm_def tiny_runtime_def toy_logits_def draws_unit_def covers_inputs_def
      hidden_cover_def matrix_def Let_def)

lemma tiny_env_ok: "env_ok tiny_env"
  using argmax_draws_in_range by (simp add: env_ok_def tiny_env_def)

theorem block_decoding_lossless_witness:
  "\<exists>res. generate_decoding_sample tiny_runtime (myspec_drafter tiny_env tiny_model tiny_recorder) [1] 4 2 0 (Some [7]) () = Inr res
           \<and> res_output_ids res = [1, 1, 2, 0, 1]"
proof -
  have "upto_stop [7] (greedy_decode toy_logits [1] 4) = [1, 2, 0, 1]" by code_simp
  moreover have "draft_block_size tiny_model = 2" "0 < num_latent_tokens tiny_model" "num_latent_tokens tiny_model \<le> 2"
    by (simp_all add: tiny_model_def)
  ultimately show ?thesis
    using block_decoding_lossless [OF tiny_target(1) _ tiny_target(2-4) tiny_env_ok tiny_model_ok tiny_recorder_ok
        disjI2 [OF conjI [OF refl]], of 0 "[1]" 4 "Some [7]" "()"]
    by (simp add: tiny_runtime_def)
qed

end
