(* ===== verification/Eagle3_Drafter.thy ===== *)
theory Eagle3_Drafter
  imports Block_Drafter
begin

text \<open>
  The Eagle3 drafter: the one-layer draft head (\<^verbatim>\<open>modeling/eagle3/qwen3/modeling.py\<close>,
  \<^verbatim>\<open>modeling/eagle3/common.py\<close>) and the callbacks of \<^verbatim>\<open>eval/eagle3/evaluator.py\<close>. Eagle3
  drafts autoregressively over a key/value cache of its own, which speculation extends and
  \<open>_update\<close> crops and rebuilds from the committed tokens.

  The cache of the single layer is the list of its entries. An entry is computed from one
  token's embedding, hidden state and position alone (\<open>kv\<close>); the rest of the layer maps a
  query and the entries it attends to to an output row (\<open>attend\<close>). Both, and the final norm,
  are arguments of the model: they consist of transformers' linear, norm and rotary modules.
\<close>

section \<open>The draft head\<close>

record 'e eagle3_model =
  e3_target_layer_ids :: "int list"
  e3_hidden_size :: nat
  ttt_length :: nat
  e3_embed_tokens :: "vec list"
  e3_fc :: "vec list"
  e3_lm_head :: "vec list"
  e3_norm :: "vec \<Rightarrow> vec"
  kv :: "vec \<Rightarrow> vec \<Rightarrow> nat \<Rightarrow> 'e"
    \<comment> \<open>input embedding, hidden state, rotary position\<close>
  attend :: "vec \<Rightarrow> vec \<Rightarrow> nat \<Rightarrow> 'e list \<Rightarrow> vec"
    \<comment> \<open>the layer's output for one query over the entries visible to it\<close>

definition validate_eagle3_layer_id :: "nat \<Rightarrow> int option \<Rightarrow> int \<Rightarrow> int option res" where
  "validate_eagle3_layer_id num_target_layers previous layer_id =
     bindE (check (0 \<le> layer_id \<and> layer_id < int num_target_layers) AssertionError) (\<lambda>_.
     bindE (check (case previous of None \<Rightarrow> True | Some q \<Rightarrow> layer_id > q) AssertionError) (\<lambda>_.
     Inr (Some layer_id)))"

definition validate_eagle3_target_layer_ids :: "int list \<Rightarrow> nat \<Rightarrow> int list res" where
  "validate_eagle3_target_layer_ids layer_ids num_target_layers =
     bindE (check (length layer_ids = 5) AssertionError) (\<lambda>_.
     bindE (foldE (validate_eagle3_layer_id num_target_layers) None layer_ids) (\<lambda>_.
     Inr layer_ids))"

text \<open>\<open>hidden_states[layer_id + 1]\<close>, a Python index.\<close>

definition eagle3_layer_at :: "vec list list \<Rightarrow> int \<Rightarrow> vec list res" where
  "eagle3_layer_at hidden layer_id =
     (let i = layer_id + 1; j = (if i < 0 then i + int (length hidden) else i)
      in if 0 \<le> j \<and> j < int (length hidden) then Inr (hidden ! nat j) else Inl IndexError)"

definition extract_eagle3_context_feature :: "vec list list \<Rightarrow> int list \<Rightarrow> vec list res" where
  "extract_eagle3_context_feature hidden layer_ids = bindE (mapE (eagle3_layer_at hidden) layer_ids) cat_features"

definition project_hidden_states :: "'e eagle3_model \<Rightarrow> vec list \<Rightarrow> vec list res" where
  "project_hidden_states m hs =
     bindE (check (\<forall>h \<in> set hs. length h = length (e3_target_layer_ids m) * e3_hidden_size m) AssertionError) (\<lambda>_.
     mapE (linear (e3_fc m)) hs)"

definition e3_compute_logits :: "'e eagle3_model \<Rightarrow> vec list \<Rightarrow> vec list res" where
  "e3_compute_logits m hs = mapE (\<lambda>h. linear (e3_lm_head m) (e3_norm m h)) hs"

text \<open>
  \<open>hidden_states.size(-1)\<close>: the rows of a tensor have one width, read off the first.
\<close>

definition row_width :: "vec list \<Rightarrow> nat" where
  "row_width hs = (case hs of [] \<Rightarrow> 0 | h # _ \<Rightarrow> length h)"

text \<open>
  The forward pass without attention mask, as the evaluator calls it: several queries on an
  empty cache see the entries up to their own (\<open>is_causal\<close>), all other queries see the whole
  cache. Widths and lengths have to agree, as torch's broadcasting over them would raise.
\<close>

definition e3_visible :: "nat \<Rightarrow> nat \<Rightarrow> nat \<Rightarrow> 'e list \<Rightarrow> 'e list" where
  "e3_visible past_seen_tokens q_len j entries =
     (if q_len > 1 \<and> past_seen_tokens = 0 then take (Suc j) entries else entries)"

definition e3_layer :: "'e eagle3_model \<Rightarrow> vec list \<Rightarrow> vec list \<Rightarrow> nat list \<Rightarrow> 'e list \<Rightarrow> vec list \<times> 'e list" where
  "e3_layer m embeds hs pos cache =
     (let entries = cache @ map (\<lambda>j. kv m (embeds ! j) (hs ! j) (pos ! j)) [0..<length hs]
      in (map (\<lambda>j. attend m (embeds ! j) (hs ! j) (pos ! j) (e3_visible (length cache) (length hs) j entries))
            [0..<length hs], entries))"

definition e3_forward ::
  "'e eagle3_model \<Rightarrow> vec list \<Rightarrow> token list \<Rightarrow> nat list \<Rightarrow> 'e list \<Rightarrow> (vec list \<times> 'e list) res" where
  "e3_forward m hidden input_ids position_ids past_key_values =
     bindE (if row_width hidden = length (e3_target_layer_ids m) * e3_hidden_size m
            then project_hidden_states m hidden else Inr hidden) (\<lambda>hs.
     bindE (mapE (nthE (e3_embed_tokens m)) input_ids) (\<lambda>embeds.
     bindE (check (length embeds = length hs \<and> length position_ids = length hs) RuntimeError) (\<lambda>_.
     Inr (e3_layer m embeds hs position_ids past_key_values))))"

definition extend_draft_cache ::
  "'e eagle3_model \<Rightarrow> vec list \<Rightarrow> token list \<Rightarrow> nat list \<Rightarrow> 'e list \<Rightarrow> (vec list \<times> 'e list) res" where
  "extend_draft_cache m hidden input_ids position_ids past_key_values =
     bindE (check (length input_ids > 0) AssertionError) (\<lambda>_.
     bindE (e3_forward m hidden input_ids position_ids past_key_values) (\<lambda>(output, cache).
     Inr (drop (length output - 1) output, cache)))"

section \<open>The evaluator's callbacks\<close>

record 'e eagle3_context =
  draft_cache :: "'e list"
  draft_hidden :: "vec list"
  ctx_position_ids :: "nat list"
  current_pos :: nat
  cache_len_before :: nat

definition e3_init_context ::
  "'e eagle3_model \<Rightarrow> vec list list model_output \<Rightarrow> token list \<Rightarrow> nat list \<Rightarrow> nat \<Rightarrow> 'e eagle3_context res" where
  "e3_init_context m initial_output output_ids position_ids num_input_tokens =
     bindE (extract_eagle3_context_feature (hidden_states initial_output) (e3_target_layer_ids m)) (\<lambda>target_hidden.
     let shifted_prompt_ids = py_slice 1 num_input_tokens output_ids
                              @ py_slice num_input_tokens (num_input_tokens + 1) output_ids
     in bindE (extend_draft_cache m target_hidden shifted_prompt_ids (take num_input_tokens position_ids) []) (\<lambda>(h, cache).
        Inr \<lparr> draft_cache = cache, draft_hidden = h, ctx_position_ids = position_ids,
              current_pos = num_input_tokens, cache_len_before = 0 \<rparr>))"

text \<open>
  The drafting loop; the fuel is the number of iterations left. It returns the sampled
  tokens, their logits rows, and the cache.
\<close>

fun e3_draft ::
  "'r draft_env \<Rightarrow> 'e eagle3_model \<Rightarrow> nat list \<Rightarrow> token list option \<Rightarrow> nat \<Rightarrow> vec list \<Rightarrow> nat \<Rightarrow> 'e list \<Rightarrow> 'r
   \<Rightarrow> (token list \<times> vec list \<times> 'e list \<times> 'r) res" where
  "e3_draft env m pos stops 0 hidden next_position cache r = Inr ([], [], cache, r)"
| "e3_draft env m pos stops (Suc n) hidden next_position cache r =
     bindE (e3_compute_logits m hidden) (\<lambda>lgs.
     let (ts, r1) = sample_tokens (env_softmax env) (env_multinomial env) lgs (env_temperature env) r in
     if has_stop_token ts stops then Inr (drop (length ts - 1) ts, lgs, cache, r1)
     else
       bindE (e3_forward m hidden (drop (length ts - 1) ts) (py_slice next_position (next_position + 1) pos) cache) (\<lambda>(hidden', cache').
       bindE (e3_draft env m pos stops n hidden' (next_position + 1) cache' r1) (\<lambda>(ts', lgs', cache'', r2).
       Inr (drop (length ts - 1) ts @ ts', lgs @ lgs', cache'', r2))))"

definition e3_propose ::
  "'r draft_env \<Rightarrow> 'e eagle3_model \<Rightarrow> 'e eagle3_context \<Rightarrow> token list \<Rightarrow> nat \<Rightarrow> token list option \<Rightarrow> 'r
   \<Rightarrow> (draft_proposal \<times> 'e eagle3_context \<times> 'r) res" where
  "e3_propose env m x output_ids start stop_token_ids r =
     bindE (e3_draft env m (ctx_position_ids x) stop_token_ids (ttt_length m) (draft_hidden x) start (draft_cache x) r)
       (\<lambda>(candidates, draft_logits, cache, r').
     bindE (check (draft_logits \<noteq> []) RuntimeError) (\<lambda>_.
     Inr (\<lparr> draft_token_count = length draft_logits,
            verify_input_ids = py_slice start (start + 1) output_ids @ candidates,
            draft_probs = Some (map (\<lambda>row. logits_to_probs (env_softmax env) row (env_temperature env)) draft_logits) \<rparr>,
          x\<lparr> draft_cache := cache, cache_len_before := length (draft_cache x) \<rparr>, r')))"

definition e3_update ::
  "'e eagle3_model \<Rightarrow> 'e eagle3_context \<Rightarrow> vec list list verification_result \<Rightarrow> 'e eagle3_context res" where
  "e3_update m x v =
     (case committed_tokens v of None \<Rightarrow> Inl AssertionError
      | Some committed \<Rightarrow>
          let committed_length = length committed; cache = take (cache_len_before x) (draft_cache x) in
          bindE (extract_eagle3_context_feature (hidden_states (target_output v)) (e3_target_layer_ids m)) (\<lambda>f.
          bindE (extend_draft_cache m (take committed_length f) committed
                   (py_slice (current_pos x) (current_pos x + committed_length) (ctx_position_ids x)) cache) (\<lambda>(h, cache').
          Inr (x\<lparr> draft_cache := cache', draft_hidden := h, current_pos := current_pos x + committed_length \<rparr>))))"

definition eagle3_drafter ::
  "'r draft_env \<Rightarrow> 'e eagle3_model \<Rightarrow> (vec list list, 'e eagle3_context, 'r, unit) drafter" where
  "eagle3_drafter env m =
     \<lparr> init_context = e3_init_context m,
       propose = (\<lambda>x out _ start stops r. e3_propose env m x out start stops r),
       update_context = e3_update m, post_verify = None \<rparr>"

section \<open>Well-shaped draft heads\<close>

definition eagle3_ok :: "'e eagle3_model \<Rightarrow> nat \<Rightarrow> nat \<Rightarrow> bool" where
  "eagle3_ok m V L \<longleftrightarrow>
     0 < V \<and> 0 < ttt_length m \<and> 0 < e3_hidden_size m
   \<and> validate_eagle3_target_layer_ids (e3_target_layer_ids m) L = Inr (e3_target_layer_ids m)
   \<and> matrix V (e3_hidden_size m) (e3_embed_tokens m)
   \<and> matrix (e3_hidden_size m) (5 * e3_hidden_size m) (e3_fc m)
   \<and> matrix V (e3_hidden_size m) (e3_lm_head m)
   \<and> (\<forall>h. length h = e3_hidden_size m \<longrightarrow> length (e3_norm m h) = e3_hidden_size m)
   \<and> (\<forall>e h p es. length h = e3_hidden_size m \<longrightarrow> length (attend m e h p es) = e3_hidden_size m)"

lemma validate_eagle3_range:
  assumes "validate_eagle3_target_layer_ids ids L = Inr ids"
  shows "length ids = 5 \<and> (\<forall>i \<in> set ids. 0 \<le> i \<and> i < int L)"
proof -
  have "\<forall>i \<in> set ids. 0 \<le> i \<and> i < int L" if "foldE (validate_eagle3_layer_id L) prev ids = Inr z" for prev z
    using that
  proof (induction ids arbitrary: prev)
    case (Cons j ids)
    obtain p where p: "validate_eagle3_layer_id L prev j = Inr p" "foldE (validate_eagle3_layer_id L) p ids = Inr z"
      using Cons.prems by (auto simp: bindE_eq_Inr)
    then have "0 \<le> j \<and> j < int L" unfolding validate_eagle3_layer_id_def bindE_eq_Inr check_eq_Inr by blast
    with Cons.IH [OF p(2)] show ?case by simp
  qed simp
  then show ?thesis
    using assms by (cases "length ids = 5"; cases "foldE (validate_eagle3_layer_id L) None ids")
      (simp_all add: validate_eagle3_target_layer_ids_def)
qed

lemma eagle3_okD:
  assumes "eagle3_ok m V L"
  shows "0 < V" "0 < ttt_length m" "0 < e3_hidden_size m" "length (e3_target_layer_ids m) = 5"
    "\<forall>i \<in> set (e3_target_layer_ids m). 0 \<le> i \<and> i < int L"
    "matrix V (e3_hidden_size m) (e3_embed_tokens m)" "matrix (e3_hidden_size m) (5 * e3_hidden_size m) (e3_fc m)"
    "matrix V (e3_hidden_size m) (e3_lm_head m)"
    "\<And>h. length h = e3_hidden_size m \<Longrightarrow> length (e3_norm m h) = e3_hidden_size m"
    "\<And>e h p es. length h = e3_hidden_size m \<Longrightarrow> length (attend m e h p es) = e3_hidden_size m"
  using assms validate_eagle3_range [of "e3_target_layer_ids m" L] by (simp_all add: eagle3_ok_def)

lemma extract_eagle3_ok:
  assumes "hidden_cover L D n hidden" and "length ids = 5" and "\<forall>i \<in> set ids. 0 \<le> i \<and> i < int L"
  shows "\<exists>f. extract_eagle3_context_feature hidden ids = Inr f \<and> matrix n (5 * D) f"
proof -
  have "\<exists>l. eagle3_layer_at hidden i = Inr l \<and> matrix n D l" if "i \<in> set ids" for i
    using assms(1,3) that by (auto simp: eagle3_layer_at_def hidden_cover_def Let_def)
  then obtain ls where ls: "mapE (eagle3_layer_at hidden) ids = Inr ls" "length ls = length ids" "\<forall>l \<in> set ls. matrix n D l"
    using mapE_ok [of ids "eagle3_layer_at hidden" "matrix n D"] by blast
  then obtain l ls' where c: "ls = l # ls'" using assms(2) by (cases ls) auto
  have d: "matrix n D l" "\<forall>l \<in> set ls'. matrix n D l" using ls(3) c by simp_all
  have w: "5 * D = D + length ls' * D" using ls(2) c assms(2) by simp
  show ?thesis
    using cat_fold_ok [OF d] ls(1) c unfolding w by (simp add: extract_eagle3_context_feature_def cat_features_def)
qed

section \<open>The cache as a function of the committed text\<close>

text \<open>
  Entry \<open>j\<close> of the cache pairs the target features of position \<open>j\<close> with the token at
  position \<open>j + 1\<close>, at rotary position \<open>pos ! j\<close>.
\<close>

definition fc_row :: "'e eagle3_model \<Rightarrow> vec \<Rightarrow> vec" where
  "fc_row m f = map (\<lambda>w. dot w f) (e3_fc m)"

definition e3_entries :: "'e eagle3_model \<Rightarrow> nat list \<Rightarrow> vec list \<Rightarrow> token list \<Rightarrow> 'e list" where
  "e3_entries m pos F X =
     map (\<lambda>j. kv m (e3_embed_tokens m ! (X ! j)) (fc_row m (F ! j)) (pos ! j)) [0..<length F]"

definition e3_last :: "'e eagle3_model \<Rightarrow> nat list \<Rightarrow> vec list \<Rightarrow> token list \<Rightarrow> vec" where
  "e3_last m pos F X = attend m (e3_embed_tokens m ! last X) (fc_row m (last F)) (pos ! (length F - 1)) (e3_entries m pos F X)"

definition committed_text :: "nat \<Rightarrow> nat \<Rightarrow> vec list \<Rightarrow> token list \<Rightarrow> bool" where
  "committed_text V W F X \<longleftrightarrow> length X = length F \<and> matrix (length F) W F \<and> set X \<subseteq> {..<V}"

lemma committed_text_append:
  "committed_text V W F X \<Longrightarrow> committed_text V W f c \<Longrightarrow> committed_text V W (F @ f) (X @ c)"
  by (auto simp: committed_text_def matrix_def)

lemma e3_entries_append:
  assumes "length X = length F" and "length c = length f"
  shows "e3_entries m pos (F @ f) (X @ c) = e3_entries m pos F X
     @ map (\<lambda>j. kv m (e3_embed_tokens m ! (c ! j)) (fc_row m (f ! j)) (pos ! (length F + j))) [0..<length f]"
  using assms by (intro nth_equalityI) (auto simp: e3_entries_def nth_append)

lemma e3_forward_ok:
  assumes m: "eagle3_ok m V L" and t: "committed_text V (5 * e3_hidden_size m) f c" and ne: "f \<noteq> []" and ps: "length ps = length f"
  shows "e3_forward m f c ps cache = Inr (e3_layer m (map ((!) (e3_embed_tokens m)) c) (map (fc_row m) f) ps cache)"
proof -
  note D = eagle3_okD [OF m]
  have w: "row_width f = 5 * e3_hidden_size m" using t ne by (cases f) (simp_all add: row_width_def committed_text_def matrix_def)
  have "mapE (linear (e3_fc m)) f = Inr (map (fc_row m) f)"
    by (rule mapE_all) (use t D(7) in \<open>auto simp: linear_def fc_row_def committed_text_def matrix_def\<close>)
  then have pr: "project_hidden_states m f = Inr (map (fc_row m) f)"
    using t by (simp add: project_hidden_states_def D(4) committed_text_def matrix_def)
  have "mapE (nthE (e3_embed_tokens m)) c = Inr (map ((!) (e3_embed_tokens m)) c)"
    by (rule mapE_all) (use t D(6) in \<open>auto simp: nthE_def committed_text_def matrix_def\<close>)
  then show ?thesis
    using w pr t ps by (simp add: e3_forward_def D(4) committed_text_def)
qed

text \<open>
  Extending the cache of a committed text by further committed tokens gives the cache of the
  longer text, and the output row of its last position.
\<close>

lemma extend_draft_cache_ok:
  assumes m: "eagle3_ok m V L" and F: "length X = length F" and t: "committed_text V (5 * e3_hidden_size m) f c" and ne: "f \<noteq> []"
    and pos: "length F + length f \<le> length pos"
  shows "extend_draft_cache m f c (py_slice (length F) (length F + length f) pos) (e3_entries m pos F X)
    = Inr ([e3_last m pos (F @ f) (X @ c)], e3_entries m pos (F @ f) (X @ c))"
proof -
  define n where "n = length f"
  let ?ps = "py_slice (length F) (length F + length f) pos"
  have c: "length c = n" "c \<noteq> []" using t ne by (auto simp: committed_text_def n_def)
  have n: "0 < n" using ne by (simp add: n_def)
  have ps: "length ?ps = length f" using pos by simp
  have psn: "?ps ! j = pos ! (length F + j)" if "j < n" for j using that pos by (simp add: nth_py_slice n_def)
  have ent: "e3_entries m pos F X @ map (\<lambda>j. kv m (map ((!) (e3_embed_tokens m)) c ! j) (map (fc_row m) f ! j) (?ps ! j)) [0..<n]
      = e3_entries m pos (F @ f) (X @ c)"
    using c psn F by (simp add: e3_entries_append n_def)
  have vis: "e3_visible k n (n - 1) E = E" if "k = length (e3_entries m pos F X)" "length E = k + n" for k and E :: "'a list"
    using that n by (simp add: e3_visible_def)
  have lst: "X @ c \<noteq> []" "last (X @ c) = c ! (n - 1)" "last (F @ f) = f ! (n - 1)"
    using c ne n last_appendR [OF c(2), of X] last_appendR [OF ne, of F] last_conv_nth [OF c(2)] last_conv_nth [OF ne]
    by (simp_all add: n_def)
  have tail: "length (F @ f) - 1 = length F + (n - 1)" using n unfolding n_def length_append by linarith
  have out: "drop (n - 1) (map g [0..<n]) = [g (n - 1)]" for g :: "nat \<Rightarrow> vec"
    using n by (cases n) simp_all
  have E: "length (e3_entries m pos (F @ f) (X @ c)) = length (e3_entries m pos F X) + n"
    by (simp add: e3_entries_def n_def)
  have row: "attend m (map ((!) (e3_embed_tokens m)) c ! (n - 1)) (map (fc_row m) f ! (n - 1)) (?ps ! (n - 1))
      (e3_visible (length (e3_entries m pos F X)) n (n - 1) (e3_entries m pos (F @ f) (X @ c))) = e3_last m pos (F @ f) (X @ c)"
    unfolding e3_last_def vis [OF refl E] lst(2,3) tail using n c psn [of "n - 1"] by (simp add: n_def)
  have "e3_layer m (map ((!) (e3_embed_tokens m)) c) (map (fc_row m) f) ?ps (e3_entries m pos F X)
     = (map (\<lambda>j. attend m (map ((!) (e3_embed_tokens m)) c ! j) (map (fc_row m) f ! j) (?ps ! j)
           (e3_visible (length (e3_entries m pos F X)) n j (e3_entries m pos (F @ f) (X @ c)))) [0..<n],
        e3_entries m pos (F @ f) (X @ c))"
    unfolding e3_layer_def Let_def length_map n_def [symmetric] ent [folded n_def] ..
  then show ?thesis
    using c(2) out row by (simp add: extend_draft_cache_def e3_forward_ok [OF m t ne ps])
qed

section \<open>Drafting\<close>

lemma e3_step_row:
  assumes m: "eagle3_ok m V L" and h: "length h = e3_hidden_size m" and t: "t < V"
  shows "\<exists>h' e. e3_forward m [h] [t] [q] cache = Inr ([h'], cache @ [e]) \<and> length h' = e3_hidden_size m"
proof -
  note D = eagle3_okD [OF m]
  have w: "row_width [h] \<noteq> length (e3_target_layer_ids m) * e3_hidden_size m"
    using h D(3,4) by (simp add: row_width_def)
  have "nthE (e3_embed_tokens m) t = Inr (e3_embed_tokens m ! t)" using t D(6) by (simp add: nthE_def matrix_def)
  then show ?thesis using w D(10) h by (simp add: e3_forward_def e3_layer_def Let_def)
qed

lemma e3_draft_ok:
  assumes env: "env_ok env" and m: "eagle3_ok m V L"
  shows "length h = e3_hidden_size m \<Longrightarrow> q + n \<le> length pos \<Longrightarrow>
    \<exists>ts lgs cache' r'. e3_draft env m pos stops n [h] q cache r = Inr (ts, lgs, cache', r')
      \<and> length ts = length lgs \<and> length lgs \<le> n \<and> (0 < n \<longrightarrow> lgs \<noteq> []) \<and> set ts \<subseteq> {..<V}
      \<and> (\<forall>row \<in> set lgs. length row = V) \<and> take (length cache) cache' = cache"
proof (induction n arbitrary: h q cache r)
  case (Suc n)
  note D = eagle3_okD [OF m]
  obtain lg where lg: "linear (e3_lm_head m) (e3_norm m h) = Inr lg" "length lg = V"
    using linear_ok [OF D(8) D(9) [OF Suc.prems(1)]] by blast
  have cl: "e3_compute_logits m [h] = Inr [lg]" by (simp add: e3_compute_logits_def lg)
  obtain t r1 where t: "sample_tokens (env_softmax env) (env_multinomial env) [lg] (env_temperature env) r = ([t], r1)" "t < V"
    using sample_tokens_ok [OF env D(1), of 1 "[lg]" "env_temperature env" r] lg(2)
    by (auto simp: matrix_def length_Suc_conv)
  obtain h' e where fw: "e3_forward m [h] [t] [pos ! q] cache = Inr ([h'], cache @ [e])" "length h' = e3_hidden_size m"
    using e3_step_row [OF m Suc.prems(1) t(2)] by blast
  have q: "py_slice q (q + 1) pos = [pos ! q]" using Suc.prems(2) by (simp add: py_slice_one [simplified])
  obtain ts lgs cache' r' where IH: "e3_draft env m pos stops n [h'] (q + 1) (cache @ [e]) r1 = Inr (ts, lgs, cache', r')"
    "length ts = length lgs" "length lgs \<le> n" "set ts \<subseteq> {..<V}" "\<forall>row \<in> set lgs. length row = V"
    "take (length (cache @ [e])) cache' = cache @ [e]"
    using Suc.IH [OF fw(2), of "q + 1" "cache @ [e]" r1] Suc.prems(2) by auto
  have pre: "take (length cache) cache' = cache"
    using arg_cong [OF IH(6), of "take (length cache)"] by simp
  show ?case
  proof (cases "has_stop_token [t] stops")
    case True
    then show ?thesis using cl t lg by simp
  next
    case False
    then have "e3_draft env m pos stops (Suc n) [h] q cache r = Inr (t # ts, lg # lgs, cache', r')"
      using cl t(1) fw(1) q IH(1) by simp
    then show ?thesis using IH pre t(2) lg(2) by auto
  qed
qed simp

definition e3_inv :: "'e eagle3_model \<Rightarrow> nat \<Rightarrow> nat list \<Rightarrow> vec list \<Rightarrow> token list \<Rightarrow> 'e eagle3_context \<Rightarrow> bool" where
  "e3_inv m V pos F X x \<longleftrightarrow>
     committed_text V (5 * e3_hidden_size m) F X \<and> F \<noteq> []
   \<and> draft_cache x = e3_entries m pos F X \<and> draft_hidden x = [e3_last m pos F X]
   \<and> ctx_position_ids x = pos \<and> current_pos x = length F"

definition e3_proposed :: "'e eagle3_model \<Rightarrow> nat \<Rightarrow> nat list \<Rightarrow> vec list \<Rightarrow> token list \<Rightarrow> draft_proposal \<Rightarrow> 'e eagle3_context \<Rightarrow> bool" where
  "e3_proposed m V pos F X p x \<longleftrightarrow>
     committed_text V (5 * e3_hidden_size m) F X
   \<and> take (cache_len_before x) (draft_cache x) = e3_entries m pos F X
   \<and> ctx_position_ids x = pos \<and> current_pos x = length F \<and> length F + draft_token_count p + 1 \<le> length pos"

lemma e3_last_width:
  assumes "eagle3_ok m V L" and "committed_text V (5 * e3_hidden_size m) F X" and "F \<noteq> []"
  shows "length (e3_last m pos F X) = e3_hidden_size m"
  using eagle3_okD(7,10) [OF assms(1)] by (simp add: e3_last_def fc_row_def matrix_def)

lemma e3_propose_ok:
  assumes env: "env_ok env" and m: "eagle3_ok m V L" and inv: "e3_inv m V pos F X x"
    and room: "length F + ttt_length m + 1 < length pos" and cur: "start = length F" "start < length out"
  shows "\<exists>p x' r'. e3_propose env m x out start stops r = Inr (p, x', r')
     \<and> proposal_ok V (ttt_length m) (out ! start) p \<and> e3_proposed m V pos F X p x'"
proof -
  have I: "draft_cache x = e3_entries m pos F X" "draft_hidden x = [e3_last m pos F X]" "ctx_position_ids x = pos"
    "current_pos x = length F" "committed_text V (5 * e3_hidden_size m) F X" "F \<noteq> []"
    using inv by (simp_all add: e3_inv_def)
  have fits: "start + ttt_length m \<le> length pos" using room cur(1) by simp
  obtain ts lgs cache' r' where d: "e3_draft env m pos stops (ttt_length m) [e3_last m pos F X] start (e3_entries m pos F X) r
      = Inr (ts, lgs, cache', r')" "length ts = length lgs" "length lgs \<le> ttt_length m" "lgs \<noteq> []" "set ts \<subseteq> {..<V}"
      "\<forall>row \<in> set lgs. length row = V" "take (length (e3_entries m pos F X)) cache' = e3_entries m pos F X"
    using e3_draft_ok [OF env m e3_last_width [OF m I(5,6)] fits] eagle3_okD(2) [OF m] by blast
  define p where "p = \<lparr> draft_token_count = length lgs, verify_input_ids = py_slice start (start + 1) out @ ts,
    draft_probs = Some (map (\<lambda>row. logits_to_probs (env_softmax env) row (env_temperature env)) lgs) \<rparr>"
  define x' where "x' = x\<lparr> draft_cache := cache', cache_len_before := length (draft_cache x) \<rparr>"
  have "e3_propose env m x out start stops r = Inr (p, x', r')"
    unfolding e3_propose_def I(1-3) d(1) using d(4) by (simp add: p_def x'_def I(1))
  moreover have "proposal_ok V (ttt_length m) (out ! start) p"
    using d probs_row_unit [OF env] cur(2) by (auto simp: proposal_ok_def p_def py_slice_one [simplified])
  moreover have "e3_proposed m V pos F X p x'"
    using I d(3,7) room by (simp add: e3_proposed_def x'_def p_def)
  ultimately show ?thesis by blast
qed

lemma e3_update_ok:
  assumes m: "eagle3_ok m V L" and pr: "e3_proposed m V pos F X p x" and ver: "verified (hidden_cover L (e3_hidden_size m)) p v"
    and ok: "proposal_ok V mp cur p" and nxt: "next_token v < V"
  obtains f c x' where "extract_eagle3_context_feature (hidden_states (target_output v)) (e3_target_layer_ids m) = Inr f"
    and "committed_tokens v = Some c" and "length c = accepted_draft_tokens v + 1"
    and "e3_update m x v = Inr x'" and "e3_inv m V pos (F @ take (length c) f) (X @ c) x'"
    and "committed_text V (5 * e3_hidden_size m) (take (length c) f) c"
proof -
  note D = eagle3_okD [OF m]
  have P: "committed_text V (5 * e3_hidden_size m) F X" "take (cache_len_before x) (draft_cache x) = e3_entries m pos F X"
    "ctx_position_ids x = pos" "current_pos x = length F" "length F + draft_token_count p + 1 \<le> length pos"
    using pr by (simp_all add: e3_proposed_def)
  define c where "c = py_slice 1 (accepted_draft_tokens v + 1) (verify_input_ids p) @ [next_token v]"
  have v: "committed_tokens v = Some c" "accepted_draft_tokens v \<le> draft_token_count p"
    "length (verify_input_ids p) = draft_token_count p + 1"
    "hidden_cover L (e3_hidden_size m) (draft_token_count p + 1) (hidden_states (target_output v))"
    using ver by (simp_all add: verified_def c_def)
  have lc: "length c = accepted_draft_tokens v + 1" using v(2,3) by (simp add: c_def)
  obtain f where f: "extract_eagle3_context_feature (hidden_states (target_output v)) (e3_target_layer_ids m) = Inr f"
    "matrix (draft_token_count p + 1) (5 * e3_hidden_size m) f"
    using extract_eagle3_ok [OF v(4) D(4,5)] by blast
  have "set (py_slice 1 (accepted_draft_tokens v + 1) (verify_input_ids p)) \<subseteq> set (drop 1 (verify_input_ids p))"
    unfolding py_slice_def by (rule set_take_subset)
  then have cV: "set c \<subseteq> {..<V}" using ok nxt unfolding c_def proposal_ok_def by auto
  have lf: "length (take (length c) f) = length c" using f(2) lc v(2) by (simp add: matrix_def)
  have t: "committed_text V (5 * e3_hidden_size m) (take (length c) f) c"
    using f(2) lf cV by (auto simp: committed_text_def matrix_def dest: in_set_takeD)
  have ne: "take (length c) f \<noteq> []" using lf lc by auto
  have LX: "length X = length F" using P(1) by (simp add: committed_text_def)
  have room: "length F + length (take (length c) f) \<le> length pos" using P(5) v(2) unfolding lf lc by simp
  note ext = extend_draft_cache_ok [OF m LX t ne room, unfolded lf]
  define x' where "x' = x\<lparr> draft_cache := e3_entries m pos (F @ take (length c) f) (X @ c),
    draft_hidden := [e3_last m pos (F @ take (length c) f) (X @ c)], current_pos := length F + length c \<rparr>"
  have "e3_update m x v = Inr x'"
    unfolding e3_update_def v(1) option.case Let_def P(2-4) f(1) bindE.simps ext by (simp add: x'_def)
  moreover have "e3_inv m V pos (F @ take (length c) f) (X @ c) x'"
    unfolding e3_inv_def using committed_text_append [OF P(1) t] ne lf P(3) by (simp add: x'_def)
  ultimately show thesis using that f(1) v(1) lc t by blast
qed

lemma e3_init_ok:
  assumes m: "eagle3_ok m V L" and cov: "hidden_cover L (e3_hidden_size m) n (hidden_states o1)"
    and n: "0 < n" "n < length out" "set (take (Suc n) out) \<subseteq> {..<V}" "n < length pos"
  shows "\<exists>f x. extract_eagle3_context_feature (hidden_states o1) (e3_target_layer_ids m) = Inr f \<and> length f = n
    \<and> e3_init_context m o1 out pos n = Inr x \<and> e3_inv m V pos f (py_slice 1 (Suc n) out) x"
proof -
  note D = eagle3_okD [OF m]
  obtain f where f: "extract_eagle3_context_feature (hidden_states o1) (e3_target_layer_ids m) = Inr f"
    "matrix n (5 * e3_hidden_size m) f"
    using extract_eagle3_ok [OF cov D(4,5)] by blast
  have sh: "py_slice 1 n out @ py_slice n (n + 1) out = py_slice 1 (Suc n) out"
    using n(1) by (simp add: py_slice_append)
  have "set (py_slice 1 (Suc n) out) \<subseteq> set (take (Suc n) out)"
    by (auto simp: py_slice_def take_drop set_drop_subset dest: in_set_dropD)
  then have t: "committed_text V (5 * e3_hidden_size m) f (py_slice 1 (Suc n) out)"
    using f(2) n by (auto simp: committed_text_def matrix_def)
  have lf: "length f = n" and ne: "f \<noteq> []" using f(2) n(1) by (auto simp: matrix_def)
  have e: "e3_entries m pos [] [] = []" by (simp add: e3_entries_def)
  have "extend_draft_cache m f (py_slice 1 (Suc n) out) (take n pos) []
     = Inr ([e3_last m pos f (py_slice 1 (Suc n) out)], e3_entries m pos f (py_slice 1 (Suc n) out))"
    using extend_draft_cache_ok [OF m _ t ne, of "[]" "[]" pos] n(4) lf by (simp add: e)
  then show ?thesis
    using f(1) lf ne t by (simp add: e3_init_context_def Let_def sh [simplified] e3_inv_def)
qed

section \<open>The contract of the decoding loop\<close>

lemma eagle3_drafter_ok:
  assumes env: "env_ok env" and m: "eagle3_ok m V L"
  shows "drafter_ok V (ttt_length m) (hidden_cover L (e3_hidden_size m))
           (\<lambda>pos x start. \<exists>F X. length F = start \<and> e3_inv m V pos F X x)
           (\<lambda>pos p x start. \<exists>F X. length F = start \<and> e3_proposed m V pos F X p x) (eagle3_drafter env m)"
proof -
  have fields: "init_context (eagle3_drafter env m) = e3_init_context m"
    "propose (eagle3_drafter env m) = (\<lambda>x out _ start stops r. e3_propose env m x out start stops r)"
    "update_context (eagle3_drafter env m) = e3_update m" "post_verify (eagle3_drafter env m) = None"
    by (simp_all add: eagle3_drafter_def)
  show ?thesis
    unfolding drafter_ok_def fields option.case
  proof (intro conjI allI impI)
    fix o1 :: "vec list list model_output" and out :: "token list" and pos :: "nat list" and n
    assume a: "hidden_cover L (e3_hidden_size m) n (hidden_states o1) \<and> 0 < n \<and> n < length out
      \<and> set (take (Suc n) out) \<subseteq> {..<V} \<and> n + ttt_length m + 1 < length pos"
    then have "n < length pos" by simp
    with a e3_init_ok [OF m, of n o1 out pos]
    show "\<exists>x. e3_init_context m o1 out pos n = Inr x \<and> (\<exists>F X. length F = n \<and> e3_inv m V pos F X x)" by blast
  next
    fix x out and pos :: "nat list" and start stops r
    assume a: "start < length out \<and> out ! start < V \<and> start + ttt_length m + 1 < length pos
      \<and> (\<exists>F X. length F = start \<and> e3_inv m V pos F X x)"
    then obtain F X where F: "length F = start" "e3_inv m V pos F X x" by blast
    have room: "length F + ttt_length m + 1 < length pos" and cur: "start < length out" using a F(1) by auto
    obtain p x' r' where "e3_propose env m x out start stops r = Inr (p, x', r')"
      and "proposal_ok V (ttt_length m) (out ! start) p" and "e3_proposed m V pos F X p x'"
      using e3_propose_ok [OF env m F(2) room F(1) [symmetric] cur, of stops r] by blast
    with F(1) show "case e3_propose env m x out start stops r of Inl _ \<Rightarrow> False
      | Inr (p, x', _) \<Rightarrow> proposal_ok V (ttt_length m) (out ! start) p
          \<and> (\<exists>F X. length F = start \<and> e3_proposed m V pos F X p x')"
      by auto
  next
    fix pos p v x start cur
    assume a: "(\<exists>F X. length F = start \<and> e3_proposed m V pos F X p x) \<and> proposal_ok V (ttt_length m) cur p
      \<and> verified (hidden_cover L (e3_hidden_size m)) p v \<and> next_token v < V"
    then obtain F X where F: "length F = start" "e3_proposed m V pos F X p x" by blast
    obtain f c x' where "length c = accepted_draft_tokens v + 1" "e3_update m x v = Inr x'"
      "e3_inv m V pos (F @ take (length c) f) (X @ c) x'" "committed_text V (5 * e3_hidden_size m) (take (length c) f) c"
      using e3_update_ok [OF m F(2)] a by metis
    moreover from this have "length (F @ take (length c) f) = start + accepted_draft_tokens v + 1"
      using F(1) by (simp add: committed_text_def)
    ultimately show "\<exists>x'. e3_update m x v = Inr x'
        \<and> (\<exists>F X. length F = start + accepted_draft_tokens v + 1 \<and> e3_inv m V pos F X x')" by blast
  qed simp
qed

text \<open>
  (C21) Decoding with the Eagle3 drafter is lossless. For a well-shaped one-layer draft head
  on five target layers, greedy decoding raises no exception and returns exactly the target
  model's own greedy continuation, although the drafter stops drafting at a stop token and
  rebuilds its cache after every verification.
\<close>

theorem eagle3_decoding_lossless:
  assumes target: "causal_lm rt tokens_of f V" "\<forall>xs. length (rt_softmax rt xs) = length xs"
      "draws_unit (rt_rand_like rt)" "draws_support (rt_multinomial rt)" "covers_inputs rt (hidden_cover L (e3_hidden_size m))"
    and draft: "env_ok env" "eagle3_ok m V L"
    and T: "T < 1 / 100000" and ne: "prompt \<noteq> []" "set prompt \<subseteq> {..<V}" and N: "N \<ge> 1" and alloc: "\<And>n. length (torch_empty rt n) = n"
  shows "\<exists>res. generate_decoding_sample rt (eagle3_drafter env m) prompt N (ttt_length m) T stops r = Inr res
           \<and> res_output_ids res = prompt @ upto_stop (stop_list stops) (greedy_decode f prompt N)"
proof -
  have "greedy_setup rt (eagle3_drafter env m) (hidden_cover L (e3_hidden_size m))
      (\<lambda>pos x start. \<exists>F X. length F = start \<and> e3_inv m V pos F X x)
      (\<lambda>pos p x start. \<exists>F X. length F = start \<and> e3_proposed m V pos F X p x) tokens_of f V T (ttt_length m)"
    using target T eagle3_drafter_ok [OF draft] by (simp add: greedy_setup_def)
  moreover have "ttt_length m \<ge> 1" using eagle3_okD(2) [OF draft(2)] by simp
  ultimately show ?thesis by (intro greedy_decoding [OF _ ne(1) N _ ne(2) alloc])
qed

text \<open>
  (C22) Speculation leaves no trace in the Eagle3 draft cache. If the context is the one a
  single pass over the committed text would give, then proposing and updating with a
  verification result again gives the context of a single pass, over the text extended by
  the committed tokens: the entries of rejected draft tokens are gone, and neither the
  incremental extension nor the missing causal mask can be seen.
\<close>

theorem eagle3_incremental_cache:
  assumes "env_ok env" and m: "eagle3_ok m V L" and inv: "e3_inv m V pos F X x"
    and "length F + ttt_length m + 1 < length pos" and "length F < length out"
  shows "extend_draft_cache m F X (take (length F) pos) [] = Inr (draft_hidden x, draft_cache x)
    \<and> (\<exists>p x' r'. e3_propose env m x out (length F) stops r = Inr (p, x', r')
       \<and> (\<forall>v. verified (hidden_cover L (e3_hidden_size m)) p v \<and> next_token v < V \<longrightarrow>
           (\<exists>f c x''. extract_eagle3_context_feature (hidden_states (target_output v)) (e3_target_layer_ids m) = Inr f
              \<and> committed_tokens v = Some c \<and> e3_update m x' v = Inr x''
              \<and> extend_draft_cache m (F @ take (length c) f) (X @ c) (take (length F + length c) pos) []
                  = Inr (draft_hidden x'', draft_cache x'')
              \<and> e3_inv m V pos (F @ take (length c) f) (X @ c) x'')))"
proof -
  have scratch: "extend_draft_cache m F X (take (length F) pos) [] = Inr (draft_hidden x, draft_cache x)"
    if i: "e3_inv m V pos F X x" and room: "length F \<le> length pos" for F X x
    using extend_draft_cache_ok [OF m, of "[]" "[]" F X pos] i room
    by (auto simp: e3_inv_def e3_entries_def [of _ _ "[]"])
  obtain p x' r' where p: "e3_propose env m x out (length F) stops r = Inr (p, x', r')"
    and ok: "proposal_ok V (ttt_length m) (out ! length F) p" and pr: "e3_proposed m V pos F X p x'"
    using e3_propose_ok [OF assms(1,2,3,4) refl assms(5)] by blast
  have "\<exists>f c x''. extract_eagle3_context_feature (hidden_states (target_output v)) (e3_target_layer_ids m) = Inr f
          \<and> committed_tokens v = Some c \<and> e3_update m x' v = Inr x''
          \<and> extend_draft_cache m (F @ take (length c) f) (X @ c) (take (length F + length c) pos) []
              = Inr (draft_hidden x'', draft_cache x'')
          \<and> e3_inv m V pos (F @ take (length c) f) (X @ c) x''"
    if v: "verified (hidden_cover L (e3_hidden_size m)) p v" "next_token v < V" for v
  proof -
    obtain f c x'' where u: "extract_eagle3_context_feature (hidden_states (target_output v)) (e3_target_layer_ids m) = Inr f"
      "committed_tokens v = Some c" "length c = accepted_draft_tokens v + 1" "e3_update m x' v = Inr x''"
      "e3_inv m V pos (F @ take (length c) f) (X @ c) x''" "committed_text V (5 * e3_hidden_size m) (take (length c) f) c"
      by (rule e3_update_ok [OF m pr v(1) ok v(2)])
    have len: "length (F @ take (length c) f) = length F + length c" using u(6) by (simp add: committed_text_def)
    have "accepted_draft_tokens v \<le> ttt_length m" using v(1) ok by (simp add: verified_def proposal_ok_def)
    then have "length F + length c \<le> length pos" using u(3) assms(4) by simp
    with scratch [OF u(5)] len u show ?thesis by auto
  qed
  then show ?thesis using scratch [OF inv] assms(4) p by auto
qed

section \<open>A concrete draft head\<close>

text \<open>Three tokens, a target of five layers of width one, entries that keep their inputs.\<close>

definition tiny_eagle3 :: "(vec \<times> vec \<times> nat) eagle3_model" where
  "tiny_eagle3 = \<lparr> e3_target_layer_ids = [0, 1, 2, 3, 4], e3_hidden_size = 1, ttt_length = 2,
     e3_embed_tokens = [[1], [2], [3]], e3_fc = [[1, 0, 0, 0, 1]], e3_lm_head = [[1], [2], [0]], e3_norm = (\<lambda>h. h),
     kv = (\<lambda>e h p. (e, h, p)), attend = (\<lambda>e h p es. [of_nat (length es) + of_nat p]) \<rparr>"

definition tiny_runtime5 :: "(token list, vec list list, unit) runtime" where
  "tiny_runtime5 = tiny_runtime\<lparr> target_model := (\<lambda>c ids pos keep.
       let lgs = map (\<lambda>i. toy_logits (c @ take (Suc i) ids)) [0..<length ids]
       in (\<lparr> logits = (if keep = 0 then lgs else drop (length lgs - keep) lgs),
            hidden_states = replicate 6 (replicate (length ids) [1]) \<rparr>, c @ ids)) \<rparr>"

lemma tiny_eagle3_ok: "eagle3_ok tiny_eagle3 3 5"
proof -
  have "validate_eagle3_target_layer_ids [0, 1, 2, 3, 4] 5 = Inr [0, 1, 2, 3, 4]" by code_simp
  then show ?thesis
    by (simp add: eagle3_ok_def tiny_eagle3_def matrix_def)
qed

lemma tiny_target5:
  "causal_lm tiny_runtime5 (\<lambda>c. c) toy_logits 3" "draws_unit (rt_rand_like tiny_runtime5)"
  "draws_support (rt_multinomial tiny_runtime5)" "covers_inputs tiny_runtime5 (hidden_cover 5 1)"
  using argmax_draws_support
  by (simp_all add: causal_lm_def tiny_runtime_def tiny_runtime5_def toy_logits_def draws_unit_def covers_inputs_def
      hidden_cover_def matrix_def Let_def)

theorem eagle3_decoding_lossless_witness:
  "\<exists>res. generate_decoding_sample tiny_runtime5 (eagle3_drafter tiny_env tiny_eagle3) [1] 4 2 0 (Some [7]) () = Inr res
           \<and> res_output_ids res = [1, 1, 2, 0, 1]"
proof -
  have "upto_stop [7] (greedy_decode toy_logits [1] 4) = [1, 2, 0, 1]" by code_simp
  moreover have "ttt_length tiny_eagle3 = 2" "e3_hidden_size tiny_eagle3 = 1" by (simp_all add: tiny_eagle3_def)
  ultimately show ?thesis
    using eagle3_decoding_lossless [OF tiny_target5(1) _ tiny_target5(2,3) _ tiny_env_ok tiny_eagle3_ok,
        of 0 "[1]" 4 "Some [7]" "()"] tiny_target5(4)
    by (simp add: tiny_runtime5_def tiny_runtime_def)
qed

definition tiny_context :: "(vec \<times> vec \<times> nat) eagle3_context" where
  "tiny_context = \<lparr> draft_cache = e3_entries tiny_eagle3 [0..<9] [[1, 1, 1, 1, 1]] [2],
     draft_hidden = [e3_last tiny_eagle3 [0..<9] [[1, 1, 1, 1, 1]] [2]],
     ctx_position_ids = [0..<9], current_pos = 1, cache_len_before = 0 \<rparr>"

theorem eagle3_incremental_cache_witness:
  "\<exists>p x' r'. e3_propose tiny_env tiny_eagle3 tiny_context [1, 2] 1 (Some [7]) () = Inr (p, x', r')"
proof -
  have "e3_inv tiny_eagle3 3 [0..<9] [[1, 1, 1, 1, 1]] [2] tiny_context"
    by (simp add: e3_inv_def tiny_context_def committed_text_def matrix_def tiny_eagle3_def)
  from eagle3_incremental_cache [OF tiny_env_ok tiny_eagle3_ok this, of "[1, 2]" "Some [7]" "()"]
  show ?thesis by (auto simp: tiny_eagle3_def)
qed

end
