(* ===== verification/Fused_Loss.thy ===== *)
theory Fused_Loss
  imports Complex_Main Prelude
begin

text \<open>
  The fused soft cross-entropy of \<^verbatim>\<open>modeling/eagle3/loss.py\<close>: the forward kernel computes the
  log-softmax of a row in one pass over blocks with a running maximum and a running
  rescaled normaliser, the backward kernel recomputes the softmax from the two saved scalars
  and writes the gradient. Both are shown equal to the mathematical loss and its derivative,
  over the reals, for every block size.

  Minus infinity, the initial running maximum, is \<open>None\<close>; \<open>exp (m - m')\<close> is zero there.
\<close>

section \<open>The kernels\<close>

text \<open>\<open>triton.next_power_of_2\<close> is the argument \<open>np2\<close>; \<open>hip\<close> says whether torch is built for HIP.\<close>

definition calculate_settings :: "(nat \<Rightarrow> nat) \<Rightarrow> bool \<Rightarrow> nat \<Rightarrow> nat \<times> nat" where
  "calculate_settings np2 hip n =
     (let block_size = min (np2 n) 131072;
          num_warps = (if block_size \<ge> 32768 then 32 else if block_size \<ge> 8192 then 16
                       else if block_size \<ge> 2048 then 8 else 4)
      in (block_size, if hip then num_warps div 2 else num_warps))"

fun exp_gap :: "real option \<Rightarrow> real \<Rightarrow> real" where
  "exp_gap None m' = 0"
| "exp_gap (Some m) m' = exp (m - m')"

fun max_opt :: "real option \<Rightarrow> real \<Rightarrow> real" where
  "max_opt None x = x"
| "max_opt (Some m) x = max m x"

text \<open>One block of the first loop: the running maximum and normaliser.\<close>

definition softmax_block :: "real option \<times> real \<Rightarrow> real list \<Rightarrow> real option \<times> real" where
  "softmax_block st block =
     (let m_new = max_opt (fst st) (Max (set block))
      in (Some m_new, snd st * exp_gap (fst st) m_new + (\<Sum>x\<leftarrow>block. exp (x - m_new))))"

definition online_softmax :: "nat \<Rightarrow> real list \<Rightarrow> real option \<times> real" where
  "online_softmax block_size logits =
     foldl (\<lambda>st i. softmax_block st (py_slice i (i + block_size) logits)) (None, 0)
       (py_range 0 (length logits) block_size)"

definition weighted_block :: "real \<Rightarrow> real \<Rightarrow> real list \<Rightarrow> real list \<Rightarrow> real" where
  "weighted_block m d target_block logits_block =
     (\<Sum>(t, x)\<leftarrow>zip target_block logits_block. t * ((x - m) - ln d))"

text \<open>
  The forward kernel on one row: the stored loss, maximum and normaliser. A masked row stores
  nothing, so the zeros the buffers were allocated with remain.
\<close>

definition log_softmax_forward_kernel :: "nat \<Rightarrow> real list \<Rightarrow> real list \<Rightarrow> bool \<Rightarrow> real \<times> real \<times> real" where
  "log_softmax_forward_kernel block_size logits target position_mask =
     (if \<not> position_mask then (0, 0, 0)
      else
        let (mo, d) = online_softmax block_size logits;
            m = (case mo of None \<Rightarrow> 0 | Some m \<Rightarrow> m);
            loss = foldl (\<lambda>loss i. loss + weighted_block m d (py_slice i (i + block_size) target)
                                            (py_slice i (i + block_size) logits))
                     0 (py_range 0 (length logits) block_size)
        in (- loss, m, d))"

definition log_softmax_backward_kernel ::
  "nat \<Rightarrow> real list \<Rightarrow> real list \<Rightarrow> bool \<Rightarrow> real \<Rightarrow> real \<Rightarrow> real \<Rightarrow> real \<Rightarrow> real list" where
  "log_softmax_backward_kernel block_size logits target position_mask grad_output scaling_factor m d =
     (let blocks = py_range 0 (length logits) block_size in
      if \<not> position_mask then
        concat (map (\<lambda>i. map (\<lambda>_. 0) (py_slice i (i + block_size) logits)) blocks)
      else
        let g = grad_output * scaling_factor;
            target_grad_sum = foldl (\<lambda>s i. s + (\<Sum>t\<leftarrow>py_slice i (i + block_size) target. t * g)) 0 blocks
        in concat (map (\<lambda>i. map2 (\<lambda>x t. - (t * g - exp (x - m) / d * target_grad_sum))
                              (py_slice i (i + block_size) logits) (py_slice i (i + block_size) target)) blocks))"

section \<open>The autograd function\<close>

text \<open>What \<open>forward\<close> saves for \<open>backward\<close>: per row the logits, target, mask, maximum and normaliser.\<close>

record saved_row =
  sv_logits :: "real list"
  sv_target :: "real list"
  sv_mask :: bool
  sv_m :: real
  sv_d :: real

definition fused_forward ::
  "nat \<Rightarrow> real list list \<Rightarrow> real list list \<Rightarrow> bool list \<Rightarrow> real \<Rightarrow> (real \<times> saved_row list) res" where
  "fused_forward block_size logits target_p position_mask normalizer =
     bindE (check (map length logits = map length target_p) AssertionError) (\<lambda>_.
     bindE (check (length position_mask = length logits) AssertionError) (\<lambda>_.
     let out = map (\<lambda>(x, t, k). (log_softmax_forward_kernel block_size x t k, x, t, k))
                 (zip logits (zip target_p position_mask))
     in Inr ((\<Sum>((loss, m, d), x, t, k)\<leftarrow>out. loss) / normalizer,
             map (\<lambda>((loss, m, d), x, t, k).
                    \<lparr> sv_logits = x, sv_target = t, sv_mask = k, sv_m = m, sv_d = d \<rparr>) out)))"

definition fused_backward :: "nat \<Rightarrow> real \<Rightarrow> saved_row list \<Rightarrow> real \<Rightarrow> real list list" where
  "fused_backward block_size normalizer saved grad_output =
     map (\<lambda>s. log_softmax_backward_kernel block_size (sv_logits s) (sv_target s) (sv_mask s)
                grad_output (1 / normalizer) (sv_m s) (sv_d s)) saved"

section \<open>The mathematical loss\<close>

definition sum_exp :: "real list \<Rightarrow> real" where
  "sum_exp xs = (\<Sum>x\<leftarrow>xs. exp x)"

definition cross_entropy :: "real list \<Rightarrow> real list \<Rightarrow> real" where
  "cross_entropy target logits = - (\<Sum>(t, x)\<leftarrow>zip target logits. t * ln (exp x / sum_exp logits))"

text \<open>The loss of a batch: unmasked rows, divided by the normaliser.\<close>

definition soft_cross_entropy :: "real list list \<Rightarrow> real list list \<Rightarrow> bool list \<Rightarrow> real \<Rightarrow> real" where
  "soft_cross_entropy logits target_p position_mask normalizer =
     (\<Sum>(x, t, k)\<leftarrow>zip logits (zip target_p position_mask). if k then cross_entropy t x else 0) / normalizer"

section \<open>Blocks\<close>

lemma foldl_blocks:
  "foldl (\<lambda>s i. f s (py_slice i (i + w) xs)) s is = foldl f s (map (\<lambda>i. py_slice i (i + w) xs) is)"
  by (induction "is" arbitrary: s) simp_all

lemma softmax_block_running:
  assumes "b \<noteq> []" and "xs \<noteq> []" and "st = (Some (Max (set xs)), \<Sum>x\<leftarrow>xs. exp (x - Max (set xs)))"
  shows "softmax_block st b = (Some (Max (set (xs @ b))), \<Sum>x\<leftarrow>xs @ b. exp (x - Max (set (xs @ b))))"
proof -
  let ?m = "Max (set xs)" and ?n = "max (Max (set xs)) (Max (set b))"
  have mx: "Max (set (xs @ b)) = ?n" using assms(1,2) by (simp add: Max_Un)
  have "(\<Sum>x\<leftarrow>xs. exp (x - ?m)) * exp (?m - ?n) = (\<Sum>x\<leftarrow>xs. exp (x - ?n))"
    by (simp add: sum_list_mult_const [symmetric] exp_add [symmetric])
  then show ?thesis unfolding mx softmax_block_def assms(3) by (simp add: Let_def)
qed

lemma softmax_block_first:
  "b \<noteq> [] \<Longrightarrow> softmax_block (None, 0) b = (Some (Max (set b)), \<Sum>x\<leftarrow>b. exp (x - Max (set b)))"
  by (simp add: softmax_block_def Let_def)

lemma softmax_blocks:
  assumes "\<forall>b \<in> set bs. b \<noteq> []" and "xs \<noteq> []"
  shows "foldl softmax_block (Some (Max (set xs)), \<Sum>x\<leftarrow>xs. exp (x - Max (set xs))) bs
    = (Some (Max (set (xs @ concat bs))), \<Sum>x\<leftarrow>xs @ concat bs. exp (x - Max (set (xs @ concat bs))))"
  using assms
proof (induction bs arbitrary: xs)
  case (Cons b bs)
  then have "b \<noteq> []" by simp
  note step = softmax_block_running [OF this Cons.prems(2) refl]
  have "\<forall>b \<in> set bs. b \<noteq> []" "xs @ b \<noteq> []" using Cons.prems by simp_all
  from Cons.IH [OF this] show ?case unfolding foldl_Cons step by simp
qed simp

text \<open>The single pass computes the maximum of the row and the sum of the exponentials relative to it.\<close>

lemma online_softmax_exact:
  assumes "0 < w" and "xs \<noteq> []"
  shows "online_softmax w xs = (Some (Max (set xs)), \<Sum>x\<leftarrow>xs. exp (x - Max (set xs)))"
proof -
  define bs where "bs = map (\<lambda>i. py_slice i (i + w) xs) (py_range 0 (length xs) w)"
  have cat: "concat bs = xs" using py_range_blocks [OF assms(1), of xs 0] by (simp add: bs_def)
  have ne: "\<forall>b \<in> set bs. b \<noteq> []" using py_range_blocks_nonempty [OF assms(1)] by (auto simp: bs_def)
  obtain b bs' where b: "bs = b # bs'" using cat assms(2) by (cases bs) auto
  have b1: "b \<noteq> []" and b2: "\<forall>b \<in> set bs'. b \<noteq> []" using ne b by simp_all
  have "online_softmax w xs = foldl softmax_block (None, 0) bs"
    unfolding online_softmax_def bs_def by (rule foldl_blocks)
  also have "\<dots> = foldl softmax_block (Some (Max (set b)), \<Sum>x\<leftarrow>b. exp (x - Max (set b))) bs'"
    unfolding b foldl_Cons softmax_block_first [OF b1] ..
  also have "\<dots> = (Some (Max (set xs)), \<Sum>x\<leftarrow>xs. exp (x - Max (set xs)))"
    unfolding softmax_blocks [OF b2 b1] using cat b by simp
  finally show ?thesis .
qed

lemma sum_exp_pos: "xs \<noteq> [] \<Longrightarrow> 0 < sum_exp xs"
  unfolding sum_exp_def by (induction xs rule: list_nonempty_induct) (simp_all add: add_pos_pos)

lemma sum_exp_shift: "(\<Sum>x\<leftarrow>xs. exp (x - m)) = sum_exp xs / exp m"
  by (induction xs) (simp_all add: sum_exp_def exp_diff add_divide_distrib)

lemma log_prob:
  assumes "xs \<noteq> []"
  shows "(x - m) - ln (\<Sum>x\<leftarrow>xs. exp (x - m)) = ln (exp x / sum_exp xs)"
  using sum_exp_pos [OF assms] by (simp add: sum_exp_shift ln_div)

lemma foldl_plus_sum: "foldl (\<lambda>s i. s + f i) (c :: real) is = c + (\<Sum>i\<leftarrow>is. f i)"
  by (induction "is" arbitrary: c) simp_all

lemma zip_py_slice: "zip (py_slice a b xs) (py_slice a b ys) = py_slice a b (zip xs ys)"
  by (simp add: py_slice_def take_zip drop_zip)

lemma sum_blocks:
  fixes f :: "'a \<Rightarrow> real"
  assumes "0 < w"
  shows "(\<Sum>i\<leftarrow>py_range 0 (length xs) w. \<Sum>x\<leftarrow>py_slice i (i + w) xs. f x) = (\<Sum>x\<leftarrow>xs. f x)"
proof -
  have "(\<Sum>i\<leftarrow>is. \<Sum>x\<leftarrow>py_slice i (i + w) xs. f x) = (\<Sum>x\<leftarrow>concat (map (\<lambda>i. py_slice i (i + w) xs) is). f x)" for "is"
    by (induction "is") simp_all
  then show ?thesis using py_range_blocks [OF assms, of xs 0] by simp
qed

lemma forward_kernel_exact:
  assumes "0 < w" and "xs \<noteq> []" and "length ts = length xs"
  shows "log_softmax_forward_kernel w xs ts True = (cross_entropy ts xs, Max (set xs), sum_exp xs / exp (Max (set xs)))"
proof -
  have w: "(\<Sum>i\<leftarrow>py_range 0 (length xs) w. weighted_block m d (py_slice i (i + w) ts) (py_slice i (i + w) xs))
      = (\<Sum>(t, x)\<leftarrow>zip ts xs. t * ((x - m) - ln d))" for m d
    using sum_blocks [OF assms(1), of "\<lambda>(t, x). t * ((x - m) - ln d)" "zip ts xs"] assms(3)
    by (simp add: weighted_block_def zip_py_slice)
  show ?thesis
    unfolding log_softmax_forward_kernel_def online_softmax_exact [OF assms(1,2)]
    by (simp add: foldl_plus_sum w log_prob [OF assms(2)] cross_entropy_def Let_def)
       (simp add: sum_exp_shift)
qed

lemma forward_kernel_masked: "log_softmax_forward_kernel w xs ts False = (0, 0, 0)"
  by (simp add: log_softmax_forward_kernel_def)

text \<open>A batch whose rows are not empty and whose shapes agree.\<close>

definition rows_agree :: "real list list \<Rightarrow> real list list \<Rightarrow> bool list \<Rightarrow> bool" where
  "rows_agree logits target_p position_mask \<longleftrightarrow>
     map length logits = map length target_p \<and> length position_mask = length logits \<and> [] \<notin> set logits"

lemma rows_agree_lengths:
  assumes "rows_agree xs ts ks"
  shows "length ts = length xs" "length ks = length xs" "\<And>i. i < length xs \<Longrightarrow> length (ts ! i) = length (xs ! i) \<and> xs ! i \<noteq> []"
proof -
  show ts: "length ts = length xs" using assms map_eq_imp_length_eq unfolding rows_agree_def by metis
  show "length ks = length xs" using assms by (simp add: rows_agree_def)
  fix i assume i: "i < length xs"
  then have "map length xs ! i = map length ts ! i" using assms by (simp add: rows_agree_def)
  then show "length (ts ! i) = length (xs ! i) \<and> xs ! i \<noteq> []"
    using i ts assms by (metis nth_map nth_mem rows_agree_def)
qed

lemma fused_forward_value:
  assumes w: "0 < w" and ok: "rows_agree xs ts ks"
  shows "fused_forward w xs ts ks nz = Inr (soft_cross_entropy xs ts ks nz,
    map (\<lambda>(x, t, k). \<lparr> sv_logits = x, sv_target = t, sv_mask = k, sv_m = if k then Max (set x) else 0,
                       sv_d = if k then sum_exp x / exp (Max (set x)) else 0 \<rparr>) (zip xs (zip ts ks)))"
proof -
  let ?z = "zip xs (zip ts ks)"
  have ker: "log_softmax_forward_kernel w x t k
      = (if k then cross_entropy t x else 0, if k then Max (set x) else 0, if k then sum_exp x / exp (Max (set x)) else 0)"
    if "(x, t, k) \<in> set ?z" for x t k
  proof -
    obtain i where "i < length xs" "x = xs ! i" "t = ts ! i" using \<open>(x, t, k) \<in> set ?z\<close> by (auto simp: in_set_zip)
    then have "length t = length x" "x \<noteq> []" using rows_agree_lengths(3) [OF ok] by auto
    then show ?thesis using forward_kernel_exact [OF w] forward_kernel_masked by (cases k) auto
  qed
  have out: "map (\<lambda>(x, t, k). (log_softmax_forward_kernel w x t k, x, t, k)) ?z
     = map (\<lambda>(x, t, k). ((if k then cross_entropy t x else 0, if k then Max (set x) else 0,
                          if k then sum_exp x / exp (Max (set x)) else 0), x, t, k)) ?z"
    by (rule map_cong [OF refl]) (use ker in auto)
  have ok': "map length xs = map length ts" "length ks = length xs" using ok by (simp_all add: rows_agree_def)
  show ?thesis
    unfolding fused_forward_def Let_def out
    by (simp add: ok' soft_cross_entropy_def comp_def split_def)
qed

section \<open>The gradient\<close>

definition ce_gradient :: "real list \<Rightarrow> real list \<Rightarrow> nat \<Rightarrow> real" where
  "ce_gradient ts xs j = exp (xs ! j) / sum_exp xs * sum_list ts - ts ! j"

lemma sum_exp_index: "sum_exp xs = (\<Sum>v<length xs. exp (xs ! v))"
  unfolding sum_exp_def by (simp add: sum_list_sum_nth atLeast0LessThan)

lemma cross_entropy_index:
  assumes "xs \<noteq> []" and "length ts = length xs"
  shows "cross_entropy ts xs = sum_list ts * ln (sum_exp xs) - (\<Sum>v<length xs. ts ! v * xs ! v)"
proof -
  have pos: "0 < sum_exp xs" by (rule sum_exp_pos [OF assms(1)])
  have "(\<Sum>(t, x)\<leftarrow>zip ts xs. t * ln (exp x / sum_exp xs)) = (\<Sum>v<length xs. ts ! v * (xs ! v - ln (sum_exp xs)))"
    using assms(2) pos by (simp add: sum_list_sum_nth atLeast0LessThan ln_div)
  also have "\<dots> = (\<Sum>v<length xs. ts ! v * xs ! v) - sum_list ts * ln (sum_exp xs)"
    using assms(2) by (simp add: right_diff_distrib sum_subtractf sum_distrib_right sum_list_sum_nth atLeast0LessThan)
  finally show ?thesis by (simp add: cross_entropy_def)
qed

lemma cross_entropy_derivative:
  assumes j: "j < length xs" and ts: "length ts = length xs"
  shows "((\<lambda>y. cross_entropy ts (xs[j := y])) has_real_derivative ce_gradient ts xs j) (at (xs ! j))"
proof -
  have ne: "xs[j := y] \<noteq> []" for y using j by (metis length_list_update list.size(3) not_less_zero)
  define S where "S = (\<lambda>y. \<Sum>v<length xs. exp (xs[j := y] ! v))"
  have coord: "((\<lambda>y. xs[j := y] ! v) has_real_derivative (if v = j then 1 else 0)) (at (xs ! j))" if "v < length xs" for v
    using that j by (cases "v = j") simp_all
  have "(S has_real_derivative (\<Sum>v<length xs. exp (xs[j := xs ! j] ! v) * (if v = j then 1 else 0))) (at (xs ! j))"
    unfolding S_def by (rule DERIV_sum, rule DERIV_fun_exp, rule coord) simp
  moreover have "(\<Sum>v<length xs. exp (xs[j := xs ! j] ! v) * (if v = j then 1 else 0)) = exp (xs ! j)"
    using j by (simp add: if_distrib cong: if_cong)
  ultimately have dS: "(S has_real_derivative exp (xs ! j)) (at (xs ! j))" by simp
  define W where "W = (\<lambda>y. \<Sum>v<length xs. ts ! v * xs[j := y] ! v)"
  have "(W has_real_derivative (\<Sum>v<length xs. ts ! v * (if v = j then 1 else 0))) (at (xs ! j))"
    unfolding W_def by (rule DERIV_sum, rule DERIV_cmult, rule coord) simp
  moreover have "(\<Sum>v<length xs. ts ! v * (if v = j then 1 else 0)) = ts ! j"
    using j by (simp add: if_distrib cong: if_cong)
  ultimately have dW: "(W has_real_derivative ts ! j) (at (xs ! j))" by simp
  have S: "S (xs ! j) = sum_exp xs" "0 < S (xs ! j)"
    using sum_exp_pos [OF ne, of "xs ! j"] by (simp_all add: S_def sum_exp_index)
  have eq: "cross_entropy ts (xs[j := y]) = sum_list ts * ln (S y) - W y" for y
    using cross_entropy_index [OF ne, of ts y] ts by (simp add: S_def W_def sum_exp_index)
  have "((\<lambda>y. sum_list ts * ln (S y) - W y) has_real_derivative sum_list ts * (exp (xs ! j) / S (xs ! j)) - ts ! j) (at (xs ! j))"
    by (rule derivative_eq_intros dS dW S(2) refl | simp)+
  then show ?thesis unfolding eq ce_gradient_def S(1) by (simp add: mult.commute)
qed

lemma backward_kernel_row:
  assumes w: "0 < w" and xs: "xs \<noteq> []" and ts: "length ts = length xs" and j: "j < length xs"
  shows "length (log_softmax_backward_kernel w xs ts k g sc m d) = length xs"
    and "k \<Longrightarrow> m = Max (set xs) \<Longrightarrow> d = sum_exp xs / exp (Max (set xs)) \<Longrightarrow>
      log_softmax_backward_kernel w xs ts k g sc m d ! j = ce_gradient ts xs j * (g * sc)"
    and "\<not> k \<Longrightarrow> log_softmax_backward_kernel w xs ts k g sc m d ! j = 0"
proof -
  let ?R = "py_range 0 (length xs) w"
  have cat: "concat (map (\<lambda>i. map f (py_slice i (i + w) zs)) (py_range 0 (length zs) w)) = map f zs" for f :: "'b \<Rightarrow> real" and zs
  proof -
    have "concat (map (\<lambda>i. map f (py_slice i (i + w) zs)) is) = map f (concat (map (\<lambda>i. py_slice i (i + w) zs) is))" for "is"
      by (induction "is") simp_all
    then show ?thesis using py_range_blocks [OF w, of zs 0] by simp
  qed
  define tgs where "tgs = (\<Sum>t\<leftarrow>ts. t * (g * sc))"
  have sum: "foldl (\<lambda>s i. s + (\<Sum>t\<leftarrow>py_slice i (i + w) ts. t * (g * sc))) 0 ?R = tgs"
    using sum_blocks [OF w, of "\<lambda>t. t * (g * sc)" ts] ts by (simp add: foldl_plus_sum tgs_def)
  have on: "log_softmax_backward_kernel w xs ts True g sc m d
      = map (\<lambda>(x, t). - (t * (g * sc) - exp (x - m) / d * tgs)) (zip xs ts)"
    using cat [of "\<lambda>(x, t). - (t * (g * sc) - exp (x - m) / d * tgs)" "zip xs ts"] ts
    by (simp add: log_softmax_backward_kernel_def Let_def sum zip_py_slice)
  have off: "log_softmax_backward_kernel w xs ts False g sc m d = map (\<lambda>_. 0) xs"
    using cat [of "\<lambda>_. 0" xs] by (simp add: log_softmax_backward_kernel_def Let_def)
  show "length (log_softmax_backward_kernel w xs ts k g sc m d) = length xs"
    using on off ts by (cases k) simp_all
  show "log_softmax_backward_kernel w xs ts k g sc m d ! j = 0" if "\<not> k" using off that j by simp
  show "log_softmax_backward_kernel w xs ts k g sc m d ! j = ce_gradient ts xs j * (g * sc)"
    if "k" "m = Max (set xs)" "d = sum_exp xs / exp (Max (set xs))"
  proof -
    have p: "exp (xs ! j - m) / d = exp (xs ! j) / sum_exp xs" using that(2,3) by (simp add: exp_diff)
    have t: "tgs = sum_list ts * (g * sc)" by (simp add: tgs_def sum_list_mult_const)
    have "log_softmax_backward_kernel w xs ts k g sc m d ! j
        = - (ts ! j * (g * sc) - exp (xs ! j - m) / d * tgs)" using on that(1) j ts by simp
    then show ?thesis unfolding p t ce_gradient_def by (simp only: left_diff_distrib mult.assoc minus_diff_eq)
  qed
qed

lemma soft_cross_entropy_index:
  assumes "rows_agree xs ts ks"
  shows "soft_cross_entropy xs ts ks nz = (\<Sum>i<length xs. if ks ! i then cross_entropy (ts ! i) (xs ! i) else 0) / nz"
  using rows_agree_lengths(1,2) [OF assms]
  by (simp add: soft_cross_entropy_def sum_list_sum_nth atLeast0LessThan)

lemma rows_agree_update:
  assumes ok: "rows_agree xs ts ks" and i: "i < length xs" and j: "j < length (xs ! i)"
  shows "rows_agree (xs[i := (xs ! i)[j := y]]) ts ks"
proof -
  have "map length (xs[i := (xs ! i)[j := y]]) = map length xs"
    by (simp add: map_update) (metis i length_map list_update_id nth_map)
  moreover have "(xs ! i)[j := y] \<noteq> []" using j by (metis length_list_update list.size(3) not_less_zero)
  then have "[] \<notin> insert ((xs ! i)[j := y]) (set xs)" using ok unfolding rows_agree_def by (metis insertE)
  then have "[] \<notin> set (xs[i := (xs ! i)[j := y]])" using set_update_subset_insert by (metis subsetD)
  ultimately show ?thesis using ok by (simp add: rows_agree_def)
qed

lemma soft_cross_entropy_derivative:
  assumes ok: "rows_agree xs ts ks" and i: "i < length xs" and j: "j < length (xs ! i)"
  shows "((\<lambda>y. soft_cross_entropy (xs[i := (xs ! i)[j := y]]) ts ks nz)
     has_real_derivative (if ks ! i then ce_gradient (ts ! i) (xs ! i) j else 0) / nz) (at (xs ! i ! j))"
proof -
  note ok' = rows_agree_update [OF ok i j]
  define f where "f = (\<lambda>y v. if ks ! v then cross_entropy (ts ! v) (if v = i then (xs ! i)[j := y] else xs ! v) else 0)"
  have eq: "soft_cross_entropy (xs[i := (xs ! i)[j := y]]) ts ks nz = (\<Sum>v<length xs. f y v) / nz" for y
    using soft_cross_entropy_index [OF ok', of y nz] i by (auto simp: f_def nth_list_update intro!: sum.cong)
  have df: "((\<lambda>y. f y v) has_real_derivative (if v = i then if ks ! i then ce_gradient (ts ! i) (xs ! i) j else 0 else 0)) (at (xs ! i ! j))"
    if "v < length xs" for v
    using cross_entropy_derivative [OF j, of "ts ! i"] rows_agree_lengths(3) [OF ok i]
    by (cases "v = i"; cases "ks ! v") (simp_all add: f_def)
  have "((\<lambda>y. \<Sum>v<length xs. f y v) has_real_derivative
      (\<Sum>v<length xs. if v = i then if ks ! i then ce_gradient (ts ! i) (xs ! i) j else 0 else 0)) (at (xs ! i ! j))"
    by (rule DERIV_sum) (use df in simp)
  then have "((\<lambda>y. \<Sum>v<length xs. f y v) has_real_derivative (if ks ! i then ce_gradient (ts ! i) (xs ! i) j else 0)) (at (xs ! i ! j))"
    using i by simp
  then show ?thesis unfolding eq by (rule DERIV_cdivide)
qed

text \<open>
  (C24) The fused loss is the soft cross-entropy. For every positive block size, the forward
  pass with its single rescaled pass over the row returns the sum over the unmasked rows of
  \<open>- (\<Sum>v. target_v * log_softmax(logits)_v)\<close>, divided by the normaliser.
\<close>

theorem fused_forward_exact:
  assumes "0 < block_size" and "rows_agree logits target_p position_mask"
  shows "\<exists>saved. fused_forward block_size logits target_p position_mask normalizer
    = Inr (soft_cross_entropy logits target_p position_mask normalizer, saved)"
  using fused_forward_value [OF assms] by blast

text \<open>
  (C25) The fused backward pass is the gradient. What it returns for logit \<open>j\<close> of row \<open>i\<close>, from
  the scalars the forward pass saved, is the incoming gradient times the partial derivative
  of the forward pass's own result with respect to that logit; masked rows get zero.
\<close>

theorem fused_backward_gradient:
  assumes "0 < block_size" and "rows_agree logits target_p position_mask"
    and "fused_forward block_size logits target_p position_mask normalizer = Inr (loss, saved)"
    and "i < length logits" and "j < length (logits ! i)"
  shows "\<exists>D. fused_backward block_size normalizer saved grad_output ! i ! j = grad_output * D
    \<and> ((\<lambda>y. case fused_forward block_size (logits[i := (logits ! i)[j := y]]) target_p position_mask normalizer of
               Inr (v, _) \<Rightarrow> v | Inl _ \<Rightarrow> 0) has_real_derivative D) (at (logits ! i ! j))"
proof -
  let ?xs = "logits" and ?ts = "target_p" and ?ks = "position_mask"
  define D where "D = (if ?ks ! i then ce_gradient (?ts ! i) (?xs ! i) j else 0) / normalizer"
  note len = rows_agree_lengths [OF assms(2)]
  have sv: "saved = map (\<lambda>(x, t, k). \<lparr> sv_logits = x, sv_target = t, sv_mask = k, sv_m = if k then Max (set x) else 0,
                       sv_d = if k then sum_exp x / exp (Max (set x)) else 0 \<rparr>) (zip ?xs (zip ?ts ?ks))"
    using assms(3) unfolding fused_forward_value [OF assms(1,2)] by simp
  have row: "saved ! i = \<lparr> sv_logits = ?xs ! i, sv_target = ?ts ! i, sv_mask = ?ks ! i,
      sv_m = if ?ks ! i then Max (set (?xs ! i)) else 0,
      sv_d = if ?ks ! i then sum_exp (?xs ! i) / exp (Max (set (?xs ! i))) else 0 \<rparr>" "length saved = length ?xs"
    using assms(4) len(1,2) by (simp_all add: sv)
  have "fused_backward block_size normalizer saved grad_output ! i ! j = grad_output * D"
    using backward_kernel_row [OF assms(1), of "?xs ! i" "?ts ! i" j] len(3) [OF assms(4)] assms(4,5) row
    by (auto simp: fused_backward_def D_def)
  then show ?thesis
    using soft_cross_entropy_derivative [OF assms(2,4,5), of normalizer]
    by (intro exI [of _ D]) (simp add: fused_forward_value [OF assms(1) rows_agree_update [OF assms(2,4,5)]] D_def)
qed

section \<open>A concrete batch\<close>

lemma two_rows_agree: "rows_agree [[0, 1, 2], [3, 4, 5]] [[0, 1, 0], [1 / 2, 1 / 2, 0]] [True, False]"
  by (simp add: rows_agree_def)

theorem fused_forward_exact_witness:
  "\<exists>saved. fused_forward 2 [[0, 1, 2], [3, 4, 5]] [[0, 1, 0], [1 / 2, 1 / 2, 0]] [True, False] 6
    = Inr (- ln (exp 1 / (1 + (exp 1 + exp 2))) / 6, saved)"
  using fused_forward_exact [OF _ two_rows_agree, of 2 6]
  by (simp add: soft_cross_entropy_def cross_entropy_def sum_exp_def)

theorem fused_backward_gradient_witness:
  "\<exists>saved D. fused_forward 2 [[0, 1, 2], [3, 4, 5]] [[0, 1, 0], [1 / 2, 1 / 2, 0]] [True, False] 6
      = Inr (soft_cross_entropy [[0, 1, 2], [3, 4, 5]] [[0, 1, 0], [1 / 2, 1 / 2, 0]] [True, False] 6, saved)
    \<and> fused_backward 2 6 saved 5 ! 0 ! 1 = 5 * D"
proof -
  obtain saved where f: "fused_forward 2 [[0, 1, 2], [3, 4, 5]] [[0, 1, 0], [1 / 2, 1 / 2, 0]] [True, False] 6
      = Inr (soft_cross_entropy [[0, 1, 2], [3, 4, 5]] [[0, 1, 0], [1 / 2, 1 / 2, 0]] [True, False] 6, saved)"
    using fused_forward_value [OF _ two_rows_agree, of 2 6] by auto
  from fused_backward_gradient [OF _ two_rows_agree f, of 0 1 5] show ?thesis using f by auto
qed

end
