(* ===== verification/Eagle3_Training.thy ===== *)
theory Eagle3_Training
  imports Eagle3_Drafter Fused_Loss
begin

text \<open>
  The training-time test of Eagle3 (\<^verbatim>\<open>modeling/eagle3/loss.py\<close>, the attention mask of
  \<^verbatim>\<open>modeling/eagle3/common.py\<close>, the training branch of \<open>forward\<close> in
  \<^verbatim>\<open>modeling/eagle3/qwen3/modeling.py\<close>), on one sequence of the batch. Step \<open>s\<close> feeds the
  outputs of step \<open>s - 1\<close> back with the tokens shifted by one, over a cache to which every step
  adds one chunk. The attention mask and the rotary offset are shown to make this the
  computation the drafter performs when it drafts \<open>s\<close> tokens from every position at once.
\<close>

section \<open>Shifts, masks and targets\<close>

definition shift_with_zero_padding :: "bool \<Rightarrow> ('a :: zero) list \<Rightarrow> 'a list" where
  "shift_with_zero_padding left xs =
     (let zero_padding = map (\<lambda>_. 0) (drop (length xs - 1) xs)
      in if left then zero_padding @ butlast xs else drop 1 xs @ zero_padding)"

definition build_next_token_position_mask :: "nat list \<Rightarrow> nat list \<Rightarrow> nat list res" where
  "build_next_token_position_mask loss_mask attention_mask =
     (let last_token_index = sum_list attention_mask - 1
      in if last_token_index < length loss_mask then Inr (loss_mask[last_token_index := 0]) else Inl IndexError)"

definition softmax_row :: "real list \<Rightarrow> real list" where
  "softmax_row xs = map (\<lambda>x. exp x / sum_exp xs) xs"

definition build_padded_next_token_target_probs :: "real list list \<Rightarrow> nat \<Rightarrow> nat \<Rightarrow> real list list" where
  "build_padded_next_token_target_probs target_logits vocab_size ttt =
     drop 1 (map softmax_row target_logits) @ replicate (ttt + 1) (replicate vocab_size (1 / real vocab_size))"

fun position_masks :: "nat \<Rightarrow> nat list \<Rightarrow> nat list list" where
  "position_masks 0 shifted = []"
| "position_masks (Suc n) shifted = shifted # position_masks n (shift_with_zero_padding False shifted)"

section \<open>The attention mask\<close>

definition eagle3_mask_mod :: "nat \<Rightarrow> nat \<Rightarrow> nat \<Rightarrow> nat \<Rightarrow> bool" where
  "eagle3_mask_mod seq_len q_len q_idx kv_idx =
     (let in_valid_query = q_idx < seq_len;
          causal_mask = q_idx \<ge> kv_idx \<and> kv_idx < seq_len;
          suffix_mask = kv_idx \<ge> q_len \<and> kv_idx mod q_len < seq_len
                        \<and> (int kv_idx - int q_idx) mod int q_len = 0
      in in_valid_query \<and> (causal_mask \<or> suffix_mask))"

definition create_eagle3_attention_mask :: "nat list \<Rightarrow> nat \<Rightarrow> nat \<Rightarrow> nat \<Rightarrow> nat \<Rightarrow> bool" where
  "create_eagle3_attention_mask attention_mask q_len lck =
     eagle3_mask_mod (sum_list attention_mask - lck) q_len"

text \<open>
  The training branch of \<open>forward\<close>: flex attention with the mask of the current chunk and
  rotary positions moved by the chunk number. It returns hidden states, logits and the cache.
\<close>

definition e3_train_layer ::
  "'e eagle3_model \<Rightarrow> vec list \<Rightarrow> vec list \<Rightarrow> nat list \<Rightarrow> nat list \<Rightarrow> 'e list \<Rightarrow> vec list \<times> 'e list" where
  "e3_train_layer m embeds hs attn pos cache =
     (let q_len = length hs; lck = length cache div q_len;
          entries = cache @ map (\<lambda>j. kv m (embeds ! j) (hs ! j) (pos ! j + lck)) [0..<q_len];
          visible = create_eagle3_attention_mask attn q_len lck
      in (map (\<lambda>q. attend m (embeds ! q) (hs ! q) (pos ! q + lck)
                     (map ((!) entries) (filter (visible q) [0..<length entries]))) [0..<q_len], entries))"

definition e3_train_forward ::
  "'e eagle3_model \<Rightarrow> vec list \<Rightarrow> token list \<Rightarrow> nat list \<Rightarrow> nat list \<Rightarrow> 'e list
   \<Rightarrow> (vec list \<times> vec list \<times> 'e list) res" where
  "e3_train_forward m hidden input_ids attention_mask position_ids past_key_values =
     bindE (if row_width hidden = length (e3_target_layer_ids m) * e3_hidden_size m
            then project_hidden_states m hidden else Inr hidden) (\<lambda>hs.
     bindE (mapE (nthE (e3_embed_tokens m)) input_ids) (\<lambda>embeds.
     bindE (check (length embeds = length hs \<and> length position_ids = length hs) RuntimeError) (\<lambda>_.
     bindE (check (length hs \<noteq> 0) ZeroDivisionError) (\<lambda>_.
     bindE (check (length past_key_values mod length hs = 0) AssertionError) (\<lambda>_.
     let (out, cache) = e3_train_layer m embeds hs attention_mask position_ids past_key_values in
     bindE (e3_compute_logits m out) (\<lambda>lgs. Inr (out, lgs, cache)))))))"

section \<open>The loss\<close>

text \<open>The steps' hidden states and logits.\<close>

fun ttt_steps ::
  "'e eagle3_model \<Rightarrow> nat list \<Rightarrow> nat list \<Rightarrow> nat \<Rightarrow> vec list \<Rightarrow> token list \<Rightarrow> 'e list
   \<Rightarrow> (vec list \<times> vec list) list res" where
  "ttt_steps m attn pos 0 hidden current_input_ids cache = Inr []"
| "ttt_steps m attn pos (Suc n) hidden current_input_ids cache =
     bindE (e3_train_forward m hidden current_input_ids attn pos cache) (\<lambda>(hidden', lgs, cache').
     bindE (ttt_steps m attn pos n hidden' (shift_with_zero_padding False current_input_ids) cache') (\<lambda>rest.
     Inr ((hidden', lgs) # rest)))"

record eagle3_batch =
  bt_input_ids :: "token list"
  bt_attention_mask :: "nat list"
  bt_loss_mask :: "nat list"
  bt_target_hidden :: "vec list"
  bt_target_last_hidden :: "vec list"

definition step_loss ::
  "nat \<Rightarrow> real list list \<Rightarrow> nat list list \<Rightarrow> nat \<Rightarrow> nat \<Rightarrow> vec list \<times> vec list \<Rightarrow> real res" where
  "step_loss bsz t_probs masks seq_len step_idx out =
     bindE (fused_forward bsz (map (map of_rat) (snd out)) (py_slice step_idx (step_idx + seq_len) t_probs)
              (map (\<lambda>k. k > 0) (masks ! step_idx)) (real seq_len)) (\<lambda>(loss, _). Inr loss)"

definition compute_eagle3_loss ::
  "nat \<Rightarrow> 'e eagle3_model \<Rightarrow> eagle3_batch \<Rightarrow> nat \<Rightarrow> real \<Rightarrow> real res" where
  "compute_eagle3_loss bsz m batch ttt step_loss_decay =
     (let seq_len = length (bt_input_ids batch); base_position_ids = [0..<seq_len];
          current_input_ids = shift_with_zero_padding False (bt_input_ids batch)
      in
      bindE (build_next_token_position_mask (bt_loss_mask batch) (bt_attention_mask batch)) (\<lambda>mask0.
      bindE (mapE (linear (e3_lm_head m)) (bt_target_last_hidden batch)) (\<lambda>target_logits.
      let t_probs = build_padded_next_token_target_probs (map (map of_rat) target_logits) (length (e3_lm_head m)) ttt;
          masks = position_masks ttt mask0
      in
      bindE (ttt_steps m (bt_attention_mask batch) base_position_ids ttt (bt_target_hidden batch) current_input_ids []) (\<lambda>outs.
      bindE (mapE (\<lambda>i. step_loss bsz t_probs masks seq_len i (outs ! i)) [0..<ttt]) (\<lambda>losses.
      Inr (\<Sum>i\<leftarrow>[0..<ttt]. losses ! i * step_loss_decay ^ i))))))"

section \<open>Lemmas on the shifts and the mask\<close>

lemma length_shift [simp]: "length (shift_with_zero_padding left xs) = length xs"
  by (cases xs) (auto simp: shift_with_zero_padding_def Let_def)

lemma shift_nth: "i < length xs \<Longrightarrow> shift_with_zero_padding False xs ! i = (if Suc i < length xs then xs ! Suc i else 0)"
  by (auto simp: shift_with_zero_padding_def nth_append Let_def)

lemma shift_funpow_nth:
  "i < length xs \<Longrightarrow> (shift_with_zero_padding False ^^ s) xs ! i = (if i + s < length xs then xs ! (i + s) else 0)"
proof (induction s arbitrary: i)
  case (Suc s)
  have len: "length ((shift_with_zero_padding False ^^ s) xs) = length xs" by (induction s) simp_all
  show ?case using Suc by (simp add: shift_nth len)
qed simp

lemma shift_funpow_length [simp]: "length ((shift_with_zero_padding False ^^ s) xs) = length xs"
  by (induction s) simp_all

lemma position_masks_nth: "s < n \<Longrightarrow> position_masks n xs ! s = (shift_with_zero_padding False ^^ s) xs"
proof (induction n arbitrary: xs s)
  case (Suc n)
  then show ?case by (cases s) (simp_all add: funpow_swap1)
qed simp

lemma eagle3_mask_valid:
  assumes "q < seq_len" and "q < T"
  shows "eagle3_mask_mod seq_len T q k \<longleftrightarrow> k \<le> q \<or> T \<le> k \<and> k mod T = q"
proof -
  have "(int k - int q) mod int T = 0 \<longleftrightarrow> k mod T = q"
  proof -
    have "(int k - int q) mod int T = 0 \<longleftrightarrow> int k mod int T = int q mod int T" by (simp add: mod_eq_0_iff_dvd mod_eq_dvd_iff)
    also have "\<dots> \<longleftrightarrow> k mod T = q" using assms(2) by (simp add: zmod_int [symmetric])
    finally show ?thesis .
  qed
  then show ?thesis using assms by (auto simp: eagle3_mask_mod_def)
qed

lemma filter_chunk:
  assumes "q < T" and "0 < s"
  shows "filter (\<lambda>k. k \<le> q \<or> T \<le> k \<and> k mod T = q) [T * s..<T * s + T] = [T * s + q]"
proof -
  have "[T * s..<T * s + T] = map (\<lambda>j. T * s + j) [0..<T]" by (simp add: map_add_upt add.commute)
  moreover have "(T * s + j \<le> q \<or> T \<le> T * s + j \<and> (T * s + j) mod T = q) \<longleftrightarrow> j = q" if "j < T" for j
  proof -
    define z where "z = T * s"
    have "T \<le> z" using assms(2) by (cases s) (simp_all add: z_def)
    moreover have "(z + j) mod T = j" using that by (simp add: z_def)
    ultimately show ?thesis unfolding z_def [symmetric] using assms(1) by auto
  qed
  then have "filter (\<lambda>j. T * s + j \<le> q \<or> T \<le> T * s + j \<and> (T * s + j) mod T = q) [0..<T] = filter (\<lambda>j. j = q) [0..<T]"
    by (intro filter_cong) auto
  moreover have "filter (\<lambda>j. j = q) [0..<T] = [q]"
  proof -
    have "[0..<T] = [0..<q] @ q # [Suc q..<T]"
      using assms(1) by (metis le0 less_imp_le_nat upt_append_between upt_conv_Cons)
    then show ?thesis by (simp add: filter_False_iff)
  qed
  ultimately show ?thesis by (simp add: filter_map comp_def)
qed

lemma filter_visible:
  assumes "q < T"
  shows "filter (\<lambda>k. k \<le> q \<or> T \<le> k \<and> k mod T = q) [0..<T * Suc s] = [0..<Suc q] @ map (\<lambda>i. T * i + q) [1..<Suc s]"
proof (induction s)
  case 0
  have "filter (\<lambda>k. k \<le> q \<or> T \<le> k \<and> k mod T = q) [0..<T] = filter (\<lambda>k. k \<le> q) ([0..<Suc q] @ [Suc q..<T])"
    using assms by (subst upt_append_between) (auto intro!: filter_cong)
  then show ?case by (simp add: filter_False_iff filter_id_conv del: upt_Suc)
next
  case (Suc s)
  have "[0..<T * Suc (Suc s)] = [0..<T * Suc s] @ [T * Suc s..<T * Suc s + T]"
    by (subst upt_append_between) (simp_all add: algebra_simps)
  then show ?case using filter_chunk [OF assms, of "Suc s"] Suc by (simp add: algebra_simps del: mult_Suc_right mult_Suc)
qed

section \<open>Drafting with given tokens\<close>

text \<open>
  What the drafting loop computes when the tokens it samples are \<open>ts\<close>: the hidden state
  after feeding them one by one.
\<close>

fun drafted :: "'e eagle3_model \<Rightarrow> nat list \<Rightarrow> nat \<Rightarrow> vec list \<Rightarrow> 'e list \<Rightarrow> token list \<Rightarrow> (vec list \<times> 'e list) res" where
  "drafted m pos next_position hidden cache [] = Inr (hidden, cache)"
| "drafted m pos next_position hidden cache (t # ts) =
     bindE (e3_forward m hidden [t] (py_slice next_position (next_position + 1) pos) cache) (\<lambda>(hidden', cache').
     drafted m pos (next_position + 1) hidden' cache' ts)"

lemma drafted_append:
  "drafted m pos q h c (ts @ us) = bindE (drafted m pos q h c ts) (\<lambda>(h', c'). drafted m pos (q + length ts) h' c' us)"
proof (induction ts arbitrary: q h c)
  case (Cons t ts)
  then show ?case by (cases "e3_forward m h [t] (py_slice q (q + 1) pos) c") (auto split: prod.splits)
qed simp

text \<open>
  The sequence of one training example: \<open>T\<close> padded tokens of which the first \<open>n\<close> are real.
\<close>

definition train_row :: "'e eagle3_model \<Rightarrow> nat \<Rightarrow> nat \<Rightarrow> nat \<Rightarrow> token list \<Rightarrow> vec list \<Rightarrow> nat list \<Rightarrow> bool" where
  "train_row m V T n ids F attn \<longleftrightarrow> 0 < n \<and> n \<le> T \<and> length ids = T \<and> set ids \<subseteq> {..<V}
     \<and> matrix T (5 * e3_hidden_size m) F \<and> attn = replicate n 1 @ replicate (T - n) 0"

text \<open>The draft from position \<open>q\<close>: state and cache after \<open>s\<close> teacher tokens.\<close>

fun chain :: "'e eagle3_model \<Rightarrow> vec list \<Rightarrow> token list \<Rightarrow> nat \<Rightarrow> nat \<Rightarrow> vec \<times> 'e list" where
  "chain m F ids q 0 =
     (let pos = [0..<length ids]; F' = take (Suc q) F; X = py_slice 1 (q + 2) ids
      in (e3_last m pos F' X, e3_entries m pos F' X))"
| "chain m F ids q (Suc s) =
     (let (h, c) = chain m F ids q s; e = e3_embed_tokens m ! (ids ! (q + s + 2));
          c' = c @ [kv m e h (q + s + 1)]
      in (attend m e h (q + s + 1) c', c'))"

lemma chain_width:
  assumes "eagle3_ok m V L" and "train_row m V T n ids F attn" and "q + 1 < n"
  shows "length (fst (chain m F ids q s)) = e3_hidden_size m"
proof (induction s)
  case 0
  then show ?case using eagle3_okD(7,10) [OF assms(1)] by (simp add: e3_last_def fc_row_def matrix_def Let_def)
next
  case (Suc s)
  then show ?case using eagle3_okD(10) [OF assms(1)] by (simp add: split_def Let_def)
qed

lemma e3_forward_single:
  assumes m: "eagle3_ok m V L" and h: "length h = e3_hidden_size m" and t: "t < V"
  shows "e3_forward m [h] [t] [p] cache
    = (let e = e3_embed_tokens m ! t; c' = cache @ [kv m e h p] in Inr ([attend m e h p c'], c'))"
proof -
  note D = eagle3_okD [OF m]
  have w: "row_width [h] \<noteq> length (e3_target_layer_ids m) * e3_hidden_size m" using h D(3,4) by (simp add: row_width_def)
  have "nthE (e3_embed_tokens m) t = Inr (e3_embed_tokens m ! t)" using t D(6) by (simp add: nthE_def matrix_def)
  then show ?thesis using w by (simp add: e3_forward_def e3_layer_def e3_visible_def Let_def)
qed

lemma drafted_chain:
  assumes m: "eagle3_ok m V L" and row: "train_row m V T n ids F attn" and q: "q + s + 1 < n"
  shows "drafted m [0..<T] (q + 1) [fst (chain m F ids q 0)] (snd (chain m F ids q 0)) (py_slice (q + 2) (q + 2 + s) ids)
    = Inr ([fst (chain m F ids q s)], snd (chain m F ids q s))"
  using q
proof (induction s)
  case (Suc s)
  have T: "length ids = T" "n \<le> T" "set ids \<subseteq> {..<V}" using row by (simp_all add: train_row_def)
  have sl: "py_slice (q + 2) (q + 2 + Suc s) ids = py_slice (q + 2) (q + 2 + s) ids @ [ids ! (q + s + 2)]"
    using Suc.prems T py_slice_append [of "q + 2" "q + 2 + s" "q + 2 + Suc s" ids] py_slice_one [of "q + 2 + s" ids]
    by (simp add: ac_simps)
  have len: "length (py_slice (q + 2) (q + 2 + s) ids) = s" using Suc.prems T by simp
  have tok: "ids ! (q + s + 2) < V" using Suc.prems T by (metis add_2_eq_Suc' add_Suc_right add_Suc_shift lessThan_iff nth_mem order_less_le_trans subsetD Suc_eq_plus1)
  have ps: "py_slice (q + 1 + s) (q + 1 + s + 1) [0..<T] = [q + s + 1]" using Suc.prems T by (simp add: py_slice_one [simplified])
  have w: "length (fst (chain m F ids q s)) = e3_hidden_size m" using chain_width [OF m row] Suc.prems by simp
  have IH: "drafted m [0..<T] (q + 1) [fst (chain m F ids q 0)] (snd (chain m F ids q 0)) (py_slice (q + 2) (q + 2 + s) ids)
    = Inr ([fst (chain m F ids q s)], snd (chain m F ids q s))" using Suc.IH Suc.prems by simp
  show ?case
    unfolding sl drafted_append IH bindE.simps prod.case len drafted.simps ps e3_forward_single [OF m w tok] Let_def
    by (simp add: split_def Let_def)
qed simp

section \<open>The training steps\<close>

text \<open>The cache entry of position \<open>q\<close> in chunk \<open>i\<close>.\<close>

fun ttt_entry :: "'e eagle3_model \<Rightarrow> vec list \<Rightarrow> token list \<Rightarrow> nat \<Rightarrow> nat \<Rightarrow> 'e" where
  "ttt_entry m F ids q 0 = kv m (e3_embed_tokens m ! (ids ! (q + 1))) (fc_row m (F ! q)) q"
| "ttt_entry m F ids q (Suc i) = kv m (e3_embed_tokens m ! (ids ! (q + i + 2))) (fst (chain m F ids q i)) (q + i + 1)"

lemma chain_cache:
  assumes row: "train_row m V T n ids F attn" and q: "q + 1 < n"
  shows "snd (chain m F ids q s) = map (\<lambda>k. ttt_entry m F ids k 0) [0..<Suc q] @ map (ttt_entry m F ids q) [1..<Suc s]"
proof (induction s)
  case 0
  have T: "length ids = T" "n \<le> T" "length F = T" using row by (simp_all add: train_row_def matrix_def)
  have "py_slice 1 (q + 2) ids ! k = ids ! (k + 1)" if "k < Suc q" for k
    using that T q nth_py_slice [of k "q + 2" 1 ids] by simp
  then show ?case
    using T q by (auto simp: e3_entries_def Let_def min_def simp del: upt_Suc intro!: nth_equalityI)
next
  case (Suc s)
  then show ?case by (simp add: split_def Let_def)
qed

definition chain_input :: "'e eagle3_model \<Rightarrow> vec list \<Rightarrow> token list \<Rightarrow> nat \<Rightarrow> nat \<Rightarrow> vec" where
  "chain_input m F ids q s = (case s of 0 \<Rightarrow> fc_row m (F ! q) | Suc i \<Rightarrow> fst (chain m F ids q i))"

lemma ttt_entry_input:
  "ttt_entry m F ids q s = kv m (e3_embed_tokens m ! (ids ! (q + s + 1))) (chain_input m F ids q s) (q + s)"
  by (cases s) (simp_all add: chain_input_def)

lemma chain_output:
  assumes row: "train_row m V T n ids F attn" and q: "q + 1 < n"
  shows "fst (chain m F ids q s)
    = attend m (e3_embed_tokens m ! (ids ! (q + s + 1))) (chain_input m F ids q s) (q + s) (snd (chain m F ids q s))"
proof (cases s)
  case 0
  have T: "length ids = T" "n \<le> T" "length F = T" using row by (simp_all add: train_row_def matrix_def)
  have "last (py_slice 1 (q + 2) ids) = ids ! (q + 1)" using last_py_slice [of 1 "q + 2" ids] T q by simp
  moreover have "last (take (Suc q) F) = F ! q" using T q by (simp add: take_Suc_conv_app_nth)
  moreover have "length (take (Suc q) F) - 1 = q" using T q by simp
  ultimately show ?thesis using 0 T q by (simp add: e3_last_def chain_input_def Let_def)
next
  case (Suc i)
  then show ?thesis by (simp add: split_def Let_def chain_input_def)
qed

text \<open>The state of the training loop before step \<open>s\<close>.\<close>

definition ttt_state ::
  "'e eagle3_model \<Rightarrow> nat \<Rightarrow> nat \<Rightarrow> vec list \<Rightarrow> token list \<Rightarrow> nat \<Rightarrow> vec list \<Rightarrow> 'e list \<Rightarrow> bool" where
  "ttt_state m T n F ids s hs cache \<longleftrightarrow>
     length cache = T * s \<and> (\<forall>i q. i < s \<and> q + i + 1 < n \<longrightarrow> cache ! (T * i + q) = ttt_entry m F ids q i)
   \<and> (if s = 0 then hs = F else matrix T (e3_hidden_size m) hs)
   \<and> (\<forall>q. 0 < s \<and> q + s < n \<longrightarrow> hs ! q = fst (chain m F ids q (s - 1)))"

lemma visible_entries:
  assumes row: "train_row m V T n ids F attn" and q: "q + s + 1 < n" and len: "length entries = T * Suc s"
    and ent: "\<And>i k. i < Suc s \<Longrightarrow> k + i + 1 < n \<Longrightarrow> entries ! (T * i + k) = ttt_entry m F ids k i"
  shows "map ((!) entries) (filter (create_eagle3_attention_mask attn T s q) [0..<length entries]) = snd (chain m F ids q s)"
proof -
  have T: "n \<le> T" "sum_list attn = n" using row by (simp_all add: train_row_def sum_list_replicate)
  have qT: "q < T" "q < n - s" using q T by linarith+
  have "filter (create_eagle3_attention_mask attn T s q) [0..<length entries] = [0..<Suc q] @ map (\<lambda>i. T * i + q) [1..<Suc s]"
    unfolding filter_visible [OF qT(1), of s, symmetric] create_eagle3_attention_mask_def T(2) len
    by (rule filter_cong [OF refl]) (rule eagle3_mask_valid [OF qT(2,1)])
  moreover have "map ((!) entries) [0..<Suc q] = map (\<lambda>k. ttt_entry m F ids k 0) [0..<Suc q]"
    using ent [of 0] q by (intro map_cong) (auto simp del: ttt_entry.simps)
  moreover have "map (\<lambda>i. entries ! (T * i + q)) [1..<Suc s] = map (ttt_entry m F ids q) [1..<Suc s]"
    using ent q by (intro map_cong) auto
  ultimately show ?thesis
    using chain_cache [OF row, of q s] q by (simp add: comp_def del: upt_Suc ttt_entry.simps)
qed

lemma ttt_input_ids:
  assumes row: "train_row m V T n ids F attn" and "0 < V"
  shows "set ((shift_with_zero_padding False ^^ Suc s) ids) \<subseteq> {..<V}"
    and "q + s + 1 < T \<Longrightarrow> (shift_with_zero_padding False ^^ Suc s) ids ! q = ids ! (q + s + 1)"
proof -
  have T: "length ids = T" "set ids \<subseteq> {..<V}" using row by (simp_all add: train_row_def)
  show "set ((shift_with_zero_padding False ^^ Suc s) ids) \<subseteq> {..<V}"
  proof
    fix t assume "t \<in> set ((shift_with_zero_padding False ^^ Suc s) ids)"
    then obtain i where i: "i < T" "t = (shift_with_zero_padding False ^^ Suc s) ids ! i"
      by (metis T(1) in_set_conv_nth shift_funpow_length)
    then show "t \<in> {..<V}"
      using shift_funpow_nth [of i ids "Suc s"] T assms(2) subsetD [OF T(2) nth_mem [of "i + Suc s" ids]]
      by (simp split: if_splits del: funpow.simps)
  qed
  show "(shift_with_zero_padding False ^^ Suc s) ids ! q = ids ! (q + s + 1)" if "q + s + 1 < T"
    using that T(1) shift_funpow_nth [of q ids "Suc s"] by simp
qed

lemma ttt_hidden_input:
  assumes m: "eagle3_ok m V L" and row: "train_row m V T n ids F attn" and st: "ttt_state m T n F ids s hs cache"
  obtains hp where "(if row_width hs = length (e3_target_layer_ids m) * e3_hidden_size m
            then project_hidden_states m hs else Inr hs) = Inr hp"
    and "matrix T (e3_hidden_size m) hp" and "\<forall>q. q + s + 1 < n \<longrightarrow> hp ! q = chain_input m F ids q s"
proof -
  note D = eagle3_okD [OF m]
  have T: "0 < T" "n \<le> T" "matrix T (5 * e3_hidden_size m) F" using row by (auto simp: train_row_def)
  show thesis
  proof (cases s)
    case 0
    then have hs: "hs = F" using st by (simp add: ttt_state_def)
    have ne: "F \<noteq> []" using T(1,3) by (auto simp: matrix_def)
    then have w: "row_width F = length (e3_target_layer_ids m) * e3_hidden_size m"
      using T(3) by (cases F) (simp_all add: row_width_def matrix_def D(4))
    have "mapE (linear (e3_fc m)) F = Inr (map (fc_row m) F)"
      by (rule mapE_all) (use T(3) D(7) in \<open>auto simp: linear_def fc_row_def matrix_def\<close>)
    then have pr: "project_hidden_states m F = Inr (map (fc_row m) F)"
      using T(3) by (simp add: project_hidden_states_def D(4) matrix_def)
    show ?thesis
      by (rule that [of "map (fc_row m) F"])
         (use w pr hs T D(7) 0 in \<open>auto simp: matrix_def fc_row_def chain_input_def\<close>)
  next
    case (Suc i)
    then have hs: "matrix T (e3_hidden_size m) hs" "\<And>q. q + s < n \<Longrightarrow> hs ! q = fst (chain m F ids q i)"
      using st by (auto simp: ttt_state_def)
    have "row_width hs = e3_hidden_size m" using hs(1) T(1) by (cases hs) (auto simp: row_width_def matrix_def)
    then have "row_width hs \<noteq> length (e3_target_layer_ids m) * e3_hidden_size m" using D(3,4) by simp
    then show ?thesis by (intro that [of hs]) (use hs Suc in \<open>auto simp: chain_input_def\<close>)
  qed
qed

lemma ttt_step:
  assumes m: "eagle3_ok m V L" and row: "train_row m V T n ids F attn" and st: "ttt_state m T n F ids s hs cache"
  shows "\<exists>out lgs cache'. e3_train_forward m hs ((shift_with_zero_padding False ^^ Suc s) ids) attn [0..<T] cache = Inr (out, lgs, cache')
     \<and> ttt_state m T n F ids (Suc s) out cache' \<and> e3_compute_logits m out = Inr lgs \<and> matrix T V lgs"
proof -
  note D = eagle3_okD [OF m]
  define xs where "xs = (shift_with_zero_padding False ^^ Suc s) ids"
  define em where "em = map ((!) (e3_embed_tokens m)) xs"
  have T: "0 < T" "n \<le> T" "length xs = T" using row by (auto simp: train_row_def xs_def simp del: funpow.simps)
  have st': "length cache = T * s" "\<And>i q. i < s \<Longrightarrow> q + i + 1 < n \<Longrightarrow> cache ! (T * i + q) = ttt_entry m F ids q i"
    using st by (simp_all add: ttt_state_def del: ttt_entry.simps)
  obtain hp where hp: "(if row_width hs = length (e3_target_layer_ids m) * e3_hidden_size m
            then project_hidden_states m hs else Inr hs) = Inr hp" "matrix T (e3_hidden_size m) hp"
      and hpq: "\<forall>q. q + s + 1 < n \<longrightarrow> hp ! q = chain_input m F ids q s"
    by (rule ttt_hidden_input [OF m row st])
  have emb: "mapE (nthE (e3_embed_tokens m)) xs = Inr em"
    unfolding em_def using ttt_input_ids(1) [OF row D(1), of s] D(6)
    by (intro mapE_all) (auto simp: nthE_def matrix_def xs_def simp del: funpow.simps)
  have emq: "em ! q = e3_embed_tokens m ! (ids ! (q + s + 1))" if "q + s + 1 < n" for q
    using that T ttt_input_ids(2) [OF row D(1), of q s] by (simp add: em_def xs_def del: funpow.simps)
  have lh: "length hp = T" "length em = T" using hp(2) T by (simp_all add: matrix_def em_def)
  have lck: "length cache div T = s" using st'(1) T(1) by simp
  define cache' where "cache' = cache @ map (\<lambda>j. kv m (em ! j) (hp ! j) ([0..<T] ! j + s)) [0..<T]"
  have ent: "cache' ! (T * i + q) = ttt_entry m F ids q i" if i: "i < Suc s" and q: "q + i + 1 < n" for i q
  proof (cases "i < s")
    case True
    have lt: "T * i + q < T * s"
    proof -
      have "T * i + q < T * Suc i" using q T by simp
      also have "\<dots> \<le> T * s" using True by (intro mult_le_mono2) simp
      finally show ?thesis .
    qed
    show ?thesis using lt st'(2) [OF True q] st'(1) by (simp add: cache'_def nth_append del: ttt_entry.simps)
  next
    case False
    then have "i = s" using i by simp
    then show ?thesis
      using q T st'(1) emq [of q] hpq by (simp add: cache'_def nth_append ttt_entry_input del: ttt_entry.simps)
  qed
  define out where "out = map (\<lambda>q. attend m (em ! q) (hp ! q) ([0..<T] ! q + s)
      (map ((!) cache') (filter (create_eagle3_attention_mask attn T s q) [0..<length cache']))) [0..<T]"
  have lc: "length cache' = T * Suc s" using st'(1) by (simp add: cache'_def)
  have outq: "out ! q = fst (chain m F ids q s)" if "q + s + 1 < n" for q
    using that T emq [OF that] hpq visible_entries [OF row that lc ent] chain_output [OF row, of q s]
    by (simp add: out_def add.commute)
  have mo: "matrix T (e3_hidden_size m) out"
    using hp(2) D(10) lh by (auto simp: matrix_def out_def)
  have "\<exists>lgs. mapE (\<lambda>h. linear (e3_lm_head m) (e3_norm m h)) out = Inr lgs \<and> length lgs = length out \<and> (\<forall>y \<in> set lgs. length y = V)"
    by (rule mapE_ok) (use mo linear_ok [OF D(8)] D(9) in \<open>auto simp: matrix_def\<close>)
  then obtain lgs where lgs: "e3_compute_logits m out = Inr lgs" "matrix T V lgs"
    using mo by (auto simp: e3_compute_logits_def matrix_def)
  have "e3_train_layer m em hp attn [0..<T] cache = (out, cache')"
    unfolding e3_train_layer_def Let_def lh(1) lck out_def cache'_def ..
  then have "e3_train_forward m hs xs attn [0..<T] cache = Inr (out, lgs, cache')"
    using hp(1) emb lh T(1) st'(1) lgs(1) by (cases "hp = []") (simp_all add: e3_train_forward_def)
  moreover have "ttt_state m T n F ids (Suc s) out cache'"
    unfolding ttt_state_def using lc ent mo outq by (auto simp del: ttt_entry.simps)
  ultimately show ?thesis using lgs by (auto simp: xs_def simp del: funpow.simps)
qed

lemma ttt_steps_from:
  assumes m: "eagle3_ok m V L" and row: "train_row m V T n ids F attn" and st: "ttt_state m T n F ids s hs cache"
  shows "\<exists>outs. ttt_steps m attn [0..<T] k hs ((shift_with_zero_padding False ^^ Suc s) ids) cache = Inr outs \<and> length outs = k
    \<and> (\<forall>i<k. matrix T (e3_hidden_size m) (fst (outs ! i)) \<and> matrix T V (snd (outs ! i))
         \<and> e3_compute_logits m (fst (outs ! i)) = Inr (snd (outs ! i))
         \<and> (\<forall>q. q + (s + i) + 1 < n \<longrightarrow> fst (outs ! i) ! q = fst (chain m F ids q (s + i))))"
  using st
proof (induction k arbitrary: s hs cache)
  case (Suc k)
  obtain out lgs cache' where f: "e3_train_forward m hs ((shift_with_zero_padding False ^^ Suc s) ids) attn [0..<T] cache = Inr (out, lgs, cache')"
    "ttt_state m T n F ids (Suc s) out cache'" "e3_compute_logits m out = Inr lgs" "matrix T V lgs"
    using ttt_step [OF m row Suc.prems] by blast
  obtain outs where r: "ttt_steps m attn [0..<T] k out ((shift_with_zero_padding False ^^ Suc (Suc s)) ids) cache' = Inr outs"
    "length outs = k" "\<forall>i<k. matrix T (e3_hidden_size m) (fst (outs ! i)) \<and> matrix T V (snd (outs ! i))
         \<and> e3_compute_logits m (fst (outs ! i)) = Inr (snd (outs ! i))
         \<and> (\<forall>q. q + (Suc s + i) + 1 < n \<longrightarrow> fst (outs ! i) ! q = fst (chain m F ids q (Suc s + i)))"
    using Suc.IH [OF f(2)] by blast
  have o: "matrix T (e3_hidden_size m) out" "\<forall>q. q + s + 1 < n \<longrightarrow> out ! q = fst (chain m F ids q s)"
    using f(2) by (simp_all add: ttt_state_def del: chain.simps)
  have "ttt_steps m attn [0..<T] (Suc k) hs ((shift_with_zero_padding False ^^ Suc s) ids) cache = Inr ((out, lgs) # outs)"
    using f(1) r(1) by simp
  moreover have "matrix T (e3_hidden_size m) (fst (((out, lgs) # outs) ! i)) \<and> matrix T V (snd (((out, lgs) # outs) ! i))
         \<and> e3_compute_logits m (fst (((out, lgs) # outs) ! i)) = Inr (snd (((out, lgs) # outs) ! i))
         \<and> (\<forall>q. q + (s + i) + 1 < n \<longrightarrow> fst (((out, lgs) # outs) ! i) ! q = fst (chain m F ids q (s + i)))" if "i < Suc k" for i
    using that o f(3,4) r(3) by (cases i) (auto simp del: chain.simps)
  ultimately show ?case using r(2) by (intro exI [of _ "(out, lgs) # outs"]) simp
qed simp

lemma ttt_steps_ok:
  assumes m: "eagle3_ok m V L" and row: "train_row m V T n ids F attn"
  shows "\<exists>outs. ttt_steps m attn [0..<T] k F (shift_with_zero_padding False ids) [] = Inr outs \<and> length outs = k
    \<and> (\<forall>i<k. matrix T (e3_hidden_size m) (fst (outs ! i)) \<and> matrix T V (snd (outs ! i))
         \<and> e3_compute_logits m (fst (outs ! i)) = Inr (snd (outs ! i))
         \<and> (\<forall>q. q + i + 1 < n \<longrightarrow> fst (outs ! i) ! q = fst (chain m F ids q i)))"
  using ttt_steps_from [OF m row, of 0 F "[]" k] by (simp add: ttt_state_def)

lemma chain_start:
  assumes m: "eagle3_ok m V L" and row: "train_row m V T n ids F attn" and q: "q + 1 < n"
  shows "extend_draft_cache m (take (q + 1) F) (py_slice 1 (q + 2) ids) (take (q + 1) [0..<T]) []
    = Inr ([fst (chain m F ids q 0)], snd (chain m F ids q 0))"
proof -
  have T: "length ids = T" "n \<le> T" "matrix T (5 * e3_hidden_size m) F" "set ids \<subseteq> {..<V}" using row by (simp_all add: train_row_def)
  have "set (py_slice 1 (q + 2) ids) \<subseteq> set ids" unfolding py_slice_def by (meson order_trans set_drop_subset set_take_subset)
  then have t: "committed_text V (5 * e3_hidden_size m) (take (q + 1) F) (py_slice 1 (q + 2) ids)"
    using T q by (auto simp: committed_text_def matrix_def dest: in_set_takeD)
  have ne: "take (q + 1) F \<noteq> []" using T q by (auto simp: matrix_def)
  have lf: "length (take (q + 1) F) = q + 1" using T q by (simp add: matrix_def)
  have "e3_entries m [0..<T] [] [] = []" by (simp add: e3_entries_def)
  with extend_draft_cache_ok [OF m _ t ne, of "[]" "[]" "[0..<T]"] lf T q show ?thesis
    by (simp add: Let_def del: upt_Suc take_upt)
qed

text \<open>
  (C23) Training-time test is drafting. For a well-shaped draft head and a right-padded
  sequence of \<open>n\<close> tokens, the steps raise nothing, and the output of step \<open>s\<close> at position \<open>q\<close>
  (as long as the token after it exists) is exactly the hidden state the drafter reaches
  when its cache has been filled with the tokens up to \<open>q + 1\<close> and it then feeds the next
  \<open>s\<close> tokens one by one, with the same rotary positions; the logits of the step are those
  computed from it.
\<close>

theorem training_time_test_is_drafting:
  assumes m: "eagle3_ok m V L" and row: "train_row m V T n ids F attn"
  shows "\<exists>outs. ttt_steps m attn [0..<T] k F (shift_with_zero_padding False ids) [] = Inr outs \<and> length outs = k
    \<and> (\<forall>s q. s < k \<and> q + s + 1 < n \<longrightarrow>
        (\<exists>hidden cache cache'.
           extend_draft_cache m (take (q + 1) F) (py_slice 1 (q + 2) ids) (take (q + 1) [0..<T]) [] = Inr (hidden, cache)
         \<and> drafted m [0..<T] (q + 1) hidden cache (py_slice (q + 2) (q + 2 + s) ids) = Inr ([fst (outs ! s) ! q], cache')
         \<and> e3_compute_logits m [fst (outs ! s) ! q] = Inr [snd (outs ! s) ! q]))"
proof -
  obtain outs where o: "ttt_steps m attn [0..<T] k F (shift_with_zero_padding False ids) [] = Inr outs" "length outs = k"
    "\<forall>i<k. matrix T (e3_hidden_size m) (fst (outs ! i)) \<and> matrix T V (snd (outs ! i))
         \<and> e3_compute_logits m (fst (outs ! i)) = Inr (snd (outs ! i))
         \<and> (\<forall>q. q + i + 1 < n \<longrightarrow> fst (outs ! i) ! q = fst (chain m F ids q i))"
    using ttt_steps_ok [OF m row, of k] by blast
  have "extend_draft_cache m (take (q + 1) F) (py_slice 1 (q + 2) ids) (take (q + 1) [0..<T]) []
          = Inr ([fst (chain m F ids q 0)], snd (chain m F ids q 0))
      \<and> drafted m [0..<T] (q + 1) [fst (chain m F ids q 0)] (snd (chain m F ids q 0)) (py_slice (q + 2) (q + 2 + s) ids)
          = Inr ([fst (outs ! s) ! q], snd (chain m F ids q s))
      \<and> e3_compute_logits m [fst (outs ! s) ! q] = Inr [snd (outs ! s) ! q]"
    if s: "s < k" and q: "q + s + 1 < n" for s q
  proof -
    have hq: "fst (outs ! s) ! q = fst (chain m F ids q s)" using o(3) s q by (simp del: chain.simps)
    have qT: "q < T" "q + 1 < n" using row q by (simp_all add: train_row_def)
    have lg: "e3_compute_logits m (fst (outs ! s)) = Inr (snd (outs ! s))" "length (fst (outs ! s)) = T"
      using o(3) s by (simp_all add: matrix_def)
    have "linear (e3_lm_head m) (e3_norm m (fst (outs ! s) ! q)) = Inr (snd (outs ! s) ! q)"
      using mapE_nth [of _ "fst (outs ! s)" "snd (outs ! s)" q] lg qT(1) by (simp add: e3_compute_logits_def)
    then show ?thesis
      using chain_start [OF m row qT(2)] drafted_chain [OF m row q] hq by (simp add: e3_compute_logits_def del: chain.simps)
  qed
  then show ?thesis using o(1,2) by blast
qed

section \<open>The value of the loss\<close>

definition batch_ok :: "'e eagle3_model \<Rightarrow> nat \<Rightarrow> nat \<Rightarrow> eagle3_batch \<Rightarrow> bool" where
  "batch_ok m V n batch \<longleftrightarrow>
     train_row m V (length (bt_input_ids batch)) n (bt_input_ids batch) (bt_target_hidden batch) (bt_attention_mask batch)
   \<and> length (bt_loss_mask batch) = length (bt_input_ids batch)
   \<and> (\<forall>i. n \<le> i \<and> i < length (bt_loss_mask batch) \<longrightarrow> bt_loss_mask batch ! i = 0)
   \<and> matrix (length (bt_input_ids batch)) (e3_hidden_size m) (bt_target_last_hidden batch)"

lemma supervised_positions:
  fixes lm :: "nat list"
  assumes n: "0 < n" "n \<le> T" and lm: "length lm = T" "\<And>i. n \<le> i \<Longrightarrow> i < T \<Longrightarrow> lm ! i = 0" and q: "q < T"
  shows "0 < (shift_with_zero_padding False ^^ s) (lm[n - 1 := 0]) ! q \<longleftrightarrow> q + s + 1 < n \<and> 0 < lm ! (q + s)"
proof -
  have v: "(shift_with_zero_padding False ^^ s) (lm[n - 1 := 0]) ! q = (if q + s < T then lm[n - 1 := 0] ! (q + s) else 0)"
    using shift_funpow_nth [of q "lm[n - 1 := 0]" s] lm(1) q by simp
  consider "q + s + 1 < n" | "q + s = n - 1" | "n \<le> q + s" by linarith
  then show ?thesis
  proof cases
    case 3
    then show ?thesis using v lm n by (auto simp: nth_list_update)
  qed (use v lm n in \<open>auto simp: nth_list_update\<close>)
qed

lemma padded_targets_nth:
  assumes "length lgs = T" and "0 < T" and "q < T" and "s < k"
  shows "py_slice s (s + T) (build_padded_next_token_target_probs lgs V k) ! q
    = (if q + s + 1 < T then softmax_row (lgs ! (q + s + 1)) else replicate V (1 / real V))"
    and "length (py_slice s (s + T) (build_padded_next_token_target_probs lgs V k)) = T"
proof -
  let ?p = "build_padded_next_token_target_probs lgs V k"
  have len: "length ?p = T + k" using assms by (simp add: build_padded_next_token_target_probs_def)
  show "length (py_slice s (s + T) ?p) = T" using len assms(4) by simp
  have "py_slice s (s + T) ?p ! q = ?p ! (s + q)" using len assms by (intro nth_py_slice) simp_all
  then show "py_slice s (s + T) ?p ! q = (if q + s + 1 < T then softmax_row (lgs ! (q + s + 1)) else replicate V (1 / real V))"
    using assms by (auto simp: build_padded_next_token_target_probs_def nth_append add.commute simp del: replicate.simps replicate_Suc)
qed

text \<open>
  (C32) The Eagle3 loss. On a well-shaped batch the loss computation raises nothing, and its
  value is the decayed sum over the steps of the cross-entropies, divided by the padded
  length, between the drafter's distribution at \<open>(q, s)\<close> and the target model's distribution
  after token \<open>q + s + 1\<close>, over exactly the positions whose loss mask is set at \<open>q + s\<close> and
  whose token \<open>q + s + 1\<close> is a real one; the uniform padding of the targets never
  contributes.
\<close>

theorem eagle3_loss_value:
  assumes bsz: "0 < bsz" and m: "eagle3_ok m V L" and b: "batch_ok m V n batch"
  defines "T \<equiv> length (bt_input_ids batch)"
  shows "\<exists>outs tlogits. mapE (linear (e3_lm_head m)) (bt_target_last_hidden batch) = Inr tlogits
    \<and> ttt_steps m (bt_attention_mask batch) [0..<T] k (bt_target_hidden batch)
        (shift_with_zero_padding False (bt_input_ids batch)) [] = Inr outs
    \<and> compute_eagle3_loss bsz m batch k decay = Inr (\<Sum>s\<leftarrow>[0..<k]. (\<Sum>q<T.
          if q + s + 1 < n \<and> 0 < bt_loss_mask batch ! (q + s)
          then cross_entropy (softmax_row (map of_rat (tlogits ! (q + s + 1)))) (map of_rat (snd (outs ! s) ! q))
          else 0) / real T * decay ^ s)"
proof -
  note D = eagle3_okD [OF m]
  have row: "train_row m V T n (bt_input_ids batch) (bt_target_hidden batch) (bt_attention_mask batch)"
    and lm: "length (bt_loss_mask batch) = T" "\<And>i. n \<le> i \<Longrightarrow> i < T \<Longrightarrow> bt_loss_mask batch ! i = 0"
    and th: "matrix T (e3_hidden_size m) (bt_target_last_hidden batch)"
    using b by (simp_all add: batch_ok_def T_def)
  have n: "0 < n" "n \<le> T" "sum_list (bt_attention_mask batch) = n" and T: "0 < T"
    using row by (auto simp: train_row_def sum_list_replicate)
  obtain outs where o: "ttt_steps m (bt_attention_mask batch) [0..<T] k (bt_target_hidden batch)
        (shift_with_zero_padding False (bt_input_ids batch)) [] = Inr outs" "length outs = k"
    "\<forall>i<k. matrix T (e3_hidden_size m) (fst (outs ! i)) \<and> matrix T V (snd (outs ! i))
         \<and> e3_compute_logits m (fst (outs ! i)) = Inr (snd (outs ! i))
         \<and> (\<forall>q. q + i + 1 < n \<longrightarrow> fst (outs ! i) ! q = fst (chain m (bt_target_hidden batch) (bt_input_ids batch) q i))"
    using ttt_steps_ok [OF m row, of k] by blast
  have "\<exists>tl. mapE (linear (e3_lm_head m)) (bt_target_last_hidden batch) = Inr tl
      \<and> length tl = length (bt_target_last_hidden batch) \<and> (\<forall>y \<in> set tl. length y = V)"
    by (rule mapE_ok) (use th linear_ok [OF D(8)] in \<open>auto simp: matrix_def\<close>)
  then obtain tl where tl: "mapE (linear (e3_lm_head m)) (bt_target_last_hidden batch) = Inr tl" "matrix T V tl"
    using th by (auto simp: matrix_def)
  define mask0 where "mask0 = (bt_loss_mask batch)[n - 1 := 0]"
  have m0: "build_next_token_position_mask (bt_loss_mask batch) (bt_attention_mask batch) = Inr mask0"
    using n lm(1) by (simp add: build_next_token_position_mask_def mask0_def Let_def)
  define tp where "tp = build_padded_next_token_target_probs (map (map of_rat) tl :: real list list) (length (e3_lm_head m)) k"
  define loss where "loss = (\<lambda>s. (\<Sum>q<T. if q + s + 1 < n \<and> 0 < bt_loss_mask batch ! (q + s)
          then cross_entropy (softmax_row (map of_rat (tl ! (q + s + 1)))) (map of_rat (snd (outs ! s) ! q)) else 0) / real T)"
  have step: "step_loss bsz tp (position_masks k mask0) T s (outs ! s) = Inr (loss s)" if s: "s < k" for s
  proof -
    let ?xs = "map (map of_rat) (snd (outs ! s)) :: real list list" and ?ts = "py_slice s (s + T) tp"
    let ?ks = "map (\<lambda>k. k > 0) (position_masks k mask0 ! s)"
    have mo: "matrix T V (snd (outs ! s))" using o(3) s by blast
    have lt: "length (map (map of_rat) tl :: real list list) = T" using tl(2) by (simp add: matrix_def)
    have lv: "length (e3_lm_head m) = V" using D(8) by (simp add: matrix_def)
    note tn = padded_targets_nth [OF lt T _ s, of _ "length (e3_lm_head m)", folded tp_def]
    have masks: "position_masks k mask0 ! s = (shift_with_zero_padding False ^^ s) mask0" by (rule position_masks_nth [OF s])
    have lk: "length ?ks = T" unfolding masks using lm(1) by (simp add: mask0_def)
    have tv: "length (?ts ! q) = V" if "q < T" for q
      using tn(1) [OF that] that tl(2) lv by (auto simp: softmax_row_def matrix_def)
    have ok: "rows_agree ?xs ?ts ?ks"
    proof -
      have "map length ?xs = map length ?ts"
        by (rule nth_equalityI) (use mo tn(2) [OF T] tv in \<open>simp_all add: matrix_def\<close>)
      moreover have "[] \<notin> set ?xs" using mo D(1) by (auto simp: matrix_def)
      ultimately show ?thesis using lk mo by (simp add: rows_agree_def matrix_def)
    qed
    have summand: "(if ?ks ! q then cross_entropy (?ts ! q) (?xs ! q) else 0)
        = (if q + s + 1 < n \<and> 0 < bt_loss_mask batch ! (q + s)
           then cross_entropy (softmax_row (map of_rat (tl ! (q + s + 1)))) (map of_rat (snd (outs ! s) ! q)) else 0)"
      if q: "q < T" for q
    proof -
      have k: "?ks ! q \<longleftrightarrow> q + s + 1 < n \<and> 0 < bt_loss_mask batch ! (q + s)"
      proof -
        have "?ks ! q \<longleftrightarrow> 0 < position_masks k mask0 ! s ! q" using lk q by simp
        then show ?thesis
          unfolding masks using supervised_positions [OF n(1,2) lm q, of s, folded mask0_def] by simp
      qed
      have "?xs ! q = map of_rat (snd (outs ! s) ! q)" using q mo by (simp add: matrix_def)
      moreover have "?ts ! q = softmax_row (map of_rat (tl ! (q + s + 1)))" if "q + s + 1 < n"
        using tn(1) [OF q] that n(2) tl(2) by (simp add: matrix_def)
      ultimately show ?thesis using k by auto
    qed
    have "soft_cross_entropy ?xs ?ts ?ks (real T) = loss s"
      unfolding soft_cross_entropy_index [OF ok] loss_def using mo summand by (simp add: matrix_def)
    then show ?thesis
      unfolding step_loss_def fused_forward_value [OF bsz ok] by simp
  qed
  have losses: "mapE (\<lambda>i. step_loss bsz tp (position_masks k mask0) T i (outs ! i)) [0..<k] = Inr (map loss [0..<k])"
    by (rule mapE_all) (use step in simp)
  have "compute_eagle3_loss bsz m batch k decay = Inr (\<Sum>i\<leftarrow>[0..<k]. map loss [0..<k] ! i * decay ^ i)"
    unfolding compute_eagle3_loss_def Let_def T_def [symmetric] m0 bindE.simps tl(1) o(1) tp_def [symmetric] losses ..
  moreover have "map (\<lambda>i. map loss [0..<k] ! i * decay ^ i) [0..<k] = map (\<lambda>i. loss i * decay ^ i) [0..<k]"
    by (rule map_cong) simp_all
  ultimately have "compute_eagle3_loss bsz m batch k decay = Inr (\<Sum>i\<leftarrow>[0..<k]. loss i * decay ^ i)" by argo
  then show ?thesis using tl(1) o(1) unfolding loss_def by blast
qed

section \<open>A concrete batch\<close>

definition tiny_batch :: eagle3_batch where
  "tiny_batch = \<lparr> bt_input_ids = [1, 2, 0, 1, 0], bt_attention_mask = [1, 1, 1, 1, 0], bt_loss_mask = [0, 1, 1, 1, 0],
     bt_target_hidden = replicate 5 [1, 0, 0, 0, 1], bt_target_last_hidden = replicate 5 [1] \<rparr>"

lemma tiny_train_row: "train_row tiny_eagle3 3 5 4 [1, 2, 0, 1, 0] (replicate 5 [1, 0, 0, 0, 1]) [1, 1, 1, 1, 0]"
  by (simp add: train_row_def matrix_def tiny_eagle3_def numeral_eq_Suc)

lemma tiny_batch_ok: "batch_ok tiny_eagle3 3 4 tiny_batch"
proof -
  have "length (bt_input_ids tiny_batch) = 5" "length (bt_loss_mask tiny_batch) = 5" by (simp_all add: tiny_batch_def)
  moreover have "bt_loss_mask tiny_batch ! i = 0" if "4 \<le> i" "i < 5" for i
    using that by (auto simp: tiny_batch_def less_Suc_eq numeral_eq_Suc)
  moreover have "train_row tiny_eagle3 3 5 4 (bt_input_ids tiny_batch) (bt_target_hidden tiny_batch) (bt_attention_mask tiny_batch)"
    using tiny_train_row by (simp add: tiny_batch_def)
  moreover have "matrix 5 (e3_hidden_size tiny_eagle3) (bt_target_last_hidden tiny_batch)"
    by (simp add: tiny_batch_def matrix_def tiny_eagle3_def)
  ultimately show ?thesis unfolding batch_ok_def by simp
qed

theorem training_time_test_is_drafting_witness:
  "\<exists>outs. ttt_steps tiny_eagle3 [1, 1, 1, 1, 0] [0..<5] 2 (replicate 5 [1, 0, 0, 0, 1])
      (shift_with_zero_padding False [1, 2, 0, 1, 0]) [] = Inr outs \<and> length outs = 2
    \<and> (\<exists>hidden cache cache'.
         extend_draft_cache tiny_eagle3 [[1, 0, 0, 0, 1], [1, 0, 0, 0, 1]] [2, 0] [0, 1] [] = Inr (hidden, cache)
       \<and> drafted tiny_eagle3 [0..<5] 2 hidden cache [1] = Inr ([fst (outs ! 1) ! 1], cache'))"
proof -
  obtain outs where o: "ttt_steps tiny_eagle3 [1, 1, 1, 1, 0] [0..<5] 2 (replicate 5 [1, 0, 0, 0, 1])
      (shift_with_zero_padding False [1, 2, 0, 1, 0]) [] = Inr outs" "length outs = 2"
    and d: "\<forall>s q. s < 2 \<and> q + s + 1 < 4 \<longrightarrow>
        (\<exists>hidden cache cache'.
           extend_draft_cache tiny_eagle3 (take (q + 1) (replicate 5 [1, 0, 0, 0, 1])) (py_slice 1 (q + 2) [1, 2, 0, 1, 0])
             (take (q + 1) [0..<5]) [] = Inr (hidden, cache)
         \<and> drafted tiny_eagle3 [0..<5] (q + 1) hidden cache (py_slice (q + 2) (q + 2 + s) [1, 2, 0, 1, 0])
             = Inr ([fst (outs ! s) ! q], cache')
         \<and> e3_compute_logits tiny_eagle3 [fst (outs ! s) ! q] = Inr [snd (outs ! s) ! q])"
    using training_time_test_is_drafting [OF tiny_eagle3_ok tiny_train_row, of 2] by blast
  have e: "take (1 + 1) (replicate 5 [1, 0, 0, 0, 1 :: rat]) = [[1, 0, 0, 0, 1], [1, 0, 0, 0, 1]]"
    "py_slice 1 (1 + 2) [1, 2, 0, 1, 0 :: nat] = [2, 0]" "take (1 + 1) [0..<5] = [0, 1 :: nat]"
    "py_slice (1 + 2) (1 + 2 + 1) [1, 2, 0, 1, 0 :: nat] = [1]"
    by (simp_all add: py_slice_def numeral_eq_Suc upt_conv_Cons)
  have "(1 :: nat) < 2 \<and> 1 + 1 + 1 < (4 :: nat)" by simp
  from d [THEN spec, THEN spec, THEN mp, OF this, unfolded e] show ?thesis
    using o unfolding one_add_one by blast
qed

theorem eagle3_loss_value_witness:
  "\<exists>loss. compute_eagle3_loss 2 tiny_eagle3 tiny_batch 2 (1 / 2) = Inr loss"
  using eagle3_loss_value [OF _ tiny_eagle3_ok tiny_batch_ok, of 2 2 "1 / 2"] by auto

end
