(* ===== verification/Work_Sharing.thy ===== *)
theory Work_Sharing
  imports Prelude "HOL-Library.Multiset"
begin

text \<open>
  How the ranks of a job share the rows of a data set: rank \<open>r\<close> of \<open>w\<close> takes the rows \<open>r\<close>,
  \<open>r + w\<close>, \<open>r + 2 * w\<close> and so on. The evaluator and the training sampler both do so.
\<close>

text \<open>Together the ranks take every row exactly once.\<close>

lemma rank_shares:
  assumes "0 < w"
  shows "mset (concat (map (\<lambda>rank. py_range rank n w) [0..<w])) = mset [0..<n]"
proof -
  have "distinct (concat (map (\<lambda>rank. py_range rank n w) [0..<k]))" if "k \<le> w" for k
    using that
  proof (induction k)
    case (Suc k)
    then show ?case using assms by (auto simp: py_range_distinct py_range_set)
  qed simp
  moreover have "set (concat (map (\<lambda>rank. py_range rank n w) [0..<w])) = set [0..<n]"
    using assms by (auto simp: py_range_set)
  ultimately show ?thesis
    by (metis distinct_upt le_refl set_eq_iff_mset_eq_distinct)
qed

lemma rank_shares_nth:
  assumes "0 < w" and "length xs = n"
  shows "mset (concat (map (\<lambda>rank. map (\<lambda>i. xs ! i) (py_range rank n w)) [0..<w])) = mset xs"
proof -
  have "concat (map (\<lambda>rank. map (\<lambda>i. xs ! i) (py_range rank n w)) [0..<w])
      = map (\<lambda>i. xs ! i) (concat (map (\<lambda>rank. py_range rank n w) [0..<w]))"
    by (simp add: map_concat comp_def)
  then have "mset (concat (map (\<lambda>rank. map (\<lambda>i. xs ! i) (py_range rank n w)) [0..<w]))
      = image_mset (\<lambda>i. xs ! i) (mset [0..<n])"
    by (simp add: rank_shares [OF assms(1)] del: mset_concat)
  also have "\<dots> = mset (map (\<lambda>i. xs ! i) [0..<n])" by simp
  also have "map (\<lambda>i. xs ! i) [0..<n] = xs" using assms(2) map_nth [of xs] by simp
  finally show ?thesis .
qed

end
