(* ===== verification/Eval_Metrics.thy ===== *)
theory Eval_Metrics
  imports Work_Sharing Decoding_Accounting "HOL-Library.Multiset"
begin

text \<open>
  The evaluation driver of \<^verbatim>\<open>DeepSpec/deepspec/eval/base_evaluator.py\<close>: loading and
  selecting the prompts of a benchmark, running them on the ranks of a process group,
  summing the decoding statistics over the ranks, and turning the sums into a metrics row.

  The process group is modelled by the list of what each rank computes. \<open>json.loads\<close>, the
  seeded shuffle, the tokenizer and the generator of one sample are arguments; floats of a
  metrics row are exact rationals.
\<close>

section \<open>Benchmarks\<close>

datatype json =
    JNull
  | JBool bool
  | JNum rat
  | JStr string
  | JList "json list"
  | JObj "(string \<times> json) list"

definition is_space :: "char \<Rightarrow> bool" where
  "is_space c \<longleftrightarrow> c \<in> set [CHR '' '', CHR 0x09, CHR 0x0A, CHR 0x0B, CHR 0x0C, CHR 0x0D]"

definition py_strip :: "string \<Rightarrow> string" where
  "py_strip s = rev (dropWhile is_space (rev (dropWhile is_space s)))"

fun dict_get :: "json \<Rightarrow> string \<Rightarrow> json option res" where
  "dict_get (JObj kvs) k = Inr (map_of kvs k)"
| "dict_get _ k = Inl AttributeError"

fun is_json_str :: "json \<Rightarrow> bool" where
  "is_json_str (JStr s) = True"
| "is_json_str _ = False"

text \<open>One non-blank line of the benchmark: the row keeps its first turn only.\<close>

fun first_turn_row :: "json \<Rightarrow> json \<Rightarrow> json res" where
  "first_turn_row (JObj kvs) (JList turns) =
     (if turns \<noteq> [] \<and> (\<forall>t \<in> set turns. is_json_str t)
      then Inr (JObj (AList.update ''turns'' (JList (take 1 turns)) kvs)) else Inl AssertionError)"
| "first_turn_row _ _ = Inl AssertionError"

definition process_line :: "(string \<Rightarrow> json res) \<Rightarrow> json list \<Rightarrow> string \<Rightarrow> json list res" where
  "process_line loads rows line =
     (if py_strip line = [] then Inr rows
      else bindE (loads (py_strip line)) (\<lambda>row.
           bindE (dict_get row ''turns'') (\<lambda>turns.
           bindE (first_turn_row row (case turns of None \<Rightarrow> JNull | Some t \<Rightarrow> t)) (\<lambda>row'.
           Inr (rows @ [row'])))))"

text \<open>The file of a data set is its list of lines, or absent.\<close>

definition load_and_process_dataset :: "(string \<Rightarrow> json res) \<Rightarrow> string list option \<Rightarrow> json list res" where
  "load_and_process_dataset loads dataset_path =
     (case dataset_path of None \<Rightarrow> Inl AssertionError
      | Some handle \<Rightarrow> foldE (process_line loads) [] handle)"

text \<open>
  What the driver uses of its surroundings: the benchmark files, \<open>json.loads\<close>, the shuffle
  of \<open>random.Random(seed)\<close>, the chat template with its tokenizer, and the generator of one
  sample, which draws from the random state \<open>seed_all\<close> has set.
\<close>

record 'rsp eval_env =
  dataset_files :: "string \<Rightarrow> string list option"
  json_loads :: "string \<Rightarrow> json res"
  rng_shuffle :: "int \<Rightarrow> json list \<Rightarrow> json list"
  encode_chat :: "string \<Rightarrow> token list"
  generate_one_sample :: "int \<Rightarrow> token list \<Rightarrow> token list option \<Rightarrow> 'rsp res"

definition load_selected_dataset ::
  "'rsp eval_env \<Rightarrow> string \<Rightarrow> nat option \<Rightarrow> int \<Rightarrow> json list res" where
  "load_selected_dataset env dataset_name max_samples seed =
     bindE (load_and_process_dataset (json_loads env) (dataset_files env dataset_name)) (\<lambda>dataset.
     Inr (case max_samples of None \<Rightarrow> dataset
          | Some k \<Rightarrow> if length dataset > k then take k (rng_shuffle env seed dataset) else dataset))"

text \<open>\<open>instance["turns"][0]\<close>\<close>

fun first_turn :: "json \<Rightarrow> string res" where
  "first_turn (JObj kvs) =
     (case map_of kvs ''turns'' of
        Some (JList (JStr s # _)) \<Rightarrow> Inr s
      | Some (JList []) \<Rightarrow> Inl IndexError
      | _ \<Rightarrow> Inl KeyError)"
| "first_turn _ = Inl KeyError"

section \<open>Running a data set\<close>

text \<open>
  The attributes \<open>allreduce_response_metrics\<close> reads from a response; a response may lack
  them.
\<close>

record response =
  rsp_acceptance_lengths :: "nat list option"
  rsp_proposal_lengths :: "nat list option"
  rsp_accepted_draft_lengths :: "nat list option"

definition response_of :: "decode_result \<Rightarrow> response" where
  "response_of res =
     \<lparr> rsp_acceptance_lengths = Some (res_acceptance_lengths res),
       rsp_proposal_lengths = Some (res_proposal_lengths res),
       rsp_accepted_draft_lengths = Some (res_accepted_draft_lengths res) \<rparr>"

definition run_dataset ::
  "'rsp eval_env \<Rightarrow> token list option \<Rightarrow> int \<Rightarrow> nat \<Rightarrow> string \<times> nat option \<Rightarrow> nat \<Rightarrow> 'rsp list res" where
  "run_dataset env stop_token_ids seed world_size task global_rank =
     bindE (load_selected_dataset env (fst task) (snd task) seed) (\<lambda>dataset.
     mapE (\<lambda>idx. bindE (first_turn (dataset ! idx)) (\<lambda>content.
                  generate_one_sample env (seed + int idx) (encode_chat env content) stop_token_ids))
       (py_range global_rank (length dataset) world_size))"

section \<open>Summing the statistics\<close>

record metric_summary =
  sample_count :: nat
  proposal_count :: nat
  acceptance_length_sum :: nat
  proposal_length_sum :: nat
  proposals_at_pos :: "nat list"
  accepted_at_pos :: "nat list"

definition empty_summary :: "nat \<Rightarrow> nat \<Rightarrow> metric_summary" where
  "empty_summary max_proposal_tokens n =
     \<lparr> sample_count = n, proposal_count = 0, acceptance_length_sum = 0, proposal_length_sum = 0,
       proposals_at_pos = replicate max_proposal_tokens 0,
       accepted_at_pos = replicate max_proposal_tokens 0 \<rparr>"

text \<open>\<open>counter[pos] += 1\<close> for every position below \<open>n\<close>.\<close>

definition bump_below :: "nat \<Rightarrow> nat list \<Rightarrow> nat list" where
  "bump_below n counter = map2 (\<lambda>pos c. if n > pos then c + 1 else c) [0..<length counter] counter"

definition add_iteration :: "metric_summary \<Rightarrow> nat \<times> nat \<times> nat \<Rightarrow> metric_summary" where
  "add_iteration s = (\<lambda>(acceptance_length, proposal_length, accepted_draft_length).
     s\<lparr> proposal_count := proposal_count s + 1,
        acceptance_length_sum := acceptance_length_sum s + acceptance_length,
        proposal_length_sum := proposal_length_sum s + proposal_length,
        proposals_at_pos := bump_below proposal_length (proposals_at_pos s),
        accepted_at_pos := bump_below accepted_draft_length (accepted_at_pos s) \<rparr>)"

definition add_response :: "metric_summary \<Rightarrow> response \<Rightarrow> metric_summary res" where
  "add_response s rsp =
     (case (rsp_acceptance_lengths rsp, rsp_proposal_lengths rsp, rsp_accepted_draft_lengths rsp) of
        (Some al, Some pl, Some dl) \<Rightarrow>
          if length al = length pl \<and> length pl = length dl
          then Inr (foldl add_iteration s (zip al (zip pl dl)))
          else Inl AssertionError
      | _ \<Rightarrow> Inr s)"

definition rank_summary :: "nat \<Rightarrow> response list \<Rightarrow> metric_summary res" where
  "rank_summary max_proposal_tokens responses =
     foldE add_response (empty_summary max_proposal_tokens (length responses)) responses"

text \<open>
  \<open>dist.all_reduce(tensor, op=SUM)\<close>: the element-wise sum of the ranks' tensors, which
  every rank receives.
\<close>

fun reduce_sum :: "nat list list \<Rightarrow> nat list" where
  "reduce_sum [] = []"
| "reduce_sum [t] = t"
| "reduce_sum (t # ts) = map2 (+) t (reduce_sum ts)"

definition scalar_tensor :: "metric_summary \<Rightarrow> nat list" where
  "scalar_tensor s = [sample_count s, proposal_count s, acceptance_length_sum s, proposal_length_sum s]"

definition position_tensor :: "metric_summary \<Rightarrow> nat list" where
  "position_tensor s = proposals_at_pos s @ accepted_at_pos s"

definition allreduce_response_metrics :: "nat \<Rightarrow> response list list \<Rightarrow> metric_summary res" where
  "allreduce_response_metrics max_proposal_tokens rank_responses =
     bindE (mapE (rank_summary max_proposal_tokens) rank_responses) (\<lambda>ss.
     let sc = reduce_sum (map scalar_tensor ss); ps = reduce_sum (map position_tensor ss)
     in Inr \<lparr> sample_count = sc ! 0, proposal_count = sc ! 1, acceptance_length_sum = sc ! 2,
              proposal_length_sum = sc ! 3,
              proposals_at_pos = take max_proposal_tokens ps,
              accepted_at_pos = drop max_proposal_tokens ps \<rparr>)"

section \<open>Metrics rows\<close>

record metrics_row =
  row_dataset :: string
  row_num_samples :: nat
  row_draft_tokens_per_proposal :: rat
  row_acceptance_length :: rat
  row_verify_rate :: rat
  row_accept_rates :: "rat option list"

definition position_accept_rate :: "metric_summary \<Rightarrow> nat \<Rightarrow> rat option" where
  "position_accept_rate s pos_idx =
     (if proposals_at_pos s ! pos_idx = 0 then None
      else Some (of_nat (accepted_at_pos s ! pos_idx) / of_nat (proposals_at_pos s ! pos_idx)))"

definition build_metrics_row :: "nat \<Rightarrow> string \<Rightarrow> metric_summary \<Rightarrow> metrics_row" where
  "build_metrics_row max_proposal_tokens dataset_name s =
     (if proposal_count s = 0 then
        \<lparr> row_dataset = dataset_name, row_num_samples = sample_count s,
          row_draft_tokens_per_proposal = 0, row_acceptance_length = 0, row_verify_rate = 0,
          row_accept_rates = replicate max_proposal_tokens None \<rparr>
      else
        \<lparr> row_dataset = dataset_name, row_num_samples = sample_count s,
          row_draft_tokens_per_proposal = of_nat (proposal_length_sum s) / of_nat (proposal_count s),
          row_acceptance_length = of_nat (acceptance_length_sum s) / of_nat (proposal_count s),
          row_verify_rate = of_nat (acceptance_length_sum s)
                              / of_nat (proposal_length_sum s + proposal_count s),
          row_accept_rates = map (position_accept_rate s) [0..<max_proposal_tokens] \<rparr>)"

definition record_dataset_metrics ::
  "nat \<Rightarrow> nat \<Rightarrow> string \<Rightarrow> metric_summary \<Rightarrow> metrics_row list \<Rightarrow> metrics_row list" where
  "record_dataset_metrics rank max_proposal_tokens dataset_name s metrics_rows =
     (if rank \<noteq> 0 \<or> sample_count s \<le> 0 then metrics_rows
      else metrics_rows @ [build_metrics_row max_proposal_tokens dataset_name s])"

text \<open>
  \<open>evaluate\<close> on all ranks of the group; the result is \<open>metrics_rows\<close> of rank 0.
\<close>

definition evaluate_task ::
  "response eval_env \<Rightarrow> token list option \<Rightarrow> int \<Rightarrow> nat \<Rightarrow> nat \<Rightarrow> metrics_row list
   \<Rightarrow> string \<times> nat option \<Rightarrow> metrics_row list res" where
  "evaluate_task env stops seed max_proposal_tokens world_size metrics_rows task =
     bindE (mapE (run_dataset env stops seed world_size task) [0..<world_size]) (\<lambda>responses.
     bindE (allreduce_response_metrics max_proposal_tokens responses) (\<lambda>s.
     Inr (record_dataset_metrics 0 max_proposal_tokens (fst task) s metrics_rows)))"

definition evaluate ::
  "response eval_env \<Rightarrow> token list option \<Rightarrow> int \<Rightarrow> nat \<Rightarrow> nat \<Rightarrow> (string \<times> nat option) list
   \<Rightarrow> metrics_row list res" where
  "evaluate env stops seed max_proposal_tokens world_size tasks =
     foldE (evaluate_task env stops seed max_proposal_tokens world_size) [] tasks"

section \<open>Loading\<close>

lemma first_turn_row_turn:
  "first_turn_row row t = Inr row' \<Longrightarrow> \<exists>s. first_turn row' = Inr s"
proof (induction row t rule: first_turn_row.induct)
  case (1 kvs turns)
  then obtain t ts where t: "turns = t # ts" "is_json_str t" "row' = JObj (AList.update ''turns'' (JList [t]) kvs)"
    by (cases turns) (auto split: if_splits)
  then obtain s where "t = JStr s" by (cases t) auto
  with t show ?case by (simp add: update_conv')
qed auto

text \<open>Every row that is loaded or selected has a first turn.\<close>

definition has_turn :: "json \<Rightarrow> bool" where
  "has_turn row \<longleftrightarrow> (\<exists>s. first_turn row = Inr s)"

lemma load_and_process_turns:
  assumes "load_and_process_dataset loads path = Inr rows"
  shows "\<forall>row \<in> set rows. has_turn row"
proof -
  obtain handle where "foldE (process_line loads) [] handle = Inr rows"
    using assms by (auto simp: load_and_process_dataset_def split: option.splits)
  then show ?thesis
    by (rule foldE_invariant)
      (auto simp: process_line_def has_turn_def res_simps dest: first_turn_row_turn split: if_splits)
qed

definition shuffles :: "(int \<Rightarrow> json list \<Rightarrow> json list) \<Rightarrow> bool" where
  "shuffles f \<longleftrightarrow> (\<forall>seed xs. mset (f seed xs) = mset xs)"

lemma shuffles_set: "shuffles f \<Longrightarrow> set (f seed xs) = set xs"
  unfolding shuffles_def by (metis set_mset_mset)

lemma load_selected_turns:
  assumes "load_selected_dataset env name k seed = Inr rows" and "shuffles (rng_shuffle env)"
  shows "\<forall>row \<in> set rows. has_turn row"
proof -
  obtain ds where ds: "load_and_process_dataset (json_loads env) (dataset_files env name) = Inr ds"
    and rows: "set rows \<subseteq> set ds"
    using assms set_take_subset shuffles_set [OF assms(2), of seed]
    by (fastforce simp: load_selected_dataset_def res_simps split: option.splits if_splits dest: in_set_takeD)
  from load_and_process_turns [OF ds] rows show ?thesis by blast
qed

section \<open>The ranks' shares\<close>

section \<open>Summaries as functions of the iterations\<close>

text \<open>
  The reference definition: a summary is determined by the number of samples and the
  multiset of the iterations, each with its acceptance length, proposal length and number
  of accepted draft tokens.
\<close>

definition above :: "nat \<Rightarrow> nat list \<Rightarrow> nat" where
  "above pos xs = length (filter (\<lambda>n. n > pos) xs)"

definition summary_of :: "nat \<Rightarrow> nat \<Rightarrow> (nat \<times> nat \<times> nat) list \<Rightarrow> metric_summary" where
  "summary_of mp n its =
     \<lparr> sample_count = n, proposal_count = length its,
       acceptance_length_sum = sum_list (map fst its),
       proposal_length_sum = sum_list (map (fst \<circ> snd) its),
       proposals_at_pos = map (\<lambda>pos. above pos (map (fst \<circ> snd) its)) [0..<mp],
       accepted_at_pos = map (\<lambda>pos. above pos (map (snd \<circ> snd) its)) [0..<mp] \<rparr>"

fun iterations :: "response \<Rightarrow> (nat \<times> nat \<times> nat) list" where
  "iterations rsp =
     (case (rsp_acceptance_lengths rsp, rsp_proposal_lengths rsp, rsp_accepted_draft_lengths rsp) of
        (Some al, Some pl, Some dl) \<Rightarrow> zip al (zip pl dl) | _ \<Rightarrow> [])"

definition response_ok :: "response \<Rightarrow> bool" where
  "response_ok rsp \<longleftrightarrow>
     (case (rsp_acceptance_lengths rsp, rsp_proposal_lengths rsp, rsp_accepted_draft_lengths rsp) of
        (Some al, Some pl, Some dl) \<Rightarrow> length al = length pl \<and> length pl = length dl | _ \<Rightarrow> True)"

lemma above_snoc: "above pos (xs @ [n]) = (if n > pos then above pos xs + 1 else above pos xs)"
  by (simp add: above_def)

lemma above_append: "above pos (xs @ ys) = above pos xs + above pos ys"
  by (simp add: above_def)

lemma above_mset: "mset xs = mset ys \<Longrightarrow> above pos xs = above pos ys"
  unfolding above_def by (metis mset_filter size_mset)

lemma bump_below_above:
  "bump_below n (map (\<lambda>pos. above pos xs) [0..<mp]) = map (\<lambda>pos. above pos (xs @ [n])) [0..<mp]"
  by (rule nth_equalityI) (simp_all add: bump_below_def above_snoc)

lemma add_iteration_summary: "add_iteration (summary_of mp n its) it = summary_of mp n (its @ [it])"
  by (cases it) (simp add: add_iteration_def summary_of_def bump_below_above)

lemma add_iterations_summary: "foldl add_iteration (summary_of mp n its) its' = summary_of mp n (its @ its')"
  by (induction its' arbitrary: its) (simp_all add: add_iteration_summary)

lemma add_response_summary:
  "response_ok rsp \<Longrightarrow> add_response (summary_of mp n its) rsp = Inr (summary_of mp n (its @ iterations rsp))"
  by (auto simp: add_response_def response_ok_def add_iterations_summary split: option.splits)

lemma empty_summary_of: "empty_summary mp n = summary_of mp n []"
  by (simp add: empty_summary_def summary_of_def above_def map_replicate_const)

lemma rank_summary_eq:
  assumes "\<forall>rsp \<in> set rs. response_ok rsp"
  shows "rank_summary mp rs = Inr (summary_of mp (length rs) (concat (map iterations rs)))"
proof -
  have "foldE add_response (summary_of mp n its) rs = Inr (summary_of mp n (its @ concat (map iterations rs)))"
    for n its
    using assms by (induction rs arbitrary: its) (simp_all add: add_response_summary del: iterations.simps)
  from this [of "length rs" "[]"] show ?thesis by (simp add: rank_summary_def empty_summary_of)
qed

lemma summary_of_mset:
  assumes "mset its = mset its'"
  shows "summary_of mp n its = summary_of mp n its'"
proof -
  have m: "mset (map f its) = mset (map f its')" for f :: "nat \<times> nat \<times> nat \<Rightarrow> nat" using assms by simp
  have "sum_list (map f its) = sum_list (map f its')" for f :: "nat \<times> nat \<times> nat \<Rightarrow> nat"
    using m [of f] by (metis sum_mset_sum_list)
  moreover have "above pos (map f its) = above pos (map f its')" for f :: "nat \<times> nat \<times> nat \<Rightarrow> nat" and pos
    by (rule above_mset [OF m])
  ultimately show ?thesis
    using mset_eq_length [OF assms] unfolding summary_of_def by presburger
qed

section \<open>The reduction over the ranks\<close>

lemma reduce_scalars:
  "reduce_sum (map (\<lambda>(n, its). scalar_tensor (summary_of mp n its)) (p # ps))
     = scalar_tensor (summary_of mp (sum_list (map fst (p # ps))) (concat (map snd (p # ps))))"
proof (induction ps arbitrary: p)
  case Nil
  then show ?case by (cases p) simp
next
  case (Cons q qs)
  then show ?case by (cases p) (simp add: scalar_tensor_def summary_of_def)
qed

lemma reduce_positions:
  "reduce_sum (map (\<lambda>(n, its). position_tensor (summary_of mp n its)) (p # ps))
     = position_tensor (summary_of mp (sum_list (map fst (p # ps))) (concat (map snd (p # ps))))"
proof (induction ps arbitrary: p)
  case Nil
  then show ?case by (cases p) simp
next
  case (Cons q qs)
  have plus: "map2 (+) (map f [0..<mp]) (map g [0..<mp]) = map (\<lambda>pos. f pos + g pos) [0..<mp]" for f g :: "nat \<Rightarrow> nat"
    by (rule nth_equalityI) simp_all
  have app: "position_tensor (summary_of mp n (xs @ ys))
      = map2 (+) (position_tensor (summary_of mp n' xs)) (position_tensor (summary_of mp n'' ys))" for n n' n'' xs ys
    by (simp add: position_tensor_def summary_of_def above_append plus)
  show ?case
    by (cases p) (simp add: Cons.IH [of q, simplified] app [symmetric])
qed

lemma allreduce_eq:
  assumes "rrs \<noteq> []" and "\<forall>rsp \<in> set (concat rrs). response_ok rsp"
  shows "allreduce_response_metrics mp rrs
    = Inr (summary_of mp (length (concat rrs)) (concat (map iterations (concat rrs))))"
proof -
  define shares where "shares = map (\<lambda>rs. (length rs, concat (map iterations rs))) rrs"
  have loc: "mapE (rank_summary mp) rrs = Inr (map (\<lambda>(n, its). summary_of mp n its) shares)"
    using assms(2) by (auto simp: shares_def rank_summary_eq intro!: mapE_all simp del: iterations.simps)
  obtain p ps where sh: "shares = p # ps" using assms(1) by (cases shares) (simp_all add: shares_def)
  have sc: "reduce_sum (map scalar_tensor (map (\<lambda>(n, its). summary_of mp n its) shares))
      = scalar_tensor (summary_of mp (sum_list (map fst shares)) (concat (map snd shares)))"
    using reduce_scalars [of mp p ps] by (simp add: sh split_def comp_def)
  have ps: "reduce_sum (map position_tensor (map (\<lambda>(n, its). summary_of mp n its) shares))
      = position_tensor (summary_of mp (sum_list (map fst shares)) (concat (map snd shares)))"
    using reduce_positions [of mp p ps] by (simp add: sh split_def comp_def)
  have "sum_list (map fst shares) = length (concat rrs)"
    by (simp add: shares_def length_concat comp_def)
  moreover have "concat (map snd shares) = concat (map iterations (concat rrs))"
    unfolding shares_def by (induction rrs) (simp_all del: iterations.simps)
  moreover have "(let sc = scalar_tensor s; ps = position_tensor s in
      \<lparr> sample_count = sc ! 0, proposal_count = sc ! 1, acceptance_length_sum = sc ! 2, proposal_length_sum = sc ! 3,
        proposals_at_pos = take mp ps, accepted_at_pos = drop mp ps \<rparr>) = s"
    if "length (proposals_at_pos s) = mp" for s
    using that by (simp add: scalar_tensor_def position_tensor_def Let_def)
  ultimately show ?thesis
    unfolding allreduce_response_metrics_def loc bindE.simps sc ps Let_def by (simp add: summary_of_def)
qed

section \<open>One task on any number of ranks\<close>

definition sampler_ok :: "response eval_env \<Rightarrow> (response \<Rightarrow> bool) \<Rightarrow> bool" where
  "sampler_ok env P \<longleftrightarrow>
     (\<forall>seed content stops. \<exists>rsp. generate_one_sample env seed (encode_chat env content) stops = Inr rsp
                            \<and> P rsp \<and> response_ok rsp)"

lemma mset_concat_map:
  assumes "mset xs = mset ys"
  shows "mset (concat (map f xs)) = mset (concat (map f ys))"
proof -
  have "mset (concat (map f zs)) = sum_mset (image_mset (\<lambda>z. mset (f z)) (mset zs))" for zs
    by (induction zs) simp_all
  then show ?thesis using assms by simp
qed

lemma rank_samples:
  assumes "0 < w"
  shows "mset (concat (map (\<lambda>rank. map g (py_range rank n w)) [0..<w])) = mset (map g [0..<n])"
proof -
  have "concat (map (\<lambda>rank. map g (py_range rank n w)) [0..<w]) = map g (concat (map (\<lambda>rank. py_range rank n w) [0..<w]))"
    by (simp add: map_concat comp_def)
  then show ?thesis by (simp add: rank_shares [OF assms] del: mset_concat)
qed

lemma evaluate_task_eq:
  assumes load: "load_selected_dataset env name k seed = Inr ds"
    and sampler: "sampler_ok env P" and sh: "shuffles (rng_shuffle env)"
  obtains rsps where "length rsps = length ds" and "\<forall>rsp \<in> set rsps. P rsp"
    and "\<And>w rows. 0 < w \<Longrightarrow> evaluate_task env stops seed mp w rows (name, k)
          = Inr (record_dataset_metrics 0 mp name (summary_of mp (length ds) (concat (map iterations rsps))) rows)"
proof -
  define f where "f = (\<lambda>idx. bindE (first_turn (ds ! idx)) (\<lambda>content.
      generate_one_sample env (seed + int idx) (encode_chat env content) stops))"
  have "\<exists>rsp. f idx = Inr rsp \<and> P rsp \<and> response_ok rsp" if idx: "idx < length ds" for idx
  proof -
    obtain content where "first_turn (ds ! idx) = Inr content"
      using load_selected_turns [OF load sh] idx unfolding has_turn_def by (meson nth_mem)
    then show ?thesis using sampler by (simp add: f_def sampler_ok_def)
  qed
  then obtain g where g: "\<And>idx. idx < length ds \<Longrightarrow> f idx = Inr (g idx) \<and> P (g idx) \<and> response_ok (g idx)"
    by metis
  show thesis
  proof
    show "length (map g [0..<length ds]) = length ds" by simp
    show "\<forall>rsp \<in> set (map g [0..<length ds]). P rsp" using g by simp
    fix w :: nat and rows
    assume w: "0 < w"
    let ?rrs = "map (\<lambda>rank. map g (py_range rank (length ds) w)) [0..<w]"
    have run: "run_dataset env stops seed w (name, k) rank = Inr (map g (py_range rank (length ds) w))" for rank
      unfolding run_dataset_def using w g
      by (simp add: load f_def [symmetric]) (auto intro!: mapE_all simp: py_range_set)
    have runs: "mapE (run_dataset env stops seed w (name, k)) [0..<w] = Inr ?rrs"
      by (rule mapE_all) (rule run)
    have ok: "\<forall>rsp \<in> set (concat ?rrs). response_ok rsp" using w g by (auto simp: py_range_set)
    have perm: "mset (concat ?rrs) = mset (map g [0..<length ds])" by (rule rank_samples [OF w])
    have "allreduce_response_metrics mp ?rrs
        = Inr (summary_of mp (length (concat ?rrs)) (concat (map iterations (concat ?rrs))))"
      by (rule allreduce_eq [OF _ ok]) (use w in simp)
    also have "length (concat ?rrs) = length ds" using mset_eq_length [OF perm] by simp
    also have "summary_of mp (length ds) (concat (map iterations (concat ?rrs)))
        = summary_of mp (length ds) (concat (map iterations (map g [0..<length ds])))"
      by (rule summary_of_mset [OF mset_concat_map [OF perm]])
    finally have red: "allreduce_response_metrics mp ?rrs
        = Inr (summary_of mp (length ds) (concat (map iterations (map g [0..<length ds]))))" .
    show "evaluate_task env stops seed mp w rows (name, k)
        = Inr (record_dataset_metrics 0 mp name
             (summary_of mp (length ds) (concat (map iterations (map g [0..<length ds])))) rows)"
      unfolding evaluate_task_def runs bindE.simps red fst_conv ..
  qed
qed

lemma evaluate_task_load_error:
  assumes "load_selected_dataset env name k seed = Inl e" and "0 < w"
  shows "evaluate_task env stops seed mp w rows (name, k) = Inl e"
proof -
  have "[0..<w] = 0 # [1..<w]" using assms(2) by (simp add: upt_conv_Cons)
  then show ?thesis using assms(1) by (simp add: evaluate_task_def run_dataset_def)
qed

lemma evaluate_task_rank_independent:
  assumes "sampler_ok env P" and "shuffles (rng_shuffle env)" and "0 < w"
  shows "evaluate_task env stops seed mp w rows task = evaluate_task env stops seed mp 1 rows task"
proof (cases task)
  case (Pair name k)
  show ?thesis
  proof (cases "load_selected_dataset env name k seed")
    case (Inl e)
    then show ?thesis using assms(3) by (simp add: Pair evaluate_task_load_error)
  next
    case (Inr ds)
    from evaluate_task_eq [OF Inr assms(1,2)] show ?thesis
      using assms(3) unfolding Pair by (metis zero_less_one)
  qed
qed

section \<open>Evaluation with speculative decoding\<close>

definition block_generate_one_sample ::
  "('c, 'h, 'r) runtime \<Rightarrow> ('h, 'x, 'r, 'p) drafter \<Rightarrow> nat \<Rightarrow> nat \<Rightarrow> rat \<Rightarrow> (int \<Rightarrow> 'r)
   \<Rightarrow> int \<Rightarrow> token list \<Rightarrow> token list option \<Rightarrow> response res" where
  "block_generate_one_sample rt dr max_new_tokens max_proposal_tokens temperature seed_all seed input_ids stop_token_ids =
     bindE (generate_decoding_sample rt dr input_ids max_new_tokens max_proposal_tokens temperature
              stop_token_ids (seed_all seed)) (\<lambda>res. Inr (response_of res))"

definition tallied :: "nat \<Rightarrow> response \<Rightarrow> bool" where
  "tallied mp rsp \<longleftrightarrow> (\<forall>(a, p, d) \<in> set (iterations rsp). d \<le> p \<and> p \<le> mp \<and> 1 \<le> a \<and> a \<le> d + 1)"

lemma decoding_sampler_ok:
  assumes su: "decoding_setup rt dr H J K V mp" and "N \<ge> 1" and "mp \<ge> 1"
    and enc: "\<And>content. encode_chat env content \<noteq> []" "\<And>content. set (encode_chat env content) \<subseteq> {..<V}"
    and gen: "generate_one_sample env = block_generate_one_sample rt dr N mp T seed_all"
  shows "sampler_ok env (tallied mp)"
  unfolding sampler_ok_def
proof (intro allI)
  fix seed content stops
  obtain res where "generate_decoding_sample rt dr (encode_chat env content) N mp T stops (seed_all seed) = Inr res"
    and t: "tally_ok mp (res_acceptance_lengths res) (res_proposal_lengths res) (res_accepted_draft_lengths res)"
    using decoding_account [OF su enc(1) assms(2,3) enc(2)] by blast
  then have "generate_one_sample env seed (encode_chat env content) stops = Inr (response_of res)"
    by (simp add: gen block_generate_one_sample_def)
  moreover have "tallied mp (response_of res)" "response_ok (response_of res)"
    using t by (auto simp: tallied_def tally_ok_def response_of_def response_ok_def)
  ultimately show "\<exists>rsp. generate_one_sample env seed (encode_chat env content) stops = Inr rsp
      \<and> tallied mp rsp \<and> response_ok rsp" by blast
qed

definition evaluation_setup ::
  "('c, 'h, 'r) runtime \<Rightarrow> ('h, 'x, 'r, 'p) drafter \<Rightarrow> nat \<Rightarrow> nat \<Rightarrow> rat \<Rightarrow> (int \<Rightarrow> 'r) \<Rightarrow> response eval_env \<Rightarrow> bool" where
  "evaluation_setup rt dr N mp T seed_all env \<longleftrightarrow>
     N \<ge> 1 \<and> mp \<ge> 1 \<and> shuffles (rng_shuffle env)
   \<and> (\<exists>H J K V. decoding_setup rt dr H J K V mp
        \<and> (\<forall>content. encode_chat env content \<noteq> [] \<and> set (encode_chat env content) \<subseteq> {..<V}))
   \<and> generate_one_sample env = block_generate_one_sample rt dr N mp T seed_all"

lemma evaluation_setup_sampler:
  assumes "evaluation_setup rt dr N mp T seed_all env"
  shows "sampler_ok env (tallied mp)" and "shuffles (rng_shuffle env)"
  using assms decoding_sampler_ok [of rt dr _ _ _ _ mp N env T seed_all] by (auto simp: evaluation_setup_def)

text \<open>
  (C8) Evaluation does not depend on how many ranks it runs on: with speculative decoding
  as the sample generator, the metrics rows (or the loading error) of a group of any
  positive size are those of a single process.
\<close>

theorem evaluation_rank_independent:
  assumes "evaluation_setup rt dr N mp T seed_all env" and "0 < w"
  shows "evaluate env stops seed mp w tasks = evaluate env stops seed mp 1 tasks"
  unfolding evaluate_def
  by (rule foldE_cong)
    (rule evaluate_task_rank_independent [OF evaluation_setup_sampler [OF assms(1)] assms(2)])

section \<open>Bounds on the metrics\<close>

text \<open>
  What a metrics row promises: one rate per position, every rate a proportion, no rate
  after a position that was never proposed, and acceptance length and verify rate within
  what the proposals allow.
\<close>

definition row_bounded :: "nat \<Rightarrow> metrics_row \<Rightarrow> bool" where
  "row_bounded mp row \<longleftrightarrow>
     length (row_accept_rates row) = mp
   \<and> (\<forall>rate \<in> set (row_accept_rates row). case rate of None \<Rightarrow> True | Some x \<Rightarrow> 0 \<le> x \<and> x \<le> 1)
   \<and> (\<forall>i j. i \<le> j \<longrightarrow> j < mp \<longrightarrow> row_accept_rates row ! i = None \<longrightarrow> row_accept_rates row ! j = None)
   \<and> 0 \<le> row_draft_tokens_per_proposal row \<and> row_draft_tokens_per_proposal row \<le> of_nat mp
   \<and> 0 \<le> row_acceptance_length row \<and> row_acceptance_length row \<le> row_draft_tokens_per_proposal row + 1
   \<and> 0 \<le> row_verify_rate row \<and> row_verify_rate row \<le> 1
   \<and> row_acceptance_length row = row_verify_rate row * (row_draft_tokens_per_proposal row + 1)"

lemma above_mono: "i \<le> j \<Longrightarrow> above j xs \<le> above i xs"
  by (induction xs) (auto simp: above_def)

lemma above_le:
  "\<forall>(a, p, d) \<in> set its. d \<le> p \<Longrightarrow> above pos (map (snd \<circ> snd) its) \<le> above pos (map (fst \<circ> snd) its)"
  by (induction its) (auto simp: above_def)

lemma sum_list_bounds:
  assumes "\<forall>(a, p, d) \<in> set its. d \<le> p \<and> p \<le> mp \<and> 1 \<le> a \<and> a \<le> d + (1 :: nat)"
  shows "sum_list (map (fst \<circ> snd) its) \<le> mp * length its"
    and "sum_list (map fst its) \<le> sum_list (map (fst \<circ> snd) its) + length its"
  using assms by (induction its) auto

lemma build_metrics_row_bounded:
  assumes its: "\<forall>(a, p, d) \<in> set its. d \<le> p \<and> p \<le> mp \<and> 1 \<le> a \<and> a \<le> d + 1"
  shows "row_bounded mp (build_metrics_row mp name (summary_of mp n its))"
proof (cases "its = []")
  case True
  then show ?thesis by (simp add: row_bounded_def build_metrics_row_def summary_of_def)
next
  case False
  define s where "s = summary_of mp n its"
  define c A P where "c = (of_nat (proposal_count s) :: rat)" and "A = (of_nat (acceptance_length_sum s) :: rat)"
    and "P = (of_nat (proposal_length_sum s) :: rat)"
  have pc: "proposal_count s = length its" "length its > 0" using False by (simp_all add: s_def summary_of_def)
  then have c: "c > 0" by (simp add: c_def)
  have P: "P \<le> of_nat mp * c" "A \<le> P + c" "P \<ge> 0" "A \<ge> 0"
    using sum_list_bounds [OF its] unfolding P_def A_def c_def s_def summary_of_def
    by (simp_all flip: of_nat_mult of_nat_add)
  have row: "build_metrics_row mp name s =
      \<lparr> row_dataset = name, row_num_samples = sample_count s, row_draft_tokens_per_proposal = P / c,
        row_acceptance_length = A / c, row_verify_rate = A / (P + c),
        row_accept_rates = map (position_accept_rate s) [0..<mp] \<rparr>"
    using pc by (simp add: build_metrics_row_def P_def A_def c_def)
  have rate: "case position_accept_rate s i of None \<Rightarrow> True | Some x \<Rightarrow> 0 \<le> x \<and> x \<le> 1" if "i < mp" for i
    using that above_le [of its i] its
    by (fastforce simp: position_accept_rate_def s_def summary_of_def divide_le_eq_1 split: option.splits)
  have gaps: "position_accept_rate s i = None \<longrightarrow> position_accept_rate s j = None" if "i \<le> j" "j < mp" for i j
    using that above_mono [of i j "map (fst \<circ> snd) its"] by (simp add: position_accept_rate_def s_def summary_of_def)
  have rates: "\<forall>rate \<in> set (map (position_accept_rate s) [0..<mp]). case rate of None \<Rightarrow> True | Some x \<Rightarrow> 0 \<le> x \<and> x \<le> 1"
    using rate by simp
  have order: "\<forall>i j. i \<le> j \<longrightarrow> j < mp \<longrightarrow> map (position_accept_rate s) [0..<mp] ! i = None \<longrightarrow> map (position_accept_rate s) [0..<mp] ! j = None"
    using gaps by simp
  have nums: "P / c \<le> of_nat mp" "A / c \<le> P / c + 1" "A / (P + c) \<le> 1"
    using P c by (simp_all add: field_simps)
  have "P + c \<noteq> 0" using P c by linarith
  moreover have "P / c + 1 = (P + c) / c" using c by (simp add: add_divide_distrib)
  ultimately have prod: "A / c = A / (P + c) * (P / c + 1)" by simp
  have signs: "0 \<le> P / c" "0 \<le> A / c" "0 \<le> A / (P + c)" using P c by simp_all
  show ?thesis
    unfolding s_def [symmetric] row row_bounded_def metrics_row.select_convs
    using rates order nums signs prod by (intro conjI) simp_all
qed

lemma tallied_iterations:
  "\<forall>rsp \<in> set rsps. tallied mp rsp \<Longrightarrow>
   \<forall>(a, p, d) \<in> set (concat (map iterations rsps)). d \<le> p \<and> p \<le> mp \<and> 1 \<le> a \<and> a \<le> d + 1"
  unfolding tallied_def set_concat set_map by blast

text \<open>The tasks that contribute a row: those whose selection is not empty.\<close>

definition reported :: "response eval_env \<Rightarrow> int \<Rightarrow> string \<times> nat option \<Rightarrow> (string \<times> nat) list" where
  "reported env seed task =
     (case load_selected_dataset env (fst task) (snd task) seed of
        Inl _ \<Rightarrow> [] | Inr ds \<Rightarrow> if ds = [] then [] else [(fst task, length ds)])"

lemma evaluate_task_report:
  assumes "sampler_ok env (tallied mp)" and "shuffles (rng_shuffle env)" and "0 < w"
    and "load_selected_dataset env (fst task) (snd task) seed = Inr ds"
  shows "\<exists>rows'. evaluate_task env stops seed mp w rows task = Inr (rows @ rows')
    \<and> map (\<lambda>row. (row_dataset row, row_num_samples row)) rows' = reported env seed task
    \<and> (\<forall>row \<in> set rows'. row_bounded mp row)"
proof -
  obtain name k where task: "task = (name, k)" by (cases task)
  with assms(4) have ld: "load_selected_dataset env name k seed = Inr ds" by simp
  obtain rsps where rsps: "length rsps = length ds" "\<forall>rsp \<in> set rsps. tallied mp rsp"
    and ev: "evaluate_task env stops seed mp w rows (name, k)
      = Inr (record_dataset_metrics 0 mp name (summary_of mp (length ds) (concat (map iterations rsps))) rows)"
    using evaluate_task_eq [OF ld assms(1,2)] assms(3) by metis
  let ?s = "summary_of mp (length ds) (concat (map iterations rsps))"
  have n: "sample_count (summary_of mp m its) = m" for m its by (simp add: summary_of_def)
  have row: "row_dataset (build_metrics_row mp name ?s) = name" "row_num_samples (build_metrics_row mp name ?s) = length ds"
    by (simp_all add: build_metrics_row_def n)
  have bd: "row_bounded mp (build_metrics_row mp name ?s)"
    by (rule build_metrics_row_bounded [OF tallied_iterations [OF rsps(2)]])
  show ?thesis
    using ev ld row bd
    by (cases "ds = []") (auto simp: task reported_def record_dataset_metrics_def n)
qed

lemma evaluate_report:
  assumes "sampler_ok env (tallied mp)" and "shuffles (rng_shuffle env)" and "0 < w"
    and "\<forall>task \<in> set tasks. \<exists>ds. load_selected_dataset env (fst task) (snd task) seed = Inr ds"
  shows "\<exists>rows'. foldE (evaluate_task env stops seed mp w) rows tasks = Inr (rows @ rows')
    \<and> map (\<lambda>row. (row_dataset row, row_num_samples row)) rows' = concat (map (reported env seed) tasks)
    \<and> (\<forall>row \<in> set rows'. row_bounded mp row)"
  using assms(4)
proof (induction tasks arbitrary: rows)
  case (Cons task tasks)
  then obtain ds where "load_selected_dataset env (fst task) (snd task) seed = Inr ds" by auto
  from evaluate_task_report [OF assms(1-3) this, of stops rows] obtain r1 where
    r1: "evaluate_task env stops seed mp w rows task = Inr (rows @ r1)"
      "map (\<lambda>row. (row_dataset row, row_num_samples row)) r1 = reported env seed task" "\<forall>row \<in> set r1. row_bounded mp row"
    by blast
  from Cons.IH [of "rows @ r1"] Cons.prems obtain r2 where
    r2: "foldE (evaluate_task env stops seed mp w) (rows @ r1) tasks = Inr ((rows @ r1) @ r2)"
      "map (\<lambda>row. (row_dataset row, row_num_samples row)) r2 = concat (map (reported env seed) tasks)"
      "\<forall>row \<in> set r2. row_bounded mp row"
    by auto
  show ?case
    using r1 r2 by (intro exI [of _ "r1 @ r2"]) auto
qed simp


section \<open>A concrete evaluation\<close>

definition toy_env :: "response eval_env" where
  "toy_env = \<lparr> dataset_files = (\<lambda>name. if name = ''gsm8k'' then Some [''a'', '' '', ''b'', ''c''] else None),
     json_loads = (\<lambda>s. Inr (JObj [(''id'', JNum 7), (''turns'', JList [JStr s, JStr ''more''])])),
     rng_shuffle = (\<lambda>_. rev), encode_chat = (\<lambda>s. [1]),
     generate_one_sample = block_generate_one_sample toy_runtime toy_drafter 4 2 (1/2) (\<lambda>_. ()) \<rparr>"

lemma toy_evaluation_setup: "evaluation_setup toy_runtime toy_drafter 4 2 (1/2) (\<lambda>_. ()) toy_env"
proof -
  have enc: "\<forall>content. encode_chat toy_env content \<noteq> [] \<and> set (encode_chat toy_env content) \<subseteq> {..<3}"
    by (simp add: toy_env_def)
  have "\<exists>H J K V. decoding_setup toy_runtime toy_drafter H J K V 2
      \<and> (\<forall>content. encode_chat toy_env content \<noteq> [] \<and> set (encode_chat toy_env content) \<subseteq> {..<V})"
    using toy_decoding_setup enc by blast
  then show ?thesis
    unfolding evaluation_setup_def by (simp add: shuffles_def) (simp add: toy_env_def)
qed

lemma toy_load:
  "load_selected_dataset toy_env ''gsm8k'' (Some 2) 0
     = Inr [JObj [(''id'', JNum 7), (''turns'', JList [JStr ''c''])], JObj [(''id'', JNum 7), (''turns'', JList [JStr ''b''])]]"
  by (simp add: toy_env_def load_selected_dataset_def load_and_process_dataset_def process_line_def py_strip_def is_space_def)

lemma toy_reported: "reported toy_env 0 (''gsm8k'', Some 2) = [(''gsm8k'', 2)]"
  by (simp add: reported_def toy_load)

theorem evaluation_rank_independent_witness:
  "evaluate toy_env (Some [7]) 0 2 3 [(''gsm8k'', Some 2)] = evaluate toy_env (Some [7]) 0 2 1 [(''gsm8k'', Some 2)]"
  using evaluation_rank_independent [OF toy_evaluation_setup, of 3 "Some [7]" 0 "[(''gsm8k'', Some 2)]"] by simp


end
