(* ===== verification/Radix_Key.thy ===== *)
theory Radix_Key
  imports Prelude "HOL-Library.Sublist"
begin

text \<open>
  The keys of the prefix cache (\<open>RadixKey\<close> of \<^verbatim>\<open>sglang/srt/mem_cache/radix_cache.py\<close>): a
  sequence of tokens, or of overlapping token pairs in the bigram view, in a namespace given
  by an extra key and a salt. The exponential search of \<open>match\<close> is proved to return the
  page-aligned longest common prefix, and the dictionary keys of children to identify the
  first page of a key.
\<close>

section \<open>Keys\<close>

record radix_key =
  rk_token_ids :: "int list"
  rk_extra_key :: "string option"
  rk_cache_salt :: "string option"
  rk_is_bigram :: bool
  rk_limit :: "nat option"

definition RadixKey :: "int list \<Rightarrow> string option \<Rightarrow> bool \<Rightarrow> nat option \<Rightarrow> string option \<Rightarrow> radix_key" where
  "RadixKey token_ids extra_key is_bigram limit cache_salt =
     \<lparr> rk_token_ids = token_ids, rk_extra_key = extra_key,
       rk_cache_salt = (if cache_salt = Some [] then None else cache_salt),
       rk_is_bigram = is_bigram, rk_limit = limit \<rparr>"

definition raw_len :: "radix_key \<Rightarrow> nat" where
  "raw_len k = (let n = length (rk_token_ids k) in
     case rk_limit k of Some l \<Rightarrow> if l < n then l else n | None \<Rightarrow> n)"

definition raw_token_ids :: "radix_key \<Rightarrow> int list" where
  "raw_token_ids k = (let n = raw_len k; t = rk_token_ids k in if n = length t then t else take n t)"

definition rk_len :: "radix_key \<Rightarrow> nat" where
  "rk_len k = (let n = raw_len k in if rk_is_bigram k then (if n > 0 then n - 1 else 0) else n)"

text \<open>The logical units \<open>__iter__\<close> yields.\<close>

datatype runit = Tok int | Big int int

definition rk_iter :: "radix_key \<Rightarrow> runit list" where
  "rk_iter k = (let t = rk_token_ids k; n = raw_len k in
     if rk_is_bigram k then map (\<lambda>i. Big (t ! i) (t ! (i + 1))) [0..<(if n > 0 then n - 1 else 0)]
     else if n = length t then map Tok t else map (\<lambda>i. Tok (t ! i)) [0..<n])"

text \<open>\<open>self[a:b]\<close> with non-negative bounds; the bounds are clipped to the logical length.\<close>

definition rk_slice :: "radix_key \<Rightarrow> nat \<Rightarrow> nat \<Rightarrow> radix_key" where
  "rk_slice k a b = (let start = min a (rk_len k); stop = min b (rk_len k) in
     if rk_is_bigram k
     then RadixKey (if stop > start then py_slice start (stop + 1) (rk_token_ids k) else []) (rk_extra_key k) True None (rk_cache_salt k)
     else RadixKey (py_slice start stop (rk_token_ids k)) (rk_extra_key k) False None (rk_cache_salt k))"

definition rk_from :: "radix_key \<Rightarrow> nat \<Rightarrow> radix_key" where
  "rk_from k a = rk_slice k a (rk_len k)"

text \<open>\<open>self[idx]\<close> for an integer.\<close>

definition rk_getitem :: "radix_key \<Rightarrow> int \<Rightarrow> radix_key res" where
  "rk_getitem k idx = (let idx = (if idx < 0 then idx + int (rk_len k) else idx) in
     if idx < 0 \<or> idx \<ge> int (rk_len k) then Inl IndexError
     else Inr (rk_slice k (nat idx) (nat idx + 1)))"

definition page_aligned :: "radix_key \<Rightarrow> nat \<Rightarrow> radix_key" where
  "page_aligned k page_size =
     (if page_size = 1 then k else rk_slice k 0 (rk_len k div page_size * page_size))"

definition maybe_to_bigram_view :: "radix_key \<Rightarrow> bool \<Rightarrow> 'v list option \<Rightarrow> radix_key \<times> 'v list option" where
  "maybe_to_bigram_view k is_eagle val =
     (if is_eagle \<and> \<not> rk_is_bigram k
      then let k' = k\<lparr> rk_is_bigram := True \<rparr> in (k', map_option (take (rk_len k')) val)
      else (k, val))"

definition check_compatible :: "radix_key \<Rightarrow> radix_key \<Rightarrow> unit res" where
  "check_compatible k other =
     bindE (check (rk_extra_key k = rk_extra_key other) ValueError) (\<lambda>_.
     check (rk_cache_salt k = rk_cache_salt other) ValueError)"

section \<open>Matching\<close>

text \<open>The binary search for the first difference in a window that holds one.\<close>

function bisect :: "int list \<Rightarrow> int list \<Rightarrow> nat \<Rightarrow> nat \<Rightarrow> nat" where
  "bisect t0 t1 lo hi =
     (if hi - lo > 1
      then let mid = (lo + hi) div 2 in
           if py_slice lo mid t0 = py_slice lo mid t1 then bisect t0 t1 mid hi else bisect t0 t1 lo mid
      else lo)"
  by pat_completeness auto
termination
  by (relation "measure (\<lambda>(t0, t1, lo, hi). hi - lo)") auto

declare bisect.simps [simp del]

text \<open>The exponential search; the window of the \<open>e\<close>-th round has \<open>step = 2 ^ e\<close> tokens.\<close>

function gallop :: "int list \<Rightarrow> int list \<Rightarrow> nat \<Rightarrow> nat \<Rightarrow> nat \<Rightarrow> nat" where
  "gallop t0 t1 n lo e =
     (if lo < n
      then let hi = (if lo + 2 ^ e < n then lo + 2 ^ e else n) in
           if py_slice lo hi t0 \<noteq> py_slice lo hi t1 then bisect t0 t1 lo hi
           else gallop t0 t1 n hi (Suc e)
      else n)"
  by pat_completeness auto
termination
proof (relation "measure (\<lambda>(t0, t1, n, lo, e). n - lo)")
  fix t0 t1 :: "int list" and n lo e x :: nat
  assume "lo < n" "x = (if lo + 2 ^ e < n then lo + 2 ^ e else n)"
  moreover have "(0 :: nat) < 2 ^ e" by simp
  ultimately have "lo < x" by (cases "lo + 2 ^ e < n") simp_all
  then show "((t0, t1, n, x, Suc e), t0, t1, n, lo, e) \<in> measure (\<lambda>(t0, t1, n, lo, e). n - lo)"
    using \<open>lo < n\<close> by simp
qed simp

declare gallop.simps [simp del]

definition rk_match :: "radix_key \<Rightarrow> radix_key \<Rightarrow> nat \<Rightarrow> nat res" where
  "rk_match k other page_size =
     bindE (check_compatible k other) (\<lambda>_.
     let t0 = rk_token_ids k; t1 = rk_token_ids other;
         n = min (length t0) (length t1);
         matched_tokens = gallop t0 t1 n 0 0
     in if rk_is_bigram k
        then let matched = min (matched_tokens - 1) (min (rk_len k) (rk_len other))
             in Inr (if page_size > 1 then matched div page_size * page_size else matched)
        else let matched_tokens = min matched_tokens (min (rk_len k) (rk_len other))
             in Inr (if page_size = 1 then matched_tokens else matched_tokens div page_size * page_size))"

section \<open>Dictionary keys of children\<close>

datatype plain_key = PTok int | PPair int int | PToks "int list" | PPairs "(int \<times> int) list"

datatype dict_key = Plain plain_key | Extra string plain_key | Salted "string option" string plain_key

definition plain_child_key :: "radix_key \<Rightarrow> nat \<Rightarrow> plain_key res" where
  "plain_child_key k page_size =
     (let t = rk_token_ids k in
      if rk_is_bigram k
      then if page_size = 1 then bindE (check (1 < length t) IndexError) (\<lambda>_. Inr (PPair (t ! 0) (t ! 1)))
           else bindE (check (page_size = 0 \<or> page_size < length t) IndexError) (\<lambda>_.
                Inr (PPairs (map (\<lambda>j. (t ! j, t ! (j + 1))) [0..<page_size])))
      else if page_size = 1 then bindE (check (0 < length t) IndexError) (\<lambda>_. Inr (PTok (t ! 0)))
           else Inr (PToks (take page_size t)))"

definition child_key :: "radix_key \<Rightarrow> nat \<Rightarrow> dict_key res" where
  "child_key k page_size =
     bindE (plain_child_key k page_size) (\<lambda>plain.
     Inr (case rk_cache_salt k of
            Some salt \<Rightarrow> Salted (rk_extra_key k) salt plain
          | None \<Rightarrow> (case rk_extra_key k of None \<Rightarrow> Plain plain | Some e \<Rightarrow> Extra e plain)))"

section \<open>Units\<close>

definition rk_ns :: "radix_key \<Rightarrow> string option \<times> string option" where
  "rk_ns k = (rk_extra_key k, rk_cache_salt k)"

lemma raw_len_le: "raw_len k \<le> length (rk_token_ids k)"
  by (simp add: raw_len_def Let_def split: option.splits)

lemma raw_token_ids_take: "raw_token_ids k = take (raw_len k) (rk_token_ids k)"
  by (simp add: raw_token_ids_def Let_def)

lemma length_rk_iter [simp]: "length (rk_iter k) = rk_len k"
  by (simp add: rk_iter_def rk_len_def Let_def)

lemma rk_iter_nth:
  "i < rk_len k \<Longrightarrow> rk_iter k ! i = (if rk_is_bigram k then Big (rk_token_ids k ! i) (rk_token_ids k ! (i + 1)) else Tok (rk_token_ids k ! i))"
  using raw_len_le [of k] by (auto simp: rk_iter_def rk_len_def Let_def split: if_splits)

text \<open>A key as the cache builds it: an empty salt is no salt.\<close>

definition rk_ok :: "radix_key \<Rightarrow> bool" where
  "rk_ok k \<longleftrightarrow> rk_cache_salt k \<noteq> Some []"

lemma RadixKey_simps [simp]:
  "rk_token_ids (RadixKey t e b l s) = t" "rk_extra_key (RadixKey t e b l s) = e" "rk_is_bigram (RadixKey t e b l s) = b"
  "rk_limit (RadixKey t e b l s) = l" "rk_cache_salt (RadixKey t e b l s) = (if s = Some [] then None else s)"
  "rk_ok (RadixKey t e b l s)"
  by (simp_all add: RadixKey_def rk_ok_def)

lemma rk_slice_simps [simp]:
  "rk_is_bigram (rk_slice k a b) = rk_is_bigram k" "rk_extra_key (rk_slice k a b) = rk_extra_key k" "rk_ok (rk_slice k a b)"
  "rk_ok k \<Longrightarrow> rk_cache_salt (rk_slice k a b) = rk_cache_salt k" "rk_ok k \<Longrightarrow> rk_ns (rk_slice k a b) = rk_ns k"
  by (simp_all add: rk_slice_def Let_def rk_ok_def rk_ns_def)

lemma raw_len_no_limit [simp]: "rk_limit k = None \<Longrightarrow> raw_len k = length (rk_token_ids k)"
  by (simp add: raw_len_def Let_def)

lemma rk_len_raw: "rk_len k = (if rk_is_bigram k then raw_len k - 1 else raw_len k)"
  by (simp add: rk_len_def Let_def)

lemma rk_slice_iter: "rk_iter (rk_slice k a b) = py_slice a b (rk_iter k)"
proof (rule nth_equalityI)
  let ?s = "min a (rk_len k)" and ?e = "min b (rk_len k)"
  have raw: "raw_len k \<le> length (rk_token_ids k)" by (rule raw_len_le)
  have e: "rk_is_bigram k \<Longrightarrow> ?s < ?e \<Longrightarrow> ?e + 1 \<le> length (rk_token_ids k)" "\<not> rk_is_bigram k \<Longrightarrow> ?e \<le> length (rk_token_ids k)"
    using raw by (auto simp: rk_len_raw)
  have len: "rk_len (rk_slice k a b) = ?e - ?s"
  proof (cases "rk_is_bigram k")
    case True
    show ?thesis
    proof (cases "?s < ?e")
      case lt: True
      have "length (py_slice ?s (?e + 1) (rk_token_ids k)) = ?e + 1 - ?s"
        unfolding length_py_slice using e(1) [OF True lt] by linarith
      then have "raw_len (rk_slice k a b) = ?e + 1 - ?s"
        using True lt unfolding rk_slice_def Let_def by (simp del: length_py_slice min_less_iff_conj)
      then show ?thesis using True lt by (simp add: rk_len_raw [of "rk_slice k a b"])
    next
      case ge: False
      then have "raw_len (rk_slice k a b) = 0" using True unfolding rk_slice_def Let_def by (simp del: min_less_iff_conj)
      moreover have "?e - ?s = 0" using ge by linarith
      ultimately show ?thesis using True by (simp add: rk_len_raw [of "rk_slice k a b"])
    qed
  next
    case False
    have "length (py_slice ?s ?e (rk_token_ids k)) = ?e - ?s"
      unfolding length_py_slice using e(2) [OF False] by linarith
    then have "raw_len (rk_slice k a b) = ?e - ?s" using False by (simp add: rk_slice_def Let_def del: length_py_slice)
    then show ?thesis using False by (simp add: rk_len_raw [of "rk_slice k a b"])
  qed
  then show "length (rk_iter (rk_slice k a b)) = length (py_slice a b (rk_iter k))" by (simp add: min_def)
  fix i assume "i < length (rk_iter (rk_slice k a b))"
  then have i: "i < ?e - ?s" using len by simp
  then have a: "?s = a" "a + i < b" "a + i < rk_len k" by auto
  then have "py_slice a b (rk_iter k) ! i = rk_iter k ! (a + i)" by (intro nth_py_slice) simp_all
  moreover have "rk_iter (rk_slice k a b) ! i = rk_iter k ! (a + i)"
  proof (cases "rk_is_bigram k")
    case True
    have "?s < ?e" using i by linarith
    note e1 = e(1) [OF True this]
    have "py_slice ?s (?e + 1) (rk_token_ids k) ! j = rk_token_ids k ! (?s + j)" if "j \<le> Suc i" for j
      by (rule nth_py_slice) (use that i e1 in linarith)+
    then have "py_slice ?s (?e + 1) (rk_token_ids k) ! j = rk_token_ids k ! (a + j)" if "j \<le> Suc i" for j
      using that a(1) by simp
    then show ?thesis using True i a len by (simp add: rk_iter_nth rk_slice_def Let_def)
  next
    case False
    have "py_slice ?s ?e (rk_token_ids k) ! i = rk_token_ids k ! (a + i)"
      using i e(2) [OF False] a(1) by (subst nth_py_slice) auto
    then show ?thesis using False i a len by (simp add: rk_iter_nth rk_slice_def Let_def)
  qed
  ultimately show "rk_iter (rk_slice k a b) ! i = py_slice a b (rk_iter k) ! i" by simp
qed

lemma rk_slice_len: "rk_len (rk_slice k a b) = min (b - a) (rk_len k - a)"
  using arg_cong [OF rk_slice_iter, of length k a b] by simp

lemma rk_from_iter: "rk_iter (rk_from k a) = drop a (rk_iter k)"
  by (simp add: rk_from_def rk_slice_iter py_slice_def)

lemma rk_from_simps [simp]:
  "rk_is_bigram (rk_from k a) = rk_is_bigram k" "rk_ok (rk_from k a)" "rk_ok k \<Longrightarrow> rk_ns (rk_from k a) = rk_ns k"
  "rk_len (rk_from k a) = rk_len k - a"
  by (simp_all add: rk_from_def rk_slice_len)

lemma page_aligned_iter:
  assumes "0 < ps"
  shows "rk_iter (page_aligned k ps) = take (rk_len k div ps * ps) (rk_iter k)"
  using assms by (simp add: page_aligned_def rk_slice_iter)

lemma page_aligned_simps [simp]:
  "rk_is_bigram (page_aligned k ps) = rk_is_bigram k" "rk_ok k \<Longrightarrow> rk_ok (page_aligned k ps)"
  "rk_ok k \<Longrightarrow> rk_ns (page_aligned k ps) = rk_ns k"
  by (simp_all add: page_aligned_def)

lemma page_aligned_len: "0 < ps \<Longrightarrow> rk_len (page_aligned k ps) = rk_len k div ps * ps"
  using arg_cong [OF page_aligned_iter, of ps length k] by (simp add: min_absorb2)

section \<open>The longest common prefix\<close>

fun lcp :: "'a list \<Rightarrow> 'a list \<Rightarrow> nat" where
  "lcp (x # xs) (y # ys) = (if x = y then Suc (lcp xs ys) else 0)"
| "lcp _ _ = 0"

lemma lcp_le: "lcp xs ys \<le> length xs" "lcp xs ys \<le> length ys"
  by (induction xs ys rule: lcp.induct) simp_all

lemma lcp_take: "take (lcp xs ys) xs = take (lcp xs ys) ys"
  by (induction xs ys rule: lcp.induct) simp_all

lemma lcp_eqI:
  assumes "r \<le> length xs" "r \<le> length ys" "\<And>i. i < r \<Longrightarrow> xs ! i = ys ! i"
    and "r < length xs \<Longrightarrow> r < length ys \<Longrightarrow> xs ! r \<noteq> ys ! r"
  shows "lcp xs ys = r"
  using assms
proof (induction xs ys arbitrary: r rule: lcp.induct)
  case (1 x xs y ys)
  show ?case
  proof (cases r)
    case 0
    then show ?thesis using 1(5) by simp
  next
    case (Suc r')
    then have "x = y" using 1(4) [of 0] by simp
    moreover have "lcp xs ys = r'" using 1(1) [OF \<open>x = y\<close>, of r'] 1(2,3,5) 1(4) [of "Suc _"] Suc by simp
    ultimately show ?thesis using Suc by simp
  qed
qed auto

lemma lcp_ge: "take m xs = take m ys \<Longrightarrow> m \<le> length xs \<Longrightarrow> m \<le> length ys \<Longrightarrow> m \<le> lcp xs ys"
proof (induction xs ys arbitrary: m rule: lcp.induct)
  case (1 x xs y ys)
  then show ?case by (cases m) auto
qed auto

lemma lcp_commute: "lcp xs ys = lcp ys xs"
  by (induction xs ys rule: lcp.induct) auto

lemma lcp_nth:
  "i < lcp xs ys \<Longrightarrow> xs ! i = ys ! i"
  "lcp xs ys < length xs \<Longrightarrow> lcp xs ys < length ys \<Longrightarrow> xs ! lcp xs ys \<noteq> ys ! lcp xs ys"
proof -
  show "i < lcp xs ys \<Longrightarrow> xs ! i = ys ! i" by (metis lcp_take nth_take)
  show "lcp xs ys < length xs \<Longrightarrow> lcp xs ys < length ys \<Longrightarrow> xs ! lcp xs ys \<noteq> ys ! lcp xs ys"
    by (induction xs ys rule: lcp.induct) auto
qed

lemma py_slice_eq_iff:
  assumes "b \<le> length xs" "b \<le> length ys"
  shows "py_slice a b xs = py_slice a b ys \<longleftrightarrow> (\<forall>i. a \<le> i \<and> i < b \<longrightarrow> xs ! i = ys ! i)"
proof
  assume eq: "py_slice a b xs = py_slice a b ys"
  show "\<forall>i. a \<le> i \<and> i < b \<longrightarrow> xs ! i = ys ! i"
  proof (intro allI impI)
    fix i assume i: "a \<le> i \<and> i < b"
    then have "i - a < b - a" by linarith
    then show "xs ! i = ys ! i"
      using nth_py_slice [of "i - a" b a xs] nth_py_slice [of "i - a" b a ys] eq assms i by simp
  qed
next
  assume "\<forall>i. a \<le> i \<and> i < b \<longrightarrow> xs ! i = ys ! i"
  then show "py_slice a b xs = py_slice a b ys" using assms by (intro nth_equalityI) (auto simp: nth_py_slice)
qed

lemma bisect_correct:
  assumes "hi \<le> length t0" "hi \<le> length t1" "lo < hi" "\<forall>i < lo. t0 ! i = t1 ! i" "\<exists>i. lo \<le> i \<and> i < hi \<and> t0 ! i \<noteq> t1 ! i"
  shows "bisect t0 t1 lo hi = lcp t0 t1"
  using assms
proof (induction t0 t1 lo hi rule: bisect.induct)
  case (1 t0 t1 lo hi)
  show ?case
  proof (cases "hi - lo > 1")
    case True
    define mid where "mid = (lo + hi) div 2"
    have mid: "lo < mid" "mid < hi" using True by (simp_all add: mid_def)
    have eq: "py_slice lo mid t0 = py_slice lo mid t1 \<longleftrightarrow> (\<forall>i. lo \<le> i \<and> i < mid \<longrightarrow> t0 ! i = t1 ! i)"
      using 1(3,4) mid by (intro py_slice_eq_iff) simp_all
    show ?thesis
    proof (cases "py_slice lo mid t0 = py_slice lo mid t1")
      case T: True
      then have "\<forall>i < mid. t0 ! i = t1 ! i" using eq 1(6) by (metis not_le)
      moreover from this have "\<exists>i. mid \<le> i \<and> i < hi \<and> t0 ! i \<noteq> t1 ! i" using 1(7) by (metis not_le)
      ultimately show ?thesis
        using 1(1) [OF True mid_def T] 1(3,4) mid T True by (subst bisect.simps) (simp add: mid_def Let_def)
    next
      case F: False
      then have "\<exists>i. lo \<le> i \<and> i < mid \<and> t0 ! i \<noteq> t1 ! i" using eq by blast
      then show ?thesis
        using 1(2) [OF True mid_def F] 1(3,4,6) mid F True by (subst bisect.simps) (simp add: mid_def Let_def)
    qed
  next
    case False
    then have hi: "hi = Suc lo" using 1(5) by simp
    then have "t0 ! lo \<noteq> t1 ! lo" using 1(7) by (metis le_antisym less_Suc_eq_le)
    then have "lcp t0 t1 = lo" using 1(3,4,6) hi by (intro lcp_eqI) simp_all
    then show ?thesis using False by (subst bisect.simps) simp
  qed
qed

lemma gallop_correct:
  assumes "n = min (length t0) (length t1)" "lo \<le> n" "\<forall>i < lo. t0 ! i = t1 ! i"
  shows "gallop t0 t1 n lo e = lcp t0 t1"
  using assms
proof (induction t0 t1 n lo e rule: gallop.induct)
  case (1 t0 t1 n lo e)
  show ?case
  proof (cases "lo < n")
    case True
    define hi where "hi = (if lo + 2 ^ e < n then lo + 2 ^ e else n)"
    have "(0 :: nat) < 2 ^ e" by simp
    then have hi: "lo < hi" "hi \<le> n" using True by (auto simp: hi_def)
    have eq: "py_slice lo hi t0 = py_slice lo hi t1 \<longleftrightarrow> (\<forall>i. lo \<le> i \<and> i < hi \<longrightarrow> t0 ! i = t1 ! i)"
      using 1(2) hi by (intro py_slice_eq_iff) simp_all
    have step: "gallop t0 t1 n lo e = (if py_slice lo hi t0 \<noteq> py_slice lo hi t1 then bisect t0 t1 lo hi else gallop t0 t1 n hi (Suc e))"
      using True by (subst gallop.simps) (simp add: hi_def Let_def)
    show ?thesis
    proof (cases "py_slice lo hi t0 = py_slice lo hi t1")
      case T: True
      then have "\<forall>i < hi. t0 ! i = t1 ! i" using eq 1(4) by (metis not_le)
      then show ?thesis using 1(1) [OF True hi_def] T 1(2) hi step by simp
    next
      case F: False
      then have "\<exists>i. lo \<le> i \<and> i < hi \<and> t0 ! i \<noteq> t1 ! i" using eq by blast
      then have "bisect t0 t1 lo hi = lcp t0 t1" using 1(2,4) hi by (intro bisect_correct) simp_all
      then show ?thesis using F step by simp
    qed
  next
    case False
    then have "lcp t0 t1 = n" using 1(2-4) by (intro lcp_eqI) auto
    then show ?thesis using False by (subst gallop.simps) simp
  qed
qed

lemma unit_span: "0 < rk_len k \<Longrightarrow> rk_len k + (if rk_is_bigram k then 1 else 0) \<le> length (rk_token_ids k)"
  using raw_len_le [of k] by (cases "rk_is_bigram k") (simp_all add: rk_len_raw)

lemma lcp_units:
  assumes "rk_is_bigram k = rk_is_bigram k'"
  shows "lcp (rk_iter k) (rk_iter k') =
    min (lcp (rk_token_ids k) (rk_token_ids k') - (if rk_is_bigram k then 1 else 0)) (min (rk_len k) (rk_len k'))" (is "_ = ?r")
proof (rule lcp_eqI)
  let ?m = "lcp (rk_token_ids k) (rk_token_ids k')"
  show "?r \<le> length (rk_iter k)" "?r \<le> length (rk_iter k')" by simp_all
  show "rk_iter k ! i = rk_iter k' ! i" if "i < ?r" for i
  proof -
    have i: "i < rk_len k" "i < rk_len k'" "i + (if rk_is_bigram k then 1 else 0) < ?m" using that by (auto split: if_splits)
    then show ?thesis using lcp_nth(1) [of i "rk_token_ids k" "rk_token_ids k'"] lcp_nth(1) [of "i + 1" "rk_token_ids k" "rk_token_ids k'"] assms
      by (auto simp: rk_iter_nth split: if_splits)
  qed
  show "rk_iter k ! ?r \<noteq> rk_iter k' ! ?r" if "?r < length (rk_iter k)" "?r < length (rk_iter k')"
  proof -
    have len: "?r < rk_len k" "?r < rk_len k'" using that by simp_all
    then have r: "?r = ?m - (if rk_is_bigram k then 1 else 0)" by linarith
    have raw: "rk_len k + (if rk_is_bigram k then 1 else 0) \<le> length (rk_token_ids k)" "rk_len k' + (if rk_is_bigram k then 1 else 0) \<le> length (rk_token_ids k')"
      using unit_span [of k] unit_span [of k'] assms len by (simp_all only: bot_nat_0.not_eq_extremum)
    have "?m < length (rk_token_ids k)" "?m < length (rk_token_ids k')" using raw r len by (auto split: if_splits)
    then have d: "rk_token_ids k ! ?m \<noteq> rk_token_ids k' ! ?m" by (rule lcp_nth(2))
    show ?thesis
    proof (cases "rk_is_bigram k \<and> ?m > 0")
      case True
      then have "?r + 1 = ?m" using r by simp
      then show ?thesis using len d True assms by (simp add: rk_iter_nth)
    next
      case False
      then have "?r = ?m" using r by auto
      then show ?thesis using len d assms by (simp add: rk_iter_nth)
    qed
  qed
qed

lemma rk_match_value:
  assumes "rk_is_bigram k = rk_is_bigram k'" and "0 < ps"
  shows "rk_match k k' ps = (if rk_ns k = rk_ns k' then Inr (lcp (rk_iter k) (rk_iter k') div ps * ps) else Inl ValueError)"
  using assms gallop_correct [of _ "rk_token_ids k" "rk_token_ids k'" 0 0] lcp_units [OF assms(1)]
  by (simp add: rk_match_def check_compatible_def check_def rk_ns_def Let_def)

text \<open>
  The exponential and binary search of \<open>match\<close> returns the longest common prefix of the
  two keys in logical units, plain tokens or bigrams, with any limits, rounded down to whole
  pages; it raises exactly if the keys are of different namespaces.
\<close>

theorem radix_match_spec:
  assumes "rk_is_bigram k = rk_is_bigram k'" and "0 < ps"
  shows "rk_match k k' ps = (if rk_ns k = rk_ns k' then Inr (lcp (rk_iter k) (rk_iter k') div ps * ps) else Inl ValueError)"
  using assms by (rule rk_match_value)

theorem radix_match_spec_witness:
  "rk_match (RadixKey [1, 2, 3, 4, 5] None True None None) (RadixKey [1, 2, 3, 4, 6] None True (Some 5) None) 2 = Inr 2"
  using radix_match_spec [of "RadixKey [1, 2, 3, 4, 5] None True None None" "RadixKey [1, 2, 3, 4, 6] None True (Some 5) None" 2]
  by (simp add: rk_ns_def rk_iter_def Let_def raw_len_def upt_rec)

section \<open>What a dictionary key identifies\<close>

lemma take_eq_nth: "n \<le> length xs \<Longrightarrow> n \<le> length ys \<Longrightarrow> take n xs = take n ys \<longleftrightarrow> (\<forall>i < n. xs ! i = ys ! i)"
  using py_slice_eq_iff [of n xs ys 0] by simp

lemma plain_child_key_value:
  assumes "0 < ps" and "ps \<le> rk_len k"
  shows "plain_child_key k ps = Inr (let t = rk_token_ids k in
     if rk_is_bigram k then if ps = 1 then PPair (t ! 0) (t ! 1) else PPairs (map (\<lambda>j. (t ! j, t ! (j + 1))) [0..<ps])
     else if ps = 1 then PTok (t ! 0) else PToks (take ps t))"
  using unit_span [of k] assms by (auto simp: plain_child_key_def Let_def check_def)

lemma plain_child_key_eq_iff:
  assumes "rk_is_bigram k = rk_is_bigram k'" "0 < ps" "ps \<le> rk_len k" "ps \<le> rk_len k'"
  shows "plain_child_key k ps = plain_child_key k' ps \<longleftrightarrow> take ps (rk_iter k) = take ps (rk_iter k')"
proof -
  have units: "take ps (rk_iter k) = take ps (rk_iter k') \<longleftrightarrow> (\<forall>i < ps. rk_iter k ! i = rk_iter k' ! i)"
    using assms(3,4) by (intro take_eq_nth) simp_all
  have raw: "ps \<le> length (rk_token_ids k)" "ps \<le> length (rk_token_ids k')" using unit_span [of k] unit_span [of k'] assms by auto
  show ?thesis
    using assms raw unfolding units plain_child_key_value [OF assms(2,3)] plain_child_key_value [OF assms(2,4)]
    by (auto simp: Let_def rk_iter_nth take_eq_nth map_eq_conv)
qed

lemma child_key_ok: "0 < ps \<Longrightarrow> ps \<le> rk_len k \<Longrightarrow> \<exists>c. child_key k ps = Inr c"
  by (simp add: child_key_def plain_child_key_value)

text \<open>Two keys have the same dictionary key exactly if their namespaces and first pages agree.\<close>

lemma child_key_eq_iff:
  assumes "rk_is_bigram k = rk_is_bigram k'" "0 < ps" "ps \<le> rk_len k" "ps \<le> rk_len k'"
  shows "child_key k ps = child_key k' ps \<longleftrightarrow> rk_ns k = rk_ns k' \<and> take ps (rk_iter k) = take ps (rk_iter k')"
proof -
  obtain p p' where p: "plain_child_key k ps = Inr p" "plain_child_key k' ps = Inr p'" using plain_child_key_value assms by blast
  have "p = p' \<longleftrightarrow> take ps (rk_iter k) = take ps (rk_iter k')" using plain_child_key_eq_iff [OF assms] p by simp
  then show ?thesis using p by (auto simp: child_key_def rk_ns_def split: option.splits)
qed

end
