(* ===== verification/Radix_Cache.thy ===== *)
theory Radix_Cache
  imports Radix_Key "HOL-Library.Multiset"
begin

text \<open>
  The prefix cache of the serving engine (\<open>TreeNode\<close> and \<open>RadixCache\<close> of
  \<^verbatim>\<open>sglang/srt/mem_cache/radix_cache.py\<close>, the strategies of \<^verbatim>\<open>evict_policy.py\<close> and
  \<open>get_eviction_strategy\<close> of \<^verbatim>\<open>utils.py\<close>). The nodes are objects with parent and child
  references that the operations mutate: a store from node ids to nodes. Loops over
  the tree take fuel, and the theorems show that enough fuel gives the result. Values
  are never \<open>None\<close> here (the hierarchical subclass evicts them), so \<open>evicted\<close> is false.
  Host copies, page hashes and the event recorder are left out.
\<close>

section \<open>Nodes\<close>

record tree_node =
  tn_children :: "(dict_key \<times> nat) list"
  tn_parent :: "nat option"
  tn_key :: radix_key
  tn_value :: "nat list"
  tn_lock_ref :: int
  tn_last_access_time :: int
  tn_creation_time :: int
  tn_hit_count :: nat
  tn_priority :: int

text \<open>\<open>rc_clk i\<close> is the \<open>i\<close>-th reading of \<open>time.monotonic()\<close>, \<open>rc_tick\<close> the number of readings so far.\<close>

record radix_cache =
  rc_nodes :: "nat \<Rightarrow> tree_node"
  rc_counter :: nat
  rc_root :: nat
  rc_evictable_size :: int
  rc_protected_size :: int
  rc_evictable_leaves :: "nat list"
  rc_disable :: bool
  rc_page_size :: nat
  rc_is_eagle :: bool
  rc_clk :: "nat \<Rightarrow> int"
  rc_tick :: nat

definition upd :: "radix_cache \<Rightarrow> nat \<Rightarrow> (tree_node \<Rightarrow> tree_node) \<Rightarrow> radix_cache" where
  "upd s n f = s\<lparr> rc_nodes := (rc_nodes s)(n := f (rc_nodes s n)) \<rparr>"

definition monotonic :: "radix_cache \<Rightarrow> int \<times> radix_cache" where
  "monotonic s = (rc_clk s (rc_tick s), s\<lparr> rc_tick := Suc (rc_tick s) \<rparr>)"

definition empty_key :: radix_key where
  "empty_key = RadixKey [] None False None None"

text \<open>\<open>TreeNode(priority=...)\<close>: the id of the new node and the state that holds it.\<close>

definition new_tree_node :: "radix_cache \<Rightarrow> int \<Rightarrow> nat \<times> radix_cache" where
  "new_tree_node s priority =
     (let (t1, s1) = monotonic s; (t2, s2) = monotonic s1; n = rc_counter s2 in
      (n, s2\<lparr> rc_nodes := (rc_nodes s2)(n := \<lparr> tn_children = [], tn_parent = None, tn_key = empty_key, tn_value = [],
                tn_lock_ref = 0, tn_last_access_time = t1, tn_creation_time = t2, tn_hit_count = 0, tn_priority = priority \<rparr>),
             rc_counter := Suc n \<rparr>))"

definition maxsize :: int where
  "maxsize = 2 ^ 63 - 1"

definition radix_reset :: "radix_cache \<Rightarrow> radix_cache" where
  "radix_reset s =
     (let (r, s1) = new_tree_node s (- maxsize)
      in (upd s1 r (\<lambda>nd. nd\<lparr> tn_key := RadixKey [] None False None None, tn_value := [], tn_lock_ref := 1 \<rparr>))
           \<lparr> rc_root := r, rc_evictable_size := 0, rc_protected_size := 0, rc_evictable_leaves := [] \<rparr>)"

definition update_leaf_status :: "radix_cache \<Rightarrow> nat \<Rightarrow> radix_cache" where
  "update_leaf_status s n =
     (if tn_lock_ref (rc_nodes s n) > 0 then s\<lparr> rc_evictable_leaves := removeAll n (rc_evictable_leaves s) \<rparr>
      else if tn_children (rc_nodes s n) \<noteq> [] then s\<lparr> rc_evictable_leaves := removeAll n (rc_evictable_leaves s) \<rparr>
      else if n \<notin> set (rc_evictable_leaves s) then s\<lparr> rc_evictable_leaves := rc_evictable_leaves s @ [n] \<rparr> else s)"

section \<open>Matching and inserting\<close>

definition split_node :: "radix_cache \<Rightarrow> radix_key \<Rightarrow> nat \<Rightarrow> nat \<Rightarrow> (nat \<times> radix_cache) res" where
  "split_node s key child split_len =
     (let c = rc_nodes s child; (w, s1) = new_tree_node s (tn_priority c) in
      bindE (child_key (rk_from key split_len) (rc_page_size s)) (\<lambda>ck.
      let s2 = upd s1 w (\<lambda>nd. nd\<lparr> tn_hit_count := tn_hit_count c, tn_children := [(ck, child)], tn_parent := tn_parent c,
                 tn_lock_ref := tn_lock_ref c, tn_key := rk_slice (tn_key c) 0 split_len, tn_value := take split_len (tn_value c) \<rparr>);
          s3 = upd s2 child (\<lambda>nd. nd\<lparr> tn_parent := Some w, tn_key := rk_from (tn_key c) split_len, tn_value := drop split_len (tn_value c) \<rparr>)
      in case tn_parent c of
           None \<Rightarrow> Inl AttributeError
         | Some p \<Rightarrow> bindE (child_key key (rc_page_size s)) (\<lambda>pk.
             Inr (w, upd s3 p (\<lambda>nd. nd\<lparr> tn_children := AList.update pk w (tn_children nd) \<rparr>)))))"

definition touch :: "radix_cache \<Rightarrow> nat \<Rightarrow> int \<Rightarrow> radix_cache" where
  "touch s n t = upd s n (\<lambda>nd. nd\<lparr> tn_last_access_time := t \<rparr>)"

text \<open>The loop of \<open>_match_prefix_helper\<close>; \<open>vals\<close> is the list of matched values so far.\<close>

fun match_loop :: "nat \<Rightarrow> radix_cache \<Rightarrow> int \<Rightarrow> nat \<Rightarrow> radix_key \<Rightarrow> dict_key \<Rightarrow> nat list list
    \<Rightarrow> (nat list list \<times> nat \<times> radix_cache) res option" where
  "match_loop 0 s t node key ck vals = None"
| "match_loop (Suc fuel) s t node key ck vals =
     (if rk_len key > 0 \<and> map_of (tn_children (rc_nodes s node)) ck \<noteq> None
      then let child = the (map_of (tn_children (rc_nodes s node)) ck); s1 = touch s child t; c = rc_nodes s1 child in
        (case rk_match (tn_key c) key (rc_page_size s) of
           Inl e \<Rightarrow> Some (Inl e)
         | Inr prefix_len \<Rightarrow>
             if prefix_len < rk_len (tn_key c)
             then Some (bindE (split_node s1 (tn_key c) child prefix_len) (\<lambda>(w, s2).
                    Inr (vals @ [tn_value (rc_nodes s2 w)], w, s2)))
             else let key' = rk_from key prefix_len in
               if rk_len key' > 0
               then (case child_key key' (rc_page_size s) of
                       Inl e \<Rightarrow> Some (Inl e)
                     | Inr ck' \<Rightarrow> match_loop fuel s1 t child key' ck' (vals @ [tn_value c]))
               else match_loop fuel s1 t child key' ck (vals @ [tn_value c]))
      else Some (Inr (vals, node, s)))"

definition match_prefix_helper :: "radix_cache \<Rightarrow> nat \<Rightarrow> radix_key \<Rightarrow> (nat list list \<times> nat \<times> radix_cache) res option" where
  "match_prefix_helper s node key =
     (let (t, s1) = monotonic s; s2 = touch s1 node t in
      case child_key key (rc_page_size s) of
        Inl e \<Rightarrow> Some (Inl e)
      | Inr ck \<Rightarrow> match_loop (Suc (rk_len key)) s2 t node key ck [])"

definition match_prefix :: "radix_cache \<Rightarrow> radix_key \<Rightarrow> (nat list \<times> nat \<times> radix_cache) res option" where
  "match_prefix s key0 =
     (let key1 = fst (maybe_to_bigram_view key0 (rc_is_eagle s) (None :: nat list option)) in
      if rc_disable s \<or> rk_len key1 = 0 then Some (Inr ([], rc_root s, s))
      else let key = page_aligned key1 (rc_page_size s) in
        if rk_len key = 0 then Some (Inr ([], rc_root s, s))
        else map_option (\<lambda>r. bindE r (\<lambda>(vals, last_node, s'). Inr (concat vals, last_node, s')))
               (match_prefix_helper s (rc_root s) key))"

definition inc_hit_count :: "radix_cache \<Rightarrow> nat \<Rightarrow> bool \<Rightarrow> radix_cache" where
  "inc_hit_count s n chunked = (if chunked then s else upd s n (\<lambda>nd. nd\<lparr> tn_hit_count := Suc (tn_hit_count nd) \<rparr>))"

definition raise_priority :: "radix_cache \<Rightarrow> nat \<Rightarrow> int \<Rightarrow> radix_cache" where
  "raise_priority s n priority = upd s n (\<lambda>nd. nd\<lparr> tn_priority := max (tn_priority nd) priority \<rparr>)"

text \<open>The loop of \<open>_insert_helper\<close>: the matched length, the node reached, the rest of the key and of the value.\<close>

fun insert_loop :: "nat \<Rightarrow> radix_cache \<Rightarrow> int \<Rightarrow> int \<Rightarrow> bool \<Rightarrow> nat \<Rightarrow> radix_key \<Rightarrow> nat list \<Rightarrow> dict_key \<Rightarrow> nat
    \<Rightarrow> (nat \<times> nat \<times> radix_key \<times> nat list \<times> dict_key \<times> radix_cache) res option" where
  "insert_loop 0 s t priority chunked node key val ck total_len = None"
| "insert_loop (Suc fuel) s t priority chunked node key val ck total_len =
     (if rk_len key > 0 \<and> map_of (tn_children (rc_nodes s node)) ck \<noteq> None
      then let node = the (map_of (tn_children (rc_nodes s node)) ck); s1 = touch s node t; c = rc_nodes s1 node in
        (case rk_match (tn_key c) key (rc_page_size s) of
           Inl e \<Rightarrow> Some (Inl e)
         | Inr prefix_len \<Rightarrow>
             let key' = rk_from key prefix_len; val' = drop prefix_len val;
                 r = (if prefix_len < rk_len (tn_key c) then split_node s1 (tn_key c) node prefix_len else Inr (node, s1))
             in case r of
                  Inl e \<Rightarrow> Some (Inl e)
                | Inr (node', s2) \<Rightarrow>
                    let s3 = inc_hit_count (raise_priority s2 node' priority) node' chunked in
                    if rk_len key' > 0
                    then (case child_key key' (rc_page_size s) of
                            Inl e \<Rightarrow> Some (Inl e)
                          | Inr ck' \<Rightarrow> insert_loop fuel s3 t priority chunked node' key' val' ck' (total_len + prefix_len))
                    else insert_loop fuel s3 t priority chunked node' key' val' ck (total_len + prefix_len))
      else Some (Inr (total_len, node, key, val, ck, s)))"

text \<open>The end of \<open>_insert_helper\<close>: a new leaf for the rest of the key.\<close>

definition add_leaf :: "radix_cache \<Rightarrow> int \<Rightarrow> bool \<Rightarrow> nat \<Rightarrow> radix_key \<Rightarrow> nat list \<Rightarrow> dict_key \<Rightarrow> nat \<times> radix_cache" where
  "add_leaf s priority chunked node key val ck =
     (let (w, s1) = new_tree_node s priority;
          s2 = upd s1 w (\<lambda>nd. nd\<lparr> tn_parent := Some node, tn_key := key, tn_value := val \<rparr>);
          s3 = inc_hit_count s2 w chunked;
          s4 = upd s3 node (\<lambda>nd. nd\<lparr> tn_children := AList.update ck w (tn_children nd) \<rparr>);
          s5 = s4\<lparr> rc_evictable_size := rc_evictable_size s4 + int (rk_len key) \<rparr>
      in (w, update_leaf_status (update_leaf_status s5 node) w))"

definition insert_helper :: "radix_cache \<Rightarrow> nat \<Rightarrow> radix_key \<Rightarrow> nat list \<Rightarrow> int \<Rightarrow> bool \<Rightarrow> (nat \<times> nat \<times> radix_cache) res option" where
  "insert_helper s node key val priority chunked =
     (let (t, s1) = monotonic s; s2 = raise_priority (touch s1 node t) node priority in
      if rk_len key = 0 then Some (Inr (0, node, s2))
      else case child_key key (rc_page_size s) of
          Inl e \<Rightarrow> Some (Inl e)
        | Inr ck \<Rightarrow> map_option (\<lambda>r. bindE r (\<lambda>(total_len, node', key', val', ck', s3).
            Inr (if rk_len key' > 0 then let (w, s4) = add_leaf s3 priority chunked node' key' val' ck' in (total_len, w, s4)
                 else (total_len, node', s3))))
            (insert_loop (Suc (rk_len key)) s2 t priority chunked node key val ck 0))"

definition radix_insert :: "radix_cache \<Rightarrow> radix_key \<Rightarrow> nat list option \<Rightarrow> int \<Rightarrow> bool \<Rightarrow> (nat \<times> nat option \<times> radix_cache) res option" where
  "radix_insert s key0 val0 priority chunked =
     (if rc_disable s then Some (Inr (0, None, s))
      else let (key1, val1) = maybe_to_bigram_view key0 (rc_is_eagle s) val0;
               key = page_aligned key1 (rc_page_size s);
               val = (case val1 of Some v \<Rightarrow> take (rk_len key) v | None \<Rightarrow> map nat (take (rk_len key) (rk_token_ids key)))
           in map_option (\<lambda>r. bindE r (\<lambda>(prefix_len, last_node, s'). Inr (prefix_len, Some last_node, s')))
                (insert_helper s (rc_root s) key val priority chunked))"

section \<open>Locks\<close>

fun inc_lock_loop :: "nat \<Rightarrow> radix_cache \<Rightarrow> nat \<Rightarrow> int \<Rightarrow> (int \<times> radix_cache) res option" where
  "inc_lock_loop 0 s node delta = None"
| "inc_lock_loop (Suc fuel) s node delta =
     (if node = rc_root s then Some (Inr (delta, s))
      else let l = int (rk_len (tn_key (rc_nodes s node)));
               free = (tn_lock_ref (rc_nodes s node) = 0);
               s1 = (if free then s\<lparr> rc_evictable_size := rc_evictable_size s - l, rc_protected_size := rc_protected_size s + l \<rparr> else s);
               s2 = upd s1 node (\<lambda>nd. nd\<lparr> tn_lock_ref := tn_lock_ref nd + 1 \<rparr>);
               s3 = update_leaf_status s2 node
           in case tn_parent (rc_nodes s3 node) of
                None \<Rightarrow> Some (Inl AttributeError)
              | Some p \<Rightarrow> inc_lock_loop fuel s3 p (if free then delta - l else delta))"

definition inc_lock_ref :: "radix_cache \<Rightarrow> nat \<Rightarrow> (int \<times> radix_cache) res option" where
  "inc_lock_ref s node = (if rc_disable s then Some (Inr (0, s)) else inc_lock_loop (Suc (rc_counter s)) s node 0)"

fun dec_lock_loop :: "nat \<Rightarrow> radix_cache \<Rightarrow> nat \<Rightarrow> int \<Rightarrow> (int \<times> radix_cache) res option" where
  "dec_lock_loop 0 s node delta = None"
| "dec_lock_loop (Suc fuel) s node delta =
     (if node = rc_root s then Some (Inr (delta, s))
      else let l = int (rk_len (tn_key (rc_nodes s node)));
               last = (tn_lock_ref (rc_nodes s node) = 1);
               s1 = (if last then s\<lparr> rc_evictable_size := rc_evictable_size s + l, rc_protected_size := rc_protected_size s - l \<rparr> else s);
               s2 = upd s1 node (\<lambda>nd. nd\<lparr> tn_lock_ref := tn_lock_ref nd - 1 \<rparr>);
               s3 = update_leaf_status s2 node
           in case tn_parent (rc_nodes s3 node) of
                None \<Rightarrow> Some (Inl AssertionError)
              | Some p \<Rightarrow> dec_lock_loop fuel s3 p (if last then delta + l else delta))"

definition dec_lock_ref :: "radix_cache \<Rightarrow> nat \<Rightarrow> (int \<times> radix_cache) res option" where
  "dec_lock_ref s node = (if rc_disable s then Some (Inr (0, s)) else dec_lock_loop (Suc (rc_counter s)) s node 0)"

section \<open>Eviction\<close>

datatype strategy = LRU | LFU | FIFO | MRU | FILO | PriorityStrategy | SLRU nat

text \<open>A priority is a number or a tuple of numbers, compared as Python compares them.\<close>

fun get_priority :: "strategy \<Rightarrow> tree_node \<Rightarrow> int list" where
  "get_priority LRU nd = [tn_last_access_time nd]"
| "get_priority LFU nd = [int (tn_hit_count nd), tn_last_access_time nd]"
| "get_priority FIFO nd = [tn_creation_time nd]"
| "get_priority MRU nd = [- tn_last_access_time nd]"
| "get_priority FILO nd = [- tn_creation_time nd]"
| "get_priority PriorityStrategy nd = [tn_priority nd, tn_last_access_time nd]"
| "get_priority (SLRU protected_threshold) nd = [if tn_hit_count nd \<ge> protected_threshold then 1 else 0, tn_last_access_time nd]"

definition lower_char :: "char \<Rightarrow> char" where
  "lower_char c = (let n = of_char c :: nat in if 65 \<le> n \<and> n \<le> 90 then char_of (n + 32) else c)"

definition get_eviction_strategy :: "string \<Rightarrow> strategy res" where
  "get_eviction_strategy eviction_policy =
     (let policy = map lower_char eviction_policy in
      if policy = ''lru'' then Inr LRU
      else if policy = ''lfu'' then Inr LFU
      else if policy = ''fifo'' then Inr FIFO
      else if policy = ''mru'' then Inr MRU
      else if policy = ''filo'' then Inr FILO
      else if policy = ''priority'' then Inr PriorityStrategy
      else if policy = ''slru'' then Inr (SLRU 2)
      else Inl ValueError)"

fun tuple_less :: "int list \<Rightarrow> int list \<Rightarrow> bool" where
  "tuple_less (x # xs) (y # ys) \<longleftrightarrow> x < y \<or> x = y \<and> tuple_less xs ys"
| "tuple_less [] (y # ys) \<longleftrightarrow> True"
| "tuple_less xs [] \<longleftrightarrow> False"

text \<open>Heap entries compare by priority and then, as \<open>TreeNode.__lt__\<close>, by access time.\<close>

definition entry_less :: "radix_cache \<Rightarrow> int list \<times> nat \<Rightarrow> int list \<times> nat \<Rightarrow> bool" where
  "entry_less s a b \<longleftrightarrow> tuple_less (fst a) (fst b)
     \<or> fst a = fst b \<and> tn_last_access_time (rc_nodes s (snd a)) < tn_last_access_time (rc_nodes s (snd b))"

text \<open>\<open>heapq\<close> as a bag: \<open>heappop\<close> takes out an entry that no other is below.\<close>

definition heappop :: "('a \<Rightarrow> 'a \<Rightarrow> bool) \<Rightarrow> 'a list \<Rightarrow> 'a \<times> 'a list" where
  "heappop lt h = (let m = foldl (\<lambda>m y. if lt y m then y else m) (hd h) (tl h) in (m, remove1 m h))"

definition delete_leaf :: "radix_cache \<Rightarrow> nat \<Rightarrow> radix_cache res" where
  "delete_leaf s n =
     (case tn_parent (rc_nodes s n) of
        None \<Rightarrow> Inl AttributeError
      | Some p \<Rightarrow>
          bindE (child_key (tn_key (rc_nodes s n)) (rc_page_size s)) (\<lambda>ck.
          let v = map_of (tn_children (rc_nodes s p)) ck;
              s1 = upd s p (\<lambda>nd. nd\<lparr> tn_children := AList.delete ck (tn_children nd) \<rparr>)
          in bindE (check (v = Some n) AssertionError) (\<lambda>_.
             let s2 = s1\<lparr> rc_evictable_size := rc_evictable_size s1 - int (rk_len (tn_key (rc_nodes s1 n))),
                          rc_evictable_leaves := removeAll n (rc_evictable_leaves s1) \<rparr>
             in Inr (update_leaf_status s2 p))))"

text \<open>\<open>fs\<close> is the \<open>free_segment\<close> of the allocator, \<open>al\<close> its state.\<close>

fun evict_loop :: "nat \<Rightarrow> strategy \<Rightarrow> ('al \<Rightarrow> nat list \<Rightarrow> nat \<Rightarrow> 'al res) \<Rightarrow> nat \<Rightarrow> radix_cache \<Rightarrow> 'al \<Rightarrow> (int list \<times> nat) list \<Rightarrow> nat
    \<Rightarrow> (nat \<times> radix_cache \<times> 'al) res option" where
  "evict_loop 0 strat fs num_tokens s al heap num_evicted = None"
| "evict_loop (Suc fuel) strat fs num_tokens s al heap num_evicted =
     (if num_evicted < num_tokens \<and> heap \<noteq> []
      then let ((_, x), heap1) = heappop (entry_less s) heap in
        (case bindE (fs al (tn_value (rc_nodes s x)) 0) (\<lambda>al1. bindE (delete_leaf s x) (\<lambda>s1. Inr (al1, s1))) of
           Inl e \<Rightarrow> Some (Inl e)
         | Inr (al1, s1) \<Rightarrow>
             (case tn_parent (rc_nodes s1 x) of
                None \<Rightarrow> Some (Inl AttributeError)
              | Some p \<Rightarrow>
                  let heap2 = (if tn_children (rc_nodes s1 p) = [] \<and> tn_lock_ref (rc_nodes s1 p) = 0
                               then heap1 @ [(get_priority strat (rc_nodes s1 p), p)] else heap1)
                  in evict_loop fuel strat fs num_tokens s1 al1 heap2 (num_evicted + length (tn_value (rc_nodes s x)))))
      else Some (Inr (num_evicted, s, al)))"

definition evict :: "strategy \<Rightarrow> ('al \<Rightarrow> nat list \<Rightarrow> nat \<Rightarrow> 'al res) \<Rightarrow> radix_cache \<Rightarrow> 'al \<Rightarrow> nat \<Rightarrow> (nat \<times> radix_cache \<times> 'al) res option" where
  "evict strat fs s al num_tokens =
     (if rc_disable s then Some (Inr (0, s, al))
      else evict_loop (Suc (rc_counter s)) strat fs num_tokens s al
             (map (\<lambda>n. (get_priority strat (rc_nodes s n), n)) (rc_evictable_leaves s)) 0)"

end
