(* ===== verification/Radix_Tree.thy ===== *)
theory Radix_Tree
  imports Radix_Cache
begin

text \<open>
  The shape of the prefix cache: which nodes the root reaches, the keys and values along
  paths, the invariant of the parent and child references, and what splitting a node,
  adding a leaf and deleting a leaf do to paths. The cache is read as the partial map from
  prefixes to slots that \<open>holds\<close> describes.
\<close>

section \<open>Paths\<close>

definition edge :: "radix_cache \<Rightarrow> nat \<Rightarrow> nat \<Rightarrow> bool" where
  "edge s p c \<longleftrightarrow> c \<in> snd ` set (tn_children (rc_nodes s p))"

inductive reach :: "radix_cache \<Rightarrow> nat \<Rightarrow> bool" for s where
  reach_root: "reach s (rc_root s)"
| reach_step: "reach s p \<Longrightarrow> edge s p c \<Longrightarrow> reach s c"

inductive rpath :: "radix_cache \<Rightarrow> nat \<Rightarrow> nat \<Rightarrow> runit list \<Rightarrow> nat list \<Rightarrow> bool" for s p where
  rpath_refl: "rpath s p p [] []"
| rpath_step: "rpath s p m us vs \<Longrightarrow> edge s m c \<Longrightarrow> rpath s p c (us @ rk_iter (tn_key (rc_nodes s c))) (vs @ tn_value (rc_nodes s c))"

definition child_ok :: "radix_cache \<Rightarrow> nat \<Rightarrow> dict_key \<Rightarrow> nat \<Rightarrow> bool" where
  "child_ok s n k c \<longleftrightarrow> (let key = tn_key (rc_nodes s c) in
     tn_parent (rc_nodes s c) = Some n \<and> child_key key (rc_page_size s) = Inr k \<and> rk_ok key \<and> rk_is_bigram key = rc_is_eagle s
     \<and> 0 < rk_len key \<and> rc_page_size s dvd rk_len key \<and> length (tn_value (rc_nodes s c)) = rk_len key
     \<and> (n \<noteq> rc_root s \<longrightarrow> rk_ns key = rk_ns (tn_key (rc_nodes s n))))"

definition tree_ok :: "radix_cache \<Rightarrow> bool" where
  "tree_ok s \<longleftrightarrow> 0 < rc_page_size s \<and> tn_parent (rc_nodes s (rc_root s)) = None
     \<and> (\<forall>n. reach s n \<longrightarrow> n < rc_counter s \<and> distinct (map fst (tn_children (rc_nodes s n)))
          \<and> (\<forall>(k, c) \<in> set (tn_children (rc_nodes s n)). child_ok s n k c))"

lemma edge_child_ok:
  assumes "tree_ok s" and "reach s p" and "edge s p c"
  obtains k where "child_ok s p k c" and "map_of (tn_children (rc_nodes s p)) k = Some c"
proof -
  obtain k where "(k, c) \<in> set (tn_children (rc_nodes s p))" using assms(3) by (auto simp: edge_def)
  moreover from this have "child_ok s p k c" "map_of (tn_children (rc_nodes s p)) k = Some c"
    using assms(1,2) by (auto simp: tree_ok_def)
  ultimately show ?thesis using that by blast
qed

lemma edge_facts:
  assumes "tree_ok s" and "reach s p" and "edge s p c"
  shows "tn_parent (rc_nodes s c) = Some p" "0 < rk_len (tn_key (rc_nodes s c))" "rc_page_size s dvd rk_len (tn_key (rc_nodes s c))"
    "length (tn_value (rc_nodes s c)) = rk_len (tn_key (rc_nodes s c))" "c \<noteq> rc_root s" "rk_ok (tn_key (rc_nodes s c))"
    "rk_is_bigram (tn_key (rc_nodes s c)) = rc_is_eagle s" "p \<noteq> rc_root s \<longrightarrow> rk_ns (tn_key (rc_nodes s c)) = rk_ns (tn_key (rc_nodes s p))"
    "rc_page_size s \<le> rk_len (tn_key (rc_nodes s c))"
proof -
  obtain k where k: "child_ok s p k c" using edge_child_ok [OF assms] by blast
  then show f: "tn_parent (rc_nodes s c) = Some p" "0 < rk_len (tn_key (rc_nodes s c))" "rc_page_size s dvd rk_len (tn_key (rc_nodes s c))"
    "length (tn_value (rc_nodes s c)) = rk_len (tn_key (rc_nodes s c))" "rk_ok (tn_key (rc_nodes s c))"
    "rk_is_bigram (tn_key (rc_nodes s c)) = rc_is_eagle s" "p \<noteq> rc_root s \<longrightarrow> rk_ns (tn_key (rc_nodes s c)) = rk_ns (tn_key (rc_nodes s p))"
    by (simp_all add: child_ok_def Let_def)
  show "rc_page_size s \<le> rk_len (tn_key (rc_nodes s c))" using f(2,3) by (simp add: dvd_imp_le)
  show "c \<noteq> rc_root s" using f(1) assms(1) by (auto simp: tree_ok_def)
qed

lemma rpath_reach: "rpath s p n us vs \<Longrightarrow> reach s p \<Longrightarrow> reach s n"
  by (induction rule: rpath.induct) (auto intro: reach_step)

lemma reach_rpath:
  assumes "reach s n"
  shows "\<exists>us vs. rpath s (rc_root s) n us vs"
  using assms by induction (auto intro: rpath_refl rpath_step)

lemma rpath_trans: "rpath s m n us' vs' \<Longrightarrow> rpath s p m us vs \<Longrightarrow> rpath s p n (us @ us') (vs @ vs')"
proof (induction rule: rpath.induct)
  case (rpath_step n us' vs' c)
  then show ?case using rpath.rpath_step [of s p n "us @ us'" "vs @ vs'" c] by simp
qed simp

lemma rpath_edge: "edge s p c \<Longrightarrow> rpath s p c (rk_iter (tn_key (rc_nodes s c))) (tn_value (rc_nodes s c))"
  using rpath_step [OF rpath_refl, of s p c] by simp

text \<open>A path is a first edge and a path from there.\<close>

lemma rpath_first:
  assumes "rpath s p n us vs"
  shows "n = p \<and> us = [] \<and> vs = [] \<or> (\<exists>c us' vs'. edge s p c \<and> rpath s c n us' vs'
     \<and> us = rk_iter (tn_key (rc_nodes s c)) @ us' \<and> vs = tn_value (rc_nodes s c) @ vs')"
  using assms
proof (induction rule: rpath.induct)
  case (rpath_step m us vs c)
  show ?case
  proof (cases "m = p \<and> us = [] \<and> vs = []")
    case True
    then show ?thesis using rpath_step(2) by (intro disjI2 exI [of _ c] exI [of _ "[]"]) (simp add: rpath_refl)
  next
    case False
    then obtain d us' vs' where d: "edge s p d" "rpath s d m us' vs'" "us = rk_iter (tn_key (rc_nodes s d)) @ us'" "vs = tn_value (rc_nodes s d) @ vs'"
      using rpath_step.IH by blast
    then show ?thesis using rpath.rpath_step [OF d(2) rpath_step(2)] by (intro disjI2 exI conjI) (auto intro: rpath.rpath_step)
  qed
qed simp

lemma rpath_lengths:
  assumes "tree_ok s" and "reach s p" and "rpath s p n us vs"
  shows "length vs = length us" "rc_page_size s dvd length us" "n = p \<or> 0 < length us" "n \<noteq> p \<longrightarrow> n \<noteq> rc_root s"
proof -
  have "length vs = length us \<and> rc_page_size s dvd length us \<and> (n = p \<or> 0 < length us) \<and> (n \<noteq> p \<longrightarrow> n \<noteq> rc_root s) \<and> reach s n"
    using assms(3)
  proof (induction rule: rpath.induct)
    case (rpath_step m us vs c)
    then have m: "reach s m" by blast
    show ?case using edge_facts [OF assms(1) m rpath_step(2)] rpath_step(2,3) m by (auto intro: reach_step)
  qed (use assms(2) in simp)
  then show "length vs = length us" "rc_page_size s dvd length us" "n = p \<or> 0 < length us" "n \<noteq> p \<longrightarrow> n \<noteq> rc_root s" by auto
qed

lemma root_path_unique:
  assumes "tree_ok s" and "rpath s (rc_root s) n us vs" and "rpath s (rc_root s) n us' vs'"
  shows "us = us' \<and> vs = vs'"
  using assms(2,3)
proof (induction arbitrary: us' vs' rule: rpath.induct)
  case rpath_refl
  from rpath_refl show ?case
  proof cases
    case (rpath_step m us vs)
    have "reach s m" using rpath_reach [OF rpath_step(3)] reach_root by blast
    then show ?thesis using edge_facts(5) [OF assms(1) _ rpath_step(4)] by simp
  qed simp
next
  case (rpath_step m us vs c)
  have m: "reach s m" using rpath_reach [OF rpath_step(1)] reach_root by blast
  note c = edge_facts [OF assms(1) m rpath_step(2)]
  from rpath_step(4) show ?case
  proof cases
    case rpath_refl
    then show ?thesis using c(5) by simp
  next
    case (rpath_step m' us0 vs0)
    have m': "reach s m'" using rpath_reach [OF rpath_step(3)] reach_root by blast
    have "m' = m" using edge_facts(1) [OF assms(1) m' rpath_step(4)] c(1) by simp
    then show ?thesis using \<open>\<And>us' vs'. rpath s (rc_root s) m us' vs' \<Longrightarrow> us = us' \<and> vs = vs'\<close> rpath_step by blast
  qed
qed

lemma child_unique_key:
  assumes "tree_ok s" and "reach s p" and "(k, c) \<in> set (tn_children (rc_nodes s p))" and "(k', c) \<in> set (tn_children (rc_nodes s p))"
  shows "k = k'"
proof -
  have "child_ok s p k c" "child_ok s p k' c" using assms by (auto simp: tree_ok_def)
  then show ?thesis by (simp add: child_ok_def Let_def)
qed

lemma edge_irrefl:
  assumes "tree_ok s" and "reach s p" and "edge s p c"
  shows "p \<noteq> c"
proof
  assume "p = c"
  obtain us vs where u: "rpath s (rc_root s) p us vs" using reach_rpath [OF assms(2)] by blast
  then have "rpath s (rc_root s) p (us @ rk_iter (tn_key (rc_nodes s c))) (vs @ tn_value (rc_nodes s c))"
    using rpath_step [OF u assms(3)] \<open>p = c\<close> by simp
  then have "us = us @ rk_iter (tn_key (rc_nodes s c))" using root_path_unique [OF assms(1) u] by blast
  then have "rk_iter (tn_key (rc_nodes s c)) = []" by simp
  then show False using edge_facts(2) [OF assms] by (metis length_rk_iter list.size(3) less_irrefl)
qed

lemma reach_counter: "tree_ok s \<Longrightarrow> reach s n \<Longrightarrow> n < rc_counter s"
  by (simp add: tree_ok_def)

section \<open>States of the same shape\<close>

definition same_shape :: "radix_cache \<Rightarrow> radix_cache \<Rightarrow> bool" where
  "same_shape s s' \<longleftrightarrow> rc_root s' = rc_root s \<and> rc_counter s' = rc_counter s \<and> rc_page_size s' = rc_page_size s
     \<and> rc_is_eagle s' = rc_is_eagle s \<and> (\<forall>n. tn_children (rc_nodes s' n) = tn_children (rc_nodes s n)
       \<and> tn_parent (rc_nodes s' n) = tn_parent (rc_nodes s n) \<and> tn_key (rc_nodes s' n) = tn_key (rc_nodes s n)
       \<and> tn_value (rc_nodes s' n) = tn_value (rc_nodes s n))"

lemma same_shape_refl [simp]: "same_shape s s"
  by (simp add: same_shape_def)

lemma same_shape_trans: "same_shape s s' \<Longrightarrow> same_shape s' s'' \<Longrightarrow> same_shape s s''"
  by (simp add: same_shape_def)

lemma same_shape_sym: "same_shape s s' \<Longrightarrow> same_shape s' s"
  by (simp add: same_shape_def)

lemma shape_edge: "same_shape s s' \<Longrightarrow> edge s' p c = edge s p c"
  by (simp add: same_shape_def edge_def)

lemma shape_reach1: "reach s n \<Longrightarrow> same_shape s s' \<Longrightarrow> reach s' n"
proof (induction rule: reach.induct)
  case reach_root
  then show ?case using reach.reach_root [of s'] by (simp add: same_shape_def)
next
  case (reach_step p c)
  then show ?case using reach.reach_step [of s' p c] shape_edge [of s s'] by simp
qed

lemma shape_reach: "same_shape s s' \<Longrightarrow> reach s' n = reach s n"
  using shape_reach1 same_shape_sym by blast

lemma shape_rpath1: "rpath s p n us vs \<Longrightarrow> same_shape s s' \<Longrightarrow> rpath s' p n us vs"
proof (induction rule: rpath.induct)
  case (rpath_step m us vs c)
  then show ?case using rpath.rpath_step [of s' p m us vs c] shape_edge [of s s'] by (simp add: same_shape_def)
qed (rule rpath_refl)

lemma shape_rpath: "same_shape s s' \<Longrightarrow> rpath s' p n us vs = rpath s p n us vs"
  using shape_rpath1 same_shape_sym by blast

lemma shape_tree_ok: "same_shape s s' \<Longrightarrow> tree_ok s' = tree_ok s"
  using shape_reach [of s s'] by (simp add: tree_ok_def child_ok_def same_shape_def)

lemma shape_upd:
  assumes "\<And>nd. tn_children (f nd) = tn_children nd \<and> tn_parent (f nd) = tn_parent nd \<and> tn_key (f nd) = tn_key nd \<and> tn_value (f nd) = tn_value nd"
  shows "same_shape s (upd s n f)"
  using assms by (simp add: same_shape_def upd_def)

lemma shape_touch [simp]: "same_shape s (touch s n t)"
  unfolding touch_def by (rule shape_upd) simp

lemma shape_raise_priority [simp]: "same_shape s (raise_priority s n p)"
  unfolding raise_priority_def by (rule shape_upd) simp

lemma shape_inc_hit_count [simp]: "same_shape s (inc_hit_count s n b)"
  unfolding inc_hit_count_def by (simp add: shape_upd)

lemma shape_update_leaf_status [simp]: "same_shape s (update_leaf_status s n)"
  by (simp add: same_shape_def update_leaf_status_def)

section \<open>The map a cache holds\<close>

text \<open>
  \<open>holds s ns us vs\<close>: in namespace \<open>ns\<close> the key/value slots of the tokens \<open>us\<close> are \<open>vs\<close>.
\<close>

definition holds :: "radix_cache \<Rightarrow> string option \<times> string option \<Rightarrow> runit list \<Rightarrow> nat list \<Rightarrow> bool" where
  "holds s ns us vs \<longleftrightarrow> (\<exists>n us' vs'. n \<noteq> rc_root s \<and> rpath s (rc_root s) n us' vs' \<and> rk_ns (tn_key (rc_nodes s n)) = ns
     \<and> prefix us us' \<and> vs = take (length us) vs')"

lemma holdsI:
  "n \<noteq> rc_root s \<Longrightarrow> rpath s (rc_root s) n us' vs' \<Longrightarrow> rk_ns (tn_key (rc_nodes s n)) = ns \<Longrightarrow> prefix us us'
    \<Longrightarrow> vs = take (length us) vs' \<Longrightarrow> holds s ns us vs"
  unfolding holds_def by blast

lemma shape_holds: "same_shape s s' \<Longrightarrow> holds s' = holds s"
proof (intro ext)
  fix ns us vs
  assume sh: "same_shape s s'"
  then have "rc_root s' = rc_root s" "\<And>n. tn_key (rc_nodes s' n) = tn_key (rc_nodes s n)" by (simp_all add: same_shape_def)
  then show "holds s' ns us vs = holds s ns us vs" unfolding holds_def by (simp add: shape_rpath [OF sh])
qed

section \<open>Splitting a node\<close>

definition splits :: "radix_cache \<Rightarrow> nat \<Rightarrow> nat \<Rightarrow> nat \<Rightarrow> radix_cache \<Rightarrow> bool" where
  "splits s p c m s' \<longleftrightarrow> (let w = rc_counter s; key = tn_key (rc_nodes s c); val = tn_value (rc_nodes s c) in
     rc_root s' = rc_root s \<and> rc_counter s' = Suc w \<and> rc_page_size s' = rc_page_size s \<and> rc_is_eagle s' = rc_is_eagle s
     \<and> (\<forall>n. n \<noteq> w \<and> n \<noteq> c \<and> n \<noteq> p \<longrightarrow> rc_nodes s' n = rc_nodes s n)
     \<and> (\<exists>k ck. (k, c) \<in> set (tn_children (rc_nodes s p)) \<and> child_key key (rc_page_size s) = Inr k \<and> child_key (rk_from key m) (rc_page_size s) = Inr ck
         \<and> tn_children (rc_nodes s' p) = AList.update k w (tn_children (rc_nodes s p))
         \<and> tn_children (rc_nodes s' w) = [(ck, c)])
     \<and> tn_parent (rc_nodes s' p) = tn_parent (rc_nodes s p) \<and> tn_key (rc_nodes s' p) = tn_key (rc_nodes s p) \<and> tn_value (rc_nodes s' p) = tn_value (rc_nodes s p)
     \<and> tn_children (rc_nodes s' c) = tn_children (rc_nodes s c) \<and> tn_parent (rc_nodes s' c) = Some w
     \<and> tn_key (rc_nodes s' c) = rk_from key m \<and> tn_value (rc_nodes s' c) = drop m val
     \<and> tn_parent (rc_nodes s' w) = Some p \<and> tn_key (rc_nodes s' w) = rk_slice key 0 m \<and> tn_value (rc_nodes s' w) = take m val
     \<and> (\<forall>n. n \<noteq> w \<longrightarrow> tn_lock_ref (rc_nodes s' n) = tn_lock_ref (rc_nodes s n)) \<and> tn_lock_ref (rc_nodes s' w) = tn_lock_ref (rc_nodes s c)
     \<and> rc_evictable_size s' = rc_evictable_size s \<and> rc_protected_size s' = rc_protected_size s \<and> rc_evictable_leaves s' = rc_evictable_leaves s
     \<and> rc_disable s' = rc_disable s)"

lemma split_node_splits:
  assumes "tree_ok s" and "reach s p" and "edge s p c" and "rc_page_size s \<le> rk_len (tn_key (rc_nodes s c)) - m"
  shows "\<exists>s'. split_node s (tn_key (rc_nodes s c)) c m = Inr (rc_counter s, s') \<and> splits s p c m s'"
proof -
  note f = edge_facts [OF assms(1-3)]
  obtain k where k: "child_ok s p k c" "map_of (tn_children (rc_nodes s p)) k = Some c" using edge_child_ok [OF assms(1-3)] by blast
  have ps: "0 < rc_page_size s" using assms(1) by (simp add: tree_ok_def)
  obtain ck where ck: "child_key (rk_from (tn_key (rc_nodes s c)) m) (rc_page_size s) = Inr ck"
    using child_key_ok [OF ps, of "rk_from (tn_key (rc_nodes s c)) m"] assms(4) by auto
  have kk: "child_key (tn_key (rc_nodes s c)) (rc_page_size s) = Inr k" using k(1) by (simp add: child_ok_def Let_def)
  have w: "p \<noteq> rc_counter s" "c \<noteq> rc_counter s" "p \<noteq> c"
    using reach_counter [OF assms(1)] assms(2) reach_step [OF assms(2,3)] edge_irrefl [OF assms(1-3)] by auto
  show ?thesis
    using ck kk f(1) w map_of_SomeD [OF k(2)]
    unfolding split_node_def splits_def Let_def new_tree_node_def monotonic_def upd_def by auto
qed

lemma set_alist_update: "distinct (map fst xs) \<Longrightarrow> set (AList.update k v xs) = {x \<in> set xs. fst x \<noteq> k} \<union> {(k, v)}"
proof (induction xs)
  case (Cons x xs)
  show ?case
  proof (cases "fst x = k")
    case True
    then have "k \<notin> fst ` set xs" using Cons.prems by auto
    then have "\<forall>y \<in> set xs. fst y \<noteq> k" by blast
    then show ?thesis using True by (cases x) auto
  qed (use Cons in \<open>cases x, auto\<close>)
qed simp

lemma splits_simps:
  assumes "splits s p c m s'"
  shows "rc_root s' = rc_root s" "rc_counter s' = Suc (rc_counter s)" "rc_page_size s' = rc_page_size s" "rc_is_eagle s' = rc_is_eagle s"
  using assms by (simp_all add: splits_def Let_def)

lemma split_edges:
  assumes "tree_ok s" and "reach s p" and "edge s p c" and sp: "splits s p c m s'"
  shows "edge s' q d \<longleftrightarrow> (if q = rc_counter s then d = c else if q = p then d = rc_counter s \<or> d \<noteq> c \<and> edge s p d else edge s q d)"
proof -
  have ok: "distinct (map fst (tn_children (rc_nodes s p)))" using assms(1,2) by (simp add: tree_ok_def)
  obtain k ck where k: "(k, c) \<in> set (tn_children (rc_nodes s p))"
      "tn_children (rc_nodes s' p) = AList.update k (rc_counter s) (tn_children (rc_nodes s p))"
      "tn_children (rc_nodes s' (rc_counter s)) = [(ck, c)]"
    using sp by (auto simp: splits_def Let_def)
  have "d \<in> snd ` {x \<in> set (tn_children (rc_nodes s p)). fst x \<noteq> k} \<longleftrightarrow> d \<noteq> c \<and> edge s p d"
  proof -
    have "a = k \<longleftrightarrow> b = c" if "(a, b) \<in> set (tn_children (rc_nodes s p))" for a b
      using that k(1) child_unique_key [OF assms(1,2)] ok by (metis map_of_eq_Some_iff option.inject)
    then show ?thesis by (force simp: edge_def)
  qed
  then have "edge s' p d \<longleftrightarrow> d = rc_counter s \<or> d \<noteq> c \<and> edge s p d"
    unfolding edge_def [of s'] k(2) set_alist_update [OF ok] image_Un by auto
  moreover have "edge s' (rc_counter s) d \<longleftrightarrow> d = c" unfolding edge_def k(3) by auto
  moreover have "edge s' q d = edge s q d" if "q \<noteq> rc_counter s" "q \<noteq> p"
  proof -
    have "tn_children (rc_nodes s' q) = tn_children (rc_nodes s q)" using that sp by (cases "q = c") (simp_all add: splits_def Let_def)
    then show ?thesis by (simp add: edge_def)
  qed
  ultimately show ?thesis by auto
qed

lemma split_labels:
  assumes "splits s p c m s'" and "n \<noteq> rc_counter s" and "n \<noteq> c"
  shows "tn_key (rc_nodes s' n) = tn_key (rc_nodes s n)" "tn_value (rc_nodes s' n) = tn_value (rc_nodes s n)" "tn_parent (rc_nodes s' n) = tn_parent (rc_nodes s n)"
  using assms by (cases "n = p"; simp add: splits_def Let_def)+

text \<open>Paths after a split: as before, and the new node in the middle of the edge.\<close>

lemma split_path_new:
  assumes "tree_ok s" and "reach s p" and "edge s p c" and sp: "splits s p c m s'" and "rpath s' (rc_root s) n us vs"
  shows "if n = rc_counter s
    then \<exists>us0 vs0. rpath s (rc_root s) p us0 vs0 \<and> us = us0 @ take m (rk_iter (tn_key (rc_nodes s c))) \<and> vs = vs0 @ take m (tn_value (rc_nodes s c))
    else rpath s (rc_root s) n us vs"
  using assms(5)
proof (induction rule: rpath.induct)
  case rpath_refl
  have "rc_root s \<noteq> rc_counter s" using reach_counter [OF assms(1) reach_root] by simp
  then show ?case by (simp add: rpath.rpath_refl)
next
  case (rpath_step q us vs d)
  let ?w = "rc_counter s"
  have lab: "tn_key (rc_nodes s' c) = rk_from (tn_key (rc_nodes s c)) m" "tn_value (rc_nodes s' c) = drop m (tn_value (rc_nodes s c))"
    "tn_key (rc_nodes s' ?w) = rk_slice (tn_key (rc_nodes s c)) 0 m" "tn_value (rc_nodes s' ?w) = take m (tn_value (rc_nodes s c))"
    using sp by (simp_all add: splits_def Let_def)
  have nw: "c \<noteq> ?w" "p \<noteq> ?w" using reach_counter [OF assms(1)] assms(2) reach_step [OF assms(2,3)] by auto
  note e = split_edges [OF assms(1-3) sp, of q d]
  consider (w) "q = ?w" | (p) "q = p" "d = ?w" | (old) "q \<noteq> ?w" "edge s q d" "\<not> (q = p \<and> d = c)"
    using e rpath_step(2) nw by (auto split: if_splits)
  then show ?case
  proof cases
    case w
    then have "d = c" using e rpath_step(2) by simp
    obtain us0 vs0 where u: "rpath s (rc_root s) p us0 vs0" "us = us0 @ take m (rk_iter (tn_key (rc_nodes s c)))" "vs = vs0 @ take m (tn_value (rc_nodes s c))"
      using rpath_step.IH w by auto
    then show ?thesis using rpath.rpath_step [OF u(1) assms(3)] \<open>d = c\<close> nw by (simp add: lab rk_from_iter)
  next
    case p
    then have "rpath s (rc_root s) p us vs" using rpath_step.IH nw by simp
    then show ?thesis using p by (auto simp: lab rk_slice_iter)
  next
    case old
    have q: "rpath s (rc_root s) q us vs" using rpath_step.IH old(1) by simp
    have rq: "reach s q" using rpath_reach [OF q] reach_root by blast
    have "d \<noteq> c" using old edge_facts(1) [OF assms(1) rq old(2)] edge_facts(1) [OF assms(1-3)] by auto
    moreover have "d \<noteq> ?w" using reach_counter [OF assms(1) reach_step [OF rq old(2)]] by simp
    ultimately show ?thesis using rpath.rpath_step [OF q old(2)] split_labels [OF sp] by simp
  qed
qed

lemma split_path_old:
  assumes "tree_ok s" and "reach s p" and "edge s p c" and sp: "splits s p c m s'" and "rpath s (rc_root s) n us vs"
  shows "rpath s' (rc_root s) n us vs"
  using assms(5)
proof (induction rule: rpath.induct)
  case (rpath_step q us vs d)
  let ?w = "rc_counter s"
  have lab: "tn_key (rc_nodes s' c) = rk_from (tn_key (rc_nodes s c)) m" "tn_value (rc_nodes s' c) = drop m (tn_value (rc_nodes s c))"
    "tn_key (rc_nodes s' ?w) = rk_slice (tn_key (rc_nodes s c)) 0 m" "tn_value (rc_nodes s' ?w) = take m (tn_value (rc_nodes s c))"
    using sp by (simp_all add: splits_def Let_def)
  have rq: "reach s q" using rpath_reach [OF rpath_step(1)] reach_root by blast
  have lt: "q \<noteq> ?w" "d \<noteq> ?w" "p \<noteq> ?w" "c \<noteq> ?w" using reach_counter [OF assms(1)] rq reach_step [OF rq rpath_step(2)] assms(2) reach_step [OF assms(2,3)] by auto
  note e = split_edges [OF assms(1-3) sp]
  show ?case
  proof (cases "q = p \<and> d = c")
    case True
    have "edge s' p ?w" "edge s' ?w c" using e lt by auto
    then show ?thesis
      using rpath.rpath_step [OF rpath.rpath_step [OF rpath_step.IH, of ?w], of c] True by (simp add: lab rk_slice_iter rk_from_iter)
  next
    case False
    then have "d \<noteq> c" using edge_facts(1) [OF assms(1) rq rpath_step(2)] edge_facts(1) [OF assms(1-3)] by auto
    then have "edge s' q d" using e [of q d] lt rpath_step(2) by auto
    then show ?thesis using rpath.rpath_step [OF rpath_step.IH, of d] split_labels [OF sp lt(2) \<open>d \<noteq> c\<close>] by simp
  qed
qed (rule rpath.rpath_refl)

lemma split_reach:
  assumes "tree_ok s" and "reach s p" and "edge s p c" and "splits s p c m s'"
  shows "reach s' n \<longleftrightarrow> reach s n \<or> n = rc_counter s"
proof
  assume "reach s' n"
  then obtain us vs where "rpath s' (rc_root s') n us vs" using reach_rpath by blast
  then have "rpath s' (rc_root s) n us vs" using splits_simps [OF assms(4)] by simp
  then show "reach s n \<or> n = rc_counter s"
    using split_path_new [OF assms] rpath_reach reach_root by (metis (no_types))
next
  have r: "reach s' k" if k: "reach s k" for k
  proof -
    obtain us vs where "rpath s (rc_root s) k us vs" using reach_rpath [OF k] by blast
    then have "rpath s' (rc_root s') k us vs" using split_path_old [OF assms] splits_simps [OF assms(4)] by simp
    then show ?thesis using rpath_reach reach_root by blast
  qed
  have "edge s' p (rc_counter s)" using split_edges [OF assms, of p "rc_counter s"] reach_counter [OF assms(1,2)] by auto
  then have "reach s' (rc_counter s)" using reach_step r [OF assms(2)] by blast
  then show "reach s n \<or> n = rc_counter s \<Longrightarrow> reach s' n" using r by blast
qed

text \<open>A split at a page boundary strictly inside the key keeps the invariant and what the cache holds.\<close>

lemma split_child_keys:
  assumes "tree_ok s" and "reach s p" and "edge s p c" and "splits s p c m s'"
    and m: "0 < m" "m < rk_len (tn_key (rc_nodes s c))" "rc_page_size s dvd m"
  shows "child_key (rk_slice (tn_key (rc_nodes s c)) 0 m) (rc_page_size s) = child_key (tn_key (rc_nodes s c)) (rc_page_size s)"
proof -
  let ?k = "tn_key (rc_nodes s c)" and ?ps = "rc_page_size s"
  note f = edge_facts [OF assms(1-3)]
  have ps: "0 < ?ps" "?ps \<le> m" using assms(1) m by (auto simp: tree_ok_def dvd_imp_le)
  have "take ?ps (rk_iter (rk_slice ?k 0 m)) = take ?ps (rk_iter ?k)" using ps by (simp add: rk_slice_iter)
  then show ?thesis using child_key_eq_iff [of "rk_slice ?k 0 m" ?k ?ps] f(6,9) ps m(2) by (simp add: rk_slice_len)
qed

lemma split_tree_ok:
  assumes ok: "tree_ok s" and p: "reach s p" and pc: "edge s p c" and sp: "splits s p c m s'"
    and m: "0 < m" "m < rk_len (tn_key (rc_nodes s c))" "rc_page_size s dvd m"
  shows "tree_ok s'"
proof -
  let ?w = "rc_counter s" and ?k = "tn_key (rc_nodes s c)" and ?ps = "rc_page_size s"
  note f = edge_facts [OF ok p pc] and st = splits_simps [OF sp] and r = split_reach [OF ok p pc sp]
  have c: "reach s c" by (rule reach_step [OF p pc])
  have nw: "c \<noteq> ?w" "p \<noteq> ?w" "p \<noteq> c" using reach_counter [OF ok] p c edge_irrefl [OF ok p pc] by auto
  have lab: "tn_key (rc_nodes s' c) = rk_from ?k m" "tn_value (rc_nodes s' c) = drop m (tn_value (rc_nodes s c))" "tn_parent (rc_nodes s' c) = Some ?w"
    "tn_key (rc_nodes s' ?w) = rk_slice ?k 0 m" "tn_value (rc_nodes s' ?w) = take m (tn_value (rc_nodes s c))" "tn_parent (rc_nodes s' ?w) = Some p"
    using sp by (simp_all add: splits_def Let_def)
  obtain k ck where k: "(k, c) \<in> set (tn_children (rc_nodes s p))" "child_key ?k ?ps = Inr k" "child_key (rk_from ?k m) ?ps = Inr ck"
      "tn_children (rc_nodes s' p) = AList.update k ?w (tn_children (rc_nodes s p))" "tn_children (rc_nodes s' ?w) = [(ck, c)]"
    using sp by (auto simp: splits_def Let_def)
  have nsn: "rk_ns (tn_key (rc_nodes s' n)) = rk_ns (tn_key (rc_nodes s n))" if "n \<noteq> ?w" for n
    using that f(6) split_labels(1) [OF sp] lab(1) by (cases "n = c") simp_all
  have old: "child_ok s' n k' d" if n: "reach s n" and d: "(k', d) \<in> set (tn_children (rc_nodes s n))" and dc: "d \<noteq> c" for n k' d
  proof -
    have "d \<noteq> ?w" "n \<noteq> ?w" using reach_counter [OF ok] n reach_step [OF n, of d] d by (force simp: edge_def)+
    then show ?thesis using n d ok split_labels [OF sp _ dc] nsn [of n] st by (auto simp: tree_ok_def child_ok_def Let_def)
  qed
  have cw: "child_ok s' ?w ck c" using lab f k(3) st m nw by (simp add: child_ok_def Let_def dvd_diff_nat)
  have pw: "child_ok s' p k ?w"
    using lab f st m nw k(2) split_child_keys [OF ok p pc sp m] nsn [of p] nw by (simp add: child_ok_def Let_def rk_slice_len)
  have "distinct (map fst (tn_children (rc_nodes s' n))) \<and> (\<forall>(k', d) \<in> set (tn_children (rc_nodes s' n)). child_ok s' n k' d)" if n: "reach s' n" for n
  proof -
    consider "n = ?w" | "n = p" | "n \<noteq> ?w" "n \<noteq> p" "reach s n" using r n by blast
    then show ?thesis
    proof cases
      case 1
      then show ?thesis using cw k(5) by simp
    next
      case 2
      have dis: "distinct (map fst (tn_children (rc_nodes s p)))" using ok p by (simp add: tree_ok_def)
      have "child_ok s' p k' d" if kd: "(k', d) \<in> set (AList.update k ?w (tn_children (rc_nodes s p)))" for k' d
      proof (cases "k' = k")
        case True
        then show ?thesis using kd pw unfolding set_alist_update [OF dis] by auto
      next
        case False
        then have "(k', d) \<in> set (tn_children (rc_nodes s p))" using kd unfolding set_alist_update [OF dis] by auto
        moreover from this have "d \<noteq> c" using False k(1) child_unique_key [OF ok p] by blast
        ultimately show ?thesis using old [OF p] by blast
      qed
      then show ?thesis using 2 k(4) dis by (auto simp: distinct_update)
    next
      case 3
      then have ch: "tn_children (rc_nodes s' n) = tn_children (rc_nodes s n)" using sp by (cases "n = c") (simp_all add: splits_def Let_def)
      have "d \<noteq> c" if "(k', d) \<in> set (tn_children (rc_nodes s n))" for k' d
        using that edge_facts(1) [OF ok 3(3), of d] f(1) 3(2) by (force simp: edge_def)
      then show ?thesis using old [OF 3(3)] ok 3(3) unfolding ch by (auto simp: tree_ok_def)
    qed
  qed
  moreover have "tn_parent (rc_nodes s' (rc_root s)) = None"
  proof -
    have "rc_root s \<noteq> ?w" "rc_root s \<noteq> c" using reach_counter [OF ok reach_root] f(5) by auto
    then show ?thesis using split_labels(3) [OF sp] ok by (simp add: tree_ok_def)
  qed
  ultimately show ?thesis using ok st r reach_counter [OF ok] unfolding tree_ok_def by (auto simp: less_Suc_eq)
qed

lemma split_holds:
  assumes ok: "tree_ok s" and p: "reach s p" and pc: "edge s p c" and sp: "splits s p c m s'"
    and m: "m < rk_len (tn_key (rc_nodes s c))"
  shows "holds s' = holds s"
proof (intro ext iffI)
  fix ns us vs
  let ?w = "rc_counter s" and ?k = "tn_key (rc_nodes s c)"
  note f = edge_facts [OF ok p pc] and st = splits_simps [OF sp]
  have ns: "rk_ns (tn_key (rc_nodes s' n)) = rk_ns (tn_key (rc_nodes s (if n = ?w then c else n)))" for n
  proof -
    have "tn_key (rc_nodes s' c) = rk_from ?k m" "tn_key (rc_nodes s' ?w) = rk_slice ?k 0 m" using sp by (simp_all add: splits_def Let_def)
    then show ?thesis using f(6) split_labels(1) [OF sp] by (cases "n = ?w"; cases "n = c") simp_all
  qed
  { assume "holds s' ns us vs"
    then obtain n us' vs' where h: "n \<noteq> rc_root s" "rpath s' (rc_root s) n us' vs'" "rk_ns (tn_key (rc_nodes s' n)) = ns" "prefix us us'" "vs = take (length us) vs'"
      unfolding holds_def st(1) by blast
    show "holds s ns us vs"
    proof (cases "n = ?w")
      case True
      then obtain us0 vs0 where u: "rpath s (rc_root s) p us0 vs0" "us' = us0 @ take m (rk_iter ?k)" "vs' = vs0 @ take m (tn_value (rc_nodes s c))"
        using split_path_new [OF ok p pc sp h(2)] by auto
      have path: "rpath s (rc_root s) c (us0 @ rk_iter ?k) (vs0 @ tn_value (rc_nodes s c))" by (rule rpath_step [OF u(1) pc])
      have "length vs0 = length us0" using rpath_lengths(1) [OF ok reach_root u(1)] .
      moreover have "length us \<le> length us0 + m" using h(4) u(2) m by (auto dest: prefix_length_le)
      ultimately have "vs = take (length us) (vs0 @ tn_value (rc_nodes s c))" using h(5) u(3) by (simp add: min_def)
      moreover have "prefix us (us0 @ rk_iter ?k)"
        using h(4) u(2) by (metis append_assoc append_take_drop_id prefix_order.trans prefixI)
      ultimately show ?thesis using h(3) ns [of n] True by (intro holdsI [OF f(5) path]) simp_all
    next
      case False
      then show ?thesis using split_path_new [OF ok p pc sp h(2)] h ns [of n] unfolding holds_def by auto
    qed }
  { assume "holds s ns us vs"
    then obtain n us' vs' where h: "n \<noteq> rc_root s" "rpath s (rc_root s) n us' vs'" "rk_ns (tn_key (rc_nodes s n)) = ns" "prefix us us'" "vs = take (length us) vs'"
      unfolding holds_def by blast
    have "n \<noteq> ?w" using reach_counter [OF ok] rpath_reach [OF h(2) reach_root] by blast
    then show "holds s' ns us vs" using split_path_old [OF ok p pc sp h(2)] h ns [of n] unfolding holds_def st(1) by auto }
qed

section \<open>Adding a leaf\<close>

definition grows :: "radix_cache \<Rightarrow> nat \<Rightarrow> dict_key \<Rightarrow> radix_key \<Rightarrow> nat list \<Rightarrow> radix_cache \<Rightarrow> bool" where
  "grows s p ck key val s' \<longleftrightarrow> (let w = rc_counter s in
     rc_root s' = rc_root s \<and> rc_counter s' = Suc w \<and> rc_page_size s' = rc_page_size s \<and> rc_is_eagle s' = rc_is_eagle s
     \<and> (\<forall>n. n \<noteq> w \<and> n \<noteq> p \<longrightarrow> tn_children (rc_nodes s' n) = tn_children (rc_nodes s n))
     \<and> tn_children (rc_nodes s' p) = AList.update ck w (tn_children (rc_nodes s p)) \<and> tn_children (rc_nodes s' w) = []
     \<and> (\<forall>n. n \<noteq> w \<longrightarrow> tn_parent (rc_nodes s' n) = tn_parent (rc_nodes s n) \<and> tn_key (rc_nodes s' n) = tn_key (rc_nodes s n)
          \<and> tn_value (rc_nodes s' n) = tn_value (rc_nodes s n) \<and> tn_lock_ref (rc_nodes s' n) = tn_lock_ref (rc_nodes s n))
     \<and> tn_parent (rc_nodes s' w) = Some p \<and> tn_key (rc_nodes s' w) = key \<and> tn_value (rc_nodes s' w) = val \<and> tn_lock_ref (rc_nodes s' w) = 0)"

definition new_leaf_ok :: "radix_cache \<Rightarrow> nat \<Rightarrow> dict_key \<Rightarrow> radix_key \<Rightarrow> nat list \<Rightarrow> bool" where
  "new_leaf_ok s p ck key val \<longleftrightarrow> map_of (tn_children (rc_nodes s p)) ck = None \<and> child_key key (rc_page_size s) = Inr ck \<and> rk_ok key
     \<and> rk_is_bigram key = rc_is_eagle s \<and> 0 < rk_len key \<and> rc_page_size s dvd rk_len key \<and> length val = rk_len key
     \<and> (p \<noteq> rc_root s \<longrightarrow> rk_ns key = rk_ns (tn_key (rc_nodes s p)))"

lemma grow_edges:
  assumes "grows s p ck key val s'" and "map_of (tn_children (rc_nodes s p)) ck = None" and "p \<noteq> rc_counter s"
  shows "edge s' q d \<longleftrightarrow> (if q = rc_counter s then False else edge s q d \<or> q = p \<and> d = rc_counter s)"
proof -
  have "AList.update ck v xs = xs @ [(ck, v)]" if "map_of xs ck = None" for v :: nat and xs
    using that by (induction xs) (auto split: if_splits)
  then have p: "tn_children (rc_nodes s' p) = tn_children (rc_nodes s p) @ [(ck, rc_counter s)]" using assms(1,2) by (simp add: grows_def Let_def)
  have w: "tn_children (rc_nodes s' (rc_counter s)) = []" using assms(1) by (simp add: grows_def Let_def)
  have o: "tn_children (rc_nodes s' q) = tn_children (rc_nodes s q)" if "q \<noteq> p" "q \<noteq> rc_counter s"
    using assms(1) that by (simp add: grows_def Let_def)
  show ?thesis using assms(3) p w o by (cases "q = p"; cases "q = rc_counter s") (auto simp: edge_def)
qed

lemma grow_path:
  assumes ok: "tree_ok s" and p: "reach s p" and g: "grows s p ck key val s'" and fresh: "map_of (tn_children (rc_nodes s p)) ck = None"
  shows "rpath s' (rc_root s) n us vs \<longleftrightarrow> (if n = rc_counter s
      then \<exists>us0 vs0. rpath s (rc_root s) p us0 vs0 \<and> us = us0 @ rk_iter key \<and> vs = vs0 @ val
      else rpath s (rc_root s) n us vs)"
proof -
  let ?w = "rc_counter s"
  have pw: "p \<noteq> ?w" using reach_counter [OF ok p] by simp
  note e = grow_edges [OF g fresh pw]
  have lab: "tn_key (rc_nodes s' n) = (if n = ?w then key else tn_key (rc_nodes s n))" "tn_value (rc_nodes s' n) = (if n = ?w then val else tn_value (rc_nodes s n))" for n
    using g by (simp_all add: grows_def Let_def)
  have 1: "if n = ?w then \<exists>us0 vs0. rpath s (rc_root s) p us0 vs0 \<and> us = us0 @ rk_iter key \<and> vs = vs0 @ val else rpath s (rc_root s) n us vs"
    if "rpath s' (rc_root s) n us vs" for n us vs
    using that
  proof (induction rule: rpath.induct)
    case rpath_refl
    have "rc_root s \<noteq> ?w" using reach_counter [OF ok reach_root] by simp
    then show ?case by (simp add: rpath.rpath_refl)
  next
    case (rpath_step q us vs d)
    have q: "q \<noteq> ?w" using e [of q d] rpath_step(2) by (auto split: if_splits)
    then have rq: "rpath s (rc_root s) q us vs" using rpath_step.IH by simp
    show ?case
    proof (cases "d = ?w")
      case True
      have "\<not> edge s q d" using True reach_counter [OF ok reach_step [OF rpath_reach [OF rq reach_root]], of d] by auto
      then have "q = p" using e [of q d] q rpath_step(2) by auto
      then show ?thesis using rq True lab by auto
    next
      case False
      then show ?thesis using rpath.rpath_step [OF rq, of d] e [of q d] q rpath_step(2) lab by auto
    qed
  qed
  have 2: "rpath s' (rc_root s) n us vs" if "rpath s (rc_root s) n us vs" for n us vs
    using that
  proof (induction rule: rpath.induct)
    case (rpath_step q us vs d)
    have rq: "reach s q" using rpath_reach [OF rpath_step(1) reach_root] .
    have "q \<noteq> ?w" "d \<noteq> ?w" using reach_counter [OF ok] rq reach_step [OF rq rpath_step(2)] by auto
    then show ?case using rpath.rpath_step [OF rpath_step.IH, of d] e [of q d] rpath_step(2) lab by simp
  qed (rule rpath.rpath_refl)
  have "rpath s' (rc_root s) ?w (us0 @ rk_iter key) (vs0 @ val)" if "rpath s (rc_root s) p us0 vs0" for us0 vs0
    using rpath.rpath_step [OF 2 [OF that], of ?w] e [of p ?w] pw lab by simp
  moreover have "n \<noteq> ?w" if "rpath s (rc_root s) n us vs" using reach_counter [OF ok rpath_reach [OF that reach_root]] by simp
  ultimately show ?thesis using 1 2 by auto
qed

lemma grow_reach:
  assumes "tree_ok s" and "reach s p" and g: "grows s p ck key val s'" and "map_of (tn_children (rc_nodes s p)) ck = None"
  shows "reach s' n \<longleftrightarrow> reach s n \<or> n = rc_counter s"
proof -
  have rt: "rc_root s' = rc_root s" using g by (simp add: grows_def Let_def)
  have iff: "reach x n \<longleftrightarrow> (\<exists>us vs. rpath x (rc_root x) n us vs)" for x n using reach_rpath rpath_reach reach_root by blast
  obtain us vs where "rpath s (rc_root s) p us vs" using reach_rpath [OF assms(2)] by blast
  then show ?thesis unfolding iff rt grow_path [OF assms] using reach_counter [OF assms(1)] rpath_reach reach_root by (auto; metis)
qed

lemma grow_tree_ok:
  assumes ok: "tree_ok s" and p: "reach s p" and g: "grows s p ck key val s'" and new: "new_leaf_ok s p ck key val"
  shows "tree_ok s'"
proof -
  let ?w = "rc_counter s"
  have fresh: "map_of (tn_children (rc_nodes s p)) ck = None" using new by (simp add: new_leaf_ok_def)
  note r = grow_reach [OF ok p g fresh]
  have pw: "p \<noteq> ?w" using reach_counter [OF ok p] by simp
  have st: "rc_root s' = rc_root s" "rc_counter s' = Suc ?w" "rc_page_size s' = rc_page_size s" "rc_is_eagle s' = rc_is_eagle s"
    using g by (simp_all add: grows_def Let_def)
  have lab: "tn_key (rc_nodes s' n) = tn_key (rc_nodes s n)" "tn_value (rc_nodes s' n) = tn_value (rc_nodes s n)" "tn_parent (rc_nodes s' n) = tn_parent (rc_nodes s n)"
    if "n \<noteq> ?w" for n using g that by (simp_all add: grows_def Let_def)
  have old: "child_ok s' n k' d" if n: "reach s n" and d: "(k', d) \<in> set (tn_children (rc_nodes s n))" for n k' d
  proof -
    have "d \<noteq> ?w" "n \<noteq> ?w" using reach_counter [OF ok] n reach_step [OF n, of d] d by (force simp: edge_def)+
    then show ?thesis using n d ok lab [of d] lab [of n] st by (auto simp: tree_ok_def child_ok_def Let_def)
  qed
  have pn: "child_ok s' p ck ?w" using new g lab [of p] pw st by (auto simp: child_ok_def new_leaf_ok_def grows_def Let_def)
  have "distinct (map fst (tn_children (rc_nodes s' n))) \<and> (\<forall>(k', d) \<in> set (tn_children (rc_nodes s' n)). child_ok s' n k' d)" if n: "reach s' n" for n
  proof -
    consider "n = ?w" | "n = p" | "n \<noteq> ?w" "n \<noteq> p" "reach s n" using r n by blast
    then show ?thesis
    proof cases
      case 1
      then show ?thesis using g by (simp add: grows_def Let_def)
    next
      case 2
      have dis: "distinct (map fst (tn_children (rc_nodes s p)))" using ok p by (simp add: tree_ok_def)
      have "tn_children (rc_nodes s' p) = AList.update ck ?w (tn_children (rc_nodes s p))" using g by (simp add: grows_def Let_def)
      then show ?thesis using 2 old [OF p] pn dis by (auto simp: set_alist_update distinct_update)
    next
      case 3
      then have "tn_children (rc_nodes s' n) = tn_children (rc_nodes s n)" using g by (simp add: grows_def Let_def)
      then show ?thesis using old [OF 3(3)] ok 3(3) by (auto simp: tree_ok_def)
    qed
  qed
  moreover have "tn_parent (rc_nodes s' (rc_root s)) = None"
    using lab(3) [of "rc_root s"] reach_counter [OF ok reach_root] ok by (simp add: tree_ok_def)
  ultimately show ?thesis using ok st r reach_counter [OF ok] unfolding tree_ok_def by (auto simp: less_Suc_eq)
qed

lemma grow_holds:
  assumes ok: "tree_ok s" and p: "rpath s (rc_root s) p us0 vs0" and g: "grows s p ck key val s'" and new: "new_leaf_ok s p ck key val"
  shows "holds s' ns us vs \<longleftrightarrow> holds s ns us vs
    \<or> ns = rk_ns key \<and> prefix us (us0 @ rk_iter key) \<and> vs = take (length us) (vs0 @ val)"
proof -
  let ?w = "rc_counter s"
  have rp: "reach s p" using rpath_reach [OF p reach_root] .
  have fresh: "map_of (tn_children (rc_nodes s p)) ck = None" using new by (simp add: new_leaf_ok_def)
  note path = grow_path [OF ok rp g fresh]
  have rt: "rc_root s' = rc_root s" "rc_root s \<noteq> ?w" using g reach_counter [OF ok reach_root] by (auto simp: grows_def Let_def)
  have key: "tn_key (rc_nodes s' n) = (if n = ?w then key else tn_key (rc_nodes s n))" for n using g by (simp add: grows_def Let_def)
  have w: "rpath s' (rc_root s) ?w us' vs' \<longleftrightarrow> us' = us0 @ rk_iter key \<and> vs' = vs0 @ val" for us' vs'
  proof -
    have "rpath s' (rc_root s) ?w us' vs' \<longleftrightarrow> (\<exists>us0 vs0. rpath s (rc_root s) p us0 vs0 \<and> us' = us0 @ rk_iter key \<and> vs' = vs0 @ val)"
      using path [of ?w us' vs'] by simp
    also have "\<dots> \<longleftrightarrow> us' = us0 @ rk_iter key \<and> vs' = vs0 @ val" using p root_path_unique [OF ok p] by blast
    finally show ?thesis .
  qed
  have old: "n \<noteq> ?w" if "rpath s (rc_root s) n us' vs'" for n us' vs' using reach_counter [OF ok rpath_reach [OF that reach_root]] by simp
  show ?thesis
  proof
    assume "holds s' ns us vs"
    then obtain n us' vs' where h: "n \<noteq> rc_root s" "rpath s' (rc_root s) n us' vs'" "rk_ns (tn_key (rc_nodes s' n)) = ns" "prefix us us'" "vs = take (length us) vs'"
      unfolding holds_def rt by blast
    show "holds s ns us vs \<or> ns = rk_ns key \<and> prefix us (us0 @ rk_iter key) \<and> vs = take (length us) (vs0 @ val)"
    proof (cases "n = ?w")
      case False
      then have "rpath s (rc_root s) n us' vs'" using h(2) path [of n us' vs'] by simp
      then have "holds s ns us vs" using h False key [of n] by (intro holdsI [of n]) simp_all
      then show ?thesis ..
    next
      case True
      have "us' = us0 @ rk_iter key" "vs' = vs0 @ val" using h(2) w True by blast+
      moreover have "rk_ns key = ns" using h(3) key [of n] True by simp
      ultimately show ?thesis using h(4,5) by blast
    qed
  next
    assume "holds s ns us vs \<or> ns = rk_ns key \<and> prefix us (us0 @ rk_iter key) \<and> vs = take (length us) (vs0 @ val)"
    then show "holds s' ns us vs"
    proof
      assume "holds s ns us vs"
      then obtain n us' vs' where h: "n \<noteq> rc_root s" "rpath s (rc_root s) n us' vs'" "rk_ns (tn_key (rc_nodes s n)) = ns" "prefix us us'" "vs = take (length us) vs'"
        unfolding holds_def by blast
      then show ?thesis using old [OF h(2)] path [of n us' vs'] key [of n] rt by (intro holdsI [of n]) simp_all
    next
      assume "ns = rk_ns key \<and> prefix us (us0 @ rk_iter key) \<and> vs = take (length us) (vs0 @ val)"
      then show ?thesis using w [of "us0 @ rk_iter key" "vs0 @ val"] key [of ?w] rt by (intro holdsI [of ?w s' "us0 @ rk_iter key" "vs0 @ val"]) (simp_all del: take_append)
    qed
  qed
qed

section \<open>Deleting a leaf\<close>

definition cuts :: "radix_cache \<Rightarrow> nat \<Rightarrow> nat \<Rightarrow> radix_cache \<Rightarrow> bool" where
  "cuts s p x s' \<longleftrightarrow> rc_root s' = rc_root s \<and> rc_counter s' = rc_counter s \<and> rc_page_size s' = rc_page_size s \<and> rc_is_eagle s' = rc_is_eagle s
     \<and> rc_disable s' = rc_disable s
     \<and> (\<exists>k. (k, x) \<in> set (tn_children (rc_nodes s p)) \<and> tn_children (rc_nodes s' p) = AList.delete k (tn_children (rc_nodes s p)))
     \<and> (\<forall>n. n \<noteq> p \<longrightarrow> tn_children (rc_nodes s' n) = tn_children (rc_nodes s n))
     \<and> (\<forall>n. tn_parent (rc_nodes s' n) = tn_parent (rc_nodes s n) \<and> tn_key (rc_nodes s' n) = tn_key (rc_nodes s n)
          \<and> tn_value (rc_nodes s' n) = tn_value (rc_nodes s n) \<and> tn_lock_ref (rc_nodes s' n) = tn_lock_ref (rc_nodes s n))"

lemma cut_edges:
  assumes ok: "tree_ok s" and p: "reach s p" and c: "cuts s p x s'"
  shows "edge s' q d \<longleftrightarrow> edge s q d \<and> \<not> (q = p \<and> d = x)"
proof -
  obtain k where k: "(k, x) \<in> set (tn_children (rc_nodes s p))" "tn_children (rc_nodes s' p) = AList.delete k (tn_children (rc_nodes s p))"
    using c by (auto simp: cuts_def)
  have dis: "distinct (map fst (tn_children (rc_nodes s p)))" using ok p by (simp add: tree_ok_def)
  have "a = k \<longleftrightarrow> b = x" if "(a, b) \<in> set (tn_children (rc_nodes s p))" for a b
    using that k(1) child_unique_key [OF ok p] dis by (metis map_of_eq_Some_iff option.inject)
  then have "edge s' p d \<longleftrightarrow> edge s p d \<and> d \<noteq> x" unfolding edge_def k(2) AList.delete_eq by (force simp: image_iff)
  moreover have "edge s' q d = edge s q d" if "q \<noteq> p" using c that by (simp add: cuts_def edge_def)
  ultimately show ?thesis by auto
qed

lemma cut_path:
  assumes ok: "tree_ok s" and p: "reach s p" and c: "cuts s p x s'" and leaf: "tn_children (rc_nodes s x) = []" and e: "edge s p x"
  shows "rpath s' (rc_root s) n us vs \<longleftrightarrow> n \<noteq> x \<and> rpath s (rc_root s) n us vs"
proof
  have lab: "tn_key (rc_nodes s' n) = tn_key (rc_nodes s n)" "tn_value (rc_nodes s' n) = tn_value (rc_nodes s n)" for n using c by (simp_all add: cuts_def)
  note ed = cut_edges [OF ok p c]
  have nx: "rc_root s \<noteq> x" using edge_facts(5) [OF ok p e] by simp
  { assume "rpath s' (rc_root s) n us vs"
    then show "n \<noteq> x \<and> rpath s (rc_root s) n us vs"
    proof (induction rule: rpath.induct)
      case (rpath_step q us vs d)
      then have q: "rpath s (rc_root s) q us vs" "edge s q d" "\<not> (q = p \<and> d = x)" using ed by auto
      then have "d \<noteq> x" using edge_facts(1) [OF ok rpath_reach [OF q(1) reach_root] q(2)] edge_facts(1) [OF ok p e] by auto
      then show ?case using rpath.rpath_step [OF q(1,2)] lab by simp
    qed (use nx in \<open>simp add: rpath.rpath_refl\<close>) }
  { assume a: "n \<noteq> x \<and> rpath s (rc_root s) n us vs"
    have "n \<noteq> x \<longrightarrow> rpath s' (rc_root s) n us vs" using conjunct2 [OF a]
    proof (induction rule: rpath.induct)
      case (rpath_step q us vs d)
      have "q \<noteq> x" using rpath_step(2) leaf by (auto simp: edge_def)
      then show ?case using rpath.rpath_step [of s' "rc_root s" q us vs d] rpath_step(2,3) ed lab by auto
    qed (simp add: rpath.rpath_refl)
    then show "rpath s' (rc_root s) n us vs" using a by blast }
qed

lemma cut_reach:
  assumes "tree_ok s" and "reach s p" and c: "cuts s p x s'" and "tn_children (rc_nodes s x) = []" and "edge s p x"
  shows "reach s' n \<longleftrightarrow> reach s n \<and> n \<noteq> x"
proof -
  have rt: "rc_root s' = rc_root s" using c by (simp add: cuts_def)
  have iff: "reach y n \<longleftrightarrow> (\<exists>us vs. rpath y (rc_root y) n us vs)" for y n using reach_rpath rpath_reach reach_root by blast
  show ?thesis unfolding iff rt cut_path [OF assms] by blast
qed

lemma cut_tree_ok:
  assumes ok: "tree_ok s" and p: "reach s p" and c: "cuts s p x s'" and "tn_children (rc_nodes s x) = []" and "edge s p x"
  shows "tree_ok s'"
proof -
  have "distinct (map fst (tn_children (rc_nodes s' n))) \<and> set (tn_children (rc_nodes s' n)) \<subseteq> set (tn_children (rc_nodes s n))"
    if "reach s n" for n
  proof (cases "n = p")
    case True
    obtain k where k: "tn_children (rc_nodes s' p) = AList.delete k (tn_children (rc_nodes s p))" using c by (auto simp: cuts_def)
    show ?thesis using ok p unfolding True k by (auto simp: tree_ok_def AList.delete_eq distinct_map_filter)
  next
    case False
    then show ?thesis using c ok that by (simp add: cuts_def tree_ok_def)
  qed
  note sub = this
  have same: "child_ok s' n k d = child_ok s n k d" for n k d using c by (simp add: child_ok_def cuts_def)
  have "n < rc_counter s \<and> distinct (map fst (tn_children (rc_nodes s' n))) \<and> (\<forall>(k, d) \<in> set (tn_children (rc_nodes s' n)). child_ok s' n k d)"
    if "reach s n" for n
  proof -
    have o: "n < rc_counter s" "\<forall>x \<in> set (tn_children (rc_nodes s n)). case x of (k, d) \<Rightarrow> child_ok s n k d"
      using ok that by (simp_all add: tree_ok_def)
    show ?thesis unfolding same using o sub [OF that] by blast
  qed
  then show ?thesis using ok c cut_reach [OF assms] unfolding tree_ok_def by (simp add: cuts_def)
qed

lemma cut_holds:
  assumes ok: "tree_ok s" and p: "reach s p" and c: "cuts s p x s'" and "tn_children (rc_nodes s x) = []" and "edge s p x"
  shows "holds s' ns us vs \<longleftrightarrow> (\<exists>n us' vs'. n \<noteq> rc_root s \<and> n \<noteq> x \<and> rpath s (rc_root s) n us' vs' \<and> rk_ns (tn_key (rc_nodes s n)) = ns
     \<and> prefix us us' \<and> vs = take (length us) vs')"
proof -
  have "rc_root s' = rc_root s" "\<And>n. tn_key (rc_nodes s' n) = tn_key (rc_nodes s n)" using c by (simp_all add: cuts_def)
  then show ?thesis unfolding holds_def cut_path [OF assms, folded \<open>rc_root s' = rc_root s\<close>] by auto
qed

end
