(* ===== verification/Radix_Locks.thy ===== *)
theory Radix_Locks
  imports Radix_Tree
begin

text \<open>
  The accounts of the prefix cache: the evictable and the protected size, the set of
  evictable leaves, and the reference counts of the locks, as invariants over the nodes the
  root reaches, and what splits, new leaves, deletions and (un)locking do to them.
\<close>

section \<open>Invariants\<close>

definition inner :: "radix_cache \<Rightarrow> nat set" where
  "inner s = {n. reach s n \<and> n \<noteq> rc_root s}"

definition key_len :: "radix_cache \<Rightarrow> nat \<Rightarrow> int" where
  "key_len s n = int (rk_len (tn_key (rc_nodes s n)))"

definition acct_ok :: "radix_cache \<Rightarrow> bool" where
  "acct_ok s \<longleftrightarrow> tn_lock_ref (rc_nodes s (rc_root s)) = 1 \<and> (\<forall>n \<in> inner s. 0 \<le> tn_lock_ref (rc_nodes s n))
     \<and> rc_evictable_size s = sum (key_len s) {n \<in> inner s. tn_lock_ref (rc_nodes s n) = 0}
     \<and> rc_protected_size s = sum (key_len s) {n \<in> inner s. tn_lock_ref (rc_nodes s n) > 0}
     \<and> distinct (rc_evictable_leaves s)
     \<and> set (rc_evictable_leaves s) = {n \<in> inner s. tn_lock_ref (rc_nodes s n) = 0 \<and> tn_children (rc_nodes s n) = []}"

definition redge :: "radix_cache \<Rightarrow> nat \<Rightarrow> nat \<Rightarrow> bool" where
  "redge s a b \<longleftrightarrow> reach s a \<and> edge s a b"

text \<open>\<open>L\<close> is the bag of the nodes that requests hold locks on: a node counts the locks below it.\<close>

definition locks_ok :: "nat multiset \<Rightarrow> radix_cache \<Rightarrow> bool" where
  "locks_ok L s \<longleftrightarrow> (\<forall>l \<in># L. reach s l)
     \<and> (\<forall>n \<in> inner s. tn_lock_ref (rc_nodes s n) = int (size (filter_mset (\<lambda>l. (redge s)\<^sup>*\<^sup>* n l) L)))"

lemma finite_inner:
  assumes "tree_ok s"
  shows "finite (inner s)"
proof (rule finite_subset)
  show "inner s \<subseteq> {..<rc_counter s}" using reach_counter [OF assms] by (auto simp: inner_def)
qed simp

lemma acct_sum: "tree_ok s \<Longrightarrow> acct_ok s \<Longrightarrow> rc_evictable_size s + rc_protected_size s = sum (key_len s) (inner s)"
proof -
  assume ok: "tree_ok s" and a: "acct_ok s"
  let ?e = "{n \<in> inner s. tn_lock_ref (rc_nodes s n) = 0}" and ?p = "{n \<in> inner s. tn_lock_ref (rc_nodes s n) > 0}"
  have "inner s = ?e \<union> ?p" using a by (force simp: acct_ok_def)
  moreover have "sum (key_len s) (?e \<union> ?p) = sum (key_len s) ?e + sum (key_len s) ?p"
    using finite_inner [OF ok] by (intro sum.union_disjoint) auto
  ultimately show ?thesis using a by (simp add: acct_ok_def)
qed

section \<open>Changes that leave the accounts alone\<close>

definition same_account :: "radix_cache \<Rightarrow> radix_cache \<Rightarrow> bool" where
  "same_account s s' \<longleftrightarrow> same_shape s s' \<and> (\<forall>n. tn_lock_ref (rc_nodes s' n) = tn_lock_ref (rc_nodes s n))
     \<and> rc_evictable_size s' = rc_evictable_size s \<and> rc_protected_size s' = rc_protected_size s
     \<and> rc_evictable_leaves s' = rc_evictable_leaves s \<and> rc_disable s' = rc_disable s"

lemma shape_inner: "same_shape s s' \<Longrightarrow> inner s' = inner s"
  by (simp add: inner_def shape_reach) (simp add: same_shape_def)

lemma shape_redge: "same_shape s s' \<Longrightarrow> redge s' = redge s"
  by (intro ext) (simp add: redge_def shape_edge shape_reach)

lemma shape_key_len: "same_shape s s' \<Longrightarrow> key_len s' = key_len s"
  by (intro ext) (simp add: key_len_def same_shape_def)

lemma account_acct_ok:
  assumes "same_account s s'"
  shows "acct_ok s' = acct_ok s"
proof -
  have sh: "same_shape s s'" using assms by (simp add: same_account_def)
  have l: "tn_lock_ref (rc_nodes s' n) = tn_lock_ref (rc_nodes s n)" "tn_children (rc_nodes s' n) = tn_children (rc_nodes s n)" for n
    using assms by (simp_all add: same_account_def same_shape_def)
  have "rc_root s' = rc_root s" "rc_evictable_size s' = rc_evictable_size s" "rc_protected_size s' = rc_protected_size s" "rc_evictable_leaves s' = rc_evictable_leaves s"
    using assms by (simp_all add: same_account_def same_shape_def)
  then show ?thesis unfolding acct_ok_def l shape_inner [OF sh] shape_key_len [OF sh] by simp
qed

lemma account_locks_ok:
  assumes "same_account s s'"
  shows "locks_ok L s' = locks_ok L s"
  using assms shape_inner [of s s'] shape_redge [of s s'] shape_reach [of s s'] by (simp add: locks_ok_def same_account_def)

lemma same_account_trans: "same_account s s' \<Longrightarrow> same_account s' s'' \<Longrightarrow> same_account s s''"
  using same_shape_trans by (auto simp: same_account_def)

lemma same_account_refl [simp]: "same_account s s"
  by (simp add: same_account_def)

lemma account_touch [simp]: "same_account s (touch s n t)"
  by (simp add: same_account_def) (simp add: touch_def upd_def)

lemma account_raise_priority [simp]: "same_account s (raise_priority s n p)"
  by (simp add: same_account_def) (simp add: raise_priority_def upd_def)

lemma account_inc_hit_count [simp]: "same_account s (inc_hit_count s n b)"
  by (simp add: same_account_def) (simp add: inc_hit_count_def upd_def)

lemma account_monotonic [simp]: "same_account s (snd (monotonic s))"
  by (simp add: same_account_def same_shape_def monotonic_def)

section \<open>Ancestors and splits\<close>

lemma rtranclp_split:
  assumes E': "\<And>a b. E' a b \<longleftrightarrow> (if a = w then b = c else if a = p then b = w \<or> b \<noteq> c \<and> E p b else E a b)"
    and fresh: "\<And>a. \<not> E a w" "\<And>a. \<not> E w a" and pc: "E p c" and pw: "p \<noteq> w" "c \<noteq> w"
  shows "b \<noteq> w \<Longrightarrow> a \<noteq> w \<Longrightarrow> E'\<^sup>*\<^sup>* a b \<longleftrightarrow> E\<^sup>*\<^sup>* a b" and "b \<noteq> w \<Longrightarrow> E'\<^sup>*\<^sup>* w b \<longleftrightarrow> E\<^sup>*\<^sup>* c b"
proof -
  have up: "E'\<^sup>*\<^sup>* a b" if "E\<^sup>*\<^sup>* a b" for a b
    using that
  proof (induction rule: rtranclp_induct)
    case (step y z)
    show ?case
    proof (cases "y = p \<and> z = c")
      case True
      have "E' p w" "E' w c" using E' pw by auto
      then show ?thesis using step(3) True by (meson rtranclp.rtrancl_into_rtrancl)
    next
      case False
      then have "E' y z" using E' [of y z] step(2) fresh by auto
      then show ?thesis using step(3) by (meson rtranclp.rtrancl_into_rtrancl)
    qed
  qed simp
  have down: "if b = w then E\<^sup>*\<^sup>* a p else E\<^sup>*\<^sup>* a b" if "E'\<^sup>*\<^sup>* a b" "a \<noteq> w" for a b
    using that
  proof (induction rule: rtranclp_induct)
    case (step y z)
    show ?case
    proof (cases "y = w")
      case True
      then have "z = c" using E' [of y z] step(2) by simp
      moreover have "E\<^sup>*\<^sup>* a p" using step True by simp
      ultimately show ?thesis using pc pw by (simp add: rtranclp.rtrancl_into_rtrancl)
    next
      case False
      then have y: "E\<^sup>*\<^sup>* a y" using step by simp
      show ?thesis
      proof (cases "z = w")
        case True
        then have "y = p" using E' [of y z] step(2) False fresh(1) by (auto split: if_splits)
        then show ?thesis using y True by simp
      next
        case z: False
        then have "E y z" using E' [of y z] step(2) False by (auto split: if_splits)
        then show ?thesis using y z by (simp add: rtranclp.rtrancl_into_rtrancl)
      qed
    qed
  qed simp
  show 1: "E'\<^sup>*\<^sup>* a b \<longleftrightarrow> E\<^sup>*\<^sup>* a b" if "b \<noteq> w" "a \<noteq> w" for a b using up down [of a b] that by auto
  have "E'\<^sup>*\<^sup>* w b \<longleftrightarrow> E'\<^sup>*\<^sup>* c b" if "b \<noteq> w"
  proof
    assume "E'\<^sup>*\<^sup>* w b"
    then show "E'\<^sup>*\<^sup>* c b" using that E' [of w] by (cases rule: converse_rtranclpE) auto
  next
    assume "E'\<^sup>*\<^sup>* c b"
    moreover have "E' w c" using E' [of w c] by simp
    ultimately show "E'\<^sup>*\<^sup>* w b" by (rule converse_rtranclp_into_rtranclp [rotated])
  qed
  then show "E'\<^sup>*\<^sup>* w b \<longleftrightarrow> E\<^sup>*\<^sup>* c b" if "b \<noteq> w" using 1 [OF that pw(2)] that by simp
qed

lemma reach_below: "(redge s)\<^sup>*\<^sup>* a b \<Longrightarrow> reach s a \<Longrightarrow> reach s b"
  by (induction rule: rtranclp_induct) (auto simp: redge_def intro: reach_step)

lemma split_redge:
  assumes "tree_ok s" and "reach s p" and "edge s p c" and "splits s p c m s'"
  shows "redge s' a b \<longleftrightarrow> (if a = rc_counter s then b = c else if a = p then b = rc_counter s \<or> b \<noteq> c \<and> redge s p b else redge s a b)"
  using split_edges [OF assms] split_reach [OF assms] assms(2) reach_counter [OF assms(1)] by (auto simp: redge_def)

lemma split_locks_ok:
  assumes ok: "tree_ok s" and p: "reach s p" and pc: "edge s p c" and sp: "splits s p c m s'" and L: "locks_ok L s"
  shows "locks_ok L s'"
proof -
  let ?w = "rc_counter s"
  have c: "reach s c" by (rule reach_step [OF p pc])
  have lt: "n \<noteq> ?w" if "reach s n" for n using reach_counter [OF ok that] by simp
  have fresh: "\<not> redge s a ?w" "\<not> redge s ?w a" for a using lt reach_step [of s a ?w] by (auto simp: redge_def)
  have e: "redge s p c" using p pc by (simp add: redge_def)
  note rt = rtranclp_split [OF split_redge [OF ok p pc sp] fresh e lt [OF p] lt [OF c]]
  have Lr: "\<forall>l \<in># L. reach s l" using L by (simp add: locks_ok_def)
  have cnt: "filter_mset (\<lambda>l. (redge s')\<^sup>*\<^sup>* n l) L = filter_mset (\<lambda>l. (redge s)\<^sup>*\<^sup>* (if n = ?w then c else n) l) L" for n
    using Lr lt rt by (intro filter_mset_cong) auto
  have rr: "rc_root s' = rc_root s" using splits_simps [OF sp] by simp
  have ref: "tn_lock_ref (rc_nodes s' n) = tn_lock_ref (rc_nodes s (if n = ?w then c else n))" for n
    using sp by (auto simp: splits_def Let_def)
  have "inner s' = insert ?w (inner s)" "c \<in> inner s"
    using split_reach [OF ok p pc sp] rr lt [OF reach_root] c edge_facts(5) [OF ok p pc] by (auto simp: inner_def)
  then show ?thesis using L split_reach [OF ok p pc sp] unfolding locks_ok_def cnt ref by auto
qed

lemma split_acct_ok:
  assumes ok: "tree_ok s" and p: "reach s p" and pc: "edge s p c" and sp: "splits s p c m s'"
    and m: "0 < m" "m < rk_len (tn_key (rc_nodes s c))" and a: "acct_ok s"
  shows "acct_ok s'"
proof -
  let ?w = "rc_counter s"
  have c: "c \<in> inner s" using reach_step [OF p pc] edge_facts(5) [OF ok p pc] by (simp add: inner_def)
  have lt: "n \<noteq> ?w" if "reach s n" for n using reach_counter [OF ok that] by simp
  have rr: "rc_root s' = rc_root s" using splits_simps [OF sp] by simp
  have inn: "inner s' = insert ?w (inner s)" and w: "?w \<notin> inner s"
    using split_reach [OF ok p pc sp] rr lt [OF reach_root] lt by (auto simp: inner_def)
  have ref: "tn_lock_ref (rc_nodes s' n) = tn_lock_ref (rc_nodes s (if n = ?w then c else n))" for n
    using sp by (auto simp: splits_def Let_def)
  have kl: "key_len s' n = key_len s n" if "n \<in> inner s" "n \<noteq> c" for n
  proof -
    have "n \<noteq> ?w" using that(1) w by blast
    then show ?thesis using split_labels(1) [OF sp _ that(2)] by (simp add: key_len_def)
  qed
  have klc: "key_len s' ?w + key_len s' c = key_len s c"
    using sp m by (auto simp: splits_def Let_def key_len_def rk_slice_len)
  have sums: "sum (key_len s') {n \<in> inner s'. P (tn_lock_ref (rc_nodes s' n))} = sum (key_len s) {n \<in> inner s. P (tn_lock_ref (rc_nodes s n))}" for P
  proof (cases "P (tn_lock_ref (rc_nodes s c))")
    case True
    let ?A = "{n \<in> inner s. P (tn_lock_ref (rc_nodes s n))}"
    have fin: "finite ?A" using finite_inner [OF ok] by simp
    have "{n \<in> inner s'. P (tn_lock_ref (rc_nodes s' n))} = insert ?w ?A" using inn w ref True by auto
    moreover have "sum (key_len s') (insert ?w ?A) = key_len s' ?w + sum (key_len s') ?A" using fin w by (intro sum.insert) auto
    moreover have "sum (key_len s') ?A = key_len s' c + sum (key_len s') (?A - {c})" using fin c True by (intro sum.remove) auto
    moreover have "sum (key_len s') (?A - {c}) = sum (key_len s) (?A - {c})" using kl by (intro sum.cong) auto
    moreover have "sum (key_len s) ?A = key_len s c + sum (key_len s) (?A - {c})" using fin c True by (intro sum.remove) auto
    ultimately show ?thesis using klc by simp
  next
    case False
    then have "{n \<in> inner s'. P (tn_lock_ref (rc_nodes s' n))} = {n \<in> inner s. P (tn_lock_ref (rc_nodes s n))}" using inn w ref by auto
    then show ?thesis using kl False by (auto intro!: sum.cong)
  qed
  have upd: "AList.update k v xs \<noteq> []" for k :: dict_key and v :: nat and xs by (cases xs) auto
  have chp: "tn_children (rc_nodes s' p) \<noteq> []" "tn_children (rc_nodes s p) \<noteq> []"
  proof -
    obtain k where "(k, c) \<in> set (tn_children (rc_nodes s p))" "tn_children (rc_nodes s' p) = AList.update k ?w (tn_children (rc_nodes s p))"
      using sp by (auto simp: splits_def Let_def)
    then show "tn_children (rc_nodes s' p) \<noteq> []" "tn_children (rc_nodes s p) \<noteq> []" using upd by auto
  qed
  have ch: "tn_children (rc_nodes s' n) = [] \<longleftrightarrow> tn_children (rc_nodes s n) = []" if "n \<in> inner s" for n
  proof (cases "n = p")
    case False
    moreover have "n \<noteq> ?w" using that w by blast
    ultimately show ?thesis using sp by (cases "n = c") (simp_all add: splits_def Let_def)
  qed (use chp in simp)
  have cw: "tn_children (rc_nodes s' ?w) \<noteq> []" using sp by (auto simp: splits_def Let_def)
  have "{n \<in> inner s'. tn_lock_ref (rc_nodes s' n) = 0 \<and> tn_children (rc_nodes s' n) = []}
      = {n \<in> inner s. tn_lock_ref (rc_nodes s n) = 0 \<and> tn_children (rc_nodes s n) = []}"
    using ch cw inn w ref by auto
  moreover have "rc_evictable_size s' = rc_evictable_size s" "rc_protected_size s' = rc_protected_size s" "rc_evictable_leaves s' = rc_evictable_leaves s"
    using sp by (simp_all add: splits_def Let_def)
  moreover have "tn_lock_ref (rc_nodes s' (rc_root s)) = tn_lock_ref (rc_nodes s (rc_root s))" using ref lt [OF reach_root] by simp
  ultimately show ?thesis using a sums [of "\<lambda>x. x = 0"] sums [of "\<lambda>x. x > 0"] inn ref c rr unfolding acct_ok_def by auto
qed


section \<open>Leaves\<close>

lemma update_leaf_status_leaves:
  assumes "distinct (rc_evictable_leaves s)"
  shows "distinct (rc_evictable_leaves (update_leaf_status s n))"
    and "set (rc_evictable_leaves (update_leaf_status s n)) = (if tn_lock_ref (rc_nodes s n) > 0 \<or> tn_children (rc_nodes s n) \<noteq> []
      then set (rc_evictable_leaves s) - {n} else insert n (set (rc_evictable_leaves s)))"
  using assms by (auto simp: update_leaf_status_def distinct_removeAll)

lemma update_leaf_status_simps [simp]:
  "rc_nodes (update_leaf_status s n) = rc_nodes s" "rc_root (update_leaf_status s n) = rc_root s" "rc_counter (update_leaf_status s n) = rc_counter s"
  "rc_page_size (update_leaf_status s n) = rc_page_size s" "rc_is_eagle (update_leaf_status s n) = rc_is_eagle s" "rc_disable (update_leaf_status s n) = rc_disable s"
  "rc_evictable_size (update_leaf_status s n) = rc_evictable_size s" "rc_protected_size (update_leaf_status s n) = rc_protected_size s"
  by (simp_all add: update_leaf_status_def)

text \<open>The accounts of a state whose nodes differ in the lock of one node.\<close>

lemma acct_change:
  assumes ok: "tree_ok s" and a: "acct_ok s" and sh: "same_shape s s'" and n: "n \<in> inner s"
    and others: "\<And>m. m \<noteq> n \<Longrightarrow> tn_lock_ref (rc_nodes s' m) = tn_lock_ref (rc_nodes s m)" and nn: "0 \<le> tn_lock_ref (rc_nodes s' n)"
    and e: "rc_evictable_size s' = rc_evictable_size s - (if tn_lock_ref (rc_nodes s n) = 0 then key_len s n else 0) + (if tn_lock_ref (rc_nodes s' n) = 0 then key_len s n else 0)"
    and p: "rc_protected_size s' = rc_protected_size s - (if tn_lock_ref (rc_nodes s n) > 0 then key_len s n else 0) + (if tn_lock_ref (rc_nodes s' n) > 0 then key_len s n else 0)"
    and l: "distinct (rc_evictable_leaves s')" "set (rc_evictable_leaves s') = (if tn_lock_ref (rc_nodes s' n) > 0 \<or> tn_children (rc_nodes s' n) \<noteq> []
      then set (rc_evictable_leaves s) - {n} else insert n (set (rc_evictable_leaves s)))"
  shows "acct_ok s'"
proof -
  have inn: "inner s' = inner s" "key_len s' = key_len s" "rc_root s' = rc_root s" "\<And>m. tn_children (rc_nodes s' m) = tn_children (rc_nodes s m)"
    using shape_inner [OF sh] shape_key_len [OF sh] sh by (simp_all add: same_shape_def)
  have sums: "sum (key_len s) {m \<in> inner s. P (tn_lock_ref (rc_nodes t m))}
      = sum (key_len s) {m \<in> inner s - {n}. P (tn_lock_ref (rc_nodes t m))} + (if P (tn_lock_ref (rc_nodes t n)) then key_len s n else 0)" for P t
  proof -
    have "{m \<in> inner s. P (tn_lock_ref (rc_nodes t m))} = {m \<in> inner s - {n}. P (tn_lock_ref (rc_nodes t m))} \<union> (if P (tn_lock_ref (rc_nodes t n)) then {n} else {})"
      using n by auto
    then show ?thesis using finite_inner [OF ok] by (simp add: sum.insert add.commute)
  qed
  have oth: "{m \<in> inner s - {n}. P (tn_lock_ref (rc_nodes s' m))} = {m \<in> inner s - {n}. P (tn_lock_ref (rc_nodes s m))}" for P
    using others by auto
  have "n \<noteq> rc_root s" using n by (simp add: inner_def)
  moreover have "set (rc_evictable_leaves s') = {m \<in> inner s. tn_lock_ref (rc_nodes s' m) = 0 \<and> tn_children (rc_nodes s m) = []}"
  proof (rule set_eqI)
    fix m
    have "m \<in> set (rc_evictable_leaves s) \<longleftrightarrow> m \<in> inner s \<and> tn_lock_ref (rc_nodes s m) = 0 \<and> tn_children (rc_nodes s m) = []"
      using a by (simp add: acct_ok_def)
    then show "m \<in> set (rc_evictable_leaves s') \<longleftrightarrow> m \<in> {m \<in> inner s. tn_lock_ref (rc_nodes s' m) = 0 \<and> tn_children (rc_nodes s m) = []}"
      using l(2) others [of m] n nn inn(4) by (cases "m = n") auto
  qed
  moreover have "\<forall>m \<in> inner s. 0 \<le> tn_lock_ref (rc_nodes s' m)" using a others nn by (metis acct_ok_def)
  ultimately show ?thesis
    using a l(1) e p sums [of "\<lambda>x. x = 0" s] sums [of "\<lambda>x. x = 0" s'] sums [of "\<lambda>x. x > 0" s] sums [of "\<lambda>x. x > 0" s']
      oth [of "\<lambda>x. x = 0"] oth [of "\<lambda>x. x > 0"] others
    unfolding acct_ok_def inn by simp
qed

section \<open>New leaves\<close>

lemma alist_update_nonempty [simp]: "AList.update k v xs \<noteq> []"
  by (cases xs) auto

lemma add_leaf_grows:
  assumes "p \<noteq> rc_counter s" and "add_leaf s priority chunked p key val ck = (w, s')" and "distinct (rc_evictable_leaves s)"
  shows "w = rc_counter s" "grows s p ck key val s'" "rc_evictable_size s' = rc_evictable_size s + int (rk_len key)"
    "rc_protected_size s' = rc_protected_size s" "rc_disable s' = rc_disable s" "distinct (rc_evictable_leaves s')"
    "set (rc_evictable_leaves s') = insert (rc_counter s) (set (rc_evictable_leaves s) - {p})"
proof -
  let ?w = "rc_counter s"
  define s3 where "s3 = inc_hit_count (upd (snd (new_tree_node s priority)) ?w (\<lambda>nd. nd\<lparr> tn_parent := Some p, tn_key := key, tn_value := val \<rparr>)) ?w chunked"
  define s4 where "s4 = upd s3 p (\<lambda>nd. nd\<lparr> tn_children := AList.update ck ?w (tn_children nd) \<rparr>)"
  define s5 where "s5 = s4\<lparr> rc_evictable_size := rc_evictable_size s4 + int (rk_len key) \<rparr>"
  have "add_leaf s priority chunked p key val ck = (?w, update_leaf_status (update_leaf_status s5 p) ?w)"
    by (simp add: add_leaf_def new_tree_node_def monotonic_def Let_def s3_def s4_def s5_def)
  then have r: "w = ?w" "s' = update_leaf_status (update_leaf_status s5 p) ?w"
    using assms(2) by auto
  have g5: "grows s p ck key val s5" "rc_evictable_leaves s5 = rc_evictable_leaves s" "rc_evictable_size s5 = rc_evictable_size s + int (rk_len key)"
      "rc_protected_size s5 = rc_protected_size s" "rc_disable s5 = rc_disable s"
    using assms(1) by (simp_all add: grows_def Let_def s5_def s4_def s3_def new_tree_node_def monotonic_def upd_def inc_hit_count_def)
  show "w = ?w" by (rule r(1))
  show "grows s p ck key val s'" using g5(1) by (simp add: r(2) grows_def Let_def)
  show "rc_evictable_size s' = rc_evictable_size s + int (rk_len key)" "rc_protected_size s' = rc_protected_size s" "rc_disable s' = rc_disable s"
    using g5 by (simp_all add: r(2))
  have "tn_children (rc_nodes s5 p) \<noteq> []" "tn_children (rc_nodes s5 ?w) = []" "tn_lock_ref (rc_nodes s5 ?w) = 0"
    using g5(1) by (simp_all add: grows_def Let_def)
  then show "distinct (rc_evictable_leaves s')" "set (rc_evictable_leaves s') = insert ?w (set (rc_evictable_leaves s) - {p})"
    using update_leaf_status_leaves [of s5 p] update_leaf_status_leaves [of "update_leaf_status s5 p" ?w] assms(3) by (simp_all add: r(2) g5(2))
qed

lemma grow_acct_ok:
  assumes ok: "tree_ok s" and p: "reach s p" and g: "grows s p ck key val s'" and fresh: "map_of (tn_children (rc_nodes s p)) ck = None" and a: "acct_ok s"
    and e: "rc_evictable_size s' = rc_evictable_size s + int (rk_len key)" "rc_protected_size s' = rc_protected_size s" 
    and l: "distinct (rc_evictable_leaves s')" "set (rc_evictable_leaves s') = insert (rc_counter s) (set (rc_evictable_leaves s) - {p})"
  shows "acct_ok s'"
proof -
  let ?w = "rc_counter s"
  have lt: "n \<noteq> ?w" if "reach s n" for n using reach_counter [OF ok that] by simp
  have rr: "rc_root s' = rc_root s" using g by (simp add: grows_def Let_def)
  have inn: "inner s' = insert ?w (inner s)" and w: "?w \<notin> inner s" using grow_reach [OF ok p g fresh] rr lt [OF reach_root] lt by (auto simp: inner_def)
  have ref: "tn_lock_ref (rc_nodes s' n) = (if n = ?w then 0 else tn_lock_ref (rc_nodes s n))" for n using g by (simp add: grows_def Let_def)
  have kl: "key_len s' n = (if n = ?w then int (rk_len key) else key_len s n)" for n using g by (simp add: grows_def Let_def key_len_def)
  have ch: "tn_children (rc_nodes s' n) = [] \<longleftrightarrow> n = ?w \<or> n \<noteq> p \<and> tn_children (rc_nodes s n) = []" for n
    using g lt [OF p] by (cases "n = p"; cases "n = ?w") (simp_all add: grows_def Let_def)
  have sums: "sum (key_len s') {n \<in> inner s'. P (tn_lock_ref (rc_nodes s' n))}
      = sum (key_len s) {n \<in> inner s. P (tn_lock_ref (rc_nodes s n))} + (if P 0 then int (rk_len key) else 0)" for P
  proof -
    have "{n \<in> inner s'. P (tn_lock_ref (rc_nodes s' n))} = {n \<in> inner s. P (tn_lock_ref (rc_nodes s n))} \<union> (if P 0 then {?w} else {})"
      using inn w ref by auto
    moreover have "sum (key_len s') {n \<in> inner s. P (tn_lock_ref (rc_nodes s n))} = sum (key_len s) {n \<in> inner s. P (tn_lock_ref (rc_nodes s n))}"
      using w kl by (intro sum.cong) auto
    ultimately show ?thesis using finite_inner [OF ok] w kl by (simp add: sum.insert)
  qed
  have "set (rc_evictable_leaves s') = {n \<in> inner s'. tn_lock_ref (rc_nodes s' n) = 0 \<and> tn_children (rc_nodes s' n) = []}"
    using a l(2) inn w ref ch by (auto simp: acct_ok_def)
  moreover have "\<forall>n \<in> inner s'. 0 \<le> tn_lock_ref (rc_nodes s' n)" using a inn ref by (auto simp: acct_ok_def)
  ultimately show ?thesis using a sums [of "\<lambda>x. x = 0"] sums [of "\<lambda>x. x > 0"] e l(1) ref lt [OF reach_root] rr unfolding acct_ok_def by simp
qed

lemma rtranclp_same_below:
  assumes "\<And>a b. b \<noteq> w \<Longrightarrow> E' a b \<longleftrightarrow> E a b" and "\<And>b. \<not> E w b" "\<And>b. \<not> E' w b" and "b \<noteq> w"
  shows "E'\<^sup>*\<^sup>* a b \<longleftrightarrow> E\<^sup>*\<^sup>* a b"
proof -
  have "F'\<^sup>*\<^sup>* a b" if "F\<^sup>*\<^sup>* a b" "\<And>a b. b \<noteq> w \<Longrightarrow> F a b \<Longrightarrow> F' a b" "\<And>b. \<not> F w b" for F F' :: "'a \<Rightarrow> 'a \<Rightarrow> bool"
    using that(1) assms(4)
  proof (induction rule: rtranclp_induct)
    case (step y z)
    have "y \<noteq> w" using that(3) step(2) by blast
    then show ?case using step that(2) by (meson rtranclp.rtrancl_into_rtrancl)
  qed simp
  then show ?thesis using assms(1-3) by metis
qed

lemma grow_locks_ok:
  assumes ok: "tree_ok s" and p: "reach s p" and g: "grows s p ck key val s'" and fresh: "map_of (tn_children (rc_nodes s p)) ck = None" and L: "locks_ok L s"
  shows "locks_ok L s'"
proof -
  let ?w = "rc_counter s"
  have lt: "n \<noteq> ?w" if "reach s n" for n using reach_counter [OF ok that] by simp
  have rr: "rc_root s' = rc_root s" using g by (simp add: grows_def Let_def)
  have re: "redge s' a b \<longleftrightarrow> redge s a b \<or> a = p \<and> b = ?w" for a b
    using grow_edges [OF g fresh lt [OF p]] grow_reach [OF ok p g fresh] p lt by (auto simp: redge_def)
  have rt: "(redge s')\<^sup>*\<^sup>* a b \<longleftrightarrow> (redge s)\<^sup>*\<^sup>* a b" if "b \<noteq> ?w" for a b
    by (rule rtranclp_same_below [OF _ _ _ that]) (use re lt lt [OF p] in \<open>auto simp: redge_def\<close>)
  have Lr: "\<forall>l \<in># L. reach s l \<and> l \<noteq> ?w" using L lt by (auto simp: locks_ok_def)
  have w: "filter_mset (\<lambda>l. (redge s')\<^sup>*\<^sup>* ?w l) L = {#}"
  proof (rule filter_mset_eq_mempty_iff [THEN iffD2], intro allI impI notI)
    fix l assume "l \<in># L" "(redge s')\<^sup>*\<^sup>* ?w l"
    then have "(redge s)\<^sup>*\<^sup>* ?w l" "l \<noteq> ?w" using rt Lr by auto
    then show False using lt by (metis converse_rtranclpE redge_def)
  qed
  have cnt: "filter_mset (\<lambda>l. (redge s')\<^sup>*\<^sup>* n l) L = filter_mset (\<lambda>l. (redge s)\<^sup>*\<^sup>* n l) L" for n
    using Lr rt by (intro filter_mset_cong) auto
  have "inner s' = insert ?w (inner s)" "?w \<notin> inner s"
    using grow_reach [OF ok p g fresh] rr lt [OF reach_root] lt by (auto simp: inner_def)
  moreover have "tn_lock_ref (rc_nodes s' n) = (if n = ?w then 0 else tn_lock_ref (rc_nodes s n))" for n using g by (simp add: grows_def Let_def)
  ultimately show ?thesis using L w cnt grow_reach [OF ok p g fresh] unfolding locks_ok_def by auto
qed


section \<open>Deleted leaves\<close>

lemma delete_leaf_cuts:
  assumes ok: "tree_ok s" and p: "reach s p" and x: "edge s p x" and l: "tn_lock_ref (rc_nodes s x) = 0"
    and d: "distinct (rc_evictable_leaves s)"
  obtains s' where "delete_leaf s x = Inr s'" "cuts s p x s'" "rc_evictable_size s' = rc_evictable_size s - key_len s x"
    "rc_protected_size s' = rc_protected_size s" "distinct (rc_evictable_leaves s')"
    "set (rc_evictable_leaves s') = (let l = set (rc_evictable_leaves s) - {x} in
       if tn_lock_ref (rc_nodes s p) > 0 \<or> tn_children (rc_nodes s' p) \<noteq> [] then l - {p} else insert p l)"
proof -
  obtain k where k: "child_ok s p k x" "map_of (tn_children (rc_nodes s p)) k = Some x" using edge_child_ok [OF ok p x] by blast
  have px: "p \<noteq> x" by (rule edge_irrefl [OF ok p x])
  define s1 where "s1 = upd s p (\<lambda>nd. nd\<lparr> tn_children := AList.delete k (tn_children nd) \<rparr>)"
  define s2 where "s2 = s1\<lparr> rc_evictable_size := rc_evictable_size s1 - int (rk_len (tn_key (rc_nodes s1 x))),
                          rc_evictable_leaves := removeAll x (rc_evictable_leaves s1) \<rparr>"
  have 1: "delete_leaf s x = Inr (update_leaf_status s2 p)"
    using k by (simp add: delete_leaf_def child_ok_def Let_def s1_def s2_def check_def)
  have c2: "cuts s p x s2" using map_of_SomeD [OF k(2)] by (auto simp: cuts_def s1_def s2_def upd_def)
  then have 2: "cuts s p x (update_leaf_status s2 p)" by (simp add: cuts_def)
  have 3: "rc_evictable_leaves s2 = removeAll x (rc_evictable_leaves s)" "rc_evictable_size s2 = rc_evictable_size s - key_len s x"
    "rc_protected_size s2 = rc_protected_size s" "tn_lock_ref (rc_nodes s2 p) = tn_lock_ref (rc_nodes s p)"
    using px by (simp_all add: s1_def s2_def upd_def key_len_def)
  show ?thesis
    by (rule that [OF 1 2]) (use 3 d update_leaf_status_leaves [of s2 p] in \<open>simp_all add: Let_def distinct_removeAll\<close>)
qed

lemma cut_acct_ok:
  assumes ok: "tree_ok s" and p: "reach s p" and x: "edge s p x" and l: "tn_lock_ref (rc_nodes s x) = 0" and leaf: "tn_children (rc_nodes s x) = []"
    and c: "cuts s p x s'" and a: "acct_ok s"
    and e: "rc_evictable_size s' = rc_evictable_size s - key_len s x" "rc_protected_size s' = rc_protected_size s"
    and lv: "distinct (rc_evictable_leaves s')"
    "set (rc_evictable_leaves s') = (let l = set (rc_evictable_leaves s) - {x} in
       if tn_lock_ref (rc_nodes s p) > 0 \<or> tn_children (rc_nodes s' p) \<noteq> [] then l - {p} else insert p l)"
  shows "acct_ok s'"
proof -
  have rr: "rc_root s' = rc_root s" using c by (simp add: cuts_def)
  have px: "p \<noteq> x" by (rule edge_irrefl [OF ok p x])
  have xin: "x \<in> inner s" using reach_step [OF p x] edge_facts(5) [OF ok p x] by (simp add: inner_def)
  have inn: "inner s' = inner s - {x}" using cut_reach [OF ok p c leaf x] rr by (auto simp: inner_def)
  have ref: "tn_lock_ref (rc_nodes s' n) = tn_lock_ref (rc_nodes s n)" "key_len s' n = key_len s n" for n using c by (simp_all add: cuts_def key_len_def)
  have ch: "tn_children (rc_nodes s' n) = tn_children (rc_nodes s n)" if "n \<noteq> p" for n using c that by (simp add: cuts_def)
  have pch: "tn_children (rc_nodes s p) \<noteq> []" using x by (auto simp: edge_def)
  have sums: "sum (key_len s) {n \<in> inner s. P (tn_lock_ref (rc_nodes s n))}
      = sum (key_len s') {n \<in> inner s'. P (tn_lock_ref (rc_nodes s' n))} + (if P 0 then key_len s x else 0)" for P
  proof -
    have "{n \<in> inner s. P (tn_lock_ref (rc_nodes s n))} = {n \<in> inner s'. P (tn_lock_ref (rc_nodes s' n))} \<union> (if P 0 then {x} else {})"
      using inn xin ref l by auto
    then show ?thesis using finite_inner [OF ok] inn ref by (simp add: sum.insert)
  qed
  have proot: "tn_lock_ref (rc_nodes s (rc_root s)) = 1" using a by (simp add: acct_ok_def)
  have nn: "\<forall>n \<in> inner s. 0 \<le> tn_lock_ref (rc_nodes s n)" using a by (simp add: acct_ok_def)
  have "n \<in> set (rc_evictable_leaves s') \<longleftrightarrow> n \<in> inner s' \<and> tn_lock_ref (rc_nodes s' n) = 0 \<and> tn_children (rc_nodes s' n) = []" for n
  proof -
    have old: "n \<in> set (rc_evictable_leaves s) \<longleftrightarrow> n \<in> inner s \<and> tn_lock_ref (rc_nodes s n) = 0 \<and> tn_children (rc_nodes s n) = []"
      using a by (simp add: acct_ok_def)
    show ?thesis
    proof (cases "n = p")
      case True
      have "p \<in> inner s" if "\<not> tn_lock_ref (rc_nodes s p) > 0" using that p proot by (auto simp: inner_def)
      moreover have "tn_lock_ref (rc_nodes s p) = 0" if "\<not> tn_lock_ref (rc_nodes s p) > 0" using that calculation nn by force
      ultimately show ?thesis using True lv(2) ref(1) inn px by (auto simp: Let_def)
    next
      case False
      then show ?thesis using old lv(2) ref(1) inn ch [OF False] by (auto simp: Let_def)
    qed
  qed
  then have "set (rc_evictable_leaves s') = {n \<in> inner s'. tn_lock_ref (rc_nodes s' n) = 0 \<and> tn_children (rc_nodes s' n) = []}" by blast
  then show ?thesis using a sums [of "\<lambda>x. x = 0"] sums [of "\<lambda>x. x > 0"] e lv(1) ref inn rr nn unfolding acct_ok_def by simp
qed

lemma locked_count:
  assumes "locks_ok L s" and "n \<in> inner s" and "l \<in># L" and "(redge s)\<^sup>*\<^sup>* n l"
  shows "0 < tn_lock_ref (rc_nodes s n)"
proof -
  have "l \<in># filter_mset (\<lambda>l. (redge s)\<^sup>*\<^sup>* n l) L" using assms(3,4) by simp
  then have "filter_mset (\<lambda>l. (redge s)\<^sup>*\<^sup>* n l) L \<noteq> {#}" by force
  then have "0 < size (filter_mset (\<lambda>l. (redge s)\<^sup>*\<^sup>* n l) L)" by (subst nonempty_has_size [symmetric]) simp_all
  then show ?thesis using assms(1,2) by (simp add: locks_ok_def)
qed

lemma cut_locks_ok:
  assumes ok: "tree_ok s" and p: "reach s p" and x: "edge s p x" and l: "tn_lock_ref (rc_nodes s x) = 0" and leaf: "tn_children (rc_nodes s x) = []"
    and c: "cuts s p x s'" and L: "locks_ok L s"
  shows "locks_ok L s'"
proof -
  have xin: "x \<in> inner s" using reach_step [OF p x] edge_facts(5) [OF ok p x] by (simp add: inner_def)
  have xL: "x \<notin># L" using locked_count [OF L xin, of x] l by auto
  have re: "redge s' a b \<longleftrightarrow> redge s a b \<and> b \<noteq> x" for a b
    using cut_edges [OF ok p c] cut_reach [OF ok p c leaf x] leaf edge_facts(1) [OF ok p x] edge_facts(1) [OF ok, of a x]
    by (auto simp: redge_def edge_def)
  have rt: "(redge s')\<^sup>*\<^sup>* a b \<longleftrightarrow> (redge s)\<^sup>*\<^sup>* a b" if "b \<noteq> x" for a b
    by (rule rtranclp_same_below [OF _ _ _ that]) (use re leaf in \<open>auto simp: redge_def edge_def\<close>)
  have cnt: "filter_mset (\<lambda>l. (redge s')\<^sup>*\<^sup>* n l) L = filter_mset (\<lambda>l. (redge s)\<^sup>*\<^sup>* n l) L" for n
    using xL rt by (intro filter_mset_cong) metis+
  have "inner s' = inner s - {x}" "\<And>n. tn_lock_ref (rc_nodes s' n) = tn_lock_ref (rc_nodes s n)"
    using cut_reach [OF ok p c leaf x] c by (auto simp: inner_def cuts_def)
  then show ?thesis using L xL cnt cut_reach [OF ok p c leaf x] unfolding locks_ok_def by auto
qed


section \<open>Ancestors\<close>

definition anc :: "radix_cache \<Rightarrow> nat \<Rightarrow> nat set" where
  "anc s n = {m. (redge s)\<^sup>*\<^sup>* m n}"

lemma redge_rpath: "(redge s)\<^sup>*\<^sup>* a b \<Longrightarrow> \<exists>us vs. rpath s a b us vs"
  by (induction rule: rtranclp_induct) (auto simp: redge_def intro: rpath_refl rpath_step)

lemma anc_reach: "m \<in> anc s n \<Longrightarrow> reach s n \<Longrightarrow> reach s m"
  unfolding anc_def by (auto elim: converse_rtranclpE simp: redge_def)

lemma anc_root:
  assumes "tree_ok s"
  shows "anc s (rc_root s) = {rc_root s}"
proof -
  have "\<not> redge s m (rc_root s)" for m using edge_facts(5) [OF assms] by (auto simp: redge_def)
  then have "m = rc_root s" if "(redge s)\<^sup>*\<^sup>* m (rc_root s)" for m using that by (metis rtranclp.cases)
  then show ?thesis by (auto simp: anc_def)
qed

lemma anc_step:
  assumes "tree_ok s" and "reach s p" and "edge s p n"
  shows "anc s n = insert n (anc s p)"
proof -
  have "p' = p" if "redge s p' n" for p' using that edge_facts(1) [OF assms] edge_facts(1) [OF assms(1), of p' n] by (simp add: redge_def)
  then have "m = n \<or> (redge s)\<^sup>*\<^sup>* m p" if "(redge s)\<^sup>*\<^sup>* m n" for m using that by (metis rtranclp.cases)
  moreover have "(redge s)\<^sup>*\<^sup>* m n" if "(redge s)\<^sup>*\<^sup>* m p" for m
    using rtranclp.rtrancl_into_rtrancl [OF that, of n] assms(2,3) by (simp add: redge_def)
  ultimately show ?thesis unfolding anc_def by blast
qed

lemma anc_acyclic:
  assumes "tree_ok s" and "reach s p" and "edge s p n"
  shows "n \<notin> anc s p"
proof
  assume "n \<in> anc s p"
  then obtain us vs where u: "rpath s n p us vs" using redge_rpath [of s n p] unfolding anc_def by blast
  obtain us0 vs0 where r: "rpath s (rc_root s) n us0 vs0" using reach_rpath [OF reach_step [OF assms(2,3)]] by blast
  have "rpath s (rc_root s) n ((us0 @ us) @ rk_iter (tn_key (rc_nodes s n))) ((vs0 @ vs) @ tn_value (rc_nodes s n))"
    by (rule rpath_step [OF rpath_trans [OF u r] assms(3)])
  then have "us0 = (us0 @ us) @ rk_iter (tn_key (rc_nodes s n))" using root_path_unique [OF assms(1) r] by blast
  then have "rk_iter (tn_key (rc_nodes s n)) = []" by simp
  then show False using edge_facts(2) [OF assms] by (metis length_rk_iter list.size(3) less_irrefl)
qed

lemma anc_card:
  assumes "tree_ok s" and "reach s n"
  shows "finite (anc s n)" "card (anc s n) \<le> rc_counter s"
proof -
  have "anc s n \<subseteq> {..<rc_counter s}" using anc_reach [OF _ assms(2)] reach_counter [OF assms(1)] by blast
  then show "finite (anc s n)" "card (anc s n) \<le> rc_counter s" using finite_subset card_mono [of "{..<rc_counter s}"] by fastforce+
qed

lemma shape_anc: "same_shape s s' \<Longrightarrow> anc s' = anc s"
  by (intro ext) (simp add: anc_def shape_redge)

section \<open>Locking and unlocking\<close>

definition lock_one :: "radix_cache \<Rightarrow> nat \<Rightarrow> radix_cache" where
  "lock_one s node = (let l = key_len s node;
     s1 = (if tn_lock_ref (rc_nodes s node) = 0 then s\<lparr> rc_evictable_size := rc_evictable_size s - l, rc_protected_size := rc_protected_size s + l \<rparr> else s)
   in update_leaf_status (upd s1 node (\<lambda>nd. nd\<lparr> tn_lock_ref := tn_lock_ref nd + 1 \<rparr>)) node)"

definition unlock_one :: "radix_cache \<Rightarrow> nat \<Rightarrow> radix_cache" where
  "unlock_one s node = (let l = key_len s node;
     s1 = (if tn_lock_ref (rc_nodes s node) = 1 then s\<lparr> rc_evictable_size := rc_evictable_size s + l, rc_protected_size := rc_protected_size s - l \<rparr> else s)
   in update_leaf_status (upd s1 node (\<lambda>nd. nd\<lparr> tn_lock_ref := tn_lock_ref nd - 1 \<rparr>)) node)"

lemma shape_lock_one [simp]: "same_shape s (lock_one s n)"
  by (simp add: same_shape_def lock_one_def upd_def Let_def)

lemma shape_unlock_one [simp]: "same_shape s (unlock_one s n)"
  by (simp add: same_shape_def unlock_one_def upd_def Let_def)

lemma lock_one_simps:
  "tn_lock_ref (rc_nodes (lock_one s n) m) = tn_lock_ref (rc_nodes s m) + (if m = n then 1 else 0)" "rc_disable (lock_one s n) = rc_disable s"
  "rc_evictable_size (lock_one s n) = rc_evictable_size s - (if tn_lock_ref (rc_nodes s n) = 0 then key_len s n else 0)"
  by (simp_all add: lock_one_def upd_def Let_def)

lemma unlock_one_simps:
  "tn_lock_ref (rc_nodes (unlock_one s n) m) = tn_lock_ref (rc_nodes s m) - (if m = n then 1 else 0)" "rc_disable (unlock_one s n) = rc_disable s"
  "rc_evictable_size (unlock_one s n) = rc_evictable_size s + (if tn_lock_ref (rc_nodes s n) = 1 then key_len s n else 0)"
  by (simp_all add: unlock_one_def upd_def Let_def)

lemma lock_one_acct:
  assumes ok: "tree_ok s" and a: "acct_ok s" and n: "n \<in> inner s"
  shows "acct_ok (lock_one s n)"
proof (rule acct_change [OF ok a shape_lock_one n])
  define s2 where "s2 = upd (if tn_lock_ref (rc_nodes s n) = 0 then s\<lparr> rc_evictable_size := rc_evictable_size s - key_len s n,
    rc_protected_size := rc_protected_size s + key_len s n \<rparr> else s) n (\<lambda>nd. nd\<lparr> tn_lock_ref := tn_lock_ref nd + 1 \<rparr>)"
  have eq: "lock_one s n = update_leaf_status s2 n" by (simp add: lock_one_def s2_def Let_def)
  have nn: "0 \<le> tn_lock_ref (rc_nodes s n)" and d: "distinct (rc_evictable_leaves s2)" "rc_evictable_leaves s2 = rc_evictable_leaves s"
    using a n by (simp_all add: acct_ok_def s2_def upd_def)
  show "0 \<le> tn_lock_ref (rc_nodes (lock_one s n) n)" using nn by (simp add: lock_one_simps)
  show "rc_protected_size (lock_one s n) = rc_protected_size s - (if tn_lock_ref (rc_nodes s n) > 0 then key_len s n else 0)
      + (if tn_lock_ref (rc_nodes (lock_one s n) n) > 0 then key_len s n else 0)"
    using nn by (auto simp: lock_one_simps) (auto simp: lock_one_def upd_def Let_def)
  show "distinct (rc_evictable_leaves (lock_one s n))" using update_leaf_status_leaves [OF d(1)] by (simp add: eq)
  show "set (rc_evictable_leaves (lock_one s n)) = (if tn_lock_ref (rc_nodes (lock_one s n) n) > 0 \<or> tn_children (rc_nodes (lock_one s n) n) \<noteq> []
      then set (rc_evictable_leaves s) - {n} else insert n (set (rc_evictable_leaves s)))"
    using update_leaf_status_leaves(2) [OF d(1)] by (simp add: eq d(2))
qed (use a n in \<open>auto simp: lock_one_simps acct_ok_def\<close>)

lemma unlock_one_acct:
  assumes ok: "tree_ok s" and a: "acct_ok s" and n: "n \<in> inner s" and pos: "0 < tn_lock_ref (rc_nodes s n)"
  shows "acct_ok (unlock_one s n)"
proof (rule acct_change [OF ok a shape_unlock_one n])
  define s2 where "s2 = upd (if tn_lock_ref (rc_nodes s n) = 1 then s\<lparr> rc_evictable_size := rc_evictable_size s + key_len s n,
    rc_protected_size := rc_protected_size s - key_len s n \<rparr> else s) n (\<lambda>nd. nd\<lparr> tn_lock_ref := tn_lock_ref nd - 1 \<rparr>)"
  have eq: "unlock_one s n = update_leaf_status s2 n" by (simp add: unlock_one_def s2_def Let_def)
  have d: "distinct (rc_evictable_leaves s2)" "rc_evictable_leaves s2 = rc_evictable_leaves s"
    using a by (simp_all add: acct_ok_def s2_def upd_def)
  show "0 \<le> tn_lock_ref (rc_nodes (unlock_one s n) n)" using pos by (simp add: unlock_one_simps)
  show "rc_protected_size (unlock_one s n) = rc_protected_size s - (if tn_lock_ref (rc_nodes s n) > 0 then key_len s n else 0)
      + (if tn_lock_ref (rc_nodes (unlock_one s n) n) > 0 then key_len s n else 0)"
    using pos by (auto simp: unlock_one_simps) (auto simp: unlock_one_def upd_def Let_def)
  show "distinct (rc_evictable_leaves (unlock_one s n))" using update_leaf_status_leaves [OF d(1)] by (simp add: eq)
  show "set (rc_evictable_leaves (unlock_one s n)) = (if tn_lock_ref (rc_nodes (unlock_one s n) n) > 0 \<or> tn_children (rc_nodes (unlock_one s n) n) \<noteq> []
      then set (rc_evictable_leaves s) - {n} else insert n (set (rc_evictable_leaves s)))"
    using update_leaf_status_leaves(2) [OF d(1)] by (simp add: eq d(2))
qed (use pos in \<open>auto simp: unlock_one_simps\<close>)

lemma inc_lock_step:
  assumes "n \<noteq> rc_root s" and "tn_parent (rc_nodes s n) = Some p"
  shows "inc_lock_loop (Suc fuel) s n delta = inc_lock_loop fuel (lock_one s n) p (delta + (rc_evictable_size (lock_one s n) - rc_evictable_size s))"
  using assms by (simp add: lock_one_simps) (simp add: lock_one_def upd_def key_len_def Let_def)

lemma dec_lock_step:
  assumes "n \<noteq> rc_root s" and "tn_parent (rc_nodes s n) = Some p"
  shows "dec_lock_loop (Suc fuel) s n delta = dec_lock_loop fuel (unlock_one s n) p (delta + (rc_evictable_size (unlock_one s n) - rc_evictable_size s))"
  using assms by (simp add: unlock_one_simps) (simp add: unlock_one_def upd_def key_len_def Let_def)

lemma inc_lock_loop_ok:
  assumes "reach s0 n" and "tree_ok s0" and "same_shape s0 s" and "acct_ok s" and "card (anc s0 n) \<le> fuel"
  shows "\<exists>s'. inc_lock_loop fuel s n delta = Some (Inr (delta + (rc_evictable_size s' - rc_evictable_size s), s'))
    \<and> same_shape s0 s' \<and> acct_ok s' \<and> rc_disable s' = rc_disable s
    \<and> (\<forall>m. tn_lock_ref (rc_nodes s' m) = tn_lock_ref (rc_nodes s m) + (if m \<in> anc s0 n - {rc_root s0} then 1 else 0))"
  using assms
proof (induction arbitrary: s fuel delta rule: reach.induct)
  case reach_root
  have rt: "rc_root s = rc_root s0" using reach_root by (simp add: same_shape_def)
  obtain f where f: "fuel = Suc f" using reach_root anc_root by (cases fuel) auto
  show ?case using reach_root by (intro exI [of _ s]) (simp add: f rt anc_root)
next
  case (reach_step p n)
  have rt: "rc_root s = rc_root s0" and par: "tn_parent (rc_nodes s n) = tn_parent (rc_nodes s0 n)" using reach_step(5) by (simp_all add: same_shape_def)
  note e = edge_facts [OF reach_step(4,1,2)]
  have ok: "tree_ok s" using shape_tree_ok [OF reach_step(5)] reach_step(4) by simp
  have n: "n \<in> inner s" using reach.reach_step [OF reach_step(1,2)] e(5) shape_inner [OF reach_step(5)] by (auto simp: inner_def)
  have an: "anc s0 n = insert n (anc s0 p)" "n \<notin> anc s0 p" using anc_step anc_acyclic reach_step by blast+
  have fin: "finite (anc s0 p)" using anc_card reach_step by blast
  then have card: "card (anc s0 n) = Suc (card (anc s0 p))" using an by simp
  then obtain f where f: "fuel = Suc f" using reach_step(7) by (cases fuel) auto
  have sh: "same_shape s0 (lock_one s n)" using same_shape_trans [OF reach_step(5) shape_lock_one] .
  obtain s' where s': "inc_lock_loop f (lock_one s n) p (delta + (rc_evictable_size (lock_one s n) - rc_evictable_size s))
       = Some (Inr (delta + (rc_evictable_size (lock_one s n) - rc_evictable_size s) + (rc_evictable_size s' - rc_evictable_size (lock_one s n)), s'))"
    "same_shape s0 s'" "acct_ok s'" "rc_disable s' = rc_disable (lock_one s n)"
    "\<forall>m. tn_lock_ref (rc_nodes s' m) = tn_lock_ref (rc_nodes (lock_one s n) m) + (if m \<in> anc s0 p - {rc_root s0} then 1 else 0)"
    using reach_step.IH [OF reach_step(4) sh lock_one_acct [OF ok reach_step(6) n], of f] card f reach_step(7) by fastforce
  have "inc_lock_loop fuel s n delta = Some (Inr (delta + (rc_evictable_size s' - rc_evictable_size s), s'))"
    unfolding f inc_lock_step [OF e(5) [folded rt] e(1) [folded par]] s'(1) by simp
  then show ?case using s' an e(5) by (intro exI [of _ s']) (auto simp: lock_one_simps)
qed

lemma dec_lock_loop_ok:
  assumes "reach s0 n" and "tree_ok s0" and "same_shape s0 s" and "acct_ok s" and "card (anc s0 n) \<le> fuel"
    and "\<forall>m \<in> anc s0 n - {rc_root s0}. 0 < tn_lock_ref (rc_nodes s m)"
  shows "\<exists>s'. dec_lock_loop fuel s n delta = Some (Inr (delta + (rc_evictable_size s' - rc_evictable_size s), s'))
    \<and> same_shape s0 s' \<and> acct_ok s' \<and> rc_disable s' = rc_disable s
    \<and> (\<forall>m. tn_lock_ref (rc_nodes s' m) = tn_lock_ref (rc_nodes s m) - (if m \<in> anc s0 n - {rc_root s0} then 1 else 0))"
  using assms
proof (induction arbitrary: s fuel delta rule: reach.induct)
  case reach_root
  have rt: "rc_root s = rc_root s0" using reach_root by (simp add: same_shape_def)
  obtain f where f: "fuel = Suc f" using reach_root anc_root by (cases fuel) auto
  show ?case using reach_root by (intro exI [of _ s]) (simp add: f rt anc_root)
next
  case (reach_step p n)
  have rt: "rc_root s = rc_root s0" and par: "tn_parent (rc_nodes s n) = tn_parent (rc_nodes s0 n)" using reach_step(5) by (simp_all add: same_shape_def)
  note e = edge_facts [OF reach_step(4,1,2)]
  have ok: "tree_ok s" using shape_tree_ok [OF reach_step(5)] reach_step(4) by simp
  have n: "n \<in> inner s" using reach.reach_step [OF reach_step(1,2)] e(5) shape_inner [OF reach_step(5)] by (auto simp: inner_def)
  have an: "anc s0 n = insert n (anc s0 p)" "n \<notin> anc s0 p" using anc_step anc_acyclic reach_step(1,2,4) by blast+
  have fin: "finite (anc s0 p)" using anc_card reach_step(1,4) by blast
  then have card: "card (anc s0 n) = Suc (card (anc s0 p))" using an by simp
  then obtain f where f: "fuel = Suc f" using reach_step(7) by (cases fuel) auto
  have sh: "same_shape s0 (unlock_one s n)" using same_shape_trans [OF reach_step(5) shape_unlock_one] .
  have pos: "0 < tn_lock_ref (rc_nodes s n)" using reach_step(8) an e(5) by simp
  have pos': "\<forall>m \<in> anc s0 p - {rc_root s0}. 0 < tn_lock_ref (rc_nodes (unlock_one s n) m)" using reach_step(8) an by (auto simp: unlock_one_simps)
  obtain s' where s': "dec_lock_loop f (unlock_one s n) p (delta + (rc_evictable_size (unlock_one s n) - rc_evictable_size s))
       = Some (Inr (delta + (rc_evictable_size (unlock_one s n) - rc_evictable_size s) + (rc_evictable_size s' - rc_evictable_size (unlock_one s n)), s'))"
    "same_shape s0 s'" "acct_ok s'" "rc_disable s' = rc_disable (unlock_one s n)"
    "\<forall>m. tn_lock_ref (rc_nodes s' m) = tn_lock_ref (rc_nodes (unlock_one s n) m) - (if m \<in> anc s0 p - {rc_root s0} then 1 else 0)"
    using reach_step.IH [OF reach_step(4) sh unlock_one_acct [OF ok reach_step(6) n pos], of f] pos' card f reach_step(7) by fastforce
  have "dec_lock_loop fuel s n delta = Some (Inr (delta + (rc_evictable_size s' - rc_evictable_size s), s'))"
    unfolding f dec_lock_step [OF e(5) [folded rt] e(1) [folded par]] s'(1) by simp
  then show ?case using s' an e(5) by (intro exI [of _ s']) (auto simp: unlock_one_simps)
qed

lemma filter_add_mset_size: "size (filter_mset P (add_mset x M)) = size (filter_mset P M) + (if P x then 1 else 0)"
  by simp

text \<open>\<open>inc_lock_ref\<close> returns and takes one lock on the path to the root.\<close>

lemma inc_lock_ref_ok:
  assumes ok: "tree_ok s" and a: "acct_ok s" and L: "locks_ok L s" and n: "reach s n" and d: "\<not> rc_disable s"
  obtains s' where "inc_lock_ref s n = Some (Inr (rc_evictable_size s' - rc_evictable_size s, s'))" "same_shape s s'" "acct_ok s'"
    "rc_disable s' = rc_disable s" "locks_ok (add_mset n L) s'"
proof -
  obtain s' where s': "inc_lock_loop (Suc (rc_counter s)) s n 0 = Some (Inr (0 + (rc_evictable_size s' - rc_evictable_size s), s'))"
      "same_shape s s'" "acct_ok s'" "rc_disable s' = rc_disable s"
      "\<forall>m. tn_lock_ref (rc_nodes s' m) = tn_lock_ref (rc_nodes s m) + (if m \<in> anc s n - {rc_root s} then 1 else 0)"
    using inc_lock_loop_ok [OF n ok same_shape_refl a, of "Suc (rc_counter s)" 0] anc_card(2) [OF ok n] by auto
  have "locks_ok (add_mset n L) s'"
    using L n s'(5) unfolding locks_ok_def shape_inner [OF s'(2)] shape_redge [OF s'(2)] shape_reach [OF s'(2)] filter_add_mset_size
    by (auto simp: anc_def inner_def)
  then show ?thesis using that s' d by (simp add: inc_lock_ref_def del: inc_lock_loop.simps)
qed

lemma dec_lock_ref_ok:
  assumes ok: "tree_ok s" and a: "acct_ok s" and L: "locks_ok L s" and n: "n \<in># L" and d: "\<not> rc_disable s"
  obtains s' where "dec_lock_ref s n = Some (Inr (rc_evictable_size s' - rc_evictable_size s, s'))" "same_shape s s'" "acct_ok s'"
    "rc_disable s' = rc_disable s" "locks_ok (L - {#n#}) s'"
proof -
  have r: "reach s n" using L n by (simp add: locks_ok_def)
  have pos: "\<forall>m \<in> anc s n - {rc_root s}. 0 < tn_lock_ref (rc_nodes s m)"
    using locked_count [OF L _ n] anc_reach [OF _ r] by (auto simp: anc_def inner_def)
  obtain s' where s': "dec_lock_loop (Suc (rc_counter s)) s n 0 = Some (Inr (0 + (rc_evictable_size s' - rc_evictable_size s), s'))"
      "same_shape s s'" "acct_ok s'" "rc_disable s' = rc_disable s"
      "\<forall>m. tn_lock_ref (rc_nodes s' m) = tn_lock_ref (rc_nodes s m) - (if m \<in> anc s n - {rc_root s} then 1 else 0)"
    using dec_lock_loop_ok [OF r ok same_shape_refl a _ pos, of "Suc (rc_counter s)" 0] anc_card(2) [OF ok r] by auto
  obtain M where M: "L = add_mset n M" using n by (metis multi_member_split)
  have "locks_ok M s'"
    using L s'(5) unfolding M locks_ok_def shape_inner [OF s'(2)] shape_redge [OF s'(2)] shape_reach [OF s'(2)] filter_add_mset_size
    by (auto simp: anc_def inner_def)
  then show ?thesis using that s' d by (simp add: dec_lock_ref_def M del: dec_lock_loop.simps)
qed

end
