(* ===== verification/Kv_Allocator.thy ===== *)
theory Kv_Allocator
  imports Prelude "HOL-Library.Multiset"
begin

text \<open>
  The allocators of key/value-cache slots of the serving engine
  (\<^verbatim>\<open>sglang/srt/mem_cache/allocator/base.py\<close>, \<^verbatim>\<open>token.py\<close>, \<^verbatim>\<open>paged.py\<close>): a free list of pages,
  a list of released pages merged into it on demand, and groups of deferred frees. Page 0
  is never handed out; it absorbs the writes of padded tokens.

  A slot allocator is an interface, stated as a locale with the laws a client relies on and
  proved once for every sequence of allocations and frees; the token and the page allocator
  are its two interpretations.
\<close>

section \<open>State\<close>

record kv_alloc =
  al_size :: nat
  al_page_size :: nat
  al_need_sort :: bool
  al_debug :: bool
  free_pages :: "nat list"
  release_pages :: "nat list"
  free_group :: "nat list list option"
  free_page_reps_group :: "nat list list"

text \<open>\<open>torch.unique\<close>: the distinct values in increasing order.\<close>

definition unique :: "nat list \<Rightarrow> nat list" where
  "unique xs = sort (remdups xs)"

definition available_size :: "kv_alloc \<Rightarrow> nat" where
  "available_size s = (length (free_pages s) + length (release_pages s)) * al_page_size s"

definition merge_and_sort_free :: "kv_alloc \<Rightarrow> kv_alloc" where
  "merge_and_sort_free s =
     (if length (release_pages s) > 0
      then s\<lparr> free_pages := sort (free_pages s @ release_pages s), release_pages := [] \<rparr> else s)"

section \<open>The token allocator\<close>

definition token_clear :: "kv_alloc \<Rightarrow> kv_alloc" where
  "token_clear s = s\<lparr> free_pages := [1..<al_size s + 1], free_group := None, release_pages := [] \<rparr>"

definition token_init :: "nat \<Rightarrow> bool \<Rightarrow> kv_alloc" where
  "token_init n need_sort = token_clear \<lparr> al_size = n, al_page_size = 1, al_need_sort = need_sort, al_debug = False,
     free_pages = [], release_pages = [], free_group = None, free_page_reps_group = [] \<rparr>"

definition token_available_size :: "kv_alloc \<Rightarrow> nat" where
  "token_available_size s = length (free_pages s) + length (release_pages s)"

definition token_alloc :: "kv_alloc \<Rightarrow> nat \<Rightarrow> (nat list option \<times> kv_alloc) res" where
  "token_alloc s need_size =
     (let s1 = (if al_need_sort s \<and> need_size > length (free_pages s) then merge_and_sort_free s else s)
      in Inr (if need_size > length (free_pages s1) then (None, s1)
              else (Some (take need_size (free_pages s1)), s1\<lparr> free_pages := drop need_size (free_pages s1) \<rparr>)))"

definition token_free :: "kv_alloc \<Rightarrow> nat list \<Rightarrow> kv_alloc res" where
  "token_free s free_index =
     (if length free_index = 0 then Inr s
      else case free_group s of
          None \<Rightarrow> Inr (if al_need_sort s then s\<lparr> release_pages := release_pages s @ free_index \<rparr>
                       else s\<lparr> free_pages := free_pages s @ free_index \<rparr>)
        | Some g \<Rightarrow> Inr (s\<lparr> free_group := Some (g @ [free_index]) \<rparr>))"

definition free_group_begin :: "kv_alloc \<Rightarrow> kv_alloc" where
  "free_group_begin s = s\<lparr> free_group := Some [] \<rparr>"

text \<open>\<open>free_group_end\<close> of the base class; \<open>fr\<close> is the subclass's \<open>free\<close>.\<close>

definition free_group_end :: "(kv_alloc \<Rightarrow> nat list \<Rightarrow> kv_alloc res) \<Rightarrow> kv_alloc \<Rightarrow> kv_alloc res" where
  "free_group_end fr s =
     (let s1 = s\<lparr> free_group := None \<rparr> in
      case free_group s of
        None \<Rightarrow> Inr s1
      | Some pending \<Rightarrow> if pending = [] then Inr s1 else fr s1 (concat pending))"

section \<open>The page allocator\<close>

definition num_pages :: "kv_alloc \<Rightarrow> nat" where
  "num_pages s = al_size s div al_page_size s"

definition paged_clear :: "kv_alloc \<Rightarrow> kv_alloc" where
  "paged_clear s = s\<lparr> free_pages := [1..<num_pages s + 1], free_group := None, free_page_reps_group := [], release_pages := [] \<rparr>"

definition paged_init :: "nat \<Rightarrow> nat \<Rightarrow> bool \<Rightarrow> bool \<Rightarrow> kv_alloc" where
  "paged_init n ps need_sort debug = paged_clear \<lparr> al_size = n, al_page_size = ps, al_need_sort = need_sort, al_debug = debug,
     free_pages = [], release_pages = [], free_group = None, free_page_reps_group = [] \<rparr>"

text \<open>The slots of a list of pages.\<close>

definition page_slots :: "nat \<Rightarrow> nat list \<Rightarrow> nat list" where
  "page_slots ps pages = concat (map (\<lambda>p. map (\<lambda>j. p * ps + j) [0..<ps]) pages)"

definition paged_alloc :: "kv_alloc \<Rightarrow> nat \<Rightarrow> (nat list option \<times> kv_alloc) res" where
  "paged_alloc s need_size =
     bindE (check (\<not> al_debug s \<or> need_size mod al_page_size s = 0) AssertionError) (\<lambda>_.
     let n = need_size div al_page_size s;
         s1 = (if al_need_sort s \<and> n > length (free_pages s) then merge_and_sort_free s else s)
     in Inr (if n > length (free_pages s1) then (None, s1)
             else (Some (page_slots (al_page_size s) (take n (free_pages s1))),
                   s1\<lparr> free_pages := drop n (free_pages s1) \<rparr>)))"

definition release_page_ids :: "kv_alloc \<Rightarrow> nat list \<Rightarrow> kv_alloc" where
  "release_page_ids s page_ids =
     (if al_need_sort s then s\<lparr> release_pages := page_ids @ release_pages s \<rparr>
      else s\<lparr> free_pages := page_ids @ free_pages s \<rparr>)"

definition debug_check_no_duplicate_pages :: "kv_alloc \<Rightarrow> unit res" where
  "debug_check_no_duplicate_pages s =
     (let pages = free_pages s @ release_pages s in check (length (unique pages) = length pages) AssertionError)"

definition paged_free :: "kv_alloc \<Rightarrow> nat list \<Rightarrow> kv_alloc res" where
  "paged_free s free_index =
     (if length free_index = 0 then Inr s
      else
        let s1 = (case free_group s of
                    None \<Rightarrow> release_page_ids s (unique (map (\<lambda>i. i div al_page_size s) free_index))
                  | Some g \<Rightarrow> s\<lparr> free_group := Some (g @ [free_index]) \<rparr>)
        in if al_debug s then bindE (debug_check_no_duplicate_pages s1) (\<lambda>_. Inr s1) else Inr s1)"

text \<open>\<open>xs[start::step]\<close>\<close>

definition stride_slice :: "nat \<Rightarrow> nat \<Rightarrow> nat list \<Rightarrow> nat list" where
  "stride_slice start step xs = map ((!) xs) (py_range start (length xs) step)"

text \<open>The page representatives of a segment of a request's row that starts at \<open>start_pos\<close>.\<close>

definition page_reps :: "nat \<Rightarrow> nat \<Rightarrow> nat list \<Rightarrow> nat list list" where
  "page_reps ps start_pos free_index =
     (let offset = start_pos mod ps in
      if offset = 0 then [stride_slice 0 ps free_index]
      else [take 1 free_index, stride_slice (ps - offset) ps free_index])"

definition paged_free_segment :: "kv_alloc \<Rightarrow> nat list \<Rightarrow> nat \<Rightarrow> kv_alloc res" where
  "paged_free_segment s free_index start_pos =
     (if length free_index = 0 then Inr s
      else
        let ps = al_page_size s; pieces = page_reps ps start_pos free_index;
            page_ids = concat (map (map (\<lambda>i. i div ps)) pieces)
        in bindE (check (\<not> al_debug s \<or> sort page_ids = unique (map (\<lambda>i. i div ps) free_index)) AssertionError) (\<lambda>_.
           case free_group s of
             None \<Rightarrow>
               let s1 = release_page_ids s page_ids
               in if al_debug s then bindE (debug_check_no_duplicate_pages s1) (\<lambda>_. Inr s1) else Inr s1
           | Some g \<Rightarrow> Inr (s\<lparr> free_page_reps_group := free_page_reps_group s @ pieces \<rparr>)))"

text \<open>
  \<open>free_segments\<close>: disjoint ascending segments of one row; the head of a segment that
  continues the page of the previous one is dropped. The state is \<open>prev_end\<close>.
\<close>

fun paged_free_segments :: "kv_alloc \<Rightarrow> nat option \<Rightarrow> (nat list \<times> nat) list \<Rightarrow> kv_alloc res" where
  "paged_free_segments s prev_end [] = Inr s"
| "paged_free_segments s prev_end ((free_index, start_pos) # segments) =
     (let ps = al_page_size s; n = length free_index in
      if n = 0 then paged_free_segments s prev_end segments
      else
        let seg_end = start_pos + n;
            boundary = (start_pos div ps + 1) * ps;
            shared = (case prev_end of None \<Rightarrow> False | Some e \<Rightarrow> start_pos div ps = (e - 1) div ps)
        in bindE (if shared then paged_free_segment s (drop (boundary - start_pos) free_index) boundary
                  else paged_free_segment s free_index start_pos) (\<lambda>s'.
           paged_free_segments s' (Some seg_end) segments))"

definition paged_group_begin :: "kv_alloc \<Rightarrow> kv_alloc" where
  "paged_group_begin s = (free_group_begin s)\<lparr> free_page_reps_group := [] \<rparr>"

definition paged_group_end :: "kv_alloc \<Rightarrow> kv_alloc res" where
  "paged_group_end s =
     bindE (free_group_end paged_free s) (\<lambda>s1.
     let s2 = (if free_page_reps_group s1 \<noteq> [] then
                 (release_page_ids s1 (map (\<lambda>i. i div al_page_size s1) (concat (free_page_reps_group s1))))
                   \<lparr> free_page_reps_group := [] \<rparr>
               else s1)
     in if al_debug s2 then bindE (debug_check_no_duplicate_pages s2) (\<lambda>_. Inr s2) else Inr s2)"

section \<open>The interface\<close>

text \<open>
  A client allocates blocks and frees blocks it holds. \<open>Release i\<close> frees the \<open>i\<close>-th held
  block; an allocation that cannot be served leaves the client with what it had.
\<close>

datatype client_op = Alloc nat | Release nat

fun client_step ::
  "('s \<Rightarrow> nat \<Rightarrow> (nat list option \<times> 's) res) \<Rightarrow> ('s \<Rightarrow> nat list \<Rightarrow> 's res)
   \<Rightarrow> 's \<times> nat list list \<Rightarrow> client_op \<Rightarrow> ('s \<times> nat list list) res" where
  "client_step alc fre (s, held) (Alloc n) =
     bindE (alc s n) (\<lambda>(r, s'). Inr (s', case r of None \<Rightarrow> held | Some xs \<Rightarrow> held @ [xs]))"
| "client_step alc fre (s, held) (Release i) =
     (if i < length held then bindE (fre s (held ! i)) (\<lambda>s'. Inr (s', take i held @ drop (Suc i) held))
      else Inr (s, held))"

definition client_run ::
  "('s \<Rightarrow> nat \<Rightarrow> (nat list option \<times> 's) res) \<Rightarrow> ('s \<Rightarrow> nat list \<Rightarrow> 's res)
   \<Rightarrow> 's \<Rightarrow> client_op list \<Rightarrow> ('s \<times> nat list list) res" where
  "client_run alc fre s ops = foldE (client_step alc fre) (s, []) ops"

locale slot_allocator =
  fixes alc :: "'s \<Rightarrow> nat \<Rightarrow> (nat list option \<times> 's) res"
    and fre :: "'s \<Rightarrow> nat list \<Rightarrow> 's res"
    and ok :: "'s \<Rightarrow> bool"
    and avail :: "'s \<Rightarrow> nat set"
    and slots :: "nat set"
    and block :: "nat list \<Rightarrow> bool"
    and fits :: "nat \<Rightarrow> bool"
  assumes avail_slots: "ok s \<Longrightarrow> avail s \<subseteq> slots"
    and alloc_served: "ok s \<Longrightarrow> fits n \<Longrightarrow> n \<le> card (avail s) \<Longrightarrow>
      \<exists>xs s'. alc s n = Inr (Some xs, s') \<and> ok s' \<and> block xs \<and> distinct xs \<and> length xs = n
        \<and> set xs \<subseteq> avail s \<and> avail s' = avail s - set xs"
    and alloc_refused: "ok s \<Longrightarrow> fits n \<Longrightarrow> card (avail s) < n \<Longrightarrow>
      \<exists>s'. alc s n = Inr (None, s') \<and> ok s' \<and> avail s' = avail s"
    and free_returns: "ok s \<Longrightarrow> block xs \<Longrightarrow> distinct xs \<Longrightarrow> set xs \<subseteq> slots \<Longrightarrow> set xs \<inter> avail s = {} \<Longrightarrow>
      \<exists>s'. fre s xs = Inr s' \<and> ok s' \<and> avail s' = avail s \<union> set xs"
begin

definition balanced :: "'s \<times> nat list list \<Rightarrow> bool" where
  "balanced c \<longleftrightarrow> ok (fst c) \<and> (\<forall>xs \<in> set (snd c). block xs) \<and> distinct (concat (snd c))
     \<and> set (concat (snd c)) \<inter> avail (fst c) = {} \<and> set (concat (snd c)) \<union> avail (fst c) = slots"

lemma alloc_balanced:
  assumes b: "balanced (s, held)" and f: "fits n"
  shows "\<exists>c. client_step alc fre (s, held) (Alloc n) = Inr c \<and> balanced c"
proof (cases "n \<le> card (avail s)")
  case True
  have s: "ok s" using b by (simp add: balanced_def)
  obtain xs s' where r: "alc s n = Inr (Some xs, s')" "ok s'" "block xs" "distinct xs" "set xs \<subseteq> avail s" "avail s' = avail s - set xs"
    using alloc_served [OF s f True] by blast
  have "balanced (s', held @ [xs])"
    using b r(2-6) unfolding balanced_def by auto
  then show ?thesis using r(1) by simp
next
  case False
  have s: "ok s" using b by (simp add: balanced_def)
  obtain s' where "alc s n = Inr (None, s')" "ok s'" "avail s' = avail s"
    using alloc_refused [OF s f] False by auto
  then show ?thesis using b by (simp add: balanced_def)
qed

lemma release_balanced:
  assumes b: "balanced (s, held)"
  shows "\<exists>c. client_step alc fre (s, held) (Release i) = Inr c \<and> balanced c"
proof (cases "i < length held")
  case True
  define xs where "xs = held ! i"
  have split: "held = take i held @ xs # drop (Suc i) held" using True by (simp add: xs_def id_take_nth_drop)
  define rest where "rest = take i held @ drop (Suc i) held"
  have cat: "mset (concat held) = mset xs + mset (concat rest)"
    by (subst split) (simp add: rest_def)
  have sets: "set (concat held) = set xs \<union> set (concat rest)"
    using arg_cong [OF cat, of set_mset] by simp
  have dis: "distinct xs" "distinct (concat rest)" "set xs \<inter> set (concat rest) = {}"
  proof -
    have "distinct (xs @ concat rest)"
      using b cat unfolding balanced_def by (metis mset_append mset_eq_imp_distinct_iff snd_conv)
    then show "distinct xs" "distinct (concat rest)" "set xs \<inter> set (concat rest) = {}" by simp_all
  qed
  have bl: "block xs" "\<forall>ys \<in> set rest. block ys"
    using b True by (auto simp: balanced_def xs_def rest_def dest: in_set_takeD in_set_dropD)
  have s: "ok s" "set xs \<subseteq> slots" "set xs \<inter> avail s = {}"
    using b sets by (auto simp: balanced_def)
  obtain s' where r: "fre s xs = Inr s'" "ok s'" "avail s' = avail s \<union> set xs"
    using free_returns [OF s(1) bl(1) dis(1) s(2,3)] by blast
  have "balanced (s', rest)"
    unfolding balanced_def fst_conv snd_conv
    using b r dis bl sets by (auto simp: balanced_def)
  then show ?thesis using True r(1) by (simp add: xs_def rest_def)
qed (use b in simp)

lemma run_balanced:
  assumes "balanced c" and "\<forall>n. Alloc n \<in> set ops \<longrightarrow> fits n"
  shows "\<exists>c'. foldE (client_step alc fre) c ops = Inr c' \<and> balanced c'"
  using assms
proof (induction ops arbitrary: c)
  case (Cons p ops)
  obtain s held where c: "c = (s, held)" by fastforce
  have "\<exists>c'. client_step alc fre (s, held) p = Inr c' \<and> balanced c'"
    using Cons.prems alloc_balanced [of s held] release_balanced [of s held] by (cases p) (auto simp: c)
  then obtain c' where "client_step alc fre c p = Inr c'" "balanced c'" using c by blast
  with Cons.IH [of c'] Cons.prems(2) show ?case by auto
qed simp

lemma client_safe:
  assumes "ok s" and "avail s = slots" and "\<forall>n. Alloc n \<in> set ops \<longrightarrow> fits n"
  shows "\<exists>s' held. client_run alc fre s ops = Inr (s', held) \<and> distinct (concat held)
    \<and> set (concat held) \<inter> avail s' = {} \<and> set (concat held) \<union> avail s' = slots"
proof -
  have "balanced (s, [])" using assms(1,2) by (simp add: balanced_def)
  from run_balanced [OF this assms(3)] show ?thesis
    by (auto simp: client_run_def balanced_def)
qed

end

section \<open>Pages\<close>

lemma length_page_slots: "length (page_slots ps pages) = length pages * ps"
  by (induction pages) (simp_all add: page_slots_def)

lemma page_of_slot: "j < ps \<Longrightarrow> (p * ps + j) div ps = (p :: nat)"
  by (cases "ps = 0") simp_all

lemma slot_of_page:
  assumes "0 < ps"
  shows "i \<in> set (map (\<lambda>j. p * ps + j) [0..<ps]) \<longleftrightarrow> i div ps = p"
proof
  assume "i \<in> set (map (\<lambda>j. p * ps + j) [0..<ps])"
  then obtain j where j: "j \<in> set [0..<ps]" "i = p * ps + j" unfolding set_map by (elim imageE)
  then have "j < ps" by simp
  then show "i div ps = p" unfolding j(2) by (rule page_of_slot)
next
  assume "i div ps = p"
  then have "i = p * ps + i mod ps" by (metis div_mult_mod_eq)
  moreover have "i mod ps \<in> set [0..<ps]" using assms by simp
  ultimately show "i \<in> set (map (\<lambda>j. p * ps + j) [0..<ps])" unfolding set_map by (rule image_eqI)
qed

lemma page_slots_Cons: "page_slots ps (p # pages) = map (\<lambda>j. p * ps + j) [0..<ps] @ page_slots ps pages"
  by (simp add: page_slots_def)

lemma page_slots_mem: "0 < ps \<Longrightarrow> i \<in> set (page_slots ps pages) \<longleftrightarrow> i div ps \<in> set pages"
proof (induction pages)
  case (Cons p pages)
  then show ?case unfolding page_slots_Cons set_append Un_iff slot_of_page [OF Cons.prems] by auto
qed (simp add: page_slots_def)

lemma distinct_page_slots: "0 < ps \<Longrightarrow> distinct pages \<Longrightarrow> distinct (page_slots ps pages)"
proof (induction pages)
  case (Cons p pages)
  have "i \<notin> set (page_slots ps pages)" if "i \<in> set (map (\<lambda>j. p * ps + j) [0..<ps])" for i
    using that Cons.prems unfolding slot_of_page [OF Cons.prems(1)] page_slots_mem [OF Cons.prems(1)] by auto
  then have "set (map (\<lambda>j. p * ps + j) [0..<ps]) \<inter> set (page_slots ps pages) = {}" by blast
  moreover have "distinct (map (\<lambda>j. p * ps + j) [0..<ps])" by (simp add: distinct_map inj_on_def)
  ultimately show ?case using Cons unfolding page_slots_Cons distinct_append by simp
qed (simp add: page_slots_def)

lemma set_unique [simp]: "set (unique xs) = set xs"
  by (simp add: unique_def)

lemma distinct_unique [simp]: "distinct (unique xs)"
  by (simp add: unique_def)

lemma length_unique_iff: "length (unique xs) = length xs \<longleftrightarrow> distinct xs"
  unfolding unique_def by (metis length_sort length_remdups_eq distinct_remdups_id remdups_id_iff_distinct)

lemma unique_cong: "set xs = set ys \<Longrightarrow> unique xs = unique ys"
  unfolding unique_def by (metis distinct_remdups set_remdups sorted_list_of_set_sort_remdups)

lemma pages_of_page_slots: "0 < ps \<Longrightarrow> set (map (\<lambda>i. i div ps) (page_slots ps pages)) = set pages"
proof -
  assume ps: "0 < ps"
  have "p \<in> (\<lambda>i. i div ps) ` set (page_slots ps pages)" if "p \<in> set pages" for p
  proof (rule image_eqI)
    show "p = p * ps div ps" using ps by simp
    then show "p * ps \<in> set (page_slots ps pages)" using that page_slots_mem [OF ps] by simp
  qed
  then show ?thesis by (auto simp: page_slots_mem [OF ps])
qed

section \<open>Well-formed allocators\<close>

text \<open>
  No page is listed twice, only pages of the pool are listed, pages wait in \<open>release_pages\<close>
  only when they are to be sorted, and no group of frees is open.
\<close>

definition alloc_ok :: "nat \<Rightarrow> nat \<Rightarrow> kv_alloc \<Rightarrow> bool" where
  "alloc_ok np ps s \<longleftrightarrow> al_page_size s = ps \<and> distinct (free_pages s @ release_pages s)
     \<and> set (free_pages s @ release_pages s) \<subseteq> {1..<np + 1}
     \<and> (\<not> al_need_sort s \<longrightarrow> release_pages s = []) \<and> free_group s = None \<and> free_page_reps_group s = []"

definition listed :: "kv_alloc \<Rightarrow> nat set" where
  "listed s = set (free_pages s @ release_pages s)"

lemma merge_ok:
  assumes "alloc_ok np ps s"
  shows "alloc_ok np ps (merge_and_sort_free s)" "listed (merge_and_sort_free s) = listed s"
    "release_pages (merge_and_sort_free s) = []" "length (free_pages (merge_and_sort_free s)) = length (free_pages s @ release_pages s)"
  using assms by (auto simp: alloc_ok_def listed_def merge_and_sort_free_def)

text \<open>Taking \<open>n\<close> pages, after merging if the free list is short.\<close>

definition ready_pages :: "kv_alloc \<Rightarrow> nat \<Rightarrow> kv_alloc" where
  "ready_pages s n = (if al_need_sort s \<and> n > length (free_pages s) then merge_and_sort_free s else s)"

lemma ready_pages_ok:
  assumes "alloc_ok np ps s"
  shows "alloc_ok np ps (ready_pages s n)" "listed (ready_pages s n) = listed s"
    "n \<le> length (free_pages (ready_pages s n)) \<longleftrightarrow> n \<le> length (free_pages s @ release_pages s)"
  using merge_ok [OF assms] assms by (auto simp: ready_pages_def alloc_ok_def)

lemma card_listed: "alloc_ok np ps s \<Longrightarrow> card (listed s) = length (free_pages s @ release_pages s)"
  unfolding alloc_ok_def listed_def by (metis distinct_card)

lemma take_pages_ok:
  assumes "alloc_ok np ps s" and "n \<le> length (free_pages s)"
  defines "s' \<equiv> s\<lparr> free_pages := drop n (free_pages s) \<rparr>" and "ts \<equiv> take n (free_pages s)"
  shows "alloc_ok np ps s'" "distinct ts" "length ts = n" "set ts \<subseteq> listed s" "listed s' = listed s - set ts"
proof -
  have split: "free_pages s = ts @ drop n (free_pages s)" by (simp add: ts_def)
  have d: "distinct ((ts @ drop n (free_pages s)) @ release_pages s)" using assms(1) split by (simp add: alloc_ok_def)
  show "distinct ts" using d by simp
  show "length ts = n" using assms(2) by (simp add: ts_def)
  show "set ts \<subseteq> listed s" unfolding listed_def by (subst split) auto
  show "listed s' = listed s - set ts" using d unfolding listed_def s'_def by (subst split) auto
  show "alloc_ok np ps s'"
    using assms(1) d unfolding alloc_ok_def s'_def by (auto dest: in_set_dropD)
qed

lemma add_pages_ok:
  assumes "alloc_ok np ps s" and "distinct pages" and "set pages \<subseteq> {1..<np + 1}" and "set pages \<inter> listed s = {}"
  shows "alloc_ok np ps (release_page_ids s pages)" "listed (release_page_ids s pages) = listed s \<union> set pages"
    "debug_check_no_duplicate_pages (release_page_ids s pages) = Inr ()"
  using assms by (auto simp: alloc_ok_def listed_def release_page_ids_def debug_check_no_duplicate_pages_def Let_def length_unique_iff check_def)

section \<open>The two allocators\<close>

interpretation tok: slot_allocator token_alloc token_free "alloc_ok np 1" listed "{1..<np + 1}" "\<lambda>_. True" "\<lambda>_. True"
  for np :: nat
proof
  fix s n and xs :: "nat list"
  assume ok: "alloc_ok np 1 s"
  show "listed s \<subseteq> {1..<np + 1}" using ok by (simp add: alloc_ok_def listed_def)
  have eq: "token_alloc s n = Inr (if n > length (free_pages (ready_pages s n)) then (None, ready_pages s n)
      else (Some (take n (free_pages (ready_pages s n))), (ready_pages s n)\<lparr> free_pages := drop n (free_pages (ready_pages s n)) \<rparr>))" for n
    unfolding token_alloc_def ready_pages_def Let_def ..
  note rp = ready_pages_ok [OF ok] and card = card_listed [OF ok]
  show "\<exists>xs s'. token_alloc s n = Inr (Some xs, s') \<and> alloc_ok np 1 s' \<and> True \<and> distinct xs \<and> length xs = n
      \<and> set xs \<subseteq> listed s \<and> listed s' = listed s - set xs" if "n \<le> card (listed s)"
  proof -
    have len: "n \<le> length (free_pages (ready_pages s n))" using rp(3) [of n] that card by simp
    then show ?thesis using take_pages_ok [OF rp(1) len] rp(2) [of n] by (simp add: eq)
  qed
  show "\<exists>s'. token_alloc s n = Inr (None, s') \<and> alloc_ok np 1 s' \<and> listed s' = listed s" if "card (listed s) < n"
    using rp(1,2,3) [of n] that by (auto simp: eq card)
  show "\<exists>s'. token_free s xs = Inr s' \<and> alloc_ok np 1 s' \<and> listed s' = listed s \<union> set xs"
    if "distinct xs" "set xs \<subseteq> {1..<np + 1}" "set xs \<inter> listed s = {}"
    using ok that by (cases "xs = []") (auto simp: token_free_def alloc_ok_def listed_def)
qed

definition paged_avail :: "nat \<Rightarrow> kv_alloc \<Rightarrow> nat set" where
  "paged_avail ps s = set (page_slots ps (free_pages s @ release_pages s))"

definition whole_pages :: "nat \<Rightarrow> nat list \<Rightarrow> bool" where
  "whole_pages ps xs \<longleftrightarrow> (\<exists>pages. distinct pages \<and> set xs = set (page_slots ps pages))"

lemma paged_avail_mem: "0 < ps \<Longrightarrow> i \<in> paged_avail ps s \<longleftrightarrow> i div ps \<in> listed s"
  by (simp add: paged_avail_def page_slots_mem listed_def)

lemma card_paged_avail: "0 < ps \<Longrightarrow> alloc_ok np ps s \<Longrightarrow> card (paged_avail ps s) = length (free_pages s @ release_pages s) * ps"
  unfolding paged_avail_def alloc_ok_def by (metis distinct_card distinct_page_slots length_page_slots)

lemma paged_free_ok:
  assumes ps: "0 < ps" and ok: "alloc_ok np ps s" and w: "whole_pages ps xs" and xs: "set xs \<subseteq> set (page_slots ps [1..<np + 1])"
    and new: "set xs \<inter> paged_avail ps s = {}"
  shows "\<exists>s'. paged_free s xs = Inr s' \<and> alloc_ok np ps s' \<and> paged_avail ps s' = paged_avail ps s \<union> set xs"
proof (cases "xs = []")
  case True
  then show ?thesis using ok by (simp add: paged_free_def)
next
  case False
  obtain pages where pages: "set xs = set (page_slots ps pages)" using w by (auto simp: whole_pages_def)
  define u where "u = unique (map (\<lambda>i. i div ps) xs)"
  have u: "set u = set pages" "distinct u"
    using pages_of_page_slots [OF ps, of pages] by (simp_all add: u_def pages)
  have mem: "p \<in> set pages \<longleftrightarrow> p * ps \<in> set xs" for p
    using page_slots_mem [OF ps, of "p * ps" pages] ps by (simp add: pages)
  have sub: "set u \<subseteq> {1..<np + 1}"
  proof
    fix p assume "p \<in> set u"
    then have "p * ps \<in> set (page_slots ps [1..<np + 1])" using mem u(1) xs by blast
    then show "p \<in> {1..<np + 1}" using page_slots_mem [OF ps, of "p * ps"] ps by auto
  qed
  have dis: "set u \<inter> listed s = {}"
  proof -
    have "p \<notin> listed s" if "p \<in> set u" for p
      using that mem [of p] new paged_avail_mem [OF ps, of "p * ps" s] u(1) ps by auto
    then show ?thesis by blast
  qed
  note a = add_pages_ok [OF ok u(2) sub dis]
  have "paged_free s xs = Inr (release_page_ids s u)"
    using False ok a(3) by (auto simp: paged_free_def alloc_ok_def u_def Let_def)
  moreover have "paged_avail ps (release_page_ids s u) = paged_avail ps s \<union> set xs"
    using a(2) u(1) pages by (auto simp: paged_avail_mem [OF ps] page_slots_mem [OF ps])
  ultimately show ?thesis using a(1) by blast
qed

lemma paged_alloc_eq:
  assumes "al_page_size s = ps" and "ps dvd n"
  shows "paged_alloc s n = Inr (if n div ps > length (free_pages (ready_pages s (n div ps))) then (None, ready_pages s (n div ps))
    else (Some (page_slots ps (take (n div ps) (free_pages (ready_pages s (n div ps))))),
          (ready_pages s (n div ps))\<lparr> free_pages := drop (n div ps) (free_pages (ready_pages s (n div ps))) \<rparr>))"
  using assms by (simp add: paged_alloc_def ready_pages_def Let_def dvd_eq_mod_eq_0)

lemma paged_allocator:
  assumes ps: "0 < ps"
  shows "slot_allocator paged_alloc paged_free (alloc_ok np ps) (paged_avail ps) (set (page_slots ps [1..<np + 1]))
           (whole_pages ps) (\<lambda>n. ps dvd n)"
proof
  fix s n and xs :: "nat list"
  assume ok: "alloc_ok np ps s"
  have psz: "al_page_size s = ps" using ok by (simp add: alloc_ok_def)
  note rp = ready_pages_ok [OF ok, of "n div ps"] and card = card_paged_avail [OF ps ok]
  show "paged_avail ps s \<subseteq> set (page_slots ps [1..<np + 1])"
  proof
    fix i assume "i \<in> paged_avail ps s"
    then have "i div ps \<in> {1..<np + 1}" using ok by (auto simp: paged_avail_mem [OF ps] alloc_ok_def listed_def)
    then show "i \<in> set (page_slots ps [1..<np + 1])" by (simp add: page_slots_mem [OF ps] del: upt_Suc)
  qed
  have le: "n div ps \<le> k \<longleftrightarrow> n \<le> k * ps" if "ps dvd n" for k
    using that ps by (metis div_le_mono dvd_mult_div_cancel mult.commute mult_le_mono2 nonzero_mult_div_cancel_left not_less_zero)
  show "\<exists>xs s'. paged_alloc s n = Inr (Some xs, s') \<and> alloc_ok np ps s' \<and> whole_pages ps xs \<and> distinct xs \<and> length xs = n
      \<and> set xs \<subseteq> paged_avail ps s \<and> paged_avail ps s' = paged_avail ps s - set xs"
    if d: "ps dvd n" and c: "n \<le> card (paged_avail ps s)"
  proof -
    define r where "r = ready_pages s (n div ps)"
    have len: "n div ps \<le> length (free_pages r)" using le [OF d] c card rp(3) by (simp add: r_def)
    note t = take_pages_ok [OF rp(1) [folded r_def] len]
    have len2: "length (page_slots ps (take (n div ps) (free_pages r))) = n" using t(3) d by (simp add: length_page_slots)
    have "whole_pages ps (page_slots ps (take (n div ps) (free_pages r)))" using t(2) by (auto simp: whole_pages_def)
    moreover have "set (page_slots ps (take (n div ps) (free_pages r))) \<subseteq> paged_avail ps s"
      using t(4) rp(2) by (auto simp: paged_avail_mem [OF ps] page_slots_mem [OF ps] r_def)
    moreover have "paged_avail ps (r\<lparr> free_pages := drop (n div ps) (free_pages r) \<rparr>)
        = paged_avail ps s - set (page_slots ps (take (n div ps) (free_pages r)))"
      using t(5) rp(2) by (auto simp: paged_avail_mem [OF ps] page_slots_mem [OF ps] r_def)
    moreover have "paged_alloc s n = Inr (Some (page_slots ps (take (n div ps) (free_pages r))), r\<lparr> free_pages := drop (n div ps) (free_pages r) \<rparr>)"
      using len by (simp add: paged_alloc_eq [OF psz d] r_def)
    ultimately show ?thesis using t(1) distinct_page_slots [OF ps t(2)] len2 by blast
  qed
  show "\<exists>s'. paged_alloc s n = Inr (None, s') \<and> alloc_ok np ps s' \<and> paged_avail ps s' = paged_avail ps s"
    if d: "ps dvd n" and c: "card (paged_avail ps s) < n"
  proof -
    have "\<not> n div ps \<le> length (free_pages (ready_pages s (n div ps)))" using le [OF d] c card rp(3) by simp
    moreover have "paged_avail ps (ready_pages s (n div ps)) = paged_avail ps s"
      using rp(2) by (auto simp: paged_avail_mem [OF ps])
    ultimately show ?thesis using rp(1) by (auto simp: paged_alloc_eq [OF psz d])
  qed
  show "\<exists>s'. paged_free s xs = Inr s' \<and> alloc_ok np ps s' \<and> paged_avail ps s' = paged_avail ps s \<union> set xs"
    if "whole_pages ps xs" "set xs \<subseteq> set (page_slots ps [1..<np + 1])" "set xs \<inter> paged_avail ps s = {}"
    by (rule paged_free_ok [OF ps ok that])
qed

interpretation pag: slot_allocator paged_alloc paged_free "alloc_ok np (Suc k)" "paged_avail (Suc k)"
    "set (page_slots (Suc k) [1..<np + 1])" "whole_pages (Suc k)" "\<lambda>n. Suc k dvd n" for np k :: nat
  by (rule paged_allocator) simp

text \<open>
  The token allocator is safe. Starting from a cleared pool, for every sequence of
  allocations and frees of held blocks, nothing raises, no slot is ever held twice, no held
  slot is also free, and every slot of the pool is held or free.
\<close>

theorem token_allocator_safe:
  "\<exists>s held. client_run token_alloc token_free (token_init n need_sort) ops = Inr (s, held)
    \<and> distinct (concat held) \<and> set (concat held) \<inter> listed s = {} \<and> set (concat held) \<union> listed s = {1..<n + 1}"
proof -
  have "alloc_ok n 1 (token_init n need_sort)" "listed (token_init n need_sort) = {1..<n + 1}"
    by (auto simp: token_init_def token_clear_def alloc_ok_def listed_def)
  from tok.client_safe [OF this, of ops] show ?thesis by blast
qed

text \<open>
  The page allocator is safe, in the same sense, for page-aligned allocations: blocks
  are whole pages, nothing raises (in debug mode the duplicate-page assertion never fires),
  and the held and the free slots always partition the pages \<open>1\<close> to \<open>num_pages\<close>.
\<close>

theorem paged_allocator_safe:
  assumes "0 < ps" and "\<forall>k. Alloc k \<in> set ops \<longrightarrow> ps dvd k"
  shows "\<exists>s held. client_run paged_alloc paged_free (paged_init n ps need_sort debug) ops = Inr (s, held)
    \<and> distinct (concat held) \<and> set (concat held) \<inter> paged_avail ps s = {}
    \<and> set (concat held) \<union> paged_avail ps s = {ps..<(n div ps + 1) * ps}"
proof -
  let ?s = "paged_init n ps need_sort debug"
  have st: "alloc_ok (n div ps) ps ?s" "paged_avail ps ?s = set (page_slots ps [1..<n div ps + 1])"
    by (auto simp: paged_init_def paged_clear_def alloc_ok_def paged_avail_def num_pages_def simp del: upt_Suc)
  have "set (page_slots ps [1..<n div ps + 1]) = {ps..<(n div ps + 1) * ps}"
  proof (rule set_eqI)
    fix i
    have "1 \<le> i div ps \<longleftrightarrow> ps \<le> i" using assms(1) by (simp add: Suc_le_eq div_greater_zero_iff)
    moreover have "i div ps < n div ps + 1 \<longleftrightarrow> i < (n div ps + 1) * ps" using assms(1) by (simp add: div_less_iff_less_mult)
    ultimately show "i \<in> set (page_slots ps [1..<n div ps + 1]) \<longleftrightarrow> i \<in> {ps..<(n div ps + 1) * ps}"
      by (simp add: page_slots_mem [OF assms(1)] del: upt_Suc)
  qed
  moreover obtain k where "ps = Suc k" using assms(1) by (cases ps) simp_all
  ultimately show ?thesis
    using pag.client_safe [of "n div ps" k ?s ops] st assms(2) by simp
qed

theorem paged_allocator_safe_witness:
  "\<exists>s held. client_run paged_alloc paged_free (paged_init 13 4 True True) [Alloc 8, Alloc 4, Release 0, Alloc 8] = Inr (s, held)
    \<and> distinct (concat held) \<and> set (concat held) \<union> paged_avail 4 s = {4..<16}"
  using paged_allocator_safe [of 4 "[Alloc 8, Alloc 4, Release 0, Alloc 8]" 13 True True] by auto

end
