(* ===== verification/Radix_Slots.thy ===== *)
theory Radix_Slots
  imports Radix_Locks Kv_Allocator
begin

text \<open>
  The slots the prefix cache owns: the bag of the values of all nodes, and that every value
  consists of whole pages. Splits keep the bag, a new leaf adds its value, a deleted
  leaf takes its value out.
\<close>

section \<open>Whole pages\<close>

definition page_exact :: "nat \<Rightarrow> nat list \<Rightarrow> bool" where
  "page_exact ps v \<longleftrightarrow> (\<exists>pages. v = page_slots ps pages)"

lemma page_slots_append: "page_slots ps (as @ bs) = page_slots ps as @ page_slots ps bs"
  by (simp add: page_slots_def)

lemma take_page_slots: "take (m * ps) (page_slots ps pages) = page_slots ps (take m pages)"
proof (induction pages arbitrary: m)
  case (Cons p pages)
  show ?case
  proof (cases m)
    case (Suc m')
    have "take (m * ps) (page_slots ps (p # pages)) = map (\<lambda>j. p * ps + j) [0..<ps] @ take (m' * ps) (page_slots ps pages)"
      unfolding page_slots_Cons Suc by simp
    then show ?thesis using Cons.IH [of m'] by (simp add: Suc page_slots_Cons)
  qed (simp add: page_slots_def)
qed (simp add: page_slots_def)

lemma drop_page_slots: "drop (m * ps) (page_slots ps pages) = page_slots ps (drop m pages)"
proof -
  have "take (m * ps) (page_slots ps pages) @ drop (m * ps) (page_slots ps pages) = page_slots ps (take m pages) @ page_slots ps (drop m pages)"
    by (simp add: page_slots_append [symmetric])
  then show ?thesis unfolding take_page_slots by simp
qed

lemma page_exact_split:
  assumes "page_exact ps v" and "ps dvd m"
  shows "page_exact ps (take m v)" "page_exact ps (drop m v)"
proof -
  obtain pages q where p: "v = page_slots ps pages" "m = q * ps" using assms by (metis page_exact_def dvdE mult.commute)
  have "take m v = page_slots ps (take q pages)" "drop m v = page_slots ps (drop q pages)"
    unfolding p by (rule take_page_slots, rule drop_page_slots)
  then show "page_exact ps (take m v)" "page_exact ps (drop m v)" unfolding page_exact_def by blast+
qed

section \<open>The bag of slots\<close>

definition tree_slots :: "radix_cache \<Rightarrow> nat multiset" where
  "tree_slots s = (\<Sum>n \<in> inner s. mset (tn_value (rc_nodes s n)))"

definition tree_paged :: "radix_cache \<Rightarrow> bool" where
  "tree_paged s \<longleftrightarrow> (\<forall>n \<in> inner s. page_exact (rc_page_size s) (tn_value (rc_nodes s n)))"

lemma shape_slots:
  assumes "same_shape s s'"
  shows "tree_slots s' = tree_slots s" "tree_paged s' = tree_paged s"
  using assms shape_inner [OF assms] by (simp_all add: tree_slots_def tree_paged_def same_shape_def)

lemma split_slots:
  assumes ok: "tree_ok s" and p: "reach s p" and pc: "edge s p c" and sp: "splits s p c m s'" and m: "rc_page_size s dvd m"
  shows "tree_slots s' = tree_slots s" "tree_paged s \<Longrightarrow> tree_paged s'"
proof -
  let ?w = "rc_counter s" and ?v = "\<lambda>s n. mset (tn_value (rc_nodes s n))"
  have c: "c \<in> inner s" using reach_step [OF p pc] edge_facts(5) [OF ok p pc] by (simp add: inner_def)
  have lt: "n \<noteq> ?w" if "reach s n" for n using reach_counter [OF ok that] by simp
  have rr: "rc_root s' = rc_root s" "rc_page_size s' = rc_page_size s" using splits_simps [OF sp] by simp_all
  have inn: "inner s' = insert ?w (inner s)" and w: "?w \<notin> inner s"
    using split_reach [OF ok p pc sp] rr lt [OF reach_root] lt by (auto simp: inner_def)
  have vs: "tn_value (rc_nodes s' ?w) = take m (tn_value (rc_nodes s c))" "tn_value (rc_nodes s' c) = drop m (tn_value (rc_nodes s c))"
    using sp by (simp_all add: splits_def Let_def)
  have oth: "tn_value (rc_nodes s' n) = tn_value (rc_nodes s n)" if "n \<in> inner s - {c}" for n
    using that split_labels(2) [OF sp, of n] w by auto
  have fin: "finite (inner s)" by (rule finite_inner [OF ok])
  have "tree_slots s' = ?v s' ?w + (\<Sum>n \<in> inner s. ?v s' n)" unfolding tree_slots_def inn using fin w by (rule sum.insert)
  also have "(\<Sum>n \<in> inner s. ?v s' n) = ?v s' c + (\<Sum>n \<in> inner s - {c}. ?v s' n)" using fin c by (rule sum.remove)
  also have "(\<Sum>n \<in> inner s - {c}. ?v s' n) = (\<Sum>n \<in> inner s - {c}. ?v s n)" using oth by (intro sum.cong) simp_all
  also have "?v s' ?w + (?v s' c + (\<Sum>n \<in> inner s - {c}. ?v s n)) = ?v s c + (\<Sum>n \<in> inner s - {c}. ?v s n)"
    unfolding vs by (metis append_take_drop_id mset_append union_assoc)
  also have "\<dots> = tree_slots s" unfolding tree_slots_def by (rule sum.remove [OF fin c, symmetric])
  finally show "tree_slots s' = tree_slots s" .
  assume pg: "tree_paged s"
  then have e: "page_exact (rc_page_size s) (tn_value (rc_nodes s c))" using c by (simp add: tree_paged_def)
  show "tree_paged s'" unfolding tree_paged_def inn rr
  proof
    fix n assume n: "n \<in> insert ?w (inner s)"
    show "page_exact (rc_page_size s) (tn_value (rc_nodes s' n))"
      using page_exact_split [OF e m] vs oth [of n] pg n unfolding tree_paged_def by (cases "n = ?w"; cases "n = c") auto
  qed
qed

lemma grow_slots:
  assumes ok: "tree_ok s" and p: "reach s p" and g: "grows s p ck key val s'" and fresh: "map_of (tn_children (rc_nodes s p)) ck = None"
  shows "tree_slots s' = tree_slots s + mset val" "tree_paged s \<Longrightarrow> page_exact (rc_page_size s) val \<Longrightarrow> tree_paged s'"
proof -
  let ?w = "rc_counter s"
  have lt: "n \<noteq> ?w" if "reach s n" for n using reach_counter [OF ok that] by simp
  have rr: "rc_root s' = rc_root s" "rc_page_size s' = rc_page_size s" using g by (simp_all add: grows_def Let_def)
  have inn: "inner s' = insert ?w (inner s)" and w: "?w \<notin> inner s" using grow_reach [OF ok p g fresh] rr lt [OF reach_root] lt by (auto simp: inner_def)
  have v: "tn_value (rc_nodes s' n) = (if n = ?w then val else tn_value (rc_nodes s n))" for n using g by (simp add: grows_def Let_def)
  have "(\<Sum>n \<in> inner s. mset (tn_value (rc_nodes s' n))) = tree_slots s" unfolding tree_slots_def using v w by (intro sum.cong) auto
  then show "tree_slots s' = tree_slots s + mset val"
    unfolding tree_slots_def [of s'] inn using finite_inner [OF ok] w v by (simp add: union_commute)
  show "tree_paged s'" if "tree_paged s" "page_exact (rc_page_size s) val" using that inn w v rr by (auto simp: tree_paged_def)
qed

lemma cut_slots:
  assumes ok: "tree_ok s" and p: "reach s p" and x: "edge s p x" and leaf: "tn_children (rc_nodes s x) = []" and c: "cuts s p x s'"
  shows "tree_slots s = tree_slots s' + mset (tn_value (rc_nodes s x))" "tree_paged s \<Longrightarrow> tree_paged s'"
proof -
  have rr: "rc_root s' = rc_root s" "rc_page_size s' = rc_page_size s" using c by (simp_all add: cuts_def)
  have xin: "x \<in> inner s" using reach_step [OF p x] edge_facts(5) [OF ok p x] by (simp add: inner_def)
  have inn: "inner s' = inner s - {x}" using cut_reach [OF ok p c leaf x] rr by (auto simp: inner_def)
  have v: "tn_value (rc_nodes s' n) = tn_value (rc_nodes s n)" for n using c by (simp add: cuts_def)
  show "tree_slots s = tree_slots s' + mset (tn_value (rc_nodes s x))"
    unfolding tree_slots_def inn v sum.remove [OF finite_inner [OF ok] xin] by (rule union_commute)
  show "tree_paged s'" if "tree_paged s" using that inn v rr by (simp add: tree_paged_def)
qed

end
