(* ===== verification/Radix_Match.thy ===== *)
theory Radix_Match
  imports Radix_Slots
begin

text \<open>
  Walking down the prefix cache: \<open>match_prefix\<close> returns the slots of the longest held
  prefix in whole pages and \<open>insert\<close> adds exactly the rest, both within the fuel of
  their loops and keeping every invariant.
\<close>

section \<open>Refining a state without changing what it holds\<close>

definition cache_ok :: "nat multiset \<Rightarrow> radix_cache \<Rightarrow> bool" where
  "cache_ok L s \<longleftrightarrow> tree_ok s \<and> acct_ok s \<and> locks_ok L s"

definition refines :: "radix_cache \<Rightarrow> radix_cache \<Rightarrow> bool" where
  "refines s s' \<longleftrightarrow> rc_root s' = rc_root s \<and> rc_page_size s' = rc_page_size s \<and> rc_is_eagle s' = rc_is_eagle s \<and> rc_disable s' = rc_disable s
     \<and> rc_evictable_size s' = rc_evictable_size s \<and> rc_protected_size s' = rc_protected_size s
     \<and> (tree_ok s \<longrightarrow> tree_ok s') \<and> holds s' = holds s \<and> (\<forall>n us vs. rpath s (rc_root s) n us vs \<longrightarrow> rpath s' (rc_root s) n us vs)
     \<and> (\<forall>n. tree_ok s \<and> reach s n \<longrightarrow> reach s' n \<and> (n \<noteq> rc_root s \<longrightarrow> rk_ns (tn_key (rc_nodes s' n)) = rk_ns (tn_key (rc_nodes s n))))
     \<and> (acct_ok s \<longrightarrow> acct_ok s') \<and> (\<forall>L. locks_ok L s \<longrightarrow> locks_ok L s')
     \<and> tree_slots s' = tree_slots s \<and> (tree_paged s \<longrightarrow> tree_paged s')"

lemma refines_refl [simp]: "refines s s"
  by (simp add: refines_def)

lemma refines_trans: "refines s s' \<Longrightarrow> refines s' s'' \<Longrightarrow> refines s s''"
  by (simp add: refines_def)

lemma refines_cache_ok: "refines s s' \<Longrightarrow> cache_ok L s \<Longrightarrow> cache_ok L s'"
  by (simp add: refines_def cache_ok_def)

lemma account_refines:
  assumes "same_account s s'"
  shows "refines s s'"
proof -
  have sh: "same_shape s s'" using assms by (simp add: same_account_def)
  then show ?thesis
    using assms account_acct_ok [OF assms] account_locks_ok [OF assms] shape_tree_ok [OF sh] shape_holds [OF sh] shape_rpath [OF sh] shape_reach [OF sh]
      shape_slots [OF sh]
    by (simp add: refines_def same_account_def same_shape_def)
qed

lemma split_refines:
  assumes ok: "tree_ok s" and p: "reach s p" and pc: "edge s p c" and sp: "splits s p c m s'"
    and m: "0 < m" "m < rk_len (tn_key (rc_nodes s c))" "rc_page_size s dvd m"
  shows "refines s s'"
proof -
  have "reach s' n \<and> rk_ns (tn_key (rc_nodes s' n)) = rk_ns (tn_key (rc_nodes s n))" if "reach s n" for n
  proof (cases "n = c")
    case True
    then have "tn_key (rc_nodes s' n) = rk_from (tn_key (rc_nodes s n)) m" using sp by (simp add: splits_def Let_def)
    then show ?thesis using that split_reach [OF ok p pc sp] edge_facts(6) [OF ok p pc] True by simp
  next
    case False
    then show ?thesis using that split_reach [OF ok p pc sp] split_labels [OF sp _ False] reach_counter [OF ok that] by simp
  qed
  then show ?thesis unfolding refines_def
    using split_tree_ok [OF assms] split_holds [OF ok p pc sp m(2)] split_path_old [OF ok p pc sp] split_acct_ok [OF ok p pc sp m(1,2)]
      split_locks_ok [OF ok p pc sp] splits_simps [OF sp] sp split_slots [OF ok p pc sp m(3)]
    by (simp add: splits_def Let_def)
qed

section \<open>Looking up children\<close>

lemma rpath_ns:
  assumes "tree_ok s" and "reach s p" and "p \<noteq> rc_root s" and "rpath s p n us vs"
  shows "rk_ns (tn_key (rc_nodes s n)) = rk_ns (tn_key (rc_nodes s p))"
  using assms(4)
proof (induction rule: rpath.induct)
  case (rpath_step m us vs c)
  have "reach s m" "m \<noteq> rc_root s"
    using rpath_reach [OF rpath_step(1) assms(2)] rpath_lengths(4) [OF assms(1,2) rpath_step(1)] assms(3) by auto
  then show ?case using edge_facts(8) [OF assms(1) _ rpath_step(2)] rpath_step.IH by simp
qed simp

lemma lookup_child:
  assumes ok: "tree_ok s" and p: "reach s p" and c: "edge s p c" and k: "rk_is_bigram k = rc_is_eagle s" "rc_page_size s \<le> rk_len k"
    and ck: "child_key k (rc_page_size s) = Inr ck"
    and eq: "rk_ns (tn_key (rc_nodes s c)) = rk_ns k" "take (rc_page_size s) (rk_iter (tn_key (rc_nodes s c))) = take (rc_page_size s) (rk_iter k)"
  shows "map_of (tn_children (rc_nodes s p)) ck = Some c"
proof -
  obtain j where j: "child_ok s p j c" "map_of (tn_children (rc_nodes s p)) j = Some c" using edge_child_ok [OF ok p c] by blast
  have "0 < rc_page_size s" using ok by (simp add: tree_ok_def)
  then have "child_key (tn_key (rc_nodes s c)) (rc_page_size s) = child_key k (rc_page_size s)"
    using child_key_eq_iff [of "tn_key (rc_nodes s c)" k "rc_page_size s"] edge_facts(7,9) [OF ok p c] k eq by simp
  then have "j = ck" using ck j(1) by (simp add: child_ok_def Let_def)
  then show ?thesis using j(2) by simp
qed

lemma child_lookup:
  assumes ok: "tree_ok s" and p: "reach s p" and k: "rk_is_bigram k = rc_is_eagle s" "rc_page_size s \<le> rk_len k"
    and ck: "child_key k (rc_page_size s) = Inr ck" and m: "map_of (tn_children (rc_nodes s p)) ck = Some c"
  shows "edge s p c" "rk_ns (tn_key (rc_nodes s c)) = rk_ns k" "take (rc_page_size s) (rk_iter (tn_key (rc_nodes s c))) = take (rc_page_size s) (rk_iter k)"
proof -
  have mem: "(ck, c) \<in> set (tn_children (rc_nodes s p))" using map_of_SomeD [OF m] .
  then show e: "edge s p c" by (force simp: edge_def)
  have "child_ok s p ck c" using mem ok p by (auto simp: tree_ok_def)
  then have "child_key (tn_key (rc_nodes s c)) (rc_page_size s) = child_key k (rc_page_size s)" using ck by (simp add: child_ok_def Let_def)
  moreover have "0 < rc_page_size s" using ok by (simp add: tree_ok_def)
  ultimately show "rk_ns (tn_key (rc_nodes s c)) = rk_ns k" "take (rc_page_size s) (rk_iter (tn_key (rc_nodes s c))) = take (rc_page_size s) (rk_iter k)"
    using child_key_eq_iff [of "tn_key (rc_nodes s c)" k "rc_page_size s"] edge_facts(7,9) [OF ok p e] k by simp_all
qed

lemma child_unique:
  assumes ok: "tree_ok s" and p: "reach s p" and c: "edge s p c" and d: "edge s p d"
    and eq: "rk_ns (tn_key (rc_nodes s c)) = rk_ns (tn_key (rc_nodes s d))"
      "take (rc_page_size s) (rk_iter (tn_key (rc_nodes s c))) = take (rc_page_size s) (rk_iter (tn_key (rc_nodes s d)))"
  shows "c = d"
proof -
  obtain j where j: "child_ok s p j d" "map_of (tn_children (rc_nodes s p)) j = Some d" using edge_child_ok [OF ok p d] by blast
  have "map_of (tn_children (rc_nodes s p)) j = Some c"
    using j(1) by (intro lookup_child [OF ok p c _ _ _ eq]) (use edge_facts [OF ok p d] in \<open>auto simp: child_ok_def Let_def\<close>)
  then show ?thesis using j(2) by simp
qed

text \<open>A longer path with the same labels passes through the node of the shorter one.\<close>

lemma path_through:
  assumes ok: "tree_ok s" and "rpath s (rc_root s) node us0 vs0" and "node = rc_root s \<or> rk_ns (tn_key (rc_nodes s node)) = N"
    and n: "rpath s (rc_root s) n us vs" "n \<noteq> rc_root s" "rk_ns (tn_key (rc_nodes s n)) = N" and "prefix us0 us"
  shows "\<exists>us' vs'. rpath s node n us' vs' \<and> us = us0 @ us' \<and> vs = vs0 @ vs'"
  using assms(2,3,7)
proof (induction rule: rpath.induct)
  case rpath_refl
  then show ?case using n by auto
next
  case (rpath_step m us0 vs0 c)
  have m: "reach s m" using rpath_reach [OF rpath_step(1) reach_root] .
  note e = edge_facts [OF ok m rpath_step(2)]
  let ?k = "tn_key (rc_nodes s c)"
  have "m = rc_root s \<or> rk_ns (tn_key (rc_nodes s m)) = N" using e(5,8) rpath_step(4) by auto
  moreover have "prefix us0 us" using rpath_step(5) by (meson append_prefixD)
  ultimately obtain us' vs' where u: "rpath s m n us' vs'" "us = us0 @ us'" "vs = vs0 @ vs'" using rpath_step.IH by blast
  have pre: "prefix (rk_iter ?k) us'" using rpath_step(5) u(2) by simp
  have "0 < length (rk_iter ?k)" using e(2) by simp
  then have "us' \<noteq> []" using prefix_length_le [OF pre] by auto
  then obtain d us'' vs'' where d: "edge s m d" "rpath s d n us'' vs''" "us' = rk_iter (tn_key (rc_nodes s d)) @ us''" "vs' = tn_value (rc_nodes s d) @ vs''"
    using rpath_first [OF u(1)] by blast
  note f = edge_facts [OF ok m d(1)]
  have "rk_ns (tn_key (rc_nodes s d)) = N" using rpath_ns [OF ok reach_step [OF m d(1)] f(5) d(2)] n(3) by simp
  moreover have "rk_ns ?k = N" using rpath_step(4) e(5) by simp
  moreover have "take (rc_page_size s) (rk_iter ?k) = take (rc_page_size s) (rk_iter (tn_key (rc_nodes s d)))"
  proof -
    have "take (rc_page_size s) (rk_iter ?k) = take (rc_page_size s) us'" using pre e(9) by (auto simp: prefix_def)
    also have "\<dots> = take (rc_page_size s) (rk_iter (tn_key (rc_nodes s d)))" using d(3) f(9) by simp
    finally show ?thesis .
  qed
  ultimately have "d = c" using child_unique [OF ok m d(1) rpath_step(2)] by simp
  then show ?case using d u by auto
qed

lemma path_node_unique:
  assumes ok: "tree_ok s" and n: "rpath s (rc_root s) n us vs" "n = rc_root s \<or> rk_ns (tn_key (rc_nodes s n)) = N"
    and n': "rpath s (rc_root s) n' us vs'" "n' = rc_root s \<or> rk_ns (tn_key (rc_nodes s n')) = N"
  shows "n = n' \<and> vs = vs'"
proof -
  have "n = n'"
  proof (cases "n' = rc_root s")
    case True
    then have "us = []" using root_path_unique [OF ok n'(1)] rpath_refl [of s "rc_root s"] by auto
    then show ?thesis using rpath_lengths(3) [OF ok reach_root n(1)] True by simp
  next
    case False
    then obtain us' vs'' where "rpath s n n' us' vs''" "us = us @ us'" using path_through [OF ok n n'(1) False] n'(2) by blast
    then show ?thesis using rpath_lengths(3) [OF ok rpath_reach [OF n(1) reach_root], of n' "[]" vs''] by auto
  qed
  then show ?thesis using root_path_unique [OF ok n(1)] n'(1) by blast
qed

section \<open>A position in the walk\<close>

definition walk_at :: "radix_cache \<Rightarrow> runit list \<Rightarrow> string option \<times> string option \<Rightarrow> nat \<Rightarrow> radix_key \<Rightarrow> runit list \<Rightarrow> nat list \<Rightarrow> bool" where
  "walk_at s U N node k us vs \<longleftrightarrow> tree_ok s \<and> rpath s (rc_root s) node us vs \<and> U = us @ rk_iter k \<and> rk_ok k \<and> rk_is_bigram k = rc_is_eagle s
     \<and> rc_page_size s dvd rk_len k \<and> rk_ns k = N \<and> (node = rc_root s \<or> rk_ns (tn_key (rc_nodes s node)) = N)"

definition stopped :: "radix_cache \<Rightarrow> nat \<Rightarrow> radix_key \<Rightarrow> bool" where
  "stopped s node k \<longleftrightarrow> rk_len k = 0 \<or> (\<exists>ck. child_key k (rc_page_size s) = Inr ck \<and> map_of (tn_children (rc_nodes s node)) ck = None)"

definition longest_held :: "radix_cache \<Rightarrow> string option \<times> string option \<Rightarrow> runit list \<Rightarrow> nat \<Rightarrow> bool" where
  "longest_held s N U m \<longleftrightarrow> m \<le> length U \<and> rc_page_size s dvd m \<and> (0 < m \<longrightarrow> (\<exists>vs. holds s N (take m U) vs))
     \<and> (\<forall>m' vs. m' \<le> length U \<and> holds s N (take m' U) vs \<longrightarrow> m' div rc_page_size s * rc_page_size s \<le> m)"

lemma walk_at_facts:
  assumes "walk_at s U N node k us vs"
  shows "reach s node" "rc_page_size s dvd length us" "length vs = length us" "take (length us) U = us" "0 < rc_page_size s"
    "0 < rk_len k \<Longrightarrow> rc_page_size s \<le> rk_len k"
proof -
  have ok: "tree_ok s" and r: "rpath s (rc_root s) node us vs" and U: "U = us @ rk_iter k" using assms by (simp_all add: walk_at_def)
  show "reach s node" using rpath_reach [OF r reach_root] .
  show "rc_page_size s dvd length us" "length vs = length us" using rpath_lengths [OF ok reach_root r] by simp_all
  show "take (length us) U = us" using U by simp
  show "0 < rc_page_size s" using ok by (simp add: tree_ok_def)
  show "0 < rk_len k \<Longrightarrow> rc_page_size s \<le> rk_len k" using assms by (simp add: walk_at_def dvd_imp_le)
qed

lemma walk_at_holds:
  assumes "walk_at s U N node k us vs" and "us \<noteq> []"
  shows "holds s N us vs"
proof -
  have ok: "tree_ok s" and r: "rpath s (rc_root s) node us vs" using assms by (simp_all add: walk_at_def)
  have n: "node \<noteq> rc_root s" using r assms(2) root_path_unique [OF ok r, of "[]" "[]"] rpath_refl [of s "rc_root s"] by auto
  then have "rk_ns (tn_key (rc_nodes s node)) = N" using assms(1) by (simp add: walk_at_def)
  then show ?thesis by (rule holdsI [OF n r]) (simp_all add: walk_at_facts(3) [OF assms(1)])
qed

lemma dvd_div_less:
  fixes ps :: nat
  assumes "ps dvd a" and "a < m div ps * ps"
  shows "a + ps \<le> m div ps * ps"
proof -
  obtain q where q: "a = ps * q" using assms(1) by blast
  then have "q < m div ps" using assms(2) by (simp add: mult.commute)
  then have "Suc q * ps \<le> m div ps * ps" by (intro mult_right_mono) auto
  then show ?thesis using q by (simp add: mult.commute)
qed

text \<open>Where the walk stops no longer prefix in whole pages is held.\<close>

lemma stopped_longest:
  assumes w: "walk_at s U N node k us vs" and st: "stopped s node k"
  shows "longest_held s N U (length us)"
proof -
  let ?ps = "rc_page_size s"
  note f = walk_at_facts [OF w]
  have ok: "tree_ok s" and r: "rpath s (rc_root s) node us vs" and U: "U = us @ rk_iter k" and k: "rk_is_bigram k = rc_is_eagle s" "rk_ns k = N"
    and nd: "node = rc_root s \<or> rk_ns (tn_key (rc_nodes s node)) = N" using w by (simp_all add: walk_at_def)
  have "m div ?ps * ?ps \<le> length us" if m: "m \<le> length U" "holds s N (take m U) xs" for m xs
  proof (rule ccontr)
    assume "\<not> m div ?ps * ?ps \<le> length us"
    then have ge: "length us + ?ps \<le> m" using dvd_div_less [OF f(2), of m] div_times_less_eq_dividend [of m ?ps] by linarith
    then have len: "?ps \<le> rk_len k" "0 < rk_len k" using m(1) U f(5) by auto
    then obtain ck where ck: "child_key k ?ps = Inr ck" "map_of (tn_children (rc_nodes s node)) ck = None" using st by (auto simp: stopped_def)
    obtain n us' vs' where n: "n \<noteq> rc_root s" "rpath s (rc_root s) n us' vs'" "rk_ns (tn_key (rc_nodes s n)) = N" "prefix (take m U) us'"
      using m(2) by (auto simp: holds_def)
    have "take m U = us @ take (m - length us) (rk_iter k)" using ge U by simp
    then have "prefix us us'" using n(4) by (metis append_prefixD)
    then obtain us'' vs'' where p: "rpath s node n us'' vs''" "us' = us @ us''" using path_through [OF ok r nd n(2,1,3)] by blast
    have pre: "prefix (take (m - length us) (rk_iter k)) us''" using n(4) \<open>take m U = _\<close> p(2) by simp
    have page: "take ?ps us'' = take ?ps (rk_iter k)"
    proof -
      obtain zs where "us'' = take (m - length us) (rk_iter k) @ zs" using pre by (auto simp: prefix_def)
      moreover have "?ps \<le> m - length us" using ge by linarith
      ultimately show ?thesis using len by (simp add: min_absorb1)
    qed
    then have "us'' \<noteq> []" using len f(5) by (metis length_rk_iter less_numeral_extra(3) list.size(3) take_eq_Nil)
    then obtain d xs' ys' where d: "edge s node d" "rpath s d n xs' ys'" "us'' = rk_iter (tn_key (rc_nodes s d)) @ xs'" using rpath_first [OF p(1)] by blast
    note e = edge_facts [OF ok f(1) d(1)]
    have "rk_ns (tn_key (rc_nodes s d)) = rk_ns k" using rpath_ns [OF ok reach_step [OF f(1) d(1)] e(5) d(2)] n(3) k(2) by simp
    moreover have "take ?ps (rk_iter (tn_key (rc_nodes s d))) = take ?ps (rk_iter k)" using page d(3) e(9) by simp
    ultimately have "map_of (tn_children (rc_nodes s node)) ck = Some d" by (rule lookup_child [OF ok f(1) d(1) k(1) len(1) ck(1)])
    then show False using ck(2) by simp
  qed
  moreover have "0 < length us \<longrightarrow> (\<exists>vs. holds s N (take (length us) U) vs)" using walk_at_holds [OF w] f(4) by fastforce
  ultimately show ?thesis unfolding longest_held_def using f(2) U by auto
qed


section \<open>One step of the walk\<close>

lemma walk_account:
  assumes "same_account s s'"
  shows "walk_at s' U N node k us vs = walk_at s U N node k us vs" "stopped s' node k = stopped s node k"
proof -
  have sh: "same_shape s s'" using assms by (simp add: same_account_def)
  show "walk_at s' U N node k us vs = walk_at s U N node k us vs"
    using shape_tree_ok [OF sh] shape_rpath [OF sh] sh by (simp add: walk_at_def same_shape_def)
  show "stopped s' node k = stopped s node k" using sh by (simp add: stopped_def same_shape_def)
qed

lemma walk_child:
  assumes w: "walk_at s U N node k us vs" and pos: "0 < rk_len k"
    and ck: "child_key k (rc_page_size s) = Inr ck" "map_of (tn_children (rc_nodes s node)) ck = Some c"
  obtains pl where "rk_match (tn_key (rc_nodes s c)) k (rc_page_size s) = Inr pl" "0 < pl" "rc_page_size s dvd pl" "pl \<le> rk_len (tn_key (rc_nodes s c))" "pl \<le> rk_len k"
    "take pl (rk_iter (tn_key (rc_nodes s c))) = take pl (rk_iter k)" "edge s node c" "rk_ns (tn_key (rc_nodes s c)) = N"
    "pl < rk_len (tn_key (rc_nodes s c)) \<Longrightarrow> pl < rk_len k \<Longrightarrow>
       take (rc_page_size s) (drop pl (rk_iter (tn_key (rc_nodes s c)))) \<noteq> take (rc_page_size s) (drop pl (rk_iter k))"
proof -
  let ?ps = "rc_page_size s" and ?k = "tn_key (rc_nodes s c)"
  let ?l = "lcp (rk_iter ?k) (rk_iter k)"
  let ?pl = "?l div ?ps * ?ps"
  note f = walk_at_facts [OF w]
  have ok: "tree_ok s" and k: "rk_is_bigram k = rc_is_eagle s" "rk_ns k = N" "?ps dvd rk_len k" using w by (simp_all add: walk_at_def)
  note c = child_lookup [OF ok f(1) k(1) f(6) [OF pos] ck]
  note e = edge_facts [OF ok f(1) c(1)]
  have "rk_match ?k k ?ps = (if rk_ns ?k = rk_ns k then Inr ?pl else Inl ValueError)"
    by (rule rk_match_value) (use e(7) k f(5) in simp_all)
  then have 1: "rk_match ?k k ?ps = Inr ?pl" using c(2) by simp
  have "?ps \<le> ?l" using c(3) e(9) f(6) [OF pos] by (intro lcp_ge) simp_all
  then have 2: "0 < ?pl" using f(5) by (simp add: div_greater_zero_iff)
  have le: "?pl \<le> ?l" by simp
  have 3: "?pl \<le> rk_len ?k" "?pl \<le> rk_len k" using le lcp_le [of "rk_iter ?k" "rk_iter k"] by (simp_all del: div_times_less_eq_dividend)
  have 4: "take ?pl (rk_iter ?k) = take ?pl (rk_iter k)"
    using arg_cong [OF lcp_take, of "take ?pl" "rk_iter ?k" "rk_iter k"] le by (simp add: min_absorb1 del: div_times_less_eq_dividend)
  have 5: "take ?ps (drop ?pl (rk_iter ?k)) \<noteq> take ?ps (drop ?pl (rk_iter k))" if lt: "?pl < rk_len ?k" "?pl < rk_len k"
  proof
    assume "take ?ps (drop ?pl (rk_iter ?k)) = take ?ps (drop ?pl (rk_iter k))"
    then have "take (?pl + ?ps) (rk_iter ?k) = take (?pl + ?ps) (rk_iter k)" using 4 by (simp add: take_add)
    moreover have "?pl + ?ps \<le> rk_len ?k" "?pl + ?ps \<le> rk_len k"
      using dvd_div_less [of ?ps ?pl "rk_len ?k"] dvd_div_less [of ?ps ?pl "rk_len k"] lt e(3) k(3) by simp_all
    ultimately have "?pl + ?ps \<le> ?l" by (intro lcp_ge) simp_all
    then show False using mod_less_divisor [OF f(5), of ?l] div_mult_mod_eq [of ?l ?ps] by linarith
  qed
  show ?thesis by (rule that [OF 1 2 _ 3 4 c(1)]) (use 5 c(2) k(2) in auto)
qed

lemma walk_full:
  assumes w: "walk_at s U N node k us vs" and e: "edge s node c" and ns: "rk_ns (tn_key (rc_nodes s c)) = N"
    and pl: "pl = rk_len (tn_key (rc_nodes s c))" "pl \<le> rk_len k" "take pl (rk_iter (tn_key (rc_nodes s c))) = take pl (rk_iter k)"
  shows "walk_at s U N c (rk_from k pl) (us @ rk_iter (tn_key (rc_nodes s c))) (vs @ tn_value (rc_nodes s c))"
proof -
  have ok: "tree_ok s" and r: "rpath s (rc_root s) node us vs" using w by (simp_all add: walk_at_def)
  have "rk_iter (tn_key (rc_nodes s c)) = take pl (rk_iter k)" using pl by simp
  then have "rk_iter k = rk_iter (tn_key (rc_nodes s c)) @ rk_iter (rk_from k pl)" by (simp add: rk_from_iter)
  moreover have "rc_page_size s dvd pl" using edge_facts(3) [OF ok walk_at_facts(1) [OF w] e] pl by simp
  ultimately show ?thesis using w rpath_step [OF r e] ns by (simp add: walk_at_def dvd_diff_nat)
qed

lemma walk_split:
  assumes w: "walk_at s U N node k us vs" and e: "edge s node c" and ns: "rk_ns (tn_key (rc_nodes s c)) = N"
    and pl: "0 < pl" "rc_page_size s dvd pl" "pl < rk_len (tn_key (rc_nodes s c))" "pl \<le> rk_len k" "take pl (rk_iter (tn_key (rc_nodes s c))) = take pl (rk_iter k)"
    and diff: "pl < rk_len k \<Longrightarrow> take (rc_page_size s) (drop pl (rk_iter (tn_key (rc_nodes s c)))) \<noteq> take (rc_page_size s) (drop pl (rk_iter k))"
  obtains s' where "split_node s (tn_key (rc_nodes s c)) c pl = Inr (rc_counter s, s')" "refines s s'"
    "walk_at s' U N (rc_counter s) (rk_from k pl) (us @ take pl (rk_iter k)) (vs @ tn_value (rc_nodes s' (rc_counter s)))"
    "stopped s' (rc_counter s) (rk_from k pl)"
proof -
  let ?k = "tn_key (rc_nodes s c)" and ?ps = "rc_page_size s" and ?w = "rc_counter s"
  have ok: "tree_ok s" and r: "rpath s (rc_root s) node us vs" and U: "U = us @ rk_iter k"
    and k: "rk_ok k" "rk_is_bigram k = rc_is_eagle s" "?ps dvd rk_len k" "rk_ns k = N" using w by (simp_all add: walk_at_def)
  note nd = walk_at_facts(1) [OF w]
  note f = edge_facts [OF ok nd e]
  have ps: "0 < ?ps" using ok by (simp add: tree_ok_def)
  have room: "?ps \<le> rk_len ?k - pl" using pl f(3) by (meson dvd_diff_nat dvd_imp_le zero_less_diff)
  obtain s' where s': "split_node s ?k c pl = Inr (?w, s')" and sp: "splits s node c pl s'" using split_node_splits [OF ok nd e room] by blast
  have re: "refines s s'" by (rule split_refines [OF ok nd e sp pl(1,3,2)])
  note st = splits_simps [OF sp]
  have lab: "tn_key (rc_nodes s' ?w) = rk_slice ?k 0 pl" using sp by (simp add: splits_def Let_def)
  have it: "rk_iter (tn_key (rc_nodes s' ?w)) = take pl (rk_iter k)" using lab pl(5) by (simp add: rk_slice_iter)
  have "edge s' node ?w" using split_edges [OF ok nd e sp, of node ?w] reach_counter [OF ok nd] by simp
  then have path: "rpath s' (rc_root s) ?w (us @ take pl (rk_iter k)) (vs @ tn_value (rc_nodes s' ?w))"
    using rpath_step [OF split_path_old [OF ok nd e sp r]] it by metis
  have key: "rk_iter (rk_from k pl) = drop pl (rk_iter k)" by (rule rk_from_iter)
  have walk: "walk_at s' U N ?w (rk_from k pl) (us @ take pl (rk_iter k)) (vs @ tn_value (rc_nodes s' ?w))"
    using re ok st path U k pl(2) lab ns f(6) key by (simp add: walk_at_def refines_def dvd_diff_nat)
  have "stopped s' ?w (rk_from k pl)"
  proof (cases "rk_len k = pl")
    case False
    then have lt: "pl < rk_len k" using pl(4) by simp
    have len: "?ps \<le> rk_len (rk_from k pl)" using lt k(3) pl(2) by (simp add: dvd_imp_le dvd_diff_nat)
    obtain j where j: "child_key (rk_from k pl) ?ps = Inr j" using child_key_ok [OF ps len] by blast
    obtain cj where cj: "child_key (rk_from ?k pl) ?ps = Inr cj" "tn_children (rc_nodes s' ?w) = [(cj, c)]" using sp by (auto simp: splits_def Let_def)
    have "cj \<noteq> j"
      using child_key_eq_iff [of "rk_from ?k pl" "rk_from k pl" ?ps] cj(1) j diff [OF lt] len room ps f(7) k(2) by (auto simp: rk_from_iter)
    then show ?thesis using j cj(2) st by (simp add: stopped_def)
  qed (simp add: stopped_def)
  then show ?thesis by (rule that [OF s' re walk])
qed

section \<open>Matching\<close>

lemma match_loop_ok:
  assumes "walk_at s U N node k us (concat vals)" and "0 < rk_len k \<Longrightarrow> child_key k (rc_page_size s) = Inr ck" and "rk_len k < fuel"
  shows "\<exists>vals' node' s' k' us'. match_loop fuel s t node k ck vals = Some (Inr (vals', node', s')) \<and> refines s s'
     \<and> walk_at s' U N node' k' us' (concat vals') \<and> stopped s' node' k'"
  using assms
proof (induction fuel arbitrary: s node k us ck vals)
  case (Suc fuel)
  show ?case
  proof (cases "rk_len k > 0 \<and> map_of (tn_children (rc_nodes s node)) ck \<noteq> None")
    case False
    then have "stopped s node k" using Suc.prems(2) by (auto simp: stopped_def)
    moreover have "match_loop (Suc fuel) s t node k ck vals = Some (Inr (vals, node, s))" unfolding match_loop.simps(2) by (rule if_not_P [OF False])
    ultimately show ?thesis using Suc.prems(1) refines_refl by blast
  next
    case True
    then obtain c where c: "map_of (tn_children (rc_nodes s node)) ck = Some c" by auto
    define s1 where "s1 = touch s c t"
    have acc: "same_account s s1" by (simp add: s1_def)
    then have r1: "refines s s1" by (rule account_refines)
    have ps1: "rc_page_size s1 = rc_page_size s" using r1 by (simp add: refines_def)
    have w1: "walk_at s1 U N node k us (concat vals)" using walk_account [OF acc] Suc.prems(1) by simp
    have ch: "tn_children (rc_nodes s1 node) = tn_children (rc_nodes s node)" by (simp add: s1_def touch_def upd_def)
    have c1: "map_of (tn_children (rc_nodes s1 node)) ck = Some c" using c ch by simp
    have ck: "child_key k (rc_page_size s1) = Inr ck" using Suc.prems(2) True ps1 by simp
    obtain pl where pl: "rk_match (tn_key (rc_nodes s1 c)) k (rc_page_size s1) = Inr pl" "0 < pl" "rc_page_size s1 dvd pl" "pl \<le> rk_len (tn_key (rc_nodes s1 c))" "pl \<le> rk_len k"
        "take pl (rk_iter (tn_key (rc_nodes s1 c))) = take pl (rk_iter k)" "edge s1 node c" "rk_ns (tn_key (rc_nodes s1 c)) = N"
        "pl < rk_len (tn_key (rc_nodes s1 c)) \<Longrightarrow> pl < rk_len k \<Longrightarrow>
           take (rc_page_size s1) (drop pl (rk_iter (tn_key (rc_nodes s1 c)))) \<noteq> take (rc_page_size s1) (drop pl (rk_iter k))"
      using walk_child [OF w1 _ ck c1] True by blast
    have step: "match_loop (Suc fuel) s t node k ck vals = (if pl < rk_len (tn_key (rc_nodes s1 c))
        then Some (bindE (split_node s1 (tn_key (rc_nodes s1 c)) c pl) (\<lambda>(w, s2). Inr (vals @ [tn_value (rc_nodes s2 w)], w, s2)))
        else if rk_len (rk_from k pl) > 0
          then (case child_key (rk_from k pl) (rc_page_size s1) of Inl e \<Rightarrow> Some (Inl e)
             | Inr ck' \<Rightarrow> match_loop fuel s1 t c (rk_from k pl) ck' (vals @ [tn_value (rc_nodes s1 c)]))
          else match_loop fuel s1 t c (rk_from k pl) ck (vals @ [tn_value (rc_nodes s1 c)]))"
      using True c pl(1) ps1 by (simp add: s1_def [symmetric] Let_def del: rk_from_simps split: sum.split)
    show ?thesis
    proof (cases "pl < rk_len (tn_key (rc_nodes s1 c))")
      case lt: True
      obtain s2 where s2: "split_node s1 (tn_key (rc_nodes s1 c)) c pl = Inr (rc_counter s1, s2)" "refines s1 s2"
        "walk_at s2 U N (rc_counter s1) (rk_from k pl) (us @ take pl (rk_iter k)) (concat vals @ tn_value (rc_nodes s2 (rc_counter s1)))"
        "stopped s2 (rc_counter s1) (rk_from k pl)"
        using walk_split [OF w1 pl(7,8,2,3) lt pl(5,6) pl(9) [OF lt]] by blast
      show ?thesis
        by (rule exI [of _ "vals @ [tn_value (rc_nodes s2 (rc_counter s1))]"], rule exI [of _ "rc_counter s1"], rule exI [of _ s2],
            rule exI [of _ "rk_from k pl"], rule exI [of _ "us @ take pl (rk_iter k)"])
          (use step lt s2 refines_trans [OF r1 s2(2)] in \<open>simp del: match_loop.simps\<close>)
    next
      case False
      then have eq: "pl = rk_len (tn_key (rc_nodes s1 c))" using pl(4) by simp
      let ?vals = "vals @ [tn_value (rc_nodes s1 c)]" and ?k = "rk_from k pl"
      have w2: "walk_at s1 U N c ?k (us @ rk_iter (tn_key (rc_nodes s1 c))) (concat ?vals)" using walk_full [OF w1 pl(7,8) eq pl(5,6)] by simp
      have fuel: "rk_len ?k < fuel" using Suc.prems(3) pl(2,5) by simp
      have "\<exists>ck'. match_loop (Suc fuel) s t node k ck vals = match_loop fuel s1 t c ?k ck' ?vals \<and> (0 < rk_len ?k \<longrightarrow> child_key ?k (rc_page_size s1) = Inr ck')"
      proof (cases "rk_len ?k > 0")
        case pos: True
        then obtain j where "child_key ?k (rc_page_size s1) = Inr j" using child_key_ok [of "rc_page_size s1" ?k] walk_at_facts(5,6) [OF w2] by blast
        then show ?thesis using step False pos by (intro exI [of _ j]) (simp del: match_loop.simps rk_from_simps)
      next
        case zero: False
        then show ?thesis using step False by (intro exI [of _ ck]) (simp del: match_loop.simps rk_from_simps)
      qed
      then obtain ck' where ck0: "match_loop (Suc fuel) s t node k ck vals = match_loop fuel s1 t c ?k ck' ?vals \<and> (0 < rk_len ?k \<longrightarrow> child_key ?k (rc_page_size s1) = Inr ck')"
        by (rule exE)
      note ck' = conjunct1 [OF ck0] conjunct2 [OF ck0, rule_format]
      obtain vals' node' s' k' us' where r: "match_loop fuel s1 t c ?k ck' ?vals = Some (Inr (vals', node', s'))" "refines s1 s'"
          "walk_at s' U N node' k' us' (concat vals')" "stopped s' node' k'"
        using Suc.IH [OF w2 ck'(2) fuel] by blast
      show ?thesis
        by (rule exI [of _ vals'], rule exI [of _ node'], rule exI [of _ s'], rule exI [of _ k'], rule exI [of _ us'])
          (simp only: ck'(1) r refines_trans [OF r1 r(2)] simp_thms)
    qed
  qed
qed simp


lemma walk_root:
  assumes "tree_ok s" and "rk_ok k" and "rk_is_bigram k = rc_is_eagle s" and "rc_page_size s dvd rk_len k"
  shows "walk_at s (rk_iter k) (rk_ns k) (rc_root s) k [] []"
  using assms rpath_refl by (simp add: walk_at_def)

text \<open>The key that \<open>match_prefix\<close> and \<open>insert\<close> look for.\<close>

definition lookup_key :: "radix_cache \<Rightarrow> radix_key \<Rightarrow> radix_key" where
  "lookup_key s key = page_aligned (fst (maybe_to_bigram_view key (rc_is_eagle s) (None :: nat list option))) (rc_page_size s)"

definition key_fits :: "radix_cache \<Rightarrow> radix_key \<Rightarrow> bool" where
  "key_fits s key \<longleftrightarrow> rk_ok key \<and> (rk_is_bigram key \<longrightarrow> rc_is_eagle s)"

lemma lookup_key_facts:
  assumes "tree_ok s" and "key_fits s key"
  shows "rk_ok (lookup_key s key)" "rk_is_bigram (lookup_key s key) = rc_is_eagle s" "rc_page_size s dvd rk_len (lookup_key s key)" "rk_ns (lookup_key s key) = rk_ns key"
proof -
  let ?k = "fst (maybe_to_bigram_view key (rc_is_eagle s) (None :: nat list option))"
  have k: "rk_ok ?k" "rk_is_bigram ?k = rc_is_eagle s" "rk_ns ?k = rk_ns key"
    using assms(2) by (auto simp: key_fits_def maybe_to_bigram_view_def Let_def rk_ok_def rk_ns_def)
  have "0 < rc_page_size s" using assms(1) by (simp add: tree_ok_def)
  then show "rk_ok (lookup_key s key)" "rk_is_bigram (lookup_key s key) = rc_is_eagle s" "rc_page_size s dvd rk_len (lookup_key s key)" "rk_ns (lookup_key s key) = rk_ns key"
    using k by (simp_all add: lookup_key_def page_aligned_len)
qed

lemma longest_held_refines: "refines s s' \<Longrightarrow> longest_held s' N U m = longest_held s N U m"
  by (simp add: longest_held_def refines_def)

lemma longest_held_nil: "longest_held s N [] 0"
  by (simp add: longest_held_def)

lemma match_prefix_ok:
  assumes ok: "tree_ok s" and fits: "key_fits s key" and d: "\<not> rc_disable s"
  obtains vs node s' where "match_prefix s key = Some (Inr (vs, node, s'))" "refines s s'"
    "longest_held s (rk_ns key) (rk_iter (lookup_key s key)) (length vs)"
    "rpath s' (rc_root s) node (take (length vs) (rk_iter (lookup_key s key))) vs"
    "vs \<noteq> [] \<Longrightarrow> holds s (rk_ns key) (take (length vs) (rk_iter (lookup_key s key))) vs" "reach s' node"
    "node = rc_root s \<or> rk_ns (tn_key (rc_nodes s' node)) = rk_ns key"
proof -
  let ?key1 = "fst (maybe_to_bigram_view key (rc_is_eagle s) (None :: nat list option))" and ?k = "lookup_key s key"
  note f = lookup_key_facts [OF ok fits]
  have ps: "0 < rc_page_size s" using ok by (simp add: tree_ok_def)
  have unfold: "match_prefix s key = (if rk_len ?k = 0 then Some (Inr ([], rc_root s, s))
      else map_option (\<lambda>r. bindE r (\<lambda>(vals, last_node, s'). Inr (concat vals, last_node, s'))) (match_prefix_helper s (rc_root s) ?k))"
    using d ps by (auto simp: match_prefix_def lookup_key_def Let_def page_aligned_len)
  show ?thesis
  proof (cases "rk_len ?k = 0")
    case True
    then have "rk_iter ?k = []" by (metis length_rk_iter length_0_conv)
    then show ?thesis using unfold True longest_held_nil rpath_refl reach_root by (intro that [of "[]" "rc_root s" s]) simp_all
  next
    case False
    define t s2 where "t = fst (monotonic s)" and "s2 = touch (snd (monotonic s)) (rc_root s) t"
    have acc: "same_account s s2" unfolding s2_def by (rule same_account_trans [OF account_monotonic account_touch])
    then have r2: "refines s s2" by (rule account_refines)
    have w0: "walk_at s (rk_iter ?k) (rk_ns key) (rc_root s) ?k [] []" using walk_root [OF ok f(1-3)] f(4) by simp
    then have w: "walk_at s2 (rk_iter ?k) (rk_ns key) (rc_root s) ?k [] (concat [])" using walk_account [OF acc] by simp
    obtain ck where ck: "child_key ?k (rc_page_size s) = Inr ck" using child_key_ok [OF ps walk_at_facts(6) [OF w0]] False by auto
    have ps2: "rc_page_size s2 = rc_page_size s" "rc_root s2 = rc_root s" using r2 by (simp_all add: refines_def)
    have hl: "match_prefix_helper s (rc_root s) ?k = match_loop (Suc (rk_len ?k)) s2 t (rc_root s) ?k ck []"
      using ck by (simp add: match_prefix_helper_def t_def s2_def case_prod_unfold Let_def del: match_loop.simps)
    obtain vals node s' k' us where m: "match_loop (Suc (rk_len ?k)) s2 t (rc_root s) ?k ck [] = Some (Inr (vals, node, s'))" "refines s2 s'"
        "walk_at s' (rk_iter ?k) (rk_ns key) node k' us (concat vals)" "stopped s' node k'"
      using match_loop_ok [OF w, of ck "Suc (rk_len ?k)" t] ck ps2 by auto
    have re: "refines s s'" by (rule refines_trans [OF r2 m(2)])
    have ho: "holds s' = holds s" "rc_root s' = rc_root s" using re by (simp_all add: refines_def)
    note g = walk_at_facts [OF m(3)]
    show ?thesis
    proof (rule that [of "concat vals" node s'])
      show "match_prefix s key = Some (Inr (concat vals, node, s'))" using unfold False hl m(1) by (simp del: match_loop.simps)
      show "refines s s'" by (rule re)
      show "longest_held s (rk_ns key) (rk_iter ?k) (length (concat vals))"
        using stopped_longest [OF m(3,4)] longest_held_refines [OF re] g(3) by simp
      show "rpath s' (rc_root s) node (take (length (concat vals)) (rk_iter ?k)) (concat vals)" using m(3) g(3,4) ho by (simp add: walk_at_def)
      show "holds s (rk_ns key) (take (length (concat vals)) (rk_iter ?k)) (concat vals)" if "concat vals \<noteq> []"
      proof -
        have "us \<noteq> []" using that g(3) by fastforce
        then show ?thesis using walk_at_holds [OF m(3)] g(3,4) ho by simp
      qed
      show "reach s' node" by (rule g(1))
      show "node = rc_root s \<or> rk_ns (tn_key (rc_nodes s' node)) = rk_ns key" using m(3) ho by (simp add: walk_at_def)
    qed
  qed
qed

section \<open>Inserting\<close>

lemma insert_loop_ok:
  assumes "walk_at s U N node k us vs" and "0 < rk_len k \<Longrightarrow> child_key k (rc_page_size s) = Inr ck" and "rk_len k < fuel"
    and "total_len = length us" and "val = drop (length us) V"
  shows "\<exists>node' k' ck' s' us' vs'. insert_loop fuel s t priority chunked node k val ck total_len = Some (Inr (length us', node', k', drop (length us') V, ck', s'))
     \<and> refines s s' \<and> walk_at s' U N node' k' us' vs' \<and> (rk_len k' = 0 \<or> child_key k' (rc_page_size s') = Inr ck' \<and> map_of (tn_children (rc_nodes s' node')) ck' = None)"
  using assms
proof (induction fuel arbitrary: s node k us vs ck val total_len)
  case (Suc fuel)
  show ?case
  proof (cases "rk_len k > 0 \<and> map_of (tn_children (rc_nodes s node)) ck \<noteq> None")
    case False
    have "insert_loop (Suc fuel) s t priority chunked node k val ck total_len = Some (Inr (total_len, node, k, val, ck, s))"
      unfolding insert_loop.simps(2) by (rule if_not_P [OF False])
    moreover have "rk_len k = 0 \<or> child_key k (rc_page_size s) = Inr ck \<and> map_of (tn_children (rc_nodes s node)) ck = None" using Suc.prems(2) False by auto
    ultimately show ?thesis using Suc.prems(1,4,5) refines_refl by blast
  next
    case True
    then obtain c where c: "map_of (tn_children (rc_nodes s node)) ck = Some c" by auto
    define s1 where "s1 = touch s c t"
    have acc: "same_account s s1" by (simp add: s1_def)
    then have r1: "refines s s1" by (rule account_refines)
    have ps1: "rc_page_size s1 = rc_page_size s" using r1 by (simp add: refines_def)
    have w1: "walk_at s1 U N node k us vs" using walk_account [OF acc] Suc.prems(1) by simp
    have "tn_children (rc_nodes s1 node) = tn_children (rc_nodes s node)" by (simp add: s1_def touch_def upd_def)
    then have c1: "map_of (tn_children (rc_nodes s1 node)) ck = Some c" using c by simp
    have ck: "child_key k (rc_page_size s1) = Inr ck" using Suc.prems(2) True ps1 by simp
    obtain pl where pl: "rk_match (tn_key (rc_nodes s1 c)) k (rc_page_size s1) = Inr pl" "0 < pl" "rc_page_size s1 dvd pl" "pl \<le> rk_len (tn_key (rc_nodes s1 c))" "pl \<le> rk_len k"
        "take pl (rk_iter (tn_key (rc_nodes s1 c))) = take pl (rk_iter k)" "edge s1 node c" "rk_ns (tn_key (rc_nodes s1 c)) = N"
        "pl < rk_len (tn_key (rc_nodes s1 c)) \<Longrightarrow> pl < rk_len k \<Longrightarrow>
           take (rc_page_size s1) (drop pl (rk_iter (tn_key (rc_nodes s1 c)))) \<noteq> take (rc_page_size s1) (drop pl (rk_iter k))"
      using walk_child [OF w1 _ ck c1] True by blast
    let ?k = "rk_from k pl"
    obtain node' s2 us2 vs2 where n: "(if pl < rk_len (tn_key (rc_nodes s1 c)) then split_node s1 (tn_key (rc_nodes s1 c)) c pl else Inr (c, s1)) = Inr (node', s2)"
        "refines s1 s2" "walk_at s2 U N node' ?k us2 vs2" "length us2 = length us + pl"
    proof (cases "pl < rk_len (tn_key (rc_nodes s1 c))")
      case lt: True
      obtain s2 where s2: "split_node s1 (tn_key (rc_nodes s1 c)) c pl = Inr (rc_counter s1, s2)" "refines s1 s2"
        "walk_at s2 U N (rc_counter s1) ?k (us @ take pl (rk_iter k)) (vs @ tn_value (rc_nodes s2 (rc_counter s1)))"
        using walk_split [OF w1 pl(7,8,2,3) lt pl(5,6) pl(9) [OF lt]] by blast
      show ?thesis by (rule that [OF _ s2(2,3)]) (use lt s2(1) pl(5) in simp_all)
    next
      case False
      then have eq: "pl = rk_len (tn_key (rc_nodes s1 c))" using pl(4) by simp
      show ?thesis by (rule that [OF _ refines_refl walk_full [OF w1 pl(7,8) eq pl(5,6)]]) (use eq in simp_all)
    qed
    define s3 where "s3 = inc_hit_count (raise_priority s2 node' priority) node' chunked"
    have acc3: "same_account s2 s3" unfolding s3_def by (rule same_account_trans [OF account_raise_priority account_inc_hit_count])
    have r3: "refines s s3" using refines_trans [OF refines_trans [OF r1 n(2)] account_refines [OF acc3]] .
    have w3: "walk_at s3 U N node' ?k us2 vs2" using walk_account [OF acc3] n(3) by simp
    have ps3: "rc_page_size s3 = rc_page_size s" using r3 by (simp add: refines_def)
    have step: "insert_loop (Suc fuel) s t priority chunked node k val ck total_len =
        (if rk_len ?k > 0 then (case child_key ?k (rc_page_size s) of Inl e \<Rightarrow> Some (Inl e)
            | Inr ck' \<Rightarrow> insert_loop fuel s3 t priority chunked node' ?k (drop pl val) ck' (total_len + pl))
         else insert_loop fuel s3 t priority chunked node' ?k (drop pl val) ck (total_len + pl))"
      unfolding insert_loop.simps(2) if_P [OF True] c option.sel Let_def s1_def [symmetric] ps1 [symmetric] pl(1) sum.case(2) n(1) prod.case s3_def
      by (rule if_P) (use True in simp)
    have fuel: "rk_len ?k < fuel" using Suc.prems(3) pl(2,5) by simp
    have "\<exists>ck'. insert_loop (Suc fuel) s t priority chunked node k val ck total_len = insert_loop fuel s3 t priority chunked node' ?k (drop pl val) ck' (total_len + pl)
        \<and> (0 < rk_len ?k \<longrightarrow> child_key ?k (rc_page_size s3) = Inr ck')"
    proof (cases "rk_len ?k > 0")
      case pos: True
      then obtain j where "child_key ?k (rc_page_size s3) = Inr j" using child_key_ok [of "rc_page_size s3" ?k] walk_at_facts(5,6) [OF w3] by blast
      then show ?thesis using step pos ps3 by (intro exI [of _ j]) (simp del: insert_loop.simps rk_from_simps)
    next
      case zero: False
      then show ?thesis using step by (intro exI [of _ ck]) (simp del: insert_loop.simps rk_from_simps)
    qed
    then obtain ck' where ck0: "insert_loop (Suc fuel) s t priority chunked node k val ck total_len = insert_loop fuel s3 t priority chunked node' ?k (drop pl val) ck' (total_len + pl)
        \<and> (0 < rk_len ?k \<longrightarrow> child_key ?k (rc_page_size s3) = Inr ck')" by (rule exE)
    note ck' = conjunct1 [OF ck0] conjunct2 [OF ck0, rule_format]
    have "total_len + pl = length us2" "drop pl val = drop (length us2) V" using Suc.prems(4,5) n(4) by (simp_all add: add.commute)
    then obtain n3 k3 ck3 s' us3 vs3 where r: "insert_loop fuel s3 t priority chunked node' ?k (drop pl val) ck' (total_len + pl) = Some (Inr (length us3, n3, k3, drop (length us3) V, ck3, s'))"
        "refines s3 s'" "walk_at s' U N n3 k3 us3 vs3"
        "rk_len k3 = 0 \<or> child_key k3 (rc_page_size s') = Inr ck3 \<and> map_of (tn_children (rc_nodes s' n3)) ck3 = None"
      using Suc.IH [OF w3 ck'(2) fuel, of "total_len + pl" "drop pl val"] by blast
    show ?thesis
      by (rule exI [of _ n3], rule exI [of _ k3], rule exI [of _ ck3], rule exI [of _ s'], rule exI [of _ us3], rule exI [of _ vs3])
        (simp only: ck'(1) r refines_trans [OF r3 r(2)] simp_thms)
  qed
qed simp


lemma holds_prefix: "holds s N us vs \<Longrightarrow> prefix us' us \<Longrightarrow> holds s N us' (take (length us') vs)"
proof -
  assume "holds s N us vs" and p: "prefix us' us"
  then obtain n us2 vs2 where n: "n \<noteq> rc_root s" "rpath s (rc_root s) n us2 vs2" "rk_ns (tn_key (rc_nodes s n)) = N" "prefix us us2" "vs = take (length us) vs2"
    by (auto simp: holds_def)
  have "prefix us' us2" using p n(4) by (rule prefix_order.trans)
  then show ?thesis by (rule holdsI [OF n(1-3)]) (use n(5) prefix_length_le [OF p] in \<open>simp add: min_absorb1\<close>)
qed

text \<open>What an insertion of the units \<open>U\<close> with the slots \<open>V\<close> in namespace \<open>N\<close> does, \<open>m\<close> units being held already.\<close>

definition inserted :: "radix_cache \<Rightarrow> string option \<times> string option \<Rightarrow> runit list \<Rightarrow> nat list \<Rightarrow> nat \<Rightarrow> nat list \<Rightarrow> nat \<Rightarrow> radix_cache \<Rightarrow> bool" where
  "inserted s N U V m vs node s' \<longleftrightarrow> longest_held s N U m \<and> length vs = m \<and> (0 < m \<longrightarrow> holds s N (take m U) vs)
     \<and> rpath s' (rc_root s) node U (vs @ drop m V) \<and> (node = rc_root s \<or> rk_ns (tn_key (rc_nodes s' node)) = N)
     \<and> (\<forall>ns us xs. holds s' ns us xs \<longleftrightarrow> holds s ns us xs \<or> ns = N \<and> U \<noteq> [] \<and> prefix us U \<and> xs = take (length us) (vs @ drop m V))
     \<and> (\<forall>n us xs. rpath s (rc_root s) n us xs \<longrightarrow> rpath s' (rc_root s) n us xs)
     \<and> (\<forall>n. reach s n \<longrightarrow> reach s' n \<and> (n \<noteq> rc_root s \<longrightarrow> rk_ns (tn_key (rc_nodes s' n)) = rk_ns (tn_key (rc_nodes s n))))
     \<and> rc_root s' = rc_root s \<and> rc_page_size s' = rc_page_size s \<and> rc_is_eagle s' = rc_is_eagle s \<and> rc_disable s' = rc_disable s
     \<and> rc_evictable_size s' = rc_evictable_size s + int (length U - m) \<and> rc_protected_size s' = rc_protected_size s
     \<and> tree_slots s' = tree_slots s + mset (drop m V) \<and> (tree_paged s \<and> page_exact (rc_page_size s) (drop m V) \<longrightarrow> tree_paged s')"

lemma add_leaf_inserted:
  assumes re: "refines s s3" and w: "walk_at s3 U N node k us vs" and pos: "0 < rk_len k"
    and ck: "child_key k (rc_page_size s3) = Inr ck" "map_of (tn_children (rc_nodes s3 node)) ck = None"
    and V: "length V = length U" and ok: "cache_ok L s" and al: "add_leaf s3 priority chunked node k (drop (length us) V) ck = (w', s')"
  shows "inserted s N U V (length us) vs w' s' \<and> cache_ok L s'"
proof -
  note f = walk_at_facts [OF w]
  have ok3: "tree_ok s3" and r: "rpath s3 (rc_root s3) node us vs" and U: "U = us @ rk_iter k" and k: "rk_ns k = N" using w by (simp_all add: walk_at_def)
  have c3: "cache_ok L s3" by (rule refines_cache_ok [OF re ok])
  have a3: "acct_ok s3" "locks_ok L s3" "distinct (rc_evictable_leaves s3)" using c3 by (simp_all add: cache_ok_def acct_ok_def)
  have nc: "node \<noteq> rc_counter s3" using reach_counter [OF ok3 f(1)] by simp
  note g = add_leaf_grows [OF nc al a3(3)]
  have rt: "rc_root s3 = rc_root s" "holds s3 = holds s" using re by (simp_all add: refines_def)
  have lv: "length (drop (length us) V) = rk_len k" using V U by simp
  have new: "new_leaf_ok s3 node ck k (drop (length us) V)"
    using w ck pos lv by (auto simp: new_leaf_ok_def walk_at_def)
  note path = grow_path [OF ok3 f(1) g(2) ck(2)]
  have st: "stopped s3 node k" using ck by (auto simp: stopped_def)
  have "\<forall>n us xs. rpath s (rc_root s) n us xs \<longrightarrow> rpath s' (rc_root s) n us xs"
  proof (intro allI impI)
    fix n us xs assume "rpath s (rc_root s) n us xs"
    then have o: "rpath s3 (rc_root s3) n us xs" using re by (simp add: refines_def)
    have "n \<noteq> rc_counter s3" using reach_counter [OF ok3 rpath_reach [OF o reach_root]] by simp
    then show "rpath s' (rc_root s) n us xs" using path o rt by simp
  qed
  moreover have "rpath s' (rc_root s) w' U (vs @ drop (length us) V)" using path r U g(1) rt by auto
  moreover have "holds s' ns us' xs \<longleftrightarrow> holds s ns us' xs \<or> ns = N \<and> U \<noteq> [] \<and> prefix us' U \<and> xs = take (length us') (vs @ drop (length us) V)" for ns us' xs
  proof -
    have "U \<noteq> []" using U pos by (metis append_is_Nil_conv length_rk_iter list.size(3) less_irrefl)
    then show ?thesis using grow_holds [OF ok3 r g(2) new, of ns us' xs] rt k U by auto
  qed
  moreover have "w' = rc_root s \<or> rk_ns (tn_key (rc_nodes s' w')) = N" using g(1,2) k by (simp add: grows_def Let_def)
  moreover have "\<forall>n. reach s n \<longrightarrow> reach s' n \<and> (n \<noteq> rc_root s \<longrightarrow> rk_ns (tn_key (rc_nodes s' n)) = rk_ns (tn_key (rc_nodes s n)))"
  proof (intro allI impI)
    fix n assume "reach s n"
    then have n3: "reach s3 n" "n \<noteq> rc_root s \<longrightarrow> rk_ns (tn_key (rc_nodes s3 n)) = rk_ns (tn_key (rc_nodes s n))"
      using re ok by (simp_all add: refines_def cache_ok_def)
    have "n \<noteq> rc_counter s3" using reach_counter [OF ok3 n3(1)] by simp
    then have "tn_key (rc_nodes s' n) = tn_key (rc_nodes s3 n)" using g(2) by (simp add: grows_def Let_def)
    then show "reach s' n \<and> (n \<noteq> rc_root s \<longrightarrow> rk_ns (tn_key (rc_nodes s' n)) = rk_ns (tn_key (rc_nodes s n)))"
      using n3 grow_reach [OF ok3 f(1) g(2) ck(2)] by simp
  qed
  moreover have "longest_held s N U (length us)" using stopped_longest [OF w st] longest_held_refines [OF re] by simp
  moreover have "0 < length us \<longrightarrow> holds s N (take (length us) U) vs" using walk_at_holds [OF w] f(4) rt by auto
  moreover have "rc_root s' = rc_root s \<and> rc_page_size s' = rc_page_size s \<and> rc_is_eagle s' = rc_is_eagle s \<and> rc_disable s' = rc_disable s"
    using re g(2,5) by (simp add: refines_def grows_def Let_def)
  moreover have "rc_evictable_size s' = rc_evictable_size s + int (length U - length us) \<and> rc_protected_size s' = rc_protected_size s"
    using re g(3,4) U by (simp add: refines_def)
  moreover have "tree_slots s' = tree_slots s + mset (drop (length us) V) \<and> (tree_paged s \<and> page_exact (rc_page_size s) (drop (length us) V) \<longrightarrow> tree_paged s')"
    using grow_slots [OF ok3 f(1) g(2) ck(2)] re by (simp add: refines_def)
  ultimately have "inserted s N U V (length us) vs w' s'" using f(3) unfolding inserted_def by blast
  moreover have "cache_ok L s'" unfolding cache_ok_def
    using grow_tree_ok [OF ok3 f(1) g(2) new] grow_acct_ok [OF ok3 f(1) g(2) ck(2) a3(1) g(3,4,6,7)] grow_locks_ok [OF ok3 f(1) g(2) ck(2) a3(2)] by blast
  ultimately show ?thesis ..
qed

lemma full_inserted:
  assumes re: "refines s s3" and w: "walk_at s3 U N node k us vs" and zero: "rk_len k = 0" and V: "length V = length U" and ok: "cache_ok L s"
  shows "inserted s N U V (length us) vs node s3 \<and> cache_ok L s3"
proof -
  note f = walk_at_facts [OF w]
  have "rk_iter k = []" using zero by (metis length_rk_iter length_0_conv)
  then have U: "U = us" using w by (simp add: walk_at_def)
  have r: "rpath s3 (rc_root s3) node us vs" using w by (simp add: walk_at_def)
  have rt: "rc_root s3 = rc_root s" "holds s3 = holds s" using re by (simp_all add: refines_def)
  have ho: "holds s N us vs" if "us \<noteq> []" using walk_at_holds [OF w that] rt by simp
  have "holds s3 ns us' xs \<longleftrightarrow> holds s ns us' xs \<or> ns = N \<and> U \<noteq> [] \<and> prefix us' U \<and> xs = take (length us') (vs @ drop (length us) V)" for ns us' xs
    using ho holds_prefix [of s N us vs us'] rt U V by auto
  moreover have "longest_held s N U (length us)" using stopped_longest [OF w] zero longest_held_refines [OF re] by (simp add: stopped_def)
  moreover have "node = rc_root s \<or> rk_ns (tn_key (rc_nodes s3 node)) = N" using w rt by (simp add: walk_at_def)
  ultimately have "inserted s N U V (length us) vs node s3"
    using re r rt U V f(3,4) ho ok by (simp add: inserted_def refines_def cache_ok_def)
  then show ?thesis using refines_cache_ok [OF re ok] ..
qed

lemma radix_insert_ok:
  assumes ok: "cache_ok L s" and fits: "key_fits s key" and d: "\<not> rc_disable s" and v: "rk_len (lookup_key s key) \<le> length v"
  obtains m vs node s' where "radix_insert s key (Some v) priority chunked = Some (Inr (m, Some node, s'))"
    "inserted s (rk_ns key) (rk_iter (lookup_key s key)) (take (rk_len (lookup_key s key)) v) m vs node s'" "cache_ok L s'"
proof -
  let ?k = "lookup_key s key"
  let ?V = "take (rk_len ?k) v" and ?U = "rk_iter ?k" and ?N = "rk_ns key"
  have t: "tree_ok s" using ok by (simp add: cache_ok_def)
  note f = lookup_key_facts [OF t fits]
  have ps: "0 < rc_page_size s" using t by (simp add: tree_ok_def)
  have V: "length ?V = length ?U" using v by simp
  have "radix_insert s key (Some v) priority chunked =
      map_option (\<lambda>r. bindE r (\<lambda>(prefix_len, last_node, s'). Inr (prefix_len, Some last_node, s'))) (insert_helper s (rc_root s) ?k ?V priority chunked)"
  proof -
    let ?k1 = "fst (maybe_to_bigram_view key (rc_is_eagle s) (None :: nat list option))"
    have k1: "maybe_to_bigram_view key (rc_is_eagle s) (Some v) = (?k1, Some (if rc_is_eagle s \<and> \<not> rk_is_bigram key then take (rk_len ?k1) v else v))"
      by (simp add: maybe_to_bigram_view_def Let_def)
    have "rk_len ?k \<le> rk_len ?k1" using ps by (simp add: lookup_key_def page_aligned_len)
    then have "take (rk_len ?k) (if b then take (rk_len ?k1) v else v) = ?V" for b by (cases b) (simp_all add: min_absorb1)
    then show ?thesis using d unfolding radix_insert_def k1 by (simp only: Let_def lookup_key_def [symmetric] prod.case option.case if_False)
  qed
  define t0 s2 where "t0 = fst (monotonic s)" and "s2 = raise_priority (touch (snd (monotonic s)) (rc_root s) t0) (rc_root s) priority"
  have acc: "same_account s s2" unfolding s2_def
    by (rule same_account_trans [OF same_account_trans [OF account_monotonic account_touch] account_raise_priority])
  then have r2: "refines s s2" by (rule account_refines)
  have w0: "walk_at s ?U ?N (rc_root s) ?k [] []" using walk_root [OF t f(1-3)] f(4) by simp
  then have w: "walk_at s2 ?U ?N (rc_root s) ?k [] []" using walk_account [OF acc] by simp
  have "\<exists>m vs node s'. insert_helper s (rc_root s) ?k ?V priority chunked = Some (Inr (m, node, s')) \<and> inserted s ?N ?U ?V m vs node s' \<and> cache_ok L s'"
  proof (cases "rk_len ?k = 0")
    case True
    have "insert_helper s (rc_root s) ?k ?V priority chunked = Some (Inr (0, rc_root s, s2))"
      using True by (simp add: insert_helper_def s2_def t0_def case_prod_unfold Let_def)
    then show ?thesis using full_inserted [OF r2 w True V ok] by (intro exI [of _ 0] exI [of _ "[]"] exI [of _ "rc_root s"] exI [of _ s2]) simp
  next
    case False
    obtain ck where ck: "child_key ?k (rc_page_size s) = Inr ck" using child_key_ok [OF ps walk_at_facts(6) [OF w0]] False by auto
    have ps2: "rc_page_size s2 = rc_page_size s" using r2 by (simp add: refines_def)
    obtain node k' ck' s3 us vs where m: "insert_loop (Suc (rk_len ?k)) s2 t0 priority chunked (rc_root s) ?k ?V ck 0 = Some (Inr (length us, node, k', drop (length us) ?V, ck', s3))"
        "refines s2 s3" "walk_at s3 ?U ?N node k' us vs" "rk_len k' = 0 \<or> child_key k' (rc_page_size s3) = Inr ck' \<and> map_of (tn_children (rc_nodes s3 node)) ck' = None"
      using insert_loop_ok [OF w, of ck "Suc (rk_len ?k)" 0 ?V ?V t0 priority chunked] ck ps2 by auto
    have re: "refines s s3" by (rule refines_trans [OF r2 m(2)])
    have hl: "insert_helper s (rc_root s) ?k ?V priority chunked = Some (Inr (if rk_len k' > 0
        then let (w, s4) = add_leaf s3 priority chunked node k' (drop (length us) ?V) ck' in (length us, w, s4) else (length us, node, s3)))"
      using False ck m(1) by (simp add: insert_helper_def t0_def s2_def case_prod_unfold Let_def del: insert_loop.simps)
    show ?thesis
    proof (cases "rk_len k' = 0")
      case True
      then show ?thesis using hl full_inserted [OF re m(3) True V ok] by (intro exI [of _ "length us"] exI [of _ vs] exI [of _ node] exI [of _ s3]) simp
    next
      case pos: False
      obtain w' s' where al: "add_leaf s3 priority chunked node k' (drop (length us) ?V) ck' = (w', s')" by (rule prod.exhaust)
      have "inserted s ?N ?U ?V (length us) vs w' s' \<and> cache_ok L s'"
        by (rule add_leaf_inserted [OF re m(3) _ _ _ V ok al]) (use pos m(4) in auto)
      then show ?thesis using hl pos al by (intro exI [of _ "length us"] exI [of _ vs] exI [of _ w'] exI [of _ s']) simp
    qed
  qed
  then show ?thesis using that \<open>radix_insert _ _ _ _ _ = _\<close> by auto
qed


section \<open>The empty cache\<close>

lemma radix_reset_ok:
  assumes "0 < rc_page_size s"
  shows "cache_ok {#} (radix_reset s)" "\<not> holds (radix_reset s) N us vs" "rc_disable (radix_reset s) = rc_disable s"
    "rc_page_size (radix_reset s) = rc_page_size s" "rc_is_eagle (radix_reset s) = rc_is_eagle s"
proof -
  let ?r = "radix_reset s"
  have st: "rc_root ?r = rc_counter s" "rc_counter ?r = Suc (rc_counter s)" "tn_children (rc_nodes ?r (rc_counter s)) = []" "tn_parent (rc_nodes ?r (rc_counter s)) = None"
      "tn_lock_ref (rc_nodes ?r (rc_counter s)) = 1" "rc_evictable_size ?r = 0" "rc_protected_size ?r = 0" "rc_evictable_leaves ?r = []"
    by (simp_all add: radix_reset_def new_tree_node_def monotonic_def upd_def Let_def)
  show "rc_disable ?r = rc_disable s" and ps: "rc_page_size ?r = rc_page_size s" and "rc_is_eagle ?r = rc_is_eagle s"
    by (simp_all add: radix_reset_def new_tree_node_def monotonic_def upd_def Let_def)
  have reach: "n = rc_root ?r" if "reach ?r n" for n
    using that st by (induction rule: reach.induct) (auto simp: edge_def)
  then have inner: "inner ?r = {}" by (auto simp: inner_def)
  show "cache_ok {#} ?r" using assms st reach inner ps by (auto simp: cache_ok_def tree_ok_def acct_ok_def locks_ok_def)
  show "\<not> holds ?r N us vs" using rpath_reach [OF _ reach_root] reach by (auto simp: holds_def)
qed

definition empty_cache :: "nat \<Rightarrow> radix_cache" where
  "empty_cache page_size = radix_reset \<lparr> rc_nodes = (\<lambda>n. \<lparr> tn_children = [], tn_parent = None, tn_key = empty_key, tn_value = [], tn_lock_ref = 0,
       tn_last_access_time = 0, tn_creation_time = 0, tn_hit_count = 0, tn_priority = 0 \<rparr>), rc_counter = 0, rc_root = 0, rc_evictable_size = 0, rc_protected_size = 0,
       rc_evictable_leaves = [], rc_disable = False, rc_page_size = page_size, rc_is_eagle = False, rc_clk = int, rc_tick = 0 \<rparr>"

lemma empty_cache_ok:
  assumes "0 < ps"
  shows "cache_ok {#} (empty_cache ps)" "\<not> rc_disable (empty_cache ps)" "rc_page_size (empty_cache ps) = ps" "\<not> rc_is_eagle (empty_cache ps)" "\<not> holds (empty_cache ps) N us vs"
  using radix_reset_ok [of "\<lparr> rc_nodes = (\<lambda>n. \<lparr> tn_children = [], tn_parent = None, tn_key = empty_key, tn_value = [], tn_lock_ref = 0,
       tn_last_access_time = 0, tn_creation_time = 0, tn_hit_count = 0, tn_priority = 0 \<rparr>), rc_counter = 0, rc_root = 0, rc_evictable_size = 0, rc_protected_size = 0,
       rc_evictable_leaves = [], rc_disable = False, rc_page_size = ps, rc_is_eagle = False, rc_clk = int, rc_tick = 0 \<rparr>"] assms
  by (simp_all add: empty_cache_def)

lemma empty_cache_slots: "tree_slots (empty_cache 2) = {#}" "tree_paged (empty_cache 2)" "\<not> rc_is_eagle (empty_cache 2)" "rc_page_size (empty_cache 2) = 2"
proof -
  have "reach (empty_cache 2) n \<Longrightarrow> n = rc_root (empty_cache 2)" for n
    by (induction rule: reach.induct) (simp_all add: empty_cache_def radix_reset_def new_tree_node_def monotonic_def upd_def edge_def Let_def)
  then have "inner (empty_cache 2) = {}" by (auto simp: inner_def)
  then show "tree_slots (empty_cache 2) = {#}" "tree_paged (empty_cache 2)" by (simp_all add: tree_slots_def tree_paged_def)
  show "\<not> rc_is_eagle (empty_cache 2)" "rc_page_size (empty_cache 2) = 2" using empty_cache_ok [of 2] by simp_all
qed

lemma key_fits_plain: "key_fits s (RadixKey toks e False l salt)"
  by (simp add: key_fits_def)

section \<open>Results\<close>

text \<open>
  (C15) \<open>match_prefix\<close> returns within its fuel on every well-formed cache: the slots of the
  longest held prefix of the page-aligned key, in whole pages, and the node where it ends.
  Splitting a node on the way changes nothing that is held, and keeps the tree, the
  accounts and the locks of running requests.
\<close>

theorem match_prefix_longest:
  assumes "cache_ok L s" and "key_fits s key" and "\<not> rc_disable s"
  shows "\<exists>vs node s'. match_prefix s key = Some (Inr (vs, node, s')) \<and> cache_ok L s' \<and> holds s' = holds s
     \<and> longest_held s (rk_ns key) (rk_iter (lookup_key s key)) (length vs)
     \<and> (vs \<noteq> [] \<longrightarrow> holds s (rk_ns key) (take (length vs) (rk_iter (lookup_key s key))) vs)
     \<and> rpath s' (rc_root s) node (take (length vs) (rk_iter (lookup_key s key))) vs"
proof -
  have t: "tree_ok s" using assms(1) by (simp add: cache_ok_def)
  obtain vs node s' where m: "match_prefix s key = Some (Inr (vs, node, s'))" "refines s s'"
    "longest_held s (rk_ns key) (rk_iter (lookup_key s key)) (length vs)"
    "rpath s' (rc_root s) node (take (length vs) (rk_iter (lookup_key s key))) vs"
    "vs \<noteq> [] \<Longrightarrow> holds s (rk_ns key) (take (length vs) (rk_iter (lookup_key s key))) vs"
    using match_prefix_ok [OF t assms(2,3)] by blast
  have "cache_ok L s'" "holds s' = holds s" using refines_cache_ok [OF m(2) assms(1)] m(2) by (simp_all add: refines_def)
  then show ?thesis using m by blast
qed

theorem match_prefix_longest_witness:
  "\<exists>vs node s'. match_prefix (empty_cache 2) (RadixKey [1, 2, 3] None False None None) = Some (Inr (vs, node, s')) \<and> vs = [] \<and> cache_ok {#} s'"
proof -
  let ?s = "empty_cache 2" and ?k = "RadixKey [1, 2, 3] None False None None"
  obtain vs node s' where m: "match_prefix ?s ?k = Some (Inr (vs, node, s'))" "cache_ok {#} s'" "vs \<noteq> [] \<longrightarrow> holds ?s (rk_ns ?k) (take (length vs) (rk_iter (lookup_key ?s ?k))) vs"
    using match_prefix_longest [OF empty_cache_ok(1) key_fits_plain empty_cache_ok(2), of 2 "[1, 2, 3]" None None None] by auto
  then show ?thesis using empty_cache_ok(5) [of 2] by auto
qed

text \<open>
  (C17) \<open>insert\<close> returns within its fuel: its prefix length is that of the longest held prefix
  of the page-aligned key in whole pages; afterwards the cache holds what it held before
  and every prefix of the key, the old slots first and the given slots from there on. Paths of
  all nodes stay, and the evictable size grows by the number of new slots.
\<close>

theorem radix_insert_adds:
  assumes "cache_ok L s" and "key_fits s key" and "\<not> rc_disable s" and "rk_len (lookup_key s key) \<le> length v"
  shows "\<exists>m vs node s'. radix_insert s key (Some v) priority chunked = Some (Inr (m, Some node, s')) \<and> cache_ok L s'
     \<and> inserted s (rk_ns key) (rk_iter (lookup_key s key)) (take (rk_len (lookup_key s key)) v) m vs node s'"
  using radix_insert_ok [OF assms] by metis

theorem radix_insert_adds_witness:
  "\<exists>m vs node s'. radix_insert (empty_cache 2) (RadixKey [1, 2, 3] None False None None) (Some [7, 8, 9]) 0 False = Some (Inr (m, Some node, s'))
     \<and> m = 0 \<and> cache_ok {#} s' \<and> holds s' (None, None) [Tok 1, Tok 2] [7, 8]"
proof -
  let ?s = "empty_cache 2" and ?k = "RadixKey [1, 2, 3] None False None None"
  have k: "rk_iter (lookup_key ?s ?k) = [Tok 1, Tok 2]" "rk_len (lookup_key ?s ?k) = 2" "rk_ns ?k = (None, None)"
    using empty_cache_ok(3,4) [of 2]
    by (simp_all add: lookup_key_def maybe_to_bigram_view_def page_aligned_iter page_aligned_len rk_ns_def) (simp_all add: rk_iter_def rk_len_raw Let_def)
  obtain m vs node s' where m: "radix_insert ?s ?k (Some [7, 8, 9]) 0 False = Some (Inr (m, Some node, s'))" "cache_ok {#} s'"
      "inserted ?s (None, None) [Tok 1, Tok 2] [7, 8] m vs node s'"
    using radix_insert_adds [OF empty_cache_ok(1) key_fits_plain empty_cache_ok(2), of 2 "[1, 2, 3]" None None None "[7, 8, 9]" 0 False] k by auto
  have "m = 0" using m(3) empty_cache_ok(5) [of 2] by (auto simp: inserted_def)
  moreover from this have "holds s' (None, None) [Tok 1, Tok 2] [7, 8]" using m(3) by (simp add: inserted_def)
  ultimately show ?thesis using m by blast
qed

lemma match_after_insert:
  assumes ins: "inserted s (rk_ns key) (rk_iter (lookup_key s key)) V m vs n s'" and ok': "cache_ok L s'" and fits: "key_fits s key" and d: "\<not> rc_disable s"
    and V: "length V = rk_len (lookup_key s key)"
  shows "\<exists>s''. match_prefix s' key = Some (Inr (vs @ drop m V, n, s'')) \<and> refines s' s''"
proof -
  let ?U = "rk_iter (lookup_key s key)" and ?N = "rk_ns key"
  have same: "rc_root s' = rc_root s" "rc_page_size s' = rc_page_size s" "rc_is_eagle s' = rc_is_eagle s" "rc_disable s' = rc_disable s" using ins by (simp_all add: inserted_def)
  have lk: "lookup_key s' key = lookup_key s key" "key_fits s' key" "\<not> rc_disable s'" using same fits d by (simp_all add: lookup_key_def key_fits_def)
  have t': "tree_ok s'" using ok' by (simp add: cache_ok_def)
  obtain xs n' s'' where q: "match_prefix s' key = Some (Inr (xs, n', s''))" "refines s' s''" "longest_held s' ?N ?U (length xs)"
      "rpath s'' (rc_root s') n' (take (length xs) ?U) xs" "n' = rc_root s' \<or> rk_ns (tn_key (rc_nodes s'' n')) = ?N"
    by (rule match_prefix_ok [OF t' lk(2,3), unfolded lk(1)])
  have mU: "m \<le> length ?U" "length vs = m" using ins by (simp_all add: inserted_def longest_held_def)
  let ?W = "vs @ drop m V"
  have W: "length ?W = length ?U" using mU V by simp
  have dvd: "rc_page_size s' dvd length ?U" using lookup_key_facts(3) [OF t' lk(2)] lk(1) by simp
  have len: "length xs = length ?U"
  proof (cases "?U = []")
    case False
    then have "holds s' ?N ?U ?W" using ins W unfolding inserted_def by (metis order_refl prefix_order.order_refl take_all)
    then have "length ?U div rc_page_size s' * rc_page_size s' \<le> length xs" using q(3) unfolding longest_held_def by (metis order_refl take_all)
    then show ?thesis using dvd q(3) by (simp add: longest_held_def)
  qed (use q(3) in \<open>simp add: longest_held_def\<close>)
  have rn: "rpath s' (rc_root s') n ?U ?W" and ns: "n = rc_root s' \<or> rk_ns (tn_key (rc_nodes s' n)) = ?N" using ins same by (simp_all add: inserted_def)
  have t'': "tree_ok s''" and rt: "rc_root s'' = rc_root s'" and rn': "rpath s'' (rc_root s'') n ?U ?W" using q(2) t' rn by (simp_all add: refines_def)
  have ns': "n = rc_root s'' \<or> rk_ns (tn_key (rc_nodes s'' n)) = ?N"
    using q(2) t' ns rpath_reach [OF rn reach_root] by (auto simp: refines_def)
  have "n' = n \<and> xs = ?W" using path_node_unique [OF t'' _ _ rn' ns', of n' xs] q(4,5) len rt by simp
  then show ?thesis using q(1,2) by blast
qed

text \<open>
  (C36) Inserting a key and matching it again returns a slot for every unit of its whole pages:
  the slots held before the insertion and then the inserted ones.
\<close>

theorem insert_match_roundtrip:
  assumes "cache_ok L s" and "key_fits s key" and "\<not> rc_disable s" and "rk_len (lookup_key s key) \<le> length v"
    and "radix_insert s key (Some v) priority chunked = Some (Inr (m, node, s'))"
  shows "\<exists>vs s''. match_prefix s' key = Some (Inr (vs @ drop m (take (rk_len (lookup_key s key)) v), the node, s'')) \<and> length vs = m \<and> m \<le> rk_len (lookup_key s key)
     \<and> (0 < m \<longrightarrow> holds s (rk_ns key) (take m (rk_iter (lookup_key s key))) vs) \<and> cache_ok L s'' \<and> holds s'' = holds s'"
proof -
  let ?k = "lookup_key s key"
  let ?U = "rk_iter ?k" and ?V = "take (rk_len ?k) v" and ?N = "rk_ns key"
  obtain m0 vs n s0 where i: "radix_insert s key (Some v) priority chunked = Some (Inr (m0, Some n, s0))" "inserted s ?N ?U ?V m0 vs n s0" "cache_ok L s0"
    by (rule radix_insert_ok [OF assms(1-4), of priority chunked])
  then have eq: "m0 = m" "node = Some n" "s0 = s'" using assms(5) by simp_all
  have V: "length ?V = rk_len ?k" using assms(4) by simp
  obtain s'' where q: "match_prefix s' key = Some (Inr (vs @ drop m ?V, n, s''))" "refines s' s''"
    using match_after_insert [OF i(2,3) assms(2,3) V] eq by blast
  have "m \<le> length ?U" "length vs = m" "0 < m \<longrightarrow> holds s ?N (take m ?U) vs" using i(2) eq by (simp_all add: inserted_def longest_held_def)
  then show ?thesis using q refines_cache_ok [OF q(2) i(3) [unfolded eq]] eq by (auto simp: refines_def)
qed

theorem insert_match_roundtrip_witness:
  "\<exists>m node s' vs s''. radix_insert (empty_cache 2) (RadixKey [1, 2, 3] None False None None) (Some [7, 8, 9]) 0 False = Some (Inr (m, node, s'))
     \<and> match_prefix s' (RadixKey [1, 2, 3] None False None None) = Some (Inr ([7, 8], the node, s''))"
proof -
  let ?s = "empty_cache 2" and ?k = "RadixKey [1, 2, 3] None False None None"
  have len: "rk_len (lookup_key ?s ?k) = 2" using empty_cache_ok(3,4) [of 2]
    by (simp add: lookup_key_def maybe_to_bigram_view_def page_aligned_len) (simp add: rk_len_raw)
  then have v: "rk_len (lookup_key ?s ?k) \<le> length [7, 8, 9 :: nat]" by simp
  have ok: "cache_ok {#} ?s" "\<not> rc_disable ?s" using empty_cache_ok [of 2] by simp_all
  obtain m vs node s' where i: "radix_insert ?s ?k (Some [7, 8, 9]) 0 False = Some (Inr (m, Some node, s'))"
    by (rule radix_insert_ok [OF ok(1) key_fits_plain ok(2) v, of 0 False])
  obtain vs s'' where m: "match_prefix s' ?k = Some (Inr (vs @ drop m (take 2 [7, 8, 9]), node, s''))" "length vs = m"
      "0 < m \<longrightarrow> holds ?s (rk_ns ?k) (take m (rk_iter (lookup_key ?s ?k))) vs"
    using insert_match_roundtrip [OF ok(1) key_fits_plain ok(2) v i, unfolded len] by auto
  then have "m = 0" using empty_cache_ok(5) [of 2] by auto
  then show ?thesis using i m by auto
qed


text \<open>
  \<open>inc_lock_ref\<close> and \<open>dec_lock_ref\<close> reach the root within their fuel. Locking moves the
  unlocked part of the path from the evictable to the protected size and keeps every node of the
  path locked; unlocking takes it back exactly, for all locks other requests hold meanwhile.
\<close>

theorem lock_unlock:
  assumes "cache_ok L s" and "reach s n" and "\<not> rc_disable s"
  shows "\<exists>d s1 s2. inc_lock_ref s n = Some (Inr (d, s1)) \<and> cache_ok (add_mset n L) s1 \<and> same_shape s s1
     \<and> rc_evictable_size s1 = rc_evictable_size s + d \<and> rc_protected_size s1 = rc_protected_size s - d
     \<and> (\<forall>m \<in> inner s. (redge s)\<^sup>*\<^sup>* m n \<longrightarrow> 0 < tn_lock_ref (rc_nodes s1 m))
     \<and> dec_lock_ref s1 n = Some (Inr (- d, s2)) \<and> cache_ok L s2 \<and> same_shape s s2
     \<and> rc_evictable_size s2 = rc_evictable_size s \<and> rc_protected_size s2 = rc_protected_size s
     \<and> (\<forall>m \<in> inner s. tn_lock_ref (rc_nodes s2 m) = tn_lock_ref (rc_nodes s m)) \<and> set (rc_evictable_leaves s2) = set (rc_evictable_leaves s)"
proof -
  have ok: "tree_ok s" "acct_ok s" "locks_ok L s" using assms(1) by (simp_all add: cache_ok_def)
  obtain s1 where s1: "inc_lock_ref s n = Some (Inr (rc_evictable_size s1 - rc_evictable_size s, s1))" "same_shape s s1" "acct_ok s1" "rc_disable s1 = rc_disable s" "locks_ok (add_mset n L) s1"
    by (rule inc_lock_ref_ok [OF ok assms(2,3)])
  have ok1: "tree_ok s1" "\<not> rc_disable s1" using shape_tree_ok [OF s1(2)] ok(1) s1(4) assms(3) by simp_all
  obtain s2 where s2: "dec_lock_ref s1 n = Some (Inr (rc_evictable_size s2 - rc_evictable_size s1, s2))" "same_shape s1 s2" "acct_ok s2" "rc_disable s2 = rc_disable s1" "locks_ok (add_mset n L - {#n#}) s2"
    by (rule dec_lock_ref_ok [OF ok1(1) s1(3,5) union_single_eq_member [OF refl] ok1(2)])
  have sh: "same_shape s s2" by (rule same_shape_trans [OF s1(2) s2(2)])
  have t2: "tree_ok s2" using shape_tree_ok [OF sh] ok(1) by simp
  note inn = shape_inner [OF s1(2)] shape_inner [OF sh] shape_key_len [OF s1(2)] shape_key_len [OF sh]
  have lk: "\<forall>m \<in> inner s. tn_lock_ref (rc_nodes s2 m) = tn_lock_ref (rc_nodes s m)"
    using s2(5) ok(3) inn(2) shape_redge [OF sh] by (simp add: locks_ok_def)
  then have "{m \<in> inner s. tn_lock_ref (rc_nodes s2 m) = 0} = {m \<in> inner s. tn_lock_ref (rc_nodes s m) = 0}" by auto
  then have ev: "rc_evictable_size s2 = rc_evictable_size s" using s2(3) ok(2) inn unfolding acct_ok_def by simp
  have sums: "rc_evictable_size s1 + rc_protected_size s1 = rc_evictable_size s + rc_protected_size s" "rc_evictable_size s2 + rc_protected_size s2 = rc_evictable_size s + rc_protected_size s"
    using acct_sum [OF ok(1,2)] acct_sum [OF ok1(1) s1(3)] acct_sum [OF t2 s2(3)] inn by simp_all
  have ch: "tn_children (rc_nodes s2 m) = tn_children (rc_nodes s m)" for m using sh by (simp add: same_shape_def)
  have lv: "set (rc_evictable_leaves s2) = set (rc_evictable_leaves s)" using s2(3) ok(2) inn(2) lk ch unfolding acct_ok_def by auto
  have pos: "\<forall>m \<in> inner s. (redge s)\<^sup>*\<^sup>* m n \<longrightarrow> 0 < tn_lock_ref (rc_nodes s1 m)"
    using locked_count [OF s1(5), of _ n] inn(1) shape_redge [OF s1(2)] by simp
  have "cache_ok (add_mset n L) s1" "cache_ok L s2" using ok1(1) s1(3,5) t2 s2(3,5) by (simp_all add: cache_ok_def)
  then show ?thesis using s1(1,2) s2(1) sh sums ev lk lv pos
    by (intro exI [of _ "rc_evictable_size s1 - rc_evictable_size s"] exI [of _ s1] exI [of _ s2]) simp
qed

theorem lock_unlock_witness:
  "\<exists>d s1 s2. inc_lock_ref (empty_cache 2) (rc_root (empty_cache 2)) = Some (Inr (d, s1)) \<and> dec_lock_ref s1 (rc_root (empty_cache 2)) = Some (Inr (- d, s2)) \<and> cache_ok {#} s2"
  using lock_unlock [OF empty_cache_ok(1) reach_root empty_cache_ok(2), of 2] by auto

end
