(* ===== verification/Radix_Evict.thy ===== *)
theory Radix_Evict
  imports Radix_Match
begin

text \<open>
  Eviction from the prefix cache: the loop of \<open>evict\<close> deletes unlocked leaves in the order
  of the strategy until enough slots are free, and hands their slots to the allocator. The
  allocator is an interface; the laws the loop relies on are those of \<open>segment_pool\<close>.
\<close>

section \<open>Priorities\<close>

lemma tuple_less_irrefl [simp]: "\<not> tuple_less xs xs"
  by (induction xs) auto

lemma tuple_less_trans: "tuple_less xs ys \<Longrightarrow> tuple_less ys zs \<Longrightarrow> tuple_less xs zs"
proof (induction xs ys arbitrary: zs rule: tuple_less.induct)
  case (1 x xs y ys)
  then show ?case by (cases zs) auto
next
  case (2 y ys)
  then show ?case by (cases zs) auto
qed auto

lemma tuple_less_total: "tuple_less xs ys \<or> xs = ys \<or> tuple_less ys xs"
proof (induction xs ys rule: tuple_less.induct)
  case (3 xs)
  then show ?case by (cases xs) simp_all
qed auto

text \<open>No entry is below one that is not above it.\<close>

definition weak_order :: "('a \<Rightarrow> 'a \<Rightarrow> bool) \<Rightarrow> bool" where
  "weak_order lt \<longleftrightarrow> (\<forall>a. \<not> lt a a) \<and> (\<forall>a b c. lt a b \<longrightarrow> \<not> lt c b \<longrightarrow> \<not> lt c a)"

lemma entry_less_order: "weak_order (entry_less s)"
  unfolding weak_order_def
proof (intro conjI allI impI)
  fix a b c assume "entry_less s a b" and "\<not> entry_less s c b"
  then show "\<not> entry_less s c a"
    using tuple_less_trans [of "fst a" "fst b" "fst c"] tuple_less_trans [of "fst c" "fst a" "fst b"] tuple_less_total [of "fst c" "fst b"]
      tuple_less_trans [of "fst a" "fst c" "fst a"] tuple_less_irrefl [of "fst a"]
    unfolding entry_less_def by auto
qed (simp add: entry_less_def)

section \<open>The heap\<close>

lemma fold_min:
  assumes lt: "weak_order lt"
  shows "let m = foldl (\<lambda>m y. if lt y m then y else m) a xs in m \<in> set (a # xs) \<and> (\<forall>y \<in> set (a # xs). \<not> lt y m)"
proof (induction xs rule: rev_induct)
  case Nil
  then show ?case using lt by (simp add: weak_order_def)
next
  case (snoc x xs)
  let ?m = "foldl (\<lambda>m y. if lt y m then y else m) a xs"
  have m: "?m \<in> set (a # xs)" "\<forall>y \<in> set (a # xs). \<not> lt y ?m" using snoc by (simp_all add: Let_def)
  show ?case
  proof (cases "lt x ?m")
    case True
    have "\<not> lt x x" using lt by (simp add: weak_order_def)
    moreover have "\<not> lt y x" if "\<not> lt y ?m" for y using lt True that unfolding weak_order_def by blast
    ultimately show ?thesis using True m by (simp add: Let_def)
  next
    case False
    then show ?thesis using m by (auto simp: Let_def)
  qed
qed

lemma heappop_ok:
  assumes "h \<noteq> []" and "weak_order lt" and "heappop lt h = (m, h')"
  shows "m \<in> set h" "mset h = add_mset m (mset h')" "\<forall>y \<in> set h. \<not> lt y m"
proof -
  have h: "h = hd h # tl h" using assms(1) by simp
  have m: "m = foldl (\<lambda>m y. if lt y m then y else m) (hd h) (tl h)" "h' = remove1 m h" using assms(3) by (auto simp: heappop_def Let_def)
  have *: "m \<in> set h \<and> (\<forall>y \<in> set h. \<not> lt y m)" using fold_min [OF assms(2), of "hd h" "tl h"] unfolding m(1) [symmetric] Let_def h [symmetric] .
  then show "m \<in> set h" "\<forall>y \<in> set h. \<not> lt y m" by blast+
  show "mset h = add_mset m (mset h')" using * by (simp add: m(2) mset_remove1)
qed

section \<open>Evictable leaves\<close>

lemma delete_leaf_priority:
  assumes "delete_leaf s x = Inr s'"
  shows "get_priority strat (rc_nodes s' n) = get_priority strat (rc_nodes s n)" "tn_last_access_time (rc_nodes s' n) = tn_last_access_time (rc_nodes s n)"
proof -
  have "get_priority strat (nd\<lparr> tn_children := ch \<rparr>) = get_priority strat nd" for nd ch by (cases strat) simp_all
  then show "get_priority strat (rc_nodes s' n) = get_priority strat (rc_nodes s n)" "tn_last_access_time (rc_nodes s' n) = tn_last_access_time (rc_nodes s n)"
    using assms by (auto simp: delete_leaf_def Let_def upd_def bindE_eq_Inr split: option.splits)
qed

lemma reach_parent: "reach s n \<Longrightarrow> n \<noteq> rc_root s \<Longrightarrow> \<exists>p. reach s p \<and> edge s p n"
  by (cases rule: reach.cases) auto

text \<open>Without evictable leaves every node is locked and nothing is evictable.\<close>

lemma unlocked_leaf_below:
  assumes ok: "tree_ok s" and L: "locks_ok L s" and n: "n \<in> inner s" "tn_lock_ref (rc_nodes s n) = 0"
  shows "\<exists>x \<in> inner s. tn_lock_ref (rc_nodes s x) = 0 \<and> tn_children (rc_nodes s x) = []"
proof -
  define D where "D = {m \<in> inner s. (redge s)\<^sup>*\<^sup>* n m}"
  have "finite D" "n \<in> D" using finite_inner [OF ok] n(1) by (auto simp: D_def)
  then have fin: "finite ((\<lambda>y. card (anc s y)) ` D)" "(\<lambda>y. card (anc s y)) ` D \<noteq> {}" by auto
  obtain x where x: "Max ((\<lambda>y. card (anc s y)) ` D) = card (anc s x)" "x \<in> D" using Max_in [OF fin] by (rule imageE)
  have xmax: "card (anc s y) \<le> card (anc s x)" if "y \<in> D" for y using Max_ge [OF fin(1), of "card (anc s y)"] that x(1) by simp
  have xin: "x \<in> inner s" and path: "(redge s)\<^sup>*\<^sup>* n x" using x(2) by (simp_all add: D_def)
  have rx: "reach s x" using xin by (simp add: inner_def)
  have zero: "tn_lock_ref (rc_nodes s x) = 0"
  proof (rule ccontr)
    assume "tn_lock_ref (rc_nodes s x) \<noteq> 0"
    moreover have "tn_lock_ref (rc_nodes s x) = int (size (filter_mset (\<lambda>l. (redge s)\<^sup>*\<^sup>* x l) L))" using L xin by (simp add: locks_ok_def)
    ultimately have "size (filter_mset (\<lambda>l. (redge s)\<^sup>*\<^sup>* x l) L) \<noteq> 0" by linarith
    then have "\<not> (\<forall>l. l \<in># L \<longrightarrow> \<not> (redge s)\<^sup>*\<^sup>* x l)" by (subst (asm) size_eq_0_iff_empty) simp
    then obtain l where "l \<in># L" "(redge s)\<^sup>*\<^sup>* x l" by blast
    then have "0 < tn_lock_ref (rc_nodes s n)" using locked_count [OF L n(1)] path by (meson rtranclp_trans)
    then show False using n(2) by simp
  qed
  have "tn_children (rc_nodes s x) = []"
  proof (rule ccontr)
    assume "tn_children (rc_nodes s x) \<noteq> []"
    then obtain y where e: "edge s x y" by (metis edge_def image_eqI list.set_intros(1) neq_Nil_conv)
    have "redge s x y" using rx e by (simp add: redge_def)
    then have "y \<in> D" using path reach_step [OF rx e] edge_facts(5) [OF ok rx e] by (auto simp: D_def inner_def intro: rtranclp.rtrancl_into_rtrancl)
    moreover have "card (anc s y) = Suc (card (anc s x))" using anc_step [OF ok rx e] anc_acyclic [OF ok rx e] anc_card(1) [OF ok rx] by simp
    ultimately show False using xmax [of y] by simp
  qed
  then show ?thesis using xin zero by blast
qed

lemma no_leaves_no_size:
  assumes "tree_ok s" and "acct_ok s" and "locks_ok L s" and "rc_evictable_leaves s = []"
  shows "rc_evictable_size s = 0"
proof -
  have "{n \<in> inner s. tn_lock_ref (rc_nodes s n) = 0} = {}" using unlocked_leaf_below [OF assms(1,3)] assms(2,4) unfolding acct_ok_def by (auto; metis empty_iff list.set(1) mem_Collect_eq)
  then show ?thesis using assms(2) unfolding acct_ok_def by (metis sum.empty)
qed

section \<open>Steps of an eviction\<close>

text \<open>The leaves in \<open>xs\<close> are deleted one after the other, each time one that the strategy puts first.\<close>

inductive evicts :: "strategy \<Rightarrow> radix_cache \<Rightarrow> nat list \<Rightarrow> radix_cache \<Rightarrow> bool" for strat where
  evicts_done: "evicts strat s [] s"
| evicts_step: "x \<in> set (rc_evictable_leaves s)
    \<Longrightarrow> \<forall>y \<in> set (rc_evictable_leaves s). \<not> entry_less s (get_priority strat (rc_nodes s y), y) (get_priority strat (rc_nodes s x), x)
    \<Longrightarrow> delete_leaf s x = Inr s1 \<Longrightarrow> evicts strat s1 xs s' \<Longrightarrow> evicts strat s (x # xs) s'"

text \<open>What stays: the locked nodes and their paths, the protected size, and nothing new is held.\<close>

definition shrinks :: "radix_cache \<Rightarrow> nat \<Rightarrow> radix_cache \<Rightarrow> bool" where
  "shrinks s k s' \<longleftrightarrow> rc_root s' = rc_root s \<and> rc_page_size s' = rc_page_size s \<and> rc_is_eagle s' = rc_is_eagle s \<and> rc_disable s' = rc_disable s
     \<and> rc_protected_size s' = rc_protected_size s \<and> rc_evictable_size s = rc_evictable_size s' + int k
     \<and> (\<forall>n us vs. rpath s' (rc_root s) n us vs \<longrightarrow> rpath s (rc_root s) n us vs)
     \<and> (\<forall>n us vs. rpath s (rc_root s) n us vs \<and> 0 < tn_lock_ref (rc_nodes s n) \<longrightarrow> rpath s' (rc_root s) n us vs)
     \<and> (\<forall>n. tn_lock_ref (rc_nodes s' n) = tn_lock_ref (rc_nodes s n)) \<and> (\<forall>ns us vs. holds s' ns us vs \<longrightarrow> holds s ns us vs)"

lemma shrinks_refl: "shrinks s 0 s"
  by (simp add: shrinks_def)

lemma shrinks_trans:
  assumes 1: "shrinks s j s'" and 2: "shrinks s' k s''"
  shows "shrinks s (j + k) s''"
proof -
  have rt: "rc_root s' = rc_root s" and lk: "tn_lock_ref (rc_nodes s' n) = tn_lock_ref (rc_nodes s n)" for n using 1 by (simp_all add: shrinks_def)
  have "rpath s (rc_root s) n us vs" if "rpath s'' (rc_root s) n us vs" for n us vs using 1 2 that rt unfolding shrinks_def by metis
  moreover have "rpath s'' (rc_root s) n us vs" if "rpath s (rc_root s) n us vs" "0 < tn_lock_ref (rc_nodes s n)" for n us vs
    using 1 2 that rt lk unfolding shrinks_def by metis
  moreover have "holds s ns us vs" if "holds s'' ns us vs" for ns us vs using 1 2 that unfolding shrinks_def by blast
  moreover have "rc_root s'' = rc_root s" "rc_page_size s'' = rc_page_size s" "rc_is_eagle s'' = rc_is_eagle s" "rc_disable s'' = rc_disable s"
      "rc_protected_size s'' = rc_protected_size s" "rc_evictable_size s = rc_evictable_size s'' + int (j + k)" "tn_lock_ref (rc_nodes s'' n) = tn_lock_ref (rc_nodes s n)" for n
    using 1 2 by (simp_all add: shrinks_def)
  ultimately show ?thesis unfolding shrinks_def by blast
qed

lemma evict_leaf:
  assumes c: "cache_ok L s" and x: "x \<in> set (rc_evictable_leaves s)"
  obtains p s' where "delete_leaf s x = Inr s'" "tn_parent (rc_nodes s' x) = Some p" "cache_ok L s'" "shrinks s (length (tn_value (rc_nodes s x))) s'"
    "set (rc_evictable_leaves s') = set (rc_evictable_leaves s) - {x} \<union> (if tn_children (rc_nodes s' p) = [] \<and> tn_lock_ref (rc_nodes s' p) = 0 then {p} else {})"
    "p \<notin> set (rc_evictable_leaves s)" "tree_slots s = tree_slots s' + mset (tn_value (rc_nodes s x))" "tree_paged s \<longrightarrow> tree_paged s'" "inner s' \<subset> inner s"
proof -
  have ok: "tree_ok s" and a: "acct_ok s" and L: "locks_ok L s" using c by (simp_all add: cache_ok_def)
  have xin: "x \<in> inner s" and l: "tn_lock_ref (rc_nodes s x) = 0" and leaf: "tn_children (rc_nodes s x) = []" and dis: "distinct (rc_evictable_leaves s)"
    using a x by (simp_all add: acct_ok_def)
  obtain p where p: "reach s p" "edge s p x" using reach_parent [of s x] xin by (auto simp: inner_def)
  note e = edge_facts [OF ok p]
  obtain s' where d: "delete_leaf s x = Inr s'" "cuts s p x s'" "rc_evictable_size s' = rc_evictable_size s - key_len s x"
    "rc_protected_size s' = rc_protected_size s" "distinct (rc_evictable_leaves s')"
    "set (rc_evictable_leaves s') = (let l = set (rc_evictable_leaves s) - {x} in
       if tn_lock_ref (rc_nodes s p) > 0 \<or> tn_children (rc_nodes s' p) \<noteq> [] then l - {p} else insert p l)"
    by (rule delete_leaf_cuts [OF ok p l dis])
  have ok': "cache_ok L s'" unfolding cache_ok_def
    using cut_tree_ok [OF ok p(1) d(2) leaf p(2)] cut_acct_ok [OF ok p l leaf d(2) a d(3-6)] cut_locks_ok [OF ok p l leaf d(2) L] by blast
  have rt: "rc_root s' = rc_root s" "rc_page_size s' = rc_page_size s" "rc_is_eagle s' = rc_is_eagle s" "rc_disable s' = rc_disable s" using d(2) by (simp_all add: cuts_def)
  have lk: "tn_lock_ref (rc_nodes s' n) = tn_lock_ref (rc_nodes s n)" for n using d(2) by (simp add: cuts_def)
  have pn: "p \<notin> set (rc_evictable_leaves s)" using a p(2) by (auto simp: acct_ok_def edge_def)
  have pnn: "0 \<le> tn_lock_ref (rc_nodes s p)" using a p(1) unfolding acct_ok_def inner_def by (cases "p = rc_root s") auto
  have hs: "\<forall>ns us vs. holds s' ns us vs \<longrightarrow> holds s ns us vs"
    unfolding cut_holds [OF ok p(1) d(2) leaf p(2)] by (auto intro: holdsI)
  have sh: "shrinks s (length (tn_value (rc_nodes s x))) s'"
    unfolding shrinks_def rt using d(3,4) lk hs e(4) l cut_path [OF ok p(1) d(2) leaf p(2)] by (auto simp: key_len_def)
  have lv: "set (rc_evictable_leaves s') = set (rc_evictable_leaves s) - {x} \<union> (if tn_children (rc_nodes s' p) = [] \<and> tn_lock_ref (rc_nodes s' p) = 0 then {p} else {})"
    using d(6) pn pnn lk [of p] by (auto simp: Let_def)
  have "inner s' = inner s - {x}" using cut_reach [OF ok p(1) d(2) leaf p(2)] rt by (auto simp: inner_def)
  then have inn: "inner s' \<subset> inner s" using xin by blast
  have par: "tn_parent (rc_nodes s' x) = Some p" using d(2) e(1) by (simp add: cuts_def)
  show ?thesis by (rule that [OF d(1) par ok' sh lv pn cut_slots(1) [OF ok p leaf d(2)] _ inn]) (use cut_slots(2) [OF ok p leaf d(2)] in blast)
qed


definition heap_ok :: "strategy \<Rightarrow> radix_cache \<Rightarrow> (int list \<times> nat) list \<Rightarrow> bool" where
  "heap_ok strat s heap \<longleftrightarrow> distinct (map snd heap) \<and> set (map snd heap) = set (rc_evictable_leaves s)
     \<and> (\<forall>(pr, x) \<in> set heap. pr = get_priority strat (rc_nodes s x))"

lemma heap_pop:
  assumes h: "heap_ok strat s heap" "heap \<noteq> []" and pop: "heappop (entry_less s) heap = ((pr, x), heap1)"
  shows "x \<in> set (rc_evictable_leaves s)"
    "\<forall>y \<in> set (rc_evictable_leaves s). \<not> entry_less s (get_priority strat (rc_nodes s y), y) (get_priority strat (rc_nodes s x), x)"
    "distinct (map snd heap1)" "set (map snd heap1) = set (rc_evictable_leaves s) - {x}" "\<forall>(pr, x) \<in> set heap1. pr = get_priority strat (rc_nodes s x)"
proof -
  note m = heappop_ok [OF h(2) entry_less_order pop]
  have leaves: "set (map snd heap) = set (rc_evictable_leaves s)" and pris: "\<forall>(pr, x) \<in> set heap. pr = get_priority strat (rc_nodes s x)"
    using h(1) by (simp_all add: heap_ok_def)
  have ent: "(pr', y) \<in> set heap \<longleftrightarrow> y \<in> set (rc_evictable_leaves s) \<and> pr' = get_priority strat (rc_nodes s y)" for pr' y
  proof
    assume e: "(pr', y) \<in> set heap"
    then have "y \<in> set (map snd heap)" by (metis image_eqI set_map snd_conv)
    then show "y \<in> set (rc_evictable_leaves s) \<and> pr' = get_priority strat (rc_nodes s y)" using leaves [symmetric] pris e by blast
  next
    assume e: "y \<in> set (rc_evictable_leaves s) \<and> pr' = get_priority strat (rc_nodes s y)"
    then obtain q where q: "(q, y) \<in> set heap" using leaves by (metis imageE prod.collapse set_map)
    then have "q = get_priority strat (rc_nodes s y)" using pris by blast
    then show "(pr', y) \<in> set heap" using q e by simp
  qed
  show "x \<in> set (rc_evictable_leaves s)" using m(1) ent by simp
  have pr: "pr = get_priority strat (rc_nodes s x)" using m(1) ent by simp
  show "\<forall>y \<in> set (rc_evictable_leaves s). \<not> entry_less s (get_priority strat (rc_nodes s y), y) (get_priority strat (rc_nodes s x), x)"
    using m(3) ent unfolding pr by blast
  have ms: "mset (map snd heap) = add_mset x (mset (map snd heap1))" using m(2) by (metis image_mset_add_mset mset_map snd_conv)
  then have d: "distinct (x # map snd heap1)" using h(1) unfolding heap_ok_def by (metis mset.simps(2) mset_eq_imp_distinct_iff)
  then show "distinct (map snd heap1)" by simp
  have "set (map snd heap) = insert x (set (map snd heap1))" using ms by (metis set_mset_add_mset_insert set_mset_mset)
  then show "set (map snd heap1) = set (rc_evictable_leaves s) - {x}" using d h(1) unfolding heap_ok_def by auto
  have "set heap1 \<subseteq> set heap" using m(2) by (metis set_mset_add_mset_insert set_mset_mset subset_insertI)
  then show "\<forall>(pr, x) \<in> set heap1. pr = get_priority strat (rc_nodes s x)" using ent by auto
qed

section \<open>The loop over an allocator\<close>

locale segment_pool =
  fixes fs :: "'al \<Rightarrow> nat list \<Rightarrow> nat \<Rightarrow> 'al res"
    and owns :: "'al \<Rightarrow> nat multiset \<Rightarrow> bool"
    and ps :: nat
  assumes free_whole: "owns al (mset v + M) \<Longrightarrow> page_exact ps v \<Longrightarrow> \<exists>al'. fs al v 0 = Inr al' \<and> owns al' M"
begin

lemma evict_loop_ok:
  assumes "cache_ok L s" and "tree_paged s" and "rc_page_size s = ps" and "owns al (tree_slots s + R)" and "heap_ok strat s heap" and "card (inner s) < fuel"
  shows "\<exists>xs s' al' n. evict_loop fuel strat fs num_tokens s al heap num_evicted = Some (Inr (num_evicted + n, s', al'))
     \<and> evicts strat s xs s' \<and> n = sum_list (map (\<lambda>x. length (tn_value (rc_nodes s x))) xs) \<and> cache_ok L s' \<and> tree_paged s' \<and> shrinks s n s' \<and> owns al' (tree_slots s' + R)
     \<and> (num_tokens \<le> num_evicted + n \<or> rc_evictable_leaves s' = [])
     \<and> (xs \<noteq> [] \<longrightarrow> num_evicted + sum_list (map (\<lambda>x. length (tn_value (rc_nodes s x))) (butlast xs)) < num_tokens)"
  using assms
proof (induction fuel arbitrary: s al heap num_evicted)
  case (Suc fuel)
  show ?case
  proof (cases "num_evicted < num_tokens \<and> heap \<noteq> []")
    case False
    then have "evict_loop (Suc fuel) strat fs num_tokens s al heap num_evicted = Some (Inr (num_evicted + 0, s, al))" by auto
    moreover have "num_tokens \<le> num_evicted + 0 \<or> rc_evictable_leaves s = []" using False Suc.prems(5) by (auto simp: heap_ok_def)
    ultimately show ?thesis using Suc.prems evicts_done shrinks_refl
      by (intro exI [of _ "[]"] exI [of _ s] exI [of _ al] exI [of _ 0]) simp
  next
    case True
    obtain pr x heap1 where pop: "heappop (entry_less s) heap = ((pr, x), heap1)" by (metis prod.exhaust)
    note hp = heap_pop [OF Suc.prems(5) conjunct2 [OF True] pop]
    let ?v = "tn_value (rc_nodes s x)"
    obtain p s1 where d: "delete_leaf s x = Inr s1" "tn_parent (rc_nodes s1 x) = Some p" "cache_ok L s1" "shrinks s (length ?v) s1"
      "set (rc_evictable_leaves s1) = set (rc_evictable_leaves s) - {x} \<union> (if tn_children (rc_nodes s1 p) = [] \<and> tn_lock_ref (rc_nodes s1 p) = 0 then {p} else {})"
      "p \<notin> set (rc_evictable_leaves s)" "tree_slots s = tree_slots s1 + mset ?v" "tree_paged s \<longrightarrow> tree_paged s1" "inner s1 \<subset> inner s"
      by (rule evict_leaf [OF Suc.prems(1) hp(1)])
    have xin: "x \<in> inner s" using hp(1) Suc.prems(1) by (simp add: cache_ok_def acct_ok_def)
    have pe: "page_exact ps ?v" using Suc.prems(2,3) xin by (simp add: tree_paged_def)
    have "owns al (mset ?v + (tree_slots s1 + R))" using Suc.prems(4) d(7) by (metis add.assoc add.commute)
    then obtain al1 where al1: "fs al ?v 0 = Inr al1" "owns al1 (tree_slots s1 + R)" using free_whole [OF _ pe] by blast
    define heap2 where "heap2 = (if tn_children (rc_nodes s1 p) = [] \<and> tn_lock_ref (rc_nodes s1 p) = 0 then heap1 @ [(get_priority strat (rc_nodes s1 p), p)] else heap1)"
    have step: "evict_loop (Suc fuel) strat fs num_tokens s al heap num_evicted = evict_loop fuel strat fs num_tokens s1 al1 heap2 (num_evicted + length ?v)"
      using True by (simp add: pop al1(1) d(1,2) heap2_def)
    have h2: "heap_ok strat s1 heap2"
      using hp(3-5) d(5,6) delete_leaf_priority(1) [OF d(1)] unfolding heap_ok_def heap2_def by (auto split: if_splits)
    have ps1: "rc_page_size s1 = ps" using d(4) Suc.prems(3) by (simp add: shrinks_def)
    have "finite (inner s)" using Suc.prems(1) finite_inner by (simp add: cache_ok_def)
    then have fuel: "card (inner s1) < fuel" using psubset_card_mono [OF _ d(9)] Suc.prems(6) by simp
    obtain xs s' al' n where r: "evict_loop fuel strat fs num_tokens s1 al1 heap2 (num_evicted + length ?v) = Some (Inr (num_evicted + length ?v + n, s', al'))"
        "evicts strat s1 xs s'" "n = sum_list (map (\<lambda>x. length (tn_value (rc_nodes s1 x))) xs)" "cache_ok L s'" "tree_paged s'" "shrinks s1 n s'" "owns al' (tree_slots s' + R)"
        "num_tokens \<le> num_evicted + length ?v + n \<or> rc_evictable_leaves s' = []"
        "xs \<noteq> [] \<longrightarrow> num_evicted + length ?v + sum_list (map (\<lambda>x. length (tn_value (rc_nodes s1 x))) (butlast xs)) < num_tokens"
      using Suc.IH [OF d(3) d(8) [rule_format, OF Suc.prems(2)] ps1 al1(2) h2 fuel, of "num_evicted + length ?v"] by blast
    have vals: "tn_value (rc_nodes s1 y) = tn_value (rc_nodes s y)" for y
      using d(1) by (auto simp: delete_leaf_def Let_def upd_def bindE_eq_Inr split: option.splits)
    have "evicts strat s (x # xs) s'" by (rule evicts_step [OF hp(1,2) d(1) r(2)])
    moreover have "shrinks s (length ?v + n) s'" by (rule shrinks_trans [OF d(4) r(6)])
    ultimately show ?thesis
      using r(3-9) True
      by (intro exI [of _ "x # xs"] exI [of _ s'] exI [of _ al'] exI [of _ "length ?v + n"]) (simp del: evict_loop.simps add: step r(1) vals add.assoc)
  qed
qed simp

lemma evict_ok:
  assumes "cache_ok L s" and "tree_paged s" and "rc_page_size s = ps" and "owns al (tree_slots s + R)" and "\<not> rc_disable s"
  shows "\<exists>xs s' al' n. evict strat fs s al num_tokens = Some (Inr (n, s', al')) \<and> evicts strat s xs s' \<and> n = sum_list (map (\<lambda>x. length (tn_value (rc_nodes s x))) xs)
     \<and> cache_ok L s' \<and> tree_paged s' \<and> shrinks s n s' \<and> owns al' (tree_slots s' + R) \<and> (num_tokens \<le> n \<or> rc_evictable_size s' = 0)
     \<and> (xs \<noteq> [] \<longrightarrow> sum_list (map (\<lambda>x. length (tn_value (rc_nodes s x))) (butlast xs)) < num_tokens)"
proof -
  let ?heap = "map (\<lambda>n. (get_priority strat (rc_nodes s n), n)) (rc_evictable_leaves s)"
  have ok: "tree_ok s" "acct_ok s" using assms(1) by (simp_all add: cache_ok_def)
  have "heap_ok strat s ?heap" using ok(2) by (auto simp: heap_ok_def acct_ok_def comp_def)
  moreover have "card (inner s) < Suc (rc_counter s)"
  proof -
    have "inner s \<subseteq> {..<rc_counter s}" using reach_counter [OF ok(1)] by (auto simp: inner_def)
    then show ?thesis using card_mono [of "{..<rc_counter s}" "inner s"] by simp
  qed
  ultimately obtain xs s' al' n where r: "evict_loop (Suc (rc_counter s)) strat fs num_tokens s al ?heap 0 = Some (Inr (0 + n, s', al'))"
      "evicts strat s xs s'" "n = sum_list (map (\<lambda>x. length (tn_value (rc_nodes s x))) xs)" "cache_ok L s'" "tree_paged s'" "shrinks s n s'" "owns al' (tree_slots s' + R)"
      "num_tokens \<le> 0 + n \<or> rc_evictable_leaves s' = []" "xs \<noteq> [] \<longrightarrow> 0 + sum_list (map (\<lambda>x. length (tn_value (rc_nodes s x))) (butlast xs)) < num_tokens"
    using evict_loop_ok [OF assms(1-4), of strat ?heap "Suc (rc_counter s)" num_tokens 0] by blast
  have "evict strat fs s al num_tokens = Some (Inr (n, s', al'))" using r(1) assms(5) by (simp add: evict_def del: evict_loop.simps)
  moreover have "num_tokens \<le> n \<or> rc_evictable_size s' = 0" using r(4,8) no_leaves_no_size by (auto simp: cache_ok_def)
  ultimately show ?thesis using r(2-7,9) by auto
qed

end

end
