(* ===== verification/Kv_Rows.thy ===== *)
theory Kv_Rows
  imports Kv_Allocator
begin

text \<open>
  Rows of requests over the page allocator: the extend and decode kernels
  (\<^verbatim>\<open>sglang/kernels/ops/memory/allocator.py\<close>) with their reference
  \<open>alloc_extend_naive\<close> (\<^verbatim>\<open>srt/mem_cache/allocator/paged.py\<close>), and frees by segment of a row.
  A kernel is the list of stores each of its programs makes; the grid may run them in any order.
\<close>

section \<open>Rows\<close>

text \<open>
  A request's row maps its token positions to slots; position \<open>p\<close> lies at offset \<open>p mod ps\<close>
  of page \<open>pages ! (p div ps)\<close>.
\<close>

definition ceil_pages :: "nat \<Rightarrow> nat \<Rightarrow> nat" where
  "ceil_pages ps n = (n + ps - 1) div ps"

definition paged_row :: "nat \<Rightarrow> nat list \<Rightarrow> nat list \<Rightarrow> bool" where
  "paged_row ps pages row \<longleftrightarrow> length pages = ceil_pages ps (length row)
     \<and> (\<forall>p < length row. row ! p = pages ! (p div ps) * ps + p mod ps)"

lemma lt_ceil_pages: "0 < ps \<Longrightarrow> k < ceil_pages ps n \<longleftrightarrow> k * ps < n"
  unfolding ceil_pages_def by (auto simp: Suc_le_eq [symmetric] less_eq_div_iff_mult_less_eq)

lemma ceil_pages_ge: "0 < ps \<Longrightarrow> n \<le> ceil_pages ps n * ps"
  using lt_ceil_pages [of ps "ceil_pages ps n" n] by simp

lemma ceil_pages_mono: "m \<le> n \<Longrightarrow> ceil_pages ps m \<le> ceil_pages ps n"
  unfolding ceil_pages_def by (intro div_le_mono) simp

lemma ceil_pages_div:
  assumes "0 < ps"
  shows "ceil_pages ps n = n div ps + (if n mod ps = 0 then 0 else 1)"
proof -
  have n: "n = n div ps * ps + n mod ps" by simp
  have m: "n mod ps < ps" using assms by simp
  show ?thesis
  proof (cases "n mod ps = 0")
    case True
    have "ceil_pages ps n = (n div ps * ps + (ps - 1)) div ps" unfolding ceil_pages_def using True n assms by simp
    also have "\<dots> = n div ps" using assms by (intro page_of_slot) simp
    finally show ?thesis using True by simp
  next
    case False
    have "n + ps - 1 = (n div ps + 1) * ps + (n mod ps - 1)" using n False by simp
    also have "\<dots> div ps = n div ps + 1" using m by (intro page_of_slot) simp
    finally show ?thesis using False unfolding ceil_pages_def by simp
  qed
qed

lemma row_page:
  assumes "0 < ps" and "paged_row ps pages row" and "p < length row"
  shows "row ! p div ps = pages ! (p div ps)" and "p div ps < length pages"
proof -
  have e: "row ! p = pages ! (p div ps) * ps + p mod ps" using assms by (simp add: paged_row_def)
  show "row ! p div ps = pages ! (p div ps)" unfolding e by (rule page_of_slot) (use assms(1) in simp)
  have "p div ps * ps \<le> p" by simp
  then have "p div ps < ceil_pages ps (length row)"
    using assms(3) lt_ceil_pages [OF assms(1)] by (meson le_less_trans)
  then show "p div ps < length pages" using assms(2) by (simp add: paged_row_def)
qed

section \<open>The kernels\<close>

text \<open>
  What the hardware leaves open: the contents of an uninitialised tensor, the value of a
  lane of a load that is masked out, the memory behind the free list, and the order of the
  stores of a grid.
\<close>

record gpu =
  uninit :: "nat \<Rightarrow> nat"
  masked_lane :: nat
  beyond :: "nat \<Rightarrow> nat"
  schedule :: "(nat \<times> nat) list \<Rightarrow> (nat \<times> nat) list"

text \<open>The grid makes every store of every program, and no other.\<close>

definition schedule_ok :: "gpu \<Rightarrow> bool" where
  "schedule_ok g \<longleftrightarrow> (\<forall>sts. mset (schedule g sts) = mset sts)"

definition torch_empty :: "gpu \<Rightarrow> nat \<Rightarrow> nat list" where
  "torch_empty g n = map (uninit g) [0..<n]"

definition load :: "gpu \<Rightarrow> nat list \<Rightarrow> nat \<Rightarrow> nat" where
  "load g pages i = (if i < length pages then pages ! i else beyond g i)"

text \<open>\<open>tl.load(ptr + load_offset, mask=load_offset <= pid)\<close>\<close>

definition masked_load :: "gpu \<Rightarrow> nat list \<Rightarrow> nat \<Rightarrow> nat \<Rightarrow> nat list" where
  "masked_load g xs bs_upper pid = map (\<lambda>i. if i \<le> pid then xs ! i else masked_lane g) [0..<bs_upper]"

fun bit_length :: "nat \<Rightarrow> nat" where
  "bit_length n = (if n = 0 then 0 else Suc (bit_length (n div 2)))"

declare bit_length.simps [simp del]

definition next_power_of_2 :: "nat \<Rightarrow> nat" where
  "next_power_of_2 n = (if n > 0 then 2 ^ bit_length (n - 1) else 1)"

definition BLOCK_EXTEND :: nat where
  "BLOCK_EXTEND = 4096"

definition store_all :: "nat list \<Rightarrow> (nat \<times> nat) list \<Rightarrow> nat list" where
  "store_all out sts = foldl (\<lambda>m (a, v). m[a := v]) out sts"

text \<open>The stores of program \<open>pid\<close> of \<open>alloc_extend_kernel\<close>.\<close>

definition alloc_extend_kernel :: "gpu \<Rightarrow> nat list \<Rightarrow> nat list \<Rightarrow> int list \<Rightarrow> nat list \<Rightarrow> nat \<Rightarrow> nat \<Rightarrow> nat \<Rightarrow> (nat \<times> nat) list" where
  "alloc_extend_kernel g pre_lens seq_lens last_loc pages bs_upper ps pid =
     (let seqs = masked_load g seq_lens bs_upper pid;
          pres = masked_load g pre_lens bs_upper pid;
          seq_len = seq_lens ! pid; pre_len = pre_lens ! pid; extend_len = seq_len - pre_len;
          output_start_loc = sum_list (map2 (\<lambda>s p. s - p) seqs pres) - extend_len;
          num_page_start_loc_self = ceil_pages ps seq_len - ceil_pages ps pre_len;
          new_page_start_loc = sum_list (map2 (\<lambda>s p. ceil_pages ps s - ceil_pages ps p) seqs pres) - num_page_start_loc_self;
          num_part1 = min seq_len (ceil_pages ps pre_len * ps) - pre_len;
          part1 = map (\<lambda>j. (output_start_loc + j, nat (last_loc ! pid + 1 + int j))) (filter (\<lambda>j. j < num_part1) [0..<ps])
      in if pre_len + num_part1 = seq_len then part1
         else
           let num_part2 = seq_len div ps * ps - ceil_pages ps pre_len * ps;
               num_blocks = (num_part2 + BLOCK_EXTEND - 1) div BLOCK_EXTEND;
               part2 = concat (map (\<lambda>block_id.
                 map (\<lambda>offset. (output_start_loc + num_part1 + offset,
                                load g pages (new_page_start_loc + offset div ps) * ps + offset mod ps))
                   (filter (\<lambda>offset. offset < num_part2) (map (\<lambda>j. block_id * BLOCK_EXTEND + j) [0..<BLOCK_EXTEND])))
                 [0..<num_blocks])
           in if pre_len + num_part1 + num_part2 = seq_len then part1 @ part2
              else
                let num_part3 = seq_len - seq_len div ps * ps;
                    start_loc = load g pages (new_page_start_loc + num_page_start_loc_self - 1);
                    part3 = map (\<lambda>j. (output_start_loc + num_part1 + num_part2 + j, start_loc * ps + j))
                      (filter (\<lambda>j. j < num_part3) [0..<ps])
                in part1 @ part2 @ part3)"

text \<open>The store of program \<open>pid\<close> of \<open>alloc_decode_kernel\<close>.\<close>

definition alloc_decode_kernel :: "gpu \<Rightarrow> nat list \<Rightarrow> int list \<Rightarrow> nat list \<Rightarrow> nat \<Rightarrow> nat \<Rightarrow> nat \<Rightarrow> (nat \<times> nat) list" where
  "alloc_decode_kernel g seq_lens last_loc pages bs_upper ps pid =
     (let seqs = masked_load g seq_lens bs_upper pid;
          pres = map2 (\<lambda>i s. if i \<le> pid then s - 1 else s) [0..<bs_upper] seqs;
          seq_len = seq_lens ! pid; pre_len = seq_len - 1;
          num_page_start_loc_self = ceil_pages ps seq_len - ceil_pages ps pre_len;
          new_page_start_loc = sum_list (map2 (\<lambda>s p. ceil_pages ps s - ceil_pages ps p) seqs pres) - num_page_start_loc_self
      in if num_page_start_loc_self = 0 then [(pid, nat (last_loc ! pid + 1))]
         else [(pid, load g pages new_page_start_loc * ps)])"

definition get_num_new_pages :: "nat list \<Rightarrow> nat \<Rightarrow> nat list option \<Rightarrow> bool \<Rightarrow> nat res" where
  "get_num_new_pages seq_lens ps prefix_lens decode =
     (if prefix_lens = None \<or> decode then
        bindE (check decode AssertionError) (\<lambda>_.
        Inr (sum_list (map (\<lambda>s. if s mod ps = 1 then 1 else 0) seq_lens)))
      else Inr (sum_list (map2 (\<lambda>s p. ceil_pages ps s - ceil_pages ps p) seq_lens (the prefix_lens))))"

definition paged_alloc_extend :: "gpu \<Rightarrow> kv_alloc \<Rightarrow> nat list \<Rightarrow> nat list \<Rightarrow> int list \<Rightarrow> nat \<Rightarrow> nat option
    \<Rightarrow> (nat list option \<times> kv_alloc) res" where
  "paged_alloc_extend g s prefix_lens seq_lens last_loc extend_num_tokens num_new_pages =
     (let ps = al_page_size s in
      bindE (check (\<not> al_debug s \<or> (\<forall>(l, p) \<in> set (zip last_loc prefix_lens). (l + 1) mod int ps = int p mod int ps)) AssertionError) (\<lambda>_.
      let bs = length prefix_lens;
          s1 = (if al_need_sort s \<and> extend_num_tokens div ps + bs + 1 > length (free_pages s) then merge_and_sort_free s else s);
          stores = concat (map (alloc_extend_kernel g prefix_lens seq_lens last_loc (free_pages s1) (next_power_of_2 bs) ps) [0..<bs]);
          out_indices = store_all (torch_empty g extend_num_tokens) (schedule g stores)
      in bindE (check (\<not> al_debug s \<or> length (unique out_indices) = length out_indices) AssertionError) (\<lambda>_.
         bindE (case num_new_pages of Some k \<Rightarrow> Inr k | None \<Rightarrow> get_num_new_pages seq_lens ps (Some prefix_lens) False) (\<lambda>k.
         Inr (if k > length (free_pages s1) then (None, s1)
              else (Some out_indices, s1\<lparr> free_pages := drop k (free_pages s1) \<rparr>))))))"

definition paged_alloc_decode :: "gpu \<Rightarrow> kv_alloc \<Rightarrow> nat list \<Rightarrow> int list \<Rightarrow> (nat list option \<times> kv_alloc) res" where
  "paged_alloc_decode g s seq_lens last_loc =
     (let ps = al_page_size s in
      bindE (check (\<not> al_debug s \<or> (\<forall>(l, n) \<in> set (zip last_loc seq_lens). (l + 2) mod int ps = int n mod int ps)) AssertionError) (\<lambda>_.
      let bs = length seq_lens;
          s1 = (if al_need_sort s \<and> bs > length (free_pages s) then merge_and_sort_free s else s);
          stores = concat (map (alloc_decode_kernel g seq_lens last_loc (free_pages s1) (next_power_of_2 bs) ps) [0..<bs]);
          out_indices = store_all (torch_empty g bs) (schedule g stores)
      in bindE (check (\<not> al_debug s \<or> length (unique out_indices) = length out_indices) AssertionError) (\<lambda>_.
         bindE (get_num_new_pages seq_lens ps None True) (\<lambda>k.
         Inr (if k > length (free_pages s1) then (None, s1)
              else (Some out_indices, s1\<lparr> free_pages := drop k (free_pages s1) \<rparr>))))))"

text \<open>\<open>alloc_extend_naive\<close>, one request of its loop and the loop.\<close>

definition extend_naive_step :: "nat list \<Rightarrow> nat list \<Rightarrow> int list \<Rightarrow> nat list \<Rightarrow> nat \<Rightarrow> nat list \<Rightarrow> nat \<Rightarrow> nat list res" where
  "extend_naive_step prefix_lens seq_lens last_loc pages ps out i =
     (let extend_lens = map2 (\<lambda>s p. s - p) seq_lens prefix_lens;
          end_pos = sum_list (take (Suc i) extend_lens);
          start_pos = end_pos - extend_lens ! i;
          num_new_pages = map2 (\<lambda>s p. ceil_pages ps s - ceil_pages ps p) seq_lens prefix_lens;
          num_full_new_pages = int (seq_lens ! i div ps) - int (ceil_pages ps (prefix_lens ! i));
          need_page = int (num_new_pages ! i) - num_full_new_pages;
          end_new_pages = sum_list (take (Suc i) num_new_pages);
          start_new_pages = end_new_pages - num_new_pages ! i;
          num1 = min (seq_lens ! i) (ceil_pages ps (prefix_lens ! i) * ps) - prefix_lens ! i
      in bindE (if num1 \<noteq> 0
                then slice_assign start_pos (start_pos + num1) (map (\<lambda>j. nat (last_loc ! i + 1 + int j)) (take num1 [0..<ps])) out
                else Inr out) (\<lambda>out.
         if prefix_lens ! i + num1 = seq_lens ! i then Inr out
         else
           let num2 = nat ((int (seq_lens ! i div ps) - int (ceil_pages ps (prefix_lens ! i))) * int ps)
           in bindE (if num2 \<noteq> 0
                     then slice_assign (start_pos + num1) (start_pos + num1 + num2)
                       (page_slots ps (py_slice start_new_pages (nat (int end_new_pages - need_page)) pages)) out
                     else Inr out) (\<lambda>out.
              if prefix_lens ! i + num1 + num2 = seq_lens ! i then Inr out
              else
                let num3 = seq_lens ! i - seq_lens ! i div ps * ps
                in if num3 \<noteq> 0
                   then bindE (check (end_new_pages - 1 < length pages) IndexError) (\<lambda>_.
                     slice_assign (end_pos - num3) end_pos (map (\<lambda>j. pages ! (end_new_pages - 1) * ps + j) (take num3 [0..<ps])) out)
                   else Inr out)))"

definition alloc_extend_naive :: "nat list \<Rightarrow> nat list \<Rightarrow> int list \<Rightarrow> nat list \<Rightarrow> nat list \<Rightarrow> nat \<Rightarrow> nat list res" where
  "alloc_extend_naive prefix_lens seq_lens last_loc pages out_indices ps =
     foldE (extend_naive_step prefix_lens seq_lens last_loc pages ps) out_indices [0..<length prefix_lens]"

section \<open>What a grid leaves in memory\<close>

text \<open>\<open>run_of off f n\<close>: the stores of \<open>f 0\<close>, \<open>f 1\<close>, up to \<open>f (n - 1)\<close> from address \<open>off\<close> on.\<close>

definition run_of :: "nat \<Rightarrow> (nat \<Rightarrow> nat) \<Rightarrow> nat \<Rightarrow> (nat \<times> nat) set" where
  "run_of off f n = (\<lambda>j. (off + j, f j)) ` {..<n}"

lemma run_of_append: "run_of off f a \<union> run_of (off + a) (\<lambda>j. f (a + j)) b = run_of off f (a + b)"
proof -
  have "{..<a + b} = {..<a} \<union> (+) a ` {..<b}"
    using ivl_disj_un_one(2) [of a "a + b"] image_add_atLeastLessThan [of a 0 b]
    by (simp add: atLeast0LessThan add.commute)
  then show ?thesis
    by (simp add: run_of_def image_Un image_image add.assoc)
qed

lemma run_of_0 [simp]: "run_of off f 0 = {}"
  by (simp add: run_of_def)

lemma run_of_cong: "(\<And>j. j < n \<Longrightarrow> f j = h j) \<Longrightarrow> run_of off f n = run_of off h n"
  by (simp add: run_of_def)

lemma length_store_all [simp]: "length (store_all out sts) = length out"
  unfolding store_all_def by (induction sts arbitrary: out) auto

lemma store_all_Cons: "store_all out ((a, v) # sts) = store_all (out[a := v]) sts"
  by (simp add: store_all_def)

lemma store_all_untouched: "a \<notin> fst ` set sts \<Longrightarrow> store_all out sts ! a = out ! a"
proof (induction sts arbitrary: out)
  case (Cons st sts)
  then show ?case by (cases st) (auto simp: store_all_Cons)
qed (simp add: store_all_def)

lemma store_all_written:
  "a < length out \<Longrightarrow> a \<in> fst ` set sts \<Longrightarrow> \<forall>v. (a, v) \<in> set sts \<longrightarrow> v = f a \<Longrightarrow> store_all out sts ! a = f a"
proof (induction sts arbitrary: out)
  case (Cons st sts)
  obtain b v where st: "st = (b, v)" by fastforce
  show ?case
  proof (cases "a \<in> fst ` set sts")
    case True
    then show ?thesis using Cons.IH [of "out[b := v]"] Cons.prems by (simp add: st store_all_Cons)
  next
    case False
    then have "b = a" "v = f a" using Cons.prems by (auto simp: st)
    then show ?thesis using store_all_untouched [OF False] Cons.prems(1) by (simp add: st store_all_Cons)
  qed
qed simp

text \<open>Whatever the order of the stores, the memory is the function they all agree with.\<close>

lemma store_all_run:
  assumes "set sts = run_of 0 f (length out)"
  shows "store_all out sts = map f [0..<length out]"
proof (rule nth_equalityI)
  fix a assume a: "a < length (store_all out sts)"
  have "fst ` set sts = {..<length out}" unfolding assms run_of_def by (simp add: image_image)
  then have "store_all out sts ! a = f a"
    using a by (intro store_all_written) (auto simp: assms run_of_def)
  then show "store_all out sts ! a = map f [0..<length out] ! a" using a by simp
qed simp

text \<open>The stores of the programs, each from where the previous one ends, fill the concatenation.\<close>

lemma concat_run:
  "(\<Union>i < length xss. run_of (sum_list (map length (take i xss))) ((!) (xss ! i)) (length (xss ! i)))
   = run_of 0 ((!) (concat xss)) (length (concat xss))"
proof (induction xss rule: rev_induct)
  case (snoc xs xss)
  have "(\<Union>i < length (xss @ [xs]). run_of (sum_list (map length (take i (xss @ [xs])))) ((!) ((xss @ [xs]) ! i)) (length ((xss @ [xs]) ! i)))
     = (\<Union>i < length xss. run_of (sum_list (map length (take i xss))) ((!) (xss ! i)) (length (xss ! i)))
       \<union> run_of (length (concat xss)) ((!) xs) (length xs)"
    by (simp add: lessThan_Suc nth_append length_concat Un_commute)
  also have "\<dots> = run_of 0 ((!) (concat xss)) (length (concat xss)) \<union> run_of (0 + length (concat xss)) ((!) xs) (length xs)"
    by (simp add: snoc.IH)
  also have "run_of 0 ((!) (concat xss)) (length (concat xss)) = run_of 0 ((!) (concat xss @ xs)) (length (concat xss))"
    by (rule run_of_cong) (simp add: nth_append)
  also have "run_of (0 + length (concat xss)) ((!) xs) (length xs)
      = run_of (0 + length (concat xss)) (\<lambda>j. (concat xss @ xs) ! (length (concat xss) + j)) (length xs)"
    by simp
  also have "run_of 0 ((!) (concat xss @ xs)) (length (concat xss)) \<union> \<dots> = run_of 0 ((!) (concat xss @ xs)) (length (concat xss) + length xs)"
    by (rule run_of_append)
  finally show ?case by simp
qed simp

lemma masked_sum:
  assumes "\<And>u. f u u = (0 :: nat)" and "pid < length xs" and "length ys = length xs" and "length xs \<le> bu"
  shows "sum_list (map2 f (masked_load g xs bu pid) (masked_load g ys bu pid)) = sum_list (take (Suc pid) (map2 f xs ys))"
proof -
  let ?h = "\<lambda>i. if i \<le> pid then f (xs ! i) (ys ! i) else 0"
  have "map2 f (masked_load g xs bu pid) (masked_load g ys bu pid) = map ?h [0..<bu]"
    by (rule nth_equalityI) (auto simp: masked_load_def assms(1))
  moreover have "[0..<bu] = [0..<Suc pid] @ [Suc pid..<bu]" using assms(2,4) upt_add_eq_append [of 0 "Suc pid" "bu - Suc pid"] by simp
  moreover have "map ?h [Suc pid..<bu] = map (\<lambda>_. 0) [Suc pid..<bu]" by simp
  moreover have "take (Suc pid) (map2 f xs ys) = map ?h [0..<Suc pid]"
    using assms(2,3) by (intro nth_equalityI) (auto simp del: upt_Suc)
  ultimately show ?thesis by (simp add: sum_list_triv del: upt_Suc)
qed

lemma bit_length_bound: "n < 2 ^ bit_length n"
proof (induction n rule: bit_length.induct)
  case (1 n)
  then show ?case by (subst bit_length.simps) auto
qed

lemma next_power_of_2_ge: "n \<le> next_power_of_2 n"
  using bit_length_bound [of "n - 1"] by (cases n) (simp_all add: next_power_of_2_def Suc_le_eq)

section \<open>One request of an extension\<close>

text \<open>
  The slots of the new positions of a request: its pages, the old ones and the \<open>news\<close> taken
  from the free list, hold them in order.
\<close>

definition slot_at :: "nat \<Rightarrow> nat list \<Rightarrow> nat \<Rightarrow> nat" where
  "slot_at ps pages p = pages ! (p div ps) * ps + p mod ps"

definition ext_slots :: "nat \<Rightarrow> nat list \<Rightarrow> nat \<Rightarrow> nat \<Rightarrow> nat list" where
  "ext_slots ps pages pre n = map (slot_at ps pages) [pre..<n]"

definition last_loc_of :: "nat list \<Rightarrow> int" where
  "last_loc_of row = (if row = [] then - 1 else int (last row))"

lemma paged_row_extend:
  assumes ps: "0 < ps" and row: "paged_row ps pages row" and le: "length row \<le> n"
    and news: "length news = ceil_pages ps n - ceil_pages ps (length row)"
  shows "paged_row ps (pages @ news) (row @ ext_slots ps (pages @ news) (length row) n)"
proof -
  have "(row @ ext_slots ps (pages @ news) (length row) n) ! p = (pages @ news) ! (p div ps) * ps + p mod ps" if "p < n" for p
  proof (cases "p < length row")
    case True
    then show ?thesis using row row_page(2) [OF ps row True] by (simp add: nth_append paged_row_def)
  qed (use that in \<open>simp add: nth_append ext_slots_def slot_at_def\<close>)
  moreover have "length (pages @ news) = ceil_pages ps n"
    using row news ceil_pages_mono [OF le] by (simp add: paged_row_def)
  ultimately show ?thesis using le by (simp add: paged_row_def ext_slots_def)
qed

lemma slot_old_page:
  assumes ps: "0 < ps" and row: "paged_row ps pages row" and j: "length row + j < ceil_pages ps (length row) * ps"
  shows "nat (last_loc_of row + 1 + int j) = slot_at ps (pages @ news) (length row + j)"
proof -
  define k where "k = ceil_pages ps (length row) - 1"
  have "ceil_pages ps (length row) \<noteq> 0" using j by (cases "ceil_pages ps (length row) = 0") auto
  then have ck: "ceil_pages ps (length row) = Suc k" by (simp add: k_def)
  then have "k * ps < length row" using lt_ceil_pages [OF ps, of k "length row"] by simp
  then obtain r where r: "length row = k * ps + Suc r" using less_imp_Suc_add by force
  have rj: "Suc r + j < ps" using j ck r by simp
  have div: "(length row - 1) div ps = k" "(length row + j) div ps = k"
    using r rj page_of_slot [of r ps k] page_of_slot [of "Suc r + j" ps k] by (simp_all add: add.assoc)
  have md: "(length row - 1) mod ps = r" "(length row + j) mod ps = Suc r + j"
    using r rj by (simp_all add: add.assoc)
  have "row \<noteq> []" using r by auto
  then have "last row = pages ! k * ps + r"
    using row div(1) md(1) by (simp add: last_conv_nth paged_row_def)
  moreover have "(pages @ news) ! k = pages ! k" using row ck by (simp add: nth_append paged_row_def)
  ultimately show ?thesis using \<open>row \<noteq> []\<close> div(2) md(2) by (simp add: last_loc_of_def slot_at_def nat_add_distrib nat_mult_distrib)
qed

lemma slot_new_page:
  assumes ps: "0 < ps" and row: "paged_row ps pages row" and p: "p = ceil_pages ps (length row) * ps + j"
  shows "slot_at ps (pages @ news) p = news ! (j div ps) * ps + j mod ps"
proof -
  have "p div ps = ceil_pages ps (length row) + j div ps" "p mod ps = j mod ps" using ps p by simp_all
  then show ?thesis using row by (simp add: slot_at_def nth_append paged_row_def)
qed

lemma lanes_run: "n \<le> ps \<Longrightarrow> set (map (\<lambda>j. (off + j, f j)) (filter (\<lambda>j. j < n) [0..<ps])) = run_of off f n"
  by (auto simp: run_of_def)

lemma block_extend_pos: "0 < BLOCK_EXTEND"
  by (simp add: BLOCK_EXTEND_def)

lemma blocks_run:
  "set (concat (map (\<lambda>b. map (\<lambda>i. (off + i, f i)) (filter (\<lambda>i. i < n) (map (\<lambda>j. b * BLOCK_EXTEND + j) [0..<BLOCK_EXTEND])))
     [0..<(n + BLOCK_EXTEND - 1) div BLOCK_EXTEND])) = run_of off f n" (is "?L = _")
proof -
  have "\<exists>b < (n + BLOCK_EXTEND - 1) div BLOCK_EXTEND. \<exists>j < BLOCK_EXTEND. i = b * BLOCK_EXTEND + j" if "i < n" for i
  proof -
    have "i div BLOCK_EXTEND * BLOCK_EXTEND \<le> i" by simp
    then have "i div BLOCK_EXTEND < (n + BLOCK_EXTEND - 1) div BLOCK_EXTEND"
      using lt_ceil_pages [OF block_extend_pos, of "i div BLOCK_EXTEND" n] that unfolding ceil_pages_def by (meson le_less_trans)
    moreover have "i mod BLOCK_EXTEND < BLOCK_EXTEND" "i = i div BLOCK_EXTEND * BLOCK_EXTEND + i mod BLOCK_EXTEND"
      by (simp_all add: block_extend_pos)
    ultimately show ?thesis by blast
  qed
  note blk = this
  have "(off + i, f i) \<in> ?L" if "i < n" for i
  proof -
    obtain b j where b: "b < (n + BLOCK_EXTEND - 1) div BLOCK_EXTEND" "j < BLOCK_EXTEND" "i = b * BLOCK_EXTEND + j"
      using blk [OF \<open>i < n\<close>] by blast
    then have "i \<in> set (filter (\<lambda>i. i < n) (map (\<lambda>j. b * BLOCK_EXTEND + j) [0..<BLOCK_EXTEND]))" using that by auto
    then have "(off + i, f i) \<in> set (map (\<lambda>i. (off + i, f i)) (filter (\<lambda>i. i < n) (map (\<lambda>j. b * BLOCK_EXTEND + j) [0..<BLOCK_EXTEND])))"
      unfolding set_map [of "\<lambda>i. (off + i, f i)"] by (rule imageI)
    moreover have "b \<in> set [0..<(n + BLOCK_EXTEND - 1) div BLOCK_EXTEND]" using b(1) by simp
    ultimately show ?thesis unfolding set_concat set_map [of _ "[0..<(n + BLOCK_EXTEND - 1) div BLOCK_EXTEND]"] by blast
  qed
  then show ?thesis by (auto simp: run_of_def)
qed

text \<open>The three parts of the new positions, as the kernel and its reference count them.\<close>

lemma extend_parts:
  assumes ps: "0 < ps" and le: "pre \<le> (n :: nat)"
  defines "n1 \<equiv> min n (ceil_pages ps pre * ps) - pre"
    and "n2 \<equiv> n div ps * ps - ceil_pages ps pre * ps" and "n3 \<equiv> n - n div ps * ps"
  shows "n1 \<le> ps" "n3 < ps" "pre + n1 \<le> n" "pre + n1 \<le> ceil_pages ps pre * ps"
    "pre + n1 \<noteq> n \<Longrightarrow> pre + n1 = ceil_pages ps pre * ps \<and> pre + n1 + n2 + n3 = n \<and> ps dvd n2
       \<and> n2 div ps = n div ps - ceil_pages ps pre \<and> ceil_pages ps pre \<le> n div ps"
    "pre + n1 \<noteq> n \<Longrightarrow> n3 \<noteq> 0 \<Longrightarrow> ceil_pages ps n - ceil_pages ps pre = Suc (n2 div ps)"
    "pre + n1 \<noteq> n \<Longrightarrow> n3 = 0 \<Longrightarrow> ceil_pages ps n - ceil_pages ps pre = n2 div ps"
proof -
  have ge: "pre \<le> ceil_pages ps pre * ps" by (rule ceil_pages_ge [OF ps])
  have "ceil_pages ps pre * ps < pre + ps"
    using ps div_times_less_eq_dividend [of "pre + ps - 1" ps] unfolding ceil_pages_def by linarith
  then show "n1 \<le> ps" by (simp add: n1_def)
  have n3: "n3 = n mod ps" by (simp add: n3_def minus_div_mult_eq_mod)
  then show "n3 < ps" using ps by simp
  show "pre + n1 \<le> n" "pre + n1 \<le> ceil_pages ps pre * ps" using le ge by (auto simp: n1_def)
  assume c: "pre + n1 \<noteq> n"
  then have lt: "ceil_pages ps pre * ps < n" "pre + n1 = ceil_pages ps pre * ps" using le ge by (auto simp: n1_def min_def split: if_splits)
  have cd: "ceil_pages ps pre \<le> n div ps" using lt(1) ps by (simp add: less_eq_div_iff_mult_less_eq)
  have d2: "n2 = (n div ps - ceil_pages ps pre) * ps" by (simp add: n2_def diff_mult_distrib)
  have "ceil_pages ps pre * ps \<le> n div ps * ps" using cd by simp
  moreover have "n div ps * ps \<le> n" by simp
  ultimately have "pre + n1 + n2 + n3 = n" using lt(2) unfolding n2_def n3_def by linarith
  then show "pre + n1 = ceil_pages ps pre * ps \<and> pre + n1 + n2 + n3 = n \<and> ps dvd n2
       \<and> n2 div ps = n div ps - ceil_pages ps pre \<and> ceil_pages ps pre \<le> n div ps"
    using lt(2) cd d2 ps by simp
  show "n3 \<noteq> 0 \<Longrightarrow> ceil_pages ps n - ceil_pages ps pre = Suc (n2 div ps)" "n3 = 0 \<Longrightarrow> ceil_pages ps n - ceil_pages ps pre = n2 div ps"
    using cd d2 ps n3 by (simp_all add: ceil_pages_div [OF ps, of n] Suc_diff_le)
qed

text \<open>A batch: the rows with their pages, and the length each is to be extended to.\<close>

definition batch_ok :: "nat \<Rightarrow> (nat list \<times> nat list) list \<Rightarrow> nat list \<Rightarrow> bool" where
  "batch_ok ps reqs seq_lens \<longleftrightarrow> length seq_lens = length reqs
     \<and> (\<forall>i < length reqs. paged_row ps (fst (reqs ! i)) (snd (reqs ! i)) \<and> length (snd (reqs ! i)) \<le> seq_lens ! i)"

definition pre_lens_of :: "(nat list \<times> nat list) list \<Rightarrow> nat list" where
  "pre_lens_of reqs = map (\<lambda>r. length (snd r)) reqs"

definition ext_lens :: "(nat list \<times> nat list) list \<Rightarrow> nat list \<Rightarrow> nat list" where
  "ext_lens reqs seq_lens = map2 (\<lambda>s p. s - p) seq_lens (pre_lens_of reqs)"

definition page_needs :: "nat \<Rightarrow> (nat list \<times> nat list) list \<Rightarrow> nat list \<Rightarrow> nat list" where
  "page_needs ps reqs seq_lens = map2 (\<lambda>s p. ceil_pages ps s - ceil_pages ps p) seq_lens (pre_lens_of reqs)"

text \<open>The pages request \<open>i\<close> gets: the next ones of the free list.\<close>

definition new_pages :: "nat \<Rightarrow> (nat list \<times> nat list) list \<Rightarrow> nat list \<Rightarrow> nat list \<Rightarrow> nat \<Rightarrow> nat list" where
  "new_pages ps reqs seq_lens pages i =
     take (page_needs ps reqs seq_lens ! i) (drop (sum_list (take i (page_needs ps reqs seq_lens))) pages)"

definition req_ext :: "nat \<Rightarrow> (nat list \<times> nat list) list \<Rightarrow> nat list \<Rightarrow> nat list \<Rightarrow> nat \<Rightarrow> nat list" where
  "req_ext ps reqs seq_lens pages i =
     ext_slots ps (fst (reqs ! i) @ new_pages ps reqs seq_lens pages i) (length (snd (reqs ! i))) (seq_lens ! i)"

lemma sum_take_Suc: "i < length xs \<Longrightarrow> sum_list (take (Suc i) xs) = sum_list (take i xs) + (xs ! i :: nat)"
  by (simp add: take_Suc_conv_app_nth)

lemma sum_take_le: "sum_list (take i xs) \<le> sum_list (xs :: nat list)"
  by (metis append_take_drop_id le_add1 sum_list_append)

lemma new_pages_nth:
  assumes "sum_list (page_needs ps reqs seq_lens) \<le> length pages" and "i < length (page_needs ps reqs seq_lens)"
    and "k < page_needs ps reqs seq_lens ! i"
  shows "load g pages (sum_list (take i (page_needs ps reqs seq_lens)) + k) = new_pages ps reqs seq_lens pages i ! k"
proof -
  have "sum_list (take i (page_needs ps reqs seq_lens)) + k < length pages"
    using sum_take_Suc [OF assms(2)] sum_take_le [of "Suc i" "page_needs ps reqs seq_lens"] assms(1,3) by linarith
  then show ?thesis using assms(3) by (simp add: load_def new_pages_def)
qed

lemma batch_nth:
  assumes "batch_ok ps reqs seq_lens" and "i < length reqs"
  shows "pre_lens_of reqs ! i = length (snd (reqs ! i))"
    "ext_lens reqs seq_lens ! i = seq_lens ! i - length (snd (reqs ! i))"
    "page_needs ps reqs seq_lens ! i = ceil_pages ps (seq_lens ! i) - ceil_pages ps (length (snd (reqs ! i)))"
    "length (pre_lens_of reqs) = length reqs" "length (ext_lens reqs seq_lens) = length reqs" "length (page_needs ps reqs seq_lens) = length reqs"
  using assms by (auto simp: batch_ok_def pre_lens_of_def ext_lens_def page_needs_def)

lemma masked_start:
  assumes "\<And>u. f u u = (0 :: nat)" and "length ys = length xs" and "i < length xs" and "length xs \<le> bu"
  shows "sum_list (map2 f (masked_load g xs bu i) (masked_load g ys bu i)) - f (xs ! i) (ys ! i) = sum_list (take i (map2 f xs ys))"
  unfolding masked_sum [of f, OF assms(1,3,2,4)] using assms(2,3) by (simp add: sum_take_Suc)

text \<open>The three parts of a request, as address/value runs.\<close>

lemma part_runs:
  assumes ps: "0 < ps" and row: "paged_row ps pg row" and le: "length row \<le> n"
    and ld: "\<forall>k < ceil_pages ps n - ceil_pages ps (length row). ld k = news ! k"
  defines "n1 \<equiv> min n (ceil_pages ps (length row) * ps) - length row"
    and "n2 \<equiv> n div ps * ps - ceil_pages ps (length row) * ps" and "n3 \<equiv> n - n div ps * ps"
    and "f \<equiv> (\<lambda>j. slot_at ps (pg @ news) (length row + j))"
  shows "j < n1 \<Longrightarrow> nat (last_loc_of row + 1 + int j) = f j"
    and "length row + n1 \<noteq> n \<Longrightarrow> j < n2 \<Longrightarrow> ld (j div ps) * ps + j mod ps = f (n1 + j)"
    and "length row + n1 \<noteq> n \<Longrightarrow> j < n3 \<Longrightarrow> ld (ceil_pages ps n - ceil_pages ps (length row) - 1) * ps + j = f (n1 + n2 + j)"
proof -
  note parts = extend_parts [OF ps le, folded n1_def n2_def n3_def]
  show "nat (last_loc_of row + 1 + int j) = f j" if "j < n1"
    using slot_old_page [OF ps row, of j news] parts(4) that by (simp add: f_def)
  show "ld (j div ps) * ps + j mod ps = f (n1 + j)" if c: "length row + n1 \<noteq> n" and j: "j < n2"
  proof -
    have "j < n2 div ps * ps" using j parts(5) [OF c] by (metis dvd_div_mult_self)
    then have "j div ps < n2 div ps" using ps by (simp add: div_less_iff_less_mult)
    then have "ld (j div ps) = news ! (j div ps)" using parts(6,7) [OF c] ld by (cases "n3 = 0") auto
    then show ?thesis
      using slot_new_page [OF ps row, of "length row + (n1 + j)" j news] parts(5) [OF c] by (simp add: f_def)
  qed
  show "ld (ceil_pages ps n - ceil_pages ps (length row) - 1) * ps + j = f (n1 + n2 + j)" if c: "length row + n1 \<noteq> n" and j: "j < n3"
  proof -
    have need: "ceil_pages ps n - ceil_pages ps (length row) = Suc (n2 div ps)" using parts(6) [OF c] j by simp
    have "(n2 + j) div ps = n2 div ps" "(n2 + j) mod ps = j"
      using parts(2) parts(5) [OF c] j page_of_slot [of j ps "n2 div ps"] by (auto simp: dvd_div_mult_self mod_add_left_eq [symmetric])
    then show ?thesis
      using slot_new_page [OF ps row, of "length row + (n1 + n2 + j)" "n2 + j" news] parts(5) [OF c] ld need
      by (simp add: f_def)
  qed
qed

text \<open>The stores of one program are the slots of its request, from where the previous request ends.\<close>

lemma extend_kernel_run:
  assumes ps: "0 < ps" and ok: "batch_ok ps reqs seq_lens" and i: "i < length reqs" and bu: "length reqs \<le> bu"
    and enough: "sum_list (page_needs ps reqs seq_lens) \<le> length pages"
  shows "set (alloc_extend_kernel g (pre_lens_of reqs) seq_lens (map (\<lambda>r. last_loc_of (snd r)) reqs) pages bu ps i)
    = run_of (sum_list (take i (ext_lens reqs seq_lens))) ((!) (req_ext ps reqs seq_lens pages i)) (ext_lens reqs seq_lens ! i)"
    (is "set ?K = run_of ?off _ _")
proof -
  note bn = batch_nth [OF ok i]
  obtain pg row where r: "reqs ! i = (pg, row)" by fastforce
  define n where "n = seq_lens ! i"
  let ?st = "sum_list (take i (page_needs ps reqs seq_lens))"
  define news where "news = new_pages ps reqs seq_lens pages i"
  have len: "length seq_lens = length reqs" and row: "paged_row ps pg row" and le: "length row \<le> n"
    using ok i r by (auto simp: batch_ok_def n_def)
  have starts: "sum_list (map2 (\<lambda>s p. s - p) (masked_load g seq_lens bu i) (masked_load g (pre_lens_of reqs) bu i)) - (n - length row) = ?off"
    "sum_list (map2 (\<lambda>s p. ceil_pages ps s - ceil_pages ps p) (masked_load g seq_lens bu i) (masked_load g (pre_lens_of reqs) bu i))
      - (ceil_pages ps n - ceil_pages ps (length row)) = ?st"
    using masked_start [of "\<lambda>s p. s - p" "pre_lens_of reqs" seq_lens i bu g]
      masked_start [of "\<lambda>s p. ceil_pages ps s - ceil_pages ps p" "pre_lens_of reqs" seq_lens i bu g] i len bn(1,4) bu r
    by (simp_all add: ext_lens_def page_needs_def n_def)
  have ld: "\<forall>k < ceil_pages ps n - ceil_pages ps (length row). load g pages (?st + k) = news ! k"
    using new_pages_nth [OF enough, of i _ g] i bn(3,6) r by (simp add: news_def n_def)
  define n1 n2 n3 where "n1 = min n (ceil_pages ps (length row) * ps) - length row"
    and "n2 = n div ps * ps - ceil_pages ps (length row) * ps" and "n3 = n - n div ps * ps"
  define f where "f = (\<lambda>j. slot_at ps (pg @ news) (length row + j))"
  define need where "need = ceil_pages ps n - ceil_pages ps (length row)"
  note pt = extend_parts [OF ps le, folded n1_def n2_def n3_def]
  note pr = part_runs [OF ps row le, of "\<lambda>k. load g pages (?st + k)" news, OF ld, folded n1_def n2_def n3_def need_def]
  define q1 where "q1 = map (\<lambda>j. (?off + j, nat (last_loc_of row + 1 + int j))) (filter (\<lambda>j. j < n1) [0..<ps])"
  define q2 where "q2 = concat (map (\<lambda>b. map (\<lambda>j. (?off + n1 + j, load g pages (?st + j div ps) * ps + j mod ps))
      (filter (\<lambda>j. j < n2) (map (\<lambda>j. b * BLOCK_EXTEND + j) [0..<BLOCK_EXTEND]))) [0..<(n2 + BLOCK_EXTEND - 1) div BLOCK_EXTEND])"
  define q3 where "q3 = map (\<lambda>j. (?off + n1 + n2 + j, load g pages (?st + need - 1) * ps + j)) (filter (\<lambda>j. j < n3) [0..<ps])"
  have K: "?K = (if length row + n1 = n then q1 else if length row + n1 + n2 = n then q1 @ q2 else q1 @ q2 @ q3)"
    unfolding alloc_extend_kernel_def Let_def q1_def q2_def q3_def bn(1) starts [unfolded n_def]
    using i by (simp add: r n_def [symmetric] n1_def n2_def n3_def need_def starts)
  have q1: "set q1 = run_of ?off f n1"
    unfolding q1_def lanes_run [OF pt(1)] by (rule run_of_cong) (simp only: f_def pr(1))
  have q2: "set q2 = run_of (?off + n1) (\<lambda>j. f (n1 + j)) n2" if "length row + n1 \<noteq> n"
    unfolding q2_def blocks_run by (rule run_of_cong) (simp only: f_def pr(2) [OF that])
  have q3: "set q3 = run_of (?off + n1 + n2) (\<lambda>j. f (n1 + n2 + j)) n3" if c: "length row + n1 \<noteq> n"
  proof -
    have "?st + need - 1 = ?st + (need - 1)" if "n3 \<noteq> 0" using pt(6) [OF c that] by (simp add: need_def)
    then show ?thesis unfolding q3_def lanes_run [OF less_imp_le [OF pt(2)]]
      using pr(3) [OF c] by (intro run_of_cong) (metis f_def less_zeroE)
  qed
  have "set ?K = run_of ?off f (n - length row)"
  proof (cases "length row + n1 = n")
    case False
    have tot: "n - length row = n1 + n2 + n3" using pt(5) [OF False] by linarith
    have "set ?K = set q1 \<union> set q2 \<union> set q3"
      using False q3 [OF False] tot le unfolding K by auto
    then show ?thesis
      unfolding q1 q2 [OF False] q3 [OF False] tot run_of_append [of ?off f n1 n2] add.assoc [of ?off]
      by (simp add: run_of_append [of ?off f "n1 + n2" n3])
  qed (auto simp: K q1)
  then show ?thesis
    using i r len bn(2) by (auto simp: req_ext_def ext_slots_def f_def news_def n_def intro!: run_of_cong)
qed

section \<open>A batch\<close>

definition batch_out :: "nat \<Rightarrow> (nat list \<times> nat list) list \<Rightarrow> nat list \<Rightarrow> nat list \<Rightarrow> nat list list" where
  "batch_out ps reqs seq_lens pages = map (req_ext ps reqs seq_lens pages) [0..<length reqs]"

lemma length_req_ext: "length (req_ext ps reqs seq_lens pages i) = seq_lens ! i - length (snd (reqs ! i))"
  by (simp add: req_ext_def ext_slots_def)

lemma batch_out_lengths: "batch_ok ps reqs seq_lens \<Longrightarrow> map length (batch_out ps reqs seq_lens pages) = ext_lens reqs seq_lens"
  by (rule nth_equalityI) (auto simp: batch_out_def batch_ok_def ext_lens_def pre_lens_of_def length_req_ext)

lemma length_batch_out: "batch_ok ps reqs seq_lens \<Longrightarrow> length (concat (batch_out ps reqs seq_lens pages)) = sum_list (ext_lens reqs seq_lens)"
  by (simp add: length_concat batch_out_lengths)

lemma grid_fills:
  assumes g: "schedule_ok g" and len: "length out = length (concat xss)"
    and K: "\<And>i. i < length xss \<Longrightarrow> set (K i) = run_of (sum_list (map length (take i xss))) ((!) (xss ! i)) (length (xss ! i))"
  shows "store_all out (schedule g (concat (map K [0..<length xss]))) = concat xss"
proof -
  have "set (schedule g (concat (map K [0..<length xss]))) = set (concat (map K [0..<length xss]))"
    using g unfolding schedule_ok_def by (metis set_mset_mset)
  also have "\<dots> = (\<Union>i < length xss. set (K i))" by (simp add: atLeast0LessThan)
  also have "\<dots> = run_of 0 ((!) (concat xss)) (length out)"
    unfolding len concat_run [symmetric] using K by simp
  finally show ?thesis using len by (simp add: store_all_run map_nth)
qed

lemma extend_grid:
  assumes ps: "0 < ps" and ok: "batch_ok ps reqs seq_lens" and g: "schedule_ok g"
    and enough: "sum_list (page_needs ps reqs seq_lens) \<le> length pages" and bu: "length reqs \<le> bu"
  shows "store_all (torch_empty g (sum_list (ext_lens reqs seq_lens))) (schedule g
      (concat (map (alloc_extend_kernel g (pre_lens_of reqs) seq_lens (map (\<lambda>r. last_loc_of (snd r)) reqs) pages bu ps) [0..<length reqs])))
    = concat (batch_out ps reqs seq_lens pages)" (is "store_all ?e (schedule g (concat (map ?K _))) = _")
proof -
  let ?X = "batch_out ps reqs seq_lens pages"
  have lX: "length ?X = length reqs" by (simp add: batch_out_def)
  have "store_all ?e (schedule g (concat (map ?K [0..<length ?X]))) = concat ?X"
  proof (rule grid_fills [OF g])
    show "length ?e = length (concat ?X)" by (simp add: torch_empty_def length_batch_out [OF ok])
    fix i assume i: "i < length ?X"
    have "length (?X ! i) = ext_lens reqs seq_lens ! i" using i batch_out_lengths [OF ok] by (metis nth_map)
    then show "set (?K i) = run_of (sum_list (map length (take i ?X))) ((!) (?X ! i)) (length (?X ! i))"
      using extend_kernel_run [OF ps ok _ bu enough, of i g] i lX
      by (simp add: take_map [symmetric] batch_out_lengths [OF ok]) (simp add: batch_out_def)
  qed
  then show ?thesis by (simp add: lX)
qed

text \<open>The rows and pages of a batch after the extension.\<close>

definition grown :: "nat \<Rightarrow> (nat list \<times> nat list) list \<Rightarrow> nat list \<Rightarrow> nat list \<Rightarrow> (nat list \<times> nat list) list" where
  "grown ps reqs seq_lens pages = map (\<lambda>i. (fst (reqs ! i) @ new_pages ps reqs seq_lens pages i,
     snd (reqs ! i) @ req_ext ps reqs seq_lens pages i)) [0..<length reqs]"

lemma grown_rows:
  assumes "0 < ps" and "batch_ok ps reqs seq_lens" and "sum_list (page_needs ps reqs seq_lens) \<le> length pages" and "i < length reqs"
  shows "paged_row ps (fst (grown ps reqs seq_lens pages ! i)) (snd (grown ps reqs seq_lens pages ! i))"
    and "length (snd (grown ps reqs seq_lens pages ! i)) = seq_lens ! i"
proof -
  have "length (new_pages ps reqs seq_lens pages i) = page_needs ps reqs seq_lens ! i"
    using sum_take_Suc [of i "page_needs ps reqs seq_lens"] sum_take_le [of "Suc i" "page_needs ps reqs seq_lens"] assms batch_nth(6) [OF assms(2,4)]
    by (simp add: new_pages_def)
  then show "paged_row ps (fst (grown ps reqs seq_lens pages ! i)) (snd (grown ps reqs seq_lens pages ! i))"
    using assms paged_row_extend [OF assms(1), of "fst (reqs ! i)" "snd (reqs ! i)" "seq_lens ! i"] batch_nth(3) [OF assms(2,4)]
    by (auto simp: grown_def batch_ok_def req_ext_def)
  show "length (snd (grown ps reqs seq_lens pages ! i)) = seq_lens ! i"
    using assms by (auto simp: grown_def length_req_ext batch_ok_def)
qed

lemma new_pages_concat:
  assumes "sum_list ns \<le> length pages"
  shows "concat (map (\<lambda>i. take (ns ! i) (drop (sum_list (take i ns)) pages)) [0..<length ns]) = take (sum_list ns) pages"
  using assms
proof (induction ns rule: rev_induct)
  case (snoc n ns)
  define F where "F = (\<lambda>i. take ((ns @ [n]) ! i) (drop (sum_list (take i (ns @ [n]))) pages))"
  have "map F [0..<length ns] = map (\<lambda>i. take (ns ! i) (drop (sum_list (take i ns)) pages)) [0..<length ns]"
    by (rule map_cong) (simp_all add: F_def nth_append)
  then have "concat (map F [0..<length ns]) = take (sum_list ns) pages"
    using snoc.IH snoc.prems by (simp only:) simp
  moreover have "F (length ns) = take n (drop (sum_list ns) pages)" by (simp add: F_def)
  ultimately have "concat (map F [0..<length (ns @ [n])]) = take (sum_list ns) pages @ take n (drop (sum_list ns) pages)"
    by simp
  then show ?case by (simp add: F_def take_add)
qed simp

section \<open>Rows that share no page\<close>

text \<open>The pages of a row, read off its slots.\<close>

definition row_pages :: "nat \<Rightarrow> nat list \<Rightarrow> nat list" where
  "row_pages ps row = map (\<lambda>k. row ! (k * ps) div ps) [0..<ceil_pages ps (length row)]"

lemma paged_row_pages:
  assumes ps: "0 < ps" and row: "paged_row ps pg row"
  shows "row_pages ps row = pg"
proof (rule nth_equalityI)
  show "length (row_pages ps row) = length pg" using row by (simp add: row_pages_def paged_row_def)
  fix k assume "k < length (row_pages ps row)"
  then have k: "k < ceil_pages ps (length row)" by (simp add: row_pages_def)
  then have "k * ps < length row" using lt_ceil_pages [OF ps] by simp
  then show "row_pages ps row ! k = pg ! k" using row_page(1) [OF ps row, of "k * ps"] k ps by (simp add: row_pages_def)
qed

lemma paged_row_set:
  assumes ps: "0 < ps" and row: "paged_row ps pg row"
  shows "(\<lambda>i. i div ps) ` set row = set pg"
proof -
  have "row ! p div ps \<in> set pg" if "p < length row" for p
    using row_page [OF ps row that] by simp
  moreover have "pg ! k \<in> (\<lambda>i. i div ps) ` set row" if "k < length pg" for k
  proof (rule image_eqI)
    have "k * ps < length row" using that row lt_ceil_pages [OF ps, of k "length row"] by (simp add: paged_row_def)
    then show "row ! (k * ps) \<in> set row" "pg ! k = row ! (k * ps) div ps" using row_page(1) [OF ps row, of "k * ps"] ps by auto
  qed
  ultimately show ?thesis by (auto simp: in_set_conv_nth)
qed

lemma paged_row_distinct:
  assumes ps: "0 < ps" and row: "paged_row ps pg row" and d: "distinct pg"
  shows "distinct row"
proof (unfold distinct_conv_nth, intro allI impI notI)
  fix p q assume p: "p < length row" and q: "q < length row" and "p \<noteq> q" and eq: "row ! p = row ! q"
  have "p div ps = q div ps"
    using row_page [OF ps row p] row_page [OF ps row q] eq d by (simp add: nth_eq_iff_index_eq)
  moreover from this have "p mod ps = q mod ps" using row p q eq by (simp add: paged_row_def)
  ultimately show False using \<open>p \<noteq> q\<close> by (metis div_mult_mod_eq)
qed

lemma rows_distinct:
  assumes ps: "0 < ps" and rows: "\<forall>r \<in> set reqs. paged_row ps (fst r) (snd r)" and d: "distinct (concat (map fst reqs))"
  shows "distinct (concat (map snd reqs))"
  using rows d
proof (induction reqs)
  case (Cons r reqs)
  have row: "paged_row ps (fst r) (snd r)" using Cons.prems by simp
  have "set (snd r) \<inter> set (concat (map snd reqs)) = {}"
  proof -
    have "i div ps \<in> set (concat (map fst reqs))" if i: "i \<in> set (concat (map snd reqs))" for i
    proof -
      obtain r' where r': "r' \<in> set reqs" "i \<in> set (snd r')" using i by auto
      then have "i div ps \<in> set (fst r')" using Cons.prems(1) paged_row_set [OF ps, of "fst r'" "snd r'"] by auto
      then show ?thesis using r'(1) by auto
    qed
    moreover have "i div ps \<in> set (fst r)" if "i \<in> set (snd r)" for i using paged_row_set [OF ps row] that by auto
    moreover have "set (fst r) \<inter> set (concat (map fst reqs)) = {}" using Cons.prems(2) by simp
    ultimately show ?thesis by blast
  qed
  then show ?case using Cons paged_row_distinct [OF ps row] by simp
qed simp

text \<open>
  The invariant of allocator and requests: every row is laid out in its own pages, no page
  is in two rows or in a row and on the free list, and no page of the pool is lost.
\<close>

definition rows_ok :: "nat \<Rightarrow> nat \<Rightarrow> kv_alloc \<Rightarrow> nat list list \<Rightarrow> bool" where
  "rows_ok np ps s rows \<longleftrightarrow> alloc_ok np ps s \<and> (\<forall>row \<in> set rows. paged_row ps (row_pages ps row) row)
     \<and> distinct (concat (map (row_pages ps) rows)) \<and> set (concat (map (row_pages ps) rows)) \<inter> listed s = {}
     \<and> set (concat (map (row_pages ps) rows)) \<union> listed s = {1..<np + 1}"

lemma rows_ok_mset:
  assumes "mset rows = mset rows'"
  shows "rows_ok np ps s rows \<longleftrightarrow> rows_ok np ps s rows'"
proof -
  have m: "mset (concat (map (row_pages ps) rows)) = mset (concat (map (row_pages ps) rows'))"
    unfolding mset_concat sum_mset_sum_list [symmetric] mset_map map_map using assms by simp
  then have "distinct (concat (map (row_pages ps) rows)) \<longleftrightarrow> distinct (concat (map (row_pages ps) rows'))"
    by (rule mset_eq_imp_distinct_iff)
  moreover have "set (concat (map (row_pages ps) rows)) = set (concat (map (row_pages ps) rows'))" "set rows = set rows'"
    using arg_cong [OF m, of set_mset] arg_cong [OF assms, of set_mset] by simp_all
  ultimately show ?thesis unfolding rows_ok_def by simp
qed

lemma rows_ok_slots:
  assumes "0 < ps" and "rows_ok np ps s rows"
  shows "distinct (concat rows)" "\<forall>i \<in> set (concat rows). ps \<le> i \<and> i < (np + 1) * ps \<and> i div ps \<notin> listed s"
proof -
  let ?reqs = "map (\<lambda>row. (row_pages ps row, row)) rows"
  show "distinct (concat rows)"
    using rows_distinct [OF assms(1), of ?reqs] assms(2) by (simp add: rows_ok_def comp_def)
  show "\<forall>i \<in> set (concat rows). ps \<le> i \<and> i < (np + 1) * ps \<and> i div ps \<notin> listed s"
  proof
    fix i assume "i \<in> set (concat rows)"
    then obtain row where row: "row \<in> set rows" "i \<in> set row" by auto
    then have "i div ps \<in> set (row_pages ps row)"
      using paged_row_set [OF assms(1), of "row_pages ps row" row] assms(2) by (auto simp: rows_ok_def)
    then have p: "i div ps \<in> set (concat (map (row_pages ps) rows))" using row(1) by auto
    then have "1 \<le> i div ps" "i div ps < np + 1" "i div ps \<notin> listed s" using assms(2) by (auto simp: rows_ok_def)
    then show "ps \<le> i \<and> i < (np + 1) * ps \<and> i div ps \<notin> listed s"
      using assms(1) by (simp add: Suc_le_eq div_greater_zero_iff div_less_iff_less_mult)
  qed
qed

section \<open>Extending a batch\<close>

lemma ceil_pages_add: "0 < ps \<Longrightarrow> ceil_pages ps (m + n) \<le> ceil_pages ps m + n div ps + 1"
proof -
  assume ps: "0 < ps"
  have "n < (n div ps + 1) * ps"
    using mod_less_divisor [OF ps, of n] div_mult_mod_eq [of n ps] unfolding add_mult_distrib by linarith
  then have "m + n \<le> (ceil_pages ps m + n div ps + 1) * ps"
    using ceil_pages_ge [OF ps, of m] by (simp add: add_mult_distrib)
  then show ?thesis using lt_ceil_pages [OF ps, of "ceil_pages ps m + n div ps + 1" "m + n"] by simp
qed

lemma sum_div_le: "sum_list (map (\<lambda>e. e div ps) es) \<le> sum_list es div (ps :: nat)"
proof (induction es)
  case (Cons e es)
  have "e div ps + sum_list es div ps \<le> (e + sum_list es) div ps" by (subst div_add1_eq) simp
  then show ?case using Cons by simp
qed simp

text \<open>The bound the code uses to decide whether to merge the released pages first is enough.\<close>

lemma page_needs_bound:
  assumes ps: "0 < ps" and ok: "batch_ok ps reqs seq_lens"
  shows "sum_list (page_needs ps reqs seq_lens) \<le> sum_list (ext_lens reqs seq_lens) div ps + length reqs"
proof -
  have "page_needs ps reqs seq_lens ! i \<le> map (\<lambda>e. e div ps + 1) (ext_lens reqs seq_lens) ! i" if i: "i < length reqs" for i
  proof -
    have le: "length (snd (reqs ! i)) \<le> seq_lens ! i" using ok i by (simp add: batch_ok_def)
    show ?thesis using ceil_pages_add [OF ps, of "length (snd (reqs ! i))" "seq_lens ! i - length (snd (reqs ! i))"] le batch_nth [OF ok i] i
      by simp
  qed
  moreover have "length (page_needs ps reqs seq_lens) = length reqs" "length (ext_lens reqs seq_lens) = length reqs"
    using ok by (simp_all add: page_needs_def ext_lens_def pre_lens_of_def batch_ok_def)
  ultimately have "sum_list (page_needs ps reqs seq_lens) \<le> sum_list (map (\<lambda>e. e div ps + 1) (ext_lens reqs seq_lens))"
    by (intro sum_list_mono2) simp_all
  also have "sum_list (map (\<lambda>e. e div ps + 1) es) = sum_list (map (\<lambda>e. e div ps) es) + length es" for es
    by (induction es) simp_all
  finally show ?thesis using sum_div_le [of ps "ext_lens reqs seq_lens"] \<open>length (ext_lens reqs seq_lens) = length reqs\<close> by simp
qed

definition as_reqs :: "nat \<Rightarrow> nat list list \<Rightarrow> (nat list \<times> nat list) list" where
  "as_reqs ps rows = map (\<lambda>row. (row_pages ps row, row)) rows"

lemma as_reqs_simps [simp]:
  "length (as_reqs ps rows) = length rows" "pre_lens_of (as_reqs ps rows) = map length rows"
  "map (\<lambda>r. last_loc_of (snd r)) (as_reqs ps rows) = map last_loc_of rows"
  "i < length rows \<Longrightarrow> as_reqs ps rows ! i = (row_pages ps (rows ! i), rows ! i)"
  by (simp_all add: as_reqs_def pre_lens_of_def)

lemma last_loc_aligned:
  assumes ps: "0 < ps" and row: "paged_row ps pg row"
  shows "(last_loc_of row + 1) mod int ps = int (length row) mod int ps"
proof (cases "row = []")
  case False
  let ?k = "length row - 1"
  have k: "?k < length row" "length row = Suc ?k" using False by (cases row; simp)+
  have "last row mod ps = ?k mod ps" using row k False by (simp add: last_conv_nth paged_row_def)
  then have "(last row + 1) mod ps = length row mod ps" using mod_add_cong [of "last row" ps ?k 1 1] k(2) by simp
  then have "int ((last row + 1) mod ps) = int (length row mod ps)" by simp
  then show ?thesis using False by (simp add: last_loc_of_def zmod_int add.commute)
qed (simp add: last_loc_of_def)

text \<open>
  An extension of some of the rows. \<open>K\<close> pages are taken from the front of the free list;
  the invariant holds for the grown rows.
\<close>

definition grown_rows_of :: "nat \<Rightarrow> nat list list \<Rightarrow> nat list \<Rightarrow> nat list \<Rightarrow> nat list list" where
  "grown_rows_of ps batch seq_lens pages = map snd (grown ps (as_reqs ps batch) seq_lens pages)"

lemma grown_rows_ok:
  assumes ps: "0 < ps" and ok: "rows_ok np ps s (batch @ others)" and len: "length seq_lens = length batch"
    and le: "\<forall>i < length batch. length (batch ! i) \<le> seq_lens ! i"
    and K: "K = sum_list (page_needs ps (as_reqs ps batch) seq_lens)" "K \<le> length (free_pages s)"
  shows "batch_ok ps (as_reqs ps batch) seq_lens"
    and "rows_ok np ps (s\<lparr> free_pages := drop K (free_pages s) \<rparr>) (grown_rows_of ps batch seq_lens (free_pages s) @ others)"
proof -
  let ?R = "as_reqs ps batch" and ?f = "free_pages s"
  let ?G = "grown ps ?R seq_lens ?f"
  show bo: "batch_ok ps ?R seq_lens" using ok len le by (auto simp: batch_ok_def rows_ok_def)
  have lens: "length (page_needs ps ?R seq_lens) = length batch" using len by (simp add: page_needs_def)
  have gr: "paged_row ps (fst (?G ! i)) (snd (?G ! i))" if "i < length batch" for i
    using grown_rows(1) [OF ps bo] K that by simp
  have lG: "length ?G = length batch" by (simp add: grown_def)
  have pages: "map (row_pages ps) (grown_rows_of ps batch seq_lens ?f) = map fst ?G"
    using paged_row_pages [OF ps gr] lG by (intro nth_equalityI) (auto simp: grown_rows_of_def)
  have m: "mset (concat (map fst ?G)) = mset (concat (map (row_pages ps) batch)) + mset (take K ?f)"
  proof -
    have a: "concat (map (new_pages ps ?R seq_lens ?f) [0..<length batch]) = take K ?f"
      using new_pages_concat [of "page_needs ps ?R seq_lens" ?f] K lens by (simp add: new_pages_def [abs_def])
    have "mset (concat (map (\<lambda>i. a i @ b i) is)) = mset (concat (map a is)) + mset (concat (map b is))" for a b :: "nat \<Rightarrow> nat list" and "is"
      by (induction "is") simp_all
    then have "mset (concat (map fst ?G)) = mset (concat (map (\<lambda>i. fst (?R ! i)) [0..<length batch])) + mset (take K ?f)"
      using a by (simp add: grown_def comp_def)
    moreover have "map (\<lambda>i. fst (?R ! i)) [0..<length batch] = map (row_pages ps) batch"
      by (intro nth_equalityI) auto
    ultimately show ?thesis by simp
  qed
  let ?o = "concat (map (row_pages ps) others)" and ?b = "concat (map (row_pages ps) batch)"
  have aok: "alloc_ok np ps s" using ok by (simp add: rows_ok_def)
  note t = take_pages_ok [OF aok K(2)]
  have old: "distinct (?b @ ?o)" "set (?b @ ?o) \<inter> listed s = {}" "set (?b @ ?o) \<union> listed s = {1..<np + 1}"
    using ok by (simp_all add: rows_ok_def)
  have "set (take K ?f) \<inter> set (?b @ ?o) = {}" using t(4) old(2) by blast
  then have "distinct (?b @ take K ?f @ ?o)" using old(1) t(2) by auto
  moreover have mm: "mset (concat (map fst ?G) @ ?o) = mset (?b @ take K ?f @ ?o)" using m by simp
  ultimately have d: "distinct (concat (map fst ?G) @ ?o)" using mset_eq_imp_distinct_iff by blast
  have sets: "set (concat (map fst ?G) @ ?o) = set (?b @ ?o) \<union> set (take K ?f)"
    using arg_cong [OF mm, of set_mset] by auto
  have rows: "\<forall>row \<in> set (grown_rows_of ps batch seq_lens ?f). paged_row ps (row_pages ps row) row"
  proof
    fix row assume "row \<in> set (grown_rows_of ps batch seq_lens ?f)"
    then obtain i where i: "i < length batch" "row = snd (?G ! i)" using lG by (auto simp: grown_rows_of_def in_set_conv_nth)
    then show "paged_row ps (row_pages ps row) row" using gr [OF i(1)] paged_row_pages [OF ps gr [OF i(1)]] by simp
  qed
  have "set (concat (map fst ?G) @ ?o) \<inter> listed (s\<lparr> free_pages := drop K ?f \<rparr>) = {}"
    "set (concat (map fst ?G) @ ?o) \<union> listed (s\<lparr> free_pages := drop K ?f \<rparr>) = {1..<np + 1}"
    unfolding sets t(5) using old(2,3) t(4) by blast+
  then show "rows_ok np ps (s\<lparr> free_pages := drop K ?f \<rparr>) (grown_rows_of ps batch seq_lens ?f @ others)"
    using t(1) d rows ok unfolding rows_ok_def map_append pages concat_append by auto
qed

text \<open>The rows after the indices \<open>out\<close> of a batch are appended to them, one segment each.\<close>

definition appended :: "nat list list \<Rightarrow> nat list \<Rightarrow> nat list \<Rightarrow> nat list list \<Rightarrow> bool" where
  "appended batch seq_lens out batch' \<longleftrightarrow> (\<exists>exts. out = concat exts \<and> length exts = length batch
     \<and> batch' = map2 (@) batch exts \<and> map length batch' = seq_lens)"

lemma ready_rows_ok: "rows_ok np ps s rows \<Longrightarrow> rows_ok np ps (ready_pages s k) rows"
  using ready_pages_ok [of np ps s k] by (simp add: rows_ok_def)

lemma ready_enough:
  assumes "alloc_ok np ps s" and "K \<le> k"
  shows "K \<le> length (free_pages (ready_pages s k)) \<longleftrightarrow> K \<le> length (free_pages s @ release_pages s)"
  using assms merge_ok(4) [OF assms(1)] by (auto simp: ready_pages_def alloc_ok_def)

lemma batch_served:
  assumes ps: "0 < ps" and ok: "rows_ok np ps s (batch @ others)" and len: "length seq_lens = length batch"
    and le: "\<forall>i < length batch. length (batch ! i) \<le> seq_lens ! i"
    and K: "K = sum_list (page_needs ps (as_reqs ps batch) seq_lens)" "K \<le> length (free_pages s)"
  defines "out \<equiv> concat (batch_out ps (as_reqs ps batch) seq_lens (free_pages s))"
  shows "\<exists>batch'. appended batch seq_lens out batch' \<and> rows_ok np ps (s\<lparr> free_pages := drop K (free_pages s) \<rparr>) (batch' @ others)"
    and "distinct out"
proof -
  let ?R = "as_reqs ps batch" and ?f = "free_pages s"
  note g = grown_rows_ok [OF ps ok len le K]
  let ?b' = "grown_rows_of ps batch seq_lens ?f"
  have eq: "?b' = map2 (@) batch (batch_out ps ?R seq_lens ?f)"
    by (intro nth_equalityI) (auto simp: grown_rows_of_def grown_def batch_out_def)
  have "map length ?b' = seq_lens"
    using grown_rows(2) [OF ps g(1)] K len by (intro nth_equalityI) (auto simp: grown_rows_of_def grown_def)
  then have "appended batch seq_lens out ?b'"
    unfolding appended_def out_def using eq by (intro exI [of _ "batch_out ps ?R seq_lens ?f"]) (simp add: batch_out_def)
  with g(2) show "\<exists>batch'. appended batch seq_lens out batch' \<and> rows_ok np ps (s\<lparr> free_pages := drop K (free_pages s) \<rparr>) (batch' @ others)"
    by blast
  have "distinct (concat ?b')" using rows_ok_slots(1) [OF ps g(2)] by simp
  moreover have "mset (concat (map2 (@) xs ys)) = mset (concat xs) + mset (concat ys)" if "length xs = length ys" for xs ys :: "nat list list"
    using that by (induction xs ys rule: list_induct2) simp_all
  then have "mset (concat ?b') = mset (concat batch @ out)" unfolding eq out_def by (simp add: batch_out_def)
  ultimately show "distinct out" using mset_eq_imp_distinct_iff [of "concat ?b'" "concat batch @ out"] by simp
qed

lemma extend_rows:
  assumes "0 < ps" and "schedule_ok g" and "rows_ok np ps s (batch @ others)" and "length seq_lens = length batch"
    and "\<forall>i < length batch. length (batch ! i) \<le> seq_lens ! i"
  defines "K \<equiv> sum_list (page_needs ps (as_reqs ps batch) seq_lens)"
    and "r \<equiv> paged_alloc_extend g s (map length batch) seq_lens (map last_loc_of batch) (sum_list (ext_lens (as_reqs ps batch) seq_lens)) None"
  shows "K \<le> length (free_pages s @ release_pages s) \<Longrightarrow>
      \<exists>out s' batch'. r = Inr (Some out, s') \<and> appended batch seq_lens out batch' \<and> rows_ok np ps s' (batch' @ others)"
    and "K > length (free_pages s @ release_pages s) \<Longrightarrow>
      al_debug s \<and> r = Inl AssertionError \<or> (\<exists>s'. r = Inr (None, s') \<and> rows_ok np ps s' (batch @ others))"
proof -
  let ?R = "as_reqs ps batch"
  define k where "k = sum_list (ext_lens ?R seq_lens) div ps + length batch + 1"
  define s1 where "s1 = ready_pages s k"
  have aok: "alloc_ok np ps s" and psz: "al_page_size s = ps" using assms(3) by (auto simp: rows_ok_def alloc_ok_def)
  have bo: "batch_ok ps ?R seq_lens" using assms(3,4,5) by (auto simp: batch_ok_def rows_ok_def)
  have "K \<le> k" using page_needs_bound [OF assms(1) bo] by (simp add: K_def k_def)
  note enough = ready_enough [OF aok this, folded s1_def]
  have ok1: "rows_ok np ps s1 (batch @ others)" unfolding s1_def by (rule ready_rows_ok [OF assms(3)])
  define out where "out = store_all (torch_empty g (sum_list (ext_lens ?R seq_lens))) (schedule g
      (concat (map (alloc_extend_kernel g (map length batch) seq_lens (map last_loc_of batch) (free_pages s1) (next_power_of_2 (length batch)) ps) [0..<length batch])))"
  have al: "\<forall>(l, p) \<in> set (zip (map last_loc_of batch) (map length batch)). (l + 1) mod int ps = int p mod int ps"
  proof -
    have "(last_loc_of row + 1) mod int ps = int (length row) mod int ps" if "row \<in> set batch" for row
      using last_loc_aligned [OF assms(1), of "row_pages ps row" row] assms(3) that by (auto simp: rows_ok_def)
    then show ?thesis by (auto simp: zip_map_map set_zip)
  qed
  have r: "r = bindE (check (\<not> al_debug s \<or> length (unique out) = length out) AssertionError) (\<lambda>_.
      Inr (if K > length (free_pages s1) then (None, s1) else (Some out, s1\<lparr> free_pages := drop K (free_pages s1) \<rparr>)))"
  proof -
    have c: "check (\<not> al_debug s \<or> (\<forall>(l, p) \<in> set (zip (map last_loc_of batch) (map length batch)). (l + 1) mod int ps = int p mod int ps)) AssertionError = Inr ()"
      unfolding check_def using al by meson
    have gn: "get_num_new_pages seq_lens ps (Some (map length batch)) False = Inr K"
      by (simp add: get_num_new_pages_def K_def page_needs_def)
    show ?thesis
      unfolding r_def paged_alloc_extend_def psz Let_def c length_map k_def [symmetric] ready_pages_def [symmetric] s1_def [symmetric]
        out_def [symmetric] gn option.case bindE.simps ..
  qed
  show "\<exists>out s' batch'. r = Inr (Some out, s') \<and> appended batch seq_lens out batch' \<and> rows_ok np ps s' (batch' @ others)"
    if "K \<le> length (free_pages s @ release_pages s)"
  proof -
    have K1: "K \<le> length (free_pages s1)" using enough that by simp
    have "out = concat (batch_out ps ?R seq_lens (free_pages s1))"
      using extend_grid [OF assms(1) bo assms(2), of "free_pages s1"] K1 next_power_of_2_ge [of "length batch"]
      by (simp add: out_def K_def)
    with batch_served [OF assms(1) ok1 assms(4,5) K_def [THEN meta_eq_to_obj_eq] K1] K1 show ?thesis
      by (auto simp: r length_unique_iff)
  qed
  show "al_debug s \<and> r = Inl AssertionError \<or> (\<exists>s'. r = Inr (None, s') \<and> rows_ok np ps s' (batch @ others))"
    if "K > length (free_pages s @ release_pages s)"
    using that enough ok1 by (auto simp: r check_def)
qed

text \<open>
  Extending a batch. Whatever order the grid's programs run in and whatever the memory
  held before, \<open>alloc_extend\<close> on a batch of rows gives each of them the slots of the new
  positions: the rows stay laid out in pages of their own, disjoint from each other, from
  the other requests' and from the free pages, and no page is lost. It is refused exactly
  if the free and the released pages together are too few; then the rows are as before, but
  in debug mode the uniqueness assertion, which is evaluated first, may fail on the indices
  loaded from behind the free list.
\<close>

theorem alloc_extend_rows:
  assumes "0 < ps" and "schedule_ok g" and "rows_ok np ps s (batch @ others)" and "length seq_lens = length batch"
    and "\<forall>i < length batch. length (batch ! i) \<le> seq_lens ! i"
  shows "let K = sum_list (page_needs ps (as_reqs ps batch) seq_lens);
             r = paged_alloc_extend g s (map length batch) seq_lens (map last_loc_of batch)
                   (sum_list (ext_lens (as_reqs ps batch) seq_lens)) None
         in if K \<le> length (free_pages s @ release_pages s)
            then \<exists>out s' batch'. r = Inr (Some out, s') \<and> appended batch seq_lens out batch' \<and> rows_ok np ps s' (batch' @ others)
            else al_debug s \<and> r = Inl AssertionError \<or> (\<exists>s'. r = Inr (None, s') \<and> rows_ok np ps s' (batch @ others))"
  using extend_rows [OF assms] unfolding Let_def by (metis not_le)

definition witness_gpu :: gpu where
  "witness_gpu = \<lparr> uninit = \<lambda>_. 0, masked_lane = 7, beyond = \<lambda>_. 0, schedule = rev \<rparr>"

lemma witness_gpu_ok: "schedule_ok witness_gpu"
  by (simp add: schedule_ok_def witness_gpu_def)

lemma witness_row: "paged_row 4 [1] [4, 5, 6]"
proof -
  have "[4, 5, 6] ! p = [1] ! (p div 4) * 4 + p mod 4" if "p < 3" for p :: nat
  proof -
    have "p = 0 \<or> p = 1 \<or> p = 2" using that by linarith
    then show ?thesis by auto
  qed
  then show ?thesis by (simp add: paged_row_def ceil_pages_def)
qed

theorem alloc_extend_rows_witness:
  "\<exists>out s' batch'. paged_alloc_extend witness_gpu ((paged_init 17 4 True True)\<lparr> free_pages := [2, 3, 4] \<rparr>) [3] [9] [6] 6 None = Inr (Some out, s')
     \<and> appended [[4, 5, 6]] [9] out batch' \<and> rows_ok 4 4 s' batch'"
proof -
  let ?s = "(paged_init 17 4 True True)\<lparr> free_pages := [2, 3, 4] \<rparr>"
  have st: "free_pages ?s @ release_pages ?s = [2, 3, 4]" "al_page_size ?s = 4" "al_need_sort ?s" "free_group ?s = None" "free_page_reps_group ?s = []"
    by (simp_all add: paged_init_def paged_clear_def)
  have p: "row_pages 4 [4, 5, 6] = [1]" by (simp add: row_pages_def ceil_pages_def)
  have "rows_ok 4 4 ?s [[4, 5, 6]]" using witness_row p st by (auto simp: rows_ok_def alloc_ok_def listed_def)
  moreover have "sum_list (page_needs 4 (as_reqs 4 [[4, 5, 6]]) [9]) = 2" "sum_list (ext_lens (as_reqs 4 [[4, 5, 6]]) [9]) = 6"
    by (simp_all add: page_needs_def ext_lens_def ceil_pages_def)
  ultimately show ?thesis
    using alloc_extend_rows [of 4 witness_gpu 4 ?s "[[4, 5, 6]]" "[]" "[9]"] witness_gpu_ok st(1)
    by (simp add: last_loc_of_def numeral_3_eq_3)
qed

section \<open>The reference version of the kernel\<close>

lemma nth_page_slots: "j < length pages * ps \<Longrightarrow> page_slots ps pages ! j = pages ! (j div ps) * ps + j mod ps"
proof (induction pages arbitrary: j)
  case (Cons p pages)
  show ?case
  proof (cases "j < ps")
    case False
    then have "page_slots ps (p # pages) ! j = page_slots ps pages ! (j - ps)"
      unfolding page_slots_Cons by (simp add: nth_append)
    also have "\<dots> = pages ! ((j - ps) div ps) * ps + (j - ps) mod ps" using Cons False by (intro Cons.IH) auto
    finally show ?thesis using False Cons.prems by (cases "ps = 0") (simp_all add: le_div_geq le_mod_geq)
  qed (simp add: page_slots_Cons nth_append)
qed simp

lemma map_upt_add: "map f [0..<a + b] = map f [0..<a] @ map (\<lambda>j. f (a + j)) [0..<b]"
  by (rule nth_equalityI) (auto simp: nth_append)

lemma slice_slots:
  assumes "0 < ps" and "st + q \<le> length pages"
  shows "page_slots ps (py_slice st (st + q) pages) = map (\<lambda>j. pages ! (st + j div ps) * ps + j mod ps) [0..<q * ps]"
proof (rule nth_equalityI)
  show "length (page_slots ps (py_slice st (st + q) pages)) = length (map (\<lambda>j. pages ! (st + j div ps) * ps + j mod ps) [0..<q * ps])"
    using assms(2) by (simp add: length_page_slots)
  fix j assume "j < length (page_slots ps (py_slice st (st + q) pages))"
  then have j: "j < q * ps" using assms(2) by (simp add: length_page_slots)
  then have "j div ps < q" by (rule less_mult_imp_div_less)
  then show "page_slots ps (py_slice st (st + q) pages) ! j = map (\<lambda>j. pages ! (st + j div ps) * ps + j mod ps) [0..<q * ps] ! j"
    using j assms(2) by (simp add: nth_page_slots nth_py_slice)
qed

lemma put_slice:
  assumes "b = a + length ys" and "b \<le> length xs" and "length pre = a"
  shows "slice_assign a b ys (pre @ drop a xs) = Inr (pre @ ys @ drop b xs)"
  using assms by (subst slice_assign_in_range) (simp_all add: add.commute)

lemma naive_step:
  assumes ps: "0 < ps" and ok: "batch_ok ps reqs seq_lens" and i: "i < length reqs"
    and enough: "sum_list (page_needs ps reqs seq_lens) \<le> length pages" and out: "length out = sum_list (ext_lens reqs seq_lens)"
    and pre: "length done' = sum_list (take i (ext_lens reqs seq_lens))"
  shows "extend_naive_step (pre_lens_of reqs) seq_lens (map (\<lambda>r. last_loc_of (snd r)) reqs) pages ps
      (done' @ drop (sum_list (take i (ext_lens reqs seq_lens))) out) i
    = Inr ((done' @ req_ext ps reqs seq_lens pages i) @ drop (sum_list (take (Suc i) (ext_lens reqs seq_lens))) out)"
proof -
  note bn = batch_nth [OF ok i]
  obtain pg row where r: "reqs ! i = (pg, row)" by fastforce
  define n where "n = seq_lens ! i"
  define off st where "off = sum_list (take i (ext_lens reqs seq_lens))" and "st = sum_list (take i (page_needs ps reqs seq_lens))"
  define news where "news = new_pages ps reqs seq_lens pages i"
  define need where "need = ceil_pages ps n - ceil_pages ps (length row)"
  have row: "paged_row ps pg row" and le: "length row \<le> n" using ok i r by (auto simp: batch_ok_def n_def)
  have ends: "sum_list (take (Suc i) (ext_lens reqs seq_lens)) = off + (n - length row)"
    "sum_list (take (Suc i) (page_needs ps reqs seq_lens)) = st + need"
    using sum_take_Suc [of i "ext_lens reqs seq_lens"] sum_take_Suc [of i "page_needs ps reqs seq_lens"] i bn r
    by (simp_all add: off_def st_def n_def need_def)
  have room: "off + (n - length row) \<le> length out" "st + need \<le> length pages"
    using ends sum_take_le [of "Suc i" "ext_lens reqs seq_lens"] sum_take_le [of "Suc i" "page_needs ps reqs seq_lens"] out enough by simp_all
  have ld: "\<forall>k < ceil_pages ps n - ceil_pages ps (length row). pages ! (st + k) = news ! k"
    using room bn(3) r by (simp add: news_def new_pages_def st_def need_def n_def)
  define n1 n2 n3 where "n1 = min n (ceil_pages ps (length row) * ps) - length row"
    and "n2 = n div ps * ps - ceil_pages ps (length row) * ps" and "n3 = n - n div ps * ps"
  define f where "f = (\<lambda>j. slot_at ps (pg @ news) (length row + j))"
  note pt = extend_parts [OF ps le, folded n1_def n2_def n3_def]
  note pr = part_runs [OF ps row le ld, folded n1_def n2_def n3_def need_def]
  define v1 v3 where "v1 = map (\<lambda>j. nat (last_loc_of row + 1 + int j)) (take n1 [0..<ps])"
    and "v3 = map (\<lambda>j. pages ! (st + need - 1) * ps + j) (take n3 [0..<ps])"
  define v2 where "v2 = page_slots ps (py_slice st (nat (int (st + need) - (int need - (int (n div ps) - int (ceil_pages ps (length row)))))) pages)"
  have step: "extend_naive_step (pre_lens_of reqs) seq_lens (map (\<lambda>r. last_loc_of (snd r)) reqs) pages ps x i
    = bindE (if n1 \<noteq> 0 then slice_assign off (off + n1) v1 x else Inr x) (\<lambda>x.
      if length row + n1 = n then Inr x
      else bindE (if n2 \<noteq> 0 then slice_assign (off + n1) (off + n1 + n2) v2 x else Inr x) (\<lambda>x.
        if length row + n1 + n2 = n then Inr x
        else if n3 \<noteq> 0 then bindE (check (st + need - 1 < length pages) IndexError) (\<lambda>_.
          slice_assign (off + (n - length row) - n3) (off + (n - length row)) v3 x) else Inr x))" for x
  proof -
    have nn: "nat ((int a - int b) * int ps) = a * ps - b * ps" for a b
      by (simp add: left_diff_distrib flip: of_nat_mult)
    have e: "ext_lens reqs seq_lens ! i = n - length row" "page_needs ps reqs seq_lens ! i = need" "pre_lens_of reqs ! i = length row"
      using bn r by (simp_all add: n_def need_def)
    have ll: "map (\<lambda>r. last_loc_of (snd r)) reqs ! i = last_loc_of row" using i r by simp
    show ?thesis
      unfolding extend_naive_step_def Let_def ext_lens_def [symmetric] page_needs_def [symmetric] e ends nn n_def [symmetric]
        n1_def [symmetric] n2_def [symmetric] n3_def [symmetric] ll add_diff_cancel_right' v2_def v1_def v3_def ..
  qed
  have v1: "v1 = map f [0..<n1]"
    using pt(1) pr(1) by (auto simp: v1_def f_def take_upt)
  have l1: "slice_assign off (off + n1) v1 (done' @ drop off out) = Inr (done' @ v1 @ drop (off + n1) out)"
    using put_slice [of "off + n1" off v1 out done'] pre room pt(3) v1 by (simp add: off_def)
  show ?thesis
  proof (cases "length row + n1 = n")
    case True
    have "req_ext ps reqs seq_lens pages i = v1"
      using r v1 True by (auto simp: req_ext_def ext_slots_def f_def news_def n_def intro!: nth_equalityI)
    then show ?thesis using l1 True v1 by (cases "n1 = 0") (auto simp: step ends off_def [symmetric])
  next
    case False
    note p5 = pt(5) [OF False]
    have "nat (int (st + need) - (int need - (int (n div ps) - int (ceil_pages ps (length row))))) = st + n2 div ps"
      using p5 by (simp add: of_nat_diff)
    moreover have "n2 div ps \<le> need" using pt(6,7) [OF False] by (cases "n3 = 0") (simp_all add: need_def)
    moreover have "n2 div ps * ps = n2" by (rule dvd_div_mult_self) (use p5 in blast)
    ultimately have "v2 = map (\<lambda>j. pages ! (st + j div ps) * ps + j mod ps) [0..<n2]"
      using slice_slots [OF ps, of st "n2 div ps" pages] room(2) by (simp add: v2_def)
    also have "\<dots> = map (\<lambda>j. f (n1 + j)) [0..<n2]"
      by (rule map_cong) (use pr(2) [OF False] in \<open>simp_all add: f_def\<close>)
    finally have v2: "v2 = map (\<lambda>j. f (n1 + j)) [0..<n2]" .
    have v3: "v3 = map (\<lambda>j. f (n1 + n2 + j)) [0..<n3]" if "n3 \<noteq> 0"
      using pr(3) [OF False] pt(2) pt(6) [OF False that] by (auto simp: v3_def f_def take_upt need_def)
    have tot: "n - length row = n1 + n2 + n3" using p5 by linarith
    have l2: "slice_assign (off + n1) (off + n1 + n2) v2 (done' @ v1 @ drop (off + n1) out) = Inr (done' @ v1 @ v2 @ drop (off + n1 + n2) out)"
      using put_slice [of "off + n1 + n2" "off + n1" v2 out "done' @ v1"] pre room tot v1 v2 by (simp add: off_def)
    have l3: "slice_assign (off + (n - length row) - n3) (off + (n - length row)) v3 (done' @ v1 @ v2 @ drop (off + n1 + n2) out)
        = Inr (done' @ v1 @ v2 @ v3 @ drop (off + n1 + n2 + n3) out)" if "n3 \<noteq> 0"
      using put_slice [of "off + n1 + n2 + n3" "off + n1 + n2" v3 out "done' @ v1 @ v2"] pre room tot v1 v2 v3 [OF that]
      by (simp add: off_def add.assoc)
    have "req_ext ps reqs seq_lens pages i = map f [0..<n1 + n2 + n3]"
      using r tot by (auto simp: req_ext_def ext_slots_def f_def news_def n_def intro!: nth_equalityI)
    also have "\<dots> = v1 @ v2 @ (if n3 = 0 then [] else v3)"
      using v1 v2 v3 by (simp add: map_upt_add)
    finally have rq: "req_ext ps reqs seq_lens pages i = v1 @ v2 @ (if n3 = 0 then [] else v3)" .
    have "st + need - 1 < length pages" if "n3 \<noteq> 0" using room(2) pt(6) [OF False that] by (simp add: need_def)
    then show ?thesis using l1 l2 l3 False v1 v2 tot rq
      by (cases "n1 = 0"; cases "n2 = 0"; cases "n3 = 0") (auto simp: step ends off_def [symmetric] add.assoc)
  qed
qed

lemma naive_fold:
  assumes ps: "0 < ps" and ok: "batch_ok ps reqs seq_lens" and m: "m \<le> length reqs"
    and enough: "sum_list (page_needs ps reqs seq_lens) \<le> length pages" and out: "length out = sum_list (ext_lens reqs seq_lens)"
  shows "foldE (extend_naive_step (pre_lens_of reqs) seq_lens (map (\<lambda>r. last_loc_of (snd r)) reqs) pages ps) out [0..<m]
    = Inr (concat (map (req_ext ps reqs seq_lens pages) [0..<m]) @ drop (sum_list (take m (ext_lens reqs seq_lens))) out)"
  using m
proof (induction m)
  case (Suc m)
  then have m: "m < length reqs" "m < length (ext_lens reqs seq_lens)" using batch_nth(5) [OF ok, of m] by simp_all
  have "length (concat (map (req_ext ps reqs seq_lens pages) [0..<k])) = sum_list (take k (ext_lens reqs seq_lens))" if "k \<le> length reqs" for k
    using that
  proof (induction k)
    case (Suc k)
    then have k: "k < length reqs" by simp
    have "sum_list (take (Suc k) (ext_lens reqs seq_lens)) = sum_list (take k (ext_lens reqs seq_lens)) + (seq_lens ! k - length (snd (reqs ! k)))"
      using sum_take_Suc [of k "ext_lens reqs seq_lens"] batch_nth(2,5) [OF ok k] k by simp
    then show ?case using Suc by (simp add: length_req_ext)
  qed simp
  note step = naive_step [OF ps ok m(1) enough out this]
  show ?case using Suc m step by (simp add: foldE_append)
qed simp

text \<open>
  (C19) The kernel computes what its reference version \<open>alloc_extend_naive\<close> computes: on a
  batch of paged rows with enough free pages, the reference version raises nothing, and
  the memory the grid leaves, in whatever order its programs store, is the reference's result.
\<close>

theorem alloc_extend_kernel_naive:
  assumes "0 < ps" and "schedule_ok g" and "batch_ok ps reqs seq_lens"
    and "sum_list (page_needs ps reqs seq_lens) \<le> length pages" and "length out = sum_list (ext_lens reqs seq_lens)"
  shows "alloc_extend_naive (pre_lens_of reqs) seq_lens (map (\<lambda>r. last_loc_of (snd r)) reqs) pages out ps
    = Inr (store_all (torch_empty g (length out)) (schedule g (concat (map (alloc_extend_kernel g (pre_lens_of reqs) seq_lens
        (map (\<lambda>r. last_loc_of (snd r)) reqs) pages (next_power_of_2 (length reqs)) ps) [0..<length reqs]))))"
proof -
  have len: "length (pre_lens_of reqs) = length reqs" "length (ext_lens reqs seq_lens) = length reqs"
    using assms(3) by (simp_all add: pre_lens_of_def ext_lens_def batch_ok_def)
  have "alloc_extend_naive (pre_lens_of reqs) seq_lens (map (\<lambda>r. last_loc_of (snd r)) reqs) pages out ps
      = Inr (concat (batch_out ps reqs seq_lens pages))"
    using naive_fold [OF assms(1,3) le_refl assms(4,5)] assms(5) len by (simp add: alloc_extend_naive_def batch_out_def)
  then show ?thesis
    using extend_grid [OF assms(1,3,2,4) next_power_of_2_ge] assms(5) by simp
qed

theorem alloc_extend_kernel_naive_witness:
  "alloc_extend_naive [3, 0] [9, 2] [6, - 1] [2, 3, 5] (replicate 8 0) 4
   = Inr (store_all (torch_empty witness_gpu 8) (schedule witness_gpu
       (concat (map (alloc_extend_kernel witness_gpu [3, 0] [9, 2] [6, - 1] [2, 3, 5] (next_power_of_2 2) 4) [0..<2]))))"
proof -
  let ?reqs = "[([1], [4, 5, 6]), ([], [])]"
  have "batch_ok 4 ?reqs [9, 2]"
    using witness_row by (auto simp: batch_ok_def less_Suc_eq) (simp add: paged_row_def ceil_pages_def)
  moreover have "sum_list (page_needs 4 ?reqs [9, 2]) = 3" "sum_list (ext_lens ?reqs [9, 2]) = 8"
    by (simp_all add: page_needs_def ext_lens_def pre_lens_of_def ceil_pages_def)
  ultimately show ?thesis
    using alloc_extend_kernel_naive [of 4 witness_gpu ?reqs "[9, 2]" "[2, 3, 5]" "replicate 8 0"] witness_gpu_ok
    by (simp add: pre_lens_of_def last_loc_of_def numeral_2_eq_2 numeral_3_eq_3)
qed

section \<open>Decoding one token per request\<close>

lemma decode_need:
  assumes "1 < ps"
  shows "ceil_pages ps (Suc p) - ceil_pages ps p = (if Suc p mod ps = 1 then 1 else 0)"
proof -
  have ps: "0 < ps" using assms by simp
  show ?thesis
  proof (cases "Suc (p mod ps) = ps")
    case True
    then have "Suc p mod ps = 0" "Suc p div ps = Suc (p div ps)" "p mod ps \<noteq> 0" using assms by (auto simp: mod_Suc div_Suc)
    then show ?thesis by (simp add: ceil_pages_div [OF ps])
  next
    case False
    then have "Suc p mod ps = Suc (p mod ps)" "Suc p div ps = p div ps" by (auto simp: mod_Suc div_Suc)
    then show ?thesis by (simp add: ceil_pages_div [OF ps])
  qed
qed

lemma masked_decode_start:
  assumes "pid < length xs" and "length xs \<le> bu"
  shows "sum_list (map2 (\<lambda>s p. ceil_pages ps s - ceil_pages ps p) (masked_load g xs bu pid)
      (map2 (\<lambda>i s. if i \<le> pid then s - 1 else s) [0..<bu] (masked_load g xs bu pid)))
    = sum_list (take (Suc pid) (map2 (\<lambda>s p. ceil_pages ps s - ceil_pages ps p) xs (map (\<lambda>s. s - 1) xs)))"
proof -
  have "map2 (\<lambda>i s. if i \<le> pid then s - 1 else s) [0..<bu] (masked_load g xs bu pid) = masked_load g (map (\<lambda>s. s - 1) xs) bu pid"
    using assms by (intro nth_equalityI) (auto simp: masked_load_def)
  then show ?thesis using masked_sum [of "\<lambda>s p. ceil_pages ps s - ceil_pages ps p" pid xs "map (\<lambda>s. s - 1) xs" bu g] assms by simp
qed

lemma decode_kernel_run:
  assumes ps: "1 < ps" and ok: "batch_ok ps reqs seq_lens" and i: "i < length reqs" and bu: "length reqs \<le> bu"
    and one: "seq_lens = map Suc (pre_lens_of reqs)"
    and enough: "sum_list (page_needs ps reqs seq_lens) \<le> length pages"
  shows "set (alloc_decode_kernel g seq_lens (map (\<lambda>r. last_loc_of (snd r)) reqs) pages bu ps i)
    = run_of i ((!) (req_ext ps reqs seq_lens pages i)) 1"
proof -
  have ps0: "0 < ps" using ps by simp
  note bn = batch_nth [OF ok i]
  obtain pg row where r: "reqs ! i = (pg, row)" by fastforce
  have row: "paged_row ps pg row" and n: "seq_lens ! i = Suc (length row)" and len: "length seq_lens = length reqs"
    using ok i r one bn(1,4) by (auto simp: batch_ok_def)
  define news where "news = new_pages ps reqs seq_lens pages i"
  let ?st = "sum_list (take i (page_needs ps reqs seq_lens))" and ?need = "ceil_pages ps (Suc (length row)) - ceil_pages ps (length row)"
  have "map (\<lambda>s. s - 1) seq_lens = pre_lens_of reqs" by (simp add: one comp_def)
  then have start: "sum_list (map2 (\<lambda>s p. ceil_pages ps s - ceil_pages ps p) (masked_load g seq_lens bu i)
      (map2 (\<lambda>i s. if i \<le> i' then s - 1 else s) [0..<bu] (masked_load g seq_lens bu i))) - ?need = ?st" if "i' = i" for i'
    using masked_decode_start [of i seq_lens bu ps g] sum_take_Suc [of i "page_needs ps reqs seq_lens"] i len bu bn(3,6) r n that
    by (simp add: page_needs_def)
  have ext: "req_ext ps reqs seq_lens pages i = [slot_at ps (pg @ news) (length row)]"
    using r n by (simp add: req_ext_def ext_slots_def news_def)
  show ?thesis
  proof (cases "?need = 0")
    case True
    then have "length row < ceil_pages ps (length row) * ps" using ceil_pages_ge [OF ps0, of "Suc (length row)"] ceil_pages_mono [of "length row" "Suc (length row)" ps] by simp
    then have "nat (last_loc_of row + 1) = slot_at ps (pg @ news) (length row)"
      using slot_old_page [OF ps0 row, of 0 news] by simp
    then show ?thesis using True ext i r n by (simp add: alloc_decode_kernel_def Let_def run_of_def lessThan_Suc)
  next
    case False
    then have need: "?need = 1" "Suc (length row) mod ps = 1" using decode_need [OF ps, of "length row"] by (auto split: if_splits)
    then have "ps dvd length row" using ps by (metis One_nat_def Suc_eq_plus1 mod_Suc mod_less dvd_eq_mod_eq_0 Suc_inject nat.distinct(1))
    then have "length row = ceil_pages ps (length row) * ps + 0" using ps by (simp add: ceil_pages_div [OF ps0])
    then have "slot_at ps (pg @ news) (length row) = news ! 0 * ps" using slot_new_page [OF ps0 row, of "length row" 0 news] by simp
    moreover have "load g pages ?st = news ! 0"
      using new_pages_nth [OF enough, of i 0 g] i bn(3,6) r n need by (simp add: news_def)
    ultimately show ?thesis
      using False ext i r n start [OF refl] by (simp add: alloc_decode_kernel_def Let_def run_of_def lessThan_Suc)
  qed
qed

lemma decode_grid:
  assumes ps: "1 < ps" and ok: "batch_ok ps reqs seq_lens" and g: "schedule_ok g" and one: "seq_lens = map Suc (pre_lens_of reqs)"
    and enough: "sum_list (page_needs ps reqs seq_lens) \<le> length pages" and bu: "length reqs \<le> bu"
  shows "store_all (torch_empty g (length reqs)) (schedule g
      (concat (map (alloc_decode_kernel g seq_lens (map (\<lambda>r. last_loc_of (snd r)) reqs) pages bu ps) [0..<length reqs])))
    = concat (batch_out ps reqs seq_lens pages)" (is "store_all ?e (schedule g (concat (map ?K _))) = _")
proof -
  let ?X = "batch_out ps reqs seq_lens pages"
  have lX: "length ?X = length reqs" by (simp add: batch_out_def)
  have e1: "ext_lens reqs seq_lens = replicate (length reqs) 1"
    by (rule nth_equalityI) (auto simp: ext_lens_def one pre_lens_of_def)
  have "store_all ?e (schedule g (concat (map ?K [0..<length ?X]))) = concat ?X"
  proof (rule grid_fills [OF g])
    show "length ?e = length (concat ?X)" by (simp add: torch_empty_def length_batch_out [OF ok] e1 sum_list_replicate)
    fix i assume i: "i < length ?X"
    have "length (?X ! i) = 1" using i batch_out_lengths [OF ok] e1 lX by (metis nth_map nth_replicate)
    moreover have "sum_list (map length (take i ?X)) = i"
      using i lX by (simp add: take_map [symmetric] batch_out_lengths [OF ok] e1 take_replicate sum_list_replicate)
    ultimately show "set (?K i) = run_of (sum_list (map length (take i ?X))) ((!) (?X ! i)) (length (?X ! i))"
      using decode_kernel_run [OF ps ok _ bu one enough, of i g] i lX by (simp add: batch_out_def)
  qed
  then show ?thesis by (simp add: lX)
qed

lemma decode_rows:
  assumes ps: "1 < ps" and "schedule_ok g" and "rows_ok np ps s (batch @ others)"
  defines "seq_lens \<equiv> map (\<lambda>row. Suc (length row)) batch"
  defines "K \<equiv> sum_list (page_needs ps (as_reqs ps batch) seq_lens)"
    and "r \<equiv> paged_alloc_decode g s seq_lens (map last_loc_of batch)"
  shows "K \<le> length (free_pages s @ release_pages s) \<Longrightarrow>
      \<exists>out s' batch'. r = Inr (Some out, s') \<and> appended batch seq_lens out batch' \<and> rows_ok np ps s' (batch' @ others)"
    and "K > length (free_pages s @ release_pages s) \<Longrightarrow>
      al_debug s \<and> r = Inl AssertionError \<or> (\<exists>s'. r = Inr (None, s') \<and> rows_ok np ps s' (batch @ others))"
    and "K \<le> length batch"
proof -
  let ?R = "as_reqs ps batch"
  have ps0: "0 < ps" using ps by simp
  define s1 where "s1 = ready_pages s (length batch)"
  have aok: "alloc_ok np ps s" and psz: "al_page_size s = ps" using assms(3) by (auto simp: rows_ok_def alloc_ok_def)
  have len: "length seq_lens = length batch" and le: "\<forall>i < length batch. length (batch ! i) \<le> seq_lens ! i" by (simp_all add: seq_lens_def)
  have one: "seq_lens = map Suc (pre_lens_of ?R)" by (simp add: seq_lens_def)
  have bo: "batch_ok ps ?R seq_lens" using assms(3) len le by (auto simp: batch_ok_def rows_ok_def)
  have needs: "page_needs ps ?R seq_lens = map (\<lambda>n. if n mod ps = 1 then 1 else 0) seq_lens"
    by (rule nth_equalityI) (auto simp: page_needs_def seq_lens_def decode_need [OF ps])
  have "sum_list (map (\<lambda>n. if n mod ps = 1 then 1 else 0) xs) \<le> length xs" for xs
    by (induction xs) auto
  then show Kk: "K \<le> length batch" using len by (metis K_def needs)
  note enough = ready_enough [OF aok Kk, folded s1_def]
  have ok1: "rows_ok np ps s1 (batch @ others)" unfolding s1_def by (rule ready_rows_ok [OF assms(3)])
  define out where "out = store_all (torch_empty g (length batch)) (schedule g
      (concat (map (alloc_decode_kernel g seq_lens (map last_loc_of batch) (free_pages s1) (next_power_of_2 (length batch)) ps) [0..<length batch])))"
  have al: "\<forall>(l, n) \<in> set (zip (map last_loc_of batch) seq_lens). (l + 2) mod int ps = int n mod int ps"
  proof -
    have "(last_loc_of row + 2) mod int ps = int (Suc (length row)) mod int ps" if "row \<in> set batch" for row
    proof -
      have "(last_loc_of row + 1) mod int ps = int (length row) mod int ps"
        using last_loc_aligned [OF ps0, of "row_pages ps row" row] assms(3) that by (auto simp: rows_ok_def)
      from mod_add_cong [OF this, of 1 1] show ?thesis by (simp add: add.assoc add.commute)
    qed
    then show ?thesis unfolding seq_lens_def by (auto simp: zip_map_map set_zip)
  qed
  have r: "r = bindE (check (\<not> al_debug s \<or> length (unique out) = length out) AssertionError) (\<lambda>_.
      Inr (if K > length (free_pages s1) then (None, s1) else (Some out, s1\<lparr> free_pages := drop K (free_pages s1) \<rparr>)))"
  proof -
    have c: "check (\<not> al_debug s \<or> (\<forall>(l, n) \<in> set (zip (map last_loc_of batch) seq_lens). (l + 2) mod int ps = int n mod int ps)) AssertionError = Inr ()"
      unfolding check_def using al by meson
    have gn: "get_num_new_pages seq_lens ps None True = Inr K" by (simp add: get_num_new_pages_def K_def needs)
    show ?thesis
      unfolding r_def paged_alloc_decode_def psz Let_def c len ready_pages_def [symmetric] s1_def [symmetric]
        out_def [symmetric] gn option.case bindE.simps ..
  qed
  show "\<exists>out s' batch'. r = Inr (Some out, s') \<and> appended batch seq_lens out batch' \<and> rows_ok np ps s' (batch' @ others)"
    if "K \<le> length (free_pages s @ release_pages s)"
  proof -
    have K1: "K \<le> length (free_pages s1)" using enough that by simp
    have "out = concat (batch_out ps ?R seq_lens (free_pages s1))"
      using decode_grid [OF ps bo assms(2) one, of "free_pages s1"] K1 next_power_of_2_ge [of "length batch"]
      by (simp add: out_def K_def)
    with batch_served [OF ps0 ok1 len le K_def [THEN meta_eq_to_obj_eq] K1] K1 show ?thesis
      by (auto simp: r length_unique_iff)
  qed
  show "al_debug s \<and> r = Inl AssertionError \<or> (\<exists>s'. r = Inr (None, s') \<and> rows_ok np ps s' (batch @ others))"
    if "K > length (free_pages s @ release_pages s)"
    using that enough ok1 by (auto simp: r check_def)
qed

end
