(* ===== verification/Kv_Segments.thy ===== *)
theory Kv_Segments
  imports Kv_Rows
begin

text \<open>
  Freeing the rows of requests by segments (\<open>free_segment\<close>, \<open>free_segments\<close> of
  \<^verbatim>\<open>srt/mem_cache/allocator/base.py\<close> and \<^verbatim>\<open>paged.py\<close>) and in groups, and the life of requests
  over the page allocator as a step relation.
\<close>

section \<open>Page representatives\<close>

lemma ceil_pages_shift: "0 < ps \<Longrightarrow> ceil_pages ps (q * ps + n) = q + ceil_pages ps n"
  by (simp add: ceil_pages_div)

lemma ceil_pages_0 [simp]: "0 < ps \<Longrightarrow> ceil_pages ps 0 = 0"
  by (simp add: ceil_pages_div)

lemma next_page_gt: "0 < ps \<Longrightarrow> a < (a div ps + 1) * (ps :: nat)"
  using mod_less_divisor [of ps a] div_mult_mod_eq [of a ps] unfolding add_mult_distrib by linarith

lemma py_range_map:
  "0 < ps \<Longrightarrow> py_range st n ps = map (\<lambda>j. st + j * ps) [0..<ceil_pages ps (n - st)]"
proof (induction st n ps rule: py_range.induct)
  case (1 st n ps)
  show ?case
  proof (cases "st < n")
    case True
    have "ceil_pages ps (n - st) = Suc (ceil_pages ps (n - (st + ps)))"
    proof (cases "st + ps \<le> n")
      case True
      then have "n - st = 1 * ps + (n - (st + ps))" by simp
      then show ?thesis using ceil_pages_shift [OF 1(2), of 1] by (metis plus_1_eq_Suc)
    next
      case False
      then have "ceil_pages ps (n - st) = 1"
        using \<open>st < n\<close> lt_ceil_pages [OF 1(2), of 0 "n - st"] lt_ceil_pages [OF 1(2), of 1 "n - st"] by linarith
      then show ?thesis using False 1(2) by simp
    qed
    then have "[0..<ceil_pages ps (n - st)] = 0 # map Suc [0..<ceil_pages ps (n - (st + ps))]"
      by (metis map_Suc_upt upt_conv_Cons zero_less_Suc)
    then show ?thesis using 1 True by (subst py_range.simps) (simp add: comp_def add.assoc)
  qed (subst py_range.simps, use 1(2) in simp)
qed

text \<open>The segment of the positions from \<open>a\<close> to \<open>b\<close> of a row, and the pages it touches.\<close>

definition touched :: "nat \<Rightarrow> nat \<Rightarrow> nat \<Rightarrow> nat list" where
  "touched ps a b = (if a < b then [a div ps..<ceil_pages ps b] else [])"

lemma segment_page:
  assumes "0 < ps" and "paged_row ps pg row" and "a + j < b" and "b \<le> length row"
  shows "py_slice a b row ! j div ps = pg ! ((a + j) div ps)"
  using row_page(1) [OF assms(1,2), of "a + j"] assms(3,4) by (simp add: nth_py_slice)

lemma segment_set:
  assumes ps: "0 < ps" and row: "paged_row ps pg row" and b: "b \<le> length row"
  shows "set (map (\<lambda>i. i div ps) (py_slice a b row)) = (!) pg ` set (touched ps a b)"
proof (cases "a < b")
  case True
  have lt: "k < ceil_pages ps b \<longleftrightarrow> k * ps < b" for k by (rule lt_ceil_pages [OF ps])
  have "pg ! k \<in> set (map (\<lambda>i. i div ps) (py_slice a b row))" if k: "a div ps \<le> k" "k < ceil_pages ps b" for k
  proof -
    define p where "p = max a (k * ps)"
    have p: "a \<le> p" "p < b" using True k(2) lt by (auto simp: p_def)
    have "p div ps = k"
    proof (cases "a \<le> k * ps")
      case False
      then have "k \<le> a div ps" using ps by (simp add: less_eq_div_iff_mult_less_eq)
      then show ?thesis using k(1) False by (simp add: p_def)
    qed (use ps in \<open>simp add: p_def\<close>)
    then have "py_slice a b row ! (p - a) div ps = pg ! k" using segment_page [OF ps row, of a "p - a" b] p b by simp
    moreover have "p - a < length (py_slice a b row)" using p b by simp
    ultimately show ?thesis by (metis length_map nth_map nth_mem)
  qed
  moreover have "i div ps \<in> (!) pg ` set (touched ps a b)" if i: "i \<in> set (py_slice a b row)" for i
  proof -
    obtain j where j: "j < length (py_slice a b row)" "i = py_slice a b row ! j" using i by (metis in_set_conv_nth)
    then have "a + j < b" by (simp add: less_diff_conv add.commute)
    then have "(a + j) div ps * ps < b" using div_times_less_eq_dividend [of "a + j" ps] by linarith
    then have "(a + j) div ps \<in> set (touched ps a b)" using True lt by (simp add: touched_def div_le_mono)
    then show ?thesis using segment_page [OF ps row \<open>a + j < b\<close> b] j(2) by blast
  qed
  ultimately show ?thesis using True unfolding touched_def set_map by (auto simp del: set_upt simp: set_upt [of "a div ps"])
qed (simp add: touched_def py_slice_def)

lemma page_reps_pages:
  assumes ps: "0 < ps" and row: "paged_row ps pg row" and ab: "a < b" and b: "b \<le> length row"
  shows "concat (map (map (\<lambda>i. i div ps)) (page_reps ps a (py_slice a b row))) = map ((!) pg) (touched ps a b)"
proof -
  define n q where "n = b - a" and "q = a div ps"
  have len: "length (py_slice a b row) = n" using ab b by (simp add: n_def)
  have stride: "map (\<lambda>i. i div ps) (stride_slice st ps (py_slice a b row)) = map ((!) pg) [m..<m + ceil_pages ps (n - st)]"
    if st: "a + st = m * ps" for st m
  proof (rule nth_equalityI)
    fix j assume "j < length (map (\<lambda>i. i div ps) (stride_slice st ps (py_slice a b row)))"
    then have j: "j < ceil_pages ps (n - st)" using ps len by (simp add: stride_slice_def py_range_map)
    then have "st + j * ps < n" using lt_ceil_pages [OF ps, of j "n - st"] by simp
    then have "a + (st + j * ps) < b" by (simp add: n_def)
    moreover have "(a + (st + j * ps)) div ps = m + j" using st ps by (simp add: add.assoc [symmetric])
    ultimately show "map (\<lambda>i. i div ps) (stride_slice st ps (py_slice a b row)) ! j = map ((!) pg) [m..<m + ceil_pages ps (n - st)] ! j"
      using segment_page [OF ps row _ b, of a "st + j * ps"] j ps len by (simp add: stride_slice_def py_range_map)
  qed (use ps len in \<open>simp add: stride_slice_def py_range_map\<close>)
  show ?thesis
  proof (cases "a mod ps = 0")
    case True
    then have a: "a = q * ps" by (metis q_def add.right_neutral div_mult_mod_eq)
    have "b = q * ps + n" using ab a by (simp add: n_def)
    then have cb: "ceil_pages ps b = q + ceil_pages ps n" using ceil_pages_shift [OF ps, of q n] by simp
    have "map (\<lambda>i. i div ps) (stride_slice 0 ps (py_slice a b row)) = map ((!) pg) [q..<q + ceil_pages ps (n - 0)]"
      by (rule stride) (simp add: a)
    then show ?thesis using True ab by (simp add: page_reps_def touched_def q_def [symmetric] cb)
  next
    case False
    define st where "st = ps - a mod ps"
    have ast: "a + st = Suc q * ps" using mod_less_divisor [OF ps, of a] div_mult_mod_eq [of a ps] unfolding st_def q_def mult_Suc by linarith
    have cb: "ceil_pages ps b = Suc q + ceil_pages ps (n - st)"
    proof (cases "st \<le> n")
      case True
      then have "b = Suc q * ps + (n - st)" using ast ab by (simp add: n_def)
      then show ?thesis using ceil_pages_shift [OF ps] by presburger
    next
      case F: False
      then have "b < Suc q * ps" "q * ps < b" using ast ab div_times_less_eq_dividend [of a ps] unfolding n_def q_def by linarith+
      then have "ceil_pages ps b = Suc q" using lt_ceil_pages [OF ps, of q b] lt_ceil_pages [OF ps, of "Suc q" b] by linarith
      then show ?thesis using F ps by simp
    qed
    have first: "map (\<lambda>i. i div ps) (take 1 (py_slice a b row)) = [pg ! q]"
      using segment_page [OF ps row, of a 0 b] ab b len by (cases "py_slice a b row") (simp_all add: q_def n_def)
    have "[q..<ceil_pages ps b] = q # [Suc q..<Suc q + ceil_pages ps (n - st)]" unfolding cb by (simp add: upt_conv_Cons)
    then show ?thesis using stride [OF ast] first False ab by (simp add: page_reps_def Let_def st_def touched_def q_def)
  qed
qed

section \<open>Freeing a segment\<close>

lemma sort_distinct_unique: "distinct xs \<Longrightarrow> set xs = set ys \<Longrightarrow> sort xs = unique ys"
  unfolding unique_def by (intro sorted_distinct_set_unique) simp_all

text \<open>A segment whose pages are not listed is freed by listing the pages it touches.\<close>

lemma free_segment_eq:
  assumes ps: "0 < ps" and row: "paged_row ps pg row" and d: "distinct pg" and b: "b \<le> length row"
    and psz: "al_page_size s = ps"
  shows "paged_free_segment s (py_slice a b row) a =
    (if \<not> a < b then Inr s
     else case free_group s of
         None \<Rightarrow> let s1 = release_page_ids s (map ((!) pg) (touched ps a b))
                 in if al_debug s then bindE (debug_check_no_duplicate_pages s1) (\<lambda>_. Inr s1) else Inr s1
       | Some g \<Rightarrow> Inr (s\<lparr> free_page_reps_group := free_page_reps_group s @ page_reps ps a (py_slice a b row) \<rparr>))"
proof (cases "a < b")
  case True
  note reps = page_reps_pages [OF ps row True b]
  have "set (touched ps a b) \<subseteq> {..<length pg}"
    using True row b ceil_pages_mono [of b "length row" ps] by (auto simp: touched_def paged_row_def)
  then have "distinct (map ((!) pg) (touched ps a b))"
    using d by (auto simp: distinct_map touched_def inj_on_def nth_eq_iff_index_eq subset_iff)
  then have "sort (map ((!) pg) (touched ps a b)) = unique (map (\<lambda>i. i div ps) (py_slice a b row))"
    using segment_set [OF ps row b, of a] by (intro sort_distinct_unique) simp_all
  moreover have "length (py_slice a b row) \<noteq> 0" using True b by simp
  ultimately show ?thesis
    unfolding paged_free_segment_def psz Let_def reps using True by (simp cong: option.case_cong del: length_py_slice)
next
  case False
  then show ?thesis by (simp add: paged_free_segment_def py_slice_def)
qed

lemma free_segment_ok:
  assumes ps: "0 < ps" and row: "paged_row ps pg row" and d: "distinct pg" and b: "b \<le> length row"
    and ok: "alloc_ok np ps s" and pool: "set pg \<subseteq> {1..<np + 1}"
    and new: "\<forall>k \<in> set (touched ps a b). pg ! k \<notin> listed s"
  shows "\<exists>s'. paged_free_segment s (py_slice a b row) a = Inr s' \<and> alloc_ok np ps s' \<and> listed s' = listed s \<union> (!) pg ` set (touched ps a b)"
proof (cases "a < b")
  case True
  let ?t = "map ((!) pg) (touched ps a b)"
  have sub: "set (touched ps a b) \<subseteq> {..<length pg}"
    using True row b ceil_pages_mono [of b "length row" ps] by (auto simp: touched_def paged_row_def)
  have t: "distinct ?t" "set ?t \<subseteq> {1..<np + 1}" "set ?t \<inter> listed s = {}"
    using sub d pool new by (auto simp: distinct_map touched_def inj_on_def nth_eq_iff_index_eq subset_iff)
  have "free_group s = None" "al_page_size s = ps" using ok by (simp_all add: alloc_ok_def)
  then show ?thesis
    using add_pages_ok [OF ok t] True by (auto simp: free_segment_eq [OF ps row d b] Let_def)
next
  case False
  then show ?thesis using ok by (simp add: paged_free_segment_def py_slice_def touched_def)
qed

text \<open>
  Ascending segments of one row, as pairs of bounds. The invariant of the loop: the pages
  from the end of the last segment on are not listed, and the page of its last token is.
\<close>

fun ascending :: "nat \<Rightarrow> nat \<Rightarrow> (nat \<times> nat) list \<Rightarrow> bool" where
  "ascending e n [] \<longleftrightarrow> e \<le> n"
| "ascending e n ((a, b) # cuts) \<longleftrightarrow> e \<le> a \<and> a \<le> b \<and> ascending b n cuts"

definition segs_of :: "nat list \<Rightarrow> (nat \<times> nat) list \<Rightarrow> (nat list \<times> nat) list" where
  "segs_of row cuts = map (\<lambda>(a, b). (py_slice a b row, a)) cuts"

definition touched_all :: "nat \<Rightarrow> (nat \<times> nat) list \<Rightarrow> nat set" where
  "touched_all ps cuts = (\<Union>(a, b) \<in> set cuts. set (touched ps a b))"

lemma ascending_le: "ascending e n cuts \<Longrightarrow> e \<le> n"
  by (induction e n cuts rule: ascending.induct) auto

lemma ceil_pages_pos: "0 < ps \<Longrightarrow> 0 < n \<Longrightarrow> ceil_pages ps n = Suc ((n - 1) div ps)"
  using div_add_self2 [of ps "n - 1"] by (simp add: ceil_pages_def)

lemma touched_trim:
  assumes ps: "0 < ps" and "a < b"
  shows "set (touched ps a b) = set (touched ps ((a div ps + 1) * ps) b) \<union> {a div ps}"
proof -
  have "a div ps * ps < b" using assms(2) div_times_less_eq_dividend [of a ps] by linarith
  then have "a div ps < ceil_pages ps b" using lt_ceil_pages [OF ps] by simp
  moreover have "(a div ps + 1) * ps < b \<longleftrightarrow> a div ps + 1 < ceil_pages ps b" using lt_ceil_pages [OF ps] by blast
  ultimately show ?thesis using assms by (auto simp: touched_def)
qed

lemma free_segments_loop:
  assumes ps: "0 < ps" and row: "paged_row ps pg row" and d: "distinct pg" and pool: "set pg \<subseteq> {1..<np + 1}"
  shows "ascending e (length row) cuts \<Longrightarrow> alloc_ok np ps s \<Longrightarrow> (prev_end = None \<and> e0 = 0 \<or> prev_end = Some e0 \<and> 0 < e0 \<and> e0 \<le> e \<and> pg ! ((e0 - 1) div ps) \<in> listed s)
    \<Longrightarrow> (\<forall>k < length pg. ceil_pages ps e0 \<le> k \<longrightarrow> pg ! k \<notin> listed s) \<Longrightarrow>
    \<exists>s'. paged_free_segments s prev_end (segs_of row cuts) = Inr s' \<and> alloc_ok np ps s' \<and> listed s' = listed s \<union> (!) pg ` touched_all ps cuts"
proof (induction cuts arbitrary: s prev_end e e0)
  case Nil
  then show ?case by (simp add: segs_of_def touched_all_def)
next
  case (Cons c cuts)
  obtain a b where c: "c = (a, b)" by fastforce
  have ab: "e \<le> a" "a \<le> b" "ascending b (length row) cuts" using Cons.prems(1) by (simp_all add: c)
  have b: "b \<le> length row" using ascending_le [OF ab(3)] .
  have psz: "al_page_size s = ps" using Cons.prems(2) by (simp add: alloc_ok_def)
  show ?case
  proof (cases "a < b")
    case False
    then have "a = b" using ab(2) by simp
    then have "paged_free_segments s prev_end (segs_of row (c # cuts)) = paged_free_segments s prev_end (segs_of row cuts)"
      by (simp add: c segs_of_def)
    moreover have "touched_all ps (c # cuts) = touched_all ps cuts" using \<open>a = b\<close> by (simp add: c touched_all_def touched_def)
    moreover have "ascending b (length row) cuts" "prev_end = None \<and> e0 = 0 \<or> prev_end = Some e0 \<and> 0 < e0 \<and> e0 \<le> b \<and> pg ! ((e0 - 1) div ps) \<in> listed s"
      using ab Cons.prems(3) by auto
    ultimately show ?thesis using Cons.IH [OF _ Cons.prems(2) _ Cons.prems(4)] by metis
  next
    case True
    define shared where "shared \<longleftrightarrow> prev_end \<noteq> None \<and> a div ps = (e0 - 1) div ps"
    define a' where "a' = (if shared then (a div ps + 1) * ps else a)"
    have call: "paged_free_segments s prev_end (segs_of row (c # cuts))
        = bindE (paged_free_segment s (py_slice a' b row) a') (\<lambda>s'. paged_free_segments s' (Some b) (segs_of row cuts))"
    proof -
      have lt: "a < (a div ps + 1) * ps" by (rule next_page_gt [OF ps])
      then have "drop ((a div ps + 1) * ps - a) (py_slice a b row) = py_slice ((a div ps + 1) * ps) b row"
        by (simp add: py_slice_def drop_take)
      moreover have "length (py_slice a b row) = b - a" "b - a \<noteq> 0" using b True by simp_all
      moreover have "(case prev_end of None \<Rightarrow> False | Some e \<Rightarrow> a div ps = (e - 1) div ps) = shared"
        using Cons.prems(3) by (auto simp: shared_def)
      ultimately show ?thesis
        using True unfolding c segs_of_def by (simp add: psz Let_def a'_def del: length_py_slice)
    qed
    have e0: "e0 \<le> a" using Cons.prems(3) ab(1) by auto
    have ce: "ceil_pages ps e0 = (if prev_end = None then 0 else Suc ((e0 - 1) div ps))"
      using Cons.prems(3) ceil_pages_pos [OF ps, of e0] ps by auto
    have start: "ceil_pages ps e0 \<le> a' div ps"
    proof -
      have "(e0 - 1) div ps \<le> a div ps" using e0 by (intro div_le_mono) simp
      then show ?thesis using ps by (auto simp: ce a'_def shared_def)
    qed
    have tt: "set (touched ps a b) = set (touched ps a' b) \<union> (if shared then {a div ps} else {})"
      using touched_trim [OF ps True] by (simp add: a'_def)
    have sub: "set (touched ps a' b) \<subseteq> {..<length pg}"
      using row b ceil_pages_mono [of b "length row" ps] by (auto simp: touched_def paged_row_def)
    have new: "\<forall>k \<in> set (touched ps a' b). pg ! k \<notin> listed s"
      using sub start Cons.prems(4) by (auto simp: touched_def split: if_splits)
    obtain s1 where s1: "paged_free_segment s (py_slice a' b row) a' = Inr s1" "alloc_ok np ps s1"
        "listed s1 = listed s \<union> (!) pg ` set (touched ps a' b)"
      using free_segment_ok [OF ps row d b Cons.prems(2) pool new] by blast
    have l1: "listed s1 = listed s \<union> (!) pg ` set (touched ps a b)"
      using Cons.prems(3) unfolding s1(3) tt by (auto simp: shared_def)
    have "(b - 1) div ps \<in> set (touched ps a b)"
      using True ceil_pages_pos [OF ps, of b] by (simp add: touched_def div_le_mono)
    then have last: "pg ! ((b - 1) div ps) \<in> listed s1" using l1 by blast
    have rest: "\<forall>k < length pg. ceil_pages ps b \<le> k \<longrightarrow> pg ! k \<notin> listed s1"
    proof (intro allI impI notI)
      fix k assume k: "k < length pg" "ceil_pages ps b \<le> k" "pg ! k \<in> listed s1"
      moreover have "ceil_pages ps e0 \<le> k" using k(2) ceil_pages_mono [of e0 b ps] e0 True by simp
      ultimately obtain j where "j \<in> set (touched ps a' b)" "pg ! j = pg ! k" using s1(3) Cons.prems(4) by auto
      then have "j = k" using sub k(1) d by (auto simp: nth_eq_iff_index_eq subset_iff)
      then show False using \<open>j \<in> set (touched ps a' b)\<close> k(2) by (auto simp: touched_def split: if_splits)
    qed
    obtain s' where s': "paged_free_segments s1 (Some b) (segs_of row cuts) = Inr s'" "alloc_ok np ps s'"
        "listed s' = listed s1 \<union> (!) pg ` touched_all ps cuts"
      using Cons.IH [OF ab(3) s1(2) _ rest, of "Some b"] last True by auto
    then show ?thesis using call s1(1) l1 by (auto simp: c touched_all_def)
  qed
qed

section \<open>Finishing requests\<close>

lemma rows_released:
  assumes "rows_ok np ps s (gone @ rest)" and "alloc_ok np ps s'"
    and "listed s' = listed s \<union> set (concat (map (row_pages ps) gone))"
  shows "rows_ok np ps s' rest"
  using assms unfolding rows_ok_def by auto

lemma row_of_rows_ok:
  assumes "rows_ok np ps s rows" and "row \<in> set rows"
  shows "paged_row ps (row_pages ps row) row" "distinct (row_pages ps row)" "set (row_pages ps row) \<subseteq> {1..<np + 1}"
    "set (row_pages ps row) \<inter> listed s = {}"
proof -
  show "paged_row ps (row_pages ps row) row" using assms by (simp add: rows_ok_def)
  obtain us vs where "rows = us @ row # vs" using assms(2) by (meson split_list)
  then show "distinct (row_pages ps row)" "set (row_pages ps row) \<subseteq> {1..<np + 1}" "set (row_pages ps row) \<inter> listed s = {}"
    using assms(1) by (auto simp: rows_ok_def)
qed

text \<open>A request is finished by freeing segments that together touch all of its pages.\<close>

lemma finish_segments:
  assumes ps: "0 < ps" and ok: "rows_ok np ps s (row # rest)" and asc: "ascending 0 (length row) cuts"
    and all: "touched_all ps cuts = {..<ceil_pages ps (length row)}"
  shows "\<exists>s'. paged_free_segments s None (segs_of row cuts) = Inr s' \<and> rows_ok np ps s' rest"
proof -
  let ?pg = "row_pages ps row"
  note r = row_of_rows_ok [OF ok list.set_intros(1)]
  have aok: "alloc_ok np ps s" using ok by (simp add: rows_ok_def)
  have "\<forall>k < length ?pg. ceil_pages ps 0 \<le> k \<longrightarrow> ?pg ! k \<notin> listed s" using r(4) nth_mem by blast
  then obtain s' where s': "paged_free_segments s None (segs_of row cuts) = Inr s'" "alloc_ok np ps s'"
      "listed s' = listed s \<union> (!) ?pg ` touched_all ps cuts"
    using free_segments_loop [OF ps r(1,2,3) asc aok, of None 0] by auto
  have "(!) ?pg ` touched_all ps cuts = set ?pg" unfolding all by (auto simp: row_pages_def)
  then show ?thesis using rows_released [of np ps s "[row]" rest s'] ok s' by auto
qed

definition free_in_group :: "kv_alloc \<Rightarrow> nat list list \<Rightarrow> kv_alloc res" where
  "free_in_group s rows = bindE (foldE (\<lambda>s row. paged_free_segment s row 0) (paged_group_begin s) rows) paged_group_end"

lemma whole_segment: "py_slice 0 (length row) row = row"
  by (simp add: py_slice_def)

lemma group_frees:
  assumes ps: "0 < ps" and rows: "\<forall>row \<in> set rows. paged_row ps (row_pages ps row) row \<and> distinct (row_pages ps row)"
    and "al_page_size s = ps" and "free_group s = Some g"
  shows "\<exists>reps. foldE (\<lambda>s row. paged_free_segment s row 0) s rows = Inr (s\<lparr> free_page_reps_group := free_page_reps_group s @ reps \<rparr>)
     \<and> map (\<lambda>i. i div ps) (concat reps) = concat (map (row_pages ps) rows)"
  using assms(2-4)
proof (induction rows arbitrary: s)
  case (Cons row rows)
  have row: "paged_row ps (row_pages ps row) row" "distinct (row_pages ps row)" using Cons.prems(1) by simp_all
  show ?case
  proof (cases "row = []")
    case True
    then have "row_pages ps row = []" using ps by (simp add: row_pages_def)
    then show ?thesis using True Cons.IH [of s] Cons.prems by (auto simp: paged_free_segment_def)
  next
    case False
    let ?reps = "page_reps ps 0 row" and ?n = "ceil_pages ps (length row)"
    have 1: "paged_free_segment s row 0 = Inr (s\<lparr> free_page_reps_group := free_page_reps_group s @ ?reps \<rparr>)"
      using free_segment_eq [OF ps row le_refl Cons.prems(2), of 0] False Cons.prems(3) by (simp add: whole_segment)
    have "map ((!) (row_pages ps row)) [0..<?n] = row_pages ps row" using map_nth [of "row_pages ps row"] by (simp add: row_pages_def)
    then have 2: "map (\<lambda>i. i div ps) (concat ?reps) = row_pages ps row"
      using page_reps_pages [OF ps row(1), of 0 "length row"] False by (simp add: whole_segment touched_def map_concat)
    let ?s1 = "s\<lparr> free_page_reps_group := free_page_reps_group s @ ?reps \<rparr>"
    obtain reps where "foldE (\<lambda>s row. paged_free_segment s row 0) ?s1 rows = Inr (?s1\<lparr> free_page_reps_group := free_page_reps_group ?s1 @ reps \<rparr>)"
        "map (\<lambda>i. i div ps) (concat reps) = concat (map (row_pages ps) rows)"
      using Cons.IH [of ?s1] Cons.prems by auto
    then show ?thesis using 1 2 by (intro exI [of _ "?reps @ reps"]) simp
  qed
next
  case Nil
  show ?case by (intro exI [of _ "[]"]) simp
qed

lemma group_released:
  assumes ps: "0 < ps" and ok: "rows_ok np ps s (gone @ rest)"
  shows "\<exists>s'. free_in_group s gone = Inr s' \<and> rows_ok np ps s' rest"
proof -
  have aok: "alloc_ok np ps s" and psz: "al_page_size s = ps" using ok by (auto simp: rows_ok_def alloc_ok_def)
  let ?b = "paged_group_begin s" and ?p = "concat (map (row_pages ps) gone)"
  have b: "al_page_size ?b = ps" "free_group ?b = Some []" "free_page_reps_group ?b = []"
    using psz by (simp_all add: paged_group_begin_def free_group_begin_def)
  obtain reps where f: "foldE (\<lambda>s row. paged_free_segment s row 0) ?b gone = Inr (?b\<lparr> free_page_reps_group := reps \<rparr>)"
      "map (\<lambda>i. i div ps) (concat reps) = ?p"
    using group_frees [OF ps _ b(1,2), of gone] b(3) row_of_rows_ok(1,2) [OF ok] by auto
  have p: "distinct ?p" "set ?p \<subseteq> {1..<np + 1}" "set ?p \<inter> listed s = {}" using ok by (auto simp: rows_ok_def)
  note a = add_pages_ok [OF aok p]
  have st: "?b\<lparr> free_page_reps_group := reps, free_group := None \<rparr> = s\<lparr> free_page_reps_group := reps \<rparr>"
    using aok by (simp add: paged_group_begin_def free_group_begin_def alloc_ok_def)
  have "free_in_group s gone = Inr (release_page_ids s ?p)"
  proof -
    have rel: "(release_page_ids (s\<lparr> free_page_reps_group := reps \<rparr>) ?p)\<lparr> free_page_reps_group := [] \<rparr> = release_page_ids s ?p"
      using aok by (simp add: release_page_ids_def alloc_ok_def)
    have e: "release_page_ids s [] = s" by (simp add: release_page_ids_def)
    have "free_group_end paged_free (?b\<lparr> free_page_reps_group := reps \<rparr>) = Inr (s\<lparr> free_page_reps_group := reps \<rparr>)"
      using st b(2) by (simp add: free_group_end_def)
    moreover have "s\<lparr> free_page_reps_group := [] \<rparr> = s" using aok by (simp add: alloc_ok_def)
    moreover have "al_debug (release_page_ids s ?p) = al_debug s" by (simp add: release_page_ids_def)
    moreover have "free_page_reps_group s = []" using aok by (simp add: alloc_ok_def)
    moreover have "?p = []" if "reps = []" using f(2) that by (metis concat.simps(1) list.simps(8))
    ultimately show ?thesis
      using f(1) a(3) rel e psz unfolding free_in_group_def
      by (cases "reps = []") (simp_all add: paged_group_end_def Let_def f(2) del: concat_eq_Nil_conv)
  qed
  then show ?thesis using rows_released [OF ok a(1)] a(2) by auto
qed

section \<open>The life of requests\<close>

text \<open>
  The scheduler's use of the allocator: requests are admitted with an empty row, batches of
  them are extended or decoded (an allocation may be refused), and finished requests are freed
  by segments or in a group. The order of the rows means nothing.
\<close>

inductive kv_step :: "gpu \<Rightarrow> nat \<Rightarrow> kv_alloc \<times> nat list list \<Rightarrow> kv_alloc \<times> nat list list \<Rightarrow> bool"
  for g :: gpu and ps :: nat where
  admit: "kv_step g ps (s, rows) (s, [] # rows)"
| extend: "mset rows = mset (batch @ others) \<Longrightarrow> length seq_lens = length batch
    \<Longrightarrow> (\<forall>i < length batch. length (batch ! i) \<le> seq_lens ! i)
    \<Longrightarrow> paged_alloc_extend g s (map length batch) seq_lens (map last_loc_of batch)
          (sum_list (ext_lens (as_reqs ps batch) seq_lens)) None = Inr (r, s')
    \<Longrightarrow> (case r of None \<Rightarrow> batch' = batch | Some out \<Rightarrow> appended batch seq_lens out batch')
    \<Longrightarrow> kv_step g ps (s, rows) (s', batch' @ others)"
| decode: "mset rows = mset (batch @ others)
    \<Longrightarrow> paged_alloc_decode g s (map (\<lambda>row. Suc (length row)) batch) (map last_loc_of batch) = Inr (r, s')
    \<Longrightarrow> (case r of None \<Rightarrow> batch' = batch | Some out \<Rightarrow> appended batch (map (\<lambda>row. Suc (length row)) batch) out batch')
    \<Longrightarrow> kv_step g ps (s, rows) (s', batch' @ others)"
| finish: "mset rows = mset (row # others) \<Longrightarrow> ascending 0 (length row) cuts
    \<Longrightarrow> touched_all ps cuts = {..<ceil_pages ps (length row)}
    \<Longrightarrow> paged_free_segments s None (segs_of row cuts) = Inr s' \<Longrightarrow> kv_step g ps (s, rows) (s', others)"
| finish_group: "mset rows = mset (gone @ others) \<Longrightarrow> free_in_group s gone = Inr s' \<Longrightarrow> kv_step g ps (s, rows) (s', others)"

lemma appended_unique:
  assumes "appended batch seq_lens out b1" and "appended batch seq_lens out b2"
  shows "b1 = b2"
proof -
  obtain x1 x2 where x: "out = concat x1" "length x1 = length batch" "b1 = map2 (@) batch x1" "map length b1 = seq_lens"
      "out = concat x2" "length x2 = length batch" "b2 = map2 (@) batch x2" "map length b2 = seq_lens"
    using assms unfolding appended_def by blast
  have "map length x1 = map length x2"
  proof (rule nth_equalityI)
    fix i assume "i < length (map length x1)"
    then have i: "i < length batch" using x(2) by simp
    have "length b1 = length batch" "length b2 = length batch" "map length b1 = map length b2" using x by simp_all
    then have "length (b1 ! i) = length (b2 ! i)" using i nth_map [of i b1 length] nth_map [of i b2 length] by simp
    then show "map length x1 ! i = map length x2 ! i" using i x(2,3,6,7) by simp
  qed (simp add: x)
  then have "x1 = x2"
    using x(1,2,5,6) by (intro concat_injective) (auto simp: set_zip list_eq_iff_nth_eq)
  then show ?thesis using x(3,7) by simp
qed

lemma kv_step_ok:
  assumes "kv_step g ps c c'" and "1 < ps" and "schedule_ok g" and "rows_ok np ps (fst c) (snd c)"
  shows "rows_ok np ps (fst c') (snd c')"
  using assms(1)
proof cases
  case (admit s rows)
  have "row_pages ps [] = []" "paged_row ps [] []" using assms(2) by (simp_all add: row_pages_def paged_row_def)
  then show ?thesis using assms(4) admit by (simp add: rows_ok_def)
next
  case (extend rows batch others seq_lens s r s' batch')
  have ok: "rows_ok np ps s (batch @ others)" using assms(4) extend(1) rows_ok_mset [OF extend(3)] by simp
  have "0 < ps" using assms(2) by simp
  note e = extend_rows [OF this assms(3) ok extend(4,5)]
  show ?thesis
  proof (cases r)
    case None
    have "rows_ok np ps s' (batch @ others)"
      using e extend(6) None by (cases "sum_list (page_needs ps (as_reqs ps batch) seq_lens) \<le> length (free_pages s @ release_pages s)") auto
    then show ?thesis using extend(2,7) None by simp
  next
    case (Some out)
    then have "\<exists>b. appended batch seq_lens out b \<and> rows_ok np ps s' (b @ others)"
      using e extend(6) Some by (cases "sum_list (page_needs ps (as_reqs ps batch) seq_lens) \<le> length (free_pages s @ release_pages s)") auto
    then obtain b where b: "appended batch seq_lens out b" "rows_ok np ps s' (b @ others)" by blast
    have "appended batch seq_lens out batch'" using extend(7) Some by simp
    then have "batch' = b" by (rule appended_unique [OF _ b(1)])
    then show ?thesis using extend(2) b(2) by simp
  qed
next
  case (decode rows batch others s r s' batch')
  have ok: "rows_ok np ps s (batch @ others)" using assms(4) decode(1) rows_ok_mset [OF decode(3)] by simp
  note e = decode_rows [OF assms(2,3) ok]
  let ?K = "sum_list (page_needs ps (as_reqs ps batch) (map (\<lambda>row. Suc (length row)) batch))"
  show ?thesis
  proof (cases r)
    case None
    have "rows_ok np ps s' (batch @ others)"
      using e(1,2) decode(4) None by (cases "?K \<le> length (free_pages s @ release_pages s)") auto
    then show ?thesis using decode(2,5) None by simp
  next
    case (Some out)
    have "\<exists>b. appended batch (map (\<lambda>row. Suc (length row)) batch) out b \<and> rows_ok np ps s' (b @ others)"
      using e(1,2) decode(4) Some by (cases "?K \<le> length (free_pages s @ release_pages s)") auto
    then obtain b where b: "appended batch (map (\<lambda>row. Suc (length row)) batch) out b" "rows_ok np ps s' (b @ others)" by blast
    have "appended batch (map (\<lambda>row. Suc (length row)) batch) out batch'" using decode(5) Some by simp
    then have "batch' = b" by (rule appended_unique [OF _ b(1)])
    then show ?thesis using decode(2) b(2) by simp
  qed
next
  case (finish rows row others cuts s s')
  have "rows_ok np ps s (row # others)" using assms(4) finish(1) rows_ok_mset [OF finish(3)] by simp
  from finish_segments [OF _ this finish(4,5)] show ?thesis using finish assms(2) by auto
next
  case (finish_group rows gone others s s')
  have "rows_ok np ps s (gone @ others)" using assms(4) finish_group(1) rows_ok_mset [OF finish_group(3)] by simp
  from group_released [OF _ this] show ?thesis using finish_group assms(2) by auto
qed

lemma rows_ok_init:
  assumes "0 < ps"
  shows "rows_ok (n div ps) ps (paged_init n ps need_sort debug) []"
  by (auto simp: rows_ok_def paged_init_def paged_clear_def alloc_ok_def listed_def num_pages_def simp del: upt_Suc)

lemma reachable_rows_ok:
  assumes "(kv_step g ps)\<^sup>*\<^sup>* c c'" and "1 < ps" and "schedule_ok g" and "rows_ok np ps (fst c) (snd c)"
  shows "rows_ok np ps (fst c') (snd c')"
  using assms(1)
proof (induction rule: rtranclp_induct)
  case (step c' c'')
  then show ?case using kv_step_ok [OF step(2) assms(2,3)] by simp
qed (rule assms(4))

text \<open>
  (C18) Serving is safe. In every state that any sequence of admissions, extensions,
  decodings and frees can reach from a cleared pool, for every order of the grids' stores:
  no slot belongs to two positions of the requests, every slot lies in a page of the pool
  other than page 0, and none of these pages is on a free list.
\<close>

theorem kv_rows_safe:
  assumes "1 < ps" and "schedule_ok g" and "(kv_step g ps)\<^sup>*\<^sup>* (paged_init n ps need_sort debug, []) (s, rows)"
  shows "distinct (concat rows) \<and> (\<forall>i \<in> set (concat rows). ps \<le> i \<and> i < (n div ps + 1) * ps \<and> i div ps \<notin> listed s)"
proof -
  have "rows_ok (n div ps) ps s rows" using reachable_rows_ok [OF assms(3,1,2)] rows_ok_init assms(1) by simp
  then show ?thesis using rows_ok_slots [of ps "n div ps" s rows] assms(1) by simp
qed

text \<open>Two requests, one of them extended to nine tokens, over four pages of four slots.\<close>

lemma witness_reachable:
  "\<exists>s row. (kv_step witness_gpu 4)\<^sup>*\<^sup>* (paged_init 17 4 True True, []) (s, [row] @ [[]]) \<and> length row = 9 \<and> available_size s = 4"
proof -
  let ?s = "paged_init 17 4 True True"
  have 1: "kv_step witness_gpu 4 (?s, []) (?s, [[]])" "kv_step witness_gpu 4 (?s, [[]]) (?s, [[], []])" by (rule admit)+
  have ok: "rows_ok 4 4 ?s [[], []]"
    using kv_step_ok [OF 1(2) _ witness_gpu_ok] kv_step_ok [OF 1(1) _ witness_gpu_ok] rows_ok_init [of 4 17 True True] by simp
  have init: "free_pages ?s @ release_pages ?s = [1, 2, 3, 4]"
    by (simp add: paged_init_def paged_clear_def num_pages_def upt_rec)
  have K: "sum_list (page_needs 4 (as_reqs 4 [[]]) [9]) = 3" by (simp add: page_needs_def ceil_pages_def)
  obtain out s' batch' where r: "paged_alloc_extend witness_gpu ?s [0] [9] [- 1] (sum_list (ext_lens (as_reqs 4 [[]]) [9])) None = Inr (Some out, s')"
      "appended [[]] [9] out batch'" "rows_ok 4 4 s' (batch' @ [[]])"
    using extend_rows(1) [of 4 witness_gpu 4 ?s "[[]]" "[[]]" "[9]"] witness_gpu_ok ok init K
    by (auto simp: last_loc_of_def)
  have "kv_step witness_gpu 4 (?s, [[], []]) (s', batch' @ [[]])"
    by (rule extend [where batch = "[[]]" and others = "[[]]" and seq_lens = "[9]" and r = "Some out"]) (use r in \<open>simp_all add: last_loc_of_def\<close>)
  moreover obtain row where row: "batch' = [row]" "length row = 9" using r(2) by (auto simp: appended_def map_eq_Cons_conv)
  moreover have "available_size s' = 4"
  proof -
    have al: "alloc_ok 4 4 s'" using r(3) by (simp add: rows_ok_def)
    have "length (row_pages 4 row) = 3" using row(2) by (simp add: row_pages_def ceil_pages_def)
    moreover have d: "distinct (row_pages 4 row)" "set (row_pages 4 row) \<inter> listed s' = {}" "set (row_pages 4 row) \<union> listed s' = {1..<5}"
      using r(3) row(1) by (auto simp: rows_ok_def row_pages_def)
    ultimately have "card (set (row_pages 4 row) \<union> listed s') = 3 + card (listed s')"
      by (subst card_Un_disjoint) (simp_all add: distinct_card listed_def)
    then show ?thesis using d(3) card_listed [OF al] al by (simp add: available_size_def alloc_ok_def)
  qed
  moreover have "(kv_step witness_gpu 4)\<^sup>*\<^sup>* (?s, []) (?s, [[], []])"
    by (rule rtranclp.rtrancl_into_rtrancl [OF rtranclp.rtrancl_into_rtrancl], rule rtranclp.rtrancl_refl, rule 1(1), rule 1(2))
  ultimately have "(kv_step witness_gpu 4)\<^sup>*\<^sup>* (?s, []) (s', [row] @ [[]])" by (auto intro: rtranclp.rtrancl_into_rtrancl)
  then show ?thesis using row(2) \<open>available_size s' = 4\<close> by blast
qed

theorem kv_rows_safe_witness:
  "\<exists>s row. length row = 9 \<and> distinct row \<and> (\<forall>i \<in> set row. 4 \<le> i \<and> i < 20 \<and> i div 4 \<notin> listed s)"
proof -
  obtain s row where w: "(kv_step witness_gpu 4)\<^sup>*\<^sup>* (paged_init 17 4 True True, []) (s, [row] @ [[]])" "length row = 9"
    using witness_reachable by blast
  show ?thesis using kv_rows_safe [OF _ witness_gpu_ok w(1)] w(2) by auto
qed

text \<open>
  (C20) Serving does not get stuck. In every reachable state, each batch of requests can be
  decoded by one token as soon as as many pages are free as the batch has requests, and
  every request can be finished, by its whole row as one segment or in a group.
\<close>

theorem kv_rows_progress:
  assumes "1 < ps" and "schedule_ok g" and "(kv_step g ps)\<^sup>*\<^sup>* (paged_init n ps need_sort debug, []) (s, batch @ others)"
  shows "(length batch * ps \<le> available_size s \<longrightarrow>
      (\<exists>out s'. paged_alloc_decode g s (map (\<lambda>row. Suc (length row)) batch) (map last_loc_of batch) = Inr (Some out, s')))
    \<and> (\<exists>s'. free_in_group s batch = Inr s')
    \<and> (\<forall>row \<in> set batch. \<exists>s'. paged_free_segments s None [(row, 0)] = Inr s')"
proof (intro conjI impI ballI)
  have ok: "rows_ok (n div ps) ps s (batch @ others)" using reachable_rows_ok [OF assms(3,1,2)] rows_ok_init assms(1) by simp
  have ps: "0 < ps" using assms(1) by simp
  then show "\<exists>s'. free_in_group s batch = Inr s'" using group_released [OF _ ok] by blast
  show "\<exists>out s'. paged_alloc_decode g s (map (\<lambda>row. Suc (length row)) batch) (map last_loc_of batch) = Inr (Some out, s')"
    if "length batch * ps \<le> available_size s"
  proof -
    have "al_page_size s = ps" using ok by (simp add: rows_ok_def alloc_ok_def)
    then have "length batch \<le> length (free_pages s @ release_pages s)" using that ps by (simp add: available_size_def)
    then show ?thesis using decode_rows(1,3) [OF assms(1,2) ok] by (meson le_trans)
  qed
  fix row assume "row \<in> set batch"
  then obtain us vs where "batch = us @ row # vs" by (meson split_list)
  then have "rows_ok (n div ps) ps s (row # us @ vs @ others)" using ok rows_ok_mset [of "batch @ others" "row # us @ vs @ others"] by simp
  moreover have "touched_all ps [(0, length row)] = {..<ceil_pages ps (length row)}" using ps by (auto simp: touched_all_def touched_def)
  ultimately have "\<exists>s'. paged_free_segments s None (segs_of row [(0, length row)]) = Inr s'"
    using finish_segments [OF ps, of "n div ps" s row "us @ vs @ others" "[(0, length row)]"] by auto
  then show "\<exists>s'. paged_free_segments s None [(row, 0)] = Inr s'" by (simp add: segs_of_def whole_segment)
qed

theorem kv_rows_progress_witness:
  "\<exists>s row. length row = 9 \<and> (\<exists>out s'. paged_alloc_decode witness_gpu s [10] [last_loc_of row] = Inr (Some out, s'))
     \<and> (\<exists>s'. free_in_group s [row] = Inr s')"
proof -
  obtain s row where w: "(kv_step witness_gpu 4)\<^sup>*\<^sup>* (paged_init 17 4 True True, []) (s, [row] @ [[]])" "length row = 9" "available_size s = 4"
    using witness_reachable by blast
  have "length [row] * 4 \<le> available_size s" using w(3) by simp
  moreover have "map (\<lambda>row. Suc (length row)) [row] = [10]" "map last_loc_of [row] = [last_loc_of row]" using w(2) by simp_all
  ultimately show ?thesis using kv_rows_progress [OF _ witness_gpu_ok w(1)] w(2) by (metis One_nat_def one_less_numeral_iff semiring_norm(76))
qed

section \<open>Allocation with too few pages\<close>

text \<open>A pool of one page, and memory behind its free list that repeats its id.\<close>

lemma no_blocks: "(BLOCK_EXTEND - Suc 0) div BLOCK_EXTEND = 0"
  by (simp add: BLOCK_EXTEND_def)

definition short_gpu :: gpu where
  "short_gpu = \<lparr> uninit = \<lambda>_. 0, masked_lane = 0, beyond = \<lambda>_. 1, schedule = \<lambda>xs. xs \<rparr>"

lemma upts: "[0..<2] = [0, Suc 0]" "[0..<4] = [0, Suc 0, 2, 3]" "[0..<6] = [0, Suc 0, 2, 3, 4, 5]"
  by (simp_all add: upt_rec)

lemma short_kernel:
  "alloc_extend_kernel short_gpu [0, 0] [3, 3] [- 1, - 1] [1] 2 4 0 = [(0, 4), (1, 5), (2, 6)]"
  "alloc_extend_kernel short_gpu [0, 0] [3, 3] [- 1, - 1] [1] 2 4 (Suc 0) = [(3, 4), (4, 5), (5, 6)]"
  by (simp_all add: alloc_extend_kernel_def Let_def masked_load_def ceil_pages_def no_blocks load_def upts short_gpu_def)

lemma short_np: "next_power_of_2 (Suc (Suc 0)) = 2"
  by (simp add: next_power_of_2_def bit_length.simps [of "Suc 0"] bit_length.simps [of 0])

lemma short_init: "paged_init 4 4 False d = \<lparr> al_size = 4, al_page_size = 4, al_need_sort = False, al_debug = d,
  free_pages = [1], release_pages = [], free_group = None, free_page_reps_group = [] \<rparr>"
  by (simp add: paged_init_def paged_clear_def num_pages_def)

lemma short_mem: "schedule short_gpu xs = xs" "torch_empty short_gpu 6 = [0, 0, 0, 0, 0, 0]"
  by (simp_all add: short_gpu_def torch_empty_def upts)


end
