(* ===== verification/Radix_Pool.thy ===== *)
theory Radix_Pool
  imports Radix_Evict Kv_Segments
begin

text \<open>
  The prefix cache over the allocators: what the cache and the requests own and what is on
  the free lists make up the pool. The interface \<open>row_pool\<close> states what freeing the segments of
  a request's row does; the page allocator and the token allocator provide it.
\<close>

section \<open>Rows and pages\<close>

lemma paged_row_page_slots:
  assumes "0 < ps"
  shows "paged_row ps pages (page_slots ps pages)"
  using assms by (auto simp: paged_row_def length_page_slots ceil_pages_div nth_page_slots)

lemma ceil_pages_mult: "0 < ps \<Longrightarrow> ceil_pages ps (a * ps) = a"
  by (simp add: ceil_pages_div)

text \<open>Whole pages of a row.\<close>

lemma row_slice:
  assumes ps: "0 < ps" and row: "paged_row ps pg kv" and b: "b * ps \<le> length kv"
  shows "py_slice (a * ps) (b * ps) kv = page_slots ps (py_slice a b pg)" "b \<le> length pg"
proof -
  have "length pg = ceil_pages ps (length kv)" using row by (simp add: paged_row_def)
  then have "b * ps \<le> length pg * ps" using order_trans [OF b ceil_pages_ge [OF ps]] by (simp only:)
  then show bp: "b \<le> length pg" using ps by simp
  show "py_slice (a * ps) (b * ps) kv = page_slots ps (py_slice a b pg)"
  proof (rule nth_equalityI)
    have "min (b * ps - a * ps) (length kv - a * ps) = b * ps - a * ps" using b by linarith
    moreover have "min (b - a) (length pg - a) = b - a" using bp by linarith
    ultimately show len: "length (py_slice (a * ps) (b * ps) kv) = length (page_slots ps (py_slice a b pg))"
      by (simp add: length_page_slots diff_mult_distrib)
    fix i assume i: "i < length (py_slice (a * ps) (b * ps) kv)"
    then have i1: "i < b * ps - a * ps" by simp
    then have i2: "a * ps + i < length kv" using b by linarith
    have d: "(a * ps + i) div ps = a + i div ps" "(a * ps + i) mod ps = i mod ps" using ps by simp_all
    have "i < (b - a) * ps" using i1 by (simp add: diff_mult_distrib)
    then have q: "i div ps < b - a" using ps by (simp add: div_less_iff_less_mult)
    have "py_slice (a * ps) (b * ps) kv ! i = pg ! (a + i div ps) * ps + i mod ps"
      using row i1 i2 by (simp add: nth_py_slice paged_row_def d)
    moreover have "page_slots ps (py_slice a b pg) ! i = pg ! (a + i div ps) * ps + i mod ps"
      using q bp i unfolding len by (subst nth_page_slots) (simp_all add: length_page_slots nth_py_slice)
    ultimately show "py_slice (a * ps) (b * ps) kv ! i = page_slots ps (py_slice a b pg) ! i" by simp
  qed
qed

lemma distinct_pages: "0 < ps \<Longrightarrow> distinct (page_slots ps pages) \<Longrightarrow> distinct pages"
proof (induction pages)
  case (Cons p pages)
  have "p * ps \<in> set (map (\<lambda>j. p * ps + j) [0..<ps])" using Cons.prems(1) slot_of_page [of ps "p * ps" p] by simp
  then have "p * ps \<notin> set (page_slots ps pages)" using Cons.prems(2) unfolding page_slots_Cons distinct_append by blast
  then have "p \<notin> set pages" using page_slots_mem [OF Cons.prems(1), of "p * ps" pages] Cons.prems(1) by simp
  then show ?case using Cons unfolding page_slots_Cons distinct_append by simp
qed simp

lemma touched_from:
  assumes "0 < ps" and "a * ps \<le> e"
  shows "set (touched ps (a * ps) e) = {a..<ceil_pages ps e}"
proof (cases "a * ps < e")
  case False
  then have "e = a * ps" using assms(2) by simp
  then show ?thesis using assms(1) by (simp add: touched_def ceil_pages_mult)
qed (use assms(1) in \<open>simp add: touched_def\<close>)

section \<open>What is on the free lists and what is not\<close>

definition pool_owns :: "nat \<Rightarrow> nat \<Rightarrow> kv_alloc \<Rightarrow> nat multiset \<Rightarrow> bool" where
  "pool_owns np ps al M \<longleftrightarrow> alloc_ok np ps al \<and> M + mset_set (paged_avail ps al) = mset_set (set (page_slots ps [1..<np + 1]))"

lemma pool_facts:
  assumes ps: "0 < ps" and o: "pool_owns np ps al (mset (page_slots ps pages) + M)"
  shows "alloc_ok np ps al" "distinct pages" "set pages \<subseteq> {1..<np + 1}" "set pages \<inter> listed al = {}"
proof -
  let ?S = "set (page_slots ps [1..<np + 1])" and ?v = "page_slots ps pages"
  show ok: "alloc_ok np ps al" using o by (simp add: pool_owns_def)
  have eq: "mset ?v + M + mset_set (paged_avail ps al) = mset_set ?S" using o by (simp add: pool_owns_def)
  have fin: "finite ?S" "finite (paged_avail ps al)" by (simp_all add: paged_avail_def)
  have cnt: "count (mset ?v) i + count (mset_set (paged_avail ps al)) i \<le> (if i \<in> ?S then 1 else 0)" for i
    using arg_cong [OF eq, of "\<lambda>m. count m i"] fin by (simp add: count_mset_set')
  have "distinct ?v"
  proof -
    have "(if i \<in> ?S then 1 else 0) \<le> (1 :: nat)" for i by simp
    then have "count (mset ?v) i \<le> 1" for i using cnt [of i] by (meson add_leD1 order_trans)
    then have "count (mset ?v) i = (if i \<in> set ?v then 1 else 0)" for i
      using count_greater_zero_iff [of "mset ?v" i] by (cases "i \<in> set ?v") (auto simp: le_Suc_eq)
    then show ?thesis unfolding distinct_count_atmost_1 by blast
  qed
  then show "distinct pages" by (rule distinct_pages [OF ps])
  have in_S: "i \<in> ?S" and not_av: "i \<notin> paged_avail ps al" if "i \<in> set ?v" for i
  proof -
    have pos: "0 < count (mset ?v) i" using that by simp
    then show "i \<in> ?S" using cnt [of i] by (simp split: if_splits)
    show "i \<notin> paged_avail ps al"
    proof
      assume "i \<in> paged_avail ps al"
      then have "count (mset_set (paged_avail ps al)) i = 1" using fin(2) by simp
      then show False using cnt [of i] pos by (simp split: if_splits)
    qed
  qed
  have slot: "p * ps \<in> set ?v" if "p \<in> set pages" for p using page_slots_mem [OF ps, of "p * ps" pages] that ps by simp
  show "set pages \<subseteq> {1..<np + 1}"
  proof
    fix p assume "p \<in> set pages"
    then have "p * ps div ps \<in> set [1..<np + 1]" using in_S [OF slot] page_slots_mem [OF ps] by blast
    then show "p \<in> {1..<np + 1}" using ps by (simp only: nonzero_mult_div_cancel_right set_upt)
  qed
  show "set pages \<inter> listed al = {}"
  proof -
    have "p \<notin> listed al" if "p \<in> set pages" for p using not_av [OF slot [OF that]] paged_avail_mem [OF ps, of "p * ps" al] ps by simp
    then show ?thesis by blast
  qed
qed

lemma pool_release:
  assumes ps: "0 < ps" and o: "pool_owns np ps al (mset (page_slots ps pages) + M)" and ok: "alloc_ok np ps al'" and l: "listed al' = listed al \<union> set pages"
  shows "pool_owns np ps al' M"
proof -
  note f = pool_facts [OF ps o]
  have d: "distinct (page_slots ps pages)" by (rule distinct_page_slots [OF ps f(2)])
  have av: "paged_avail ps al' = paged_avail ps al \<union> set (page_slots ps pages)"
    using paged_avail_mem [OF ps] page_slots_mem [OF ps] l by auto
  have "paged_avail ps al \<inter> set (page_slots ps pages) = {}" using paged_avail_mem [OF ps] page_slots_mem [OF ps] f(4) by blast
  then have "mset_set (paged_avail ps al') = mset_set (paged_avail ps al) + mset (page_slots ps pages)"
    unfolding av using d by (subst mset_set_Union) (simp_all add: paged_avail_def mset_set_set)
  then show ?thesis using o ok unfolding pool_owns_def by (simp add: add.assoc add.commute add.left_commute)
qed

section \<open>The interface\<close>

locale row_pool =
  fixes fs :: "'al \<Rightarrow> nat list \<Rightarrow> nat \<Rightarrow> 'al res"
    and fss :: "'al \<Rightarrow> (nat list \<times> nat) list \<Rightarrow> 'al res"
    and owns :: "'al \<Rightarrow> nat multiset \<Rightarrow> bool"
    and ps :: nat
  assumes page_pos: "0 < ps"
    and owned_distinct: "owns al (mset (page_slots ps pg) + M) \<Longrightarrow> distinct pg"
    and free_segment_pages: "owns al (mset (page_slots ps pg) + M) \<Longrightarrow> paged_row ps pg kv \<Longrightarrow> e \<le> length kv \<Longrightarrow> a * ps \<le> e \<Longrightarrow>
      \<exists>al'. fs al (py_slice (a * ps) e kv) (a * ps) = Inr al' \<and> owns al' (mset (page_slots ps (take a pg @ drop (ceil_pages ps e) pg)) + M)"
    and free_segments_pages: "owns al (mset (page_slots ps pg) + M) \<Longrightarrow> paged_row ps pg kv \<Longrightarrow> a \<le> b \<Longrightarrow> b \<le> c \<Longrightarrow> c * ps \<le> length kv \<Longrightarrow>
      \<exists>al'. fss al [(py_slice (a * ps) (b * ps) kv, a * ps), (drop (c * ps) kv, c * ps)] = Inr al'
        \<and> owns al' (mset (page_slots ps (take a pg @ py_slice b c pg)) + M)"

sublocale row_pool \<subseteq> seg: segment_pool fs owns ps
proof
  fix al v M assume o: "owns al (mset v + M)" and v: "page_exact ps v"
  obtain pages where p: "v = page_slots ps pages" using v by (auto simp: page_exact_def)
  have row: "paged_row ps pages v" unfolding p by (rule paged_row_page_slots [OF page_pos])
  then have "ceil_pages ps (length v) = length pages" by (simp add: paged_row_def)
  moreover have "py_slice (0 * ps) (length v) v = v" by simp
  ultimately show "\<exists>al'. fs al v 0 = Inr al' \<and> owns al' M"
    using free_segment_pages [OF o [unfolded p] row, of "length v" 0] by (simp add: page_slots_def)
qed

section \<open>The page allocator\<close>

lemma touched_pages:
  assumes "a \<le> b" and "b \<le> length pg"
  shows "(!) pg ` {a..<b} = set (py_slice a b pg)"
proof (intro set_eqI iffI)
  fix x assume "x \<in> (!) pg ` {a..<b}"
  then obtain k where "a \<le> k" "k < b" "x = pg ! k" by auto
  then show "x \<in> set (py_slice a b pg)" using nth_py_slice [of "k - a" b a pg] assms by (auto simp: in_set_conv_nth intro!: exI [of _ "k - a"])
next
  fix x assume "x \<in> set (py_slice a b pg)"
  then obtain i where "i < b - a" "x = py_slice a b pg ! i" using assms by (auto simp: in_set_conv_nth)
  then show "x \<in> (!) pg ` {a..<b}" using assms by (intro image_eqI [of _ _ "a + i"]) (simp_all add: nth_py_slice)
qed

lemma pages_split:
  assumes "a \<le> b" and "b \<le> length pg"
  shows "mset pg = mset (py_slice a b pg) + mset (take a pg @ drop b pg)"
proof -
  have "pg = take a pg @ py_slice a b pg @ drop b pg" using take_py_slice [OF assms(1), of pg] by (metis append.assoc append_take_drop_id)
  then have "mset pg = mset (take a pg @ py_slice a b pg @ drop b pg)" by simp
  then show ?thesis by simp
qed

lemma mset_page_slots: "mset xs = mset ys \<Longrightarrow> mset (page_slots ps xs) = mset (page_slots ps ys)"
  unfolding page_slots_def by (simp add: mset_concat sum_mset_sum_list [symmetric] flip: mset_map) (metis mset_map)

interpretation paged: row_pool paged_free_segment "\<lambda>al. paged_free_segments al None" "pool_owns np (Suc k)" "Suc k"
  for np k :: nat
proof
  let ?ps = "Suc k"
  show pos: "0 < Suc k" by simp
  fix al :: kv_alloc and M and pg kv :: "nat list"
  assume o: "pool_owns np ?ps al (mset (page_slots ?ps pg) + M)"
  note f = pool_facts [OF pos o]
  show "distinct pg" by (rule f(2))
  assume row: "paged_row ?ps pg kv"
  have len: "length pg = ceil_pages ?ps (length kv)" using row by (simp add: paged_row_def)
  have rel: "pool_owns np ?ps al' (mset (page_slots ?ps rest) + M)"
    if "alloc_ok np ?ps al'" "listed al' = listed al \<union> set gone" "mset pg = mset gone + mset rest" for al' gone rest
  proof -
    have "mset (page_slots ?ps pg) = mset (page_slots ?ps (gone @ rest))" using that(3) by (intro mset_page_slots) simp
    then have "pool_owns np ?ps al (mset (page_slots ?ps gone) + (mset (page_slots ?ps rest) + M))" using o by (simp add: page_slots_append add.assoc)
    then show ?thesis using pool_release [OF pos _ that(1,2)] by blast
  qed
  have nl: "pg ! j \<notin> listed al" if "j < length pg" for j using f(4) nth_mem [OF that] by blast
  show "\<exists>al'. paged_free_segment al (py_slice (a * ?ps) e kv) (a * ?ps) = Inr al' \<and> pool_owns np ?ps al' (mset (page_slots ?ps (take a pg @ drop (ceil_pages ?ps e) pg)) + M)"
    if e: "e \<le> length kv" "a * ?ps \<le> e" for a e
  proof -
    have ce: "ceil_pages ?ps e \<le> length pg" unfolding len using e by (intro ceil_pages_mono)
    have ac: "a \<le> ceil_pages ?ps e" using ceil_pages_mono [OF e(2), of ?ps] unfolding ceil_pages_mult [OF pos] .
    have t: "set (touched ?ps (a * ?ps) e) = {a..<ceil_pages ?ps e}" by (rule touched_from [OF pos e(2)])
    obtain al' where al': "paged_free_segment al (py_slice (a * ?ps) e kv) (a * ?ps) = Inr al'" "alloc_ok np ?ps al'"
        "listed al' = listed al \<union> (!) pg ` set (touched ?ps (a * ?ps) e)"
      using free_segment_ok [OF pos row f(2) e(1) f(1,3), of "a * ?ps"] nl ce unfolding t by auto
    then have "listed al' = listed al \<union> set (py_slice a (ceil_pages ?ps e) pg)" unfolding t touched_pages [OF ac ce] by simp
    then show ?thesis using al'(1) rel [OF al'(2) _ pages_split [OF ac ce]] by blast
  qed
  show "\<exists>al'. paged_free_segments al None [(py_slice (a * ?ps) (b * ?ps) kv, a * ?ps), (drop (c * ?ps) kv, c * ?ps)] = Inr al'
        \<and> pool_owns np ?ps al' (mset (page_slots ?ps (take a pg @ py_slice b c pg)) + M)"
    if abc: "a \<le> b" "b \<le> c" "c * ?ps \<le> length kv" for a b c
  proof -
    let ?cuts = "[(a * ?ps, b * ?ps), (c * ?ps, length kv)]"
    have cl: "c \<le> length pg" by (rule row_slice(2) [OF pos row abc(3)])
    have segs: "segs_of kv ?cuts = [(py_slice (a * ?ps) (b * ?ps) kv, a * ?ps), (drop (c * ?ps) kv, c * ?ps)]" by (simp add: segs_of_def py_slice_def)
    have asc: "ascending 0 (length kv) ?cuts" using abc mult_le_mono1 [OF abc(1), of ?ps] mult_le_mono1 [OF abc(2), of ?ps] by simp
    have t1: "set (touched ?ps (a * ?ps) (b * ?ps)) = {a..<b}"
      using touched_from [OF pos mult_le_mono1 [OF abc(1)]] unfolding ceil_pages_mult [OF pos] .
    have t2: "set (touched ?ps (c * ?ps) (length kv)) = {c..<length pg}" unfolding len by (rule touched_from [OF pos abc(3)])
    obtain al' where al': "paged_free_segments al None (segs_of kv ?cuts) = Inr al'" "alloc_ok np ?ps al'" "listed al' = listed al \<union> (!) pg ` touched_all ?ps ?cuts"
      using free_segments_loop [OF pos row f(2,3) asc f(1), of None 0] nl by auto
    have "(!) pg ` touched_all ?ps ?cuts = set (py_slice a b pg @ drop c pg)"
    proof -
      have b: "b \<le> length pg" using abc cl by simp
      have "py_slice c (length pg) pg = drop c pg" by (simp add: py_slice_def)
      then show ?thesis using touched_pages [OF abc(1) b] touched_pages [OF cl order_refl] t1 t2 by (simp add: touched_all_def image_Un)
    qed
    moreover have "mset pg = mset (py_slice a b pg @ drop c pg) + mset (take a pg @ py_slice b c pg)"
    proof -
      have "((take a pg @ py_slice a b pg) @ py_slice b c pg) @ drop c pg = pg" unfolding take_py_slice [OF abc(1)] take_py_slice [OF abc(2)] by simp
      from arg_cong [OF this, of mset] show ?thesis by (simp add: add_ac)
    qed
    ultimately have "pool_owns np ?ps al' (mset (page_slots ?ps (take a pg @ py_slice b c pg)) + M)"
      using al'(3) by (intro rel [OF al'(2), of "py_slice a b pg @ drop c pg"]) (simp_all only:)
    then show ?thesis using al'(1) unfolding segs by (intro exI [of _ al'] conjI)
  qed
qed


section \<open>The token allocator\<close>

definition token_free_segment :: "kv_alloc \<Rightarrow> nat list \<Rightarrow> nat \<Rightarrow> kv_alloc res" where
  "token_free_segment s free_index start_pos = token_free s free_index"

text \<open>\<open>free_segments\<close> of the base class over any \<open>free_segment\<close>.\<close>

fun free_segments :: "('al \<Rightarrow> nat list \<Rightarrow> nat \<Rightarrow> 'al res) \<Rightarrow> nat \<Rightarrow> 'al \<Rightarrow> nat option \<Rightarrow> (nat list \<times> nat) list \<Rightarrow> 'al res" where
  "free_segments fs ps s prev_end [] = Inr s"
| "free_segments fs ps s prev_end ((free_index, start_pos) # segments) =
     (let n = length free_index in
      if n = 0 then free_segments fs ps s prev_end segments
      else
        let seg_end = start_pos + n;
            boundary = (start_pos div ps + 1) * ps;
            shared = (case prev_end of None \<Rightarrow> False | Some e \<Rightarrow> start_pos div ps = (e - 1) div ps)
        in bindE (if shared then fs s (drop (boundary - start_pos) free_index) boundary
                  else fs s free_index start_pos) (\<lambda>s'.
           free_segments fs ps s' (Some seg_end) segments))"

lemma page_slots_1 [simp]: "page_slots (Suc 0) pages = pages"
  by (induction pages) (simp_all add: page_slots_def)

lemma token_free_ok:
  assumes o: "pool_owns np 1 al (mset v + M)"
  shows "\<exists>al'. token_free al v = Inr al' \<and> pool_owns np 1 al' M"
proof -
  have o': "pool_owns np 1 al (mset (page_slots 1 v) + M)" using o by simp
  note f = pool_facts [OF zero_less_one o']
  obtain al' where "token_free al v = Inr al'" "alloc_ok np 1 al'" "listed al' = listed al \<union> set v"
    using tok.free_returns [OF f(1) TrueI f(2,3,4)] by blast
  then show ?thesis using pool_release [OF zero_less_one o'] by blast
qed

lemma paged_row_1: "paged_row 1 pg kv \<longleftrightarrow> pg = kv"
  by (auto simp: paged_row_def ceil_pages_def intro: nth_equalityI)

interpretation token: row_pool token_free_segment "\<lambda>al. free_segments token_free_segment 1 al None" "pool_owns np 1" 1
  for np :: nat
proof
  fix al :: kv_alloc and M and pg kv :: "nat list"
  assume o: "pool_owns np 1 al (mset (page_slots 1 pg) + M)"
  show "distinct pg" by (rule pool_facts(2) [OF zero_less_one o])
  assume row: "paged_row 1 pg kv"
  then have kv: "kv = pg" unfolding paged_row_1 by (rule sym)
  have split: "pool_owns np 1 al (mset gone + (mset (page_slots 1 rest) + M))" if "mset pg = mset gone + mset rest" for gone rest
    using o that by (simp add: add.assoc)
  show "\<exists>al'. token_free_segment al (py_slice (a * 1) e kv) (a * 1) = Inr al' \<and> pool_owns np 1 al' (mset (page_slots 1 (take a pg @ drop (ceil_pages 1 e) pg)) + M)"
    if e: "e \<le> length kv" "a * 1 \<le> e" for a e
  proof -
    have m: "mset pg = mset (py_slice a e pg) + mset (take a pg @ drop (ceil_pages 1 e) pg)" using pages_split [of a e pg] e kv by (simp add: ceil_pages_def)
    then show ?thesis using token_free_ok [OF split [OF m]] by (simp add: token_free_segment_def kv)
  qed
  show "\<exists>al'. free_segments token_free_segment 1 al None [(py_slice (a * 1) (b * 1) kv, a * 1), (drop (c * 1) kv, c * 1)] = Inr al'
        \<and> pool_owns np 1 al' (mset (page_slots 1 (take a pg @ py_slice b c pg)) + M)"
    if abc: "a \<le> b" "b \<le> c" "c * 1 \<le> length kv" for a b c
  proof -
    let ?g = "py_slice a b pg" and ?h = "drop c pg" and ?r = "take a pg @ py_slice b c pg"
    have "((take a pg @ ?g) @ py_slice b c pg) @ ?h = pg" unfolding take_py_slice [OF abc(1)] take_py_slice [OF abc(2)] by simp
    from arg_cong [OF this, of mset] have m: "mset pg = mset ?g + mset (?h @ ?r)" by (simp add: add_ac)
    obtain al1 where a1: "token_free al ?g = Inr al1" "pool_owns np 1 al1 (mset ?h + (mset ?r + M))"
      using token_free_ok [OF split [OF m]] by (auto simp: add.assoc)
    obtain al2 where a2: "token_free al1 ?h = Inr al2" "pool_owns np 1 al2 (mset ?r + M)" using token_free_ok [OF a1(2)] by blast
    have "token_free s [] = Inr s" for s by (simp add: token_free_def)
    moreover have "length ?g = b - a" using abc kv by simp
    ultimately have "free_segments token_free_segment 1 al None [(?g, a), (?h, c)] = Inr al2"
      using a1(1) a2(1) abc(1,2) by (auto simp: token_free_segment_def Let_def simp del: length_py_slice)
    then show ?thesis using a2(2) by (simp add: kv)
  qed
qed simp


section \<open>Results\<close>

text \<open>
  (C16) \<open>evict\<close> returns within its fuel for every strategy: it deletes unlocked leaves, each time one
  that the strategy puts first, stops as soon as enough slots are free, and falls short only if
  nothing evictable is left. Locked paths stay, no lookup finds more than before, and exactly the
  slots of the deleted nodes go from the cache to the free lists.
\<close>

theorem evict_frees:
  assumes "cache_ok L s" and "tree_paged s" and "\<not> rc_disable s" and "pool_owns np (rc_page_size s) al (tree_slots s + R)"
  shows "\<exists>xs n s' al'. evict strat paged_free_segment s al num_tokens = Some (Inr (n, s', al')) \<and> evicts strat s xs s'
     \<and> n = sum_list (map (\<lambda>x. length (tn_value (rc_nodes s x))) xs)
     \<and> (xs \<noteq> [] \<longrightarrow> sum_list (map (\<lambda>x. length (tn_value (rc_nodes s x))) (butlast xs)) < num_tokens)
     \<and> min (int num_tokens) (rc_evictable_size s) \<le> int n \<and> cache_ok L s' \<and> tree_paged s' \<and> shrinks s n s'
     \<and> pool_owns np (rc_page_size s) al' (tree_slots s' + R)"
proof -
  have "\<exists>k. rc_page_size s = Suc k" using assms(1) by (simp add: cache_ok_def tree_ok_def gr0_conv_Suc)
  then obtain k where k: "rc_page_size s = Suc k" ..
  obtain xs s' al' n where e: "evict strat paged_free_segment s al num_tokens = Some (Inr (n, s', al'))" "evicts strat s xs s'" "n = sum_list (map (\<lambda>x. length (tn_value (rc_nodes s x))) xs)"
      "cache_ok L s'" "tree_paged s'" "shrinks s n s'" "pool_owns np (Suc k) al' (tree_slots s' + R)" "num_tokens \<le> n \<or> rc_evictable_size s' = 0"
      "xs \<noteq> [] \<longrightarrow> sum_list (map (\<lambda>x. length (tn_value (rc_nodes s x))) (butlast xs)) < num_tokens"
    using paged.seg.evict_ok [OF assms(1,2) k assms(4) [unfolded k] assms(3), of strat num_tokens] by blast
  have "rc_evictable_size s = rc_evictable_size s' + int n" using e(6) by (simp add: shrinks_def)
  then have "min (int num_tokens) (rc_evictable_size s) \<le> int n" using e(8) by auto
  then show ?thesis using e unfolding k by blast
qed

text \<open>A pool of two pages of two slots, the first one with the cache.\<close>

definition evict_alloc :: kv_alloc where
  "evict_alloc = \<lparr> al_size = 4, al_page_size = 2, al_need_sort = False, al_debug = True, free_pages = [2], release_pages = [], free_group = None, free_page_reps_group = [] \<rparr>"

lemma evict_alloc_owns: "pool_owns 2 2 evict_alloc {#2, 3#}"
proof -
  have ps: "page_slots 2 [2] = [4, 5]" "page_slots 2 [1..<2 + 1] = [2, 3, 4, 5]" by (simp_all add: page_slots_def upt_rec)
  have "paged_avail 2 evict_alloc = {4, 5}" using ps(1) by (auto simp: paged_avail_def evict_alloc_def)
  moreover have "alloc_ok 2 2 evict_alloc" by (simp add: alloc_ok_def evict_alloc_def)
  ultimately show ?thesis unfolding pool_owns_def ps(2) by simp
qed

theorem evict_frees_witness:
  "\<exists>m node s xs n s' al'. radix_insert (empty_cache 2) (RadixKey [1, 2, 3] None False None None) (Some [2, 3]) 0 False = Some (Inr (m, node, s))
     \<and> evict LRU paged_free_segment s evict_alloc 1 = Some (Inr (n, s', al')) \<and> 0 < n \<and> evicts LRU s xs s' \<and> cache_ok {#} s'"
proof -
  let ?s = "empty_cache 2" and ?k = "RadixKey [1, 2, 3] None False None None"
  have len: "rk_len (lookup_key ?s ?k) = 2" using empty_cache_ok(3,4) [of 2]
    by (simp add: lookup_key_def maybe_to_bigram_view_def page_aligned_len) (simp add: rk_len_raw)
  then have v: "rk_len (lookup_key ?s ?k) \<le> length [2, 3 :: nat]" by simp
  have ok: "cache_ok {#} ?s" "\<not> rc_disable ?s" using empty_cache_ok [of 2] by simp_all
  obtain m vs node s where i: "radix_insert ?s ?k (Some [2, 3]) 0 False = Some (Inr (m, Some node, s))"
      "inserted ?s (rk_ns ?k) (rk_iter (lookup_key ?s ?k)) (take (rk_len (lookup_key ?s ?k)) [2, 3]) m vs node s" "cache_ok {#} s"
    by (rule radix_insert_ok [OF ok(1) key_fits_plain ok(2) v, of 0 False])
  have m: "m = 0" using i(2) empty_cache_ok(5) [of 2] by (auto simp: inserted_def)
  have "[2, 3] = page_slots 2 [1]" by (simp add: page_slots_def upt_rec)
  then have "page_exact 2 [2, 3]" unfolding page_exact_def by blast
  then have s: "tree_slots s = {#2, 3#}" "tree_paged s" "\<not> rc_disable s" "rc_page_size s = 2" "rc_evictable_size s = rc_evictable_size ?s + 2"
    using i(2) m len ok(2) empty_cache_slots by (simp_all add: inserted_def)
  have "rc_evictable_size ?s = 0" by (simp add: empty_cache_def radix_reset_def new_tree_node_def monotonic_def Let_def)
  then have size: "rc_evictable_size s = 2" using s(5) by simp
  have own: "pool_owns 2 (rc_page_size s) evict_alloc (tree_slots s + {#})" using evict_alloc_owns s by simp
  obtain xs n s' al' where e: "evict LRU paged_free_segment s evict_alloc 1 = Some (Inr (n, s', al'))" "evicts LRU s xs s'" "min (int 1) (rc_evictable_size s) \<le> int n"
      "cache_ok {#} s'" "shrinks s n s'" "pool_owns 2 (rc_page_size s) al' (tree_slots s' + {#})" "tree_paged s'"
    using evict_frees [OF i(3) s(2,3) own, of LRU 1] by blast
  have "0 < n" using e(3) size by simp
  then show ?thesis using i(1) e by blast
qed

end
