(* ===== verification/Radix_Requests.thy ===== *)
theory Radix_Requests
  imports Radix_Pool
begin

text \<open>
  Requests over the prefix cache (\<open>cache_finished_req\<close>, \<open>cache_unfinished_req\<close> of
  \<^verbatim>\<open>radix_cache.py\<close>): a request's row is inserted, what the cache holds already is freed, and the
  lock moves on. Slots are owned by the cache, by a request or by the free lists, and every
  operation keeps that.
\<close>

section \<open>Operations\<close>

record req =
  rq_origin_input_ids :: "int list"
  rq_output_ids :: "int list"
  rq_full_untruncated_fill_ids :: "int list"
  rq_extend_end :: nat
  rq_extra_key :: "string option"
  rq_cache_salt :: "string option"
  rq_priority :: "int option"
  rq_pool_idx :: nat
  rq_cache_protected_len :: nat
  rq_prefix_indices :: "nat list"
  rq_last_node :: "nat option"

definition get_fill_ids :: "req \<Rightarrow> int list" where
  "get_fill_ids rq = take (rq_extend_end rq) (rq_full_untruncated_fill_ids rq)"

text \<open>Sequencing of operations that take fuel and may raise.\<close>

fun bindO :: "'a res option \<Rightarrow> ('a \<Rightarrow> 'b res option) \<Rightarrow> 'b res option" where
  "bindO None f = None"
| "bindO (Some (Inl e)) f = Some (Inl e)"
| "bindO (Some (Inr x)) f = f x"

definition priority_of :: "req \<Rightarrow> int" where
  "priority_of rq = (case rq_priority rq of None \<Rightarrow> 0 | Some p \<Rightarrow> p)"

definition request_key :: "radix_cache \<Rightarrow> req \<Rightarrow> int list \<Rightarrow> radix_key" where
  "request_key s rq token_ids =
     page_aligned (RadixKey token_ids (rq_extra_key rq) (rc_is_eagle s) None (rq_cache_salt rq)) (rc_page_size s)"

text \<open>
  \<open>fs\<close> and \<open>fss\<close> are \<open>free_segment\<close> and \<open>free_segments\<close> of the allocator, \<open>r2t\<close> the rows of
  \<open>req_to_token_pool\<close>.
\<close>

definition cache_finished_req ::
  "('al \<Rightarrow> nat list \<Rightarrow> nat \<Rightarrow> 'al res) \<Rightarrow> ('al \<Rightarrow> (nat list \<times> nat) list \<Rightarrow> 'al res) \<Rightarrow> bool
   \<Rightarrow> radix_cache \<Rightarrow> 'al \<Rightarrow> (nat \<Rightarrow> nat list) \<Rightarrow> req \<Rightarrow> bool \<Rightarrow> nat \<Rightarrow> (radix_cache \<times> 'al) res option" where
  "cache_finished_req fs fss disable_finished_insert s al r2t rq is_insert0 kv_len_to_handle =
     (let is_insert = (if disable_finished_insert then False else is_insert0);
          row = r2t (rq_pool_idx rq); prot = rq_cache_protected_len rq in
      if rc_disable s
      then bindO (Some (fs al (py_slice prot kv_len_to_handle row) prot)) (\<lambda>al'. Some (Inr (s, al')))
      else
        let token_ids = take kv_len_to_handle (rq_origin_input_ids rq @ rq_output_ids rq);
            kv_indices = take (length token_ids) row;
            key = request_key s rq token_ids; key_len = rk_len key;
            vals = take key_len kv_indices
        in bindO (if is_insert
                  then bindO (radix_insert s key (Some vals) (priority_of rq) False) (\<lambda>(prefix_len, _, s'). Some (Inr (prefix_len, s')))
                  else Some (Inr (key_len, s))) (\<lambda>(freed_end, s1).
           bindO (Some (fss al [(py_slice prot freed_end kv_indices, prot), (drop key_len kv_indices, key_len)])) (\<lambda>al1.
           case rq_last_node rq of
             None \<Rightarrow> Some (Inr (s1, al1))
           | Some n \<Rightarrow> bindO (dec_lock_ref s1 n) (\<lambda>(_, s2). Some (Inr (s2, al1))))))"

definition cache_unfinished_req ::
  "('al \<Rightarrow> nat list \<Rightarrow> nat \<Rightarrow> 'al res) \<Rightarrow> radix_cache \<Rightarrow> 'al \<Rightarrow> (nat \<Rightarrow> nat list) \<Rightarrow> req \<Rightarrow> bool
   \<Rightarrow> (radix_cache \<times> 'al \<times> (nat \<Rightarrow> nat list) \<times> req) res option" where
  "cache_unfinished_req fs s al r2t rq chunked =
     (if rc_disable s then Some (Inr (s, al, r2t, rq))
      else
        let token_ids = get_fill_ids rq; row = r2t (rq_pool_idx rq); prot = rq_cache_protected_len rq;
            kv_indices = take (length token_ids) row;
            key = request_key s rq token_ids;
            vals = take (rk_len key) kv_indices
        in bindO (radix_insert s key (Some vals) (priority_of rq) chunked) (\<lambda>(new_prefix_len, _, s1).
           bindO (Some (fs al (py_slice prot new_prefix_len kv_indices) prot)) (\<lambda>al1.
           bindO (match_prefix s1 key) (\<lambda>(new_indices, new_last_node, s2).
           bindO (Some (check (length new_indices = rk_len key) AssertionError)) (\<lambda>_.
           bindO (Some (slice_assign prot (length new_indices) (drop prot new_indices) row)) (\<lambda>row'.
           bindO (case rq_last_node rq of None \<Rightarrow> Some (Inl AttributeError) | Some n \<Rightarrow> dec_lock_ref s2 n) (\<lambda>(_, s3).
           bindO (inc_lock_ref s3 new_last_node) (\<lambda>(_, s4).
           Some (Inr (s4, al1, r2t(rq_pool_idx rq := row'),
             rq\<lparr> rq_cache_protected_len := length new_indices,
                 rq_prefix_indices := (if length new_indices < length kv_indices then new_indices @ drop (length new_indices) kv_indices else new_indices),
                 rq_last_node := Some new_last_node \<rparr>))))))))))"

section \<open>Keys of requests\<close>

lemma page_aligned_idem:
  assumes "0 < ps"
  shows "rk_iter (page_aligned (page_aligned k ps) ps) = rk_iter (page_aligned k ps)"
  using assms by (simp add: page_aligned_iter page_aligned_len)

lemma request_key_facts:
  assumes "tree_ok s"
  shows "key_fits s (request_key s rq toks)" "rk_iter (lookup_key s (request_key s rq toks)) = rk_iter (request_key s rq toks)"
    "rk_len (lookup_key s (request_key s rq toks)) = rk_len (request_key s rq toks)" "rc_page_size s dvd rk_len (request_key s rq toks)"
    "rk_len (request_key s rq toks) \<le> length toks"
proof -
  have ps: "0 < rc_page_size s" using assms by (simp add: tree_ok_def)
  let ?k = "RadixKey toks (rq_extra_key rq) (rc_is_eagle s) None (rq_cache_salt rq)"
  have k: "rk_is_bigram (request_key s rq toks) = rc_is_eagle s" "rk_ok (request_key s rq toks)" by (simp_all add: request_key_def)
  then show "key_fits s (request_key s rq toks)" by (simp add: key_fits_def)
  have lk: "lookup_key s (request_key s rq toks) = page_aligned (request_key s rq toks) (rc_page_size s)"
    using k(1) by (simp add: lookup_key_def maybe_to_bigram_view_def)
  show it: "rk_iter (lookup_key s (request_key s rq toks)) = rk_iter (request_key s rq toks)"
    unfolding lk by (simp add: request_key_def page_aligned_idem [OF ps])
  show "rk_len (lookup_key s (request_key s rq toks)) = rk_len (request_key s rq toks)"
    using arg_cong [OF it, of length] by simp
  show "rc_page_size s dvd rk_len (request_key s rq toks)" by (simp add: request_key_def page_aligned_len [OF ps])
  have "rk_len ?k div rc_page_size s * rc_page_size s \<le> rk_len ?k" by simp
  also have "rk_len ?k \<le> length toks" by (simp add: rk_len_raw)
  finally show "rk_len (request_key s rq toks) \<le> length toks" by (simp add: request_key_def page_aligned_len [OF ps])
qed

section \<open>Slots of paths\<close>

lemma path_slots:
  assumes ok: "tree_ok s" and "rpath s (rc_root s) n us vs"
  shows "mset vs = (\<Sum>m \<in> anc s n - {rc_root s}. mset (tn_value (rc_nodes s m)))"
  using assms(2)
proof (induction rule: rpath.induct)
  case rpath_refl
  then show ?case using anc_root [OF ok] by simp
next
  case (rpath_step m us vs c)
  have m: "reach s m" using rpath_reach [OF rpath_step(1) reach_root] .
  have "anc s c - {rc_root s} = insert c (anc s m - {rc_root s})" using anc_step [OF ok m rpath_step(2)] edge_facts(5) [OF ok m rpath_step(2)] by auto
  moreover have "c \<notin> anc s m - {rc_root s}" "finite (anc s m - {rc_root s})" using anc_acyclic [OF ok m rpath_step(2)] anc_card(1) [OF ok m] by auto
  ultimately show ?case using rpath_step.IH by (simp add: add.commute)
qed

lemma path_slots_sub:
  assumes ok: "tree_ok s" and p: "rpath s (rc_root s) n us vs"
  shows "\<exists>T. tree_slots s = mset vs + T"
proof -
  have r: "reach s n" using rpath_reach [OF p reach_root] .
  have sub: "anc s n - {rc_root s} \<subseteq> inner s" using anc_reach [OF _ r] by (auto simp: inner_def)
  have "tree_slots s = (\<Sum>m \<in> inner s - (anc s n - {rc_root s}). mset (tn_value (rc_nodes s m))) + mset vs"
    unfolding tree_slots_def path_slots [OF assms] by (rule sum.subset_diff [OF sub finite_inner [OF ok]])
  then show ?thesis by (metis add.commute)
qed

lemma path_exact:
  assumes ok: "tree_ok s" and pg: "tree_paged s" and "rpath s (rc_root s) n us vs"
  shows "page_exact (rc_page_size s) vs"
  using assms(3)
proof (induction rule: rpath.induct)
  case rpath_refl
  have "[] = page_slots (rc_page_size s) []" by (simp add: page_slots_def)
  then show ?case unfolding page_exact_def by blast
next
  case (rpath_step m us vs c)
  have m: "reach s m" using rpath_reach [OF rpath_step(1) reach_root] .
  have "c \<in> inner s" using reach_step [OF m rpath_step(2)] edge_facts(5) [OF ok m rpath_step(2)] by (simp add: inner_def)
  then obtain p where "tn_value (rc_nodes s c) = page_slots (rc_page_size s) p" using pg by (auto simp: tree_paged_def page_exact_def)
  moreover obtain q where "vs = page_slots (rc_page_size s) q" using rpath_step.IH by (auto simp: page_exact_def)
  ultimately have "vs @ tn_value (rc_nodes s c) = page_slots (rc_page_size s) (q @ p)" by (simp add: page_slots_append)
  then show ?case unfolding page_exact_def by blast
qed


section \<open>Rows of requests\<close>

text \<open>
  A request's row \<open>kv\<close> lies in the pages \<open>pg\<close>; the first \<open>prot\<close> slots are those of the path to
  its node in the cache, the pages behind them are its own.
\<close>

definition row_ok :: "radix_cache \<Rightarrow> radix_key \<Rightarrow> nat \<Rightarrow> nat \<Rightarrow> nat list \<Rightarrow> nat list \<Rightarrow> bool" where
  "row_ok s key ln prot pg kv \<longleftrightarrow> paged_row (rc_page_size s) pg kv \<and> rc_page_size s dvd prot \<and> prot \<le> rk_len key \<and> rk_len key \<le> length kv
     \<and> rpath s (rc_root s) ln (take prot (rk_iter key)) (take prot kv) \<and> (ln = rc_root s \<or> rk_ns (tn_key (rc_nodes s ln)) = rk_ns key)"

definition own_slots :: "nat \<Rightarrow> nat \<Rightarrow> nat list \<Rightarrow> nat multiset" where
  "own_slots ps prot pg = mset (page_slots ps (drop (prot div ps) pg))"

lemma insert_row:
  assumes ok: "cache_ok L s" and pg: "tree_paged s" and d: "\<not> rc_disable s" and row: "row_ok s key ln prot pg kv" and key: "key = request_key s rq toks"
  obtains m vs node s' where "radix_insert s key (Some (take (rk_len key) kv)) pr ch = Some (Inr (m, Some node, s'))"
    "inserted s (rk_ns key) (rk_iter key) (take (rk_len key) kv) m vs node s'" "cache_ok L s'" "tree_paged s'" "prot \<le> m" "m \<le> rk_len key" "rc_page_size s dvd m"
proof -
  let ?V = "take (rk_len key) kv" and ?ps = "rc_page_size s"
  have t: "tree_ok s" and ps: "0 < ?ps" using ok by (simp_all add: cache_ok_def tree_ok_def)
  note k = request_key_facts [OF t, of rq toks, folded key]
  have len: "rk_len (lookup_key s key) \<le> length ?V" using row k(3) by (simp add: row_ok_def)
  obtain m vs node s' where i: "radix_insert s key (Some ?V) pr ch = Some (Inr (m, Some node, s'))"
      "inserted s (rk_ns key) (rk_iter key) ?V m vs node s'" "cache_ok L s'"
    using radix_insert_ok [OF ok k(1) d len, of pr ch] unfolding k(2,3) by (metis take_all order_refl length_take min.cobounded1 take_take min.idem)
  have lh: "longest_held s (rk_ns key) (rk_iter key) m" using i(2) by (simp add: inserted_def)
  then have m: "m \<le> rk_len key" "?ps dvd m" by (simp_all add: longest_held_def)
  have prot: "prot \<le> m"
  proof (cases "prot = 0")
    case False
    let ?u = "take prot (rk_iter key)"
    have r: "rpath s (rc_root s) ln ?u (take prot kv)" and pl: "prot \<le> rk_len key" "?ps dvd prot" "rk_len key \<le> length kv"
      and ns: "ln = rc_root s \<or> rk_ns (tn_key (rc_nodes s ln)) = rk_ns key" using row by (simp_all add: row_ok_def)
    have "ln \<noteq> rc_root s"
    proof
      assume "ln = rc_root s"
      then have "?u = []" using root_path_unique [OF t r] rpath_refl [of s "rc_root s"] by blast
      then show False using False pl(1) by (simp add: take_eq_Nil flip: length_0_conv)
    qed
    then have "holds s (rk_ns key) ?u (take prot kv)" using holdsI [OF _ r, of "rk_ns key" ?u] ns pl by simp
    then have "prot div ?ps * ?ps \<le> m" using lh pl(1) unfolding longest_held_def by auto
    then show ?thesis using pl(2) by simp
  qed simp
  obtain b c where bc: "m = b * ?ps" "rk_len key = c * ?ps" using m(2) k(4) by (metis dvdE mult.commute)
  have "drop m ?V = py_slice m (rk_len key) kv" by (simp add: py_slice_def drop_take)
  moreover have "paged_row ?ps pg kv" "c * ?ps \<le> length kv" using row bc by (simp_all add: row_ok_def)
  ultimately have "drop m ?V = page_slots ?ps (py_slice b c pg)" using row_slice(1) [OF ps] bc by simp
  then have "page_exact ?ps (drop m ?V)" unfolding page_exact_def by blast
  then have "tree_paged s'" using i(2) pg by (simp add: inserted_def)
  then show ?thesis by (rule that [OF i _ prot m])
qed

text \<open>The slots of a row: those of the path, and the pages from there on.\<close>

lemma row_slots:
  assumes ok: "tree_ok s" and row: "row_ok s key ln prot pg kv" and b: "prot \<le> m" "m \<le> rk_len key" "rc_page_size s dvd m" "rc_page_size s dvd rk_len key"
  obtains a b c T where "prot = a * rc_page_size s" "m = b * rc_page_size s" "rk_len key = c * rc_page_size s" "a \<le> b" "b \<le> c" "c * rc_page_size s \<le> length kv" "c \<le> length pg"
    "tree_slots s = mset (page_slots (rc_page_size s) (take a pg)) + T" "own_slots (rc_page_size s) prot pg = mset (page_slots (rc_page_size s) (drop a pg))"
    "drop m (take (rk_len key) kv) = page_slots (rc_page_size s) (py_slice b c pg)" "take prot kv = page_slots (rc_page_size s) (take a pg)"
proof -
  let ?ps = "rc_page_size s"
  have ps: "0 < ?ps" using ok by (simp add: tree_ok_def)
  have pr: "paged_row ?ps pg kv" "?ps dvd prot" "rk_len key \<le> length kv" "rpath s (rc_root s) ln (take prot (rk_iter key)) (take prot kv)"
    using row by (simp_all add: row_ok_def)
  obtain a b' c where abc: "prot = a * ?ps" "m = b' * ?ps" "rk_len key = c * ?ps" using pr(2) b by (metis dvdE mult.commute)
  have le: "a \<le> b'" "b' \<le> c" using b(1,2) ps unfolding abc by simp_all
  have cl: "c * ?ps \<le> length kv" using pr(3) abc by simp
  note sl = row_slice [OF ps pr(1)]
  have "a * ?ps \<le> length kv" using cl b(1,2) unfolding abc by linarith
  then have tk: "take prot kv = page_slots ?ps (take a pg)" using sl(1) [of a 0] abc by simp
  obtain T where T: "tree_slots s = mset (take prot kv) + T" using path_slots_sub [OF ok pr(4)] by blast
  have "drop m (take (rk_len key) kv) = py_slice m (rk_len key) kv" by (simp add: py_slice_def drop_take)
  then have v: "drop m (take (rk_len key) kv) = page_slots ?ps (py_slice b' c pg)" using sl(1) [OF cl] abc by simp
  have own: "own_slots ?ps prot pg = mset (page_slots ?ps (drop a pg))" using ps by (simp add: own_slots_def abc)
  show ?thesis by (rule that [OF abc le cl sl(2) [OF cl] T [unfolded tk] own v tk])
qed

context row_pool
begin

lemma finished_ok:
  assumes ok: "cache_ok L s" and pg: "tree_paged s" and psz: "rc_page_size s = ps" and d: "\<not> rc_disable s"
    and o: "owns al (tree_slots s + (own_slots ps (rq_cache_protected_len rq) pages + R))"
    and toks: "toks = take n (rq_origin_input_ids rq @ rq_output_ids rq)" and kv: "kv = take (length toks) (r2t (rq_pool_idx rq))"
    and row: "row_ok s (request_key s rq toks) ln (rq_cache_protected_len rq) pages kv" and ln: "rq_last_node rq = Some ln" "ln \<in># L"
  shows "\<exists>s' al'. cache_finished_req fs fss dfi s al r2t rq ins n = Some (Inr (s', al'))
     \<and> cache_ok (L - {#ln#}) s' \<and> tree_paged s' \<and> owns al' (tree_slots s' + R)
     \<and> (\<forall>n us vs. rpath s (rc_root s) n us vs \<longrightarrow> rpath s' (rc_root s') n us vs)
     \<and> (ins \<and> \<not> dfi \<longrightarrow> (\<exists>vs. rk_len (request_key s rq toks) = 0 \<or> holds s' (rk_ns (request_key s rq toks)) (rk_iter (request_key s rq toks)) vs))"
proof -
  let ?key = "request_key s rq toks" and ?prot = "rq_cache_protected_len rq"
  have t: "tree_ok s" using ok by (simp add: cache_ok_def)
  have dv: "rc_page_size s dvd rk_len ?key" by (rule request_key_facts(4) [OF t])
  define ins' where "ins' = (if dfi then False else ins)"
  have "\<exists>e s1 al1. (if ins' then bindO (radix_insert s ?key (Some (take (rk_len ?key) kv)) (priority_of rq) False) (\<lambda>(prefix_len, _, s'). Some (Inr (prefix_len, s')))
        else Some (Inr (rk_len ?key, s))) = Some (Inr (e, s1))
      \<and> fss al [(py_slice ?prot e kv, ?prot), (drop (rk_len ?key) kv, rk_len ?key)] = Inr al1
      \<and> cache_ok L s1 \<and> tree_paged s1 \<and> owns al1 (tree_slots s1 + R) \<and> rc_disable s1 = rc_disable s \<and> rc_root s1 = rc_root s
      \<and> (\<forall>n us vs. rpath s (rc_root s) n us vs \<longrightarrow> rpath s1 (rc_root s1) n us vs)
      \<and> (ins' \<longrightarrow> (\<exists>vs. rk_len ?key = 0 \<or> holds s1 (rk_ns ?key) (rk_iter ?key) vs))"
  proof (cases ins')
    case True
    obtain m vs node s1 where i: "radix_insert s ?key (Some (take (rk_len ?key) kv)) (priority_of rq) False = Some (Inr (m, Some node, s1))"
      "inserted s (rk_ns ?key) (rk_iter ?key) (take (rk_len ?key) kv) m vs node s1" "cache_ok L s1" "tree_paged s1" "?prot \<le> m" "m \<le> rk_len ?key" "rc_page_size s dvd m"
      by (rule insert_row [OF ok pg d row refl])
    obtain a b c T where r: "?prot = a * ps" "m = b * ps" "rk_len ?key = c * ps" "a \<le> b" "b \<le> c" "c * ps \<le> length kv" "c \<le> length pages"
        "tree_slots s = mset (page_slots ps (take a pages)) + T" "own_slots ps ?prot pages = mset (page_slots ps (drop a pages))"
        "drop m (take (rk_len ?key) kv) = page_slots ps (py_slice b c pages)"
      using row_slots [OF t row i(5-7) dv] unfolding psz by metis
    have pr: "paged_row ps pages kv" using row psz by (simp add: row_ok_def)
    have "mset (page_slots ps pages) = mset (page_slots ps (take a pages)) + mset (page_slots ps (drop a pages))"
      unfolding mset_append [symmetric] page_slots_append [symmetric] by simp
    then have "owns al (mset (page_slots ps pages) + (T + R))" using o unfolding r(8,9) by (simp add: add_ac)
    then obtain al1 where al1: "fss al [(py_slice (a * ps) (b * ps) kv, a * ps), (drop (c * ps) kv, c * ps)] = Inr al1"
        "owns al1 (mset (page_slots ps (take a pages @ py_slice b c pages)) + (T + R))"
      using free_segments_pages [OF _ pr r(4,5,6)] by blast
    have "tree_slots s1 = tree_slots s + mset (page_slots ps (py_slice b c pages))" using i(2) r(10) by (simp add: inserted_def)
    then have "owns al1 (tree_slots s1 + R)" using al1(2) unfolding r(8) by (simp add: page_slots_append add_ac)
    moreover have "rk_len ?key = 0 \<or> holds s1 (rk_ns ?key) (rk_iter ?key) (take (rk_len ?key) (vs @ drop m (take (rk_len ?key) kv)))"
      using i(2) unfolding inserted_def by (metis length_0_conv length_rk_iter prefix_order.order_refl)
    moreover have "\<forall>n us vs. rpath s (rc_root s) n us vs \<longrightarrow> rpath s1 (rc_root s1) n us vs" "rc_disable s1 = rc_disable s" "rc_root s1 = rc_root s"
      using i(2) by (simp_all add: inserted_def)
    ultimately show ?thesis using True i(1,3,4) al1(1) r(1,2,3) by (intro exI [of _ m] exI [of _ s1] exI [of _ al1]) auto
  next
    case False
    have pk: "?prot \<le> rk_len ?key" using row by (simp add: row_ok_def)
    obtain a b c T where r: "?prot = a * ps" "rk_len ?key = b * ps" "rk_len ?key = c * ps" "a \<le> b" "b \<le> c" "c * ps \<le> length kv" "c \<le> length pages"
        "tree_slots s = mset (page_slots ps (take a pages)) + T" "own_slots ps ?prot pages = mset (page_slots ps (drop a pages))"
      using row_slots [OF t row pk order_refl dv dv] unfolding psz by metis
    have pr: "paged_row ps pages kv" using row psz by (simp add: row_ok_def)
    have "b = c" using r(2,3) page_pos by simp
    have "mset (page_slots ps pages) = mset (page_slots ps (take a pages)) + mset (page_slots ps (drop a pages))"
      unfolding mset_append [symmetric] page_slots_append [symmetric] by simp
    then have "owns al (mset (page_slots ps pages) + (T + R))" using o unfolding r(8,9) by (simp add: add_ac)
    then obtain al1 where al1: "fss al [(py_slice (a * ps) (b * ps) kv, a * ps), (drop (c * ps) kv, c * ps)] = Inr al1"
        "owns al1 (mset (page_slots ps (take a pages @ py_slice b c pages)) + (T + R))"
      using free_segments_pages [OF _ pr r(4,5,6)] by blast
    then have "owns al1 (tree_slots s + R)" unfolding r(8) by (simp add: \<open>b = c\<close> add_ac)
    then show ?thesis using False ok pg al1(1) r(1,2,3) by (intro exI [of _ "rk_len ?key"] exI [of _ s] exI [of _ al1]) auto
  qed
  then obtain e s1 al1 where 1: "(if ins' then bindO (radix_insert s ?key (Some (take (rk_len ?key) kv)) (priority_of rq) False) (\<lambda>(prefix_len, _, s'). Some (Inr (prefix_len, s')))
        else Some (Inr (rk_len ?key, s))) = Some (Inr (e, s1))" "fss al [(py_slice ?prot e kv, ?prot), (drop (rk_len ?key) kv, rk_len ?key)] = Inr al1"
      "cache_ok L s1" "tree_paged s1" "owns al1 (tree_slots s1 + R)" "rc_disable s1 = rc_disable s" "rc_root s1 = rc_root s"
      "\<forall>n us vs. rpath s (rc_root s) n us vs \<longrightarrow> rpath s1 (rc_root s1) n us vs" "ins' \<longrightarrow> (\<exists>vs. rk_len ?key = 0 \<or> holds s1 (rk_ns ?key) (rk_iter ?key) vs)"
    by (elim exE conjE)
  have ok1: "tree_ok s1" "acct_ok s1" "locks_ok L s1" "\<not> rc_disable s1" using 1(3,6) d by (simp_all add: cache_ok_def)
  obtain s2 where s2: "dec_lock_ref s1 ln = Some (Inr (rc_evictable_size s2 - rc_evictable_size s1, s2))" "same_shape s1 s2" "acct_ok s2" "rc_disable s2 = rc_disable s1" "locks_ok (L - {#ln#}) s2"
    by (rule dec_lock_ref_ok [OF ok1(1-3) ln(2) ok1(4)])
  have "cache_finished_req fs fss dfi s al r2t rq ins n = Some (Inr (s2, al1))"
    unfolding cache_finished_req_def Let_def toks [symmetric] kv [symmetric] ins'_def [symmetric] 1(1) using d 1(2) s2(1) ln(1) by simp
  moreover have "cache_ok (L - {#ln#}) s2" using s2 shape_tree_ok [OF s2(2)] ok1(1) by (simp add: cache_ok_def)
  moreover have "tree_paged s2" "owns al1 (tree_slots s2 + R)" using 1(4,5) shape_slots [OF s2(2)] by simp_all
  moreover have "\<forall>n us vs. rpath s (rc_root s) n us vs \<longrightarrow> rpath s2 (rc_root s2) n us vs"
  proof -
    have "rc_root s2 = rc_root s1" using s2(2) by (simp add: same_shape_def)
    then show ?thesis using 1(8) shape_rpath [OF s2(2)] by simp
  qed
  moreover have "ins \<and> \<not> dfi \<longrightarrow> (\<exists>vs. rk_len ?key = 0 \<or> holds s2 (rk_ns ?key) (rk_iter ?key) vs)" using 1(9) shape_holds [OF s2(2)] by (simp add: ins'_def)
  ultimately show ?thesis by blast
qed

end


lemma paged_row_replace:
  assumes ps: "0 < ps" and row: "paged_row ps pg kv" and c: "c * ps \<le> length kv" and q: "length q = c"
  shows "paged_row ps (q @ drop c pg) (page_slots ps q @ drop (c * ps) kv)"
proof -
  have lq: "length (page_slots ps q) = c * ps" using q by (simp add: length_page_slots)
  have len: "length (page_slots ps q @ drop (c * ps) kv) = length kv" using c lq by simp
  have cp: "c \<le> length pg" by (rule row_slice(2) [OF ps row c])
  show ?thesis unfolding paged_row_def len
  proof (intro conjI allI impI)
    show "length (q @ drop c pg) = ceil_pages ps (length kv)" using row q cp by (simp add: paged_row_def)
    fix p assume p: "p < length kv"
    show "(page_slots ps q @ drop (c * ps) kv) ! p = (q @ drop c pg) ! (p div ps) * ps + p mod ps"
    proof (cases "p < c * ps")
      case True
      then have "p div ps < c" using ps by (simp add: div_less_iff_less_mult)
      then show ?thesis using True lq q by (simp add: nth_append nth_page_slots)
    next
      case False
      then have ge: "c \<le> p div ps" using ps by (simp add: less_eq_div_iff_mult_less_eq)
      have "(page_slots ps q @ drop (c * ps) kv) ! p = kv ! p" using False lq p by (simp add: nth_append)
      moreover have "(q @ drop c pg) ! (p div ps) = pg ! (p div ps)" using ge q cp by (simp add: nth_append)
      ultimately show ?thesis using row p by (simp add: paged_row_def)
    qed
  qed
qed

context row_pool
begin

lemma unfinished_ok:
  assumes ok: "cache_ok L s" and pg: "tree_paged s" and psz: "rc_page_size s = ps" and d: "\<not> rc_disable s"
    and o: "owns al (tree_slots s + (own_slots ps (rq_cache_protected_len rq) pages + R))"
    and toks: "toks = get_fill_ids rq" and kv: "kv = take (length toks) (r2t (rq_pool_idx rq))"
    and row: "row_ok s (request_key s rq toks) ln (rq_cache_protected_len rq) pages kv" and ln: "rq_last_node rq = Some ln" "ln \<in># L"
  shows "\<exists>s' al' r2t' rq' node pages'. cache_unfinished_req fs s al r2t rq chunked = Some (Inr (s', al', r2t', rq'))
     \<and> rq_last_node rq' = Some node \<and> cache_ok (add_mset node (L - {#ln#})) s' \<and> tree_paged s'
     \<and> owns al' (tree_slots s' + (own_slots ps (rq_cache_protected_len rq') pages' + R))
     \<and> rq_cache_protected_len rq' = rk_len (request_key s rq toks)
     \<and> row_ok s' (request_key s rq toks) node (rq_cache_protected_len rq') pages' (take (length toks) (r2t' (rq_pool_idx rq)))
     \<and> rq_prefix_indices rq' = take (length toks) (r2t' (rq_pool_idx rq)) \<and> (\<forall>i. i \<noteq> rq_pool_idx rq \<longrightarrow> r2t' i = r2t i)
     \<and> (\<forall>n us vs. rpath s (rc_root s) n us vs \<longrightarrow> rpath s' (rc_root s') n us vs)"
proof -
  let ?key = "request_key s rq toks" and ?prot = "rq_cache_protected_len rq" and ?row = "r2t (rq_pool_idx rq)"
  let ?V = "take (rk_len ?key) kv" and ?U = "rk_iter ?key"
  have t: "tree_ok s" using ok by (simp add: cache_ok_def)
  note kf = request_key_facts [OF t, of rq toks]
  have pr: "paged_row ps pages kv" "?prot \<le> rk_len ?key" "rk_len ?key \<le> length kv" "rpath s (rc_root s) ln (take ?prot ?U) (take ?prot kv)"
      "ln = rc_root s \<or> rk_ns (tn_key (rc_nodes s ln)) = rk_ns ?key"
    using row psz by (simp_all add: row_ok_def)
  obtain m vs node s1 where i: "radix_insert s ?key (Some ?V) (priority_of rq) chunked = Some (Inr (m, Some node, s1))"
      "inserted s (rk_ns ?key) ?U ?V m vs node s1" "cache_ok L s1" "tree_paged s1" "?prot \<le> m" "m \<le> rk_len ?key" "rc_page_size s dvd m"
    by (rule insert_row [OF ok pg d row refl])
  obtain a b c T where r: "?prot = a * ps" "m = b * ps" "rk_len ?key = c * ps" "a \<le> b" "b \<le> c" "c * ps \<le> length kv" "c \<le> length pages"
      "tree_slots s = mset (page_slots ps (take a pages)) + T" "own_slots ps ?prot pages = mset (page_slots ps (drop a pages))"
      "drop m ?V = page_slots ps (py_slice b c pages)"
    using row_slots [OF t row i(5-7) kf(4)] unfolding psz by metis
  have "mset (page_slots ps pages) = mset (page_slots ps (take a pages)) + mset (page_slots ps (drop a pages))"
    unfolding mset_append [symmetric] page_slots_append [symmetric] by simp
  then have ow: "owns al (mset (page_slots ps pages) + (T + R))" using o unfolding r(8,9) by (simp add: add_ac)
  have mk: "m \<le> length kv" "a * ps \<le> m" using i(5,6) pr(3) r(1) by simp_all
  obtain al1 where al1: "fs al (py_slice ?prot m kv) ?prot = Inr al1" "owns al1 (mset (page_slots ps (take a pages @ drop b pages)) + (T + R))"
    using free_segment_pages [OF ow pr(1) mk] ceil_pages_mult [OF page_pos, of b] unfolding r(1,2) by auto
  have "drop b pages = py_slice b c pages @ drop c pages"
    using r(5) by (metis append_take_drop_id drop_drop le_add_diff_inverse2 py_slice_def)
  moreover have "tree_slots s1 = tree_slots s + mset (page_slots ps (py_slice b c pages))" using i(2) r(10) by (simp add: inserted_def)
  ultimately have ow1: "owns al1 (tree_slots s1 + (mset (page_slots ps (drop c pages)) + R))" using al1(2) unfolding r(8) by (simp add: page_slots_append add_ac)
  let ?W = "vs @ drop m ?V"
  have ins: "inserted s (rk_ns ?key) (rk_iter (lookup_key s ?key)) ?V m vs node s1" using i(2) kf(2) by simp
  obtain s2 where s2: "match_prefix s1 ?key = Some (Inr (?W, node, s2))" "refines s1 s2"
    using match_after_insert [OF ins i(3) kf(1) d] kf(3) pr(3) by auto
  have W: "length ?W = rk_len ?key" using i(2,6) pr(3) by (simp add: inserted_def)
  have ok2: "cache_ok L s2" by (rule refines_cache_ok [OF s2(2) i(3)])
  have same: "rc_root s2 = rc_root s" "rc_page_size s2 = rc_page_size s" "rc_disable s2 = rc_disable s" "tree_slots s2 = tree_slots s1" "tree_paged s2"
    using s2(2) i(2,4) by (simp_all add: refines_def inserted_def)
  have t1: "tree_ok s1" and t2: "tree_ok s2" using i(3) ok2 by (simp_all add: cache_ok_def)
  have path1: "rpath s1 (rc_root s1) n us xs" "rpath s2 (rc_root s2) n us xs" if "rpath s (rc_root s) n us xs" for n us xs
    using that i(2) s2(2) by (simp_all add: inserted_def refines_def)
  have nd1: "rpath s1 (rc_root s1) node ?U ?W" "node = rc_root s1 \<or> rk_ns (tn_key (rc_nodes s1 node)) = rk_ns ?key" using i(2) by (simp_all add: inserted_def)
  have nd: "rpath s2 (rc_root s2) node ?U ?W" "node = rc_root s2 \<or> rk_ns (tn_key (rc_nodes s2 node)) = rk_ns ?key"
    using nd1 s2(2) t1 rpath_reach [OF nd1(1) reach_root] by (auto simp: refines_def)
  have rl: "reach s2 ln" "reach s2 node" using rpath_reach [OF path1(2) [OF pr(4)] reach_root] rpath_reach [OF nd(1) reach_root] .
  have pre: "take ?prot ?W = take ?prot kv"
  proof (cases "node = rc_root s2")
    case True
    then have "?U = []" using root_path_unique [OF t2 nd(1)] rpath_refl [of s2 "rc_root s2"] by blast
    then have "rk_len ?key = 0" by (metis length_rk_iter list.size(3))
    then show ?thesis using pr(2) by simp
  next
    case False
    have ln2: "ln = rc_root s2 \<or> rk_ns (tn_key (rc_nodes s2 ln)) = rk_ns ?key"
    proof -
      have l: "reach s ln" using rpath_reach [OF pr(4) reach_root] .
      have "\<forall>n. reach s n \<longrightarrow> reach s1 n \<and> (n \<noteq> rc_root s \<longrightarrow> rk_ns (tn_key (rc_nodes s1 n)) = rk_ns (tn_key (rc_nodes s n)))"
        using i(2) unfolding inserted_def by (elim conjE)
      then have l1: "reach s1 ln" "ln \<noteq> rc_root s \<Longrightarrow> rk_ns (tn_key (rc_nodes s1 ln)) = rk_ns (tn_key (rc_nodes s ln))" using l by blast+
      have "\<forall>n. tree_ok s1 \<and> reach s1 n \<longrightarrow> reach s2 n \<and> (n \<noteq> rc_root s1 \<longrightarrow> rk_ns (tn_key (rc_nodes s2 n)) = rk_ns (tn_key (rc_nodes s1 n)))"
        using s2(2) unfolding refines_def by (elim conjE)
      then have "ln \<noteq> rc_root s1 \<Longrightarrow> rk_ns (tn_key (rc_nodes s2 ln)) = rk_ns (tn_key (rc_nodes s1 ln))" using t1 l1(1) by blast
      moreover have "rc_root s1 = rc_root s" using i(2) by (simp add: inserted_def)
      ultimately show ?thesis using l1(2) pr(5) same(1) by (cases "ln = rc_root s") simp_all
    qed
    obtain us' vs' where "?W = take ?prot kv @ vs'"
      using path_through [OF t2 path1(2) [OF pr(4)] ln2 nd(1) False] nd(2) False by (auto simp: take_is_prefix)
    then show ?thesis using pr(2,3) by simp
  qed
  have row_len: "rk_len ?key \<le> length ?row" using pr(3) by (simp add: kv)
  have asg: "slice_assign ?prot (length ?W) (drop ?prot ?W) ?row = Inr (take ?prot ?row @ drop ?prot ?W @ drop (rk_len ?key) ?row)"
    using W pr(2) row_len by (subst slice_assign_in_range) simp_all
  define row' where "row' = take ?prot ?row @ drop ?prot ?W @ drop (rk_len ?key) ?row"
  have lr: "take (length toks) row' = ?W @ drop (rk_len ?key) kv"
  proof -
    have "?prot \<le> length toks" using order_trans [OF pr(2) kf(5)] .
    then have "take ?prot ?row = take ?prot kv" by (simp add: kv min_absorb1)
    then have "row' = take ?prot ?W @ drop ?prot ?W @ drop (rk_len ?key) ?row" unfolding row'_def pre by (simp only:)
    then have "row' = ?W @ drop (rk_len ?key) ?row" by (simp only: append.assoc [symmetric] append_take_drop_id)
    then have "take (length toks) row' = ?W @ take (length toks - rk_len ?key) (drop (rk_len ?key) ?row)"
      using W kf(5) by (simp only: take_append length_append) (simp del: take_append)
    then show ?thesis by (simp only: kv drop_take)
  qed
  have ok2': "tree_ok s2" "acct_ok s2" "locks_ok L s2" "\<not> rc_disable s2" using ok2 same(3) d by (simp_all add: cache_ok_def)
  obtain s3 where s3: "dec_lock_ref s2 ln = Some (Inr (rc_evictable_size s3 - rc_evictable_size s2, s3))" "same_shape s2 s3" "acct_ok s3" "rc_disable s3 = rc_disable s2" "locks_ok (L - {#ln#}) s3"
    by (rule dec_lock_ref_ok [OF ok2'(1-3) ln(2) ok2'(4)])
  have ok3: "tree_ok s3" "reach s3 node" "\<not> rc_disable s3" using shape_tree_ok [OF s3(2)] t2 shape_reach [OF s3(2)] rl(2) s3(4) ok2'(4) by simp_all
  obtain s4 where s4: "inc_lock_ref s3 node = Some (Inr (rc_evictable_size s4 - rc_evictable_size s3, s4))" "same_shape s3 s4" "acct_ok s4" "rc_disable s4 = rc_disable s3" "locks_ok (add_mset node (L - {#ln#})) s4"
    by (rule inc_lock_ref_ok [OF ok3(1) s3(3,5) ok3(2,3)])
  have sh: "same_shape s2 s4" by (rule same_shape_trans [OF s3(2) s4(2)])
  have sr: "rc_root s4 = rc_root s2" "rc_page_size s4 = rc_page_size s2" "\<And>n. tn_key (rc_nodes s4 n) = tn_key (rc_nodes s2 n)" using sh by (simp_all add: same_shape_def)
  obtain q where q: "?W = page_slots ps q" using path_exact [OF t2 same(5) nd(1)] same(2) psz by (auto simp: page_exact_def)
  have lq: "length q = c" using arg_cong [OF q, of length] W r(3) page_pos by (simp add: length_page_slots)
  define pages' where "pages' = q @ drop c pages"
  define rq' where "rq' = rq\<lparr> rq_cache_protected_len := length ?W,
       rq_prefix_indices := (if length ?W < length kv then ?W @ drop (length ?W) kv else ?W), rq_last_node := Some node \<rparr>"
  have call: "cache_unfinished_req fs s al r2t rq chunked = Some (Inr (s4, al1, r2t(rq_pool_idx rq := row'), rq'))"
    unfolding cache_unfinished_req_def Let_def toks [symmetric] kv [symmetric]
    using d i(1) al1(1) s2(1) W asg s3(1) s4(1) ln(1) by (simp add: row'_def rq'_def check_def)
  have prot': "rq_cache_protected_len rq' = rk_len ?key" "rq_last_node rq' = Some node" using W by (simp_all add: rq'_def)
  have pi: "rq_prefix_indices rq' = ?W @ drop (rk_len ?key) kv" using W pr(3) by (simp add: rq'_def)
  have own: "own_slots ps (rk_len ?key) pages' = mset (page_slots ps (drop c pages))" using r(3) lq page_pos by (simp add: own_slots_def pages'_def)
  have "paged_row ps pages' (?W @ drop (rk_len ?key) kv)"
    using paged_row_replace [OF page_pos pr(1) r(6) lq] unfolding pages'_def q [symmetric] r(3) [symmetric] .
  then have ro: "row_ok s4 ?key node (rk_len ?key) pages' (take (length toks) row')"
    unfolding lr row_ok_def using W kf(4) nd sr same psz shape_rpath [OF sh] pr(3) by simp
  have "cache_ok (add_mset node (L - {#ln#})) s4" using s4 shape_tree_ok [OF sh] t2 by (simp add: cache_ok_def)
  moreover have "tree_paged s4" "owns al1 (tree_slots s4 + (own_slots ps (rk_len ?key) pages' + R))" using same(4,5) shape_slots [OF sh] ow1 own by simp_all
  moreover have "\<forall>n us vs. rpath s (rc_root s) n us vs \<longrightarrow> rpath s4 (rc_root s4) n us vs" using path1(2) shape_rpath [OF sh] sr(1) by simp
  ultimately show ?thesis using call prot' pi lr ro
    by (intro exI [of _ s4] exI [of _ al1] exI [of _ "r2t(rq_pool_idx rq := row')"] exI [of _ rq'] exI [of _ node] exI [of _ pages']) simp
qed

end


section \<open>Results\<close>

lemma page_size_pos: "cache_ok L s \<Longrightarrow> \<exists>k. rc_page_size s = Suc k"
  by (simp add: cache_ok_def tree_ok_def gr0_conv_Suc)

text \<open>
  (C13) A finished request hands its row over: its key is in the cache, the slots the cache held
  already and the unaligned tail are back on the free lists, its lock is gone, and nothing else
  changes owner. Nothing raises, and the walks return within their fuel.
\<close>

theorem finished_req_hands_over:
  assumes "cache_ok L s" and "tree_paged s" and "\<not> rc_disable s"
    and "pool_owns np (rc_page_size s) al (tree_slots s + (own_slots (rc_page_size s) (rq_cache_protected_len rq) pages + R))"
    and "toks = take n (rq_origin_input_ids rq @ rq_output_ids rq)" and "kv = take (length toks) (r2t (rq_pool_idx rq))"
    and "row_ok s (request_key s rq toks) ln (rq_cache_protected_len rq) pages kv" and "rq_last_node rq = Some ln" and "ln \<in># L"
  shows "\<exists>s' al'. cache_finished_req paged_free_segment (\<lambda>al. paged_free_segments al None) dfi s al r2t rq ins n = Some (Inr (s', al'))
     \<and> cache_ok (L - {#ln#}) s' \<and> tree_paged s' \<and> pool_owns np (rc_page_size s) al' (tree_slots s' + R)
     \<and> (\<forall>n us vs. rpath s (rc_root s) n us vs \<longrightarrow> rpath s' (rc_root s') n us vs)
     \<and> (ins \<and> \<not> dfi \<longrightarrow> (\<exists>vs. rk_len (request_key s rq toks) = 0 \<or> holds s' (rk_ns (request_key s rq toks)) (rk_iter (request_key s rq toks)) vs))"
proof -
  obtain k where k: "rc_page_size s = Suc k" using page_size_pos [OF assms(1)] ..
  show ?thesis using paged.finished_ok [where r2t = r2t, OF assms(1,2) k assms(3) assms(4) [unfolded k] assms(5-9)] unfolding k .
qed

text \<open>
  (C14) An unfinished request is cached and goes on: its row starts with the slots of its path in
  the cache for all whole pages, the duplicates it had are back on the free lists, its lock sits
  on the new node, and it owns exactly the pages behind.
\<close>

theorem unfinished_req_moves_on:
  assumes "cache_ok L s" and "tree_paged s" and "\<not> rc_disable s"
    and "pool_owns np (rc_page_size s) al (tree_slots s + (own_slots (rc_page_size s) (rq_cache_protected_len rq) pages + R))"
    and "toks = get_fill_ids rq" and "kv = take (length toks) (r2t (rq_pool_idx rq))"
    and "row_ok s (request_key s rq toks) ln (rq_cache_protected_len rq) pages kv" and "rq_last_node rq = Some ln" and "ln \<in># L"
  shows "\<exists>s' al' r2t' rq' node pages'. cache_unfinished_req paged_free_segment s al r2t rq chunked = Some (Inr (s', al', r2t', rq'))
     \<and> rq_last_node rq' = Some node \<and> cache_ok (add_mset node (L - {#ln#})) s' \<and> tree_paged s'
     \<and> pool_owns np (rc_page_size s) al' (tree_slots s' + (own_slots (rc_page_size s) (rq_cache_protected_len rq') pages' + R))
     \<and> rq_cache_protected_len rq' = rk_len (request_key s rq toks)
     \<and> row_ok s' (request_key s rq toks) node (rq_cache_protected_len rq') pages' (take (length toks) (r2t' (rq_pool_idx rq)))
     \<and> rq_prefix_indices rq' = take (length toks) (r2t' (rq_pool_idx rq)) \<and> (\<forall>i. i \<noteq> rq_pool_idx rq \<longrightarrow> r2t' i = r2t i)
     \<and> (\<forall>n us vs. rpath s (rc_root s) n us vs \<longrightarrow> rpath s' (rc_root s') n us vs)"
proof -
  obtain k where k: "rc_page_size s = Suc k" using page_size_pos [OF assms(1)] ..
  show ?thesis using paged.unfinished_ok [where r2t = r2t, OF assms(1,2) k assms(3) assms(4) [unfolded k] assms(5-9)] unfolding k .
qed

section \<open>A first request\<close>

lemma cache_ok_root:
  assumes "cache_ok L s"
  shows "cache_ok (add_mset (rc_root s) L) s"
proof -
  have t: "tree_ok s" using assms by (simp add: cache_ok_def)
  have "\<not> (redge s)\<^sup>*\<^sup>* n (rc_root s)" if "n \<in> inner s" for n using anc_root [OF t] that by (auto simp: anc_def inner_def)
  then show ?thesis using assms reach_root [of s] by (simp add: cache_ok_def locks_ok_def)
qed

text \<open>A pool of three pages of two slots; the request with three tokens has the first two pages.\<close>

definition witness_req :: req where
  "witness_req = \<lparr> rq_origin_input_ids = [5, 6], rq_output_ids = [7], rq_full_untruncated_fill_ids = [5, 6, 7], rq_extend_end = 3, rq_extra_key = None,
     rq_cache_salt = None, rq_priority = None, rq_pool_idx = 0, rq_cache_protected_len = 0, rq_prefix_indices = [], rq_last_node = Some (rc_root (empty_cache 2)) \<rparr>"

definition witness_alloc :: kv_alloc where
  "witness_alloc = \<lparr> al_size = 6, al_page_size = 2, al_need_sort = False, al_debug = True, free_pages = [3], release_pages = [], free_group = None, free_page_reps_group = [] \<rparr>"

lemma witness_pages: "page_slots 2 [1, 2] = [2, 3, 4, 5]" "page_slots 2 [3] = [6, 7]" "page_slots 2 [1..<3 + 1] = [2, 3, 4, 5, 6, 7]"
  by (simp_all add: page_slots_def upt_rec)

lemma witness_owns: "pool_owns 3 2 witness_alloc (tree_slots (empty_cache 2) + (own_slots 2 0 [1, 2] + {#}))"
proof -
  have "alloc_ok 3 2 witness_alloc" by (simp add: alloc_ok_def witness_alloc_def)
  moreover have "paged_avail 2 witness_alloc = {6, 7}" using witness_pages(2) by (auto simp: paged_avail_def witness_alloc_def)
  moreover have "own_slots 2 0 [1, 2] = {#2, 3, 4, 5#}" unfolding own_slots_def div_0 drop_0 witness_pages(1) by simp
  ultimately show ?thesis unfolding pool_owns_def witness_pages(3) by (simp add: empty_cache_slots)
qed

lemma req_row:
  "row_ok (empty_cache 2) (request_key (empty_cache 2) witness_req [5, 6, 7]) (rc_root (empty_cache 2)) 0 [1, 2] [2, 3, 4]"
proof -
  have "rk_len (request_key (empty_cache 2) witness_req [5, 6, 7]) \<le> 3"
    using request_key_facts(5) [of "empty_cache 2" witness_req "[5, 6, 7]"] empty_cache_ok [of 2] by (simp add: cache_ok_def)
  moreover have "p \<in> {0, 1, 2}" if "p < 3" for p :: nat using that by auto
  ultimately show ?thesis using rpath_refl empty_cache_slots
    by (auto simp: row_ok_def paged_row_def ceil_pages_def less_Suc_eq numeral_3_eq_3)
qed

lemma witness_owned:
  "pool_owns 3 (rc_page_size (empty_cache 2)) witness_alloc (tree_slots (empty_cache 2) + (own_slots (rc_page_size (empty_cache 2)) (rq_cache_protected_len witness_req) [1, 2] + {#}))"
  using witness_owns by (simp add: empty_cache_slots(4) witness_req_def)

lemma req_row_of:
  "row_ok (empty_cache 2) (request_key (empty_cache 2) witness_req [5, 6, 7]) (rc_root (empty_cache 2)) (rq_cache_protected_len witness_req) [1, 2] [2, 3, 4]"
  using req_row by (simp add: witness_req_def)

theorem finished_req_hands_over_witness:
  "\<exists>s' al'. cache_finished_req paged_free_segment (\<lambda>al. paged_free_segments al None) False (empty_cache 2) witness_alloc (\<lambda>_. [2, 3, 4, 0]) witness_req True 3 = Some (Inr (s', al'))
     \<and> pool_owns 3 2 al' (tree_slots s') \<and> (\<exists>vs. holds s' (None, None) [Tok 5, Tok 6] vs)"
proof -
  let ?s = "empty_cache 2" and ?rq = witness_req
  have ok: "cache_ok {#rc_root ?s#} ?s" "\<not> rc_disable ?s" using cache_ok_root [OF empty_cache_ok(1), of 2] empty_cache_ok(2) [of 2] by simp_all
  have w: "[5, 6, 7] = take 3 (rq_origin_input_ids ?rq @ rq_output_ids ?rq)" "[2, 3, 4] = take (length [5, 6, 7 :: int]) ((\<lambda>_. [2, 3, 4, 0]) (rq_pool_idx ?rq))"
    "rq_last_node ?rq = Some (rc_root ?s)" by (simp_all add: witness_req_def)
  have it: "rk_iter (request_key ?s ?rq [5, 6, 7]) = [Tok 5, Tok 6]" "rk_ns (request_key ?s ?rq [5, 6, 7]) = (None, None)"
    using empty_cache_slots(3,4) by (simp_all add: request_key_def page_aligned_iter witness_req_def rk_ns_def rk_len_raw page_aligned_def rk_slice_def Let_def) (simp add: rk_iter_def Let_def)
  then have len: "rk_len (request_key ?s ?rq [5, 6, 7]) \<noteq> 0" by (metis length_rk_iter list.size(3) list.distinct(1) length_0_conv)
  note f = finished_req_hands_over [where r2t = "\<lambda>_. [2, 3, 4, 0]" and dfi = False and ins = True, OF ok(1) empty_cache_slots(2) ok(2) witness_owned w(1,2) req_row_of w(3) union_single_eq_member [OF refl]]
  show ?thesis using f len unfolding it empty_cache_slots(4) by auto
qed

theorem unfinished_req_moves_on_witness:
  "\<exists>s' al' r2t' rq'. cache_unfinished_req paged_free_segment (empty_cache 2) witness_alloc (\<lambda>_. [2, 3, 4, 0]) witness_req False = Some (Inr (s', al', r2t', rq'))
     \<and> rq_cache_protected_len rq' = rk_len (request_key (empty_cache 2) witness_req [5, 6, 7]) \<and> rq_prefix_indices rq' = take 3 (r2t' 0)"
proof -
  let ?s = "empty_cache 2" and ?rq = witness_req
  have ok: "cache_ok {#rc_root ?s#} ?s" "\<not> rc_disable ?s" using cache_ok_root [OF empty_cache_ok(1), of 2] empty_cache_ok(2) [of 2] by simp_all
  have w: "[5, 6, 7] = get_fill_ids ?rq" "[2, 3, 4] = take (length [5, 6, 7 :: int]) ((\<lambda>_. [2, 3, 4, 0]) (rq_pool_idx ?rq))"
    "rq_last_node ?rq = Some (rc_root ?s)" by (simp_all add: witness_req_def get_fill_ids_def)
  note f = unfinished_req_moves_on [where r2t = "\<lambda>_. [2, 3, 4, 0]" and chunked = False, OF ok(1) empty_cache_slots(2) ok(2) witness_owned w(1,2) req_row_of w(3) union_single_eq_member [OF refl]]
  have idx: "rq_pool_idx ?rq = 0" "length [5, 6, 7 :: int] = 3" by (simp_all add: witness_req_def)
  show ?thesis using f unfolding idx by blast
qed

end
