(* ===== verification/Anchor_Blocks.thy ===== *)
theory Anchor_Blocks
  imports Block_Drafter "HOL-Library.Multiset"
begin

text \<open>
  Training blocks of the MySpec drafter
  (\<^verbatim>\<open>DeepSpec/deepspec/modeling/myspec/common.py\<close> and the training \<open>forward\<close> of
  \<^verbatim>\<open>modeling/myspec/qwen3/modeling.py\<close>): anchors are drawn among the supervised positions, a
  block of masked tokens and a group of latent tokens is attached to each, an attention mask
  isolates the blocks, and labels are aligned with the draft positions. A batch row is
  modelled; every operation acts on rows independently. The sort that orders random keys is
  a parameter with its documented behaviour.
\<close>

section \<open>Anchors\<close>

definition build_anchor_candidate_mask :: "nat \<Rightarrow> rat list \<Rightarrow> bool list" where
  "build_anchor_candidate_mask seq_len loss_mask =
     (let num_candidates = seq_len - 1 in
      if num_candidates = 0 then []
      else map2 (\<and>) (map (\<lambda>x. x > 1 / 2) (take num_candidates loss_mask))
                     (map (\<lambda>x. x > 1 / 2) (py_slice 1 (num_candidates + 1) loss_mask)))"

definition sample_anchor_positions ::
  "(rat list \<Rightarrow> nat list) \<Rightarrow> nat \<Rightarrow> rat list \<Rightarrow> nat \<Rightarrow> rat list \<Rightarrow> nat list \<times> bool list" where
  "sample_anchor_positions argsort seq_len loss_mask max_n rand =
     (let valid = build_anchor_candidate_mask seq_len loss_mask;
          valid_count = length (filter id valid);
          num_candidates = length valid
      in if num_candidates = 0 then (replicate max_n 0, replicate max_n False)
         else
           let masked_indices = map2 (\<lambda>v i. if v then i else seq_len + 1) valid [0..<num_candidates];
               random_vals = map2 (\<lambda>v x. if v then x else 2) valid rand;
               gathered = map (\<lambda>i. masked_indices ! i) (argsort random_vals);
               padded = (if num_candidates < max_n
                         then gathered @ replicate (max_n - num_candidates) (seq_len + 1) else gathered);
               anchors = sort (take max_n padded);
               keep_mask = map (\<lambda>i. i < min valid_count max_n) [0..<max_n]
           in (map2 (\<lambda>k a. if k then a else 0) keep_mask anchors, keep_mask))"

text \<open>\<open>sort\<close> returns the values in non-decreasing order and the permutation that orders them.\<close>

definition argsort_ok :: "(rat list \<Rightarrow> nat list) \<Rightarrow> bool" where
  "argsort_ok argsort \<longleftrightarrow>
     (\<forall>xs. mset (argsort xs) = mset [0..<length xs] \<and> sorted (map (\<lambda>i. xs ! i) (argsort xs)))"

section \<open>Inputs of a block\<close>

definition create_position_ids :: "nat list \<Rightarrow> nat \<Rightarrow> nat list" where
  "create_position_ids anchors bs = concat (map (\<lambda>a. map (\<lambda>j. a + j) [0..<bs]) anchors)"

definition create_latent_position_ids :: "nat list \<Rightarrow> nat \<Rightarrow> nat list" where
  "create_latent_position_ids anchors num_latent = concat (map (\<lambda>a. map (\<lambda>j. a + j) [0..<num_latent]) anchors)"

text \<open>
  The ids whose embedding \<open>create_noise_embed\<close> and \<open>create_latent_noise_embed\<close> return: all
  filler, with the anchor's token at the start of each kept block.
\<close>

fun assign_starts :: "token list \<Rightarrow> nat list \<Rightarrow> token list \<Rightarrow> token list res" where
  "assign_starts ids (s # ss) (t # ts) =
     (if s < length ids then assign_starts (ids[s := t]) ss ts else Inl IndexError)"
| "assign_starts ids ss ts = Inr ids"

definition gather_row :: "'a list \<Rightarrow> nat list \<Rightarrow> 'a list res" where
  "gather_row xs is = mapE (\<lambda>i. if i < length xs then Inr (xs ! i) else Inl RuntimeError) is"

definition noise_ids :: "token list \<Rightarrow> nat list \<Rightarrow> bool list \<Rightarrow> token \<Rightarrow> nat \<Rightarrow> token list res" where
  "noise_ids input_ids anchors keep fill bs =
     (let num_blocks = length anchors;
          block_starts = map (\<lambda>i. i * bs) [0..<num_blocks]
      in bindE (gather_row input_ids anchors) (\<lambda>anchor_tokens.
         assign_starts (replicate (num_blocks * bs) fill) block_starts
           (map2 (\<lambda>k t. if k then t else fill) keep anchor_tokens)))"

definition latent_noise_ids :: "token list \<Rightarrow> nat list \<Rightarrow> bool list \<Rightarrow> token \<Rightarrow> nat \<Rightarrow> token list res" where
  "latent_noise_ids input_ids anchors keep latent_token num_latent =
     (let num_blocks = length anchors;
          block_starts = map (\<lambda>i. i * num_latent) [0..<num_blocks]
      in bindE (gather_row input_ids anchors) (\<lambda>anchor_tokens.
         assign_starts (replicate (num_blocks * num_latent) latent_token) block_starts
           (map2 (\<lambda>k t. if k then t else latent_token) keep anchor_tokens)))"

section \<open>Attention masks\<close>

definition latent_mask_mod :: "nat list \<Rightarrow> bool list \<Rightarrow> nat \<Rightarrow> nat \<Rightarrow> nat \<Rightarrow> nat \<Rightarrow> bool" where
  "latent_mask_mod anchors keep seq_len bs q_idx kv_idx =
     (let q_block_id = q_idx div bs;
          anchor_pos = anchors ! q_block_id;
          is_context = kv_idx < seq_len;
          mask_context = (is_context \<and> kv_idx < anchor_pos);
          is_draft = kv_idx \<ge> seq_len;
          kv_block_id = (int kv_idx - int seq_len) div int bs;
          mask_draft = (is_draft \<and> int q_block_id = kv_block_id);
          is_valid_block = keep ! q_block_id
      in (mask_context \<or> mask_draft) \<and> is_valid_block)"

definition myspec_mask_mod :: "nat list \<Rightarrow> bool list \<Rightarrow> nat \<Rightarrow> nat \<Rightarrow> nat \<Rightarrow> nat \<Rightarrow> nat \<Rightarrow> bool" where
  "myspec_mask_mod anchors keep seq_len bs num_latent q_idx kv_idx =
     (let num_blocks = length anchors;
          latent_end = seq_len + num_blocks * num_latent;
          q_block_id = q_idx div bs;
          anchor_pos = anchors ! q_block_id;
          is_context = kv_idx < seq_len;
          mask_context = (is_context \<and> kv_idx < anchor_pos);
          is_latent = (kv_idx \<ge> seq_len \<and> kv_idx < latent_end);
          latent_block_id = (int kv_idx - int seq_len) div int num_latent;
          mask_latent = (is_latent \<and> int q_block_id = latent_block_id);
          is_draft = kv_idx \<ge> latent_end;
          kv_block_id = (int kv_idx - int latent_end) div int bs;
          mask_draft = (is_draft \<and> int q_block_id = kv_block_id);
          is_valid_block = keep ! q_block_id
      in (mask_context \<or> mask_latent \<or> mask_draft) \<and> is_valid_block)"

text \<open>
  \<open>create_block_mask\<close> materialises a mask function on its grid: the keys query \<open>q\<close> attends to.
\<close>

definition latent_visible :: "nat list \<Rightarrow> bool list \<Rightarrow> nat \<Rightarrow> nat \<Rightarrow> nat \<Rightarrow> nat list" where
  "latent_visible anchors keep seq_len num_latent q =
     filter (latent_mask_mod anchors keep seq_len num_latent q) [0..<seq_len + length anchors * num_latent]"

definition mask_visible :: "nat list \<Rightarrow> bool list \<Rightarrow> nat \<Rightarrow> nat \<Rightarrow> nat \<Rightarrow> nat \<Rightarrow> nat list" where
  "mask_visible anchors keep seq_len bs num_latent q =
     filter (myspec_mask_mod anchors keep seq_len bs num_latent q)
       [0..<seq_len + length anchors * num_latent + length anchors * bs]"

section \<open>Labels\<close>

definition label_indices :: "nat \<Rightarrow> nat \<Rightarrow> nat list" where
  "label_indices bs a = map (\<lambda>j. a + j) [1..<bs + 1]"

definition safe_label_indices :: "nat \<Rightarrow> nat \<Rightarrow> bool \<Rightarrow> nat list \<Rightarrow> nat list" where
  "safe_label_indices seq_len bs keep labels = map (\<lambda>i. if keep then min i (seq_len - 1) else 0) labels"

definition build_eval_mask :: "nat \<Rightarrow> rat list \<Rightarrow> nat list \<Rightarrow> nat list \<Rightarrow> bool \<Rightarrow> bool list res" where
  "build_eval_mask seq_len loss_mask labels safe keep =
     (let target_valid = map (\<lambda>i. i < seq_len) labels in
      bindE (gather_row loss_mask safe) (\<lambda>target_loss_mask.
      let eval_mask = map2 (\<and>) target_valid (map (\<lambda>x. x > 1 / 2) target_loss_mask);
          eval_mask' = map (\<lambda>b. b \<and> keep) eval_mask
      in Inr (map (\<lambda>x. x \<noteq> 0) (cumprod (map (\<lambda>b. if b then 1 else 0) eval_mask')))))"

text \<open>One block of the training output: labels, supervision, previous tokens and the
  positions whose target logits are aligned with the draft positions.\<close>

record block_labels =
  bl_target_ids :: "token list"
  bl_eval_mask :: "bool list"
  bl_prev_token_ids :: "token list"
  bl_target_pred_indices :: "nat list"

definition label_block :: "token list \<Rightarrow> rat list \<Rightarrow> nat \<Rightarrow> nat \<times> bool \<Rightarrow> block_labels res" where
  "label_block input_ids loss_mask bs ak =
     (case ak of (a, keep) \<Rightarrow>
      let seq_len = length input_ids;
          labels = label_indices bs a;
          safe = safe_label_indices seq_len bs keep labels
      in
      bindE (gather_row input_ids safe) (\<lambda>target_ids.
      bindE (build_eval_mask seq_len loss_mask labels safe keep) (\<lambda>eval_mask.
      bindE (gather_row input_ids [a]) (\<lambda>anchor_token.
      Inr \<lparr> bl_target_ids = target_ids, bl_eval_mask = eval_mask,
            bl_prev_token_ids = anchor_token @ butlast target_ids,
            bl_target_pred_indices = map (\<lambda>i. i - 1) safe \<rparr>))))"


section \<open>The sampled anchors\<close>

definition candidates :: "rat list \<Rightarrow> nat set" where
  "candidates loss_mask = {i. i + 1 < length loss_mask \<and> loss_mask ! i > 1 / 2 \<and> loss_mask ! (i + 1) > 1 / 2}"

lemma candidate_mask_length: "length loss_mask = seq_len \<Longrightarrow> length (build_anchor_candidate_mask seq_len loss_mask) = seq_len - 1"
  by (auto simp: build_anchor_candidate_mask_def Let_def)

lemma candidate_mask_nth:
  "length loss_mask = seq_len \<Longrightarrow> i < seq_len - 1 \<Longrightarrow>
   build_anchor_candidate_mask seq_len loss_mask ! i \<longleftrightarrow> i \<in> candidates loss_mask"
  by (auto simp: build_anchor_candidate_mask_def Let_def candidates_def nth_py_slice)

text \<open>Sorting by a key that separates two classes puts one class before the other.\<close>

lemma sorted_partition:
  assumes "sorted (map f xs)" and "\<forall>x \<in> set xs. P x \<longleftrightarrow> f x < (c :: rat)"
  shows "xs = filter P xs @ filter (\<lambda>x. \<not> P x) xs"
  using assms
proof (induction xs)
  case (Cons x xs)
  show ?case
  proof (cases "P x")
    case True
    with Cons show ?thesis by simp
  next
    case False
    then have "\<not> P y" if "y \<in> set xs" for y
      using Cons.prems that by (fastforce simp: not_less)
    then have "filter P xs = []" "filter (\<lambda>x. \<not> P x) xs = xs" by (simp_all add: filter_empty_conv)
    with False show ?thesis by simp
  qed
qed simp

lemma sort_append_top:
  fixes top :: nat
  assumes "\<forall>x \<in> set xs. x \<le> top"
  shows "sort (xs @ replicate k top) = sort xs @ replicate k top"
proof (rule properties_for_sort)
  show "mset (sort xs @ replicate k top) = mset (xs @ replicate k top)" by simp
  show "sorted (sort xs @ replicate k top)"
    using assms by (auto simp: sorted_append)
qed

lemma sample_anchor_shape:
  assumes srt: "argsort_ok argsort" and len: "length loss_mask = seq_len"
    and rand: "length rand = seq_len - 1" "\<forall>x \<in> set rand. 0 \<le> x \<and> x < 1"
  shows "\<exists>as. sample_anchor_positions argsort seq_len loss_mask max_n rand
           = (as @ replicate (max_n - length as) 0, replicate (length as) True @ replicate (max_n - length as) False)
         \<and> sorted as \<and> distinct as \<and> set as \<subseteq> candidates loss_mask
         \<and> length as = min max_n (card (candidates loss_mask))"
proof (cases "seq_len - 1 = 0")
  case True
  then have "candidates loss_mask = {}" using len by (auto simp: candidates_def)
  moreover have "build_anchor_candidate_mask seq_len loss_mask = []"
    using True by (simp add: build_anchor_candidate_mask_def)
  ultimately show ?thesis by (intro exI [of _ "[]"]) (simp add: sample_anchor_positions_def)
next
  case False
  define n where "n = seq_len - 1"
  define valid where "valid = build_anchor_candidate_mask seq_len loss_mask"
  define top where "top = seq_len + 1"
  define rv where "rv = map2 (\<lambda>v x. if v then x else 2) valid rand"
  define perm where "perm = argsort rv"
  have lv: "length valid = n" using candidate_mask_length [OF len] by (simp add: valid_def n_def)
  have vn: "valid ! i \<longleftrightarrow> i \<in> candidates loss_mask" if "i < n" for i
    using candidate_mask_nth [OF len] that by (simp add: valid_def n_def)
  have cand: "candidates loss_mask = {i. i < n \<and> valid ! i}"
    using vn len by (auto simp: candidates_def n_def)
  have pm: "mset perm = mset [0..<n]" "sorted (map (\<lambda>i. rv ! i) perm)"
    using srt lv rand(1) by (simp_all add: argsort_ok_def perm_def rv_def n_def)
  then have ps: "set perm = {..<n}" "distinct perm"
    by (metis atLeast_upt set_mset_mset) (metis pm(1) distinct_upt mset_eq_imp_distinct_iff)
  have key: "\<forall>i \<in> set perm. valid ! i \<longleftrightarrow> rv ! i < 1"
    using ps(1) lv rand by (auto simp: rv_def n_def)
  define vs where "vs = filter (\<lambda>i. valid ! i) perm"
  define ws where "ws = filter (\<lambda>i. \<not> valid ! i) perm"
  have part: "perm = vs @ ws" unfolding vs_def ws_def by (rule sorted_partition [OF pm(2) key])
  have vs: "distinct vs" "set vs = candidates loss_mask" using ps by (auto simp: vs_def cand)
  then have lvs: "length vs = card (candidates loss_mask)" by (metis distinct_card)
  have cnt: "length (filter id valid) = length vs"
  proof -
    have "length (filter id valid) = card {i. i < length valid \<and> id (valid ! i)}" by (rule length_filter_conv_card)
    then show ?thesis using lvs lv cand by simp
  qed
  define mi where "mi = map2 (\<lambda>v i. if v then i else top) valid [0..<n]"
  have g: "map (\<lambda>i. mi ! i) perm = vs @ replicate (length ws) top"
  proof -
    have "mi ! i = i" if "i \<in> set vs" for i using that ps lv by (simp add: vs_def mi_def)
    moreover have "mi ! i = top" if "i \<in> set ws" for i using that ps lv by (simp add: ws_def mi_def)
    ultimately have "map (\<lambda>i. mi ! i) vs = vs" "map (\<lambda>i. mi ! i) ws = replicate (length ws) top"
      by (auto intro!: map_idI nth_equalityI)
    then show ?thesis by (metis part map_append)
  qed
  have total: "length vs + length ws = n" using arg_cong [OF part, of length] pm(1) by (metis length_append mset_eq_length length_upt diff_zero)
  define padded where "padded = (if n < max_n then map (\<lambda>i. mi ! i) perm @ replicate (max_n - n) top else map (\<lambda>i. mi ! i) perm)"
  have "take max_n padded = take max_n vs @ replicate (max_n - length vs) top"
    using total by (auto simp: padded_def g replicate_add [symmetric] min_def)
  moreover have "\<forall>x \<in> set (take max_n vs). x \<le> top"
  proof
    fix x
    assume "x \<in> set (take max_n vs)"
    then have "x \<in> candidates loss_mask" using vs(2) in_set_takeD by fast
    then show "x \<le> top" using len by (simp add: candidates_def top_def)
  qed
  ultimately have anchors: "sort (take max_n padded) = sort (take max_n vs) @ replicate (max_n - length vs) top"
    using sort_append_top by simp
  define as where "as = sort (take max_n vs)"
  have las: "length as = min max_n (length vs)" by (simp add: as_def min.commute)
  have eq: "sample_anchor_positions argsort seq_len loss_mask max_n rand =
     (map2 (\<lambda>k a. if k then a else 0) (map (\<lambda>i. i < min (length vs) max_n) [0..<max_n]) (as @ replicate (max_n - length vs) top),
      map (\<lambda>i. i < min (length vs) max_n) [0..<max_n])"
    unfolding sample_anchor_positions_def Let_def valid_def [symmetric] lv cnt top_def [symmetric]
      if_not_P [OF False [folded n_def]] mi_def [symmetric] rv_def [symmetric] perm_def [symmetric]
      padded_def [symmetric] anchors as_def ..
  have "map (\<lambda>i. i < min (length vs) max_n) [0..<max_n] = replicate (length as) True @ replicate (max_n - length as) False"
    by (rule nth_equalityI) (auto simp: las nth_append)
  moreover have "map2 (\<lambda>k a. if k then a else 0) (map (\<lambda>i. i < min (length vs) max_n) [0..<max_n]) (as @ replicate (max_n - length vs) top)
      = as @ replicate (max_n - length as) 0"
    by (rule nth_equalityI) (auto simp: las nth_append)
  moreover have "sorted as" "distinct as" "set as \<subseteq> candidates loss_mask"
    using vs set_take_subset [of max_n vs] by (simp_all add: as_def)
  ultimately show ?thesis using eq las lvs by (intro exI [of _ as]) simp
qed

text \<open>
  The anchors a training step uses. Whatever the random keys are, sampling returns the
  requested number of slots; the kept ones come first and hold strictly increasing positions
  whose own token and next token are both supervised, as many of them as exist up to the
  requested number; the remaining slots hold 0 and are marked as dropped.
\<close>

theorem sampled_anchors_valid:
  assumes srt: "argsort_ok argsort" and len: "length loss_mask = seq_len"
    and rand: "length rand = seq_len - 1" "\<forall>x \<in> set rand. 0 \<le> x \<and> x < 1"
  shows "\<exists>as. sample_anchor_positions argsort seq_len loss_mask max_n rand
           = (as @ replicate (max_n - length as) 0, replicate (length as) True @ replicate (max_n - length as) False)
         \<and> sorted as \<and> distinct as \<and> set as \<subseteq> candidates loss_mask
         \<and> length as = min max_n (card (candidates loss_mask))"
  by (rule sample_anchor_shape [OF assms])

text \<open>A concrete argsort: insertion by key.\<close>

definition stable_argsort :: "rat list \<Rightarrow> nat list" where
  "stable_argsort xs = sort_key (\<lambda>i. xs ! i) [0..<length xs]"

lemma stable_argsort_ok: "argsort_ok stable_argsort"
  by (simp add: argsort_ok_def stable_argsort_def)

theorem sampled_anchors_valid_witness:
  "\<exists>as. sample_anchor_positions stable_argsort 6 [0, 1, 1, 1, 0, 1] 3 [1/2, 3/4, 1/4, 0, 1/8]
           = (as @ replicate (3 - length as) 0, replicate (length as) True @ replicate (3 - length as) False)
     \<and> set as \<subseteq> candidates [0, 1, 1, 1, 0, 1]"
  using sampled_anchors_valid [OF stable_argsort_ok, of "[0, 1, 1, 1, 0, 1]" 6 "[1/2, 3/4, 1/4, 0, 1/8]" 3] by auto


section \<open>Labels are aligned\<close>

lemma cumprod_nonzero: "j < length xs \<Longrightarrow> cumprod xs ! j \<noteq> 0 \<longleftrightarrow> (\<forall>i \<le> j. xs ! i \<noteq> 0)"
proof (induction xs arbitrary: j)
  case (Cons x xs)
  show ?case
  proof (cases j)
    case 0
    then show ?thesis by simp
  next
    case (Suc k)
    have "(\<forall>i \<le> Suc k. (x # xs) ! i \<noteq> 0) \<longleftrightarrow> x \<noteq> 0 \<and> (\<forall>i \<le> k. xs ! i \<noteq> 0)"
      by (metis (no_types, lifting) Suc_le_mono le0 not0_implies_Suc nth_Cons_0 nth_Cons_Suc)
    then show ?thesis using Cons Suc by auto
  qed
qed simp

lemma cumprod_zeros: "\<forall>x \<in> set xs. x = 0 \<Longrightarrow> \<forall>x \<in> set (cumprod xs). x = 0"
  by (induction xs) auto

lemma gather_row_ok: "\<forall>i \<in> set is. i < length xs \<Longrightarrow> gather_row xs is = Inr (map (\<lambda>i. xs ! i) is)"
  unfolding gather_row_def by (rule mapE_all) simp

lemma label_indices_nth: "j < bs \<Longrightarrow> label_indices bs a ! j = a + 1 + j"
  by (simp add: label_indices_def del: upt_Suc)

lemma label_indices_length [simp]: "length (label_indices bs a) = bs"
  by (simp add: label_indices_def del: upt_Suc)

lemma label_block_spec:
  assumes len: "length loss_mask = length input_ids" and bs: "0 < bs"
  shows "(a \<in> candidates loss_mask \<longrightarrow> (\<exists>b. label_block input_ids loss_mask bs (a, True) = Inr b
      \<and> bl_eval_mask b ! 0
      \<and> (\<forall>j < bs. bl_eval_mask b ! j \<longleftrightarrow> (\<forall>i \<le> j. a + 1 + i < length input_ids \<and> loss_mask ! (a + 1 + i) > 1 / 2))
      \<and> (\<forall>j < bs. bl_eval_mask b ! j \<longrightarrow> bl_target_ids b ! j = input_ids ! (a + 1 + j)
            \<and> bl_prev_token_ids b ! j = input_ids ! (a + j) \<and> bl_target_pred_indices b ! j = a + j)))
    \<and> (input_ids \<noteq> [] \<longrightarrow> (\<exists>b. label_block input_ids loss_mask bs (0, False) = Inr b \<and> True \<notin> set (bl_eval_mask b)))"
proof (intro conjI impI)
  define n where "n = length input_ids"
  assume a: "a \<in> candidates loss_mask"
  then have an: "a + 1 < n" and la: "loss_mask ! (a + 1) > 1 / 2" using len by (auto simp: candidates_def n_def)
  define safe where "safe = safe_label_indices n bs True (label_indices bs a)"
  have sn: "safe ! j = min (a + 1 + j) (n - 1)" if "j < bs" for j
    using that by (simp add: safe_def safe_label_indices_def label_indices_nth)
  have sl: "length safe = bs" by (simp add: safe_def safe_label_indices_def)
  have rng: "\<forall>i \<in> set safe. i < n" using an by (auto simp: safe_def safe_label_indices_def)
  define ys :: "nat list" where "ys = map (\<lambda>b. if b then 1 else 0) (map (\<lambda>b. b \<and> True)
     (map2 (\<and>) (map (\<lambda>i. i < n) (label_indices bs a)) (map (\<lambda>x. x > 1 / 2) (map (\<lambda>i. loss_mask ! i) safe))))"
  define em where "em = map (\<lambda>x. x \<noteq> 0) (cumprod ys)"
  define b where "b = \<lparr> bl_target_ids = map (\<lambda>i. input_ids ! i) safe, bl_eval_mask = em,
      bl_prev_token_ids = [input_ids ! a] @ butlast (map (\<lambda>i. input_ids ! i) safe),
      bl_target_pred_indices = map (\<lambda>i. i - 1) safe \<rparr>"
  have ok: "label_block input_ids loss_mask bs (a, True) = Inr b"
    using gather_row_ok [of safe input_ids] gather_row_ok [of safe loss_mask] gather_row_ok [of "[a]" input_ids] rng len an
    by (simp add: label_block_def Let_def build_eval_mask_def n_def [symmetric] safe_def [symmetric] b_def em_def ys_def comp_def)
  have em: "em ! j \<longleftrightarrow> (\<forall>i \<le> j. a + 1 + i < n \<and> loss_mask ! (a + 1 + i) > 1 / 2)" if j: "j < bs" for j
  proof -
    have "em ! j \<longleftrightarrow> (\<forall>i \<le> j. label_indices bs a ! i < n \<and> loss_mask ! (safe ! i) > 1 / 2)"
    proof -
      have len: "length ys = bs" using sl by (simp add: ys_def)
      have "em ! j \<longleftrightarrow> (\<forall>i \<le> j. ys ! i \<noteq> 0)" using cumprod_nonzero [of j ys] j len by (simp add: em_def)
      moreover have "ys ! i \<noteq> 0 \<longleftrightarrow> label_indices bs a ! i < n \<and> loss_mask ! (safe ! i) > 1 / 2" if "i \<le> j" for i
        using that j sl by (simp add: ys_def)
      ultimately show ?thesis by blast
    qed
    also have "\<dots> \<longleftrightarrow> (\<forall>i \<le> j. a + 1 + i < n \<and> loss_mask ! (a + 1 + i) > 1 / 2)"
      using j by (intro all_cong) (auto simp: label_indices_nth sn min_def)
    finally show ?thesis .
  qed
  have pos: "bl_target_ids b ! j = input_ids ! (a + 1 + j) \<and> bl_prev_token_ids b ! j = input_ids ! (a + j)
      \<and> bl_target_pred_indices b ! j = a + j" if j: "j < bs" "em ! j" for j
  proof -
    have lt: "a + 1 + j < n" using em [OF j(1)] j(2) by auto
    have s: "safe ! i = a + 1 + i" if "i \<le> j" for i using sn [of i] that j(1) lt by simp
    have "bl_prev_token_ids b ! j = input_ids ! (a + j)"
    proof (cases j)
      case 0
      then show ?thesis by (simp add: b_def)
    next
      case (Suc k)
      then show ?thesis using s [of k] j(1) sl by (simp add: b_def nth_butlast)
    qed
    then show ?thesis using s [of j] j(1) sl by (simp add: b_def)
  qed
  have "em ! 0" using em [OF bs] an la by simp
  then show "\<exists>b. label_block input_ids loss_mask bs (a, True) = Inr b
      \<and> bl_eval_mask b ! 0
      \<and> (\<forall>j < bs. bl_eval_mask b ! j \<longleftrightarrow> (\<forall>i \<le> j. a + 1 + i < length input_ids \<and> loss_mask ! (a + 1 + i) > 1 / 2))
      \<and> (\<forall>j < bs. bl_eval_mask b ! j \<longrightarrow> bl_target_ids b ! j = input_ids ! (a + 1 + j)
            \<and> bl_prev_token_ids b ! j = input_ids ! (a + j) \<and> bl_target_pred_indices b ! j = a + j)"
    using ok em pos by (intro exI [of _ b]) (simp add: b_def n_def)
next
  assume ne: "input_ids \<noteq> []"
  define safe where "safe = safe_label_indices (length input_ids) bs False (label_indices bs 0)"
  have rng: "\<forall>i \<in> set safe. i < length input_ids" using ne by (auto simp: safe_def safe_label_indices_def)
  show "\<exists>b. label_block input_ids loss_mask bs (0, False) = Inr b \<and> True \<notin> set (bl_eval_mask b)"
    using gather_row_ok [of safe input_ids] gather_row_ok [of safe loss_mask] gather_row_ok [of "[0]" input_ids] rng len ne
    by (simp add: label_block_def Let_def build_eval_mask_def safe_def [symmetric]) (rule cumprod_zeros, auto)
qed

text \<open>
  Labels. For a kept anchor the first draft position is always supervised, and a draft
  position is supervised exactly when it and all earlier ones of the block lie inside the
  sequence and are enabled by the loss mask. At every supervised position the label is the
  next token of the sequence, the previous token fed to the Markov head is the token just
  before the label, and the aligned target logits are those computed at that previous token.
  A dropped block is never supervised.
\<close>

theorem labels_aligned:
  assumes len: "length loss_mask = length input_ids" and bs: "0 < bs"
  shows "(a \<in> candidates loss_mask \<longrightarrow> (\<exists>b. label_block input_ids loss_mask bs (a, True) = Inr b
      \<and> bl_eval_mask b ! 0
      \<and> (\<forall>j < bs. bl_eval_mask b ! j \<longleftrightarrow> (\<forall>i \<le> j. a + 1 + i < length input_ids \<and> loss_mask ! (a + 1 + i) > 1 / 2))
      \<and> (\<forall>j < bs. bl_eval_mask b ! j \<longrightarrow> bl_target_ids b ! j = input_ids ! (a + 1 + j)
            \<and> bl_prev_token_ids b ! j = input_ids ! (a + j) \<and> bl_target_pred_indices b ! j = a + j)))
    \<and> (input_ids \<noteq> [] \<longrightarrow> (\<exists>b. label_block input_ids loss_mask bs (0, False) = Inr b \<and> True \<notin> set (bl_eval_mask b)))"
  by (rule label_block_spec [OF len bs])

theorem labels_aligned_witness:
  "\<exists>b. label_block [10, 11, 12, 13] [0, 1, 1, 0] 3 (1, True) = Inr b \<and> bl_eval_mask b ! 0
     \<and> bl_target_ids b ! 0 = 12 \<and> bl_prev_token_ids b ! 0 = 11"
proof -
  have "1 \<in> candidates [0, 1, 1, 0]" by (simp add: candidates_def)
  with labels_aligned [of "[0, 1, 1, 0]" "[10, 11, 12, 13]" 3 1] show ?thesis by fastforce
qed


section \<open>A training block sees what inference feeds\<close>

text \<open>The position ids of the keys: the context, the latent groups and the draft blocks.\<close>

definition training_position_ids :: "nat \<Rightarrow> nat list \<Rightarrow> nat \<Rightarrow> nat \<Rightarrow> nat list" where
  "training_position_ids seq_len anchors num_latent bs =
     [0..<seq_len] @ create_latent_position_ids anchors num_latent @ create_position_ids anchors bs"

lemma block_div_iff:
  assumes "0 < n" and "s \<le> k"
  shows "int B = (int k - int s) div int n \<longleftrightarrow> s + B * n \<le> k \<and> k < s + B * n + n"
proof -
  have "(int k - int s) div int n = int ((k - s) div n)"
    using assms(2) by (simp add: of_nat_diff zdiv_int)
  then have "int B = (int k - int s) div int n \<longleftrightarrow> B = (k - s) div n" by simp
  also have "\<dots> \<longleftrightarrow> B * n \<le> k - s \<and> k - s < B * n + n"
    using assms(1) by (metis add.commute div_less_iff_less_mult le_eq_less_or_eq less_eq_div_iff_mult_less_eq mult_Suc not_less not_less_eq)
  finally show ?thesis using assms(2) by linarith
qed

lemma filter_upt_interval:
  assumes "x \<le> l" "l \<le> u" "u \<le> y"
  shows "filter (\<lambda>i. l \<le> i \<and> i < u) [x..<y] = [l..<u]"
proof -
  have "[x..<y] = [x..<l] @ [l..<u] @ [u..<y]"
    using assms upt_append_between [of x l y] upt_append_between [of l u y] by simp
  moreover have "filter (\<lambda>i. l \<le> i \<and> i < u) [l..<u] = [l..<u]" by (simp add: filter_id_conv)
  ultimately show ?thesis by (simp add: filter_empty_conv)
qed

lemma filter_context:
  assumes "a \<le> m"
  shows "filter (\<lambda>i. i < a) [0..<m] = [0..<a]"
  using filter_upt_interval [of 0 0 a m] assms by simp

lemma query_block: "0 < n \<Longrightarrow> i < n \<Longrightarrow> (B * n + i) div n = (B :: nat)"
  by simp

lemma block_end_le: "B < m \<Longrightarrow> B * n + n \<le> m * (n :: nat)"
  by (metis Suc_leI add.commute mult_Suc mult_le_mono1)

lemma latent_visible_eq:
  assumes B: "B < length anchors" "keep ! B" "anchors ! B \<le> seq_len" and n: "i < nl"
  shows "latent_visible anchors keep seq_len nl (B * nl + i)
       = [0..<anchors ! B] @ [seq_len + B * nl..<seq_len + B * nl + nl]"
proof -
  let ?m = "latent_mask_mod anchors keep seq_len nl (B * nl + i)"
  have q: "(B * nl + i) div nl = B" using n by simp
  have ctx: "filter ?m [0..<seq_len] = [0..<anchors ! B]"
    unfolding filter_context [OF B(3), symmetric] by (rule filter_cong) (use B n q in \<open>auto simp: latent_mask_mod_def Let_def\<close>)
  have nl: "0 < nl" using n by simp
  have "filter ?m [seq_len..<seq_len + length anchors * nl]
      = filter (\<lambda>k. seq_len + B * nl \<le> k \<and> k < seq_len + B * nl + nl) [seq_len..<seq_len + length anchors * nl]"
    by (rule filter_cong) (use B q block_div_iff [OF nl] in \<open>auto simp: latent_mask_mod_def Let_def\<close>)
  also have "\<dots> = [seq_len + B * nl..<seq_len + B * nl + nl]"
    by (rule filter_upt_interval) (use block_end_le [OF B(1), of nl] in auto)
  finally show ?thesis
    using ctx by (simp add: latent_visible_def upt_append_between [of 0 seq_len "seq_len + length anchors * nl", symmetric])
qed

lemma mask_visible_eq:
  assumes B: "B < length anchors" "keep ! B" "anchors ! B \<le> seq_len" and n: "i < bs" and nl: "0 < nl"
  defines "e \<equiv> seq_len + length anchors * nl"
  shows "mask_visible anchors keep seq_len bs nl (B * bs + i)
       = [0..<anchors ! B] @ [seq_len + B * nl..<seq_len + B * nl + nl] @ [e + B * bs..<e + B * bs + bs]"
proof -
  let ?m = "myspec_mask_mod anchors keep seq_len bs nl (B * bs + i)"
  have q: "(B * bs + i) div bs = B" using n by simp
  have bs: "0 < bs" using n by simp
  have ctx: "filter ?m [0..<seq_len] = [0..<anchors ! B]"
    unfolding filter_context [OF B(3), symmetric]
    by (rule filter_cong) (use B q in \<open>auto simp: myspec_mask_mod_def Let_def\<close>)
  have "filter ?m [seq_len..<e] = filter (\<lambda>k. seq_len + B * nl \<le> k \<and> k < seq_len + B * nl + nl) [seq_len..<e]"
    by (rule filter_cong) (use B q block_div_iff [OF nl] in \<open>auto simp: myspec_mask_mod_def Let_def e_def\<close>)
  also have "\<dots> = [seq_len + B * nl..<seq_len + B * nl + nl]"
    by (rule filter_upt_interval) (use block_end_le [OF B(1), of nl] in \<open>auto simp: e_def\<close>)
  finally have lat: "filter ?m [seq_len..<e] = [seq_len + B * nl..<seq_len + B * nl + nl]" .
  have "seq_len \<le> e" by (simp add: e_def)
  then have "filter ?m [e..<e + length anchors * bs] = filter (\<lambda>k. e + B * bs \<le> k \<and> k < e + B * bs + bs) [e..<e + length anchors * bs]"
    unfolding myspec_mask_mod_def Let_def e_def [symmetric] q
    by (intro filter_cong) (use B block_div_iff [OF bs, of e] in auto)
  also have "\<dots> = [e + B * bs..<e + B * bs + bs]"
    by (rule filter_upt_interval) (use block_end_le [OF B(1), of bs] in auto)
  finally have dr: "filter ?m [e..<e + length anchors * bs] = [e + B * bs..<e + B * bs + bs]" .
  have "[0..<e + length anchors * bs] = [0..<seq_len] @ [seq_len..<e] @ [e..<e + length anchors * bs]"
    using upt_append_between [of 0 seq_len "e + length anchors * bs"] upt_append_between [of seq_len e "e + length anchors * bs"]
    by (simp add: e_def)
  then show ?thesis using ctx lat dr by (simp add: mask_visible_def e_def [symmetric])
qed

lemma concat_blocks_slice:
  "B < length xs \<Longrightarrow> (\<And>x. length (f x) = n) \<Longrightarrow> map (\<lambda>k. concat (map f xs) ! k) [B * n..<B * n + n] = f (xs ! B)"
proof (rule nth_equalityI)
  assume B: "B < length xs" and f: "\<And>x. length (f x) = n"
  show "length (map (\<lambda>k. concat (map f xs) ! k) [B * n..<B * n + n]) = length (f (xs ! B))" by (simp add: f)
  fix i
  assume "i < length (map (\<lambda>k. concat (map f xs) ! k) [B * n..<B * n + n])"
  then have i: "i < n" by simp
  have "concat (map f xs) = concat (map f (take B xs)) @ f (xs ! B) @ concat (map f (drop (Suc B) xs))"
    using concat_nth_split [of B "map f xs"] B by (simp add: take_map drop_map)
  moreover have "length (concat (map f (take B xs))) = B * n"
    using concat_equal_lengths [of "map f (take B xs)" n] B f by (auto simp: mult.commute)
  ultimately show "map (\<lambda>k. concat (map f xs) ! k) [B * n..<B * n + n] ! i = f (xs ! B) ! i"
    using i f by (simp add: nth_append)
qed

lemma map_shift_upt: "map (\<lambda>k. g (c + k)) [a..<b] = map g [c + a..<c + b]"
  by (rule nth_equalityI) (auto simp: add.assoc)

lemma length_concat_blocks: "(\<And>x. length (f x) = n) \<Longrightarrow> length (concat (map f xs)) = length xs * n"
  by (induction xs) auto

lemma training_positions_visible:
  fixes nl bs :: nat
  assumes B: "B < length anchors" "anchors ! B \<le> seq_len"
  defines "pos \<equiv> training_position_ids seq_len anchors nl bs" and "a \<equiv> anchors ! B"
    and "e \<equiv> seq_len + length anchors * nl"
  shows "map (\<lambda>k. pos ! k) [0..<a] = [0..<a]"
    "map (\<lambda>k. pos ! k) [seq_len + B * nl..<seq_len + B * nl + nl] = [a..<a + nl]"
    "map (\<lambda>k. pos ! k) [e + B * bs..<e + B * bs + bs] = [a..<a + bs]"
proof -
  have ll: "length (create_latent_position_ids anchors nl) = length anchors * nl"
    unfolding create_latent_position_ids_def by (rule length_concat_blocks) simp
  show "map (\<lambda>k. pos ! k) [0..<a] = [0..<a]"
    using B by (auto intro!: map_idI simp: pos_def training_position_ids_def nth_append a_def)
  have "map (\<lambda>k. pos ! k) [seq_len + B * nl..<seq_len + B * nl + nl]
      = map (\<lambda>k. pos ! (seq_len + k)) [B * nl..<B * nl + nl]"
    using map_shift_upt [of "\<lambda>k. pos ! k" seq_len "B * nl" "B * nl + nl"] by (simp add: add.assoc)
  also have "\<dots> = map (\<lambda>k. create_latent_position_ids anchors nl ! k) [B * nl..<B * nl + nl]"
    using block_end_le [OF B(1), of nl] ll by (intro map_cong) (auto simp: pos_def training_position_ids_def nth_append)
  also have "\<dots> = map (\<lambda>j. a + j) [0..<nl]"
    unfolding create_latent_position_ids_def a_def by (rule concat_blocks_slice [OF B(1)]) simp
  finally show "map (\<lambda>k. pos ! k) [seq_len + B * nl..<seq_len + B * nl + nl] = [a..<a + nl]"
    using map_shift_upt [of "\<lambda>k. k" a 0 nl] by simp
  have "map (\<lambda>k. pos ! k) [e + B * bs..<e + B * bs + bs] = map (\<lambda>k. pos ! (e + k)) [B * bs..<B * bs + bs]"
    using map_shift_upt [of "\<lambda>k. pos ! k" e "B * bs" "B * bs + bs"] by (simp add: add.assoc)
  also have "\<dots> = map (\<lambda>k. create_position_ids anchors bs ! k) [B * bs..<B * bs + bs]"
    using ll by (intro map_cong) (auto simp: pos_def training_position_ids_def nth_append e_def)
  also have "\<dots> = map (\<lambda>j. a + j) [0..<bs]"
    unfolding create_position_ids_def a_def by (rule concat_blocks_slice [OF B(1)]) simp
  finally show "map (\<lambda>k. pos ! k) [e + B * bs..<e + B * bs + bs] = [a..<a + bs]"
    using map_shift_upt [of "\<lambda>k. k" a 0 bs] by simp
qed


lemma assign_starts_ok:
  assumes "(k + length ts) * bs \<le> length ids" and "0 < bs"
  shows "\<exists>out. assign_starts ids (map (\<lambda>i. i * bs) [k..<k + length ts]) ts = Inr out \<and> length out = length ids
    \<and> (\<forall>B j. j < bs \<longrightarrow> B * bs + j < length ids \<longrightarrow>
         out ! (B * bs + j) = (if j = 0 \<and> k \<le> B \<and> B < k + length ts then ts ! (B - k) else ids ! (B * bs + j)))"
  using assms(1)
proof (induction ts arbitrary: k ids)
  case Nil
  then show ?case by simp
next
  case (Cons t ts)
  have kb: "k * bs < length ids"
    using Cons.prems assms(2) by (simp add: add_mult_distrib)
  have upt: "[k..<k + length (t # ts)] = k # [Suc k..<Suc k + length ts]" by (simp add: upt_conv_Cons del: upt_Suc)
  have "(Suc k + length ts) * bs \<le> length (ids[k * bs := t])" using Cons.prems by simp
  from Cons.IH [OF this] obtain out where out:
    "assign_starts (ids[k * bs := t]) (map (\<lambda>i. i * bs) [Suc k..<Suc k + length ts]) ts = Inr out" "length out = length ids"
    "\<And>B j. j < bs \<Longrightarrow> B * bs + j < length ids \<Longrightarrow> out ! (B * bs + j) =
       (if j = 0 \<and> Suc k \<le> B \<and> B < Suc k + length ts then ts ! (B - Suc k) else ids[k * bs := t] ! (B * bs + j))"
    by auto
  have "out ! (B * bs + j) = (if j = 0 \<and> k \<le> B \<and> B < k + length (t # ts) then (t # ts) ! (B - k) else ids ! (B * bs + j))"
    if j: "j < bs" "B * bs + j < length ids" for B j
  proof -
    have "B * bs + j = k * bs \<longleftrightarrow> B = k \<and> j = 0"
      using flat_inject [of j bs 0 B k] j(1) assms(2) by simp
    then show ?thesis using out(3) [OF j] j(2) kb by (cases "B = k") (auto simp: nth_list_update nth_Cons' Suc_le_eq)
  qed
  with out(1,2) kb upt show ?case by (intro exI [of _ out]) simp
qed

lemma noise_block:
  assumes B: "B < length anchors" "keep ! B" and len: "length keep = length anchors"
    and rng: "\<forall>a \<in> set anchors. a < length input_ids" and bs: "0 < bs"
  shows "\<exists>out. noise_ids input_ids anchors keep fill bs = Inr out
           \<and> filled_block bs fill (input_ids ! (anchors ! B)) = Inr (map (\<lambda>k. out ! k) [B * bs..<B * bs + bs])"
proof -
  let ?ts = "map2 (\<lambda>k t. if k then t else fill) keep (map (\<lambda>i. input_ids ! i) anchors)"
  have "(0 + length ?ts) * bs \<le> length (replicate (length anchors * bs) fill)" using len by simp
  from assign_starts_ok [OF this bs] len obtain out where out:
    "assign_starts (replicate (length anchors * bs) fill) (map (\<lambda>i. i * bs) [0..<length anchors]) ?ts = Inr out"
    "length out = length anchors * bs"
    "\<And>B j. j < bs \<Longrightarrow> B * bs + j < length anchors * bs \<Longrightarrow>
       out ! (B * bs + j) = (if j = 0 \<and> B < length anchors then ?ts ! B else fill)"
    by auto
  have "noise_ids input_ids anchors keep fill bs = Inr out"
    using out(1) gather_row_ok [OF rng] by (simp add: noise_ids_def Let_def)
  moreover have "map (\<lambda>k. out ! k) [B * bs..<B * bs + bs] = (replicate bs fill)[0 := input_ids ! (anchors ! B)]"
  proof (rule nth_equalityI)
    fix j
    assume "j < length (map (\<lambda>k. out ! k) [B * bs..<B * bs + bs])"
    then have j: "j < bs" by simp
    from out(3) [OF j flat_less [OF B(1) j]] show "map (\<lambda>k. out ! k) [B * bs..<B * bs + bs] ! j = (replicate bs fill)[0 := input_ids ! (anchors ! B)] ! j"
      using j B len by (cases j) auto
  qed simp
  ultimately show ?thesis using bs by (simp add: filled_block_def)
qed

lemma latent_noise_eq: "latent_noise_ids = noise_ids"
  by (intro ext) (simp add: latent_noise_ids_def noise_ids_def)

text \<open>
  (C30) Training and inference agree on a block. For a kept anchor \<open>a\<close>, in every query row of
  its block the training attention mask shows, in this order, the context strictly before
  the anchor, the block's own latent group and the block's own draft positions, and nothing
  of the sequence from the anchor on or of another block. The position ids of these keys,
  and the latent and masked token ids of the block, are exactly what the inference pass feeds
  to the backbone when it drafts from position \<open>a\<close> with an empty draft cache. A dropped
  block sees nothing.
\<close>

theorem training_block_is_inference_block:
  assumes B: "B < length anchors" "keep ! B" "anchors ! B < seq_len" and i: "i < bs" "i' < num_latent_tokens m"
    and pos: "anchors ! B + num_latent_tokens m \<le> M" "anchors ! B + bs \<le> M" and cache: "draft_cache_len m c = 0"
    and keep: "length keep = length anchors" and rng: "\<forall>a \<in> set anchors. a < length input_ids"
  defines "a \<equiv> anchors ! B" and "nl \<equiv> num_latent_tokens m"
  defines "tpos \<equiv> training_position_ids seq_len anchors nl bs"
  shows "\<exists>latent noise. latent_noise_ids input_ids anchors keep (latent_token_id m) nl = Inr latent
    \<and> noise_ids input_ids anchors keep (mask_token_id m) bs = Inr noise
    \<and> (\<forall>lids ids. filled_block nl (latent_token_id m) (input_ids ! a) = Inr lids \<longrightarrow>
         filled_block bs (mask_token_id m) (input_ids ! a) = Inr ids \<longrightarrow>
         lids = map (\<lambda>k. latent ! k) [B * nl..<B * nl + nl] \<and> ids = map (\<lambda>k. noise ! k) [B * bs..<B * bs + bs]
       \<and> forward_myspec_draft_block m lids ids [0..<M] c th a bs =
           bindE (forward_backbone m c th
               (Some (lids, map (\<lambda>k. tpos ! k) (latent_visible anchors keep seq_len nl (B * nl + i')))) ids
               (map (\<lambda>k. tpos ! k) (mask_visible anchors keep seq_len bs nl (B * bs + i))))
             (\<lambda>(h, c'). Inr (h, draft_cache_crop m c' a)))"
proof -
  have nl: "0 < nl" and bs: "0 < bs" using i by (simp_all add: nl_def)
  have le: "anchors ! B \<le> seq_len" using B(3) by simp
  obtain latent where latent: "latent_noise_ids input_ids anchors keep (latent_token_id m) nl = Inr latent"
    "filled_block nl (latent_token_id m) (input_ids ! a) = Inr (map (\<lambda>k. latent ! k) [B * nl..<B * nl + nl])"
    using noise_block [OF B(1,2) keep rng nl] by (auto simp: latent_noise_eq a_def)
  obtain noise where noise: "noise_ids input_ids anchors keep (mask_token_id m) bs = Inr noise"
    "filled_block bs (mask_token_id m) (input_ids ! a) = Inr (map (\<lambda>k. noise ! k) [B * bs..<B * bs + bs])"
    using noise_block [OF B(1,2) keep rng bs] by (auto simp: a_def)
  note T = training_positions_visible [OF B(1) le, of nl bs, folded tpos_def, folded a_def]
  have vis: "map (\<lambda>k. tpos ! k) (latent_visible anchors keep seq_len nl (B * nl + i')) = [0..<a] @ [a..<a + nl]"
    "map (\<lambda>k. tpos ! k) (mask_visible anchors keep seq_len bs nl (B * bs + i)) = [0..<a] @ [a..<a + nl] @ [a..<a + bs]"
    using latent_visible_eq [OF B(1,2) le, of i' nl] mask_visible_eq [OF B(1,2) le i(1) nl] i(2) T
    by (simp_all add: a_def nl_def [symmetric])
  have slices: "py_slice 0 a [0..<M] = [0..<a]" "py_slice a (a + nl) [0..<M] = [a..<a + nl]" "py_slice a (a + bs) [0..<M] = [a..<a + bs]"
    using pos by (simp_all add: py_slice_def take_upt a_def nl_def)
  show ?thesis
    using latent noise cache slices
    by (intro exI [of _ latent] exI [of _ noise])
       (simp add: vis forward_myspec_draft_block_def Let_def nl_def [symmetric])
qed


theorem training_block_is_inference_block_witness:
  "forward_myspec_draft_block tiny_model [6] [6, 0] [0..<8] 0 [[1]] 1 2 =
     bindE (forward_backbone tiny_model 0 [[1]]
        (Some ([6], map (\<lambda>k. training_position_ids 4 [1] 1 2 ! k) (latent_visible [1] [True] 4 1 0))) [6, 0]
        (map (\<lambda>k. training_position_ids 4 [1] 1 2 ! k) (mask_visible [1] [True] 4 2 1 0)))
       (\<lambda>(h, c'). Inr (h, draft_cache_crop tiny_model c' 1))"
proof -
  have m: "num_latent_tokens tiny_model = 1" "latent_token_id tiny_model = 0" "mask_token_id tiny_model = 0"
    "draft_cache_len tiny_model 0 = 0" by (simp_all add: tiny_model_def)
  have "filled_block 1 0 6 = Inr [6]" "filled_block 2 0 6 = Inr [6, 0]" by code_simp+
  then show ?thesis
    using training_block_is_inference_block [of 0 "[1]" "[True]" 4 0 2 0 tiny_model 8 0 "[5, 6, 7, 8]" "[[1]]"]
    by (simp add: m) (elim exE conjE, assumption)
qed

end
