(* ===== verification/Training_Forward.thy ===== *)
theory Training_Forward
  imports Anchor_Blocks
begin

text \<open>
  The training \<open>forward\<close> of the MySpec model
  (\<^verbatim>\<open>DeepSpec/deepspec/modeling/myspec/qwen3/modeling.py\<close>) on one batch row: anchors, the
  inputs and masks handed to the backbone, labels, teacher-forced logits, the target logits
  aligned with them and the confidence predictions. The backbone is a parameter that receives
  exactly what the code passes it. Logging of sampler statistics has no effect on the result.
\<close>

type_synonym train_backbone =
  "vec list \<Rightarrow> token list \<Rightarrow> nat list \<Rightarrow> (nat \<Rightarrow> nat \<Rightarrow> bool) \<Rightarrow> token list \<Rightarrow> nat list \<Rightarrow> (nat \<Rightarrow> nat \<Rightarrow> bool)
   \<Rightarrow> vec list res"

record training_output =
  to_draft_logits :: "vec list list"
  to_labels :: "block_labels list"
  to_anchors :: "nat list"
  to_block_keep_mask :: "bool list"
  to_confidence_pred :: "vec list option"
  to_aligned_target_logits :: "vec list list option"

text \<open>\<open>reshape(num_blocks, block_size, -1)\<close>.\<close>

definition split_blocks :: "nat \<Rightarrow> nat \<Rightarrow> 'a list \<Rightarrow> 'a list list res" where
  "split_blocks n bs xs =
     (if length xs = n * bs then Inr (map (\<lambda>B. py_slice (B * bs) (B * bs + bs) xs) [0..<n]) else Inl RuntimeError)"

definition training_confidence ::
  "'k draft_model \<Rightarrow> vec list list \<Rightarrow> block_labels list \<Rightarrow> vec list option res" where
  "training_confidence m blocks labels =
     (case confidence_head m of None \<Rightarrow> Inr None
      | Some wb \<Rightarrow>
          bindE (if confidence_head_with_markov m then
              (case draft_markov_head m of None \<Rightarrow> Inl AttributeError
               | Some h \<Rightarrow>
                   mapE (\<lambda>(hs, b). bindE (mapE (get_prev_embeddings h) (bl_prev_token_ids b)) (\<lambda>es.
                     bindE (check (length es = length hs) RuntimeError) (\<lambda>_. Inr (map2 (@) hs es))))
                     (zip blocks labels))
            else Inr blocks) (\<lambda>features.
          bindE (mapE (mapE (accept_rate wb)) features) (\<lambda>c. Inr (Some c))))"

definition myspec_forward ::
  "activations \<Rightarrow> 'k draft_model \<Rightarrow> train_backbone \<Rightarrow> (rat list \<Rightarrow> nat list) \<Rightarrow> nat \<Rightarrow> rat list
   \<Rightarrow> token list \<Rightarrow> vec list \<Rightarrow> rat list \<Rightarrow> vec list option \<Rightarrow> training_output res" where
  "myspec_forward act m backbone argsort num_anchors rand input_ids target_hidden loss_mask target_last =
     (let seq_len = length input_ids; bs = draft_block_size m; nl = num_latent_tokens m;
          (anchors, keep) = sample_anchor_positions argsort seq_len loss_mask num_anchors rand;
          num_blocks = length anchors
      in
      bindE (latent_noise_ids input_ids anchors keep (latent_token_id m) nl) (\<lambda>latent.
      bindE (noise_ids input_ids anchors keep (mask_token_id m) bs) (\<lambda>noise.
      bindE (backbone target_hidden latent ([0..<seq_len] @ create_latent_position_ids anchors nl)
               (latent_mask_mod anchors keep seq_len nl)
               noise (training_position_ids seq_len anchors nl bs)
               (myspec_mask_mod anchors keep seq_len bs nl)) (\<lambda>hidden.
      bindE (split_blocks num_blocks bs hidden) (\<lambda>blocks.
      bindE (mapE (label_block input_ids loss_mask bs) (zip anchors keep)) (\<lambda>labels.
      bindE (case target_last of None \<Rightarrow> Inr None
             | Some hs \<Rightarrow> bindE (mapE (\<lambda>b. bindE (gather_row hs (bl_target_pred_indices b)) (compute_logits act m)) labels)
                           (\<lambda>x. Inr (Some x))) (\<lambda>aligned.
      bindE (bindE (compute_logits act m hidden) (split_blocks num_blocks bs)) (\<lambda>base.
      bindE (case draft_markov_head m of None \<Rightarrow> Inr base
             | Some h \<Rightarrow> mapE (\<lambda>(lg, b, hs). apply_block_logits act h lg (bl_prev_token_ids b) (Some hs))
                           (zip base (zip labels blocks))) (\<lambda>draft_logits.
      bindE (training_confidence m blocks labels) (\<lambda>confidence.
      Inr \<lparr> to_draft_logits = draft_logits, to_labels = labels, to_anchors = anchors, to_block_keep_mask = keep,
            to_confidence_pred = confidence, to_aligned_target_logits = aligned \<rparr>))))))))))"

section \<open>The forward pass does not raise\<close>

text \<open>
  The backbone's documented shape: one row of the model's width per block position, for every
  target feature, ids and masks.
\<close>

definition train_backbone_ok :: "train_backbone \<Rightarrow> nat \<Rightarrow> bool" where
  "train_backbone_ok backbone D \<longleftrightarrow>
     (\<forall>th lat lpos lmask ids pos amask.
        length lpos = length th + length lat \<and> length pos = length th + length lat + length ids \<longrightarrow>
        (\<exists>hs. backbone th lat lpos lmask ids pos amask = Inr hs \<and> matrix (length ids) D hs))"

lemma split_blocks_ok:
  assumes "matrix (n * bs) D xs"
  shows "\<exists>bl. split_blocks n bs xs = Inr bl \<and> length bl = n \<and> (\<forall>b \<in> set bl. matrix bs D b)"
proof -
  have len: "length xs = n * bs" and w: "\<forall>row \<in> set xs. length row = D" using assms by (simp_all add: matrix_def)
  have "matrix bs D (py_slice (B * bs) (B * bs + bs) xs)" if "B < n" for B
  proof -
    have "B * bs + bs \<le> n * bs" using block_end_le [OF that] .
    then show ?thesis using len w by (auto simp: matrix_def py_slice_def dest: in_set_takeD in_set_dropD)
  qed
  then show ?thesis using len by (simp add: split_blocks_def)
qed

lemma label_block_ok:
  assumes "length loss_mask = length input_ids" and "input_ids \<noteq> []" and "a < length input_ids" and "0 < bs"
    and tok: "\<forall>t \<in> set input_ids. t < V"
  shows "\<exists>b. label_block input_ids loss_mask bs (a, k) = Inr b \<and> length (bl_prev_token_ids b) = bs
     \<and> (\<forall>t \<in> set (bl_prev_token_ids b). t < V) \<and> length (bl_target_pred_indices b) = bs
     \<and> (\<forall>i \<in> set (bl_target_pred_indices b). i < length input_ids)"
proof -
  define safe where "safe = safe_label_indices (length input_ids) bs k (label_indices bs a)"
  have rng: "\<forall>i \<in> set safe. i < length input_ids"
    using assms(2) by (cases input_ids) (auto simp: safe_def safe_label_indices_def)
  have sl: "length safe = bs" by (simp add: safe_def safe_label_indices_def)
  have t: "input_ids ! i < V" if "i \<in> set safe \<or> i = a" for i using that rng assms(3) tok by auto
  have "t < V" if "t \<in> set (input_ids ! a # butlast (map (\<lambda>i. input_ids ! i) safe))" for t
    using that t by (auto dest!: in_set_butlastD)
  then show ?thesis
    using gather_row_ok [of safe input_ids] gather_row_ok [of safe loss_mask] gather_row_ok [of "[a]" input_ids]
      rng assms sl
    by (auto simp: label_block_def Let_def build_eval_mask_def safe_def [symmetric])
qed

lemma noise_ids_ok:
  assumes "length keep = length anchors" and "\<forall>a \<in> set anchors. a < length input_ids" and "0 < bs"
  shows "\<exists>out. noise_ids input_ids anchors keep fill bs = Inr out \<and> length out = length anchors * bs"
proof -
  let ?ts = "map2 (\<lambda>k t. if k then t else fill) keep (map (\<lambda>i. input_ids ! i) anchors)"
  have "(0 + length ?ts) * bs \<le> length (replicate (length anchors * bs) fill)" using assms(1) by simp
  from assign_starts_ok [OF this assms(3)] assms(1) show ?thesis
    using gather_row_ok [OF assms(2)] by (auto simp: noise_ids_def Let_def)
qed

lemma apply_block_logits_ok:
  assumes h: "head_ok V D h" and base: "matrix n V base" and hs: "matrix n D hs"
    and prev: "length prev = n" "\<forall>t \<in> set prev. t < V"
  shows "\<exists>lg. apply_block_logits act h base prev (Some hs) = Inr lg \<and> matrix n V lg"
proof -
  have rnn: "\<exists>lg. apply_block_rnn act jw jb h (Some hs) st k bs ts = Inr lg \<and> matrix (length bs) V lg"
    if kd: "kind h = RNN jw jb" and pre: "length st = markov_rank h" "k + length bs \<le> n" "length ts = length bs"
      "\<forall>b \<in> set bs. length b = V" "\<forall>t \<in> set ts. t < V" for jw jb st k bs ts
    using pre
  proof (induction bs arbitrary: st k ts)
    case (Cons b bs)
    obtain t ts' where ts: "ts = t # ts'" using Cons.prems(3) by (cases ts) auto
    obtain e where e: "get_prev_embeddings h t = Inr e" "length e = markov_rank h"
      using prev_embeddings_ok [OF h, of t] Cons.prems(5) ts by auto
    obtain hv where hv: "hidden_at (Some hs) k = Inr (Some hv)" "length hv = D"
      using hidden_at_ok [OF hs, of k] Cons.prems(2) by auto
    obtain s' bi where st: "rnn_step act jw jb h st e hv = Inr (s', bi)" "length s' = markov_rank h" "length bi = V"
      using rnn_step_ok [OF h kd Cons.prems(1) e(2) hv(2)] by blast
    obtain lg where lg: "vec_zip (+) b bi = Inr lg" "length lg = V"
      using vec_zip_ok [of b V bi "(+)"] st(3) Cons.prems(4) by auto
    obtain lgs where "apply_block_rnn act jw jb h (Some hs) s' (k + 1) bs ts' = Inr lgs" "matrix (length bs) V lgs"
      using Cons.IH [OF st(2), of "k + 1" ts'] Cons.prems ts by auto
    then show ?case using ts e(1) hv(1) st(1) lg by (simp add: matrix_def)
  qed (simp add: matrix_def)
  have mem: "\<exists>lg. apply_block_memoryless act h base prev (Some hs) = Inr lg \<and> matrix n V lg"
  proof -
    have "\<exists>ys. mapE (\<lambda>(k, b, t). bindE (hidden_at (Some hs) k) (apply_step_logits act h b t)) (zip [0..<length base] (zip base prev)) = Inr ys
        \<and> length ys = length (zip [0..<length base] (zip base prev)) \<and> (\<forall>y \<in> set ys. length y = V)"
    proof (rule mapE_ok)
      fix x
      assume "x \<in> set (zip [0..<length base] (zip base prev))"
      then obtain k where k: "k < n" "x = (k, base ! k, prev ! k)" using base prev(1) by (auto simp: set_zip matrix_def)
      obtain hv where hv: "hidden_at (Some hs) k = Inr (Some hv)" "length hv = D" using hidden_at_ok [OF hs k(1)] by auto
      have "length (base ! k) = V" "prev ! k < V" using base prev k(1) by (auto simp: matrix_def)
      from apply_step_logits_ok [OF h this hv(2), of act]
      show "\<exists>y. (case x of (k, b, t) \<Rightarrow> bindE (hidden_at (Some hs) k) (apply_step_logits act h b t)) = Inr y \<and> length y = V"
        using hv(1) k(2) by simp
    qed
    then show ?thesis using base prev(1) by (auto simp: apply_block_memoryless_def matrix_def)
  qed
  show ?thesis
  proof (cases "base = []")
    case True
    then show ?thesis using base by (cases "kind h") (auto simp: apply_block_logits_def matrix_def)
  next
    case False
    then show ?thesis
      using mem rnn [of _ _ "replicate (markov_rank h) 0" 0 base prev] base prev hs
      by (cases "kind h") (auto simp: apply_block_logits_def matrix_def)
  qed
qed


lemma training_confidence_ok:
  assumes m: "draft_model_ok m V L D0 D" and bl: "length blocks = length labels" "\<forall>b \<in> set blocks. matrix bs D b"
    and lb: "\<forall>b \<in> set labels. length (bl_prev_token_ids b) = bs \<and> (\<forall>t \<in> set (bl_prev_token_ids b). t < V)"
  shows "\<exists>c. training_confidence m blocks labels = Inr c"
proof (cases "confidence_head m")
  case None
  then show ?thesis by (simp add: training_confidence_def)
next
  case (Some wb)
  have acc: "\<exists>c. mapE (mapE (accept_rate wb)) fs = Inr c" if "\<forall>f \<in> set fs. \<forall>row \<in> set f. length row = length (fst wb)" for fs
  proof -
    have "\<exists>y. mapE (accept_rate wb) f = Inr y \<and> True" if "f \<in> set fs" for f
      using mapE_ok [of f "accept_rate wb" "\<lambda>_. True"] that \<open>\<forall>f \<in> set fs. _\<close> by (auto simp: accept_rate_def)
    then show ?thesis using mapE_ok [of fs "mapE (accept_rate wb)" "\<lambda>_. True"] by blast
  qed
  show ?thesis
  proof (cases "confidence_head_with_markov m")
    case False
    then have "length (fst wb) = D" using m Some by (auto simp: draft_model_ok_def split: prod.splits)
    then show ?thesis using acc [of blocks] bl(2) False Some by (auto simp: training_confidence_def matrix_def)
  next
    case True
    then obtain h where h: "draft_markov_head m = Some h" "head_ok V D h"
      using m by (auto simp: draft_model_ok_def split: option.splits)
    have w: "length (fst wb) = D + markov_rank h" using m Some True h by (auto simp: draft_model_ok_def split: prod.splits)
    let ?f = "\<lambda>(hs, b). bindE (mapE (get_prev_embeddings h) (bl_prev_token_ids b)) (\<lambda>es.
                     bindE (check (length es = length hs) RuntimeError) (\<lambda>_. Inr (map2 (@) hs es)))"
    have "\<exists>fs. mapE ?f (zip blocks labels) = Inr fs \<and> length fs = length (zip blocks labels)
        \<and> (\<forall>f \<in> set fs. \<forall>row \<in> set f. length row = length (fst wb))"
    proof (rule mapE_ok)
      fix x
      assume xs: "x \<in> set (zip blocks labels)"
      obtain hs b where x: "x = (hs, b)" "hs \<in> set blocks" "b \<in> set labels" using xs by (metis prod.collapse set_zip_leftD set_zip_rightD)
      obtain es where es: "mapE (get_prev_embeddings h) (bl_prev_token_ids b) = Inr es" "length es = bs"
        "\<forall>e \<in> set es. length e = markov_rank h"
        using mapE_ok [of "bl_prev_token_ids b" "get_prev_embeddings h" "\<lambda>e. length e = markov_rank h"]
          prev_embeddings_ok [OF h(2)] lb x(3) by metis
      have "matrix bs D hs" using bl(2) x(2) by simp
      then show "\<exists>y. ?f x = Inr y \<and> (\<forall>row \<in> set y. length row = length (fst wb))"
        using es w x(1) by (auto simp: matrix_def set_zip)
    qed
    then obtain fs where fs: "mapE ?f (zip blocks labels) = Inr fs"
      "\<forall>f \<in> set fs. \<forall>row \<in> set f. length row = length (fst wb)" by blast
    obtain c where "mapE (mapE (accept_rate wb)) fs = Inr c" using acc [OF fs(2)] by blast
    then show ?thesis using True Some h(1) fs(1) by (simp add: training_confidence_def)
  qed
qed

text \<open>What a row of inputs has to satisfy.\<close>

definition row_ok :: "nat \<Rightarrow> nat \<Rightarrow> token list \<Rightarrow> vec list \<Rightarrow> rat list \<Rightarrow> vec list option \<Rightarrow> rat list \<Rightarrow> bool" where
  "row_ok V D input_ids target_hidden loss_mask target_last rand \<longleftrightarrow>
     input_ids \<noteq> [] \<and> (\<forall>t \<in> set input_ids. t < V) \<and> length loss_mask = length input_ids
   \<and> length target_hidden = length input_ids
   \<and> (case target_last of None \<Rightarrow> True | Some hs \<Rightarrow> matrix (length input_ids) D hs)
   \<and> length rand = length input_ids - 1 \<and> (\<forall>x \<in> set rand. 0 \<le> x \<and> x < 1)"

text \<open>One block of the output: its labels are those of its anchor wherever it is supervised.\<close>

definition supervised_ok :: "token list \<Rightarrow> rat list \<Rightarrow> nat \<Rightarrow> bool \<Rightarrow> block_labels \<Rightarrow> bool" where
  "supervised_ok input_ids loss_mask a keep b \<longleftrightarrow>
     (\<forall>j < length (bl_eval_mask b). bl_eval_mask b ! j \<longrightarrow>
        keep \<and> a \<in> candidates loss_mask \<and> a + 1 + j < length input_ids
      \<and> bl_target_ids b ! j = input_ids ! (a + 1 + j)
      \<and> bl_prev_token_ids b ! j = input_ids ! (a + j) \<and> bl_target_pred_indices b ! j = a + j)"

lemma label_block_eval_length:
  assumes "label_block input_ids loss_mask bs (a, k) = Inr b"
  shows "length (bl_eval_mask b) = bs"
proof -
  obtain tm where "gather_row loss_mask (safe_label_indices (length input_ids) bs k (label_indices bs a)) = Inr tm"
    "length (bl_eval_mask b) = min bs (length tm)"
    using assms by (auto simp: label_block_def Let_def build_eval_mask_def bindE_eq_Inr)
  then show ?thesis using mapE_length unfolding gather_row_def by (fastforce simp: safe_label_indices_def)
qed

lemma label_block_supervised:
  assumes lb: "label_block input_ids loss_mask bs (a, k) = Inr b" and len: "length loss_mask = length input_ids"
    and bs: "0 < bs" and ne: "input_ids \<noteq> []"
    and slot: "if k then a \<in> candidates loss_mask else a = 0"
  shows "supervised_ok input_ids loss_mask a k b"
proof (cases k)
  case True
  then have a: "a \<in> candidates loss_mask" using slot by simp
  then show ?thesis
    using label_block_spec [OF len bs, of a, THEN conjunct1, THEN mp, OF a] lb True label_block_eval_length [OF lb]
    by (auto simp: supervised_ok_def)
next
  case False
  then show ?thesis
    using label_block_spec [OF len bs, of a, THEN conjunct2, THEN mp, OF ne] lb slot
    by (auto simp: supervised_ok_def in_set_conv_nth)
qed

lemma mapE_block:
  assumes "\<And>x. x \<in> set xs \<Longrightarrow> \<exists>y. f x = Inr y \<and> P x y"
  shows "\<exists>ys. mapE f xs = Inr ys \<and> list_all2 P xs ys"
  using assms
proof (induction xs)
  case (Cons x xs)
  obtain y where "f x = Inr y" "P x y" using Cons.prems by auto
  moreover obtain ys where "mapE f xs = Inr ys" "list_all2 P xs ys" using Cons by auto
  ultimately show ?case by simp
qed simp


text \<open>The anchor slots of a row: sampled candidates first, then dropped slots at position 0.\<close>

lemma sampled_slots:
  assumes srt: "argsort_ok argsort" and row: "row_ok V D input_ids th loss_mask lasth rand"
  shows "\<exists>anchors keep. sample_anchor_positions argsort (length input_ids) loss_mask na rand = (anchors, keep)
     \<and> length anchors = na \<and> length keep = na
     \<and> (\<forall>B < na. if keep ! B then anchors ! B \<in> candidates loss_mask else anchors ! B = 0)
     \<and> (\<forall>a \<in> set anchors. a < length input_ids)"
proof -
  have R: "input_ids \<noteq> []" "length loss_mask = length input_ids" "length rand = length input_ids - 1" "\<forall>x \<in> set rand. 0 \<le> x \<and> x < 1"
    using row unfolding row_ok_def by blast+
  obtain as where as: "sample_anchor_positions argsort (length input_ids) loss_mask na rand
      = (as @ replicate (na - length as) 0, replicate (length as) True @ replicate (na - length as) False)"
    "set as \<subseteq> candidates loss_mask" "length as \<le> na"
    using sample_anchor_shape [OF srt R(2-4), of na] by (metis min.cobounded1)
  moreover have "\<forall>a \<in> set (as @ replicate (na - length as) 0). a < length input_ids"
    using as(2) R(1,2) by (auto simp: candidates_def split: if_splits)
  ultimately show ?thesis by (auto simp: nth_append)
qed

text \<open>The inputs of the backbone exist, and it answers with one row per block position.\<close>

lemma backbone_inputs_ok:
  assumes bb: "train_backbone_ok backbone D" and nl: "0 < nl" and bs: "0 < bs" and th: "length th = length input_ids"
    and la: "length anchors = na" "length keep = na" and rng: "\<forall>a \<in> set anchors. a < length input_ids"
  shows "\<exists>latent noise hidden. latent_noise_ids input_ids anchors keep lt nl = Inr latent
     \<and> noise_ids input_ids anchors keep mt bs = Inr noise
     \<and> backbone th latent ([0..<length input_ids] @ create_latent_position_ids anchors nl)
         (latent_mask_mod anchors keep (length input_ids) nl) noise (training_position_ids (length input_ids) anchors nl bs)
         (myspec_mask_mod anchors keep (length input_ids) bs nl) = Inr hidden
     \<and> matrix (na * bs) D hidden"
proof -
  let ?n = "length input_ids"
  obtain latent where latent: "latent_noise_ids input_ids anchors keep lt nl = Inr latent" "length latent = na * nl"
    using noise_ids_ok [of keep anchors input_ids nl] nl la rng by (auto simp: latent_noise_eq)
  obtain noise where noise: "noise_ids input_ids anchors keep mt bs = Inr noise" "length noise = na * bs"
    using noise_ids_ok [of keep anchors input_ids bs] bs la rng by auto
  have lens: "length (create_latent_position_ids anchors k) = na * k" "length (create_position_ids anchors k) = na * k" for k
    unfolding create_latent_position_ids_def create_position_ids_def la(1) [symmetric]
    by (rule length_concat_blocks; simp)+
  have "length ([0..<?n] @ create_latent_position_ids anchors nl) = length th + length latent"
    "length (training_position_ids ?n anchors nl bs) = length th + length latent + length noise"
    using lens latent(2) noise(2) th by (simp_all add: training_position_ids_def)
  then obtain hidden where "backbone th latent ([0..<?n] @ create_latent_position_ids anchors nl)
      (latent_mask_mod anchors keep ?n nl) noise (training_position_ids ?n anchors nl bs)
      (myspec_mask_mod anchors keep ?n bs nl) = Inr hidden" "matrix (na * bs) D hidden"
    using bb noise(2) unfolding train_backbone_ok_def by metis
  then show ?thesis using latent(1) noise(1) by blast
qed

text \<open>The labels of a block: supervised correctly, and in the range of the later lookups.\<close>

definition block_labels_ok :: "nat \<Rightarrow> nat \<Rightarrow> token list \<Rightarrow> rat list \<Rightarrow> nat \<times> bool \<Rightarrow> block_labels \<Rightarrow> bool" where
  "block_labels_ok V bs input_ids loss_mask ak b \<longleftrightarrow>
     supervised_ok input_ids loss_mask (fst ak) (snd ak) b \<and> length (bl_prev_token_ids b) = bs
     \<and> (\<forall>t \<in> set (bl_prev_token_ids b). t < V) \<and> (\<forall>i \<in> set (bl_target_pred_indices b). i < length input_ids)"

lemma labels_ok:
  assumes row: "row_ok V D input_ids th loss_mask lasth rand" and bs: "0 < bs"
    and la: "length anchors = na" "length keep = na"
    and slot: "\<forall>B < na. if keep ! B then anchors ! B \<in> candidates loss_mask else anchors ! B = 0"
    and rng: "\<forall>a \<in> set anchors. a < length input_ids"
  shows "\<exists>labels. mapE (label_block input_ids loss_mask bs) (zip anchors keep) = Inr labels \<and> length labels = na
     \<and> (\<forall>B < na. block_labels_ok V bs input_ids loss_mask (anchors ! B, keep ! B) (labels ! B))"
proof -
  have R: "input_ids \<noteq> []" "\<forall>t \<in> set input_ids. t < V" "length loss_mask = length input_ids"
    using row unfolding row_ok_def by blast+
  have "\<exists>b. label_block input_ids loss_mask bs x = Inr b \<and> block_labels_ok V bs input_ids loss_mask x b"
    if x: "x \<in> set (zip anchors keep)" for x
  proof -
    obtain B where B: "B < na" "x = (anchors ! B, keep ! B)" using x la by (auto simp: set_zip)
    have "anchors ! B < length input_ids" using rng B(1) la(1) by simp
    then show ?thesis
      using label_block_ok [of loss_mask input_ids "anchors ! B" bs V "keep ! B"] R bs
        label_block_supervised [OF _ R(3) bs R(1) slot [rule_format, OF B(1)]] B(2)
      by (auto simp: block_labels_ok_def)
  qed
  then obtain labels where labels: "mapE (label_block input_ids loss_mask bs) (zip anchors keep) = Inr labels"
      "list_all2 (block_labels_ok V bs input_ids loss_mask) (zip anchors keep) labels"
    using mapE_block [of "zip anchors keep" "label_block input_ids loss_mask bs"] by blast
  then show ?thesis using la by (auto simp: list_all2_conv_all_nth)
qed

lemma aligned_logits_ok:
  assumes m: "draft_model_ok m V L D0 D" and last: "case lasth of None \<Rightarrow> True | Some hs \<Rightarrow> matrix n D hs"
    and idx: "\<forall>b \<in> set labels. \<forall>i \<in> set (bl_target_pred_indices b). i < n"
  shows "\<exists>aligned. (case lasth of None \<Rightarrow> Inr None
      | Some hs \<Rightarrow> bindE (mapE (\<lambda>b. bindE (gather_row hs (bl_target_pred_indices b)) (compute_logits act m)) labels)
                    (\<lambda>x. Inr (Some x))) = Inr aligned"
proof (cases lasth)
  case (Some hs)
  have hs: "matrix n D hs" using last Some by simp
  have "\<exists>y. bindE (gather_row hs (bl_target_pred_indices b)) (compute_logits act m) = Inr y \<and> True" if "b \<in> set labels" for b
  proof -
    have rg: "\<forall>i \<in> set (bl_target_pred_indices b). i < length hs" using idx that hs by (simp add: matrix_def)
    then have "matrix (length (bl_target_pred_indices b)) D (map (\<lambda>i. hs ! i) (bl_target_pred_indices b))"
      using hs by (auto simp: matrix_def)
    from compute_logits_ok [OF m this, of act] gather_row_ok [OF rg] show ?thesis by auto
  qed
  then show ?thesis
    using Some mapE_ok [of labels "\<lambda>b. bindE (gather_row hs (bl_target_pred_indices b)) (compute_logits act m)" "\<lambda>_. True"]
    by fastforce
qed simp

lemma draft_logits_ok:
  assumes m: "draft_model_ok m V L D0 D" and len: "length base = na" "length labels = na" "length blocks = na"
    and base: "\<forall>b \<in> set base. matrix bs V b" and blocks: "\<forall>b \<in> set blocks. matrix bs D b"
    and lb: "\<forall>b \<in> set labels. length (bl_prev_token_ids b) = bs \<and> (\<forall>t \<in> set (bl_prev_token_ids b). t < V)"
  shows "\<exists>draft. (case draft_markov_head m of None \<Rightarrow> Inr base
      | Some h \<Rightarrow> mapE (\<lambda>(lg, b, hs). apply_block_logits act h lg (bl_prev_token_ids b) (Some hs)) (zip base (zip labels blocks)))
      = Inr draft \<and> length draft = na \<and> (\<forall>lg \<in> set draft. matrix bs V lg)"
proof (cases "draft_markov_head m")
  case None
  then show ?thesis using base len by simp
next
  case (Some h)
  then have h: "head_ok V D h" using m by (simp add: draft_model_ok_def)
  have "\<exists>y. (case x of (lg, b, hs) \<Rightarrow> apply_block_logits act h lg (bl_prev_token_ids b) (Some hs)) = Inr y \<and> matrix bs V y"
    if x: "x \<in> set (zip base (zip labels blocks))" for x
  proof -
    obtain lg b hs where e: "x = (lg, b, hs)" by (cases x)
    have "lg \<in> set base" "b \<in> set labels" "hs \<in> set blocks"
      using x unfolding e by (metis set_zip_leftD set_zip_rightD)+
    then show ?thesis using apply_block_logits_ok [OF h, of bs lg hs "bl_prev_token_ids b" act] base blocks lb e by auto
  qed
  then have "\<exists>ys. mapE (\<lambda>(lg, b, hs). apply_block_logits act h lg (bl_prev_token_ids b) (Some hs)) (zip base (zip labels blocks)) = Inr ys
      \<and> length ys = length (zip base (zip labels blocks)) \<and> (\<forall>y \<in> set ys. matrix bs V y)"
    by (rule mapE_ok)
  then show ?thesis using Some len by auto
qed

text \<open>
  (C31) A training step. For a well-shaped model and any non-empty row, the forward pass
  raises no exception; it returns one block per anchor slot, each with logits of the block's
  shape; and wherever a position is supervised its block is kept, its anchor is a valid
  candidate, its label is the next token inside the sequence, and the previous token and the
  aligned target position are the ones just before it.
\<close>

theorem training_forward_supervision:
  assumes m: "draft_model_ok m V L D0 D" and nl: "0 < num_latent_tokens m" and bb: "train_backbone_ok backbone D"
    and srt: "argsort_ok argsort" and row: "row_ok V D input_ids th loss_mask lasth rand"
  shows "\<exists>out. myspec_forward act m backbone argsort na rand input_ids th loss_mask lasth = Inr out
    \<and> length (to_anchors out) = na \<and> length (to_block_keep_mask out) = na
    \<and> length (to_labels out) = na \<and> length (to_draft_logits out) = na
    \<and> (\<forall>lg \<in> set (to_draft_logits out). matrix (draft_block_size m) V lg)
    \<and> (\<forall>B < na. supervised_ok input_ids loss_mask (to_anchors out ! B) (to_block_keep_mask out ! B) (to_labels out ! B))"
proof -
  define n bs where "n = length input_ids" and "bs = draft_block_size m"
  have th: "length th = length input_ids" and last: "case lasth of None \<Rightarrow> True | Some hs \<Rightarrow> matrix (length input_ids) D hs"
    using row unfolding row_ok_def by blast+
  have bs: "0 < bs" using m by (simp add: draft_model_ok_def bs_def)
  obtain anchors keep where slots: "sample_anchor_positions argsort n loss_mask na rand = (anchors, keep)"
    and la: "length anchors = na" "length keep = na"
    and slot: "\<forall>B < na. if keep ! B then anchors ! B \<in> candidates loss_mask else anchors ! B = 0"
    and rng: "\<forall>a \<in> set anchors. a < length input_ids"
    using sampled_slots [OF srt row, of na] unfolding n_def by (elim exE conjE)
  obtain latent noise hidden where inp: "latent_noise_ids input_ids anchors keep (latent_token_id m) (num_latent_tokens m) = Inr latent"
    "noise_ids input_ids anchors keep (mask_token_id m) bs = Inr noise"
    "backbone th latent ([0..<n] @ create_latent_position_ids anchors (num_latent_tokens m))
      (latent_mask_mod anchors keep n (num_latent_tokens m)) noise
      (training_position_ids n anchors (num_latent_tokens m) bs)
      (myspec_mask_mod anchors keep n bs (num_latent_tokens m)) = Inr hidden" and hidden: "matrix (na * bs) D hidden"
    using backbone_inputs_ok [OF bb nl bs th la rng, of "latent_token_id m" "mask_token_id m"] unfolding n_def by (elim exE conjE)
  obtain blocks where blocks: "split_blocks na bs hidden = Inr blocks" "length blocks = na" "\<forall>b \<in> set blocks. matrix bs D b"
    using split_blocks_ok [OF hidden] by blast
  obtain labels where labels: "mapE (label_block input_ids loss_mask bs) (zip anchors keep) = Inr labels" "length labels = na"
    and good: "\<forall>B < na. block_labels_ok V bs input_ids loss_mask (anchors ! B, keep ! B) (labels ! B)"
    using labels_ok [OF row bs la slot rng] by (elim exE conjE)
  have lb: "\<forall>b \<in> set labels. length (bl_prev_token_ids b) = bs \<and> (\<forall>t \<in> set (bl_prev_token_ids b). t < V)"
    and idx: "\<forall>b \<in> set labels. \<forall>i \<in> set (bl_target_pred_indices b). i < length input_ids"
    using good labels(2) by (auto simp: all_set_conv_all_nth block_labels_ok_def)
  obtain aligned where aligned: "(case lasth of None \<Rightarrow> Inr None
      | Some hs \<Rightarrow> bindE (mapE (\<lambda>b. bindE (gather_row hs (bl_target_pred_indices b)) (compute_logits act m)) labels)
                    (\<lambda>x. Inr (Some x))) = Inr aligned"
    using aligned_logits_ok [OF m last idx, of act] by blast
  obtain lgs where lgs: "compute_logits act m hidden = Inr lgs" "matrix (na * bs) V lgs"
    using compute_logits_ok [OF m hidden] by blast
  obtain base where base: "split_blocks na bs lgs = Inr base" "length base = na" "\<forall>b \<in> set base. matrix bs V b"
    using split_blocks_ok [OF lgs(2)] by blast
  obtain draft where draft: "(case draft_markov_head m of None \<Rightarrow> Inr base
      | Some h \<Rightarrow> mapE (\<lambda>(lg, b, hs). apply_block_logits act h lg (bl_prev_token_ids b) (Some hs)) (zip base (zip labels blocks)))
      = Inr draft" "length draft = na" "\<forall>lg \<in> set draft. matrix bs V lg"
    using draft_logits_ok [OF m base(2) labels(2) blocks(2) base(3) blocks(3) lb, of act] by (elim exE conjE)
  obtain conf where conf: "training_confidence m blocks labels = Inr conf"
    using training_confidence_ok [OF m, of blocks labels bs] blocks labels(2) lb by auto
  define out where "out = \<lparr> to_draft_logits = draft, to_labels = labels, to_anchors = anchors, to_block_keep_mask = keep,
     to_confidence_pred = conf, to_aligned_target_logits = aligned \<rparr>"
  have "myspec_forward act m backbone argsort na rand input_ids th loss_mask lasth = Inr out"
    unfolding myspec_forward_def Let_def n_def [symmetric] bs_def [symmetric] slots prod.case
      la inp blocks(1) labels(1) aligned lgs(1) bindE.simps base(1) draft(1) conf out_def ..
  then show ?thesis
    using la labels(2) draft(2,3) good by (intro exI [of _ out]) (simp add: out_def bs_def block_labels_ok_def)
qed

theorem training_forward_supervision_witness:
  "\<exists>out. myspec_forward tiny_act tiny_model (\<lambda>th lat lpos lm ids pos am. Inr (replicate (length ids) [1])) stable_argsort 2
      [1/2, 1/4, 1/8] [1, 2, 0, 1] [[1], [1], [1], [1]] [0, 1, 1, 1] None = Inr out
    \<and> length (to_draft_logits out) = 2"
proof -
  have bb: "train_backbone_ok (\<lambda>th lat lpos lm ids pos am. Inr (replicate (length ids) [1])) 1"
    by (simp add: train_backbone_ok_def matrix_def)
  have "row_ok 3 1 [1, 2, 0, 1] [[1], [1], [1], [1]] [0, 1, 1, 1] None [1/2, 1/4, 1/8]" by (simp add: row_ok_def)
  from training_forward_supervision [OF tiny_model_ok _ bb stable_argsort_ok this, of tiny_act 2]
  show ?thesis by (auto simp: tiny_model_def)
qed

end
