(* ===== verification/Train_Metrics.thy ===== *)
theory Train_Metrics
  imports Prelude Complex_Main "HOL-Library.List_Lexorder" "HOL-Library.Char_ord"
begin

text \<open>
  The metric store of the trainer, \<^verbatim>\<open>DeepSpec/deepspec/utils/metrics.py\<close>: every rank
  records scalars and ratios under a name, and \<open>flush\<close> reduces the window first on the rank and
  then over all ranks. The store of a rank is an association list in insertion order (the
  module-level dictionary); the collective operations of \<open>flush\<close> act on the list of the stores
  of all ranks. Values are exact rationals.
\<close>

section \<open>Recording\<close>

datatype metric_entry =
    RatioEntry string "rat list" "rat list"
  | ScalarEntry string "rat list"

type_synonym metric_store = "(string \<times> metric_entry) list"

fun entry_reduction :: "metric_entry \<Rightarrow> string" where
  "entry_reduction (RatioEntry r _ _) = r"
| "entry_reduction (ScalarEntry r _) = r"

fun entry_kind :: "metric_entry \<Rightarrow> string" where
  "entry_kind (RatioEntry _ _ _) = ''ratio''"
| "entry_kind (ScalarEntry _ _) = ''scalar''"

fun entry_count :: "metric_entry \<Rightarrow> nat" where
  "entry_count (RatioEntry _ num _) = length num"
| "entry_count (ScalarEntry _ vals) = length vals"

text \<open>
  The pattern \<open>^(dp_)?(mean|sum|max|min|last)$\<close>, whose dollar also matches before a final line
  feed.
\<close>

definition reduction_matches :: "string \<Rightarrow> bool" where
  "reduction_matches r \<longleftrightarrow>
     r \<in> set (concat (map (\<lambda>p. concat (map (\<lambda>m. [p @ m, p @ m @ [CHR 0x0A]])
                [''mean'', ''sum'', ''max'', ''min'', ''last''])) ['''', ''dp_'']))"

definition add_metric ::
  "string \<Rightarrow> rat \<Rightarrow> rat option \<Rightarrow> string \<Rightarrow> string \<Rightarrow> metric_store \<Rightarrow> metric_store res" where
  "add_metric name v den reduction tag store =
     bindE (check (reduction_matches reduction) AssertionError) (\<lambda>_.
     let metric_name = tag @ ''/'' @ name in
     case den of
       Some d \<Rightarrow>
         bindE (check (reduction = ''dp_sum'') AssertionError) (\<lambda>_.
         case map_of store metric_name of
           None \<Rightarrow> Inr (store @ [(metric_name, RatioEntry reduction [v] [d])])
         | Some (RatioEntry r num dens) \<Rightarrow>
             bindE (check (r = reduction) AssertionError) (\<lambda>_.
             Inr (AList.update metric_name (RatioEntry r (num @ [v]) (dens @ [d])) store))
         | Some (ScalarEntry r vals) \<Rightarrow> Inl AssertionError)
     | None \<Rightarrow>
         (case map_of store metric_name of
           None \<Rightarrow> Inr (store @ [(metric_name, ScalarEntry reduction [v])])
         | Some (ScalarEntry r vals) \<Rightarrow>
             bindE (check (r = reduction) AssertionError) (\<lambda>_.
             Inr (AList.update metric_name (ScalarEntry r (vals @ [v])) store))
         | Some (RatioEntry r num dens) \<Rightarrow> Inl AssertionError))"

section \<open>Flushing\<close>

text \<open>\<open>_schema\<close>: names, kinds, reductions and counts, sorted by name.\<close>

definition sorted_items :: "metric_store \<Rightarrow> (string \<times> metric_entry) list" where
  "sorted_items store = sort_key fst store"

definition schema :: "metric_store \<Rightarrow> (string \<times> string \<times> string \<times> nat) list" where
  "schema store =
     map (\<lambda>(name, e). (name, entry_kind e, entry_reduction e, entry_count e)) (sorted_items store)"

text \<open>
  \<open>_assert_schema_consistent\<close> on all ranks: every rank gathers the same list and compares it
  with the schema of rank 0.
\<close>

definition assert_schema_consistent :: "metric_store list \<Rightarrow> unit res" where
  "assert_schema_consistent stores =
     check (\<forall>s \<in> set (tl (map schema stores)). s = hd (map schema stores)) AssertionError"

definition safe_div :: "rat \<Rightarrow> rat \<Rightarrow> rat" where
  "safe_div numerator denominator = (if denominator = 0 then 0 else numerator / denominator)"

text \<open>\<open>_local_reduce\<close>; sum-style metrics report the average per emit.\<close>

definition local_reduce :: "rat list \<Rightarrow> string \<Rightarrow> rat res" where
  "local_reduce vals reduction =
     bindE (check (vals \<noteq> []) AssertionError) (\<lambda>_.
     if reduction = ''last'' then Inr (last vals)
     else if reduction = ''max'' then Inr (Max (set vals))
     else if reduction = ''min'' then Inr (Min (set vals))
     else if reduction = ''mean'' \<or> reduction = ''sum'' then Inr (sum_list vals / of_nat (length vals))
     else Inl AssertionError)"

text \<open>\<open>_reduce_dp_value\<close>: the value every rank holds after the collective operation.\<close>

definition reduce_dp_value :: "rat list \<Rightarrow> string \<Rightarrow> rat res" where
  "reduce_dp_value ranks op_name =
     (if op_name = ''sum'' then Inr (sum_list ranks)
      else if op_name = ''mean'' then Inr (sum_list ranks / of_nat (length ranks))
      else if op_name = ''max'' then Inr (Max (set ranks))
      else if op_name = ''min'' then Inr (Min (set ranks))
      else if op_name = ''last'' then Inr (last ranks)
      else Inl AssertionError)"

definition strip_dp :: "string \<Rightarrow> string" where
  "strip_dp reduction = (if take 3 reduction = ''dp_'' then drop 3 reduction else reduction)"

text \<open>
  One entry of the loop of \<open>flush\<close>, for all ranks: the entries that the ranks hold under one
  name, and the value each rank puts into its summary. The schemas agree at this point, so the
  entries have one kind and one reduction.
\<close>

fun ratio_sums :: "metric_entry \<Rightarrow> rat \<times> rat" where
  "ratio_sums (RatioEntry _ num den) = (sum_list num, sum_list den)"
| "ratio_sums (ScalarEntry _ vals) = (0, 0)"

fun scalar_values :: "metric_entry \<Rightarrow> rat list" where
  "scalar_values (ScalarEntry _ vals) = vals"
| "scalar_values (RatioEntry _ _ _) = []"

definition flush_entry :: "metric_entry list \<Rightarrow> rat list res" where
  "flush_entry entries =
     (case hd entries of
        RatioEntry reduction _ _ \<Rightarrow>
          bindE (reduce_dp_value (map (\<lambda>e. fst (ratio_sums e)) entries) ''sum'') (\<lambda>num.
          bindE (reduce_dp_value (map (\<lambda>e. snd (ratio_sums e)) entries) ''sum'') (\<lambda>den.
          Inr (map (\<lambda>_. safe_div num den) entries)))
      | ScalarEntry reduction _ \<Rightarrow>
          bindE (mapE (\<lambda>e. local_reduce (scalar_values e) (strip_dp reduction)) entries) (\<lambda>locals.
          if take 3 reduction = ''dp_'' then
            bindE (reduce_dp_value locals (strip_dp reduction)) (\<lambda>v. Inr (map (\<lambda>_. v) entries))
          else Inr locals))"

text \<open>The names are read off rank 0; position \<open>i\<close> of every sorted store holds the same name.\<close>

definition flush_names :: "metric_store list \<Rightarrow> string list" where
  "flush_names stores = map fst (sorted_items (hd stores))"

text \<open>
  \<open>flush\<close> on all ranks: the summaries of the ranks or the exception they raise, and the stores
  afterwards. The schema check stands before the \<open>try\<close>, so only a later failure still clears
  the stores.
\<close>

definition flush_metrics :: "metric_store list \<Rightarrow> (string \<times> rat) list list res \<times> metric_store list" where
  "flush_metrics stores =
     (case assert_schema_consistent stores of
        Inl e \<Rightarrow> (Inl e, stores)
      | Inr _ \<Rightarrow>
          (bindE (mapE (\<lambda>i. flush_entry (map (\<lambda>s. snd (sorted_items s ! i)) stores))
                    [0..<length (flush_names stores)]) (\<lambda>rows.
           Inr (map (\<lambda>r. zip (flush_names stores) (map (\<lambda>row. row ! r) rows)) [0..<length stores])),
           map (\<lambda>_. []) stores))"

section \<open>What a store holds\<close>

text \<open>One call of \<open>add_metric\<close>, and the calls a rank makes in a logging window.\<close>

record emit =
  em_name :: string
  em_value :: rat
  em_den :: "rat option"
  em_reduction :: string
  em_tag :: string

definition record_emits :: "emit list \<Rightarrow> metric_store \<Rightarrow> metric_store res" where
  "record_emits es store =
     foldE (\<lambda>s e. add_metric (em_name e) (em_value e) (em_den e) (em_reduction e) (em_tag e) s) store es"

abbreviation emit_key :: "emit \<Rightarrow> string" where
  "emit_key e \<equiv> em_tag e @ ''/'' @ em_name e"

text \<open>What an entry holds of the calls made under its name.\<close>

fun entry_of :: "emit list \<Rightarrow> metric_entry option" where
  "entry_of [] = None"
| "entry_of (e # es) =
     Some (case em_den e of
        Some _ \<Rightarrow> RatioEntry (em_reduction e) (map em_value (e # es)) (map (\<lambda>x. the (em_den x)) (e # es))
      | None \<Rightarrow> ScalarEntry (em_reduction e) (map em_value (e # es)))"

abbreviation named :: "string \<Rightarrow> emit list \<Rightarrow> emit list" where
  "named nm es \<equiv> filter (\<lambda>e. emit_key e = nm) es"

definition holds_emits :: "metric_store \<Rightarrow> emit list \<Rightarrow> bool" where
  "holds_emits store es \<longleftrightarrow> distinct (map fst store) \<and> (\<forall>nm. map_of store nm = entry_of (named nm es))"

lemma holds_empty: "holds_emits [] []"
  by (simp add: holds_emits_def)

lemma entry_of_snoc:
  assumes "es \<noteq> []" and "(em_den (hd es) = None) = (em_den e = None)"
  shows "entry_of (es @ [e]) =
     Some (case the (entry_of es) of
        RatioEntry r num den \<Rightarrow> RatioEntry r (num @ [em_value e]) (den @ [the (em_den e)])
      | ScalarEntry r vals \<Rightarrow> ScalarEntry r (vals @ [em_value e]))"
  using assms by (cases es) (auto split: option.splits)

lemma entry_of_Ratio:
  "entry_of es = Some (RatioEntry r num den) \<Longrightarrow> es \<noteq> [] \<and> em_den (hd es) \<noteq> None"
  by (cases es) (auto split: option.splits)

lemma entry_of_Scalar:
  "entry_of es = Some (ScalarEntry r vals) \<Longrightarrow> es \<noteq> [] \<and> em_den (hd es) = None"
  by (cases es) (auto split: option.splits)

lemma map_of_new: "map_of xs k = None \<Longrightarrow> [k \<mapsto> v] ++ map_of xs = (map_of xs)(k \<mapsto> v)"
  by (rule ext) (auto simp: map_add_def split: option.splits)

lemma distinct_new: "distinct (map fst xs) \<Longrightarrow> map_of xs k = None \<Longrightarrow> distinct (map fst (xs @ [(k, v)]))"
  by (auto simp: map_of_eq_None_iff)

text \<open>Recording a call extends the entry of its name and leaves the others alone.\<close>

lemma add_metric_entry:
  assumes "add_metric name v den red tag store = Inr store'"
  shows "\<exists>ent. map_of store' = (map_of store)(tag @ ''/'' @ name \<mapsto> ent)
     \<and> (distinct (map fst store) \<longrightarrow> distinct (map fst store'))
     \<and> (case map_of store (tag @ ''/'' @ name) of
          None \<Rightarrow> ent = (case den of Some d \<Rightarrow> RatioEntry red [v] [d] | None \<Rightarrow> ScalarEntry red [v])
        | Some (RatioEntry r num dens) \<Rightarrow> \<exists>d. den = Some d \<and> ent = RatioEntry r (num @ [v]) (dens @ [d])
        | Some (ScalarEntry r vals) \<Rightarrow> den = None \<and> ent = ScalarEntry r (vals @ [v]))"
proof (cases den)
  case None
  then show ?thesis
    using assms
    by (cases "map_of store (tag @ ''/'' @ name)")
      (auto simp: add_metric_def Let_def res_simps map_of_new distinct_new update_conv' distinct_update
        split: metric_entry.splits)
next
  case (Some d)
  then show ?thesis
    using assms
    by (cases "map_of store (tag @ ''/'' @ name)")
      (auto simp: add_metric_def Let_def res_simps map_of_new distinct_new update_conv' distinct_update
        split: metric_entry.splits)
qed

lemma add_metric_holds:
  assumes "add_metric (em_name e) (em_value e) (em_den e) (em_reduction e) (em_tag e) store = Inr store'"
    and "holds_emits store es"
  shows "holds_emits store' (es @ [e])"
proof -
  let ?k = "emit_key e"
  obtain ent where m: "map_of store' = (map_of store)(?k \<mapsto> ent)" and d: "distinct (map fst store')"
    and ent: "case map_of store ?k of
          None \<Rightarrow> ent = (case em_den e of Some d \<Rightarrow> RatioEntry (em_reduction e) [em_value e] [d]
                                    | None \<Rightarrow> ScalarEntry (em_reduction e) [em_value e])
        | Some (RatioEntry r num dens) \<Rightarrow> \<exists>d. em_den e = Some d \<and> ent = RatioEntry r (num @ [em_value e]) (dens @ [d])
        | Some (ScalarEntry r vals) \<Rightarrow> em_den e = None \<and> ent = ScalarEntry r (vals @ [em_value e])"
    using add_metric_entry [OF assms(1)] assms(2) by (auto simp: holds_emits_def)
  have old: "map_of store nm = entry_of (named nm es)" for nm using assms(2) by (simp add: holds_emits_def)
  have "entry_of (named ?k es @ [e]) = Some ent"
  proof (cases "entry_of (named ?k es)")
    case None
    then have "named ?k es = []" by (cases "named ?k es") auto
    then show ?thesis using ent None old by (auto split: option.splits)
  next
    case (Some x)
    then show ?thesis
      using ent old entry_of_snoc [of "named ?k es" e] entry_of_Ratio [of "named ?k es"] entry_of_Scalar [of "named ?k es"]
      by (cases x) auto
  qed
  then show ?thesis using m d old by (auto simp: holds_emits_def)
qed

lemma record_emits_holds:
  assumes "record_emits es store = Inr store'" and "holds_emits store es0"
  shows "holds_emits store' (es0 @ es)"
  using assms
proof (induction es arbitrary: store es0)
  case Nil
  then show ?case by (simp add: record_emits_def)
next
  case (Cons e es)
  then obtain s where s: "add_metric (em_name e) (em_value e) (em_den e) (em_reduction e) (em_tag e) store = Inr s"
    and rest: "record_emits es s = Inr store'"
    by (auto simp: record_emits_def res_simps)
  from Cons.IH [OF rest add_metric_holds [OF s Cons.prems(2)]] show ?case by simp
qed

section \<open>Equal schemas\<close>

lemma sorted_items_set: "set (sorted_items s) = set s"
  by (simp add: sorted_items_def)

lemma sorted_items_length: "length (sorted_items s) = length s"
  by (simp add: sorted_items_def)

lemma sorted_items_distinct: "distinct (map fst s) \<Longrightarrow> distinct (map fst (sorted_items s))"
  by (simp add: sorted_items_def distinct_map)

lemma sorted_items_lookup:
  assumes "distinct (map fst s)" and "i < length s"
  shows "map_of s (fst (sorted_items s ! i)) = Some (snd (sorted_items s ! i))"
  using assms sorted_items_length [of s] sorted_items_set [of s]
  by (metis nth_mem map_of_is_SomeI prod.collapse)

lemma sorted_items_find:
  assumes "map_of s nm = Some e"
  shows "\<exists>i < length s. fst (sorted_items s ! i) = nm"
proof -
  have "(nm, e) \<in> set (sorted_items s)" using assms by (simp add: sorted_items_set map_of_SomeD)
  then show ?thesis by (metis fst_conv in_set_conv_nth sorted_items_length)
qed

lemma schema_eq:
  assumes "schema s = schema t"
  shows "length s = length t"
    and "i < length s \<Longrightarrow> fst (sorted_items s ! i) = fst (sorted_items t ! i)"
    and "i < length s \<Longrightarrow> entry_kind (snd (sorted_items s ! i)) = entry_kind (snd (sorted_items t ! i))"
    and "i < length s \<Longrightarrow> entry_reduction (snd (sorted_items s ! i)) = entry_reduction (snd (sorted_items t ! i))"
proof -
  show len: "length s = length t"
    using arg_cong [OF assms, of length] by (simp add: schema_def sorted_items_length)
  have at: "schema s ! i = schema t ! i" for i using assms by simp
  show "fst (sorted_items s ! i) = fst (sorted_items t ! i)"
    and "entry_kind (snd (sorted_items s ! i)) = entry_kind (snd (sorted_items t ! i))"
    and "entry_reduction (snd (sorted_items s ! i)) = entry_reduction (snd (sorted_items t ! i))" if "i < length s"
    using at [of i] that len by (simp_all add: schema_def sorted_items_length split_beta)
qed

lemma schemas_agree:
  assumes "assert_schema_consistent stores = Inr u" and "s \<in> set stores"
  shows "schema s = schema (hd stores)"
  using assms by (cases stores) (auto simp: assert_schema_consistent_def res_simps)

text \<open>The entries all ranks hold at one position are those of one name, in one kind and reduction.\<close>

lemma aligned_entries:
  assumes "assert_schema_consistent stores = Inr u" and "i < length (hd stores)" and "s \<in> set stores"
    and "holds_emits s es"
  shows "entry_of (named (fst (sorted_items (hd stores) ! i)) es) = Some (snd (sorted_items s ! i))"
    and "entry_kind (snd (sorted_items s ! i)) = entry_kind (snd (sorted_items (hd stores) ! i))"
    and "entry_reduction (snd (sorted_items s ! i)) = entry_reduction (snd (sorted_items (hd stores) ! i))"
proof -
  note eq = schema_eq [OF schemas_agree [OF assms(1,3)]]
  have i: "i < length s" using eq(1) assms(2) by simp
  show "entry_kind (snd (sorted_items s ! i)) = entry_kind (snd (sorted_items (hd stores) ! i))"
    and "entry_reduction (snd (sorted_items s ! i)) = entry_reduction (snd (sorted_items (hd stores) ! i))"
    using eq(3,4) [OF i] by auto
  have d: "distinct (map fst s)" and m: "map_of s nm = entry_of (named nm es)" for nm
    using assms(4) by (simp_all add: holds_emits_def)
  show "entry_of (named (fst (sorted_items (hd stores) ! i)) es) = Some (snd (sorted_items s ! i))"
    using sorted_items_lookup [OF d i] unfolding m eq(2) [OF i] .
qed

section \<open>What a flush reports\<close>

text \<open>The sums over all ranks and calls of a window under one name.\<close>

definition total_value :: "string \<Rightarrow> emit list list \<Rightarrow> rat" where
  "total_value nm windows = sum_list (map (\<lambda>es. sum_list (map em_value (named nm es))) windows)"

definition total_den :: "string \<Rightarrow> emit list list \<Rightarrow> rat" where
  "total_den nm windows = sum_list (map (\<lambda>es. sum_list (map (\<lambda>e. the (em_den e)) (named nm es))) windows)"

definition mean_value :: "string \<Rightarrow> emit list \<Rightarrow> rat" where
  "mean_value nm es = sum_list (map em_value (named nm es)) / of_nat (length (named nm es))"

lemma ratio_sums_entry:
  "entry_of es = Some e \<Longrightarrow> entry_kind e = ''ratio''
     \<Longrightarrow> ratio_sums e = (sum_list (map em_value es), sum_list (map (\<lambda>x. the (em_den x)) es))"
  by (cases es) (auto split: option.splits)

lemma scalar_values_entry:
  "entry_of es = Some e \<Longrightarrow> entry_kind e = ''scalar'' \<Longrightarrow> scalar_values e = map em_value es"
  by (cases es) (auto split: option.splits)

text \<open>
  One position of the flush, with the entries expressed through the calls: ranks are pairs of a
  store and the calls it holds.
\<close>

lemma flush_entry_ratio:
  assumes "entries \<noteq> []" and "hd entries = RatioEntry red num den"
    and "list_all2 (\<lambda>e es. entry_of es = Some e \<and> entry_kind e = ''ratio'') entries windows"
  shows "flush_entry entries = Inr (map (\<lambda>_. safe_div
     (sum_list (map (\<lambda>es. sum_list (map em_value es)) windows))
     (sum_list (map (\<lambda>es. sum_list (map (\<lambda>e. the (em_den e)) es)) windows))) entries)"
proof -
  have "map (\<lambda>e. fst (ratio_sums e)) entries = map (\<lambda>es. sum_list (map em_value es)) windows"
    and "map (\<lambda>e. snd (ratio_sums e)) entries = map (\<lambda>es. sum_list (map (\<lambda>e. the (em_den e)) es)) windows"
    using assms(3) by (induction rule: list_all2_induct) (auto dest: ratio_sums_entry)
  then show ?thesis using assms(2) by (simp add: flush_entry_def reduce_dp_value_def)
qed

lemma flush_entry_scalar:
  assumes "entries \<noteq> []" and "hd entries = ScalarEntry red vals"
    and "list_all2 (\<lambda>e es. entry_of es = Some e \<and> entry_kind e = ''scalar'') entries windows"
  shows "flush_entry entries =
     bindE (mapE (\<lambda>es. local_reduce (map em_value es) (strip_dp red)) windows) (\<lambda>locals.
       if take 3 red = ''dp_'' then bindE (reduce_dp_value locals (strip_dp red)) (\<lambda>v. Inr (map (\<lambda>_. v) entries))
       else Inr locals)"
proof -
  have "mapE (\<lambda>e. local_reduce (scalar_values e) (strip_dp red)) entries
      = mapE (\<lambda>es. local_reduce (map em_value es) (strip_dp red)) windows"
    using assms(3) by (induction rule: list_all2_induct) (auto dest: scalar_values_entry)
  then show ?thesis using assms(2) by (simp add: flush_entry_def)
qed

text \<open>
  A proper reduction has no trailing line feed, and every rank recorded its window from an empty
  store without a failing assertion.
\<close>

definition proper_reduction :: "string \<Rightarrow> bool" where
  "proper_reduction r \<longleftrightarrow> strip_dp r \<in> {''mean'', ''sum'', ''max'', ''min'', ''last''}"

definition recorded_windows :: "emit list list \<Rightarrow> metric_store list \<Rightarrow> bool" where
  "recorded_windows windows stores \<longleftrightarrow>
     windows \<noteq> [] \<and> mapE (\<lambda>es. record_emits es []) windows = Inr stores
     \<and> (\<forall>es \<in> set windows. \<forall>e \<in> set es. proper_reduction (em_reduction e))"

lemma recorded_holds:
  assumes "recorded_windows windows stores"
  shows "list_all2 holds_emits stores windows" and "stores \<noteq> []"
proof -
  have m: "mapE (\<lambda>es. record_emits es []) windows = Inr stores" and ne: "windows \<noteq> []"
    using assms by (auto simp: recorded_windows_def)
  have len: "length stores = length windows" using mapE_length [OF m] .
  then show "stores \<noteq> []" using ne by auto
  have "holds_emits (stores ! k) (windows ! k)" if "k < length windows" for k
    using record_emits_holds [OF mapE_nth [OF m that] holds_empty] by simp
  then show "list_all2 holds_emits stores windows" using len by (simp add: list_all2_conv_all_nth)
qed

lemma reduce_dp_ok: "strip_dp r \<in> {''mean'', ''sum'', ''max'', ''min'', ''last''} \<Longrightarrow> \<exists>v. reduce_dp_value ranks (strip_dp r) = Inr v"
  by (auto simp: reduce_dp_value_def)

lemma local_reduce_ok: "vals \<noteq> [] \<Longrightarrow> red \<in> {''mean'', ''sum'', ''max'', ''min'', ''last''} \<Longrightarrow> \<exists>v. local_reduce vals red = Inr v"
  by (auto simp: local_reduce_def)

lemma mapE_exists: "(\<And>x. x \<in> set xs \<Longrightarrow> \<exists>y. f x = Inr y) \<Longrightarrow> \<exists>ys. mapE f xs = Inr ys"
  by (induction xs) (auto, metis bindE.simps(2))

lemma entry_of_reduction: "entry_of es = Some e \<Longrightarrow> es \<noteq> [] \<and> entry_reduction e = em_reduction (hd es)"
  by (cases es) (auto split: option.splits)

lemma entry_of_kind:
  "entry_of es = Some e \<Longrightarrow> entry_kind e = (if em_den (hd es) = None then ''scalar'' else ''ratio'')"
  by (cases es) (auto split: option.splits)

lemma flush_entry_scalar_ok:
  assumes ne: "entries \<noteq> []" and hd: "hd entries = ScalarEntry red vals"
    and al: "list_all2 (\<lambda>e es. entry_of es = Some e \<and> entry_kind e = ''scalar'') entries ws"
    and pr: "strip_dp red \<in> {''mean'', ''sum'', ''max'', ''min'', ''last''}"
  shows "\<exists>row. flush_entry entries = Inr row \<and> length row = length ws
     \<and> (red = ''mean'' \<longrightarrow> row = map (\<lambda>es. sum_list (map em_value es) / of_nat (length es)) ws)
     \<and> (red = ''last'' \<longrightarrow> row = map (\<lambda>es. em_value (last es)) ws)"
proof -
  let ?f = "\<lambda>es. local_reduce (map em_value es) (strip_dp red)"
  have ws: "w \<noteq> []" if "w \<in> set ws" for w
    using al that by (auto simp: list_all2_conv_all_nth in_set_conv_nth dest!: entry_of_reduction)
  obtain locals where locals: "mapE ?f ws = Inr locals"
    using mapE_exists [of ws ?f] local_reduce_ok pr ws by (metis (no_types, lifting) map_is_Nil_conv)
  have fe: "flush_entry entries =
     (if take 3 red = ''dp_'' then bindE (reduce_dp_value locals (strip_dp red)) (\<lambda>v. Inr (map (\<lambda>_. v) entries))
      else Inr locals)"
    using flush_entry_scalar [OF ne hd al] locals by simp
  have "mapE ?f ws = Inr (map (\<lambda>es. sum_list (map em_value es) / of_nat (length es)) ws)" if "red = ''mean''"
    by (rule mapE_all) (use ws that in \<open>auto simp: local_reduce_def strip_dp_def\<close>)
  moreover have "mapE ?f ws = Inr (map (\<lambda>es. em_value (last es)) ws)" if "red = ''last''"
    by (rule mapE_all) (use ws that in \<open>auto simp: local_reduce_def strip_dp_def last_map\<close>)
  ultimately show ?thesis
    using fe locals mapE_length [OF locals] reduce_dp_ok [OF pr, of locals] list_all2_lengthD [OF al]
    by (cases "take 3 red = ''dp_''") auto
qed

text \<open>The values all ranks report of one name.\<close>

definition reports :: "emit list list \<Rightarrow> string \<Rightarrow> rat list \<Rightarrow> bool" where
  "reports windows nm row \<longleftrightarrow> length row = length windows
     \<and> (case em_den (hd (named nm (hd windows))) of
          Some _ \<Rightarrow> row = map (\<lambda>_. safe_div (total_value nm windows) (total_den nm windows)) windows
        | None \<Rightarrow>
            (em_reduction (hd (named nm (hd windows))) = ''mean'' \<longrightarrow> row = map (mean_value nm) windows)
          \<and> (em_reduction (hd (named nm (hd windows))) = ''last'' \<longrightarrow>
               row = map (\<lambda>es. em_value (last (named nm es))) windows))"

lemma flush_position:
  assumes rec: "recorded_windows windows stores" and cons: "assert_schema_consistent stores = Inr u"
    and i: "i < length (hd stores)"
  shows "\<exists>row. flush_entry (map (\<lambda>s. snd (sorted_items s ! i)) stores) = Inr row
     \<and> reports windows (fst (sorted_items (hd stores) ! i)) row"
proof -
  note h = recorded_holds [OF rec]
  let ?nm = "fst (sorted_items (hd stores) ! i)" and ?es = "map (\<lambda>s. snd (sorted_items s ! i)) stores"
  let ?ws = "map (named ?nm) windows" and ?e0 = "snd (sorted_items (hd stores) ! i)"
  have al: "list_all2 (\<lambda>e es. entry_of es = Some e \<and> entry_kind e = entry_kind ?e0) ?es ?ws"
    using h(1) aligned_entries(1,2) [OF cons i] by (auto simp: list_all2_conv_all_nth)
  have len: "length stores = length windows" using h(1) by (rule list_all2_lengthD)
  have hd_es: "hd ?es = ?e0" and ne: "?es \<noteq> []" using h(2) by (cases stores; simp)+
  have e0: "entry_of (named ?nm (hd windows)) = Some ?e0"
    using al h(2) len by (cases stores; cases windows) auto
  note k0 = entry_of_kind [OF e0] and r0 = entry_of_reduction [OF e0]
  show ?thesis
  proof (cases ?e0)
    case (RatioEntry red num den)
    then have "em_den (hd (named ?nm (hd windows))) \<noteq> None" using k0 by (auto split: if_splits)
    moreover have "list_all2 (\<lambda>e es. entry_of es = Some e \<and> entry_kind e = ''ratio'') ?es ?ws"
      using al RatioEntry by (auto elim: list_all2_mono)
    ultimately show ?thesis
      using flush_entry_ratio [OF ne, of red num den ?ws] RatioEntry hd_es len
      by (auto simp: reports_def total_value_def total_den_def comp_def map_replicate_const)
  next
    case (ScalarEntry red vals)
    then have d: "em_den (hd (named ?nm (hd windows))) = None" using k0 by (auto split: if_splits)
    have red: "red = em_reduction (hd (named ?nm (hd windows)))" using r0 ScalarEntry by simp
    have "hd (named ?nm (hd windows)) \<in> set (hd windows)" using r0 hd_in_set [of "named ?nm (hd windows)"] by auto
    then have pr: "strip_dp red \<in> {''mean'', ''sum'', ''max'', ''min'', ''last''}"
      using rec red h(2) len by (cases windows) (auto simp: recorded_windows_def proper_reduction_def)
    have "list_all2 (\<lambda>e es. entry_of es = Some e \<and> entry_kind e = ''scalar'') ?es ?ws"
      using al ScalarEntry by (auto elim: list_all2_mono)
    from flush_entry_scalar_ok [OF ne _ this pr] show ?thesis
      using hd_es ScalarEntry d red by (auto simp: reports_def mean_value_def comp_def)
  qed
qed

section \<open>When recording cannot fail\<close>

text \<open>
  Calls agree when every name is used with one kind and one reduction; then recording them never
  trips an assertion.
\<close>

definition emits_agree :: "emit list \<Rightarrow> bool" where
  "emits_agree es \<longleftrightarrow> (\<forall>e \<in> set es. reduction_matches (em_reduction e)
     \<and> (em_den e \<noteq> None \<longrightarrow> em_reduction e = ''dp_sum'')
     \<and> (\<forall>e' \<in> set es. emit_key e' = emit_key e \<longrightarrow>
          em_reduction e' = em_reduction e \<and> (em_den e' = None) = (em_den e = None)))"

lemma add_metric_ok:
  assumes h: "holds_emits store es" and ag: "emits_agree (es @ [e])"
  shows "\<exists>store'. add_metric (em_name e) (em_value e) (em_den e) (em_reduction e) (em_tag e) store = Inr store'"
proof -
  have m: "reduction_matches (em_reduction e)" and dp: "em_den e \<noteq> None \<Longrightarrow> em_reduction e = ''dp_sum''"
    using ag by (auto simp: emits_agree_def)
  have at: "map_of store (emit_key e) = entry_of (named (emit_key e) es)" using h by (simp add: holds_emits_def)
  show ?thesis
  proof (cases "entry_of (named (emit_key e) es)")
    case None
    then show ?thesis using m dp at by (cases "em_den e") (auto simp: add_metric_def)
  next
    case (Some x)
    note r = entry_of_reduction [OF Some] and k = entry_of_kind [OF Some]
    have "hd (named (emit_key e) es) \<in> set (named (emit_key e) es)" by (rule hd_in_set) (use r in blast)
    then have "em_reduction (hd (named (emit_key e) es)) = em_reduction e"
      and "(em_den (hd (named (emit_key e) es)) = None) = (em_den e = None)"
      using ag unfolding emits_agree_def by auto
    then show ?thesis
      using m dp at Some r k by (cases x; cases "em_den e") (auto simp: add_metric_def)
  qed
qed

lemma emits_agree_prefix: "emits_agree (es @ es') \<Longrightarrow> emits_agree es"
  by (simp add: emits_agree_def)

lemma record_emits_ok:
  assumes "holds_emits store es0" and "emits_agree (es0 @ es)"
  shows "\<exists>store'. record_emits es store = Inr store' \<and> holds_emits store' (es0 @ es)"
  using assms
proof (induction es arbitrary: store es0)
  case Nil
  then show ?case by (simp add: record_emits_def)
next
  case (Cons e es)
  have ag: "emits_agree ((es0 @ [e]) @ es)" using Cons.prems(2) by simp
  obtain s where s: "add_metric (em_name e) (em_value e) (em_den e) (em_reduction e) (em_tag e) store = Inr s"
    using add_metric_ok [OF Cons.prems(1) emits_agree_prefix [OF ag]] by blast
  from Cons.IH [OF add_metric_holds [OF s Cons.prems(1)] ag] s show ?case by (auto simp: record_emits_def)
qed

text \<open>
  The calls of the trainer: \<open>loss\<close> is a mean, \<open>lr\<close> and \<open>grad_norm\<close> are last values and every other
  name is a ratio.
\<close>

definition trainer_emit :: "emit \<Rightarrow> bool" where
  "trainer_emit e \<longleftrightarrow> em_tag e = ''train''
     \<and> (if em_name e = ''loss'' then em_den e = None \<and> em_reduction e = ''mean''
        else if em_name e = ''lr'' \<or> em_name e = ''grad_norm'' then em_den e = None \<and> em_reduction e = ''last''
        else em_den e \<noteq> None \<and> em_reduction e = ''dp_sum'')"

definition trainer_store :: "metric_store \<Rightarrow> bool" where
  "trainer_store s \<longleftrightarrow> (\<exists>es. holds_emits s es \<and> (\<forall>e \<in> set es. trainer_emit e))"

lemma trainer_emit_kind:
  assumes "trainer_emit e"
  shows "reduction_matches (em_reduction e)" and "em_den e \<noteq> None \<Longrightarrow> em_reduction e = ''dp_sum''"
proof -
  have "reduction_matches ''mean''" "reduction_matches ''last''" "reduction_matches ''dp_sum''" by code_simp+
  then show "reduction_matches (em_reduction e)"
    using assms unfolding trainer_emit_def by (metis (full_types))
  show "em_den e \<noteq> None \<Longrightarrow> em_reduction e = ''dp_sum''"
    using assms unfolding trainer_emit_def by (metis (full_types))
qed

lemma trainer_emit_same:
  assumes "trainer_emit e" and "trainer_emit e'" and "emit_key e' = emit_key e"
  shows "em_reduction e' = em_reduction e \<and> (em_den e' = None) = (em_den e = None)"
proof -
  have "em_name e' = em_name e" using assms by (simp add: trainer_emit_def)
  then show ?thesis using assms(1,2) unfolding trainer_emit_def by (metis (full_types))
qed

lemma trainer_emits_agree: "\<forall>e \<in> set es. trainer_emit e \<Longrightarrow> emits_agree es"
  unfolding emits_agree_def using trainer_emit_kind trainer_emit_same by blast

lemma trainer_store_empty: "trainer_store []"
  using holds_empty by (auto simp: trainer_store_def)

lemma record_trainer_emits:
  assumes "trainer_store s" and "\<forall>e \<in> set es. trainer_emit e"
  shows "\<exists>s'. record_emits es s = Inr s' \<and> trainer_store s'"
proof -
  obtain es0 where es0: "holds_emits s es0" "\<forall>e \<in> set es0. trainer_emit e"
    using assms(1) by (auto simp: trainer_store_def)
  then have "emits_agree (es0 @ es)" using assms(2) by (intro trainer_emits_agree) auto
  from record_emits_ok [OF es0(1) this] es0(2) assms(2) show ?thesis
    unfolding trainer_store_def by (metis Un_iff set_append)
qed

section \<open>The logged summary\<close>

text \<open>
  (C34) What the trainer logs. When every rank has recorded its window and the schemas agree, the
  flush succeeds and empties all stores. Every rank reports a value for every name: for a ratio
  the same quotient of the sums over all ranks and all calls, whatever their number (never an
  average of quotients), for a local mean or last value the one of its own calls.
\<close>

theorem metrics_flush_exact:
  assumes rec: "recorded_windows windows stores" and cons: "assert_schema_consistent stores = Inr ()"
  shows "\<exists>summaries. flush_metrics stores = (Inr summaries, map (\<lambda>_. []) stores)
     \<and> length summaries = length windows
     \<and> (\<forall>e \<in> set (hd windows). \<exists>row. reports windows (emit_key e) row
          \<and> (\<forall>r < length windows. map_of (summaries ! r) (emit_key e) = Some (row ! r)))"
proof -
  note h = recorded_holds [OF rec]
  let ?n = "length (hd stores)" and ?name = "\<lambda>i. fst (sorted_items (hd stores) ! i)"
  let ?f = "\<lambda>i. flush_entry (map (\<lambda>s. snd (sorted_items s ! i)) stores)"
  have len: "length stores = length windows" using h(1) by (rule list_all2_lengthD)
  obtain rows where rows: "mapE ?f [0..<?n] = Inr rows"
    using mapE_exists [of "[0..<?n]" ?f] flush_position [OF rec cons] by (metis (no_types, lifting) atLeastLessThan_iff set_upt)
  have lr: "length rows = ?n" using mapE_length [OF rows] by simp
  have row: "reports windows (?name i) (rows ! i)" if "i < ?n" for i
    using flush_position [OF rec cons that] mapE_nth [OF rows, of i] that by simp
  have names: "flush_names stores = map ?name [0..<?n]"
    by (rule nth_equalityI) (simp_all add: flush_names_def sorted_items_length)
  let ?sum = "map (\<lambda>r. zip (flush_names stores) (map (\<lambda>row. row ! r) rows)) [0..<length stores]"
  have "flush_metrics stores = (Inr ?sum, map (\<lambda>_. []) stores)"
    using cons rows by (simp add: flush_metrics_def flush_names_def sorted_items_length)
  moreover have "\<exists>row. reports windows (emit_key e) row
      \<and> (\<forall>r < length windows. map_of (?sum ! r) (emit_key e) = Some (row ! r))" if "e \<in> set (hd windows)" for e
  proof -
    have hh: "holds_emits (hd stores) (hd windows)" using h len by (cases stores; cases windows) auto
    have "named (emit_key e) (hd windows) \<noteq> []" using that by (auto simp: filter_empty_conv)
    then obtain x where "map_of (hd stores) (emit_key e) = Some x"
      using hh by (cases "named (emit_key e) (hd windows)") (auto simp: holds_emits_def)
    then obtain i where i: "i < ?n" "?name i = emit_key e" using sorted_items_find by blast
    have "distinct (flush_names stores)" using hh by (simp add: flush_names_def sorted_items_distinct holds_emits_def)
    then have "map_of (zip (flush_names stores) (map (\<lambda>row. row ! r) rows)) (emit_key e) = Some (rows ! i ! r)" for r
      using map_of_zip_nth [of "flush_names stores" "map (\<lambda>row. row ! r) rows" i] i lr by (simp add: names)
    then show ?thesis using row [OF i(1)] i(2) len by (intro exI [of _ "rows ! i"]) simp
  qed
  ultimately show ?thesis using len by (intro exI [of _ ?sum]) simp
qed

definition sample_windows :: "emit list list" where
  "sample_windows =
     [[\<lparr> em_name = ''ce_loss'', em_value = 3, em_den = Some 2, em_reduction = ''dp_sum'', em_tag = ''train'' \<rparr>,
       \<lparr> em_name = ''loss'', em_value = 5, em_den = None, em_reduction = ''mean'', em_tag = ''train'' \<rparr>],
      [\<lparr> em_name = ''ce_loss'', em_value = 5, em_den = Some 6, em_reduction = ''dp_sum'', em_tag = ''train'' \<rparr>,
       \<lparr> em_name = ''loss'', em_value = 1, em_den = None, em_reduction = ''mean'', em_tag = ''train'' \<rparr>]]"

definition sample_stores :: "metric_store list" where
  "sample_stores =
     [[(''train/ce_loss'', RatioEntry ''dp_sum'' [3] [2]), (''train/loss'', ScalarEntry ''mean'' [5])],
      [(''train/ce_loss'', RatioEntry ''dp_sum'' [5] [6]), (''train/loss'', ScalarEntry ''mean'' [1])]]"

theorem metrics_flush_exact_witness:
  "(\<exists>summaries. flush_metrics sample_stores = (Inr summaries, map (\<lambda>_. []) sample_stores)
     \<and> length summaries = length sample_windows
     \<and> (\<forall>e \<in> set (hd sample_windows). \<exists>row. reports sample_windows (emit_key e) row
          \<and> (\<forall>r < length sample_windows. map_of (summaries ! r) (emit_key e) = Some (row ! r))))
   \<and> safe_div (total_value ''train/ce_loss'' sample_windows) (total_den ''train/ce_loss'' sample_windows) = 1"
proof
  have "recorded_windows sample_windows sample_stores" by code_simp
  moreover have "assert_schema_consistent sample_stores = Inr ()" by code_simp
  ultimately show "\<exists>summaries. flush_metrics sample_stores = (Inr summaries, map (\<lambda>_. []) sample_stores)
     \<and> length summaries = length sample_windows
     \<and> (\<forall>e \<in> set (hd sample_windows). \<exists>row. reports sample_windows (emit_key e) row
          \<and> (\<forall>r < length sample_windows. map_of (summaries ! r) (emit_key e) = Some (row ! r)))"
    by (rule metrics_flush_exact)
  show "safe_div (total_value ''train/ce_loss'' sample_windows) (total_den ''train/ce_loss'' sample_windows) = 1"
    by code_simp
qed

end
