(* ===== verification/Draft_Loss.thy ===== *)
theory Draft_Loss
  imports Training_Forward Rejection_Sampling Train_Metrics
begin

text \<open>
  The training loss of the block drafters, \<^verbatim>\<open>DeepSpec/deepspec/modeling/myspec/loss.py\<close>
  (\<^verbatim>\<open>modeling/dspark/loss.py\<close> is a copy): the weighted cross-entropy, the distance to the
  target distribution, the confidence loss against the acceptance rate, the denominators summed
  over all ranks and the metrics recorded on the way. Tensors are nested lists in the order
  batch row, block, position; softmax, exponential, cross-entropy and the logistic functions are
  parameters. The collective operation acts on the list of all ranks.
\<close>

section \<open>Tensors\<close>

abbreviation map3d :: "('a \<Rightarrow> 'b) \<Rightarrow> 'a list list list \<Rightarrow> 'b list list list" where
  "map3d f \<equiv> map (map (map f))"

abbreviation zip3d :: "('a \<Rightarrow> 'b \<Rightarrow> 'c) \<Rightarrow> 'a list list list \<Rightarrow> 'b list list list \<Rightarrow> 'c list list list" where
  "zip3d f \<equiv> map2 (map2 (map2 f))"

definition sum3d :: "rat list list list \<Rightarrow> rat" where
  "sum3d xs = sum_list (map (\<lambda>row. sum_list (map sum_list row)) xs)"

text \<open>\<open>sum(dim=(0, 1))\<close>: one sum per block position.\<close>

definition position_sums :: "nat \<Rightarrow> rat list list list \<Rightarrow> rat list" where
  "position_sums bs xs = map (\<lambda>j. sum_list (map (\<lambda>block. block ! j) (concat xs))) [0..<bs]"

record loss_env =
  le_softmax :: "vec \<Rightarrow> vec"
  le_exp :: "rat \<Rightarrow> rat"
  le_cross_entropy :: "vec \<Rightarrow> token \<Rightarrow> rat"
  le_bce_with_logits :: "rat \<Rightarrow> rat \<Rightarrow> rat"
  le_sigmoid :: "rat \<Rightarrow> rat"

record forward_output =
  fo_draft_logits :: "vec list list list"
  fo_target_ids :: "token list list list"
  fo_eval_mask :: "bool list list list"
  fo_block_keep_mask :: "bool list list"
  fo_confidence_pred :: "rat list list list option"
  fo_aligned_target_logits :: "vec list list list option"

text \<open>The output of a batch stacks the outputs of its rows.\<close>

definition stack_rows :: "training_output list \<Rightarrow> forward_output" where
  "stack_rows rows =
     \<lparr> fo_draft_logits = map to_draft_logits rows,
       fo_target_ids = map (\<lambda>r. map bl_target_ids (to_labels r)) rows,
       fo_eval_mask = map (\<lambda>r. map bl_eval_mask (to_labels r)) rows,
       fo_block_keep_mask = map to_block_keep_mask rows,
       fo_confidence_pred = those (map to_confidence_pred rows),
       fo_aligned_target_logits = those (map to_aligned_target_logits rows) \<rparr>"

abbreviation fo_block_size :: "forward_output \<Rightarrow> nat" where
  "fo_block_size out \<equiv> length (hd (hd (fo_draft_logits out)))"

section \<open>The terms of one rank\<close>

definition build_loss_weight_mask :: "loss_env \<Rightarrow> bool list list list \<Rightarrow> rat option \<Rightarrow> rat list list list" where
  "build_loss_weight_mask env eval_mask loss_decay_gamma =
     (let loss_weight_mask = map3d of_bool eval_mask in
      case loss_decay_gamma of
        None \<Rightarrow> loss_weight_mask
      | Some gamma \<Rightarrow>
          if 0 < gamma then
            map (map (\<lambda>block. map2 (\<lambda>w pos. w * le_exp env (- of_nat pos / gamma)) block [0..<length block])) loss_weight_mask
          else loss_weight_mask)"

definition accept_rate_at :: "loss_env \<Rightarrow> vec \<Rightarrow> vec \<Rightarrow> rat" where
  "accept_rate_at env draft_logits target_logits =
     min (max (1 - 1 / 2 * sum_list (map2 (\<lambda>d t. \<bar>d - t\<bar>) (le_softmax env draft_logits) (le_softmax env target_logits))) 0) 1"

definition compute_accept_rate_3d ::
  "loss_env \<Rightarrow> forward_output \<Rightarrow> vec list list list option \<Rightarrow> rat list list list option" where
  "compute_accept_rate_3d env out aligned =
     map_option (\<lambda>target. zip3d (accept_rate_at env) (fo_draft_logits out) target) aligned"

definition compute_local_l1_term ::
  "loss_env \<Rightarrow> forward_output \<Rightarrow> vec list list list option \<Rightarrow> rat list list list \<Rightarrow> rat \<times> rat" where
  "compute_local_l1_term env out aligned loss_weight_mask =
     (case aligned of None \<Rightarrow> (0, 0)
      | Some target \<Rightarrow>
          let l1_dist_per_token = zip3d (\<lambda>d t. sum_list (map2 (\<lambda>x y. \<bar>x - y\<bar>) (le_softmax env d) (le_softmax env t)))
                                    (fo_draft_logits out) target
          in (sum3d (zip3d (*) l1_dist_per_token loss_weight_mask), sum3d loss_weight_mask))"

definition compute_local_probabilistic_stats ::
  "forward_output \<Rightarrow> rat list list list option \<Rightarrow> rat list list \<Rightarrow> rat \<times> rat list" where
  "compute_local_probabilistic_stats out accept_rate_3d valid_block_weights =
     (case accept_rate_3d of
        None \<Rightarrow> (0, replicate (fo_block_size out) 0)
      | Some rate \<Rightarrow>
          let valid_accept_rate = zip3d (\<lambda>a m. a * of_bool m) rate (fo_eval_mask out);
              pos_accept_sums = position_sums (fo_block_size out) valid_accept_rate;
              tau_prob_per_block = map (map (\<lambda>block. sum_list (cumprod_rat block) + 1)) valid_accept_rate;
              tau_prob_sum = sum_list (map sum_list (map2 (map2 (*)) tau_prob_per_block valid_block_weights))
          in (tau_prob_sum, pos_accept_sums))"

record loss_terms =
  ce_loss_num :: rat
  ce_loss_den :: rat
  l1_loss_num :: rat
  l1_loss_den :: rat
  confidence_loss_num :: rat
  confidence_loss_den :: rat

definition ratio_emit :: "string \<Rightarrow> rat \<Rightarrow> rat \<Rightarrow> emit" where
  "ratio_emit name num den =
     \<lparr> em_name = name, em_value = num, em_den = Some den, em_reduction = ''dp_sum'', em_tag = ''train'' \<rparr>"

text \<open>The confidence terms: loss, absolute error, bias and bias of the prefix products.\<close>

definition confidence_terms ::
  "loss_env \<Rightarrow> forward_output \<Rightarrow> rat list list list \<Rightarrow> rat list list list \<Rightarrow> rat list list list \<Rightarrow> rat \<times> rat \<times> rat \<times> rat" where
  "confidence_terms env out pred accept_rate_3d loss_weight_mask =
     (let confidence_errors = zip3d (*) (zip3d (le_bce_with_logits env) pred accept_rate_3d) loss_weight_mask;
          confidence_probs = map3d (le_sigmoid env) pred;
          confidence_error = zip3d (-) confidence_probs accept_rate_3d;
          valid = zip3d (\<lambda>x m. x * of_bool m);
          prefix_probs = map (map cumprod_rat) (valid confidence_probs (fo_eval_mask out));
          prefix_targets = map (map cumprod_rat) (valid accept_rate_3d (fo_eval_mask out))
      in (sum3d confidence_errors,
          sum3d (zip3d (*) (map3d abs confidence_error) loss_weight_mask),
          sum3d (zip3d (*) confidence_error loss_weight_mask),
          sum3d (zip3d (*) (zip3d (-) prefix_probs prefix_targets) loss_weight_mask)))"

definition valid_blocks :: "forward_output \<Rightarrow> rat list list" where
  "valid_blocks out =
     map2 (map2 (\<lambda>keep m. of_bool (keep \<and> (\<exists>b \<in> set m. b)))) (fo_block_keep_mask out) (fo_eval_mask out)"

definition collect_local_terms ::
  "loss_env \<Rightarrow> rat option \<Rightarrow> rat \<Rightarrow> forward_output \<Rightarrow> metric_store \<Rightarrow> (loss_terms \<times> bool \<times> metric_store) res" where
  "collect_local_terms env loss_decay_gamma l1_loss_alpha out store =
     (let loss_weight_mask = build_loss_weight_mask env (fo_eval_mask out) loss_decay_gamma;
          loss_per_token = zip3d (le_cross_entropy env) (fo_draft_logits out) (fo_target_ids out);
          aligned = fo_aligned_target_logits out;
          accept_rate_3d = compute_accept_rate_3d env out aligned;
          has_confidence = (fo_confidence_pred out \<noteq> None)
      in
      bindE (check (l1_loss_alpha \<le> 0 \<or> aligned \<noteq> None) AssertionError) (\<lambda>_.
      let (l1_num, l1_den) = (if 0 < l1_loss_alpha then compute_local_l1_term env out aligned loss_weight_mask else (0, 0));
          pos_total_counts = position_sums (fo_block_size out) (map3d of_bool (fo_eval_mask out));
          valid_block_weights = valid_blocks out;
          accept_block_count = sum_list (map sum_list valid_block_weights);
          (tau_prob_sum, pos_accept_sums) = compute_local_probabilistic_stats out accept_rate_3d valid_block_weights
      in
      bindE (check (\<not> has_confidence \<or> accept_rate_3d \<noteq> None) AssertionError) (\<lambda>_.
      let (conf_num, abs_error, bias, cumprod_bias) =
            (case fo_confidence_pred out of None \<Rightarrow> (0, 0, 0, 0)
             | Some pred \<Rightarrow> confidence_terms env out pred (the accept_rate_3d) loss_weight_mask);
          conf_den = (if has_confidence then sum3d loss_weight_mask else 0);
          terms = \<lparr> ce_loss_num = sum3d (zip3d (*) loss_per_token loss_weight_mask), ce_loss_den = sum3d loss_weight_mask,
                    l1_loss_num = l1_num, l1_loss_den = l1_den,
                    confidence_loss_num = conf_num, confidence_loss_den = conf_den \<rparr>
      in
      bindE (record_emits
        (map (\<lambda>pos_idx. ratio_emit (''accept_rate@'' @ nat_str pos_idx) (pos_accept_sums ! pos_idx) (pos_total_counts ! pos_idx))
           [0..<fo_block_size out]
         @ [ratio_emit ''tau_probabilistic'' tau_prob_sum accept_block_count]
         @ (if has_confidence then
              [ratio_emit ''confidence_abs_error'' abs_error conf_den, ratio_emit ''confidence_bias'' bias conf_den,
               ratio_emit ''confidence_cumprod_bias'' cumprod_bias conf_den]
            else [])) store) (\<lambda>store'.
      Inr (terms, has_confidence, store')))))"

section \<open>The loss\<close>

definition all_reduce_loss_denominators :: "loss_terms list \<Rightarrow> loss_terms \<Rightarrow> nat \<Rightarrow> rat \<times> rat \<times> rat" where
  "all_reduce_loss_denominators ranks own world_size =
     (if 1 < world_size then
        (sum_list (map ce_loss_den ranks), sum_list (map l1_loss_den ranks), sum_list (map confidence_loss_den ranks))
      else (ce_loss_den own, l1_loss_den own, confidence_loss_den own))"

definition build_loss :: "loss_terms \<Rightarrow> rat \<times> rat \<times> rat \<Rightarrow> rat \<Rightarrow> rat \<Rightarrow> rat \<Rightarrow> bool \<Rightarrow> nat \<Rightarrow> rat" where
  "build_loss terms dens ce_alpha l1_alpha conf_alpha has_confidence world_size =
     (case dens of (ce_den, l1_den, conf_den) \<Rightarrow>
      let ce_loss = ce_loss_num terms / (ce_den + 1 / 1000000);
          l1_loss = (if 0 < l1_den then l1_loss_num terms / (l1_den + 1 / 1000000) else 0);
          confidence_loss = (if has_confidence then confidence_loss_num terms / (conf_den + 1 / 1000000) else 0)
      in (ce_alpha * ce_loss + l1_alpha * l1_loss + conf_alpha * confidence_loss) * of_nat world_size)"

text \<open>The part of \<open>compute_myspec_loss\<close> after the denominators are known, on one rank.\<close>

definition finish_loss ::
  "rat \<Rightarrow> rat \<Rightarrow> rat \<Rightarrow> loss_terms list \<Rightarrow> loss_terms \<times> bool \<times> metric_store \<Rightarrow> (rat \<times> metric_store) res" where
  "finish_loss ce_alpha l1_alpha conf_alpha ranks own =
     (case own of (terms, has_confidence, store) \<Rightarrow>
      let world_size = length ranks;
          dens = all_reduce_loss_denominators ranks terms world_size;
          l1_active = 0 < fst (snd dens);
          local_ce_loss = ce_loss_num terms / (ce_loss_den terms + 1 / 1000000);
          local_l1_loss = (if l1_active then l1_loss_num terms / (l1_loss_den terms + 1 / 1000000) else 0);
          local_confidence_loss =
            (if has_confidence then confidence_loss_num terms / (confidence_loss_den terms + 1 / 1000000) else 0);
          local_loss = ce_alpha * local_ce_loss + l1_alpha * local_l1_loss + conf_alpha * local_confidence_loss
      in
      bindE (record_emits
        ([ratio_emit ''ce_loss'' (ce_loss_num terms) (ce_loss_den terms)]
         @ (if l1_active then [ratio_emit ''l1_loss'' (l1_loss_num terms) (l1_loss_den terms)] else [])
         @ (if has_confidence then [ratio_emit ''confidence_loss'' (confidence_loss_num terms) (confidence_loss_den terms)] else [])
         @ [\<lparr> em_name = ''loss'', em_value = local_loss, em_den = None, em_reduction = ''mean'', em_tag = ''train'' \<rparr>])
        store) (\<lambda>store'.
      Inr (build_loss terms dens ce_alpha l1_alpha conf_alpha has_confidence world_size, store')))"

definition compute_myspec_loss ::
  "loss_env \<Rightarrow> rat option \<Rightarrow> rat \<Rightarrow> rat \<Rightarrow> rat \<Rightarrow> (forward_output \<times> metric_store) list \<Rightarrow> (rat \<times> metric_store) list res" where
  "compute_myspec_loss env loss_decay_gamma ce_alpha l1_alpha conf_alpha ranks =
     bindE (mapE (\<lambda>(out, store). collect_local_terms env loss_decay_gamma l1_alpha out store) ranks) (\<lambda>locals.
     mapE (finish_loss ce_alpha l1_alpha conf_alpha (map fst locals)) locals)"

section \<open>The acceptance rate is the verifier's acceptance probability\<close>

lemma abs_diff_split: "\<bar>a - b\<bar> = max (a - b) 0 + max (b - a) (0 :: rat)"
  by (simp add: max_def)

lemma l1_distance_excess:
  assumes len: "length p = length q" and p: "prob_vector p" and q: "prob_vector q"
  shows "sum_list (map2 (\<lambda>x y. \<bar>x - y\<bar>) q p) = 2 * sum_list (positive_excess p q)"
proof -
  let ?n = "length q"
  have pq: "(\<Sum>i<?n. p ! i) = (\<Sum>i<?n. q ! i)"
    using p q len by (simp add: prob_vector_def sum_list_nth_rat)
  have swap: "max (q ! i - p ! i) 0 = max (p ! i - q ! i) 0 + (q ! i - p ! i)" for i by (simp add: max_def)
  have "sum_list (map2 (\<lambda>x y. \<bar>x - y\<bar>) q p) = (\<Sum>i<?n. \<bar>q ! i - p ! i\<bar>)"
    using len by (simp add: sum_list_nth_rat)
  also have "\<dots> = (\<Sum>i<?n. max (p ! i - q ! i) 0 + (max (p ! i - q ! i) 0 + (q ! i - p ! i)))"
    by (rule sum.cong) (simp_all add: abs_diff_split swap)
  also have "\<dots> = 2 * (\<Sum>i<?n. max (p ! i - q ! i) 0) + ((\<Sum>i<?n. q ! i) - (\<Sum>i<?n. p ! i))"
    by (simp add: sum.distrib sum_subtractf sum_distrib_left)
  finally show ?thesis using pq positive_excess_sum [OF len] by simp
qed

lemma positive_excess_bounds:
  assumes len: "length p = length q" and p: "prob_vector p" and q: "prob_vector q"
  shows "0 \<le> sum_list (positive_excess p q)" and "sum_list (positive_excess p q) \<le> 1"
proof -
  show "0 \<le> sum_list (positive_excess p q)" by (rule sum_list_nonneg) (auto simp: positive_excess_def set_zip)
  have "(\<Sum>i<length q. max (p ! i - q ! i) 0) \<le> (\<Sum>i<length q. p ! i)"
    by (rule sum_mono) (use p q len in \<open>auto simp: prob_vector_def max_def\<close>)
  moreover have "(\<Sum>i<length q. p ! i) = 1" using p len by (simp add: prob_vector_def sum_list_nth_rat)
  ultimately show "sum_list (positive_excess p q) \<le> 1" unfolding positive_excess_sum [OF len] by simp
qed

text \<open>Rows on which the verification arithmetic is exact, as in \<open>speculative_sampling_exact\<close>.\<close>

definition verifiable_rows :: "loss_env \<Rightarrow> vec \<Rightarrow> vec \<Rightarrow> bool" where
  "verifiable_rows env d t \<longleftrightarrow>
     length (le_softmax env t) = length (le_softmax env d) \<and> prob_vector (le_softmax env t)
     \<and> prob_vector (le_softmax env d) \<and> guards_idle (le_softmax env t) (le_softmax env d)"

lemma accept_rate_rejection:
  assumes "verifiable_rows env d t"
  shows "accept_rate_at env d t = 1 - reject_mass (le_softmax env t) (le_softmax env d)"
  using assms l1_distance_excess [of "le_softmax env t" "le_softmax env d"]
    positive_excess_bounds [of "le_softmax env t" "le_softmax env d"]
    reject_mass_excess [of "le_softmax env t" "le_softmax env d"]
  by (simp add: verifiable_rows_def accept_rate_at_def)

text \<open>
  The expected length of the accepted prefix when position \<open>i\<close> accepts with probability
  \<open>as ! i\<close>: exactly \<open>k\<close> tokens are accepted when the first \<open>k\<close> positions accept and the next one,
  if there is one, rejects.
\<close>

definition prob_accepted :: "rat list \<Rightarrow> nat \<Rightarrow> rat" where
  "prob_accepted as k = prod_list (take k as) * (if k < length as then 1 - as ! k else 1)"

definition expected_accepted :: "rat list \<Rightarrow> rat" where
  "expected_accepted as = (\<Sum>k\<le>length as. of_nat k * prob_accepted as k)"

lemma prob_accepted_Suc: "prob_accepted (a # as) (Suc k) = a * prob_accepted as k"
  by (simp add: prob_accepted_def)

lemma prob_accepted_total: "(\<Sum>k\<le>length as. prob_accepted as k) = 1"
proof (induction as)
  case Nil
  then show ?case by (simp add: prob_accepted_def)
next
  case (Cons a as)
  have "(\<Sum>k\<le>length (a # as). prob_accepted (a # as) k)
      = prob_accepted (a # as) 0 + (\<Sum>k\<le>length as. prob_accepted (a # as) (Suc k))"
    by (simp add: sum.atMost_Suc_shift del: sum.atMost_Suc)
  also have "\<dots> = (1 - a) + a * (\<Sum>k\<le>length as. prob_accepted as k)"
    by (simp add: prob_accepted_Suc sum_distrib_left) (simp add: prob_accepted_def)
  finally show ?case using Cons by simp
qed

lemma expected_accepted_cumprod: "expected_accepted as = sum_list (cumprod_rat as)"
proof (induction as)
  case Nil
  then show ?case by (simp add: expected_accepted_def)
next
  case (Cons a as)
  have "expected_accepted (a # as) = (\<Sum>k\<le>length as. of_nat (Suc k) * prob_accepted (a # as) (Suc k))"
    by (simp add: expected_accepted_def sum.atMost_Suc_shift del: sum.atMost_Suc of_nat_Suc)
  also have "\<dots> = (\<Sum>k\<le>length as. a * (of_nat k * prob_accepted as k) + a * prob_accepted as k)"
    by (rule sum.cong) (simp_all add: prob_accepted_Suc algebra_simps)
  also have "\<dots> = a * expected_accepted as + a * (\<Sum>k\<le>length as. prob_accepted as k)"
    by (simp add: sum.distrib sum_distrib_left expected_accepted_def)
  finally show ?case
    using Cons prob_accepted_total [of as] by (simp add: sum_list_const_mult)
qed

section \<open>The reported acceptance length\<close>

text \<open>The blocks of a batch: their draft and target rows, their mask and whether they are kept.\<close>

definition output_blocks ::
  "forward_output \<Rightarrow> vec list list list \<Rightarrow> (vec list \<times> vec list \<times> bool list \<times> bool) list" where
  "output_blocks out target =
     concat (map (\<lambda>(d, t, m, k). zip d (zip t (zip m k)))
       (zip (fo_draft_logits out) (zip target (zip (fo_eval_mask out) (fo_block_keep_mask out)))))"

text \<open>The verifier's acceptance probabilities at the supervised positions of a block.\<close>

definition block_acceptance :: "loss_env \<Rightarrow> vec list \<Rightarrow> vec list \<Rightarrow> bool list \<Rightarrow> rat list" where
  "block_acceptance env d t m =
     map (\<lambda>(x, y, _). 1 - reject_mass (le_softmax env y) (le_softmax env x)) (takeWhile (\<lambda>(x, y, b). b) (zip d (zip t m)))"

lemma map2_fuse:
  "map2 F (map G (map2 H (map2 I as bs) cs)) (map2 K ds cs)
     = map (\<lambda>(a, b, c, d). F (G (H (I a b) c)) (K d c)) (zip as (zip bs (zip cs ds)))"
proof (induction as arbitrary: bs cs ds)
  case (Cons a as)
  then show ?case by (cases bs; cases cs; cases ds) auto
qed simp

lemma map2_fuse_rows:
  "map2 (map2 F) (map (map G) (map2 (map2 H) (map2 (map2 I) as bs) cs)) (map2 (map2 K) ds cs)
     = map (\<lambda>(a, b, c, d). map (\<lambda>(a, b, c, d). F (G (H (I a b) c)) (K d c)) (zip a (zip b (zip c d))))
         (zip as (zip bs (zip cs ds)))"
  by (simp only: map2_fuse)

lemma map2_as_map_zip: "map2 H (map2 I as bs) cs = map (\<lambda>(a, b, c). H (I a b) c) (zip as (zip bs cs))"
proof (induction as arbitrary: bs cs)
  case (Cons a as)
  then show ?case by (cases bs; cases cs) auto
qed simp

lemma cumprod_rat_zero: "sum_list (cumprod_rat (0 # xs)) = 0"
  by (simp add: sum_list_const_mult)

lemma masked_cumprod:
  assumes "\<forall>(x, y, b) \<in> set zs. b \<longrightarrow> f x y = g x y"
  shows "sum_list (cumprod_rat (map (\<lambda>(x, y, b). f x y * of_bool b) zs))
     = sum_list (cumprod_rat (map (\<lambda>(x, y, b). g x y) (takeWhile (\<lambda>(x, y, b). b) zs)))"
  using assms
proof (induction zs)
  case (Cons z zs)
  obtain x y b where z: "z = (x, y, b)" by (cases z)
  then show ?case
    using Cons cumprod_rat_zero by (cases b) (auto simp: sum_list_const_mult)
qed simp

lemma block_tau:
  assumes "\<forall>(x, y, b) \<in> set (zip d (zip t m)). b \<longrightarrow> verifiable_rows env x y"
  shows "sum_list (cumprod_rat (map2 (\<lambda>a b. a * of_bool b) (map2 (accept_rate_at env) d t) m))
     = expected_accepted (block_acceptance env d t m)"
proof -
  have "\<forall>(x, y, b) \<in> set (zip d (zip t m)). b \<longrightarrow>
      accept_rate_at env x y = 1 - reject_mass (le_softmax env y) (le_softmax env x)"
    using assms accept_rate_rejection by fastforce
  from masked_cumprod [OF this] show ?thesis
    by (simp add: map2_as_map_zip block_acceptance_def expected_accepted_cumprod)
qed

lemma sum_list_weighted:
  "sum_list (map (\<lambda>(d, t, m, k). f d t m * of_bool (P k m)) xs)
     = (sum_list (map (\<lambda>(d, t, m, k). f d t m) (filter (\<lambda>(d, t, m, k). P k m) xs)) :: rat)"
  by (induction xs) auto

lemma sum_list_concat_map: "sum_list (map (\<lambda>xs. sum_list (map f xs)) xss) = sum_list (map f (concat xss) :: rat list)"
  by (induction xss) auto


text \<open>A batch of one block with two positions, the second one unsupervised.\<close>

definition sample_env :: loss_env where
  "sample_env = \<lparr> le_softmax = (\<lambda>x. x), le_exp = (\<lambda>x. 1 + x), le_cross_entropy = (\<lambda>l t. 1 - l ! t),
     le_bce_with_logits = (\<lambda>x y. (x - y) * (x - y)), le_sigmoid = (\<lambda>x. x) \<rparr>"

definition sample_output :: forward_output where
  "sample_output = \<lparr> fo_draft_logits = [[[[1/4, 3/4], [1/2, 1/2]]]], fo_target_ids = [[[0, 1]]],
     fo_eval_mask = [[[True, False]]], fo_block_keep_mask = [[True]],
     fo_confidence_pred = Some [[[1/2, 1/2]]], fo_aligned_target_logits = Some [[[[1/2, 1/2], [1/4, 3/4]]]] \<rparr>"


section \<open>Data parallelism\<close>

text \<open>The terms of a rank without the metrics.\<close>

definition rank_terms :: "loss_env \<Rightarrow> rat option \<Rightarrow> rat \<Rightarrow> forward_output \<Rightarrow> loss_terms" where
  "rank_terms env gamma l1_alpha out =
     (let w = build_loss_weight_mask env (fo_eval_mask out) gamma;
          l1 = (if 0 < l1_alpha then compute_local_l1_term env out (fo_aligned_target_logits out) w else (0, 0))
      in \<lparr> ce_loss_num = sum3d (zip3d (*) (zip3d (le_cross_entropy env) (fo_draft_logits out) (fo_target_ids out)) w),
           ce_loss_den = sum3d w, l1_loss_num = fst l1, l1_loss_den = snd l1,
           confidence_loss_num = (case fo_confidence_pred out of None \<Rightarrow> 0
             | Some pred \<Rightarrow> fst (confidence_terms env out pred
                 (the (compute_accept_rate_3d env out (fo_aligned_target_logits out))) w)),
           confidence_loss_den = (if fo_confidence_pred out = None then 0 else sum3d w) \<rparr>)"

text \<open>
  What the loss expects of an output: the logits of the target are there whenever a term needs
  them.
\<close>

definition loss_inputs :: "rat \<Rightarrow> forward_output \<Rightarrow> bool" where
  "loss_inputs l1_alpha out \<longleftrightarrow>
     (0 < l1_alpha \<or> fo_confidence_pred out \<noteq> None \<longrightarrow> fo_aligned_target_logits out \<noteq> None)"

lemma ratio_trainer_emit: "name \<notin> {''loss'', ''lr'', ''grad_norm''} \<Longrightarrow> trainer_emit (ratio_emit name v d)"
  by (simp add: trainer_emit_def ratio_emit_def)

lemma collect_local_terms_ok:
  assumes "loss_inputs l1_alpha out" and "trainer_store store"
  shows "\<exists>store'. collect_local_terms env gamma l1_alpha out store
     = Inr (rank_terms env gamma l1_alpha out, fo_confidence_pred out \<noteq> None, store') \<and> trainer_store store'"
proof -
  define es where "es =
     map (\<lambda>pos_idx. ratio_emit (''accept_rate@'' @ nat_str pos_idx)
           (snd (compute_local_probabilistic_stats out
              (compute_accept_rate_3d env out (fo_aligned_target_logits out)) (valid_blocks out)) ! pos_idx)
           (position_sums (fo_block_size out) (map3d of_bool (fo_eval_mask out)) ! pos_idx)) [0..<fo_block_size out]
     @ [ratio_emit ''tau_probabilistic''
          (fst (compute_local_probabilistic_stats out
              (compute_accept_rate_3d env out (fo_aligned_target_logits out)) (valid_blocks out)))
          (sum_list (map sum_list (valid_blocks out)))]
     @ (case fo_confidence_pred out of None \<Rightarrow> []
        | Some pred \<Rightarrow>
           (case confidence_terms env out pred (the (compute_accept_rate_3d env out (fo_aligned_target_logits out)))
                   (build_loss_weight_mask env (fo_eval_mask out) gamma) of
              (_, abs_error, bias, cumprod_bias) \<Rightarrow>
              let den = sum3d (build_loss_weight_mask env (fo_eval_mask out) gamma) in
              [ratio_emit ''confidence_abs_error'' abs_error den, ratio_emit ''confidence_bias'' bias den,
               ratio_emit ''confidence_cumprod_bias'' cumprod_bias den]))"
  have "\<forall>e \<in> set es. trainer_emit e"
    by (auto simp: es_def Let_def intro!: ratio_trainer_emit split: option.splits prod.splits)
  then obtain store' where "record_emits es store = Inr store'" "trainer_store store'"
    using record_trainer_emits [OF assms(2)] by blast
  then show ?thesis
    using assms(1)
    by (cases "fo_confidence_pred out")
      (auto simp: collect_local_terms_def rank_terms_def loss_inputs_def Let_def split_beta es_def compute_accept_rate_3d_def)
qed

lemma finish_loss_ok:
  assumes "trainer_store store"
  shows "\<exists>store'. finish_loss ce_alpha l1_alpha conf_alpha ranks (terms, hc, store)
     = Inr (build_loss terms (all_reduce_loss_denominators ranks terms (length ranks)) ce_alpha l1_alpha conf_alpha hc (length ranks), store')
     \<and> trainer_store store'"
proof -
  let ?es = "\<lambda>l1 v. [ratio_emit ''ce_loss'' (ce_loss_num terms) (ce_loss_den terms)]
         @ (if l1 then [ratio_emit ''l1_loss'' (l1_loss_num terms) (l1_loss_den terms)] else [])
         @ (if hc then [ratio_emit ''confidence_loss'' (confidence_loss_num terms) (confidence_loss_den terms)] else [])
         @ [\<lparr> em_name = ''loss'', em_value = v, em_den = None, em_reduction = ''mean'', em_tag = ''train'' \<rparr>]"
  have "\<forall>e \<in> set (?es l1 v). trainer_emit e" for l1 v
    by (auto intro!: ratio_trainer_emit simp: trainer_emit_def [of "\<lparr> em_name = ''loss'', em_value = v, em_den = None, em_reduction = ''mean'', em_tag = ''train'' \<rparr>"])
  from record_trainer_emits [OF assms this] show ?thesis
    unfolding finish_loss_def Let_def prod.case by (metis (no_types, lifting) bindE.simps(2))
qed

text \<open>Every rank returns its loss, and the metric store takes all its calls.\<close>

lemma compute_myspec_loss_ok:
  fixes env :: loss_env and gamma :: "rat option"
  assumes "\<forall>x \<in> set ranks. loss_inputs l1_alpha (fst x) \<and> trainer_store (snd x)"
  defines "terms \<equiv> map (\<lambda>x. rank_terms env gamma l1_alpha (fst x)) ranks"
  shows "\<exists>stores. compute_myspec_loss env gamma ce_alpha l1_alpha conf_alpha ranks = Inr (zip
      (map (\<lambda>x. build_loss (rank_terms env gamma l1_alpha (fst x))
         (all_reduce_loss_denominators terms (rank_terms env gamma l1_alpha (fst x)) (length ranks))
         ce_alpha l1_alpha conf_alpha (fo_confidence_pred (fst x) \<noteq> None) (length ranks)) ranks) stores)
    \<and> length stores = length ranks \<and> (\<forall>s \<in> set stores. trainer_store s)"
proof -
  have "\<forall>x \<in> set ranks. \<exists>s. collect_local_terms env gamma l1_alpha (fst x) (snd x)
      = Inr (rank_terms env gamma l1_alpha (fst x), fo_confidence_pred (fst x) \<noteq> None, s) \<and> trainer_store s"
    using assms(1) collect_local_terms_ok by fastforce
  then obtain mid where mid: "\<forall>x \<in> set ranks. collect_local_terms env gamma l1_alpha (fst x) (snd x)
      = Inr (rank_terms env gamma l1_alpha (fst x), fo_confidence_pred (fst x) \<noteq> None, mid x) \<and> trainer_store (mid x)"
    by metis
  let ?loc = "\<lambda>x. (rank_terms env gamma l1_alpha (fst x), fo_confidence_pred (fst x) \<noteq> None, mid x)"
  have locals: "mapE (\<lambda>(out, store). collect_local_terms env gamma l1_alpha out store) ranks = Inr (map ?loc ranks)"
    by (rule mapE_all) (use mid in auto)
  let ?loss = "\<lambda>x. build_loss (rank_terms env gamma l1_alpha (fst x))
         (all_reduce_loss_denominators terms (rank_terms env gamma l1_alpha (fst x)) (length ranks))
         ce_alpha l1_alpha conf_alpha (fo_confidence_pred (fst x) \<noteq> None) (length ranks)"
  have tl: "length terms = length ranks" by (simp add: terms_def)
  have "\<forall>x \<in> set ranks. \<exists>s. finish_loss ce_alpha l1_alpha conf_alpha terms (?loc x) = Inr (?loss x, s) \<and> trainer_store s"
    using mid finish_loss_ok tl by metis
  then obtain fin where fin: "\<forall>x \<in> set ranks. finish_loss ce_alpha l1_alpha conf_alpha terms (?loc x) = Inr (?loss x, fin x)
      \<and> trainer_store (fin x)" by metis
  have "mapE (finish_loss ce_alpha l1_alpha conf_alpha terms) (map ?loc ranks) = Inr (map (\<lambda>x. (?loss x, fin x)) ranks)"
    unfolding mapE_map by (rule mapE_all) (use fin in auto)
  moreover have "map fst (map ?loc ranks) = terms" by (simp add: terms_def comp_def)
  ultimately have "compute_myspec_loss env gamma ce_alpha l1_alpha conf_alpha ranks = Inr (map (\<lambda>x. (?loss x, fin x)) ranks)"
    by (simp add: compute_myspec_loss_def locals)
  moreover have "map (\<lambda>x. (?loss x, fin x)) ranks = zip (map ?loss ranks) (map fin ranks)"
    by (simp add: zip_map_map zip_same_conv_map)
  ultimately show ?thesis
    using fin by (intro exI [of _ "map fin ranks"]) auto
qed

text \<open>The batch a single process would have: the rows of all ranks one after the other.\<close>

fun join_option :: "'a list option \<Rightarrow> 'a list option \<Rightarrow> 'a list option" where
  "join_option (Some xs) (Some ys) = Some (xs @ ys)"
| "join_option _ _ = None"

definition join_two :: "forward_output \<Rightarrow> forward_output \<Rightarrow> forward_output" where
  "join_two a b =
     \<lparr> fo_draft_logits = fo_draft_logits a @ fo_draft_logits b, fo_target_ids = fo_target_ids a @ fo_target_ids b,
       fo_eval_mask = fo_eval_mask a @ fo_eval_mask b, fo_block_keep_mask = fo_block_keep_mask a @ fo_block_keep_mask b,
       fo_confidence_pred = join_option (fo_confidence_pred a) (fo_confidence_pred b),
       fo_aligned_target_logits = join_option (fo_aligned_target_logits a) (fo_aligned_target_logits b) \<rparr>"

fun join_outputs :: "forward_output \<Rightarrow> forward_output list \<Rightarrow> forward_output" where
  "join_outputs out [] = out"
| "join_outputs out (out' # outs) = join_two out (join_outputs out' outs)"

text \<open>All tensors of an output have the same number of rows, and all ranks run the same model.\<close>

definition batch_shaped :: "forward_output \<Rightarrow> bool" where
  "batch_shaped out \<longleftrightarrow>
     (let n = length (fo_draft_logits out) in
      length (fo_target_ids out) = n \<and> length (fo_eval_mask out) = n
      \<and> (\<forall>c. fo_confidence_pred out = Some c \<longrightarrow> length c = n)
      \<and> (\<forall>t. fo_aligned_target_logits out = Some t \<longrightarrow> length t = n))"

definition same_outputs :: "forward_output \<Rightarrow> forward_output \<Rightarrow> bool" where
  "same_outputs a b \<longleftrightarrow> (fo_confidence_pred a = None) = (fo_confidence_pred b = None)
     \<and> (fo_aligned_target_logits a = None) = (fo_aligned_target_logits b = None)"

definition add_terms :: "loss_terms \<Rightarrow> loss_terms \<Rightarrow> loss_terms" where
  "add_terms a b =
     \<lparr> ce_loss_num = ce_loss_num a + ce_loss_num b, ce_loss_den = ce_loss_den a + ce_loss_den b,
       l1_loss_num = l1_loss_num a + l1_loss_num b, l1_loss_den = l1_loss_den a + l1_loss_den b,
       confidence_loss_num = confidence_loss_num a + confidence_loss_num b,
       confidence_loss_den = confidence_loss_den a + confidence_loss_den b \<rparr>"

lemma sum3d_append [simp]: "sum3d (xs @ ys) = sum3d xs + sum3d ys"
  by (simp add: sum3d_def)

lemma weight_mask_append:
  "build_loss_weight_mask env (xs @ ys) gamma = build_loss_weight_mask env xs gamma @ build_loss_weight_mask env ys gamma"
  by (simp add: build_loss_weight_mask_def Let_def split: option.splits)

lemma weight_mask_length: "length (build_loss_weight_mask env xs gamma) = length xs"
  by (simp add: build_loss_weight_mask_def Let_def split: option.splits)

lemma rank_terms_join_two:
  assumes a: "batch_shaped a" and same: "same_outputs a b" and inp: "loss_inputs l1_alpha a"
  shows "rank_terms env gamma l1_alpha (join_two a b)
     = add_terms (rank_terms env gamma l1_alpha a) (rank_terms env gamma l1_alpha b)"
proof -
  let ?n = "length (fo_draft_logits a)"
  have len: "length (fo_target_ids a) = ?n" "length (fo_eval_mask a) = ?n"
    using a by (simp_all add: batch_shaped_def Let_def)
  have conf: "length c = ?n" if "fo_confidence_pred a = Some c" for c using a that by (simp add: batch_shaped_def Let_def)
  have al: "length t = ?n" if "fo_aligned_target_logits a = Some t" for t using a that by (simp add: batch_shaped_def Let_def)
  note simps = rank_terms_def join_two_def add_terms_def Let_def weight_mask_append weight_mask_length len
    compute_local_l1_term_def compute_accept_rate_3d_def confidence_terms_def
  show ?thesis
  proof (cases "fo_aligned_target_logits a")
    case None
    then have "fo_confidence_pred a = None" "\<not> 0 < l1_alpha" using inp by (auto simp: loss_inputs_def)
    then show ?thesis using None same by (simp add: simps same_outputs_def)
  next
    case (Some ta)
    then obtain tb where tb: "fo_aligned_target_logits b = Some tb" using same by (auto simp: same_outputs_def)
    show ?thesis
    proof (cases "fo_confidence_pred a")
      case None
      then show ?thesis using Some tb same al [OF Some] by (simp add: simps same_outputs_def)
    next
      case (Some ca)
      then obtain cb where "fo_confidence_pred b = Some cb" using same by (auto simp: same_outputs_def)
      then show ?thesis
        using Some \<open>fo_aligned_target_logits a = Some ta\<close> tb al conf [OF Some] by (simp add: simps)
    qed
  qed
qed

lemma join_outputs_kind: "\<forall>o' \<in> set outs. same_outputs out o' \<Longrightarrow> same_outputs out (join_outputs out outs)"
proof (induction outs arbitrary: out)
  case (Cons o' outs)
  have "\<forall>x \<in> set outs. same_outputs o' x" using Cons.prems by (auto simp: same_outputs_def)
  from Cons.IH [OF this] Cons.prems have "same_outputs out (join_outputs o' outs)" by (auto simp: same_outputs_def)
  then show ?case
    by (cases "fo_confidence_pred out"; cases "fo_aligned_target_logits out") (auto simp: same_outputs_def join_two_def)
qed (simp add: same_outputs_def)

lemma those_length: "those xs = Some ys \<Longrightarrow> length ys = length xs"
  by (induction xs arbitrary: ys) (auto split: option.splits)

text \<open>A stacked batch has the shape the loss expects, and stacking two batches is joining them.\<close>

lemma stack_rows_shaped: "batch_shaped (stack_rows rows)"
  by (auto simp: batch_shaped_def stack_rows_def Let_def dest: those_length)

lemma those_append: "those (xs @ ys) = join_option (those xs) (those ys)"
proof (induction xs)
  case Nil
  then show ?case by (cases "those ys") auto
next
  case (Cons x xs)
  then show ?case by (cases x; cases "those xs"; cases "those ys") auto
qed

lemma stack_rows_append: "stack_rows (xs @ ys) = join_two (stack_rows xs) (stack_rows ys)"
  by (simp add: stack_rows_def join_two_def those_append)

definition zero_terms :: loss_terms where
  "zero_terms = \<lparr> ce_loss_num = 0, ce_loss_den = 0, l1_loss_num = 0, l1_loss_den = 0,
     confidence_loss_num = 0, confidence_loss_den = 0 \<rparr>"

definition sum_terms :: "loss_terms list \<Rightarrow> loss_terms" where
  "sum_terms ts = foldr add_terms ts zero_terms"

lemma sum_terms_Cons: "sum_terms (t # ts) = add_terms t (sum_terms ts)"
  by (simp add: sum_terms_def)

lemma sum_terms_single: "sum_terms [t] = t"
  by (simp add: sum_terms_def add_terms_def zero_terms_def)

lemma sum_terms_dens:
  "ce_loss_den (sum_terms ts) = sum_list (map ce_loss_den ts)"
  "l1_loss_den (sum_terms ts) = sum_list (map l1_loss_den ts)"
  "confidence_loss_den (sum_terms ts) = sum_list (map confidence_loss_den ts)"
  by (induction ts) (simp_all add: sum_terms_def add_terms_def zero_terms_def)

lemma rank_terms_join:
  assumes "\<forall>o' \<in> set (out # outs). batch_shaped o' \<and> loss_inputs l1_alpha o' \<and> same_outputs out o'"
  shows "rank_terms env gamma l1_alpha (join_outputs out outs)
     = sum_terms (map (rank_terms env gamma l1_alpha) (out # outs))"
  using assms
proof (induction outs arbitrary: out)
  case Nil
  then show ?case by (simp add: sum_terms_single)
next
  case (Cons o' outs)
  have same: "\<forall>x \<in> set (o' # outs). same_outputs o' x" using Cons.prems by (auto simp: same_outputs_def)
  then have "same_outputs o' (join_outputs o' outs)" by (intro join_outputs_kind) auto
  then have "same_outputs out (join_outputs o' outs)" using Cons.prems by (auto simp: same_outputs_def)
  then have "rank_terms env gamma l1_alpha (join_outputs out (o' # outs))
      = add_terms (rank_terms env gamma l1_alpha out) (rank_terms env gamma l1_alpha (join_outputs o' outs))"
    using Cons.prems by (simp add: rank_terms_join_two)
  then show ?case using Cons.IH [of o'] Cons.prems same by (simp add: sum_terms_Cons)
qed

lemma build_loss_add:
  "build_loss (add_terms t u) dens ca la fa hc w = build_loss t dens ca la fa hc w + build_loss u dens ca la fa hc w"
  by (cases dens) (simp add: build_loss_def add_terms_def Let_def add_divide_distrib algebra_simps)

lemma build_loss_sum:
  "sum_list (map (\<lambda>t. build_loss t dens ca la fa hc w) ts) = build_loss (sum_terms ts) dens ca la fa hc w"
proof (induction ts)
  case Nil
  then show ?case by (cases dens) (simp add: sum_terms_def zero_terms_def build_loss_def)
qed (simp add: sum_terms_Cons build_loss_add)

lemma build_loss_world: "0 < w \<Longrightarrow> build_loss t dens ca la fa hc w / of_nat w = build_loss t dens ca la fa hc 1"
  by (cases dens) (simp add: build_loss_def Let_def)

text \<open>The reduced denominators are those of the summed terms, also for a single rank.\<close>

lemma all_reduce_sum:
  assumes "t \<in> set ts" and "length ts = w"
  shows "all_reduce_loss_denominators ts t w
     = (ce_loss_den (sum_terms ts), l1_loss_den (sum_terms ts), confidence_loss_den (sum_terms ts))"
proof (cases "1 < w")
  case True
  then show ?thesis by (simp add: all_reduce_loss_denominators_def sum_terms_dens)
next
  case False
  then have "ts = [t]" using assms by (cases ts) auto
  then show ?thesis using False by (simp add: all_reduce_loss_denominators_def sum_terms_single)
qed

text \<open>
  (C28) Data parallelism does not change the loss. When every rank computes
  \<open>compute_myspec_loss\<close> on its share of the batch, no assertion fails, the metric calls included,
  and the mean of the losses of the ranks (the loss whose gradient the averaged backward pass
  yields) is exactly the loss a single process computes on the rows of all ranks together,
  whatever the number of ranks and however the supervised positions are spread over them.
\<close>

theorem data_parallel_loss_exact:
  fixes env :: loss_env and gamma :: "rat option"
  assumes ranks: "ranks = (out, store) # rest"
    and ok: "\<forall>x \<in> set ranks. batch_shaped (fst x) \<and> loss_inputs l1_alpha (fst x) \<and> same_outputs out (fst x)
       \<and> trainer_store (snd x)"
  shows "\<exists>losses stores store'.
     compute_myspec_loss env gamma ce_alpha l1_alpha conf_alpha ranks = Inr (zip losses stores)
   \<and> length losses = length ranks \<and> length stores = length ranks
   \<and> compute_myspec_loss env gamma ce_alpha l1_alpha conf_alpha [(join_outputs out (map fst rest), store)]
       = Inr [(sum_list losses / of_nat (length ranks), store')]"
proof -
  let ?T = "rank_terms env gamma l1_alpha" and ?w = "length ranks"
  let ?ts = "map (\<lambda>x. ?T (fst x)) ranks" and ?joined = "join_outputs out (map fst rest)"
  let ?dens = "(ce_loss_den (sum_terms ?ts), l1_loss_den (sum_terms ?ts), confidence_loss_den (sum_terms ?ts))"
  let ?hc = "fo_confidence_pred out \<noteq> None"
  let ?loss = "\<lambda>x. build_loss (?T (fst x)) ?dens ce_alpha l1_alpha conf_alpha ?hc ?w"
  have hc: "(fo_confidence_pred (fst x) \<noteq> None) = ?hc" if "x \<in> set ranks" for x using ok that by (auto simp: same_outputs_def)
  have inputs: "\<forall>x \<in> set ranks. loss_inputs l1_alpha (fst x) \<and> trainer_store (snd x)" using ok by auto
  obtain stores where stores: "compute_myspec_loss env gamma ce_alpha l1_alpha conf_alpha ranks = Inr (zip (map ?loss ranks) stores)"
      "length stores = ?w"
    using compute_myspec_loss_ok [OF inputs, of env gamma ce_alpha conf_alpha] hc
    by (auto simp: all_reduce_sum cong: map_cong)
  have kind: "same_outputs out ?joined" by (rule join_outputs_kind) (use ok ranks in auto)
  have T: "?T ?joined = sum_terms ?ts"
    using rank_terms_join [of out "map fst rest" l1_alpha env gamma] ok ranks by (simp add: comp_def)
  have "loss_inputs l1_alpha ?joined" using ok ranks kind by (auto simp: loss_inputs_def same_outputs_def)
  then obtain store' where "compute_myspec_loss env gamma ce_alpha l1_alpha conf_alpha [(?joined, store)]
      = Inr [(build_loss (sum_terms ?ts) ?dens ce_alpha l1_alpha conf_alpha ?hc 1, store')]"
    using compute_myspec_loss_ok [of "[(?joined, store)]" l1_alpha env gamma ce_alpha conf_alpha] ok ranks kind
    by (auto simp: T all_reduce_loss_denominators_def same_outputs_def length_Suc_conv)
  moreover have "sum_list (map ?loss ranks) = build_loss (sum_terms ?ts) ?dens ce_alpha l1_alpha conf_alpha ?hc ?w"
    using build_loss_sum [of ?dens ce_alpha l1_alpha conf_alpha ?hc ?w ?ts] by (simp add: comp_def)
  ultimately show ?thesis
    using stores ranks build_loss_world [of ?w "sum_terms ?ts" ?dens ce_alpha l1_alpha conf_alpha ?hc]
    by (intro exI [of _ "map ?loss ranks"] exI [of _ stores] exI [of _ store']) simp
qed

theorem data_parallel_loss_exact_witness:
  "\<exists>losses stores store'.
     compute_myspec_loss sample_env (Some 4) 1 (1/2) 1 [(sample_output, []), (sample_output, [])] = Inr (zip losses stores)
   \<and> length losses = length [(sample_output, [] :: metric_store), (sample_output, [])]
   \<and> length stores = length [(sample_output, [] :: metric_store), (sample_output, [])]
   \<and> compute_myspec_loss sample_env (Some 4) 1 (1/2) 1 [(join_outputs sample_output (map fst [(sample_output, [] :: metric_store)]), [])]
       = Inr [(sum_list losses / of_nat (length [(sample_output, [] :: metric_store), (sample_output, [])]), store')]"
  by (rule data_parallel_loss_exact [OF refl])
    (simp add: batch_shaped_def loss_inputs_def same_outputs_def sample_output_def trainer_store_empty)

end
