(* ===== verification/Bf16_Optimizer.thy ===== *)
theory Bf16_Optimizer
  imports Prelude
begin

text \<open>
  The optimizer of the trainer, \<open>BF16Optimizer\<close> of \<^verbatim>\<open>DeepSpec/deepspec/utils/optim.py\<close>:
  single-precision master copies of the trainable parameters, an AdamW optimizer on the copies and
  a learning-rate schedule of two stages. The classes of the tensor library (AdamW, the base class
  of the schedules and the schedule of the second stage) are parameters, gathered in a record.
\<close>

section \<open>State and external operations\<close>

text \<open>
  The schedule is \<open>TwoStageScheduler\<close>: the scheduler of the second stage and the remaining
  attributes of the object.
\<close>

record ('c, 'k) two_stage_scheduler =
  after_scheduler :: 'c
  other_attributes :: 'k

record ('f, 'a, 'c, 'k) bf16_optimizer =
  fp32_params :: "'f list"
  adamw :: 'a
  scheduler :: "('c, 'k) two_stage_scheduler"

record ('b, 'f, 'a, 'c, 'k, 'ad, 'cd) torch_optim =
  to_float32 :: "'b \<Rightarrow> 'f"
  to_model_dtype :: "'f \<Rightarrow> 'b"
  make_adamw :: "'f list \<Rightarrow> 'a"
  adamw_step :: "'f list \<Rightarrow> 'f option list \<Rightarrow> 'a \<Rightarrow> 'f list \<times> 'a"
  adamw_state_dict :: "'a \<Rightarrow> 'ad"
  adamw_load_state_dict :: "'ad \<Rightarrow> 'a \<Rightarrow> 'a"
  make_scheduler :: "'a \<Rightarrow> ('c, 'k) two_stage_scheduler \<times> 'a"
  scheduler_step :: "('c, 'k) two_stage_scheduler \<Rightarrow> 'a \<Rightarrow> ('c, 'k) two_stage_scheduler \<times> 'a"
  after_state_dict :: "'c \<Rightarrow> 'cd"
  after_load_state_dict :: "'cd \<Rightarrow> 'c \<Rightarrow> 'c"

section \<open>Operations\<close>

text \<open>
  \<open>TwoStageScheduler.state_dict\<close> replaces the second stage by its own state; loading restores it
  first and then the other attributes.
\<close>

definition two_stage_state_dict ::
  "('b, 'f, 'a, 'c, 'k, 'ad, 'cd) torch_optim \<Rightarrow> ('c, 'k) two_stage_scheduler \<Rightarrow> 'cd \<times> 'k" where
  "two_stage_state_dict env s = (after_state_dict env (after_scheduler s), other_attributes s)"

definition two_stage_load_state_dict ::
  "('b, 'f, 'a, 'c, 'k, 'ad, 'cd) torch_optim \<Rightarrow> 'cd \<times> 'k \<Rightarrow> ('c, 'k) two_stage_scheduler \<Rightarrow> ('c, 'k) two_stage_scheduler" where
  "two_stage_load_state_dict env d s =
     \<lparr> after_scheduler = after_load_state_dict env (fst d) (after_scheduler s), other_attributes = snd d \<rparr>"

text \<open>\<open>for dst, src in zip(dsts, srcs): dst.copy_(src)\<close>.\<close>

definition copy_pairs :: "'x list \<Rightarrow> 'x list \<Rightarrow> 'x list" where
  "copy_pairs dst src = take (length dst) src @ drop (length src) dst"

definition make_bf16_optimizer ::
  "('b, 'f, 'a, 'c, 'k, 'ad, 'cd) torch_optim \<Rightarrow> 'b list \<Rightarrow> ('f, 'a, 'c, 'k) bf16_optimizer" where
  "make_bf16_optimizer env model_params =
     (let masters = map (to_float32 env) model_params;
          (sched, opt) = make_scheduler env (make_adamw env masters)
      in \<lparr> fp32_params = masters, adamw = opt, scheduler = sched \<rparr>)"

text \<open>\<open>step\<close> on the model parameters, their gradients and the optimizer.\<close>

definition bf16_step ::
  "('b, 'f, 'a, 'c, 'k, 'ad, 'cd) torch_optim \<Rightarrow> 'b list \<Rightarrow> 'b option list \<Rightarrow> ('f, 'a, 'c, 'k) bf16_optimizer
   \<Rightarrow> 'b list \<times> 'b option list \<times> ('f, 'a, 'c, 'k) bf16_optimizer" where
  "bf16_step env model_params grads opt =
     (let master_grads = map (map_option (to_float32 env)) grads;
          (masters, adam) = adamw_step env (fp32_params opt) master_grads (adamw opt);
          (sched, adam') = scheduler_step env (scheduler opt) adam
      in (copy_pairs model_params (map (to_model_dtype env) masters), map (\<lambda>_. None) model_params,
          \<lparr> fp32_params = masters, adamw = adam', scheduler = sched \<rparr>))"

definition bf16_state_dict ::
  "('b, 'f, 'a, 'c, 'k, 'ad, 'cd) torch_optim \<Rightarrow> ('f, 'a, 'c, 'k) bf16_optimizer \<Rightarrow> 'ad \<times> ('cd \<times> 'k) \<times> 'f list" where
  "bf16_state_dict env opt = (adamw_state_dict env (adamw opt), two_stage_state_dict env (scheduler opt), fp32_params opt)"

definition bf16_load_state_dict ::
  "('b, 'f, 'a, 'c, 'k, 'ad, 'cd) torch_optim \<Rightarrow> 'ad \<times> ('cd \<times> 'k) \<times> 'f list \<Rightarrow> 'b list
   \<Rightarrow> ('f, 'a, 'c, 'k) bf16_optimizer \<Rightarrow> 'b list \<times> ('f, 'a, 'c, 'k) bf16_optimizer" where
  "bf16_load_state_dict env d model_params opt =
     (case d of (adam_dict, sched_dict, fp32) \<Rightarrow>
      let masters = copy_pairs (fp32_params opt) fp32
      in (copy_pairs model_params (map (to_model_dtype env) masters),
          \<lparr> fp32_params = masters, adamw = adamw_load_state_dict env adam_dict (adamw opt),
            scheduler = two_stage_load_state_dict env sched_dict (scheduler opt) \<rparr>))"

section \<open>Saving and loading\<close>

text \<open>
  What the library documents: loading a state dictionary restores the object it was taken from,
  an optimizer step keeps the number of parameters, and widening a value is exact.
\<close>

definition torch_optim_ok :: "('b, 'f, 'a, 'c, 'k, 'ad, 'cd) torch_optim \<Rightarrow> bool" where
  "torch_optim_ok env \<longleftrightarrow>
     (\<forall>a a'. adamw_load_state_dict env (adamw_state_dict env a) a' = a)
   \<and> (\<forall>c c'. after_load_state_dict env (after_state_dict env c) c' = c)
   \<and> (\<forall>ps gs a. length (fst (adamw_step env ps gs a)) = length ps)
   \<and> (\<forall>b. to_model_dtype env (to_float32 env b) = b)"

text \<open>The model parameters are the rounded master copies.\<close>

definition in_sync ::
  "('b, 'f, 'a, 'c, 'k, 'ad, 'cd) torch_optim \<Rightarrow> 'b list \<Rightarrow> ('f, 'a, 'c, 'k) bf16_optimizer \<Rightarrow> bool" where
  "in_sync env model_params opt \<longleftrightarrow> model_params = map (to_model_dtype env) (fp32_params opt)"

lemma copy_pairs_same [simp]: "length dst = length src \<Longrightarrow> copy_pairs dst src = src"
  by (simp add: copy_pairs_def)

lemma make_optimizer_sync: "torch_optim_ok env \<Longrightarrow> in_sync env ps (make_bf16_optimizer env ps)"
  by (simp add: in_sync_def make_bf16_optimizer_def torch_optim_ok_def split_beta Let_def comp_def)

lemma make_optimizer_length: "length (fp32_params (make_bf16_optimizer env ps)) = length ps"
  by (simp add: make_bf16_optimizer_def split_beta Let_def)

lemma bf16_step_sync:
  assumes "torch_optim_ok env" and "in_sync env ps opt" and "bf16_step env ps gs opt = (ps', gs', opt')"
  shows "in_sync env ps' opt'" and "length ps' = length ps"
  using assms by (auto simp: bf16_step_def in_sync_def torch_optim_ok_def Let_def split_beta)

lemma two_stage_roundtrip:
  "torch_optim_ok env \<Longrightarrow> two_stage_load_state_dict env (two_stage_state_dict env s) s' = s"
  by (simp add: two_stage_load_state_dict_def two_stage_state_dict_def torch_optim_ok_def)

text \<open>Loading what was saved into a new optimizer restores the optimizer and the model.\<close>

lemma optimizer_roundtrip:
  assumes "torch_optim_ok env" and "in_sync env ps opt" and "length ps' = length ps"
  shows "bf16_load_state_dict env (bf16_state_dict env opt) ps' (make_bf16_optimizer env ps') = (ps, opt)"
  using assms
  by (simp add: bf16_load_state_dict_def bf16_state_dict_def make_optimizer_length in_sync_def two_stage_roundtrip Let_def)
    (simp add: torch_optim_ok_def)

end
