(* ===== verification/Batch_Prefetcher.thy ===== *)
theory Batch_Prefetcher
  imports Prelude
begin

text \<open>
  The iterator that feeds the training loop, \<open>CUDAPrefetcher\<close> of
  \<^verbatim>\<open>DeepSpec/deepspec/data/cuda_prefetcher.py\<close>. The data loader is the list of the results
  of its successive \<open>next\<close> calls, an exception being \<open>Inl\<close>; after the last one it signals the
  end. The background thread only runs \<open>_fetch_and_transfer\<close> and is joined before its results are
  read, so its work is done at the join; an exception inside the thread ends the thread and is
  not seen by the caller. Moving a batch to the device is a parameter.
\<close>

record ('a, 'b) prefetcher =
  pf_iter :: "'a res list"
  pf_done :: bool
  pf_gpu_batch :: "'b option"
  pf_thread :: bool

text \<open>\<open>_fetch_and_transfer\<close>: the state afterwards and the exception it raises, if any.\<close>

fun fetch_and_transfer :: "('a \<Rightarrow> 'b) \<Rightarrow> ('a, 'b) prefetcher \<Rightarrow> ('a, 'b) prefetcher \<times> py_error option" where
  "fetch_and_transfer move p =
     (case pf_iter p of
        [] \<Rightarrow> (p\<lparr> pf_done := True \<rparr>, None)
      | Inl e # rest \<Rightarrow> (p\<lparr> pf_iter := rest \<rparr>, Some e)
      | Inr cpu_batch # rest \<Rightarrow> (p\<lparr> pf_iter := rest, pf_gpu_batch := Some (move cpu_batch) \<rparr>, None))"

text \<open>\<open>__iter__\<close>: the first batch is fetched synchronously.\<close>

definition prefetcher_iter :: "('a \<Rightarrow> 'b) \<Rightarrow> 'a res list \<Rightarrow> ('a, 'b) prefetcher res" where
  "prefetcher_iter move loader =
     (case fetch_and_transfer move \<lparr> pf_iter = loader, pf_done = False, pf_gpu_batch = None, pf_thread = False \<rparr> of
        (p, None) \<Rightarrow> Inr p
      | (p, Some e) \<Rightarrow> Inl e)"

definition join_thread :: "('a \<Rightarrow> 'b) \<Rightarrow> ('a, 'b) prefetcher \<Rightarrow> ('a, 'b) prefetcher" where
  "join_thread move p = (if pf_thread p then (fst (fetch_and_transfer move p))\<lparr> pf_thread := False \<rparr> else p)"

text \<open>
  \<open>__next__\<close>: \<open>None\<close> is \<open>StopIteration\<close>. Reading \<open>values\<close> of a batch that was never fetched raises.
\<close>

definition prefetcher_next :: "('a \<Rightarrow> 'b) \<Rightarrow> ('a, 'b) prefetcher \<Rightarrow> ('b \<times> ('a, 'b) prefetcher) option res" where
  "prefetcher_next move p =
     (let p1 = join_thread move p in
      if pf_done p1 then Inr None
      else case pf_gpu_batch p1 of
        None \<Rightarrow> Inl AttributeError
      | Some batch \<Rightarrow> Inr (Some (batch, p1\<lparr> pf_thread := True \<rparr>)))"

text \<open>A \<open>for\<close> loop over the prefetcher: the batches it sees and how it ends.\<close>

definition pending :: "('a, 'b) prefetcher \<Rightarrow> nat" where
  "pending p = 2 * (length (pf_iter p) + (if pf_done p then 0 else 1)) + (if pf_thread p then 0 else 1)"

lemma prefetcher_next_pending:
  "prefetcher_next move p = Inr (Some (b, q)) \<Longrightarrow> pending q < pending p"
  by (cases "pf_iter p")
    (auto simp: prefetcher_next_def join_thread_def pending_def Let_def split: if_splits option.splits sum.splits)

function prefetch_all :: "('a \<Rightarrow> 'b) \<Rightarrow> ('a, 'b) prefetcher \<Rightarrow> 'b list res" where
  "prefetch_all move p =
     (case prefetcher_next move p of
        Inl e \<Rightarrow> Inl e
      | Inr None \<Rightarrow> Inr []
      | Inr (Some (batch, q)) \<Rightarrow> bindE (prefetch_all move q) (\<lambda>rest. Inr (batch # rest)))"
  by pat_completeness auto
termination
  by (relation "measure (\<lambda>(move, p). pending p)") (auto intro: prefetcher_next_pending)

declare prefetch_all.simps [simp del]

definition prefetched :: "('a \<Rightarrow> 'b) \<Rightarrow> 'a res list \<Rightarrow> 'b list res" where
  "prefetched move loader = bindE (prefetcher_iter move loader) (prefetch_all move)"

section \<open>What the loop sees\<close>

text \<open>Every failed fetch is replaced by the batch before it.\<close>

fun carry_forward :: "'b \<Rightarrow> ('a \<Rightarrow> 'b) \<Rightarrow> 'a res list \<Rightarrow> 'b list" where
  "carry_forward b move [] = []"
| "carry_forward b move (Inl e # rest) = b # carry_forward b move rest"
| "carry_forward b move (Inr x # rest) = move x # carry_forward (move x) move rest"

lemma prefetch_running:
  "pf_thread p \<Longrightarrow> \<not> pf_done p \<Longrightarrow> pf_gpu_batch p = Some b \<Longrightarrow> prefetch_all move p = Inr (carry_forward b move (pf_iter p))"
proof (induction "pf_iter p" arbitrary: p b)
  case Nil
  then show ?case by (subst prefetch_all.simps) (simp add: prefetcher_next_def join_thread_def flip: Nil.hyps)
next
  case (Cons x xs)
  then show ?case
    by (subst prefetch_all.simps)
      (cases x; simp add: prefetcher_next_def join_thread_def flip: Cons.hyps(2))
qed

lemma prefetched_first: "prefetched move (Inr x # rest) = Inr (move x # carry_forward (move x) move rest)"
  by (simp add: prefetched_def prefetcher_iter_def, subst prefetch_all.simps)
    (simp add: prefetcher_next_def join_thread_def prefetch_running)

lemma prefetched_error: "prefetched move (Inl e # rest) = Inl e"
  by (simp add: prefetched_def prefetcher_iter_def)

lemma carry_forward_ok: "carry_forward b move (map Inr xs) = map move xs"
  by (induction xs arbitrary: b) auto

lemma prefetched_all: "prefetched move (map Inr batches) = Inr (map move batches)"
proof (cases batches)
  case Nil
  then show ?thesis
    by (simp add: prefetched_def prefetcher_iter_def, subst prefetch_all.simps) (simp add: prefetcher_next_def join_thread_def)
qed (simp add: prefetched_first carry_forward_ok)

text \<open>
  (C39) The prefetcher hands over every batch of the data loader, in order and moved to the
  device, and stops after the last one. An exception of the loader is only seen at the first
  fetch: a later one happens in the background thread, where it is lost, and the loop is handed
  the previous batch a second time in place of the one that failed.
\<close>

theorem prefetcher_batches:
  "prefetched move (map Inr batches) = Inr (map move batches)
   \<and> prefetched move (Inl e # rest) = Inl e
   \<and> prefetched move (Inr x # rest) = Inr (move x # carry_forward (move x) move rest)"
  by (intro conjI prefetched_first prefetched_error prefetched_all)

end
