(* ===== verification/Resumable_Sampler.thy ===== *)
theory Resumable_Sampler
  imports Work_Sharing "HOL-Library.Stream"
begin

text \<open>
  The sampler of the trainer, \<open>StatelessResumableDistributedSampler\<close> of
  \<^verbatim>\<open>DeepSpec/deepspec/utils/distributed.py\<close>. Its generator yields the samples of one rank
  epoch after epoch and never ends: it is a stream, of which \<open>__iter__\<close> takes \<open>len(self)\<close>
  elements. The shuffle \<open>torch.randperm\<close> with a seeded generator is a parameter: a seed and a
  length give a list of indices.
\<close>

section \<open>The sampler\<close>

record sampler =
  sm_num_replicas :: nat
  sm_rank :: nat
  sm_total_size :: nat
  sm_seed :: nat
  sm_dataset_size :: nat
  sm_per_rank_len :: nat
  sm_global_offset :: nat
  sm_num_samples :: "nat option"

definition make_sampler ::
  "nat \<Rightarrow> nat \<Rightarrow> nat \<Rightarrow> nat \<Rightarrow> nat \<Rightarrow> int \<Rightarrow> int option \<Rightarrow> sampler res" where
  "make_sampler dataset_size num_replicas rank total_size seed start_global_offset_samples num_samples =
     bindE (check (0 \<le> start_global_offset_samples) AssertionError) (\<lambda>_.
     bindE (check (0 < dataset_size) AssertionError) (\<lambda>_.
     bindE (check (0 < total_size) AssertionError) (\<lambda>_.
     bindE (check (total_size \<le> dataset_size) AssertionError) (\<lambda>_.
     bindE (check (num_replicas \<noteq> 0) ZeroDivisionError) (\<lambda>_.
     bindE (check (total_size mod num_replicas = 0) AssertionError) (\<lambda>_.
     bindE (check (case num_samples of None \<Rightarrow> True | Some n \<Rightarrow> 0 \<le> n) AssertionError) (\<lambda>_.
     Inr \<lparr> sm_num_replicas = num_replicas, sm_rank = rank, sm_total_size = total_size, sm_seed = seed,
           sm_dataset_size = dataset_size, sm_per_rank_len = total_size div num_replicas,
           sm_global_offset = nat start_global_offset_samples,
           sm_num_samples = map_option nat num_samples \<rparr>)))))))"

definition sampler_len :: "sampler \<Rightarrow> nat" where
  "sampler_len s =
     (case sm_num_samples s of Some n \<Rightarrow> n
      | None \<Rightarrow> (let m = sm_global_offset s mod sm_per_rank_len s
                 in if m \<noteq> 0 then sm_per_rank_len s - m else sm_per_rank_len s))"

definition epoch_perm :: "(nat \<Rightarrow> nat \<Rightarrow> nat list) \<Rightarrow> sampler \<Rightarrow> nat \<Rightarrow> nat list" where
  "epoch_perm randperm s epoch_idx = take (sm_total_size s) (randperm (sm_seed s + epoch_idx) (sm_dataset_size s))"

text \<open>\<open>perm[rank : total_size : num_replicas]\<close>.\<close>

definition epoch_slice_for_rank :: "sampler \<Rightarrow> nat list \<Rightarrow> nat list" where
  "epoch_slice_for_rank s perm =
     map (\<lambda>i. perm ! i) (py_range (sm_rank s) (min (sm_total_size s) (length perm)) (sm_num_replicas s))"

definition rank_epoch :: "(nat \<Rightarrow> nat \<Rightarrow> nat list) \<Rightarrow> sampler \<Rightarrow> nat \<Rightarrow> nat list" where
  "rank_epoch randperm s epoch_idx = epoch_slice_for_rank s (epoch_perm randperm s epoch_idx)"

definition iter_stream :: "(nat \<Rightarrow> nat \<Rightarrow> nat list) \<Rightarrow> sampler \<Rightarrow> nat stream" where
  "iter_stream randperm s =
     (let epoch_idx = sm_global_offset s div sm_per_rank_len s;
          offset_in_epoch = sm_global_offset s mod sm_per_rank_len s
      in drop offset_in_epoch (rank_epoch randperm s epoch_idx)
         @- flat (smap (rank_epoch randperm s) (fromN (Suc epoch_idx))))"

definition sampler_iter :: "(nat \<Rightarrow> nat \<Rightarrow> nat list) \<Rightarrow> sampler \<Rightarrow> nat list" where
  "sampler_iter randperm s = stake (sampler_len s) (iter_stream randperm s)"

section \<open>The position of every sample\<close>

text \<open>\<open>torch.randperm(n)\<close> returns a permutation of the first \<open>n\<close> numbers.\<close>

definition shuffles_indices :: "(nat \<Rightarrow> nat \<Rightarrow> nat list) \<Rightarrow> bool" where
  "shuffles_indices randperm \<longleftrightarrow> (\<forall>seed n. mset (randperm seed n) = mset [0..<n])"

text \<open>What the assertions of the constructor, and a rank below the number of replicas, give.\<close>

definition sampler_ok :: "sampler \<Rightarrow> bool" where
  "sampler_ok s \<longleftrightarrow> sm_rank s < sm_num_replicas s \<and> 0 < sm_total_size s \<and> sm_total_size s \<le> sm_dataset_size s
     \<and> sm_num_replicas s dvd sm_total_size s \<and> sm_per_rank_len s = sm_total_size s div sm_num_replicas s"

lemma make_sampler_ok:
  assumes "make_sampler dataset_size num_replicas rank total_size seed start n = Inr s" and "rank < num_replicas"
  shows "sampler_ok s"
  using assms by (auto simp: make_sampler_def sampler_ok_def res_simps)

lemma make_sampler_fields:
  assumes "make_sampler dataset_size num_replicas rank total_size seed start n = Inr s"
  shows "sm_rank s = rank" and "sm_num_replicas s = num_replicas" and "sm_total_size s = total_size"
    and "sm_seed s = seed" and "sm_dataset_size s = dataset_size" and "sm_per_rank_len s = total_size div num_replicas"
    and "sm_global_offset s = nat start" and "sm_num_samples s = map_option nat n" and "total_size \<le> dataset_size"
  using assms by (auto simp: make_sampler_def res_simps)

lemma per_rank_len_pos: "sampler_ok s \<Longrightarrow> 0 < sm_per_rank_len s"
  by (auto simp: sampler_ok_def div_greater_zero_iff dvd_imp_le)

lemma epoch_perm_props:
  assumes "shuffles_indices randperm" and "sm_total_size s \<le> sm_dataset_size s"
  shows "length (epoch_perm randperm s e) = sm_total_size s" and "distinct (epoch_perm randperm s e)"
    and "set (epoch_perm randperm s e) \<subseteq> {..<sm_dataset_size s}"
proof -
  let ?p = "randperm (sm_seed s + e) (sm_dataset_size s)"
  have m: "mset ?p = mset [0..<sm_dataset_size s]" using assms(1) by (simp add: shuffles_indices_def)
  show "length (epoch_perm randperm s e) = sm_total_size s"
    using mset_eq_length [OF m] assms(2) by (simp add: epoch_perm_def)
  show "distinct (epoch_perm randperm s e)"
    using mset_eq_imp_distinct_iff [OF m] by (simp add: epoch_perm_def)
  show "set (epoch_perm randperm s e) \<subseteq> {..<sm_dataset_size s}"
    using mset_eq_setD [OF m] set_take_subset [of "sm_total_size s" ?p] by (auto simp: epoch_perm_def atLeast0LessThan)
qed

lemma py_range_stride:
  assumes "a < step"
  shows "py_range (k * step + a) (n * step) step = map (\<lambda>i. i * step + a) [k..<n]"
proof (induction "n - k" arbitrary: k)
  case 0
  then have "n * step \<le> k * step + a" by (simp add: trans_le_add1)
  then show ?case using 0 by (subst py_range.simps) simp
next
  case (Suc d)
  then have k: "k < n" by simp
  then have "Suc k * step \<le> n * step" by (intro mult_le_mono1) simp
  then have lt: "k * step + a < n * step" using assms by simp
  have "py_range (Suc k * step + a) (n * step) step = map (\<lambda>i. i * step + a) [Suc k..<n]"
    by (rule Suc.hyps(1)) (use Suc.hyps(2) in simp)
  then show ?case using lt assms k by (subst py_range.simps) (simp add: upt_conv_Cons add.commute add.left_commute)
qed

lemma rank_epoch_eq:
  assumes r: "shuffles_indices randperm" and s: "sampler_ok s"
  shows "rank_epoch randperm s e
     = map (\<lambda>i. epoch_perm randperm s e ! (i * sm_num_replicas s + sm_rank s)) [0..<sm_per_rank_len s]"
proof -
  have "sm_total_size s = sm_per_rank_len s * sm_num_replicas s" using s by (auto simp: sampler_ok_def)
  moreover have "length (epoch_perm randperm s e) = sm_total_size s"
    using epoch_perm_props(1) [OF r] s by (simp add: sampler_ok_def)
  ultimately show ?thesis
    using py_range_stride [of "sm_rank s" "sm_num_replicas s" 0 "sm_per_rank_len s"] s
    by (simp add: rank_epoch_def epoch_slice_for_rank_def sampler_ok_def comp_def)
qed

lemma rank_epoch_length:
  "shuffles_indices randperm \<Longrightarrow> sampler_ok s \<Longrightarrow> length (rank_epoch randperm s e) = sm_per_rank_len s"
  by (simp add: rank_epoch_eq)

text \<open>The sample of a rank at an absolute position of its stream.\<close>

definition sample_at :: "(nat \<Rightarrow> nat \<Rightarrow> nat list) \<Rightarrow> sampler \<Rightarrow> nat \<Rightarrow> nat" where
  "sample_at randperm s k = rank_epoch randperm s (k div sm_per_rank_len s) ! (k mod sm_per_rank_len s)"

lemma flat_epochs_nth:
  assumes "0 < L" and "\<And>e. length (f e) = L"
  shows "flat (smap f (fromN e)) !! i = f (e + i div L) ! (i mod L)"
proof (induction i arbitrary: e rule: less_induct)
  case (less i)
  have ne: "f e \<noteq> []" using assms by (metis length_0_conv less_not_refl)
  have "flat (smap f (fromN e)) = f e @- flat (smap f (fromN (Suc e)))"
    using flat_unfold [of "smap f (fromN e)"] ne by simp
  then have "flat (smap f (fromN e)) !! i = (if i < L then f e ! i else flat (smap f (fromN (Suc e))) !! (i - L))"
    using assms(2) by (simp add: shift_snth)
  moreover have "flat (smap f (fromN (Suc e))) !! (i - L) = f (e + i div L) ! (i mod L)" if "\<not> i < L"
    using less.IH [of "i - L" "Suc e"] that assms(1) by (simp add: le_div_geq le_mod_geq)
  ultimately show ?case by simp
qed

lemma div_mod_blocks:
  assumes "b < (L :: nat)"
  shows "(a * L + b) div L = a" and "(a * L + b) mod L = b"
  using assms by auto

lemma iter_stream_nth:
  assumes r: "shuffles_indices randperm" and s: "sampler_ok s"
  shows "iter_stream randperm s !! i = sample_at randperm s (sm_global_offset s + i)"
proof -
  define L where "L = sm_per_rank_len s"
  define e where "e = sm_global_offset s div L"
  define k where "k = sm_global_offset s mod L"
  let ?f = "rank_epoch randperm s"
  have L: "0 < L" using per_rank_len_pos [OF s] by (simp add: L_def)
  have kl: "k < L" and off: "sm_global_offset s = e * L + k" using L by (simp_all add: e_def k_def)
  have len: "length (?f x) = L" for x using rank_epoch_length [OF r s] by (simp add: L_def)
  have str: "iter_stream randperm s = drop k (?f e) @- flat (smap ?f (fromN (Suc e)))"
    by (simp add: iter_stream_def Let_def e_def k_def L_def)
  have at: "sample_at randperm s n = ?f (n div L) ! (n mod L)" for n by (simp add: sample_at_def L_def)
  show ?thesis
  proof (cases "k + i < L")
    case True
    have "sm_global_offset s + i = e * L + (k + i)" by (simp add: off)
    then have "sample_at randperm s (sm_global_offset s + i) = ?f e ! (k + i)"
      by (simp only: at div_mod_blocks [OF True])
    moreover have "i < L - k" using True by simp
    ultimately show ?thesis using len by (simp add: str shift_snth)
  next
    case False
    define j where "j = i - (L - k)"
    have j: "sm_global_offset s + i = Suc e * L + j" using False kl by (simp add: off j_def)
    have "(Suc e * L + j) div L = Suc e + j div L" "(Suc e * L + j) mod L = j mod L"
      using L by (simp_all del: mult_Suc)
    then have "sample_at randperm s (sm_global_offset s + i) = ?f (Suc e + j div L) ! (j mod L)" by (simp only: at j)
    moreover have "\<not> i < length (drop k (?f e))" using False kl len by simp
    then have "iter_stream randperm s !! i = flat (smap ?f (fromN (Suc e))) !! j"
      using len by (simp only: str shift_snth if_False length_drop j_def)
    ultimately show ?thesis using flat_epochs_nth [of L ?f "Suc e" j, OF L len] by (simp only:)
  qed
qed

lemma sampler_iter_eq:
  assumes "shuffles_indices randperm" and "sampler_ok s"
  shows "sampler_iter randperm s = map (\<lambda>i. sample_at randperm s (sm_global_offset s + i)) [0..<sampler_len s]"
  by (rule nth_equalityI) (simp_all add: sampler_iter_def iter_stream_nth [OF assms])

text \<open>The position of a sample depends on the rank and the shuffle only, not on the offset the stream started at.\<close>

lemma sample_at_offset:
  "sample_at randperm (s\<lparr> sm_global_offset := a, sm_num_samples := b \<rparr>) k = sample_at randperm s k"
  by (simp add: sample_at_def rank_epoch_def epoch_slice_for_rank_def epoch_perm_def)

lemma made_sampler_iter:
  assumes "shuffles_indices randperm" and "rank < R"
    and "make_sampler D R rank tot seed start (Some n) = Inr s"
  shows "sampler_iter randperm s = map (\<lambda>i. sample_at randperm s (nat start + i)) [0..<nat n]"
  using sampler_iter_eq [OF assms(1) make_sampler_ok [OF assms(3,2)]]
  by (simp add: sampler_len_def make_sampler_fields [OF assms(3)])

section \<open>Every sample once per epoch\<close>

lemma rank_window:
  assumes "e * L + L \<le> n"
  shows "py_slice (e * L) (e * L + L) (map (\<lambda>i. f (i div L) (i mod L)) [0..<n]) = map (f e) [0..<L]"
proof (rule nth_equalityI)
  show "length (py_slice (e * L) (e * L + L) (map (\<lambda>i. f (i div L) (i mod L)) [0..<n])) = length (map (f e) [0..<L])"
    using assms by simp
  fix i
  assume "i < length (py_slice (e * L) (e * L + L) (map (\<lambda>i. f (i div L) (i mod L)) [0..<n]))"
  then have "i < L" using assms by simp
  then show "py_slice (e * L) (e * L + L) (map (\<lambda>i. f (i div L) (i mod L)) [0..<n]) ! i = map (f e) [0..<L] ! i"
    using assms div_mod_blocks [of i L e] by (simp add: nth_py_slice)
qed

text \<open>
  (C33) The ranks share every epoch exactly. When all ranks iterate their samplers over \<open>epochs\<close>
  epochs from the start, the samples that the ranks receive within one epoch are together the
  first \<open>total_size\<close> entries of that epoch's shuffle, each of them once: no sample is visited
  twice in an epoch, none of the selected ones is left out, and a fresh shuffle starts at every
  epoch boundary.
\<close>

theorem sampler_epochs_exact:
  assumes r: "shuffles_indices randperm"
    and s: "\<forall>rank < R. make_sampler D R rank tot seed 0 (Some (int (epochs * (tot div R)))) = Inr (s rank)"
    and e: "e < epochs" and R: "0 < R"
  shows "mset (concat (map (\<lambda>rank. py_slice (e * (tot div R)) (e * (tot div R) + tot div R) (sampler_iter randperm (s rank))) [0..<R]))
     = mset (take tot (randperm (seed + e) D))
   \<and> distinct (take tot (randperm (seed + e) D)) \<and> length (take tot (randperm (seed + e) D)) = tot"
proof -
  let ?L = "tot div R" and ?p = "take tot (randperm (seed + e) D)"
  have "Suc e * ?L \<le> epochs * ?L" using e by (intro mult_le_mono1) simp
  then have win: "e * ?L + ?L \<le> epochs * ?L" by simp
  have sl: "py_slice (e * ?L) (e * ?L + ?L) (sampler_iter randperm (s rank)) = map (\<lambda>i. ?p ! i) (py_range rank tot R)"
    if rank: "rank < R" for rank
  proof -
    note mk = s [rule_format, OF rank]
    note ok = make_sampler_ok [OF mk rank]
    note fields = make_sampler_fields [OF mk]
    have "py_slice (e * ?L) (e * ?L + ?L) (sampler_iter randperm (s rank)) = map (\<lambda>i. rank_epoch randperm (s rank) e ! i) [0..<?L]"
      using rank_window [OF win] made_sampler_iter [OF r rank mk] by (simp add: sample_at_def fields del: of_nat_mult)
    also have "\<dots> = rank_epoch randperm (s rank) e"
      using map_nth [of "rank_epoch randperm (s rank) e"] by (simp add: rank_epoch_length [OF r ok] fields)
    also have "\<dots> = map (\<lambda>i. ?p ! i) (py_range rank tot R)"
      using epoch_perm_props(1) [OF r, of "s rank" e] ok
      by (simp add: rank_epoch_def epoch_slice_for_rank_def epoch_perm_def fields sampler_ok_def min_def)
    finally show ?thesis .
  qed
  have ok0: "tot \<le> D" using make_sampler_fields(9) [OF s [rule_format, OF R]] .
  have "length (randperm (seed + e) D) = D" "distinct (randperm (seed + e) D)"
    using r mset_eq_length [of "randperm (seed + e) D" "[0..<D]"] mset_eq_imp_distinct_iff [of "randperm (seed + e) D" "[0..<D]"]
    by (simp_all add: shuffles_indices_def)
  then have d: "distinct ?p \<and> length ?p = tot" using ok0 by simp
  then have "mset (concat (map (\<lambda>rank. map (\<lambda>i. ?p ! i) (py_range rank tot R)) [0..<R])) = mset ?p"
    by (intro rank_shares_nth [OF R]) simp
  moreover have "map (\<lambda>rank. py_slice (e * ?L) (e * ?L + ?L) (sampler_iter randperm (s rank))) [0..<R]
      = map (\<lambda>rank. map (\<lambda>i. ?p ! i) (py_range rank tot R)) [0..<R]"
    by (rule map_cong) (auto simp: sl)
  ultimately show ?thesis using d by (simp only:)
qed

text \<open>Two ranks over a data set of five rows, of which four form the epoch; the shuffle rotates by the seed.\<close>

definition rotate_perm :: "nat \<Rightarrow> nat \<Rightarrow> nat list" where
  "rotate_perm seed n = rotate seed [0..<n]"

lemma rotate_perm_shuffles: "shuffles_indices rotate_perm"
proof -
  have "mset (rotate seed xs) = mset xs" for seed and xs :: "nat list"
    by (metis add.commute append_take_drop_id mset_append rotate_drop_take)
  then show ?thesis by (simp only: shuffles_indices_def rotate_perm_def) simp
qed

definition sample_sampler :: "nat \<Rightarrow> sampler" where
  "sample_sampler rank = \<lparr> sm_num_replicas = 2, sm_rank = rank, sm_total_size = 4, sm_seed = 42, sm_dataset_size = 5,
     sm_per_rank_len = 2, sm_global_offset = 0, sm_num_samples = Some 6 \<rparr>"

theorem sampler_epochs_exact_witness:
  "(mset (concat (map (\<lambda>rank. py_slice (1 * (4 div 2)) (1 * (4 div 2) + 4 div 2)
       (sampler_iter rotate_perm (sample_sampler rank))) [0..<2])) = mset (take 4 (rotate_perm (42 + 1) 5))
     \<and> distinct (take 4 (rotate_perm (42 + 1) 5)) \<and> length (take 4 (rotate_perm (42 + 1) 5)) = 4)
   \<and> take 4 (rotate_perm (42 + 1) 5) = [3, 4, 0, 1]"
proof
  show "mset (concat (map (\<lambda>rank. py_slice (1 * (4 div 2)) (1 * (4 div 2) + 4 div 2)
       (sampler_iter rotate_perm (sample_sampler rank))) [0..<2])) = mset (take 4 (rotate_perm (42 + 1) 5))
     \<and> distinct (take 4 (rotate_perm (42 + 1) 5)) \<and> length (take 4 (rotate_perm (42 + 1) 5)) = 4"
    by (rule sampler_epochs_exact [OF rotate_perm_shuffles, where epochs = 3])
      (simp_all add: make_sampler_def sample_sampler_def)
  show "take 4 (rotate_perm (42 + 1) 5) = [3, 4, 0, 1]" by code_simp
qed

end
