(* ===== verification/Training_Run.thy ===== *)
theory Training_Run
  imports Bf16_Optimizer Batch_Prefetcher Resumable_Sampler
begin

text \<open>
  The training job: the schedule and the loop of \<open>BaseTrainer\<close>
  (\<^verbatim>\<open>DeepSpec/deepspec/trainer/base_trainer.py\<close>) and the checkpoints of
  \<^verbatim>\<open>DeepSpec/deepspec/trainer/ckpt_manager.py\<close>. All ranks run in lockstep between the
  barriers of the code, so the job is the list of their states. A process may be suspended after
  an optimizer step, or be killed before any micro step; the next process of the job resumes from
  the checkpoint \<open>step_latest\<close> refers to. The forward and backward pass over the shards of all
  ranks, gradient clipping, sharding and the random generators are parameters. Checkpoints are
  written in one piece: a crash in the middle of writing one is not modelled.
\<close>

section \<open>The schedule\<close>

record train_config =
  tc_world_size :: nat
  tc_dataset_size :: nat
  tc_local_batch_size :: nat
  tc_global_batch_size :: nat
  tc_num_train_epochs :: nat
  tc_max_train_steps :: "nat option"
  tc_checkpointing_steps :: nat

record schedule =
  gradient_accumulation_steps :: nat
  samples_per_epoch :: nat
  per_rank_samples_per_epoch :: nat
  micro_batches_per_epoch :: nat
  steps_per_epoch :: nat
  max_train_steps :: nat
  num_train_epochs :: nat

definition compute_gradient_accumulation_steps :: "nat \<Rightarrow> nat \<Rightarrow> nat \<Rightarrow> nat res" where
  "compute_gradient_accumulation_steps world_size local_batch_size global_batch_size =
     (let denom = world_size * local_batch_size in
      bindE (check (denom \<noteq> 0) ZeroDivisionError) (\<lambda>_.
      bindE (check (global_batch_size mod denom = 0) AssertionError) (\<lambda>_.
      Inr (global_batch_size div denom))))"

definition compute_samples_per_epoch :: "nat \<Rightarrow> nat \<Rightarrow> nat res" where
  "compute_samples_per_epoch dataset_size global_batch_size =
     bindE (check (global_batch_size \<noteq> 0) ZeroDivisionError) (\<lambda>_.
     let samples = (dataset_size div global_batch_size) * global_batch_size in
     bindE (check (0 < samples) AssertionError) (\<lambda>_. Inr samples))"

definition compute_training_schedule :: "train_config \<Rightarrow> schedule res" where
  "compute_training_schedule cfg =
     bindE (compute_gradient_accumulation_steps (tc_world_size cfg) (tc_local_batch_size cfg) (tc_global_batch_size cfg)) (\<lambda>gas.
     bindE (compute_samples_per_epoch (tc_dataset_size cfg) (tc_global_batch_size cfg)) (\<lambda>samples.
     let per_rank = samples div tc_world_size cfg;
         micro = per_rank div tc_local_batch_size cfg;
         steps = micro div gas;
         (max_steps, epochs) =
           (case tc_max_train_steps cfg of
              None \<Rightarrow> (tc_num_train_epochs cfg * steps, tc_num_train_epochs cfg)
            | Some n \<Rightarrow> (n, (n + steps - 1) div steps))
     in Inr \<lparr> gradient_accumulation_steps = gas, samples_per_epoch = samples, per_rank_samples_per_epoch = per_rank,
              micro_batches_per_epoch = micro, steps_per_epoch = steps, max_train_steps = max_steps,
              num_train_epochs = epochs \<rparr>))"

section \<open>State of the job\<close>

record ('b, 'f, 'a, 'c, 'k, 'r) rank_state =
  rk_params :: "'b list"
  rk_grads :: "'b option list"
  rk_optimizer :: "('f, 'a, 'c, 'k) bf16_optimizer"
  rk_cuda_rng :: 'r

record ('b, 'f, 'a, 'c, 'k, 'r, 'q) train_job =
  next_micro_step :: nat
  job_ranks :: "('b, 'f, 'a, 'c, 'k, 'r) rank_state list"
  host_rngs :: "'q list"

text \<open>The file one rank writes, a checkpoint directory, and the checkpoint root with its link.\<close>

record ('f, 'k, 'ad, 'cd, 'r, 'q) training_state =
  ts_next_micro_step :: nat
  ts_optimizer :: "'ad \<times> ('cd \<times> 'k) \<times> 'f list"
  ts_global_rank :: nat
  ts_world_size :: nat
  ts_local_batch_size :: nat
  ts_cuda_rng :: 'r
  ts_host_rng :: 'q

record ('m, 'f, 'k, 'ad, 'cd, 'r, 'q) checkpoint =
  ck_model :: 'm
  ck_states :: "nat \<rightharpoonup> ('f, 'k, 'ad, 'cd, 'r, 'q) training_state"

record ('m, 'f, 'k, 'ad, 'cd, 'r, 'q) checkpoint_root =
  step_dirs :: "nat \<rightharpoonup> ('m, 'f, 'k, 'ad, 'cd, 'r, 'q) checkpoint"
  step_latest :: "nat option"

text \<open>
  The external operations: the shuffle, the gradients of one micro batch on all ranks (told
  whether to synchronise and by how much to scale the loss), clipping, gathering the full model
  from the shards and sharding a loaded one, what a new process starts from, and the draw of the
  data loader from the host generator when it is iterated.
\<close>

record ('b, 'f, 'a, 'c, 'k, 'ad, 'cd, 'm, 'r, 'q) train_env =
  te_optim :: "('b, 'f, 'a, 'c, 'k, 'ad, 'cd) torch_optim"
  te_randperm :: "nat \<Rightarrow> nat \<Rightarrow> nat list"
  te_backward :: "bool \<Rightarrow> nat \<Rightarrow> 'b list list \<Rightarrow> nat list list \<Rightarrow> 'b option list list \<Rightarrow> 'r list \<Rightarrow> 'b option list list \<times> 'r list"
  te_clip :: "'b option list list \<Rightarrow> 'b option list list"
  te_full_state :: "'b list list \<Rightarrow> 'm"
  te_shard :: "'m \<Rightarrow> nat \<Rightarrow> 'b list"
  te_initial :: "nat \<Rightarrow> 'b list"
  te_initial_cuda :: "nat \<Rightarrow> 'r"
  te_initial_host :: "nat \<Rightarrow> 'q"
  te_loader_draw :: "'q \<Rightarrow> 'q"

section \<open>Checkpoints\<close>

definition serialize_training_state ::
  "('b, 'f, 'a, 'c, 'k, 'ad, 'cd, 'm, 'r, 'q) train_env \<Rightarrow> train_config \<Rightarrow> ('b, 'f, 'a, 'c, 'k, 'r) rank_state \<Rightarrow> 'q \<Rightarrow> nat \<Rightarrow> nat
   \<Rightarrow> ('f, 'k, 'ad, 'cd, 'r, 'q) training_state" where
  "serialize_training_state env cfg rk host n global_rank =
     \<lparr> ts_next_micro_step = n, ts_optimizer = bf16_state_dict (te_optim env) (rk_optimizer rk),
       ts_global_rank = global_rank, ts_world_size = tc_world_size cfg, ts_local_batch_size = tc_local_batch_size cfg,
       ts_cuda_rng = rk_cuda_rng rk, ts_host_rng = host \<rparr>"

text \<open>
  \<open>save_checkpoint\<close> on all ranks: into a directory named after the step, where files of an
  earlier save are overwritten, and then the link.
\<close>

definition save_checkpoint ::
  "('b, 'f, 'a, 'c, 'k, 'ad, 'cd, 'm, 'r, 'q) train_env \<Rightarrow> train_config \<Rightarrow> schedule \<Rightarrow> ('b, 'f, 'a, 'c, 'k, 'r, 'q) train_job
   \<Rightarrow> ('m, 'f, 'k, 'ad, 'cd, 'r, 'q) checkpoint_root \<Rightarrow> ('m, 'f, 'k, 'ad, 'cd, 'r, 'q) checkpoint_root res" where
  "save_checkpoint env cfg sch job root =
     bindE (check (next_micro_step job mod gradient_accumulation_steps sch = 0) AssertionError) (\<lambda>_.
     let global_step = next_micro_step job div gradient_accumulation_steps sch;
         old = (case step_dirs root global_step of None \<Rightarrow> Map.empty | Some ck \<Rightarrow> ck_states ck);
         written = map_of (map (\<lambda>rank. (rank, serialize_training_state env cfg (job_ranks job ! rank) (host_rngs job ! rank)
                                  (next_micro_step job) rank)) [0..<tc_world_size cfg]);
         ck = \<lparr> ck_model = te_full_state env (map rk_params (job_ranks job)), ck_states = old ++ written \<rparr>
     in Inr (root\<lparr> step_dirs := (step_dirs root)(global_step \<mapsto> ck), step_latest := Some global_step \<rparr>))"

text \<open>\<open>load_resume_draft_model\<close>, the new optimizer and \<open>load_training_state\<close> on one rank.\<close>

definition load_rank ::
  "('b, 'f, 'a, 'c, 'k, 'ad, 'cd, 'm, 'r, 'q) train_env \<Rightarrow> train_config \<Rightarrow> schedule \<Rightarrow> ('m, 'f, 'k, 'ad, 'cd, 'r, 'q) checkpoint
   \<Rightarrow> nat \<Rightarrow> (nat \<times> ('b, 'f, 'a, 'c, 'k, 'r) rank_state \<times> 'q) res" where
  "load_rank env cfg sch ck rank =
     (case ck_states ck rank of
        None \<Rightarrow> Inl AssertionError
      | Some st \<Rightarrow>
          let shards = te_shard env (ck_model ck) rank;
              (params, opt) = bf16_load_state_dict (te_optim env) (ts_optimizer st) shards
                                (make_bf16_optimizer (te_optim env) shards)
          in
          bindE (check (ts_next_micro_step st mod gradient_accumulation_steps sch = 0) AssertionError) (\<lambda>_.
          bindE (check (ts_global_rank st = rank) AssertionError) (\<lambda>_.
          bindE (check (ts_world_size st = tc_world_size cfg) AssertionError) (\<lambda>_.
          bindE (check (ts_local_batch_size st = tc_local_batch_size cfg) AssertionError) (\<lambda>_.
          Inr (ts_next_micro_step st,
               \<lparr> rk_params = params, rk_grads = map (\<lambda>_. None) params, rk_optimizer = opt, rk_cuda_rng = ts_cuda_rng st \<rparr>,
               ts_host_rng st))))))"

definition fresh_rank ::
  "('b, 'f, 'a, 'c, 'k, 'ad, 'cd, 'm, 'r, 'q) train_env \<Rightarrow> nat \<Rightarrow> ('b, 'f, 'a, 'c, 'k, 'r) rank_state" where
  "fresh_rank env rank =
     \<lparr> rk_params = te_initial env rank, rk_grads = map (\<lambda>_. None) (te_initial env rank),
       rk_optimizer = make_bf16_optimizer (te_optim env) (te_initial env rank), rk_cuda_rng = te_initial_cuda env rank \<rparr>"

text \<open>
  The part of \<open>__init__\<close> that sets the state: \<open>discover_latest_checkpoint\<close> decides between
  resuming and training from scratch.
\<close>

definition start_job ::
  "('b, 'f, 'a, 'c, 'k, 'ad, 'cd, 'm, 'r, 'q) train_env \<Rightarrow> train_config \<Rightarrow> schedule
   \<Rightarrow> ('m, 'f, 'k, 'ad, 'cd, 'r, 'q) checkpoint_root \<Rightarrow> ('b, 'f, 'a, 'c, 'k, 'r, 'q) train_job res" where
  "start_job env cfg sch root =
     (case step_latest root of
        None \<Rightarrow> Inr \<lparr> next_micro_step = 0, job_ranks = map (fresh_rank env) [0..<tc_world_size cfg],
                       host_rngs = map (te_initial_host env) [0..<tc_world_size cfg] \<rparr>
      | Some step \<Rightarrow>
          (case step_dirs root step of
             None \<Rightarrow> Inl FileNotFoundError
           | Some ck \<Rightarrow>
               bindE (mapE (load_rank env cfg sch ck) [0..<tc_world_size cfg]) (\<lambda>loaded.
               Inr \<lparr> next_micro_step = fst (hd loaded), job_ranks = map (\<lambda>(n, rk, host). rk) loaded,
                     host_rngs = map (\<lambda>(n, rk, host). host) loaded \<rparr>)))"

section \<open>The training loop\<close>

text \<open>\<open>DataLoader\<close> with \<open>drop_last\<close> over the indices of the sampler.\<close>

definition loader_batches :: "nat \<Rightarrow> nat list \<Rightarrow> nat list list" where
  "loader_batches batch_size idxs = map (\<lambda>i. py_slice (i * batch_size) (i * batch_size + batch_size) idxs) [0..<length idxs div batch_size]"

definition build_train_dataloader ::
  "('b, 'f, 'a, 'c, 'k, 'ad, 'cd, 'm, 'r, 'q) train_env \<Rightarrow> train_config \<Rightarrow> schedule \<Rightarrow> nat \<Rightarrow> int \<Rightarrow> int option \<Rightarrow> nat list list res" where
  "build_train_dataloader env cfg sch rank start_offset_samples num_samples =
     bindE (make_sampler (tc_dataset_size cfg) (tc_world_size cfg) rank (samples_per_epoch sch) 42 start_offset_samples num_samples) (\<lambda>s.
     Inr (loader_batches (tc_local_batch_size cfg) (sampler_iter (te_randperm env) s)))"

text \<open>One micro step of all ranks, with the optimizer step when the gradients are synchronised.\<close>

definition micro_step ::
  "('b, 'f, 'a, 'c, 'k, 'ad, 'cd, 'm, 'r, 'q) train_env \<Rightarrow> schedule \<Rightarrow> nat \<Rightarrow> nat list list
   \<Rightarrow> ('b, 'f, 'a, 'c, 'k, 'r) rank_state list \<Rightarrow> ('b, 'f, 'a, 'c, 'k, 'r) rank_state list" where
  "micro_step env sch n batches ranks =
     (let should_sync = (n + 1) mod gradient_accumulation_steps sch = 0;
          (grads, rngs) = te_backward env should_sync (gradient_accumulation_steps sch) (map rk_params ranks) batches
                            (map rk_grads ranks) (map rk_cuda_rng ranks)
      in if should_sync then
           map (\<lambda>(rk, g, r). case bf16_step (te_optim env) (rk_params rk) g (rk_optimizer rk) of
                  (params, grads', opt) \<Rightarrow> \<lparr> rk_params = params, rk_grads = grads', rk_optimizer = opt, rk_cuda_rng = r \<rparr>)
             (zip ranks (zip (te_clip env grads) rngs))
         else map (\<lambda>(rk, g, r). rk\<lparr> rk_grads := g, rk_cuda_rng := r \<rparr>) (zip ranks (zip grads rngs)))"

text \<open>What happens to a process: it may be told to suspend after a step, or die before a micro step.\<close>

record fate =
  suspend_requested :: "nat \<Rightarrow> bool"
  dies_before :: "nat \<Rightarrow> bool"

datatype outcome = Completed | Suspended | Killed

fun train_loop ::
  "('b, 'f, 'a, 'c, 'k, 'ad, 'cd, 'm, 'r, 'q) train_env \<Rightarrow> train_config \<Rightarrow> schedule \<Rightarrow> fate \<Rightarrow> nat list list list
   \<Rightarrow> ('b, 'f, 'a, 'c, 'k, 'r, 'q) train_job \<Rightarrow> ('m, 'f, 'k, 'ad, 'cd, 'r, 'q) checkpoint_root
   \<Rightarrow> (outcome \<times> ('b, 'f, 'a, 'c, 'k, 'r, 'q) train_job \<times> ('m, 'f, 'k, 'ad, 'cd, 'r, 'q) checkpoint_root) res" where
  "train_loop env cfg sch fate [] job root =
     bindE (save_checkpoint env cfg sch job root) (\<lambda>root'. Inr (Completed, job, root'))"
| "train_loop env cfg sch fate (batch # batches) job root =
     (if dies_before fate (next_micro_step job) then Inr (Killed, job, root)
      else
        let job' = job\<lparr> next_micro_step := next_micro_step job + 1,
                        job_ranks := micro_step env sch (next_micro_step job) batch (job_ranks job) \<rparr>
        in if next_micro_step job' mod gradient_accumulation_steps sch \<noteq> 0 then train_loop env cfg sch fate batches job' root
        else
          let global_step = next_micro_step job' div gradient_accumulation_steps sch in
          bindE (check (tc_checkpointing_steps cfg \<noteq> 0) ZeroDivisionError) (\<lambda>_.
          bindE (if global_step mod tc_checkpointing_steps cfg = 0 \<or> global_step mod steps_per_epoch sch = 0
                 then save_checkpoint env cfg sch job' root else Inr root) (\<lambda>root'.
          if suspend_requested fate global_step then
            bindE (save_checkpoint env cfg sch job' root') (\<lambda>root''. Inr (Suspended, job', root''))
          else train_loop env cfg sch fate batches job' root')))"

text \<open>\<open>train\<close>: nothing is left to do after the last step; otherwise the remaining samples are iterated.\<close>

definition train ::
  "('b, 'f, 'a, 'c, 'k, 'ad, 'cd, 'm, 'r, 'q) train_env \<Rightarrow> train_config \<Rightarrow> schedule \<Rightarrow> fate
   \<Rightarrow> ('b, 'f, 'a, 'c, 'k, 'r, 'q) train_job \<Rightarrow> ('m, 'f, 'k, 'ad, 'cd, 'r, 'q) checkpoint_root
   \<Rightarrow> (outcome \<times> ('b, 'f, 'a, 'c, 'k, 'r, 'q) train_job \<times> ('m, 'f, 'k, 'ad, 'cd, 'r, 'q) checkpoint_root) res" where
  "train env cfg sch fate job root =
     (if max_train_steps sch \<le> next_micro_step job div gradient_accumulation_steps sch then Inr (Completed, job, root)
      else
        let total_micro_steps = max_train_steps sch * gradient_accumulation_steps sch;
            remaining_samples = (int total_micro_steps - int (next_micro_step job)) * int (tc_local_batch_size cfg)
        in
        bindE (mapE (\<lambda>rank. bindE (build_train_dataloader env cfg sch rank
                                     (int (next_micro_step job * tc_local_batch_size cfg)) (Some remaining_samples))
                              (\<lambda>bs. prefetched (\<lambda>b. b) (map Inr bs))) [0..<tc_world_size cfg]) (\<lambda>per_rank.
        train_loop env cfg sch fate (map (\<lambda>i. map (\<lambda>bs. bs ! i) per_rank) [0..<length (hd per_rank)])
          (job\<lparr> host_rngs := map (te_loader_draw env) (host_rngs job) \<rparr>) root))"

text \<open>The processes of a job, one after the other, until one completes.\<close>

fun run_processes ::
  "('b, 'f, 'a, 'c, 'k, 'ad, 'cd, 'm, 'r, 'q) train_env \<Rightarrow> train_config \<Rightarrow> fate list \<Rightarrow> ('m, 'f, 'k, 'ad, 'cd, 'r, 'q) checkpoint_root
   \<Rightarrow> (('b, 'f, 'a, 'c, 'k, 'r, 'q) train_job option \<times> ('m, 'f, 'k, 'ad, 'cd, 'r, 'q) checkpoint_root) res" where
  "run_processes env cfg [] root = Inr (None, root)"
| "run_processes env cfg (fate # fates) root =
     bindE (compute_training_schedule cfg) (\<lambda>sch.
     bindE (start_job env cfg sch root) (\<lambda>job.
     bindE (train env cfg sch fate job root) (\<lambda>(outcome, job', root').
     if outcome = Completed then Inr (Some job', root') else run_processes env cfg fates root')))"

section \<open>The schedule is exact\<close>

text \<open>The floor divisions of the schedule lose nothing but the incomplete last global batch.\<close>

definition schedule_exact :: "train_config \<Rightarrow> schedule \<Rightarrow> bool" where
  "schedule_exact cfg sch \<longleftrightarrow>
     0 < tc_world_size cfg \<and> 0 < tc_local_batch_size cfg \<and> 0 < gradient_accumulation_steps sch \<and> 0 < steps_per_epoch sch
   \<and> tc_world_size cfg * tc_local_batch_size cfg * gradient_accumulation_steps sch = tc_global_batch_size cfg
   \<and> steps_per_epoch sch * gradient_accumulation_steps sch = micro_batches_per_epoch sch
   \<and> micro_batches_per_epoch sch * tc_local_batch_size cfg = per_rank_samples_per_epoch sch
   \<and> per_rank_samples_per_epoch sch * tc_world_size cfg = samples_per_epoch sch
   \<and> samples_per_epoch sch \<le> tc_dataset_size cfg
   \<and> tc_dataset_size cfg < samples_per_epoch sch + tc_global_batch_size cfg
   \<and> max_train_steps sch \<le> num_train_epochs sch * steps_per_epoch sch
   \<and> (0 < num_train_epochs sch \<longrightarrow> (num_train_epochs sch - 1) * steps_per_epoch sch < max_train_steps sch)"

lemma ceil_div_bounds:
  assumes "0 < (s :: nat)"
  shows "n \<le> (n + s - 1) div s * s" and "0 < (n + s - 1) div s \<Longrightarrow> ((n + s - 1) div s - 1) * s < n"
proof -
  let ?q = "(n + s - 1) div s"
  have eq: "?q * s + (n + s - 1) mod s = n + s - 1" by simp
  have m: "(n + s - 1) mod s < s" using assms by simp
  show "n \<le> ?q * s" using eq m by linarith
  assume q: "0 < ?q"
  have "(?q - 1) * s = ?q * s - s" by (simp add: diff_mult_distrib)
  moreover have "?q * s \<le> n + s - 1" using eq by linarith
  moreover have "s \<le> ?q * s" using q by simp
  ultimately show "(?q - 1) * s < n" using assms by linarith
qed

lemma compute_training_schedule_exact:
  assumes "compute_training_schedule cfg = Inr sch"
  shows "schedule_exact cfg sch"
proof -
  define w l g d where "w = tc_world_size cfg" and "l = tc_local_batch_size cfg" and "g = tc_global_batch_size cfg"
    and "d = tc_dataset_size cfg"
  define gas where "gas = g div (w * l)"
  define q where "q = d div g"
  from assms have wl: "w \<noteq> 0" "l \<noteq> 0" and gm: "g mod (w * l) = 0" and gz: "g \<noteq> 0" and pos: "0 < q * g"
    by (auto simp: compute_training_schedule_def compute_gradient_accumulation_steps_def compute_samples_per_epoch_def
        Let_def res_simps w_def l_def g_def d_def q_def)
  have g: "g = w * l * gas" using gm by (auto simp: gas_def)
  have gas0: "0 < gas" using g gz by (cases gas) auto
  have q0: "0 < q" using pos by simp
  have pr: "q * g div w = q * gas * l" using wl by (simp add: g)
  have mi: "q * gas * l div l = q * gas" "q * gas div gas = q" using wl gas0 by simp_all
  have dg: "q * g \<le> d" "d < q * g + g" using gz dividend_less_div_times [of g d] by (simp_all add: q_def add.commute)
  have sch: "sch = \<lparr> gradient_accumulation_steps = gas, samples_per_epoch = q * g, per_rank_samples_per_epoch = q * gas * l,
      micro_batches_per_epoch = q * gas, steps_per_epoch = q,
      max_train_steps = (case tc_max_train_steps cfg of None \<Rightarrow> tc_num_train_epochs cfg * q | Some n \<Rightarrow> n),
      num_train_epochs = (case tc_max_train_steps cfg of None \<Rightarrow> tc_num_train_epochs cfg | Some n \<Rightarrow> (n + q - 1) div q) \<rparr>"
    using assms
    by (auto simp: compute_training_schedule_def compute_gradient_accumulation_steps_def compute_samples_per_epoch_def
        Let_def res_simps pr mi split: option.splits simp flip: w_def l_def g_def d_def q_def gas_def)
  show ?thesis
    unfolding schedule_exact_def w_def [symmetric] l_def [symmetric] g_def [symmetric] d_def [symmetric] sch schedule.simps
    using wl gas0 q0 g dg ceil_div_bounds [OF q0]
    by (auto split: option.splits)
qed

section \<open>The uninterrupted run\<close>

text \<open>
  What the library documents: the shuffle is a permutation, gathering and sharding are inverse,
  and every rank gets gradients and keeps a generator.
\<close>

definition train_env_ok ::
  "('b, 'f, 'a, 'c, 'k, 'ad, 'cd, 'm, 'r, 'q) train_env \<Rightarrow> train_config \<Rightarrow> bool" where
  "train_env_ok env cfg \<longleftrightarrow>
     torch_optim_ok (te_optim env) \<and> shuffles_indices (te_randperm env)
   \<and> (\<forall>ps rank. length ps = tc_world_size cfg \<and> rank < tc_world_size cfg \<longrightarrow>
        te_shard env (te_full_state env ps) rank = ps ! rank)
   \<and> (\<forall>sync gas ps bs gs rs. length ps = tc_world_size cfg \<longrightarrow>
        length (fst (te_backward env sync gas ps bs gs rs)) = tc_world_size cfg
      \<and> length (snd (te_backward env sync gas ps bs gs rs)) = tc_world_size cfg)
   \<and> (\<forall>gs. length (te_clip env gs) = length gs)"

text \<open>The batches of micro step \<open>n\<close>, one per rank, and the states of the ranks after \<open>n\<close> micro steps.\<close>

definition stream_of :: "train_config \<Rightarrow> schedule \<Rightarrow> nat \<Rightarrow> sampler" where
  "stream_of cfg sch rank = \<lparr> sm_num_replicas = tc_world_size cfg, sm_rank = rank, sm_total_size = samples_per_epoch sch,
     sm_seed = 42, sm_dataset_size = tc_dataset_size cfg, sm_per_rank_len = samples_per_epoch sch div tc_world_size cfg,
     sm_global_offset = 0, sm_num_samples = None \<rparr>"

definition rank_batch ::
  "('b, 'f, 'a, 'c, 'k, 'ad, 'cd, 'm, 'r, 'q) train_env \<Rightarrow> train_config \<Rightarrow> schedule \<Rightarrow> nat \<Rightarrow> nat \<Rightarrow> nat list" where
  "rank_batch env cfg sch rank n =
     map (\<lambda>i. sample_at (te_randperm env) (stream_of cfg sch rank) (n * tc_local_batch_size cfg + i)) [0..<tc_local_batch_size cfg]"

definition global_batch ::
  "('b, 'f, 'a, 'c, 'k, 'ad, 'cd, 'm, 'r, 'q) train_env \<Rightarrow> train_config \<Rightarrow> schedule \<Rightarrow> nat \<Rightarrow> nat list list" where
  "global_batch env cfg sch n = map (\<lambda>rank. rank_batch env cfg sch rank n) [0..<tc_world_size cfg]"

fun reference ::
  "('b, 'f, 'a, 'c, 'k, 'ad, 'cd, 'm, 'r, 'q) train_env \<Rightarrow> train_config \<Rightarrow> schedule \<Rightarrow> nat
   \<Rightarrow> ('b, 'f, 'a, 'c, 'k, 'r) rank_state list" where
  "reference env cfg sch 0 = map (fresh_rank env) [0..<tc_world_size cfg]"
| "reference env cfg sch (Suc n) = micro_step env sch n (global_batch env cfg sch n) (reference env cfg sch n)"

abbreviation total_micro_steps :: "schedule \<Rightarrow> nat" where
  "total_micro_steps sch \<equiv> max_train_steps sch * gradient_accumulation_steps sch"

lemma micro_step_length:
  assumes "train_env_ok env cfg" and "length ranks = tc_world_size cfg"
  shows "length (micro_step env sch n bs ranks) = tc_world_size cfg"
  using assms by (auto simp: micro_step_def train_env_ok_def Let_def split_beta)

lemma reference_length: "train_env_ok env cfg \<Longrightarrow> length (reference env cfg sch n) = tc_world_size cfg"
  by (induction n) (auto simp: micro_step_length)

text \<open>Masters and model parameters stay in step, and a synchronising step clears the gradients.\<close>

definition rank_synced ::
  "('b, 'f, 'a, 'c, 'k, 'ad, 'cd, 'm, 'r, 'q) train_env \<Rightarrow> ('b, 'f, 'a, 'c, 'k, 'r) rank_state \<Rightarrow> bool" where
  "rank_synced env rk \<longleftrightarrow> in_sync (te_optim env) (rk_params rk) (rk_optimizer rk)"

lemma micro_step_synced:
  assumes ok: "train_env_ok env cfg" and sy: "\<forall>rk \<in> set ranks. rank_synced env rk"
    and rk: "rk \<in> set (micro_step env sch n bs ranks)"
  shows "rank_synced env rk"
    and "(n + 1) mod gradient_accumulation_steps sch = 0 \<Longrightarrow> rk_grads rk = map (\<lambda>_. None) (rk_params rk)"
proof -
  let ?sync = "(n + 1) mod gradient_accumulation_steps sch = 0"
  let ?gr = "te_backward env ?sync (gradient_accumulation_steps sch) (map rk_params ranks) bs (map rk_grads ranks) (map rk_cuda_rng ranks)"
  have opt: "torch_optim_ok (te_optim env)" using ok by (simp add: train_env_ok_def)
  have goal: "rank_synced env rk \<and> (?sync \<longrightarrow> rk_grads rk = map (\<lambda>_. None) (rk_params rk))"
  proof (cases ?sync)
    case True
    then obtain rk0 g r where rk0: "rk0 \<in> set ranks"
      and eq: "rk = (case bf16_step (te_optim env) (rk_params rk0) g (rk_optimizer rk0) of
          (params, grads', opt) \<Rightarrow> \<lparr> rk_params = params, rk_grads = grads', rk_optimizer = opt, rk_cuda_rng = r \<rparr>)"
      using rk by (auto simp: micro_step_def split_beta dest!: set_zip_leftD)
    obtain ps gs opt where st: "bf16_step (te_optim env) (rk_params rk0) g (rk_optimizer rk0) = (ps, gs, opt)" by (cases "bf16_step (te_optim env) (rk_params rk0) g (rk_optimizer rk0)") auto
    have "gs = map (\<lambda>_. None) (rk_params rk0)" using st by (auto simp: bf16_step_def Let_def split_beta)
    then show ?thesis
      using bf16_step_sync [OF opt _ st] sy rk0 eq st by (simp add: rank_synced_def map_replicate_const)
  next
    case False
    then obtain rk0 g r where "rk0 \<in> set ranks" "rk = rk0\<lparr> rk_grads := g, rk_cuda_rng := r \<rparr>"
      using rk by (auto simp: micro_step_def split_beta dest!: set_zip_leftD)
    then show ?thesis using sy False by (simp add: rank_synced_def)
  qed
  then show "rank_synced env rk" and "?sync \<Longrightarrow> rk_grads rk = map (\<lambda>_. None) (rk_params rk)" by auto
qed

lemma reference_synced:
  assumes "train_env_ok env cfg" and "rk \<in> set (reference env cfg sch n)"
  shows "rank_synced env rk"
  using assms(2)
proof (induction n arbitrary: rk)
  case 0
  then show ?case using assms(1) by (auto simp: rank_synced_def fresh_rank_def train_env_ok_def make_optimizer_sync)
next
  case (Suc n)
  then show ?case using micro_step_synced(1) [OF assms(1), of "reference env cfg sch n"] by auto
qed

lemma reference_grads:
  assumes "train_env_ok env cfg" and "n mod gradient_accumulation_steps sch = 0" and "rk \<in> set (reference env cfg sch n)"
  shows "rk_grads rk = map (\<lambda>_. None) (rk_params rk)"
proof (cases n)
  case 0
  then show ?thesis using assms(3) by (auto simp: fresh_rank_def)
next
  case (Suc m)
  then show ?thesis
    using assms micro_step_synced(2) [OF assms(1), of "reference env cfg sch m" rk sch m] reference_synced [OF assms(1)]
    by auto
qed

section \<open>The batches do not depend on where a process starts\<close>

lemma loader_batches_map:
  "loader_batches b (map f [0..<m * b]) = map (\<lambda>i. map (\<lambda>j. f (i * b + j)) [0..<b]) [0..<m]" if "0 < b"
proof -
  have "py_slice (i * b) (i * b + b) (map f [0..<m * b]) = map (\<lambda>j. f (i * b + j)) [0..<b]" if "i < m" for i
  proof -
    have "Suc i * b \<le> m * b" using that by (intro mult_le_mono1) simp
    then have le: "i * b + b \<le> m * b" by simp
    show ?thesis using le by (intro nth_equalityI) (simp_all add: nth_py_slice)
  qed
  then show ?thesis using that by (simp add: loader_batches_def)
qed

lemma dataloader_batches:
  assumes ok: "train_env_ok env cfg" and ex: "schedule_exact cfg sch" and rank: "rank < tc_world_size cfg"
    and n: "n \<le> total_micro_steps sch"
  shows "build_train_dataloader env cfg sch rank (int (n * tc_local_batch_size cfg))
       (Some ((int (total_micro_steps sch) - int n) * int (tc_local_batch_size cfg)))
     = Inr (map (rank_batch env cfg sch rank) [n..<total_micro_steps sch])"
proof -
  let ?lb = "tc_local_batch_size cfg" and ?w = "tc_world_size cfg" and ?m = "total_micro_steps sch - n"
  have samples: "(int (total_micro_steps sch) - int n) * int ?lb = int (?m * ?lb)" using n by (simp add: of_nat_diff)
  have lb: "0 < ?lb" using ex by (simp add: schedule_exact_def)
  have sz: "0 < samples_per_epoch sch" "samples_per_epoch sch \<le> tc_dataset_size cfg" "samples_per_epoch sch mod ?w = 0"
  proof -
    have "samples_per_epoch sch = steps_per_epoch sch * gradient_accumulation_steps sch * ?lb * ?w"
      using ex by (simp add: schedule_exact_def)
    moreover have "0 < steps_per_epoch sch" "0 < gradient_accumulation_steps sch" "0 < ?lb" "0 < ?w"
      using ex by (simp_all add: schedule_exact_def)
    ultimately show "0 < samples_per_epoch sch" and "samples_per_epoch sch mod ?w = 0" by simp_all
    show "samples_per_epoch sch \<le> tc_dataset_size cfg" using ex by (simp add: schedule_exact_def)
  qed
  let ?s = "(stream_of cfg sch rank)\<lparr> sm_global_offset := n * ?lb, sm_num_samples := Some (?m * ?lb) \<rparr>"
  have mk: "make_sampler (tc_dataset_size cfg) ?w rank (samples_per_epoch sch) 42 (int (n * ?lb)) (Some (int (?m * ?lb))) = Inr ?s"
    using sz rank by (simp add: make_sampler_def stream_of_def del: of_nat_mult)
  have "sampler_iter (te_randperm env) ?s
      = map (\<lambda>i. sample_at (te_randperm env) (stream_of cfg sch rank) (n * ?lb + i)) [0..<?m * ?lb]"
    using made_sampler_iter [OF _ rank mk] ok by (simp add: train_env_ok_def sample_at_offset del: of_nat_mult)
  then have "build_train_dataloader env cfg sch rank (int (n * ?lb)) (Some (int (?m * ?lb)))
      = Inr (map (\<lambda>i. map (\<lambda>j. sample_at (te_randperm env) (stream_of cfg sch rank) (n * ?lb + (i * ?lb + j))) [0..<?lb]) [0..<?m])"
    using mk by (simp only: build_train_dataloader_def bindE.simps loader_batches_map [OF lb])
  also have "map (\<lambda>i. map (\<lambda>j. sample_at (te_randperm env) (stream_of cfg sch rank) (n * ?lb + (i * ?lb + j))) [0..<?lb]) [0..<?m]
      = map (rank_batch env cfg sch rank) [n..<total_micro_steps sch]"
    by (rule nth_equalityI) (simp_all add: rank_batch_def algebra_simps)
  finally show ?thesis unfolding samples .
qed

lemma lockstep_batches:
  assumes ok: "train_env_ok env cfg" and ex: "schedule_exact cfg sch" and n: "n \<le> total_micro_steps sch"
  shows "\<exists>per_rank. mapE (\<lambda>rank. bindE (build_train_dataloader env cfg sch rank (int (n * tc_local_batch_size cfg))
            (Some ((int (total_micro_steps sch) - int n) * int (tc_local_batch_size cfg))))
          (\<lambda>bs. prefetched (\<lambda>b. b) (map Inr bs))) [0..<tc_world_size cfg] = Inr per_rank
     \<and> map (\<lambda>i. map (\<lambda>bs. bs ! i) per_rank) [0..<length (hd per_rank)]
         = map (global_batch env cfg sch) [n..<total_micro_steps sch]"
proof -
  let ?pr = "map (\<lambda>rank. map (rank_batch env cfg sch rank) [n..<total_micro_steps sch]) [0..<tc_world_size cfg]"
  have "mapE (\<lambda>rank. bindE (build_train_dataloader env cfg sch rank (int (n * tc_local_batch_size cfg))
            (Some ((int (total_micro_steps sch) - int n) * int (tc_local_batch_size cfg))))
          (\<lambda>bs. prefetched (\<lambda>b. b) (map Inr bs))) [0..<tc_world_size cfg] = Inr ?pr"
    by (rule mapE_all) (simp only: dataloader_batches [OF ok ex _ n] set_upt atLeastLessThan_iff bindE.simps prefetched_all map_ident)
  moreover have "length (hd ?pr) = total_micro_steps sch - n"
    using ex by (cases "tc_world_size cfg") (simp_all add: schedule_exact_def upt_conv_Cons del: upt_Suc)
  then have "map (\<lambda>i. map (\<lambda>bs. bs ! i) ?pr) [0..<length (hd ?pr)] = map (global_batch env cfg sch) [n..<total_micro_steps sch]"
    by (intro nth_equalityI) (simp_all add: global_batch_def)
  ultimately show ?thesis by blast
qed

section \<open>Checkpoints hold the uninterrupted run\<close>

definition holds_reference ::
  "('b, 'f, 'a, 'c, 'k, 'ad, 'cd, 'm, 'r, 'q) train_env \<Rightarrow> train_config \<Rightarrow> schedule \<Rightarrow> nat
   \<Rightarrow> ('m, 'f, 'k, 'ad, 'cd, 'r, 'q) checkpoint \<Rightarrow> bool" where
  "holds_reference env cfg sch n ck \<longleftrightarrow>
     ck_model ck = te_full_state env (map rk_params (reference env cfg sch n))
   \<and> (\<forall>rank < tc_world_size cfg. \<exists>host. ck_states ck rank
         = Some (serialize_training_state env cfg (reference env cfg sch n ! rank) host n rank))"

definition root_ok ::
  "('b, 'f, 'a, 'c, 'k, 'ad, 'cd, 'm, 'r, 'q) train_env \<Rightarrow> train_config \<Rightarrow> schedule
   \<Rightarrow> ('m, 'f, 'k, 'ad, 'cd, 'r, 'q) checkpoint_root \<Rightarrow> bool" where
  "root_ok env cfg sch root \<longleftrightarrow>
     (case step_latest root of None \<Rightarrow> True
      | Some step \<Rightarrow> step \<le> max_train_steps sch
          \<and> (\<exists>ck. step_dirs root step = Some ck \<and> holds_reference env cfg sch (step * gradient_accumulation_steps sch) ck))"

text \<open>A job that stands where the uninterrupted run stands.\<close>

definition on_track ::
  "('b, 'f, 'a, 'c, 'k, 'ad, 'cd, 'm, 'r, 'q) train_env \<Rightarrow> train_config \<Rightarrow> schedule
   \<Rightarrow> ('b, 'f, 'a, 'c, 'k, 'r, 'q) train_job \<Rightarrow> bool" where
  "on_track env cfg sch job \<longleftrightarrow> next_micro_step job \<le> total_micro_steps sch
     \<and> job_ranks job = reference env cfg sch (next_micro_step job)"

lemma map_of_ranks: "rank < w \<Longrightarrow> map_of (map (\<lambda>rank. (rank, h rank)) [0..<w]) rank = Some (h rank)"
  by (simp add: map_of_map_restrict)

lemma save_checkpoint_ok:
  assumes ex: "schedule_exact cfg sch" and job: "on_track env cfg sch job"
    and sync: "next_micro_step job mod gradient_accumulation_steps sch = 0"
  shows "\<exists>root'. save_checkpoint env cfg sch job root = Inr root' \<and> root_ok env cfg sch root'
     \<and> step_latest root' = Some (next_micro_step job div gradient_accumulation_steps sch)"
proof -
  let ?g = "gradient_accumulation_steps sch" and ?n = "next_micro_step job"
  have n: "?n div ?g * ?g = ?n" using sync by auto
  have g: "0 < ?g" using ex by (simp add: schedule_exact_def)
  have "?n div ?g \<le> max_train_steps sch"
    using job g by (metis div_le_mono nonzero_mult_div_cancel_right on_track_def less_not_refl2)
  then show ?thesis
    using sync job n
    by (auto simp: save_checkpoint_def Let_def root_ok_def holds_reference_def on_track_def map_add_def map_of_ranks)
qed

lemma load_rank_ok:
  assumes ok: "train_env_ok env cfg" and sync: "n mod gradient_accumulation_steps sch = 0"
    and ck: "holds_reference env cfg sch n ck" and rank: "rank < tc_world_size cfg"
  shows "\<exists>host. load_rank env cfg sch ck rank = Inr (n, reference env cfg sch n ! rank, host)"
proof -
  let ?rk = "reference env cfg sch n ! rank"
  have len: "length (reference env cfg sch n) = tc_world_size cfg" using reference_length [OF ok] .
  then have rk: "?rk \<in> set (reference env cfg sch n)" using rank by simp
  obtain host where host: "ck_states ck rank = Some (serialize_training_state env cfg ?rk host n rank)"
    using ck rank by (auto simp: holds_reference_def)
  have "te_shard env (te_full_state env (map rk_params (reference env cfg sch n))) rank = map rk_params (reference env cfg sch n) ! rank"
    using ok rank len unfolding train_env_ok_def by simp
  then have sh: "te_shard env (ck_model ck) rank = rk_params ?rk"
    using ck rank len by (simp add: holds_reference_def)
  have "in_sync (te_optim env) (rk_params ?rk) (rk_optimizer ?rk)"
    using reference_synced [OF ok rk] by (simp add: rank_synced_def)
  then have "bf16_load_state_dict (te_optim env) (bf16_state_dict (te_optim env) (rk_optimizer ?rk)) (rk_params ?rk)
      (make_bf16_optimizer (te_optim env) (rk_params ?rk)) = (rk_params ?rk, rk_optimizer ?rk)"
    using ok by (intro optimizer_roundtrip) (auto simp: train_env_ok_def)
  moreover have "\<lparr> rk_params = rk_params ?rk, rk_grads = map (\<lambda>_. None) (rk_params ?rk), rk_optimizer = rk_optimizer ?rk,
      rk_cuda_rng = rk_cuda_rng ?rk \<rparr> = ?rk"
    using reference_grads [OF ok sync rk] by simp
  ultimately show ?thesis
    using sync by (simp add: load_rank_def host sh serialize_training_state_def)
qed

lemma start_job_ok:
  assumes ok: "train_env_ok env cfg" and ex: "schedule_exact cfg sch" and root: "root_ok env cfg sch root"
  shows "\<exists>job. start_job env cfg sch root = Inr job \<and> on_track env cfg sch job
     \<and> next_micro_step job mod gradient_accumulation_steps sch = 0
     \<and> next_micro_step job = (case step_latest root of None \<Rightarrow> 0 | Some step \<Rightarrow> step * gradient_accumulation_steps sch)"
proof (cases "step_latest root")
  case None
  then show ?thesis by (simp add: start_job_def on_track_def)
next
  case (Some step)
  let ?n = "step * gradient_accumulation_steps sch" and ?w = "tc_world_size cfg"
  obtain ck where ck: "step_dirs root step = Some ck" "holds_reference env cfg sch ?n ck" and le: "step \<le> max_train_steps sch"
    using root Some by (auto simp: root_ok_def)
  have "\<forall>rank < ?w. \<exists>host. load_rank env cfg sch ck rank = Inr (?n, reference env cfg sch ?n ! rank, host)"
    using load_rank_ok [OF ok _ ck(2)] by simp
  then obtain host where host: "\<forall>rank < ?w. load_rank env cfg sch ck rank = Inr (?n, reference env cfg sch ?n ! rank, host rank)"
    by metis
  have ld: "mapE (load_rank env cfg sch ck) [0..<?w] = Inr (map (\<lambda>rank. (?n, reference env cfg sch ?n ! rank, host rank)) [0..<?w])"
    by (rule mapE_all) (use host in simp)
  have w: "[0..<?w] \<noteq> []" using ex by (simp add: schedule_exact_def)
  have "map (\<lambda>rank. reference env cfg sch ?n ! rank) [0..<?w] = reference env cfg sch ?n"
    using map_nth [of "reference env cfg sch ?n"] reference_length [OF ok, of sch ?n] by simp
  then show ?thesis
    using Some ck(1) ld w le by (simp add: start_job_def on_track_def hd_map comp_def)
qed

section \<open>Restarts\<close>

text \<open>A process that is neither suspended nor killed.\<close>

definition undisturbed :: "fate \<Rightarrow> bool" where
  "undisturbed fate \<longleftrightarrow> (\<forall>n. \<not> suspend_requested fate n \<and> \<not> dies_before fate n)"

text \<open>What a process leaves behind.\<close>

definition process_result ::
  "('b, 'f, 'a, 'c, 'k, 'ad, 'cd, 'm, 'r, 'q) train_env \<Rightarrow> train_config \<Rightarrow> schedule \<Rightarrow> fate
   \<Rightarrow> outcome \<times> ('b, 'f, 'a, 'c, 'k, 'r, 'q) train_job \<times> ('m, 'f, 'k, 'ad, 'cd, 'r, 'q) checkpoint_root \<Rightarrow> bool" where
  "process_result env cfg sch fate res \<longleftrightarrow>
     (case res of (outcome, job, root) \<Rightarrow> root_ok env cfg sch root
      \<and> (outcome = Completed \<longrightarrow> next_micro_step job = total_micro_steps sch
           \<and> job_ranks job = reference env cfg sch (total_micro_steps sch))
      \<and> (undisturbed fate \<longrightarrow> outcome = Completed))"

lemma train_loop_ok:
  assumes ok: "train_env_ok env cfg" and ex: "schedule_exact cfg sch" and ck: "tc_checkpointing_steps cfg \<noteq> 0"
    and job: "on_track env cfg sch job" and root: "root_ok env cfg sch root"
  shows "\<exists>res. train_loop env cfg sch fate (map (global_batch env cfg sch) [next_micro_step job..<total_micro_steps sch]) job root
     = Inr res \<and> process_result env cfg sch fate res"
  using job root
proof (induction "total_micro_steps sch - next_micro_step job" arbitrary: job root)
  case 0
  then have n: "next_micro_step job = total_micro_steps sch" by (simp add: on_track_def)
  obtain root' where "save_checkpoint env cfg sch job root = Inr root'" "root_ok env cfg sch root'"
    using save_checkpoint_ok [OF ex "0.prems"(1), of root] n by auto
  then show ?case using n "0.prems"(1) by (simp add: process_result_def on_track_def)
next
  case (Suc d)
  let ?n = "next_micro_step job" and ?g = "gradient_accumulation_steps sch"
  let ?job = "job\<lparr> next_micro_step := ?n + 1, job_ranks := micro_step env sch ?n (global_batch env cfg sch ?n) (job_ranks job) \<rparr>"
  have lt: "?n < total_micro_steps sch" using Suc.hyps(2) by simp
  then have ixs: "[?n..<total_micro_steps sch] = ?n # [next_micro_step ?job..<total_micro_steps sch]" by (simp add: upt_conv_Cons)
  have on: "on_track env cfg sch ?job" using Suc.prems(1) lt by (simp add: on_track_def)
  have d: "d = total_micro_steps sch - next_micro_step ?job" using Suc.hyps(2) by simp
  note IH = Suc.hyps(1) [OF d on]
  consider "dies_before fate ?n" | "\<not> dies_before fate ?n" "(?n + 1) mod ?g \<noteq> 0" | "\<not> dies_before fate ?n" "(?n + 1) mod ?g = 0"
    by blast
  then show ?case
  proof cases
    case 1
    then show ?thesis using Suc.prems(2) by (auto simp: ixs process_result_def undisturbed_def)
  next
    case 2
    then show ?thesis using IH [OF Suc.prems(2)] by (simp add: ixs)
  next
    case 3
    then have sync: "next_micro_step ?job mod ?g = 0" by simp
    obtain root' where mid: "(if ((?n + 1) div ?g) mod tc_checkpointing_steps cfg = 0 \<or> ((?n + 1) div ?g) mod steps_per_epoch sch = 0
        then save_checkpoint env cfg sch ?job root else Inr root) = Inr root'" and r': "root_ok env cfg sch root'"
      using save_checkpoint_ok [OF ex on sync, of root] Suc.prems(2)
      by (cases "((?n + 1) div ?g) mod tc_checkpointing_steps cfg = 0 \<or> ((?n + 1) div ?g) mod steps_per_epoch sch = 0") (auto simp del: train_loop.simps)
    obtain root'' where fin: "save_checkpoint env cfg sch ?job root' = Inr root''" "root_ok env cfg sch root''"
      using save_checkpoint_ok [OF ex on sync, of root'] by blast
    have step: "train_loop env cfg sch fate (map (global_batch env cfg sch) [?n..<total_micro_steps sch]) job root
        = (if suspend_requested fate ((?n + 1) div ?g) then Inr (Suspended, ?job, root'')
           else train_loop env cfg sch fate (map (global_batch env cfg sch) [next_micro_step ?job..<total_micro_steps sch]) ?job root')"
      using 3 ck mid fin(1)
      by (cases "((?n + 1) div ?g) mod tc_checkpointing_steps cfg = 0 \<or> ((?n + 1) div ?g) mod steps_per_epoch sch = 0")
        (auto simp: ixs Let_def)
    show ?thesis
      using IH [OF r'] fin(2) unfolding step
      by (cases "suspend_requested fate ((?n + 1) div ?g)") (auto simp: process_result_def undisturbed_def)
  qed
qed

lemma train_ok:
  assumes ok: "train_env_ok env cfg" and ex: "schedule_exact cfg sch" and ck: "tc_checkpointing_steps cfg \<noteq> 0"
    and job: "on_track env cfg sch job" and sync: "next_micro_step job mod gradient_accumulation_steps sch = 0"
    and root: "root_ok env cfg sch root"
  shows "\<exists>res. train env cfg sch fate job root = Inr res \<and> process_result env cfg sch fate res"
proof (cases "max_train_steps sch \<le> next_micro_step job div gradient_accumulation_steps sch")
  case True
  then have "total_micro_steps sch \<le> next_micro_step job div gradient_accumulation_steps sch * gradient_accumulation_steps sch"
    by (intro mult_le_mono1)
  moreover have "next_micro_step job div gradient_accumulation_steps sch * gradient_accumulation_steps sch = next_micro_step job"
    using sync by auto
  ultimately have "next_micro_step job = total_micro_steps sch" using job by (simp add: on_track_def)
  then show ?thesis using True job root by (auto simp: train_def process_result_def on_track_def)
next
  case False
  let ?job = "job\<lparr> host_rngs := map (te_loader_draw env) (host_rngs job) \<rparr>"
  have "on_track env cfg sch ?job" using job by (simp add: on_track_def)
  from train_loop_ok [OF ok ex ck this root, of fate] obtain res where
    res: "train_loop env cfg sch fate (map (global_batch env cfg sch) [next_micro_step job..<total_micro_steps sch]) ?job root = Inr res"
      "process_result env cfg sch fate res" by auto
  have "next_micro_step job \<le> total_micro_steps sch" using job by (simp add: on_track_def)
  from lockstep_batches [OF ok ex this] obtain per_rank where
    "mapE (\<lambda>rank. bindE (build_train_dataloader env cfg sch rank (int (next_micro_step job * tc_local_batch_size cfg))
            (Some ((int (total_micro_steps sch) - int (next_micro_step job)) * int (tc_local_batch_size cfg))))
          (\<lambda>bs. prefetched (\<lambda>b. b) (map Inr bs))) [0..<tc_world_size cfg] = Inr per_rank"
    "map (\<lambda>i. map (\<lambda>bs. bs ! i) per_rank) [0..<length (hd per_rank)]
         = map (global_batch env cfg sch) [next_micro_step job..<total_micro_steps sch]" by blast
  then show ?thesis using False res by (simp add: train_def Let_def del: of_nat_mult train_loop.simps)
qed

lemma run_processes_ok:
  assumes ok: "train_env_ok env cfg" and sch: "compute_training_schedule cfg = Inr sch" and ck: "tc_checkpointing_steps cfg \<noteq> 0"
    and root: "root_ok env cfg sch root"
  shows "\<exists>final root'. run_processes env cfg fates root = Inr (final, root')
     \<and> (\<forall>job. final = Some job \<longrightarrow> next_micro_step job = total_micro_steps sch
          \<and> job_ranks job = reference env cfg sch (total_micro_steps sch))
     \<and> ((\<exists>fate \<in> set fates. undisturbed fate) \<longrightarrow> final \<noteq> None)"
  using root
proof (induction fates arbitrary: root)
  case Nil
  then show ?case by simp
next
  case (Cons fate fates)
  note ex = compute_training_schedule_exact [OF sch]
  obtain job where job: "start_job env cfg sch root = Inr job" "on_track env cfg sch job"
      "next_micro_step job mod gradient_accumulation_steps sch = 0"
    using start_job_ok [OF ok ex Cons.prems] by (elim exE conjE)
  obtain outcome job' root' where res: "train env cfg sch fate job root = Inr (outcome, job', root')"
      and pr: "process_result env cfg sch fate (outcome, job', root')"
    using train_ok [OF ok ex ck job(2,3) Cons.prems, of fate] by auto
  show ?case
  proof (cases "outcome = Completed")
    case True
    then show ?thesis using sch job(1) res pr by (simp add: process_result_def)
  next
    case False
    then have run: "run_processes env cfg (fate # fates) root = run_processes env cfg fates root'"
      using sch job(1) res by simp
    have "root_ok env cfg sch root'" "\<not> undisturbed fate" using pr False by (auto simp: process_result_def)
    then have calm: "(\<exists>f \<in> set (fate # fates). undisturbed f) = (\<exists>f \<in> set fates. undisturbed f)" by auto
    show ?thesis unfolding run calm by (rule Cons.IH) fact
  qed
qed


text \<open>Two ranks, two micro steps per optimizer step; gradients add up the samples of the batches.\<close>

definition sample_optim :: "(nat, nat, nat, nat, nat, nat, nat) torch_optim" where
  "sample_optim = \<lparr> to_float32 = (\<lambda>x. x), to_model_dtype = (\<lambda>x. x), make_adamw = length,
     adamw_step = (\<lambda>ps gs a. (map (\<lambda>p. p + sum_list (map (\<lambda>g. case g of None \<Rightarrow> 0 | Some x \<Rightarrow> x) gs)) ps, a + 1)),
     adamw_state_dict = (\<lambda>a. a), adamw_load_state_dict = (\<lambda>d a. d),
     make_scheduler = (\<lambda>a. (\<lparr> after_scheduler = 0, other_attributes = 0 \<rparr>, a)),
     scheduler_step = (\<lambda>s a. (s\<lparr> after_scheduler := after_scheduler s + a \<rparr>, a)),
     after_state_dict = (\<lambda>c. c), after_load_state_dict = (\<lambda>d c. d) \<rparr>"

definition sample_train_env :: "(nat, nat, nat, nat, nat, nat, nat, nat list list, nat, nat) train_env" where
  "sample_train_env = \<lparr> te_optim = sample_optim, te_randperm = rotate_perm,
     te_backward = (\<lambda>sync gas ps bs gs rs.
       (map (\<lambda>p. map (\<lambda>x. Some (sum_list (map sum_list bs) + sum_list (map (\<lambda>g. length g) gs))) p) ps, map (\<lambda>p. Suc (sum_list rs)) ps)),
     te_clip = (\<lambda>gs. gs), te_full_state = (\<lambda>ps. ps), te_shard = (\<lambda>m rank. m ! rank),
     te_initial = (\<lambda>rank. [rank, 7]), te_initial_cuda = (\<lambda>rank. rank), te_initial_host = (\<lambda>rank. 0), te_loader_draw = Suc \<rparr>"

definition sample_config :: train_config where
  "sample_config = \<lparr> tc_world_size = 2, tc_dataset_size = 9, tc_local_batch_size = 1, tc_global_batch_size = 4,
     tc_num_train_epochs = 3, tc_max_train_steps = Some 3, tc_checkpointing_steps = 1 \<rparr>"

definition sample_schedule :: schedule where
  "sample_schedule = \<lparr> gradient_accumulation_steps = 2, samples_per_epoch = 8, per_rank_samples_per_epoch = 4,
     micro_batches_per_epoch = 4, steps_per_epoch = 2, max_train_steps = 3, num_train_epochs = 2 \<rparr>"

definition calm_fate :: fate where
  "calm_fate = \<lparr> suspend_requested = (\<lambda>_. False), dies_before = (\<lambda>_. False) \<rparr>"

definition killed_at :: "nat \<Rightarrow> fate" where
  "killed_at n = \<lparr> suspend_requested = (\<lambda>_. False), dies_before = (\<lambda>m. m = n) \<rparr>"

lemma sample_train_env_ok: "train_env_ok sample_train_env sample_config"
  by (auto simp: train_env_ok_def sample_train_env_def sample_optim_def torch_optim_ok_def sample_config_def rotate_perm_shuffles)


end
