(* ===== verification/Jsonl_Dataset.thy ===== *)
theory Jsonl_Dataset
  imports Prelude "HOL-Library.List_Lexorder" "HOL-Library.Char_ord"
begin

text \<open>
  The line-indexed data set of \<^verbatim>\<open>DeepSpec/deepspec/data/jsonl_dataset.py\<close>: the offsets of
  the lines of every file are found by one pass or read back from an index kept in a cache
  directory, and a global row number is mapped to a file and a line. Files are their bytes; the
  digest that names a cache file, the key of a file (its path and modification time) and the
  parser of a line are parameters. An index is written atomically (a temporary file that replaces
  the old one), so the cache directory is a map from names to complete entries.
\<close>

section \<open>Lines of a file\<close>

abbreviation newline :: char where
  "newline \<equiv> CHR 0x0A"

text \<open>\<open>mm.readline()\<close> at a position: up to and including the next line feed, or to the end.\<close>

fun first_line :: "string \<Rightarrow> string" where
  "first_line [] = []"
| "first_line (c # cs) = (if c = newline then [c] else c # first_line cs)"

definition readline_at :: "string \<Rightarrow> nat \<Rightarrow> string" where
  "readline_at bytes pos = first_line (drop pos bytes)"

lemma first_line_Nil_iff [simp]: "first_line s = [] \<longleftrightarrow> s = []"
  by (cases s) auto

lemma readline_progress:
  "readline_at bytes pos \<noteq> [] \<Longrightarrow> length bytes - (pos + length (readline_at bytes pos)) < length bytes - pos"
proof -
  assume ne: "readline_at bytes pos \<noteq> []"
  then have "pos < length bytes" by (simp add: readline_at_def)
  moreover have "0 < length (readline_at bytes pos)" using ne by simp
  ultimately show ?thesis by linarith
qed

text \<open>
  The loop that collects the starts: the position is recorded before every read, and the read
  that returns nothing ends it.
\<close>

function scan_lines :: "string \<Rightarrow> nat \<Rightarrow> nat list \<times> nat" where
  "scan_lines bytes pos =
     (let line = readline_at bytes pos in
      if line = [] then ([pos], pos)
      else (let (starts, end_pos) = scan_lines bytes (pos + length line) in (pos # starts, end_pos)))"
  by pat_completeness auto
termination
  by (relation "measure (\<lambda>(bytes, pos). length bytes - pos)") (simp_all add: readline_progress)

declare scan_lines.simps [simp del]

text \<open>Mapping an empty file into memory raises.\<close>

definition scan_file :: "string \<Rightarrow> nat list res" where
  "scan_file bytes =
     bindE (check (bytes \<noteq> []) ValueError) (\<lambda>_.
     let (starts, pos) = scan_lines bytes 0
     in Inr (if starts \<noteq> [] \<and> length bytes = pos then butlast starts else starts))"

section \<open>The data set\<close>

record jsonl_dataset =
  jd_paths :: "string list"
  jd_line_starts :: "nat list list"
  jd_cum_counts :: "nat list"
  jd_open :: "bool list"

type_synonym index_cache = "string \<rightharpoonup> string \<times> nat list"

text \<open>\<open>_build_all_line_starts\<close> for one file, with the cache before and after.\<close>

definition build_line_starts ::
  "(string \<Rightarrow> string) \<Rightarrow> (string \<Rightarrow> string) \<Rightarrow> (string \<Rightarrow> string) \<Rightarrow> index_cache \<Rightarrow> string \<Rightarrow> (nat list \<times> index_cache) res" where
  "build_line_starts digest file_key contents cache path =
     (let key = file_key path; cache_path = digest key;
          scan = bindE (scan_file (contents path)) (\<lambda>starts. Inr (starts, cache(cache_path \<mapsto> (key, starts))))
      in case cache cache_path of
           None \<Rightarrow> scan
         | Some (cached_key, starts) \<Rightarrow> if cached_key = key then Inr (starts, cache) else scan)"

fun build_all_line_starts ::
  "(string \<Rightarrow> string) \<Rightarrow> (string \<Rightarrow> string) \<Rightarrow> (string \<Rightarrow> string) \<Rightarrow> index_cache \<Rightarrow> string list \<Rightarrow> (nat list list \<times> index_cache) res" where
  "build_all_line_starts digest file_key contents cache [] = Inr ([], cache)"
| "build_all_line_starts digest file_key contents cache (path # paths) =
     bindE (build_line_starts digest file_key contents cache path) (\<lambda>(starts, cache').
     bindE (build_all_line_starts digest file_key contents cache' paths) (\<lambda>(rest, cache'').
     Inr (starts # rest, cache'')))"

text \<open>\<open>cum_counts\<close>: zero and the running totals.\<close>

fun running_counts :: "nat \<Rightarrow> nat list \<Rightarrow> nat list" where
  "running_counts acc [] = [acc]"
| "running_counts acc (n # ns) = acc # running_counts (acc + n) ns"

definition open_jsonl ::
  "(string \<Rightarrow> string) \<Rightarrow> (string \<Rightarrow> string) \<Rightarrow> (string \<Rightarrow> string) \<Rightarrow> index_cache \<Rightarrow> string list \<Rightarrow> (jsonl_dataset \<times> index_cache) res" where
  "open_jsonl digest file_key contents cache data_paths =
     (let paths = sort data_paths in
      bindE (build_all_line_starts digest file_key contents cache paths) (\<lambda>(starts, cache').
      Inr (\<lparr> jd_paths = paths, jd_line_starts = starts, jd_cum_counts = running_counts 0 (map length starts),
             jd_open = map (\<lambda>_. False) paths \<rparr>, cache')))"

definition jsonl_len :: "jsonl_dataset \<Rightarrow> nat" where
  "jsonl_len ds = last (jd_cum_counts ds)"

text \<open>\<open>bisect_right\<close> on an ascending list: the number of entries that are not above the value.\<close>

definition bisect_right :: "nat list \<Rightarrow> nat \<Rightarrow> nat" where
  "bisect_right xs x = length (takeWhile (\<lambda>y. y \<le> x) xs)"

definition map_global_to_local :: "jsonl_dataset \<Rightarrow> nat \<Rightarrow> nat \<times> nat" where
  "map_global_to_local ds idx =
     (let file_idx = bisect_right (jd_cum_counts ds) idx - 1 in (file_idx, idx - jd_cum_counts ds ! file_idx))"

definition jsonl_getitem ::
  "(string \<Rightarrow> 'j res) \<Rightarrow> (string \<Rightarrow> string) \<Rightarrow> jsonl_dataset \<Rightarrow> int \<Rightarrow> ('j \<times> jsonl_dataset) res" where
  "jsonl_getitem loads contents ds idx =
     bindE (check (0 \<le> idx \<and> idx < int (jsonl_len ds)) IndexError) (\<lambda>_.
     let (file_idx, local_idx) = map_global_to_local ds (nat idx);
         ds' = ds\<lparr> jd_open := (jd_open ds)[file_idx := True] \<rparr>;
         bytes = contents (jd_paths ds ! file_idx);
         line = readline_at bytes (jd_line_starts ds ! file_idx ! local_idx)
     in bindE (loads line) (\<lambda>v. Inr (v, ds')))"

definition jsonl_close :: "jsonl_dataset \<Rightarrow> jsonl_dataset" where
  "jsonl_close ds = ds\<lparr> jd_open := map (\<lambda>_. False) (jd_open ds) \<rparr>"

section \<open>The lines, for reference\<close>

function split_lines :: "string \<Rightarrow> string list" where
  "split_lines s = (if s = [] then [] else first_line s # split_lines (drop (length (first_line s)) s))"
  by pat_completeness auto
termination
proof (relation "measure length")
  fix s :: string
  assume "s \<noteq> []"
  then have "first_line s \<noteq> []" by simp
  then show "(drop (length (first_line s)) s, s) \<in> measure length" using \<open>s \<noteq> []\<close> by simp
qed simp

declare split_lines.simps [simp del]

fun offsets :: "nat \<Rightarrow> string list \<Rightarrow> nat list" where
  "offsets p [] = []"
| "offsets p (l # ls) = p # offsets (p + length l) ls"

lemma first_line_length: "length (first_line s) \<le> length s"
  by (induction s) auto

lemma scan_lines_offsets:
  "pos \<le> length bytes \<Longrightarrow> scan_lines bytes pos = (offsets pos (split_lines (drop pos bytes)) @ [length bytes], length bytes)"
proof (induction bytes pos rule: scan_lines.induct)
  case (1 bytes pos)
  show ?case
  proof (cases "drop pos bytes = []")
    case True
    then show ?thesis using 1 by (simp add: scan_lines.simps [of bytes pos] readline_at_def split_lines.simps)
  next
    case False
    let ?l = "readline_at bytes pos"
    have ne: "?l \<noteq> []" using False by (simp add: readline_at_def)
    have "length ?l \<le> length bytes - pos" using first_line_length [of "drop pos bytes"] by (simp add: readline_at_def)
    then have le: "pos + length ?l \<le> length bytes" using 1(2) by simp
    from 1(1) [OF refl ne le] have IH: "scan_lines bytes (pos + length ?l)
        = (offsets (pos + length ?l) (split_lines (drop (pos + length ?l) bytes)) @ [length bytes], length bytes)" .
    have "split_lines (drop pos bytes) = ?l # split_lines (drop (pos + length ?l) bytes)"
      using False by (subst split_lines.simps) (simp add: readline_at_def add.commute)
    then show ?thesis using ne IH by (simp add: scan_lines.simps [of bytes pos] Let_def)
  qed
qed

lemma scan_file_offsets:
  "scan_file bytes = (if bytes = [] then Inl ValueError else Inr (offsets 0 (split_lines bytes)))"
  by (simp add: scan_file_def scan_lines_offsets)

lemma readline_offsets:
  "k < length (split_lines (drop pos bytes)) \<Longrightarrow>
     readline_at bytes (offsets pos (split_lines (drop pos bytes)) ! k) = split_lines (drop pos bytes) ! k"
proof (induction k arbitrary: pos)
  case 0
  then have "drop pos bytes \<noteq> []" by (auto simp: split_lines.simps)
  then show ?case by (simp add: split_lines.simps [of "drop pos bytes"] readline_at_def)
next
  case (Suc k)
  then have ne: "drop pos bytes \<noteq> []" by (auto simp: split_lines.simps)
  let ?p = "pos + length (first_line (drop pos bytes))"
  have "split_lines (drop pos bytes) = first_line (drop pos bytes) # split_lines (drop ?p bytes)"
    using ne by (subst split_lines.simps) (simp add: add.commute)
  then show ?case using Suc by simp
qed

lemma offsets_length [simp]: "length (offsets p ls) = length ls"
  by (induction ls arbitrary: p) auto

section \<open>Global row numbers\<close>

lemma running_counts_length [simp]: "length (running_counts acc ns) = Suc (length ns)"
  by (induction ns arbitrary: acc) auto

lemma running_counts_nth: "k \<le> length ns \<Longrightarrow> running_counts acc ns ! k = acc + sum_list (take k ns)"
proof (induction ns arbitrary: acc k)
  case (Cons n ns)
  then show ?case by (cases k) auto
qed simp

lemma running_counts_last: "last (running_counts acc ns) = acc + sum_list ns"
proof -
  have "running_counts acc ns \<noteq> []" by (cases ns) auto
  then show ?thesis by (simp add: last_conv_nth running_counts_nth)
qed

text \<open>The bisection finds the file whose rows contain the row, also when some files have none.\<close>

lemma bisect_running_counts:
  assumes "acc \<le> idx" and "idx < acc + sum_list ns"
  shows "\<exists>f. bisect_right (running_counts acc ns) idx = Suc f \<and> f < length ns
     \<and> acc + sum_list (take f ns) \<le> idx \<and> idx < acc + sum_list (take (Suc f) ns)"
  using assms
proof (induction ns arbitrary: acc)
  case (Cons n ns)
  show ?case
  proof (cases "idx < acc + n")
    case True
    moreover have "takeWhile (\<lambda>y. y \<le> idx) (running_counts (acc + n) ns) = []" using True by (cases ns) auto
    ultimately show ?thesis using Cons.prems by (intro exI [of _ 0]) (simp add: bisect_right_def)
  next
    case False
    then obtain f where "bisect_right (running_counts (acc + n) ns) idx = Suc f" "f < length ns"
        "acc + n + sum_list (take f ns) \<le> idx" "idx < acc + n + sum_list (take (Suc f) ns)"
      using Cons.IH [of "acc + n"] Cons.prems(2) by auto
    then show ?thesis using Cons.prems(1) by (intro exI [of _ "Suc f"]) (simp add: bisect_right_def)
  qed
qed simp

lemma concat_nth_offset:
  assumes "f < length xss" and "l < length (xss ! f)"
  shows "concat xss ! (sum_list (map length (take f xss)) + l) = xss ! f ! l"
proof -
  have "length (concat (take f xss)) = sum_list (map length (take f xss))" by (simp add: length_concat)
  then show ?thesis
    using assms concat_nth_split [OF assms(1)] by (simp add: nth_append)
qed

section \<open>Rows\<close>

text \<open>
  The cache is right when every entry holds the offsets of the files with its key: the key
  contains the modification time, so it identifies the contents.
\<close>

definition cache_ok :: "(string \<Rightarrow> string) \<Rightarrow> (string \<Rightarrow> string) \<Rightarrow> index_cache \<Rightarrow> bool" where
  "cache_ok file_key contents cache \<longleftrightarrow>
     (\<forall>p key starts path. cache p = Some (key, starts) \<and> file_key path = key \<longrightarrow>
        contents path \<noteq> [] \<and> starts = offsets 0 (split_lines (contents path)))"

text \<open>Files with the same key have the same contents.\<close>

definition keys_identify :: "(string \<Rightarrow> string) \<Rightarrow> (string \<Rightarrow> string) \<Rightarrow> bool" where
  "keys_identify file_key contents \<longleftrightarrow> (\<forall>p p'. file_key p = file_key p' \<longrightarrow> contents p = contents p')"

lemma build_line_starts_ok:
  assumes "keys_identify file_key contents" and "cache_ok file_key contents cache" and "contents path \<noteq> []"
  shows "\<exists>cache'. build_line_starts digest file_key contents cache path
     = Inr (offsets 0 (split_lines (contents path)), cache') \<and> cache_ok file_key contents cache'"
proof -
  let ?s = "offsets 0 (split_lines (contents path))"
  let ?c = "cache(digest (file_key path) \<mapsto> (file_key path, ?s))"
  have new: "cache_ok file_key contents ?c"
    unfolding cache_ok_def
  proof (intro allI impI, elim conjE)
    fix p key starts q
    assume e: "?c p = Some (key, starts)" and k: "file_key q = key"
    show "contents q \<noteq> [] \<and> starts = offsets 0 (split_lines (contents q))"
    proof (cases "p = digest (file_key path)")
      case True
      then have "file_key q = file_key path" and s: "starts = ?s" using e k by auto
      then have "contents q = contents path" using assms(1) unfolding keys_identify_def by blast
      then show ?thesis using s assms(3) by simp
    next
      case False
      then show ?thesis using e k assms(2) unfolding cache_ok_def by simp
    qed
  qed
  show ?thesis
  proof (cases "cache (digest (file_key path))")
    case None
    then show ?thesis using new assms(3) by (simp add: build_line_starts_def Let_def scan_file_offsets)
  next
    case (Some e)
    then show ?thesis
      using new assms(2,3) by (cases e) (auto simp: build_line_starts_def Let_def scan_file_offsets cache_ok_def)
  qed
qed

lemma build_all_ok:
  assumes "keys_identify file_key contents" and "cache_ok file_key contents cache" and "\<forall>p \<in> set paths. contents p \<noteq> []"
  shows "\<exists>cache'. build_all_line_starts digest file_key contents cache paths
     = Inr (map (\<lambda>p. offsets 0 (split_lines (contents p))) paths, cache') \<and> cache_ok file_key contents cache'"
  using assms(2,3)
proof (induction paths arbitrary: cache)
  case (Cons p paths)
  obtain c1 where c1: "build_line_starts digest file_key contents cache p = Inr (offsets 0 (split_lines (contents p)), c1)"
      "cache_ok file_key contents c1"
    using build_line_starts_ok [OF assms(1) Cons.prems(1), of p digest] Cons.prems(2) by auto
  obtain c2 where "build_all_line_starts digest file_key contents c1 paths
      = Inr (map (\<lambda>p. offsets 0 (split_lines (contents p))) paths, c2)" "cache_ok file_key contents c2"
    using Cons.IH [OF c1(2)] Cons.prems(2) by auto
  then show ?case using c1(1) by simp
qed simp

definition dataset_rows :: "(string \<Rightarrow> string) \<Rightarrow> string list \<Rightarrow> string list" where
  "dataset_rows contents data_paths = concat (map (\<lambda>p. split_lines (contents p)) (sort data_paths))"

lemma locate_row:
  assumes "i < length (concat xss)"
  shows "\<exists>f l. bisect_right (running_counts 0 (map length xss)) i = Suc f \<and> f < length xss \<and> l < length (xss ! f)
     \<and> i = running_counts 0 (map length xss) ! f + l \<and> concat xss ! i = xss ! f ! l"
proof -
  obtain f where f: "bisect_right (running_counts 0 (map length xss)) i = Suc f" "f < length xss"
      "sum_list (take f (map length xss)) \<le> i" "i < sum_list (take (Suc f) (map length xss))"
    using bisect_running_counts [of 0 i "map length xss"] assms by (auto simp: length_concat)
  let ?l = "i - sum_list (take f (map length xss))"
  have "?l < length (xss ! f)" using f by (simp add: take_Suc_conv_app_nth)
  moreover have "concat xss ! i = xss ! f ! ?l"
    using concat_nth_offset [OF f(2) calculation] f(3) by (simp add: take_map)
  ultimately show ?thesis
    using f by (intro exI [of _ f] exI [of _ ?l]) (simp add: running_counts_nth)
qed

text \<open>The index of the given files, and access through it.\<close>

definition built_dataset :: "(string \<Rightarrow> string) \<Rightarrow> string list \<Rightarrow> jsonl_dataset" where
  "built_dataset contents data_paths =
     \<lparr> jd_paths = sort data_paths, jd_line_starts = map (\<lambda>p. offsets 0 (split_lines (contents p))) (sort data_paths),
       jd_cum_counts = running_counts 0 (map length (map (\<lambda>p. split_lines (contents p)) (sort data_paths))),
       jd_open = map (\<lambda>_. False) (sort data_paths) \<rparr>"

lemma built_dataset_len: "jsonl_len (built_dataset contents data_paths) = length (dataset_rows contents data_paths)"
  by (simp add: built_dataset_def jsonl_len_def running_counts_last dataset_rows_def length_concat comp_def)

lemma built_dataset_getitem:
  fixes contents data_paths opened
  defines "ds \<equiv> built_dataset contents data_paths"
  assumes i: "i < length (dataset_rows contents data_paths)"
  shows "jsonl_getitem loads contents (ds\<lparr> jd_open := opened \<rparr>) (int i) =
      bindE (loads (dataset_rows contents data_paths ! i)) (\<lambda>v.
        Inr (v, ds\<lparr> jd_open := opened[fst (map_global_to_local ds i) := True] \<rparr>))"
proof -
  let ?paths = "sort data_paths" and ?lines = "\<lambda>p. split_lines (contents p)"
  have "i < length (concat (map ?lines ?paths))" using i by (simp add: dataset_rows_def)
  from locate_row [OF this] obtain f l where
    f: "bisect_right (jd_cum_counts ds) i = Suc f" "f < length ?paths"
      "l < length (?lines (?paths ! f))" "i = jd_cum_counts ds ! f + l"
      "dataset_rows contents data_paths ! i = ?lines (?paths ! f) ! l"
    by (auto simp: dataset_rows_def ds_def built_dataset_def)
  have m: "map_global_to_local ds i = (f, l)" using f(1,4) by (simp add: map_global_to_local_def Let_def)
  then have m': "map_global_to_local (ds\<lparr> jd_open := opened \<rparr>) i = (f, l)" by (simp add: map_global_to_local_def)
  have "jsonl_len (ds\<lparr> jd_open := opened \<rparr>) = length (dataset_rows contents data_paths)"
    using built_dataset_len [of contents data_paths] by (simp add: jsonl_len_def ds_def)
  moreover have "readline_at (contents (?paths ! f)) (offsets 0 (?lines (?paths ! f)) ! l) = dataset_rows contents data_paths ! i"
    using readline_offsets [of l 0 "contents (?paths ! f)"] f(3,5) by simp
  moreover have "jd_paths ds = ?paths" "jd_line_starts ds = map (\<lambda>p. offsets 0 (?lines p)) ?paths"
    by (simp_all add: ds_def built_dataset_def)
  ultimately show ?thesis using i f(2) m m' by (simp add: jsonl_getitem_def)
qed

text \<open>
  Random access to the rows. Opening non-empty files, with any cache of correct indices,
  succeeds and leaves a cache of correct indices behind. The data set then has one row per line
  of the files in the order of their sorted names; row \<open>i\<close> is the parsed \<open>i\<close>-th line, whichever
  files are open, and every other index raises \<open>IndexError\<close>.
\<close>

theorem jsonl_random_access:
  assumes "keys_identify file_key contents" and "cache_ok file_key contents cache"
    and "\<forall>p \<in> set data_paths. contents p \<noteq> []"
  shows "\<exists>ds cache'. open_jsonl digest file_key contents cache data_paths = Inr (ds, cache')
     \<and> cache_ok file_key contents cache'
     \<and> jsonl_len ds = length (dataset_rows contents data_paths)
     \<and> (\<forall>i opened. jsonl_getitem loads contents (ds\<lparr> jd_open := opened \<rparr>) i =
          (if 0 \<le> i \<and> i < int (length (dataset_rows contents data_paths))
           then bindE (loads (dataset_rows contents data_paths ! nat i)) (\<lambda>v.
                  Inr (v, ds\<lparr> jd_open := opened[fst (map_global_to_local ds (nat i)) := True] \<rparr>))
           else Inl IndexError))"
proof -
  let ?ds = "built_dataset contents data_paths" and ?rows = "dataset_rows contents data_paths"
  obtain cache' where c: "build_all_line_starts digest file_key contents cache (sort data_paths)
      = Inr (map (\<lambda>p. offsets 0 (split_lines (contents p))) (sort data_paths), cache')" "cache_ok file_key contents cache'"
    using build_all_ok [OF assms(1,2), of "sort data_paths" digest] assms(3) by auto
  have op: "open_jsonl digest file_key contents cache data_paths = Inr (?ds, cache')"
    using c(1) by (simp add: open_jsonl_def built_dataset_def comp_def Let_def)
  have "jsonl_getitem loads contents (?ds\<lparr> jd_open := opened \<rparr>) i = Inl IndexError"
    if "\<not> (0 \<le> i \<and> i < int (length ?rows))" for i opened
    using that built_dataset_len [of contents data_paths] by (auto simp: jsonl_getitem_def jsonl_len_def check_def)
  moreover have "jsonl_getitem loads contents (?ds\<lparr> jd_open := opened \<rparr>) i =
      bindE (loads (?rows ! nat i)) (\<lambda>v. Inr (v, ?ds\<lparr> jd_open := opened[fst (map_global_to_local ?ds (nat i)) := True] \<rparr>))"
    if "0 \<le> i" "i < int (length ?rows)" for i opened
    using built_dataset_getitem [of "nat i" contents data_paths loads opened] that by simp
  ultimately show ?thesis
    using op c(2) built_dataset_len by (intro exI [of _ ?ds] exI [of _ cache'] conjI allI) auto
qed

definition sample_files :: "string \<Rightarrow> string" where
  "sample_files p = (if p = ''a'' then ''1'' @ [newline] else ''2'' @ [newline] @ ''3'')"

theorem jsonl_random_access_witness:
  "(\<exists>ds cache'. open_jsonl (\<lambda>k. k) (\<lambda>p. p) sample_files Map.empty [''b'', ''a''] = Inr (ds, cache')
     \<and> cache_ok (\<lambda>p. p) sample_files cache'
     \<and> jsonl_len ds = length (dataset_rows sample_files [''b'', ''a''])
     \<and> (\<forall>i opened. jsonl_getitem (\<lambda>s. Inr s) sample_files (ds\<lparr> jd_open := opened \<rparr>) i =
          (if 0 \<le> i \<and> i < int (length (dataset_rows sample_files [''b'', ''a'']))
           then bindE (Inr (dataset_rows sample_files [''b'', ''a''] ! nat i)) (\<lambda>v.
                  Inr (v, ds\<lparr> jd_open := opened[fst (map_global_to_local ds (nat i)) := True] \<rparr>))
           else Inl IndexError)))
   \<and> dataset_rows sample_files [''b'', ''a''] = [''1'' @ [newline], ''2'' @ [newline], ''3'']"
proof
  show "dataset_rows sample_files [''b'', ''a''] = [''1'' @ [newline], ''2'' @ [newline], ''3'']" by code_simp
qed (rule jsonl_random_access, simp_all add: keys_identify_def cache_ok_def sample_files_def)

end
