(* ===== verification/Inverse_Cdf.thy ===== *)
theory Inverse_Cdf
  imports Complex_Main Prelude
begin

text \<open>
  Sampling from a row of weights by inverting its cumulative sums, as the serving kernels do
  it: the token of a target \<open>t\<close> is the first one whose running sum exceeds \<open>t\<close>. The reference
  \<open>icdf\<close> is characterised by the interval of targets of every token; the ways the kernels
  compute it (counting prefixes, scanning blocks of lanes, choosing a block first and a
  token inside it next) are related to it here. Weights are elements of an ordered field.
\<close>

section \<open>Running sums\<close>

definition running_sums :: "'a::linordered_field list \<Rightarrow> 'a list" where
  "running_sums xs = map (\<lambda>i. sum_list (take (Suc i) xs)) [0..<length xs]"

definition icdf :: "'a::linordered_field list \<Rightarrow> 'a \<Rightarrow> nat" where
  "icdf xs t = min (length (takeWhile (\<lambda>c. c \<le> t) (running_sums xs))) (length xs - 1)"

text \<open>\<open>tl.sum (prefix <= target)\<close>: the number of running sums that do not exceed the target.\<close>

definition count_le :: "'a::linordered_field \<Rightarrow> 'a list \<Rightarrow> nat" where
  "count_le t cs = length (filter (\<lambda>c. c \<le> t) cs)"

abbreviation nonneg :: "'a::linordered_field list \<Rightarrow> bool" where
  "nonneg xs \<equiv> \<forall>x \<in> set xs. 0 \<le> x"

lemma length_running_sums [simp]: "length (running_sums xs) = length xs"
  by (simp add: running_sums_def)

lemma running_sums_nth [simp]: "i < length xs \<Longrightarrow> running_sums xs ! i = sum_list (take (Suc i) xs)"
  by (simp add: running_sums_def)

lemma sum_list_take_mono:
  assumes "nonneg xs" and "i \<le> j"
  shows "sum_list (take i xs) \<le> sum_list (take j xs)"
proof -
  have "take j xs = take i xs @ take (j - i) (drop i xs)" using assms(2) by (metis le_add_diff_inverse take_add)
  moreover have "0 \<le> sum_list (take (j - i) (drop i xs))"
    using assms(1) by (intro sum_list_nonneg) (meson in_set_dropD in_set_takeD)
  ultimately show ?thesis by simp
qed

lemma running_sums_sorted: "nonneg xs \<Longrightarrow> sorted (running_sums xs)"
  by (auto simp: sorted_iff_nth_mono intro: sum_list_take_mono)

lemma count_le_takeWhile: "sorted cs \<Longrightarrow> count_le t cs = length (takeWhile (\<lambda>c. c \<le> t) cs)"
  unfolding count_le_def
proof (induction cs)
  case (Cons c cs)
  have "filter (\<lambda>c. c \<le> t) cs = []" if "\<not> c \<le> t"
    using that Cons.prems by (auto simp: filter_empty_conv)
  then show ?case using Cons by (cases "c \<le> t") simp_all
qed simp

text \<open>Every token owns the interval of targets between two running sums.\<close>

lemma icdf_iff:
  assumes n: "nonneg xs" and t: "0 \<le> t" "t < sum_list xs"
  shows "icdf xs t = v \<longleftrightarrow> v < length xs \<and> sum_list (take v xs) \<le> t \<and> t < sum_list (take (Suc v) xs)"
proof -
  define k where "k = length (takeWhile (\<lambda>c. c \<le> t) (running_sums xs))"
  have ne: "xs \<noteq> []" using t by auto
  have "sum_list (take (Suc (length xs - 1)) xs) = sum_list xs" using ne by simp
  then have last: "running_sums xs ! (length xs - 1) = sum_list xs" using ne by simp
  have k: "k < length xs"
  proof (rule ccontr)
    assume "\<not> k < length xs"
    then have "k = length (running_sums xs)" using length_takeWhile_le [of "\<lambda>c. c \<le> t" "running_sums xs"] by (simp add: k_def)
    then have "takeWhile (\<lambda>c. c \<le> t) (running_sums xs) = running_sums xs"
      by (metis k_def takeWhile_eq_take take_all_iff order_refl)
    then have "\<forall>c \<in> set (running_sums xs). c \<le> t" by (metis set_takeWhileD)
    moreover have "sum_list xs \<in> set (running_sums xs)"
      using last ne by (metis diff_less length_running_sums length_greater_0_conv less_one nth_mem)
    ultimately show False using t(2) by auto
  qed
  have up: "t < sum_list (take (Suc k) xs)"
    using nth_length_takeWhile [of "\<lambda>c. c \<le> t" "running_sums xs"] k by (simp add: k_def [symmetric])
  have low: "sum_list (take k xs) \<le> t"
  proof (cases k)
    case 0
    then show ?thesis using t(1) by simp
  next
    case (Suc j)
    then have "takeWhile (\<lambda>c. c \<le> t) (running_sums xs) ! j = running_sums xs ! j" "j < k"
      by (simp_all add: takeWhile_nth k_def [symmetric])
    moreover have "takeWhile (\<lambda>c. c \<le> t) (running_sums xs) ! j \<le> t"
      using \<open>j < k\<close> unfolding k_def by (meson nth_mem set_takeWhileD)
    ultimately show ?thesis using Suc k by simp
  qed
  have ik: "icdf xs t = k" using k by (simp add: icdf_def k_def [symmetric])
  have "v = k" if v: "sum_list (take v xs) \<le> t" "t < sum_list (take (Suc v) xs)" for v
  proof (rule ccontr)
    assume "v \<noteq> k"
    then consider "Suc k \<le> v" | "Suc v \<le> k" by linarith
    then show False
    proof cases
      case 1
      then show False using sum_list_take_mono [OF n 1] up v(1) by simp
    next
      case 2
      then show False using sum_list_take_mono [OF n 2] low v(2) by simp
    qed
  qed
  then show ?thesis unfolding ik using k low up by metis
qed

lemma icdf_less: "xs \<noteq> [] \<Longrightarrow> icdf xs t < length xs"
  by (simp add: icdf_def min_less_iff_disj)

lemma running_sums_map_mult: "running_sums (map (\<lambda>x. c * x) xs) = map (\<lambda>x. c * x) (running_sums xs)"
  by (simp add: running_sums_def take_map sum_list_const_mult)

lemma icdf_scale:
  assumes "0 < c"
  shows "icdf (map (\<lambda>x. c * x) xs) (c * t) = icdf xs t"
proof -
  have "takeWhile (\<lambda>x. x \<le> c * t) (map (\<lambda>x. c * x) ys) = map (\<lambda>x. c * x) (takeWhile (\<lambda>x. x \<le> t) ys)" for ys
    using assms by (induction ys) simp_all
  then show ?thesis by (simp add: icdf_def running_sums_map_mult)
qed

text \<open>The token drawn has a positive weight.\<close>

lemma icdf_positive:
  assumes "nonneg xs" and "0 \<le> t" and "t < sum_list xs"
  shows "0 < xs ! icdf xs t"
proof -
  let ?v = "icdf xs t"
  have v: "?v < length xs" "sum_list (take ?v xs) \<le> t" "t < sum_list (take (Suc ?v) xs)"
    using icdf_iff [OF assms, of ?v] by simp_all
  then have "sum_list (take (Suc ?v) xs) = sum_list (take ?v xs) + xs ! ?v"
    by (simp add: take_Suc_conv_app_nth)
  then show ?thesis using v by simp
qed

section \<open>Scanning blocks of lanes\<close>

text \<open>
  One block of \<open>BLOCK_V\<close> lanes: the values from \<open>v_start\<close> on, zero in the lanes that are masked
  because they lie behind the row.
\<close>

definition lanes :: "nat \<Rightarrow> nat \<Rightarrow> 'a::linordered_field list \<Rightarrow> 'a list" where
  "lanes block_v v_start xs = map (\<lambda>j. if v_start + j < length xs then xs ! (v_start + j) else 0) [0..<block_v]"

text \<open>The first pass: the sum of the row, block by block.\<close>

definition block_total :: "nat \<Rightarrow> 'a::linordered_field list \<Rightarrow> 'a" where
  "block_total block_v xs =
     foldl (\<lambda>norm_sum v_start. norm_sum + sum_list (lanes block_v v_start xs)) 0 (py_range 0 (length xs) block_v)"

text \<open>
  The second pass on one block: running sum, token found so far, flag. The first lane whose
  running sum exceeds the target is the token.
\<close>

definition scan_block :: "nat \<Rightarrow> 'a::linordered_field \<Rightarrow> 'a list \<Rightarrow> 'a \<times> nat \<times> bool \<Rightarrow> nat \<Rightarrow> 'a \<times> nat \<times> bool" where
  "scan_block block_v target_u xs st v_start =
     (case st of (cum_sum, final_token, found) \<Rightarrow>
        if found then st
        else
          let val = lanes block_v v_start xs;
              candidates_mask = map (\<lambda>c. cum_sum + c > target_u) (running_sums val);
              has_match = (True \<in> set candidates_mask);
              final_token' = (if has_match then v_start + length (takeWhile Not candidates_mask) else final_token)
          in (cum_sum + sum_list val, final_token', has_match))"

definition cdf_scan :: "nat \<Rightarrow> 'a::linordered_field \<Rightarrow> 'a list \<Rightarrow> nat" where
  "cdf_scan block_v target_u xs =
     fst (snd (foldl (scan_block block_v target_u xs) (0, length xs - 1, False) (py_range 0 (length xs) block_v)))"

lemma lanes_slice:
  "lanes w i xs = py_slice i (i + w) xs @ replicate (w - length (py_slice i (i + w) xs)) 0"
  by (rule nth_equalityI) (auto simp: lanes_def nth_append nth_py_slice)

lemma sum_list_lanes: "sum_list (lanes w i xs) = sum_list (py_slice i (i + w) xs)"
  by (simp add: lanes_slice sum_list_replicate)

lemma foldl_sum: "foldl (\<lambda>s i. s + f i) (c :: 'a::linordered_field) is = c + sum_list (map f is)"
  by (induction "is" arbitrary: c) (simp_all add: add.assoc)

lemma sum_list_concat: "sum_list (concat xss) = sum_list (map sum_list xss)"
  by (induction xss) simp_all

lemma sum_list_blocks:
  assumes "0 < w"
  shows "sum_list (map (\<lambda>i. sum_list (py_slice i (i + w) xs)) (py_range 0 (length xs) w)) = sum_list xs"
proof -
  have "sum_list (concat (map (\<lambda>i. py_slice i (i + w) xs) (py_range 0 (length xs) w))) = sum_list xs"
    by (simp add: py_range_blocks [OF assms])
  then show ?thesis by (simp add: sum_list_concat comp_def)
qed

lemma block_total_sum: "0 < w \<Longrightarrow> block_total w xs = sum_list xs"
  by (simp add: block_total_def foldl_sum sum_list_lanes sum_list_blocks)

text \<open>
  The scan finds the token: before it every running sum stays at or below the target, and once
  found it is kept.
\<close>

lemma scan_found: "foldl (scan_block w t xs) (c, v, True) is = (c, v, True)"
  by (induction "is") (simp_all add: scan_block_def)

lemma running_sums_lanes_split:
  assumes "i \<le> length xs" and "j < w"
  shows "sum_list (take i xs) + running_sums (lanes w i xs) ! j = sum_list (take (i + Suc j) xs)"
proof -
  have "take (Suc j) (lanes w i xs) = take (Suc j) (drop i xs) @ replicate (Suc j - (length xs - i)) 0"
    using assms by (intro nth_equalityI) (auto simp: lanes_def nth_append)
  moreover have "take (i + Suc j) xs = take i xs @ take (Suc j) (drop i xs)" by (simp only: take_add)
  ultimately show ?thesis using assms(2) by (simp add: lanes_def [of w] sum_list_replicate del: take_Suc)
qed

lemma take_sum_bound:
  fixes xs :: "'a::linordered_field list"
  shows "t < sum_list (take j xs) \<Longrightarrow> sum_list (take i xs) \<le> t \<Longrightarrow> i < j \<Longrightarrow> i < length xs"
  by (rule ccontr) simp

lemma scan_match:
  fixes w :: nat
  assumes n: "nonneg xs" and t: "0 \<le> t" "t < sum_list xs" and i: "i \<le> length xs" "sum_list (take i xs) \<le> t"
  defines "ms \<equiv> map (\<lambda>c. sum_list (take i xs) + c > t) (running_sums (lanes w i xs))"
  assumes m: "True \<in> set ms"
  shows "i + length (takeWhile Not ms) = icdf xs t"
proof -
  let ?k = "length (takeWhile Not ms)"
  have len: "length ms = w" by (simp add: ms_def lanes_def)
  have k: "?k < w"
    using m len by (metis length_takeWhile_le nat_less_le not_False_eq_True set_takeWhileD takeWhile_eq_take take_all_iff)
  have at: "ms ! j \<longleftrightarrow> t < sum_list (take (i + Suc j) xs)" if "j < w" for j
    using that running_sums_lanes_split [OF i(1) that] by (simp add: ms_def lanes_def [of w])
  have up: "t < sum_list (take (i + Suc ?k) xs)"
    using at [OF k] nth_length_takeWhile [of Not ms] k len by simp
  have low: "sum_list (take (i + ?k) xs) \<le> t"
  proof (cases ?k)
    case (Suc j)
    then have "\<not> ms ! j" by (metis lessI nth_mem set_takeWhileD takeWhile_nth)
    then show ?thesis using at [of j] k Suc by simp
  qed (use i in simp)
  have "i + ?k < length xs" using take_sum_bound [OF up low] by simp
  then show ?thesis using icdf_iff [OF n t, of "i + ?k"] up low by simp
qed

lemma scan_exact:
  assumes "nonneg xs" and "0 \<le> t" and "t < sum_list xs" and "0 < w" and "i \<le> length xs"
    and "sum_list (take i xs) \<le> t"
  shows "fst (snd (foldl (scan_block w t xs) (sum_list (take i xs), v, False) (py_range i (length xs) w))) = icdf xs t"
  using assms(4-)
proof (induction i "length xs" w rule: py_range.induct)
  case (1 i w)
  show ?case
  proof (cases "i < length xs")
    case False
    then show ?thesis using 1 assms(3) by simp
  next
    case True
    define ms where "ms = map (\<lambda>c. sum_list (take i xs) + c > t) (running_sums (lanes w i xs))"
    have unf: "py_range i (length xs) w = i # py_range (i + w) (length xs) w"
      using True 1(2) by (subst py_range.simps) simp
    have cum: "sum_list (take i xs) + sum_list (lanes w i xs) = sum_list (take (i + w) xs)"
      by (simp add: sum_list_lanes py_slice_def take_add)
    have blk: "scan_block w t xs (sum_list (take i xs), v, False) i
      = (sum_list (take (i + w) xs), if True \<in> set ms then i + length (takeWhile Not ms) else v, True \<in> set ms)"
      unfolding scan_block_def ms_def cum [symmetric] Let_def by simp
    show ?thesis
    proof (cases "True \<in> set ms")
      case m: True
      then show ?thesis
        using scan_match [OF assms(1-3) 1(3,4), of w]
        by (simp add: unf blk scan_found ms_def [symmetric])
    next
      case False
      have le: "sum_list (take (i + w) xs) \<le> t"
      proof -
        have "w - 1 < length ms" using 1(2) by (simp add: ms_def lanes_def)
        then have "\<not> ms ! (w - 1)" using False by (metis nth_mem)
        then show ?thesis
          using running_sums_lanes_split [OF 1(3), of "w - 1" w] 1(2) by (simp add: ms_def lanes_def [of w])
      qed
      then have "i + w < length xs" using assms(3) by (metis leD leI take_all)
      then show ?thesis
        using 1(1) [OF _ 1(2)] True 1(2) le False
        by (simp add: unf blk)
    qed
  qed
qed

lemma cdf_scan_exact:
  assumes "nonneg xs" and "0 \<le> t" and "t < sum_list xs" and "0 < w"
  shows "cdf_scan w t xs = icdf xs t"
  using scan_exact [OF assms, of 0] assms(2) by (simp add: cdf_scan_def)

section \<open>Choosing a block, then a token\<close>

definition pick :: "'a::linordered_field \<Rightarrow> 'a list \<Rightarrow> nat" where
  "pick target ws = min (count_le target (running_sums ws)) (length ws - 1)"

lemma pick_icdf: "nonneg ws \<Longrightarrow> pick t ws = icdf ws t"
  by (simp add: pick_def icdf_def count_le_takeWhile running_sums_sorted)

lemma count_le_icdf:
  assumes "nonneg ws" and "t < sum_list ws"
  shows "ws \<noteq> [] \<Longrightarrow> count_le t (running_sums ws) = icdf ws t"
proof -
  assume ne: "ws \<noteq> []"
  then have "running_sums ws ! (length ws - 1) = sum_list ws" by simp
  then have "sum_list ws \<in> set (running_sums ws)" using ne by (metis diff_less length_running_sums length_greater_0_conv less_one nth_mem)
  then have "count_le t (running_sums ws) < length (running_sums ws)"
    unfolding count_le_def using assms(2) by (intro length_filter_less) auto
  then show ?thesis using pick_icdf [OF assms(1), of t] by (simp add: pick_def)
qed

text \<open>\<open>triton.cdiv\<close> and the blocks of a row.\<close>

definition cdiv :: "nat \<Rightarrow> nat \<Rightarrow> nat" where
  "cdiv n w = (n + w - 1) div w"

definition row_block :: "nat \<Rightarrow> nat \<Rightarrow> 'a list \<Rightarrow> 'a list" where
  "row_block w b xs = py_slice (b * w) (b * w + w) xs"

definition block_sums :: "nat \<Rightarrow> 'a::linordered_field list \<Rightarrow> 'a list" where
  "block_sums w xs = map (\<lambda>b. sum_list (row_block w b xs)) [0..<cdiv (length xs) w]"

lemma cdiv_covers: "0 < w \<Longrightarrow> n \<le> cdiv n w * w"
proof -
  assume w: "0 < w"
  have "n + w - 1 = (n + w - 1) div w * w + (n + w - 1) mod w" by simp
  moreover have "(n + w - 1) mod w < w" using w by simp
  ultimately show ?thesis unfolding cdiv_def by linarith
qed

lemma row_block_sums: "sum_list (take (b * w) xs) + sum_list (row_block w b xs) = sum_list (take (Suc b * w) xs)"
  by (simp add: row_block_def py_slice_def take_add add.commute [of w])

lemma block_sums_prefix:
  "b \<le> cdiv (length xs) w \<Longrightarrow> sum_list (take b (block_sums w xs)) = sum_list (take (b * w) xs)"
proof (induction b)
  case (Suc b)
  then have "take (Suc b) (block_sums w xs) = take b (block_sums w xs) @ [sum_list (row_block w b xs)]"
    by (simp add: block_sums_def take_Suc_conv_app_nth)
  then show ?case using Suc row_block_sums [of b w xs] by simp
qed simp

lemma sum_block_sums:
  assumes "0 < w"
  shows "sum_list (block_sums w xs) = sum_list xs"
  using block_sums_prefix [of "cdiv (length xs) w" xs w] cdiv_covers [OF assms, of "length xs"]
  by (simp add: block_sums_def)

lemma block_sums_nonneg: "nonneg xs \<Longrightarrow> nonneg (block_sums w xs)"
  by (auto simp: block_sums_def row_block_def py_slice_def intro!: sum_list_nonneg dest: in_set_takeD in_set_dropD)

lemma two_level_exact:
  assumes n: "nonneg xs" and t: "0 \<le> t" "t < sum_list xs" and w: "0 < w"
  defines "b \<equiv> icdf (block_sums w xs) t"
  shows "b < cdiv (length xs) w"
    and "0 \<le> t - sum_list (take (b * w) xs)"
    and "t - sum_list (take (b * w) xs) < sum_list (row_block w b xs)"
    and "b * w + icdf (row_block w b xs) (t - sum_list (take (b * w) xs)) = icdf xs t"
proof -
  note tot = sum_block_sums [OF w, of xs] and nn = block_sums_nonneg [OF n, of w]
  have nb: "nonneg (row_block w c xs)" for c
    using n by (auto simp: row_block_def py_slice_def dest: in_set_takeD in_set_dropD)
  have b: "b < length (block_sums w xs)" "sum_list (take b (block_sums w xs)) \<le> t"
      "t < sum_list (take (Suc b) (block_sums w xs))"
    using icdf_iff [OF nn t(1), of b] t(2) tot by (simp_all add: b_def)
  show bc: "b < cdiv (length xs) w" using b(1) by (simp add: block_sums_def)
  have lo: "sum_list (take (b * w) xs) \<le> t" using b(2) block_sums_prefix [of b xs w] bc by simp
  have hi: "t < sum_list (take (b * w) xs) + sum_list (row_block w b xs)"
    using b(3) block_sums_prefix [of "Suc b" xs w] bc row_block_sums [of b w xs] by simp
  show t0: "0 \<le> t - sum_list (take (b * w) xs)" using lo by simp
  show t1: "t - sum_list (take (b * w) xs) < sum_list (row_block w b xs)" using hi by (simp add: algebra_simps)
  define l where "l = icdf (row_block w b xs) (t - sum_list (take (b * w) xs))"
  have l: "l < length (row_block w b xs)" "sum_list (take l (row_block w b xs)) \<le> t - sum_list (take (b * w) xs)"
      "t - sum_list (take (b * w) xs) < sum_list (take (Suc l) (row_block w b xs))"
    using icdf_iff [OF nb t0 t1, of l] by (simp_all add: l_def)
  have part: "sum_list (take (b * w + j) xs) = sum_list (take (b * w) xs) + sum_list (take j (row_block w b xs))"
    if "j \<le> w" for j
    using that by (simp add: row_block_def py_slice_def take_add min_absorb1)
  have lw: "l < w" "b * w + l < length xs" using l(1) by (auto simp: row_block_def)
  then have "sum_list (take (b * w + l) xs) \<le> t" "t < sum_list (take (Suc (b * w + l)) xs)"
    using l(2,3) part [of l] part [of "Suc l"] by (simp_all add: algebra_simps)
  then show "b * w + icdf (row_block w b xs) (t - sum_list (take (b * w) xs)) = icdf xs t"
    using icdf_iff [OF n t, of "b * w + l"] lw(2) by (simp add: l_def)
qed

end
