(* ===== verification/Chain_Verify.thy ===== *)
theory Chain_Verify
  imports Inverse_Cdf
begin

text \<open>
  Verification of a chain of draft tokens in the serving engine
  (\<^verbatim>\<open>sglang/kernels/ops/speculative/reject_sampling.py\<close>, the buffers of
  \<^verbatim>\<open>sglang/srt/speculative/dflash_utils.py\<close>, \<open>accept_sampling\<close> of
  \<^verbatim>\<open>kernels/ops/speculative/dspark/dspark_accept.py\<close>, \<open>_commit_accept\<close> of \<^verbatim>\<open>dflash_worker_v2.py\<close>).
  A kernel launch runs one program per request over buffers that are reused from call to
  call and hold whatever was left in them; the programs run in any order. The theory shows
  that what is read back is, for every request, the result of the rejection chain on its own
  row, whatever the buffers held.

  The probabilities a program reads are functions of the row and the token, so that the
  kernel on probability tables and the kernel that recomputes them from logits share the
  loop. They are elements of an ordered field; rounding and NaNs are not modelled.
\<close>

section \<open>The buffers\<close>

record chain_buffers =
  cap_bs :: nat
  retrieve_index :: "nat list list"
  predicts :: "nat list"
  accept_index :: "nat list list"
  accept_token_num :: "nat list"

text \<open>
  \<open>_get_or_create_chain_verify_buffers\<close> for one device and block size: \<open>cached\<close> is the entry of
  the cache, \<open>torch_empty n\<close> the contents of a fresh tensor of \<open>n\<close> elements. The next-token and
  sibling tables are not read by the chain kernels.
\<close>

definition new_chain_buffers :: "(nat \<Rightarrow> nat list) \<Rightarrow> nat \<Rightarrow> nat \<Rightarrow> chain_buffers" where
  "new_chain_buffers torch_empty new_cap draft_token_num =
     \<lparr> cap_bs = new_cap,
       retrieve_index = map (\<lambda>b. [b * draft_token_num..<b * draft_token_num + draft_token_num]) [0..<new_cap],
       predicts = torch_empty (new_cap * draft_token_num),
       accept_index = map (\<lambda>b. torch_empty draft_token_num) [0..<new_cap],
       accept_token_num = torch_empty new_cap \<rparr>"

definition get_or_create_chain_verify_buffers ::
  "(nat \<Rightarrow> nat list) \<Rightarrow> chain_buffers option \<Rightarrow> nat \<Rightarrow> nat \<Rightarrow> chain_buffers" where
  "get_or_create_chain_verify_buffers torch_empty cached bs draft_token_num =
     (case cached of
        None \<Rightarrow> new_chain_buffers torch_empty bs draft_token_num
      | Some c \<Rightarrow>
          if cap_bs c < bs
          then new_chain_buffers torch_empty (max bs (if cap_bs c > 0 then cap_bs c * 2 else bs)) draft_token_num
          else c)"

section \<open>The kernel\<close>

text \<open>The registers of a program: \<open>step\<close>, \<open>num_accept\<close>, \<open>cur_prob_row\<close>, \<open>last_accepted_global_idx\<close>, and the two buffers it stores to.\<close>

record chain_state =
  cs_step :: nat
  cs_num_accept :: nat
  cs_prob_row :: nat
  cs_last :: nat
  cs_predicts :: "nat list"
  cs_index :: "nat list"

text \<open>
  The verification loop; the flag is \<open>continue_verifying\<close>. \<open>p\<close> and \<open>q\<close> give the target and the draft
  probability of a token in a row, \<open>cand\<close>, \<open>uni\<close> and \<open>idx\<close> are the program's rows of the
  candidates, the uniform samples and the retrieve index.
\<close>

function verification_loop ::
  "(nat \<Rightarrow> nat \<Rightarrow> 'a::linordered_field) \<Rightarrow> (nat \<Rightarrow> nat \<Rightarrow> 'a) \<Rightarrow> nat \<Rightarrow> nat list \<Rightarrow> 'a list \<Rightarrow> nat list
   \<Rightarrow> chain_state \<Rightarrow> bool \<times> chain_state" where
  "verification_loop p q num_slots cand uni idx st =
     (if cs_step st < num_slots then
        let step = cs_step st;
            draft_token = cand ! step;
            coin = uni ! (step - 1)
        in
        if coin * q (cs_prob_row st) draft_token < p (cs_prob_row st) draft_token then
          verification_loop p q num_slots cand uni idx
            (st \<lparr> cs_num_accept := cs_num_accept st + 1,
                  cs_prob_row := step,
                  cs_predicts := (cs_predicts st)[cs_last st := draft_token],
                  cs_index := (cs_index st)[cs_num_accept st + 1 := idx ! step],
                  cs_last := idx ! step,
                  cs_step := step + 1 \<rparr>)
        else (False, st)
      else (True, st))"
  by pat_completeness auto
termination by (relation "measure (\<lambda>(p, q, n, cand, uni, idx, st). n - cs_step st)") auto

declare verification_loop.simps [simp del]

text \<open>
  The final sample: the weights are the target row when every draft was accepted, the positive
  excess of the target row over the draft row otherwise.
\<close>

definition final_weights :: "(nat \<Rightarrow> nat \<Rightarrow> 'a::linordered_field) \<Rightarrow> (nat \<Rightarrow> nat \<Rightarrow> 'a) \<Rightarrow> nat \<Rightarrow> bool \<Rightarrow> nat \<Rightarrow> 'a list" where
  "final_weights p q vocab_size all_drafts_accepted row =
     map (\<lambda>v. if all_drafts_accepted then p row v
               else if p row v - q row v > 0 then p row v - q row v else 0) [0..<vocab_size]"

definition final_sample :: "nat \<Rightarrow> 'a::linordered_field list \<Rightarrow> 'a \<Rightarrow> nat" where
  "final_sample block_v weights coin_final = cdf_scan block_v (coin_final * block_total block_v weights) weights"

definition block_v :: nat where
  "block_v = 4096"

text \<open>\<open>speculative_sampling_classic_kernel\<close>: one program, on its rows and the buffers it stores to.\<close>

definition chain_kernel ::
  "(nat \<Rightarrow> nat \<Rightarrow> 'a::linordered_field) \<Rightarrow> (nat \<Rightarrow> nat \<Rightarrow> 'a) \<Rightarrow> nat \<Rightarrow> nat \<Rightarrow> nat list \<Rightarrow> 'a list \<Rightarrow> 'a
   \<Rightarrow> nat list \<Rightarrow> nat list \<Rightarrow> nat list \<Rightarrow> nat list \<times> nat list \<times> nat" where
  "chain_kernel p q num_slots vocab_size cand uni coin_final idx preds acc_row =
     (let st0 = \<lparr> cs_step = 1, cs_num_accept = 0, cs_prob_row = 0, cs_last = idx ! 0,
                  cs_predicts = preds, cs_index = acc_row[0 := idx ! 0] \<rparr>;
          (continue_verifying, st) = verification_loop p q num_slots cand uni idx st0;
          weights = final_weights p q vocab_size continue_verifying (cs_prob_row st);
          final_token = final_sample block_v weights coin_final
      in ((cs_predicts st)[cs_last st := final_token], cs_index st, cs_num_accept st))"

text \<open>The inputs of a launch, one entry per request.\<close>

record 'a chain_inputs =
  ci_candidates :: "nat list list"
  ci_uniform :: "'a list list"
  ci_uniform_final :: "'a list"

definition chain_program ::
  "(nat \<Rightarrow> nat \<Rightarrow> nat \<Rightarrow> 'a::linordered_field) \<Rightarrow> (nat \<Rightarrow> nat \<Rightarrow> nat \<Rightarrow> 'a) \<Rightarrow> nat \<Rightarrow> nat \<Rightarrow> 'a chain_inputs
   \<Rightarrow> chain_buffers \<Rightarrow> nat \<Rightarrow> chain_buffers" where
  "chain_program p q num_slots vocab_size inp b pid =
     (let (preds, acc_row, num_accept) =
            chain_kernel (p pid) (q pid) num_slots vocab_size (ci_candidates inp ! pid) (ci_uniform inp ! pid)
              (ci_uniform_final inp ! pid) (retrieve_index b ! pid) (predicts b) (accept_index b ! pid)
      in b \<lparr> predicts := preds, accept_index := (accept_index b)[pid := acc_row],
             accept_token_num := (accept_token_num b)[pid := num_accept] \<rparr>)"

definition chain_launch ::
  "(nat \<Rightarrow> nat \<Rightarrow> nat \<Rightarrow> 'a::linordered_field) \<Rightarrow> (nat \<Rightarrow> nat \<Rightarrow> nat \<Rightarrow> 'a) \<Rightarrow> nat \<Rightarrow> nat \<Rightarrow> 'a chain_inputs
   \<Rightarrow> nat list \<Rightarrow> chain_buffers \<Rightarrow> chain_buffers" where
  "chain_launch p q num_slots vocab_size inp order b =
     foldl (chain_program p q num_slots vocab_size inp) b order"

section \<open>The rejection chain of one row\<close>

text \<open>The reference: how many drafts of a row are accepted, and the tokens the row emits.\<close>

definition accepts :: "(nat \<Rightarrow> nat \<Rightarrow> 'a::linordered_field) \<Rightarrow> (nat \<Rightarrow> nat \<Rightarrow> 'a) \<Rightarrow> nat list \<Rightarrow> 'a list \<Rightarrow> nat \<Rightarrow> bool" where
  "accepts p q drafts uni j \<longleftrightarrow> uni ! j * q j (drafts ! j) < p j (drafts ! j)"

definition accepted_len :: "(nat \<Rightarrow> nat \<Rightarrow> 'a::linordered_field) \<Rightarrow> (nat \<Rightarrow> nat \<Rightarrow> 'a) \<Rightarrow> nat list \<Rightarrow> 'a list \<Rightarrow> nat" where
  "accepted_len p q drafts uni = length (takeWhile (accepts p q drafts uni) [0..<length drafts])"

definition emitted ::
  "(nat \<Rightarrow> nat \<Rightarrow> 'a::linordered_field) \<Rightarrow> (nat \<Rightarrow> nat \<Rightarrow> 'a) \<Rightarrow> nat \<Rightarrow> nat list \<Rightarrow> 'a list \<Rightarrow> 'a \<Rightarrow> nat list" where
  "emitted p q vocab_size drafts uni coin_final =
     (let k = accepted_len p q drafts uni in
      take k drafts @ [final_sample block_v (final_weights p q vocab_size (k = length drafts) k) coin_final])"

lemma takeWhile_upt_length:
  assumes "k \<le> m" and "\<And>i. i < k \<Longrightarrow> P i" and "k < m \<Longrightarrow> \<not> P k"
  shows "length (takeWhile P [0..<m]) = k"
proof -
  have "[0..<m] = [0..<k] @ [k..<m]" using assms(1) by (metis le_add_diff_inverse less_eq_nat.simps(1) upt_add_eq_append)
  moreover have "takeWhile P [k..<m] = []" using assms(1,3) by (cases "k < m") (simp_all add: upt_conv_Cons)
  moreover have "takeWhile P ([0..<k] @ [k..<m]) = [0..<k] @ takeWhile P [k..<m]"
    by (rule takeWhile_append2) (use assms(2) in auto)
  ultimately show ?thesis by simp
qed

lemma accepted_len_le: "accepted_len p q drafts uni \<le> length drafts"
  using length_takeWhile_le [of _ "[0..<length drafts]"] by (simp add: accepted_len_def)

lemma length_emitted [simp]: "length (emitted p q v drafts uni c) = Suc (accepted_len p q drafts uni)"
  using accepted_len_le [of p q drafts uni] by (simp add: emitted_def Let_def)

text \<open>
  The state of a program after \<open>j\<close> accepted drafts: the accepted tokens are stored one slot
  before their own, the accepted slots are recorded, and nothing outside the program's slots
  has changed.
\<close>

definition chain_inv :: "nat \<Rightarrow> nat \<Rightarrow> nat list \<Rightarrow> nat list \<Rightarrow> nat \<Rightarrow> chain_state \<Rightarrow> bool" where
  "chain_inv base n drafts preds j st \<longleftrightarrow>
     cs_step st = Suc j \<and> cs_num_accept st = j \<and> cs_prob_row st = j \<and> cs_last st = base + j \<and> j < n
     \<and> length (cs_predicts st) = length preds \<and> length (cs_index st) = n
     \<and> (\<forall>i<j. cs_predicts st ! (base + i) = drafts ! i) \<and> (\<forall>i\<le>j. cs_index st ! i = base + i)
     \<and> (\<forall>i. i < base \<or> base + n \<le> i \<longrightarrow> cs_predicts st ! i = preds ! i)"

lemma chain_inv_accept:
  assumes "chain_inv base n drafts preds j st" and "Suc j < n" and "base + n \<le> length preds" and "tok = drafts ! j"
  shows "chain_inv base n drafts preds (Suc j)
    (st \<lparr> cs_num_accept := cs_num_accept st + 1, cs_prob_row := Suc j,
          cs_predicts := (cs_predicts st)[cs_last st := tok],
          cs_index := (cs_index st)[cs_num_accept st + 1 := base + Suc j],
          cs_last := base + Suc j, cs_step := Suc j + 1 \<rparr>)"
  using assms by (auto simp: chain_inv_def less_Suc_eq le_Suc_eq nth_list_update)

lemma verification_loop_inv:
  assumes "chain_inv base n (drop 1 cand) preds j st" and "length cand = n" and "base + n \<le> length preds"
  shows "\<exists>k st'. verification_loop p q n cand uni [base..<base + n] st = (k = n - 1, st')
    \<and> chain_inv base n (drop 1 cand) preds k st' \<and> j \<le> k
    \<and> (\<forall>i. j \<le> i \<and> i < k \<longrightarrow> accepts p q (drop 1 cand) uni i)
    \<and> (k < n - 1 \<longrightarrow> \<not> accepts p q (drop 1 cand) uni k)"
  using assms(1)
proof (induction "n - j" arbitrary: j st)
  case 0
  then show ?case by (simp add: chain_inv_def)
next
  case (Suc m)
  note inv = Suc.prems
  have st: "cs_step st = Suc j" "cs_prob_row st = j" "j < n" using inv by (simp_all add: chain_inv_def)
  have tok: "Suc j < n \<Longrightarrow> drop 1 cand ! j = cand ! Suc j" using assms(2) by simp
  show ?case
  proof (cases "Suc j < n")
    case False
    then have "verification_loop p q n cand uni [base..<base + n] st = (j = n - 1, st)"
      using st by (subst verification_loop.simps) auto
    then show ?thesis using inv False st(3) by (intro exI [of _ j] exI [of _ st]) auto
  next
    case True
    show ?thesis
    proof (cases "accepts p q (drop 1 cand) uni j")
      case False
      then have "verification_loop p q n cand uni [base..<base + n] st = (j = n - 1, st)"
        using st True tok by (subst verification_loop.simps) (auto simp: accepts_def Let_def)
      then show ?thesis using inv False by (intro exI [of _ j] exI [of _ st]) auto
    next
      case acc: True
      let ?st = "st \<lparr> cs_num_accept := cs_num_accept st + 1, cs_prob_row := Suc j,
          cs_predicts := (cs_predicts st)[cs_last st := cand ! Suc j],
          cs_index := (cs_index st)[cs_num_accept st + 1 := base + Suc j],
          cs_last := base + Suc j, cs_step := Suc j + 1 \<rparr>"
      have inv': "chain_inv base n (drop 1 cand) preds (Suc j) ?st"
        by (rule chain_inv_accept [OF inv True assms(3) tok [OF True, symmetric]])
      have step: "verification_loop p q n cand uni [base..<base + n] st
        = verification_loop p q n cand uni [base..<base + n] ?st"
        using st True tok acc by (subst verification_loop.simps) (simp add: accepts_def Let_def)
      have "m = n - Suc j" using Suc.hyps(2) by simp
      from Suc.hyps(1) [OF this inv'] obtain k st' where
        k: "verification_loop p q n cand uni [base..<base + n] ?st = (k = n - 1, st')"
          "chain_inv base n (drop 1 cand) preds k st'" "Suc j \<le> k"
          "\<forall>i. Suc j \<le> i \<and> i < k \<longrightarrow> accepts p q (drop 1 cand) uni i"
          "k < n - 1 \<longrightarrow> \<not> accepts p q (drop 1 cand) uni k"
        by (elim exE conjE)
      have "\<forall>i. j \<le> i \<and> i < k \<longrightarrow> accepts p q (drop 1 cand) uni i"
        using k(4) acc by (metis le_neq_implies_less less_eq_Suc_le)
      then show ?thesis using k step by (intro exI [of _ k] exI [of _ st']) simp
    qed
  qed
qed

text \<open>What one program leaves behind, and what it leaves alone.\<close>

lemma chain_kernel_result:
  assumes "length cand = n" and "0 < n" and "base + n \<le> length preds" and "length acc_row = n"
    and kern: "chain_kernel p q n v cand uni coin [base..<base + n] preds acc_row = (preds', acc', k)"
  shows "k = accepted_len p q (drop 1 cand) uni" and "length preds' = length preds" and "length acc' = n"
    and "\<And>j. j \<le> k \<Longrightarrow> acc' ! j = base + j"
    and "\<And>j. j \<le> k \<Longrightarrow> preds' ! (base + j) = emitted p q v (drop 1 cand) uni coin ! j"
    and "\<And>i. i < base \<or> base + n \<le> i \<Longrightarrow> preds' ! i = preds ! i"
proof -
  let ?st0 = "\<lparr> cs_step = 1, cs_num_accept = 0, cs_prob_row = 0, cs_last = [base..<base + n] ! 0,
                  cs_predicts = preds, cs_index = acc_row[0 := [base..<base + n] ! 0] \<rparr>"
  have "chain_inv base n (drop 1 cand) preds 0 ?st0" using assms(2,4) by (simp add: chain_inv_def)
  from verification_loop_inv [OF this assms(1,3), of p q uni] obtain m st where
    m: "verification_loop p q n cand uni [base..<base + n] ?st0 = (m = n - 1, st)"
      "chain_inv base n (drop 1 cand) preds m st"
      "\<forall>i. 0 \<le> i \<and> i < m \<longrightarrow> accepts p q (drop 1 cand) uni i"
      "m < n - 1 \<longrightarrow> \<not> accepts p q (drop 1 cand) uni m"
    by (elim exE conjE)
  have mn: "m < n" using m(2) by (simp add: chain_inv_def)
  have len: "accepted_len p q (drop 1 cand) uni = m"
    unfolding accepted_len_def by (rule takeWhile_upt_length) (use m mn assms(1) in auto)
  let ?tok = "final_sample block_v (final_weights p q v (m = n - 1) m) coin"
  have em: "emitted p q v (drop 1 cand) uni coin = take m (drop 1 cand) @ [?tok]"
    using assms(1) unfolding emitted_def len Let_def by simp
  have res: "preds' = (cs_predicts st)[base + m := ?tok]" "acc' = cs_index st" "k = m"
    using kern m(1,2) unfolding chain_kernel_def Let_def by (auto simp: chain_inv_def)
  show "k = accepted_len p q (drop 1 cand) uni" using len res by simp
  show "length preds' = length preds" "length acc' = n" using m(2) res by (simp_all add: chain_inv_def)
  show "acc' ! j = base + j" if "j \<le> k" for j using m(2) res that by (simp add: chain_inv_def)
  show "preds' ! (base + j) = emitted p q v (drop 1 cand) uni coin ! j" if "j \<le> k" for j
    using m(2) res that mn assms(1,3) unfolding em chain_inv_def by (auto simp: nth_append nth_list_update)
  show "preds' ! i = preds ! i" if "i < base \<or> base + n \<le> i" for i
    using m(2) res that mn by (auto simp: chain_inv_def nth_list_update)
qed

section \<open>A launch over the batch\<close>

definition buffers_ok :: "nat \<Rightarrow> chain_buffers \<Rightarrow> bool" where
  "buffers_ok n b \<longleftrightarrow>
     retrieve_index b = map (\<lambda>r. [r * n..<r * n + n]) [0..<cap_bs b] \<and> length (predicts b) = cap_bs b * n
     \<and> length (accept_index b) = cap_bs b \<and> (\<forall>row \<in> set (accept_index b). length row = n)
     \<and> length (accept_token_num b) = cap_bs b"

text \<open>The buffers hold the result of request \<open>r\<close>.\<close>

definition row_result :: "nat \<Rightarrow> chain_buffers \<Rightarrow> nat \<Rightarrow> nat \<Rightarrow> nat list \<Rightarrow> bool" where
  "row_result n b r k toks \<longleftrightarrow> accept_token_num b ! r = k
     \<and> (\<forall>j\<le>k. accept_index b ! r ! j = r * n + j \<and> predicts b ! (r * n + j) = toks ! j)"

lemma get_or_create_ok:
  assumes "\<And>m. length (torch_empty m) = m" and "\<And>c. cached = Some c \<Longrightarrow> buffers_ok n c"
  shows "buffers_ok n (get_or_create_chain_verify_buffers torch_empty cached bs n)"
    and "bs \<le> cap_bs (get_or_create_chain_verify_buffers torch_empty cached bs n)"
  using assms by (auto simp: get_or_create_chain_verify_buffers_def buffers_ok_def new_chain_buffers_def split: option.splits)

lemma request_slots: "r < s \<Longrightarrow> r * n + n \<le> s * (n :: nat)"
  by (metis Suc_leI add.commute mult_Suc mult_le_mono1)

text \<open>The reference result of request \<open>r\<close> of a launch.\<close>

definition row_len :: "(nat \<Rightarrow> nat \<Rightarrow> nat \<Rightarrow> 'a::linordered_field) \<Rightarrow> (nat \<Rightarrow> nat \<Rightarrow> nat \<Rightarrow> 'a) \<Rightarrow> 'a chain_inputs \<Rightarrow> nat \<Rightarrow> nat" where
  "row_len p q inp r = accepted_len (p r) (q r) (drop 1 (ci_candidates inp ! r)) (ci_uniform inp ! r)"

definition row_tokens ::
  "(nat \<Rightarrow> nat \<Rightarrow> nat \<Rightarrow> 'a::linordered_field) \<Rightarrow> (nat \<Rightarrow> nat \<Rightarrow> nat \<Rightarrow> 'a) \<Rightarrow> nat \<Rightarrow> 'a chain_inputs \<Rightarrow> nat \<Rightarrow> nat list" where
  "row_tokens p q v inp r =
     emitted (p r) (q r) v (drop 1 (ci_candidates inp ! r)) (ci_uniform inp ! r) (ci_uniform_final inp ! r)"

lemma length_row_tokens [simp]: "length (row_tokens p q v inp r) = Suc (row_len p q inp r)"
  by (simp add: row_tokens_def row_len_def)

lemma row_len_less: "length (ci_candidates inp ! r) = n \<Longrightarrow> 0 < n \<Longrightarrow> row_len p q inp r < n"
  using accepted_len_le [of "p r" "q r" "drop 1 (ci_candidates inp ! r)" "ci_uniform inp ! r"]
  by (simp add: row_len_def)

lemma chain_program_step:
  fixes p q :: "nat \<Rightarrow> nat \<Rightarrow> nat \<Rightarrow> 'a::linordered_field" and v :: nat
  assumes ok: "buffers_ok n b" and r: "r < cap_bs b" and len: "length (ci_candidates inp ! r) = n" and n: "0 < n"
  defines "b' \<equiv> chain_program p q n v inp b r"
  shows "buffers_ok n b'" and "cap_bs b' = cap_bs b"
    and "row_result n b' r (row_len p q inp r) (row_tokens p q v inp r)"
    and "\<And>s k toks. s \<noteq> r \<Longrightarrow> k < n \<Longrightarrow> row_result n b s k toks \<Longrightarrow> row_result n b' s k toks"
proof -
  obtain preds acc k where kern: "chain_kernel (p r) (q r) n v (ci_candidates inp ! r) (ci_uniform inp ! r)
      (ci_uniform_final inp ! r) [r * n..<r * n + n] (predicts b) (accept_index b ! r) = (preds, acc, k)"
    using prod_cases3 by blast
  have pre: "r * n + n \<le> length (predicts b)" "length (accept_index b ! r) = n" "retrieve_index b ! r = [r * n..<r * n + n]"
    using ok r request_slots [of r "cap_bs b" n] by (auto simp: buffers_ok_def)
  note k = chain_kernel_result [OF len n pre(1,2) kern]
  have b': "b' = b \<lparr> predicts := preds, accept_index := (accept_index b)[r := acc],
      accept_token_num := (accept_token_num b)[r := k] \<rparr>"
    unfolding b'_def chain_program_def pre(3) kern by simp
  show "buffers_ok n b'" using ok k(2,3) unfolding b' buffers_ok_def by (auto dest!: set_update_subset_insert [THEN subsetD])
  show "cap_bs b' = cap_bs b" by (simp add: b')
  have "k = row_len p q inp r" using k(1) by (simp add: row_len_def)
  then show "row_result n b' r (row_len p q inp r) (row_tokens p q v inp r)"
    using k(4,5) ok r by (simp add: row_result_def b' row_tokens_def buffers_ok_def)
  fix s m toks assume s: "s \<noteq> r" "m < n" "row_result n b s m toks"
  have "preds ! (s * n + j) = predicts b ! (s * n + j)" if "j \<le> m" for j
    using k(6) [of "s * n + j"] s(1,2) that request_slots [of s r n] request_slots [of r s n] by linarith
  then show "row_result n b' s m toks" using s by (simp add: row_result_def b')
qed

lemma chain_launch_rows:
  assumes "buffers_ok n b" and "0 < n" and "distinct order" and "\<forall>r \<in> set order. r < cap_bs b \<and> length (ci_candidates inp ! r) = n"
  shows "buffers_ok n (chain_launch p q n v inp order b) \<and> cap_bs (chain_launch p q n v inp order b) = cap_bs b
    \<and> (\<forall>r \<in> set order. row_result n (chain_launch p q n v inp order b) r (row_len p q inp r) (row_tokens p q v inp r))"
  using assms(3,4)
proof (induction order rule: rev_induct)
  case Nil
  then show ?case using assms(1) by (simp add: chain_launch_def)
next
  case (snoc r order)
  let ?b = "chain_launch p q n v inp order b"
  have IH: "buffers_ok n ?b" "cap_bs ?b = cap_bs b"
      "\<forall>r \<in> set order. row_result n ?b r (row_len p q inp r) (row_tokens p q v inp r)"
    using snoc by simp_all
  have r: "r < cap_bs ?b" "length (ci_candidates inp ! r) = n" "r \<notin> set order" using snoc.prems IH(2) by simp_all
  note step = chain_program_step [OF IH(1) r(1,2) assms(2), where p = p and q = q and v = v]
  have unf: "chain_launch p q n v inp (order @ [r]) b = chain_program p q n v inp ?b r" by (simp add: chain_launch_def)
  have "row_result n (chain_program p q n v inp ?b r) s (row_len p q inp s) (row_tokens p q v inp s)"
    if s: "s \<in> set order" for s
  proof (rule step(4))
    show "s \<noteq> r" using s r(3) by blast
    show "row_len p q inp s < n" using snoc.prems(2) s by (intro row_len_less assms(2)) simp
    show "row_result n ?b s (row_len p q inp s) (row_tokens p q v inp s)" using IH(3) s by blast
  qed
  then show ?case unfolding unf using step(1-3) IH(2) by auto
qed

section \<open>Reading the results back\<close>

text \<open>\<open>gather_two_level_bonus_triton\<close>, and the same two-step indexing of \<open>accept_sampling\<close>.\<close>

definition gather_two_level_bonus :: "chain_buffers \<Rightarrow> nat list \<Rightarrow> nat list" where
  "gather_two_level_bonus b correct_len =
     map (\<lambda>r. predicts b ! (accept_index b ! r ! (correct_len ! r))) [0..<length correct_len]"

text \<open>
  The part of \<open>_accept_sampling_core\<close> and of \<open>accept_sampling_from_logits\<close> behind the construction of
  the probabilities, without \<open>cutoff_verify_lens\<close>: buffers, launch and the gathered bonus tokens.
  \<open>order\<close> is the order in which the programs run.
\<close>

definition chain_accept ::
  "(nat \<Rightarrow> nat list) \<Rightarrow> chain_buffers option \<Rightarrow> (nat \<Rightarrow> nat \<Rightarrow> nat \<Rightarrow> 'a::linordered_field) \<Rightarrow> (nat \<Rightarrow> nat \<Rightarrow> nat \<Rightarrow> 'a)
   \<Rightarrow> nat \<Rightarrow> nat \<Rightarrow> 'a chain_inputs \<Rightarrow> nat list \<Rightarrow> (nat list \<times> nat list) \<times> chain_buffers" where
  "chain_accept torch_empty cached p q verify_num_draft_tokens vocab_size inp order =
     (let bs = length (ci_candidates inp);
          b = get_or_create_chain_verify_buffers torch_empty cached bs verify_num_draft_tokens;
          b' = chain_launch p q verify_num_draft_tokens vocab_size inp order b;
          correct_len = take bs (accept_token_num b')
      in ((correct_len, gather_two_level_bonus b' correct_len), b'))"

text \<open>\<open>_commit_accept\<close>: the drafted tokens shifted left with the bonus at the accept boundary.\<close>

definition commit_accept :: "nat list list \<Rightarrow> nat list \<Rightarrow> nat list \<Rightarrow> nat list list \<times> nat list" where
  "commit_accept candidates accept_len bonus_tokens =
     (map (\<lambda>(cand, k, t). (drop 1 cand @ [0])[k := t]) (zip candidates (zip accept_len bonus_tokens)),
      map (\<lambda>k. k + 1) accept_len)"

definition inputs_ok :: "nat \<Rightarrow> 'a chain_inputs \<Rightarrow> nat list \<Rightarrow> bool" where
  "inputs_ok n inp order \<longleftrightarrow> 0 < n \<and> (\<forall>cand \<in> set (ci_candidates inp). length cand = n)
     \<and> distinct order \<and> set order = {..<length (ci_candidates inp)}"

lemma chain_accept_rows:
  assumes "\<And>m. length (torch_empty m) = m" and "\<And>c. cached = Some c \<Longrightarrow> buffers_ok n c" and "inputs_ok n inp order"
  shows "\<exists>b'. chain_accept torch_empty cached p q n v inp order =
      ((map (row_len p q inp) [0..<length (ci_candidates inp)],
        map (\<lambda>r. last (row_tokens p q v inp r)) [0..<length (ci_candidates inp)]), b') \<and> buffers_ok n b'"
proof -
  let ?bs = "length (ci_candidates inp)"
  let ?b = "get_or_create_chain_verify_buffers torch_empty cached ?bs n"
  let ?b' = "chain_launch p q n v inp order ?b"
  note b = get_or_create_ok [of torch_empty cached n ?bs, OF assms(1,2)]
  have "buffers_ok n ?b' \<and> cap_bs ?b' = cap_bs ?b
    \<and> (\<forall>r \<in> set order. row_result n ?b' r (row_len p q inp r) (row_tokens p q v inp r))"
    by (rule chain_launch_rows [OF b(1)]) (use b(2) assms(3) in \<open>auto simp: inputs_ok_def\<close>)
  then have l: "buffers_ok n ?b'" "cap_bs ?b' = cap_bs ?b"
    "\<And>r. r < ?bs \<Longrightarrow> row_result n ?b' r (row_len p q inp r) (row_tokens p q v inp r)"
    using assms(3) by (simp_all add: inputs_ok_def)
  have len: "take ?bs (accept_token_num ?b') = map (row_len p q inp) [0..<?bs]"
    using l b(2) by (intro nth_equalityI) (auto simp: buffers_ok_def row_result_def)
  have "gather_two_level_bonus ?b' (map (row_len p q inp) [0..<?bs]) = map (\<lambda>r. last (row_tokens p q v inp r)) [0..<?bs]"
    using l(3) by (intro nth_equalityI)
      (auto simp: gather_two_level_bonus_def row_result_def last_conv_nth simp flip: length_0_conv)
  then show ?thesis using l(1) unfolding chain_accept_def Let_def len by simp
qed

lemma commit_row:
  assumes "length cand = n" and "k < n"
  shows "take (k + 1) ((drop 1 cand @ [0])[k := t]) = take k (drop 1 cand) @ [t]"
proof -
  have "take (k + 1) ((drop 1 cand @ [0])[k := t]) = take k ((drop 1 cand @ [0])[k := t]) @ [t]"
    using assms by (simp add: take_Suc_conv_app_nth)
  then show ?thesis using assms by simp
qed

lemma commit_accept_rows:
  assumes "\<forall>cand \<in> set cands. length cand = n" and "ks = map k [0..<length cands]" and "ts = map t [0..<length cands]"
    and "\<And>r. r < length cands \<Longrightarrow> k r < n"
  shows "snd (commit_accept cands ks ts) = map (\<lambda>r. k r + 1) [0..<length cands]"
    and "r < length cands \<Longrightarrow> take (snd (commit_accept cands ks ts) ! r) (fst (commit_accept cands ks ts) ! r)
         = take (k r) (drop 1 (cands ! r)) @ [t r]"
  using assms commit_row [of "cands ! r" n "k r" "t r"] by (simp_all add: commit_accept_def)

text \<open>What a launch commits for a request is what its rejection chain emits.\<close>

lemma butlast_row_tokens: "butlast (row_tokens p q v inp r) = take (row_len p q inp r) (drop 1 (ci_candidates inp ! r))"
  by (simp add: row_tokens_def row_len_def emitted_def Let_def)

lemma chain_commit_rows:
  assumes "\<And>m. length (torch_empty m) = m" and "\<And>c. cached = Some c \<Longrightarrow> buffers_ok n c" and ok: "inputs_ok n inp order"
    and acc: "chain_accept torch_empty cached p q n v inp order = ((lens, bonus), b')"
    and com: "commit_accept (ci_candidates inp) lens bonus = (out, commit_lens)" and r: "r < length (ci_candidates inp)"
  shows "lens ! r = row_len p q inp r" and "bonus ! r = last (row_tokens p q v inp r)"
    and "commit_lens ! r = Suc (row_len p q inp r)" and "take (commit_lens ! r) (out ! r) = row_tokens p q v inp r"
    and "buffers_ok n b'"
proof -
  let ?bs = "length (ci_candidates inp)"
  have lb: "lens = map (row_len p q inp) [0..<?bs]" "bonus = map (\<lambda>r. last (row_tokens p q v inp r)) [0..<?bs]"
    and b': "buffers_ok n b'"
    using chain_accept_rows [of torch_empty cached n inp order p q v, OF assms(1,2) ok] acc by auto
  show "lens ! r = row_len p q inp r" "bonus ! r = last (row_tokens p q v inp r)" using lb r by simp_all
  have less: "row_len p q inp s < n" if "s < ?bs" for s using ok that by (intro row_len_less) (auto simp: inputs_ok_def)
  note c = commit_accept_rows [of "ci_candidates inp" n, OF _ lb less]
  show cl: "commit_lens ! r = Suc (row_len p q inp r)" using c(1) ok com r by (simp add: inputs_ok_def)
  have "take (commit_lens ! r) (out ! r) = take (row_len p q inp r) (drop 1 (ci_candidates inp ! r)) @ [last (row_tokens p q v inp r)]"
    using c(2) ok com r by (simp add: inputs_ok_def)
  then show "take (commit_lens ! r) (out ! r) = row_tokens p q v inp r"
    by (metis append_butlast_last_id butlast_row_tokens length_0_conv length_row_tokens nat.distinct(1))
  show "buffers_ok n b'" by (rule b')
qed

end
