(* ===== verification/Latent_Sampler.thy ===== *)
theory Latent_Sampler
  imports Inverse_Cdf Fused_Loss
begin

text \<open>
  Sampling of draft tokens straight from logits in the serving engine
  (\<open>_latentspec_logit_block_stats_kernel\<close>, \<open>_latentspec_logit_select_kernel\<close> and
  \<open>sample_latentspec_draft_logits_cuda\<close> of \<^verbatim>\<open>sglang/srt/speculative/dflash_utils.py\<close>, the softmax and
  log-normaliser kernels of \<^verbatim>\<open>kernels/ops/speculative/dspark/dspark_accept.py\<close>). The row is never
  normalised: blocks keep a maximum and a sum relative to it, a block is chosen by its weight
  and a token inside it next. Over the reals the token is the one the softmax distribution
  assigns to the uniform sample, and the stored normaliser is the logarithm of the sum of
  exponentials.

  Lanes behind the vocabulary load minus infinity, are masked in every sum and are left out of
  the model. Every entry of the output buffers is stored before it is read, so their previous
  contents do not occur.
\<close>

section \<open>The softmax of a row at a temperature\<close>

definition scaled :: "real \<Rightarrow> real list \<Rightarrow> real list" where
  "scaled temperature xs = map (\<lambda>x. x / temperature) xs"

definition softmax_of :: "real list \<Rightarrow> real list" where
  "softmax_of xs = map (\<lambda>x. exp x / sum_exp xs) xs"

definition log_norm :: "real list \<Rightarrow> real" where
  "log_norm xs = ln (sum_exp xs)"

lemma length_scaled [simp]: "length (scaled t xs) = length xs"
  by (simp add: scaled_def)

lemma length_softmax_of [simp]: "length (softmax_of xs) = length xs"
  by (simp add: softmax_of_def)

lemma scaled_Nil_iff [simp]: "scaled t xs = [] \<longleftrightarrow> xs = []"
  by (simp add: scaled_def)

lemma scaled_nth [simp]: "i < length xs \<Longrightarrow> scaled t xs ! i = xs ! i / t"
  by (simp add: scaled_def)

lemma softmax_of_nonneg: "xs \<noteq> [] \<Longrightarrow> nonneg (softmax_of xs)"
  using sum_exp_pos [of xs] by (auto simp: softmax_of_def intro!: divide_nonneg_pos)

lemma sum_list_div: "(\<Sum>x\<leftarrow>xs. f x / c) = (\<Sum>x\<leftarrow>xs. f x) / (c :: real)"
  by (induction xs) (simp_all add: add_divide_distrib)

lemma softmax_of_sum: "xs \<noteq> [] \<Longrightarrow> sum_list (softmax_of xs) = 1"
  using sum_exp_pos [of xs] by (simp add: softmax_of_def sum_list_div flip: sum_exp_def)

lemma softmax_of_relative:
  assumes "ys \<noteq> []"
  shows "softmax_of ys = map (\<lambda>x. (1 / (\<Sum>y\<leftarrow>ys. exp (y - g))) * x) (map (\<lambda>y. exp (y - g)) ys)"
  unfolding sum_exp_shift using sum_exp_pos [OF assms] by (simp add: softmax_of_def exp_diff)

lemma exp_log_norm: "xs \<noteq> [] \<Longrightarrow> exp (x - log_norm xs) = exp x / sum_exp xs"
  using sum_exp_pos [of xs] by (simp add: log_norm_def exp_diff)

section \<open>Two passes over a row\<close>

definition row_max_pass :: "nat \<Rightarrow> real \<Rightarrow> real list \<Rightarrow> real option" where
  "row_max_pass block_v temp xs =
     foldl (\<lambda>row_max v0. Some (max_opt row_max (Max (set (scaled temp (py_slice v0 (v0 + block_v) xs))))))
       None (py_range 0 (length xs) block_v)"

definition exp_sum_pass :: "nat \<Rightarrow> real \<Rightarrow> real \<Rightarrow> real list \<Rightarrow> real" where
  "exp_sum_pass block_v temp row_max xs =
     foldl (\<lambda>sum_exp v0. sum_exp + (\<Sum>x\<leftarrow>scaled temp (py_slice v0 (v0 + block_v) xs). exp (x - row_max)))
       0 (py_range 0 (length xs) block_v)"

definition softmax_temp_kernel :: "nat \<Rightarrow> real \<Rightarrow> real list \<Rightarrow> real list" where
  "softmax_temp_kernel block_v temp xs =
     (let row_max = the (row_max_pass block_v temp xs);
          sum_exp = exp_sum_pass block_v temp row_max xs
      in concat (map (\<lambda>v0. map (\<lambda>x. exp (x - row_max) / sum_exp) (scaled temp (py_slice v0 (v0 + block_v) xs)))
                   (py_range 0 (length xs) block_v)))"

definition logsumexp_temp_kernel :: "nat \<Rightarrow> real \<Rightarrow> real list \<Rightarrow> real" where
  "logsumexp_temp_kernel block_v temp xs =
     (let row_max = the (row_max_pass block_v temp xs)
      in row_max + ln (exp_sum_pass block_v temp row_max xs))"

lemma max_blocks:
  assumes "\<forall>b \<in> set bs. b \<noteq> []" and "xs \<noteq> []"
  shows "foldl (\<lambda>m b. Some (max_opt m (Max (set b)))) (Some (Max (set xs))) bs = Some (Max (set (xs @ concat bs)))"
  using assms
proof (induction bs arbitrary: xs)
  case (Cons b bs)
  have "max (Max (set xs)) (Max (set b)) = Max (set (xs @ b))" using Cons.prems by (simp add: Max_Un)
  moreover have "\<forall>b \<in> set bs. b \<noteq> []" "xs @ b \<noteq> []" using Cons.prems by simp_all
  ultimately show ?case using Cons.IH [of "xs @ b"] by simp
qed simp

lemma scaled_blocks:
  assumes "0 < w"
  shows "concat (map (\<lambda>i. scaled t (py_slice i (i + w) xs)) (py_range 0 (length xs) w)) = scaled t xs"
proof -
  have "concat (map (\<lambda>i. scaled t (py_slice i (i + w) xs)) is) = scaled t (concat (map (\<lambda>i. py_slice i (i + w) xs) is))" for "is"
    by (induction "is") (simp_all add: scaled_def)
  then show ?thesis using py_range_blocks [OF assms, of xs 0] by simp
qed

lemma row_max_pass_exact:
  assumes "0 < w" and "xs \<noteq> []"
  shows "row_max_pass w t xs = Some (Max (set (scaled t xs)))"
proof -
  define bs where "bs = map (\<lambda>i. scaled t (py_slice i (i + w) xs)) (py_range 0 (length xs) w)"
  have cat: "concat bs = scaled t xs" unfolding bs_def by (rule scaled_blocks [OF assms(1)])
  have ne: "\<forall>b \<in> set bs. b \<noteq> []" using py_range_blocks_nonempty [OF assms(1)] by (auto simp: bs_def)
  obtain b bs' where b: "bs = b # bs'" using cat assms(2) by (cases bs) (auto simp: scaled_def)
  have "row_max_pass w t xs = foldl (\<lambda>m b. Some (max_opt m (Max (set b)))) None bs"
    by (simp add: row_max_pass_def bs_def foldl_map)
  then have "row_max_pass w t xs = Some (Max (set (b @ concat bs')))" using max_blocks [of bs' b] ne b by simp
  also have "b @ concat bs' = scaled t xs" using cat b by simp
  finally show ?thesis .
qed

lemma exp_sum_pass_exact:
  assumes "0 < w"
  shows "exp_sum_pass w t m xs = (\<Sum>x\<leftarrow>scaled t xs. exp (x - m))"
proof -
  have "exp_sum_pass w t m xs = (\<Sum>i\<leftarrow>py_range 0 (length xs) w. \<Sum>x\<leftarrow>scaled t (py_slice i (i + w) xs). exp (x - m))"
    by (simp add: exp_sum_pass_def foldl_sum)
  also have "\<dots> = (\<Sum>x\<leftarrow>concat (map (\<lambda>i. scaled t (py_slice i (i + w) xs)) (py_range 0 (length xs) w)). exp (x - m))"
    by (simp add: map_concat sum_list_concat comp_def)
  finally show ?thesis unfolding scaled_blocks [OF assms] .
qed

lemma logsumexp_temp_exact:
  assumes "0 < w" and "xs \<noteq> []"
  shows "logsumexp_temp_kernel w t xs = log_norm (scaled t xs)"
  using sum_exp_pos [of "scaled t xs"] assms
  by (simp add: logsumexp_temp_kernel_def Let_def row_max_pass_exact exp_sum_pass_exact sum_exp_shift ln_div log_norm_def)

lemma softmax_temp_exact:
  assumes "0 < w" and "xs \<noteq> []"
  shows "softmax_temp_kernel w t xs = softmax_of (scaled t xs)"
proof -
  let ?m = "Max (set (scaled t xs))"
  have "softmax_temp_kernel w t xs
    = map (\<lambda>x. exp (x - ?m) / (\<Sum>x\<leftarrow>scaled t xs. exp (x - ?m)))
        (concat (map (\<lambda>i. scaled t (py_slice i (i + w) xs)) (py_range 0 (length xs) w)))"
    by (simp add: softmax_temp_kernel_def Let_def row_max_pass_exact [OF assms] exp_sum_pass_exact [OF assms(1)] map_concat comp_def)
  then show ?thesis
    unfolding scaled_blocks [OF assms(1)] using assms(2) by (simp add: softmax_of_relative [of _ ?m])
qed

section \<open>Sampling from the logits of a row\<close>

definition logit_block_stats_kernel :: "nat \<Rightarrow> real \<Rightarrow> real list \<Rightarrow> nat \<Rightarrow> real \<times> real" where
  "logit_block_stats_kernel block_size temperature logits block =
     (let values = scaled temperature (row_block block_size block logits);
          block_max = Max (set values)
      in (block_max, \<Sum>x\<leftarrow>values. exp (x - block_max)))"

definition logit_select_kernel :: "nat \<Rightarrow> real \<Rightarrow> real list \<Rightarrow> (real \<times> real) list \<Rightarrow> real \<Rightarrow> nat \<times> real" where
  "logit_select_kernel block_size temperature logits stats uniform =
     (let maxima = map fst stats;
          block_sum = map snd stats;
          global_max = Max (set maxima);
          block_weights = map2 (\<lambda>s m. s * exp (m - global_max)) block_sum maxima;
          total = sum_list block_weights;
          target = uniform * total;
          selected_block = pick target block_weights;
          prefix_before = sum_list (take selected_block block_weights);
          selected_max = maxima ! selected_block;
          selected_scale = exp (selected_max - global_max);
          local_target = (target - prefix_before) / selected_scale;
          values = scaled temperature (row_block block_size selected_block logits);
          token_weights = map (\<lambda>x. exp (x - selected_max)) values;
          selected_local = min (count_le local_target (running_sums token_weights))
                               (length logits - 1 - selected_block * block_size)
      in (selected_block * block_size + selected_local, global_max + ln total))"

definition sample_block_size :: nat where
  "sample_block_size = 4096"

definition sample_row :: "real \<Rightarrow> real list \<Rightarrow> real \<Rightarrow> nat \<times> real" where
  "sample_row temperature logits uniform =
     logit_select_kernel sample_block_size temperature logits
       (map (logit_block_stats_kernel sample_block_size temperature logits) [0..<cdiv (length logits) sample_block_size])
       uniform"

text \<open>The block weights are the block sums of the exponentials relative to the common maximum.\<close>

lemma row_block_map: "row_block w b (map f xs) = map f (row_block w b xs)"
  by (simp add: row_block_def py_slice_def take_map drop_map)

lemma row_block_scaled: "scaled t (row_block w b xs) = row_block w b (scaled t xs)"
  by (simp add: scaled_def row_block_map)

lemma rescaled_sum: "(\<Sum>x\<leftarrow>xs. exp (x - m)) * exp (m - g) = (\<Sum>x\<leftarrow>xs. exp (x - g :: real))"
  by (simp add: sum_list_mult_const [symmetric] exp_add [symmetric])

lemma local_choice:
  fixes ws :: "real list"
  assumes "nonneg ws" and "0 \<le> t" and "t < sum_list ws" and "0 < c"
  shows "count_le (t / c) (running_sums (map (\<lambda>x. x / c) ws)) = icdf ws t"
proof -
  let ?f = "\<lambda>x. (1 / c) * x"
  have "nonneg (map ?f ws)" "(1 / c) * t < sum_list (map ?f ws)" "map ?f ws \<noteq> []"
    using assms by (auto simp: sum_list_div intro!: divide_strict_right_mono)
  then have "count_le ((1 / c) * t) (running_sums (map ?f ws)) = icdf (map ?f ws) ((1 / c) * t)" by (rule count_le_icdf)
  then show ?thesis using icdf_scale [of "1 / c" ws t] assms(4) by simp
qed

lemma relative_draw:
  assumes "ys \<noteq> []"
  shows "icdf (map (\<lambda>y. exp (y - g)) ys) (u * (\<Sum>y\<leftarrow>ys. exp (y - g))) = icdf (softmax_of ys) u"
proof -
  let ?S = "\<Sum>y\<leftarrow>ys. exp (y - g)"
  have S: "0 < ?S" using sum_exp_pos [OF assms] by (simp add: sum_exp_shift)
  then show ?thesis
    using icdf_scale [of "1 / ?S" "map (\<lambda>y. exp (y - g)) ys" "u * ?S"] softmax_of_relative [OF assms, of g] by simp
qed

lemma logit_select_exact:
  fixes xs :: "real list" and t :: real
  assumes "xs \<noteq> []" and w: "0 < w" and u: "0 \<le> u" "u < 1"
  defines "ys \<equiv> scaled t xs"
  shows "logit_select_kernel w t xs (map (logit_block_stats_kernel w t xs) [0..<cdiv (length xs) w]) u
    = (icdf (softmax_of ys) u, log_norm ys)"
proof -
  define mx where "mx b = Max (set (row_block w b ys))" for b
  define N where "N = cdiv (length xs) w"
  define g where "g = Max (set (map mx [0..<N]))"
  define es where "es = map (\<lambda>y. exp (y - g)) ys"
  define S where "S = sum_list es"
  define b where "b = icdf (block_sums w es) (u * S)"
  have yne: "ys \<noteq> []" using assms(1) by (simp add: ys_def)
  have len: "length es = length xs" by (simp add: es_def ys_def)
  have S: "0 < S" "S = (\<Sum>y\<leftarrow>ys. exp (y - g))" using sum_exp_pos [OF yne] by (simp_all add: S_def es_def sum_exp_shift)
  have nn: "nonneg es" by (auto simp: es_def)
  have t0: "0 \<le> u * S" "u * S < sum_list es" using u S(1) by (simp_all add: S_def)
  let ?stats = "map (\<lambda>b. (mx b, \<Sum>y\<leftarrow>row_block w b ys. exp (y - mx b))) [0..<N]"
  have stats: "map (logit_block_stats_kernel w t xs) [0..<N] = ?stats"
    by (simp add: logit_block_stats_kernel_def Let_def row_block_scaled ys_def mx_def)
  have fst_stats: "map fst ?stats = map mx [0..<N]" by simp
  have weights: "map2 (\<lambda>s m. s * exp (m - g)) (map snd ?stats) (map mx [0..<N]) = block_sums w es"
    by (intro nth_equalityI) (simp_all add: block_sums_def es_def N_def ys_def row_block_map rescaled_sum)
  note two = two_level_exact [OF nn t0 w, folded b_def]
  have bN: "b < N" using two(1) len by (simp add: N_def)
  have pk: "pick (u * S) (block_sums w es) = b" unfolding b_def by (rule pick_icdf [OF block_sums_nonneg [OF nn]])
  have pre: "sum_list (take b (block_sums w es)) = sum_list (take (b * w) es)"
    using block_sums_prefix [of b es w] two(1) by simp
  have toks: "map (\<lambda>x. exp (x - mx b)) (scaled t (row_block w b xs)) = map (\<lambda>x. x / exp (mx b - g)) (row_block w b es)"
    by (simp add: row_block_scaled ys_def [symmetric] es_def row_block_map exp_diff)
  have nb: "nonneg (row_block w b es)" using nn by (auto simp: row_block_def py_slice_def dest: in_set_takeD in_set_dropD)
  have loc: "count_le ((u * S - sum_list (take (b * w) es)) / exp (mx b - g))
      (running_sums (map (\<lambda>x. x / exp (mx b - g)) (row_block w b es)))
    = icdf (row_block w b es) (u * S - sum_list (take (b * w) es))"
    by (rule local_choice [OF nb two(2,3)]) simp
  have "icdf es (u * S) < length xs" using icdf_less [of es] yne len by (metis es_def map_is_Nil_conv)
  then have idle: "b * w + min (icdf (row_block w b es) (u * S - sum_list (take (b * w) es))) (length xs - 1 - b * w)
    = icdf es (u * S)" using two(4) by linarith
  have nrm: "g + ln S = log_norm ys" using sum_exp_pos [OF yne] by (simp add: S(2) log_norm_def sum_exp_shift ln_div)
  show ?thesis
    unfolding N_def [symmetric] stats logit_select_kernel_def Let_def fst_stats g_def [symmetric] weights
      sum_block_sums [OF w] S_def [symmetric] pk pre nth_map_upt
    using bN idle nrm relative_draw [OF yne, of g u, folded es_def S(2)] toks loc by simp
qed

lemma sample_row_exact:
  assumes "xs \<noteq> []" and "0 \<le> u" and "u < 1"
  shows "sample_row t xs u = (icdf (softmax_of (scaled t xs)) u, log_norm (scaled t xs))"
  unfolding sample_row_def by (rule logit_select_exact [OF assms(1) _ assms(2,3)]) (simp add: sample_block_size_def)

section \<open>Sampling a batch of blocks\<close>

text \<open>
  \<open>sample_latentspec_draft_logits_cuda\<close>: one program per flattened row, each with the temperature of
  its request and its own uniform sample; tokens and normalisers are viewed as one row per
  request again.
\<close>

definition sample_latentspec_draft_logits_cuda ::
  "nat \<Rightarrow> real list list list \<Rightarrow> real list \<Rightarrow> real list \<Rightarrow> nat list list \<times> real list list" where
  "sample_latentspec_draft_logits_cuda rows_per_request draft_logits temperatures uniforms =
     (let batch_size = length draft_logits;
          flat_logits = concat draft_logits;
          out = map (\<lambda>row. sample_row (temperatures ! (row div rows_per_request)) (flat_logits ! row) (uniforms ! row))
                  [0..<length flat_logits]
      in (map (\<lambda>b. row_block rows_per_request b (map fst out)) [0..<batch_size],
          map (\<lambda>b. row_block rows_per_request b (map snd out)) [0..<batch_size]))"

definition logits_ok :: "nat \<Rightarrow> nat \<Rightarrow> real list list list \<Rightarrow> bool" where
  "logits_ok n v ls \<longleftrightarrow> (\<forall>req \<in> set ls. length req = n \<and> (\<forall>row \<in> set req. length row = v))"

definition unit_interval :: "'a::linordered_field list \<Rightarrow> bool" where
  "unit_interval us \<longleftrightarrow> (\<forall>u \<in> set us. 0 \<le> u \<and> u < 1)"

lemma logits_ok_row:
  assumes "logits_ok n v ls" and "r < length ls"
  shows "length (ls ! r) = n" and "j < n \<Longrightarrow> length (ls ! r ! j) = v"
proof -
  have "ls ! r \<in> set ls" using assms(2) by simp
  then show l: "length (ls ! r) = n" using assms(1) by (simp add: logits_ok_def)
  assume "j < n"
  then have "ls ! r ! j \<in> set (ls ! r)" using l by simp
  then show "length (ls ! r ! j) = v" using \<open>ls ! r \<in> set ls\<close> assms(1) by (simp add: logits_ok_def)
qed

lemma length_concat_uniform: "\<forall>x \<in> set xs. length x = n \<Longrightarrow> length (concat xs) = length xs * n"
  by (induction xs) simp_all

lemma nth_concat_uniform:
  "\<forall>x \<in> set xs. length x = n \<Longrightarrow> r < length xs \<Longrightarrow> j < n \<Longrightarrow> concat xs ! (r * n + j) = xs ! r ! j"
proof (induction xs arbitrary: r)
  case (Cons x xs)
  then show ?case by (cases r) (simp_all add: nth_append)
qed simp

lemma row_index: "r < b \<Longrightarrow> j < n \<Longrightarrow> r * n + j < b * (n :: nat)"
  by (metis Suc_leI add_Suc_right le_trans less_Suc_eq_le mult_Suc mult_le_mono1 add.commute nat_add_left_cancel_less less_le_trans)

lemma sample_batch_nth:
  assumes ls: "logits_ok n v ls" and r: "r < length ls" and j: "j < n"
    and res: "sample_latentspec_draft_logits_cuda n ls temps us = (toks, norms)"
  shows "(toks ! r ! j, norms ! r ! j) = sample_row (temps ! r) (ls ! r ! j) (us ! (r * n + j))"
    and "length toks = length ls" and "length (toks ! r) = n"
proof -
  let ?out = "map (\<lambda>row. sample_row (temps ! (row div n)) (concat ls ! row) (us ! row)) [0..<length (concat ls)]"
  have u: "\<forall>x \<in> set ls. length x = n" using ls by (simp add: logits_ok_def)
  have i: "r * n + j < length (concat ls)" using row_index [OF r j] by (simp only: length_concat_uniform [OF u])
  have eq: "toks = map (\<lambda>b. row_block n b (map fst ?out)) [0..<length ls]"
      "norms = map (\<lambda>b. row_block n b (map snd ?out)) [0..<length ls]"
    using res unfolding sample_latentspec_draft_logits_cuda_def Let_def by simp_all
  show "length toks = length ls" using eq by simp
  have "r * n + n \<le> length (concat ls)" using r unfolding length_concat_uniform [OF u] by (metis Suc_leI add.commute mult_Suc mult_le_mono1)
  then show "length (toks ! r) = n" using r by (simp add: eq row_block_def)
  have at: "row_block n r (map f ?out) ! j = f (?out ! (r * n + j))" for f :: "nat \<times> real \<Rightarrow> 'b"
    using i j by (simp add: row_block_def nth_py_slice)
  have "?out ! (r * n + j) = sample_row (temps ! r) (ls ! r ! j) (us ! (r * n + j))"
    using i j by (simp add: nth_concat_uniform [OF u r j])
  then show "(toks ! r ! j, norms ! r ! j) = sample_row (temps ! r) (ls ! r ! j) (us ! (r * n + j))"
    using r at [of fst] at [of snd] by (simp add: eq)
qed

lemma sample_batch_exact:
  assumes ls: "logits_ok n v ls" and v: "0 < v" and us: "length us = length ls * n" "unit_interval us"
    and r: "r < length ls" and j: "j < n" and res: "sample_latentspec_draft_logits_cuda n ls temps us = (toks, norms)"
  shows "toks ! r ! j = icdf (softmax_of (scaled (temps ! r) (ls ! r ! j))) (us ! (r * n + j))"
    and "norms ! r ! j = log_norm (scaled (temps ! r) (ls ! r ! j))"
proof -
  have ne: "ls ! r ! j \<noteq> []" using logits_ok_row(2) [OF ls r j] v by auto
  have "us ! (r * n + j) \<in> set us" using row_index [OF r j] us(1) by simp
  then have u: "0 \<le> us ! (r * n + j)" "us ! (r * n + j) < 1" using us(2) by (auto simp: unit_interval_def)
  show "toks ! r ! j = icdf (softmax_of (scaled (temps ! r) (ls ! r ! j))) (us ! (r * n + j))"
    "norms ! r ! j = log_norm (scaled (temps ! r) (ls ! r ! j))"
    using sample_batch_nth(1) [OF ls r j res] sample_row_exact [OF ne u, of "temps ! r"] by simp_all
qed

text \<open>
  (C5) LatentSpec draws its draft tokens exactly from the softmax of the draft logits. For any
  vocabulary size, any temperatures and uniform samples from the half-open unit interval, the
  kernels that never form the distribution return, for every proposal row of every request,
  the token whose interval of the cumulative softmax of the row at the request's temperature
  contains the row's own sample, so that each token is drawn with its softmax probability;
  and the stored normaliser is the logarithm of the sum of the exponentials of that row.
\<close>

theorem latentspec_draft_sampling:
  assumes "logits_ok n v ls" and "0 < v" and "length us = length ls * n" and "unit_interval us"
    and "r < length ls" and "j < n"
    and "sample_latentspec_draft_logits_cuda n ls temps us = (toks, norms)"
    and ps: "ps = softmax_of (scaled (temps ! r) (ls ! r ! j))"
  shows "toks ! r ! j < v \<and> sum_list (take (toks ! r ! j) ps) \<le> us ! (r * n + j)
    \<and> us ! (r * n + j) < sum_list (take (Suc (toks ! r ! j)) ps)
    \<and> norms ! r ! j = ln (\<Sum>x\<leftarrow>ls ! r ! j. exp (x / temps ! r))"
proof -
  note ex = sample_batch_exact [OF assms(1-7)]
  have len: "length (ls ! r ! j) = v" by (rule logits_ok_row(2) [OF assms(1,5,6)])
  then have ne: "scaled (temps ! r) (ls ! r ! j) \<noteq> []" using assms(2) by auto
  have "us ! (r * n + j) \<in> set us" using row_index [OF assms(5,6)] assms(3) by simp
  then have u: "0 \<le> us ! (r * n + j)" "us ! (r * n + j) < sum_list ps"
    using assms(4) softmax_of_sum [OF ne] by (auto simp: unit_interval_def ps)
  have "nonneg ps" unfolding ps by (rule softmax_of_nonneg [OF ne])
  note draw = icdf_iff [OF this u, of "toks ! r ! j"]
  have "norms ! r ! j = ln (\<Sum>x\<leftarrow>ls ! r ! j. exp (x / temps ! r))"
    using ex(2) by (simp add: log_norm_def sum_exp_def scaled_def comp_def)
  moreover have "length ps = v" using len by (simp add: ps)
  ultimately show ?thesis using draw ex(1) by (simp add: ps)
qed

text \<open>Two requests with one proposal row each over a vocabulary of two tokens.\<close>

theorem latentspec_draft_sampling_witness:
  "\<exists>toks norms. sample_latentspec_draft_logits_cuda 1 [[[0, 0]], [[0, 0 :: real]]] [1, 2] [0, 3 / 4] = (toks, norms)
     \<and> sum_list (take (toks ! 1 ! 0) [1 / 2, 1 / 2 :: real]) \<le> 3 / 4
     \<and> 3 / 4 < sum_list (take (Suc (toks ! 1 ! 0)) [1 / 2, 1 / 2 :: real]) \<and> norms ! 1 ! 0 = ln 2"
proof -
  obtain toks norms where res:
    "sample_latentspec_draft_logits_cuda 1 [[[0, 0]], [[0, 0 :: real]]] [1, 2] [0, 3 / 4] = (toks, norms)"
    by (cases "sample_latentspec_draft_logits_cuda 1 [[[0, 0]], [[0, 0 :: real]]] [1, 2] [0, 3 / 4]") simp
  have "[1 / 2, 1 / 2] = softmax_of (scaled ([1, 2] ! 1) ([[[0, 0]], [[0, 0 :: real]]] ! 1 ! 0))"
    by (simp add: softmax_of_def scaled_def sum_exp_def)
  from latentspec_draft_sampling [OF _ _ _ _ _ _ res this, of 2] res show ?thesis
    by (simp add: logits_ok_def unit_interval_def)
qed

end
