(* ===== verification/Serving_Accept.thy ===== *)
theory Serving_Accept
  imports Chain_Verify Latent_Sampler Sampling
begin

text \<open>
  The accept step of the serving engine's LatentSpec worker (\<open>_accept_block\<close> of
  \<^verbatim>\<open>sglang/srt/speculative/dflash_worker_v2.py\<close>): rejection from logits, rejection from
  probability tables (\<^verbatim>\<open>kernels/ops/speculative/dspark/dspark_accept.py\<close>), and the greedy rule in its
  three implementations (\<^verbatim>\<open>dflash_utils.py\<close>, \<^verbatim>\<open>kernels/ops/speculative/dflash.py\<close>). All of them commit, for
  every request, an accepted prefix of its drafts and one token of the target.
\<close>

section \<open>Rejection from probability tables\<close>

text \<open>
  \<open>accept_sampling\<close> without top-k and top-p sampling: the target rows are the softmax of the flat
  verify logits at the temperature of their request. \<open>softmax\<close> is \<open>torch.softmax\<close> of a row.
\<close>

definition target_rows :: "('a::linordered_field list \<Rightarrow> 'a list) \<Rightarrow> nat \<Rightarrow> nat \<Rightarrow> 'a list list \<Rightarrow> 'a list \<Rightarrow> 'a list list list" where
  "target_rows softmax bs n target_logits temperatures =
     map (\<lambda>r. row_block n r
            (map (\<lambda>row. softmax (map (\<lambda>x. x / temperatures ! (row div n)) (target_logits ! row))) [0..<length target_logits]))
       [0..<bs]"

definition accept_sampling_core ::
  "(nat \<Rightarrow> nat list) \<Rightarrow> chain_buffers option \<Rightarrow> 'a::linordered_field list list list \<Rightarrow> 'a list list list
   \<Rightarrow> nat \<Rightarrow> nat \<Rightarrow> 'a chain_inputs \<Rightarrow> nat list \<Rightarrow> (nat list \<times> nat list) \<times> chain_buffers" where
  "accept_sampling_core torch_empty cached target_probs draft_probs n vocab_size inp order =
     chain_accept torch_empty cached (\<lambda>r row v. target_probs ! r ! row ! v) (\<lambda>r row v. draft_probs ! r ! row ! v)
       n vocab_size inp order"

definition accept_sampling ::
  "('a::linordered_field list \<Rightarrow> 'a list) \<Rightarrow> (nat \<Rightarrow> nat list) \<Rightarrow> chain_buffers option \<Rightarrow> 'a list list \<Rightarrow> 'a list list list
   \<Rightarrow> 'a list \<Rightarrow> nat \<Rightarrow> nat \<Rightarrow> 'a chain_inputs \<Rightarrow> nat list \<Rightarrow> (nat list \<times> nat list) \<times> chain_buffers" where
  "accept_sampling softmax torch_empty cached target_logits draft_probs temperatures n vocab_size inp order =
     accept_sampling_core torch_empty cached (target_rows softmax (length (ci_candidates inp)) n target_logits temperatures)
       draft_probs n vocab_size inp order"

section \<open>Rejection from logits\<close>

text \<open>
  \<open>speculative_sampling_from_logits_kernel\<close> recomputes the probabilities from logits and log-normalisers.
  The draft row is limited to the last draft row; where it is read that limit is idle.
\<close>

definition logit_prob :: "real list list list \<Rightarrow> real list list \<Rightarrow> real list \<Rightarrow> nat \<Rightarrow> nat \<Rightarrow> nat \<Rightarrow> real" where
  "logit_prob logits norms temperatures r row v = exp (logits ! r ! row ! v / temperatures ! r - norms ! r ! row)"

definition accept_sampling_from_logits ::
  "(nat \<Rightarrow> nat list) \<Rightarrow> chain_buffers option \<Rightarrow> real list list \<Rightarrow> real list list list \<Rightarrow> real list list \<Rightarrow> real list
   \<Rightarrow> nat \<Rightarrow> nat \<Rightarrow> real chain_inputs \<Rightarrow> nat list \<Rightarrow> ((nat list \<times> nat list) \<times> chain_buffers) res" where
  "accept_sampling_from_logits torch_empty cached target_logits draft_logits draft_log_norm temperatures n vocab_size inp order =
     (let bs = length (ci_candidates inp);
          target_logits_3d = map (\<lambda>r. row_block n r target_logits) [0..<bs];
          target_log_norm = map (\<lambda>r. row_block n r
            (map (\<lambda>row. logsumexp_temp_kernel block_v (temperatures ! (row div n)) (target_logits ! row)) [0..<length target_logits]))
            [0..<bs]
      in
      bindE (check (length target_logits = bs * n) RuntimeError) (\<lambda>_.
      bindE (check (length draft_logits = bs \<and> logits_ok (n - 1) vocab_size draft_logits) ValueError) (\<lambda>_.
      Inr (chain_accept torch_empty cached
             (logit_prob target_logits_3d target_log_norm temperatures)
             (\<lambda>r row. logit_prob draft_logits draft_log_norm temperatures r (min row (n - 2)))
             n vocab_size inp order))))"

text \<open>The result of a chain only depends on the probabilities of the vocabulary in the rows it reads.\<close>

lemma accepts_cong:
  assumes "\<And>j. j < length drafts \<Longrightarrow> p j (drafts ! j) = p' j (drafts ! j)"
    and "\<And>j. j < length drafts \<Longrightarrow> q j (drafts ! j) = q' j (drafts ! j)"
  shows "accepted_len p q drafts uni = accepted_len p' q' drafts uni"
  unfolding accepted_len_def
  by (rule arg_cong [of _ _ length], rule takeWhile_cong) (use assms in \<open>simp_all add: accepts_def\<close>)

lemma emitted_cong:
  assumes "\<And>t. t \<in> set drafts \<Longrightarrow> t < v"
    and p: "\<And>j x. j \<le> length drafts \<Longrightarrow> x < v \<Longrightarrow> p j x = p' j x"
    and q: "\<And>j x. j < length drafts \<Longrightarrow> x < v \<Longrightarrow> q j x = q' j x"
  shows "emitted p q v drafts uni c = emitted p' q' v drafts uni c"
proof -
  have len: "accepted_len p q drafts uni = accepted_len p' q' drafts uni"
    by (rule accepts_cong) (use assms in simp_all)
  define k where "k = accepted_len p' q' drafts uni"
  have k: "k \<le> length drafts" by (simp add: k_def accepted_len_le)
  have "final_weights p q v (k = length drafts) k = final_weights p' q' v (k = length drafts) k"
    using p [of k] q [of k] k by (auto simp: final_weights_def)
  then show ?thesis unfolding emitted_def len k_def Let_def by simp
qed

lemma row_tokens_cong:
  assumes "length (ci_candidates inp ! r) = n" and "\<And>t. t \<in> set (drop 1 (ci_candidates inp ! r)) \<Longrightarrow> t < v" and "0 < n"
    and "\<And>j x. j < n \<Longrightarrow> x < v \<Longrightarrow> p r j x = p' r j x" and "\<And>j x. j < n - 1 \<Longrightarrow> x < v \<Longrightarrow> q r j x = q' r j x"
  shows "row_tokens p q v inp r = row_tokens p' q' v inp r"
  unfolding row_tokens_def by (rule emitted_cong) (use assms in auto)

lemma row_len_cong: "row_tokens p q v inp r = row_tokens p' q' v inp r \<Longrightarrow> row_len p q inp r = row_len p' q' inp r"
  by (metis length_row_tokens nat.inject)

section \<open>The two rejection paths agree\<close>

lemma view_nth:
  assumes "length xs = bs * n" and "r < bs" and "j < n"
  shows "map (\<lambda>r. row_block n r xs) [0..<bs] ! r ! j = xs ! (r * n + j)"
  using assms row_index [OF assms(2,3)] by (simp add: row_block_def nth_py_slice)

lemma target_rows_nth:
  assumes "length target_logits = bs * n" and "r < bs" and "j < n"
  shows "target_rows softmax bs n target_logits temps ! r ! j = softmax (map (\<lambda>x. x / temps ! r) (target_logits ! (r * n + j)))"
  using assms row_index [OF assms(2,3)] unfolding target_rows_def by (subst view_nth) simp_all

lemma logit_prob_softmax:
  assumes "length (logits ! r ! j) = v" and "x < v" and "norms ! r ! j = log_norm (scaled (temps ! r) (logits ! r ! j))"
  shows "logit_prob logits norms temps r j x = softmax_of (scaled (temps ! r) (logits ! r ! j)) ! x"
proof -
  have "scaled (temps ! r) (logits ! r ! j) \<noteq> []" using assms(1,2) by auto
  then show ?thesis using assms exp_log_norm by (simp add: logit_prob_def softmax_of_def)
qed

lemma target_logit_prob:
  assumes len: "length target_logits = bs * n" and rows: "\<forall>row \<in> set target_logits. length row = v"
    and r: "r < bs" and j: "j < n" and x: "x < v"
  shows "logit_prob (map (\<lambda>r. row_block n r target_logits) [0..<bs])
      (map (\<lambda>r. row_block n r (map (\<lambda>row. logsumexp_temp_kernel block_v (temps ! (row div n)) (target_logits ! row))
         [0..<length target_logits])) [0..<bs]) temps r j x
    = target_rows softmax_of bs n target_logits temps ! r ! j ! x"
proof -
  let ?row = "target_logits ! (r * n + j)"
  have i: "r * n + j < length target_logits" using row_index [OF r j] len by simp
  then have lr: "length ?row = v" using rows by simp
  then have ne: "?row \<noteq> []" using x by auto
  have "map (\<lambda>r. row_block n r (map (\<lambda>row. logsumexp_temp_kernel block_v (temps ! (row div n)) (target_logits ! row))
         [0..<length target_logits])) [0..<bs] ! r ! j = log_norm (scaled (temps ! r) ?row)"
    using i j logsumexp_temp_exact [OF _ ne, of block_v "temps ! r"]
    by (subst view_nth) (simp_all add: len r block_v_def)
  then show ?thesis
    using logit_prob_softmax [of "map (\<lambda>r. row_block n r target_logits) [0..<bs]" r j v x] lr x
    by (simp add: view_nth [OF len r j] target_rows_nth [OF len r j] scaled_def)
qed

text \<open>The temperatures the draft rows are sampled at, \<open>clamp_min(1e-5)\<close> of the request's.\<close>

definition draft_temperatures :: "real list \<Rightarrow> real list" where
  "draft_temperatures temperatures = map (\<lambda>t. max t (1 / 100000)) temperatures"

definition softmax_rows :: "real list list list \<Rightarrow> real list \<Rightarrow> real list list list" where
  "softmax_rows logits temperatures = map2 (\<lambda>req t. map (\<lambda>row. softmax_of (scaled t row)) req) logits temperatures"

lemma draft_temperatures_idle: "\<forall>t \<in> set temps. 1 / 100000 \<le> t \<Longrightarrow> draft_temperatures temps = temps"
  unfolding draft_temperatures_def by (rule map_idI) simp

lemma softmax_rows_nth:
  "length temps = length ls \<Longrightarrow> r < length ls \<Longrightarrow> j < length (ls ! r) \<Longrightarrow>
   softmax_rows ls temps ! r ! j = softmax_of (scaled (temps ! r) (ls ! r ! j))"
  by (simp add: softmax_rows_def)

lemma sampled_tokens_less:
  assumes ls: "logits_ok n v ls" and v: "0 < v" and us: "length us = length ls * n" "unit_interval us"
    and r: "r < length ls" and res: "sample_latentspec_draft_logits_cuda n ls temps us = (toks, norms)"
    and t: "t \<in> set (toks ! r)"
  shows "t < v"
proof -
  obtain j where j: "j < length (toks ! r)" "t = toks ! r ! j" using t by (metis in_set_conv_nth)
  have jn: "j < n"
  proof (cases n)
    case 0
    then show ?thesis using j res r by (auto simp: sample_latentspec_draft_logits_cuda_def Let_def row_block_def)
  next
    case (Suc m)
    then show ?thesis using sample_batch_nth(3) [OF ls r _ res, of 0] j(1) by simp
  qed
  have "length (ls ! r ! j) = v" by (rule logits_ok_row(2) [OF ls r jn])
  then show ?thesis
    using sample_batch_exact(1) [OF ls v us r jn res] icdf_less [of "softmax_of (scaled (temps ! r) (ls ! r ! j))"] v j(2)
    by (metis length_greater_0_conv length_scaled length_softmax_of)
qed

text \<open>
  (C4) Rejection straight from logits is exact. When the drafts are the tokens LatentSpec sampled
  from its draft logits and no temperature lies below \<open>1e-5\<close>, the kernel that rebuilds the
  probabilities from logits and log-normalisers accepts the same number of drafts and
  chooses the same final token, for every request, as rejection sampling on the full softmax
  tables, given the same uniform samples, whatever either call finds in its buffers and in
  whatever order the programs of the launches run.
\<close>

theorem logits_rejection_exact:
  assumes te: "\<And>m. length (torch_empty m) = m" and c1: "\<And>c. cached = Some c \<Longrightarrow> buffers_ok n c"
    and c2: "\<And>c. cached' = Some c \<Longrightarrow> buffers_ok n c"
    and io: "inputs_ok n inp order" "inputs_ok n inp order'"
    and tl: "length target_logits = length (ci_candidates inp) * n" "\<forall>row \<in> set target_logits. length row = v"
    and dl: "length draft_logits = length (ci_candidates inp)" "logits_ok (n - 1) v draft_logits" and v: "0 < v"
    and temps: "length temps = length (ci_candidates inp)" "\<forall>t \<in> set temps. 1 / 100000 \<le> t"
    and us: "length us = length (ci_candidates inp) * (n - 1)" "unit_interval us"
    and drawn: "sample_latentspec_draft_logits_cuda (n - 1) draft_logits (draft_temperatures temps) us = (toks, norms)"
    and cand: "map (drop 1) (ci_candidates inp) = toks"
  shows "\<exists>lens bonus b1 b2.
      accept_sampling_from_logits torch_empty cached target_logits draft_logits norms temps n v inp order = Inr ((lens, bonus), b1)
      \<and> accept_sampling softmax_of torch_empty cached' target_logits (softmax_rows draft_logits temps) temps n v inp order'
        = ((lens, bonus), b2)"
proof -
  let ?bs = "length (ci_candidates inp)"
  have n: "0 < n" and len: "\<And>r. r < ?bs \<Longrightarrow> length (ci_candidates inp ! r) = n" using io(1) by (auto simp: inputs_ok_def)
  note drawn = drawn [unfolded draft_temperatures_idle [OF temps(2)]]
  define p where "p = logit_prob (map (\<lambda>r. row_block n r target_logits) [0..<?bs])
      (map (\<lambda>r. row_block n r (map (\<lambda>row. logsumexp_temp_kernel block_v (temps ! (row div n)) (target_logits ! row))
         [0..<length target_logits])) [0..<?bs]) temps"
  define q where "q = (\<lambda>r row. logit_prob draft_logits norms temps r (min row (n - 2)))"
  define p' where "p' = (\<lambda>r row x. target_rows softmax_of ?bs n target_logits temps ! r ! row ! x)"
  define q' where "q' = (\<lambda>r row x. softmax_rows draft_logits temps ! r ! row ! x)"
  have tok: "row_tokens p q v inp r = row_tokens p' q' v inp r" if r: "r < ?bs" for r
  proof (rule row_tokens_cong)
    show "length (ci_candidates inp ! r) = n" "0 < n" using len r n by simp_all
    show "t < v" if "t \<in> set (drop 1 (ci_candidates inp ! r))" for t
      using sampled_tokens_less [OF dl(2) v _ us(2) _ drawn] that r cand dl(1) us(1) by force
    show "p r j x = p' r j x" if "j < n" "x < v" for j x
      unfolding p_def p'_def by (rule target_logit_prob [OF tl r that])
    show "q r j x = q' r j x" if j: "j < n - 1" and x: "x < v" for j x
    proof -
      have "length (draft_logits ! r ! j) = v" "length (draft_logits ! r) = n - 1"
        using logits_ok_row [OF dl(2), of r] r j dl(1) by simp_all
      moreover have "norms ! r ! j = log_norm (scaled (temps ! r) (draft_logits ! r ! j))"
        using sample_batch_exact(2) [OF dl(2) v _ us(2) _ j drawn] r dl(1) us(1) by simp
      moreover have "min j (n - 2) = j" using j by simp
      ultimately show ?thesis
        using logit_prob_softmax [of draft_logits r j v x norms temps] softmax_rows_nth [of temps draft_logits r j] j x r dl(1) temps(1)
        by (simp add: q_def q'_def)
    qed
  qed
  have "map (row_len p q inp) [0..<?bs] = map (row_len p' q' inp) [0..<?bs]"
    "map (\<lambda>r. last (row_tokens p q v inp r)) [0..<?bs] = map (\<lambda>r. last (row_tokens p' q' v inp r)) [0..<?bs]"
    using tok row_len_cong [of p q v inp _ p' q'] by simp_all
  moreover obtain b1 where "chain_accept torch_empty cached p q n v inp order
    = ((map (row_len p q inp) [0..<?bs], map (\<lambda>r. last (row_tokens p q v inp r)) [0..<?bs]), b1)"
    using chain_accept_rows [of torch_empty cached n inp order p q v, OF te c1 io(1)] by blast
  moreover obtain b2 where "chain_accept torch_empty cached' p' q' n v inp order'
    = ((map (row_len p' q' inp) [0..<?bs], map (\<lambda>r. last (row_tokens p' q' v inp r)) [0..<?bs]), b2)"
    using chain_accept_rows [of torch_empty cached' n inp order' p' q' v, OF te c2 io(2)] by blast
  ultimately show ?thesis
    using tl(1) dl
    unfolding accept_sampling_from_logits_def accept_sampling_def accept_sampling_core_def Let_def p_def [symmetric] q_def [symmetric] p'_def [symmetric] q'_def [symmetric]
    by simp
qed

text \<open>One request with one draft over two tokens; the second call finds used buffers and has room for two requests.\<close>

lemma one_draft_sampled:
  "sample_latentspec_draft_logits_cuda 1 [[[0, 0]]] (draft_temperatures [1]) [0] = ([[0]], [[ln 2]])"
proof -
  have "sample_row 1 [0, 0] 0 = (0, ln 2)"
    by (simp add: sample_row_exact softmax_of_def scaled_def sum_exp_def icdf_def running_sums_def log_norm_def)
  then show ?thesis by (simp add: sample_latentspec_draft_logits_cuda_def draft_temperatures_def row_block_def py_slice_def)
qed

theorem logits_rejection_exact_witness:
  "\<exists>lens bonus b1 b2.
      accept_sampling_from_logits (\<lambda>m. replicate m 0) None [[0, 0], [0, 0]] [[[0, 0]]] [[ln 2]] [1] 2 2
        \<lparr> ci_candidates = [[5, 0]], ci_uniform = [[1 / 2]], ci_uniform_final = [1 / 4] \<rparr> [0] = Inr ((lens, bonus), b1)
      \<and> accept_sampling softmax_of (\<lambda>m. replicate m 0)
          (Some \<lparr> cap_bs = 2, retrieve_index = [[0, 1], [2, 3]], predicts = [9, 8, 7, 6], accept_index = [[5, 4], [3, 2]],
                  accept_token_num = [1, 1] \<rparr>)
          [[0, 0], [0, 0]] (softmax_rows [[[0, 0]]] [1]) [1] 2 2
        \<lparr> ci_candidates = [[5, 0]], ci_uniform = [[1 / 2]], ci_uniform_final = [1 / 4] \<rparr> [0] = ((lens, bonus), b2)"
proof (rule logits_rejection_exact [where us = "[0]" and toks = "[[0]]"])
  show "sample_latentspec_draft_logits_cuda (2 - 1) [[[0, 0]]] (draft_temperatures [1]) [0] = ([[0]], [[ln 2]])"
    using one_draft_sampled by simp
qed (auto simp: inputs_ok_def logits_ok_def unit_interval_def buffers_ok_def upt_conv_Cons)

text \<open>
  Below \<open>1e-5\<close> the two stages disagree: the draft row is sampled, and its normaliser stored, at the
  clamped temperature, while the verification divides the logits by the request's own. At a
  temperature of \<open>5e-6\<close> the draft below has the sampling probability \<open>2/3\<close>, and the verification
  reads \<open>4/3\<close>.
\<close>

theorem clamped_normaliser_mismatch:
  "softmax_of (scaled (draft_temperatures [1 / 200000] ! 0) [0, ln 2 / 100000]) ! 1 = 2 / 3
   \<and> logit_prob [[[0, ln 2 / 100000]]] [[snd (sample_row (draft_temperatures [1 / 200000] ! 0) [0, ln 2 / 100000] 0)]]
       [1 / 200000] 0 0 1 = 4 / 3"
proof -
  have t: "draft_temperatures [1 / 200000] ! 0 = 1 / 100000" by (simp add: draft_temperatures_def)
  have "exp (2 * ln 2) = (4 :: real)" by (simp add: exp_double power2_eq_square)
  then show ?thesis
    unfolding t by (simp add: sample_row_exact logit_prob_def softmax_of_def scaled_def log_norm_def sum_exp_def exp_diff)
qed

section \<open>The greedy rule\<close>

text \<open>The rule of the torch path: the leading matches of the drafts with the target's predictions.\<close>

definition correct_drafts_and_bonus :: "nat list \<Rightarrow> nat list \<Rightarrow> nat \<times> nat" where
  "correct_drafts_and_bonus cand target =
     (let matches = map2 (\<lambda>c t. if c = t then 1 else 0) (drop 1 cand) (butlast target);
          correct_len = sum_list (cumprod matches)
      in (correct_len, target ! correct_len))"

text \<open>
  \<open>_fused_correct_drafts_and_bonus_kernel\<close>: one lane per draft position, \<open>np2\<close> is
  \<open>triton.next_power_of_2\<close>; the number of leading matches is the smallest mismatching lane.
\<close>

definition fused_correct_drafts_and_bonus :: "(nat \<Rightarrow> nat) \<Rightarrow> nat list \<Rightarrow> nat list \<Rightarrow> nat \<times> nat" where
  "fused_correct_drafts_and_bonus np2 cand target =
     (let block_size = length cand;
          block = np2 (max (block_size - 1) 1);
          eq = (\<lambda>off. off < block_size - 1 \<and> cand ! (1 + off) = target ! off);
          num_correct = Min ((\<lambda>off. if eq off then block else off) ` {..<block})
      in (num_correct, target ! num_correct))"

text \<open>\<open>compute_dflash_correct_drafts_and_bonus\<close> on a batch, with its shape checks.\<close>

definition compute_dflash_correct_drafts_and_bonus ::
  "(nat \<Rightarrow> nat) \<Rightarrow> bool \<Rightarrow> nat list list \<Rightarrow> nat list list \<Rightarrow> (nat list \<times> nat list) res" where
  "compute_dflash_correct_drafts_and_bonus np2 is_cuda candidates target_predict =
     bindE (check (map length target_predict = map length candidates) ValueError) (\<lambda>_.
     bindE (check (candidates \<noteq> []) ValueError) (\<lambda>_.
     bindE (check (\<forall>cand \<in> set candidates. 0 < length cand) ValueError) (\<lambda>_.
     let out = map2 (if is_cuda then fused_correct_drafts_and_bonus np2 else correct_drafts_and_bonus) candidates target_predict
     in Inr (map fst out, map snd out))))"

text \<open>
  \<open>_dflash_accept_bonus_contig_kernel\<close>: the loop over the columns with the running prefix flag, and
  the committed row. The result is accept length, commit length, bonus, new sequence length and
  the row of output tokens.
\<close>

definition contig_column :: "nat list \<Rightarrow> nat list \<Rightarrow> nat \<times> bool \<Rightarrow> nat \<Rightarrow> nat \<times> bool" where
  "contig_column cand target st col =
     (case st of (accept_len, prefix_live) \<Rightarrow>
        let in_range = (col < length cand - 1);
            candidate_id = (if in_range then cand ! (col + 1) else 0);
            target_id = (if in_range then target ! col else 0);
            matches = (candidate_id = target_id)
        in (accept_len + (if in_range \<and> prefix_live \<and> matches then 1 else 0),
            if in_range then prefix_live \<and> matches else prefix_live))"

definition accept_bonus_contig_kernel :: "(nat \<Rightarrow> nat) \<Rightarrow> nat list \<Rightarrow> nat list \<Rightarrow> nat \<Rightarrow> nat \<times> nat \<times> nat \<times> nat \<times> nat list" where
  "accept_bonus_contig_kernel np2 cand target prefix_len =
     (let block_size = length cand;
          (accept_len, prefix_live) = foldl (contig_column cand target) (0, True) [0..<np2 block_size - 1];
          commit_len = accept_len + 1;
          bonus_id = target ! accept_len;
          out_tokens = map (\<lambda>col. if col = accept_len then bonus_id
                                   else if col < block_size - 1 then cand ! (col + 1) else 0) [0..<block_size]
      in (accept_len, commit_len, bonus_id, prefix_len + commit_len, out_tokens))"

text \<open>The reference: the length of the leading match.\<close>

definition leading_matches :: "nat list \<Rightarrow> nat list \<Rightarrow> nat" where
  "leading_matches cand target = length (takeWhile (\<lambda>i. cand ! Suc i = target ! i) [0..<length cand - 1])"

lemma leading_matches_less: "0 < length cand \<Longrightarrow> leading_matches cand target < length cand"
  using length_takeWhile_le [of "\<lambda>i. cand ! Suc i = target ! i" "[0..<length cand - 1]"]
  unfolding leading_matches_def length_upt by linarith

lemma leading_matches_spec:
  shows "i < leading_matches cand target \<Longrightarrow> cand ! Suc i = target ! i"
    and "leading_matches cand target < length cand - 1 \<Longrightarrow> cand ! Suc (leading_matches cand target) \<noteq> target ! leading_matches cand target"
proof -
  let ?P = "\<lambda>i. cand ! Suc i = target ! i"
  show "cand ! Suc i = target ! i" if i: "i < leading_matches cand target"
  proof -
    have "takeWhile ?P [0..<length cand - 1] ! i \<in> set (takeWhile ?P [0..<length cand - 1])"
      using i by (simp add: leading_matches_def)
    moreover have "takeWhile ?P [0..<length cand - 1] ! i = i"
      using i length_takeWhile_le [of ?P "[0..<length cand - 1]"] by (simp add: leading_matches_def takeWhile_nth)
    ultimately show ?thesis by (metis (mono_tags, lifting) set_takeWhileD)
  qed
  show "cand ! Suc (leading_matches cand target) \<noteq> target ! leading_matches cand target" if "leading_matches cand target < length cand - 1"
    using nth_length_takeWhile [of ?P "[0..<length cand - 1]"] that by (simp add: leading_matches_def)
qed

lemma torch_leading_matches:
  assumes "length target = length cand" and "0 < length cand"
  shows "correct_drafts_and_bonus cand target = (leading_matches cand target, target ! leading_matches cand target)"
proof -
  let ?m = "map2 (\<lambda>c t. if c = t then 1 else 0 :: nat) (drop 1 cand) (butlast target)"
  have m: "?m = map (\<lambda>i. if cand ! Suc i = target ! i then 1 else 0) [0..<length cand - 1]"
    using assms by (intro nth_equalityI) (simp_all add: nth_butlast)
  have "sum_list (cumprod ?m) = length (takeWhile (\<lambda>x. x = 1) ?m)" by (rule sum_list_cumprod) (auto split: if_splits)
  also have "\<dots> = leading_matches cand target"
    unfolding m takeWhile_map by (simp add: comp_def leading_matches_def)
  finally show ?thesis by (simp add: correct_drafts_and_bonus_def Let_def)
qed

lemma fused_leading_matches:
  assumes "0 < length cand" and np2: "\<And>m. m \<le> np2 m"
  shows "fused_correct_drafts_and_bonus np2 cand target = (leading_matches cand target, target ! leading_matches cand target)"
proof -
  let ?k = "leading_matches cand target" and ?n = "length cand - 1"
  define block where "block = np2 (max ?n 1)"
  have block: "?n \<le> block" "0 < block" using np2 [of "max ?n 1"] by (simp_all add: block_def)
  let ?f = "\<lambda>off. if off < ?n \<and> cand ! (1 + off) = target ! off then block else off"
  have k: "?k \<le> ?n" using leading_matches_less [OF assms(1), of target] by simp
  have "Min (?f ` {..<block}) = ?k"
  proof (rule Min_eqI)
    show "finite (?f ` {..<block})" by simp
    fix y assume "y \<in> ?f ` {..<block}"
    then obtain off where off: "off < block" "y = ?f off" by auto
    show "?k \<le> y"
    proof (rule ccontr)
      assume "\<not> ?k \<le> y"
      then have "y < ?k" by simp
      then have "y = off" using off k block(1) by (auto split: if_splits)
      then show False using leading_matches_spec(1) [OF \<open>y < ?k\<close>] off \<open>y < ?k\<close> k by (auto split: if_splits)
    qed
  next
    show "?k \<in> ?f ` {..<block}"
    proof (cases "?k < ?n")
      case True
      then have "?f ?k = ?k" "?k < block" using leading_matches_spec(2) [of cand target] block(1) by simp_all
      then show ?thesis by (intro rev_image_eqI [of ?k]) simp_all
    next
      case False
      then have kn: "?k = ?n" using k by simp
      show ?thesis
      proof (cases "?n < block")
        case True
        then have "?f ?n = ?n" by simp
        then show ?thesis unfolding kn using True by (intro rev_image_eqI [of ?n]) simp_all
      next
        case False
        then have "?n = block" using block(1) by simp
        moreover have "?f 0 = block" using leading_matches_spec(1) [of 0 cand target] kn block(2) \<open>?n = block\<close> by simp
        ultimately show ?thesis unfolding kn using block(2) by (intro rev_image_eqI [of 0]) simp_all
      qed
    qed
  qed
  then show ?thesis unfolding fused_correct_drafts_and_bonus_def Let_def block_def by simp
qed

lemma takeWhile_upt_Suc:
  "length (takeWhile P [0..<Suc m]) = length (takeWhile P [0..<m]) + (if (\<forall>i<m. P i) \<and> P m then 1 else 0)"
proof (cases "\<forall>i<m. P i")
  case True
  have all: "takeWhile P [0..<m] = [0..<m]" using True by simp
  have "takeWhile P ([0..<m] @ [m]) = [0..<m] @ takeWhile P [m]" by (rule takeWhile_append2) (use True in simp)
  then have app: "takeWhile P [0..<Suc m] = [0..<m] @ takeWhile P [m]" by simp
  show ?thesis unfolding app all using True by simp
next
  case False
  then show ?thesis by (auto simp: takeWhile_append1)
qed

lemma contig_column_step:
  "contig_column cand target (a, l) c =
    (if c < length cand - 1 then (a + (if l \<and> cand ! Suc c = target ! c then 1 else 0), l \<and> cand ! Suc c = target ! c) else (a, l))"
  by (simp add: contig_column_def Let_def)

lemma contig_columns:
  "foldl (contig_column cand target) (0, True) [0..<c]
    = (length (takeWhile (\<lambda>i. cand ! Suc i = target ! i) [0..<min c (length cand - 1)]),
       \<forall>i<min c (length cand - 1). cand ! Suc i = target ! i)"
proof (induction c)
  case (Suc c)
  have unf: "foldl (contig_column cand target) (0, True) [0..<Suc c]
    = contig_column cand target (foldl (contig_column cand target) (0, True) [0..<c]) c" by simp
  show ?case
  proof (cases "c < length cand - 1")
    case True
    then have m: "min (Suc c) (length cand - 1) = Suc c" "min c (length cand - 1) = c" by simp_all
    show ?thesis unfolding unf Suc m takeWhile_upt_Suc contig_column_step using True by (auto simp: less_Suc_eq)
  next
    case False
    then have m: "min (Suc c) (length cand - 1) = min c (length cand - 1)" by simp
    show ?thesis unfolding unf Suc m contig_column_step using False by simp
  qed
qed simp

lemma contig_leading_matches:
  assumes "length target = length cand" and "0 < length cand" and np2: "\<And>m. m \<le> np2 m"
  shows "accept_bonus_contig_kernel np2 cand target prefix_len =
    (leading_matches cand target, leading_matches cand target + 1, target ! leading_matches cand target,
     prefix_len + (leading_matches cand target + 1),
     (drop 1 cand @ [0])[leading_matches cand target := target ! leading_matches cand target])"
proof -
  let ?k = "leading_matches cand target"
  have "min (np2 (length cand) - 1) (length cand - 1) = length cand - 1" using np2 [of "length cand"] by simp
  then have "\<exists>l. foldl (contig_column cand target) (0, True) [0..<np2 (length cand) - 1] = (?k, l)"
    unfolding contig_columns leading_matches_def by simp
  then obtain l where fold: "foldl (contig_column cand target) (0, True) [0..<np2 (length cand) - 1] = (?k, l)" ..
  have "map (\<lambda>col. if col = ?k then target ! ?k else if col < length cand - 1 then cand ! (col + 1) else 0) [0..<length cand]
    = (drop 1 cand @ [0])[?k := target ! ?k]"
    using assms(2) by (intro nth_equalityI) (auto simp: nth_append nth_list_update)
  then show ?thesis unfolding accept_bonus_contig_kernel_def Let_def fold by simp
qed

section \<open>The accept step\<close>

text \<open>
  What the draft stage hands to \<open>_accept_block\<close>: logits with their log-normalisers (\<open>None\<close> when
  missing), probability tables, or nothing when the batch is greedy. The branches for the
  selector and for target-only sampling belong to other workers. Where the batch uses top-k or
  top-p sampling, \<open>filtered\<close> holds the target rows \<open>build_dflash_verify_target_probs\<close> returned, which
  is not modelled.
\<close>

datatype draft_info =
    FromLogits "real list list list" "real list list option"
  | FromProbs "real list list list"
  | Greedy

record accepted =
  ac_accept_len :: "nat list"
  ac_commit_lens :: "nat list"
  ac_bonus :: "nat list"
  ac_out_tokens :: "nat list list"
  ac_new_seq_lens :: "nat list option"

text \<open>The external parts: fresh tensors, next powers of two, whether the tensors are on the GPU and the fused kernel is in use.\<close>

record serving_env =
  se_empty :: "nat \<Rightarrow> nat list"
  se_np2 :: "nat \<Rightarrow> nat"
  se_cuda :: bool
  se_triton_accept :: bool

definition commit_rows :: "nat list list \<Rightarrow> nat list \<Rightarrow> nat list \<Rightarrow> accepted" where
  "commit_rows candidates accept_len bonus =
     (let (out_tokens, commit_lens) = commit_accept candidates accept_len bonus
      in \<lparr> ac_accept_len = accept_len, ac_commit_lens = commit_lens, ac_bonus = bonus, ac_out_tokens = out_tokens,
           ac_new_seq_lens = None \<rparr>)"

definition accept_block_greedy :: "serving_env \<Rightarrow> nat list list \<Rightarrow> nat list list \<Rightarrow> nat list \<Rightarrow> accepted res" where
  "accept_block_greedy se candidates target_predict prefix_lens =
     (if se_triton_accept se then
        let out = map2 (\<lambda>(cand, target) pl. accept_bonus_contig_kernel (se_np2 se) cand target pl)
                    (zip candidates target_predict) prefix_lens
        in Inr \<lparr> ac_accept_len = map fst out, ac_commit_lens = map (\<lambda>x. fst (snd x)) out,
                 ac_bonus = map (\<lambda>x. fst (snd (snd x))) out,
                 ac_out_tokens = map (\<lambda>x. snd (snd (snd (snd x)))) out,
                 ac_new_seq_lens = Some (map (\<lambda>x. fst (snd (snd (snd x)))) out) \<rparr>
      else
        bindE (compute_dflash_correct_drafts_and_bonus (se_np2 se) (se_cuda se) candidates target_predict) (\<lambda>(lens, bonus).
        Inr (commit_rows candidates lens bonus)))"

definition accept_block ::
  "serving_env \<Rightarrow> chain_buffers option \<Rightarrow> nat \<Rightarrow> nat \<Rightarrow> real list list \<Rightarrow> real list \<Rightarrow> real list list list option \<Rightarrow> draft_info
   \<Rightarrow> nat list \<Rightarrow> real chain_inputs \<Rightarrow> nat list \<Rightarrow> (accepted \<times> chain_buffers option) res" where
  "accept_block se cached n vocab_size next_token_logits temperatures filtered info prefix_lens inp order =
     (case info of
        FromLogits draft_logits draft_log_norm \<Rightarrow>
          (case draft_log_norm of None \<Rightarrow> Inl RuntimeError
           | Some norms \<Rightarrow>
               bindE (accept_sampling_from_logits (se_empty se) cached next_token_logits draft_logits norms temperatures
                        n vocab_size inp order) (\<lambda>((lens, bonus), b).
               Inr (commit_rows (ci_candidates inp) lens bonus, Some b)))
      | FromProbs draft_probs \<Rightarrow>
          bindE (check (length draft_probs = length (ci_candidates inp) \<and> logits_ok (n - 1) vocab_size draft_probs) RuntimeError) (\<lambda>_.
          let ((lens, bonus), b) =
                (case filtered of
                   None \<Rightarrow> accept_sampling softmax_of (se_empty se) cached next_token_logits draft_probs temperatures n vocab_size inp order
                 | Some target_probs \<Rightarrow> accept_sampling_core (se_empty se) cached target_probs draft_probs n vocab_size inp order)
          in Inr (commit_rows (ci_candidates inp) lens bonus, Some b))
      | Greedy \<Rightarrow>
          let target_predict = map (\<lambda>r. row_block n r (map argmax next_token_logits)) [0..<length (ci_candidates inp)]
          in bindE (accept_block_greedy se (ci_candidates inp) target_predict prefix_lens) (\<lambda>a. Inr (a, cached)))"

text \<open>The rest of the decode step that advances the batch: new sequence lengths and the next draft input.\<close>

definition advance :: "accepted \<Rightarrow> nat list \<Rightarrow> nat list \<times> nat list" where
  "advance a prefix_lens =
     ((case ac_new_seq_lens a of Some ls \<Rightarrow> ls | None \<Rightarrow> map2 (+) prefix_lens (ac_commit_lens a)), ac_bonus a)"

text \<open>The tokens the step appends to request \<open>r\<close>.\<close>

definition committed :: "accepted \<Rightarrow> nat \<Rightarrow> nat list" where
  "committed a r = take (ac_commit_lens a ! r) (ac_out_tokens a ! r)"

lemma commit_rows_nth:
  assumes "length lens = length cands" and "length bonus = length cands" and "r < length cands" and "length (cands ! r) = n" and "lens ! r < n"
  shows "committed (commit_rows cands lens bonus) r = take (lens ! r) (drop 1 (cands ! r)) @ [bonus ! r]"
    and "ac_commit_lens (commit_rows cands lens bonus) ! r = lens ! r + 1"
    and "ac_bonus (commit_rows cands lens bonus) = bonus" and "ac_accept_len (commit_rows cands lens bonus) = lens"
    and "ac_new_seq_lens (commit_rows cands lens bonus) = None"
  using assms commit_row [OF assms(4,5), of "bonus ! r"] by (simp_all add: committed_def commit_rows_def commit_accept_def)

text \<open>
  The interface of the greedy rule: an implementation returns, row by row, the leading matches and
  the target's token behind them.
\<close>

locale greedy_rule =
  fixes rule :: "nat list \<Rightarrow> nat list \<Rightarrow> nat \<times> nat"
  assumes rule: "length target = length cand \<Longrightarrow> 0 < length cand \<Longrightarrow>
    rule cand target = (leading_matches cand target, target ! leading_matches cand target)"
begin

lemma rows:
  assumes "length targets = length cands" and "r < length cands" and "length (cands ! r) = n" and "length (targets ! r) = n" and "0 < n"
  shows "map2 rule cands targets ! r = (leading_matches (cands ! r) (targets ! r), targets ! r ! leading_matches (cands ! r) (targets ! r))"
  using assms by (simp add: rule)

lemma committed_row:
  assumes "length targets = length cands" and r: "r < length cands" and "length (cands ! r) = n" and "length (targets ! r) = n" and n: "0 < n"
  defines "out \<equiv> map2 rule cands targets"
  shows "committed (commit_rows cands (map fst out) (map snd out)) r
      = take (leading_matches (cands ! r) (targets ! r)) (drop 1 (cands ! r)) @ [targets ! r ! leading_matches (cands ! r) (targets ! r)]"
    and "ac_bonus (commit_rows cands (map fst out) (map snd out)) ! r = targets ! r ! leading_matches (cands ! r) (targets ! r)"
    and "ac_commit_lens (commit_rows cands (map fst out) (map snd out)) ! r = leading_matches (cands ! r) (targets ! r) + 1"
    and "ac_new_seq_lens (commit_rows cands (map fst out) (map snd out)) = None"
proof -
  have o: "out ! r = (leading_matches (cands ! r) (targets ! r), targets ! r ! leading_matches (cands ! r) (targets ! r))"
    unfolding out_def by (rule rows [OF assms(1-5)])
  have l: "length out = length cands" using assms(1) by (simp add: out_def)
  have "map fst out ! r < n" using o l r assms(3) n leading_matches_less [of "cands ! r" "targets ! r"] by simp
  note c = commit_rows_nth [OF _ _ r assms(3) this, of "map snd out"]
  show "committed (commit_rows cands (map fst out) (map snd out)) r
      = take (leading_matches (cands ! r) (targets ! r)) (drop 1 (cands ! r)) @ [targets ! r ! leading_matches (cands ! r) (targets ! r)]"
    "ac_bonus (commit_rows cands (map fst out) (map snd out)) ! r = targets ! r ! leading_matches (cands ! r) (targets ! r)"
    "ac_commit_lens (commit_rows cands (map fst out) (map snd out)) ! r = leading_matches (cands ! r) (targets ! r) + 1"
    "ac_new_seq_lens (commit_rows cands (map fst out) (map snd out)) = None"
    using c o l r by simp_all
qed

end

interpretation torch_rule: greedy_rule correct_drafts_and_bonus
  by unfold_locales (rule torch_leading_matches)

lemma fused_rule: "(\<And>m. m \<le> np2 m) \<Longrightarrow> greedy_rule (fused_correct_drafts_and_bonus np2)"
  by unfold_locales (rule fused_leading_matches)

definition greedy_tokens :: "nat list \<Rightarrow> nat list \<Rightarrow> nat list" where
  "greedy_tokens cand target =
     take (leading_matches cand target) (drop 1 cand) @ [target ! leading_matches cand target]"

lemma length_greedy_tokens: "0 < length cand \<Longrightarrow> length (greedy_tokens cand target) = leading_matches cand target + 1"
  using leading_matches_less [of cand target] by (simp add: greedy_tokens_def)

lemma eager_greedy:
  assumes np2: "\<And>m. m \<le> se_np2 se m" and cands: "cands \<noteq> []" "\<forall>cand \<in> set cands. length cand = n" "0 < n"
    and tgt: "length targets = length cands" "\<forall>target \<in> set targets. length target = n"
    and pl: "length prefix_lens = length cands" and eager: "\<not> se_triton_accept se"
  shows "\<exists>a. accept_block_greedy se cands targets prefix_lens = Inr a
    \<and> (\<forall>r<length cands. committed a r = greedy_tokens (cands ! r) (targets ! r)
        \<and> fst (advance a prefix_lens) ! r = prefix_lens ! r + length (committed a r)
        \<and> snd (advance a prefix_lens) ! r = last (committed a r))"
proof -
  define rule where "rule = (if se_cuda se then fused_correct_drafts_and_bonus (se_np2 se) else correct_drafts_and_bonus)"
  let ?out = "map2 rule cands targets"
  have gr: "greedy_rule rule"
    unfolding rule_def using fused_rule [OF np2] torch_rule.greedy_rule_axioms by simp
  have "map length targets = map length cands" using cands(2) tgt by (intro nth_equalityI) auto
  then have eq: "accept_block_greedy se cands targets prefix_lens = Inr (commit_rows cands (map fst ?out) (map snd ?out))"
    using cands eager
    by (simp add: accept_block_greedy_def compute_dflash_correct_drafts_and_bonus_def rule_def Let_def)
  moreover have "committed (commit_rows cands (map fst ?out) (map snd ?out)) r = greedy_tokens (cands ! r) (targets ! r)
      \<and> fst (advance (commit_rows cands (map fst ?out) (map snd ?out)) prefix_lens) ! r
        = prefix_lens ! r + length (committed (commit_rows cands (map fst ?out) (map snd ?out)) r)
      \<and> snd (advance (commit_rows cands (map fst ?out) (map snd ?out)) prefix_lens) ! r
        = last (committed (commit_rows cands (map fst ?out) (map snd ?out)) r)" if r: "r < length cands" for r
  proof -
    have l: "length (cands ! r) = n" "length (targets ! r) = n" using cands tgt r by simp_all
    note row = greedy_rule.committed_row [OF gr tgt(1) r l cands(3)]
    have "length (ac_commit_lens (commit_rows cands (map fst ?out) (map snd ?out))) = length cands"
      using tgt(1) by (simp add: commit_rows_def commit_accept_def)
    then show ?thesis
      using row r pl l cands(3) length_greedy_tokens [of "cands ! r" "targets ! r"]
      by (simp add: greedy_tokens_def advance_def)
  qed
  ultimately show ?thesis by blast
qed

lemma fused_greedy:
  assumes np2: "\<And>m. m \<le> se_np2 se m" and cands: "\<forall>cand \<in> set cands. length cand = n" "0 < n"
    and tgt: "length targets = length cands" "\<forall>target \<in> set targets. length target = n"
    and pl: "length prefix_lens = length cands" and fused: "se_triton_accept se"
  shows "\<exists>a. accept_block_greedy se cands targets prefix_lens = Inr a
    \<and> (\<forall>r<length cands. committed a r = greedy_tokens (cands ! r) (targets ! r)
        \<and> fst (advance a prefix_lens) ! r = prefix_lens ! r + length (committed a r)
        \<and> snd (advance a prefix_lens) ! r = last (committed a r))"
proof -
  let ?out = "map2 (\<lambda>(cand, target) pl. accept_bonus_contig_kernel (se_np2 se) cand target pl) (zip cands targets) prefix_lens"
  let ?a = "\<lparr> ac_accept_len = map fst ?out, ac_commit_lens = map (\<lambda>x. fst (snd x)) ?out,
                 ac_bonus = map (\<lambda>x. fst (snd (snd x))) ?out,
                 ac_out_tokens = map (\<lambda>x. snd (snd (snd (snd x)))) ?out,
                 ac_new_seq_lens = Some (map (\<lambda>x. fst (snd (snd (snd x)))) ?out) \<rparr>"
  have "accept_block_greedy se cands targets prefix_lens = Inr ?a" using fused by (simp add: accept_block_greedy_def Let_def)
  moreover have "committed ?a r = greedy_tokens (cands ! r) (targets ! r)
      \<and> fst (advance ?a prefix_lens) ! r = prefix_lens ! r + length (committed ?a r)
      \<and> snd (advance ?a prefix_lens) ! r = last (committed ?a r)" if r: "r < length cands" for r
  proof -
    have l: "length (cands ! r) = n" "length (targets ! r) = n" using cands tgt r by simp_all
    have o: "?out ! r = accept_bonus_contig_kernel (se_np2 se) (cands ! r) (targets ! r) (prefix_lens ! r)"
      using r tgt(1) pl by simp
    have k: "leading_matches (cands ! r) (targets ! r) < n" using leading_matches_less [of "cands ! r"] l cands(2) by simp
    have lo: "length ?out = length cands" using tgt(1) pl by simp
    note kern = contig_leading_matches [of "targets ! r" "cands ! r" "se_np2 se", OF _ _ np2]
    have tok: "committed ?a r = greedy_tokens (cands ! r) (targets ! r)"
      using r lo o kern l cands(2) commit_row [OF l(1) k] by (simp add: committed_def greedy_tokens_def)
    then show ?thesis
      using r lo o kern l cands(2) length_greedy_tokens [of "cands ! r" "targets ! r"]
      by (simp add: advance_def greedy_tokens_def)
  qed
  ultimately show ?thesis by blast
qed

end
