(* ===== verification/Serving_Equivalence.thy ===== *)
theory Serving_Equivalence
  imports Serving_Accept Lossless_Decoding Rejection_Sampling
begin

text \<open>
  The serving engine against the evaluator: on the same proposal, target logits and random
  numbers, the accept step of the serving worker commits the tokens \<open>verify_draft_tokens\<close> of
  \<^verbatim>\<open>DeepSpec/deepspec/eval/base_evaluator.py\<close> commits, so that what is measured by the evaluator
  is what is served.
\<close>

section \<open>The rejection test\<close>

lemma accept_test:
  assumes "0 \<le> u" and "u < 1" and "1 / 100000000 \<le> (q :: rat)"
  shows "u < min (p / max q (1 / 100000000)) 1 \<longleftrightarrow> u * q < p"
proof -
  have q: "max q (1 / 100000000) = q" "0 < q" using assms(3) by (simp_all add: max_absorb1 less_le_trans [of 0 "1 / 100000000"])
  then show ?thesis using assms(2) by (simp add: less_divide_eq)
qed

text \<open>A rejected token leaves excess mass: both rows have the same total.\<close>

lemma rejected_excess:
  assumes len: "length p = length q" and "prob_vector p" and "prob_vector q" and x: "x < length q" and less: "p ! x < q ! x"
  shows "0 < sum_list (positive_excess p q)"
proof -
  have nn: "0 \<le> sum_list (positive_excess p q)" by (rule sum_list_nonneg) (auto simp: positive_excess_def)
  have "sum_list (positive_excess p q) \<noteq> 0"
  proof
    assume "sum_list (positive_excess p q) = 0"
    then have "(\<Sum>i<length q. max (p ! i - q ! i) 0) = 0" using positive_excess_sum [OF len] by simp
    then have "\<forall>i \<in> {..<length q}. max (p ! i - q ! i) 0 = 0"
      using sum_nonneg_eq_0_iff [of "{..<length q}" "\<lambda>i. max (p ! i - q ! i) 0"] by simp
    then have le: "p ! i \<le> q ! i" if "i < length q" for i using that by (force simp: max_def split: if_splits)
    have "(\<Sum>i<length q. p ! i) < (\<Sum>i<length q. q ! i)"
      by (rule sum_strict_mono_ex1) (use le x less in auto)
    then show False using assms(2,3) len by (simp add: prob_vector_def sum_list_nth_rat)
  qed
  with nn show ?thesis by simp
qed

text \<open>The final sample of the kernel draws from its weights.\<close>

lemma final_sample_icdf:
  assumes "nonneg ws" and "0 < sum_list ws" and "0 \<le> c" and "c < 1"
  shows "final_sample block_v ws c = icdf ws (c * sum_list ws)"
proof -
  have "c * sum_list ws < sum_list ws" "0 \<le> c * sum_list ws" using assms by simp_all
  then show ?thesis using cdf_scan_exact [of ws "c * sum_list ws" block_v] assms(1)
    by (simp add: final_sample_def block_total_sum block_v_def)
qed

text \<open>
  The evaluator draws the same numbers: the uniform samples of the drafts are those of the request,
  and its multinomial draw inverts the cumulative weights at the request's final sample.
\<close>

definition same_draws :: "('c, 'h, 'r) runtime \<Rightarrow> 'r \<Rightarrow> rat list \<Rightarrow> rat \<Rightarrow> bool" where
  "same_draws rt rng us coin \<longleftrightarrow>
     fst (rt_rand_like rt (length us) rng) = us
     \<and> (\<forall>w. fst (rt_multinomial rt w (snd (rt_rand_like rt (length us) rng))) = icdf w (coin * sum_list w))"

definition pair_ok :: "nat \<Rightarrow> rat list \<Rightarrow> rat list \<Rightarrow> nat \<Rightarrow> bool" where
  "pair_ok V p q t \<longleftrightarrow> length p = V \<and> length q = V \<and> prob_vector p \<and> prob_vector q \<and> guards_idle p q \<and> t < V \<and> 0 < q ! t"

lemma pair_selected:
  assumes "pair_ok V p q t" shows "1 / 100000000 \<le> q ! t"
proof -
  have "q ! t \<in> set q" using assms by (simp add: pair_ok_def)
  then show ?thesis using assms unfolding pair_ok_def guards_idle_def by force
qed

lemma residual_draw:
  assumes ok: "pair_ok V p q t" and rej: "\<not> u * q ! t < p ! t" and u: "u < 1" and c: "0 \<le> c" "c < 1"
    and ws: "ws = positive_excess p q"
  shows "icdf (residual_probs p q) (c * sum_list (residual_probs p q)) = final_sample block_v ws c"
proof -
  have qt: "0 < q ! t" using ok by (simp add: pair_ok_def)
  then have "p ! t < q ! t" using rej u by (meson less_le_trans mult_less_cancel_right2 not_less)
  then have pos: "0 < sum_list ws" unfolding ws using ok by (intro rejected_excess) (auto simp: pair_ok_def)
  then have M: "sum_list (positive_excess p q) > 1 / 100000000" using ok unfolding ws pair_ok_def guards_idle_def by auto
  have res: "residual_probs p q = map (\<lambda>x. (1 / sum_list ws) * x) ws" unfolding residual_probs_excess [OF M] ws by simp
  have s1: "sum_list (residual_probs p q) = (1 / sum_list ws) * sum_list ws" unfolding res by (simp only: sum_list_const_mult map_ident)
  have "icdf (residual_probs p q) ((1 / sum_list ws) * (c * sum_list ws)) = icdf ws (c * sum_list ws)"
    unfolding res using pos by (intro icdf_scale) simp
  moreover have "nonneg ws" by (auto simp: ws positive_excess_def)
  ultimately show ?thesis using final_sample_icdf [OF _ pos c] s1 by (simp add: mult.left_commute)
qed

lemma excess_weights:
  assumes "length p = V" and "length q = V"
  shows "map (\<lambda>v. if p ! v - q ! v > 0 then p ! v - q ! v else 0) [0..<V] = positive_excess p q"
  using assms by (intro nth_equalityI) (auto simp: positive_excess_def max_def)

section \<open>Sampling\<close>

text \<open>The chain of one request, on its own rows, is what the evaluator's verification commits.\<close>

lemma chain_matches_evaluator:
  assumes ok: "proposal_ok V mp cur p" and n: "0 < draft_token_count p" and d: "draft_probs p = Some d"
    and tp: "rows_ok V (draft_token_count p + 1) tp" and unit: "draws_unit (rt_rand_like rt)"
    and draws: "same_draws rt rng us coin" "length us = draft_token_count p" and coin: "0 \<le> coin" "coin < 1"
    and pairs: "\<And>i. i < draft_token_count p \<Longrightarrow> pair_ok V (tp ! i) (d ! i) (verify_input_ids p ! Suc i)"
    and bonus: "prob_vector (tp ! draft_token_count p)"
    and rs: "rejection_sample rt p tp rng = Inr (msk, acc, r1)"
    and nx: "sample_next_token rt p tp acc r1 = Inr (nxt, r2)"
  shows "emitted (\<lambda>j v. tp ! j ! v) (\<lambda>j v. d ! j ! v) V (drop 1 (verify_input_ids p)) us coin
    = py_slice 1 (acc + 1) (verify_input_ids p) @ [nxt]"
proof -
  let ?n = "draft_token_count p" and ?ids = "verify_input_ids p"
  let ?p = "\<lambda>j v. tp ! j ! v" and ?q = "\<lambda>j v. d ! j ! v"
  have li: "length ?ids = ?n + 1" and ld: "length d = ?n" using ok n d by (simp_all add: proposal_ok_def)
  define ap where "ap = map (\<lambda>i. min (tp ! i ! (?ids ! Suc i) / max (d ! i ! (?ids ! Suc i)) (1 / 100000000)) 1) [0..<?n]"
  have us: "rt_rand_like rt ?n rng = (us, snd (rt_rand_like rt ?n rng))" using draws by (simp add: same_draws_def prod_eq_iff)
  have uu: "0 \<le> us ! i \<and> us ! i < 1" if "i < ?n" for i
  proof -
    have "us ! i \<in> set (fst (rt_rand_like rt ?n rng))" using that draws(2) us by (metis fst_conv nth_mem)
    then show ?thesis using unit by (auto simp: draws_unit_def)
  qed
  have acc: "acc = sum_list (accept_prefix us ap)" and r1: "r1 = snd (rt_rand_like rt ?n rng)"
    using rejection_sample_ok [OF ok tp unit n d, of rng] rs us by (auto simp: ap_def split: prod.splits)
  have test: "us ! i < ap ! i \<longleftrightarrow> accepts ?p ?q (drop 1 ?ids) us i" if i: "i < ?n" for i
    using accept_test [of "us ! i" "d ! i ! (?ids ! Suc i)" "tp ! i ! (?ids ! Suc i)"] uu [OF i] pair_selected [OF pairs [OF i]] i li
    by (simp add: ap_def accepts_def)
  have "acc = length (takeWhile (\<lambda>i. us ! i < ap ! i) [0..<?n])"
    unfolding acc using accept_prefix_sum [of us ap] draws(2) by (simp add: ap_def)
  also have "\<dots> = accepted_len ?p ?q (drop 1 ?ids) us"
    unfolding accepted_len_def by (rule arg_cong [of _ _ length], rule takeWhile_cong) (use test li in simp_all)
  finally have k: "accepted_len ?p ?q (drop 1 ?ids) us = acc" ..
  have kn: "acc \<le> ?n" using accepted_len_le [of ?p ?q "drop 1 ?ids" us] k li by simp
  have "final_sample block_v (final_weights ?p ?q V (acc = ?n) acc) coin = nxt"
  proof (cases "acc = ?n")
    case True
    have w: "final_weights ?p ?q V True acc = tp ! acc"
      using tp kn by (intro nth_equalityI) (simp_all add: final_weights_def rows_ok_def)
    have "nonneg (tp ! acc)" "0 < sum_list (tp ! acc)" using bonus True by (simp_all add: prob_vector_def)
    then have "final_sample block_v (tp ! acc) coin = icdf (tp ! acc) (coin * sum_list (tp ! acc))"
      using coin by (rule final_sample_icdf)
    moreover have "nxt = fst (rt_multinomial rt (tp ! acc) r1)"
    proof -
      have "\<not> acc < ?n" using True by simp
      then have "Inr (rt_multinomial rt (tp ! acc) r1) = sample_next_token rt p tp acc r1"
        unfolding sample_next_token_ok [OF ok tp kn, of rt r1] by (simp only: if_False)
      then show ?thesis unfolding nx by (simp only: sum.inject fst_conv)
    qed
    ultimately show ?thesis using draws w True by (simp add: same_draws_def r1)
  next
    case False
    then have lt: "acc < ?n" using kn by simp
    have rej: "\<not> us ! acc * d ! acc ! (?ids ! Suc acc) < tp ! acc ! (?ids ! Suc acc)"
    proof -
      have "\<not> accepts ?p ?q (drop 1 ?ids) us acc"
        using nth_length_takeWhile [of "accepts ?p ?q (drop 1 ?ids) us" "[0..<length (drop 1 ?ids)]"] k lt li
        by (simp add: accepted_len_def)
      then show ?thesis using lt li by (simp add: accepts_def)
    qed
    have lp: "length (tp ! acc) = V" "length (d ! acc) = V" using pairs [OF lt] by (simp_all add: pair_ok_def)
    have w: "final_weights ?p ?q V False acc = positive_excess (tp ! acc) (d ! acc)"
      using excess_weights [OF lp] by (simp add: final_weights_def)
    have "nxt = fst (rt_multinomial rt (residual_probs (tp ! acc) (d ! acc)) r1)"
      using sample_next_token_ok [OF ok tp kn, of rt r1] nx lt d
      by (auto simp: sample_residual_def Let_def split: prod.splits)
    then show ?thesis
      using residual_draw [OF pairs [OF lt] rej _ coin w] uu [OF lt] draws False by (simp add: same_draws_def r1 w)
  qed
  then show ?thesis using li k by (simp add: emitted_def Let_def py_slice_def)
qed

text \<open>The request of a serving batch that holds a proposal of the evaluator.\<close>

definition serves ::
  "nat \<Rightarrow> 'p draft_proposal_scheme \<Rightarrow> rat list list \<Rightarrow> rat list list \<Rightarrow> rat list list list \<Rightarrow> rat chain_inputs \<Rightarrow> rat list \<Rightarrow> rat \<Rightarrow> bool" where
  "serves r p rows target_logits probs inp us coin \<longleftrightarrow>
     r < length (ci_candidates inp) \<and> ci_candidates inp ! r = verify_input_ids p
     \<and> length target_logits = length (ci_candidates inp) * (draft_token_count p + 1)
     \<and> row_block (draft_token_count p + 1) r target_logits = rows
     \<and> draft_probs p = Some (probs ! r) \<and> ci_uniform inp ! r = us \<and> ci_uniform_final inp ! r = coin"

lemma served_target_rows:
  assumes "serves r p rows tlog probs inp us coin" and "j \<le> draft_token_count p"
  shows "target_rows softmax (length (ci_candidates inp)) (draft_token_count p + 1) tlog temps ! r ! j
    = softmax (map (\<lambda>x. x / temps ! r) (rows ! j))"
proof -
  let ?n = "draft_token_count p + 1"
  have s: "r < length (ci_candidates inp)" "length tlog = length (ci_candidates inp) * ?n" "row_block ?n r tlog = rows"
    using assms(1) by (simp_all add: serves_def)
  have j: "j < ?n" using assms(2) by simp
  have "rows ! j = tlog ! (r * ?n + j)"
    using view_nth [OF s(2,1) j] s(1,3) by simp
  then show ?thesis using target_rows_nth [OF s(2,1) j, of softmax temps] by simp
qed


text \<open>A rejected draft: two tokens, target \<open>[1/2, 1/2]\<close>, draft \<open>[1/4, 3/4]\<close>, a sample of \<open>3/4\<close> for the draft token 1.\<close>

definition even_softmax :: "rat list \<Rightarrow> rat list" where
  "even_softmax xs = map (\<lambda>_. 1 / of_nat (length xs)) xs"

definition demo_rt :: "(unit, unit, unit) runtime" where
  "demo_rt = \<lparr> target_model = (\<lambda>c ids pos k. (\<lparr> logits = [[0, 0], [0, 0]], hidden_states = () \<rparr>, ())),
     cache_crop = (\<lambda>c n. ()), new_cache = (), rt_softmax = even_softmax,
     rt_rand_like = (\<lambda>n r. (replicate n (3 / 4), ())), rt_multinomial = (\<lambda>w r. (icdf w (1 / 4 * sum_list w), ())),
     torch_empty = (\<lambda>n. replicate n 0) \<rparr>"

definition demo_proposal :: draft_proposal where
  "demo_proposal = \<lparr> draft_token_count = 1, verify_input_ids = [0, 1], draft_probs = Some [[1 / 4, 3 / 4]] \<rparr>"

definition demo_inputs :: "rat chain_inputs" where
  "demo_inputs = \<lparr> ci_candidates = [[0, 1]], ci_uniform = [[3 / 4]], ci_uniform_final = [1 / 4] \<rparr>"

lemmas demo_defs = demo_rt_def demo_proposal_def demo_inputs_def even_softmax_def


section \<open>Greedy decoding\<close>

text \<open>
  (C6) At temperature zero the serving engine's greedy accept step, in each of its three
  implementations, commits for a request what the evaluator's verification of the same
  proposal commits: it does not raise, appends the same tokens, advances the sequence length by
  their number and hands the last of them to the next draft.
\<close>

theorem greedy_serving_matches_evaluator:
  fixes T :: rat
  assumes ok: "proposal_ok V mp cur p" and V: "0 < V"
    and model: "target_model rt c (verify_input_ids p) (py_slice start (start + (draft_token_count p + 1)) pos) 0 = (out, c')"
    and rows: "rows_ok V (draft_token_count p + 1) (logits out)" and soft: "\<And>xs. length (rt_softmax rt xs) = length xs"
    and unit: "draws_unit (rt_rand_like rt)" and sup: "draws_support (rt_multinomial rt)" and T: "T < 1 / 100000"
    and np2: "\<And>m. m \<le> se_np2 se m"
    and cands: "\<forall>cand \<in> set cands. length cand = draft_token_count p + 1"
    and tgt: "length targets = length cands" "\<forall>target \<in> set targets. length target = draft_token_count p + 1"
    and pl: "length prefix_lens = length cands"
    and r: "r < length cands" "cands ! r = verify_input_ids p" "targets ! r = map argmax (logits out)"
  shows "\<exists>res c2 rng2 a.
      verify_draft_tokens rt p pos start c T mp (Some [cur]) None rng = Inr (res, c2, rng2)
      \<and> accept_block_greedy se cands targets prefix_lens = Inr a
      \<and> Some (committed a r) = committed_tokens res
      \<and> fst (advance a prefix_lens) ! r = prefix_lens ! r + (accepted_draft_tokens res + 1)
      \<and> snd (advance a prefix_lens) ! r = next_token res"
proof -
  let ?n = "draft_token_count p" and ?ids = "verify_input_ids p"
  define tp where "tp = map (\<lambda>row. logits_to_probs (rt_softmax rt) row T) (logits out)"
  obtain msk acc0 r1 acc eff st nxt r2 where v: "rejection_sample rt p tp rng = Inr (msk, acc0, r1)" "acc0 \<le> ?n"
    "truncate_at_stop None ?ids ?n acc0 = (acc, eff, st)" "sample_next_token rt p tp acc r1 = Inr (nxt, r2)"
    "verify_draft_tokens rt p pos start c T mp (Some [cur]) None rng =
       Inr (\<lparr> target_output = out, target_probs = tp, accept_prefix_mask = msk,
              accepted_draft_tokens = acc, next_token = nxt, effective_proposal_length = eff,
              terminated_by_stop_token = st,
              committed_tokens = Some (py_slice 1 (acc + 1) ?ids @ [nxt]) \<rparr>, c', r2)"
    using verify_draft_tokens_ok [OF ok model rows soft unit, of T rng None, folded tp_def] by metis
  have acc: "acc0 = acc" using v(3) by (simp add: truncate_at_stop_def)
  have li: "length ?ids = ?n + 1" using ok by (simp add: proposal_ok_def)
  have lm: "leading_matches ?ids (map argmax (logits out)) = acc"
  proof -
    have "acc = length (takeWhile (\<lambda>i. ?ids ! Suc i = argmax (logits out ! i)) [0..<?n])"
      using rejection_sample_greedy [OF ok rows V T unit v(1) [unfolded tp_def]] acc by simp
    also have "\<dots> = leading_matches ?ids (map argmax (logits out))"
      unfolding leading_matches_def
      by (rule arg_cong [of _ _ length], rule takeWhile_cong) (use rows li in \<open>simp_all add: rows_ok_def\<close>)
    finally show ?thesis ..
  qed
  have nxt: "nxt = argmax (logits out ! acc)"
    using sample_next_token_greedy [OF ok rows V T sup _ v(4) [unfolded tp_def]] v(2) acc by simp
  have gt: "greedy_tokens (cands ! r) (targets ! r) = py_slice 1 (acc + 1) ?ids @ [nxt]"
    using v(2) acc rows unfolding greedy_tokens_def r lm nxt by (simp add: py_slice_def rows_ok_def)
  have lg: "length (py_slice 1 (acc + 1) ?ids @ [nxt]) = acc + 1" using li v(2) acc by simp
  obtain a where a: "accept_block_greedy se cands targets prefix_lens = Inr a" "committed a r = greedy_tokens (cands ! r) (targets ! r)"
    "fst (advance a prefix_lens) ! r = prefix_lens ! r + length (committed a r)"
    "snd (advance a prefix_lens) ! r = last (committed a r)"
  proof (cases "se_triton_accept se")
    case True
    show ?thesis using fused_greedy [OF np2 cands _ tgt pl True] that r(1) by auto
  next
    case False
    have "cands \<noteq> []" using r(1) by auto
    from eager_greedy [OF np2 this cands _ tgt pl False] show ?thesis using that r(1) by auto
  qed
  then show ?thesis using v(5) lg unfolding gt by auto
qed

text \<open>Two requests, the second of them the proposal; the draft token is accepted and the bonus follows it.\<close>

definition greedy_rt :: "(unit, unit, unit) runtime" where
  "greedy_rt = \<lparr> target_model = (\<lambda>c ids pos k. (\<lparr> logits = [[0, 1], [2, 0]], hidden_states = () \<rparr>, ())),
     cache_crop = (\<lambda>c n. ()), new_cache = (), rt_softmax = even_softmax,
     rt_rand_like = (\<lambda>n r. (replicate n 0, ())), rt_multinomial = (\<lambda>w r. (argmax w, r)),
     torch_empty = (\<lambda>n. replicate n 0) \<rparr>"

definition greedy_env :: "bool \<Rightarrow> bool \<Rightarrow> serving_env" where
  "greedy_env cuda fused = \<lparr> se_empty = (\<lambda>n. replicate n 0), se_np2 = (\<lambda>m. 2 ^ m), se_cuda = cuda, se_triton_accept = fused \<rparr>"

theorem greedy_serving_matches_evaluator_witness:
  "\<exists>res c2 rng2 a.
      verify_draft_tokens greedy_rt demo_proposal [0, 1] 0 () 0 1 (Some [0]) None () = Inr (res, c2, rng2)
      \<and> accept_block_greedy (greedy_env True True) [[5, 6], [0, 1]] [[3, 3], [1, 0]] [10, 20] = Inr a
      \<and> Some (committed a 1) = committed_tokens res
      \<and> fst (advance a [10, 20]) ! 1 = [10, 20] ! 1 + (accepted_draft_tokens res + 1)
      \<and> snd (advance a [10, 20]) ! 1 = next_token res"
proof -
  have am: "argmax [0, 1 :: rat] = 1" "argmax [2, 0 :: rat] = 0" by (simp_all add: argmax_def)
  show ?thesis
    by (rule greedy_serving_matches_evaluator [where V = 2 and out = "\<lparr> logits = [[0, 1], [2, 0]], hidden_states = () \<rparr>" and c' = "()"])
       (use am argmax_draws_support in \<open>auto simp: demo_proposal_def greedy_rt_def greedy_env_def even_softmax_def proposal_ok_def rows_ok_def
          draws_unit_def less_exp [THEN less_imp_le]\<close>)
qed

end
