(* ===== verification/Draft_Tables.thy ===== *)
theory Draft_Tables
  imports Serving_Accept
begin

text \<open>
  Batches that mix greedy and sampling requests (\<open>sample_latentspec_draft_tokens\<close> of
  \<^verbatim>\<open>sglang/srt/speculative/dflash_utils.py\<close> with its categorical kernels): the draft rows are sampled
  from full softmax tables, greedy requests take the arguments of the maxima and their tables
  become point masses, so that the rejection kernel can verify both kinds together.
\<close>

section \<open>The categorical kernels\<close>

definition categorical_block_sums_kernel :: "nat \<Rightarrow> real list \<Rightarrow> nat \<Rightarrow> real" where
  "categorical_block_sums_kernel block_size probs block = sum_list (row_block block_size block probs)"

definition categorical_select_kernel :: "nat \<Rightarrow> real list \<Rightarrow> real list \<Rightarrow> real \<Rightarrow> nat" where
  "categorical_select_kernel block_size probs block_values uniform =
     (let total_mass = sum_list block_values;
          target = uniform * total_mass;
          selected_block = pick target block_values;
          prefix_before = sum_list (take selected_block block_values);
          token_values = row_block block_size selected_block probs;
          selected_local = min (count_le (target - prefix_before) (running_sums token_values))
                               (length probs - 1 - selected_block * block_size)
      in selected_block * block_size + selected_local)"

definition sample_latentspec_categorical :: "real list list \<Rightarrow> real list \<Rightarrow> nat list" where
  "sample_latentspec_categorical flat_probs uniforms =
     map2 (\<lambda>probs u. categorical_select_kernel sample_block_size probs
              (map (categorical_block_sums_kernel sample_block_size probs) [0..<cdiv (length probs) sample_block_size]) u)
       flat_probs uniforms"

lemma categorical_select_exact:
  assumes n: "nonneg ps" and s: "0 < sum_list ps" and w: "0 < w" and u: "0 \<le> u" "u < 1"
  shows "categorical_select_kernel w ps (map (categorical_block_sums_kernel w ps) [0..<cdiv (length ps) w]) u
    = icdf ps (u * sum_list ps)"
proof -
  define t where "t = u * sum_list ps"
  have t: "0 \<le> t" "t < sum_list ps" using s u by (simp_all add: t_def)
  define b where "b = icdf (block_sums w ps) t"
  note two = two_level_exact [OF n t w, folded b_def]
  have bs: "map (categorical_block_sums_kernel w ps) [0..<cdiv (length ps) w] = block_sums w ps"
    by (simp add: block_sums_def categorical_block_sums_kernel_def)
  have pk: "pick t (block_sums w ps) = b" unfolding b_def by (rule pick_icdf [OF block_sums_nonneg [OF n]])
  have pre: "sum_list (take b (block_sums w ps)) = sum_list (take (b * w) ps)" using block_sums_prefix [of b ps w] two(1) by simp
  have nb: "nonneg (row_block w b ps)" using n by (auto simp: row_block_def py_slice_def dest: in_set_takeD in_set_dropD)
  have ne: "row_block w b ps \<noteq> []" using two(2,3) by auto
  have loc: "count_le (t - sum_list (take (b * w) ps)) (running_sums (row_block w b ps)) = icdf (row_block w b ps) (t - sum_list (take (b * w) ps))"
    using count_le_icdf [OF nb two(3)] ne by blast
  have "ps \<noteq> []" using s by auto
  then have "icdf ps t < length ps" by (rule icdf_less)
  then have "b * w + min (icdf (row_block w b ps) (t - sum_list (take (b * w) ps))) (length ps - 1 - b * w) = icdf ps t"
    using two(4) by linarith
  then show ?thesis
    unfolding bs categorical_select_kernel_def Let_def sum_block_sums [OF w] t_def [symmetric] pk pre loc .
qed

section \<open>Tokens and tables of a batch\<close>

text \<open>
  \<open>draft_probs.mul_(~greedy_mask)\<close> and \<open>scatter_add_\<close> of one at the argument of the maximum, on the row
  of a request.
\<close>

definition mask_table :: "bool \<Rightarrow> real list \<Rightarrow> real list \<Rightarrow> real list" where
  "mask_table greedy logits probs =
     (let zeroed = map (\<lambda>p. p * (if greedy then 0 else 1)) probs;
          a = argmax logits
      in zeroed[a := zeroed ! a + (if greedy then 1 else 0)])"

text \<open>\<open>multinomial\<close> stands for \<open>torch.multinomial\<close>, used off the GPU.\<close>

definition sample_latentspec_draft_tokens ::
  "bool \<Rightarrow> (real list list \<Rightarrow> nat list) \<Rightarrow> nat \<Rightarrow> real list list list \<Rightarrow> real list \<Rightarrow> bool list \<Rightarrow> bool \<Rightarrow> real list
   \<Rightarrow> (nat list list \<times> real list list list) res" where
  "sample_latentspec_draft_tokens cuda multinomial num_proposals draft_logits temperatures greedy_mask is_any_greedy uniforms =
     (let bs = length draft_logits in
      bindE (check (length temperatures = bs) ValueError) (\<lambda>_.
      bindE (check (length greedy_mask = bs) ValueError) (\<lambda>_.
      let sample_probs = softmax_rows draft_logits temperatures;
          flat_probs = concat sample_probs;
          flat_tokens = (if cuda then sample_latentspec_categorical flat_probs uniforms else multinomial flat_probs);
          sampled_tokens = map (\<lambda>r. row_block num_proposals r flat_tokens) [0..<bs]
      in
      if \<not> is_any_greedy then Inr (sampled_tokens, sample_probs)
      else
        let argmax_tokens = map (map argmax) draft_logits;
            tokens = map (\<lambda>r. if greedy_mask ! r then argmax_tokens ! r else sampled_tokens ! r) [0..<bs];
            tables = map (\<lambda>r. map2 (mask_table (greedy_mask ! r)) (draft_logits ! r) (sample_probs ! r)) [0..<bs]
        in Inr (tokens, tables))))"

definition point_mass :: "nat \<Rightarrow> nat \<Rightarrow> real list" where
  "point_mass v a = map (\<lambda>x. if x = a then 1 else 0) [0..<v]"

lemma mask_table_greedy:
  assumes "length logits = v" and "0 < v" and "length probs = v"
  shows "mask_table True logits probs = point_mass v (argmax logits)"
proof -
  have "argmax logits < v" using argmax_less [of logits] assms(1,2) by auto
  then show ?thesis using assms(3) by (intro nth_equalityI) (auto simp: mask_table_def Let_def point_mass_def nth_list_update)
qed

lemma mask_table_sampling:
  assumes "length logits = length probs" shows "mask_table False logits probs = probs"
  by (simp add: mask_table_def Let_def)

text \<open>What a request of the batch gets: a greedy one its maxima and point masses, a sampling one draws from its softmax rows.\<close>

lemma sampled_request:
  assumes ls: "logits_ok n v ls" and v: "0 < v" and us: "length us = length ls * n" "unit_interval us"
    and len: "length temps = length ls" "length gm = length ls" and r: "r < length ls" and j: "j < n"
    and res: "sample_latentspec_draft_tokens True multinomial n ls temps gm any us = Inr (toks, tables)"
    and any: "gm ! r \<Longrightarrow> any"
  shows "toks ! r ! j = (if gm ! r then argmax (ls ! r ! j)
           else icdf (softmax_of (scaled (temps ! r) (ls ! r ! j))) (us ! (r * n + j)))"
    and "tables ! r ! j = (if gm ! r then point_mass v (argmax (ls ! r ! j)) else softmax_of (scaled (temps ! r) (ls ! r ! j)))"
proof -
  let ?sp = "softmax_rows ls temps"
  let ?row = "softmax_of (scaled (temps ! r) (ls ! r ! j))"
  have lr: "length (ls ! r) = n" and lj: "length (ls ! r ! j) = v" using logits_ok_row [OF ls r] j by simp_all
  have sp: "\<forall>x \<in> set ?sp. length x = n" "length ?sp = length ls"
    using ls len(1) by (auto simp: softmax_rows_def logits_ok_def dest: set_zip_leftD)
  have row: "?sp ! r ! j = ?row" using softmax_rows_nth [of temps ls r j] len(1) r lr j by simp
  have lcat: "length (concat ?sp) = length ls * n" using length_concat_uniform [OF sp(1)] sp(2) by (simp only:)
  have i: "r * n + j < length (concat ?sp)" "r * n + j < length us"
    using row_index [OF r j] by (simp_all only: lcat us(1))
  have ne: "scaled (temps ! r) (ls ! r ! j) \<noteq> []" using lj v by auto
  have u: "0 \<le> us ! (r * n + j)" "us ! (r * n + j) < 1" using us(2) i(2) by (simp_all add: unit_interval_def)
  define flat where "flat = sample_latentspec_categorical (concat ?sp) us"
  have fl: "length flat = length ls * n" using us(1) lcat unfolding flat_def sample_latentspec_categorical_def length_map length_zip by (simp only: min.idem)
  have cat: "concat ?sp ! (r * n + j) = ?row" using nth_concat_uniform [OF sp(1), of r j] sp(2) r j row by simp
  have "categorical_select_kernel sample_block_size ?row
      (map (categorical_block_sums_kernel sample_block_size ?row) [0..<cdiv (length ?row) sample_block_size]) (us ! (r * n + j))
    = icdf ?row (us ! (r * n + j) * sum_list ?row)"
    by (rule categorical_select_exact [OF softmax_of_nonneg [OF ne] _ _ u]) (simp_all add: softmax_of_sum [OF ne] sample_block_size_def)
  then have "flat ! (r * n + j) = icdf ?row (us ! (r * n + j) * sum_list ?row)"
    using i cat unfolding flat_def sample_latentspec_categorical_def by (subst nth_map) simp_all
  then have st: "map (\<lambda>r. row_block n r flat) [0..<length ls] ! r ! j = icdf ?row (us ! (r * n + j))"
    using view_nth [OF fl r j] softmax_of_sum [OF ne] by simp
  have out: "toks = (if any then map (\<lambda>r. if gm ! r then map (map argmax) ls ! r else map (\<lambda>r. row_block n r flat) [0..<length ls] ! r) [0..<length ls]
        else map (\<lambda>r. row_block n r flat) [0..<length ls])"
      "tables = (if any then map (\<lambda>r. map2 (mask_table (gm ! r)) (ls ! r) (?sp ! r)) [0..<length ls] else ?sp)"
    using res len unfolding sample_latentspec_draft_tokens_def Let_def flat_def by (auto split: if_splits)
  show "toks ! r ! j = (if gm ! r then argmax (ls ! r ! j) else icdf ?row (us ! (r * n + j)))"
    using out(1) st r lr j any by (cases "any"; cases "gm ! r") simp_all
  have "length (?sp ! r) = n" using sp r by simp
  then show "tables ! r ! j = (if gm ! r then point_mass v (argmax (ls ! r ! j)) else ?row)"
    using out(2) row r lr j any lj v mask_table_greedy [OF lj v, of ?row] mask_table_sampling [of "ls ! r ! j" ?row]
    by (cases "any"; cases "gm ! r") simp_all
qed

section \<open>Greedy requests of a sampling batch\<close>

text \<open>On point masses the rejection chain is the greedy rule.\<close>

lemma point_mass_nth [simp]: "x < v \<Longrightarrow> point_mass v a ! x = (if x = a then 1 else 0)"
  by (simp add: point_mass_def)

lemma point_mass_draw:
  assumes "a < v" and "0 \<le> c" and "c < 1"
  shows "icdf (point_mass v a) (c * sum_list (point_mass v a)) = a"
proof -
  have pre: "sum_list (take k (point_mass v a)) = (if a < k then 1 else 0)" if "k \<le> v" for k
    using that
  proof (induction k)
    case (Suc k)
    have "take (Suc k) (point_mass v a) = take k (point_mass v a) @ [point_mass v a ! k]"
      using Suc.prems by (intro take_Suc_conv_app_nth) (simp add: point_mass_def)
    then show ?case using Suc by auto
  qed simp
  have tot: "sum_list (point_mass v a) = 1" using pre [of v] assms(1) by (simp add: point_mass_def)
  have "nonneg (point_mass v a)" by (auto simp: point_mass_def)
  then have "icdf (point_mass v a) c = a"
    using icdf_iff [of "point_mass v a" c a] assms tot pre [of a] pre [of "Suc a"] by (simp add: point_mass_def)
  then show ?thesis using tot by simp
qed

lemma point_mass_sum: "a < v \<Longrightarrow> sum_list (point_mass v a) = 1"
proof (rule ccontr)
  assume a: "a < v" and "sum_list (point_mass v a) \<noteq> 1"
  moreover have "sum_list (point_mass v a) = (\<Sum>x<v. if x = a then 1 else 0)"
    by (simp add: point_mass_def sum_list_distinct_conv_sum_set atLeast0LessThan)
  ultimately show False by (simp add: sum.delta)
qed

lemma point_mass_chain:
  assumes len: "length cand = n" "0 < n" and tgt: "length target = n" "\<forall>t \<in> set target. t < v"
    and drafts: "\<forall>t \<in> set (drop 1 cand). t < v"
    and p: "\<And>j x. j < n \<Longrightarrow> x < v \<Longrightarrow> p j x = point_mass v (target ! j) ! x"
    and q: "\<And>j x. j < n - 1 \<Longrightarrow> x < v \<Longrightarrow> q j x = point_mass v (cand ! Suc j) ! x"
    and us: "length us = n - 1" "unit_interval us" and c: "0 \<le> c" "c < 1"
  shows "emitted p q v (drop 1 cand) us c = greedy_tokens cand target"
proof -
  have dj: "cand ! Suc j < v" if "j < n - 1" for j
  proof -
    have "drop 1 cand ! j \<in> set (drop 1 cand)" using that len by (intro nth_mem) simp
    then show ?thesis using drafts that len by simp
  qed
  have tj: "target ! j < v" if "j < n" for j using that tgt by simp
  have acc: "accepts p q (drop 1 cand) us j \<longleftrightarrow> cand ! Suc j = target ! j" if j: "j < n - 1" for j
  proof -
    have "us ! j \<in> set us" using j us(1) by simp
    then have "us ! j < 1" "0 \<le> us ! j" using us(2) by (auto simp: unit_interval_def)
    then show ?thesis using j len p [of j "cand ! Suc j"] q [of j "cand ! Suc j"] dj [OF j] by (auto simp: accepts_def)
  qed
  have k: "accepted_len p q (drop 1 cand) us = leading_matches cand target"
    unfolding accepted_len_def leading_matches_def
    by (rule arg_cong [of _ _ length], rule takeWhile_cong) (use acc len in simp_all)
  let ?k = "leading_matches cand target"
  have kn: "?k < n" using leading_matches_less [of cand target] len by simp
  have "final_weights p q v (?k = n - 1) ?k = point_mass v (target ! ?k)"
  proof (cases "?k = n - 1")
    case True
    then show ?thesis using p kn by (intro nth_equalityI) (simp_all add: final_weights_def point_mass_def)
  next
    case False
    then have "?k < n - 1" using kn by simp
    moreover have "cand ! Suc ?k \<noteq> target ! ?k" using leading_matches_spec(2) [of cand target] \<open>?k < n - 1\<close> len by simp
    ultimately show ?thesis using p [of ?k] q [of ?k] kn by (intro nth_equalityI) (auto simp: final_weights_def point_mass_def)
  qed
  moreover have "final_sample block_v (point_mass v (target ! ?k)) c = target ! ?k"
  proof -
    have s: "sum_list (point_mass v (target ! ?k)) = 1" by (rule point_mass_sum [OF tj [OF kn]])
    have "nonneg (point_mass v (target ! ?k))" by (auto simp: point_mass_def)
    then show ?thesis
      using cdf_scan_exact [of "point_mass v (target ! ?k)" c block_v] c s point_mass_draw [OF tj [OF kn] c]
      by (simp add: final_sample_def block_total_sum block_v_def)
  qed
  ultimately show ?thesis using len unfolding emitted_def k Let_def greedy_tokens_def by simp
qed



end
