(* ===== verification/Spec2Isabelle.thy ===== *)
theory Spec2Isabelle
  imports Chat_Supervision Target_Cache Eagle3_Training Eval_Metrics Radix_Requests Draft_Loss Training_Run Jsonl_Dataset
    Serving_Equivalence Draft_Tables
begin

text \<open>
  A verification library for LatentSpec, speculative decoding of language models. The repository
  has two halves: \<^verbatim>\<open>src/DeepSpec\<close> trains draft models and evaluates them against a
  target model, \<^verbatim>\<open>src/sglang\<close> is the serving engine that runs them. A draft
  model proposes a few tokens, the target model scores them in one pass, and a rejection rule
  commits a prefix of them and one token of the target model.

  \<^bold>\<open>How the parts interact.\<close> Conversations become supervised token sequences; a preparation
  script runs the target model on them and stores the hidden states in a cache of shards that the
  trainer reads back. The trainer samples blocks of the sequences, runs the drafter and reduces
  losses and metrics over the ranks. The evaluator decodes with a trained drafter. The serving engine
  does the same on batches of requests, with kernels for sampling and verification; its requests keep their
  key/value rows in slots of a page allocator and share them through a prefix cache.

  \<^bold>\<open>Conventions.\<close> \<open>Prelude\<close> has the exceptions as values of \<open>py_error\<close>, fallible operations of type
  \<open>'a res\<close> with \<open>bindE\<close>, \<open>mapE\<close>, \<open>foldE\<close>, Python slices and shared list lemmas; \<open>res_simps\<close> inverts
  successful computations. State is passed explicitly in records named after the classes. Code from
  outside the repository (torch, tokenizers, transformer layers, random generators, JSON) is a parameter of the definitions,
  with its documented behaviour as hypotheses of the theorems that need it. Floating-point numbers are exact rationals or
  reals, so rounding is outside the model; indices of the target cache and the stored hidden states are words.

  \<^bold>\<open>Decoding and evaluation\<close> (\<^verbatim>\<open>DeepSpec/deepspec/eval\<close>, \<^verbatim>\<open>utils/sampling.py\<close>).
  \<^item> \<open>Sampling\<close>: \<open>logits_to_probs\<close>, \<open>sample_from_probs\<close>, the residual distribution.
  \<^item> \<open>Speculative_Decoding\<close>: \<open>verify_draft_tokens\<close> and \<open>generate_decoding_sample\<close> of
    \<^verbatim>\<open>base_evaluator.py\<close>; \<open>decode_step\<close> is the body of the loop on the state of buffer, position and caches.
    \<open>Verification_Step\<close> has the facts about one verification.
  \<^item> \<open>Lossless_Decoding\<close>: greedy decoding returns the tokens of the target model alone.
    \<open>Rejection_Sampling\<close>: at a positive temperature a position has the distribution of the target model.
    \<open>Decoding_Accounting\<close>: decoding raises nothing and its statistics add up.
  \<^item> \<open>Markov_Head\<close>, \<open>Confidence_Metrics\<close>, \<open>Block_Drafter\<close>: the heads, the calibration statistics and the proposals of
    DSpark and MySpec (\<^verbatim>\<open>modeling/myspec\<close>, \<^verbatim>\<open>modeling/dspark\<close>, \<^verbatim>\<open>draft_ops.py\<close>, \<^verbatim>\<open>confidence_head.py\<close>), and lossless decoding
    with these drafters. \<open>Eagle3_Drafter\<close>: the same for Eagle3, with its cache.
  \<^item> \<open>Work_Sharing\<close>, \<open>Eval_Metrics\<close>: the share of every rank and the metrics rows, which do not depend
    on the number of ranks.

  \<^bold>\<open>Data\<close> (\<^verbatim>\<open>DeepSpec/deepspec/data\<close>, \<^verbatim>\<open>scripts/data/prepare_target_cache.py\<close>).
  \<^item> \<open>Chat_Supervision\<close>: templates, messages, the regular expression for assistant replies and the loss mask of
    \<^verbatim>\<open>parser.py\<close>, and the collators; the mask marks exactly the replies.
  \<^item> \<open>Index_Codec\<close>, \<open>Cache_Writer\<close>, \<open>Async_Writer\<close>, \<open>Cache_Finalize\<close>, \<open>Cache_Merge\<close>, \<open>Cache_Dataset\<close>, \<open>Target_Cache\<close>:
    \<^verbatim>\<open>target_cache_dataset.py\<close> from the index records to the reader. The writer thread and its queue are the step relation
    \<open>async_step\<close>; no sample is lost and no call waits forever. What is merged from all ranks is read back.
  \<^item> \<open>Jsonl_Dataset\<close>: random access to lines by offsets, scanned or cached.

  \<^bold>\<open>Training\<close> (\<^verbatim>\<open>DeepSpec/deepspec/modeling\<close>, \<^verbatim>\<open>trainer\<close>, \<^verbatim>\<open>utils\<close>).
  \<^item> \<open>Anchor_Blocks\<close>, \<open>Training_Forward\<close>, \<open>Draft_Loss\<close>: block sampling, masks and labels, the
    forward pass and the loss of the block drafters. A training block sees what the drafter sees at inference; the
    mean of the ranks' losses is the loss of all data.
  \<^item> \<open>Fused_Loss\<close>, \<open>Eagle3_Training\<close>: the fused cross-entropy kernels and the training-time test of Eagle3.
  \<^item> \<open>Resumable_Sampler\<close>, \<open>Batch_Prefetcher\<close>, \<open>Bf16_Optimizer\<close>, \<open>Train_Metrics\<close>, \<open>Training_Run\<close>: the trainer with
    checkpoints, suspension and crashes; a restarted job ends as an uninterrupted one.

  \<^bold>\<open>Serving: verification\<close> (\<^verbatim>\<open>sglang/srt/speculative\<close>, \<^verbatim>\<open>sglang/kernels/ops/speculative\<close>).
  \<^item> \<open>Inverse_Cdf\<close>, \<open>Latent_Sampler\<close>: sampling by running sums, in one scan and in two levels of blocks, from tables and
    straight from logits (\<^verbatim>\<open>dflash_utils.py\<close>).
  \<^item> \<open>Chain_Verify\<close>, \<open>Serving_Accept\<close>, \<open>Draft_Tables\<close>: the rejection kernels over reused buffers, the greedy rule in its three
    implementations (locale \<open>greedy_rule\<close>) and \<open>_accept_block\<close> of \<^verbatim>\<open>dflash_worker_v2.py\<close>.
  \<^item> \<open>Serving_Equivalence\<close>: on the same inputs the engine commits what \<open>verify_draft_tokens\<close> commits.

  \<^bold>\<open>Serving: memory\<close> (\<^verbatim>\<open>sglang/srt/mem_cache\<close>).
  \<^item> \<open>Kv_Allocator\<close>, \<open>Kv_Rows\<close>, \<open>Kv_Segments\<close>: the token and page allocators (locale \<open>slot_allocator\<close>), the extend and decode
    kernels as stores of programs in any order, and frees. \<open>kv_step\<close> is the step relation of requests over the page allocator.
  \<^item> \<open>Radix_Key\<close>, \<open>Radix_Cache\<close>, \<open>Radix_Tree\<close>, \<open>Radix_Locks\<close>, \<open>Radix_Slots\<close>, \<open>Radix_Match\<close>, \<open>Radix_Evict\<close>: the prefix cache as a
    store of nodes, read as the map from prefixes to slots; lookup, insertion, locks and eviction.
  \<^item> \<open>Radix_Pool\<close>, \<open>Radix_Requests\<close>: the cache over an allocator. Locale \<open>segment_pool\<close> is what eviction relies on,
    \<open>row_pool\<close> extends it by what requests rely on, and both allocators are interpretations.

  \<^bold>\<open>Termination and fuel.\<close> The decoding loop ends since every iteration that goes on advances the position; the
  searches over texts, lines and keys and the verification loop have measures. Walks of the prefix cache
  follow references and take fuel: lookup and insertion one more than the length of the key, since every turn
  consumes a part of it, locks and eviction one more than the number of nodes ever created, since
  a path and the set of leaves are no larger. The theorems show that this fuel gives a result. The Eagle3
  drafting loop counts its iterations, as the code does. An endless sampler is a stream.

  \<^bold>\<open>Not modelled.\<close> The transformer layers and attention kernels are floating-point tensor programs and enter as parameters.
  Configuration files, argument parsing, weight loading, logging, plots, downloads and network services are input and output
  with no state of their own. Of the serving engine, the scheduler and the
  processes around it, the device buffers behind the slots, the caches and workers of other configurations, top-k and top-p
  filtering, tensor-parallel broadcasts and captured graphs are left out: the modelled operations are proved for every order of
  calls their preconditions allow, so no property rests on the scheduler. Copies between host and device, page hashes and events of the prefix cache
  do not change what the modelled operations return.
\<close>

end
